(* ===== verification/Prelude.thy ===== *)
theory Prelude
  imports Main "HOL-Library.Word" "HOL-Library.Monad_Syntax"
begin

unbundle bit_operations_syntax

text \<open>
  Shared types, automation and generic lemmas of the development.

  \<^item> Machine integers are words of the width the Rust code uses, so \<open>+\<close> wraps as the
    release build does.  Offsets and lengths (\<open>usize\<close>) are \<open>nat\<close>; a subtraction that
    could go below zero is written with \<open>usub\<close>.
  \<^item> A computation that can panic returns \<open>'a exec\<close>: \<open>None\<close> is a panic (an index or a
    slice out of range), \<open>Some x\<close> a normal return of \<open>x\<close>.  A Rust function that returns
    \<open>Option<T>\<close> and can panic has type \<open>'t option exec\<close>: \<open>Some None\<close> is its \<open>None\<close>.
  \<^item> \<open>rd\<close>, \<open>wr\<close>, \<open>slice\<close> and \<open>put_slice\<close> are \<open>buf[i]\<close>, \<open>buf[i] = v\<close>,
    \<open>&buf[a..b]\<close> and \<open>buf[a..b].copy_from_slice(..)\<close>, each with its bounds check.
  \<^item> \<open>fold_exec\<close> is a \<open>for\<close> loop over a list whose body updates a state and may panic.
  \<^item> The fixed-width field encodings (\<open>to_be_bytes\<close>, \<open>from_le_bytes\<close>, ...) come with their
    lengths and round trips.
\<close>

section \<open>Types\<close>

type_synonym u8 = "8 word"
type_synonym u16 = "16 word"
type_synonym u32 = "32 word"
type_synonym u64 = "64 word"
type_synonym bytes = "u8 list"
type_synonym mac = "u8 list"        \<comment> \<open>\<open>[u8; 6]\<close>\<close>
type_synonym 'a exec = "'a option"  \<comment> \<open>\<open>None\<close>: the code panicked\<close>

abbreviation ret :: "'a \<Rightarrow> 'a exec" where "ret \<equiv> Some"
abbreviation panic :: "'a exec" where "panic \<equiv> None"

text \<open>
  \<open>exec_simps\<close>: buffer accesses whose bounds are known.
  \<open>len_simps\<close>: lengths of buffers, encodings and frames.
\<close>

named_theorems exec_simps \<open>buffer accesses under their bounds\<close>
named_theorems len_simps \<open>lengths of encodings and frames\<close>

section \<open>Checked buffer access\<close>

definition rd :: "'a list \<Rightarrow> nat \<Rightarrow> 'a exec" where
  "rd buf i = (if i < length buf then ret (buf ! i) else panic)"

definition wr :: "'a list \<Rightarrow> nat \<Rightarrow> 'a \<Rightarrow> 'a list exec" where
  "wr buf i v = (if i < length buf then ret (buf[i := v]) else panic)"

definition slice :: "'a list \<Rightarrow> nat \<Rightarrow> nat \<Rightarrow> 'a list exec" where
  "slice buf a b = (if a \<le> b \<and> b \<le> length buf then ret (take (b - a) (drop a buf)) else panic)"

definition splice :: "'a list \<Rightarrow> nat \<Rightarrow> 'a list \<Rightarrow> 'a list" where
  "splice buf a vs = take a buf @ vs @ drop (a + length vs) buf"

definition put_slice :: "'a list \<Rightarrow> nat \<Rightarrow> nat \<Rightarrow> 'a list \<Rightarrow> 'a list exec" where
  "put_slice buf a b vs =
     (if a \<le> b \<and> b \<le> length buf \<and> length vs = b - a then ret (splice buf a vs) else panic)"

definition usub :: "nat \<Rightarrow> nat \<Rightarrow> nat exec" where
  "usub a b = (if b \<le> a then ret (a - b) else panic)"

lemma rd_ok [exec_simps]: "i < length buf \<Longrightarrow> rd buf i = ret (buf ! i)"
  by (simp add: rd_def)

lemma rd_0: "rd buf 0 = (case buf of [] \<Rightarrow> panic | x # _ \<Rightarrow> ret x)"
  by (simp add: rd_def split: list.split)

lemma wr_ok [exec_simps]: "i < length buf \<Longrightarrow> wr buf i v = ret (buf[i := v])"
  by (simp add: wr_def)

lemma slice_ok [exec_simps]:
  "a \<le> b \<Longrightarrow> b \<le> length buf \<Longrightarrow> slice buf a b = ret (take (b - a) (drop a buf))"
  by (simp add: slice_def)

lemma put_slice_ok [exec_simps]:
  "a \<le> b \<Longrightarrow> b \<le> length buf \<Longrightarrow> length vs = b - a \<Longrightarrow> put_slice buf a b vs = ret (splice buf a vs)"
  by (simp add: put_slice_def)

lemma usub_ok [exec_simps]: "b \<le> a \<Longrightarrow> usub a b = ret (a - b)"
  by (simp add: usub_def)

lemma length_splice [simp, len_simps]:
  "a + length vs \<le> length buf \<Longrightarrow> length (splice buf a vs) = length buf"
  by (simp add: splice_def)

lemma nth_splice:
  "a + length vs \<le> length buf \<Longrightarrow> i < length buf \<Longrightarrow>
   splice buf a vs ! i = (if a \<le> i \<and> i < a + length vs then vs ! (i - a) else buf ! i)"
  by (auto simp: splice_def nth_append min_def)

lemma nth_splice_out [simp]:
  "a + length vs \<le> length buf \<Longrightarrow> i < a \<or> a + length vs \<le> i \<Longrightarrow> i < length buf \<Longrightarrow>
   splice buf a vs ! i = buf ! i"
  by (auto simp: nth_splice)

lemma take_drop_splice_same:
  "a + length vs \<le> length buf \<Longrightarrow> take (length vs) (drop a (splice buf a vs)) = vs"
  by (simp add: splice_def)

lemma take_drop_splice_out:
  assumes "a + length vs \<le> length buf" and "j + n \<le> a \<or> a + length vs \<le> j"
  shows "take n (drop j (splice buf a vs)) = take n (drop j buf)"
  using assms(2)
proof
  assume "j + n \<le> a"
  then show ?thesis using assms(1)
    by (simp add: splice_def take_drop min_def)
next
  assume "a + length vs \<le> j"
  then show ?thesis using assms(1)
    by (simp add: splice_def)
qed

lemma update_eq_splice: "i < length buf \<Longrightarrow> buf[i := v] = splice buf i [v]"
  by (simp add: splice_def upd_conv_take_nth_drop)

lemma length_wr: "wr buf i v = ret b \<Longrightarrow> length b = length buf"
  by (auto simp: wr_def split: if_splits)

lemma length_put_slice: "put_slice buf a b vs = ret b' \<Longrightarrow> length b' = length buf"
  by (auto simp: put_slice_def splice_def split: if_splits)

lemma bind_exec_Some [simp]:
  "(Option.bind m f = Some y) \<longleftrightarrow> (\<exists>x. m = Some x \<and> f x = Some y)"
  by (cases m) auto

text \<open>Loops over a list.\<close>

fun fold_exec :: "('a \<Rightarrow> 's \<Rightarrow> 's exec) \<Rightarrow> 'a list \<Rightarrow> 's \<Rightarrow> 's exec" where
  "fold_exec f [] s = ret s"
| "fold_exec f (x # xs) s = do { s \<leftarrow> f x s; fold_exec f xs s }"

lemma fold_exec_inv:
  assumes "P s" and "\<And>x s. x \<in> set xs \<Longrightarrow> P s \<Longrightarrow> \<exists>s'. f x s = ret s' \<and> P s'"
  shows "\<exists>s'. fold_exec f xs s = ret s' \<and> P s'"
  using assms
proof (induction xs arbitrary: s)
  case (Cons x xs)
  obtain s1 where "f x s = ret s1" "P s1" using Cons.prems by auto
  with Cons.IH [of s1] Cons.prems show ?case by auto
qed simp

lemma fold_exec_append: "fold_exec f (xs @ ys) s = Option.bind (fold_exec f xs s) (fold_exec f ys)"
proof (induction xs arbitrary: s)
  case (Cons x xs)
  then show ?case by (cases "f x s") auto
qed simp

text \<open>Offsets stay \<open>off + 1\<close> and \<open>off + 2\<close> in proofs that delete these.\<close>

lemmas nat_shift = add_2_eq_Suc add_2_eq_Suc' One_nat_def

lemma ex_not_bool [simp]: "\<exists>x. \<not> x" "Ex Not" "\<exists>x. x"
  by (rule exI [of _ False], simp) (rule exI [of Not False], simp, rule exI [of _ True], simp)

section \<open>Fixed-width fields\<close>

definition be16 :: "u8 \<Rightarrow> u8 \<Rightarrow> u16" where
  "be16 a b = word_of_nat (unat a * 256 + unat b)"

definition le16 :: "u8 \<Rightarrow> u8 \<Rightarrow> u16" where
  "le16 a b = be16 b a"

definition be32 :: "u8 \<Rightarrow> u8 \<Rightarrow> u8 \<Rightarrow> u8 \<Rightarrow> u32" where
  "be32 a b c d = word_of_nat (((unat a * 256 + unat b) * 256 + unat c) * 256 + unat d)"

definition le32 :: "u8 \<Rightarrow> u8 \<Rightarrow> u8 \<Rightarrow> u8 \<Rightarrow> u32" where
  "le32 a b c d = be32 d c b a"

definition to_be16 :: "u16 \<Rightarrow> bytes" where
  "to_be16 w = [ucast (drop_bit 8 w), ucast w]"

definition to_le16 :: "u16 \<Rightarrow> bytes" where
  "to_le16 w = [ucast w, ucast (drop_bit 8 w)]"

definition to_be32 :: "u32 \<Rightarrow> bytes" where
  "to_be32 w = [ucast (drop_bit 24 w), ucast (drop_bit 16 w), ucast (drop_bit 8 w), ucast w]"

definition to_le32 :: "u32 \<Rightarrow> bytes" where
  "to_le32 w = [ucast w, ucast (drop_bit 8 w), ucast (drop_bit 16 w), ucast (drop_bit 24 w)]"

text \<open>The same codecs in word arithmetic, for evaluation.\<close>

lemma be16_code [code]: "be16 a b = ucast a * 256 + ucast b"
  by (simp add: be16_def)

lemma be32_code [code]: "be32 a b c d = ((ucast a * 256 + ucast b) * 256 + ucast c) * 256 + ucast d"
  by (simp add: be32_def)

lemma unat_u8_lt [simp]: "unat (b :: u8) < 256"
  using unsigned_less [of b, where 'a = nat] by simp

lemma unat_u8_le [simp]: "unat (b :: u8) \<le> 255"
  using unat_u8_lt [of b] by linarith

lemma unat_u16_lt [simp]: "unat (b :: u16) < 65536"
  using unsigned_less [of b, where 'a = nat] by simp

lemma unat_u16_le [simp]: "unat (b :: u16) \<le> 65535"
  using unat_u16_lt [of b] by linarith

lemma unat_u32_lt [simp]: "unat (b :: u32) < 4294967296"
  using unsigned_less [of b, where 'a = nat] by simp

lemma base256_bound16: "a < 256 \<Longrightarrow> b < 256 \<Longrightarrow> a * 256 + b < (65536 :: nat)"
  by linarith

lemma base256_bound32:
  assumes "a < 256" and "b < 256" and "c < 256" and "d < 256"
  shows "((a * 256 + b) * 256 + c) * 256 + d < (4294967296 :: nat)"
proof -
  have "a * 256 + b < 65536"
    using assms by (intro base256_bound16)
  then have "(a * 256 + b) * 256 + c < 16777216"
    using assms(3) by simp
  then show ?thesis using assms(4) by simp
qed

lemma unat_word_of_nat: "n < 2 ^ LENGTH('a) \<Longrightarrow> unat (word_of_nat n :: 'a::len word) = n"
  by (simp only: unat_of_nat mod_less)

lemma unat_be16: "unat (be16 a b) = unat a * 256 + unat b"
proof -
  have "unat a * 256 + unat b < 2 ^ LENGTH(16)"
    using base256_bound16 [of "unat a" "unat b"] by simp
  then show ?thesis unfolding be16_def by (rule unat_word_of_nat)
qed

lemma unat_be32:
  "unat (be32 a b c d) = ((unat a * 256 + unat b) * 256 + unat c) * 256 + unat d"
proof -
  have "((unat a * 256 + unat b) * 256 + unat c) * 256 + unat d < 2 ^ LENGTH(32)"
    using base256_bound32 [of "unat a" "unat b" "unat c" "unat d"] by simp
  then show ?thesis unfolding be32_def by (rule unat_word_of_nat)
qed

lemma unat_drop_bit_word: "unat (drop_bit n (w :: 'a::len word)) = unat w div 2 ^ n"
  using unat_drop_bit_eq [of n w] by (simp add: drop_bit_eq_div del: unsigned_drop_bit_eq)

lemma unat_ucast_u8: "unat (ucast (w :: 'a::len word) :: u8) = unat w mod 256"
  by (simp add: unsigned_ucast_eq take_bit_eq_mod)

lemmas unat_field_simps = unat_be16 unat_be32 unat_ucast_u8 unat_drop_bit_word

lemma be16_to_be16 [simp]: "be16 (ucast (drop_bit 8 w)) (ucast (w :: u16)) = w"
proof (rule word_unat_eq_iff [THEN iffD2])
  have "unat w div 256 < 256"
    using unat_u16_lt [of w] by linarith
  then show "unat (be16 (ucast (drop_bit 8 w)) (ucast w)) = unat w"
    by (simp add: unat_field_simps del: drop_bit_of_nat)
qed

lemma base256_digits32:
  "((x div 16777216 mod 256 * 256 + x div 65536 mod 256) * 256 + x div 256 mod 256) * 256
     + x mod 256 = x" if "x < 4294967296" for x :: nat
proof -
  have "x div 65536 = x div 256 div 256" and "x div 16777216 = x div 256 div 256 div 256"
    by (simp_all add: div_mult2_eq [symmetric])
  moreover have "x div 256 div 256 div 256 < 256"
    using that by linarith
  ultimately show ?thesis by simp
qed

lemma be32_to_be32 [simp]:
  "be32 (ucast (drop_bit 24 w)) (ucast (drop_bit 16 w)) (ucast (drop_bit 8 w)) (ucast (w :: u32)) = w"
proof (rule word_unat_eq_iff [THEN iffD2])
  have "2 ^ 24 = (16777216 :: nat)" and "2 ^ 16 = (65536 :: nat)" and "2 ^ 8 = (256 :: nat)"
    by simp_all
  then show "unat (be32 (ucast (drop_bit 24 w)) (ucast (drop_bit 16 w))
      (ucast (drop_bit 8 w)) (ucast w)) = unat w"
    using base256_digits32 [OF unat_u32_lt [of w]] by (simp only: unat_field_simps)
qed

lemma ucast_be16_hi [simp]: "ucast (drop_bit 8 (be16 a b)) = a"
  by (rule word_unat_eq_iff [THEN iffD2])
    (simp add: unat_ucast_u8 unat_drop_bit_word unat_be16)

lemma ucast_be16_lo [simp]: "ucast (be16 a b) = b"
  by (rule word_unat_eq_iff [THEN iffD2])
    (simp add: unat_ucast_u8 unat_be16 mod_mult_self3)

lemma be16_inject [simp]: "be16 a b = be16 c d \<longleftrightarrow> a = c \<and> b = d"
  by (metis ucast_be16_hi ucast_be16_lo)

lemma div256: "d < 256 \<Longrightarrow> (x * 256 + d) div 256 = (x :: nat)"
  by simp

lemma base256_div32:
  fixes a b c d :: nat
  assumes "b < 256" and "c < 256" and "d < 256"
  shows "(((a * 256 + b) * 256 + c) * 256 + d) div 256 = (a * 256 + b) * 256 + c"
    and "(((a * 256 + b) * 256 + c) * 256 + d) div 65536 = a * 256 + b"
    and "(((a * 256 + b) * 256 + c) * 256 + d) div 16777216 = a"
proof -
  have p: "65536 = 256 * (256 :: nat)" "16777216 = 256 * (256 * (256 :: nat))"
    by simp_all
  show "(((a * 256 + b) * 256 + c) * 256 + d) div 256 = (a * 256 + b) * 256 + c"
    by (rule div256 [OF assms(3)])
  show "(((a * 256 + b) * 256 + c) * 256 + d) div 65536 = a * 256 + b"
    by (simp only: p div_mult2_eq div256 [OF assms(3)] div256 [OF assms(2)])
  show "(((a * 256 + b) * 256 + c) * 256 + d) div 16777216 = a"
    by (simp only: p div_mult2_eq div256 [OF assms(3)] div256 [OF assms(2)] div256 [OF assms(1)])
qed

lemma to_be32_be32 [simp]: "to_be32 (be32 a b c d) = [a, b, c, d]"
proof -
  have p: "2 ^ 24 = (16777216 :: nat)" "2 ^ 16 = (65536 :: nat)" "2 ^ 8 = (256 :: nat)"
    by simp_all
  note d = base256_div32 [OF unat_u8_lt [of b] unat_u8_lt [of c] unat_u8_lt [of d]]
  have m: "(x * 256 + unat (y :: u8)) mod 256 = unat y" for x y
    by simp
  have "(ucast (drop_bit 24 (be32 a b c d)) :: u8) = a"
    by (simp only: word_unat_eq_iff unat_field_simps p d) simp
  moreover have "(ucast (drop_bit 16 (be32 a b c d)) :: u8) = b"
    by (simp only: word_unat_eq_iff unat_field_simps p d m)
  moreover have "(ucast (drop_bit 8 (be32 a b c d)) :: u8) = c"
    by (simp only: word_unat_eq_iff unat_field_simps p d m)
  moreover have "(ucast (be32 a b c d) :: u8) = d"
    by (simp only: word_unat_eq_iff unat_field_simps p d m)
  ultimately show ?thesis by (simp add: to_be32_def)
qed

lemma be32_inject [simp]:
  "be32 a b c d = be32 a' b' c' d' \<longleftrightarrow> a = a' \<and> b = b' \<and> c = c' \<and> d = d'"
proof
  assume "be32 a b c d = be32 a' b' c' d'"
  then have "to_be32 (be32 a b c d) = to_be32 (be32 a' b' c' d')" by (rule arg_cong)
  then show "a = a' \<and> b = b' \<and> c = c' \<and> d = d'" by simp
qed simp

section \<open>Two-byte fields in a buffer\<close>

definition put16 :: "bytes \<Rightarrow> nat \<Rightarrow> u16 \<Rightarrow> bytes" where
  "put16 buf i w = splice buf i (to_be16 w)"

lemma length_to_be16 [simp, len_simps]: "length (to_be16 w) = 2"
  by (simp add: to_be16_def)

lemma length_to_le16 [simp, len_simps]: "length (to_le16 w) = 2"
  by (simp add: to_le16_def)

lemma length_to_be32 [simp, len_simps]: "length (to_be32 w) = 4"
  by (simp add: to_be32_def)

lemma length_to_le32 [simp, len_simps]: "length (to_le32 w) = 4"
  by (simp add: to_le32_def)

lemma length_put16 [simp, len_simps]: "i + 2 \<le> length buf \<Longrightarrow> length (put16 buf i w) = length buf"
  by (simp add: put16_def)

lemma nth_put16_out [simp]:
  "i + 2 \<le> length buf \<Longrightarrow> j \<noteq> i \<Longrightarrow> j \<noteq> i + 1 \<Longrightarrow> j < length buf \<Longrightarrow> put16 buf i w ! j = buf ! j"
  by (auto simp: put16_def nth_splice)

lemma splice_splice_same:
  "i + length vs \<le> length buf \<Longrightarrow> length vs = length ws \<Longrightarrow> splice (splice buf i vs) i ws = splice buf i ws"
  by (simp add: splice_def)

lemma put16_put16_same [simp]: "i + 2 \<le> length buf \<Longrightarrow> put16 (put16 buf i v) i w = put16 buf i w"
  by (simp add: put16_def splice_splice_same)

lemma two_updates_splice:
  assumes "i + 2 \<le> length buf"
  shows "buf[i := a, Suc i := b] = splice buf i [a, b]"
proof (rule nth_equalityI)
  show "length (buf[i := a, Suc i := b]) = length (splice buf i [a, b])"
    using assms by simp
next
  fix j
  assume "j < length (buf[i := a, Suc i := b])"
  then show "buf[i := a, Suc i := b] ! j = splice buf i [a, b] ! j"
    using assms by (auto simp: nth_splice nth_list_update nth_Cons' not_less)
qed

lemma ucast_and_ff: "(ucast ((w :: u16) AND 0xff) :: u8) = ucast w"
proof -
  have "(w :: u16) AND 0xff = take_bit 8 w"
    by (simp add: take_bit_eq_mask mask_eq_exp_minus_1)
  moreover have "(ucast (take_bit 8 w) :: u8) = ucast w"
    by (rule bit_word_eqI) (simp add: bit_simps)
  ultimately show ?thesis by simp
qed

lemma two_updates_put16:
  "i + 2 \<le> length buf \<Longrightarrow>
   buf[i := ucast (drop_bit 8 w), Suc i := ucast (w AND 0xff)] = put16 buf i w"
  by (simp add: two_updates_splice put16_def to_be16_def ucast_and_ff)

lemma wr_pair:
  "i + 2 \<le> length buf \<Longrightarrow> j = i + 1 \<Longrightarrow>
   Option.bind (wr buf i (ucast (drop_bit 8 w))) (\<lambda>b. Option.bind (wr b j (ucast (w AND 0xff))) f)
     = f (put16 buf i w)"
  by (simp add: wr_def two_updates_put16)

lemma wr_pair_last:
  "i + 2 \<le> length buf \<Longrightarrow> j = i + 1 \<Longrightarrow>
   Option.bind (wr buf i (ucast (drop_bit 8 w))) (\<lambda>b. wr b j (ucast (w AND 0xff)))
     = ret (put16 buf i w)"
  by (simp add: wr_def two_updates_put16)

lemma wr_pair_zero:
  "i + 2 \<le> length buf \<Longrightarrow> j = i + 1 \<Longrightarrow>
   Option.bind (wr buf i 0) (\<lambda>b. Option.bind (wr b j 0) f) = f (put16 buf i 0)"
  using wr_pair [of i buf j 0 f] by simp

text \<open>A field inside a window of the buffer is a field of the window.\<close>

lemma take_drop_put16_in:
  assumes "a \<le> i" and "i + 2 \<le> a + n" and "a + n \<le> length buf"
  shows "take n (drop a (put16 buf i w)) = put16 (take n (drop a buf)) (i - a) w"
proof (rule nth_equalityI)
  show "length (take n (drop a (put16 buf i w))) = length (put16 (take n (drop a buf)) (i - a) w)"
    using assms by (simp add: put16_def)
next
  fix j
  assume "j < length (take n (drop a (put16 buf i w)))"
  then show "take n (drop a (put16 buf i w)) ! j = put16 (take n (drop a buf)) (i - a) w ! j"
    using assms by (auto simp: put16_def nth_splice add.commute)
qed

lemma take_drop_put16_out:
  "i + 2 \<le> length buf \<Longrightarrow> a + n \<le> i \<or> i + 2 \<le> a \<Longrightarrow>
   take n (drop a (put16 buf i w)) = take n (drop a buf)"
  by (simp add: put16_def take_drop_splice_out)

lemma put16_commute:
  "i + 2 \<le> j \<Longrightarrow> j + 2 \<le> length buf \<Longrightarrow>
   put16 (put16 buf i v) j w = put16 (put16 buf j w) i v"
  by (rule nth_equalityI) (auto simp: put16_def nth_splice)

end
