(* ===== verification/Checksum.thy ===== *)
theory Checksum
  imports Prelude
begin

text \<open>
  The Internet checksum of \<open>src/proto/frame.rs\<close>: \<open>sum_words\<close> accumulates 16-bit
  big-endian words into a \<open>u32\<close>, \<open>fold\<close> adds the carries back (here \<open>fold_sum\<close>, since
  \<open>fold\<close> is a HOL constant).  The lemmas read both as arithmetic on naturals: the sum is
  \<open>nsum\<close> as long as it fits 32 bits, and folding keeps the value modulo 65535 and maps only
  0 to 0, which is what makes a stored complement validate.
\<close>

section \<open>Code\<close>

text \<open>The index loop of the code reads \<open>data\<close> two bytes at a time; an odd last byte is the
  high half of a word.\<close>

fun sum_words :: "u32 \<Rightarrow> bytes \<Rightarrow> u32" where
  "sum_words acc (a # b # r) = sum_words (acc + (push_bit 8 (ucast a) OR ucast b)) r"
| "sum_words acc [a] = acc + push_bit 8 (ucast a)"
| "sum_words acc [] = acc"

function fold_sum :: "u32 \<Rightarrow> u16" where
  "fold_sum s =
     (if drop_bit 16 s \<noteq> 0 then fold_sum ((s AND 0xffff) + drop_bit 16 s) else ucast s)"
  by pat_completeness auto

lemma unat_and_ffff: "unat ((s :: u32) AND 0xffff) = unat s mod 65536"
proof -
  have "unat (s AND 0xffff) = unat s AND 65535"
    by (simp add: unsigned_and_eq)
  also have "\<dots> = take_bit 16 (unat s)"
    by (simp add: take_bit_eq_mask mask_eq_exp_minus_1)
  finally show ?thesis by (simp add: take_bit_eq_mod)
qed

lemma unat_fold_step:
  "unat ((s AND 0xffff) + drop_bit 16 (s :: u32)) = unat s mod 65536 + unat s div 65536"
proof -
  have "unat s div 65536 < 65536"
    using unat_u32_lt [of s] less_mult_imp_div_less [of "unat s" 65536 65536] by simp
  then have "unat s mod 65536 + unat s div 65536 < 4294967296"
    using mod_less_divisor [of 65536 "unat s"] by linarith
  then have "(unat (s AND 0xffff) + unat (drop_bit 16 s)) mod 2 ^ LENGTH(32)
      = unat s mod 65536 + unat s div 65536"
    by (simp add: unat_and_ffff unat_drop_bit_word)
  then show ?thesis by (simp only: unat_word_ariths)
qed

lemma unat_drop16: "unat (drop_bit 16 (s :: u32)) = unat s div 65536"
  using unat_drop_bit_word [of 16 s] by simp

lemma drop16_eq_0_iff: "drop_bit 16 (s :: u32) = 0 \<longleftrightarrow> unat s < 65536"
  by (simp add: word_unat_eq_iff unat_drop16 del: unat_eq_zero) linarith

termination fold_sum
proof (relation "measure unat", simp)
  fix s :: u32
  assume "drop_bit 16 s \<noteq> 0"
  then have "\<not> unat s < 65536" by (simp add: drop16_eq_0_iff)
  then have "unat s mod 65536 + unat s div 65536 < unat s"
    using div_mult_mod_eq [of "unat s" 65536] div_greater_zero_iff [of "unat s" 65536]
    by linarith
  then show "((s AND 0xffff) + drop_bit 16 s, s) \<in> measure unat"
    by (simp add: unat_fold_step)
qed

declare fold_sum.simps [simp del]

section \<open>The sum as a number\<close>

fun nsum :: "bytes \<Rightarrow> nat" where
  "nsum (a # b # r) = unat a * 256 + unat b + nsum r"
| "nsum [a] = unat a * 256"
| "nsum [] = 0"

lemma nsum_le: "nsum d \<le> 65535 * ((length d + 1) div 2)"
proof (induction d rule: nsum.induct)
  case (1 a b r)
  have "unat a * 256 + unat b \<le> 65535"
    using base256_bound16 [of "unat a" "unat b"] unat_u8_lt [of a] unat_u8_lt [of b] by linarith
  with 1 show ?case by simp
next
  case (2 a)
  have "unat a * 256 \<le> 65280" using unat_u8_le [of a] by linarith
  then have "unat a * 256 \<le> 65535" by linarith
  then show ?case by simp
qed simp

lemma nsum_append: "even (length xs) \<Longrightarrow> nsum (xs @ ys) = nsum xs + nsum ys"
  by (induction xs rule: nsum.induct) auto

text \<open>Writing a 16-bit field at an even offset changes the sum by the field's value.\<close>

lemma nsum_splice:
  assumes "even off" and "off + 2 \<le> length d"
  shows "nsum (splice d off [h, l]) + nsum (take 2 (drop off d)) = nsum d + (unat h * 256 + unat l)"
proof -
  define A B C where "A = take off d" and "B = take 2 (drop off d)" and "C = drop (off + 2) d"
  have "drop off d = B @ C"
    unfolding B_def C_def by (metis add.commute append_take_drop_id drop_drop)
  then have d: "d = A @ B @ C"
    unfolding A_def by (metis append_take_drop_id)
  have ev: "even (length A)" "even (length B)"
    using assms by (simp_all add: A_def B_def)
  have "splice d off [h, l] = A @ [h, l] @ C"
    by (simp add: splice_def A_def C_def)
  then have "nsum (splice d off [h, l]) = nsum A + (unat h * 256 + unat l) + nsum C"
    using ev by (simp add: nsum_append)
  moreover have "nsum d = nsum A + nsum B + nsum C"
    using ev by (simp add: d nsum_append)
  ultimately show ?thesis by (simp add: B_def)
qed

lemma unat_ucast_up: "unat (ucast (a :: u8) :: u32) = unat a"
proof -
  have "unat a < 2 ^ 32" by (rule less_trans [OF unat_u8_lt]) simp
  then show ?thesis by (simp add: unsigned_ucast_eq take_bit_eq_mod)
qed

lemma unat_push8: "unat (push_bit 8 (ucast (a :: u8) :: u32)) = unat a * 256"
proof -
  have "unat a * 256 < 4294967296" using unat_u8_lt [of a] by linarith
  moreover have "push_bit 8 (ucast a :: u32) = ucast a * 256"
    by (simp add: push_bit_eq_mult)
  ultimately show ?thesis by (simp add: unat_word_ariths unat_ucast_up)
qed

lemma unat_word16: "unat (push_bit 8 (ucast (a :: u8)) OR ucast (b :: u8) :: u32) = unat a * 256 + unat b"
proof -
  have "push_bit 8 (ucast a) AND (ucast b :: u32) = 0"
    by (rule bit_word_eqI) (auto simp: bit_simps dest: bit_imp_le_length)
  then have "(push_bit 8 (ucast a) OR ucast b :: u32) = push_bit 8 (ucast a) + ucast b"
    by (simp add: disjunctive_add_eq_or)
  moreover have "unat a * 256 + unat b < 2 ^ LENGTH(32)"
    using base256_bound16 [of "unat a" "unat b"] by simp
  ultimately show ?thesis
    by (simp add: unat_word_ariths unat_push8 unat_ucast_up)
qed

theorem sum_words_exact:
  "unat acc + nsum d < 2 ^ 32 \<Longrightarrow> unat (sum_words acc d) = unat acc + nsum d"
proof (induction acc d rule: sum_words.induct)
  case (1 acc a b r)
  let ?w = "push_bit 8 (ucast a) OR ucast b :: u32"
  have "unat (acc + ?w) = unat acc + (unat a * 256 + unat b)"
    using "1.prems" by (simp add: unat_word_ariths unat_word16)
  with 1 show ?case by simp
next
  case (2 acc a)
  then show ?case by (simp add: unat_word_ariths unat_push8)
qed simp

section \<open>Folding\<close>

theorem fold_sum_mod: "unat (fold_sum s) mod 65535 = unat s mod 65535"
proof (induction s rule: fold_sum.induct)
  case (1 s)
  show ?case
  proof (cases "drop_bit 16 s = 0")
    case True
    then have "unat s < 65536" by (simp add: drop16_eq_0_iff)
    then have "unat (ucast s :: u16) = unat s"
      by (simp add: unsigned_ucast_eq take_bit_eq_mod)
    with True show ?thesis by (simp add: fold_sum.simps [of s])
  next
    case False
    have "unat s = 65536 * (unat s div 65536) + unat s mod 65536"
      by simp
    then have "unat s = 65535 * (unat s div 65536) + (unat s mod 65536 + unat s div 65536)"
      by linarith
    then have "unat s mod 65535 = (unat s mod 65536 + unat s div 65536) mod 65535"
      by (metis mod_mult_self4)
    with 1 [OF False] False show ?thesis
      by (simp add: fold_sum.simps [of s] unat_fold_step)
  qed
qed

theorem fold_sum_0_iff: "fold_sum s = 0 \<longleftrightarrow> s = 0"
proof (induction s rule: fold_sum.induct)
  case (1 s)
  show ?case
  proof (cases "drop_bit 16 s = 0")
    case True
    then have "unat s < 65536" by (simp add: drop16_eq_0_iff)
    then have "unat (ucast s :: u16) = unat s"
      by (simp add: unsigned_ucast_eq take_bit_eq_mod)
    then have "(ucast s :: u16) = 0 \<longleftrightarrow> s = 0"
      by (metis unat_eq_zero)
    with True show ?thesis by (simp add: fold_sum.simps [of s])
  next
    case False
    then have "unat s div 65536 \<noteq> 0" by (simp add: drop16_eq_0_iff)
    then have "unat ((s AND 0xffff) + drop_bit 16 s) \<noteq> 0"
      by (simp add: unat_fold_step del: unat_eq_zero)
    then have "(s AND 0xffff) + drop_bit 16 s \<noteq> 0" and "s \<noteq> 0"
      using False by auto
    with 1 [OF False] False show ?thesis by (simp add: fold_sum.simps [of s])
  qed
qed

lemma ones_iff_dvd: "x < 65536 \<Longrightarrow> x = 65535 \<longleftrightarrow> x \<noteq> 0 \<and> 65535 dvd (x :: nat)"
  using dvd_imp_le [of 65535 x] by auto

text \<open>A sum folds to all ones exactly when it is a non-zero multiple of 65535.\<close>

lemma fold_sum_ones_iff: "fold_sum s = 0xffff \<longleftrightarrow> s \<noteq> 0 \<and> 65535 dvd unat s"
proof -
  have lt: "unat (fold_sum s) < 65536" by simp
  have "fold_sum s = 0xffff \<longleftrightarrow> unat (fold_sum s) = 65535"
    by (simp add: word_unat_eq_iff)
  also have "\<dots> \<longleftrightarrow> unat (fold_sum s) \<noteq> 0 \<and> 65535 dvd unat (fold_sum s)"
    using lt by (rule ones_iff_dvd)
  also have "\<dots> \<longleftrightarrow> s \<noteq> 0 \<and> 65535 dvd unat s"
    by (simp only: unat_eq_zero fold_sum_0_iff dvd_eq_mod_eq_0 fold_sum_mod)
  finally show ?thesis .
qed

text \<open>The number a stored checksum contributes: the complement of the folded rest.\<close>

lemma unat_not16: "unat (NOT (w :: u16)) = 65535 - unat w"
proof -
  have "NOT w = - 1 - w" by (simp add: not_eq_complement)
  moreover have "unat (- 1 - w) = unat (- 1 :: u16) - unat w"
    by (rule unat_sub) simp
  ultimately show ?thesis by (simp add: unsigned_minus_1_eq_mask mask_eq_exp_minus_1)
qed

lemma nsum_put16:
  assumes "even off" and "off + 2 \<le> length d"
  shows "nsum (put16 d off w) = nsum (put16 d off 0) + unat w"
proof -
  have "unat (ucast (drop_bit 8 w) :: u8) * 256 + unat (ucast w :: u8) = unat w"
    using unat_be16 [of "ucast (drop_bit 8 w)" "ucast w"] by simp
  then show ?thesis
    using nsum_splice [OF assms, of "ucast (drop_bit 8 w)" "ucast w"] nsum_splice [OF assms, of 0 0]
    by (simp add: put16_def to_be16_def)
qed

text \<open>
  The arithmetic of a stored checksum: the rest of the sum \<open>t\<close> and the complement of its
  fold \<open>f\<close> add up to a non-zero multiple of 65535.
\<close>

lemma complement_dvd:
  assumes "f mod 65535 = t mod 65535" and "f \<le> (65535 :: nat)"
  shows "65535 dvd t + (65535 - f)"
proof -
  have "(t + (65535 - f)) mod 65535 = (f + (65535 - f)) mod 65535"
    using assms(1) by (intro mod_add_cong) simp_all
  also have "\<dots> = 0" using assms(2) by simp
  finally show ?thesis by (simp add: dvd_eq_mod_eq_0)
qed

text \<open>The bound under which no 32-bit accumulation overflows.\<close>

definition sum_fits :: "u32 \<Rightarrow> bytes \<Rightarrow> bool" where
  "sum_fits s0 d \<longleftrightarrow> unat s0 + 65535 * ((length d + 1) div 2) < 2 ^ 32"

lemma sum_words_fits: "sum_fits s0 d \<Longrightarrow> unat (sum_words s0 d) = unat s0 + nsum d"
  using nsum_le [of d] unfolding sum_fits_def by (intro sum_words_exact) linarith

text \<open>
  The checksum written by the code validates: with \<open>c\<close> the complement of the fold over the
  zeroed field (or \<open>0xffff\<close> in place of 0, the UDP rule), the whole sum folds to ones.
\<close>

theorem stored_checksum_valid:
  assumes off: "even off" "off + 2 \<le> length d" and fits: "sum_fits s0 d"
    and c: "c = NOT (fold_sum (sum_words s0 (put16 d off 0))) \<or>
      NOT (fold_sum (sum_words s0 (put16 d off 0))) = 0 \<and> c = 0xffff"
  shows "fold_sum (sum_words s0 (put16 d off c)) = 0xffff"
proof -
  let ?f = "unat (fold_sum (sum_words s0 (put16 d off 0)))"
  let ?t = "unat s0 + nsum (put16 d off 0)"
  have fits': "sum_fits s0 (put16 d off w)" for w
    using fits off by (simp add: sum_fits_def)
  have t: "unat (sum_words s0 (put16 d off 0)) = ?t"
    by (rule sum_words_fits [OF fits'])
  have total: "unat (sum_words s0 (put16 d off c)) = ?t + unat c"
    using sum_words_fits [OF fits', of c] nsum_put16 [OF off, of c] by simp
  have f_mod: "?f mod 65535 = ?t mod 65535"
    by (simp only: fold_sum_mod t)
  have f0: "?f = 0 \<longleftrightarrow> ?t = 0"
    by (metis fold_sum_0_iff t unat_eq_zero)
  have "65535 dvd ?t + unat c \<and> ?t + unat c \<noteq> 0"
    using c
  proof
    assume "c = NOT (fold_sum (sum_words s0 (put16 d off 0)))"
    then have "unat c = 65535 - ?f" by (simp only: unat_not16)
    moreover have "?t + (65535 - ?f) \<noteq> 0"
      using f0 by (metis add_is_0 diff_zero zero_neq_numeral)
    ultimately show ?thesis
      using complement_dvd [OF f_mod unat_u16_le] by metis
  next
    assume n: "NOT (fold_sum (sum_words s0 (put16 d off 0))) = 0 \<and> c = 0xffff"
    then have "65535 - ?f = 0" by (metis unat_0 unat_not16)
    then have "?f = 65535" using unat_u16_le [of "fold_sum (sum_words s0 (put16 d off 0))"] by linarith
    then have "65535 dvd ?t" using f_mod by (simp add: dvd_eq_mod_eq_0)
    with n show ?thesis by simp
  qed
  then show ?thesis
    unfolding fold_sum_ones_iff by (metis total unat_eq_zero)
qed

end
