(* ===== verification/Frame.thy ===== *)
theory Frame
  imports Checksum
begin

text \<open>
  \<open>src/proto/frame.rs\<close>: the layout of one captured frame (Ethernet with VLAN tags, IPv4,
  TCP or UDP), the recomputation and validation of the IPv4 and L4 checksums, and the
  accessors of \<open>ParsedFrame\<close>.  Every buffer access keeps its bounds check (\<open>rd\<close>, \<open>wr\<close>,
  \<open>slice\<close>), so "never panics" is a theorem about the parser and not an assumption.

  \<open>layout_ok\<close> is what a parsed layout promises its users; \<open>parse_layout_ok\<close> shows that the
  parser establishes it and \<open>parse_layout_cong\<close> that the parse depends on the header bytes
  \<open>layout_bytes\<close> only, so every later rewrite of addresses, payload and checksums keeps it.
\<close>

section \<open>Data\<close>

datatype l3_kind = L3_Ipv4 | L3_Other
datatype l4_kind = L4_Tcp | L4_Udp | L4_Other

record frame_layout =
  fl_l3 :: nat
  fl_l3_kind :: l3_kind
  fl_ihl :: nat
  fl_l4 :: nat
  fl_l4_kind :: l4_kind
  fl_payload :: nat
  fl_end :: nat

section \<open>Parsing\<close>

text \<open>The VLAN loop; the code's \<open>guard < 4\<close> is the number of tags still allowed.\<close>

fun skip_vlan :: "nat \<Rightarrow> bytes \<Rightarrow> u16 \<Rightarrow> nat \<Rightarrow> (u16 \<times> nat) option exec" where
  "skip_vlan 0 buf ethertype off = ret (Some (ethertype, off))"
| "skip_vlan (Suc guard) buf ethertype off =
     (if ethertype = 0x8100 \<or> ethertype = 0x88a8 then
        if length buf < off + 4 then ret None
        else do {
          a \<leftarrow> rd buf (off + 2);
          b \<leftarrow> rd buf (off + 3);
          skip_vlan guard buf (be16 a b) (off + 4)
        }
      else ret (Some (ethertype, off)))"

text \<open>The \<open>match proto\<close> of \<open>parse_ipv4\<close>: the L4 kind and the length of its header.\<close>

definition parse_l4 :: "bytes \<Rightarrow> nat \<Rightarrow> u8 \<Rightarrow> (l4_kind \<times> nat) option exec" where
  "parse_l4 buf l4 proto =
     (if proto = 6 then
        if length buf < l4 + 20 then ret None
        else do {
          o12 \<leftarrow> rd buf (l4 + 12);
          let data_off = unat (drop_bit 4 o12) * 4;
          if data_off < 20 \<or> length buf < l4 + data_off then ret None
          else ret (Some (L4_Tcp, data_off))
        }
      else if proto = 17 then
        if length buf < l4 + 8 then ret None
        else ret (Some (L4_Udp, 8))
      else ret (Some (L4_Other, 0)))"

definition parse_ipv4 :: "bytes \<Rightarrow> nat \<Rightarrow> frame_layout option exec" where
  "parse_ipv4 buf l3 =
     (if length buf < l3 + 20 then ret None
      else do {
        vihl \<leftarrow> rd buf l3;
        if drop_bit 4 vihl \<noteq> 4 then ret None
        else let ihl = unat (vihl AND 0x0f) * 4 in
        if ihl < 20 \<or> length buf < l3 + ihl then ret None
        else do {
          t0 \<leftarrow> rd buf (l3 + 2);
          t1 \<leftarrow> rd buf (l3 + 3);
          let ip_total = unat (be16 t0 t1);
          if ip_total < ihl then ret None
          else do {
            let fin = min (l3 + ip_total) (length buf);
            proto \<leftarrow> rd buf (l3 + 9);
            let l4 = l3 + ihl;
            r \<leftarrow> parse_l4 buf l4 proto;
            case r of
              None \<Rightarrow> ret None
            | Some (l4_kind, l4_hdr) \<Rightarrow>
                ret (Some \<lparr>fl_l3 = l3, fl_l3_kind = L3_Ipv4, fl_ihl = ihl, fl_l4 = l4,
                  fl_l4_kind = l4_kind, fl_payload = min (l4 + l4_hdr) fin, fl_end = fin\<rparr>)
          }
        }
      })"

definition parse_layout :: "bytes \<Rightarrow> frame_layout option exec" where
  "parse_layout buf =
     (if length buf < 14 then ret None
      else do {
        a \<leftarrow> rd buf 12;
        b \<leftarrow> rd buf 13;
        r \<leftarrow> skip_vlan 4 buf (be16 a b) 14;
        case r of
          None \<Rightarrow> ret None
        | Some (ethertype, l3) \<Rightarrow>
            if ethertype = 0x0800 then parse_ipv4 buf l3
            else ret (Some \<lparr>fl_l3 = l3, fl_l3_kind = L3_Other, fl_ihl = 0, fl_l4 = l3,
              fl_l4_kind = L4_Other, fl_payload = l3, fl_end = length buf\<rparr>)
      })"

section \<open>Checksums\<close>

definition pseudo_header :: "bytes \<Rightarrow> bytes \<Rightarrow> u8 \<Rightarrow> nat \<Rightarrow> bytes" where
  "pseudo_header src dst proto l4_len =
     src @ dst @ [0, proto, word_of_nat (l4_len div 256), word_of_nat l4_len]"

definition l4_checksum :: "bytes \<Rightarrow> frame_layout \<Rightarrow> nat \<Rightarrow> bytes exec" where
  "l4_checksum buf l csum_off =
     (if fl_end l \<le> fl_l4 l \<or> length buf \<le> fl_l4 l + csum_off + 1 then ret buf
      else do {
        src \<leftarrow> slice buf (fl_l3 l + 12) (fl_l3 l + 16);
        dst \<leftarrow> slice buf (fl_l3 l + 16) (fl_l3 l + 20);
        proto \<leftarrow> rd buf (fl_l3 l + 9);
        let l4_len = fl_end l - fl_l4 l;
        buf \<leftarrow> wr buf (fl_l4 l + csum_off) 0;
        buf \<leftarrow> wr buf (fl_l4 l + csum_off + 1) 0;
        seg \<leftarrow> slice buf (fl_l4 l) (fl_end l);
        let s = sum_words (sum_words 0 (pseudo_header src dst proto l4_len)) seg;
        let csum = NOT (fold_sum s);
        let csum = (if fl_l4_kind l = L4_Udp \<and> csum = 0 then 0xffff else csum);
        buf \<leftarrow> wr buf (fl_l4 l + csum_off) (ucast (drop_bit 8 csum));
        wr buf (fl_l4 l + csum_off + 1) (ucast (csum AND 0xff))
      })"

definition recompute_checksums :: "bytes \<Rightarrow> frame_layout \<Rightarrow> bytes exec" where
  "recompute_checksums buf l =
     (if fl_l3_kind l \<noteq> L3_Ipv4 then ret buf
      else do {
        buf \<leftarrow> wr buf (fl_l3 l + 10) 0;
        buf \<leftarrow> wr buf (fl_l3 l + 11) 0;
        hdr \<leftarrow> slice buf (fl_l3 l) (fl_l3 l + fl_ihl l);
        let ipck = NOT (fold_sum (sum_words 0 hdr));
        buf \<leftarrow> wr buf (fl_l3 l + 10) (ucast (drop_bit 8 ipck));
        buf \<leftarrow> wr buf (fl_l3 l + 11) (ucast (ipck AND 0xff));
        case fl_l4_kind l of
          L4_Tcp \<Rightarrow> l4_checksum buf l 16
        | L4_Udp \<Rightarrow> l4_checksum buf l 6
        | L4_Other \<Rightarrow> ret buf
      })"

definition checksums_valid :: "bytes \<Rightarrow> frame_layout \<Rightarrow> bool exec" where
  "checksums_valid buf l =
     (if fl_l3_kind l \<noteq> L3_Ipv4 then ret True
      else do {
        hdr \<leftarrow> slice buf (fl_l3 l) (fl_l3 l + fl_ihl l);
        if fold_sum (sum_words 0 hdr) \<noteq> 0xffff then ret False
        else case fl_l4_kind l of
          L4_Other \<Rightarrow> ret True
        | _ \<Rightarrow> do {
            src \<leftarrow> slice buf (fl_l3 l + 12) (fl_l3 l + 16);
            dst \<leftarrow> slice buf (fl_l3 l + 16) (fl_l3 l + 20);
            proto \<leftarrow> rd buf (fl_l3 l + 9);
            l4_len \<leftarrow> usub (fl_end l) (fl_l4 l);
            seg \<leftarrow> slice buf (fl_l4 l) (fl_end l);
            let s = sum_words (sum_words 0 (pseudo_header src dst proto l4_len)) seg;
            ret (fold_sum s = 0xffff)
          }
      })"

section \<open>\<open>ParsedFrame\<close>\<close>

text \<open>The struct borrows the buffer mutably; the model passes the buffer through.\<close>

record parsed_frame =
  pf_buf :: bytes
  pf_layout :: frame_layout

definition pf_parse :: "bytes \<Rightarrow> parsed_frame option exec" where
  "pf_parse buf = do {
     r \<leftarrow> parse_layout buf;
     ret (map_option (\<lambda>l. \<lparr>pf_buf = buf, pf_layout = l\<rparr>) r)
   }"

definition is_ipv4 :: "parsed_frame \<Rightarrow> bool" where
  "is_ipv4 f = (fl_l3_kind (pf_layout f) = L3_Ipv4)"

definition payload_of :: "parsed_frame \<Rightarrow> bytes exec" where
  "payload_of f = slice (pf_buf f) (fl_payload (pf_layout f)) (fl_end (pf_layout f))"

text \<open>\<open>payload_mut\<close> hands out the payload slice for in-place edits; the edited slice is
  written back at the same place.\<close>

definition set_payload :: "parsed_frame \<Rightarrow> bytes \<Rightarrow> parsed_frame exec" where
  "set_payload f p = do {
     buf \<leftarrow> put_slice (pf_buf f) (fl_payload (pf_layout f)) (fl_end (pf_layout f)) p;
     ret (f\<lparr>pf_buf := buf\<rparr>)
   }"

definition ipv4_src :: "parsed_frame \<Rightarrow> bytes option exec" where
  "ipv4_src f =
     (if is_ipv4 f then do {
        a \<leftarrow> slice (pf_buf f) (fl_l3 (pf_layout f) + 12) (fl_l3 (pf_layout f) + 16);
        ret (Some a)
      } else ret None)"

definition ipv4_dst :: "parsed_frame \<Rightarrow> bytes option exec" where
  "ipv4_dst f =
     (if is_ipv4 f then do {
        a \<leftarrow> slice (pf_buf f) (fl_l3 (pf_layout f) + 16) (fl_l3 (pf_layout f) + 20);
        ret (Some a)
      } else ret None)"

definition set_ipv4_src :: "parsed_frame \<Rightarrow> bytes \<Rightarrow> parsed_frame exec" where
  "set_ipv4_src f a =
     (if is_ipv4 f then do {
        buf \<leftarrow> put_slice (pf_buf f) (fl_l3 (pf_layout f) + 12) (fl_l3 (pf_layout f) + 16) a;
        ret (f\<lparr>pf_buf := buf\<rparr>)
      } else ret f)"

definition set_ipv4_dst :: "parsed_frame \<Rightarrow> bytes \<Rightarrow> parsed_frame exec" where
  "set_ipv4_dst f a =
     (if is_ipv4 f then do {
        buf \<leftarrow> put_slice (pf_buf f) (fl_l3 (pf_layout f) + 16) (fl_l3 (pf_layout f) + 20) a;
        ret (f\<lparr>pf_buf := buf\<rparr>)
      } else ret f)"

definition dst_mac :: "parsed_frame \<Rightarrow> mac exec" where
  "dst_mac f = slice (pf_buf f) 0 6"

definition src_mac :: "parsed_frame \<Rightarrow> mac exec" where
  "src_mac f = slice (pf_buf f) 6 12"

definition set_dst_mac :: "parsed_frame \<Rightarrow> mac \<Rightarrow> parsed_frame exec" where
  "set_dst_mac f m = do {
     buf \<leftarrow> put_slice (pf_buf f) 0 6 m;
     ret (f\<lparr>pf_buf := buf\<rparr>)
   }"

definition set_src_mac :: "parsed_frame \<Rightarrow> mac \<Rightarrow> parsed_frame exec" where
  "set_src_mac f m = do {
     buf \<leftarrow> put_slice (pf_buf f) 6 12 m;
     ret (f\<lparr>pf_buf := buf\<rparr>)
   }"

definition port_at :: "parsed_frame \<Rightarrow> nat \<Rightarrow> u16 option exec" where
  "port_at f k =
     (case fl_l4_kind (pf_layout f) of
        L4_Other \<Rightarrow> ret None
      | _ \<Rightarrow> do {
          a \<leftarrow> rd (pf_buf f) (fl_l4 (pf_layout f) + k);
          b \<leftarrow> rd (pf_buf f) (fl_l4 (pf_layout f) + k + 1);
          ret (Some (be16 a b))
        })"

definition src_port :: "parsed_frame \<Rightarrow> u16 option exec" where
  "src_port f = port_at f 0"

definition dst_port :: "parsed_frame \<Rightarrow> u16 option exec" where
  "dst_port f = port_at f 2"

definition pf_recompute :: "parsed_frame \<Rightarrow> parsed_frame exec" where
  "pf_recompute f = do {
     buf \<leftarrow> recompute_checksums (pf_buf f) (pf_layout f);
     ret (f\<lparr>pf_buf := buf\<rparr>)
   }"


section \<open>The layout invariant\<close>

text \<open>What \<open>parse_layout\<close> promises for a buffer of \<open>n\<close> bytes.\<close>

definition layout_ok :: "nat \<Rightarrow> frame_layout \<Rightarrow> bool" where
  "layout_ok n l \<longleftrightarrow>
     14 \<le> fl_l3 l \<and> fl_l3 l \<le> fl_l4 l \<and> fl_l4 l \<le> fl_payload l \<and> fl_payload l \<le> fl_end l \<and>
     fl_end l \<le> n \<and> fl_l4 l = fl_l3 l + fl_ihl l \<and>
     (fl_l3_kind l = L3_Ipv4 \<longrightarrow>
        20 \<le> fl_ihl l \<and> fl_ihl l \<le> 60 \<and> even (fl_ihl l) \<and> fl_end l \<le> fl_l3 l + 65535) \<and>
     (fl_l3_kind l = L3_Other \<longrightarrow> fl_l4_kind l = L4_Other \<and> fl_end l = n) \<and>
     (fl_l4_kind l = L4_Tcp \<longrightarrow>
        fl_l4 l + 20 \<le> n \<and> (fl_payload l = fl_end l \<or> fl_l4 l + 20 \<le> fl_payload l)) \<and>
     (fl_l4_kind l = L4_Udp \<longrightarrow>
        fl_l4 l + 8 \<le> n \<and> (fl_payload l = fl_end l \<or> fl_l4 l + 8 \<le> fl_payload l))"

lemmas layout_okD = layout_ok_def [THEN iffD1, rule_format]

lemma skip_vlan_total: "off \<le> length buf \<Longrightarrow> \<exists>r. skip_vlan g buf et off = ret r"
proof (induction g buf et off rule: skip_vlan.induct)
  case (2 g buf et off)
  then show ?case by (auto simp: exec_simps)
qed simp

lemma skip_vlan_bounds:
  "skip_vlan g buf et off = ret (Some (et', off')) \<Longrightarrow> off \<le> length buf \<Longrightarrow>
   off \<le> off' \<and> off' \<le> length buf"
proof (induction g buf et off rule: skip_vlan.induct)
  case (2 g buf et off)
  then show ?case
    by (auto simp: exec_simps split: if_splits) (fastforce simp: exec_simps)+
qed simp

lemma parse_l4_total: "l4 \<le> length buf \<Longrightarrow> \<exists>r. parse_l4 buf l4 proto = ret r"
  by (auto simp: parse_l4_def exec_simps Let_def)

lemma parse_l4_Some:
  "parse_l4 buf l4 proto = ret (Some (k, h)) \<Longrightarrow>
   (k = L4_Tcp \<longrightarrow> l4 + 20 \<le> length buf \<and> 20 \<le> h) \<and> (k = L4_Udp \<longrightarrow> l4 + 8 \<le> length buf \<and> h = 8)"
  by (auto simp: parse_l4_def Let_def split: if_splits)

text \<open>The header fields \<open>parse_ipv4\<close> reads, and its guards as one condition.\<close>

definition ipv4_ihl :: "bytes \<Rightarrow> nat \<Rightarrow> nat" where
  "ipv4_ihl buf l3 = unat (buf ! l3 AND 0x0f) * 4"

definition ipv4_total :: "bytes \<Rightarrow> nat \<Rightarrow> nat" where
  "ipv4_total buf l3 = unat (be16 (buf ! (l3 + 2)) (buf ! (l3 + 3)))"

definition ipv4_bad :: "bytes \<Rightarrow> nat \<Rightarrow> bool" where
  "ipv4_bad buf l3 \<longleftrightarrow>
     length buf < l3 + 20 \<or> drop_bit 4 (buf ! l3) \<noteq> 4 \<or> ipv4_ihl buf l3 < 20 \<or>
     length buf < l3 + ipv4_ihl buf l3 \<or> ipv4_total buf l3 < ipv4_ihl buf l3"

lemma parse_ipv4_eq:
  "parse_ipv4 buf l3 =
     (if ipv4_bad buf l3 then ret None
      else do {
        r \<leftarrow> parse_l4 buf (l3 + ipv4_ihl buf l3) (buf ! (l3 + 9));
        case r of
          None \<Rightarrow> ret None
        | Some (k, h) \<Rightarrow>
            let fin = min (l3 + ipv4_total buf l3) (length buf) in
            ret (Some \<lparr>fl_l3 = l3, fl_l3_kind = L3_Ipv4, fl_ihl = ipv4_ihl buf l3,
              fl_l4 = l3 + ipv4_ihl buf l3, fl_l4_kind = k,
              fl_payload = min (l3 + ipv4_ihl buf l3 + h) fin, fl_end = fin\<rparr>)
      })"
proof (cases "length buf < l3 + 20")
  case False
  then show ?thesis
    by (simp add: parse_ipv4_def ipv4_bad_def ipv4_ihl_def ipv4_total_def exec_simps Let_def
        del: numeral_eq_Suc)
qed (simp add: parse_ipv4_def ipv4_bad_def)

lemma parse_ipv4_total: "\<exists>r. parse_ipv4 buf l3 = ret r"
proof (cases "ipv4_bad buf l3")
  case False
  then have "l3 + ipv4_ihl buf l3 \<le> length buf" by (simp add: ipv4_bad_def)
  then obtain r where "parse_l4 buf (l3 + ipv4_ihl buf l3) (buf ! (l3 + 9)) = ret r"
    using parse_l4_total by blast
  with False show ?thesis
    by (cases r) (auto simp: parse_ipv4_eq Let_def)
qed (simp add: parse_ipv4_eq)

lemma nibble_le: "unat (b AND 0x0f :: u8) \<le> 15"
proof -
  have "unat (b AND 0x0f) \<le> unat (0x0f :: u8)"
    by (rule word_and_le1 [THEN word_le_nat_alt [THEN iffD1]])
  then show ?thesis by simp
qed

lemma parse_ipv4_Some:
  assumes "parse_ipv4 buf l3 = ret (Some l)"
  obtains k h where "\<not> ipv4_bad buf l3"
    and "parse_l4 buf (l3 + ipv4_ihl buf l3) (buf ! (l3 + 9)) = ret (Some (k, h))"
    and "l = \<lparr>fl_l3 = l3, fl_l3_kind = L3_Ipv4, fl_ihl = ipv4_ihl buf l3,
        fl_l4 = l3 + ipv4_ihl buf l3, fl_l4_kind = k,
        fl_payload = min (l3 + ipv4_ihl buf l3 + h) (min (l3 + ipv4_total buf l3) (length buf)),
        fl_end = min (l3 + ipv4_total buf l3) (length buf)\<rparr>"
  using assms by (auto simp: parse_ipv4_eq Let_def split: if_splits option.splits)

lemma parse_ipv4_ok:
  assumes "parse_ipv4 buf l3 = ret (Some l)" and "14 \<le> l3"
  shows "layout_ok (length buf) l"
proof -
  from assms(1) obtain k h where bad: "\<not> ipv4_bad buf l3"
    and k: "parse_l4 buf (l3 + ipv4_ihl buf l3) (buf ! (l3 + 9)) = ret (Some (k, h))"
    and l: "l = \<lparr>fl_l3 = l3, fl_l3_kind = L3_Ipv4, fl_ihl = ipv4_ihl buf l3,
        fl_l4 = l3 + ipv4_ihl buf l3, fl_l4_kind = k,
        fl_payload = min (l3 + ipv4_ihl buf l3 + h) (min (l3 + ipv4_total buf l3) (length buf)),
        fl_end = min (l3 + ipv4_total buf l3) (length buf)\<rparr>"
    by (rule parse_ipv4_Some)
  have "ipv4_total buf l3 \<le> 65535"
    by (simp add: ipv4_total_def)
  moreover have "ipv4_ihl buf l3 \<le> 60" and "even (ipv4_ihl buf l3)"
    unfolding ipv4_ihl_def using nibble_le [of "buf ! l3"] by simp_all
  ultimately show ?thesis
    using assms(2) bad parse_l4_Some [OF k]
    unfolding layout_ok_def l ipv4_bad_def by auto
qed

text \<open>
  no byte string makes the frame parser panic, and a layout it returns is well formed:
  the offsets are ordered and inside the buffer, and the headers the accessors read are
  there.
\<close>

theorem parse_layout_total: "\<exists>r. parse_layout buf = ret r"
proof (cases "length buf < 14")
  case True
  then show ?thesis by (simp add: parse_layout_def)
next
  case False
  then obtain r where r: "skip_vlan 4 buf (be16 (buf ! 12) (buf ! 13)) 14 = ret r"
    using skip_vlan_total [of 14 buf 4] by auto
  show ?thesis
  proof (cases r)
    case None
    with False r show ?thesis by (simp add: parse_layout_def exec_simps)
  next
    case (Some p)
    then obtain et l3 where p: "r = Some (et, l3)" by (cases p) auto
    with False r parse_ipv4_total [of buf l3] show ?thesis
      by (auto simp: parse_layout_def exec_simps)
  qed
qed

lemma parse_layout_Some:
  assumes "parse_layout buf = ret (Some l)"
  obtains et l3 where "14 \<le> length buf"
    and "skip_vlan 4 buf (be16 (buf ! 12) (buf ! 13)) 14 = ret (Some (et, l3))"
    and "et = 0x0800 \<and> parse_ipv4 buf l3 = ret (Some l) \<or>
         et \<noteq> 0x0800 \<and> l = \<lparr>fl_l3 = l3, fl_l3_kind = L3_Other, fl_ihl = 0, fl_l4 = l3,
              fl_l4_kind = L4_Other, fl_payload = l3, fl_end = length buf\<rparr>"
proof -
  from assms have len: "\<not> length buf < 14"
    by (auto simp: parse_layout_def)
  obtain r where r: "skip_vlan 4 buf (be16 (buf ! 12) (buf ! 13)) 14 = ret r"
    using len skip_vlan_total [of 14 buf 4] by auto
  from assms len r obtain p where p: "r = Some p"
    by (cases r) (simp_all add: parse_layout_def exec_simps)
  obtain et l3 where "p = (et, l3)" by (cases p)
  with assms len r p show thesis
    by (intro that [of et l3]) (simp_all add: parse_layout_def exec_simps split: if_splits)
qed

theorem parse_layout_ok:
  assumes "parse_layout buf = ret (Some l)"
  shows "layout_ok (length buf) l"
proof -
  from assms obtain et l3 where len: "14 \<le> length buf"
    and r: "skip_vlan 4 buf (be16 (buf ! 12) (buf ! 13)) 14 = ret (Some (et, l3))"
    and l: "et = 0x0800 \<and> parse_ipv4 buf l3 = ret (Some l) \<or>
         et \<noteq> 0x0800 \<and> l = \<lparr>fl_l3 = l3, fl_l3_kind = L3_Other, fl_ihl = 0, fl_l4 = l3,
              fl_l4_kind = L4_Other, fl_payload = l3, fl_end = length buf\<rparr>"
    by (rule parse_layout_Some)
  have "14 \<le> l3" and "l3 \<le> length buf"
    using skip_vlan_bounds [OF r] len by auto
  with l show ?thesis
    by (auto simp: layout_ok_def dest: parse_ipv4_ok)
qed

section \<open>The bytes a layout depends on\<close>

definition layout_bytes :: "frame_layout \<Rightarrow> nat set" where
  "layout_bytes l = {12..<fl_l3 l} \<union>
     (if fl_l3_kind l = L3_Ipv4 then {fl_l3 l, fl_l3 l + 2, fl_l3 l + 3, fl_l3 l + 9} else {}) \<union>
     (if fl_l4_kind l = L4_Tcp then {fl_l4 l + 12} else {})"

definition agree_on :: "nat set \<Rightarrow> bytes \<Rightarrow> bytes \<Rightarrow> bool" where
  "agree_on A buf buf' \<longleftrightarrow> length buf' = length buf \<and> (\<forall>i\<in>A. i < length buf \<longrightarrow> buf' ! i = buf ! i)"

lemma agree_on_refl [simp]: "agree_on A buf buf"
  by (simp add: agree_on_def)

lemma agree_on_trans: "agree_on A a b \<Longrightarrow> agree_on A b c \<Longrightarrow> agree_on A a c"
  by (auto simp: agree_on_def)

lemma agree_on_subset: "agree_on B a b \<Longrightarrow> A \<subseteq> B \<Longrightarrow> agree_on A a b"
  by (auto simp: agree_on_def)

lemma agree_on_splice:
  "i + length vs \<le> length buf \<Longrightarrow> A \<inter> {i..<i + length vs} = {} \<Longrightarrow> agree_on A buf (splice buf i vs)"
  by (auto simp: agree_on_def nth_splice)

lemma skip_vlan_cong:
  "skip_vlan g buf et off = ret (Some (et', off')) \<Longrightarrow> off \<le> length buf \<Longrightarrow>
   agree_on {off..<off'} buf buf' \<Longrightarrow> skip_vlan g buf' et off = ret (Some (et', off'))"
proof (induction g buf et off rule: skip_vlan.induct)
  case (2 g buf et off)
  show ?case
  proof (cases "et = 0x8100 \<or> et = 0x88a8")
    case True
    with "2.prems" have len: "off + 4 \<le> length buf" and len': "length buf' = length buf"
      by (auto simp: agree_on_def split: if_splits)
    let ?et = "be16 (buf ! (off + 2)) (buf ! (off + 3))"
    have rec: "skip_vlan g buf ?et (off + 4) = ret (Some (et', off'))"
      using "2.prems"(1) True len by (simp add: exec_simps)
    have le: "off + 4 \<le> off'"
      using skip_vlan_bounds [OF rec] len by simp
    have ag: "agree_on {off + 4..<off'} buf buf'"
      using "2.prems"(3) by (rule agree_on_subset) auto
    have "skip_vlan g buf' ?et (off + 4) = ret (Some (et', off'))"
      by (rule "2.IH" [OF True _ _ _ rec _ ag]) (use len in \<open>simp_all add: exec_simps\<close>)
    moreover have "buf' ! (off + 2) = buf ! (off + 2)" and "buf' ! (off + 3) = buf ! (off + 3)"
      using "2.prems"(3) le len by (simp_all add: agree_on_def)
    ultimately show ?thesis
      using True len len' by (simp add: exec_simps)
  qed (use "2.prems" in simp)
qed simp

lemma parse_l4_cong:
  assumes "parse_l4 buf l4 proto = ret (Some (k, h))" and "length buf' = length buf"
    and "k = L4_Tcp \<Longrightarrow> buf' ! (l4 + 12) = buf ! (l4 + 12)"
  shows "parse_l4 buf' l4 proto = ret (Some (k, h))"
  using assms by (auto simp: parse_l4_def exec_simps Let_def split: if_splits)

lemma parse_ipv4_cong:
  assumes p: "parse_ipv4 buf l3 = ret (Some l)" and ag: "agree_on (layout_bytes l) buf buf'"
  shows "parse_ipv4 buf' l3 = ret (Some l)"
proof -
  from p obtain k h where bad: "\<not> ipv4_bad buf l3"
    and k: "parse_l4 buf (l3 + ipv4_ihl buf l3) (buf ! (l3 + 9)) = ret (Some (k, h))"
    and l: "l = \<lparr>fl_l3 = l3, fl_l3_kind = L3_Ipv4, fl_ihl = ipv4_ihl buf l3,
        fl_l4 = l3 + ipv4_ihl buf l3, fl_l4_kind = k,
        fl_payload = min (l3 + ipv4_ihl buf l3 + h) (min (l3 + ipv4_total buf l3) (length buf)),
        fl_end = min (l3 + ipv4_total buf l3) (length buf)\<rparr>"
    by (rule parse_ipv4_Some)
  have len: "length buf' = length buf" using ag by (simp add: agree_on_def)
  have big: "l3 + 20 \<le> length buf" using bad by (simp add: ipv4_bad_def)
  have b: "buf' ! l3 = buf ! l3" "buf' ! (l3 + 2) = buf ! (l3 + 2)"
    "buf' ! (l3 + 3) = buf ! (l3 + 3)" "buf' ! (l3 + 9) = buf ! (l3 + 9)"
    using ag big by (simp_all add: agree_on_def layout_bytes_def l)
  have k12: "buf' ! (l3 + ipv4_ihl buf l3 + 12) = buf ! (l3 + ipv4_ihl buf l3 + 12)"
    if "k = L4_Tcp"
    using ag parse_l4_Some [OF k] that by (simp add: agree_on_def layout_bytes_def l)
  have "ipv4_ihl buf' l3 = ipv4_ihl buf l3" and "ipv4_total buf' l3 = ipv4_total buf l3"
    by (simp_all only: ipv4_ihl_def ipv4_total_def b)
  moreover have "parse_l4 buf' (l3 + ipv4_ihl buf l3) (buf ! (l3 + 9)) = ret (Some (k, h))"
    using parse_l4_cong [OF k len] k12 by simp
  ultimately show ?thesis
    using bad b len by (simp add: parse_ipv4_eq ipv4_bad_def Let_def l)
qed

text \<open>Two buffers that agree on the header bytes have the same layout.\<close>

theorem parse_layout_cong:
  assumes p: "parse_layout buf = ret (Some l)" and ag: "agree_on (layout_bytes l) buf buf'"
  shows "parse_layout buf' = ret (Some l)"
proof -
  from p obtain et l3 where len: "14 \<le> length buf"
    and r: "skip_vlan 4 buf (be16 (buf ! 12) (buf ! 13)) 14 = ret (Some (et, l3))"
    and l: "et = 0x0800 \<and> parse_ipv4 buf l3 = ret (Some l) \<or>
         et \<noteq> 0x0800 \<and> l = \<lparr>fl_l3 = l3, fl_l3_kind = L3_Other, fl_ihl = 0, fl_l4 = l3,
              fl_l4_kind = L4_Other, fl_payload = l3, fl_end = length buf\<rparr>"
    by (rule parse_layout_Some)
  have len': "length buf' = length buf" using ag by (simp add: agree_on_def)
  have l3: "fl_l3 l = l3"
    using l by (auto elim: parse_ipv4_Some)
  have "14 \<le> l3" using skip_vlan_bounds [OF r] len by simp
  then have b: "buf' ! 12 = buf ! 12" "buf' ! 13 = buf ! 13"
    using ag len l3 by (simp_all add: agree_on_def layout_bytes_def)
  have "agree_on {14..<l3} buf buf'"
    using ag by (rule agree_on_subset) (auto simp: layout_bytes_def l3)
  then have "skip_vlan 4 buf' (be16 (buf ! 12) (buf ! 13)) 14 = ret (Some (et, l3))"
    using skip_vlan_cong [OF r] len by simp
  then show ?thesis
    using l len len' b parse_ipv4_cong [OF _ ag]
    by (auto simp: parse_layout_def exec_simps)
qed

section \<open>Recomputing the checksums\<close>

text \<open>The two stages of \<open>recompute_checksums\<close> on a well-formed layout, without the
  bounds checks.\<close>

definition ip_window :: "frame_layout \<Rightarrow> bytes \<Rightarrow> bytes" where
  "ip_window l buf = take (fl_ihl l) (drop (fl_l3 l) buf)"

definition ip_stage :: "frame_layout \<Rightarrow> bytes \<Rightarrow> bytes" where
  "ip_stage l buf = put16 buf (fl_l3 l + 10)
     (NOT (fold_sum (sum_words 0 (ip_window l (put16 buf (fl_l3 l + 10) 0)))))"

definition l4_window :: "frame_layout \<Rightarrow> bytes \<Rightarrow> bytes" where
  "l4_window l buf = take (fl_end l - fl_l4 l) (drop (fl_l4 l) buf)"

definition pseudo_sum :: "frame_layout \<Rightarrow> bytes \<Rightarrow> u32" where
  "pseudo_sum l buf = sum_words 0
     (pseudo_header (take 4 (drop (fl_l3 l + 12) buf)) (take 4 (drop (fl_l3 l + 16) buf))
        (buf ! (fl_l3 l + 9)) (fl_end l - fl_l4 l))"

definition l4_field :: "frame_layout \<Rightarrow> nat \<Rightarrow> bytes \<Rightarrow> u16" where
  "l4_field l csum_off buf =
     (let csum = NOT (fold_sum (sum_words (pseudo_sum l buf)
            (l4_window l (put16 buf (fl_l4 l + csum_off) 0))))
      in if fl_l4_kind l = L4_Udp \<and> csum = 0 then 0xffff else csum)"

definition l4_stage :: "frame_layout \<Rightarrow> nat \<Rightarrow> bytes \<Rightarrow> bytes" where
  "l4_stage l csum_off buf =
     (if fl_end l \<le> fl_l4 l then buf else put16 buf (fl_l4 l + csum_off) (l4_field l csum_off buf))"

definition csum_off :: "frame_layout \<Rightarrow> nat" where
  "csum_off l = (if fl_l4_kind l = L4_Tcp then 16 else 6)"

definition recomputed :: "frame_layout \<Rightarrow> bytes \<Rightarrow> bytes" where
  "recomputed l buf =
     (if fl_l3_kind l = L3_Other then buf
      else if fl_l4_kind l = L4_Other then ip_stage l buf
      else l4_stage l (csum_off l) (ip_stage l buf))"

lemma layout_ok_ipv4D:
  assumes "layout_ok n l" and "fl_l3_kind l = L3_Ipv4"
  shows "14 \<le> fl_l3 l" "20 \<le> fl_ihl l" "fl_ihl l \<le> 60" "even (fl_ihl l)"
    "fl_l4 l = fl_l3 l + fl_ihl l" "fl_l4 l \<le> fl_payload l" "fl_payload l \<le> fl_end l"
    "fl_end l \<le> n" "fl_end l \<le> fl_l3 l + 65535" "fl_l3 l + 20 \<le> n"
    "fl_l3 l + fl_ihl l \<le> n"
  using assms by (auto simp: layout_ok_def)

lemma layout_ok_l4D:
  assumes "layout_ok n l" and "fl_l4_kind l \<noteq> L4_Other"
  shows "fl_l3_kind l = L3_Ipv4" "fl_l4 l + csum_off l + 2 \<le> n"
proof -
  show "fl_l3_kind l = L3_Ipv4"
    using assms by (cases "fl_l3_kind l") (simp_all add: layout_ok_def)
  show "fl_l4 l + csum_off l + 2 \<le> n"
    using assms by (cases "fl_l4_kind l") (simp_all add: layout_ok_def csum_off_def)
qed

lemma length_ip_stage [simp]: "fl_l3 l + 12 \<le> length buf \<Longrightarrow> length (ip_stage l buf) = length buf"
  by (simp add: ip_stage_def)

lemma length_l4_stage [simp]:
  "fl_l4 l + k + 2 \<le> length buf \<Longrightarrow> length (l4_stage l k buf) = length buf"
  by (simp add: l4_stage_def)

lemma pseudo_sum_put16:
  assumes "i + 2 \<le> length buf" and "fl_l3 l + 20 \<le> length buf"
    and "i = fl_l3 l + 10 \<or> fl_l3 l + 20 \<le> i"
  shows "pseudo_sum l (put16 buf i w) = pseudo_sum l buf"
proof -
  have out: "12 \<le> c \<Longrightarrow> c \<le> 16 \<Longrightarrow> fl_l3 l + c + 4 \<le> i \<or> i + 2 \<le> fl_l3 l + c" for c
    using assms(3) by linarith
  have "take 4 (drop (fl_l3 l + 12) (put16 buf i w)) = take 4 (drop (fl_l3 l + 12) buf)"
    by (rule take_drop_put16_out [OF assms(1)], rule out) simp_all
  moreover have "take 4 (drop (fl_l3 l + 16) (put16 buf i w)) = take 4 (drop (fl_l3 l + 16) buf)"
    by (rule take_drop_put16_out [OF assms(1)], rule out) simp_all
  moreover have "put16 buf i w ! (fl_l3 l + 9) = buf ! (fl_l3 l + 9)"
    using assms by (intro nth_put16_out) linarith+
  ultimately show ?thesis by (simp only: pseudo_sum_def)
qed

lemma l4_checksum_eq:
  assumes ok: "layout_ok (length buf) l" and k: "fl_l4_kind l \<noteq> L4_Other"
  shows "l4_checksum buf l (csum_off l) = ret (l4_stage l (csum_off l) buf)"
proof (cases "fl_end l \<le> fl_l4 l")
  case False
  note v = layout_ok_ipv4D [OF ok layout_ok_l4D(1) [OF ok k]]
  note c = layout_ok_l4D(2) [OF ok k]
  from False v c show ?thesis
    by (simp add: l4_checksum_def l4_stage_def l4_field_def l4_window_def pseudo_sum_def
        rd_ok slice_ok Let_def wr_pair_zero wr_pair_last)
qed (simp add: l4_checksum_def l4_stage_def)

theorem recompute_checksums_eq:
  assumes ok: "layout_ok (length buf) l"
  shows "recompute_checksums buf l = ret (recomputed l buf)"
proof (cases "fl_l3_kind l")
  case L3_Ipv4
  note v = layout_ok_ipv4D [OF ok L3_Ipv4]
  have ok': "layout_ok (length (ip_stage l buf)) l"
    using ok v by simp
  have "recompute_checksums buf l =
      (case fl_l4_kind l of
          L4_Tcp \<Rightarrow> l4_checksum (ip_stage l buf) l 16
        | L4_Udp \<Rightarrow> l4_checksum (ip_stage l buf) l 6
        | L4_Other \<Rightarrow> ret (ip_stage l buf))"
    using v L3_Ipv4
    by (cases "fl_l4_kind l")
      (simp_all add: recompute_checksums_def ip_stage_def ip_window_def slice_ok Let_def
        wr_pair_zero wr_pair wr_pair_last)
  then show ?thesis
    using l4_checksum_eq [OF ok'] L3_Ipv4
    by (auto simp: recomputed_def csum_off_def split: l4_kind.splits)
qed (simp add: recompute_checksums_def recomputed_def)


text \<open>Which bytes change: the checksum fields, nothing else.\<close>

definition csum_bytes :: "frame_layout \<Rightarrow> nat set" where
  "csum_bytes l =
     (if fl_l3_kind l = L3_Ipv4 then {fl_l3 l + 10, fl_l3 l + 11} else {}) \<union>
     (if fl_l4_kind l = L4_Other then {}
      else {fl_l4 l + csum_off l, fl_l4 l + csum_off l + 1})"

lemma agree_on_put16:
  "i + 2 \<le> length buf \<Longrightarrow> i \<notin> A \<Longrightarrow> i + 1 \<notin> A \<Longrightarrow> agree_on A buf (put16 buf i w)"
  unfolding agree_on_def by (metis length_put16 nth_put16_out)

theorem recomputed_frame:
  assumes ok: "layout_ok (length buf) l"
  shows "agree_on (- csum_bytes l) buf (recomputed l buf)"
proof (cases "fl_l3_kind l")
  case L3_Ipv4
  note v = layout_ok_ipv4D [OF ok L3_Ipv4]
  have ip: "agree_on (- csum_bytes l) buf (ip_stage l buf)"
    unfolding ip_stage_def using v L3_Ipv4
    by (intro agree_on_put16) (simp_all add: csum_bytes_def)
  show ?thesis
  proof (cases "fl_l4_kind l = L4_Other")
    case False
    have "agree_on (- csum_bytes l) (ip_stage l buf) (l4_stage l (csum_off l) (ip_stage l buf))"
      unfolding l4_stage_def using v layout_ok_l4D(2) [OF ok False] False
      by (auto intro!: agree_on_put16 simp: csum_bytes_def)
    with ip False L3_Ipv4 show ?thesis
      by (auto simp: recomputed_def intro: agree_on_trans)
  qed (use ip L3_Ipv4 in \<open>simp add: recomputed_def\<close>)
qed (simp add: recomputed_def)

lemma layout_csum_disjoint:
  assumes ok: "layout_ok n l" shows "layout_bytes l \<subseteq> - csum_bytes l"
proof (cases "fl_l3_kind l")
  case L3_Ipv4
  note v = layout_ok_ipv4D [OF ok L3_Ipv4]
  show ?thesis using v L3_Ipv4
    by (auto simp: layout_bytes_def csum_bytes_def csum_off_def split: if_splits)
next
  case L3_Other
  with ok have "fl_l4_kind l = L4_Other" by (simp add: layout_ok_def)
  with L3_Other show ?thesis by (simp add: csum_bytes_def)
qed

text \<open>
  on the layout of its own buffer \<open>recompute_checksums\<close> does not panic, keeps the length,
  writes the checksum fields only, and leaves the layout as it was.
\<close>

theorem recompute_checksums_safe:
  assumes "parse_layout buf = ret (Some l)"
  shows "\<exists>buf'. recompute_checksums buf l = ret buf' \<and> agree_on (- csum_bytes l) buf buf' \<and>
    parse_layout buf' = ret (Some l)"
proof -
  have ok: "layout_ok (length buf) l" using assms by (rule parse_layout_ok)
  have ag: "agree_on (- csum_bytes l) buf (recomputed l buf)"
    using ok by (rule recomputed_frame)
  with parse_layout_cong [OF assms agree_on_subset [OF ag layout_csum_disjoint [OF ok]]]
  show ?thesis by (simp add: recompute_checksums_eq [OF ok])
qed


section \<open>Recomputed checksums validate\<close>

text \<open>The L4 checksum field lies inside the declared IP payload.\<close>

definition l4_field_inside :: "frame_layout \<Rightarrow> bool" where
  "l4_field_inside l \<longleftrightarrow>
     (fl_l4_kind l = L4_Other \<or> fl_l4 l + csum_off l + 2 \<le> fl_end l)"

lemma ip_window_put16_in:
  "layout_ok (length buf) l \<Longrightarrow> fl_l3_kind l = L3_Ipv4 \<Longrightarrow>
   ip_window l (put16 buf (fl_l3 l + 10) w) = put16 (ip_window l buf) 10 w"
  using layout_ok_ipv4D [of "length buf" l]
  by (simp add: ip_window_def take_drop_put16_in)

lemma ip_window_put16_out:
  "fl_l3 l + fl_ihl l \<le> i \<Longrightarrow> i + 2 \<le> length buf \<Longrightarrow>
   ip_window l (put16 buf i w) = ip_window l buf"
  by (simp add: ip_window_def take_drop_put16_out)

lemma l4_window_put16_in:
  "fl_l4 l + k + 2 \<le> fl_end l \<Longrightarrow> fl_end l \<le> length buf \<Longrightarrow>
   l4_window l (put16 buf (fl_l4 l + k) w) = put16 (l4_window l buf) k w"
  by (simp add: l4_window_def take_drop_put16_in)

lemma length_ip_window:
  "layout_ok (length buf) l \<Longrightarrow> fl_l3_kind l = L3_Ipv4 \<Longrightarrow> length (ip_window l buf) = fl_ihl l"
  using layout_ok_ipv4D [of "length buf" l] by (simp add: ip_window_def)

lemma length_l4_window:
  "layout_ok (length buf) l \<Longrightarrow> length (l4_window l buf) = fl_end l - fl_l4 l"
  by (auto simp: l4_window_def layout_ok_def)

text \<open>The accumulators fit: a header has at most 60 bytes, a datagram at most 65535.\<close>

lemma ip_sum_fits:
  "layout_ok (length buf) l \<Longrightarrow> fl_l3_kind l = L3_Ipv4 \<Longrightarrow> sum_fits 0 (ip_window l buf)"
  using layout_ok_ipv4D [of "length buf" l]
  by (simp add: sum_fits_def length_ip_window)

lemma length_pseudo_header:
  "layout_ok (length buf) l \<Longrightarrow> fl_l3_kind l = L3_Ipv4 \<Longrightarrow>
   length (pseudo_header (take 4 (drop (fl_l3 l + 12) buf)) (take 4 (drop (fl_l3 l + 16) buf)) p n) = 12"
  using layout_ok_ipv4D [of "length buf" l] by (simp add: pseudo_header_def)

lemma unat_pseudo_sum:
  assumes "layout_ok (length buf) l" and "fl_l3_kind l = L3_Ipv4"
  shows "unat (pseudo_sum l buf) \<le> 65535 * 6"
proof -
  let ?p = "pseudo_header (take 4 (drop (fl_l3 l + 12) buf)) (take 4 (drop (fl_l3 l + 16) buf))
        (buf ! (fl_l3 l + 9)) (fl_end l - fl_l4 l)"
  have len: "length ?p = 12" by (rule length_pseudo_header [OF assms])
  then have "sum_fits 0 ?p" by (simp add: sum_fits_def)
  then have "unat (pseudo_sum l buf) = nsum ?p"
    by (simp add: pseudo_sum_def sum_words_fits)
  moreover have "nsum ?p \<le> 65535 * 6"
    using nsum_le [of ?p] len by simp
  ultimately show ?thesis by simp
qed

lemma l4_sum_fits:
  assumes ok: "layout_ok (length buf) l" and k: "fl_l3_kind l = L3_Ipv4"
  shows "sum_fits (pseudo_sum l buf) (l4_window l buf)"
proof -
  have "length (l4_window l buf) \<le> 65535"
    using layout_ok_ipv4D [OF ok k] by (simp add: length_l4_window [OF ok])
  then have "(length (l4_window l buf) + 1) div 2 \<le> 32768" by linarith
  then show ?thesis
    using unat_pseudo_sum [OF ok k] unfolding sum_fits_def by simp
qed

lemma checksums_valid_eq:
  assumes ok: "layout_ok (length buf) l" and k: "fl_l3_kind l = L3_Ipv4"
  shows "checksums_valid buf l = ret
    (fold_sum (sum_words 0 (ip_window l buf)) = 0xffff \<and>
     (fl_l4_kind l = L4_Other \<or>
      fold_sum (sum_words (pseudo_sum l buf) (l4_window l buf)) = 0xffff))"
  using layout_ok_ipv4D [OF ok k] k
  by (cases "fl_l4_kind l")
    (simp_all add: checksums_valid_def slice_ok rd_ok usub_ok ip_window_def l4_window_def
      pseudo_sum_def Let_def)

lemma ip_stage_valid:
  assumes ok: "layout_ok (length buf) l" and k: "fl_l3_kind l = L3_Ipv4"
  shows "fold_sum (sum_words 0 (ip_window l (ip_stage l buf))) = 0xffff"
proof -
  have "even (10 :: nat)" and "10 + 2 \<le> length (ip_window l buf)"
    using layout_ok_ipv4D [OF ok k] by (simp_all add: length_ip_window [OF ok k])
  then show ?thesis
    unfolding ip_stage_def ip_window_put16_in [OF ok k]
    by (rule stored_checksum_valid [OF _ _ ip_sum_fits [OF ok k]]) simp
qed

lemma l4_stage_valid:
  assumes ok: "layout_ok (length buf) l" and k: "fl_l4_kind l \<noteq> L4_Other"
    and inside: "l4_field_inside l"
  shows "fold_sum (sum_words (pseudo_sum l (l4_stage l (csum_off l) buf))
           (l4_window l (l4_stage l (csum_off l) buf))) = 0xffff"
proof -
  note v = layout_ok_ipv4D [OF ok layout_ok_l4D(1) [OF ok k]]
  have ins: "fl_l4 l + csum_off l + 2 \<le> fl_end l"
    using inside k by (simp add: l4_field_inside_def)
  then have stage: "l4_stage l (csum_off l) buf =
      put16 buf (fl_l4 l + csum_off l) (l4_field l (csum_off l) buf)"
    by (simp add: l4_stage_def)
  have ps: "pseudo_sum l (l4_stage l (csum_off l) buf) = pseudo_sum l buf"
    unfolding stage using v ins by (intro pseudo_sum_put16) auto
  have "even (csum_off l)" by (simp add: csum_off_def)
  moreover have "csum_off l + 2 \<le> length (l4_window l buf)"
    using ins by (simp add: length_l4_window [OF ok])
  ultimately show ?thesis
    unfolding ps unfolding stage l4_window_put16_in [OF ins v(8)]
    by (rule stored_checksum_valid [OF _ _ l4_sum_fits [OF ok layout_ok_l4D(1) [OF ok k]]])
      (simp add: l4_field_def Let_def l4_window_put16_in [OF ins v(8)])
qed

text \<open>
  after \<open>recompute_checksums\<close> the frame passes \<open>checksums_valid\<close>, whatever its bytes
  were, provided its L4 checksum field lies inside the declared IP payload.
\<close>

theorem recompute_checksums_valid:
  assumes p: "parse_layout buf = ret (Some l)" and inside: "l4_field_inside l"
  shows "\<exists>buf'. recompute_checksums buf l = ret buf' \<and> checksums_valid buf' l = ret True"
proof (cases "fl_l3_kind l")
  case L3_Ipv4
  have ok: "layout_ok (length buf) l" using p by (rule parse_layout_ok)
  note v = layout_ok_ipv4D [OF ok L3_Ipv4]
  have len: "length (ip_stage l buf) = length buf" using v by simp
  have ok1: "layout_ok (length (ip_stage l buf)) l" using ok len by simp
  show ?thesis
  proof (cases "fl_l4_kind l = L4_Other")
    case True
    then show ?thesis
      using ip_stage_valid [OF ok L3_Ipv4] checksums_valid_eq [OF ok1 L3_Ipv4] L3_Ipv4
      by (simp add: recompute_checksums_eq [OF ok] recomputed_def)
  next
    case False
    note c = layout_ok_l4D(2) [OF ok False]
    let ?b = "l4_stage l (csum_off l) (ip_stage l buf)"
    have ok2: "layout_ok (length ?b) l" using ok len c by simp
    have "ip_window l ?b = ip_window l (ip_stage l buf)"
      using c len v by (simp add: l4_stage_def ip_window_put16_out)
    then show ?thesis
      using ip_stage_valid [OF ok L3_Ipv4] checksums_valid_eq [OF ok2 L3_Ipv4]
        l4_stage_valid [OF ok1 False inside] L3_Ipv4 False
      by (simp add: recompute_checksums_eq [OF ok] recomputed_def)
  qed
qed (simp add: recompute_checksums_def checksums_valid_def)

section \<open>Recomputing twice\<close>

lemma ip_stage_put16:
  assumes "fl_l3 l + fl_ihl l \<le> i" and "12 \<le> fl_ihl l" and "i + 2 \<le> length buf"
  shows "ip_stage l (put16 buf i w) = put16 (ip_stage l buf) i w"
proof -
  have c: "put16 (put16 buf i w) (fl_l3 l + 10) v = put16 (put16 buf (fl_l3 l + 10) v) i w" for v
    using assms by (simp add: put16_commute)
  show ?thesis
    using assms by (simp add: ip_stage_def c ip_window_put16_out)
qed

lemma ip_stage_idem: "fl_l3 l + 12 \<le> length buf \<Longrightarrow> ip_stage l (ip_stage l buf) = ip_stage l buf"
  by (simp add: ip_stage_def)

lemma l4_stage_put16:
  assumes "fl_l3 l + 20 \<le> fl_l4 l" and "fl_l4 l + k + 2 \<le> length buf"
  shows "l4_stage l k (put16 buf (fl_l4 l + k) w) =
    (if fl_end l \<le> fl_l4 l then put16 buf (fl_l4 l + k) w else l4_stage l k buf)"
  using assms by (simp add: l4_stage_def l4_field_def pseudo_sum_put16)

theorem recompute_checksums_idem:
  assumes p: "parse_layout buf = ret (Some l)"
  shows "do { b \<leftarrow> recompute_checksums buf l; recompute_checksums b l } = recompute_checksums buf l"
proof (cases "fl_l3_kind l")
  case L3_Ipv4
  have ok: "layout_ok (length buf) l" using p by (rule parse_layout_ok)
  note v = layout_ok_ipv4D [OF ok L3_Ipv4]
  have len: "length (recomputed l buf) = length buf"
    using recomputed_frame [OF ok] by (simp add: agree_on_def)
  have idem: "recomputed l (recomputed l buf) = recomputed l buf"
  proof (cases "fl_l4_kind l = L4_Other")
    case True
    with v L3_Ipv4 show ?thesis by (simp add: recomputed_def ip_stage_idem)
  next
    case False
    note c = layout_ok_l4D(2) [OF ok False]
    show ?thesis
      using v c False L3_Ipv4
      by (simp add: recomputed_def l4_stage_put16 ip_stage_put16 ip_stage_idem)
        (simp add: l4_stage_def ip_stage_put16 ip_stage_idem l4_field_def pseudo_sum_put16)
  qed
  show ?thesis
    using ok len idem by (simp add: recompute_checksums_eq)
qed (simp add: recompute_checksums_def)

section \<open>Accessors\<close>

definition pf_ok :: "parsed_frame \<Rightarrow> bool" where
  "pf_ok f \<longleftrightarrow> parse_layout (pf_buf f) = ret (Some (pf_layout f))"

lemma pf_ok_layout: "pf_ok f \<Longrightarrow> layout_ok (length (pf_buf f)) (pf_layout f)"
  by (simp add: pf_ok_def parse_layout_ok)

lemma pf_parse_ok: "pf_parse buf = ret (Some f) \<Longrightarrow> pf_ok f \<and> pf_buf f = buf"
  by (auto simp: pf_parse_def pf_ok_def)

lemma pf_parse_total: "\<exists>r. pf_parse buf = ret r"
  using parse_layout_total [of buf] by (auto simp: pf_parse_def)

text \<open>A rewrite that leaves the header bytes alone keeps the frame parsed.\<close>

lemma pf_ok_agree:
  "pf_ok f \<Longrightarrow> agree_on (layout_bytes (pf_layout f)) (pf_buf f) buf \<Longrightarrow> pf_ok (f\<lparr>pf_buf := buf\<rparr>)"
  unfolding pf_ok_def by simp (rule parse_layout_cong)

lemma pf_ok_splice:
  assumes "pf_ok f" and "i + length vs \<le> length (pf_buf f)"
    and "layout_bytes (pf_layout f) \<inter> {i..<i + length vs} = {}"
  shows "pf_ok (f\<lparr>pf_buf := splice (pf_buf f) i vs\<rparr>)"
  using assms by (intro pf_ok_agree agree_on_splice)

lemma layout_bytes_below:
  assumes ok: "layout_ok n l" and i: "i \<in> layout_bytes l"
  shows "12 \<le> i \<and>
     (i < fl_l3 l + 10 \<or> fl_l3_kind l = L3_Ipv4 \<and> fl_l4_kind l = L4_Tcp \<and> i = fl_l4 l + 12)"
proof (cases "fl_l3_kind l")
  case L3_Ipv4
  with ok i show ?thesis by (auto simp: layout_bytes_def layout_ok_def split: if_splits)
next
  case L3_Other
  with ok have "fl_l4_kind l = L4_Other" by (simp add: layout_ok_def)
  with L3_Other i show ?thesis by (simp add: layout_bytes_def)
qed

lemma disjoint_ivlI: "(\<And>i. i \<in> A \<Longrightarrow> i < a \<or> b \<le> i) \<Longrightarrow> A \<inter> {a..<b} = {}" for a :: nat
  by force

lemma set_ipv4_src_eq:
  assumes ok: "pf_ok f" and "is_ipv4 f" and "length a = 4"
  shows "set_ipv4_src f a = ret (f\<lparr>pf_buf := splice (pf_buf f) (fl_l3 (pf_layout f) + 12) a\<rparr>)"
  using assms layout_ok_ipv4D [OF pf_ok_layout [OF ok]]
  by (simp add: set_ipv4_src_def is_ipv4_def put_slice_ok)

lemma set_ipv4_dst_eq:
  assumes ok: "pf_ok f" and "is_ipv4 f" and "length a = 4"
  shows "set_ipv4_dst f a = ret (f\<lparr>pf_buf := splice (pf_buf f) (fl_l3 (pf_layout f) + 16) a\<rparr>)"
  using assms layout_ok_ipv4D [OF pf_ok_layout [OF ok]]
  by (simp add: set_ipv4_dst_def is_ipv4_def put_slice_ok)

lemma ipv4_addr_disjoint:
  assumes ok: "layout_ok n l" and v4: "fl_l3_kind l = L3_Ipv4" and k: "12 \<le> k" "k + 4 \<le> 20"
  shows "layout_bytes l \<inter> {fl_l3 l + k..<fl_l3 l + k + 4} = {}"
proof (rule disjoint_ivlI)
  fix i
  assume "i \<in> layout_bytes l"
  with layout_bytes_below [OF ok this] layout_ok_ipv4D(2,5) [OF ok v4] k
  show "i < fl_l3 l + k \<or> fl_l3 l + k + 4 \<le> i" by auto
qed

lemma pf_ok_set_src:
  assumes "pf_ok f" and "is_ipv4 f" and "length a = 4" and "set_ipv4_src f a = ret f'"
  shows "pf_ok f'"
  using assms set_ipv4_src_eq [OF assms(1-3)] layout_ok_ipv4D [OF pf_ok_layout [OF assms(1)]]
    ipv4_addr_disjoint [OF pf_ok_layout [OF assms(1)], of 12]
  by (auto simp: is_ipv4_def intro!: pf_ok_splice)

lemma pf_ok_set_dst:
  assumes "pf_ok f" and "is_ipv4 f" and "length a = 4" and "set_ipv4_dst f a = ret f'"
  shows "pf_ok f'"
  using assms set_ipv4_dst_eq [OF assms(1-3)] layout_ok_ipv4D [OF pf_ok_layout [OF assms(1)]]
    ipv4_addr_disjoint [OF pf_ok_layout [OF assms(1)], of 16]
  by (auto simp: is_ipv4_def intro!: pf_ok_splice)

lemma mac_disjoint:
  assumes "layout_ok n l" and "k + 6 \<le> 12"
  shows "layout_bytes l \<inter> {k..<k + 6} = {}"
proof (rule disjoint_ivlI)
  fix i
  assume "i \<in> layout_bytes l"
  with layout_bytes_below [OF assms(1) this] assms(2)
  show "i < k \<or> k + 6 \<le> i" by simp
qed

lemma payload_disjoint:
  assumes ok: "layout_ok n l"
  shows "layout_bytes l \<inter> {fl_payload l..<fl_end l} = {}"
proof (rule disjoint_ivlI)
  fix i
  assume i: "i \<in> layout_bytes l"
  show "i < fl_payload l \<or> fl_end l \<le> i"
  proof (cases "fl_l3_kind l")
    case L3_Ipv4
    with layout_bytes_below [OF ok i] layout_ok_ipv4D [OF ok L3_Ipv4] ok show ?thesis
      by (auto simp: layout_ok_def)
  next
    case L3_Other
    with ok have "fl_l4_kind l = L4_Other" and "fl_l3 l \<le> fl_payload l"
      by (auto simp: layout_ok_def)
    with i L3_Other show ?thesis by (simp add: layout_bytes_def)
  qed
qed

text \<open>Editing the payload in place keeps the layout.\<close>

lemma set_payload_ok:
  assumes ok: "pf_ok f" and len: "length p = fl_end (pf_layout f) - fl_payload (pf_layout f)"
  obtains f' where "set_payload f p = ret f'" and "pf_ok f'" and "pf_layout f' = pf_layout f"
    and "length (pf_buf f') = length (pf_buf f)" and "payload_of f' = ret p"
    and "take (fl_payload (pf_layout f)) (pf_buf f') = take (fl_payload (pf_layout f)) (pf_buf f)"
    and "drop (fl_end (pf_layout f)) (pf_buf f') = drop (fl_end (pf_layout f)) (pf_buf f)"
proof -
  let ?l = "pf_layout f"
  let ?f = "f\<lparr>pf_buf := splice (pf_buf f) (fl_payload ?l) p\<rparr>"
  have lo: "layout_ok (length (pf_buf f)) ?l" using ok by (rule pf_ok_layout)
  then have b: "fl_payload ?l \<le> fl_end ?l" "fl_end ?l \<le> length (pf_buf f)"
    by (simp_all add: layout_ok_def)
  show thesis
  proof (rule that [of ?f])
    show "set_payload f p = ret ?f"
      using b len by (simp add: set_payload_def put_slice_ok)
    show "pf_ok ?f"
      using ok b len payload_disjoint [OF lo] by (intro pf_ok_splice) simp_all
    show "payload_of ?f = ret p"
      using b len take_drop_splice_same [of "fl_payload ?l" p "pf_buf f"]
      by (simp add: payload_of_def slice_ok)
  qed (use b len in \<open>simp_all add: splice_def\<close>)
qed

end
