(* ===== verification/Capture.thy ===== *)
theory Capture
  imports Frame "HOL-Library.Sublist"
begin

text \<open>
  \<open>src/pcapio.rs\<close>: the in-memory capture, and the frame filters of \<open>src/proto/l3.rs\<close> that
  \<open>retain\<close> some of its packets.  A packet's time stamp is a number of nanoseconds; the header type
  of the \<open>pcap-file\<close> crate is a type variable, since the program only passes it on.

  \<open>frame_filter\<close> is the contract of the four filters: the predicate answers for every byte
  string, and what the filter then does follows.
\<close>

record packet =
  pk_ts :: nat
  pk_orig_len :: u32
  pk_data :: bytes

record 'h capture =
  cap_header :: 'h
  cap_packets :: "packet list"

section \<open>Loops over packets\<close>

fun map_exec :: "('a \<Rightarrow> 'b exec) \<Rightarrow> 'a list \<Rightarrow> 'b list exec" where
  "map_exec f [] = ret []"
| "map_exec f (x # xs) = do { y \<leftarrow> f x; ys \<leftarrow> map_exec f xs; ret (y # ys) }"

text \<open>\<open>Vec::retain\<close>\<close>

fun retain :: "('a \<Rightarrow> bool exec) \<Rightarrow> 'a list \<Rightarrow> 'a list exec" where
  "retain keep [] = ret []"
| "retain keep (x # xs) = do { k \<leftarrow> keep x; ys \<leftarrow> retain keep xs; ret (if k then x # ys else ys) }"

text \<open>The body the \<open>drop_*\<close> functions share: the kept packets and the number dropped.\<close>

definition drop_frames :: "(bytes \<Rightarrow> bool exec) \<Rightarrow> 'h capture \<Rightarrow> ('h capture \<times> nat) exec" where
  "drop_frames keep cap = do {
     let before = length (cap_packets cap);
     ps \<leftarrow> retain (\<lambda>p. keep (pk_data p)) (cap_packets cap);
     ret (cap\<lparr>cap_packets := ps\<rparr>, before - length ps)
   }"

text \<open>Big-endian reads at an index.\<close>

definition rd_be16 :: "bytes \<Rightarrow> nat \<Rightarrow> u16 exec" where
  "rd_be16 buf i = do { a \<leftarrow> rd buf i; b \<leftarrow> rd buf (i + 1); ret (be16 a b) }"

definition rd_be32 :: "bytes \<Rightarrow> nat \<Rightarrow> u32 exec" where
  "rd_be32 buf i = do {
     a \<leftarrow> rd buf i; b \<leftarrow> rd buf (i + 1); c \<leftarrow> rd buf (i + 2); d \<leftarrow> rd buf (i + 3);
     ret (be32 a b c d)
   }"

definition word16_at :: "bytes \<Rightarrow> nat \<Rightarrow> u16" where
  "word16_at buf i = be16 (buf ! i) (buf ! (i + 1))"

definition word32_at :: "bytes \<Rightarrow> nat \<Rightarrow> u32" where
  "word32_at buf i = be32 (buf ! i) (buf ! (i + 1)) (buf ! (i + 2)) (buf ! (i + 3))"

lemma rd_be16_ok [exec_simps]: "i + 2 \<le> length buf \<Longrightarrow> rd_be16 buf i = ret (word16_at buf i)"
  by (simp add: rd_be16_def word16_at_def exec_simps)

lemma rd_be32_ok [exec_simps]: "i + 4 \<le> length buf \<Longrightarrow> rd_be32 buf i = ret (word32_at buf i)"
  by (simp add: rd_be32_def word32_at_def exec_simps)

lemma map_exec_ret:
  "(\<And>x. x \<in> set xs \<Longrightarrow> \<exists>y. f x = ret y) \<Longrightarrow> \<exists>ys. map_exec f xs = ret ys"
proof (induction xs)
  case (Cons x xs)
  obtain y where "f x = ret y" using Cons.prems [of x] by auto
  moreover obtain ys where "map_exec f xs = ret ys" using Cons by auto
  ultimately show ?case by simp
qed simp

lemma map_exec_rel:
  "map_exec f xs = ret ys \<Longrightarrow> (\<And>x y. x \<in> set xs \<Longrightarrow> f x = ret y \<Longrightarrow> R x y) \<Longrightarrow> list_all2 R xs ys"
  by (induction xs arbitrary: ys) auto

lemma map_exec_map: "(\<And>x. x \<in> set xs \<Longrightarrow> f x = ret (g x)) \<Longrightarrow> map_exec f xs = ret (map g xs)"
  by (induction xs) auto

lemma map_exec_length: "map_exec f xs = ret ys \<Longrightarrow> length ys = length xs"
  by (induction xs arbitrary: ys) auto

section \<open>The contract of a frame filter\<close>

locale frame_filter =
  fixes keep :: "bytes \<Rightarrow> bool exec"
  assumes keep_total: "\<exists>b. keep d = ret b"
begin

lemma retain_eq:
  "retain (\<lambda>p. keep (pk_data p)) ps = ret (filter (\<lambda>p. keep (pk_data p) = ret True) ps)"
proof (induction ps)
  case (Cons p ps)
  obtain b where "keep (pk_data p) = ret b" using keep_total by blast
  with Cons show ?case by (cases b) simp_all
qed simp

lemma drop_eq:
  "drop_frames keep cap = ret
     (cap\<lparr>cap_packets := filter (\<lambda>p. keep (pk_data p) = ret True) (cap_packets cap)\<rparr>,
      length (filter (\<lambda>p. keep (pk_data p) \<noteq> ret True) (cap_packets cap)))"
  using sum_length_filter_compl [of "\<lambda>p. keep (pk_data p) = ret True" "cap_packets cap"]
  by (simp add: drop_frames_def retain_eq)

lemma drop_survivors:
  assumes "drop_frames keep cap = ret (cap', n)"
  shows "set (cap_packets cap') = {p \<in> set (cap_packets cap). keep (pk_data p) = ret True}"
    and "cap_header cap' = cap_header cap"
    and "subseq (cap_packets cap') (cap_packets cap)"
    and "length (cap_packets cap') + n = length (cap_packets cap)"
  using assms sum_length_filter_compl [of "\<lambda>p. keep (pk_data p) = ret True" "cap_packets cap"]
  by (auto simp: drop_eq subseq_filter_left)

text \<open>Filtering twice drops nothing more.\<close>

lemma drop_idem:
  assumes "drop_frames keep cap = ret (cap', n)"
  shows "drop_frames keep cap' = ret (cap', 0)"
  using assms by (auto simp: drop_eq)

end

end
