(* ===== verification/Net.thy ===== *)
theory Net
  imports Prelude "HOL-Library.Product_Lexorder"
begin

text \<open>
  The address arithmetic of \<open>src/proto/l3.rs\<close>: which addresses are relocated, the subnet
  an address belongs to, and the choice of a fresh network in 10/8.

  An \<open>Ipv4Addr\<close> is its \<open>u32\<close>.  \<open>ipnet::Ipv4Net\<close> is not under \<open>src/\<close>: the definitions take
  its operations as a record \<open>'n net_ops\<close>, and \<open>net_ok\<close> states its documented behaviour.
  The generator's \<open>gen_range(0..count)\<close> is the parameter \<open>below\<close>.
\<close>

section \<open>Addresses\<close>

type_synonym ipv4 = u32

definition octets :: "ipv4 \<Rightarrow> bytes" where
  "octets a = to_be32 a"

definition octet0 :: "ipv4 \<Rightarrow> u8" where
  "octet0 a = ucast (drop_bit 24 a)"

definition octet1 :: "ipv4 \<Rightarrow> u8" where
  "octet1 a = ucast (drop_bit 16 a)"

definition is_remappable :: "ipv4 \<Rightarrow> bool" where
  "is_remappable addr = (let o0 = octet0 addr in o0 \<noteq> 0 \<and> o0 \<noteq> 127 \<and> o0 < 224)"

text \<open>The predicates of \<open>std::net::Ipv4Addr\<close> the code calls.\<close>

definition is_private :: "ipv4 \<Rightarrow> bool" where
  "is_private a =
     (octet0 a = 10 \<or> (octet0 a = 172 \<and> 16 \<le> octet1 a \<and> octet1 a \<le> 31) \<or>
      (octet0 a = 192 \<and> octet1 a = 168))"

definition is_loopback :: "ipv4 \<Rightarrow> bool" where
  "is_loopback a = (octet0 a = 127)"

definition is_link_local :: "ipv4 \<Rightarrow> bool" where
  "is_link_local a = (octet0 a = 169 \<and> octet1 a = 254)"

definition is_public_unicast :: "ipv4 \<Rightarrow> bool" where
  "is_public_unicast a =
     (let o0 = octet0 a;
          unicast = o0 \<noteq> 0 \<and> o0 \<noteq> 127 \<and> o0 < 224
      in unicast \<and> \<not> is_private a \<and> \<not> is_loopback a \<and> \<not> is_link_local a)"

section \<open>Networks\<close>

record 'n net_ops =
  no_network :: "'n \<Rightarrow> ipv4"
  no_broadcast :: "'n \<Rightarrow> ipv4"
  no_prefix_len :: "'n \<Rightarrow> u8"
  no_contains :: "'n \<Rightarrow> ipv4 \<Rightarrow> bool"
  no_hosts :: "'n \<Rightarrow> ipv4 list"
  no_new :: "ipv4 \<Rightarrow> u8 \<Rightarrow> 'n option"
  no_show :: "'n \<Rightarrow> string"
  no_parse :: "string \<Rightarrow> 'n option"

text \<open>A prefix length is at most 32 (the crate rejects others), so the shift is in range.\<close>

definition mask_for :: "u8 \<Rightarrow> u32" where
  "mask_for prefix = (if prefix = 0 then 0 else push_bit (32 - unat prefix) (- 1))"

definition parse_hints :: "'n net_ops \<Rightarrow> string list \<Rightarrow> 'n list" where
  "parse_hints N hints = List.map_filter (no_parse N) hints"

fun group_of :: "'n net_ops \<Rightarrow> ipv4 \<Rightarrow> 'n list \<Rightarrow> u8 \<times> u32" where
  "group_of N addr [] = (24, addr AND mask_for 24)"
| "group_of N addr (h # hints) =
     (if 8 \<le> no_prefix_len N h \<and> no_contains N h addr
      then (no_prefix_len N h, addr AND mask_for (no_prefix_len N h))
      else group_of N addr hints)"

definition subnet_of :: "'n net_ops \<Rightarrow> ipv4 \<Rightarrow> 'n list \<Rightarrow> 'n exec" where
  "subnet_of N addr hints = (let (p, net) = group_of N addr hints in no_new N net p)"

definition overlaps :: "u32 \<Rightarrow> u8 \<Rightarrow> (u32 \<times> u8) list \<Rightarrow> bool" where
  "overlaps net prefix assigned =
     (let lo = unat net; hi = lo + 2 ^ (32 - unat prefix)
      in list_ex (\<lambda>(n2, p2). let lo2 = unat n2; hi2 = lo2 + 2 ^ (32 - unat p2)
           in lo < hi2 \<and> lo2 < hi) assigned)"

definition clamp_prefix :: "u8 \<Rightarrow> u8" where
  "clamp_prefix p = (if p < 8 then 8 else if 30 < p then 30 else p)"

type_synonym 'r below = "'r \<Rightarrow> u64 \<Rightarrow> u64 \<times> 'r"

text \<open>\<open>RFC1918_10_BASE | (idx << host_bits)\<close>\<close>

definition ten_net :: "nat \<Rightarrow> u32 \<Rightarrow> u32" where
  "ten_net host_bits idx = 0x0A000000 OR push_bit host_bits idx"

text \<open>The 256 random attempts, then the scan.\<close>

fun pick_random ::
  "nat \<Rightarrow> 'r below \<Rightarrow> u8 \<Rightarrow> nat \<Rightarrow> u64 \<Rightarrow> (u32 \<times> u8) list \<Rightarrow> 'r \<Rightarrow> u32 option \<times> 'r"
where
  "pick_random 0 below prefix host_bits count assigned r = (None, r)"
| "pick_random (Suc n) below prefix host_bits count assigned r =
     (let (idx, r) = below r count;
          net = ten_net host_bits (ucast idx)
      in if \<not> overlaps net prefix assigned then (Some net, r)
         else pick_random n below prefix host_bits count assigned r)"

definition pick_new_net :: "'r below \<Rightarrow> u8 \<Rightarrow> 'r \<Rightarrow> (u32 \<times> u8) list \<Rightarrow> u32 \<times> 'r" where
  "pick_new_net below prefix r assigned =
     (let prefix = clamp_prefix prefix;
          host_bits = 32 - unat prefix;
          count = push_bit (unat prefix - 8) (1 :: u64)
      in case pick_random 256 below prefix host_bits count assigned r of
           (Some net, r) \<Rightarrow> (net, r)
         | (None, r) \<Rightarrow>
             (case find (\<lambda>net. \<not> overlaps net prefix assigned)
                (map (\<lambda>idx. ten_net host_bits (word_of_nat idx)) [0..<unat count]) of
                Some net \<Rightarrow> (net, r)
              | None \<Rightarrow> (0x0A000000, r)))"

definition fresh_subnet :: "'n net_ops \<Rightarrow> 'r below \<Rightarrow> u8 \<Rightarrow> 'n list \<Rightarrow> 'r \<Rightarrow> ('n \<times> 'r) exec" where
  "fresh_subnet N below prefix existing r =
     (let assigned = map (\<lambda>n. (no_network N n, no_prefix_len N n)) existing;
          p = clamp_prefix prefix;
          (net, r) = pick_new_net below p r assigned
      in do { n \<leftarrow> no_new N net p; ret (n, r) })"

section \<open>The laws of the libraries\<close>

definition below_ok :: "'r below \<Rightarrow> bool" where
  "below_ok below \<longleftrightarrow> (\<forall>r n. 0 < n \<longrightarrow> fst (below r n) < n)"

text \<open>
  \<open>ipnet\<close>: a network has a prefix of at most 32; \<open>network\<close> and \<open>broadcast\<close> are its first and last
  address, \<open>contains\<close> is membership between them, \<open>hosts\<close> enumerates the addresses that are
  neither (for prefixes up to 30), each once; \<open>new\<close> accepts a prefix of at most 32.
\<close>

definition net_ok :: "'n net_ops \<Rightarrow> bool" where
  "net_ok N \<longleftrightarrow>
     (\<forall>n. no_prefix_len N n \<le> 32 \<and>
        no_network N n AND mask_for (no_prefix_len N n) = no_network N n \<and>
        no_broadcast N n = no_network N n OR NOT (mask_for (no_prefix_len N n)) \<and>
        (\<forall>a. no_contains N n a \<longleftrightarrow> a AND mask_for (no_prefix_len N n) = no_network N n) \<and>
        distinct (no_hosts N n) \<and>
        (no_prefix_len N n \<le> 30 \<longrightarrow> (\<forall>a. a \<in> set (no_hosts N n) \<longleftrightarrow>
           no_contains N n a \<and> a \<noteq> no_network N n \<and> a \<noteq> no_broadcast N n)) \<and>
        (\<forall>a \<in> set (no_hosts N n). no_contains N n a)) \<and>
     (\<forall>a p. p \<le> 32 \<longrightarrow> (\<exists>n. no_new N a p = Some n \<and> no_prefix_len N n = p \<and>
        no_network N n = a AND mask_for p))"

section \<open>Masks and aligned networks\<close>

lemma bit_mask_for:
  "unat p \<le> 32 \<Longrightarrow> bit (mask_for p) i \<longleftrightarrow> p \<noteq> 0 \<and> 32 - unat p \<le> i \<and> i < 32"
  by (auto simp: mask_for_def bit_simps)

lemma bit_u32_lt: "bit (w :: u32) i \<Longrightarrow> i < 32"
  using bit_imp_le_length [of w i] by simp

lemma not_and_mask: "(w AND NOT (mask_for p)) AND mask_for p = 0"
  by (simp add: and.assoc)

definition aligned :: "u8 \<Rightarrow> u32 \<Rightarrow> bool" where
  "aligned p net \<longleftrightarrow> net AND mask_for p = net"

lemma aligned_host_part:
  assumes "aligned p net"
  shows "(net OR (h AND NOT (mask_for p))) AND mask_for p = net"
    and "(net OR (h AND NOT (mask_for p))) AND NOT (mask_for p) = h AND NOT (mask_for p)"
proof -
  have "net AND NOT (mask_for p) = (net AND mask_for p) AND NOT (mask_for p)"
    using assms by (simp add: aligned_def)
  also have "\<dots> = 0" by (simp add: and.assoc)
  finally show "(net OR (h AND NOT (mask_for p))) AND NOT (mask_for p) = h AND NOT (mask_for p)"
    by (simp add: bit.conj_disj_distrib2 and.assoc)
  show "(net OR (h AND NOT (mask_for p))) AND mask_for p = net"
    using assms by (simp add: aligned_def bit.conj_disj_distrib2 and.assoc)
qed

lemma mask_split: "(w AND mask_for p) OR (w AND NOT (mask_for p)) = w"
  by (simp add: bit.conj_disj_distrib [symmetric])

section \<open>Candidates of the pick\<close>

text \<open>The candidate networks in natural numbers: blocks of \<open>2 ^ host_bits\<close> addresses.\<close>

lemma unat_ten_net:
  assumes "hb \<le> 24" and "unat idx < 2 ^ (24 - hb)"
  shows "unat (ten_net hb idx) = 0x0A000000 + unat idx * 2 ^ hb"
proof -
  have lt: "unat idx * 2 ^ hb < 2 ^ 24"
  proof -
    have "unat idx * 2 ^ hb < 2 ^ (24 - hb) * 2 ^ hb" using assms(2) by simp
    also have "\<dots> = 2 ^ 24" using assms(1) by (simp flip: power_add)
    finally show ?thesis .
  qed
  have s: "unat (push_bit hb idx) = unat idx * 2 ^ hb"
  proof -
    have "unat (push_bit hb idx) = take_bit 32 (push_bit hb (unat idx))"
      by (simp add: unsigned_push_bit_eq)
    also have "\<dots> = unat idx * 2 ^ hb"
      using lt by (simp only: push_bit_eq_mult take_bit_eq_mod) simp
    finally show ?thesis .
  qed
  have b: "\<not> bit (0x0A000000 :: u32) i \<or> \<not> bit (push_bit hb idx) i" for i
  proof (cases "i < 24")
    case True
    have e: "push_bit 24 (0x0A :: u32) = 0x0A000000" by simp
    have "\<not> bit (push_bit 24 (0x0A :: u32)) i"
      using True by (simp only: bit_push_bit_iff) linarith
    then show ?thesis by (simp only: e) simp
  next
    case False
    then have "(2 :: nat) ^ 24 \<le> 2 ^ i" by (intro power_increasing) simp_all
    then have "unat (push_bit hb idx) < 2 ^ i" using lt s by linarith
    then have "\<not> bit (unat (push_bit hb idx)) i" by (simp add: bit_iff_odd)
    then show ?thesis by (simp add: bit_unsigned_iff bit_imp_le_length)
  qed
  then have "ten_net hb idx = 0x0A000000 + push_bit hb idx"
    by (simp add: ten_net_def disjunctive_add)
  then show ?thesis
    using lt s by (simp add: unat_word_ariths)
qed

definition block_size :: "u8 \<Rightarrow> nat" where
  "block_size p = 2 ^ (32 - unat (clamp_prefix p))"

text \<open>A network the pick returns for prefix \<open>p\<close>: a block of 10/8 at a multiple of its size.\<close>

definition ten_block :: "u8 \<Rightarrow> u32 \<Rightarrow> bool" where
  "ten_block p n \<longleftrightarrow> 8 \<le> unat p \<and>
     (\<exists>j < 2 ^ (unat (clamp_prefix p) - 8). unat n = 0x0A000000 + j * block_size p)"

lemma clamp_prefix_bounds: "8 \<le> unat (clamp_prefix p)" "unat (clamp_prefix p) \<le> 30"
  by (simp_all add: clamp_prefix_def word_less_nat_alt word_le_nat_alt)

lemma clamp_prefix_le: "8 \<le> unat p \<Longrightarrow> unat (clamp_prefix p) \<le> unat p"
  by (auto simp: clamp_prefix_def word_less_nat_alt)

lemma blocks_fill: "2 ^ (unat (clamp_prefix p) - 8) * block_size p = 2 ^ 24"
proof -
  have "unat (clamp_prefix p) - 8 + (32 - unat (clamp_prefix p)) = 24"
    using clamp_prefix_bounds [of p] by linarith
  then show ?thesis unfolding block_size_def by (metis power_add)
qed

lemma block_size_pos [simp]: "0 < block_size p"
  by (simp add: block_size_def)

lemma net_span_le: "8 \<le> unat p \<Longrightarrow> 2 ^ (32 - unat p) \<le> block_size p"
  unfolding block_size_def
  by (rule power_increasing) (use clamp_prefix_le [of p] in linarith, simp)

lemma unat_count:
  "unat (push_bit (unat (clamp_prefix p) - 8) (1 :: u64)) = 2 ^ (unat (clamp_prefix p) - 8)"
  "unat ((2 :: u64) ^ (unat (clamp_prefix p) - 8)) = 2 ^ (unat (clamp_prefix p) - 8)"
proof -
  have k: "unat (clamp_prefix p) - 8 < 64" using clamp_prefix_bounds [of p] by linarith
  then have "(2 :: nat) ^ (unat (clamp_prefix p) - 8) < 2 ^ 64"
    by (intro power_strict_increasing) simp_all
  then have "take_bit 64 ((2 :: nat) ^ (unat (clamp_prefix p) - 8)) = 2 ^ (unat (clamp_prefix p) - 8)"
    by (rule take_bit_nat_eq_self)
  moreover have "unat (push_bit (unat (clamp_prefix p) - 8) (1 :: u64))
      = take_bit 64 (push_bit (unat (clamp_prefix p) - 8) 1)"
    by (simp only: unsigned_push_bit_eq unsigned_1) simp
  ultimately show "unat (push_bit (unat (clamp_prefix p) - 8) (1 :: u64)) = 2 ^ (unat (clamp_prefix p) - 8)"
    by simp
  then show "unat ((2 :: u64) ^ (unat (clamp_prefix p) - 8)) = 2 ^ (unat (clamp_prefix p) - 8)"
    by simp
qed

text \<open>How many candidates of size \<open>s\<close> a block of size \<open>q * s\<close> can touch.\<close>

lemma hit_range:
  fixes s q j idx :: nat
  assumes "0 < s" and "idx * s < j * (q * s) + w" and "w \<le> q * s" and "j * (q * s) < idx * s + s"
  shows "idx \<in> {j * q ..< j * q + q}"
proof -
  have "idx * s < (j * q + q) * s" using assms(2,3) by (simp add: algebra_simps)
  then have "idx < j * q + q" using assms(1) by simp
  moreover have "(j * q) * s < (idx + 1) * s" using assms(4) by (simp add: algebra_simps)
  then have "j * q < idx + 1" using assms(1) mult_less_cancel2 by blast
  ultimately show ?thesis by simp
qed

definition hits :: "u8 \<Rightarrow> u32 \<times> u8 \<Rightarrow> nat set" where
  "hits p a = {idx. idx < 2 ^ (unat (clamp_prefix p) - 8) \<and>
     overlaps (ten_net (32 - unat (clamp_prefix p)) (word_of_nat idx)) (clamp_prefix p) [a]}"

lemma unat_candidate:
  assumes "idx < 2 ^ (unat (clamp_prefix p) - 8)"
  shows "unat (ten_net (32 - unat (clamp_prefix p)) (word_of_nat idx))
    = 0x0A000000 + idx * block_size p"
proof -
  let ?c = "unat (clamp_prefix p)"
  have "(2 :: nat) ^ (?c - 8) < 2 ^ 32"
    using clamp_prefix_bounds [of p] by (intro power_strict_increasing) linarith+
  then have u: "unat (word_of_nat idx :: u32) = idx"
    using assms by (intro unat_word_of_nat) simp
  have "24 - (32 - ?c) = ?c - 8" using clamp_prefix_bounds [of p] by linarith
  then show ?thesis
    using unat_ten_net [of "32 - ?c" "word_of_nat idx"] clamp_prefix_bounds [of p] assms u
    by (simp add: block_size_def)
qed

lemma card_hits:
  assumes a: "ten_block (snd a) (fst a)" and le: "clamp_prefix (snd a) \<le> clamp_prefix p"
  shows "card (hits p a) * block_size p \<le> block_size (snd a)"
proof -
  obtain n2 p2 where [simp]: "a = (n2, p2)" by (cases a)
  obtain j where p2: "8 \<le> unat p2" and n2: "unat n2 = 0x0A000000 + j * block_size p2"
    using a by (auto simp: ten_block_def)
  define q where "q = (2 :: nat) ^ (unat (clamp_prefix p) - unat (clamp_prefix p2))"
  have "unat (clamp_prefix p) - unat (clamp_prefix p2) + (32 - unat (clamp_prefix p))
      = 32 - unat (clamp_prefix p2)"
    using le clamp_prefix_bounds [of p] by (simp add: word_le_nat_alt)
  then have q: "q * block_size p = block_size p2"
    unfolding q_def block_size_def by (metis power_add)
  have "hits p a \<subseteq> {j * q ..< j * q + q}"
  proof
    fix idx assume "idx \<in> hits p a"
    then have i: "idx < 2 ^ (unat (clamp_prefix p) - 8)"
      and o: "overlaps (ten_net (32 - unat (clamp_prefix p)) (word_of_nat idx)) (clamp_prefix p) [(n2, p2)]"
      by (simp_all add: hits_def)
    have "idx * block_size p < j * (q * block_size p) + 2 ^ (32 - unat p2)"
      and "j * (q * block_size p) < idx * block_size p + block_size p"
      using o by (simp_all add: overlaps_def Let_def unat_candidate [OF i] n2 q)
        (simp_all add: block_size_def)
    moreover have "2 ^ (32 - unat p2) \<le> q * block_size p"
      by (simp only: q net_span_le [OF p2])
    ultimately show "idx \<in> {j * q ..< j * q + q}"
      by (intro hit_range [OF block_size_pos [of p]])
  qed
  then have "card (hits p a) \<le> q" using card_mono [of "{j * q ..< j * q + q}"] by fastforce
  then have "card (hits p a) * block_size p \<le> q * block_size p" by simp
  with q show ?thesis by simp
qed

lemma overlaps_Cons: "overlaps net p (a # as) \<longleftrightarrow> overlaps net p [a] \<or> overlaps net p as"
  by (cases a) (simp add: overlaps_def Let_def)

lemma overlaps_Nil [simp]: "\<not> overlaps net p []"
  by (simp add: overlaps_def)

lemma free_candidate:
  assumes "\<forall>a \<in> set as. ten_block (snd a) (fst a) \<and> clamp_prefix (snd a) \<le> clamp_prefix p"
    and "sum_list (map (\<lambda>a. block_size (snd a)) as) + block_size p \<le> 2 ^ 24"
  shows "\<exists>idx < 2 ^ (unat (clamp_prefix p) - 8).
    \<not> overlaps (ten_net (32 - unat (clamp_prefix p)) (word_of_nat idx)) (clamp_prefix p) as"
proof -
  let ?n = "2 ^ (unat (clamp_prefix p) - 8) :: nat"
  define bad where "bad as = {idx. idx < ?n \<and>
    overlaps (ten_net (32 - unat (clamp_prefix p)) (word_of_nat idx)) (clamp_prefix p) as}" for as
  have fin: "finite (bad as)" for as by (simp add: bad_def)
  have "card (bad as) * block_size p \<le> sum_list (map (\<lambda>a. block_size (snd a)) as)"
    using assms(1)
  proof (induction as)
    case Nil
    then show ?case by (simp add: bad_def)
  next
    case (Cons a as)
    have "bad (a # as) = hits p a \<union> bad as"
      by (auto simp: bad_def hits_def overlaps_Cons [of _ _ a as])
    then have "card (bad (a # as)) \<le> card (hits p a) + card (bad as)"
      by (simp add: card_Un_le)
    then have "card (bad (a # as)) * block_size p
        \<le> card (hits p a) * block_size p + card (bad as) * block_size p"
      by (metis add_mult_distrib mult_le_mono1)
    also have "\<dots> \<le> block_size (snd a) + sum_list (map (\<lambda>a. block_size (snd a)) as)"
      using Cons card_hits [of a p] by (intro add_mono) simp_all
    finally show ?case by simp
  qed
  then have "card (bad as) * block_size p < ?n * block_size p"
    using assms(2) blocks_fill [of p] block_size_pos [of p] by linarith
  then have "card (bad as) < card {..<?n}" by simp
  then have "\<not> {..<?n} \<subseteq> bad as" using card_mono [OF fin, of "{..<?n}"] by fastforce
  then show ?thesis by (auto simp: bad_def)
qed

section \<open>What the pick returns\<close>

lemma pick_random_Some:
  "pick_random n below p hb count as r = (Some net, r') \<Longrightarrow>
   \<not> overlaps net p as \<and> (\<exists>r. net = ten_net hb (ucast (fst (below r count))))"
proof (induction n arbitrary: r)
  case (Suc n)
  obtain idx r1 where "below r count = (idx, r1)" by (cases "below r count")
  with Suc show ?case by (auto simp: Let_def split: if_splits) (metis fst_conv)
qed simp

text \<open>Every pick is a block of 10/8.\<close>

lemma ten_net_block:
  assumes "8 \<le> unat p" and "idx < 2 ^ (unat (clamp_prefix p) - 8)"
  shows "ten_block p (ten_net (32 - unat (clamp_prefix p)) (word_of_nat idx))"
  using assms unat_candidate [of idx p] by (auto simp: ten_block_def)

lemma below_index:
  assumes "below_ok below"
  obtains idx where "idx < 2 ^ (unat (clamp_prefix p) - 8)"
    and "(ucast (fst (below r (push_bit (unat (clamp_prefix p) - 8) 1))) :: u32) = word_of_nat idx"
proof -
  let ?c = "push_bit (unat (clamp_prefix p) - 8) (1 :: u64)"
  have "0 < ?c"
    using unat_count [of p] by (metis word_gt_0 unat_0 power_eq_0_iff zero_neq_numeral)
  then have "fst (below r ?c) < ?c"
    using assms by (simp add: below_ok_def)
  then have "unat (fst (below r ?c)) < 2 ^ (unat (clamp_prefix p) - 8)"
    using unat_count [of p] by (simp only: word_less_nat_alt)
  moreover have "(ucast (fst (below r ?c)) :: u32) = word_of_nat (unat (fst (below r ?c)))"
    by simp
  ultimately show thesis by (rule that)
qed

lemma pick_new_net_block:
  assumes "below_ok below" and "8 \<le> unat p" and "pick_new_net below p r as = (net, r')"
  shows "ten_block p net"
proof -
  let ?hb = "32 - unat (clamp_prefix p)" and ?c = "push_bit (unat (clamp_prefix p) - 8) (1 :: u64)"
  obtain o1 r1 where pr: "pick_random 256 below (clamp_prefix p) ?hb ?c as r = (o1, r1)"
    by (cases "pick_random 256 below (clamp_prefix p) ?hb ?c as r")
  show ?thesis
  proof (cases o1)
    case (Some n)
    then obtain r2 where "n = ten_net ?hb (ucast (fst (below r2 ?c)))"
      using pick_random_Some [OF pr [unfolded Some]] by blast
    moreover obtain idx where "idx < 2 ^ (unat (clamp_prefix p) - 8)"
      "(ucast (fst (below r2 ?c)) :: u32) = word_of_nat idx"
      using below_index [OF assms(1)] by blast
    ultimately show ?thesis
      using assms(2,3) pr Some ten_net_block [of p idx] by (simp add: pick_new_net_def)
  next
    case None
    show ?thesis
    proof (cases "find (\<lambda>net. \<not> overlaps net (clamp_prefix p) as)
        (map (\<lambda>idx. ten_net ?hb (word_of_nat idx)) [0..<unat ?c])")
      case None
      with \<open>o1 = None\<close> assms pr show ?thesis
        by (auto simp: pick_new_net_def ten_block_def intro!: exI [of _ 0])
    next
      case (Some n)
      then obtain idx where "idx < 2 ^ (unat (clamp_prefix p) - 8)" "n = ten_net ?hb (word_of_nat idx)"
        by (auto simp: find_Some_iff unat_count)
      with Some None assms pr ten_net_block [of p idx] show ?thesis
        by (simp add: pick_new_net_def)
    qed
  qed
qed

text \<open>While there is room left, a pick overlaps no assigned network.\<close>

lemma pick_new_net_free:
  assumes "pick_new_net below p r as = (net, r')"
    and "\<forall>a \<in> set as. ten_block (snd a) (fst a) \<and> clamp_prefix (snd a) \<le> clamp_prefix p"
    and "sum_list (map (\<lambda>a. block_size (snd a)) as) + block_size p \<le> 2 ^ 24"
  shows "\<not> overlaps net (clamp_prefix p) as"
proof -
  let ?hb = "32 - unat (clamp_prefix p)" and ?c = "push_bit (unat (clamp_prefix p) - 8) (1 :: u64)"
  obtain o1 r1 where pr: "pick_random 256 below (clamp_prefix p) ?hb ?c as r = (o1, r1)"
    by (cases "pick_random 256 below (clamp_prefix p) ?hb ?c as r")
  show ?thesis
  proof (cases o1)
    case (Some n)
    then show ?thesis
      using pick_random_Some [OF pr [unfolded Some]] assms(1) pr by (simp add: pick_new_net_def)
  next
    case None
    obtain idx where "idx < 2 ^ (unat (clamp_prefix p) - 8)"
      "\<not> overlaps (ten_net ?hb (word_of_nat idx)) (clamp_prefix p) as"
      using free_candidate [OF assms(2,3)] by blast
    then have "find (\<lambda>net. \<not> overlaps net (clamp_prefix p) as)
        (map (\<lambda>idx. ten_net ?hb (word_of_nat idx)) [0..<unat ?c]) \<noteq> None"
      by (auto simp: find_None_iff unat_count)
    then obtain n where f: "find (\<lambda>net. \<not> overlaps net (clamp_prefix p) as)
        (map (\<lambda>idx. ten_net ?hb (word_of_nat idx)) [0..<unat ?c]) = Some n" by blast
    then have "\<not> overlaps n (clamp_prefix p) as" by (auto simp: find_Some_iff)
    with f None assms(1) pr show ?thesis by (simp add: pick_new_net_def)
  qed
qed

section \<open>Addresses in a picked network\<close>

lemma mask_for_not_mask: "unat p \<le> 32 \<Longrightarrow> mask_for p = NOT (mask (32 - unat p))"
proof (rule bit_word_eqI)
  fix n
  assume p: "unat p \<le> 32" and n: "n < LENGTH(32)"
  have "p = 0 \<longleftrightarrow> unat p = 0" by (simp add: unat_eq_0)
  then show "bit (mask_for p) n \<longleftrightarrow> bit (NOT (mask (32 - unat p)) :: u32) n"
    using p n by (auto simp: bit_mask_for bit_simps)
qed

definition host_addr :: "u32 \<Rightarrow> u8 \<Rightarrow> u32 \<Rightarrow> u32" where
  "host_addr net p h = net OR (h AND NOT (mask_for p))"

lemma host_part: "unat p \<le> 32 \<Longrightarrow> h AND NOT (mask_for p) = take_bit (32 - unat p) h"
  by (simp add: mask_for_not_mask take_bit_eq_mask)

lemma unat_host_part: "unat p \<le> 32 \<Longrightarrow> 0 < unat p \<Longrightarrow> unat (h AND NOT (mask_for p)) < 2 ^ (32 - unat p)"
  by (simp add: host_part unsigned_take_bit_eq)

lemma ten_block_dvd:
  assumes "ten_block p n" and "unat p \<le> 32"
  shows "2 ^ (32 - unat p) dvd unat n"
proof -
  obtain j where "8 \<le> unat p" and n: "unat n = 0x0A000000 + j * block_size p"
    using assms(1) by (auto simp: ten_block_def)
  have d: "(2 :: nat) ^ (32 - unat p) dvd block_size p"
    unfolding block_size_def
    by (rule le_imp_power_dvd) (use clamp_prefix_le [OF \<open>8 \<le> unat p\<close>] in linarith)
  moreover have "block_size p dvd 2 ^ 24"
    using blocks_fill [of p] by (metis dvd_triv_right)
  then have "block_size p dvd 0x0A * 2 ^ 24" by (rule dvd_mult)
  ultimately have "(2 :: nat) ^ (32 - unat p) dvd 0x0A * 2 ^ 24" using dvd_trans by blast
  then have "(2 :: nat) ^ (32 - unat p) dvd 0x0A000000" by simp
  with d show ?thesis by (simp add: n)
qed

lemma ten_block_aligned:
  assumes "ten_block p n" and p: "unat p \<le> 32"
  shows "aligned p n"
proof -
  have "take_bit (32 - unat p) (unat n) = 0"
    using ten_block_dvd [OF assms] by (simp add: take_bit_eq_0_iff)
  then have "unat (n AND NOT (mask_for p)) = unat (0 :: u32)"
    using p by (simp add: host_part unsigned_take_bit_eq)
  then have z: "n AND NOT (mask_for p) = 0" by (simp only: word_unat_eq_iff)
  have "n AND mask_for p = (n AND mask_for p) OR (n AND NOT (mask_for p))" using z by simp
  also have "\<dots> = n" by (rule mask_split)
  finally show ?thesis by (simp add: aligned_def)
qed

lemma ten_block_range:
  assumes "ten_block p n"
  shows "0x0A000000 \<le> unat n" and "unat n + block_size p \<le> 0x0B000000"
proof -
  obtain j where j: "j < 2 ^ (unat (clamp_prefix p) - 8)" and n: "unat n = 0x0A000000 + j * block_size p"
    using assms by (auto simp: ten_block_def)
  have "(j + 1) * block_size p \<le> 2 ^ (unat (clamp_prefix p) - 8) * block_size p"
    using j by (intro mult_le_mono1) simp
  then have "j * block_size p + block_size p \<le> 2 ^ 24" using blocks_fill [of p] by simp
  then show "unat n + block_size p \<le> 0x0B000000" using n by simp
  show "0x0A000000 \<le> unat n" using n by simp
qed

lemma unat_host_addr:
  assumes t: "ten_block p n" and p: "unat p \<le> 32"
  shows "unat (host_addr n p h) = unat n + unat (h AND NOT (mask_for p))"
proof -
  have p8: "8 \<le> unat p" using t by (simp add: ten_block_def)
  have d: "\<not> bit n i \<or> \<not> bit (h AND NOT (mask_for p)) i" for i
  proof (cases "bit (mask_for p) i")
    case False
    have "bit n i = bit (n AND mask_for p) i"
      using ten_block_aligned [OF t p] by (simp add: aligned_def)
    with False show ?thesis by (simp add: bit_simps)
  qed (simp add: bit_simps)
  have "unat (h AND NOT (mask_for p)) < 2 ^ (32 - unat p)"
    using p p8 by (intro unat_host_part) simp_all
  then have "unat n + unat (h AND NOT (mask_for p)) < 2 ^ 32"
    using ten_block_range(2) [OF t] net_span_le [OF p8] by simp
  moreover have "host_addr n p h = n + (h AND NOT (mask_for p))"
    using d by (simp add: host_addr_def disjunctive_add)
  ultimately show ?thesis by (simp add: unat_word_ariths)
qed

text \<open>A host keeps its offset and moves to the network.\<close>

lemma host_addr_network: "ten_block p n \<Longrightarrow> unat p \<le> 32 \<Longrightarrow> host_addr n p h AND mask_for p = n"
  unfolding host_addr_def by (rule aligned_host_part(1) [OF ten_block_aligned])

lemma host_addr_offset:
  "ten_block p n \<Longrightarrow> unat p \<le> 32 \<Longrightarrow>
   host_addr n p h AND NOT (mask_for p) = h AND NOT (mask_for p)"
  unfolding host_addr_def by (rule aligned_host_part(2) [OF ten_block_aligned])

lemma octet0_ten:
  assumes "0x0A000000 \<le> unat a" and "unat a < 0x0B000000"
  shows "octet0 a = 0x0A"
proof -
  have "unat a div 16777216 = 10" using assms by (intro div_nat_eqI) simp_all
  then have "unat (octet0 a) = unat (0x0A :: u8)"
    by (simp only: octet0_def unat_ucast_u8 unat_drop_bit_word) simp
  then show ?thesis by (simp only: word_unat_eq_iff)
qed

lemma host_addr_ten:
  assumes t: "ten_block p n" and p: "unat p \<le> 32"
  shows "octet0 (host_addr n p h) = 0x0A"
proof (rule octet0_ten)
  have p8: "8 \<le> unat p" using t by (simp add: ten_block_def)
  have "unat (h AND NOT (mask_for p)) < block_size p"
    using unat_host_part [OF p, of h] net_span_le [OF p8] p8 by linarith
  then show "unat (host_addr n p h) < 0x0B000000"
    using unat_host_addr [OF assms] ten_block_range(2) [OF t] by simp
  show "0x0A000000 \<le> unat (host_addr n p h)"
    using unat_host_addr [OF assms] ten_block_range(1) [OF t] by simp
qed

lemma ten_private: "octet0 a = 0x0A \<Longrightarrow> is_remappable a \<and> is_private a \<and> \<not> is_public_unicast a"
  by (simp add: is_remappable_def is_private_def is_public_unicast_def)

text \<open>Addresses of networks that do not overlap differ.\<close>

lemma host_addr_disjoint:
  assumes "ten_block p n" "unat p \<le> 32" and "ten_block q m" "unat q \<le> 32"
    and "\<not> overlaps n (clamp_prefix p) [(m, q)]"
  shows "host_addr n p h \<noteq> host_addr m q k"
proof
  assume e: "host_addr n p h = host_addr m q k"
  have p8: "8 \<le> unat p" and q8: "8 \<le> unat q" using assms(1,3) by (simp_all add: ten_block_def)
  have "unat (h AND NOT (mask_for p)) < 2 ^ (32 - unat (clamp_prefix p))"
  proof -
    have "unat (h AND NOT (mask_for p)) < 2 ^ (32 - unat p)"
      using unat_host_part [OF assms(2), of h] p8 by simp
    also have "\<dots> \<le> 2 ^ (32 - unat (clamp_prefix p))"
      using net_span_le [OF p8] unfolding block_size_def .
    finally show ?thesis .
  qed
  moreover have "unat (k AND NOT (mask_for q)) < 2 ^ (32 - unat q)"
    using unat_host_part [OF assms(4), of k] q8 by simp
  moreover have "unat n + unat (h AND NOT (mask_for p)) = unat m + unat (k AND NOT (mask_for q))"
    using unat_host_addr [OF assms(1,2), of h] unat_host_addr [OF assms(3,4), of k] e by simp
  ultimately have "overlaps n (clamp_prefix p) [(m, q)]"
    by (simp add: overlaps_def Let_def)
  with assms(5) show False by simp
qed

lemma host_addr_inj:
  assumes "ten_block p n" "unat p \<le> 32" and "h AND mask_for p = k AND mask_for p"
    and "host_addr n p h = host_addr n p k"
  shows "h = k"
proof -
  have o: "h AND NOT (mask_for p) = k AND NOT (mask_for p)"
    using host_addr_offset [OF assms(1,2), of h] host_addr_offset [OF assms(1,2), of k]
    by (simp only: assms(4))
  have "h = (h AND mask_for p) OR (h AND NOT (mask_for p))" by (simp only: mask_split)
  also have "\<dots> = k" by (simp only: assms(3) o mask_split)
  finally show ?thesis .
qed

lemma group_of_bounds:
  assumes "net_ok N" and "group_of N a hints = (p, net)"
  shows "8 \<le> unat p" and "unat p \<le> 32" and "net = a AND mask_for p"
proof -
  have l: "no_prefix_len N n \<le> 32" for n using assms(1) by (simp add: net_ok_def)
  have "8 \<le> unat p \<and> unat p \<le> 32 \<and> net = a AND mask_for p"
    using assms(2)
  proof (induction hints)
    case (Cons h hints)
    then show ?case
      using l [of h] by (auto simp: word_le_nat_alt split: if_splits)
  qed auto
  then show "8 \<le> unat p" and "unat p \<le> 32" and "net = a AND mask_for p" by simp_all
qed

end
