(* ===== verification/Texts.thy ===== *)
theory Texts
  imports Prelude "HOL-Library.Char_ord" "HOL-Library.List_Lexorder"
begin

text \<open>
  The parts of Rust's \<open>str\<close> and integer parsing that the program uses, on strings of
  one-byte characters: splitting, trimming, \<open>from_str_radix\<close>, and hexadecimal and decimal
  output.  Used by the OUI table, the MAC strings, the seeds and the configuration.
\<close>

section \<open>Splitting and trimming\<close>

text \<open>\<open>s.split(c)\<close>: always at least one piece.\<close>

fun split_on :: "char \<Rightarrow> string \<Rightarrow> string list" where
  "split_on c [] = [[]]"
| "split_on c (x # xs) =
     (if x = c then [] # split_on c xs
      else case split_on c xs of
        [] \<Rightarrow> [[x]]
      | p # ps \<Rightarrow> (x # p) # ps)"

text \<open>\<open>s.split_once(c)\<close>\<close>

fun split_once :: "char \<Rightarrow> string \<Rightarrow> (string \<times> string) option" where
  "split_once c [] = None"
| "split_once c (x # xs) =
     (if x = c then Some ([], xs) else map_option (apfst ((#) x)) (split_once c xs))"

definition is_space :: "char \<Rightarrow> bool" where
  "is_space c = (of_char c = (32 :: nat) \<or> (9 \<le> (of_char c :: nat) \<and> (of_char c :: nat) \<le> 13))"

definition trim :: "string \<Rightarrow> string" where
  "trim s = rev (dropWhile is_space (rev (dropWhile is_space s)))"

text \<open>\<open>text.lines()\<close>: a final newline opens no line, and one \<open>\r\<close> before the newline goes.\<close>

definition strip_cr :: "string \<Rightarrow> string" where
  "strip_cr l = (if l \<noteq> [] \<and> last l = char_of (13 :: nat) then butlast l else l)"

definition text_lines :: "string \<Rightarrow> string list" where
  "text_lines s =
     (let ls = split_on (char_of (10 :: nat)) s
      in map strip_cr (if last ls = [] then butlast ls else ls))"

lemma split_on_nonempty [simp]: "split_on c s \<noteq> []"
  by (induction s) (auto split: list.splits)

lemma split_on_single: "c \<notin> set s \<Longrightarrow> split_on c s = [s]"
  by (induction s) auto

lemma split_on_append: "c \<notin> set s \<Longrightarrow> split_on c (s @ c # t) = s # split_on c t"
  by (induction s) auto

text \<open>Splitting undoes joining when no piece contains the separator.\<close>

fun join_with :: "char \<Rightarrow> string list \<Rightarrow> string" where
  "join_with c [] = []"
| "join_with c [p] = p"
| "join_with c (p # ps) = p @ c # join_with c ps"

lemma split_on_join:
  "ps \<noteq> [] \<Longrightarrow> \<forall>p \<in> set ps. c \<notin> set p \<Longrightarrow> split_on c (join_with c ps) = ps"
  by (induction c ps rule: join_with.induct) (auto simp: split_on_single split_on_append)

section \<open>Digits\<close>

definition digit_val :: "nat \<Rightarrow> char \<Rightarrow> nat option" where
  "digit_val radix c =
     (let n = of_char c;
          v = (if 48 \<le> n \<and> n \<le> 57 then n - 48
               else if 97 \<le> n \<and> n \<le> 122 then n - 87
               else if 65 \<le> n \<and> n \<le> 90 then n - 55
               else radix)
      in if v < radix then Some v else None)"

fun digits_val :: "nat \<Rightarrow> nat \<Rightarrow> string \<Rightarrow> nat option" where
  "digits_val radix acc [] = Some acc"
| "digits_val radix acc (c # cs) =
     (case digit_val radix c of
        None \<Rightarrow> None
      | Some d \<Rightarrow> digits_val radix (acc * radix + d) cs)"

text \<open>
  \<open>uN::from_str_radix\<close>: one leading \<open>+\<close> is allowed, the rest must be digits and at least
  one, and the value must not exceed \<open>limit\<close> (a running overflow is a final one, since the value
  only grows).
\<close>

definition parse_radix :: "nat \<Rightarrow> nat \<Rightarrow> string \<Rightarrow> nat option" where
  "parse_radix radix limit s =
     (let ds = (case s of c # cs \<Rightarrow> if c = CHR ''+'' then cs else s | [] \<Rightarrow> [])
      in if ds = [] then None
         else case digits_val radix 0 ds of
           None \<Rightarrow> None
         | Some v \<Rightarrow> if v \<le> limit then Some v else None)"

definition u8_from_hex :: "string \<Rightarrow> u8 option" where
  "u8_from_hex s = map_option word_of_nat (parse_radix 16 255 s)"

definition is_ascii_hexdigit :: "char \<Rightarrow> bool" where
  "is_ascii_hexdigit c = (digit_val 16 c \<noteq> None)"

definition hex_digit :: "nat \<Rightarrow> char" where
  "hex_digit n = char_of (if n < 10 then 48 + n else 87 + n)"

text \<open>\<open>{:02x}\<close> of a byte\<close>

definition hex2 :: "u8 \<Rightarrow> string" where
  "hex2 b = [hex_digit (unat b div 16), hex_digit (unat b mod 16)]"

lemma of_char_hex_digit: "n < 16 \<Longrightarrow> of_char (hex_digit n) = (if n < 10 then 48 + n else 87 + n)"
  by (simp add: hex_digit_def)

lemma digit_val_hex [simp]: "n < 16 \<Longrightarrow> digit_val 16 (hex_digit n) = Some n"
  by (auto simp: digit_val_def of_char_hex_digit)

lemma hex_digit_neq:
  "n < 16 \<Longrightarrow> of_char c < (48 :: nat) \<or> of_char c = (58 :: nat) \<Longrightarrow> hex_digit n \<noteq> c"
  using of_char_hex_digit [of n] by (auto split: if_splits)

lemma hex2_parse: "u8_from_hex (hex2 b) = Some b"
proof -
  let ?hi = "unat b div 16" and ?lo = "unat b mod 16"
  have b: "?hi < 16" using unat_u8_lt [of b] by linarith
  have p: "hex_digit ?hi \<noteq> CHR ''+''"
    using b by (rule hex_digit_neq) simp
  have "digits_val 16 0 (hex2 b) = Some (unat b)"
    using b by (simp add: hex2_def)
  then have "parse_radix 16 255 (hex2 b) = Some (unat b)"
    using p by (simp add: parse_radix_def hex2_def)
  then show ?thesis by (simp add: u8_from_hex_def)
qed

lemma hex2_no_colon: "CHR '':'' \<notin> set (hex2 b)"
proof -
  have "unat b div 16 < 16" using unat_u8_lt [of b] by linarith
  then have "hex_digit (unat b div 16) \<noteq> CHR '':''" and "hex_digit (unat b mod 16) \<noteq> CHR '':''"
    by (rule hex_digit_neq, simp) (rule hex_digit_neq, simp_all)
  then show ?thesis by (auto simp: hex2_def)
qed

text \<open>\<open>{}\<close> of an unsigned integer\<close>

fun show_nat :: "nat \<Rightarrow> string" where
  "show_nat n = (if n < 10 then [char_of (48 + n)] else show_nat (n div 10) @ [char_of (48 + n mod 10)])"

declare show_nat.simps [simp del]

end
