(* ===== verification/Oui.thy ===== *)
theory Oui
  imports Texts
begin

text \<open>
  \<open>src/oui/mod.rs\<close>: the OUI table read from a CSV, its two lookups, and the pool of IT-vendor
  prefixes.  The table's text is an argument (the binary embeds \<open>data/oui.csv\<close>).  The two hash maps
  are functions to options; a prefix \<open>[u8; 3]\<close> is a byte list.
\<close>

section \<open>The IT pool\<close>

definition it_pool :: "bytes list" where
  "it_pool =
     [[0x00, 0x14, 0x22], [0x00, 0x1F, 0x29], [0x00, 0x1B, 0x21], [0x00, 0x50, 0x56],
      [0x00, 0xD0, 0xC9], [0x00, 0x25, 0x90], [0x00, 0x21, 0xCC]]"

definition it_pool_oui :: "u64 \<Rightarrow> bytes" where
  "it_pool_oui salt = it_pool ! (unat salt mod length it_pool)"

section \<open>The table\<close>

record oui_db =
  od_map :: "bytes \<Rightarrow> string option"
  od_by_vendor :: "string \<Rightarrow> bytes list option"

text \<open>\<open>parse_prefix\<close>: the hexadecimal digits of the text, if there are six.\<close>

definition parse_prefix :: "string \<Rightarrow> bytes option" where
  "parse_prefix s =
     (let cleaned = filter is_ascii_hexdigit s
      in if length cleaned \<noteq> 6 then None
         else case (u8_from_hex (take 2 cleaned), u8_from_hex (take 2 (drop 2 cleaned)),
             u8_from_hex (take 2 (drop 4 cleaned))) of
           (Some a, Some b, Some c) \<Rightarrow> Some [a, b, c]
         | _ \<Rightarrow> None)"

text \<open>One line of the loop of \<open>OuiDb::parse\<close>: the entry it adds, if any.\<close>

definition oui_line :: "string \<Rightarrow> (bytes \<times> string) option" where
  "oui_line raw =
     (let line = trim raw
      in if line = [] \<or> hd line = CHR ''#'' then None
         else case split_once (CHR '','') line of
           None \<Rightarrow> None
         | Some (prefix, vendor) \<Rightarrow>
             let vendor = trim vendor
             in if vendor = [] then None
                else case parse_prefix (trim prefix) of
                  None \<Rightarrow> None
                | Some b \<Rightarrow> Some (b, vendor))"

definition oui_add :: "bytes \<times> string \<Rightarrow> oui_db \<Rightarrow> oui_db" where
  "oui_add e db =
     (case e of (b, v) \<Rightarrow>
        db\<lparr>od_map := (od_map db)(b \<mapsto> v),
           od_by_vendor := (od_by_vendor db)
             (v \<mapsto> (case od_by_vendor db v of None \<Rightarrow> [] | Some ps \<Rightarrow> ps) @ [b])\<rparr>)"

definition oui_parse :: "string \<Rightarrow> oui_db" where
  "oui_parse txt =
     (let db = fold oui_add (List.map_filter oui_line (text_lines txt))
            \<lparr>od_map = (\<lambda>_. None), od_by_vendor = (\<lambda>_. None)\<rparr>
      in db\<lparr>od_by_vendor := (\<lambda>v. map_option (\<lambda>ps. remdups_adj (sort ps)) (od_by_vendor db v))\<rparr>)"

definition vendor_of_prefix :: "oui_db \<Rightarrow> bytes \<Rightarrow> string option" where
  "vendor_of_prefix db prefix = od_map db prefix"

definition oui_vendor :: "oui_db \<Rightarrow> mac \<Rightarrow> string option" where
  "oui_vendor db mac = od_map db (take 3 mac)"

definition oui_for_vendor :: "oui_db \<Rightarrow> string \<Rightarrow> u64 \<Rightarrow> bytes option" where
  "oui_for_vendor db vendor salt =
     (case od_by_vendor db vendor of
        None \<Rightarrow> None
      | Some prefixes \<Rightarrow>
          let i = unat salt mod max (length prefixes) 1
          in if i < length prefixes then Some (prefixes ! i) else None)"

section \<open>Lemmas\<close>

definition oui_entries :: "string \<Rightarrow> (bytes \<times> string) list" where
  "oui_entries txt = List.map_filter oui_line (text_lines txt)"

definition oui_empty :: oui_db where
  "oui_empty = \<lparr>od_map = (\<lambda>_. None), od_by_vendor = (\<lambda>_. None)\<rparr>"

text \<open>The prefixes collected for a vendor, a vendor without an entry having none.\<close>

definition prefixes_of :: "oui_db \<Rightarrow> string \<Rightarrow> bytes list" where
  "prefixes_of db v = (case od_by_vendor db v of None \<Rightarrow> [] | Some ps \<Rightarrow> ps)"

lemma od_map_add [simp]: "od_map (oui_add (b, v) db) = (od_map db)(b \<mapsto> v)"
  by (simp add: oui_add_def)

lemma prefixes_of_add [simp]:
  "prefixes_of (oui_add (b, v) db) w = prefixes_of db w @ (if w = v then [b] else [])"
  by (simp add: oui_add_def prefixes_of_def)

lemma od_by_vendor_add:
  "od_by_vendor (oui_add (b, v) db) w = (if w = v then Some (prefixes_of db v @ [b]) else od_by_vendor db w)"
  by (simp add: oui_add_def prefixes_of_def)

lemma fold_oui_map: "od_map (fold oui_add es db) = od_map db ++ map_of (rev es)"
  by (induction es arbitrary: db) (auto simp: map_add_def fun_eq_iff split: option.splits)

lemma fold_oui_vendor:
  "prefixes_of (fold oui_add es db) v = prefixes_of db v @ map fst (filter (\<lambda>e. snd e = v) es)"
  by (induction es arbitrary: db) auto

lemma fold_oui_nonempty:
  "\<forall>v. od_by_vendor db v \<noteq> Some [] \<Longrightarrow> od_by_vendor (fold oui_add es db) v \<noteq> Some []"
proof (induction es arbitrary: db)
  case (Cons e es)
  have "\<forall>w. od_by_vendor (oui_add e db) w \<noteq> Some []"
    using Cons.prems by (cases e) (simp add: od_by_vendor_add)
  then show ?case using Cons.IH by simp
qed simp

lemma oui_parse_eq:
  "od_map (oui_parse txt) = map_of (rev (oui_entries txt))"
  "od_by_vendor (oui_parse txt) v
     = map_option (\<lambda>ps. remdups_adj (sort ps)) (od_by_vendor (fold oui_add (oui_entries txt) oui_empty) v)"
  by (simp_all add: oui_parse_def Let_def oui_entries_def [symmetric] oui_empty_def [symmetric]
      fold_oui_map) (simp add: oui_empty_def)

text \<open>A prefix offered for a vendor stands on a line of that vendor.\<close>

lemma oui_for_vendor_entry:
  assumes "oui_for_vendor (oui_parse txt) v salt = Some p"
  shows "(p, v) \<in> set (oui_entries txt)"
proof -
  obtain ps where ps: "od_by_vendor (fold oui_add (oui_entries txt) oui_empty) v = Some ps"
    using assms by (auto simp: oui_for_vendor_def oui_parse_eq split: option.splits)
  let ?qs = "remdups_adj (sort ps)"
  define i where "i = unat salt mod max (length ?qs) 1"
  have "i < length ?qs" and "p = ?qs ! i"
    using assms ps by (simp_all only: oui_for_vendor_def oui_parse_eq Let_def option.map option.case
        i_def [symmetric] split: if_splits) simp_all
  then have "p \<in> set ?qs" using nth_mem by blast
  then have "p \<in> set ps" by simp
  moreover have "ps = map fst (filter (\<lambda>e. snd e = v) (oui_entries txt))"
    using fold_oui_vendor [of "oui_entries txt" oui_empty v] ps
    by (simp add: prefixes_of_def) (simp add: oui_empty_def)
  ultimately show ?thesis by auto
qed

text \<open>A vendor with a line is always offered a prefix, whatever the salt.\<close>

lemma oui_for_vendor_some:
  assumes "(b, v) \<in> set (oui_entries txt)"
  shows "\<exists>p. oui_for_vendor (oui_parse txt) v salt = Some p"
proof -
  have "b \<in> set (prefixes_of (fold oui_add (oui_entries txt) oui_empty) v)"
    using assms by (force simp: fold_oui_vendor)
  then obtain ps where ps: "od_by_vendor (fold oui_add (oui_entries txt) oui_empty) v = Some ps"
    and "b \<in> set ps"
    by (cases "od_by_vendor (fold oui_add (oui_entries txt) oui_empty) v") (auto simp: prefixes_of_def)
  let ?qs = "remdups_adj (sort ps)"
  have "set ?qs \<noteq> {}" using \<open>b \<in> set ps\<close> by auto
  then have "0 < length ?qs" by (simp only: length_greater_0_conv set_empty not_False_eq_True)
  then have "unat salt mod max (length ?qs) 1 < length ?qs" and "unat salt mod length ?qs < length ?qs"
    by simp_all
  with ps show ?thesis
    by (simp add: oui_for_vendor_def oui_parse_eq Let_def)
qed

lemma oui_entry_vendor:
  assumes "(p, v) \<in> set (oui_entries txt)" and "\<forall>w. (p, w) \<in> set (oui_entries txt) \<longrightarrow> w = v"
  shows "vendor_of_prefix (oui_parse txt) p = Some v"
proof -
  have "\<exists>w. map_of (rev (oui_entries txt)) p = Some w"
    using assms(1) weak_map_of_SomeI [of p v "rev (oui_entries txt)"] by simp
  then obtain w where w: "map_of (rev (oui_entries txt)) p = Some w" by blast
  then have "(p, w) \<in> set (oui_entries txt)" using map_of_SomeD by fastforce
  with assms(2) w show ?thesis
    by (simp add: vendor_of_prefix_def oui_parse_eq)
qed

lemma it_pool_oui_in: "it_pool_oui salt \<in> set it_pool"
  unfolding it_pool_oui_def by (rule nth_mem) (simp add: it_pool_def)

lemma it_pool_global: "oui \<in> set it_pool \<Longrightarrow> length oui = 3 \<and> hd oui = 0"
  by (auto simp: it_pool_def)

end
