(* ===== verification/Mac.thy ===== *)
theory Mac
  imports Oui
begin

text \<open>
  The MAC addresses of \<open>src/proto/l3.rs\<close>: the splitmix64 finalizer, the stable per-host
  addresses derived from it, and the textual form used by the ledger.
\<close>

section \<open>Code\<close>

definition splitmix64 :: "u64 \<Rightarrow> u64" where
  "splitmix64 x =
     (let x = (x XOR drop_bit 30 x) * 0xBF58476D1CE4E5B9;
          x = (x XOR drop_bit 27 x) * 0x94D049BB133111EB
      in x XOR drop_bit 31 x)"

text \<open>\<open>h.to_be_bytes()\<close> of a \<open>u64\<close>\<close>

definition to_be64 :: "u64 \<Rightarrow> bytes" where
  "to_be64 w = map (\<lambda>k. ucast (drop_bit k w)) [56, 48, 40, 32, 24, 16, 8, 0]"

definition stable_mac :: "u64 \<Rightarrow> u32 \<Rightarrow> mac" where
  "stable_mac seed ip =
     (let h = splitmix64 (seed XOR ucast ip * 0x9E3779B97F4A7C15);
          b = to_be64 h
      in [b ! 0 AND 0xFC, b ! 1, b ! 2, b ! 3, b ! 4, b ! 5])"

definition host_mac_salted :: "u64 \<Rightarrow> u32 \<Rightarrow> u64 \<Rightarrow> mac" where
  "host_mac_salted seed ip salt =
     (let oui = it_pool_oui (ucast ip);
          low = stable_mac (seed + salt) ip
      in [oui ! 0, oui ! 1, oui ! 2, low ! 3, low ! 4, low ! 5])"

definition host_mac :: "u64 \<Rightarrow> u32 \<Rightarrow> mac" where
  "host_mac seed ip = host_mac_salted seed ip 0"

definition mac_for :: "(u32 \<Rightarrow> mac option) \<Rightarrow> u64 \<Rightarrow> u32 \<Rightarrow> mac" where
  "mac_for mac_map seed new_ip =
     (case mac_map new_ip of Some m \<Rightarrow> m | None \<Rightarrow> host_mac seed new_ip)"

definition parse_mac :: "string \<Rightarrow> mac" where
  "parse_mac s =
     (let parts = take 6 (split_on (CHR '':'') s);
          vals = map (\<lambda>p. case u8_from_hex p of Some v \<Rightarrow> v | None \<Rightarrow> 0) parts
      in vals @ replicate (6 - length vals) 0)"

definition fmt_mac :: "mac \<Rightarrow> string" where
  "fmt_mac m = join_with (CHR '':'') (map hex2 m)"

section \<open>Lemmas\<close>

lemma length_stable_mac [simp, len_simps]: "length (stable_mac seed ip) = 6"
  by (simp add: stable_mac_def Let_def)

lemma length_host_mac_salted [simp, len_simps]: "length (host_mac_salted seed ip salt) = 6"
  by (simp add: host_mac_salted_def Let_def)

lemma length_host_mac [simp, len_simps]: "length (host_mac seed ip) = 6"
  by (simp add: host_mac_def)

text \<open>A MAC a sensor binds to an address: unicast (bit 0 clear), globally administered (bit 1 clear).\<close>

definition global_unicast :: "mac \<Rightarrow> bool" where
  "global_unicast m \<longleftrightarrow> length m = 6 \<and> m ! 0 AND 0x03 = 0"

lemma stable_mac_global: "global_unicast (stable_mac seed ip)"
proof -
  have "(x AND 0xFC) AND 0x03 = (0 :: u8)" for x
    by (simp add: and.assoc)
  then show ?thesis by (simp add: global_unicast_def stable_mac_def Let_def)
qed

lemma host_mac_salted_global: "global_unicast (host_mac_salted seed ip salt)"
  using it_pool_global [OF it_pool_oui_in, of "ucast ip"]
  by (cases "it_pool_oui (ucast ip)")
    (auto simp: global_unicast_def host_mac_salted_def Let_def)

lemma host_mac_salted_pool: "take 3 (host_mac_salted seed ip salt) \<in> set it_pool"
proof -
  obtain a b c where "it_pool_oui (ucast ip) = [a, b, c]"
    using it_pool_global [OF it_pool_oui_in, of "ucast ip"]
    by (auto simp: numeral_3_eq_3 length_Suc_conv)
  with it_pool_oui_in [of "ucast ip"] show ?thesis
    by (simp add: host_mac_salted_def Let_def)
qed

lemma mac_for_global:
  assumes "\<And>i m. mac_map i = Some m \<Longrightarrow> global_unicast m"
  shows "global_unicast (mac_for mac_map seed ip)"
  using assms host_mac_salted_global by (auto simp: mac_for_def host_mac_def split: option.splits)

lemma parse_fmt_mac: "length m = 6 \<Longrightarrow> parse_mac (fmt_mac m) = m"
proof -
  assume l: "length m = 6"
  have "split_on (CHR '':'') (fmt_mac m) = map hex2 m"
    unfolding fmt_mac_def using l hex2_no_colon by (intro split_on_join) auto
  then show ?thesis
    using l by (simp add: parse_mac_def comp_def hex2_parse)
qed

lemma length_parse_mac: "length (parse_mac s) = 6"
  by (simp add: parse_mac_def Let_def)

text \<open>The finalizer is injective: each of its steps is.\<close>

lemma xorshift_inj:
  assumes "0 < k" and "x XOR drop_bit k x = y XOR drop_bit k (y :: u64)"
  shows "x = y"
proof (rule bit_word_eqI)
  have b: "bit x n \<noteq> bit x (n + k) \<longleftrightarrow> bit y n \<noteq> bit y (n + k)" for n
    using arg_cong [OF assms(2), of "\<lambda>w. bit w n"]
    by (auto simp: bit_simps add.commute)
  fix n assume "n < LENGTH(64)"
  then show "bit x n \<longleftrightarrow> bit y n"
  proof (induction "64 - n" arbitrary: n rule: less_induct)
    case less
    show ?case
    proof (cases "n + k < 64")
      case True
      then have "bit x (n + k) \<longleftrightarrow> bit y (n + k)" using less.hyps [of "n + k"] assms(1) by simp
      with b [of n] show ?thesis by blast
    next
      case False
      then have "\<not> bit x (n + k)" and "\<not> bit y (n + k)"
        using bit_imp_le_length [of x "n + k"] bit_imp_le_length [of y "n + k"] by auto
      with b [of n] show ?thesis by blast
    qed
  qed
qed

lemma times_inj: "c * d = 1 \<Longrightarrow> x * c = y * c \<Longrightarrow> x = (y :: u64)"
proof -
  assume d: "c * d = 1" and "x * c = y * c"
  then have "x * c * d = y * c * d" by simp
  with d show "x = y" by (simp add: mult.assoc)
qed

lemma splitmix64_inj: "splitmix64 x = splitmix64 y \<longleftrightarrow> x = y"
proof
  let ?a = "\<lambda>x :: u64. (x XOR drop_bit 30 x) * 0xBF58476D1CE4E5B9"
  let ?b = "\<lambda>x :: u64. (x XOR drop_bit 27 x) * 0x94D049BB133111EB"
  assume "splitmix64 x = splitmix64 y"
  then have "?b (?a x) XOR drop_bit 31 (?b (?a x)) = ?b (?a y) XOR drop_bit 31 (?b (?a y))"
    by (simp only: splitmix64_def Let_def)
  then have "?b (?a x) = ?b (?a y)" by (rule xorshift_inj [rotated]) simp
  then have "?a x XOR drop_bit 27 (?a x) = ?a y XOR drop_bit 27 (?a y)"
    by (rule times_inj [of _ "0x319642B2D24D8EC3", rotated]) simp
  then have "?a x = ?a y" by (rule xorshift_inj [rotated]) simp
  then have "x XOR drop_bit 30 x = y XOR drop_bit 30 y"
    by (rule times_inj [of _ "0x96DE1B173F119089", rotated]) simp
  then show "x = y" by (rule xorshift_inj [rotated]) simp
qed simp

text \<open>So the 64-bit hash behind \<open>stable_mac\<close> separates the addresses of one session.\<close>

lemma host_hash_inj:
  "splitmix64 (seed XOR ucast a * 0x9E3779B97F4A7C15)
     = splitmix64 (seed XOR ucast b * 0x9E3779B97F4A7C15) \<longleftrightarrow> a = (b :: u32)"
proof
  assume "splitmix64 (seed XOR ucast a * 0x9E3779B97F4A7C15)
     = splitmix64 (seed XOR ucast b * 0x9E3779B97F4A7C15)"
  then have "seed XOR ucast a * 0x9E3779B97F4A7C15 = seed XOR ucast b * 0x9E3779B97F4A7C15"
    by (simp only: splitmix64_inj)
  then have "seed XOR (seed XOR ucast a * 0x9E3779B97F4A7C15)
      = seed XOR (seed XOR ucast b * 0x9E3779B97F4A7C15)" by (rule arg_cong)
  then have "ucast a * 0x9E3779B97F4A7C15 = (ucast b * 0x9E3779B97F4A7C15 :: u64)"
    by (simp only: xor.assoc [symmetric] xor_self_eq xor.left_neutral)
  then have "(ucast a :: u64) = ucast b"
    by (rule times_inj [of _ "0xF1DE83E19937733D", rotated]) simp
  then have "unat (ucast a :: u64) = unat (ucast b :: u64)" by simp
  moreover have "unat (ucast w :: u64) = unat (w :: u32)" for w
  proof -
    have "unat w < 2 ^ 64" by (rule order_less_trans [OF unat_u32_lt]) simp
    then show ?thesis by (simp add: unsigned_ucast_eq take_bit_nat_eq_self)
  qed
  ultimately show "a = b" by (simp only: word_unat_eq_iff)
qed simp

end
