(* ===== verification/Remap.thy ===== *)
theory Remap
  imports Capture Net Mac
begin

text \<open>
  The layer-3 remap of \<open>src/proto/l3.rs\<close>: enumeration of a capture's hosts, the host map,
  the rewriting of frames through it, and the fail-closed filters that follow.

  A \<open>HashMap\<close> that is only looked up is a function to options.  One that is also iterated is
  a list of pairs with distinct keys in the order of insertion (the results below do not depend
  on that order); a \<open>HashSet\<close> is a set.
\<close>

section \<open>ARP\<close>

definition is_arp_ipv4 :: "bytes \<Rightarrow> nat \<Rightarrow> bool exec" where
  "is_arp_ipv4 buf l3 =
     (if \<not> (2 \<le> l3 \<and> l3 + 28 \<le> length buf) then ret False
      else do {
        ethertype \<leftarrow> rd_be16 buf (l3 - 2);
        if ethertype \<noteq> 0x0806 then ret False
        else do {
          htype \<leftarrow> rd_be16 buf l3;
          if htype \<noteq> 1 then ret False
          else do {
            ptype \<leftarrow> rd_be16 buf (l3 + 2);
            if ptype \<noteq> 0x0800 then ret False
            else do {
              hlen \<leftarrow> rd buf (l3 + 4);
              if hlen \<noteq> 6 then ret False
              else do { plen \<leftarrow> rd buf (l3 + 5); ret (plen = 4) }
            }
          }
        }
      })"

definition remap_arp_addrs ::
  "bytes \<Rightarrow> nat \<Rightarrow> (u32 \<Rightarrow> u32 option) \<Rightarrow> (u32 \<Rightarrow> mac option) \<Rightarrow> u64 \<Rightarrow> bool \<Rightarrow> bytes exec" where
  "remap_arp_addrs buf l3 hm mac_map seed remap_mac = do {
     arp \<leftarrow> is_arp_ipv4 buf l3;
     if \<not> arp then ret buf
     else do {
       spa \<leftarrow> rd_be32 buf (l3 + 14);
       buf \<leftarrow> (case hm spa of
           None \<Rightarrow> ret buf
         | Some nspa \<Rightarrow> do {
             buf \<leftarrow> put_slice buf (l3 + 14) (l3 + 18) (to_be32 nspa);
             if remap_mac then do {
               let mac = mac_for mac_map seed nspa;
               buf \<leftarrow> put_slice buf (l3 + 8) (l3 + 14) mac;
               put_slice buf 6 12 mac
             } else ret buf
           });
       tpa \<leftarrow> rd_be32 buf (l3 + 24);
       case hm tpa of
         None \<Rightarrow> ret buf
       | Some ntpa \<Rightarrow> do {
           buf \<leftarrow> put_slice buf (l3 + 24) (l3 + 28) (to_be32 ntpa);
           if remap_mac then do {
             tha \<leftarrow> slice buf (l3 + 18) (l3 + 24);
             if \<not> list_all (\<lambda>b. b = 0) tha \<and> \<not> list_all (\<lambda>b. b = 0xff) tha then do {
               let mac = mac_for mac_map seed ntpa;
               buf \<leftarrow> put_slice buf (l3 + 18) (l3 + 24) mac;
               put_slice buf 0 6 mac
             } else ret buf
           } else ret buf
         }
     }
   }"

section \<open>Applying a host map\<close>

definition from_be32 :: "bytes \<Rightarrow> u32" where
  "from_be32 b = be32 (b ! 0) (b ! 1) (b ! 2) (b ! 3)"

text \<open>The IPv4 branch: rewrite one address, reporting its new value.\<close>

definition remap_src :: "(u32 \<Rightarrow> u32 option) \<Rightarrow> parsed_frame \<Rightarrow> (parsed_frame \<times> u32 option) exec" where
  "remap_src hm f = do {
     s \<leftarrow> ipv4_src f;
     case s of
       None \<Rightarrow> ret (f, None)
     | Some s \<Rightarrow>
         (case hm (from_be32 s) of
            None \<Rightarrow> ret (f, None)
          | Some ns \<Rightarrow> do { f \<leftarrow> set_ipv4_src f (octets ns); ret (f, Some ns) })
   }"

definition remap_dst :: "(u32 \<Rightarrow> u32 option) \<Rightarrow> parsed_frame \<Rightarrow> (parsed_frame \<times> u32 option) exec" where
  "remap_dst hm f = do {
     d \<leftarrow> ipv4_dst f;
     case d of
       None \<Rightarrow> ret (f, None)
     | Some d \<Rightarrow>
         (case hm (from_be32 d) of
            None \<Rightarrow> ret (f, None)
          | Some nd \<Rightarrow> do { f \<leftarrow> set_ipv4_dst f (octets nd); ret (f, Some nd) })
   }"

definition remap_macs ::
  "(u32 \<Rightarrow> mac option) \<Rightarrow> u64 \<Rightarrow> u32 option \<Rightarrow> u32 option \<Rightarrow> parsed_frame \<Rightarrow> parsed_frame exec" where
  "remap_macs mac_map seed new_src new_dst f = do {
     f \<leftarrow> (case new_src of
         None \<Rightarrow> ret f
       | Some ns \<Rightarrow> set_src_mac f (mac_for mac_map seed ns));
     case new_dst of
       None \<Rightarrow> ret f
     | Some nd \<Rightarrow> do {
         b0 \<leftarrow> rd (pf_buf f) 0;
         if b0 AND 0x01 = 0 then set_dst_mac f (mac_for mac_map seed nd) else ret f
       }
   }"

text \<open>The loop body of \<open>apply_host_map\<close> on the bytes of one packet.\<close>

definition remap_frame ::
  "(u32 \<Rightarrow> u32 option) \<Rightarrow> (u32 \<Rightarrow> mac option) \<Rightarrow> u64 \<Rightarrow> bool \<Rightarrow> bytes \<Rightarrow> bytes exec" where
  "remap_frame hm mac_map seed remap_mac data = do {
     r \<leftarrow> pf_parse data;
     case r of
       None \<Rightarrow> ret data
     | Some f \<Rightarrow>
         if is_ipv4 f then do {
           (f, new_src) \<leftarrow> remap_src hm f;
           (f, new_dst) \<leftarrow> remap_dst hm f;
           f \<leftarrow> (if new_src \<noteq> None \<or> new_dst \<noteq> None then pf_recompute f else ret f);
           f \<leftarrow> (if remap_mac then remap_macs mac_map seed new_src new_dst f else ret f);
           ret (pf_buf f)
         } else remap_arp_addrs (pf_buf f) (fl_l3 (pf_layout f)) hm mac_map seed remap_mac
   }"

definition apply_host_map ::
  "'h capture \<Rightarrow> (u32 \<Rightarrow> u32 option) \<Rightarrow> (u32 \<Rightarrow> mac option) \<Rightarrow> u64 \<Rightarrow> bool \<Rightarrow> 'h capture exec" where
  "apply_host_map cap hm mac_map seed remap_mac = do {
     ps \<leftarrow> map_exec (\<lambda>p. do {
         d \<leftarrow> remap_frame hm mac_map seed remap_mac (pk_data p);
         ret (p\<lparr>pk_data := d\<rparr>)
       }) (cap_packets cap);
     ret (cap\<lparr>cap_packets := ps\<rparr>)
   }"

section \<open>The filters\<close>

definition keep_size :: "nat \<Rightarrow> bytes \<Rightarrow> bool exec" where
  "keep_size max_frame data = ret (length data \<le> max_frame)"

definition drop_oversize_frames :: "'h capture \<Rightarrow> nat \<Rightarrow> ('h capture \<times> nat) exec" where
  "drop_oversize_frames cap max_frame = drop_frames (keep_size max_frame) cap"

definition keep_not_arp :: "bytes \<Rightarrow> bool exec" where
  "keep_not_arp data = do {
     r \<leftarrow> parse_layout data;
     case r of
       None \<Rightarrow> ret True
     | Some l \<Rightarrow>
         if 2 \<le> fl_l3 l then do { t \<leftarrow> rd_be16 data (fl_l3 l - 2); ret (t \<noteq> 0x0806) }
         else ret True
   }"

definition drop_arp_frames :: "'h capture \<Rightarrow> ('h capture \<times> nat) exec" where
  "drop_arp_frames cap = drop_frames keep_not_arp cap"

text \<open>\<open>data.windows(4)\<close>\<close>

definition windows4 :: "bytes \<Rightarrow> bytes list" where
  "windows4 data = map (\<lambda>i. take 4 (drop i data)) [0..<length data - 3]"

definition keep_no_leak :: "u32 set \<Rightarrow> bytes \<Rightarrow> bool exec" where
  "keep_no_leak originals data =
     ret (\<not> list_ex (\<lambda>w. w \<in> to_be32 ` originals) (windows4 data))"

definition drop_payload_leak_frames :: "'h capture \<Rightarrow> u32 set \<Rightarrow> ('h capture \<times> nat) exec" where
  "drop_payload_leak_frames cap originals =
     (if originals = {} then ret (cap, 0) else drop_frames (keep_no_leak originals) cap)"

definition frame_is_plan_coherent :: "u32 set \<Rightarrow> bytes \<Rightarrow> bool exec" where
  "frame_is_plan_coherent valid buf = do {
     r \<leftarrow> parse_layout buf;
     case r of
       None \<Rightarrow> ret False
     | Some l \<Rightarrow>
         let dst_ok = (\<lambda>a. \<not> is_remappable a \<or> a \<in> valid);
             src_is_plan = (\<lambda>a. is_remappable a \<and> a \<in> valid) in
         (case fl_l3_kind l of
            L3_Ipv4 \<Rightarrow>
              if length buf < fl_l3 l + 20 then ret False
              else do {
                t \<leftarrow> rd_be16 buf (fl_l3 l + 2);
                if length buf < fl_l3 l + unat t then ret False
                else do {
                  src \<leftarrow> rd_be32 buf (fl_l3 l + 12);
                  dst \<leftarrow> rd_be32 buf (fl_l3 l + 16);
                  ret (src_is_plan src \<and> dst_ok dst)
                }
              }
          | L3_Other \<Rightarrow>
              if fl_l3 l < 2 then ret False
              else do {
                t \<leftarrow> rd_be16 buf (fl_l3 l - 2);
                arp \<leftarrow> (if t = 0x0806 then is_arp_ipv4 buf (fl_l3 l) else ret False);
                if arp then do {
                  spa \<leftarrow> rd_be32 buf (fl_l3 l + 14);
                  tpa \<leftarrow> rd_be32 buf (fl_l3 l + 24);
                  ret (src_is_plan spa \<and> dst_ok tpa)
                } else ret False
              })
   }"

definition drop_incoherent_frames :: "'h capture \<Rightarrow> u32 set \<Rightarrow> ('h capture \<times> nat) exec" where
  "drop_incoherent_frames cap valid = drop_frames (frame_is_plan_coherent valid) cap"

section \<open>The remap-off backstop\<close>

definition ipv6_routable :: "bytes \<Rightarrow> nat \<Rightarrow> bool exec" where
  "ipv6_routable buf off = do {
     b0 \<leftarrow> rd buf off;
     link_local \<leftarrow> (if b0 = 0xfe then do { b1 \<leftarrow> rd buf (off + 1); ret (b1 AND 0xc0 = 0x80) } else ret False);
     let multicast = b0 = 0xff;
     a \<leftarrow> slice buf off (off + 16);
     let unspecified = list_all (\<lambda>x. x = 0) a;
     ret (\<not> link_local \<and> \<not> multicast \<and> \<not> unspecified)
   }"

definition ipv6_carries_routable :: "bytes \<Rightarrow> nat \<Rightarrow> bool exec" where
  "ipv6_carries_routable buf l3 =
     (if length buf < l3 + 40 then ret True
      else do {
        s \<leftarrow> ipv6_routable buf (l3 + 8);
        if s then ret True else ipv6_routable buf (l3 + 24)
      })"

definition carries_public_address :: "bytes \<Rightarrow> bool exec" where
  "carries_public_address buf = do {
     r \<leftarrow> parse_layout buf;
     case r of
       None \<Rightarrow> ret True
     | Some l \<Rightarrow>
         (case fl_l3_kind l of
            L3_Ipv4 \<Rightarrow>
              if length buf < fl_l3 l + 20 then ret True
              else do {
                src \<leftarrow> rd_be32 buf (fl_l3 l + 12);
                dst \<leftarrow> rd_be32 buf (fl_l3 l + 16);
                ret (is_public_unicast src \<or> is_public_unicast dst)
              }
          | L3_Other \<Rightarrow>
              if fl_l3 l < 2 then ret True
              else do {
                t \<leftarrow> rd_be16 buf (fl_l3 l - 2);
                if t = 0x86dd then ipv6_carries_routable buf (fl_l3 l)
                else if t = 0x0806 then do {
                  arp \<leftarrow> is_arp_ipv4 buf (fl_l3 l);
                  if \<not> arp then ret False
                  else do {
                    spa \<leftarrow> rd_be32 buf (fl_l3 l + 14);
                    tpa \<leftarrow> rd_be32 buf (fl_l3 l + 24);
                    ret (is_public_unicast spa \<or> is_public_unicast tpa)
                  }
                } else ret False
              })
   }"

section \<open>The random remap\<close>

record remap_summary =
  rs_host_count :: nat
  rs_subnets :: "(string \<times> string) list"

definition show_ipv4 :: "ipv4 \<Rightarrow> string" where
  "show_ipv4 a = join_with (CHR ''.'') (map (\<lambda>b. show_nat (unat b)) (octets a))"

definition show_cidr :: "u32 \<Rightarrow> u8 \<Rightarrow> string" where
  "show_cidr net plen = show_ipv4 net @ ''/'' @ show_nat (unat plen)"

text \<open>The addresses one packet contributes: the two IPv4 header fields, or the two ARP ones.\<close>

definition packet_addrs :: "bytes \<Rightarrow> u32 list exec" where
  "packet_addrs data = do {
     r \<leftarrow> parse_layout data;
     case r of
       None \<Rightarrow> ret []
     | Some l \<Rightarrow> do {
         arp \<leftarrow> (if fl_l3_kind l = L3_Ipv4 then ret False else is_arp_ipv4 data (fl_l3 l));
         let offs = (if fl_l3_kind l = L3_Ipv4 then [fl_l3 l + 12, fl_l3 l + 16]
           else if arp then [fl_l3 l + 14, fl_l3 l + 24] else []);
         map_exec (rd_be32 data) (filter (\<lambda>off. off + 4 \<le> length data) offs)
       }
   }"

text \<open>\<open>seen\<close> and \<open>group_by_host\<close> always have the same keys; the list stands for both.\<close>

definition note_host ::
  "'n net_ops \<Rightarrow> 'n list \<Rightarrow> u32 \<Rightarrow> (u32 \<times> u8 \<times> u32) list \<Rightarrow> (u32 \<times> u8 \<times> u32) list" where
  "note_host N hints addr hosts =
     (if is_remappable addr \<and> addr \<notin> fst ` set hosts
      then hosts @ [(addr, group_of N addr hints)] else hosts)"

definition enumerate_hosts ::
  "'n net_ops \<Rightarrow> 'n list \<Rightarrow> packet list \<Rightarrow> (u32 \<times> u8 \<times> u32) list exec" where
  "enumerate_hosts N hints ps = do {
     as \<leftarrow> map_exec (\<lambda>p. packet_addrs (pk_data p)) ps;
     ret (fold (note_host N hints) (concat as) [])
   }"

text \<open>A fresh network per group, in sorted order.\<close>

fun assign_nets ::
  "'r below \<Rightarrow> (u8 \<times> u32) list \<Rightarrow> (u32 \<times> u8) list \<Rightarrow> 'r \<Rightarrow> ((u8 \<times> u32) \<times> u32) list \<times> 'r" where
  "assign_nets below [] assigned r = ([], r)"
| "assign_nets below (g # gs) assigned r =
     (let (new_net, r) = pick_new_net below (fst g) r assigned;
          (nets, r) = assign_nets below gs (assigned @ [(new_net, fst g)]) r
      in ((g, new_net) # nets, r))"

definition host_entry :: "((u8 \<times> u32) \<times> u32) list \<Rightarrow> u32 \<times> u8 \<times> u32 \<Rightarrow> (u32 \<times> u32) exec" where
  "host_entry nets h =
     (case h of (host, g) \<Rightarrow> do {
        new_net \<leftarrow> map_of nets g;
        ret (host, new_net OR (host AND NOT (mask_for (fst g))))
      })"

definition plan_hosts ::
  "'n net_ops \<Rightarrow> 'r below \<Rightarrow> 'n list \<Rightarrow> 'r \<Rightarrow> packet list \<Rightarrow>
   (((u8 \<times> u32) \<times> u32) list \<times> (u32 \<times> u32) list) exec" where
  "plan_hosts N below hints r ps = do {
     hosts \<leftarrow> enumerate_hosts N hints ps;
     let groups = remdups_adj (sort (map snd hosts));
     let nets = fst (assign_nets below groups [] r);
     entries \<leftarrow> map_exec (host_entry nets) hosts;
     ret (nets, entries)
   }"

definition remap_capture ::
  "'n net_ops \<Rightarrow> 'r below \<Rightarrow> (u64 \<Rightarrow> 'r) \<Rightarrow> 'h capture \<Rightarrow> 'n list \<Rightarrow> u64 \<Rightarrow> bool \<Rightarrow>
   ('h capture \<times> remap_summary) exec" where
  "remap_capture N below seed_from cap hints seed remap_mac = do {
     (nets, entries) \<leftarrow> plan_hosts N below hints (seed_from seed) (cap_packets cap);
     cap \<leftarrow> apply_host_map cap (map_of entries) (\<lambda>_. None) seed remap_mac;
     (cap, dropped) \<leftarrow> drop_incoherent_frames cap (snd ` set entries);
     (cap, leaked) \<leftarrow> drop_payload_leak_frames cap (fst ` set entries);
     ret (cap, \<lparr>rs_host_count = length entries,
       rs_subnets = map (\<lambda>(g, nn). (show_cidr (snd g) (fst g), show_cidr nn (fst g))) nets\<rparr>)
   }"

section \<open>Nothing panics\<close>

text \<open>The shape test as one condition.\<close>

definition arp_shape :: "bytes \<Rightarrow> nat \<Rightarrow> bool" where
  "arp_shape buf l3 \<longleftrightarrow> 2 \<le> l3 \<and> l3 + 28 \<le> length buf \<and> word16_at buf (l3 - 2) = 0x0806 \<and>
     word16_at buf l3 = 1 \<and> word16_at buf (l3 + 2) = 0x0800 \<and> buf ! (l3 + 4) = 6 \<and> buf ! (l3 + 5) = 4"

lemma rd_be16_range: "2 \<le> i \<Longrightarrow> i \<le> length buf \<Longrightarrow> rd_be16 buf (i - 2) = ret (word16_at buf (i - 2))"
  by (rule rd_be16_ok) simp

lemma is_arp_ipv4_eq: "is_arp_ipv4 buf l3 = ret (arp_shape buf l3)"
proof (cases "2 \<le> l3 \<and> l3 + 28 \<le> length buf")
  case True
  then have r: "rd_be16 buf (l3 - 2) = ret (word16_at buf (l3 - 2))"
    "rd_be16 buf l3 = ret (word16_at buf l3)" "rd_be16 buf (l3 + 2) = ret (word16_at buf (l3 + 2))"
    "rd buf (l3 + 4) = ret (buf ! (l3 + 4))" "rd buf (l3 + 5) = ret (buf ! (l3 + 5))"
    by (simp_all add: exec_simps rd_be16_range)
  show ?thesis
    unfolding is_arp_ipv4_def r bind.bind_lunit using True by (simp add: arp_shape_def)
next
  case False
  then show ?thesis by (auto simp: is_arp_ipv4_def arp_shape_def)
qed

lemma layout_l3_bounds: "parse_layout buf = ret (Some l) \<Longrightarrow> 14 \<le> fl_l3 l \<and> fl_l3 l \<le> length buf"
  using parse_layout_ok [of buf l] by (auto simp: layout_ok_def)

lemma layout_ipv4_bound:
  "parse_layout buf = ret (Some l) \<Longrightarrow> fl_l3_kind l = L3_Ipv4 \<Longrightarrow> fl_l3 l + 20 \<le> length buf"
  using layout_ok_ipv4D(10) [OF parse_layout_ok] by blast

text \<open>What the coherence test decides, without the bounds checks.\<close>

definition plan_src :: "u32 set \<Rightarrow> u32 \<Rightarrow> bool" where
  "plan_src valid a \<longleftrightarrow> is_remappable a \<and> a \<in> valid"

definition plan_dst :: "u32 set \<Rightarrow> u32 \<Rightarrow> bool" where
  "plan_dst valid a \<longleftrightarrow> \<not> is_remappable a \<or> a \<in> valid"

definition coherent_at :: "u32 set \<Rightarrow> bytes \<Rightarrow> frame_layout \<Rightarrow> bool" where
  "coherent_at valid buf l \<longleftrightarrow>
     (case fl_l3_kind l of
        L3_Ipv4 \<Rightarrow> fl_l3 l + unat (word16_at buf (fl_l3 l + 2)) \<le> length buf \<and>
          plan_src valid (word32_at buf (fl_l3 l + 12)) \<and> plan_dst valid (word32_at buf (fl_l3 l + 16))
      | L3_Other \<Rightarrow> arp_shape buf (fl_l3 l) \<and>
          plan_src valid (word32_at buf (fl_l3 l + 14)) \<and> plan_dst valid (word32_at buf (fl_l3 l + 24)))"

lemma coherent_eq:
  "frame_is_plan_coherent valid buf =
     (case parse_layout buf of
        None \<Rightarrow> panic
      | Some None \<Rightarrow> ret False
      | Some (Some l) \<Rightarrow> ret (coherent_at valid buf l))"
proof -
  obtain r where r: "parse_layout buf = ret r" using parse_layout_total by blast
  show ?thesis
  proof (cases r)
    case (Some l)
    note b = layout_l3_bounds [of buf l, unfolded r Some, OF refl]
    show ?thesis
    proof (cases "fl_l3_kind l")
      case L3_Ipv4
      note v = layout_ipv4_bound [OF r [unfolded Some] L3_Ipv4]
      then have "rd_be16 buf (fl_l3 l + 2) = ret (word16_at buf (fl_l3 l + 2))"
        "rd_be32 buf (fl_l3 l + 12) = ret (word32_at buf (fl_l3 l + 12))"
        "rd_be32 buf (fl_l3 l + 16) = ret (word32_at buf (fl_l3 l + 16))"
        by (simp_all add: exec_simps)
      with r Some v L3_Ipv4 show ?thesis
        by (simp add: frame_is_plan_coherent_def coherent_at_def plan_src_def plan_dst_def Let_def
            del: nat_shift)
    next
      case L3_Other
      have "rd_be16 buf (fl_l3 l - 2) = ret (word16_at buf (fl_l3 l - 2))"
        using b by (intro rd_be16_range) simp_all
      moreover have "arp_shape buf (fl_l3 l) \<Longrightarrow>
        rd_be32 buf (fl_l3 l + 14) = ret (word32_at buf (fl_l3 l + 14)) \<and>
        rd_be32 buf (fl_l3 l + 24) = ret (word32_at buf (fl_l3 l + 24))"
        by (simp add: arp_shape_def exec_simps)
      moreover have "arp_shape buf (fl_l3 l) \<Longrightarrow> word16_at buf (fl_l3 l - 2) = 0x0806"
        by (simp add: arp_shape_def)
      ultimately show ?thesis
        using r Some b L3_Other
        by (cases "arp_shape buf (fl_l3 l)")
          (simp_all add: frame_is_plan_coherent_def coherent_at_def plan_src_def plan_dst_def Let_def
            is_arp_ipv4_eq del: nat_shift)
    qed
  qed (simp add: r frame_is_plan_coherent_def)
qed

lemma coherent_total: "\<exists>b. frame_is_plan_coherent valid buf = ret b"
  using parse_layout_total [of buf] by (auto simp: coherent_eq split: option.splits)

lemma not_arp_total: "\<exists>b. keep_not_arp buf = ret b"
proof -
  obtain r where r: "parse_layout buf = ret r" using parse_layout_total by blast
  then show ?thesis
    using layout_l3_bounds [of buf] by (cases r) (auto simp: keep_not_arp_def rd_be16_range)
qed

lemma ipv6_routable_total: "off + 16 \<le> length buf \<Longrightarrow> \<exists>b. ipv6_routable buf off = ret b"
  by (simp add: ipv6_routable_def exec_simps Let_def)

lemma ipv6_total: "\<exists>b. ipv6_carries_routable buf l3 = ret b"
proof (cases "length buf < l3 + 40")
  case False
  then obtain b c where "ipv6_routable buf (l3 + 8) = ret b" "ipv6_routable buf (l3 + 24) = ret c"
    using ipv6_routable_total [of "l3 + 8" buf] ipv6_routable_total [of "l3 + 24" buf] by auto
  with False show ?thesis by (simp add: ipv6_carries_routable_def)
qed (simp add: ipv6_carries_routable_def)

interpretation size_filter: frame_filter "keep_size n" for n
  by unfold_locales (simp add: keep_size_def)

interpretation arp_filter: frame_filter keep_not_arp
  by unfold_locales (rule not_arp_total)

interpretation leak_filter: frame_filter "keep_no_leak originals" for originals
  by unfold_locales (simp add: keep_no_leak_def)

interpretation plan_filter: frame_filter "frame_is_plan_coherent valid" for valid
  by unfold_locales (rule coherent_total)

section \<open>What a rewrite does to a frame\<close>

definition subst :: "(u32 \<Rightarrow> u32 option) \<Rightarrow> u32 \<Rightarrow> u32" where
  "subst hm a = (case hm a of Some b \<Rightarrow> b | None \<Rightarrow> a)"

lemma length_octets [simp, len_simps]: "length (octets a) = 4"
  by (simp add: octets_def)

lemma word32_at_splice [simp]:
  "i + 4 \<le> length buf \<Longrightarrow> word32_at (splice buf i (octets w)) i = w"
  by (simp add: word32_at_def octets_def to_be32_def nth_splice)

lemma from_be32_window: "i + 4 \<le> length buf \<Longrightarrow> from_be32 (take 4 (drop i buf)) = word32_at buf i"
  by (simp add: from_be32_def word32_at_def)

lemma word32_at_agree:
  "agree_on A b b' \<Longrightarrow> {i..<i + 4} \<subseteq> A \<Longrightarrow> i + 4 \<le> length b \<Longrightarrow> word32_at b' i = word32_at b i"
  by (simp add: agree_on_def word32_at_def subset_iff)

lemma word16_at_agree:
  "agree_on A b b' \<Longrightarrow> {i..<i + 2} \<subseteq> A \<Longrightarrow> i + 2 \<le> length b \<Longrightarrow> word16_at b' i = word16_at b i"
  by (simp add: agree_on_def word16_at_def subset_iff)

lemma splice_octets_ok:
  fixes f :: parsed_frame and k :: nat and w :: u32
  assumes "pf_ok f" and "is_ipv4 f" and "12 \<le> k" and "k + 4 \<le> 20"
  defines "f' \<equiv> f\<lparr>pf_buf := splice (pf_buf f) (fl_l3 (pf_layout f) + k) (octets w)\<rparr>"
  shows "pf_ok f'" and "word32_at (pf_buf f') (fl_l3 (pf_layout f) + k) = w"
    and "agree_on (- {fl_l3 (pf_layout f) + k..<fl_l3 (pf_layout f) + (k + 4)}) (pf_buf f) (pf_buf f')"
proof -
  note lo = pf_ok_layout [OF assms(1)]
  have v: "fl_l3_kind (pf_layout f) = L3_Ipv4" using assms(2) by (simp add: is_ipv4_def)
  have b: "fl_l3 (pf_layout f) + k + 4 \<le> length (pf_buf f)"
    using layout_ok_ipv4D(10) [OF lo v] assms(4) by simp
  show "pf_ok f'"
    unfolding f'_def
    by (rule pf_ok_splice) (use assms b ipv4_addr_disjoint [OF lo v assms(3,4)] in simp_all)
  show "word32_at (pf_buf f') (fl_l3 (pf_layout f) + k) = w"
    using b by (simp add: f'_def)
  show "agree_on (- {fl_l3 (pf_layout f) + k..<fl_l3 (pf_layout f) + (k + 4)}) (pf_buf f) (pf_buf f')"
    using b unfolding f'_def by simp (rule agree_on_splice, auto)
qed

lemma remap_src_ok:
  assumes f: "pf_ok f" "is_ipv4 f"
  obtains f' where "remap_src hm f = ret (f', hm (word32_at (pf_buf f) (fl_l3 (pf_layout f) + 12)))"
    and "pf_ok f'" and "pf_layout f' = pf_layout f"
    and "word32_at (pf_buf f') (fl_l3 (pf_layout f) + 12)
      = subst hm (word32_at (pf_buf f) (fl_l3 (pf_layout f) + 12))"
    and "agree_on (- {fl_l3 (pf_layout f) + 12..<fl_l3 (pf_layout f) + 16}) (pf_buf f) (pf_buf f')"
proof -
  let ?o = "fl_l3 (pf_layout f) + 12"
  have b: "?o + 4 \<le> length (pf_buf f)"
    using layout_ok_ipv4D(10) [OF pf_ok_layout [OF f(1)]] f(2) by (simp add: is_ipv4_def)
  have s: "ipv4_src f = ret (Some (take 4 (drop ?o (pf_buf f))))"
    using b f(2) by (simp add: ipv4_src_def slice_ok)
  show thesis
  proof (cases "hm (word32_at (pf_buf f) ?o)")
    case None
    show thesis
      by (rule that [of f]) (use f s b None in \<open>simp_all add: remap_src_def from_be32_window subst_def\<close>)
  next
    case (Some w)
    show thesis
      by (rule that [of "f\<lparr>pf_buf := splice (pf_buf f) ?o (octets w)\<rparr>"])
        (use f s b Some splice_octets_ok [OF f, of 12 w] in
          \<open>simp_all add: remap_src_def from_be32_window subst_def set_ipv4_src_eq\<close>)
  qed
qed

lemma remap_dst_ok:
  assumes f: "pf_ok f" "is_ipv4 f"
  obtains f' where "remap_dst hm f = ret (f', hm (word32_at (pf_buf f) (fl_l3 (pf_layout f) + 16)))"
    and "pf_ok f'" and "pf_layout f' = pf_layout f"
    and "word32_at (pf_buf f') (fl_l3 (pf_layout f) + 16)
      = subst hm (word32_at (pf_buf f) (fl_l3 (pf_layout f) + 16))"
    and "agree_on (- {fl_l3 (pf_layout f) + 16..<fl_l3 (pf_layout f) + 20}) (pf_buf f) (pf_buf f')"
proof -
  let ?o = "fl_l3 (pf_layout f) + 16"
  have b: "?o + 4 \<le> length (pf_buf f)"
    using layout_ok_ipv4D(10) [OF pf_ok_layout [OF f(1)]] f(2) by (simp add: is_ipv4_def)
  have s: "ipv4_dst f = ret (Some (take 4 (drop ?o (pf_buf f))))"
    using b f(2) by (simp add: ipv4_dst_def slice_ok)
  show thesis
  proof (cases "hm (word32_at (pf_buf f) ?o)")
    case None
    show thesis
      by (rule that [of f]) (use f s b None in \<open>simp_all add: remap_dst_def from_be32_window subst_def\<close>)
  next
    case (Some w)
    show thesis
      by (rule that [of "f\<lparr>pf_buf := splice (pf_buf f) ?o (octets w)\<rparr>"])
        (use f s b Some splice_octets_ok [OF f, of 16 w] in
          \<open>simp_all add: remap_dst_def from_be32_window subst_def set_ipv4_dst_eq\<close>)
  qed
qed

text \<open>MAC overrides are six bytes long, as their type \<open>[u8; 6]\<close> says.\<close>

definition macs_ok :: "(u32 \<Rightarrow> mac option) \<Rightarrow> bool" where
  "macs_ok mac_map \<longleftrightarrow> (\<forall>i m. mac_map i = Some m \<longrightarrow> length m = 6)"

lemma length_mac_for: "macs_ok mac_map \<Longrightarrow> length (mac_for mac_map seed ip) = 6"
  by (auto simp: mac_for_def macs_ok_def split: option.splits)

lemma splice_mac_ok:
  fixes f :: parsed_frame and k :: nat and m :: mac
  assumes "pf_ok f" and "k + 6 \<le> 12" and "length m = 6"
  defines "f' \<equiv> f\<lparr>pf_buf := splice (pf_buf f) k m\<rparr>"
  shows "put_slice (pf_buf f) k (k + 6) m = ret (pf_buf f')" and "pf_ok f'"
    and "agree_on (- {0..<12}) (pf_buf f) (pf_buf f')"
proof -
  note lo = pf_ok_layout [OF assms(1)]
  have b: "k + 6 \<le> length (pf_buf f)"
    using assms(2) lo by (simp add: layout_ok_def)
  show "put_slice (pf_buf f) k (k + 6) m = ret (pf_buf f')"
    using b assms(3) by (simp add: f'_def put_slice_ok)
  show "pf_ok f'"
    unfolding f'_def
    by (rule pf_ok_splice) (use assms b mac_disjoint [OF lo assms(2)] in simp_all)
  show "agree_on (- {0..<12}) (pf_buf f) (pf_buf f')"
    using b assms(2,3) by (auto simp: f'_def intro!: agree_on_splice)
qed

lemma set_src_mac_ok:
  assumes "pf_ok f" and "length m = 6"
  obtains f' where "set_src_mac f m = ret f'" and "pf_ok f'" and "pf_layout f' = pf_layout f"
    and "agree_on (- {0..<12}) (pf_buf f) (pf_buf f')"
  using splice_mac_ok [OF assms(1), of 6 m] assms(2)
  by (intro that [of "f\<lparr>pf_buf := splice (pf_buf f) 6 m\<rparr>"]) (simp_all add: set_src_mac_def)

lemma set_dst_mac_ok:
  assumes "pf_ok f" and "length m = 6"
  obtains f' where "set_dst_mac f m = ret f'" and "pf_ok f'" and "pf_layout f' = pf_layout f"
    and "agree_on (- {0..<12}) (pf_buf f) (pf_buf f')"
  using splice_mac_ok [OF assms(1), of 0 m] assms(2)
  by (intro that [of "f\<lparr>pf_buf := splice (pf_buf f) 0 m\<rparr>"]) (simp_all add: set_dst_mac_def)

lemma remap_macs_ok:
  assumes f: "pf_ok f" and m: "macs_ok mac_map"
  obtains f' where "remap_macs mac_map seed ns nd f = ret f'" and "pf_ok f'"
    and "pf_layout f' = pf_layout f" and "agree_on (- {0..<12}) (pf_buf f) (pf_buf f')"
proof -
  obtain f1 where 1: "(case ns of None \<Rightarrow> ret f | Some ns \<Rightarrow> set_src_mac f (mac_for mac_map seed ns)) = ret f1"
    "pf_ok f1" "pf_layout f1 = pf_layout f" "agree_on (- {0..<12}) (pf_buf f) (pf_buf f1)"
    using f set_src_mac_ok [OF f length_mac_for [OF m]] by (cases ns) auto
  have "14 \<le> length (pf_buf f1)"
    using pf_ok_layout [OF 1(2)] by (simp add: layout_ok_def)
  then have r: "rd (pf_buf f1) 0 = ret (pf_buf f1 ! 0)" by (intro rd_ok) linarith
  show thesis
  proof (cases "nd = None \<or> pf_buf f1 ! 0 AND 1 \<noteq> 0")
    case True
    with 1 r show thesis
      by (intro that [of f1]) (auto simp: remap_macs_def split: option.splits)
  next
    case False
    then obtain d where d: "nd = Some d" "pf_buf f1 ! 0 AND 1 = 0" by auto
    obtain f2 where "set_dst_mac f1 (mac_for mac_map seed d) = ret f2" "pf_ok f2"
      "pf_layout f2 = pf_layout f1" "agree_on (- {0..<12}) (pf_buf f1) (pf_buf f2)"
      using set_dst_mac_ok [OF 1(2) length_mac_for [OF m]] by blast
    with 1 r d show thesis
      by (intro that [of f2]) (auto simp: remap_macs_def intro: agree_on_trans split: option.splits)
  qed
qed

lemma pf_recompute_ok:
  assumes "pf_ok f"
  obtains f' where "pf_recompute f = ret f'" and "pf_ok f'" and "pf_layout f' = pf_layout f"
    and "agree_on (- csum_bytes (pf_layout f)) (pf_buf f) (pf_buf f')"
proof -
  obtain b where "recompute_checksums (pf_buf f) (pf_layout f) = ret b"
    "agree_on (- csum_bytes (pf_layout f)) (pf_buf f) b" "parse_layout b = ret (Some (pf_layout f))"
    using recompute_checksums_safe assms unfolding pf_ok_def by blast
  then show thesis
    by (intro that [of "f\<lparr>pf_buf := b\<rparr>"]) (simp_all add: pf_recompute_def pf_ok_def)
qed

text \<open>
  The IPv4 branch as a whole: the layout stays, the two addresses are the images of the old
  ones, and nothing but the MACs, the addresses and the checksums is written.
\<close>

definition rewrite_bytes :: "frame_layout \<Rightarrow> nat set" where
  "rewrite_bytes l = {0..<12} \<union> {fl_l3 l + 12..<fl_l3 l + 20} \<union> csum_bytes l"

lemma csum_bytes_not_addr:
  "layout_ok n l \<Longrightarrow> fl_l3_kind l = L3_Ipv4 \<Longrightarrow> 12 \<le> k \<Longrightarrow> k + 4 \<le> 20 \<Longrightarrow>
   {fl_l3 l + k..<fl_l3 l + k + 4} \<subseteq> - csum_bytes l"
  using layout_ok_ipv4D [of n l] by (auto simp: csum_bytes_def csum_off_def split: if_splits)

lemma slice_agree:
  "agree_on (- {0..<12}) b b' \<Longrightarrow> 12 \<le> i \<Longrightarrow> slice b' i j = slice b i j"
  by (auto simp: agree_on_def slice_def intro!: nth_equalityI)

lemma rd_agree: "agree_on (- {0..<12}) b b' \<Longrightarrow> 12 \<le> i \<Longrightarrow> rd b' i = rd b i"
  by (auto simp: agree_on_def rd_def)

text \<open>MAC rewriting does not touch the checksums.\<close>

lemma checksums_valid_agree:
  "agree_on (- {0..<12}) b b' \<Longrightarrow> layout_ok (length b) l \<Longrightarrow> checksums_valid b' l = checksums_valid b l"
proof -
  assume ag: "agree_on (- {0..<12}) b b'" and lo: "layout_ok (length b) l"
  then have "14 \<le> fl_l3 l" and "14 \<le> fl_l4 l" by (simp_all add: layout_ok_def)
  then show "checksums_valid b' l = checksums_valid b l"
    by (cases "fl_l4_kind l") (simp_all add: checksums_valid_def slice_agree [OF ag] rd_agree [OF ag] cong: if_cong)
qed

lemma remap_frame_ipv4:
  assumes p: "parse_layout d = ret (Some l)" and v4: "fl_l3_kind l = L3_Ipv4" and m: "macs_ok mac_map"
  obtains d' where "remap_frame hm mac_map seed remap_mac d = ret d'"
    and "parse_layout d' = ret (Some l)" and "agree_on (- rewrite_bytes l) d d'"
    and "word32_at d' (fl_l3 l + 12) = subst hm (word32_at d (fl_l3 l + 12))"
    and "word32_at d' (fl_l3 l + 16) = subst hm (word32_at d (fl_l3 l + 16))"
    and "l4_field_inside l \<Longrightarrow>
      hm (word32_at d (fl_l3 l + 12)) \<noteq> None \<or> hm (word32_at d (fl_l3 l + 16)) \<noteq> None \<Longrightarrow>
      checksums_valid d' l = ret True"
proof -
  define f where "f = \<lparr>pf_buf = d, pf_layout = l\<rparr>"
  have f: "pf_ok f" "is_ipv4 f" and pf: "pf_parse d = ret (Some f)"
    using p v4 by (simp_all add: f_def pf_ok_def is_ipv4_def pf_parse_def)
  note lo = parse_layout_ok [OF p]
  have b: "fl_l3 l + 20 \<le> length d" using layout_ok_ipv4D(10) [OF lo v4] .
  have l14: "14 \<le> fl_l3 l" using layout_ok_ipv4D(1) [OF lo v4] .
  obtain f1 where 1: "remap_src hm f = ret (f1, hm (word32_at d (fl_l3 l + 12)))" "pf_ok f1"
    "pf_layout f1 = l" "word32_at (pf_buf f1) (fl_l3 l + 12) = subst hm (word32_at d (fl_l3 l + 12))"
    "agree_on (- {fl_l3 l + 12..<fl_l3 l + 16}) d (pf_buf f1)"
    using remap_src_ok [OF f, of hm] by (auto simp: f_def)
  have i1: "is_ipv4 f1" using 1(3) v4 by (simp add: is_ipv4_def)
  have len1: "length (pf_buf f1) = length d" using 1(5) by (simp add: agree_on_def)
  obtain f2 where 2: "remap_dst hm f1 = ret (f2, hm (word32_at (pf_buf f1) (fl_l3 l + 16)))" "pf_ok f2"
    "pf_layout f2 = l"
    "word32_at (pf_buf f2) (fl_l3 l + 16) = subst hm (word32_at (pf_buf f1) (fl_l3 l + 16))"
    "agree_on (- {fl_l3 l + 16..<fl_l3 l + 20}) (pf_buf f1) (pf_buf f2)"
    using remap_dst_ok [OF 1(2) i1, of hm] by (auto simp: 1(3))
  have d1: "word32_at (pf_buf f1) (fl_l3 l + 16) = word32_at d (fl_l3 l + 16)"
    by (rule word32_at_agree [OF 1(5)]) (use b in auto)
  have s2: "word32_at (pf_buf f2) (fl_l3 l + 12) = word32_at (pf_buf f1) (fl_l3 l + 12)"
    by (rule word32_at_agree [OF 2(5)]) (use b len1 in auto)
  have len2: "length (pf_buf f2) = length d" using 2(5) len1 by (simp add: agree_on_def)
  obtain f3 where 3: "(if hm (word32_at d (fl_l3 l + 12)) \<noteq> None \<or> hm (word32_at (pf_buf f1) (fl_l3 l + 16)) \<noteq> None
      then pf_recompute f2 else ret f2) = ret f3" "pf_ok f3" "pf_layout f3 = l"
    "agree_on (- csum_bytes l) (pf_buf f2) (pf_buf f3)"
    using pf_recompute_ok [OF 2(2)] 2(2,3) by (metis agree_on_refl)
  have len3: "length (pf_buf f3) = length d" using 3(4) len2 by (simp add: agree_on_def)
  obtain f4 where 4: "(if remap_mac then remap_macs mac_map seed (hm (word32_at d (fl_l3 l + 12)))
        (hm (word32_at (pf_buf f1) (fl_l3 l + 16))) f3 else ret f3) = ret f4" "pf_ok f4"
    "pf_layout f4 = l" "agree_on (- {0..<12}) (pf_buf f3) (pf_buf f4)"
    using remap_macs_ok [OF 3(2) m] 3(2,3) by (metis agree_on_refl)
  have keep: "word32_at (pf_buf f4) (fl_l3 l + k) = word32_at (pf_buf f2) (fl_l3 l + k)"
    if k: "12 \<le> k" "k + 4 \<le> 20" for k
  proof -
    have "word32_at (pf_buf f4) (fl_l3 l + k) = word32_at (pf_buf f3) (fl_l3 l + k)"
      by (rule word32_at_agree [OF 4(4)]) (use b len3 l14 k in auto)
    also have "\<dots> = word32_at (pf_buf f2) (fl_l3 l + k)"
      by (rule word32_at_agree [OF 3(4) csum_bytes_not_addr [OF lo v4 k]]) (use b len2 k in simp)
    finally show ?thesis .
  qed
  have w: "remap_frame hm mac_map seed remap_mac d = ret (pf_buf f4)"
    using pf f(2) 1(1) 2(1) 3(1) 4(1) by (simp add: remap_frame_def)
  have sub: "agree_on (- rewrite_bytes l) x y" if "agree_on (- A) x y" "A \<subseteq> rewrite_bytes l" for A x y
    using agree_on_subset [OF that(1), of "- rewrite_bytes l"] that(2) by blast
  have "agree_on (- rewrite_bytes l) d (pf_buf f2)"
    by (rule agree_on_trans [OF sub [OF 1(5)] sub [OF 2(5)]]) (auto simp: rewrite_bytes_def)
  moreover have "agree_on (- rewrite_bytes l) (pf_buf f2) (pf_buf f4)"
    by (rule agree_on_trans [OF sub [OF 3(4)] sub [OF 4(4)]]) (auto simp: rewrite_bytes_def)
  ultimately have ag: "agree_on (- rewrite_bytes l) d (pf_buf f4)" by (rule agree_on_trans)
  have ck: "checksums_valid (pf_buf f4) l = ret True"
    if "l4_field_inside l" "hm (word32_at d (fl_l3 l + 12)) \<noteq> None \<or> hm (word32_at d (fl_l3 l + 16)) \<noteq> None"
  proof -
    have "pf_recompute f2 = ret f3" using 3(1) that(2) d1 by (auto split: if_splits)
    then have "recompute_checksums (pf_buf f2) l = ret (pf_buf f3)"
      by (auto simp: pf_recompute_def 2(3))
    moreover have "parse_layout (pf_buf f2) = ret (Some l)" using 2(2,3) by (simp add: pf_ok_def)
    ultimately have "checksums_valid (pf_buf f3) l = ret True"
      using recompute_checksums_valid [OF _ that(1), of "pf_buf f2"] by auto
    then show ?thesis
      using checksums_valid_agree [OF 4(4)] lo len3 by simp
  qed
  show thesis
    using that [OF w] 4(2,3) keep [of 12] keep [of 16] s2 1(4) 2(4) d1 ag ck by (simp add: pf_ok_def)
qed

text \<open>The ARP branch: the two protocol addresses are mapped, the rest of the header stays.\<close>

definition arp_bytes :: "nat \<Rightarrow> nat set" where
  "arp_bytes l3 = {0..<12} \<union> {l3 + 8..<l3 + 28}"

lemma arp_sender_ok:
  assumes len: "l3 + 28 \<le> length buf" and l3: "14 \<le> l3" and m: "length mac = 6"
  obtains b where "do {
      b \<leftarrow> put_slice buf (l3 + 14) (l3 + 18) (to_be32 w);
      if remap_mac then do { b \<leftarrow> put_slice b (l3 + 8) (l3 + 14) mac; put_slice b 6 12 mac } else ret b
    } = ret b"
    and "agree_on (- ({0..<12} \<union> {l3 + 8..<l3 + 18})) buf b" and "word32_at b (l3 + 14) = w"
proof -
  let ?A = "{0..<12} \<union> {l3 + 8..<l3 + 18}"
  define b1 where "b1 = splice buf (l3 + 14) (octets w)"
  define b2 where "b2 = splice b1 (l3 + 8) mac"
  define b3 where "b3 = splice b2 6 mac"
  have 1: "agree_on (- ?A) buf b1" "length b1 = length buf" "word32_at b1 (l3 + 14) = w"
    using len by (auto simp: b1_def intro!: agree_on_splice)
  have 2: "agree_on (- ?A) b1 b2" "length b2 = length buf"
    using len m 1 by (auto simp: b2_def intro!: agree_on_splice)
  have 3: "agree_on (- ?A) b2 b3"
    using len m 2 by (auto simp: b3_def intro!: agree_on_splice)
  have k2: "agree_on (- {l3 + 8..<l3 + 14}) b1 b2" and k3: "agree_on (- {6..<12}) b2 b3"
    using len m 1 2 by (auto simp: b2_def b3_def intro!: agree_on_splice)
  have w: "word32_at b3 (l3 + 14) = w"
    using word32_at_agree [OF k3, of "l3 + 14"] word32_at_agree [OF k2, of "l3 + 14"] 1 2 len l3
    by (simp add: subset_iff)
  show thesis
  proof (cases remap_mac)
    case True
    with len m 1 2 3 w that [of b3] agree_on_trans [OF agree_on_trans [OF 1(1) 2(1)] 3(1)] show thesis
      by (simp add: put_slice_ok b1_def b2_def b3_def octets_def)
  next
    case False
    with len 1 that [of b1] show thesis by (simp add: put_slice_ok b1_def octets_def)
  qed
qed

lemma arp_target_ok:
  assumes len: "l3 + 28 \<le> length buf" and l3: "14 \<le> l3" and m: "length mac = 6"
  obtains b where "do {
      b \<leftarrow> put_slice buf (l3 + 24) (l3 + 28) (to_be32 w);
      if remap_mac then do {
        tha \<leftarrow> slice b (l3 + 18) (l3 + 24);
        if \<not> list_all (\<lambda>b. b = 0) tha \<and> \<not> list_all (\<lambda>b. b = 0xff) tha then do {
          b \<leftarrow> put_slice b (l3 + 18) (l3 + 24) mac;
          put_slice b 0 6 mac
        } else ret b
      } else ret b
    } = ret b"
    and "agree_on (- ({0..<12} \<union> {l3 + 18..<l3 + 28})) buf b" and "word32_at b (l3 + 24) = w"
proof -
  let ?A = "{0..<12} \<union> {l3 + 18..<l3 + 28}"
  define b1 where "b1 = splice buf (l3 + 24) (octets w)"
  define b2 where "b2 = splice b1 (l3 + 18) mac"
  define b3 where "b3 = splice b2 0 mac"
  have 1: "agree_on (- ?A) buf b1" "length b1 = length buf" "word32_at b1 (l3 + 24) = w"
    using len by (auto simp: b1_def intro!: agree_on_splice)
  have 2: "agree_on (- ?A) b1 b2" "length b2 = length buf"
    using len m 1 by (auto simp: b2_def intro!: agree_on_splice)
  have 3: "agree_on (- ?A) b2 b3"
    using len m 2 by (auto simp: b3_def intro!: agree_on_splice)
  have k2: "agree_on (- {l3 + 18..<l3 + 24}) b1 b2" and k3: "agree_on (- {0..<6}) b2 b3"
    using len m 1 2 by (auto simp: b2_def b3_def intro!: agree_on_splice)
  have w: "word32_at b3 (l3 + 24) = w"
    using word32_at_agree [OF k3, of "l3 + 24"] word32_at_agree [OF k2, of "l3 + 24"] 1 2 len l3
    by (simp add: subset_iff)
  let ?tha = "take 6 (drop (l3 + 18) b1)"
  have p1: "put_slice buf (l3 + 24) (l3 + 28) (to_be32 w) = ret b1"
    and sl: "slice b1 (l3 + 18) (l3 + 24) = ret ?tha"
    and p2: "put_slice b1 (l3 + 18) (l3 + 24) mac = ret b2" and p3: "put_slice b2 0 6 mac = ret b3"
    using len m 1 2 by (simp_all add: put_slice_ok slice_ok b1_def b2_def b3_def octets_def)
  show thesis
  proof (cases "remap_mac \<and> \<not> list_all (\<lambda>b. b = 0) ?tha \<and> \<not> list_all (\<lambda>b. b = 0xff) ?tha")
    case True
    with p1 sl p2 p3 w that [of b3] agree_on_trans [OF agree_on_trans [OF 1(1) 2(1)] 3(1)] show thesis
      by simp
  next
    case False
    with p1 sl 1 that [of b1] show thesis by auto
  qed
qed

lemma arp_shape_agree:
  "agree_on (- arp_bytes l3) b b' \<Longrightarrow> 14 \<le> l3 \<Longrightarrow> arp_shape b' l3 \<longleftrightarrow> arp_shape b l3"
proof -
  assume ag: "agree_on (- arp_bytes l3) b b'" and l3: "14 \<le> l3"
  show "arp_shape b' l3 \<longleftrightarrow> arp_shape b l3"
  proof (cases "l3 + 28 \<le> length b")
    case True
    have "word16_at b' i = word16_at b i" if "i \<in> {l3 - 2, l3, l3 + 2}" for i
      by (rule word16_at_agree [OF ag]) (use that True l3 in \<open>auto simp: arp_bytes_def\<close>)
    moreover have "b' ! i = b ! i" if "i \<in> {l3 + 4, l3 + 5}" for i
      using ag that True l3 by (auto simp: agree_on_def arp_bytes_def)
    ultimately show ?thesis using ag True by (simp add: arp_shape_def agree_on_def)
  next
    case False
    with ag show ?thesis by (simp add: arp_shape_def agree_on_def)
  qed
qed

lemma remap_arp_ok:
  assumes sh: "arp_shape d l3" and l3: "14 \<le> l3" and m: "macs_ok mac_map"
  obtains d' where "remap_arp_addrs d l3 hm mac_map seed remap_mac = ret d'"
    and "agree_on (- arp_bytes l3) d d'" and "arp_shape d' l3"
    and "word32_at d' (l3 + 14) = subst hm (word32_at d (l3 + 14))"
    and "word32_at d' (l3 + 24) = subst hm (word32_at d (l3 + 24))"
proof -
  have len: "l3 + 28 \<le> length d" using sh by (simp add: arp_shape_def)
  have r: "rd_be32 b (l3 + 14) = ret (word32_at b (l3 + 14))" "rd_be32 b (l3 + 24) = ret (word32_at b (l3 + 24))"
    if "length b = length d" for b
    using len that by (simp_all add: exec_simps)
  obtain b1 where 1: "(case hm (word32_at d (l3 + 14)) of
        None \<Rightarrow> ret d
      | Some nspa \<Rightarrow> do {
          b \<leftarrow> put_slice d (l3 + 14) (l3 + 18) (to_be32 nspa);
          if remap_mac then do {
            let mac = mac_for mac_map seed nspa;
            b \<leftarrow> put_slice b (l3 + 8) (l3 + 14) mac;
            put_slice b 6 12 mac
          } else ret b
        }) = ret b1"
    "agree_on (- ({0..<12} \<union> {l3 + 8..<l3 + 18})) d b1"
    "word32_at b1 (l3 + 14) = subst hm (word32_at d (l3 + 14))"
  proof (cases "hm (word32_at d (l3 + 14))")
    case (Some w)
    show thesis
      by (rule arp_sender_ok [OF len l3 length_mac_for [OF m, of seed w], of w remap_mac],
          rule that) (unfold Some option.case Let_def subst_def, assumption+)
  qed (simp add: that subst_def)
  have len1: "length b1 = length d" using 1(2) by (simp add: agree_on_def)
  then have len1': "l3 + 28 \<le> length b1" using len by simp
  have t: "word32_at b1 (l3 + 24) = word32_at d (l3 + 24)"
    by (rule word32_at_agree [OF 1(2)]) (use len l3 in auto)
  obtain b2 where 2: "(case hm (word32_at d (l3 + 24)) of
        None \<Rightarrow> ret b1
      | Some ntpa \<Rightarrow> do {
          b \<leftarrow> put_slice b1 (l3 + 24) (l3 + 28) (to_be32 ntpa);
          if remap_mac then do {
            tha \<leftarrow> slice b (l3 + 18) (l3 + 24);
            if \<not> list_all (\<lambda>b. b = 0) tha \<and> \<not> list_all (\<lambda>b. b = 0xff) tha then do {
              let mac = mac_for mac_map seed ntpa;
              b \<leftarrow> put_slice b (l3 + 18) (l3 + 24) mac;
              put_slice b 0 6 mac
            } else ret b
          } else ret b
        }) = ret b2"
    "agree_on (- ({0..<12} \<union> {l3 + 18..<l3 + 28})) b1 b2"
    "word32_at b2 (l3 + 24) = subst hm (word32_at d (l3 + 24))"
  proof (cases "hm (word32_at d (l3 + 24))")
    case (Some w)
    show thesis
      by (rule arp_target_ok [OF len1' l3 length_mac_for [OF m, of seed w], of w remap_mac],
          rule that) (unfold Some option.case Let_def subst_def, assumption+)
  qed (simp add: that subst_def t)
  have s: "word32_at b2 (l3 + 14) = word32_at b1 (l3 + 14)"
    by (rule word32_at_agree [OF 2(2)]) (use len len1 l3 in auto)
  have ag: "agree_on (- arp_bytes l3) d b2"
    by (rule agree_on_trans [OF agree_on_subset [OF 1(2)] agree_on_subset [OF 2(2)]])
      (auto simp: arp_bytes_def)
  show thesis
  proof (rule that [of b2])
    show "remap_arp_addrs d l3 hm mac_map seed remap_mac = ret b2"
      using sh r [of d] r [OF len1] t 1(1) 2(1)
      by (simp add: remap_arp_addrs_def is_arp_ipv4_eq)
  qed (use ag s 1(3) 2(3) arp_shape_agree [OF ag l3] sh in simp_all)
qed

section \<open>The frame rewrite never panics\<close>

lemma remap_frame_total:
  assumes m: "macs_ok mac_map"
  shows "\<exists>d'. remap_frame hm mac_map seed remap_mac d = ret d' \<and> length d' = length d"
proof -
  obtain r where r: "parse_layout d = ret r" using parse_layout_total by blast
  show ?thesis
  proof (cases r)
    case None
    with r show ?thesis by (simp add: remap_frame_def pf_parse_def)
  next
    case (Some l)
    then have p: "parse_layout d = ret (Some l)" using r by simp
    show ?thesis
    proof (cases "fl_l3_kind l")
      case L3_Ipv4
      then show ?thesis
        by (rule remap_frame_ipv4 [OF p _ m, of hm seed remap_mac]) (simp add: agree_on_def)
    next
      case L3_Other
      then have o: "remap_frame hm mac_map seed remap_mac d
          = remap_arp_addrs d (fl_l3 l) hm mac_map seed remap_mac"
        using p by (simp add: remap_frame_def pf_parse_def is_ipv4_def)
      show ?thesis
      proof (cases "arp_shape d (fl_l3 l)")
        case True
        have "14 \<le> fl_l3 l" using layout_l3_bounds [OF p] by simp
        then show ?thesis
          unfolding o using remap_arp_ok [OF True _ m, of hm seed remap_mac]
          by (metis agree_on_def)
      next
        case False
        then show ?thesis unfolding o by (simp add: remap_arp_addrs_def is_arp_ipv4_eq)
      qed
    qed
  qed
qed

text \<open>A frame with neither an IPv4 header nor an IPv4 ARP body is left as it is.\<close>

lemma remap_frame_other:
  assumes "parse_layout d = ret (Some l)" and "fl_l3_kind l = L3_Other" and "\<not> arp_shape d (fl_l3 l)"
  shows "remap_frame hm mac_map seed remap_mac d = ret d"
  using assms by (simp add: remap_frame_def pf_parse_def is_ipv4_def remap_arp_addrs_def is_arp_ipv4_eq)

definition packet_rewrite ::
  "(u32 \<Rightarrow> u32 option) \<Rightarrow> (u32 \<Rightarrow> mac option) \<Rightarrow> u64 \<Rightarrow> bool \<Rightarrow> packet \<Rightarrow> packet \<Rightarrow> bool" where
  "packet_rewrite hm mac_map seed remap_mac p p' \<longleftrightarrow>
     (\<exists>d. remap_frame hm mac_map seed remap_mac (pk_data p) = ret d \<and> p' = p\<lparr>pk_data := d\<rparr>)"

lemma apply_host_map_total:
  assumes "macs_ok mac_map"
  shows "\<exists>cap'. apply_host_map cap hm mac_map seed remap_mac = ret cap' \<and> cap_header cap' = cap_header cap \<and>
    list_all2 (packet_rewrite hm mac_map seed remap_mac) (cap_packets cap) (cap_packets cap')"
proof -
  let ?f = "\<lambda>p. do { d \<leftarrow> remap_frame hm mac_map seed remap_mac (pk_data p); ret (p\<lparr>pk_data := d\<rparr>) }"
  have "\<exists>ps. map_exec ?f (cap_packets cap) = ret ps"
  proof (rule map_exec_ret)
    fix p :: packet
    obtain d where "remap_frame hm mac_map seed remap_mac (pk_data p) = ret d"
      using remap_frame_total [OF assms] by blast
    then show "\<exists>y. ?f p = ret y" by simp
  qed
  then obtain ps where ps: "map_exec ?f (cap_packets cap) = ret ps" by blast
  have "list_all2 (packet_rewrite hm mac_map seed remap_mac) (cap_packets cap) ps"
    by (rule map_exec_rel [OF ps]) (auto simp: packet_rewrite_def)
  with ps show ?thesis by (simp add: apply_host_map_def)
qed

section \<open>The plan\<close>

definition layout_addrs :: "bytes \<Rightarrow> frame_layout \<Rightarrow> u32 list" where
  "layout_addrs d l =
     (case fl_l3_kind l of
        L3_Ipv4 \<Rightarrow> [word32_at d (fl_l3 l + 12), word32_at d (fl_l3 l + 16)]
      | L3_Other \<Rightarrow>
          if arp_shape d (fl_l3 l) then [word32_at d (fl_l3 l + 14), word32_at d (fl_l3 l + 24)] else [])"

definition addrs_of :: "bytes \<Rightarrow> u32 list" where
  "addrs_of d = (case parse_layout d of Some (Some l) \<Rightarrow> layout_addrs d l | _ \<Rightarrow> [])"

lemma packet_addrs_eq: "packet_addrs d = ret (addrs_of d)"
proof -
  obtain r where r: "parse_layout d = ret r" using parse_layout_total by blast
  show ?thesis
  proof (cases r)
    case (Some l)
    show ?thesis
    proof (cases "fl_l3_kind l")
      case L3_Ipv4
      with layout_ipv4_bound [OF r [unfolded Some] L3_Ipv4] r Some show ?thesis
        by (simp add: packet_addrs_def addrs_of_def layout_addrs_def exec_simps)
    next
      case L3_Other
      have "arp_shape d (fl_l3 l) \<Longrightarrow> fl_l3 l + 28 \<le> length d" by (simp add: arp_shape_def)
      with L3_Other r Some show ?thesis
        by (cases "arp_shape d (fl_l3 l)")
          (simp_all add: packet_addrs_def addrs_of_def layout_addrs_def is_arp_ipv4_eq exec_simps)
    qed
  qed (simp add: r packet_addrs_def addrs_of_def)
qed

definition capture_addrs :: "packet list \<Rightarrow> u32 list" where
  "capture_addrs ps = concat (map (\<lambda>p. addrs_of (pk_data p)) ps)"

definition hosts_of :: "'n net_ops \<Rightarrow> 'n list \<Rightarrow> u32 list \<Rightarrow> (u32 \<times> u8 \<times> u32) list" where
  "hosts_of N hints as = fold (note_host N hints) as []"

lemma enumerate_hosts_eq: "enumerate_hosts N hints ps = ret (hosts_of N hints (capture_addrs ps))"
proof -
  have "map_exec (\<lambda>p. packet_addrs (pk_data p)) ps = ret (map (\<lambda>p. addrs_of (pk_data p)) ps)"
    by (rule map_exec_map) (rule packet_addrs_eq)
  then show ?thesis by (simp add: enumerate_hosts_def hosts_of_def capture_addrs_def)
qed

lemma fold_note_host:
  assumes "distinct (map fst hs)" and "\<forall>(h, g) \<in> set hs. is_remappable h \<and> g = group_of N h hints"
  shows "distinct (map fst (fold (note_host N hints) as hs)) \<and>
    (\<forall>(h, g) \<in> set (fold (note_host N hints) as hs). is_remappable h \<and> g = group_of N h hints) \<and>
    fst ` set (fold (note_host N hints) as hs) = fst ` set hs \<union> {a \<in> set as. is_remappable a}"
  using assms
proof (induction as arbitrary: hs)
  case (Cons a as)
  have 1: "distinct (map fst (note_host N hints a hs))"
    "\<forall>(h, g) \<in> set (note_host N hints a hs). is_remappable h \<and> g = group_of N h hints"
    "fst ` set (note_host N hints a hs) = fst ` set hs \<union> (if is_remappable a then {a} else {})"
    using Cons.prems by (auto simp: note_host_def)
  from Cons.IH [OF 1(1,2)] 1(3) show ?case by auto
qed simp

lemma hosts_of_props:
  "distinct (map fst (hosts_of N hints as))"
  "(h, g) \<in> set (hosts_of N hints as) \<Longrightarrow> is_remappable h \<and> g = group_of N h hints"
  "fst ` set (hosts_of N hints as) = {a \<in> set as. is_remappable a}"
  using fold_note_host [of "[]" N hints as] by (auto simp: hosts_of_def)

lemma assign_nets_Cons:
  "pick_new_net below (fst g) r asg = (n, r') \<Longrightarrow>
   fst (assign_nets below (g # gs) asg r) = (g, n) # fst (assign_nets below gs (asg @ [(n, fst g)]) r')"
  by (simp add: Let_def case_prod_unfold)

lemma assign_nets_fst: "map fst (fst (assign_nets below gs asg r)) = gs"
proof (induction gs arbitrary: asg r)
  case (Cons g gs)
  obtain n r' where "pick_new_net below (fst g) r asg = (n, r')"
    by (cases "pick_new_net below (fst g) r asg")
  from Cons assign_nets_Cons [OF this, of gs] show ?case by simp
qed simp

lemma assign_nets_blocks:
  assumes "below_ok below"
  shows "\<forall>g \<in> set gs. 8 \<le> unat (fst g) \<Longrightarrow>
    (g, n) \<in> set (fst (assign_nets below gs asg r)) \<Longrightarrow> ten_block (fst g) n"
proof (induction gs arbitrary: asg r)
  case (Cons g' gs)
  obtain n' r' where pk: "pick_new_net below (fst g') r asg = (n', r')"
    by (cases "pick_new_net below (fst g') r asg")
  have "ten_block (fst g') n'"
    using pick_new_net_block [OF assms _ pk] Cons.prems(1) by simp
  then show ?case
    using Cons.prems Cons.IH assign_nets_Cons [OF pk, of gs] by (auto simp del: assign_nets.simps)
qed simp

text \<open>Groups in ascending order of prefix are served largest first, so nothing overlaps while 10/8 lasts.\<close>

definition demand :: "(u8 \<times> u32) list \<Rightarrow> nat" where
  "demand gs = sum_list (map (\<lambda>g. block_size (fst g)) gs)"

lemma clamp_prefix_mono: "p \<le> q \<Longrightarrow> clamp_prefix p \<le> clamp_prefix q"
  by (auto simp: clamp_prefix_def)

definition separate :: "(u32 \<times> u8) list \<Rightarrow> bool" where
  "separate as \<longleftrightarrow> (\<forall>i j. i < j \<and> j < length as \<longrightarrow>
     \<not> overlaps (fst (as ! j)) (clamp_prefix (snd (as ! j))) [as ! i])"

lemma overlaps_in: "overlaps n p as \<longleftrightarrow> (\<exists>a \<in> set as. overlaps n p [a])"
proof (induction as)
  case (Cons a as)
  then show ?case using overlaps_Cons [of n p a as] by auto
qed simp

lemma separate_snoc:
  "separate as \<Longrightarrow> \<not> overlaps n (clamp_prefix p) as \<Longrightarrow> separate (as @ [(n, p)])"
  using overlaps_in [of n "clamp_prefix p" as]
  by (auto simp: separate_def nth_append not_less less_Suc_eq)

lemma assign_nets_separate:
  assumes "below_ok below"
  shows "\<forall>a \<in> set asg. ten_block (snd a) (fst a) \<Longrightarrow> separate asg \<Longrightarrow>
    sorted (map snd asg @ map fst gs) \<Longrightarrow> \<forall>g \<in> set gs. 8 \<le> unat (fst g) \<Longrightarrow>
    sum_list (map (\<lambda>a. block_size (snd a)) asg) + demand gs \<le> 2 ^ 24 \<Longrightarrow>
    separate (asg @ map (\<lambda>(g, n). (n, fst g)) (fst (assign_nets below gs asg r)))"
proof (induction gs arbitrary: asg r)
  case (Cons g gs)
  obtain n r' where pk: "pick_new_net below (fst g) r asg = (n, r')"
    by (cases "pick_new_net below (fst g) r asg")
  have t: "ten_block (fst g) n"
    using pick_new_net_block [OF assms _ pk] Cons.prems(4) by simp
  have "\<not> overlaps n (clamp_prefix (fst g)) asg"
    using Cons.prems by (intro pick_new_net_free [OF pk])
      (auto simp: sorted_append demand_def intro: clamp_prefix_mono)
  then have "separate (asg @ [(n, fst g)])" using Cons.prems(2) by (intro separate_snoc)
  then have "separate ((asg @ [(n, fst g)]) @
      map (\<lambda>(g, n). (n, fst g)) (fst (assign_nets below gs (asg @ [(n, fst g)]) r')))"
    using Cons.prems t by (intro Cons.IH) (auto simp: demand_def)
  with assign_nets_Cons [OF pk, of gs] show ?case by (simp del: assign_nets.simps)
qed simp

subsection \<open>The host map\<close>

definition plan_groups :: "'n net_ops \<Rightarrow> 'n list \<Rightarrow> packet list \<Rightarrow> (u8 \<times> u32) list" where
  "plan_groups N hints ps = remdups_adj (sort (map snd (hosts_of N hints (capture_addrs ps))))"

lemma sorted_remdups_adj_strict: "sorted xs \<Longrightarrow> sorted_wrt (<) (remdups_adj xs)"
  by (induction xs rule: remdups_adj.induct) (auto simp: le_less_trans less_le)

lemma sorted_groups: "sorted (plan_groups N hints ps)" and distinct_groups: "distinct (plan_groups N hints ps)"
  and set_groups: "set (plan_groups N hints ps) = snd ` set (hosts_of N hints (capture_addrs ps))"
proof -
  have "sorted_wrt (<) (plan_groups N hints ps)"
    unfolding plan_groups_def by (rule sorted_remdups_adj_strict) simp
  then show "sorted (plan_groups N hints ps)" and "distinct (plan_groups N hints ps)"
    using strict_sorted_iff by blast+
qed (simp add: plan_groups_def)

lemma sorted_fst: "sorted xs \<Longrightarrow> sorted (map fst xs)" for xs :: "('a::linorder \<times> 'b::linorder) list"
  by (induction xs) (auto simp: less_eq_prod_def)

lemma group_bounds:
  assumes "net_ok N" and "g \<in> set (plan_groups N hints ps)"
  shows "8 \<le> unat (fst g) \<and> unat (fst g) \<le> 32"
proof -
  obtain h where "(h, g) \<in> set (hosts_of N hints (capture_addrs ps))"
    using assms(2) by (auto simp: set_groups)
  then have "group_of N h hints = (fst g, snd g)" using hosts_of_props(2) by fastforce
  from group_of_bounds [OF assms(1) this] show ?thesis by simp
qed

definition entry_rel :: "((u8 \<times> u32) \<times> u32) list \<Rightarrow> u32 \<times> u8 \<times> u32 \<Rightarrow> u32 \<times> u32 \<Rightarrow> bool" where
  "entry_rel nets x e \<longleftrightarrow> fst e = fst x \<and>
     (\<exists>n. (snd x, n) \<in> set nets \<and> snd e = host_addr n (fst (snd x)) (fst x))"

lemma host_entry_rel: "host_entry nets x = ret e \<Longrightarrow> entry_rel nets x e"
  by (cases x) (auto simp: host_entry_def host_addr_def entry_rel_def dest: map_of_SomeD)

lemma plan_hosts_total: "\<exists>nets entries. plan_hosts N below hints r ps = ret (nets, entries)"
proof -
  let ?hosts = "hosts_of N hints (capture_addrs ps)"
  let ?nets = "fst (assign_nets below (plan_groups N hints ps) [] r)"
  have "\<exists>entries. map_exec (host_entry ?nets) ?hosts = ret entries"
  proof (rule map_exec_ret)
    fix x assume x: "x \<in> set ?hosts"
    then have "snd x \<in> set (map fst ?nets)"
      unfolding assign_nets_fst set_groups by (rule imageI)
    then obtain n where "map_of ?nets (snd x) = Some n"
      by (metis not_Some_eq map_of_eq_None_iff set_map)
    then show "\<exists>y. host_entry ?nets x = ret y"
      by (cases x) (simp add: host_entry_def)
  qed
  then show ?thesis
    by (auto simp: plan_hosts_def enumerate_hosts_eq plan_groups_def [symmetric] Let_def)
qed

lemma plan_hosts_rel:
  assumes "plan_hosts N below hints r ps = ret (nets, entries)"
  shows "nets = fst (assign_nets below (plan_groups N hints ps) [] r)"
    and "list_all2 (entry_rel nets) (hosts_of N hints (capture_addrs ps)) entries"
proof -
  show n: "nets = fst (assign_nets below (plan_groups N hints ps) [] r)"
    using assms by (auto simp: plan_hosts_def enumerate_hosts_eq plan_groups_def [symmetric] Let_def)
  have "map_exec (host_entry nets) (hosts_of N hints (capture_addrs ps)) = ret entries"
    using assms by (auto simp: plan_hosts_def enumerate_hosts_eq plan_groups_def [symmetric] Let_def)
  then show "list_all2 (entry_rel nets) (hosts_of N hints (capture_addrs ps)) entries"
    by (rule map_exec_rel) (rule host_entry_rel)
qed

text \<open>What one entry of the host map says.\<close>

lemma plan_entry:
  assumes pl: "plan_hosts N below hints r ps = ret (nets, entries)" and e: "(h, a) \<in> set entries"
  obtains g n where "group_of N h hints = g" and "(g, n) \<in> set nets" and "a = host_addr n (fst g) h"
    and "is_remappable h" and "g \<in> set (plan_groups N hints ps)" and "h \<in> set (capture_addrs ps)"
proof -
  obtain i where i: "i < length entries" "entries ! i = (h, a)"
    using e by (auto simp: in_set_conv_nth)
  obtain x where x0: "x \<in> set (hosts_of N hints (capture_addrs ps))" "entry_rel nets x (h, a)"
    using list_all2_nthD2 [OF plan_hosts_rel(2) [OF pl] i(1)] i
      list_all2_lengthD [OF plan_hosts_rel(2) [OF pl]] by (metis nth_mem)
  then have xh: "x = (h, snd x)" by (simp add: entry_rel_def prod_eq_iff)
  obtain n where x23: "(snd x, n) \<in> set nets" "a = host_addr n (fst (snd x)) h"
    using x0(2) by (auto simp: entry_rel_def)
  have x1: "(h, snd x) \<in> set (hosts_of N hints (capture_addrs ps))" using x0(1) xh by simp
  define g where "g = snd x"
  note x = x1 [folded g_def] x23 [folded g_def]
  have "h \<in> set (capture_addrs ps)"
    using x(1) hosts_of_props(3) [of N hints "capture_addrs ps"] by force
  moreover have "g \<in> set (plan_groups N hints ps)" using x(1) by (force simp: set_groups)
  ultimately show thesis using that x(2,3) hosts_of_props(2) [OF x(1)] by blast
qed

lemma plan_keys:
  assumes "plan_hosts N below hints r ps = ret (nets, entries)"
  shows "map fst entries = map fst (hosts_of N hints (capture_addrs ps))"
  using plan_hosts_rel(2) [OF assms]
  by (induction rule: list_all2_induct) (simp_all add: entry_rel_def)

lemma plan_keys_set:
  assumes "plan_hosts N below hints r ps = ret (nets, entries)"
  shows "fst ` set entries = {a \<in> set (capture_addrs ps). is_remappable a}" and "distinct (map fst entries)"
proof -
  have "set (map fst entries) = {a \<in> set (capture_addrs ps). is_remappable a}"
    unfolding plan_keys [OF assms] using hosts_of_props(3) by simp
  then show "fst ` set entries = {a \<in> set (capture_addrs ps). is_remappable a}" by simp
  show "distinct (map fst entries)"
    unfolding plan_keys [OF assms] by (rule hosts_of_props(1))
qed


lemma plan_nets_blocks:
  assumes "net_ok N" and "below_ok below" and "plan_hosts N below hints r ps = ret (nets, entries)"
    and "(g, n) \<in> set nets"
  shows "ten_block (fst g) n" and "unat (fst g) \<le> 32"
proof -
  have n: "(g, n) \<in> set (fst (assign_nets below (plan_groups N hints ps) [] r))"
    using assms(4) plan_hosts_rel(1) [OF assms(3)] by simp
  then show "ten_block (fst g) n"
    using group_bounds [OF assms(1)] by (intro assign_nets_blocks [OF assms(2)]) auto
  have "g \<in> set (map fst (fst (assign_nets below (plan_groups N hints ps) [] r)))"
    using n by force
  then show "unat (fst g) \<le> 32"
    unfolding assign_nets_fst using group_bounds [OF assms(1)] by blast
qed

text \<open>Hosts move into 10/8, keep their offset, and stay with the hosts of their group.\<close>

lemma plan_entry_addr:
  assumes "net_ok N" and "below_ok below" and "plan_hosts N below hints r ps = ret (nets, entries)"
    and "(h, a) \<in> set entries"
  shows "octet0 a = 0x0A"
    and "a AND NOT (mask_for (fst (group_of N h hints))) = h AND NOT (mask_for (fst (group_of N h hints)))"
    and "(group_of N h hints, a AND mask_for (fst (group_of N h hints))) \<in> set nets"
proof -
  obtain g n where g: "group_of N h hints = g" "(g, n) \<in> set nets" "a = host_addr n (fst g) h"
    using plan_entry [OF assms(3,4)] by metis
  note b = plan_nets_blocks [OF assms(1-3) g(2)]
  show "octet0 a = 0x0A" unfolding g(3) by (rule host_addr_ten [OF b])
  show "a AND NOT (mask_for (fst (group_of N h hints))) = h AND NOT (mask_for (fst (group_of N h hints)))"
    unfolding g(1,3) by (rule host_addr_offset [OF b])
  show "(group_of N h hints, a AND mask_for (fst (group_of N h hints))) \<in> set nets"
    using g(2) unfolding g(1,3) host_addr_network [OF b] .
qed

lemma separate_nets:
  assumes "net_ok N" and "below_ok below" and "plan_hosts N below hints r ps = ret (nets, entries)"
    and "demand (plan_groups N hints ps) \<le> 2 ^ 24"
  shows "separate (map (\<lambda>(g, n). (n, fst g)) nets)"
proof -
  have "sorted (map fst (plan_groups N hints ps))"
    by (rule sorted_fst [OF sorted_groups])
  then have "separate ([] @ map (\<lambda>(g, n). (n, fst g)) (fst (assign_nets below (plan_groups N hints ps) [] r)))"
    using assms(4) group_bounds [OF assms(1)]
    by (intro assign_nets_separate [OF assms(2)]) (auto simp: separate_def)
  then show ?thesis using plan_hosts_rel(1) [OF assms(3)] by simp
qed

lemma plan_injective:
  assumes "net_ok N" and "below_ok below" and pl: "plan_hosts N below hints r ps = ret (nets, entries)"
    and "demand (plan_groups N hints ps) \<le> 2 ^ 24"
    and "(h, a) \<in> set entries" and "(k, a) \<in> set entries"
  shows "h = k"
proof -
  obtain g n where g: "group_of N h hints = g" "(g, n) \<in> set nets" "a = host_addr n (fst g) h"
    using plan_entry [OF pl assms(5)] by metis
  obtain g' n' where g': "group_of N k hints = g'" "(g', n') \<in> set nets" "a = host_addr n' (fst g') k"
    using plan_entry [OF pl assms(6)] by metis
  have d: "distinct (map fst nets)"
    using distinct_groups plan_hosts_rel(1) [OF pl] by (metis assign_nets_fst)
  note b = plan_nets_blocks [OF assms(1-3) g(2)] and b' = plan_nets_blocks [OF assms(1-3) g'(2)]
  obtain i where i: "i < length nets" "nets ! i = (g, n)" using g(2) by (auto simp: in_set_conv_nth)
  obtain j where j: "j < length nets" "nets ! j = (g', n')" using g'(2) by (auto simp: in_set_conv_nth)
  show ?thesis
  proof (cases "g = g'")
    case True
    then have "n = n'" using d g(2) g'(2) by (metis eq_key_imp_eq_value)
    moreover have "snd g = h AND mask_for (fst g)"
      by (rule group_of_bounds(3) [OF assms(1), of _ hints]) (simp add: g(1))
    moreover have "snd g = k AND mask_for (fst g)"
      by (rule group_of_bounds(3) [OF assms(1), of _ hints]) (simp add: g'(1) True)
    ultimately show ?thesis
      using host_addr_inj [OF b, of h k] g(3) g'(3) True by simp
  next
    case False
    then have "i \<noteq> j" using i j by auto
    have sep: "\<not> overlaps (fst (nets' ! v)) (clamp_prefix (snd (nets' ! v))) [nets' ! u]"
      if "u < v" "v < length nets" "nets' = map (\<lambda>(g, n). (n, fst g)) nets" for u v nets'
      using separate_nets [OF assms(1-4)] that by (simp add: separate_def)
    from \<open>i \<noteq> j\<close> consider "i < j" | "j < i" by linarith
    then show ?thesis
    proof cases
      case 1
      then have "\<not> overlaps n' (clamp_prefix (fst g')) [(n, fst g)]"
        using sep [OF 1 j(1) refl] i j by simp
      from host_addr_disjoint [OF b' b this, of k h] show ?thesis using g(3) g'(3) by simp
    next
      case 2
      then have "\<not> overlaps n (clamp_prefix (fst g)) [(n', fst g')]"
        using sep [OF 2 i(1) refl] i j by simp
      from host_addr_disjoint [OF b b' this, of h k] show ?thesis using g(3) g'(3) by simp
    qed
  qed
qed

section \<open>What survives the remap\<close>

lemma windows4_sublist: "length w = 4 \<Longrightarrow> sublist w d \<Longrightarrow> w \<in> set (windows4 d)"
proof -
  assume l: "length w = 4" and "sublist w d"
  then obtain xs zs where d: "d = xs @ w @ zs" by (auto simp: sublist_def)
  then have "take 4 (drop (length xs) d) = w" and "length xs < length d - 3" using l by simp_all
  then show "w \<in> set (windows4 d)" by (auto simp: windows4_def intro!: image_eqI [of _ _ "length xs"])
qed

lemma no_leak_sublist: "keep_no_leak originals d = ret True \<Longrightarrow> a \<in> originals \<Longrightarrow> \<not> sublist (octets a) d"
  using windows4_sublist [of "octets a" d] by (auto simp: keep_no_leak_def list_ex_iff octets_def)

lemma drop_leak_survivors:
  assumes "drop_payload_leak_frames cap originals = ret (cap', n)"
  shows "set (cap_packets cap') \<subseteq> set (cap_packets cap)" and "cap_header cap' = cap_header cap"
    and "p \<in> set (cap_packets cap') \<Longrightarrow> a \<in> originals \<Longrightarrow> \<not> sublist (octets a) (pk_data p)"
  using assms leak_filter.drop_survivors [of originals cap cap' n] no_leak_sublist [of originals]
  by (auto simp: drop_payload_leak_frames_def split: if_splits)

lemma drop_leak_total: "\<exists>cap' n. drop_payload_leak_frames cap originals = ret (cap', n)"
  by (simp add: drop_payload_leak_frames_def leak_filter.drop_eq)

lemma remap_capture_total: "\<exists>cap' s. remap_capture N below seed_from cap hints seed remap_mac = ret (cap', s)"
proof -
  obtain nets entries where 1: "plan_hosts N below hints (seed_from seed) (cap_packets cap) = ret (nets, entries)"
    using plan_hosts_total [of N below hints "seed_from seed" "cap_packets cap"] by blast
  obtain cap1 where 2: "apply_host_map cap (map_of entries) (\<lambda>_. None) seed remap_mac = ret cap1"
    using apply_host_map_total [of "\<lambda>_. None" cap "map_of entries" seed remap_mac] by (auto simp: macs_ok_def)
  obtain cap2 n where 3: "drop_incoherent_frames cap1 (snd ` set entries) = ret (cap2, n)"
    by (simp add: drop_incoherent_frames_def plan_filter.drop_eq)
  obtain cap3 n' where 4: "drop_payload_leak_frames cap2 (fst ` set entries) = ret (cap3, n')"
    using drop_leak_total by blast
  from 1 2 3 4 show ?thesis by (simp add: remap_capture_def)
qed

lemma remap_capture_survivors:
  assumes rc: "remap_capture N below seed_from cap hints seed remap_mac = ret (cap', s)"
    and p': "p' \<in> set (cap_packets cap')"
  obtains nets entries p l where "plan_hosts N below hints (seed_from seed) (cap_packets cap) = ret (nets, entries)"
    and "p \<in> set (cap_packets cap)"
    and "packet_rewrite (map_of entries) (\<lambda>_. None) seed remap_mac p p'"
    and "parse_layout (pk_data p') = ret (Some l)" and "coherent_at (snd ` set entries) (pk_data p') l"
    and "\<And>a. a \<in> fst ` set entries \<Longrightarrow> \<not> sublist (octets a) (pk_data p')"
proof -
  obtain nets entries cap1 cap2 n n' where
    1: "plan_hosts N below hints (seed_from seed) (cap_packets cap) = ret (nets, entries)"
    and 2: "apply_host_map cap (map_of entries) (\<lambda>_. None) seed remap_mac = ret cap1"
    and 3: "drop_incoherent_frames cap1 (snd ` set entries) = ret (cap2, n)"
    and 4: "drop_payload_leak_frames cap2 (fst ` set entries) = ret (cap', n')"
    using rc by (auto simp: remap_capture_def)
  have p2: "p' \<in> set (cap_packets cap2)"
    using p' drop_leak_survivors(1) [OF 4] by blast
  have p1: "p' \<in> set (cap_packets cap1)" and
    co: "frame_is_plan_coherent (snd ` set entries) (pk_data p') = ret True"
    using p2 plan_filter.drop_survivors(1) [OF 3 [unfolded drop_incoherent_frames_def]] by auto
  obtain l where l: "parse_layout (pk_data p') = ret (Some l)" "coherent_at (snd ` set entries) (pk_data p') l"
    using co by (auto simp: coherent_eq split: option.splits)
  have "list_all2 (packet_rewrite (map_of entries) (\<lambda>_. None) seed remap_mac) (cap_packets cap) (cap_packets cap1)"
    using apply_host_map_total [of "\<lambda>_. None" cap "map_of entries" seed remap_mac] 2
    by (auto simp: macs_ok_def)
  then obtain p where "p \<in> set (cap_packets cap)"
    "packet_rewrite (map_of entries) (\<lambda>_. None) seed remap_mac p p'"
    using p1 by (metis in_set_conv_nth list_all2_conv_all_nth)
  with that [OF 1 _ _ l] drop_leak_survivors(3) [OF 4 p'] show thesis by blast
qed

text \<open>A plan-coherent frame over a private plan shows the backstop nothing.\<close>

lemma plan_not_public:
  assumes "\<forall>a \<in> valid. \<not> is_public_unicast a"
  shows "plan_src valid a \<Longrightarrow> \<not> is_public_unicast a" and "plan_dst valid a \<Longrightarrow> \<not> is_public_unicast a"
  using assms by (auto simp: plan_src_def plan_dst_def is_public_unicast_def is_remappable_def Let_def)

lemma carries_public_eq:
  assumes p: "parse_layout buf = ret (Some l)"
  shows "fl_l3_kind l = L3_Ipv4 \<Longrightarrow> carries_public_address buf =
      ret (is_public_unicast (word32_at buf (fl_l3 l + 12)) \<or> is_public_unicast (word32_at buf (fl_l3 l + 16)))"
    and "fl_l3_kind l = L3_Other \<Longrightarrow> arp_shape buf (fl_l3 l) \<Longrightarrow> carries_public_address buf =
      ret (is_public_unicast (word32_at buf (fl_l3 l + 14)) \<or> is_public_unicast (word32_at buf (fl_l3 l + 24)))"
proof -
  assume v: "fl_l3_kind l = L3_Ipv4"
  then have b: "fl_l3 l + 20 \<le> length buf" by (rule layout_ipv4_bound [OF p])
  then have "rd_be32 buf (fl_l3 l + 12) = ret (word32_at buf (fl_l3 l + 12))"
    "rd_be32 buf (fl_l3 l + 16) = ret (word32_at buf (fl_l3 l + 16))" by (simp_all add: exec_simps)
  with p v b show "carries_public_address buf =
      ret (is_public_unicast (word32_at buf (fl_l3 l + 12)) \<or> is_public_unicast (word32_at buf (fl_l3 l + 16)))"
    by (simp add: carries_public_address_def)
next
  assume v: "fl_l3_kind l = L3_Other" and a: "arp_shape buf (fl_l3 l)"
  then have b: "2 \<le> fl_l3 l" "fl_l3 l + 28 \<le> length buf" "word16_at buf (fl_l3 l - 2) = 0x0806"
    by (simp_all add: arp_shape_def)
  then have "rd_be16 buf (fl_l3 l - 2) = ret 0x0806" using rd_be16_range [of "fl_l3 l" buf] by simp
  moreover have "rd_be32 buf (fl_l3 l + 14) = ret (word32_at buf (fl_l3 l + 14))"
    "rd_be32 buf (fl_l3 l + 24) = ret (word32_at buf (fl_l3 l + 24))" using b by (simp_all add: exec_simps)
  ultimately show "carries_public_address buf =
      ret (is_public_unicast (word32_at buf (fl_l3 l + 14)) \<or> is_public_unicast (word32_at buf (fl_l3 l + 24)))"
    using p v a b by (simp add: carries_public_address_def is_arp_ipv4_eq)
qed

lemma coherent_not_public:
  assumes "parse_layout buf = ret (Some l)" and "coherent_at valid buf l"
    and "\<forall>a \<in> valid. \<not> is_public_unicast a"
  shows "carries_public_address buf = ret False"
  using carries_public_eq [OF assms(1)] assms(2) plan_not_public [OF assms(3)]
  by (cases "fl_l3_kind l") (simp_all add: coherent_at_def)

lemma remap_survivor_not_public:
  assumes "net_ok N" and "below_ok below"
    and rc: "remap_capture N below seed_from cap hints seed remap_mac = ret (cap', s)"
    and p: "p \<in> set (cap_packets cap')"
  shows "carries_public_address (pk_data p) = ret False"
proof -
  obtain nets entries l where pl: "plan_hosts N below hints (seed_from seed) (cap_packets cap) = ret (nets, entries)"
    and l: "parse_layout (pk_data p) = ret (Some l)" "coherent_at (snd ` set entries) (pk_data p) l"
    using remap_capture_survivors [OF rc p] by metis
  have "\<not> is_public_unicast a" if "a \<in> snd ` set entries" for a
    using plan_entry_addr(1) [OF assms(1,2) pl] that ten_private by fastforce
  with coherent_not_public [OF l] show ?thesis by blast
qed

end
