(* ===== verification/Mapper.thy ===== *)
theory Mapper
  imports Prelude
begin

text \<open>
  \<open>src/proto/mapper.rs\<close>: the seeded identifier remap.  The generator
  (\<open>rand_chacha::ChaCha8Rng\<close>, not under \<open>src/\<close>) is the parameter \<open>gen\<close>: \<open>gen r lo hi\<close> is
  \<open>gen_range(lo..=hi)\<close>, the drawn value and the next generator state.  Its documented law,
  that a draw lies in the requested range, is the hypothesis \<open>gen_ok\<close>.

  The two hash maps are functions from keys; a domain with no entry in \<open>used\<close> is the empty
  set, as \<open>entry().or_default()\<close> makes it.
\<close>

section \<open>Code\<close>

datatype domain =
    ModbusUnitId | EnipVendor | EnipDeviceType | EnipProductCode | EnipSerial
  | S7ModuleId | S7Serial | Dnp3Addr

record 'r mapper =
  mp_rng :: 'r
  mp_fwd :: "domain \<times> u64 \<Rightarrow> u64 option"
  mp_used :: "domain \<Rightarrow> u64 set"

type_synonym 'r gen = "'r \<Rightarrow> u64 \<Rightarrow> u64 \<Rightarrow> u64 \<times> 'r"

definition from_seed :: "(u64 \<Rightarrow> 'r) \<Rightarrow> u64 \<Rightarrow> 'r mapper" where
  "from_seed seed_from seed =
     \<lparr>mp_rng = seed_from seed, mp_fwd = (\<lambda>_. None), mp_used = (\<lambda>_. {})\<rparr>"

text \<open>The retry loop: at most \<open>n\<close> further draws while the candidate is taken.\<close>

fun redraw :: "nat \<Rightarrow> 'r gen \<Rightarrow> u64 set \<Rightarrow> u64 \<Rightarrow> u64 \<Rightarrow> u64 \<times> 'r \<Rightarrow> u64 \<times> 'r" where
  "redraw 0 gen used lo hi (candidate, r) = (candidate, r)"
| "redraw (Suc n) gen used lo hi (candidate, r) =
     (if candidate \<notin> used then (candidate, r) else redraw n gen used lo hi (gen r lo hi))"

definition draw_unused :: "'r gen \<Rightarrow> 'r mapper \<Rightarrow> domain \<Rightarrow> u64 \<Rightarrow> u64 \<Rightarrow> u64 \<times> 'r mapper" where
  "draw_unused gen m d lo hi =
     (if hi \<le> lo then (lo, m)
      else let (candidate, r) = redraw 64 gen (mp_used m d) lo hi (gen (mp_rng m) lo hi)
           in (candidate, m\<lparr>mp_rng := r\<rparr>))"

definition map_range :: "'r gen \<Rightarrow> 'r mapper \<Rightarrow> domain \<Rightarrow> u64 \<Rightarrow> u64 \<Rightarrow> u64 \<Rightarrow> u64 \<times> 'r mapper" where
  "map_range gen m d orig lo hi =
     (case mp_fwd m (d, orig) of
        Some v \<Rightarrow> (v, m)
      | None \<Rightarrow>
          let (v, m') = draw_unused gen m d lo hi
          in (v, m'\<lparr>mp_fwd := (mp_fwd m')((d, orig) \<mapsto> v),
                    mp_used := (mp_used m')(d := insert v (mp_used m' d))\<rparr>))"

definition map_u8 :: "'r gen \<Rightarrow> 'r mapper \<Rightarrow> domain \<Rightarrow> u8 \<Rightarrow> u8 \<times> 'r mapper" where
  "map_u8 gen m d orig = apfst ucast (map_range gen m d (ucast orig) 0 0xff)"

definition map_u16 :: "'r gen \<Rightarrow> 'r mapper \<Rightarrow> domain \<Rightarrow> u16 \<Rightarrow> u16 \<times> 'r mapper" where
  "map_u16 gen m d orig = apfst ucast (map_range gen m d (ucast orig) 0 0xffff)"

definition map_u32 :: "'r gen \<Rightarrow> 'r mapper \<Rightarrow> domain \<Rightarrow> u32 \<Rightarrow> u32 \<times> 'r mapper" where
  "map_u32 gen m d orig = apfst ucast (map_range gen m d (ucast orig) 0 0xffffffff)"

section \<open>The generator's law and the draws it makes\<close>

definition gen_ok :: "'r gen \<Rightarrow> bool" where
  "gen_ok gen \<longleftrightarrow> (\<forall>r lo hi. lo \<le> hi \<longrightarrow> lo \<le> fst (gen r lo hi) \<and> fst (gen r lo hi) \<le> hi)"

fun draws :: "nat \<Rightarrow> 'r gen \<Rightarrow> 'r \<Rightarrow> u64 \<Rightarrow> u64 \<Rightarrow> u64 list" where
  "draws 0 gen r lo hi = []"
| "draws (Suc n) gen r lo hi = (let (c, r') = gen r lo hi in c # draws n gen r' lo hi)"

lemma redraw_collides:
  "fst (redraw n gen used lo hi (c, r)) \<in> used \<Longrightarrow> c \<in> used \<and> set (draws n gen r lo hi) \<subseteq> used"
proof (induction n arbitrary: c r)
  case (Suc n)
  obtain c' r' where g: "gen r lo hi = (c', r')" by (cases "gen r lo hi")
  with Suc show ?case by (auto split: if_splits)
qed simp

lemma redraw_free: "c \<notin> used \<Longrightarrow> redraw n gen used lo hi (c, r) = (c, r)"
  by (cases n) simp_all

lemma redraw_range:
  "gen_ok gen \<Longrightarrow> lo \<le> hi \<Longrightarrow> lo \<le> c \<Longrightarrow> c \<le> hi \<Longrightarrow>
   lo \<le> fst (redraw n gen used lo hi (c, r)) \<and> fst (redraw n gen used lo hi (c, r)) \<le> hi"
proof (induction n arbitrary: c r)
  case (Suc n)
  obtain c' r' where g: "gen r lo hi = (c', r')" by (cases "gen r lo hi")
  with Suc.prems have "lo \<le> c' \<and> c' \<le> hi"
    unfolding gen_ok_def by (metis fst_conv)
  with Suc g show ?case by simp
qed simp

lemma draw_unused_state:
  "draw_unused gen m d lo hi = (v, m') \<Longrightarrow> mp_fwd m' = mp_fwd m \<and> mp_used m' = mp_used m"
  by (auto simp: draw_unused_def split: if_splits prod.splits)

lemma draw_unused_range:
  assumes "gen_ok gen" and "lo \<le> hi" and "draw_unused gen m d lo hi = (v, m')"
  shows "lo \<le> v \<and> v \<le> hi"
proof (cases "hi \<le> lo")
  case False
  obtain c r where g: "gen (mp_rng m) lo hi = (c, r)" by (cases "gen (mp_rng m) lo hi")
  then have "lo \<le> c \<and> c \<le> hi"
    using assms(1,2) unfolding gen_ok_def by (metis fst_conv)
  then show ?thesis
    using redraw_range [OF assms(1,2), of c 64 "mp_used m d" r] assms(3) False g
    by (auto simp: draw_unused_def split: prod.splits)
qed (use assms in \<open>auto simp: draw_unused_def\<close>)

lemma draw_unused_collides:
  assumes "lo < hi" and "draw_unused gen m d lo hi = (v, m')" and "v \<in> mp_used m d"
  shows "set (draws 65 gen (mp_rng m) lo hi) \<subseteq> mp_used m d"
proof -
  obtain c r where g: "gen (mp_rng m) lo hi = (c, r)" by (cases "gen (mp_rng m) lo hi")
  then have "fst (redraw 64 gen (mp_used m d) lo hi (c, r)) = v"
    using assms(1,2) by (auto simp: draw_unused_def not_le [symmetric] split: prod.splits)
  with assms(3) have "c \<in> mp_used m d \<and> set (draws 64 gen r lo hi) \<subseteq> mp_used m d"
    using redraw_collides by metis
  moreover have "draws 65 gen (mp_rng m) lo hi = c # draws 64 gen r lo hi"
    using g draws.simps(2) [of 64 gen "mp_rng m" lo hi] by simp
  ultimately show ?thesis by simp
qed

section \<open>Invariant\<close>

text \<open>The width of the values a domain is mapped to by the mutators.\<close>

fun dom_max :: "domain \<Rightarrow> u64" where
  "dom_max ModbusUnitId = 0xff"
| "dom_max EnipSerial = 0xffffffff"
| "dom_max _ = 0xffff"

definition mapper_ok :: "'r mapper \<Rightarrow> bool" where
  "mapper_ok m \<longleftrightarrow>
     (\<forall>d k v. mp_fwd m (d, k) = Some v \<longrightarrow> v \<in> mp_used m d \<and> v \<le> dom_max d)"

text \<open>One mapper extends another: known identifiers keep their value.\<close>

definition extends :: "'r mapper \<Rightarrow> 'r mapper \<Rightarrow> bool" where
  "extends m m' \<longleftrightarrow> (\<forall>k v. mp_fwd m k = Some v \<longrightarrow> mp_fwd m' k = Some v)"

lemma extends_refl [simp]: "extends m m"
  by (simp add: extends_def)

lemma extends_trans: "extends a b \<Longrightarrow> extends b c \<Longrightarrow> extends a c"
  by (simp add: extends_def)

lemma from_seed_ok: "mapper_ok (from_seed s k)"
  by (simp add: mapper_ok_def from_seed_def)

lemma map_range_fwd: "map_range gen m d k lo hi = (v, m') \<Longrightarrow> mp_fwd m' (d, k) = Some v"
  by (auto simp: map_range_def split: option.splits prod.splits)

lemma map_range_cases:
  assumes "map_range gen m d k lo hi = (v, m')"
  obtains (known) "mp_fwd m (d, k) = Some v" and "m' = m"
  | (fresh) m1 where "mp_fwd m (d, k) = None" and "draw_unused gen m d lo hi = (v, m1)"
    and "mp_fwd m' = (mp_fwd m)((d, k) \<mapsto> v)"
    and "mp_used m' = (mp_used m)(d := insert v (mp_used m d))"
proof (cases "mp_fwd m (d, k)")
  case None
  obtain w m1 where w: "draw_unused gen m d lo hi = (w, m1)"
    by (cases "draw_unused gen m d lo hi")
  show thesis
    using assms None w draw_unused_state [OF w] by (intro fresh [of m1]) (auto simp: map_range_def)
next
  case (Some w)
  with assms show thesis by (intro known) (auto simp: map_range_def)
qed

lemma map_range_extends: "map_range gen m d k lo hi = (v, m') \<Longrightarrow> extends m m'"
  by (erule map_range_cases) (auto simp: extends_def)

lemma map_range_ok:
  assumes "gen_ok gen" and "mapper_ok m" and "map_range gen m d k 0 (dom_max d) = (v, m')"
  shows "mapper_ok m' \<and> v \<le> dom_max d"
  using assms(3)
proof (cases rule: map_range_cases)
  case known
  with assms(2) show ?thesis by (auto simp: mapper_ok_def)
next
  case (fresh m1)
  then have "v \<le> dom_max d"
    using draw_unused_range [OF assms(1) _ fresh(2)] by simp
  with assms(2) fresh show ?thesis by (auto simp: mapper_ok_def)
qed

text \<open>
  an identifier keeps its value for the rest of the capture: once mapped, every later
  state answers the same value and draws nothing.
\<close>

theorem map_range_consistent:
  assumes "map_range gen m d k lo hi = (v, m1)" and "extends m1 m2"
  shows "map_range gen m2 d k lo' hi' = (v, m2)"
proof -
  have "mp_fwd m1 (d, k) = Some v" using assms(1) by (rule map_range_fwd)
  then have "mp_fwd m2 (d, k) = Some v" using assms(2) by (simp add: extends_def)
  then show ?thesis by (simp add: map_range_def)
qed

text \<open>
  the only way two identifiers of a domain collapse is that all 65 draws hit values
  already in use.
\<close>

definition injective :: "'r mapper \<Rightarrow> domain \<Rightarrow> bool" where
  "injective m d \<longleftrightarrow>
     (\<forall>j k v. mp_fwd m (d, j) = Some v \<longrightarrow> mp_fwd m (d, k) = Some v \<longrightarrow> j = k)"

theorem map_range_injective:
  assumes ok: "mapper_ok m" and inj: "injective m d" and "lo < hi"
    and m': "map_range gen m d k lo hi = (v, m')"
    and free: "\<not> set (draws 65 gen (mp_rng m) lo hi) \<subseteq> mp_used m d"
  shows "injective m' d"
  using m'
proof (cases rule: map_range_cases)
  case known
  with inj show ?thesis by simp
next
  case (fresh m1)
  then have "v \<notin> mp_used m d"
    using draw_unused_collides [OF \<open>lo < hi\<close> fresh(2)] free by blast
  then have "mp_fwd m (d, j) \<noteq> Some v" for j
    using ok by (auto simp: mapper_ok_def)
  with inj fresh(3) show ?thesis by (auto simp: injective_def)
qed

lemma map_u8_ok:
  assumes "gen_ok gen" and "mapper_ok m" and "map_u8 gen m ModbusUnitId b = (w, m')"
  shows "mapper_ok m' \<and> extends m m'"
  using assms map_range_ok [of gen m ModbusUnitId "ucast b"]
    map_range_extends [of gen m ModbusUnitId "ucast b" 0 "0xff"]
  by (auto simp: map_u8_def apfst_def map_prod_def split: prod.splits)

lemma map_u16_ok:
  assumes "gen_ok gen" and "mapper_ok m" and "dom_max d = 0xffff" and "map_u16 gen m d b = (w, m')"
  shows "mapper_ok m' \<and> extends m m'"
  using assms map_range_ok [of gen m d "ucast b"] map_range_extends [of gen m d "ucast b" 0 "0xffff"]
  by (auto simp: map_u16_def apfst_def map_prod_def split: prod.splits)

lemma map_u32_ok:
  assumes "gen_ok gen" and "mapper_ok m" and "map_u32 gen m EnipSerial b = (w, m')"
  shows "mapper_ok m' \<and> extends m m'"
  using assms map_range_ok [of gen m EnipSerial "ucast b"]
    map_range_extends [of gen m EnipSerial "ucast b" 0 "0xffffffff"]
  by (auto simp: map_u32_def apfst_def map_prod_def split: prod.splits)

end
