(* ===== verification/Walk.thy ===== *)
theory Walk
  imports Frame Mapper
begin

text \<open>
  The interface of the protocol mutators (\<open>src/proto/mod.rs\<close>) and the loop they share.

  A mutator walks the messages packed into one payload: at an offset it stops, or it edits
  one message in place and moves on.  \<open>walk\<close> is that \<open>while\<close> loop over a one-message
  \<open>step\<close>; it is a \<open>partial_function\<close>, so a loop that panics or never ends is \<open>None\<close>.  The
  locale \<open>walker\<close> names what a step has to promise (progress, the buffer's length, an
  invariant of payload and mapper, a relation between the mappers) and proves once that the loop then returns.

  The locale \<open>ot_mutator\<close> is the contract of the trait \<open>OtMutator\<close> as the reload pipeline
  relies on it.
\<close>

section \<open>Reports\<close>

datatype protocol = Modbus | Enip | S7 | Dnp3

record report =
  rp_protocol :: protocol
  rp_field :: string
  rp_original :: u64
  rp_new :: u64

section \<open>The loop\<close>

type_synonym 'm step_result = "(nat \<times> bytes \<times> 'm \<times> report list) option exec"

partial_function (option) walk ::
  "(nat \<Rightarrow> bytes \<Rightarrow> 'm \<Rightarrow> 'm step_result) \<Rightarrow> nat \<Rightarrow> bytes \<Rightarrow> 'm \<Rightarrow> (bytes \<times> 'm \<times> report list) exec"
where
  "walk step off p m = do {
     r \<leftarrow> step off p m;
     case r of
       None \<Rightarrow> ret (p, m, [])
     | Some (off', p', m', rs) \<Rightarrow> do {
         (p'', m'', rs') \<leftarrow> walk step off' p' m';
         ret (p'', m'', rs @ rs')
       }
   }"

lemma walk_stop: "step off p m = ret None \<Longrightarrow> walk step off p m = ret (p, m, [])"
  by (simp add: walk.simps [of step off p m])

lemma walk_next:
  "step off p m = ret (Some (off', p', m', rs)) \<Longrightarrow> walk step off' p' m' = ret (p'', m'', rs') \<Longrightarrow>
   walk step off p m = ret (p'', m'', rs @ rs')"
  by (simp add: walk.simps [of step off p m])

locale walker =
  fixes step :: "nat \<Rightarrow> bytes \<Rightarrow> 'm \<Rightarrow> 'm step_result"
    and inv :: "bytes \<Rightarrow> 'm \<Rightarrow> bool"
    and rel :: "'m \<Rightarrow> 'm \<Rightarrow> bool"
  assumes step_total: "inv p m \<Longrightarrow> \<exists>r. step off p m = ret r"
    and step_advances: "inv p m \<Longrightarrow> step off p m = ret (Some (off', p', m', rs)) \<Longrightarrow>
      off < off' \<and> off < length p"
    and step_length: "inv p m \<Longrightarrow> step off p m = ret (Some (off', p', m', rs)) \<Longrightarrow>
      length p' = length p"
    and step_inv: "inv p m \<Longrightarrow> step off p m = ret (Some (off', p', m', rs)) \<Longrightarrow> inv p' m'"
    and rel_refl: "rel m m"
    and rel_trans: "rel a b \<Longrightarrow> rel b c \<Longrightarrow> rel a c"
    and step_rel: "inv p m \<Longrightarrow> step off p m = ret (Some (off', p', m', rs)) \<Longrightarrow> rel m m'"
begin

text \<open>The loop returns: every step moves on inside the payload.\<close>

lemma walk_total:
  "inv p m \<Longrightarrow> \<exists>p' m' rs. walk step off p m = ret (p', m', rs)"
proof (induction "length p - off" arbitrary: off p m rule: less_induct)
  case less
  obtain r where r: "step off p m = ret r" using step_total [OF less.prems] by blast
  show ?case
  proof (cases r)
    case None
    with r show ?thesis by (simp add: walk_stop)
  next
    case (Some t)
    then obtain off' p1 m1 rs where s: "step off p m = ret (Some (off', p1, m1, rs))"
      using r by (cases t) auto
    have "length p1 - off' < length p - off"
      using step_advances [OF less.prems s] step_length [OF less.prems s] by linarith
    then obtain p' m' rs' where "walk step off' p1 m1 = ret (p', m', rs')"
      using less.hyps step_inv [OF less.prems s] by blast
    then show ?thesis using walk_next [of step off p m, OF s] by blast
  qed
qed

text \<open>Induction over the messages of a walk.\<close>

lemma walk_induct [consumes 2, case_names stop step]:
  assumes w: "walk step off p m = ret (p', m', rs)" and "inv p m"
    and stop: "\<And>off p m. inv p m \<Longrightarrow> step off p m = ret None \<Longrightarrow> Q off p m p m []"
    and step: "\<And>off p m off' p1 m1 rs1 p' m' rs. inv p m \<Longrightarrow> inv p1 m1 \<Longrightarrow>
      step off p m = ret (Some (off', p1, m1, rs1)) \<Longrightarrow> walk step off' p1 m1 = ret (p', m', rs) \<Longrightarrow>
      Q off' p1 m1 p' m' rs \<Longrightarrow> Q off p m p' m' (rs1 @ rs)"
  shows "Q off p m p' m' rs"
  using w \<open>inv p m\<close>
proof (induction "length p - off" arbitrary: off p m p' m' rs rule: less_induct)
  case less
  obtain r where r: "step off p m = ret r" using step_total [OF less.prems(2)] by blast
  show ?case
  proof (cases r)
    case None
    with r less.prems stop show ?thesis by (simp add: walk_stop)
  next
    case (Some t)
    then obtain off' p1 m1 rs1 where s: "step off p m = ret (Some (off', p1, m1, rs1))"
      using r by (cases t) auto
    have inv1: "inv p1 m1" using less.prems(2) s by (rule step_inv)
    obtain p2 m2 rs2 where w1: "walk step off' p1 m1 = ret (p2, m2, rs2)"
      using walk_total [OF inv1] by blast
    then have e: "p' = p2" "m' = m2" "rs = rs1 @ rs2"
      using walk_next [of step off p m, OF s w1] less.prems(1) by simp_all
    have "length p1 - off' < length p - off"
      using step_advances [OF less.prems(2) s] step_length [OF less.prems(2) s] by linarith
    then have "Q off' p1 m1 p2 m2 rs2"
      using less.hyps w1 inv1 by blast
    with step [OF less.prems(2) inv1 s w1] e show ?thesis by simp
  qed
qed

lemma walk_length:
  "walk step off p m = ret (p', m', rs) \<Longrightarrow> inv p m \<Longrightarrow> length p' = length p"
  by (induction rule: walk_induct) (auto dest: step_length)

lemma walk_inv:
  "walk step off p m = ret (p', m', rs) \<Longrightarrow> inv p m \<Longrightarrow> inv p' m'"
  by (induction rule: walk_induct) auto

lemma walk_rel:
  "walk step off p m = ret (p', m', rs) \<Longrightarrow> inv p m \<Longrightarrow> rel m m'"
  by (induction rule: walk_induct) (auto intro: rel_refl rel_trans dest: step_rel)

end

section \<open>The trait \<open>OtMutator\<close>\<close>

text \<open>A mutator may change the payload bytes only.\<close>

definition payload_edit :: "parsed_frame \<Rightarrow> parsed_frame \<Rightarrow> bool" where
  "payload_edit f f' \<longleftrightarrow>
     pf_ok f' \<and> pf_layout f' = pf_layout f \<and> length (pf_buf f') = length (pf_buf f) \<and>
     take (fl_payload (pf_layout f)) (pf_buf f') = take (fl_payload (pf_layout f)) (pf_buf f) \<and>
     drop (fl_end (pf_layout f)) (pf_buf f') = drop (fl_end (pf_layout f)) (pf_buf f)"

lemma payload_edit_refl [simp]: "payload_edit f f = pf_ok f"
  by (simp add: payload_edit_def)

locale ot_mutator =
  fixes matches :: "parsed_frame \<Rightarrow> bool exec"
    and mutate :: "parsed_frame \<Rightarrow> 'm \<Rightarrow> (parsed_frame \<times> 'm \<times> report list) exec"
    and inv :: "'m \<Rightarrow> bool"
  assumes matches_total: "pf_ok f \<Longrightarrow> \<exists>b. matches f = ret b"
    and mutate_total: "pf_ok f \<Longrightarrow> inv m \<Longrightarrow> \<exists>f' m' rs. mutate f m = ret (f', m', rs)"
    and mutate_edit: "pf_ok f \<Longrightarrow> inv m \<Longrightarrow> mutate f m = ret (f', m', rs) \<Longrightarrow> payload_edit f f'"
    and mutate_inv: "pf_ok f \<Longrightarrow> inv m \<Longrightarrow> mutate f m = ret (f', m', rs) \<Longrightarrow> inv m'"
begin

text \<open>A dispatched frame still parses to the same layout, so its checksums can be recomputed.\<close>

lemma mutate_recompute:
  assumes "pf_ok f" and "inv m" and "mutate f m = ret (f', m', rs)"
  shows "\<exists>b. recompute_checksums (pf_buf f') (pf_layout f') = ret b \<and>
    length b = length (pf_buf f) \<and> parse_layout b = ret (Some (pf_layout f))"
proof -
  have e: "payload_edit f f'" using assms by (rule mutate_edit)
  then have "parse_layout (pf_buf f') = ret (Some (pf_layout f'))"
    by (simp add: payload_edit_def pf_ok_def)
  from recompute_checksums_safe [OF this] e show ?thesis
    by (auto simp: agree_on_def payload_edit_def)
qed

end

end
