(* ===== verification/Mutators.thy ===== *)
theory Mutators
  imports Walk
begin

text \<open>
  \<open>src/proto/mutators/\<close>: the Modbus, EtherNet/IP, S7comm and DNP3 payload mutators and
  their registry.  Each loop body is a \<open>_step\<close>, each loop a \<open>walk\<close> over it.

  Parameters: \<open>gen\<close> is the generator of the mapper; \<open>crc\<close> is the CRC-16/DNP of the \<open>crc\<close>
  crate (\<open>src/proto/crc.rs\<close> only calls it); the CIP identities of \<open>Enip\<close> come from a TOML
  file, so they are an argument.
\<close>

section \<open>Ports\<close>

text \<open>\<open>f.src_port() == Some(P) || f.dst_port() == Some(P)\<close>, for a set of ports.\<close>

definition on_port :: "u16 list \<Rightarrow> parsed_frame \<Rightarrow> bool exec" where
  "on_port ports f = do {
     sp \<leftarrow> src_port f;
     if (case sp of None \<Rightarrow> False | Some x \<Rightarrow> x \<in> set ports) then ret True
     else do {
       dp \<leftarrow> dst_port f;
       ret (case dp of None \<Rightarrow> False | Some x \<Rightarrow> x \<in> set ports)
     }
   }"

section \<open>Modbus/TCP\<close>

definition modbus_matches :: "parsed_frame \<Rightarrow> bool exec" where
  "modbus_matches f =
     (if fl_l4_kind (pf_layout f) \<noteq> L4_Tcp then ret False
      else do {
        on \<leftarrow> on_port [502] f;
        p \<leftarrow> payload_of f;
        if on \<and> 8 \<le> length p then do {
          p2 \<leftarrow> rd p 2;
          p3 \<leftarrow> rd p 3;
          ret (p2 = 0 \<and> p3 = 0)
        } else ret False
      })"

definition modbus_step :: "'r gen \<Rightarrow> nat \<Rightarrow> bytes \<Rightarrow> 'r mapper \<Rightarrow> 'r mapper step_result" where
  "modbus_step gen off p m =
     (if off + 7 \<le> length p then do {
        p2 \<leftarrow> rd p (off + 2);
        p3 \<leftarrow> rd p (off + 3);
        if p2 \<noteq> 0 \<or> p3 \<noteq> 0 then ret None
        else do {
          l0 \<leftarrow> rd p (off + 4);
          l1 \<leftarrow> rd p (off + 5);
          let len = unat (be16 l0 l1);
          if len = 0 then ret None
          else do {
            orig \<leftarrow> rd p (off + 6);
            let (new, m) = map_u8 gen m ModbusUnitId orig;
            if new \<noteq> orig then do {
              p \<leftarrow> wr p (off + 6) new;
              ret (Some (off + (6 + len), p, m,
                [\<lparr>rp_protocol = Modbus, rp_field = ''unit_id'', rp_original = ucast orig,
                  rp_new = ucast new\<rparr>]))
            } else ret (Some (off + (6 + len), p, m, []))
          }
        }
      } else ret None)"

definition modbus_mutate ::
  "'r gen \<Rightarrow> parsed_frame \<Rightarrow> 'r mapper \<Rightarrow> (parsed_frame \<times> 'r mapper \<times> report list) exec" where
  "modbus_mutate gen f m = do {
     p \<leftarrow> payload_of f;
     (p, m, rs) \<leftarrow> walk (modbus_step gen) 0 p m;
     f \<leftarrow> set_payload f p;
     ret (f, m, rs)
   }"

section \<open>DNP3\<close>

definition dnp3_report :: "string \<Rightarrow> u16 \<Rightarrow> u16 \<Rightarrow> report" where
  "dnp3_report field orig new =
     \<lparr>rp_protocol = Dnp3, rp_field = field, rp_original = ucast orig, rp_new = ucast new\<rparr>"

definition dnp3_matches :: "parsed_frame \<Rightarrow> bool exec" where
  "dnp3_matches f =
     (if fl_l4_kind (pf_layout f) = L4_Other then ret False
      else do {
        on \<leftarrow> on_port [20000] f;
        p \<leftarrow> payload_of f;
        if on \<and> 10 \<le> length p then do {
          p0 \<leftarrow> rd p 0;
          p1 \<leftarrow> rd p 1;
          ret (p0 = 0x05 \<and> p1 = 0x64)
        } else ret False
      })"

text \<open>One address field: read, map, write back when it changed.\<close>

definition dnp3_addr ::
  "'r gen \<Rightarrow> string \<Rightarrow> nat \<Rightarrow> bytes \<Rightarrow> 'r mapper \<Rightarrow> (bytes \<times> 'r mapper \<times> report list) exec" where
  "dnp3_addr gen field at p m = do {
     a \<leftarrow> rd p at;
     b \<leftarrow> rd p (at + 1);
     let orig = le16 a b;
     let (new, m) = map_u16 gen m Dnp3Addr orig;
     if new \<noteq> orig then do {
       p \<leftarrow> put_slice p at (at + 2) (to_le16 new);
       ret (p, m, [dnp3_report field orig new])
     } else ret (p, m, [])
   }"

definition dnp3_step ::
  "(bytes \<Rightarrow> u16) \<Rightarrow> 'r gen \<Rightarrow> nat \<Rightarrow> bytes \<Rightarrow> 'r mapper \<Rightarrow> 'r mapper step_result" where
  "dnp3_step crc gen off p m =
     (if off + 10 \<le> length p then do {
        s0 \<leftarrow> rd p off;
        s1 \<leftarrow> rd p (off + 1);
        if s0 \<noteq> 0x05 \<or> s1 \<noteq> 0x64 then ret None
        else do {
          lb \<leftarrow> rd p (off + 2);
          let len = unat lb;
          if len < 5 then ret None
          else do {
            (p, m, rs1) \<leftarrow> dnp3_addr gen ''dst'' (off + 4) p m;
            (p, m, rs2) \<leftarrow> dnp3_addr gen ''src'' (off + 6) p m;
            hdr \<leftarrow> slice p off (off + 8);
            p \<leftarrow> put_slice p (off + 8) (off + 10) (to_le16 (crc hdr));
            let user = len - 5;
            let blocks = (user + 15) div 16;
            ret (Some (off + (10 + user + 2 * blocks), p, m, rs1 @ rs2))
          }
        }
      } else ret None)"

definition dnp3_mutate ::
  "(bytes \<Rightarrow> u16) \<Rightarrow> 'r gen \<Rightarrow> parsed_frame \<Rightarrow> 'r mapper \<Rightarrow>
   (parsed_frame \<times> 'r mapper \<times> report list) exec" where
  "dnp3_mutate crc gen f m = do {
     p \<leftarrow> payload_of f;
     (p, m, rs) \<leftarrow> walk (dnp3_step crc gen) 0 p m;
     f \<leftarrow> set_payload f p;
     ret (f, m, rs)
   }"

section \<open>S7comm\<close>

definition s7_matches :: "parsed_frame \<Rightarrow> bool exec" where
  "s7_matches f =
     (if fl_l4_kind (pf_layout f) \<noteq> L4_Tcp then ret False
      else do {
        on \<leftarrow> on_port [102] f;
        p \<leftarrow> payload_of f;
        if on \<and> 6 \<le> length p then do {
          p0 \<leftarrow> rd p 0;
          ret (p0 = 0x03)
        } else ret False
      })"

text \<open>One COTP parameter at offset \<open>k\<close>; only two-byte TSAPs are mapped.\<close>

definition s7_step :: "'r gen \<Rightarrow> nat \<Rightarrow> nat \<Rightarrow> bytes \<Rightarrow> 'r mapper \<Rightarrow> 'r mapper step_result" where
  "s7_step gen cotp_end k p m =
     (if k + 2 \<le> cotp_end then do {
        code \<leftarrow> rd p k;
        pl \<leftarrow> rd p (k + 1);
        let plen = unat pl;
        let val = k + 2;
        if cotp_end < val + plen then ret None
        else if (code = 0xC2 \<or> code = 0xC1) \<and> plen = 2 then do {
          let (dm, field) =
            (if code = 0xC2 then (S7ModuleId, ''called_tsap'') else (S7Serial, ''calling_tsap''));
          a \<leftarrow> rd p val;
          b \<leftarrow> rd p (val + 1);
          let orig = be16 a b;
          let (new, m) = map_u16 gen m dm orig;
          if new \<noteq> orig then do {
            p \<leftarrow> put_slice p val (val + 2) (to_be16 new);
            ret (Some (val + plen, p, m,
              [\<lparr>rp_protocol = S7, rp_field = field, rp_original = ucast orig, rp_new = ucast new\<rparr>]))
          } else ret (Some (val + plen, p, m, []))
        } else ret (Some (val + plen, p, m, []))
      } else ret None)"

definition s7_payload ::
  "'r gen \<Rightarrow> bytes \<Rightarrow> 'r mapper \<Rightarrow> (bytes \<times> 'r mapper \<times> report list) exec" where
  "s7_payload gen p m =
     (if length p < 7 then ret (p, m, [])
      else do {
        p0 \<leftarrow> rd p 0;
        if p0 \<noteq> 0x03 then ret (p, m, [])
        else do {
          cl \<leftarrow> rd p 4;
          pdu_type \<leftarrow> rd p 5;
          let cotp_len = unat cl;
          if pdu_type \<noteq> 0xE0 \<and> pdu_type \<noteq> 0xD0 then ret (p, m, [])
          else walk (s7_step gen (min (5 + cotp_len) (length p))) 11 p m
        }
      })"

definition s7_mutate ::
  "'r gen \<Rightarrow> parsed_frame \<Rightarrow> 'r mapper \<Rightarrow> (parsed_frame \<times> 'r mapper \<times> report list) exec" where
  "s7_mutate gen f m = do {
     p \<leftarrow> payload_of f;
     (p, m, rs) \<leftarrow> s7_payload gen p m;
     f \<leftarrow> set_payload f p;
     ret (f, m, rs)
   }"

section \<open>EtherNet/IP\<close>

record enip_id =
  ei_vendor :: u16
  ei_device_type :: u16
  ei_product_code :: u16

definition enip_matches :: "parsed_frame \<Rightarrow> bool exec" where
  "enip_matches f =
     (if fl_l4_kind (pf_layout f) = L4_Other then ret False
      else do {
        on \<leftarrow> on_port [44818, 2222] f;
        p \<leftarrow> payload_of f;
        if on \<and> 26 \<le> length p then do {
          p0 \<leftarrow> rd p 0;
          p1 \<leftarrow> rd p 1;
          ret (le16 p0 p1 = 0x0063)
        } else ret False
      })"

definition set_u16_le :: "bytes \<Rightarrow> nat \<Rightarrow> u16 \<Rightarrow> string \<Rightarrow> (bytes \<times> report list) exec" where
  "set_u16_le p at new field =
     (if length p < at + 2 then ret (p, [])
      else do {
        a \<leftarrow> rd p at;
        b \<leftarrow> rd p (at + 1);
        let orig = le16 a b;
        if new \<noteq> orig then do {
          p \<leftarrow> put_slice p at (at + 2) (to_le16 new);
          ret (p, [\<lparr>rp_protocol = Enip, rp_field = field, rp_original = ucast orig,
            rp_new = ucast new\<rparr>])
        } else ret (p, [])
      })"

definition remap_u32_le ::
  "'r gen \<Rightarrow> bytes \<Rightarrow> nat \<Rightarrow> domain \<Rightarrow> string \<Rightarrow> 'r mapper \<Rightarrow> (bytes \<times> 'r mapper \<times> report list) exec"
where
  "remap_u32_le gen p at dm field m =
     (if length p < at + 4 then ret (p, m, [])
      else do {
        a \<leftarrow> rd p at;
        b \<leftarrow> rd p (at + 1);
        c \<leftarrow> rd p (at + 2);
        d \<leftarrow> rd p (at + 3);
        let orig = le32 a b c d;
        let (new, m) = map_u32 gen m dm orig;
        if new \<noteq> orig then do {
          p \<leftarrow> put_slice p at (at + 4) (to_le32 new);
          ret (p, m, [\<lparr>rp_protocol = Enip, rp_field = field, rp_original = ucast orig,
            rp_new = ucast new\<rparr>])
        } else ret (p, m, [])
      })"

text \<open>The edits of one CIP identity item whose data starts at \<open>data\<close>.\<close>

definition enip_identity ::
  "'r gen \<Rightarrow> enip_id list \<Rightarrow> nat \<Rightarrow> bytes \<Rightarrow> 'r mapper \<Rightarrow> (bytes \<times> 'r mapper \<times> report list) exec"
where
  "enip_identity gen ids data p m = do {
     (p, m, rs) \<leftarrow>
       (if ids \<noteq> [] then do {
          a \<leftarrow> rd p (data + 18);
          b \<leftarrow> rd p (data + 19);
          let (v, m) = map_u16 gen m EnipVendor (le16 a b);
          i \<leftarrow> rd ids (unat v mod length ids);
          (p, rs1) \<leftarrow> set_u16_le p (data + 18) (ei_vendor i) ''vendor_id'';
          (p, rs2) \<leftarrow> set_u16_le p (data + 20) (ei_device_type i) ''device_type'';
          (p, rs3) \<leftarrow> set_u16_le p (data + 22) (ei_product_code i) ''product_code'';
          ret (p, m, rs1 @ rs2 @ rs3)
        } else ret (p, m, []));
     (p, m, rs4) \<leftarrow> remap_u32_le gen p (data + 28) EnipSerial ''serial'' m;
     ret (p, m, rs @ rs4)
   }"

text \<open>The item loop \<open>for _ in 0..item_count\<close>.\<close>

fun enip_items ::
  "'r gen \<Rightarrow> enip_id list \<Rightarrow> nat \<Rightarrow> nat \<Rightarrow> bytes \<Rightarrow> 'r mapper \<Rightarrow> (bytes \<times> 'r mapper \<times> report list) exec"
where
  "enip_items gen ids 0 off p m = ret (p, m, [])"
| "enip_items gen ids (Suc n) off p m =
     (if length p < off + 4 then ret (p, m, [])
      else do {
        t0 \<leftarrow> rd p off;
        t1 \<leftarrow> rd p (off + 1);
        l0 \<leftarrow> rd p (off + 2);
        l1 \<leftarrow> rd p (off + 3);
        let item_type = le16 t0 t1;
        let item_len = unat (le16 l0 l1);
        let data = off + 4;
        (p, m, rs) \<leftarrow>
          (if item_type = 0x000C \<and> data + 32 \<le> length p then enip_identity gen ids data p m
           else ret (p, m, []));
        (p, m, rs') \<leftarrow> enip_items gen ids n (data + item_len) p m;
        ret (p, m, rs @ rs')
      })"

definition enip_payload ::
  "'r gen \<Rightarrow> enip_id list \<Rightarrow> bytes \<Rightarrow> 'r mapper \<Rightarrow> (bytes \<times> 'r mapper \<times> report list) exec" where
  "enip_payload gen ids p m =
     (if length p < 26 then ret (p, m, [])
      else do {
        p0 \<leftarrow> rd p 0;
        p1 \<leftarrow> rd p 1;
        if le16 p0 p1 \<noteq> 0x0063 then ret (p, m, [])
        else do {
          c0 \<leftarrow> rd p 24;
          c1 \<leftarrow> rd p 25;
          enip_items gen ids (unat (le16 c0 c1)) 26 p m
        }
      })"

definition enip_mutate ::
  "'r gen \<Rightarrow> enip_id list \<Rightarrow> parsed_frame \<Rightarrow> 'r mapper \<Rightarrow>
   (parsed_frame \<times> 'r mapper \<times> report list) exec" where
  "enip_mutate gen ids f m = do {
     p \<leftarrow> payload_of f;
     (p, m, rs) \<leftarrow> enip_payload gen ids p m;
     f \<leftarrow> set_payload f p;
     ret (f, m, rs)
   }"

section \<open>The registry\<close>

datatype mutator = M_Modbus | M_Enip "enip_id list" | M_S7 | M_Dnp3

fun mut_protocol :: "mutator \<Rightarrow> protocol" where
  "mut_protocol M_Modbus = Modbus"
| "mut_protocol (M_Enip ids) = Enip"
| "mut_protocol M_S7 = S7"
| "mut_protocol M_Dnp3 = Dnp3"

fun mut_matches :: "mutator \<Rightarrow> parsed_frame \<Rightarrow> bool exec" where
  "mut_matches M_Modbus f = modbus_matches f"
| "mut_matches (M_Enip ids) f = enip_matches f"
| "mut_matches M_S7 f = s7_matches f"
| "mut_matches M_Dnp3 f = dnp3_matches f"

fun mut_mutate ::
  "(bytes \<Rightarrow> u16) \<Rightarrow> 'r gen \<Rightarrow> mutator \<Rightarrow> parsed_frame \<Rightarrow> 'r mapper \<Rightarrow>
   (parsed_frame \<times> 'r mapper \<times> report list) exec" where
  "mut_mutate crc gen M_Modbus f m = modbus_mutate gen f m"
| "mut_mutate crc gen (M_Enip ids) f m = enip_mutate gen ids f m"
| "mut_mutate crc gen M_S7 f m = s7_mutate gen f m"
| "mut_mutate crc gen M_Dnp3 f m = dnp3_mutate crc gen f m"

definition all_mutators :: "enip_id list \<Rightarrow> mutator list" where
  "all_mutators ids = [M_Modbus, M_Enip ids, M_S7, M_Dnp3]"

definition for_protocol :: "enip_id list \<Rightarrow> protocol option \<Rightarrow> mutator list" where
  "for_protocol ids p =
     (case p of
        None \<Rightarrow> all_mutators ids
      | Some want \<Rightarrow> filter (\<lambda>m. mut_protocol m = want) (all_mutators ids))"

section \<open>Matching\<close>

lemma port_at_total:
  assumes "pf_ok f" and "k \<le> 2"
  shows "\<exists>r. port_at f k = ret r"
  using pf_ok_layout [OF assms(1)] assms(2)
  by (cases "fl_l4_kind (pf_layout f)") (auto simp: port_at_def layout_ok_def exec_simps)

lemma on_port_total: "pf_ok f \<Longrightarrow> \<exists>b. on_port ports f = ret b"
  using port_at_total [of f 0] port_at_total [of f 2]
  by (auto simp: on_port_def src_port_def dst_port_def)

lemma payload_of_total:
  "pf_ok f \<Longrightarrow> payload_of f = ret (take (fl_end (pf_layout f) - fl_payload (pf_layout f))
     (drop (fl_payload (pf_layout f)) (pf_buf f)))"
  using pf_ok_layout [of f] by (auto simp: payload_of_def layout_ok_def slice_ok)

lemma length_payload_of:
  "pf_ok f \<Longrightarrow> payload_of f = ret p \<Longrightarrow>
   length p = fl_end (pf_layout f) - fl_payload (pf_layout f)"
  using pf_ok_layout [of f] by (auto simp: payload_of_total layout_ok_def)

text \<open>Every \<open>matches\<close> has this shape: a port test, then a look at the payload.\<close>

lemma port_payload_total:
  assumes "pf_ok f" and "\<And>on p. \<exists>b. g on p = ret b"
  shows "\<exists>b. do { on \<leftarrow> on_port ports f; p \<leftarrow> payload_of f; g on p } = ret b"
proof -
  obtain on where "on_port ports f = ret on" using on_port_total [OF assms(1)] by blast
  with payload_of_total [OF assms(1)] assms(2) show ?thesis by simp
qed

lemma if_total: "(\<not> c \<Longrightarrow> \<exists>b. x = ret b) \<Longrightarrow> \<exists>b. (if c then ret y else x) = ret b"
  by simp

lemma modbus_matches_total: "pf_ok f \<Longrightarrow> \<exists>b. modbus_matches f = ret b"
  unfolding modbus_matches_def
  by (rule if_total, rule port_payload_total) (auto simp: exec_simps rd_0 split: list.splits)

lemma dnp3_matches_total: "pf_ok f \<Longrightarrow> \<exists>b. dnp3_matches f = ret b"
  unfolding dnp3_matches_def
  by (rule if_total, rule port_payload_total) (auto simp: exec_simps rd_0 split: list.splits)

lemma s7_matches_total: "pf_ok f \<Longrightarrow> \<exists>b. s7_matches f = ret b"
  unfolding s7_matches_def
  by (rule if_total, rule port_payload_total) (auto simp: exec_simps rd_0 split: list.splits)

lemma enip_matches_total: "pf_ok f \<Longrightarrow> \<exists>b. enip_matches f = ret b"
  unfolding enip_matches_def
  by (rule if_total, rule port_payload_total) (auto simp: exec_simps rd_0 split: list.splits)

section \<open>The walks\<close>

definition mapper_inv :: "'r gen \<Rightarrow> 'r mapper \<Rightarrow> bool" where
  "mapper_inv gen m \<longleftrightarrow> gen_ok gen \<and> mapper_ok m"

lemma map_u8_inv:
  "mapper_inv gen m \<Longrightarrow> map_u8 gen m ModbusUnitId b = (w, m') \<Longrightarrow> mapper_inv gen m' \<and> extends m m'"
  by (auto simp: mapper_inv_def dest: map_u8_ok)

lemma map_u16_inv:
  "mapper_inv gen m \<Longrightarrow> dom_max d = 0xffff \<Longrightarrow> map_u16 gen m d b = (w, m') \<Longrightarrow>
   mapper_inv gen m' \<and> extends m m'"
  by (auto simp: mapper_inv_def dest: map_u16_ok)

lemma map_u32_inv:
  "mapper_inv gen m \<Longrightarrow> map_u32 gen m EnipSerial b = (w, m') \<Longrightarrow> mapper_inv gen m' \<and> extends m m'"
  by (auto simp: mapper_inv_def dest: map_u32_ok)

subsection \<open>Modbus\<close>

lemma modbus_step_total: "\<exists>r. modbus_step gen off p m = ret r"
  by (auto simp: modbus_step_def exec_simps Let_def split: prod.splits)

lemma modbus_step_Some:
  assumes "modbus_step gen off p m = ret (Some (off', p', m', rs))"
  obtains new where "off + 7 \<le> length p" and "p ! (off + 2) = 0" and "p ! (off + 3) = 0"
    and "unat (be16 (p ! (off + 4)) (p ! (off + 5))) \<noteq> 0"
    and "off' = off + (6 + unat (be16 (p ! (off + 4)) (p ! (off + 5))))"
    and "map_u8 gen m ModbusUnitId (p ! (off + 6)) = (new, m')"
    and "p' = p[off + 6 := new]"
    and "rs = [] \<longleftrightarrow> new = p ! (off + 6)"
proof -
  obtain new m1 where n: "map_u8 gen m ModbusUnitId (p ! (off + 6)) = (new, m1)"
    by (cases "map_u8 gen m ModbusUnitId (p ! (off + 6))")
  with assms show thesis
    by (intro that [of new]) (auto simp: modbus_step_def exec_simps Let_def split: if_splits)
qed

interpretation mb: walker "modbus_step gen" "\<lambda>_. mapper_inv gen" extends for gen
proof
  fix m m' :: "'a mapper" and off off' p p' rs
  show "\<exists>r. modbus_step gen off p m = ret r" by (rule modbus_step_total)
  assume i: "mapper_inv gen m" and s: "modbus_step gen off p m = ret (Some (off', p', m', rs))"
  obtain new where *: "off + 7 \<le> length p" "map_u8 gen m ModbusUnitId (p ! (off + 6)) = (new, m')"
    "p' = p[off + 6 := new]" "off' = off + (6 + unat (be16 (p ! (off + 4)) (p ! (off + 5))))"
    using s by (rule modbus_step_Some)
  show "off < off' \<and> off < length p" and "length p' = length p"
    using * by simp_all
  show "mapper_inv gen m'" and "extends m m'"
    using map_u8_inv [OF i *(2)] by simp_all
qed (auto intro: extends_trans)

subsection \<open>DNP3\<close>

lemma put_slice_le16:
  "at + 2 \<le> length p \<Longrightarrow> put_slice p at (at + 2) (to_le16 w) = ret (splice p at (to_le16 w))"
  by (simp add: put_slice_ok)

lemma dnp3_addr_eq:
  assumes "at + 2 \<le> length p"
    and "map_u16 gen m Dnp3Addr (le16 (p ! at) (p ! (at + 1))) = (new, m')"
  shows "dnp3_addr gen field at p m = ret
    (if new \<noteq> le16 (p ! at) (p ! (at + 1))
     then (splice p at (to_le16 new), m', [dnp3_report field (le16 (p ! at) (p ! (at + 1))) new])
     else (p, m', []))"
  using assms by (simp add: dnp3_addr_def exec_simps put_slice_le16 del: numeral_eq_Suc)

lemma to_le16_le16 [simp]: "to_le16 (le16 a b) = [a, b]"
  by (simp add: to_le16_def le16_def)

lemma splice_same: "i + length vs \<le> length buf \<Longrightarrow> take (length vs) (drop i buf) = vs \<Longrightarrow> splice buf i vs = buf"
  by (metis append_take_drop_id drop_drop splice_def add.commute)

lemma take2_drop: "i + 2 \<le> length p \<Longrightarrow> take 2 (drop i p) = [p ! i, p ! (i + 1)]"
  by (simp add: list_eq_iff_nth_eq nth_Cons' less_Suc_eq numeral_2_eq_2)

lemma splice_le16_same:
  "i + 2 \<le> length p \<Longrightarrow> splice p i (to_le16 (le16 (p ! i) (p ! (i + 1)))) = p"
  by (rule splice_same) (simp_all add: take2_drop [unfolded numeral_2_eq_2 add_2_eq_Suc'])

text \<open>Writing an unchanged value is writing nothing, so the two branches are one.\<close>

lemma dnp3_addr_splice:
  assumes "at + 2 \<le> length p"
    and "map_u16 gen m Dnp3Addr (le16 (p ! at) (p ! (at + 1))) = (new, m')"
  obtains rs where "dnp3_addr gen field at p m = ret (splice p at (to_le16 new), m', rs)"
    and "rs = [] \<longleftrightarrow> new = le16 (p ! at) (p ! (at + 1))"
proof (cases "new = le16 (p ! at) (p ! (at + 1))")
  case True
  then have "splice p at (to_le16 new) = p"
    using splice_le16_same [OF assms(1)] by simp
  with True dnp3_addr_eq [OF assms] that show thesis by simp
next
  case False
  with dnp3_addr_eq [OF assms] that show thesis by simp
qed

definition dnp3_user :: "u8 \<Rightarrow> nat" where
  "dnp3_user lb = unat lb - 5 + 2 * ((unat lb - 5 + 15) div 16)"

lemma dnp3_step_eq:
  assumes len: "off + 10 \<le> length p" and "p ! off = 0x05" and "p ! (off + 1) = 0x64"
    and "5 \<le> unat (p ! (off + 2))"
    and d: "map_u16 gen m Dnp3Addr (le16 (p ! (off + 4)) (p ! (off + 5))) = (nd, m1)"
    and s: "map_u16 gen m1 Dnp3Addr (le16 (p ! (off + 6)) (p ! (off + 7))) = (ns, m2)"
  obtains rs where "dnp3_step crc gen off p m = ret (Some (off + (10 + dnp3_user (p ! (off + 2))),
      (let q = splice (splice p (off + 4) (to_le16 nd)) (off + 6) (to_le16 ns)
       in splice q (off + 8) (to_le16 (crc (take 8 (drop off q))))), m2, rs))"
proof -
  let ?p1 = "splice p (off + 4) (to_le16 nd)"
  have d': "map_u16 gen m Dnp3Addr (le16 (p ! (off + 4)) (p ! (off + 4 + 1))) = (nd, m1)"
    using d by (simp add: numeral_eq_Suc)
  obtain rs1 where 1: "dnp3_addr gen ''dst'' (off + 4) p m = ret (?p1, m1, rs1)"
    by (rule dnp3_addr_splice [OF _ d', of "''dst''"]) (use len in simp_all)
  have len1: "length ?p1 = length p" using len by simp
  have s': "map_u16 gen m1 Dnp3Addr (le16 (?p1 ! (off + 6)) (?p1 ! (off + 6 + 1))) = (ns, m2)"
    using s len by (simp add: numeral_eq_Suc)
  obtain rs2 where 2: "dnp3_addr gen ''src'' (off + 6) ?p1 m1
      = ret (splice ?p1 (off + 6) (to_le16 ns), m2, rs2)"
    by (rule dnp3_addr_splice [OF _ s', of "''src''"]) (use len len1 in simp_all)
  show thesis
    using assms(1-4) 1 2 len1
    by (intro that [of "rs1 @ rs2"])
      (simp add: dnp3_step_def exec_simps Let_def dnp3_user_def)
qed

lemma dnp3_addr_total:
  "mapper_inv gen m \<Longrightarrow> at + 2 \<le> length p \<Longrightarrow>
   \<exists>p' m' rs. dnp3_addr gen field at p m = ret (p', m', rs) \<and> length p' = length p \<and>
     mapper_inv gen m' \<and> extends m m'"
proof -
  assume i: "mapper_inv gen m" and len: "at + 2 \<le> length p"
  obtain new m' where n: "map_u16 gen m Dnp3Addr (le16 (p ! at) (p ! (at + 1))) = (new, m')"
    by (cases "map_u16 gen m Dnp3Addr (le16 (p ! at) (p ! (at + 1)))")
  obtain rs where "dnp3_addr gen field at p m = ret (splice p at (to_le16 new), m', rs)"
    using len n by (rule dnp3_addr_splice)
  with map_u16_inv [OF i _ n] len show ?thesis by simp
qed

text \<open>A step that goes on stands on a link header, and its effect is the one of \<open>dnp3_step_eq\<close>.\<close>

lemma dnp3_step_guards:
  "dnp3_step crc gen off p m = ret (Some t) \<Longrightarrow>
   off + 10 \<le> length p \<and> p ! off = 0x05 \<and> p ! (off + 1) = 0x64 \<and> 5 \<le> unat (p ! (off + 2))"
  by (auto simp: dnp3_step_def exec_simps Let_def not_less split: if_splits)

lemma dnp3_step_Some:
  assumes "dnp3_step crc gen off p m = ret (Some (off', p', m', rs))"
  obtains nd ns m1 where "off + 10 \<le> length p" and "p ! off = 0x05" and "p ! (off + 1) = 0x64"
    and "5 \<le> unat (p ! (off + 2))" and "off' = off + (10 + dnp3_user (p ! (off + 2)))"
    and "map_u16 gen m Dnp3Addr (le16 (p ! (off + 4)) (p ! (off + 5))) = (nd, m1)"
    and "map_u16 gen m1 Dnp3Addr (le16 (p ! (off + 6)) (p ! (off + 7))) = (ns, m')"
    and "p' = (let q = splice (splice p (off + 4) (to_le16 nd)) (off + 6) (to_le16 ns)
       in splice q (off + 8) (to_le16 (crc (take 8 (drop off q)))))"
proof -
  note g = dnp3_step_guards [OF assms]
  obtain nd m1 where d: "map_u16 gen m Dnp3Addr (le16 (p ! (off + 4)) (p ! (off + 5))) = (nd, m1)"
    by (cases "map_u16 gen m Dnp3Addr (le16 (p ! (off + 4)) (p ! (off + 5)))")
  obtain ns m2 where s: "map_u16 gen m1 Dnp3Addr (le16 (p ! (off + 6)) (p ! (off + 7))) = (ns, m2)"
    by (cases "map_u16 gen m1 Dnp3Addr (le16 (p ! (off + 6)) (p ! (off + 7)))")
  obtain rs' where "dnp3_step crc gen off p m = ret (Some (off + (10 + dnp3_user (p ! (off + 2))),
      (let q = splice (splice p (off + 4) (to_le16 nd)) (off + 6) (to_le16 ns)
       in splice q (off + 8) (to_le16 (crc (take 8 (drop off q))))), m2, rs'))"
    using g by (elim conjE) (rule dnp3_step_eq [OF _ _ _ _ d s])
  with assms d s g that show thesis by simp
qed

lemma dnp3_step_total:
  assumes "mapper_inv gen m"
  shows "\<exists>r. dnp3_step crc gen off p m = ret r"
proof (cases "off + 10 \<le> length p \<and> p ! off = 0x05 \<and> p ! (off + 1) = 0x64 \<and> 5 \<le> unat (p ! (off + 2))")
  case True
  obtain nd m1 where d: "map_u16 gen m Dnp3Addr (le16 (p ! (off + 4)) (p ! (off + 5))) = (nd, m1)"
    by (cases "map_u16 gen m Dnp3Addr (le16 (p ! (off + 4)) (p ! (off + 5)))")
  obtain ns m2 where s: "map_u16 gen m1 Dnp3Addr (le16 (p ! (off + 6)) (p ! (off + 7))) = (ns, m2)"
    by (cases "map_u16 gen m1 Dnp3Addr (le16 (p ! (off + 6)) (p ! (off + 7)))")
  from dnp3_step_eq [OF _ _ _ _ d s] True show ?thesis by blast
next
  case False
  then show ?thesis by (auto simp: dnp3_step_def exec_simps Let_def)
qed

interpretation dn: walker "dnp3_step crc gen" "\<lambda>_. mapper_inv gen" extends for crc gen
proof
  fix m m' :: "'a mapper" and off off' p p' rs
  assume i: "mapper_inv gen m"
  show "\<exists>r. dnp3_step crc gen off p m = ret r" using i by (rule dnp3_step_total)
  assume s: "dnp3_step crc gen off p m = ret (Some (off', p', m', rs))"
  obtain nd ns m1 where *: "off + 10 \<le> length p" "off' = off + (10 + dnp3_user (p ! (off + 2)))"
    "map_u16 gen m Dnp3Addr (le16 (p ! (off + 4)) (p ! (off + 5))) = (nd, m1)"
    "map_u16 gen m1 Dnp3Addr (le16 (p ! (off + 6)) (p ! (off + 7))) = (ns, m')"
    "p' = (let q = splice (splice p (off + 4) (to_le16 nd)) (off + 6) (to_le16 ns)
       in splice q (off + 8) (to_le16 (crc (take 8 (drop off q)))))"
    using s by (rule dnp3_step_Some)
  show "off < off' \<and> off < length p" and "length p' = length p"
    using * by (simp_all add: Let_def)
  have 1: "mapper_inv gen m1 \<and> extends m m1" using map_u16_inv [OF i _ *(3)] by simp
  then have 2: "mapper_inv gen m' \<and> extends m1 m'" using map_u16_inv [OF _ _ *(4)] by simp
  from 1 2 show "mapper_inv gen m'" and "extends m m'" by (auto intro: extends_trans)
qed (auto intro: extends_trans)

subsection \<open>S7comm\<close>

definition s7_inv :: "'r gen \<Rightarrow> nat \<Rightarrow> bytes \<Rightarrow> 'r mapper \<Rightarrow> bool" where
  "s7_inv gen cotp_end p m \<longleftrightarrow> cotp_end \<le> length p \<and> mapper_inv gen m"

lemma s7_step_total:
  "cotp_end \<le> length p \<Longrightarrow> \<exists>r. s7_step gen cotp_end k p m = ret r"
  by (auto simp: s7_step_def exec_simps Let_def split: prod.splits)

lemma s7_step_Some:
  assumes "s7_step gen cotp_end k p m = ret (Some (k', p', m', rs))" and "cotp_end \<le> length p"
  shows "k + 2 \<le> cotp_end" and "k' = k + 2 + unat (p ! (k + 1))" and "k' \<le> cotp_end"
    and "(p' = p \<and> m' = m) \<or>
      (\<exists>dm new. dm \<in> {S7ModuleId, S7Serial} \<and> k + 4 \<le> cotp_end \<and>
         map_u16 gen m dm (be16 (p ! (k + 2)) (p ! (k + 3))) = (new, m') \<and>
         (p' = p \<or> p' = splice p (k + 2) (to_be16 new)))"
proof -
  show "k + 2 \<le> cotp_end" "k' = k + 2 + unat (p ! (k + 1))" "k' \<le> cotp_end"
    using assms by (auto simp: s7_step_def exec_simps Let_def split: if_splits prod.splits)
  obtain n1 m1 where 1: "map_u16 gen m S7ModuleId (be16 (p ! (k + 2)) (p ! (k + 3))) = (n1, m1)"
    by (cases "map_u16 gen m S7ModuleId (be16 (p ! (k + 2)) (p ! (k + 3)))")
  obtain n2 m2 where 2: "map_u16 gen m S7Serial (be16 (p ! (k + 2)) (p ! (k + 3))) = (n2, m2)"
    by (cases "map_u16 gen m S7Serial (be16 (p ! (k + 2)) (p ! (k + 3)))")
  have e: "k + 2 + 1 = k + 3" "k + 2 + 2 = k + 4" by simp_all
  show "(p' = p \<and> m' = m) \<or>
      (\<exists>dm new. dm \<in> {S7ModuleId, S7Serial} \<and> k + 4 \<le> cotp_end \<and>
         map_u16 gen m dm (be16 (p ! (k + 2)) (p ! (k + 3))) = (new, m') \<and>
         (p' = p \<or> p' = splice p (k + 2) (to_be16 new)))"
    using assms 1 2
    by (auto simp: s7_step_def exec_simps Let_def e simp del: nat_shift split: if_splits)
qed

interpretation sw: walker "s7_step gen cotp_end" "s7_inv gen cotp_end" extends for gen cotp_end
proof
  fix m m' :: "'a mapper" and off off' p p' rs
  assume i: "s7_inv gen cotp_end p m"
  show "\<exists>r. s7_step gen cotp_end off p m = ret r"
    using i by (auto simp: s7_inv_def intro: s7_step_total)
  assume s: "s7_step gen cotp_end off p m = ret (Some (off', p', m', rs))"
  have len: "cotp_end \<le> length p" using i by (simp add: s7_inv_def)
  note * = s7_step_Some [OF s len]
  show "off < off' \<and> off < length p" using *(1,2) len by simp
  show l: "length p' = length p" using *(4) len by auto
  have "mapper_inv gen m' \<and> extends m m'"
    using *(4) i by (auto simp: s7_inv_def dest: map_u16_inv [rotated 2])
  then show "s7_inv gen cotp_end p' m'" and "extends m m'"
    using l len by (simp_all add: s7_inv_def)
qed (auto intro: extends_trans)

section \<open>Payload edits\<close>

text \<open>What the four payload routines have in common.\<close>

definition edits ::
  "'r gen \<Rightarrow> bytes \<Rightarrow> 'r mapper \<Rightarrow> (bytes \<times> 'r mapper \<times> report list) exec \<Rightarrow> bool" where
  "edits gen p m r \<longleftrightarrow>
     (\<exists>p' m' rs. r = ret (p', m', rs) \<and> length p' = length p \<and> mapper_inv gen m' \<and> extends m m')"

lemma edits_ret [simp]: "mapper_inv gen m \<Longrightarrow> length p' = length p \<Longrightarrow> edits gen p m (ret (p', m, rs))"
  by (simp add: edits_def)

lemma edits_bind:
  assumes "edits gen p m r"
    and "\<And>p' m' rs. length p' = length p \<Longrightarrow> mapper_inv gen m' \<Longrightarrow> edits gen p' m' (g p' m' rs)"
  shows "edits gen p m (do { (p', m', rs) \<leftarrow> r; (p'', m'', rs') \<leftarrow> g p' m' rs; ret (p'', m'', h rs rs') })"
proof -
  obtain p' m' rs where r: "r = ret (p', m', rs)" "length p' = length p" "mapper_inv gen m'"
    "extends m m'"
    using assms(1) by (auto simp: edits_def)
  then obtain p'' m'' rs' where "g p' m' rs = ret (p'', m'', rs')" "length p'' = length p'"
    "mapper_inv gen m''" "extends m' m''"
    using assms(2) [of p' m' rs] by (auto simp: edits_def)
  with r show ?thesis by (auto simp: edits_def intro: extends_trans)
qed

lemma set_u16_le_total:
  "\<exists>p' rs. set_u16_le p at new field = ret (p', rs) \<and> length p' = length p"
  by (auto simp: set_u16_le_def exec_simps Let_def)

lemma remap_u32_le_edits:
  assumes "mapper_inv gen m"
  shows "edits gen p m (remap_u32_le gen p at EnipSerial field m)"
proof (cases "length p < at + 4")
  case False
  obtain new m' where n: "map_u32 gen m EnipSerial
      (le32 (p ! at) (p ! (at + 1)) (p ! (at + 2)) (p ! (at + 3))) = (new, m')"
    by (cases "map_u32 gen m EnipSerial (le32 (p ! at) (p ! (at + 1)) (p ! (at + 2)) (p ! (at + 3)))")
  with map_u32_inv [OF assms n] False show ?thesis
    by (auto simp: remap_u32_le_def exec_simps Let_def edits_def simp del: nat_shift)
qed (use assms in \<open>simp add: remap_u32_le_def\<close>)

lemma enip_vendor_edits:
  assumes "mapper_inv gen m" and "data + 32 \<le> length p" and "ids \<noteq> []"
  shows "edits gen p m (do {
          a \<leftarrow> rd p (data + 18);
          b \<leftarrow> rd p (data + 19);
          let (v, m) = map_u16 gen m EnipVendor (le16 a b);
          i \<leftarrow> rd ids (unat v mod length ids);
          (p, rs1) \<leftarrow> set_u16_le p (data + 18) (ei_vendor i) ''vendor_id'';
          (p, rs2) \<leftarrow> set_u16_le p (data + 20) (ei_device_type i) ''device_type'';
          (p, rs3) \<leftarrow> set_u16_le p (data + 22) (ei_product_code i) ''product_code'';
          ret (p, m, rs1 @ rs2 @ rs3)
        })"
proof -
  obtain v m' where v: "map_u16 gen m EnipVendor (le16 (p ! (data + 18)) (p ! (data + 19))) = (v, m')"
    by (cases "map_u16 gen m EnipVendor (le16 (p ! (data + 18)) (p ! (data + 19)))")
  let ?i = "ids ! (unat v mod length ids)"
  obtain p1 rs1 where 1: "set_u16_le p (data + 18) (ei_vendor ?i) ''vendor_id'' = ret (p1, rs1)"
    "length p1 = length p" using set_u16_le_total by blast
  obtain p2 rs2 where 2: "set_u16_le p1 (data + 20) (ei_device_type ?i) ''device_type'' = ret (p2, rs2)"
    "length p2 = length p1" using set_u16_le_total by blast
  obtain p3 rs3 where 3: "set_u16_le p2 (data + 22) (ei_product_code ?i) ''product_code'' = ret (p3, rs3)"
    "length p3 = length p2" using set_u16_le_total by blast
  have "rd ids (unat v mod length ids) = ret ?i"
    using assms(3) by (simp add: exec_simps)
  with v 1 2 3 map_u16_inv [OF assms(1) _ v] assms(2) show ?thesis
    by (simp add: exec_simps edits_def)
qed

lemma enip_identity_edits:
  assumes "mapper_inv gen m" and "data + 32 \<le> length p"
  shows "edits gen p m (enip_identity gen ids data p m)"
  unfolding enip_identity_def
proof (rule edits_bind, goal_cases)
  case 1
  show ?case
  proof (cases "ids = []")
    case False
    with enip_vendor_edits [OF assms False] show ?thesis by (simp only: if_True not_False_eq_True)
  qed (use assms in simp)
next
  case 2
  then show ?case by (intro remap_u32_le_edits)
qed

lemma enip_items_edits:
  "mapper_inv gen m \<Longrightarrow> edits gen p m (enip_items gen ids n off p m)"
proof (induction n arbitrary: off p m)
  case (Suc n)
  show ?case
  proof (cases "length p < off + 4")
    case False
    then have r: "rd p off = ret (p ! off)" "rd p (off + 1) = ret (p ! (off + 1))"
      "rd p (off + 2) = ret (p ! (off + 2))" "rd p (off + 3) = ret (p ! (off + 3))"
      by (simp_all add: exec_simps)
    show ?thesis
      unfolding enip_items.simps Let_def r bind.bind_lunit
      using False Suc
      by (simp only: if_False)
        (rule edits_bind, auto intro: enip_identity_edits)
  qed (use Suc in simp)
qed simp

lemma enip_payload_edits:
  "mapper_inv gen m \<Longrightarrow> edits gen p m (enip_payload gen ids p m)"
  by (auto simp: enip_payload_def rd_def enip_items_edits)

lemma modbus_walk_edits:
  "mapper_inv gen m \<Longrightarrow> edits gen p m (walk (modbus_step gen) off p m)"
  using mb.walk_total [of gen m off p] mb.walk_length [of gen off p m] mb.walk_inv [of gen off p m]
    mb.walk_rel [of gen off p m]
  by (auto simp: edits_def)

lemma dnp3_walk_edits:
  "mapper_inv gen m \<Longrightarrow> edits gen p m (walk (dnp3_step crc gen) off p m)"
  using dn.walk_total [of gen m crc off p] dn.walk_length [of crc gen off p m]
    dn.walk_inv [of crc gen off p m] dn.walk_rel [of crc gen off p m]
  by (auto simp: edits_def)

lemma s7_walk_edits:
  assumes "mapper_inv gen m" and "cotp_end \<le> length p"
  shows "edits gen p m (walk (s7_step gen cotp_end) off p m)"
proof -
  have i: "s7_inv gen cotp_end p m" using assms by (simp add: s7_inv_def)
  then obtain p' m' rs where w: "walk (s7_step gen cotp_end) off p m = ret (p', m', rs)"
    using sw.walk_total by blast
  show ?thesis
    using w sw.walk_length [OF w i] sw.walk_inv [OF w i] sw.walk_rel [OF w i]
    by (auto simp: edits_def s7_inv_def)
qed

lemma s7_payload_edits: "mapper_inv gen m \<Longrightarrow> edits gen p m (s7_payload gen p m)"
  by (auto simp: s7_payload_def rd_def Let_def s7_walk_edits)

text \<open>From a payload edit to a frame edit: what every \<open>mutate\<close> does with its payload.\<close>

definition payload_mutate ::
  "(bytes \<Rightarrow> 'm \<Rightarrow> (bytes \<times> 'm \<times> report list) exec) \<Rightarrow> parsed_frame \<Rightarrow> 'm \<Rightarrow>
   (parsed_frame \<times> 'm \<times> report list) exec" where
  "payload_mutate g f m = do {
     p \<leftarrow> payload_of f;
     (p, m, rs) \<leftarrow> g p m;
     f \<leftarrow> set_payload f p;
     ret (f, m, rs)
   }"

lemma mutate_payload:
  "modbus_mutate gen = payload_mutate (walk (modbus_step gen) 0)"
  "dnp3_mutate crc gen = payload_mutate (walk (dnp3_step crc gen) 0)"
  "s7_mutate gen = payload_mutate (s7_payload gen)"
  "enip_mutate gen ids = payload_mutate (enip_payload gen ids)"
  by (simp_all add: fun_eq_iff payload_mutate_def modbus_mutate_def dnp3_mutate_def s7_mutate_def
      enip_mutate_def)

lemma payload_mutate_edit:
  assumes f: "pf_ok f" and p: "payload_of f = ret p" and e: "edits gen p m (g p m)"
  obtains f' m' rs where "payload_mutate g f m = ret (f', m', rs)" and "payload_edit f f'"
    and "mapper_inv gen m'" and "extends m m'"
proof -
  obtain p' m' rs where g: "g p m = ret (p', m', rs)" "length p' = length p" "mapper_inv gen m'"
    "extends m m'" using e by (auto simp: edits_def)
  have "length p' = fl_end (pf_layout f) - fl_payload (pf_layout f)"
    using g(2) length_payload_of [OF f p] by simp
  then obtain f' where "set_payload f p' = ret f'" "payload_edit f f'"
    using f by (elim set_payload_ok [OF f]) (simp add: payload_edit_def)
  with g p that show thesis by (simp add: payload_mutate_def)
qed

lemma payload_mutator:
  assumes matches: "\<And>f. pf_ok f \<Longrightarrow> \<exists>b. matches f = ret b"
    and mut: "mutate = payload_mutate g"
    and e: "\<And>p m. mapper_inv gen m \<Longrightarrow> edits gen p m (g p m)"
  shows "ot_mutator matches mutate (mapper_inv gen)"
proof
  fix f f' :: parsed_frame and m m' :: "'a mapper" and rs
  assume f: "pf_ok f"
  then show "\<exists>b. matches f = ret b" by (rule matches)
  assume m: "mapper_inv gen m"
  obtain p where p: "payload_of f = ret p" using payload_of_total [OF f] by blast
  obtain f1 m1 rs1 where *: "mutate f m = ret (f1, m1, rs1)" "payload_edit f f1" "mapper_inv gen m1"
    unfolding mut using payload_mutate_edit [where g = g, OF f p e [OF m]] by blast
  then show "\<exists>f' m' rs. mutate f m = ret (f', m', rs)" by blast
  assume "mutate f m = ret (f', m', rs)"
  with * show "payload_edit f f'" and "mapper_inv gen m'" by simp_all
qed

interpretation modbus: ot_mutator modbus_matches "modbus_mutate gen" "mapper_inv gen" for gen
  by (rule payload_mutator [OF modbus_matches_total mutate_payload(1) modbus_walk_edits])

interpretation dnp3: ot_mutator dnp3_matches "dnp3_mutate crc gen" "mapper_inv gen" for crc gen
  by (rule payload_mutator [OF dnp3_matches_total mutate_payload(2) dnp3_walk_edits])

interpretation s7comm: ot_mutator s7_matches "s7_mutate gen" "mapper_inv gen" for gen
  by (rule payload_mutator [OF s7_matches_total mutate_payload(3) s7_payload_edits])

interpretation enip: ot_mutator enip_matches "enip_mutate gen ids" "mapper_inv gen" for gen ids
  by (rule payload_mutator [OF enip_matches_total mutate_payload(4) enip_payload_edits])

text \<open>Every entry of the registry keeps the contract.\<close>

interpretation registry: ot_mutator "mut_matches mt" "mut_mutate crc gen mt" "mapper_inv gen"
  for crc gen mt
proof (cases mt)
  case M_Modbus
  with modbus.ot_mutator_axioms show "ot_mutator (mut_matches mt) (mut_mutate crc gen mt) (mapper_inv gen)"
    by (simp add: mut_matches.simps [abs_def] mut_mutate.simps [abs_def])
next
  case (M_Enip ids)
  with enip.ot_mutator_axioms show "ot_mutator (mut_matches mt) (mut_mutate crc gen mt) (mapper_inv gen)"
    by (simp add: mut_matches.simps [abs_def] mut_mutate.simps [abs_def])
next
  case M_S7
  with s7comm.ot_mutator_axioms show "ot_mutator (mut_matches mt) (mut_mutate crc gen mt) (mapper_inv gen)"
    by (simp add: mut_matches.simps [abs_def] mut_mutate.simps [abs_def])
next
  case M_Dnp3
  with dnp3.ot_mutator_axioms show "ot_mutator (mut_matches mt) (mut_mutate crc gen mt) (mapper_inv gen)"
    by (simp add: mut_matches.simps [abs_def] mut_mutate.simps [abs_def])
qed

section \<open>What a walk rewrites\<close>

text \<open>The image of an identifier under the mapping a mapper has recorded.\<close>

definition mapped :: "'r mapper \<Rightarrow> domain \<Rightarrow> 'a::len word \<Rightarrow> 'a word" where
  "mapped m d b = (case mp_fwd m (d, ucast b) of Some v \<Rightarrow> ucast v | None \<Rightarrow> b)"

lemma map_u8_mapped:
  assumes "map_u8 gen m d b = (w, m')" and "extends m' m''"
  shows "mapped m'' d b = w"
proof -
  obtain v where v: "map_range gen m d (ucast b) 0 0xff = (v, m')" "w = ucast v"
    using assms(1) by (cases "map_range gen m d (ucast b) 0 0xff") (auto simp: map_u8_def)
  with map_range_fwd [OF v(1)] assms(2) show ?thesis by (simp add: mapped_def extends_def)
qed

lemma map_u16_mapped:
  assumes "map_u16 gen m d b = (w, m')" and "extends m' m''"
  shows "mapped m'' d b = w"
proof -
  obtain v where v: "map_range gen m d (ucast b) 0 0xffff = (v, m')" "w = ucast v"
    using assms(1) by (cases "map_range gen m d (ucast b) 0 0xffff") (auto simp: map_u16_def)
  with map_range_fwd [OF v(1)] assms(2) show ?thesis by (simp add: mapped_def extends_def)
qed

subsection \<open>Modbus\<close>

text \<open>The offsets of the unit ids of the ADUs packed from \<open>off\<close> on.\<close>

function modbus_units :: "bytes \<Rightarrow> nat \<Rightarrow> nat list" where
  "modbus_units p off =
     (if off + 7 \<le> length p \<and> p ! (off + 2) = 0 \<and> p ! (off + 3) = 0 \<and>
         unat (be16 (p ! (off + 4)) (p ! (off + 5))) \<noteq> 0
      then (off + 6) # modbus_units p (off + (6 + unat (be16 (p ! (off + 4)) (p ! (off + 5)))))
      else [])"
  by pat_completeness auto
termination by (relation "measure (\<lambda>(p, off). length p - off)") auto

declare modbus_units.simps [simp del]

lemma modbus_units_ge: "u \<in> set (modbus_units p off) \<Longrightarrow> off + 6 \<le> u \<and> u < length p"
proof (induction p off rule: modbus_units.induct)
  case (1 p off)
  from 1(2) show ?case
    unfolding modbus_units.simps [of p off] using 1(1) by (auto split: if_splits)
qed

lemma modbus_units_cong:
  "length q = length p \<Longrightarrow> \<forall>i. off \<le> i \<longrightarrow> i < length p \<longrightarrow> q ! i = p ! i \<Longrightarrow>
   modbus_units q off = modbus_units p off"
proof (induction p off rule: modbus_units.induct)
  case (1 p off)
  show ?case
  proof (cases "off + 7 \<le> length p")
    case True
    then have e: "q ! (off + 2) = p ! (off + 2)" "q ! (off + 3) = p ! (off + 3)"
      "q ! (off + 4) = p ! (off + 4)" "q ! (off + 5) = p ! (off + 5)"
      using 1(3) by simp_all
    show ?thesis
    proof (cases "p ! (off + 2) = 0 \<and> p ! (off + 3) = 0 \<and> unat (be16 (p ! (off + 4)) (p ! (off + 5))) \<noteq> 0")
      case cond: True
      have "modbus_units q (off + (6 + unat (be16 (p ! (off + 4)) (p ! (off + 5)))))
          = modbus_units p (off + (6 + unat (be16 (p ! (off + 4)) (p ! (off + 5)))))"
        by (rule 1(1)) (use True cond 1(2,3) in auto)
      then show ?thesis
        unfolding modbus_units.simps [of q off] modbus_units.simps [of p off] e 1(2) by simp
    next
      case False
      then show ?thesis
        unfolding modbus_units.simps [of q off] modbus_units.simps [of p off] e 1(2) by auto
    qed
  next
    case False
    then show ?thesis using 1(2) by (simp add: modbus_units.simps)
  qed
qed

lemma modbus_step_None:
  "modbus_step gen off p m = ret None \<Longrightarrow> modbus_units p off = []"
  by (subst modbus_units.simps)
    (auto simp: modbus_step_def exec_simps Let_def split: if_splits prod.splits)

lemma modbus_walk_units:
  assumes "walk (modbus_step gen) off p m = ret (p', m', rs)" and "mapper_inv gen m"
  shows "length p' = length p \<and> (\<forall>i < length p. p' ! i =
    (if i \<in> set (modbus_units p off) then mapped m' ModbusUnitId (p ! i) else p ! i))"
  using assms
proof (induction rule: mb.walk_induct)
  case (stop off p m)
  then show ?case using modbus_step_None [of gen off p m] by simp
next
  case (step off p m off' p1 m1 rs1 p' m' rs)
  obtain new where n: "off + 7 \<le> length p" "p ! (off + 2) = 0" "p ! (off + 3) = 0"
    "unat (be16 (p ! (off + 4)) (p ! (off + 5))) \<noteq> 0"
    "off' = off + (6 + unat (be16 (p ! (off + 4)) (p ! (off + 5))))"
    "map_u8 gen m ModbusUnitId (p ! (off + 6)) = (new, m1)" "p1 = p[off + 6 := new]"
    using step(3) by (rule modbus_step_Some)
  have lt: "off + 6 < off'" using n(4,5) by simp
  have same: "modbus_units p1 off' = modbus_units p off'"
    using n(7) lt by (intro modbus_units_cong) auto
  have u: "modbus_units p off = (off + 6) # modbus_units p off'"
    using n(1-5) by (subst modbus_units.simps) simp
  have "extends m1 m'" using mb.walk_rel [OF step(4,2)] .
  then have im: "mapped m' ModbusUnitId (p ! (off + 6)) = new" by (rule map_u8_mapped [OF n(6)])
  have "off + 6 \<notin> set (modbus_units p off')" using modbus_units_ge [of "off + 6" p off'] lt by auto
  then show ?case using step(5) n(1,7) im unfolding same u by (auto simp: nth_list_update)
qed

subsection \<open>DNP3\<close>

text \<open>The offsets of the link headers packed from \<open>off\<close> on.\<close>

definition dnp3_at :: "bytes \<Rightarrow> nat \<Rightarrow> bool" where
  "dnp3_at p off \<longleftrightarrow> off + 10 \<le> length p \<and> p ! off = 0x05 \<and> p ! (off + 1) = 0x64 \<and> 5 \<le> unat (p ! (off + 2))"

function dnp3_headers :: "bytes \<Rightarrow> nat \<Rightarrow> nat list" where
  "dnp3_headers p off =
     (if dnp3_at p off then off # dnp3_headers p (off + (10 + dnp3_user (p ! (off + 2)))) else [])"
  by pat_completeness auto
termination by (relation "measure (\<lambda>(p, off). length p - off)") (auto simp: dnp3_at_def)

declare dnp3_headers.simps [simp del]

lemma dnp3_headers_ge: "u \<in> set (dnp3_headers p off) \<Longrightarrow> off \<le> u \<and> u + 10 \<le> length p"
proof (induction p off rule: dnp3_headers.induct)
  case (1 p off)
  from 1(2) show ?case
    unfolding dnp3_headers.simps [of p off] using 1(1) by (auto simp: dnp3_at_def split: if_splits)
qed

lemma dnp3_headers_cong:
  "length q = length p \<Longrightarrow> \<forall>i. off \<le> i \<longrightarrow> i < length p \<longrightarrow> q ! i = p ! i \<Longrightarrow>
   dnp3_headers q off = dnp3_headers p off"
proof (induction p off rule: dnp3_headers.induct)
  case (1 p off)
  have at: "dnp3_at q off \<longleftrightarrow> dnp3_at p off" using 1(2,3) by (auto simp: dnp3_at_def)
  show ?case
  proof (cases "dnp3_at p off")
    case True
    then have "q ! (off + 2) = p ! (off + 2)" using 1(3) by (simp add: dnp3_at_def)
    moreover have "dnp3_headers q (off + (10 + dnp3_user (p ! (off + 2))))
        = dnp3_headers p (off + (10 + dnp3_user (p ! (off + 2))))"
      by (rule 1(1) [OF True]) (use 1(2,3) in auto)
    ultimately show ?thesis
      unfolding dnp3_headers.simps [of q off] dnp3_headers.simps [of p off] at by simp
  next
    case False
    then show ?thesis
      unfolding dnp3_headers.simps [of q off] dnp3_headers.simps [of p off] at by simp
  qed
qed

lemma dnp3_step_None: "mapper_inv gen m \<Longrightarrow> dnp3_step crc gen off p m = ret None \<Longrightarrow> dnp3_headers p off = []"
proof (rule ccontr)
  assume i: "mapper_inv gen m" and n: "dnp3_step crc gen off p m = ret None" and "dnp3_headers p off \<noteq> []"
  then have at: "dnp3_at p off" unfolding dnp3_headers.simps [of p off] by (auto split: if_splits)
  obtain nd m1 where d: "map_u16 gen m Dnp3Addr (le16 (p ! (off + 4)) (p ! (off + 5))) = (nd, m1)"
    by (cases "map_u16 gen m Dnp3Addr (le16 (p ! (off + 4)) (p ! (off + 5)))")
  obtain ns m2 where s: "map_u16 gen m1 Dnp3Addr (le16 (p ! (off + 6)) (p ! (off + 7))) = (ns, m2)"
    by (cases "map_u16 gen m1 Dnp3Addr (le16 (p ! (off + 6)) (p ! (off + 7)))")
  obtain r where "dnp3_step crc gen off p m = ret (Some r)"
    using at dnp3_step_eq [OF _ _ _ _ d s, of crc] unfolding dnp3_at_def by metis
  with n show False by simp
qed

text \<open>What the walk owes to the header at \<open>o\<close>.\<close>

definition dnp3_done :: "(bytes \<Rightarrow> u16) \<Rightarrow> 'r mapper \<Rightarrow> bytes \<Rightarrow> bytes \<Rightarrow> nat \<Rightarrow> bool" where
  "dnp3_done crc m p p' at \<longleftrightarrow>
     le16 (p' ! (at + 4)) (p' ! (at + 5)) = mapped m Dnp3Addr (le16 (p ! (at + 4)) (p ! (at + 5))) \<and>
     le16 (p' ! (at + 6)) (p' ! (at + 7)) = mapped m Dnp3Addr (le16 (p ! (at + 6)) (p ! (at + 7))) \<and>
     take 2 (drop (at + 8) p') = to_le16 (crc (take 8 (drop at p')))"

lemma dnp3_done_agree:
  assumes "dnp3_done crc m p p1 at" and "at + 10 \<le> length p1" and "length p2 = length p1"
    and "\<forall>i. i < at + 10 \<longrightarrow> p2 ! i = p1 ! i"
  shows "dnp3_done crc m p p2 at"
proof -
  have "take k (drop j p2) = take k (drop j p1)" if "j + k \<le> at + 10" for j k
    using assms(2-4) that by (intro nth_equalityI) auto
  with assms show ?thesis by (simp add: dnp3_done_def)
qed

lemma nth_splice_le16:
  "i + 2 \<le> length p \<Longrightarrow> j = i + 1 \<Longrightarrow> le16 (splice p i (to_le16 w) ! i) (splice p i (to_le16 w) ! j) = w"
  by (simp add: nth_splice to_le16_def le16_def)

lemma dnp3_step_done:
  assumes len: "off + 10 \<le> length p"
    and d: "mapped m Dnp3Addr (le16 (p ! (off + 4)) (p ! (off + 5))) = nd"
    and s: "mapped m Dnp3Addr (le16 (p ! (off + 6)) (p ! (off + 7))) = ns"
    and p': "p' = (let q = splice (splice p (off + 4) (to_le16 nd)) (off + 6) (to_le16 ns)
       in splice q (off + 8) (to_le16 (crc (take 8 (drop off q)))))"
  shows "dnp3_done crc m p p' off" and "length p' = length p"
    and "\<forall>i < length p. i \<notin> {off + 4..<off + 10} \<longrightarrow> p' ! i = p ! i"
proof -
  define p1 where "p1 = splice p (off + 4) (to_le16 nd)"
  define q where "q = splice p1 (off + 6) (to_le16 ns)"
  have p'q: "p' = splice q (off + 8) (to_le16 (crc (take 8 (drop off q))))"
    by (simp add: p' p1_def q_def Let_def)
  have l: "length p1 = length p" "length q = length p"
    using len by (simp_all add: p1_def q_def)
  then show "length p' = length p" using len by (simp add: p'q)
  have q8: "take 8 (drop off p') = take 8 (drop off q)"
    unfolding p'q using len l by (intro take_drop_splice_out) simp_all
  have "take 2 (drop (off + 8) p') = to_le16 (crc (take 8 (drop off p')))"
    unfolding q8 unfolding p'q using len l take_drop_splice_same [of "off + 8" "to_le16 (crc (take 8 (drop off q)))" q]
    by simp
  moreover have "p' ! i = q ! i" if "i < off + 8" for i
    unfolding p'q using that len l by (intro nth_splice_out) simp_all
  moreover have "q ! i = p1 ! i" if "i < off + 6" for i
    unfolding q_def using that len l by (intro nth_splice_out) simp_all
  moreover have "le16 (p1 ! (off + 4)) (p1 ! (off + 5)) = nd"
    unfolding p1_def by (rule nth_splice_le16) (use len in simp_all)
  moreover have "le16 (q ! (off + 6)) (q ! (off + 7)) = ns"
    unfolding q_def by (rule nth_splice_le16) (use len l in simp_all)
  ultimately show "dnp3_done crc m p p' off" using d s by (simp add: dnp3_done_def)
  show "\<forall>i < length p. i \<notin> {off + 4..<off + 10} \<longrightarrow> p' ! i = p ! i"
    using len l by (auto simp: p'q q_def p1_def nth_splice)
qed

lemma dnp3_walk_headers:
  assumes "walk (dnp3_step crc gen) off p m = ret (p', m', rs)" and "mapper_inv gen m"
  shows "length p' = length p \<and> (\<forall>at \<in> set (dnp3_headers p off). dnp3_done crc m' p p' at) \<and>
    (\<forall>i < length p. (\<forall>at \<in> set (dnp3_headers p off). i \<notin> {at + 4..<at + 10}) \<longrightarrow> p' ! i = p ! i)"
  using assms
proof (induction rule: dn.walk_induct)
  case (stop off p m)
  then show ?case using dnp3_step_None [of gen m crc off p] by simp
next
  case (step off p m off' p1 m1 rs1 p' m' rs)
  obtain nd ns mm where n: "off + 10 \<le> length p" "p ! off = 0x05" "p ! (off + 1) = 0x64"
    "5 \<le> unat (p ! (off + 2))" "off' = off + (10 + dnp3_user (p ! (off + 2)))"
    "map_u16 gen m Dnp3Addr (le16 (p ! (off + 4)) (p ! (off + 5))) = (nd, mm)"
    "map_u16 gen mm Dnp3Addr (le16 (p ! (off + 6)) (p ! (off + 7))) = (ns, m1)"
    "p1 = (let q = splice (splice p (off + 4) (to_le16 nd)) (off + 6) (to_le16 ns)
       in splice q (off + 8) (to_le16 (crc (take 8 (drop off q)))))"
    using step(3) by (rule dnp3_step_Some)
  have ext: "extends m1 m'" using dn.walk_rel [OF step(4,2)] .
  have "extends mm m1"
    using map_u16_inv [OF _ _ n(7)] map_u16_inv [OF step(1) _ n(6)] by simp
  then have d: "mapped m' Dnp3Addr (le16 (p ! (off + 4)) (p ! (off + 5))) = nd"
    using map_u16_mapped [OF n(6)] ext by (blast intro: extends_trans)
  have s: "mapped m' Dnp3Addr (le16 (p ! (off + 6)) (p ! (off + 7))) = ns"
    by (rule map_u16_mapped [OF n(7) ext])
  note dn = dnp3_step_done [OF n(1) d s n(8)]
  have h: "dnp3_headers p off = off # dnp3_headers p off'"
    using n(1-5) by (subst dnp3_headers.simps) (simp add: dnp3_at_def)
  have after: "\<forall>i. off' \<le> i \<longrightarrow> i < length p \<longrightarrow> p1 ! i = p ! i" using dn(3) n(5) by auto
  have same: "dnp3_headers p1 off' = dnp3_headers p off'"
    by (rule dnp3_headers_cong [OF dn(2) after])
  have ge: "off' \<le> at \<and> at + 10 \<le> length p" if "at \<in> set (dnp3_headers p off')" for at
    using dnp3_headers_ge [OF that] .
  have before: "\<forall>i. i < off + 10 \<longrightarrow> p' ! i = p1 ! i"
  proof (intro allI impI)
    fix i assume i: "i < off + 10"
    have "\<forall>at \<in> set (dnp3_headers p off'). i \<notin> {at + 4..<at + 10}"
    proof
      fix at assume "at \<in> set (dnp3_headers p off')"
      from ge [OF this] i n(5) show "i \<notin> {at + 4..<at + 10}" by simp
    qed
    then show "p' ! i = p1 ! i" using step(5) i n(1) dn(2) unfolding same by simp
  qed
  have "dnp3_done crc m' p p' off"
    using dnp3_done_agree [OF dn(1) _ _ before] step(5) dn(2) n(1) by simp
  moreover have "dnp3_done crc m' p p' at" if "at \<in> set (dnp3_headers p off')" for at
  proof -
    have "dnp3_done crc m' p1 p' at" using step(5) that unfolding same by blast
    then show ?thesis using after ge [OF that] by (simp add: dnp3_done_def)
  qed
  moreover have "p' ! i = p ! i"
    if "i < length p" "\<forall>at \<in> set (dnp3_headers p off). i \<notin> {at + 4..<at + 10}" for i
    using step(5) dn(2,3) that unfolding same h by auto
  ultimately show ?case using step(5) dn(2) unfolding h by auto
qed

end
