(* ===== verification/Pipeline.thy ===== *)
theory Pipeline
  imports Remap Mutators
begin

text \<open>
  \<open>src/reload/pipeline.rs\<close>: one forge round.  The source capture is copied, optionally
  remapped, and each frame that parses goes to the first mutator that matches; checksums are
  recomputed when that mutator reports a change, and over-MTU frames are dropped at the end.

  The mutator list is a parameter of the round, with the interface of the locale \<open>ot_mutator\<close>:
  here it is a list over the registry's datatype.  The generators of the mapper (\<open>gen\<close>) and of the
  remap (\<open>below\<close>), the seeding and the network operations are arguments.
\<close>

section \<open>Code\<close>

record 'n reload_options =
  ro_remap_l3 :: bool
  ro_hints :: "'n list"
  ro_mutators :: "mutator list"

record round_result =
  rr_mutations :: "report list"
  rr_l3 :: "remap_summary option"
  rr_frames :: nat

text \<open>\<open>for m in &opts.mutators\<close>: the first match mutates, the others are not asked.\<close>

fun dispatch ::
  "(bytes \<Rightarrow> u16) \<Rightarrow> 'r gen \<Rightarrow> mutator list \<Rightarrow> parsed_frame \<Rightarrow> 'r mapper \<Rightarrow>
   (parsed_frame \<times> 'r mapper \<times> report list) exec" where
  "dispatch crc gen [] f m = ret (f, m, [])"
| "dispatch crc gen (mt # mts) f m = do {
     hit \<leftarrow> mut_matches mt f;
     if hit then do {
       (f, m, rs) \<leftarrow> mut_mutate crc gen mt f m;
       if rs \<noteq> [] then do { f \<leftarrow> pf_recompute f; ret (f, m, rs) }
       else ret (f, m, [])
     } else dispatch crc gen mts f m
   }"

text \<open>\<open>for p in &mut cap.packets\<close>\<close>

fun forge_packets ::
  "(bytes \<Rightarrow> u16) \<Rightarrow> 'r gen \<Rightarrow> mutator list \<Rightarrow> packet list \<Rightarrow> 'r mapper \<Rightarrow>
   (packet list \<times> 'r mapper \<times> report list) exec" where
  "forge_packets crc gen mts [] m = ret ([], m, [])"
| "forge_packets crc gen mts (p # ps) m = do {
     r \<leftarrow> pf_parse (pk_data p);
     (p, m, rs) \<leftarrow> (case r of
         None \<Rightarrow> ret (p, m, [])
       | Some f \<Rightarrow> do {
           (f, m, rs) \<leftarrow> dispatch crc gen mts f m;
           ret (p\<lparr>pk_data := pf_buf f\<rparr>, m, rs)
         });
     (ps, m, rs') \<leftarrow> forge_packets crc gen mts ps m;
     ret (p # ps, m, rs @ rs')
   }"

definition standard_frame_bytes :: nat where
  "standard_frame_bytes = 1514"

definition forge_round ::
  "(bytes \<Rightarrow> u16) \<Rightarrow> 'r gen \<Rightarrow> (u64 \<Rightarrow> 'r) \<Rightarrow> 'n net_ops \<Rightarrow> 'q below \<Rightarrow> (u64 \<Rightarrow> 'q) \<Rightarrow>
   'h capture \<Rightarrow> u64 \<Rightarrow> 'n reload_options \<Rightarrow> ('h capture \<times> round_result) exec" where
  "forge_round crc gen seed_gen N below seed_below src seed opts = do {
     let cap = src;
     let mapper = from_seed seed_gen seed;
     (cap, l3) \<leftarrow> (if ro_remap_l3 opts then do {
         (cap, s) \<leftarrow> remap_capture N below seed_below cap (ro_hints opts) seed True;
         ret (cap, Some s)
       } else ret (cap, None));
     (ps, mapper, mutations) \<leftarrow> forge_packets crc gen (ro_mutators opts) (cap_packets cap) mapper;
     (cap, dropped) \<leftarrow> drop_oversize_frames (cap\<lparr>cap_packets := ps\<rparr>) standard_frame_bytes;
     ret (cap, \<lparr>rr_mutations = mutations, rr_l3 = l3, rr_frames = length (cap_packets cap)\<rparr>)
   }"

section \<open>Dispatch\<close>

text \<open>What dispatch may do to a frame: a payload edit, then the checksums.\<close>

definition dispatch_bytes :: "frame_layout \<Rightarrow> nat set" where
  "dispatch_bytes l = {fl_payload l..<fl_end l} \<union> csum_bytes l"

definition frame_edit :: "parsed_frame \<Rightarrow> parsed_frame \<Rightarrow> bool" where
  "frame_edit f f' \<longleftrightarrow> pf_ok f' \<and> pf_layout f' = pf_layout f \<and>
     agree_on (- dispatch_bytes (pf_layout f)) (pf_buf f) (pf_buf f')"

lemma payload_edit_agree:
  assumes e: "payload_edit f f'" and f: "pf_ok f"
  shows "agree_on (- {fl_payload (pf_layout f)..<fl_end (pf_layout f)}) (pf_buf f) (pf_buf f')"
  unfolding agree_on_def
proof (intro conjI ballI impI)
  let ?a = "fl_payload (pf_layout f)" and ?e = "fl_end (pf_layout f)"
  show len: "length (pf_buf f') = length (pf_buf f)" using e by (simp add: payload_edit_def)
  fix i assume i: "i \<in> - {?a..<?e}" "i < length (pf_buf f)"
  then consider "i < ?a" | "?e \<le> i" by fastforce
  then show "pf_buf f' ! i = pf_buf f ! i"
  proof cases
    case 1
    then have "pf_buf f' ! i = take ?a (pf_buf f') ! i" and "pf_buf f ! i = take ?a (pf_buf f) ! i" by simp_all
    then show ?thesis using e by (simp add: payload_edit_def)
  next
    case 2
    then have "pf_buf f' ! i = drop ?e (pf_buf f') ! (i - ?e)" and "pf_buf f ! i = drop ?e (pf_buf f) ! (i - ?e)"
      using i(2) len by simp_all
    then show ?thesis using e by (simp add: payload_edit_def)
  qed
qed

lemma payload_edit_frame: "payload_edit f f' \<Longrightarrow> pf_ok f \<Longrightarrow> frame_edit f f'"
  using agree_on_subset [OF payload_edit_agree, of f f' "- dispatch_bytes (pf_layout f)"]
  by (auto simp: frame_edit_def payload_edit_def dispatch_bytes_def)

lemma frame_edit_refl [simp]: "pf_ok f \<Longrightarrow> frame_edit f f"
  by (simp add: frame_edit_def)

lemma dispatch_ok:
  assumes f: "pf_ok f" and m: "mapper_inv gen m"
  obtains f' m' rs where "dispatch crc gen mts f m = ret (f', m', rs)" and "frame_edit f f'"
    and "mapper_inv gen m'"
    and "rs \<noteq> [] \<Longrightarrow> l4_field_inside (pf_layout f) \<Longrightarrow> checksums_valid (pf_buf f') (pf_layout f') = ret True"
proof -
  have "\<exists>f' m' rs. dispatch crc gen mts f m = ret (f', m', rs) \<and> frame_edit f f' \<and> mapper_inv gen m' \<and>
    (rs \<noteq> [] \<longrightarrow> l4_field_inside (pf_layout f) \<longrightarrow> checksums_valid (pf_buf f') (pf_layout f') = ret True)"
  proof (induction mts)
    case Nil
    then show ?case using f m by simp
  next
    case (Cons mt mts)
    obtain hit where hit: "mut_matches mt f = ret hit"
      using registry.matches_total [OF f] by blast
    show ?case
    proof (cases hit)
      case False
      with Cons hit show ?thesis by simp
    next
      case True
      obtain f1 m1 rs where 1: "mut_mutate crc gen mt f m = ret (f1, m1, rs)"
        using registry.mutate_total [OF f m] by blast
      note e = registry.mutate_edit [OF f m 1] and m1 = registry.mutate_inv [OF f m 1]
      have f1: "pf_ok f1" and l1: "pf_layout f1 = pf_layout f" using e by (simp_all add: payload_edit_def)
      show ?thesis
      proof (cases "rs = []")
        case True
        with \<open>hit\<close> hit 1 payload_edit_frame [OF e f] m1 show ?thesis by simp
      next
        case False
        obtain f2 where 2: "pf_recompute f1 = ret f2" "pf_ok f2" "pf_layout f2 = pf_layout f1"
          "agree_on (- csum_bytes (pf_layout f1)) (pf_buf f1) (pf_buf f2)"
          using pf_recompute_ok [OF f1] by blast
        have "agree_on (- dispatch_bytes (pf_layout f)) (pf_buf f1) (pf_buf f2)"
          by (rule agree_on_subset [OF 2(4)]) (auto simp: dispatch_bytes_def l1)
        then have "frame_edit f f2"
          using payload_edit_frame [OF e f] 2 l1 by (auto simp: frame_edit_def intro: agree_on_trans)
        moreover have "checksums_valid (pf_buf f2) (pf_layout f2) = ret True" if "l4_field_inside (pf_layout f)"
        proof -
          have "recompute_checksums (pf_buf f1) (pf_layout f) = ret (pf_buf f2)"
            using 2(1) by (auto simp: pf_recompute_def l1)
          moreover have "parse_layout (pf_buf f1) = ret (Some (pf_layout f))"
            using f1 l1 by (simp add: pf_ok_def)
          ultimately show ?thesis
            using recompute_checksums_valid [OF _ that, of "pf_buf f1"] 2(3) l1 by auto
        qed
        ultimately show ?thesis using \<open>hit\<close> hit 1 2(1) False m1 by simp
      qed
    qed
  qed
  then show thesis using that by blast
qed

text \<open>No mutator matches a frame that is neither TCP nor UDP.\<close>

lemma mut_matches_l4:
  "fl_l4_kind (pf_layout f) = L4_Other \<Longrightarrow> mut_matches mt f = ret False"
  by (cases mt) (simp_all add: modbus_matches_def enip_matches_def s7_matches_def dnp3_matches_def)

lemma dispatch_l4: "fl_l4_kind (pf_layout f) = L4_Other \<Longrightarrow> dispatch crc gen mts f m = ret (f, m, [])"
  by (induction mts) (simp_all add: mut_matches_l4)

section \<open>A round\<close>

text \<open>What the packet loop does to one packet.\<close>

definition packet_edit :: "packet \<Rightarrow> packet \<Rightarrow> bool" where
  "packet_edit p p' \<longleftrightarrow> pk_ts p' = pk_ts p \<and> pk_orig_len p' = pk_orig_len p \<and>
     parse_layout (pk_data p') = parse_layout (pk_data p) \<and>
     (case parse_layout (pk_data p) of
        Some (Some l) \<Rightarrow>
          if fl_l4_kind l = L4_Other then pk_data p' = pk_data p
          else agree_on (- dispatch_bytes l) (pk_data p) (pk_data p')
      | _ \<Rightarrow> pk_data p' = pk_data p)"

lemma forge_packets_ok:
  assumes "mapper_inv gen m"
  shows "\<exists>ps' m' rs. forge_packets crc gen mts ps m = ret (ps', m', rs) \<and> list_all2 packet_edit ps ps'"
  using assms
proof (induction ps arbitrary: m)
  case (Cons p ps)
  obtain r where r: "parse_layout (pk_data p) = ret r" using parse_layout_total by blast
  have "\<exists>p' m' rs. (case map_option (\<lambda>l. \<lparr>pf_buf = pk_data p, pf_layout = l\<rparr>) r of
         None \<Rightarrow> ret (p, m, [])
       | Some f \<Rightarrow> do {
           (f, m, rs) \<leftarrow> dispatch crc gen mts f m;
           ret (p\<lparr>pk_data := pf_buf f\<rparr>, m, rs)
         }) = ret (p', m', rs) \<and> packet_edit p p' \<and> mapper_inv gen m'"
  proof (cases r)
    case None
    with r Cons.prems show ?thesis by (simp add: packet_edit_def)
  next
    case (Some l)
    define f where "f = \<lparr>pf_buf = pk_data p, pf_layout = l\<rparr>"
    have f: "pf_ok f" using r Some by (simp add: f_def pf_ok_def)
    show ?thesis
    proof (cases "fl_l4_kind l = L4_Other")
      case True
      with r Some Cons.prems show ?thesis by (simp add: dispatch_l4 packet_edit_def)
    next
      case False
      obtain f' m' rs where d: "dispatch crc gen mts f m = ret (f', m', rs)" "frame_edit f f'" "mapper_inv gen m'"
        using dispatch_ok [OF f Cons.prems] by blast
      then have "packet_edit p (p\<lparr>pk_data := pf_buf f'\<rparr>)"
        using r Some False by (simp add: packet_edit_def frame_edit_def pf_ok_def f_def)
      with d Some show ?thesis by (simp add: f_def)
    qed
  qed
  then obtain p' m' rs where 1: "(case map_option (\<lambda>l. \<lparr>pf_buf = pk_data p, pf_layout = l\<rparr>) r of
         None \<Rightarrow> ret (p, m, [])
       | Some f \<Rightarrow> do {
           (f, m, rs) \<leftarrow> dispatch crc gen mts f m;
           ret (p\<lparr>pk_data := pf_buf f\<rparr>, m, rs)
         }) = ret (p', m', rs)" "packet_edit p p'" "mapper_inv gen m'" by blast
  obtain ps' m'' rs' where "forge_packets crc gen mts ps m' = ret (ps', m'', rs')" "list_all2 packet_edit ps ps'"
    using Cons.IH [OF 1(3)] by blast
  with 1(1,2) r show ?case
    by (simp only: forge_packets.simps pf_parse_def bind.bind_lunit prod.case) simp
qed simp

lemma from_seed_inv: "gen_ok gen \<Longrightarrow> mapper_inv gen (from_seed seed_gen seed)"
  by (simp add: mapper_inv_def from_seed_ok)

text \<open>The round, as one statement over the packets that enter the loop.\<close>

lemma forge_round_ok:
  assumes g: "gen_ok gen"
  obtains cap cap' res ps where "forge_round crc gen seed_gen N below seed_below src seed opts = ret (cap', res)"
    and "if ro_remap_l3 opts
      then \<exists>s. remap_capture N below seed_below src (ro_hints opts) seed True = ret (cap, s)
      else cap = src"
    and "list_all2 packet_edit (cap_packets cap) ps"
    and "cap_packets cap' = filter (\<lambda>p. length (pk_data p) \<le> 1514) ps"
    and "rr_frames res = length (cap_packets cap')" and "cap_header cap' = cap_header cap"
proof -
  obtain cap l3 where 1: "(if ro_remap_l3 opts then do {
         (cap, s) \<leftarrow> remap_capture N below seed_below src (ro_hints opts) seed True;
         ret (cap, Some s)
       } else ret (src, None)) = ret (cap, l3)"
    "if ro_remap_l3 opts
      then \<exists>s. remap_capture N below seed_below src (ro_hints opts) seed True = ret (cap, s)
      else cap = src"
    using remap_capture_total [of N below seed_below src "ro_hints opts" seed True]
    by (cases "ro_remap_l3 opts") auto
  obtain ps m rs where 2: "forge_packets crc gen (ro_mutators opts) (cap_packets cap) (from_seed seed_gen seed)
      = ret (ps, m, rs)" "list_all2 packet_edit (cap_packets cap) ps"
    using forge_packets_ok [OF from_seed_inv [OF g]] by blast
  let ?cap' = "cap\<lparr>cap_packets := filter (\<lambda>p. length (pk_data p) \<le> 1514) ps\<rparr>"
  obtain n where 3: "drop_oversize_frames (cap\<lparr>cap_packets := ps\<rparr>) standard_frame_bytes = ret (?cap', n)"
    by (simp add: drop_oversize_frames_def size_filter.drop_eq keep_size_def standard_frame_bytes_def)
  have "forge_round crc gen seed_gen N below seed_below src seed opts
      = ret (?cap', \<lparr>rr_mutations = rs, rr_l3 = l3, rr_frames = length (cap_packets ?cap')\<rparr>)"
    unfolding forge_round_def Let_def 1(1) bind.bind_lunit prod.case 2(1) 3 ..
  from that [OF this 1(2) 2(2)] show thesis by simp
qed

text \<open>Mutation keeps a frame coherent with the plan.\<close>

lemma csum_payload_not_addr:
  assumes lo: "layout_ok n l" and v4: "fl_l3_kind l = L3_Ipv4" and k: "12 \<le> k" "k + 4 \<le> 20"
  shows "{fl_l3 l + k..<fl_l3 l + k + 4} \<subseteq> - dispatch_bytes l"
  using csum_bytes_not_addr [OF lo v4 k] layout_ok_ipv4D(2,5,6) [OF lo v4] k
  by (auto simp: dispatch_bytes_def)

lemma packet_edit_not_public:
  assumes e: "packet_edit p p'" and c: "carries_public_address (pk_data p) = ret False"
  shows "carries_public_address (pk_data p') = ret False"
proof -
  obtain r where r: "parse_layout (pk_data p) = ret r" using parse_layout_total by blast
  show ?thesis
  proof (cases "r = None \<or> fl_l4_kind (the r) = L4_Other")
    case True
    with e r c show ?thesis by (auto simp: packet_edit_def split: option.splits)
  next
    case False
    then obtain l where l: "parse_layout (pk_data p) = ret (Some l)" "fl_l4_kind l \<noteq> L4_Other"
      using r by auto
    note lo = parse_layout_ok [OF l(1)]
    have v4: "fl_l3_kind l = L3_Ipv4" by (rule layout_ok_l4D(1) [OF lo l(2)])
    have ag: "agree_on (- dispatch_bytes l) (pk_data p) (pk_data p')"
      and l': "parse_layout (pk_data p') = ret (Some l)"
      using e l by (simp_all add: packet_edit_def)
    have b: "fl_l3 l + 20 \<le> length (pk_data p)" by (rule layout_ipv4_bound [OF l(1) v4])
    have "word32_at (pk_data p') (fl_l3 l + 12) = word32_at (pk_data p) (fl_l3 l + 12)"
      by (rule word32_at_agree [OF ag csum_payload_not_addr [OF lo v4]]) (use b in simp_all)
    moreover have "word32_at (pk_data p') (fl_l3 l + 16) = word32_at (pk_data p) (fl_l3 l + 16)"
      by (rule word32_at_agree [OF ag csum_payload_not_addr [OF lo v4]]) (use b in simp_all)
    ultimately show ?thesis
      using c carries_public_eq(1) [OF l(1) v4] carries_public_eq(1) [OF l' v4] by simp
  qed
qed

end
