(* ===== verification/Zones.thy ===== *)
theory Zones
  imports Remap "HOL-Library.AList"
begin

text \<open>
  Zone reconciliation of \<open>src/proto/l3.rs\<close>: the hosts of a capture are placed into fabricated zones
  under an asset budget, or ride an existing fabricated device, and the capture is rewritten through
  the resulting map.

  \<open>resolved\<close> and the host map are association lists; \<open>HashMap::insert\<close> is \<open>AList.update\<close>.
  \<open>reserved\<close>, \<open>taken\<close> and \<open>used_macs\<close> are finite sets.
\<close>

section \<open>Code\<close>

datatype zone_affinity = ZA_Both | ZA_Vendor | ZA_Protocol | ZA_Off

record 'n zone_target =
  zt_net :: 'n
  zt_vendor :: "string option"
  zt_purdue_level :: u8
  zt_protocol :: "string option"
  zt_reserved :: "ipv4 set"

record 'n capture_group =
  cg_net :: 'n
  cg_purdue_level :: u8
  cg_vendor :: "string option"
  cg_protocol :: "string option"
  cg_hosts :: "ipv4 list"

definition ot_protocol_for_port :: "u16 \<Rightarrow> string option" where
  "ot_protocol_for_port port =
     (if port = 502 then Some ''modbus''
      else if port = 2222 \<or> port = 44818 then Some ''enip''
      else if port = 102 then Some ''s7''
      else if port = 161 \<or> port = 162 then Some ''switch_snmp''
      else if port = 20000 then Some ''dnp3''
      else None)"

record new_asset =
  na_origin :: ipv4
  na_ip :: ipv4
  na_mac :: mac
  na_vendor :: "string option"
  na_protocol :: "string option"
  na_purdue_level :: u8
  na_subnet_cidr :: string

record 'n reconcile_ctx =
  rc_zones :: "'n zone_target list"
  rc_affinity :: zone_affinity
  rc_seed :: u64
  rc_remap_mac :: bool
  rc_registered :: "(u32 \<times> u32) list"
  rc_device_macs :: "u32 \<Rightarrow> mac option"
  rc_reserved_macs :: "mac set"
  rc_budget :: nat

definition zone_room :: "'n net_ops \<Rightarrow> 'n zone_target \<Rightarrow> nat" where
  "zone_room N z =
     (let p = no_prefix_len N (zt_net z);
          cap = (if 31 \<le> p then 0 else 2 ^ (32 - unat p) - 2)
      in cap - card (zt_reserved z))"

definition affinity_score :: "'n capture_group \<Rightarrow> 'n zone_target \<Rightarrow> zone_affinity \<Rightarrow> int" where
  "affinity_score g z affinity =
     (let vendor_match = (case (cg_vendor g, zt_vendor z) of (Some a, Some b) \<Rightarrow> a = b | _ \<Rightarrow> False);
          proto_match = (case (cg_protocol g, zt_protocol z) of (Some a, Some b) \<Rightarrow> a = b | _ \<Rightarrow> False);
          level_match = (cg_purdue_level g = zt_purdue_level z)
      in case affinity of
           ZA_Off \<Rightarrow> 0
         | ZA_Vendor \<Rightarrow> of_bool vendor_match * 3
         | ZA_Protocol \<Rightarrow> of_bool proto_match * 2
         | ZA_Both \<Rightarrow> of_bool vendor_match * 4 + of_bool proto_match * 2 + of_bool level_match)"

definition tiebreak :: "'n net_ops \<Rightarrow> u64 \<Rightarrow> 'n \<Rightarrow> 'n \<Rightarrow> u64" where
  "tiebreak N seed grp zone =
     splitmix64 (seed XOR ucast (no_network N grp) * 0x9E3779B97F4A7C15 XOR ucast (no_network N zone))"

text \<open>\<open>sort_by\<close> is stable; the comparator orders by score and room downwards, then by tiebreak.\<close>

definition rank_zones :: "'n net_ops \<Rightarrow> 'n capture_group \<Rightarrow> 'n zone_target list \<Rightarrow> zone_affinity \<Rightarrow> u64 \<Rightarrow> nat list" where
  "rank_zones N g zones affinity seed =
     sort_key (\<lambda>a. let za = zones ! a in
         (- affinity_score g za affinity, - int (zone_room N za), tiebreak N seed (cg_net g) (zt_net za)))
       [0..<length zones]"

definition min_of :: "ipv4 set \<Rightarrow> ipv4 option" where
  "min_of A = (if A = {} then None else Some (Min A))"

definition force_map_target :: "'n zone_target list \<Rightarrow> nat \<Rightarrow> ipv4 option" where
  "force_map_target zones prefer =
     (case (if prefer < length zones then min_of (zt_reserved (zones ! prefer)) else None) of
        Some t \<Rightarrow> Some t
      | None \<Rightarrow> min_of (\<Union>z \<in> set zones. zt_reserved z))"

definition is_usable_host :: "'n net_ops \<Rightarrow> 'n \<Rightarrow> ipv4 \<Rightarrow> bool" where
  "is_usable_host N net ip \<longleftrightarrow> no_contains N net ip \<and> ip \<noteq> no_network N net \<and> ip \<noteq> no_broadcast N net"

definition place_in_zone :: "'n net_ops \<Rightarrow> 'n \<Rightarrow> ipv4 set \<Rightarrow> u32 \<Rightarrow> ipv4 option \<times> ipv4 set" where
  "place_in_zone N net taken desired_off =
     (let host_mask = NOT (mask_for (no_prefix_len N net));
          want = no_network N net OR (desired_off AND host_mask)
      in if is_usable_host N net want \<and> want \<notin> taken then (Some want, insert want taken)
         else (case find (\<lambda>ip. ip \<notin> taken) (no_hosts N net) of
             Some ip \<Rightarrow> (Some ip, insert ip taken)
           | None \<Rightarrow> (None, taken)))"

text \<open>The MAC loop: the salt goes up until the address is unused.  \<open>None\<close> is a loop that never ends.\<close>

partial_function (option) find_mac :: "u64 \<Rightarrow> u32 \<Rightarrow> mac set \<Rightarrow> u64 \<Rightarrow> (mac \<times> u64) option" where
  "find_mac seed nu used salt =
     (let mac = host_mac_salted seed nu salt
      in if mac \<notin> used then Some (mac, salt) else find_mac seed nu used (salt + 1))"

record zone_state =
  zs_budget :: nat
  zs_used_macs :: "mac set"
  zs_resolved :: "(u32 \<times> mac) list"
  zs_taken :: "ipv4 set"
  zs_map :: "(u32 \<times> u32) list"
  zs_new :: "new_asset list"
  zs_subnets :: "(string \<times> string) list"

definition zone_init :: "'n reconcile_ctx \<Rightarrow> zone_state" where
  "zone_init ctx =
     \<lparr>zs_budget = rc_budget ctx, zs_used_macs = rc_reserved_macs ctx, zs_resolved = [],
      zs_taken = (\<Union>z \<in> set (rc_zones ctx). zt_reserved z) \<union> snd ` set (rc_registered ctx),
      zs_map = [], zs_new = [], zs_subnets = []\<rparr>"

text \<open>The \<open>if budget > 0\<close> branch: a new asset in the zone, or \<open>None\<close> when nothing was placed.\<close>

definition place_new :: "'n net_ops \<Rightarrow> 'n reconcile_ctx \<Rightarrow> 'n zone_target \<Rightarrow> ipv4 \<Rightarrow> zone_state \<Rightarrow> zone_state option exec" where
  "place_new N ctx z host st =
     (if 0 < zs_budget st then
        (case place_in_zone N (zt_net z) (zs_taken st) host of
           (None, _) \<Rightarrow> ret None
         | (Some newip, taken) \<Rightarrow> do {
             (mac, salt) \<leftarrow> find_mac (rc_seed ctx) newip (zs_used_macs st) 0;
             ret (Some (st\<lparr>zs_taken := taken, zs_map := AList.update host newip (zs_map st),
               zs_used_macs := insert mac (zs_used_macs st),
               zs_resolved := (if salt \<noteq> 0 then AList.update newip mac (zs_resolved st) else zs_resolved st),
               zs_new := zs_new st @ [\<lparr>na_origin = host, na_ip = newip, na_mac = mac, na_vendor = zt_vendor z,
                 na_protocol = zt_protocol z, na_purdue_level = zt_purdue_level z,
                 na_subnet_cidr = no_show N (zt_net z)\<rparr>],
               zs_budget := zs_budget st - 1\<rparr>))
           })
      else ret None)"

definition host_step :: "'n net_ops \<Rightarrow> 'n reconcile_ctx \<Rightarrow> nat \<Rightarrow> ipv4 \<Rightarrow> zone_state \<times> bool \<Rightarrow> (zone_state \<times> bool) exec" where
  "host_step N ctx zi host st_placed =
     (case st_placed of (st, placed) \<Rightarrow>
        case map_of (rc_registered ctx) host of
          Some nv \<Rightarrow> ret (st\<lparr>zs_map := AList.update host nv (zs_map st)\<rparr>, True)
        | None \<Rightarrow> do {
            r \<leftarrow> place_new N ctx (rc_zones ctx ! zi) host st;
            case r of
              Some st \<Rightarrow> ret (st, True)
            | None \<Rightarrow>
                (case force_map_target (rc_zones ctx) zi of
                   Some t \<Rightarrow> ret (st\<lparr>zs_map := AList.update host t (zs_map st)\<rparr>, True)
                 | None \<Rightarrow> ret (st, placed))
          })"

definition group_step :: "'n net_ops \<Rightarrow> 'n reconcile_ctx \<Rightarrow> 'n capture_group \<Rightarrow> zone_state \<Rightarrow> zone_state exec" where
  "group_step N ctx g st =
     (case rank_zones N g (rc_zones ctx) (rc_affinity ctx) (rc_seed ctx) of
        [] \<Rightarrow> ret st
      | zi # _ \<Rightarrow> do {
          let hosts = sort (cg_hosts g);
          (st, placed) \<leftarrow> fold_exec (host_step N ctx zi) hosts (st, False);
          ret (if placed
            then st\<lparr>zs_subnets := zs_subnets st @ [(no_show N (cg_net g), no_show N (zt_net (rc_zones ctx ! zi)))]\<rparr>
            else st)
        })"

definition reconcile_capture_into_zones ::
  "'n net_ops \<Rightarrow> 'h capture \<Rightarrow> 'n capture_group list \<Rightarrow> 'n reconcile_ctx \<Rightarrow>
   ('h capture \<times> remap_summary \<times> new_asset list) exec"
where
  "reconcile_capture_into_zones N cap groups ctx =
     (if rc_zones ctx = [] then ret (cap, \<lparr>rs_host_count = 0, rs_subnets = []\<rparr>, [])
      else do {
        let order = sort_key (\<lambda>i. no_network N (cg_net (groups ! i))) [0..<length groups];
        st \<leftarrow> fold_exec (\<lambda>gi. group_step N ctx (groups ! gi)) order (zone_init ctx);
        cap \<leftarrow> (if zs_resolved st = []
          then apply_host_map cap (map_of (zs_map st)) (rc_device_macs ctx) (rc_seed ctx) (rc_remap_mac ctx)
          else apply_host_map cap (map_of (zs_map st)) (rc_device_macs ctx ++ map_of (zs_resolved st))
            (rc_seed ctx) (rc_remap_mac ctx));
        (cap, dropped) \<leftarrow> drop_incoherent_frames cap (snd ` set (zs_map st));
        (cap, leaked) \<leftarrow> drop_payload_leak_frames cap (fst ` set (zs_map st));
        ret (cap, \<lparr>rs_host_count = length (zs_map st), rs_subnets = zs_subnets st\<rparr>, zs_new st)
      })"

section \<open>The MAC loop ends\<close>

lemma word_three_bytes:
  fixes x y z :: u8
  defines "h \<equiv> push_bit 32 (ucast x :: u64) OR push_bit 24 (ucast y) OR push_bit 16 (ucast z)"
  shows "ucast (drop_bit 32 h) = x" and "ucast (drop_bit 24 h) = y" and "ucast (drop_bit 16 h) = z"
  unfolding h_def by (rule bit_word_eqI; auto simp: bit_simps dest: bit_imp_le_length)+

lemma host_mac_reaches:
  "\<exists>salt. host_mac_salted seed ip salt = (let oui = it_pool_oui (ucast ip) in [oui ! 0, oui ! 1, oui ! 2, x, y, z])"
proof -
  let ?h = "push_bit 32 (ucast x :: u64) OR push_bit 24 (ucast y) OR push_bit 16 (ucast z)"
  have "surj splitmix64"
    by (rule finite_UNIV_inj_surj) (auto simp: inj_def splitmix64_inj)
  then obtain w where w: "splitmix64 w = ?h" by (metis surjD)
  let ?c = "ucast ip * 0x9E3779B97F4A7C15 :: u64"
  have "(seed + ((w XOR ?c) - seed)) XOR ?c = w" by (simp add: xor.assoc)
  then show ?thesis
    using word_three_bytes [of x y z] w
    by (intro exI [of _ "(w XOR ?c) - seed"])
      (simp add: host_mac_salted_def stable_mac_def to_be64_def Let_def)
qed

lemma free_salt:
  assumes "finite used" and "card used < 2 ^ 24"
  shows "\<exists>salt. host_mac_salted seed ip salt \<notin> used"
proof (rule ccontr)
  assume "\<not> ?thesis"
  then have all: "host_mac_salted seed ip salt \<in> used" for salt by blast
  let ?f = "\<lambda>(x :: u8, y :: u8, z :: u8). let oui = it_pool_oui (ucast ip) in [oui ! 0, oui ! 1, oui ! 2, x, y, z]"
  have "range ?f \<subseteq> used"
  proof safe
    fix x y z
    show "(let oui = it_pool_oui (ucast ip) in [oui ! 0, oui ! 1, oui ! 2, x, y, z]) \<in> used"
      using host_mac_reaches [of seed ip x y z] all by metis
  qed
  moreover have "inj ?f" by (auto simp: inj_def Let_def)
  then have "card (range ?f) = CARD(u8 \<times> u8 \<times> u8)" by (rule card_image)
  ultimately have "CARD(u8 \<times> u8 \<times> u8) \<le> card used" using card_mono [OF assms(1)] by metis
  then show False using assms(2) by (simp add: card_word)
qed

lemma find_mac_steps:
  assumes "host_mac_salted seed ip (salt + word_of_nat k) \<notin> used"
  shows "\<exists>salt'. find_mac seed ip used salt = Some (host_mac_salted seed ip salt', salt') \<and>
    host_mac_salted seed ip salt' \<notin> used"
  using assms
proof (induction k arbitrary: salt)
  case 0
  then show ?case by (subst find_mac.simps) (simp add: Let_def)
next
  case (Suc k)
  have "host_mac_salted seed ip ((salt + 1) + word_of_nat k) \<notin> used"
    using Suc.prems by (simp add: ac_simps)
  from Suc.IH [OF this] show ?case by (subst find_mac.simps) (auto simp: Let_def)
qed

lemma find_mac_total:
  assumes "finite used" and "card used < 2 ^ 24"
  obtains salt where "find_mac seed ip used 0 = Some (host_mac_salted seed ip salt, salt)"
    and "host_mac_salted seed ip salt \<notin> used"
proof -
  obtain salt where "host_mac_salted seed ip salt \<notin> used" using free_salt [OF assms] by blast
  then have "host_mac_salted seed ip (0 + word_of_nat (unat salt)) \<notin> used" by simp
  from find_mac_steps [OF this] that show thesis by blast
qed

section \<open>The invariant of the reconciliation\<close>

text \<open>The addresses spoken for before the capture is looked at.\<close>

definition plan_base :: "'n reconcile_ctx \<Rightarrow> ipv4 set" where
  "plan_base ctx = (\<Union>z \<in> set (rc_zones ctx). zt_reserved z) \<union> snd ` set (rc_registered ctx)"

definition asset_of :: "'n net_ops \<Rightarrow> 'n zone_target \<Rightarrow> new_asset \<Rightarrow> bool" where
  "asset_of N z a \<longleftrightarrow> no_contains N (zt_net z) (na_ip a) \<and> na_vendor a = zt_vendor z \<and>
     na_protocol a = zt_protocol z \<and> na_purdue_level a = zt_purdue_level z \<and>
     na_subnet_cidr a = no_show N (zt_net z)"

definition assets_ok :: "'n net_ops \<Rightarrow> 'n reconcile_ctx \<Rightarrow> new_asset list \<Rightarrow> bool" where
  "assets_ok N ctx as \<longleftrightarrow>
     distinct (map na_ip as) \<and> na_ip ` set as \<inter> plan_base ctx = {} \<and>
     distinct (map na_mac as) \<and> na_mac ` set as \<inter> rc_reserved_macs ctx = {} \<and>
     (\<forall>a \<in> set as. \<exists>z \<in> set (rc_zones ctx). asset_of N z a)"

text \<open>The MAC overrides agree with the registered assets.\<close>

definition resolved_ok :: "u64 \<Rightarrow> new_asset list \<Rightarrow> (u32 \<times> mac) list \<Rightarrow> bool" where
  "resolved_ok seed as res \<longleftrightarrow> fst ` set res \<subseteq> na_ip ` set as \<and> (\<forall>m \<in> snd ` set res. length m = 6) \<and>
     (\<forall>a \<in> set as. map_of res (na_ip a) = Some (na_mac a) \<or>
        map_of res (na_ip a) = None \<and> na_mac a = host_mac seed (na_ip a))"

definition zone_inv :: "'n net_ops \<Rightarrow> 'n reconcile_ctx \<Rightarrow> zone_state \<Rightarrow> bool" where
  "zone_inv N ctx st \<longleftrightarrow>
     zs_budget st + length (zs_new st) = rc_budget ctx \<and>
     zs_taken st = plan_base ctx \<union> na_ip ` set (zs_new st) \<and>
     zs_used_macs st = rc_reserved_macs ctx \<union> na_mac ` set (zs_new st) \<and>
     assets_ok N ctx (zs_new st) \<and> resolved_ok (rc_seed ctx) (zs_new st) (zs_resolved st) \<and>
     distinct (map fst (zs_map st)) \<and>
     snd ` set (zs_map st) \<subseteq> plan_base ctx \<union> na_ip ` set (zs_new st)"

definition macs_left :: "'n reconcile_ctx \<Rightarrow> bool" where
  "macs_left ctx \<longleftrightarrow> finite (rc_reserved_macs ctx) \<and> card (rc_reserved_macs ctx) + rc_budget ctx \<le> 2 ^ 24"

lemma plan_base_reserved: "z \<in> set (rc_zones ctx) \<Longrightarrow> a \<in> zt_reserved z \<Longrightarrow> a \<in> plan_base ctx"
  and plan_base_registered: "(h, a) \<in> set (rc_registered ctx) \<Longrightarrow> a \<in> plan_base ctx"
  by (auto simp: plan_base_def intro!: rev_image_eqI)

lemma zone_init_inv: "zone_inv N ctx (zone_init ctx)"
  by (simp add: zone_inv_def zone_init_def plan_base_def assets_ok_def resolved_ok_def)

lemma place_in_zone_Some:
  assumes "net_ok N" and "place_in_zone N net taken d = (Some ip, taken')"
  shows "ip \<notin> taken" and "taken' = insert ip taken" and "no_contains N net ip"
proof -
  have h: "a \<in> set (no_hosts N net) \<Longrightarrow> no_contains N net a" for a
    using assms(1) unfolding net_ok_def by blast
  have "ip \<notin> taken \<and> taken' = insert ip taken \<and> no_contains N net ip"
    using assms(2) h
    by (auto simp: place_in_zone_def Let_def is_usable_host_def find_Some_iff split: if_splits option.splits)
  then show "ip \<notin> taken" and "taken' = insert ip taken" and "no_contains N net ip" by auto
qed

lemma update_values: "snd ` set (AList.update k v al) \<subseteq> insert v (snd ` set al)"
  by (induction al) auto

lemma update_values_in: "snd ` set al \<subseteq> A \<Longrightarrow> v \<in> A \<Longrightarrow> snd ` set (AList.update k v al) \<subseteq> A"
  using update_values [of k v al] by blast

lemma update_keys: "fst ` set (AList.update k v al) = insert k (fst ` set al)"
  by (simp add: dom_update)

lemma zone_inv_map:
  assumes "zone_inv N ctx st" and "v \<in> plan_base ctx \<union> na_ip ` set (zs_new st)"
  shows "zone_inv N ctx (st\<lparr>zs_map := AList.update k v (zs_map st)\<rparr>)"
  using assms update_values_in [of "zs_map st"] by (simp add: zone_inv_def distinct_update)

lemma resolved_ok_snoc:
  assumes "resolved_ok seed as res" and "na_ip a \<notin> na_ip ` set as" and "na_mac a = host_mac_salted seed (na_ip a) salt"
  shows "resolved_ok seed (as @ [a]) (if salt \<noteq> 0 then AList.update (na_ip a) (na_mac a) res else res)"
proof -
  have none: "map_of res (na_ip a) = None"
    using assms(1,2) by (auto simp: resolved_ok_def map_of_eq_None_iff)
  have ne: "na_ip b \<noteq> na_ip a" if "b \<in> set as" for b using assms(2) that by (metis imageI)
  have "snd ` set (AList.update (na_ip a) (na_mac a) res) \<subseteq> {m. length m = 6}"
    by (rule update_values_in) (use assms(1,3) in \<open>auto simp: resolved_ok_def\<close>)
  then have "\<forall>m \<in> snd ` set (AList.update (na_ip a) (na_mac a) res). length m = 6" by blast
  then show ?thesis
    using assms(1,3) none ne by (simp add: resolved_ok_def update_conv' update_keys host_mac_def) blast
qed

lemma place_new_ok:
  assumes "net_ok N" and "macs_left ctx" and "zone_inv N ctx st" and z: "z \<in> set (rc_zones ctx)"
  obtains r where "place_new N ctx z host st = ret r"
    and "\<And>st'. r = Some st' \<Longrightarrow> zone_inv N ctx st' \<and> fst ` set (zs_map st') = insert host (fst ` set (zs_map st))"
proof (cases "0 < zs_budget st \<and> fst (place_in_zone N (zt_net z) (zs_taken st) host) \<noteq> None")
  case False
  then have "place_new N ctx z host st = ret None"
    by (auto simp: place_new_def split: prod.splits option.splits)
  with that show thesis by blast
next
  case True
  then obtain ip taken where p: "place_in_zone N (zt_net z) (zs_taken st) host = (Some ip, taken)"
    by (cases "place_in_zone N (zt_net z) (zs_taken st) host") auto
  note pp = place_in_zone_Some [OF assms(1) p]
  let ?as = "zs_new st"
  have inv: "zs_budget st + length ?as = rc_budget ctx" "zs_taken st = plan_base ctx \<union> na_ip ` set ?as"
    "zs_used_macs st = rc_reserved_macs ctx \<union> na_mac ` set ?as" "assets_ok N ctx ?as"
    "resolved_ok (rc_seed ctx) ?as (zs_resolved st)" "distinct (map fst (zs_map st))"
    "snd ` set (zs_map st) \<subseteq> plan_base ctx \<union> na_ip ` set ?as"
    using assms(3) by (simp_all add: zone_inv_def)
  have f: "finite (zs_used_macs st)" using assms(2) inv(3) by (simp add: macs_left_def)
  have "card (zs_used_macs st) \<le> card (rc_reserved_macs ctx) + length ?as"
    unfolding inv(3) by (rule order.trans [OF card_Un_le]) (metis add_left_mono card_length length_map set_map)
  then have "card (zs_used_macs st) < 2 ^ 24"
    using assms(2) inv(1) True by (simp add: macs_left_def)
  from find_mac_total [OF f this] obtain salt where
    m: "find_mac (rc_seed ctx) ip (zs_used_macs st) 0 = Some (host_mac_salted (rc_seed ctx) ip salt, salt)"
      "host_mac_salted (rc_seed ctx) ip salt \<notin> zs_used_macs st" by blast
  define a where "a = \<lparr>na_origin = host, na_ip = ip, na_mac = host_mac_salted (rc_seed ctx) ip salt,
    na_vendor = zt_vendor z, na_protocol = zt_protocol z, na_purdue_level = zt_purdue_level z,
    na_subnet_cidr = no_show N (zt_net z)\<rparr>"
  define st' where "st' = st\<lparr>zs_taken := taken, zs_map := AList.update host ip (zs_map st),
     zs_used_macs := insert (na_mac a) (zs_used_macs st),
     zs_resolved := (if salt \<noteq> 0 then AList.update ip (na_mac a) (zs_resolved st) else zs_resolved st),
     zs_new := ?as @ [a], zs_budget := zs_budget st - 1\<rparr>"
  have a: "na_ip a = ip" "na_mac a = host_mac_salted (rc_seed ctx) ip salt" "asset_of N z a"
    using pp(3) by (simp_all add: a_def asset_of_def)
  have r: "resolved_ok (rc_seed ctx) (?as @ [a])
      (if salt \<noteq> 0 then AList.update (na_ip a) (na_mac a) (zs_resolved st) else zs_resolved st)"
    using pp(1) a by (intro resolved_ok_snoc [OF inv(5)]) (auto simp: inv(2))
  have "assets_ok N ctx (?as @ [a])"
    using inv(4) a pp(1) m(2) z unfolding inv(2,3) by (auto simp: assets_ok_def)
  moreover have "snd ` set (AList.update host ip (zs_map st)) \<subseteq> plan_base ctx \<union> na_ip ` set (?as @ [a])"
    by (rule update_values_in) (use inv(7) a(1) in auto)
  ultimately have "zone_inv N ctx st'"
    using inv(1,6) True r a pp(2)
    unfolding zone_inv_def st'_def inv(2,3) by (simp add: distinct_update split: if_splits)
  moreover have "fst ` set (zs_map st') = insert host (fst ` set (zs_map st))"
    by (simp add: st'_def update_keys)
  moreover have "place_new N ctx z host st = ret (Some st')"
    using True p m(1) by (simp add: place_new_def st'_def a_def)
  ultimately show thesis using that by blast
qed

text \<open>A loop that collects keys: \<open>K\<close> grows by at least \<open>g x\<close> and at most \<open>h x\<close> in each round.\<close>

lemma fold_exec_collect:
  assumes "P s"
    and "\<And>x s. x \<in> set xs \<Longrightarrow> P s \<Longrightarrow>
      \<exists>s'. f x s = ret s' \<and> P s' \<and> K s \<union> g x \<subseteq> K s' \<and> K s' \<subseteq> K s \<union> h x"
  shows "\<exists>s'. fold_exec f xs s = ret s' \<and> P s' \<and> K s \<union> (\<Union>x \<in> set xs. g x) \<subseteq> K s' \<and>
    K s' \<subseteq> K s \<union> (\<Union>x \<in> set xs. h x)"
  using assms
proof (induction xs arbitrary: s)
  case (Cons x xs)
  obtain s1 where 1: "f x s = ret s1" "P s1" "K s \<union> g x \<subseteq> K s1" "K s1 \<subseteq> K s \<union> h x"
    using Cons.prems(2) [of x s] Cons.prems(1) by auto
  obtain s2 where 2: "fold_exec f xs s1 = ret s2" "P s2" "K s1 \<union> (\<Union>x \<in> set xs. g x) \<subseteq> K s2"
    "K s2 \<subseteq> K s1 \<union> (\<Union>x \<in> set xs. h x)"
    using Cons.IH [OF 1(2)] Cons.prems(2) by (metis list.set_intros(2))
  show ?case using 1 2 by (intro exI [of _ s2]) auto
qed simp

definition map_keys :: "zone_state \<Rightarrow> u32 set" where
  "map_keys st = fst ` set (zs_map st)"

definition has_device :: "'n reconcile_ctx \<Rightarrow> bool" where
  "has_device ctx \<longleftrightarrow> (\<exists>z \<in> set (rc_zones ctx). zt_reserved z \<noteq> {})"

lemma min_of_in: "min_of A = Some t \<Longrightarrow> t \<in> A"
  by (auto simp: min_of_def intro!: Min_in split: if_splits)

lemma force_map_target_in:
  fixes ctx :: "'n reconcile_ctx"
  assumes "force_map_target (rc_zones ctx) zi = Some t"
  shows "t \<in> plan_base ctx"
proof -
  have "t \<in> (\<Union>z \<in> set (rc_zones ctx). zt_reserved z)"
    using assms by (auto simp: force_map_target_def split: if_splits option.splits intro: nth_mem dest!: min_of_in)
  then show ?thesis by (auto simp: plan_base_def)
qed

lemma force_map_target_None: "force_map_target (rc_zones ctx) zi = None \<Longrightarrow> \<not> has_device ctx"
  by (auto simp: force_map_target_def has_device_def min_of_def split: if_splits option.splits)

lemma host_step_ok:
  fixes N :: "'n net_ops"
  assumes "net_ok N" and "macs_left ctx" and "zi < length (rc_zones ctx)" and "zone_inv N ctx (fst sp)"
  shows "\<exists>sp'. host_step N ctx zi host sp = ret sp' \<and> zone_inv N ctx (fst sp') \<and>
    map_keys (fst sp) \<union> (if has_device ctx then {host} else {}) \<subseteq> map_keys (fst sp') \<and>
    map_keys (fst sp') \<subseteq> map_keys (fst sp) \<union> {host}"
proof (cases "map_of (rc_registered ctx) host")
  case (Some nv)
  then have "nv \<in> plan_base ctx" by (intro plan_base_registered) (rule map_of_SomeD)
  then show ?thesis using Some zone_inv_map [OF assms(4), of nv host]
    by (cases sp) (auto simp: host_step_def map_keys_def update_keys)
next
  case None
  obtain r where r: "place_new N ctx (rc_zones ctx ! zi) host (fst sp) = ret r"
    "\<And>st'. r = Some st' \<Longrightarrow> zone_inv N ctx st' \<and>
      fst ` set (zs_map st') = insert host (fst ` set (zs_map (fst sp)))"
    using place_new_ok [OF assms(1,2,4) nth_mem [OF assms(3)]] by metis
  show ?thesis
  proof (cases r)
    case (Some st')
    then show ?thesis using None r by (cases sp) (auto simp: host_step_def map_keys_def)
  next
    case r0: None
    show ?thesis
    proof (cases "force_map_target (rc_zones ctx) zi")
      case (Some t)
      then show ?thesis using None r(1) r0 zone_inv_map [OF assms(4), of t host] force_map_target_in [OF Some]
        by (cases sp) (auto simp: host_step_def map_keys_def update_keys)
    next
      case t0: None
      then show ?thesis using None r(1) r0 assms(4) force_map_target_None [OF t0]
        by (cases sp) (auto simp: host_step_def)
    qed
  qed
qed

lemma rank_zones_in: "zi \<in> set (rank_zones N g zones aff seed) \<Longrightarrow> zi < length zones"
  by (simp add: rank_zones_def)

lemma rank_zones_Nil: "rank_zones N g zones aff seed = [] \<longleftrightarrow> zones = []"
proof -
  have "length (rank_zones N g zones aff seed) = length zones" by (simp add: rank_zones_def)
  then show ?thesis by (metis length_0_conv)
qed

lemma group_step_ok:
  fixes N :: "'n net_ops"
  assumes "net_ok N" and "macs_left ctx" and "rc_zones ctx \<noteq> []" and "zone_inv N ctx st"
  shows "\<exists>st'. group_step N ctx g st = ret st' \<and> zone_inv N ctx st' \<and>
    map_keys st \<union> (if has_device ctx then set (cg_hosts g) else {}) \<subseteq> map_keys st' \<and>
    map_keys st' \<subseteq> map_keys st \<union> set (cg_hosts g)"
proof -
  obtain zi zs where r: "rank_zones N g (rc_zones ctx) (rc_affinity ctx) (rc_seed ctx) = zi # zs"
    using assms(3) rank_zones_Nil by (metis neq_Nil_conv)
  then have zi: "zi < length (rc_zones ctx)"
    using rank_zones_in [of zi N g "rc_zones ctx" "rc_affinity ctx" "rc_seed ctx"] by simp
  obtain st' placed where f: "fold_exec (host_step N ctx zi) (sort (cg_hosts g)) (st, False) = ret (st', placed)"
    "zone_inv N ctx st'"
    "map_keys st \<union> (\<Union>x \<in> set (cg_hosts g). if has_device ctx then {x} else {}) \<subseteq> map_keys st'"
    "map_keys st' \<subseteq> map_keys st \<union> (\<Union>x \<in> set (cg_hosts g). {x})"
    using fold_exec_collect [of "\<lambda>sp. zone_inv N ctx (fst sp)" "(st, False)" "sort (cg_hosts g)" "host_step N ctx zi"
        "\<lambda>sp. map_keys (fst sp)" "\<lambda>x. if has_device ctx then {x} else {}" "\<lambda>x. {x}"]
      host_step_ok [OF assms(1,2) zi] assms(4) by auto
  have "zone_inv N ctx (st'\<lparr>zs_subnets := x\<rparr>)" for x
    using f(2) by (simp add: zone_inv_def)
  moreover have "map_keys (st'\<lparr>zs_subnets := x\<rparr>) = map_keys st'" for x
    by (simp add: map_keys_def)
  ultimately show ?thesis using r f by (auto simp: group_step_def)
qed

text \<open>The placement loop over all groups.\<close>

definition place_groups :: "'n net_ops \<Rightarrow> 'n reconcile_ctx \<Rightarrow> 'n capture_group list \<Rightarrow> zone_state exec" where
  "place_groups N ctx groups =
     fold_exec (\<lambda>gi. group_step N ctx (groups ! gi))
       (sort_key (\<lambda>i. no_network N (cg_net (groups ! i))) [0..<length groups]) (zone_init ctx)"

lemma place_groups_ok:
  fixes N :: "'n net_ops"
  assumes "net_ok N" and "macs_left ctx" and "rc_zones ctx \<noteq> []"
  obtains st where "place_groups N ctx groups = ret st" and "zone_inv N ctx st"
    and "map_keys st \<subseteq> (\<Union>g \<in> set groups. set (cg_hosts g))"
    and "has_device ctx \<Longrightarrow> map_keys st = (\<Union>g \<in> set groups. set (cg_hosts g))"
proof -
  let ?order = "sort_key (\<lambda>i. no_network N (cg_net (groups ! i))) [0..<length groups]"
  have u: "(\<Union>i \<in> {0..<length groups}. set (cg_hosts (groups ! i))) = (\<Union>g \<in> set groups. set (cg_hosts g))"
  proof -
    have "set groups = (!) groups ` {0..<length groups}" using nth_image [of "length groups" groups] by simp
    then show ?thesis by (simp only: image_image UN_simps)
  qed
  have "map_keys (zone_init ctx) = {}" by (simp add: map_keys_def zone_init_def)
  with fold_exec_collect [of "zone_inv N ctx" "zone_init ctx" ?order "\<lambda>gi. group_step N ctx (groups ! gi)"
      map_keys "\<lambda>i. if has_device ctx then set (cg_hosts (groups ! i)) else {}" "\<lambda>i. set (cg_hosts (groups ! i))"]
    group_step_ok [OF assms] zone_init_inv [of N ctx]
  obtain st where "place_groups N ctx groups = ret st" "zone_inv N ctx st"
    "(\<Union>i \<in> {0..<length groups}. if has_device ctx then set (cg_hosts (groups ! i)) else {}) \<subseteq> map_keys st"
    "map_keys st \<subseteq> (\<Union>i \<in> {0..<length groups}. set (cg_hosts (groups ! i)))"
    by (auto simp: place_groups_def)
  with u that show thesis by (auto split: if_splits)
qed

section \<open>The reconciled capture\<close>

definition mac_overrides :: "'n reconcile_ctx \<Rightarrow> zone_state \<Rightarrow> u32 \<Rightarrow> mac option" where
  "mac_overrides ctx st = rc_device_macs ctx ++ map_of (zs_resolved st)"

lemma reconcile_eq:
  assumes "rc_zones ctx \<noteq> []" and "place_groups N ctx groups = ret st"
  shows "reconcile_capture_into_zones N cap groups ctx = do {
      cap \<leftarrow> apply_host_map cap (map_of (zs_map st)) (mac_overrides ctx st) (rc_seed ctx) (rc_remap_mac ctx);
      (cap, dropped) \<leftarrow> drop_incoherent_frames cap (snd ` set (zs_map st));
      (cap, leaked) \<leftarrow> drop_payload_leak_frames cap (fst ` set (zs_map st));
      ret (cap, \<lparr>rs_host_count = length (zs_map st), rs_subnets = zs_subnets st\<rparr>, zs_new st)
    }"
  using assms by (simp add: reconcile_capture_into_zones_def place_groups_def mac_overrides_def)

text \<open>The MAC written into frames for a new asset is the one reported for it.\<close>

lemma mac_overrides_asset:
  assumes "zone_inv N ctx st" and "a \<in> set (zs_new st)" and "dom (rc_device_macs ctx) \<subseteq> plan_base ctx"
  shows "mac_for (mac_overrides ctx st) (rc_seed ctx) (na_ip a) = na_mac a"
proof -
  have "na_ip a \<notin> plan_base ctx" using assms(1,2) by (auto simp: zone_inv_def assets_ok_def)
  then have "rc_device_macs ctx (na_ip a) = None" using assms(3) by auto
  moreover have "map_of (zs_resolved st) (na_ip a) = Some (na_mac a) \<or>
      map_of (zs_resolved st) (na_ip a) = None \<and> na_mac a = host_mac (rc_seed ctx) (na_ip a)"
    using assms(1,2) by (simp add: zone_inv_def resolved_ok_def)
  ultimately show ?thesis by (auto simp: mac_for_def mac_overrides_def map_add_def)
qed

text \<open>A host that rides a device or a registered asset keeps the MAC the caller gave for it.\<close>

lemma mac_overrides_base:
  assumes "zone_inv N ctx st" and "a \<in> plan_base ctx"
  shows "mac_overrides ctx st a = rc_device_macs ctx a"
proof -
  have "a \<notin> na_ip ` set (zs_new st)" using assms by (auto simp: zone_inv_def assets_ok_def)
  then have "map_of (zs_resolved st) a = None"
    using assms(1) by (auto simp: zone_inv_def resolved_ok_def map_of_eq_None_iff)
  then show ?thesis by (simp add: mac_overrides_def map_add_def)
qed

lemma mac_overrides_ok:
  assumes "zone_inv N ctx st" and "macs_ok (rc_device_macs ctx)"
  shows "macs_ok (mac_overrides ctx st)"
proof -
  have "length m = 6" if "map_of (zs_resolved st) i = Some m" for i m
    using assms(1) map_of_SomeD [OF that] by (force simp: zone_inv_def resolved_ok_def)
  then show ?thesis using assms(2) by (auto simp: macs_ok_def mac_overrides_def map_add_Some_iff)
qed

text \<open>What the reconciliation returns: the placed hosts, and the survivors of the two filters.\<close>

lemma reconcile_total:
  fixes N :: "'n net_ops"
  assumes "net_ok N" and "macs_left ctx" and "macs_ok (rc_device_macs ctx)"
  shows "\<exists>r. reconcile_capture_into_zones N cap groups ctx = ret r"
proof (cases "rc_zones ctx = []")
  case True
  then show ?thesis by (simp add: reconcile_capture_into_zones_def)
next
  case False
  obtain st where st: "place_groups N ctx groups = ret st" "zone_inv N ctx st"
    using place_groups_ok [OF assms(1,2) False] by metis
  obtain cap1 where 2: "apply_host_map cap (map_of (zs_map st)) (mac_overrides ctx st) (rc_seed ctx) (rc_remap_mac ctx)
      = ret cap1"
    using apply_host_map_total [OF mac_overrides_ok [OF st(2) assms(3)]] by blast
  obtain cap2 n where 3: "drop_incoherent_frames cap1 (snd ` set (zs_map st)) = ret (cap2, n)"
    by (simp add: drop_incoherent_frames_def plan_filter.drop_eq)
  obtain cap3 n' where 4: "drop_payload_leak_frames cap2 (fst ` set (zs_map st)) = ret (cap3, n')"
    using drop_leak_total by blast
  from 2 3 4 show ?thesis by (simp add: reconcile_eq [OF False st(1)])
qed

lemma reconcile_result:
  fixes N :: "'n net_ops"
  assumes "net_ok N" and "macs_left ctx" and "rc_zones ctx \<noteq> []"
    and "reconcile_capture_into_zones N cap groups ctx = ret (cap', s, as)"
  obtains st cap1 cap2 n n' where "place_groups N ctx groups = ret st" and "zone_inv N ctx st"
    and "apply_host_map cap (map_of (zs_map st)) (mac_overrides ctx st) (rc_seed ctx) (rc_remap_mac ctx) = ret cap1"
    and "drop_incoherent_frames cap1 (snd ` set (zs_map st)) = ret (cap2, n)"
    and "drop_payload_leak_frames cap2 (map_keys st) = ret (cap', n')"
    and "as = zs_new st" and "rs_host_count s = card (map_keys st)"
    and "has_device ctx \<Longrightarrow> map_keys st = (\<Union>g \<in> set groups. set (cg_hosts g))"
proof -
  obtain st where st: "place_groups N ctx groups = ret st" "zone_inv N ctx st"
    "has_device ctx \<Longrightarrow> map_keys st = (\<Union>g \<in> set groups. set (cg_hosts g))"
    using place_groups_ok [OF assms(1-3)] by metis
  have "card (map_keys st) = length (zs_map st)"
    using st(2) distinct_card [of "map fst (zs_map st)"] by (simp add: zone_inv_def map_keys_def)
  then show thesis
    using assms(4) that st unfolding reconcile_eq [OF assms(3) st(1)]
    by (auto simp: map_keys_def)
qed

lemma reconcile_survivors:
  fixes N :: "'n net_ops"
  assumes "net_ok N" and "macs_left ctx" and "rc_zones ctx \<noteq> []"
    and rc: "reconcile_capture_into_zones N cap groups ctx = ret (cap', s, as)"
    and p: "p \<in> set (cap_packets cap')"
  obtains l valid where "parse_layout (pk_data p) = ret (Some l)" and "coherent_at valid (pk_data p) l"
    and "valid \<subseteq> plan_base ctx \<union> na_ip ` set as"
    and "has_device ctx \<longrightarrow> (\<forall>g \<in> set groups. \<forall>h \<in> set (cg_hosts g). \<not> sublist (octets h) (pk_data p))"
proof -
  obtain st cap1 cap2 n n' where st: "zone_inv N ctx st" "as = zs_new st"
    "has_device ctx \<Longrightarrow> map_keys st = (\<Union>g \<in> set groups. set (cg_hosts g))"
    and 3: "drop_incoherent_frames cap1 (snd ` set (zs_map st)) = ret (cap2, n)"
    and 4: "drop_payload_leak_frames cap2 (map_keys st) = ret (cap', n')"
    using reconcile_result [OF assms(1-3) rc] by metis
  have p2: "p \<in> set (cap_packets cap2)" using drop_leak_survivors(1) [OF 4] p by blast
  have "frame_is_plan_coherent (snd ` set (zs_map st)) (pk_data p) = ret True"
    using p2 plan_filter.drop_survivors(1) [OF 3 [unfolded drop_incoherent_frames_def]] by auto
  then obtain l where "parse_layout (pk_data p) = ret (Some l)" "coherent_at (snd ` set (zs_map st)) (pk_data p) l"
    by (auto simp: coherent_eq split: option.splits)
  moreover have "snd ` set (zs_map st) \<subseteq> plan_base ctx \<union> na_ip ` set as"
    using st by (simp add: zone_inv_def)
  moreover have "has_device ctx \<longrightarrow> (\<forall>g \<in> set groups. \<forall>h \<in> set (cg_hosts g). \<not> sublist (octets h) (pk_data p))"
    using drop_leak_survivors(3) [OF 4 p] st(3) by blast
  ultimately show thesis using that by blast
qed

text \<open>A zone is full when placement fails; a free preferred address is taken.\<close>

lemma place_in_zone_None:
  assumes "net_ok N" and "place_in_zone N net taken d = (None, taken')" and "no_prefix_len N net \<le> 30"
    and "is_usable_host N net ip"
  shows "ip \<in> taken"
proof -
  have "ip \<in> set (no_hosts N net)"
    using assms(1,3,4) unfolding net_ok_def is_usable_host_def by blast
  then show ?thesis using assms(2)
    by (auto simp: place_in_zone_def Let_def find_None_iff split: if_splits option.splits)
qed

section \<open>The MAC on the wire\<close>

lemma remap_macs_src:
  assumes f: "pf_ok f" and m: "macs_ok mac_map" and r: "remap_macs mac_map seed (Some ns) nd f = ret f'"
  shows "take 6 (drop 6 (pf_buf f')) = mac_for mac_map seed ns"
proof -
  let ?m = "mac_for mac_map seed ns"
  have len: "length ?m = 6" "length (mac_for mac_map seed x) = 6" for x using length_mac_for [OF m] by blast+
  define f1 where "f1 = f\<lparr>pf_buf := splice (pf_buf f) 6 ?m\<rparr>"
  have b: "12 \<le> length (pf_buf f)" using pf_ok_layout [OF f] by (simp add: layout_ok_def)
  have 1: "set_src_mac f ?m = ret f1"
    using b len by (simp add: set_src_mac_def f1_def put_slice_ok)
  have b1: "12 \<le> length (pf_buf f1)" using b len by (simp add: f1_def)
  have t1: "take 6 (drop 6 (pf_buf f1)) = ?m"
    using take_drop_splice_same [of 6 ?m "pf_buf f"] b len by (simp add: f1_def)
  show ?thesis
  proof (cases "nd = None \<or> pf_buf f1 ! 0 AND 1 \<noteq> 0")
    case True
    then have "f' = f1" using r 1 b1 by (auto simp: remap_macs_def rd_def split: option.splits if_splits)
    then show ?thesis using t1 by simp
  next
    case False
    then obtain x where x: "nd = Some x" "pf_buf f1 ! 0 AND 1 = 0" by auto
    have "f' = f1\<lparr>pf_buf := splice (pf_buf f1) 0 (mac_for mac_map seed x)\<rparr>"
      using r 1 x b1 len by (auto simp: remap_macs_def set_dst_mac_def put_slice_ok rd_def split: if_splits)
    then show ?thesis
      using t1 take_drop_splice_out [of 0 "mac_for mac_map seed x" "pf_buf f1" 6 6] b1 len by simp
  qed
qed

lemma remap_frame_src_mac:
  assumes p: "parse_layout d = ret (Some l)" and v4: "fl_l3_kind l = L3_Ipv4" and m: "macs_ok mac_map"
    and h: "hm (word32_at d (fl_l3 l + 12)) = Some ns"
    and r: "remap_frame hm mac_map seed True d = ret d'"
  shows "take 6 (drop 6 d') = mac_for mac_map seed ns"
proof -
  define f where "f = \<lparr>pf_buf = d, pf_layout = l\<rparr>"
  have f: "pf_ok f" "is_ipv4 f" and pf: "pf_parse d = ret (Some f)"
    using p v4 by (simp_all add: f_def pf_ok_def is_ipv4_def pf_parse_def)
  obtain f1 where 1: "remap_src hm f = ret (f1, Some ns)" "pf_ok f1" "pf_layout f1 = l"
    using remap_src_ok [OF f, of hm] h by (auto simp: f_def)
  have i1: "is_ipv4 f1" using 1(3) v4 by (simp add: is_ipv4_def)
  obtain f2 nd where 2: "remap_dst hm f1 = ret (f2, nd)" "pf_ok f2"
    using remap_dst_ok [OF 1(2) i1, of hm] by metis
  obtain f3 where 3: "pf_recompute f2 = ret f3" "pf_ok f3" using pf_recompute_ok [OF 2(2)] by metis
  obtain f4 where "remap_macs mac_map seed (Some ns) nd f3 = ret f4" "d' = pf_buf f4"
    using r pf f(2) 1(1) 2(1) 3(1) by (auto simp: remap_frame_def)
  with remap_macs_src [OF 3(2) m] show ?thesis by blast
qed

text \<open>Rewriting never changes the layout.\<close>

lemma layout_other_l4: "parse_layout d = ret (Some l) \<Longrightarrow> fl_l3_kind l = L3_Other \<Longrightarrow> fl_l4_kind l = L4_Other"
  by (erule parse_layout_Some) (auto elim!: parse_ipv4_Some)

lemma remap_frame_layout:
  assumes m: "macs_ok mac_map" and r: "remap_frame hm mac_map seed remap_mac d = ret d'"
  shows "parse_layout d' = parse_layout d"
proof -
  obtain lo where lo: "parse_layout d = ret lo" using parse_layout_total by blast
  show ?thesis
  proof (cases lo)
    case None
    with lo r show ?thesis by (simp add: remap_frame_def pf_parse_def)
  next
    case (Some l)
    then have p: "parse_layout d = ret (Some l)" using lo by simp
    show ?thesis
    proof (cases "fl_l3_kind l")
      case L3_Ipv4
      obtain x where "remap_frame hm mac_map seed remap_mac d = ret x" "parse_layout x = ret (Some l)"
        using remap_frame_ipv4 [OF p L3_Ipv4 m, of hm seed remap_mac] by metis
      then show ?thesis using r p by simp
    next
      case L3_Other
      then have o: "remap_frame hm mac_map seed remap_mac d = remap_arp_addrs d (fl_l3 l) hm mac_map seed remap_mac"
        using p by (simp add: remap_frame_def pf_parse_def is_ipv4_def)
      have l3: "14 \<le> fl_l3 l" using layout_l3_bounds [OF p] by simp
      show ?thesis
      proof (cases "arp_shape d (fl_l3 l)")
        case True
        obtain x where "remap_arp_addrs d (fl_l3 l) hm mac_map seed remap_mac = ret x"
          "agree_on (- arp_bytes (fl_l3 l)) d x"
          using remap_arp_ok [OF True l3 m, of hm seed remap_mac] by metis
        then have "agree_on (- arp_bytes (fl_l3 l)) d d'" using r o by simp
        moreover have "layout_bytes l \<subseteq> - arp_bytes (fl_l3 l)"
          using L3_Other layout_other_l4 [OF p L3_Other] by (auto simp: layout_bytes_def arp_bytes_def)
        ultimately have "agree_on (layout_bytes l) d d'" by (rule agree_on_subset)
        then show ?thesis using parse_layout_cong [OF p] p by simp
      next
        case False
        then have "d' = d" using remap_frame_other [OF p L3_Other, of hm mac_map seed remap_mac] r by simp
        then show ?thesis by simp
      qed
    qed
  qed
qed

text \<open>Frames of a newly registered host carry the MAC reported for it.\<close>

lemma reconcile_wire_mac:
  fixes N :: "'n net_ops"
  assumes "net_ok N" and "macs_left ctx" and "rc_zones ctx \<noteq> []" and "rc_remap_mac ctx"
    and "macs_ok (rc_device_macs ctx)" and "dom (rc_device_macs ctx) \<subseteq> plan_base ctx"
    and rc: "reconcile_capture_into_zones N cap groups ctx = ret (cap', s, as)"
    and p: "p \<in> set (cap_packets cap')" and l: "parse_layout (pk_data p) = ret (Some l)" "fl_l3_kind l = L3_Ipv4"
    and a: "a \<in> set as" "word32_at (pk_data p) (fl_l3 l + 12) = na_ip a"
    and ex: "\<And>q. q \<in> set (cap_packets cap) \<Longrightarrow> na_ip a \<notin> set (addrs_of (pk_data q))"
  shows "take 6 (drop 6 (pk_data p)) = na_mac a"
proof -
  obtain st cap1 cap2 n n' where st: "zone_inv N ctx st" "as = zs_new st"
    and 2: "apply_host_map cap (map_of (zs_map st)) (mac_overrides ctx st) (rc_seed ctx) (rc_remap_mac ctx) = ret cap1"
    and 3: "drop_incoherent_frames cap1 (snd ` set (zs_map st)) = ret (cap2, n)"
    and 4: "drop_payload_leak_frames cap2 (map_keys st) = ret (cap', n')"
    using reconcile_result [OF assms(1-3) rc] by metis
  note mo = mac_overrides_ok [OF st(1) assms(5)]
  have "p \<in> set (cap_packets cap1)"
    using drop_leak_survivors(1) [OF 4] p plan_filter.drop_survivors(1) [OF 3 [unfolded drop_incoherent_frames_def]]
    by blast
  moreover have "list_all2 (packet_rewrite (map_of (zs_map st)) (mac_overrides ctx st) (rc_seed ctx) (rc_remap_mac ctx))
      (cap_packets cap) (cap_packets cap1)"
    using apply_host_map_total [OF mo, of cap "map_of (zs_map st)" "rc_seed ctx" "rc_remap_mac ctx"] 2 by auto
  ultimately obtain q where q: "q \<in> set (cap_packets cap)"
    "packet_rewrite (map_of (zs_map st)) (mac_overrides ctx st) (rc_seed ctx) (rc_remap_mac ctx) q p"
    by (metis in_set_conv_nth list_all2_conv_all_nth)
  then have r: "remap_frame (map_of (zs_map st)) (mac_overrides ctx st) (rc_seed ctx) True (pk_data q) = ret (pk_data p)"
    using assms(4) by (auto simp: packet_rewrite_def)
  have lq: "parse_layout (pk_data q) = ret (Some l)" using remap_frame_layout [OF mo r] l(1) by simp
  let ?src = "word32_at (pk_data q) (fl_l3 l + 12)"
  obtain d' where "remap_frame (map_of (zs_map st)) (mac_overrides ctx st) (rc_seed ctx) True (pk_data q) = ret d'"
    "word32_at d' (fl_l3 l + 12) = subst (map_of (zs_map st)) ?src"
    using remap_frame_ipv4 [OF lq l(2) mo, of "map_of (zs_map st)" "rc_seed ctx" True] by metis
  then have src: "subst (map_of (zs_map st)) ?src = na_ip a" using r a(2) by simp
  have "?src \<in> set (addrs_of (pk_data q))" by (simp add: addrs_of_def lq layout_addrs_def l(2))
  then have "?src \<noteq> na_ip a" using ex [OF q(1)] by metis
  then have "map_of (zs_map st) ?src = Some (na_ip a)"
    using src by (auto simp: subst_def split: option.splits)
  from remap_frame_src_mac [OF lq l(2) mo this r] show ?thesis
    using mac_overrides_asset [OF st(1) _ assms(6), of a] a(1) st(2) by simp
qed

end
