(* ===== verification/Eth.thy ===== *)
theory Eth
  imports Remap
begin

text \<open>
  \<open>src/synth/eth.rs\<close> and \<open>src/synth/arp.rs\<close>: whole-frame builders.  A builder concatenates the
  headers around a payload and, for IPv4, lets the frame parser find the layout and fill in the
  checksums (\<open>finish\<close>).  The lemmas read the built frames back: \<open>tcp_view\<close> and \<open>udp_view\<close> are the
  header fields and the payload a receiver sees.
\<close>

section \<open>Code\<close>

definition ipv4_header :: "nat \<Rightarrow> u8 \<Rightarrow> ipv4 \<Rightarrow> ipv4 \<Rightarrow> bytes" where
  "ipv4_header total_len proto src dst =
     [0x45, 0x00] @ to_be16 (word_of_nat total_len) @ [0x00, 0x00, 0x40, 0x00] @ [0x40, proto] @
     [0x00, 0x00] @ octets src @ octets dst"

definition ethernet_header :: "mac \<Rightarrow> mac \<Rightarrow> u16 \<Rightarrow> bytes" where
  "ethernet_header smac dmac ethertype = dmac @ smac @ to_be16 ethertype"

definition finish :: "bytes \<Rightarrow> bytes exec" where
  "finish buf = do {
     r \<leftarrow> parse_layout buf;
     case r of None \<Rightarrow> ret buf | Some l \<Rightarrow> recompute_checksums buf l
   }"

definition udp_frame :: "mac \<Rightarrow> mac \<Rightarrow> ipv4 \<Rightarrow> ipv4 \<Rightarrow> u16 \<Rightarrow> u16 \<Rightarrow> bytes \<Rightarrow> bytes exec" where
  "udp_frame smac dmac src dst sport dport payload =
     (let udp_len = 8 + length payload;
          ip_total = 20 + udp_len;
          b = ethernet_header smac dmac 0x0800;
          b = b @ ipv4_header ip_total 17 src dst;
          b = b @ to_be16 sport @ to_be16 dport @ to_be16 (word_of_nat udp_len) @ [0x00, 0x00] @ payload
      in finish b)"

abbreviation TCP_FIN :: u8 where "TCP_FIN \<equiv> 0x01"
abbreviation TCP_SYN :: u8 where "TCP_SYN \<equiv> 0x02"
abbreviation TCP_PSH :: u8 where "TCP_PSH \<equiv> 0x08"
abbreviation TCP_ACK :: u8 where "TCP_ACK \<equiv> 0x10"

definition tcp_segment ::
  "mac \<Rightarrow> mac \<Rightarrow> ipv4 \<Rightarrow> ipv4 \<Rightarrow> u16 \<Rightarrow> u16 \<Rightarrow> u32 \<Rightarrow> u32 \<Rightarrow> u8 \<Rightarrow> bytes \<Rightarrow> bytes exec" where
  "tcp_segment smac dmac src dst sport dport seq ack flags payload =
     (let tcp_len = 20 + length payload;
          ip_total = 20 + tcp_len;
          b = ethernet_header smac dmac 0x0800;
          b = b @ ipv4_header ip_total 6 src dst;
          b = b @ to_be16 sport @ to_be16 dport @ to_be32 seq @ to_be32 ack @ [0x50, flags] @
            [0x20, 0x00] @ [0x00, 0x00] @ [0x00, 0x00] @ payload
      in finish b)"

definition tcp_frame ::
  "mac \<Rightarrow> mac \<Rightarrow> ipv4 \<Rightarrow> ipv4 \<Rightarrow> u16 \<Rightarrow> u16 \<Rightarrow> u32 \<Rightarrow> u32 \<Rightarrow> bytes \<Rightarrow> bytes exec" where
  "tcp_frame smac dmac src dst sport dport seq ack payload =
     tcp_segment smac dmac src dst sport dport seq ack (TCP_PSH OR TCP_ACK) payload"

definition l2_frame :: "mac \<Rightarrow> mac \<Rightarrow> u16 \<Rightarrow> bytes \<Rightarrow> bytes" where
  "l2_frame smac dmac ethertype payload = ethernet_header smac dmac ethertype @ payload"

definition snap_frame :: "mac \<Rightarrow> mac \<Rightarrow> bytes \<Rightarrow> u16 \<Rightarrow> bytes \<Rightarrow> bytes" where
  "snap_frame smac dmac oui protocol_id payload =
     (let len = 3 + 5 + length payload
      in dmac @ smac @ to_be16 (word_of_nat len) @ [0xAA, 0xAA, 0x03] @ oui @
         to_be16 protocol_id @ payload)"

subsection \<open>ARP\<close>

definition arp :: "mac \<Rightarrow> u16 \<Rightarrow> mac \<Rightarrow> ipv4 \<Rightarrow> mac \<Rightarrow> ipv4 \<Rightarrow> bytes" where
  "arp eth_dst oper sender_mac sender_ip target_mac target_ip =
     (let p = to_be16 1 @ to_be16 0x0800 @ [6] @ [4] @ to_be16 oper @ sender_mac @ octets sender_ip @
            target_mac @ octets target_ip;
          f = l2_frame sender_mac eth_dst 0x0806 p
      in if length f < 60 then f @ replicate (60 - length f) 0 else f)"

definition arp_request :: "mac \<Rightarrow> ipv4 \<Rightarrow> ipv4 \<Rightarrow> bytes" where
  "arp_request sender_mac sender_ip target_ip =
     arp [0xff, 0xff, 0xff, 0xff, 0xff, 0xff] 1 sender_mac sender_ip [0, 0, 0, 0, 0, 0] target_ip"

definition arp_reply :: "mac \<Rightarrow> ipv4 \<Rightarrow> mac \<Rightarrow> ipv4 \<Rightarrow> bytes" where
  "arp_reply sender_mac sender_ip target_mac target_ip =
     arp target_mac 2 sender_mac sender_ip target_mac target_ip"

definition arp_resolve :: "mac \<Rightarrow> ipv4 \<Rightarrow> mac \<Rightarrow> ipv4 \<Rightarrow> bytes \<times> bytes" where
  "arp_resolve requester_mac requester_ip owner_mac owner_ip =
     (arp_request requester_mac requester_ip owner_ip,
      arp_reply owner_mac owner_ip requester_mac requester_ip)"

section \<open>Reading a frame back\<close>

record l4_view =
  lv_src_mac :: mac
  lv_dst_mac :: mac
  lv_src :: ipv4
  lv_dst :: ipv4
  lv_sport :: u16
  lv_dport :: u16
  lv_payload :: bytes

record tcp_view = l4_view +
  tv_seq :: u32
  tv_ack :: u32
  tv_flags :: u8

definition tcp_view_of :: "bytes \<Rightarrow> tcp_view" where
  "tcp_view_of b =
     \<lparr>lv_src_mac = take 6 (drop 6 b), lv_dst_mac = take 6 b, lv_src = word32_at b 26, lv_dst = word32_at b 30,
      lv_sport = word16_at b 34, lv_dport = word16_at b 36, lv_payload = drop 54 b,
      tv_seq = word32_at b 38, tv_ack = word32_at b 42, tv_flags = b ! 47\<rparr>"

definition udp_view_of :: "bytes \<Rightarrow> l4_view" where
  "udp_view_of b =
     \<lparr>lv_src_mac = take 6 (drop 6 b), lv_dst_mac = take 6 b, lv_src = word32_at b 26, lv_dst = word32_at b 30,
      lv_sport = word16_at b 34, lv_dport = word16_at b 36, lv_payload = drop 42 b\<rparr>"

definition synth_layout :: "l4_kind \<Rightarrow> nat \<Rightarrow> nat \<Rightarrow> frame_layout" where
  "synth_layout k h n = \<lparr>fl_l3 = 14, fl_l3_kind = L3_Ipv4, fl_ihl = 20, fl_l4 = 34, fl_l4_kind = k,
     fl_payload = 34 + h, fl_end = 34 + h + n\<rparr>"

lemma mac6: "length m = 6 \<longleftrightarrow> (\<exists>a b c d e f. m = [a, b, c, d, e, f])"
  by (auto simp: numeral_eq_Suc length_Suc_conv)

section \<open>A built frame parses\<close>

text \<open>The common prefix: an Ethernet II header and a plain 20-byte IPv4 header.\<close>

definition synth_prefix :: "mac \<Rightarrow> mac \<Rightarrow> nat \<Rightarrow> u8 \<Rightarrow> ipv4 \<Rightarrow> ipv4 \<Rightarrow> bytes" where
  "synth_prefix smac dmac tot proto src dst = ethernet_header smac dmac 0x0800 @ ipv4_header tot proto src dst"

lemma synth_prefix_list:
  assumes "length smac = 6" and "length dmac = 6"
  obtains a b c d e f a' b' c' d' e' f' where "smac = [a, b, c, d, e, f]" and "dmac = [a', b', c', d', e', f']"
    and "synth_prefix smac dmac tot proto src dst =
      [a', b', c', d', e', f', a, b, c, d, e, f, 0x08, 0x00, 0x45, 0,
       ucast (drop_bit 8 (word_of_nat tot :: u16)), ucast (word_of_nat tot :: u16),
       0, 0, 0x40, 0, 0x40, proto, 0, 0,
       ucast (drop_bit 24 src), ucast (drop_bit 16 src), ucast (drop_bit 8 src), ucast src,
       ucast (drop_bit 24 dst), ucast (drop_bit 16 dst), ucast (drop_bit 8 dst), ucast dst]"
proof -
  obtain a b c d e f where s: "smac = [a, b, c, d, e, f]" using assms(1) unfolding mac6 by blast
  obtain a' b' c' d' e' f' where d: "dmac = [a', b', c', d', e', f']" using assms(2) unfolding mac6 by blast
  have e: "to_be16 0x0800 = [0x08, 0x00]" by (simp add: to_be16_def)
  show thesis
    by (rule that [OF s d])
      (simp only: s d synth_prefix_def ethernet_header_def ipv4_header_def e
        to_be16_def [of "word_of_nat tot"] octets_def to_be32_def append.simps)
qed

lemma length_synth_prefix [simp]:
  "length smac = 6 \<Longrightarrow> length dmac = 6 \<Longrightarrow> length (synth_prefix smac dmac tot proto src dst) = 34"
  by (simp add: synth_prefix_def ethernet_header_def ipv4_header_def octets_def)

lemma synth_parse:
  assumes m: "length smac = 6" "length dmac = 6" and t: "tot < 65536"
    and l: "length rest + 20 = tot"
    and k: "parse_l4 (synth_prefix smac dmac tot proto src dst @ rest) 34 proto = ret (Some (k, h))"
    and h: "h \<le> length rest"
  shows "parse_layout (synth_prefix smac dmac tot proto src dst @ rest)
    = ret (Some (synth_layout k h (length rest - h)))"
proof -
  let ?b = "synth_prefix smac dmac tot proto src dst @ rest"
  have len: "length ?b = 34 + length rest" using m by simp
  obtain a b c d e f a' b' c' d' e' f' where "smac = [a, b, c, d, e, f]"
    "dmac = [a', b', c', d', e', f']" and p: "synth_prefix smac dmac tot proto src dst =
      [a', b', c', d', e', f', a, b, c, d, e, f, 0x08, 0x00, 0x45, 0,
       ucast (drop_bit 8 (word_of_nat tot :: u16)), ucast (word_of_nat tot :: u16),
       0, 0, 0x40, 0, 0x40, proto, 0, 0,
       ucast (drop_bit 24 src), ucast (drop_bit 16 src), ucast (drop_bit 8 src), ucast src,
       ucast (drop_bit 24 dst), ucast (drop_bit 16 dst), ucast (drop_bit 8 dst), ucast dst]"
    by (rule synth_prefix_list [OF m, of tot proto src dst])
  have n: "?b ! 12 = 0x08" "?b ! 13 = 0x00" "?b ! 14 = 0x45" "?b ! 23 = proto"
    "?b ! 16 = ucast (drop_bit 8 (word_of_nat tot :: u16))" "?b ! 17 = ucast (word_of_nat tot :: u16)"
    unfolding p by simp_all
  have "unat (word_of_nat tot :: u16) = tot" using t by (intro unat_word_of_nat) simp
  then have tt: "ipv4_total ?b 14 = tot" and ihl: "ipv4_ihl ?b 14 = 20"
    unfolding ipv4_total_def ipv4_ihl_def by (simp_all add: n del: of_nat_numeral)
  have bad: "\<not> ipv4_bad ?b 14"
    unfolding ipv4_bad_def tt ihl using len l by (simp add: n)
  have k': "parse_l4 ?b (14 + ipv4_ihl ?b 14) (?b ! (14 + 9)) = ret (Some (k, h))"
    using k ihl n(4) by simp
  have fin: "min (14 + ipv4_total ?b 14) (length ?b) = 34 + length rest"
    using len l tt by simp
  have v4: "parse_ipv4 ?b 14 = ret (Some (synth_layout k h (length rest - h)))"
    unfolding parse_ipv4_eq k' fin using bad h by (simp add: Let_def synth_layout_def ihl)
  have r: "rd ?b 12 = ret 0x08" "rd ?b 13 = ret 0x00" using len n(1,2) by (simp_all add: rd_def)
  have e: "be16 0x08 0x00 = 0x0800" by (simp add: be16_def)
  have "skip_vlan 4 ?b 0x0800 14 = ret (Some (0x0800, 14))"
    using skip_vlan.simps(2) [of 3 ?b "0x0800" 14] by simp
  then show ?thesis
    unfolding parse_layout_def r bind.bind_lunit e using v4 len by simp
qed

text \<open>Fields of a built frame, before and after the checksums are filled in.\<close>

lemma finish_ok:
  assumes p: "parse_layout b = ret (Some l)" and i: "l4_field_inside l"
  obtains b' where "finish b = ret b'" and "parse_layout b' = ret (Some l)"
    and "agree_on (- csum_bytes l) b b'" and "checksums_valid b' l = ret True"
proof -
  obtain b' where b: "recompute_checksums b l = ret b'" "agree_on (- csum_bytes l) b b'"
    "parse_layout b' = ret (Some l)"
    using recompute_checksums_safe [OF p] by blast
  moreover have "checksums_valid b' l = ret True"
    using recompute_checksums_valid [OF p i] b(1) by auto
  ultimately show thesis using that p by (simp add: finish_def)
qed

lemma take_drop_agree:
  "agree_on A b b' \<Longrightarrow> {j..<j + n} \<subseteq> A \<Longrightarrow> take n (drop j b') = take n (drop j b)"
  by (intro nth_equalityI) (auto simp: agree_on_def subset_iff)

lemma drop_agree: "agree_on A b b' \<Longrightarrow> {j..} \<subseteq> A \<Longrightarrow> drop j b' = drop j b"
  by (intro nth_equalityI) (auto simp: agree_on_def subset_iff)

lemma csum_bytes_synth:
  "csum_bytes (synth_layout L4_Tcp h n) = {24, 25, 50, 51}"
  "csum_bytes (synth_layout L4_Udp h n) = {24, 25, 40, 41}"
  by (auto simp: csum_bytes_def csum_off_def synth_layout_def)

lemma tcp_view_agree:
  assumes "agree_on (- {24, 25, 50, 51}) b b'" and "54 \<le> length b"
  shows "tcp_view_of b' = tcp_view_of b"
proof -
  have "take 6 (drop 0 b') = take 6 (drop 0 b)" by (rule take_drop_agree [OF assms(1)]) auto
  then have "take 6 b' = take 6 b" by simp
  moreover have "take 6 (drop 6 b') = take 6 (drop 6 b)" by (rule take_drop_agree [OF assms(1)]) auto
  moreover have "drop 54 b' = drop 54 b" by (rule drop_agree [OF assms(1)]) auto
  moreover have "word32_at b' i = word32_at b i" if "i \<in> {26, 30, 38, 42}" for i
    by (rule word32_at_agree [OF assms(1)]) (use that assms(2) in auto)
  moreover have "word16_at b' i = word16_at b i" if "i \<in> {34, 36}" for i
    by (rule word16_at_agree [OF assms(1)]) (use that assms(2) in auto)
  moreover have "b' ! 47 = b ! 47" using assms by (simp add: agree_on_def)
  ultimately show ?thesis by (simp add: tcp_view_of_def)
qed

lemma udp_view_agree:
  assumes "agree_on (- {24, 25, 40, 41}) b b'" and "42 \<le> length b"
  shows "udp_view_of b' = udp_view_of b"
proof -
  have "take 6 (drop 0 b') = take 6 (drop 0 b)" by (rule take_drop_agree [OF assms(1)]) auto
  then have "take 6 b' = take 6 b" by simp
  moreover have "take 6 (drop 6 b') = take 6 (drop 6 b)" by (rule take_drop_agree [OF assms(1)]) auto
  moreover have "drop 42 b' = drop 42 b" by (rule drop_agree [OF assms(1)]) auto
  moreover have "word32_at b' i = word32_at b i" if "i \<in> {26, 30}" for i
    by (rule word32_at_agree [OF assms(1)]) (use that assms(2) in auto)
  moreover have "word16_at b' i = word16_at b i" if "i \<in> {34, 36}" for i
    by (rule word16_at_agree [OF assms(1)]) (use that assms(2) in auto)
  ultimately show ?thesis by (simp add: udp_view_of_def)
qed

text \<open>What a TCP segment of the builder is: parsed, valid, and with the fields asked for.\<close>

lemma tcp_segment_ok:
  assumes m: "length smac = 6" "length dmac = 6" and n: "length payload \<le> 65495"
  obtains b where "tcp_segment smac dmac src dst sport dport seq ack flags payload = ret b"
    and "parse_layout b = ret (Some (synth_layout L4_Tcp 20 (length payload)))"
    and "checksums_valid b (synth_layout L4_Tcp 20 (length payload)) = ret True"
    and "length b = 54 + length payload"
    and "tcp_view_of b = \<lparr>lv_src_mac = smac, lv_dst_mac = dmac, lv_src = src, lv_dst = dst, lv_sport = sport,
      lv_dport = dport, lv_payload = payload, tv_seq = seq, tv_ack = ack, tv_flags = flags\<rparr>"
proof -
  let ?l = "synth_layout L4_Tcp 20 (length payload)" and ?tot = "20 + (20 + length payload)"
  define rest where "rest = to_be16 sport @ to_be16 dport @ to_be32 seq @ to_be32 ack @ [0x50, flags] @
            [0x20, 0x00] @ [0x00, 0x00] @ [0x00, 0x00] @ payload"
  define b0 where "b0 = synth_prefix smac dmac ?tot 6 src dst @ rest"
  have len: "length rest = 20 + length payload" "length b0 = 54 + length payload"
    using m by (simp_all add: rest_def b0_def)
  obtain a b c d e f a' b' c' d' e' f' where ms: "smac = [a, b, c, d, e, f]"
    "dmac = [a', b', c', d', e', f']" and p: "synth_prefix smac dmac ?tot 6 src dst =
      [a', b', c', d', e', f', a, b, c, d, e, f, 0x08, 0x00, 0x45, 0,
       ucast (drop_bit 8 (word_of_nat ?tot :: u16)), ucast (word_of_nat ?tot :: u16),
       0, 0, 0x40, 0, 0x40, 6, 0, 0,
       ucast (drop_bit 24 src), ucast (drop_bit 16 src), ucast (drop_bit 8 src), ucast src,
       ucast (drop_bit 24 dst), ucast (drop_bit 16 dst), ucast (drop_bit 8 dst), ucast dst]"
    by (rule synth_prefix_list [OF m, of ?tot 6 src dst])
  have b46: "b0 ! 46 = 0x50"
    unfolding b0_def p by (simp add: rest_def to_be16_def to_be32_def)
  have l4: "parse_l4 b0 34 6 = ret (Some (L4_Tcp, 20))"
    using len b46 by (simp add: parse_l4_def rd_def)
  have pl: "parse_layout b0 = ret (Some ?l)"
    using synth_parse [OF m, of ?tot rest 6 src dst L4_Tcp 20] n len l4 by (simp add: b0_def)
  have inside: "l4_field_inside ?l" by (simp add: l4_field_inside_def synth_layout_def csum_off_def)
  obtain b' where b': "finish b0 = ret b'" "parse_layout b' = ret (Some ?l)"
    "agree_on (- csum_bytes ?l) b0 b'" "checksums_valid b' ?l = ret True"
    by (rule finish_ok [OF pl inside])
  have v0: "tcp_view_of b0 = \<lparr>lv_src_mac = smac, lv_dst_mac = dmac, lv_src = src, lv_dst = dst, lv_sport = sport,
      lv_dport = dport, lv_payload = payload, tv_seq = seq, tv_ack = ack, tv_flags = flags\<rparr>"
    unfolding b0_def p
    by (simp add: tcp_view_of_def rest_def to_be16_def to_be32_def word32_at_def word16_at_def ms)
  show thesis
  proof (rule that [of b'])
    show "tcp_segment smac dmac src dst sport dport seq ack flags payload = ret b'"
      using b'(1) by (simp add: tcp_segment_def b0_def rest_def synth_prefix_def Let_def)
    show "length b' = 54 + length payload" using b'(3) len by (simp add: agree_on_def)
    show "tcp_view_of b' = \<lparr>lv_src_mac = smac, lv_dst_mac = dmac, lv_src = src, lv_dst = dst, lv_sport = sport,
      lv_dport = dport, lv_payload = payload, tv_seq = seq, tv_ack = ack, tv_flags = flags\<rparr>"
      using tcp_view_agree [of b0 b'] b'(3) len v0 unfolding csum_bytes_synth by simp
  qed (use b' in simp_all)
qed

lemma udp_frame_ok:
  assumes m: "length smac = 6" "length dmac = 6" and n: "length payload \<le> 65507"
  obtains b where "udp_frame smac dmac src dst sport dport payload = ret b"
    and "parse_layout b = ret (Some (synth_layout L4_Udp 8 (length payload)))"
    and "checksums_valid b (synth_layout L4_Udp 8 (length payload)) = ret True"
    and "length b = 42 + length payload" and "word16_at b 38 = word_of_nat (8 + length payload)"
    and "udp_view_of b = \<lparr>lv_src_mac = smac, lv_dst_mac = dmac, lv_src = src, lv_dst = dst, lv_sport = sport,
      lv_dport = dport, lv_payload = payload\<rparr>"
proof -
  let ?l = "synth_layout L4_Udp 8 (length payload)" and ?tot = "20 + (8 + length payload)"
  define rest where "rest = to_be16 sport @ to_be16 dport @ to_be16 (word_of_nat (8 + length payload)) @
    [0x00, 0x00] @ payload"
  define b0 where "b0 = synth_prefix smac dmac ?tot 17 src dst @ rest"
  have len: "length rest = 8 + length payload" "length b0 = 42 + length payload"
    using m by (simp_all add: rest_def b0_def)
  obtain a b c d e f a' b' c' d' e' f' where ms: "smac = [a, b, c, d, e, f]"
    "dmac = [a', b', c', d', e', f']" and p: "synth_prefix smac dmac ?tot 17 src dst =
      [a', b', c', d', e', f', a, b, c, d, e, f, 0x08, 0x00, 0x45, 0,
       ucast (drop_bit 8 (word_of_nat ?tot :: u16)), ucast (word_of_nat ?tot :: u16),
       0, 0, 0x40, 0, 0x40, 17, 0, 0,
       ucast (drop_bit 24 src), ucast (drop_bit 16 src), ucast (drop_bit 8 src), ucast src,
       ucast (drop_bit 24 dst), ucast (drop_bit 16 dst), ucast (drop_bit 8 dst), ucast dst]"
    by (rule synth_prefix_list [OF m, of ?tot 17 src dst])
  have l4: "parse_l4 b0 34 17 = ret (Some (L4_Udp, 8))"
    using len by (simp add: parse_l4_def)
  have pl: "parse_layout b0 = ret (Some ?l)"
    using synth_parse [OF m, of ?tot rest 17 src dst L4_Udp 8] n len l4 by (simp add: b0_def)
  have inside: "l4_field_inside ?l" by (simp add: l4_field_inside_def synth_layout_def csum_off_def)
  obtain b' where b': "finish b0 = ret b'" "parse_layout b' = ret (Some ?l)"
    "agree_on (- csum_bytes ?l) b0 b'" "checksums_valid b' ?l = ret True"
    by (rule finish_ok [OF pl inside])
  have v0: "udp_view_of b0 = \<lparr>lv_src_mac = smac, lv_dst_mac = dmac, lv_src = src, lv_dst = dst, lv_sport = sport,
      lv_dport = dport, lv_payload = payload\<rparr>"
    unfolding b0_def p
    by (simp add: udp_view_of_def rest_def to_be16_def word32_at_def word16_at_def ms)
  have w0: "word16_at b0 38 = word_of_nat (8 + length payload)"
    unfolding b0_def p by (simp only: rest_def to_be16_def word16_at_def append.simps) simp
  show thesis
  proof (rule that [of b'])
    show "udp_frame smac dmac src dst sport dport payload = ret b'"
      using b'(1) by (simp add: udp_frame_def b0_def rest_def synth_prefix_def Let_def)
    show "length b' = 42 + length payload" using b'(3) len by (simp add: agree_on_def)
    show "udp_view_of b' = \<lparr>lv_src_mac = smac, lv_dst_mac = dmac, lv_src = src, lv_dst = dst, lv_sport = sport,
      lv_dport = dport, lv_payload = payload\<rparr>"
      using udp_view_agree [of b0 b'] b'(3) len v0 unfolding csum_bytes_synth by simp
    show "word16_at b' 38 = word_of_nat (8 + length payload)"
    proof -
      have "word16_at b' 38 = word16_at b0 38"
        by (rule word16_at_agree [OF b'(3) [unfolded csum_bytes_synth]]) (use len in auto)
      then show ?thesis using w0 by simp
    qed
  qed (use b' in simp_all)
qed

end
