(* ===== verification/Session.thy ===== *)
theory Session
  imports Eth
begin

text \<open>
  \<open>src/synth/session.rs\<close>: one TCP connection as a list of frames, and \<open>request_response\<close>.
  The specification is a receiver: \<open>rx_run\<close> reassembles the stream one side sends from the
  decoded frames, and the lemmas show that it recovers the application messages.
\<close>

section \<open>Code\<close>

datatype side = Client | Server

record tcp_session =
  ts_client_mac :: mac
  ts_server_mac :: mac
  ts_client_ip :: ipv4
  ts_server_ip :: ipv4
  ts_client_port :: u16
  ts_server_port :: u16
  ts_client_snd :: u32
  ts_server_snd :: u32
  ts_frames :: "bytes list"

definition session_new :: "mac \<Rightarrow> mac \<Rightarrow> ipv4 \<Rightarrow> ipv4 \<Rightarrow> u16 \<Rightarrow> u16 \<Rightarrow> tcp_session" where
  "session_new cmac smac cip sip cport sport =
     (let client_snd = cip * 2654435761 + ucast cport;
          server_snd = sip * 40503 + 0x5EED0000
      in \<lparr>ts_client_mac = cmac, ts_server_mac = smac, ts_client_ip = cip, ts_server_ip = sip,
          ts_client_port = cport, ts_server_port = sport, ts_client_snd = client_snd,
          ts_server_snd = server_snd, ts_frames = []\<rparr>)"

definition segment :: "side \<Rightarrow> u8 \<Rightarrow> bytes \<Rightarrow> tcp_session \<Rightarrow> tcp_session exec" where
  "segment d flags payload s =
     (let (snd, peer_snd) = (case d of
            Client \<Rightarrow> (ts_client_snd s, ts_server_snd s)
          | Server \<Rightarrow> (ts_server_snd s, ts_client_snd s));
          (smac, dmac, src, dst, sport, dport) = (case d of
            Client \<Rightarrow> (ts_client_mac s, ts_server_mac s, ts_client_ip s, ts_server_ip s,
              ts_client_port s, ts_server_port s)
          | Server \<Rightarrow> (ts_server_mac s, ts_client_mac s, ts_server_ip s, ts_client_ip s,
              ts_server_port s, ts_client_port s))
      in do {
        f \<leftarrow> tcp_segment smac dmac src dst sport dport snd peer_snd flags payload;
        let s = s\<lparr>ts_frames := ts_frames s @ [f]\<rparr>;
        let consumed = word_of_nat (length payload) + (if flags AND (TCP_SYN OR TCP_FIN) \<noteq> 0 then 1 else 0);
        ret (case d of
            Client \<Rightarrow> s\<lparr>ts_client_snd := ts_client_snd s + consumed\<rparr>
          | Server \<Rightarrow> s\<lparr>ts_server_snd := ts_server_snd s + consumed\<rparr>)
      })"

definition session_open :: "tcp_session \<Rightarrow> tcp_session exec" where
  "session_open s = do {
     s \<leftarrow> segment Client TCP_SYN [] s;
     s \<leftarrow> segment Server (TCP_SYN OR TCP_ACK) [] s;
     segment Client TCP_ACK [] s
   }"

definition client_says :: "bytes \<Rightarrow> tcp_session \<Rightarrow> tcp_session exec" where
  "client_says payload s = segment Client (TCP_PSH OR TCP_ACK) payload s"

definition server_says :: "bytes \<Rightarrow> tcp_session \<Rightarrow> tcp_session exec" where
  "server_says payload s = segment Server (TCP_PSH OR TCP_ACK) payload s"

definition session_close :: "tcp_session \<Rightarrow> tcp_session exec" where
  "session_close s = do {
     s \<leftarrow> segment Client (TCP_FIN OR TCP_ACK) [] s;
     s \<leftarrow> segment Server TCP_ACK [] s;
     s \<leftarrow> segment Server (TCP_FIN OR TCP_ACK) [] s;
     segment Client TCP_ACK [] s
   }"

definition request_response ::
  "mac \<Rightarrow> mac \<Rightarrow> ipv4 \<Rightarrow> ipv4 \<Rightarrow> u16 \<Rightarrow> u16 \<Rightarrow> bytes \<Rightarrow> bytes \<Rightarrow> bytes list exec" where
  "request_response cmac smac cip sip cport sport request response = do {
     let s = session_new cmac smac cip sip cport sport;
     s \<leftarrow> session_open s;
     s \<leftarrow> client_says request s;
     s \<leftarrow> server_says response s;
     s \<leftarrow> session_close s;
     ret (ts_frames s)
   }"

section \<open>One segment\<close>

definition peer :: "side \<Rightarrow> side" where
  "peer d = (case d of Client \<Rightarrow> Server | Server \<Rightarrow> Client)"

definition snd_nxt :: "tcp_session \<Rightarrow> side \<Rightarrow> u32" where
  "snd_nxt s d = (case d of Client \<Rightarrow> ts_client_snd s | Server \<Rightarrow> ts_server_snd s)"

definition consumed :: "u8 \<Rightarrow> bytes \<Rightarrow> u32" where
  "consumed flags payload =
     word_of_nat (length payload) + (if flags AND (TCP_SYN OR TCP_FIN) \<noteq> 0 then 1 else 0)"

definition seg_view :: "tcp_session \<Rightarrow> side \<Rightarrow> u8 \<Rightarrow> bytes \<Rightarrow> tcp_view" where
  "seg_view s d flags payload = (case d of
     Client \<Rightarrow> \<lparr>lv_src_mac = ts_client_mac s, lv_dst_mac = ts_server_mac s, lv_src = ts_client_ip s,
       lv_dst = ts_server_ip s, lv_sport = ts_client_port s, lv_dport = ts_server_port s,
       lv_payload = payload, tv_seq = ts_client_snd s, tv_ack = ts_server_snd s, tv_flags = flags\<rparr>
   | Server \<Rightarrow> \<lparr>lv_src_mac = ts_server_mac s, lv_dst_mac = ts_client_mac s, lv_src = ts_server_ip s,
       lv_dst = ts_client_ip s, lv_sport = ts_server_port s, lv_dport = ts_client_port s,
       lv_payload = payload, tv_seq = ts_server_snd s, tv_ack = ts_client_snd s, tv_flags = flags\<rparr>)"

definition advance :: "side \<Rightarrow> u32 \<Rightarrow> bytes \<Rightarrow> tcp_session \<Rightarrow> tcp_session" where
  "advance d n f s = (case d of
     Client \<Rightarrow> s\<lparr>ts_frames := ts_frames s @ [f], ts_client_snd := ts_client_snd s + n\<rparr>
   | Server \<Rightarrow> s\<lparr>ts_frames := ts_frames s @ [f], ts_server_snd := ts_server_snd s + n\<rparr>)"

definition session_ok :: "tcp_session \<Rightarrow> bool" where
  "session_ok s \<longleftrightarrow> length (ts_client_mac s) = 6 \<and> length (ts_server_mac s) = 6"

definition tcp_frame_ok :: "bytes \<Rightarrow> bool" where
  "tcp_frame_ok f \<longleftrightarrow> (let l = synth_layout L4_Tcp 20 (length (lv_payload (tcp_view_of f))) in
     parse_layout f = ret (Some l) \<and> checksums_valid f l = ret True)"

lemma segment_ok:
  assumes "session_ok s" and "length payload \<le> 65495"
  obtains f where "segment d flags payload s = ret (advance d (consumed flags payload) f s)"
    and "tcp_view_of f = seg_view s d flags payload" and "tcp_frame_ok f"
proof (cases d)
  case Client
  obtain f where "tcp_segment (ts_client_mac s) (ts_server_mac s) (ts_client_ip s) (ts_server_ip s)
      (ts_client_port s) (ts_server_port s) (ts_client_snd s) (ts_server_snd s) flags payload = ret f"
    "parse_layout f = ret (Some (synth_layout L4_Tcp 20 (length payload)))"
    "checksums_valid f (synth_layout L4_Tcp 20 (length payload)) = ret True"
    "tcp_view_of f = seg_view s Client flags payload"
    using tcp_segment_ok [of "ts_client_mac s" "ts_server_mac s" payload "ts_client_ip s" "ts_server_ip s"
      "ts_client_port s" "ts_server_port s" "ts_client_snd s" "ts_server_snd s" flags] assms
    by (auto simp: session_ok_def seg_view_def)
  then show thesis using Client that [of f]
    by (simp add: segment_def advance_def consumed_def tcp_frame_ok_def seg_view_def)
next
  case Server
  obtain f where "tcp_segment (ts_server_mac s) (ts_client_mac s) (ts_server_ip s) (ts_client_ip s)
      (ts_server_port s) (ts_client_port s) (ts_server_snd s) (ts_client_snd s) flags payload = ret f"
    "parse_layout f = ret (Some (synth_layout L4_Tcp 20 (length payload)))"
    "checksums_valid f (synth_layout L4_Tcp 20 (length payload)) = ret True"
    "tcp_view_of f = seg_view s Server flags payload"
    using tcp_segment_ok [of "ts_server_mac s" "ts_client_mac s" payload "ts_server_ip s" "ts_client_ip s"
      "ts_server_port s" "ts_client_port s" "ts_server_snd s" "ts_client_snd s" flags] assms
    by (auto simp: session_ok_def seg_view_def)
  then show thesis using Server that [of f]
    by (simp add: segment_def advance_def consumed_def tcp_frame_ok_def seg_view_def)
qed

lemma advance_simps [simp]:
  "session_ok (advance d n f s) = session_ok s"
  "ts_frames (advance d n f s) = ts_frames s @ [f]"
  "snd_nxt (advance d n f s) e = snd_nxt s e + (if e = d then n else 0)"
  by (cases d; cases e; simp add: advance_def session_ok_def snd_nxt_def)+

lemma seg_view_simps [simp]:
  "tv_seq (seg_view s d flags payload) = snd_nxt s d"
  "tv_ack (seg_view s d flags payload) = snd_nxt s (peer d)"
  "tv_flags (seg_view s d flags payload) = flags"
  "lv_payload (seg_view s d flags payload) = payload"
  by (cases d; simp add: seg_view_def snd_nxt_def peer_def)+

lemma peer_neq [simp]: "peer d \<noteq> d" "d \<noteq> peer d" "peer (peer d) = d"
  by (cases d; simp add: peer_def)+

section \<open>A run of segments\<close>

type_synonym msg = "side \<times> u8 \<times> bytes"

abbreviation run_segments :: "msg list \<Rightarrow> tcp_session \<Rightarrow> tcp_session exec" where
  "run_segments \<equiv> fold_exec (\<lambda>(d, flags, payload). segment d flags payload)"

fun sent :: "side \<Rightarrow> msg list \<Rightarrow> u32" where
  "sent d [] = 0"
| "sent d ((e, flags, payload) # ms) = (if e = d then consumed flags payload else 0) + sent d ms"

text \<open>
  The receiver of the stream that side \<open>d\<close> sends: a SYN sets the next sequence number it expects;
  a segment is accepted when it carries exactly that number, its data is appended, and a FIN closes
  the stream.  Anything else is ignored.
\<close>

record rx =
  rx_next :: "u32 option"
  rx_data :: bytes
  rx_closed :: bool

definition rx_init :: rx where
  "rx_init = \<lparr>rx_next = None, rx_data = [], rx_closed = False\<rparr>"

definition rx_step :: "tcp_view \<Rightarrow> rx \<Rightarrow> rx" where
  "rx_step v r =
     (if tv_flags v AND TCP_SYN \<noteq> 0 then r\<lparr>rx_next := Some (tv_seq v + 1)\<rparr>
      else case rx_next r of
        None \<Rightarrow> r
      | Some n \<Rightarrow>
          if tv_seq v = n \<and> \<not> rx_closed r then
            r\<lparr>rx_next := Some (n + consumed (tv_flags v) (lv_payload v)), rx_data := rx_data r @ lv_payload v,
              rx_closed := (tv_flags v AND TCP_FIN \<noteq> 0)\<rparr>
          else r)"

definition from_side :: "tcp_session \<Rightarrow> side \<Rightarrow> tcp_view \<Rightarrow> bool" where
  "from_side s d v \<longleftrightarrow>
     lv_src v = (case d of Client \<Rightarrow> ts_client_ip s | Server \<Rightarrow> ts_server_ip s) \<and>
     lv_sport v = (case d of Client \<Rightarrow> ts_client_port s | Server \<Rightarrow> ts_server_port s)"

definition rx_run :: "bytes list \<Rightarrow> (tcp_view \<Rightarrow> bool) \<Rightarrow> rx" where
  "rx_run fs P = fold rx_step (filter P (map tcp_view_of fs)) rx_init"

text \<open>The segments of an exchange: handshake, application messages, close.\<close>

definition exchange :: "(side \<times> bytes) list \<Rightarrow> msg list" where
  "exchange ps =
     [(Client, TCP_SYN, []), (Server, TCP_SYN OR TCP_ACK, []), (Client, TCP_ACK, [])] @
     map (\<lambda>(d, p). (d, TCP_PSH OR TCP_ACK, p)) ps @
     [(Client, TCP_FIN OR TCP_ACK, []), (Server, TCP_ACK, []), (Server, TCP_FIN OR TCP_ACK, []),
      (Client, TCP_ACK, [])]"

text \<open>Every frame of a run decodes to its message, numbered by what each side has sent before.\<close>

definition msg_view :: "tcp_session \<Rightarrow> msg list \<Rightarrow> msg \<Rightarrow> tcp_view \<Rightarrow> bool" where
  "msg_view s pre m v \<longleftrightarrow> (case m of (d, flags, payload) \<Rightarrow>
     v = (seg_view s d flags payload)\<lparr>tv_seq := snd_nxt s d + sent d pre, tv_ack := snd_nxt s (peer d) + sent (peer d) pre\<rparr>)"

lemma seg_view_advance:
  "seg_view (advance d n f s) e flags payload =
     (seg_view s e flags payload)\<lparr>tv_seq := snd_nxt s e + (if e = d then n else 0),
        tv_ack := snd_nxt s (peer e) + (if peer e = d then n else 0)\<rparr>"
  by (cases d; cases e; simp add: seg_view_def advance_def snd_nxt_def peer_def)

lemma run_segments_ok:
  assumes "session_ok s" and "\<And>d flags payload. (d, flags, payload) \<in> set ms \<Longrightarrow> length payload \<le> 65495"
  obtains s' fs where "run_segments ms s = ret s'" and "ts_frames s' = ts_frames s @ fs"
    and "length fs = length ms"
    and "\<forall>i < length ms. tcp_frame_ok (fs ! i) \<and> msg_view s (take i ms) (ms ! i) (tcp_view_of (fs ! i))"
  using assms
proof (induction ms arbitrary: s thesis)
  case Nil
  then show ?case by simp
next
  case (Cons m ms)
  obtain d flags payload where m: "m = (d, flags, payload)" by (cases m)
  have "length payload \<le> 65495" using Cons.prems(3) m by auto
  then obtain f where f: "segment d flags payload s = ret (advance d (consumed flags payload) f s)"
    "tcp_view_of f = seg_view s d flags payload" "tcp_frame_ok f"
    using segment_ok [OF Cons.prems(2)] by blast
  let ?s = "advance d (consumed flags payload) f s"
  have ok: "session_ok ?s" using Cons.prems(2) by simp
  obtain s' fs where IH: "run_segments ms ?s = ret s'" "ts_frames s' = ts_frames ?s @ fs" "length fs = length ms"
    "\<forall>i < length ms. tcp_frame_ok (fs ! i) \<and> msg_view ?s (take i ms) (ms ! i) (tcp_view_of (fs ! i))"
    using Cons.IH [OF _ ok] Cons.prems(3) by (metis list.set_intros(2))
  show ?case
  proof (rule Cons.prems(1) [of s' "f # fs"])
    show "run_segments (m # ms) s = ret s'" using m f IH by simp
    show "ts_frames s' = ts_frames s @ f # fs" using IH by simp
    show "length (f # fs) = length (m # ms)" using IH by simp
    have "tcp_frame_ok ((f # fs) ! i) \<and> msg_view s (take i (m # ms)) ((m # ms) ! i) (tcp_view_of ((f # fs) ! i))"
      if "i < length (m # ms)" for i
    proof (cases i)
      case 0
      then show ?thesis using f m
        by (cases d) (simp_all add: msg_view_def seg_view_def snd_nxt_def peer_def)
    next
      case (Suc j)
      then have "tcp_frame_ok (fs ! j) \<and> msg_view ?s (take j ms) (ms ! j) (tcp_view_of (fs ! j))"
        using that IH(4) by simp
      then show ?thesis using Suc m
        by (cases "ms ! j") (simp add: msg_view_def seg_view_advance add.assoc)
    qed
    then show "\<forall>i < length (m # ms). tcp_frame_ok ((f # fs) ! i) \<and>
      msg_view s (take i (m # ms)) ((m # ms) ! i) (tcp_view_of ((f # fs) ! i))" by blast
  qed
qed

section \<open>Reassembly\<close>

definition bump :: "side \<Rightarrow> u32 \<Rightarrow> tcp_session \<Rightarrow> tcp_session" where
  "bump d n s = (case d of Client \<Rightarrow> s\<lparr>ts_client_snd := ts_client_snd s + n\<rparr>
     | Server \<Rightarrow> s\<lparr>ts_server_snd := ts_server_snd s + n\<rparr>)"

fun after :: "msg list \<Rightarrow> tcp_session \<Rightarrow> tcp_session" where
  "after [] s = s"
| "after ((d, flags, payload) # ms) s = after ms (bump d (consumed flags payload) s)"

fun views :: "msg list \<Rightarrow> tcp_session \<Rightarrow> tcp_view list" where
  "views [] s = []"
| "views ((d, flags, payload) # ms) s = seg_view s d flags payload # views ms (bump d (consumed flags payload) s)"

definition endpoints_differ :: "tcp_session \<Rightarrow> bool" where
  "endpoints_differ s \<longleftrightarrow> (ts_client_ip s, ts_client_port s) \<noteq> (ts_server_ip s, ts_server_port s)"

lemma bump_simps [simp]:
  "snd_nxt (bump d n s) e = snd_nxt s e + (if e = d then n else 0)"
  "from_side (bump d n s) = from_side s"
  "endpoints_differ (bump d n s) = endpoints_differ s"
  by (cases d; cases e; simp add: bump_def snd_nxt_def)
    (cases d; simp add: bump_def from_side_def endpoints_differ_def fun_eq_iff split: side.split)+

lemma after_simps [simp]:
  "from_side (after ms s) = from_side s" "endpoints_differ (after ms s) = endpoints_differ s"
  by (induction ms s rule: after.induct) auto

lemma views_append: "views (ms @ ns) s = views ms s @ views ns (after ms s)"
  by (induction ms s rule: after.induct) auto

lemma from_side_view: "endpoints_differ s \<Longrightarrow> from_side s d (seg_view s e flags payload) \<longleftrightarrow> e = d"
  by (cases d; cases e; auto simp: from_side_def seg_view_def endpoints_differ_def)

lemma views_frames: "views ms (s\<lparr>ts_frames := x\<rparr>) = views ms s"
proof (induction ms s rule: views.induct)
  case (2 d flags payload ms s)
  have "bump d n (s\<lparr>ts_frames := x\<rparr>) = (bump d n s)\<lparr>ts_frames := x\<rparr>" for n
    by (cases d) (simp_all add: bump_def)
  moreover have "seg_view (s\<lparr>ts_frames := x\<rparr>) d flags payload = seg_view s d flags payload"
    by (cases d) (simp_all add: seg_view_def)
  ultimately show ?case using 2 by simp
qed simp

lemma advance_bump: "advance d n f s = (bump d n s)\<lparr>ts_frames := ts_frames s @ [f]\<rparr>"
  by (cases d) (simp_all add: advance_def bump_def)

lemma run_segments_views:
  assumes "session_ok s" and "\<And>d flags payload. (d, flags, payload) \<in> set ms \<Longrightarrow> length payload \<le> 65495"
  obtains s' fs where "run_segments ms s = ret s'" and "ts_frames s' = ts_frames s @ fs"
    and "map tcp_view_of fs = views ms s"
  using assms
proof (induction ms arbitrary: s thesis)
  case Nil
  then show ?case by simp
next
  case (Cons m ms)
  obtain d flags payload where m: "m = (d, flags, payload)" by (cases m)
  have "length payload \<le> 65495" using Cons.prems(3) m by auto
  then obtain f where f: "segment d flags payload s = ret (advance d (consumed flags payload) f s)"
    "tcp_view_of f = seg_view s d flags payload"
    using segment_ok [OF Cons.prems(2)] by blast
  let ?s = "advance d (consumed flags payload) f s"
  have ok: "session_ok ?s" using Cons.prems(2) by simp
  obtain s' fs where IH: "run_segments ms ?s = ret s'" "ts_frames s' = ts_frames ?s @ fs"
    "map tcp_view_of fs = views ms ?s"
    using Cons.IH [OF _ ok] Cons.prems(3) by (metis list.set_intros(2))
  show ?case
    by (rule Cons.prems(1) [of s' "f # fs"]) (use m f IH in \<open>simp_all add: advance_bump views_frames\<close>)
qed

lemma rx_data_phase:
  assumes "endpoints_differ s" and "rx_next r = Some (snd_nxt s d)" and "\<not> rx_closed r"
  shows "fold rx_step (filter (from_side s d) (views (map (\<lambda>(e, p). (e, TCP_PSH OR TCP_ACK, p)) ps) s)) r =
    r\<lparr>rx_next := Some (snd_nxt (after (map (\<lambda>(e, p). (e, TCP_PSH OR TCP_ACK, p)) ps) s) d),
      rx_data := rx_data r @ concat [p. (e, p) \<leftarrow> ps, e = d]\<rparr>"
  using assms
proof (induction ps arbitrary: s r)
  case Nil
  then show ?case by simp
next
  case (Cons ep ps)
  obtain e p where e: "ep = (e, p)" by (cases ep)
  let ?n = "consumed (TCP_PSH OR TCP_ACK) p" and ?s = "bump e (consumed (TCP_PSH OR TCP_ACK) p) s"
  show ?case
  proof (cases "e = d")
    case True
    let ?r = "r\<lparr>rx_next := Some (snd_nxt ?s d), rx_data := rx_data r @ p\<rparr>"
    have "rx_step (seg_view s e (TCP_PSH OR TCP_ACK) p) r = ?r"
      using Cons.prems True by (simp add: rx_step_def)
    then show ?thesis
      using Cons.IH [of ?s ?r] Cons.prems True e by (simp add: from_side_view)
  next
    case False
    then show ?thesis
      using Cons.IH [of ?s r] Cons.prems e by (simp add: from_side_view)
  qed
qed

text \<open>A whole exchange: each receiver ends closed, with the concatenation of what was said to it.\<close>

lemma rx_exchange:
  assumes "endpoints_differ s"
  shows "rx_data (fold rx_step (filter (from_side s d) (views (exchange ps) s)) rx_init) =
      concat [p. (e, p) \<leftarrow> ps, e = d]"
    and "rx_closed (fold rx_step (filter (from_side s d) (views (exchange ps) s)) rx_init)"
proof -
  let ?o = "[(Client, TCP_SYN, []), (Server, TCP_SYN OR TCP_ACK, []), (Client, TCP_ACK, [])] :: msg list"
  let ?m = "map (\<lambda>(e, p). (e, TCP_PSH OR TCP_ACK, p)) ps :: msg list"
  let ?c = "[(Client, TCP_FIN OR TCP_ACK, []), (Server, TCP_ACK, []), (Server, TCP_FIN OR TCP_ACK, []),
      (Client, TCP_ACK, [])] :: msg list"
  let ?s1 = "after ?o s" and ?s2 = "after ?m (after ?o s)"
  define r1 where "r1 = fold rx_step (filter (from_side s d) (views ?o s)) rx_init"
  have r1: "rx_next r1 = Some (snd_nxt ?s1 d)" "rx_data r1 = []" "\<not> rx_closed r1"
    using assms by (cases d; simp add: r1_def from_side_view [of "bump _ _ _", simplified] from_side_view rx_step_def rx_init_def consumed_def)+
  define r2 where "r2 = fold rx_step (filter (from_side s d) (views ?m ?s1)) r1"
  have r2: "rx_next r2 = Some (snd_nxt ?s2 d)" "rx_data r2 = concat [p. (e, p) \<leftarrow> ps, e = d]" "\<not> rx_closed r2"
    using rx_data_phase [of ?s1 r1 d ps] assms r1 unfolding r2_def by (simp_all add: from_side_view)
  define r3 where "r3 = fold rx_step (filter (from_side s d) (views ?c ?s2)) r2"
  have "from_side s d (seg_view (bump a b t) e f p) \<longleftrightarrow> e = d" if "from_side t = from_side s" "endpoints_differ t" for a b t e f p
    using that from_side_view [of "bump a b t" d e f p] by simp
  then have r3: "rx_data r3 = rx_data r2" "rx_closed r3"
    using assms r2 from_side_view [of ?s2 d]
    by (cases d; simp add: r3_def rx_step_def consumed_def)+
  have "exchange ps = ?o @ ?m @ ?c" by (simp add: exchange_def)
  then have "fold rx_step (filter (from_side s d) (views (exchange ps) s)) rx_init = r3"
    unfolding r3_def r2_def r1_def by (simp only: views_append filter_append fold_append comp_apply)
  then show "rx_data (fold rx_step (filter (from_side s d) (views (exchange ps) s)) rx_init) =
      concat [p. (e, p) \<leftarrow> ps, e = d]"
    and "rx_closed (fold rx_step (filter (from_side s d) (views (exchange ps) s)) rx_init)"
    using r2 r3 by simp_all
qed

end
