(* ===== verification/Wire.thy ===== *)
theory Wire
  imports Session Texts
begin

text \<open>
  What the protocol builders of \<open>src/synth/\<close> share.  A string is the list of its UTF-8 bytes, one
  \<open>char\<close> per byte, and \<open>as_bytes\<close> reads them as machine bytes.

  \<open>self_delimiting\<close> is the contract of an encoding a receiver can read back from the front of a
  buffer: fixed-width fields, type-length-value records, labels.  Its lemmas read whole sequences
  of such items.  \<open>tcp_converse\<close> is a TCP conversation as the builders run it, with the reassembly result
  of \<open>Session\<close>.
\<close>

definition as_bytes :: "string \<Rightarrow> bytes" where
  "as_bytes s = map of_char s"

lemma length_as_bytes [simp, len_simps]: "length (as_bytes s) = length s"
  by (simp add: as_bytes_def)

definition of_bytes :: "bytes \<Rightarrow> string" where
  "of_bytes b = map (\<lambda>x. char_of (unat x)) b"

lemma unat_of_char: "unat (of_char c :: u8) = of_char c"
proof -
  have "(of_char c :: u8) = word_of_nat (of_char c)" by (simp add: of_nat_of_char)
  moreover have "(of_char c :: nat) < 2 ^ LENGTH(8)" by (cases c) (simp add: of_char_def horner_sum_simps)
  ultimately show ?thesis using unat_word_of_nat [of "of_char c", where 'a = 8] by simp
qed

lemma of_bytes_as_bytes [simp]: "of_bytes (as_bytes s) = s"
  by (induction s) (simp_all add: as_bytes_def of_bytes_def unat_of_char)

section \<open>Self-delimiting encodings\<close>

fun get_many :: "(bytes \<Rightarrow> ('a \<times> bytes) option) \<Rightarrow> nat \<Rightarrow> bytes \<Rightarrow> ('a list \<times> bytes) option" where
  "get_many get 0 p = Some ([], p)"
| "get_many get (Suc n) p = do { (x, r) \<leftarrow> get p; (xs, r) \<leftarrow> get_many get n r; Some (x # xs, r) }"

fun get_upto :: "(bytes \<Rightarrow> ('a \<times> bytes) option) \<Rightarrow> nat \<Rightarrow> bytes \<Rightarrow> 'a list option" where
  "get_upto get 0 p = (if p = [] then Some [] else None)"
| "get_upto get (Suc n) p =
     (if p = [] then Some [] else do { (x, r) \<leftarrow> get p; xs \<leftarrow> get_upto get n r; Some (x # xs) })"

text \<open>Every item takes a byte, so the length of the buffer bounds the number of items.\<close>

definition get_all :: "(bytes \<Rightarrow> ('a \<times> bytes) option) \<Rightarrow> bytes \<Rightarrow> 'a list option" where
  "get_all get p = get_upto get (length p) p"

locale self_delimiting =
  fixes enc :: "'a \<Rightarrow> bytes" and get :: "bytes \<Rightarrow> ('a \<times> bytes) option" and ok :: "'a \<Rightarrow> bool"
  assumes get_enc: "ok x \<Longrightarrow> get (enc x @ r) = Some (x, r)"
    and enc_nonempty: "ok x \<Longrightarrow> enc x \<noteq> []"
begin

lemma get_enc_all: "ok x \<Longrightarrow> get (enc x) = Some (x, [])"
  using get_enc [of x "[]"] by simp

lemma enc_inject: "ok x \<Longrightarrow> ok y \<Longrightarrow> enc x @ r = enc y @ s \<Longrightarrow> x = y \<and> r = s"
  by (metis get_enc option.inject prod.inject)

lemma get_many_enc:
  "list_all ok xs \<Longrightarrow> get_many get (length xs) (concat (map enc xs) @ r) = Some (xs, r)"
  by (induction xs) (simp_all add: get_enc)

lemma get_upto_enc:
  "list_all ok xs \<Longrightarrow> length xs \<le> n \<Longrightarrow> get_upto get n (concat (map enc xs)) = Some xs"
proof (induction xs arbitrary: n)
  case Nil
  then show ?case by (cases n) simp_all
next
  case (Cons x xs)
  then obtain m where n: "n = Suc m" "length xs \<le> m" by (cases n) auto
  with Cons enc_nonempty [of x] show ?case by (simp add: get_enc)
qed

lemma length_concat_enc: "list_all ok xs \<Longrightarrow> length xs \<le> length (concat (map enc xs))"
proof (induction xs)
  case (Cons x xs)
  then have "enc x \<noteq> []" using enc_nonempty by simp
  then have "1 \<le> length (enc x)" by (simp add: Suc_le_eq)
  with Cons show ?case by simp
qed simp

lemma get_all_enc: "list_all ok xs \<Longrightarrow> get_all get (concat (map enc xs)) = Some xs"
  unfolding get_all_def using get_upto_enc length_concat_enc by blast

lemma concat_enc_inject:
  "list_all ok xs \<Longrightarrow> list_all ok ys \<Longrightarrow> concat (map enc xs) = concat (map enc ys) \<Longrightarrow> xs = ys"
  by (metis get_all_enc option.inject)

end

text \<open>Fixed-width fields.\<close>

fun get8 :: "bytes \<Rightarrow> (u8 \<times> bytes) option" where
  "get8 (a # r) = Some (a, r)"
| "get8 _ = None"

fun get_be16 :: "bytes \<Rightarrow> (u16 \<times> bytes) option" where
  "get_be16 (a # b # r) = Some (be16 a b, r)"
| "get_be16 _ = None"

fun get_le16 :: "bytes \<Rightarrow> (u16 \<times> bytes) option" where
  "get_le16 (a # b # r) = Some (le16 a b, r)"
| "get_le16 _ = None"

fun get_be32 :: "bytes \<Rightarrow> (u32 \<times> bytes) option" where
  "get_be32 (a # b # c # d # r) = Some (be32 a b c d, r)"
| "get_be32 _ = None"

fun get_le32 :: "bytes \<Rightarrow> (u32 \<times> bytes) option" where
  "get_le32 (a # b # c # d # r) = Some (le32 a b c d, r)"
| "get_le32 _ = None"

definition get_bytes :: "nat \<Rightarrow> bytes \<Rightarrow> (bytes \<times> bytes) option" where
  "get_bytes n p = (if n \<le> length p then Some (take n p, drop n p) else None)"

lemma get_bytes_append [simp]: "length v = n \<Longrightarrow> get_bytes n (v @ r) = Some (v, r)"
  by (simp add: get_bytes_def)

lemma get_bytes_self [simp]: "length v = n \<Longrightarrow> get_bytes n v = Some (v, [])"
  by (simp add: get_bytes_def)

interpretation f_be16: self_delimiting to_be16 get_be16 "\<lambda>_. True"
  by unfold_locales (simp_all add: to_be16_def)

interpretation f_le16: self_delimiting to_le16 get_le16 "\<lambda>_. True"
  by unfold_locales (simp_all add: to_le16_def le16_def)

interpretation f_be32: self_delimiting to_be32 get_be32 "\<lambda>_. True"
  by unfold_locales (simp_all add: to_be32_def)

interpretation f_le32: self_delimiting to_le32 get_le32 "\<lambda>_. True"
  by unfold_locales (simp_all add: to_le32_def le32_def)

lemmas get_fields [simp] = f_be16.get_enc [OF TrueI] f_le16.get_enc [OF TrueI] f_be32.get_enc [OF TrueI]
  f_le32.get_enc [OF TrueI] f_be16.get_enc_all [OF TrueI] f_le16.get_enc_all [OF TrueI]
  f_be32.get_enc_all [OF TrueI] f_le32.get_enc_all [OF TrueI]

section \<open>Conversations\<close>

definition tcp_converse :: "mac \<Rightarrow> mac \<Rightarrow> ipv4 \<Rightarrow> ipv4 \<Rightarrow> u16 \<Rightarrow> u16 \<Rightarrow> (side \<times> bytes) list \<Rightarrow> bytes list exec" where
  "tcp_converse cmac smac cip sip cport sport ps =
     map_option ts_frames (run_segments (exchange ps) (session_new cmac smac cip sip cport sport))"

definition say :: "side \<times> bytes \<Rightarrow> tcp_session \<Rightarrow> tcp_session exec" where
  "say m s = (case m of (Client, p) \<Rightarrow> client_says p s | (Server, p) \<Rightarrow> server_says p s)"

lemma say_segment: "say (d, p) = segment d (TCP_PSH OR TCP_ACK) p"
  by (cases d) (simp_all add: fun_eq_iff say_def client_says_def server_says_def)

text \<open>A conversation step by step: open, say, close.\<close>

lemma fold_exec_fun: "fold_exec f [] = ret" "fold_exec f (x # xs) = (\<lambda>s. Option.bind (f x s) (fold_exec f xs))"
  by (simp_all add: fun_eq_iff)

lemma run_says: "run_segments (map (\<lambda>(d, p). (d, TCP_PSH OR TCP_ACK, p)) ps) s = fold_exec say ps s"
proof (induction ps arbitrary: s)
  case (Cons m ps)
  obtain d p where m: "m = (d, p)" by (cases m)
  show ?case using Cons by (cases "segment d (TCP_PSH OR TCP_ACK) p s") (simp_all add: m say_segment)
qed simp

lemma tcp_converse_eq:
  "tcp_converse cmac smac cip sip cport sport ps = do {
     s \<leftarrow> session_open (session_new cmac smac cip sip cport sport);
     s \<leftarrow> fold_exec say ps s;
     s \<leftarrow> session_close s;
     ret (ts_frames s)
   }"
proof -
  let ?o = "[(Client, TCP_SYN, []), (Server, TCP_SYN OR TCP_ACK, []), (Client, TCP_ACK, [])] :: msg list"
  let ?c = "[(Client, TCP_FIN OR TCP_ACK, []), (Server, TCP_ACK, []), (Server, TCP_FIN OR TCP_ACK, []),
      (Client, TCP_ACK, [])] :: msg list"
  have o: "run_segments ?o = session_open" and c: "run_segments ?c = session_close"
    by (rule ext, simp add: fold_exec_fun session_open_def session_close_def)+
  show ?thesis
    unfolding tcp_converse_def exchange_def fold_exec_append o run_says
    by (simp only: o c fold_exec_append run_says map_conv_bind_option Option.bind_assoc comp_def)
qed

lemma says_simps [simp]:
  "say (Client, p) s = client_says p s" "say (Server, p) s = server_says p s"
  by (simp_all add: say_def)

text \<open>What a sensor on the path reads: the payload of one direction, and that it was closed.\<close>

definition sent_by :: "ipv4 \<Rightarrow> u16 \<Rightarrow> tcp_view \<Rightarrow> bool" where
  "sent_by ip port v \<longleftrightarrow> lv_src v = ip \<and> lv_sport v = port"

definition delivers :: "bytes list \<Rightarrow> ipv4 \<Rightarrow> u16 \<Rightarrow> bytes \<Rightarrow> bool" where
  "delivers fs ip port data \<longleftrightarrow>
     rx_data (rx_run fs (sent_by ip port)) = data \<and> rx_closed (rx_run fs (sent_by ip port))"

definition said_by :: "side \<Rightarrow> (side \<times> bytes) list \<Rightarrow> bytes" where
  "said_by d ps = concat [p. (e, p) \<leftarrow> ps, e = d]"

definition tcp_conversation :: "bytes list \<Rightarrow> ipv4 \<Rightarrow> u16 \<Rightarrow> ipv4 \<Rightarrow> u16 \<Rightarrow> bytes \<Rightarrow> bytes \<Rightarrow> bool" where
  "tcp_conversation fs cip cport sip sport up down \<longleftrightarrow>
     list_all tcp_frame_ok fs \<and> delivers fs cip cport up \<and> delivers fs sip sport down"

lemma tcp_converse_ok:
  assumes m: "length cmac = 6" "length smac = 6" and e: "(cip, cport) \<noteq> (sip, sport)"
    and n: "list_all (\<lambda>(d, p). length p \<le> 65495) ps"
  obtains fs where "tcp_converse cmac smac cip sip cport sport ps = ret fs" and "length fs = 7 + length ps"
    and "tcp_conversation fs cip cport sip sport (said_by Client ps) (said_by Server ps)"
proof -
  let ?s = "session_new cmac smac cip sip cport sport"
  have ok: "session_ok ?s" and ed: "endpoints_differ ?s"
    using m e by (simp_all add: session_ok_def endpoints_differ_def session_new_def)
  have len: "length p \<le> 65495" if "(d, f, p) \<in> set (exchange ps)" for d f p
    using that n by (auto simp: exchange_def list_all_iff)
  obtain s' fs where r: "run_segments (exchange ps) ?s = ret s'" "ts_frames s' = ts_frames ?s @ fs"
    "length fs = length (exchange ps)" and g: "\<forall>i < length (exchange ps).
      tcp_frame_ok (fs ! i) \<and> msg_view ?s (take i (exchange ps)) (exchange ps ! i) (tcp_view_of (fs ! i))"
    by (rule run_segments_ok [OF ok len])
  obtain s'' fs' where r': "run_segments (exchange ps) ?s = ret s''" "ts_frames s'' = ts_frames ?s @ fs'"
    "map tcp_view_of fs' = views (exchange ps) ?s"
    by (rule run_segments_views [OF ok len])
  have "ts_frames ?s = []" by (simp add: session_new_def)
  moreover have "s'' = s'" using r(1) r'(1) by (metis option.inject)
  ultimately have f: "ts_frames s' = fs" and "fs' = fs" using r(2) r'(2) by simp_all
  with r'(3) have v: "map tcp_view_of fs = views (exchange ps) ?s" by (simp only:)
  have "rx_run fs P = fold rx_step (filter P (views (exchange ps) ?s)) rx_init" for P
    by (simp add: rx_run_def v)
  moreover have "from_side ?s Client = sent_by cip cport" "from_side ?s Server = sent_by sip sport"
    by (auto simp: fun_eq_iff from_side_def sent_by_def session_new_def)
  ultimately have "delivers fs cip cport (said_by Client ps)" "delivers fs sip sport (said_by Server ps)"
    using rx_exchange [OF ed, of Client ps] rx_exchange [OF ed, of Server ps]
    by (simp_all add: delivers_def said_by_def)
  moreover have "list_all tcp_frame_ok fs" using r(3) g by (simp add: list_all_length)
  moreover have "tcp_converse cmac smac cip sip cport sport ps = ret fs"
    unfolding tcp_converse_def r(1) using f by simp
  moreover have "length fs = 7 + length ps" using r(3) by (simp add: exchange_def)
  ultimately show thesis using that [of fs] by (simp add: tcp_conversation_def)
qed

text \<open>The same with the two streams named: what a builder's conversation delivers.\<close>

lemma tcp_dialogue:
  assumes "run = tcp_converse cmac smac cip sip cport sport ps" and "said_by Client ps = up" and "said_by Server ps = down"
    and "length cmac = 6" and "length smac = 6" and "(cip, cport) \<noteq> (sip, sport)"
    and "list_all (\<lambda>(d, p). length p \<le> 65495) ps"
  shows "\<exists>fs. run = ret fs \<and> length fs = 7 + length ps \<and> tcp_conversation fs cip cport sip sport up down"
  by (rule tcp_converse_ok [OF assms(4-7)]) (use assms(1-3) in simp)

lemma request_response_converse:
  "request_response cmac smac cip sip cport sport request response =
     tcp_converse cmac smac cip sip cport sport [(Client, request), (Server, response)]"
  by (simp add: request_response_def tcp_converse_eq)

section \<open>Decimal numbers\<close>

lemma show_nat_digit: "c \<in> set (show_nat n) \<Longrightarrow> \<exists>k < (10 :: nat). c = char_of (48 + k)"
proof (induction n rule: show_nat.induct)
  case (1 n)
  have "c \<in> set (show_nat (n div 10)) \<or> c = char_of (48 + n mod 10)" if "\<not> n < 10"
    using 1(2) that by (subst (asm) show_nat.simps) auto
  moreover have "c = char_of (48 + n)" if "n < 10"
    using 1(2) that by (subst (asm) show_nat.simps) simp
  moreover have "n mod 10 < 10" by simp
  ultimately show ?case using 1(1) by blast
qed

lemma digit_val_dec [simp]: "k < 10 \<Longrightarrow> digit_val 10 (char_of (48 + k)) = Some k"
  by (simp add: digit_val_def)

lemma digits_val_show: "digits_val 10 0 (show_nat n @ t) = digits_val 10 n t"
proof (induction n arbitrary: t rule: show_nat.induct)
  case (1 n)
  show ?case by (subst show_nat.simps) (use 1 in \<open>simp add: div_mult_mod_eq\<close>)
qed

lemma show_nat_nonempty [simp]: "show_nat n \<noteq> []"
  by (subst show_nat.simps) simp

text \<open>Reading undoes printing.\<close>

lemma parse_show_nat: "n \<le> limit \<Longrightarrow> parse_radix 10 limit (show_nat n) = Some n"
proof -
  assume n: "n \<le> limit"
  obtain c cs where c: "show_nat n = c # cs" using show_nat_nonempty [of n] by (cases "show_nat n") simp_all
  obtain k :: nat where "k < 10" "c = char_of (48 + k)" using show_nat_digit [of c n] c by auto
  then have "of_char c = 48 + k" by simp
  then have "c \<noteq> CHR ''+''" by auto
  then show ?thesis using n digits_val_show [of n "[]"] c by (simp add: parse_radix_def)
qed

lemma show_nat_no_dot: "CHR ''.'' \<notin> set (show_nat n)"
proof
  assume "CHR ''.'' \<in> set (show_nat n)"
  then obtain k :: nat where "k < 10" "CHR ''.'' = char_of (48 + k)" using show_nat_digit by blast
  then have "of_char (CHR ''.'') = 48 + k" by simp
  then show False by simp
qed

section \<open>Version strings and captures\<close>

text \<open>\<open>parse_version\<close> of \<open>src/synth/mod.rs\<close>: the first two digit groups, each at most 255.\<close>

definition is_ascii_digit :: "char \<Rightarrow> bool" where
  "is_ascii_digit c = (digit_val 10 c \<noteq> None)"

text \<open>\<open>fw.split(|c| !c.is_ascii_digit())\<close> without its empty pieces\<close>

fun digit_groups :: "string \<Rightarrow> string list" where
  "digit_groups [] = [[]]"
| "digit_groups (c # cs) =
     (if is_ascii_digit c then (case digit_groups cs of [] \<Rightarrow> [[c]] | g # gs \<Rightarrow> (c # g) # gs)
      else [] # digit_groups cs)"

definition parse_version :: "string \<Rightarrow> u8 \<times> u8" where
  "parse_version fw =
     (let groups = map (\<lambda>s. word_of_nat (min 255 (case parse_radix 10 4294967295 s of Some v \<Rightarrow> v | None \<Rightarrow> 0)) :: u8)
            (filter (\<lambda>s. s \<noteq> []) (digit_groups fw))
      in case groups of [] \<Rightarrow> (0, 0) | [a] \<Rightarrow> (a, 0) | a # b # _ \<Rightarrow> (a, b))"

text \<open>\<open>to_capture\<close>: frames stamped a millisecond apart.\<close>

definition to_capture :: "'h \<Rightarrow> bytes list \<Rightarrow> 'h capture" where
  "to_capture default_header frames =
     \<lparr>cap_header = default_header,
      cap_packets = map (\<lambda>(i, data). \<lparr>pk_ts = i * 1000000, pk_orig_len = word_of_nat (length data), pk_data = data\<rparr>)
        (enumerate 0 frames)\<rparr>"

section \<open>Chunks\<close>

text \<open>\<open>xs.chunks(n)\<close> for \<open>n > 0\<close>\<close>

function chunks :: "nat \<Rightarrow> 'a list \<Rightarrow> 'a list list" where
  "chunks n xs = (if xs = [] \<or> n = 0 then [] else take n xs # chunks n (drop n xs))"
  by pat_completeness auto
termination by (relation "measure (\<lambda>(n, xs). length xs)") auto

declare chunks.simps [simp del]

lemma chunks_Nil [simp]: "chunks n [] = []"
  by (simp add: chunks.simps)

lemma concat_chunks [simp]: "0 < n \<Longrightarrow> concat (chunks n xs) = xs"
proof (induction n xs rule: chunks.induct)
  case (1 n xs)
  then show ?case by (cases "xs = []") (simp_all add: chunks.simps [of n xs])
qed

lemma chunks_len: "c \<in> set (chunks n xs) \<Longrightarrow> 0 < length c \<and> length c \<le> n"
proof (induction n xs rule: chunks.induct)
  case (1 n xs)
  show ?case
  proof (cases "xs = [] \<or> n = 0")
    case True
    then show ?thesis using 1(2) by (auto simp: chunks.simps [of n xs])
  next
    case False
    then show ?thesis using 1 by (auto simp: chunks.simps [of n xs])
  qed
qed

text \<open>A receiver that reads UDP datagrams.\<close>

definition udp_frame_ok :: "bytes \<Rightarrow> bool" where
  "udp_frame_ok f \<longleftrightarrow> (let l = synth_layout L4_Udp 8 (length (lv_payload (udp_view_of f))) in
     parse_layout f = ret (Some l) \<and> checksums_valid f l = ret True)"

lemma udp_frame_total:
  assumes "length smac = 6" and "length dmac = 6" and "length payload \<le> 65507"
  obtains b where "udp_frame smac dmac src dst sport dport payload = ret b" and "udp_frame_ok b"
    and "udp_view_of b = \<lparr>lv_src_mac = smac, lv_dst_mac = dmac, lv_src = src, lv_dst = dst, lv_sport = sport,
      lv_dport = dport, lv_payload = payload\<rparr>"
  by (rule udp_frame_ok [OF assms, of src dst sport dport]) (rule that; simp add: udp_frame_ok_def)

text \<open>The frame of a datagram: valid, and with the addresses, ports and payload asked for.\<close>

definition datagram :: "bytes \<Rightarrow> ipv4 \<Rightarrow> u16 \<Rightarrow> ipv4 \<Rightarrow> u16 \<Rightarrow> bytes \<Rightarrow> bool" where
  "datagram f src sport dst dport payload \<longleftrightarrow>
     udp_frame_ok f \<and> lv_src (udp_view_of f) = src \<and> lv_sport (udp_view_of f) = sport \<and>
     lv_dst (udp_view_of f) = dst \<and> lv_dport (udp_view_of f) = dport \<and> lv_payload (udp_view_of f) = payload"

lemma udp_frame_datagram:
  assumes "length smac = 6" and "length dmac = 6" and "length payload \<le> 65507"
  shows "\<exists>f. udp_frame smac dmac src dst sport dport payload = ret f \<and> datagram f src sport dst dport payload"
  by (rule udp_frame_total [OF assms, of src dst sport dport]) (simp add: datagram_def)

end
