(* ===== verification/Samples.thy ===== *)
theory Samples
  imports Pipeline Zones Wire
begin

text \<open>
  Concrete inputs: one captured Modbus/TCP request, one ARP request, a counting generator for the
  mapper and the remap, and an implementation of the network operations.  The laws assumed of
  the library code (\<open>gen_ok\<close>, \<open>below_ok\<close>, \<open>net_ok\<close>) are proved of them, so no theorem that
  assumes the laws is about nothing.
\<close>

section \<open>Frames\<close>

text \<open>192.168.1.10 reads a register of unit 17 at 192.168.1.20.\<close>

definition modbus_frame :: bytes where
  "modbus_frame =
     [0x00, 0x1b, 0x21, 0, 0, 2, 0x00, 0x1b, 0x21, 0, 0, 1, 0x08, 0x00,
      0x45, 0, 0, 52, 0, 1, 0, 0, 64, 6, 0, 0, 192, 168, 1, 10, 192, 168, 1, 20,
      0xc0, 0, 0x01, 0xf6, 0, 0, 0, 1, 0, 0, 0, 2, 0x50, 0x18, 0x20, 0, 0, 0, 0, 0,
      0, 1, 0, 0, 0, 6, 17, 3, 0, 0, 0, 1]"

definition modbus_layout :: frame_layout where
  "modbus_layout = \<lparr>fl_l3 = 14, fl_l3_kind = L3_Ipv4, fl_ihl = 20, fl_l4 = 34,
     fl_l4_kind = L4_Tcp, fl_payload = 54, fl_end = 66\<rparr>"

lemma modbus_parse: "parse_layout modbus_frame = ret (Some modbus_layout)"
  unfolding modbus_layout_def by code_simp

lemma length_modbus_frame [simp]: "length modbus_frame = 66"
  by (simp add: modbus_frame_def)

definition modbus_parsed :: parsed_frame where
  "modbus_parsed = \<lparr>pf_buf = modbus_frame, pf_layout = modbus_layout\<rparr>"

lemma modbus_parsed_ok: "pf_ok modbus_parsed"
  by (simp add: modbus_parsed_def pf_ok_def modbus_parse)

text \<open>192.168.1.10 asks for 192.168.1.20.\<close>

definition arp_frame :: bytes where
  "arp_frame =
     [0xff, 0xff, 0xff, 0xff, 0xff, 0xff, 0x00, 0x1b, 0x21, 0, 0, 1, 0x08, 0x06,
      0, 1, 0x08, 0, 6, 4, 0, 1, 0x00, 0x1b, 0x21, 0, 0, 1, 192, 168, 1, 10,
      0, 0, 0, 0, 0, 0, 192, 168, 1, 20]"

definition arp_layout :: frame_layout where
  "arp_layout = \<lparr>fl_l3 = 14, fl_l3_kind = L3_Other, fl_ihl = 0, fl_l4 = 14,
     fl_l4_kind = L4_Other, fl_payload = 14, fl_end = 42\<rparr>"

lemma arp_parse: "parse_layout arp_frame = ret (Some arp_layout)"
  unfolding arp_layout_def by code_simp

definition sample_packet :: "bytes \<Rightarrow> packet" where
  "sample_packet d = \<lparr>pk_ts = 0, pk_orig_len = word_of_nat (length d), pk_data = d\<rparr>"

definition sample_capture :: "unit capture" where
  "sample_capture = \<lparr>cap_header = (), cap_packets = [sample_packet modbus_frame, sample_packet arp_frame]\<rparr>"

section \<open>Generators\<close>

definition count_gen :: "u64 gen" where
  "count_gen r lo hi = (if lo \<le> r \<and> r \<le> hi then r else lo, r + 1)"

lemma count_gen_ok: "gen_ok count_gen"
  by (simp add: gen_ok_def count_gen_def)

definition count_below :: "u64 below" where
  "count_below r n = (if r < n then r else 0, r + 1)"

lemma count_below_ok: "below_ok count_below"
  by (simp add: below_ok_def count_below_def)

section \<open>Networks\<close>

definition cap32 :: "u8 \<Rightarrow> u8" where
  "cap32 p = (if p \<le> 32 then p else 32)"

definition pair_net :: "(u32 \<times> u8) net_ops" where
  "pair_net =
     (let network = (\<lambda>n. fst n AND mask_for (cap32 (snd n)));
          broadcast = (\<lambda>n. network n OR NOT (mask_for (cap32 (snd n))));
          contains = (\<lambda>n a. a AND mask_for (cap32 (snd n)) = network n)
      in \<lparr>no_network = network, no_broadcast = broadcast, no_prefix_len = (\<lambda>n. cap32 (snd n)),
          no_contains = contains,
          no_hosts = (\<lambda>n. filter (\<lambda>a. contains n a \<and> a \<noteq> network n \<and> a \<noteq> broadcast n)
            (map word_of_nat [0..<2 ^ 32])),
          no_new = (\<lambda>a p. if p \<le> 32 then Some (a, p) else None),
          no_show = (\<lambda>n. show_cidr (fst n) (snd n)), no_parse = (\<lambda>_. None)\<rparr>)"

lemma distinct_words: "distinct (map (word_of_nat :: nat \<Rightarrow> u32) [0..<2 ^ 32])"
  unfolding distinct_map
proof
  show "inj_on (word_of_nat :: nat \<Rightarrow> u32) (set [0..<2 ^ 32])"
  proof (rule inj_onI)
    fix x y :: nat
    assume "x \<in> set [0..<2 ^ 32]" "y \<in> set [0..<2 ^ 32]" and e: "(word_of_nat x :: u32) = word_of_nat y"
    then have x: "unat (word_of_nat x :: u32) = x" and y: "unat (word_of_nat y :: u32) = y"
      by (intro unat_word_of_nat, simp)+
    have "unat (word_of_nat x :: u32) = unat (word_of_nat y :: u32)" by (simp only: e)
    then show "x = y" unfolding x y .
  qed
qed simp

lemma all_words: "(a :: u32) \<in> set (map word_of_nat [0..<2 ^ 32])"
proof -
  have "a = word_of_nat (unat a)" by simp
  moreover have "unat a \<in> set [0..<2 ^ 32]" using unat_u32_lt [of a] by simp
  ultimately show ?thesis unfolding set_map by (rule image_eqI)
qed

lemma pair_net_ok: "net_ok pair_net"
  using distinct_words all_words
  by (auto simp: net_ok_def pair_net_def Let_def cap32_def and.assoc simp del: upt_rec_numeral set_map
      split: if_splits)

section \<open>A remap computed\<close>

text \<open>The ARP request, remapped with seed 5: its subnet moves to 10.0.5.0/24.\<close>

definition arp_frame' :: bytes where
  "arp_frame' =
     [0xff, 0xff, 0xff, 0xff, 0xff, 0xff, 0x00, 0x1b, 0x21, 0, 0, 1, 0x08, 0x06,
      0, 1, 0x08, 0, 6, 4, 0, 1, 0x00, 0x1b, 0x21, 0, 0, 1, 10, 0, 5, 10,
      0, 0, 0, 0, 0, 0, 10, 0, 5, 20]"

definition arp_capture :: "bytes \<Rightarrow> unit capture" where
  "arp_capture d = \<lparr>cap_header = (), cap_packets = [\<lparr>pk_ts = 0, pk_orig_len = 42, pk_data = d\<rparr>]\<rparr>"

definition arp_entries :: "(u32 \<times> u32) list" where
  "arp_entries = [(0xc0a8010a, 0x0a00050a), (0xc0a80114, 0x0a000514)]"

lemma arp_frame_addrs: "addrs_of arp_frame = [0xc0a8010a, 0xc0a80114]"
proof -
  have "arp_shape arp_frame 14" "word32_at arp_frame 28 = 0xc0a8010a" "word32_at arp_frame 38 = 0xc0a80114"
    by (simp_all add: word32_at_def arp_frame_def be32_def be16_def arp_shape_def word16_at_def)
  then show ?thesis by (simp add: addrs_of_def arp_parse layout_addrs_def arp_layout_def)
qed

lemma mask24: "mask_for 24 = 0xffffff00" "NOT (mask_for 24) = 0xff"
  by (simp_all add: mask_for_def push_bit_eq_mult)

lemma arp_hosts:
  "hosts_of pair_net [] (capture_addrs (cap_packets (arp_capture arp_frame)))
     = [(0xc0a8010a, 24, 0xc0a80100), (0xc0a80114, 24, 0xc0a80100)]"
  by (simp add: hosts_of_def capture_addrs_def arp_capture_def arp_frame_addrs note_host_def
      is_remappable_def octet0_def mask24 Let_def)

lemma arp_groups: "plan_groups pair_net [] (cap_packets (arp_capture arp_frame)) = [(24, 0xc0a80100)]"
  by (simp add: plan_groups_def arp_hosts)

lemma arp_nets: "fst (assign_nets count_below [(24, 0xc0a80100)] [] 5) = [((24, 0xc0a80100), 0x0a000500)]"
proof -
  have "pick_random 256 count_below 24 8 0x10000 [] 5 = (Some 0x0a000500, 6)"
    using pick_random.simps(2) [of 255 count_below 24 8 "0x10000" "[]" 5]
    by (simp add: count_below_def ten_net_def overlaps_def Let_def)
  then show ?thesis by (simp add: pick_new_net_def clamp_prefix_def)
qed

lemma arp_plan:
  "plan_hosts pair_net count_below [] 5 (cap_packets (arp_capture arp_frame))
     = ret ([((24, 0xc0a80100), 0x0a000500)], arp_entries)"
  by (simp add: plan_hosts_def enumerate_hosts_eq plan_groups_def [symmetric] arp_groups arp_hosts arp_nets
      host_entry_def mask24 Let_def arp_entries_def del: assign_nets.simps)

lemma arp_remap:
  "remap_frame (map_of arp_entries) (\<lambda>_. None) 5 False arp_frame = ret arp_frame'"
proof -
  have "arp_shape arp_frame 14"
    by (simp add: arp_frame_def be16_def arp_shape_def word16_at_def)
  then have a: "is_arp_ipv4 arp_frame 14 = ret True" by (simp add: is_arp_ipv4_eq)
  have "remap_frame (map_of arp_entries) (\<lambda>_. None) 5 False arp_frame
      = remap_arp_addrs arp_frame 14 (map_of arp_entries) (\<lambda>_. None) 5 False"
    by (simp add: remap_frame_def pf_parse_def arp_parse is_ipv4_def arp_layout_def)
  also have "\<dots> = ret arp_frame'"
    unfolding remap_arp_addrs_def a
    by (simp add: arp_frame_def arp_frame'_def arp_entries_def rd_be32_def rd_def be32_def put_slice_def
        splice_def to_be32_def)
  finally show ?thesis .
qed

lemma arp_frame'_coherent: "frame_is_plan_coherent (snd ` set arp_entries) arp_frame' = ret True"
proof -
  have p: "parse_layout arp_frame' = ret (Some arp_layout)" unfolding arp_layout_def by code_simp
  have "arp_shape arp_frame' 14" "word32_at arp_frame' 28 = 0x0a00050a" "word32_at arp_frame' 38 = 0x0a000514"
    by (simp_all add: word32_at_def arp_frame'_def be32_def be16_def arp_shape_def word16_at_def)
  then show ?thesis
    by (simp add: coherent_eq p coherent_at_def arp_layout_def plan_src_def plan_dst_def arp_entries_def
        is_remappable_def octet0_def)
qed

lemma arp_frame'_no_leak: "keep_no_leak (fst ` set arp_entries) arp_frame' = ret True"
  by (simp add: keep_no_leak_def windows4_def arp_entries_def arp_frame'_def to_be32_def upt_rec)

lemma arp_remapped:
  "\<exists>s. remap_capture pair_net count_below (\<lambda>s. s) (arp_capture arp_frame) [] 5 False = ret (arp_capture arp_frame', s)"
proof -
  have "apply_host_map (arp_capture arp_frame) (map_of arp_entries) (\<lambda>_. None) 5 False
      = ret (arp_capture arp_frame')"
    by (simp add: apply_host_map_def arp_capture_def arp_remap)
  moreover have "drop_incoherent_frames (arp_capture arp_frame') (snd ` set arp_entries) = ret (arp_capture arp_frame', 0)"
    by (simp add: drop_incoherent_frames_def plan_filter.drop_eq arp_capture_def arp_frame'_coherent)
  moreover have "fst ` set arp_entries \<noteq> {}" by (simp add: arp_entries_def)
  then have "drop_payload_leak_frames (arp_capture arp_frame') (fst ` set arp_entries) = ret (arp_capture arp_frame', 0)"
    by (simp add: drop_payload_leak_frames_def leak_filter.drop_eq arp_capture_def arp_frame'_no_leak)
  ultimately show ?thesis
    using arp_plan by (simp add: remap_capture_def)
qed

section \<open>A reconciliation\<close>

text \<open>One zone with one device and room for one new asset; a group of two captured hosts.\<close>

definition sample_zone :: "(u32 \<times> u8) zone_target" where
  "sample_zone = \<lparr>zt_net = (0x0a000500, 24), zt_vendor = Some ''Siemens'', zt_purdue_level = 1,
     zt_protocol = Some ''s7'', zt_reserved = {0x0a000514}\<rparr>"

definition sample_ctx :: "(u32 \<times> u8) reconcile_ctx" where
  "sample_ctx = \<lparr>rc_zones = [sample_zone], rc_affinity = ZA_Both, rc_seed = 5, rc_remap_mac = True,
     rc_registered = [], rc_device_macs = (\<lambda>_. None), rc_reserved_macs = {}, rc_budget = 1\<rparr>"

definition sample_group :: "(u32 \<times> u8) capture_group" where
  "sample_group = \<lparr>cg_net = (0xc0a80100, 24), cg_purdue_level = 1, cg_vendor = Some ''Siemens'',
     cg_protocol = None, cg_hosts = [0xc0a8010a, 0xc0a80114]\<rparr>"

lemma sample_ctx_ok: "macs_left sample_ctx" "macs_ok (rc_device_macs sample_ctx)" "rc_zones sample_ctx \<noteq> []"
  "has_device sample_ctx" "rc_remap_mac sample_ctx" "dom (rc_device_macs sample_ctx) \<subseteq> plan_base sample_ctx"
  by (simp_all add: sample_ctx_def macs_left_def macs_ok_def has_device_def sample_zone_def)

lemma arp_addrs_outside:
  "\<forall>p \<in> set (cap_packets (arp_capture arp_frame)). \<forall>x \<in> set (addrs_of (pk_data p)).
     \<forall>z \<in> set (rc_zones sample_ctx). \<not> no_contains pair_net (zt_net z) x"
  by (simp add: arp_capture_def arp_frame_addrs sample_ctx_def sample_zone_def pair_net_def cap32_def mask24 Let_def)

end
