(* ===== verification/S7_Synth.thy ===== *)
theory S7_Synth
  imports Wire
begin

text \<open>
  \<open>src/synth/s7_common.rs\<close>, \<open>s7_szl.rs\<close> and \<open>s7_control.rs\<close>: S7comm sessions.  A message is
  carried in a TPKT record; \<open>get_tpkt\<close> and \<open>get_s7\<close> are what an S7 endpoint reads, and the lemmas
  split the byte stream of a session back into its records and jobs.
\<close>

section \<open>Code: framing\<close>

definition S7_PORT :: u16 where "S7_PORT = 102"

definition COTP_DT :: bytes where "COTP_DT = [0x02, 0xf0, 0x80]"

definition tpkt :: "bytes \<Rightarrow> bytes" where
  "tpkt cotp =
     (let tot = 4 + length cotp
      in [0x03, 0x00, word_of_nat (drop_bit 8 tot), word_of_nat (tot AND 0xff)] @ cotp)"

definition tpkt_cotp :: "bytes \<Rightarrow> bytes" where
  "tpkt_cotp s7 = tpkt (COTP_DT @ s7)"

definition cotp_cr :: bytes where
  "cotp_cr = tpkt
     [0x11, 0xe0, 0x00, 0x00, 0x00, 0x01, 0x00, 0xc0, 0x01, 0x0a, 0xc1, 0x02, 0x01, 0x00, 0xc2, 0x02, 0x01, 0x02]"

definition cotp_cc :: bytes where
  "cotp_cc = tpkt
     [0x11, 0xd0, 0x00, 0x01, 0x00, 0x02, 0x00, 0xc0, 0x01, 0x0a, 0xc1, 0x02, 0x01, 0x02, 0xc2, 0x02, 0x01, 0x00]"

definition s7_setup_request :: bytes where
  "s7_setup_request = tpkt_cotp
     [0x32, 0x01, 0x00, 0x00, 0x00, 0x00, 0x00, 0x08, 0x00, 0x00, 0xf0, 0x00, 0x00, 0x01, 0x00, 0x01, 0x01, 0xe0]"

definition s7_setup_response :: bytes where
  "s7_setup_response = tpkt_cotp
     [0x32, 0x03, 0x00, 0x00, 0x00, 0x00, 0x00, 0x08, 0x00, 0x00, 0x00, 0x00, 0xf0, 0x00, 0x00, 0x01, 0x00, 0x01,
      0x00, 0xf0]"

section \<open>Code: module identification\<close>

definition read_szl_request :: bytes where
  "read_szl_request =
     (let s7 = [0x32, 0x07, 0x00, 0x00, 0x00, 0x00, 0x00, 0x08, 0x00, 0x08];
          s7 = s7 @ [0x00, 0x01, 0x12, 0x04, 0x11, 0x44, 0x01, 0x00];
          s7 = s7 @ [0xff, 0x09, 0x00, 0x04, 0x00, 0x11, 0x00, 0x00]
      in tpkt_cotp s7)"

text \<open>\<open>for (dst, src) in b.iter_mut().zip(..) { *dst = src }\<close>\<close>

definition overwrite :: "bytes \<Rightarrow> bytes \<Rightarrow> bytes" where
  "overwrite b src = (let src = take (length b) src in src @ drop (length src) b)"

definition read_szl_response :: "string \<Rightarrow> u8 \<Rightarrow> u8 \<Rightarrow> bytes" where
  "read_szl_response order_number version_major version_minor =
     (let mlfb = overwrite (replicate 20 0x20) (as_bytes order_number);
          rec = to_be16 0x0001 @ mlfb @ to_be16 0x0000 @ [version_major, version_minor] @ to_be16 0x0000;
          szl = to_be16 0x0011 @ to_be16 0x0000 @ to_be16 (word_of_nat (length rec)) @ to_be16 0x0001 @ rec;
          data = [0xff, 0x09] @ to_be16 (word_of_nat (length szl)) @ szl;
          param = [0x00, 0x01, 0x12, 0x08, 0x12, 0x84, 0x01, 0x01, 0x00, 0x00, 0x00, 0x00];
          s7 = [0x32, 0x07, 0x00, 0x00, 0x00, 0x00] @ to_be16 (word_of_nat (length param)) @
            to_be16 (word_of_nat (length data)) @ param @ data
      in tpkt_cotp s7)"

definition szl_exchange ::
  "mac \<Rightarrow> mac \<Rightarrow> ipv4 \<Rightarrow> ipv4 \<Rightarrow> u16 \<Rightarrow> string \<Rightarrow> u8 \<Rightarrow> u8 \<Rightarrow> bytes list exec" where
  "szl_exchange client_mac plc_mac client_ip plc_ip client_port order_number version_major version_minor = do {
     let s = session_new client_mac plc_mac client_ip plc_ip client_port S7_PORT;
     s \<leftarrow> session_open s;
     s \<leftarrow> client_says cotp_cr s;
     s \<leftarrow> server_says cotp_cc s;
     s \<leftarrow> client_says s7_setup_request s;
     s \<leftarrow> server_says s7_setup_response s;
     s \<leftarrow> client_says read_szl_request s;
     s \<leftarrow> server_says (read_szl_response order_number version_major version_minor) s;
     s \<leftarrow> session_close s;
     ret (ts_frames s)
   }"

section \<open>Code: control and program download\<close>

definition s7_job :: "bytes \<Rightarrow> bytes \<Rightarrow> bytes" where
  "s7_job param data = tpkt_cotp
     ([0x32, 0x01, 0x00, 0x00, 0x00, 0x00] @ to_be16 (word_of_nat (length param)) @
      to_be16 (word_of_nat (length data)) @ param @ data)"

definition s7_ack_data :: "bytes \<Rightarrow> bytes \<Rightarrow> bytes" where
  "s7_ack_data param data = tpkt_cotp
     ([0x32, 0x03, 0x00, 0x00, 0x00, 0x00] @ to_be16 (word_of_nat (length param)) @
      to_be16 (word_of_nat (length data)) @ [0x00, 0x00] @ param @ data)"

definition block_descriptor :: "string \<Rightarrow> bytes" where
  "block_descriptor block_id = overwrite (as_bytes ''_0800001P'') (as_bytes block_id)"

fun s7_exchanges :: "(bytes \<times> bytes) list \<Rightarrow> tcp_session \<Rightarrow> tcp_session exec" where
  "s7_exchanges [] s = ret s"
| "s7_exchanges ((req, resp) # xs) s = do { s \<leftarrow> client_says req s; s \<leftarrow> server_says resp s; s7_exchanges xs s }"

definition s7_session ::
  "mac \<Rightarrow> mac \<Rightarrow> ipv4 \<Rightarrow> ipv4 \<Rightarrow> u16 \<Rightarrow> (bytes \<times> bytes) list \<Rightarrow> bytes list exec" where
  "s7_session client_mac plc_mac client_ip plc_ip client_port exchanges = do {
     let s = session_new client_mac plc_mac client_ip plc_ip client_port S7_PORT;
     s \<leftarrow> session_open s;
     s \<leftarrow> client_says cotp_cr s;
     s \<leftarrow> server_says cotp_cc s;
     s \<leftarrow> client_says s7_setup_request s;
     s \<leftarrow> server_says s7_setup_response s;
     s \<leftarrow> s7_exchanges exchanges s;
     s \<leftarrow> session_close s;
     ret (ts_frames s)
   }"

definition plc_stop_request :: bytes where
  "plc_stop_request = s7_job ([0x29, 0x00, 0x00, 0x00, 0x00, 0x00] @ [0x09] @ as_bytes ''P_PROGRAM'') []"

definition plc_stop_response :: bytes where
  "plc_stop_response = s7_ack_data [0x29] []"

definition write_db_word_request :: "u16 \<Rightarrow> u16 \<Rightarrow> u16 \<Rightarrow> bytes" where
  "write_db_word_request db byte_offset val =
     (let bit_addr = (ucast byte_offset :: u32) * 8;
          param = [0x05, 0x01, 0x12, 0x0a, 0x10, 0x04, 0x00, 0x01, ucast (drop_bit 8 db), ucast (db AND 0xff), 0x84,
            ucast (drop_bit 16 bit_addr AND 0xff), ucast (drop_bit 8 bit_addr AND 0xff), ucast (bit_addr AND 0xff)];
          data = [0x00, 0x04, 0x00, 0x10, ucast (drop_bit 8 val), ucast (val AND 0xff)]
      in s7_job param data)"

definition write_var_response :: bytes where
  "write_var_response = s7_ack_data [0x05, 0x01] [0xff]"

definition request_download :: "string \<Rightarrow> bytes" where
  "request_download block_id =
     (let desc = block_descriptor block_id;
          param = [0x1a, 0x00, 0x00, 0x01, 0x00, 0x00, 0x00, 0x00, 0x00] @ [word_of_nat (length desc)] @ desc @
            [0x01] @ as_bytes ''000420'' @ as_bytes ''000260''
      in s7_job param [])"

definition request_download_ack :: bytes where
  "request_download_ack = s7_ack_data [0x1a] []"

definition download_block :: "string \<Rightarrow> bytes \<Rightarrow> bytes" where
  "download_block block_id mc7 =
     (let desc = block_descriptor block_id;
          param = [0x1b, 0x00, 0x00, 0x00, 0x00, 0x00, 0x00, 0x00, 0x00] @ [word_of_nat (length desc)] @ desc
      in s7_job param mc7)"

definition download_block_ack :: "bytes \<Rightarrow> bytes" where
  "download_block_ack mc7 = s7_ack_data [0x1b, 0x00] mc7"

definition download_ended :: "string \<Rightarrow> bytes" where
  "download_ended block_id =
     (let desc = block_descriptor block_id;
          param = [0x1c, 0x00, 0x00, 0x01, 0x00, 0x00, 0x00, 0x00, 0x00] @ [word_of_nat (length desc)] @ desc
      in s7_job param [])"

definition download_ended_ack :: bytes where
  "download_ended_ack = s7_ack_data [0x1c] []"

definition plc_stop :: "mac \<Rightarrow> mac \<Rightarrow> ipv4 \<Rightarrow> ipv4 \<Rightarrow> u16 \<Rightarrow> bytes list exec" where
  "plc_stop client_mac plc_mac client_ip plc_ip client_port =
     s7_session client_mac plc_mac client_ip plc_ip client_port [(plc_stop_request, plc_stop_response)]"

definition write_db_word :: "mac \<Rightarrow> mac \<Rightarrow> ipv4 \<Rightarrow> ipv4 \<Rightarrow> u16 \<Rightarrow> u16 \<Rightarrow> u16 \<Rightarrow> u16 \<Rightarrow> bytes list exec" where
  "write_db_word client_mac plc_mac client_ip plc_ip client_port db byte_offset val =
     s7_session client_mac plc_mac client_ip plc_ip client_port
       [(write_db_word_request db byte_offset val, write_var_response)]"

definition s7_program_download ::
  "mac \<Rightarrow> mac \<Rightarrow> ipv4 \<Rightarrow> ipv4 \<Rightarrow> u16 \<Rightarrow> string \<Rightarrow> bytes \<Rightarrow> bytes list exec" where
  "s7_program_download client_mac plc_mac client_ip plc_ip client_port block_id mc7 =
     s7_session client_mac plc_mac client_ip plc_ip client_port
       [(request_download block_id, request_download_ack),
        (download_block block_id mc7, download_block_ack mc7),
        (download_ended block_id, download_ended_ack)]"

section \<open>Reading TPKT records and S7 messages\<close>

definition get_tpkt :: "bytes \<Rightarrow> (bytes \<times> bytes) option" where
  "get_tpkt p = do {
     (v, r) \<leftarrow> get8 p; (z, r) \<leftarrow> get8 r; (n, r) \<leftarrow> get_be16 r;
     if v = 0x03 \<and> z = 0 \<and> 4 \<le> unat n then get_bytes (unat n - 4) r else None
   }"

lemma len_bytes16:
  "(word_of_nat (drop_bit 8 n) :: u8) = ucast (drop_bit 8 (word_of_nat n :: u16))"
  "(word_of_nat (n AND 0xff) :: u8) = ucast (word_of_nat n :: u16)"
proof -
  have m: "(0xff :: nat) = mask 8" by (simp add: mask_eq_exp_minus_1)
  show "(word_of_nat (drop_bit 8 n) :: u8) = ucast (drop_bit 8 (word_of_nat n :: u16))"
    by (rule bit_word_eqI) (simp add: bit_simps)
  show "(word_of_nat (n AND 0xff) :: u8) = ucast (word_of_nat n :: u16)"
    unfolding m by (rule bit_word_eqI) (auto simp: bit_simps)
qed

lemma tpkt_be16: "tpkt cotp = [0x03, 0x00] @ to_be16 (word_of_nat (4 + length cotp)) @ cotp"
  by (simp only: tpkt_def Let_def to_be16_def append.simps len_bytes16)

lemma get_tpkt_tpkt: "length cotp \<le> 65531 \<Longrightarrow> get_tpkt (tpkt cotp @ r) = Some (cotp, r)"
proof -
  assume n: "length cotp \<le> 65531"
  have "unat (word_of_nat (4 + length cotp) :: u16) = 4 + length cotp"
    using n by (intro unat_word_of_nat) simp
  then obtain w :: u16 where "word_of_nat (4 + length cotp) = w" "unat w = 4 + length cotp" by blast
  then show ?thesis unfolding get_tpkt_def tpkt_be16 by simp
qed

interpretation tpkt_code: self_delimiting tpkt get_tpkt "\<lambda>c. length c \<le> 65531"
  by unfold_locales (simp_all add: get_tpkt_tpkt, simp add: tpkt_def Let_def)

text \<open>An S7 job or acknowledgement inside a COTP data record: its kind, parameter and data.\<close>

definition get_s7 :: "bytes \<Rightarrow> (u8 \<times> bytes \<times> bytes) option" where
  "get_s7 cotp = do {
     (dt, r) \<leftarrow> get_bytes 3 cotp; (head, r) \<leftarrow> get_bytes 6 r;
     (np, r) \<leftarrow> get_be16 r; (nd, r) \<leftarrow> get_be16 r;
     (err, r) \<leftarrow> get_bytes (if head ! 1 = 0x03 then 2 else 0) r;
     (param, r) \<leftarrow> get_bytes (unat np) r; (data, r) \<leftarrow> get_bytes (unat nd) r;
     if dt = COTP_DT \<and> head ! 0 = 0x32 \<and> r = [] then Some (head ! 1, param, data) else None
   }"

definition s7_pdu :: "u8 \<Rightarrow> bytes \<Rightarrow> bytes \<Rightarrow> bytes" where
  "s7_pdu k param data = COTP_DT @ [0x32, k, 0x00, 0x00, 0x00, 0x00] @ to_be16 (word_of_nat (length param)) @
     to_be16 (word_of_nat (length data)) @ (if k = 0x03 then [0x00, 0x00] else []) @ param @ data"

lemma s7_job_pdu: "s7_job param data = tpkt (s7_pdu 0x01 param data)"
  by (simp add: s7_job_def tpkt_cotp_def s7_pdu_def)

lemma s7_ack_pdu: "s7_ack_data param data = tpkt (s7_pdu 0x03 param data)"
  by (simp add: s7_ack_data_def tpkt_cotp_def s7_pdu_def)

lemma get_s7_pdu:
  assumes "length param < 65536" and "length data < 65536"
  shows "get_s7 (s7_pdu k param data) = Some (k, param, data)"
proof -
  obtain v w :: u16 where w: "word_of_nat (length param) = v" "unat v = length param"
    "word_of_nat (length data) = w" "unat w = length data"
    using unat_word_of_nat [of "length param", where 'a = 16] unat_word_of_nat [of "length data", where 'a = 16] assms
    by fastforce
  have 1: "get_bytes 3 (COTP_DT @ r) = Some (COTP_DT, r)" for r by (rule get_bytes_append) (simp add: COTP_DT_def)
  have 2: "get_bytes 6 ([0x32, k, 0, 0, 0, 0] @ r) = Some ([0x32, k, 0, 0, 0, 0], r)" for r
    by (rule get_bytes_append) simp
  have 3: "get_bytes 2 ([0, 0] @ r) = Some ([0, 0], r)" "get_bytes 0 r = Some ([], r)" for r :: bytes
    by (rule get_bytes_append, simp) (simp add: get_bytes_def)
  show ?thesis
    unfolding get_s7_def s7_pdu_def w(1,3)
    by (cases "k = 3") (simp_all add: 1 2 3 w(2,4) del: bind_exec_Some append_Cons)
qed

section \<open>The stream of a session\<close>

definition s7_dialogue :: "(bytes \<times> bytes) list \<Rightarrow> (side \<times> bytes) list" where
  "s7_dialogue xs = concat (map (\<lambda>(q, r). [(Client, q), (Server, r)])
     ((cotp_cr, cotp_cc) # (s7_setup_request, s7_setup_response) # xs))"

lemma run_exchanges: "s7_exchanges xs s = fold_exec say (concat (map (\<lambda>(q, r). [(Client, q), (Server, r)]) xs)) s"
proof (induction xs s rule: s7_exchanges.induct)
  case (2 req resp xs s)
  then show ?case by (cases "client_says req s") (auto cong: Option.bind_cong)
qed simp

lemma s7_session_converse:
  "s7_session client_mac plc_mac client_ip plc_ip client_port xs =
     tcp_converse client_mac plc_mac client_ip plc_ip client_port S7_PORT (s7_dialogue xs)"
  by (simp add: s7_session_def s7_dialogue_def tcp_converse_eq run_exchanges)

text \<open>What the PLC is asked: kind, function code and data of every record after the connection request.\<close>

definition s7_jobs :: "bytes \<Rightarrow> (u8 \<times> u8 \<times> bytes) option list option" where
  "s7_jobs up = map_option (map (\<lambda>c. map_option (\<lambda>(k, param, data). (k, hd param, data)) (get_s7 c)))
     (get_all get_tpkt up)"

lemma s7_stream:
  assumes "list_all (\<lambda>c. length c \<le> 65531) cs"
  shows "s7_jobs (concat (map tpkt cs)) = Some (map (\<lambda>c. map_option (\<lambda>(k, param, data). (k, hd param, data)) (get_s7 c)) cs)"
  using tpkt_code.get_all_enc [OF assms] by (simp add: s7_jobs_def)

lemma setup_pdus:
  "s7_setup_request = tpkt (s7_pdu 0x01 [0xf0, 0x00, 0x00, 0x01, 0x00, 0x01, 0x01, 0xe0] [])"
  "s7_setup_response = tpkt (s7_pdu 0x03 [0xf0, 0x00, 0x00, 0x01, 0x00, 0x01, 0x00, 0xf0] [])"
  by (simp_all add: s7_setup_request_def s7_setup_response_def tpkt_cotp_def s7_pdu_def to_be16_def)

lemma length_overwrite [simp, len_simps]: "length (overwrite b src) = length b"
  by (simp add: overwrite_def Let_def min_def)

lemma length_descriptor [simp, len_simps]: "length (block_descriptor block_id) = 9"
  by (simp add: block_descriptor_def)

lemma length_s7_pdu: "length (s7_pdu k param data) = 13 + (if k = 3 then 2 else 0) + length param + length data"
  by (simp add: s7_pdu_def COTP_DT_def)

lemma case_panic: "(\<lambda>(a, b). panic) = (\<lambda>_. panic)"
  by (simp add: fun_eq_iff)

lemma bind_panic: "Option.bind x (\<lambda>_. panic) = panic"
  by (cases x) simp_all

definition cr_body :: bytes where
  "cr_body = [0x11, 0xe0, 0x00, 0x00, 0x00, 0x01, 0x00, 0xc0, 0x01, 0x0a, 0xc1, 0x02, 0x01, 0x00, 0xc2, 0x02, 0x01, 0x02]"

lemma cr_body: "cotp_cr = tpkt cr_body" "length cr_body = 18" "get_s7 cr_body = None"
proof -
  show "cotp_cr = tpkt cr_body" "length cr_body = 18" by (simp_all add: cotp_cr_def cr_body_def)
  have "get_bytes 3 cr_body = Some ([0x11, 0xe0, 0x00], drop 3 cr_body)" by (simp add: get_bytes_def cr_body_def)
  then show "get_s7 cr_body = None"
    by (simp add: get_s7_def COTP_DT_def case_panic bind_panic del: bind_exec_Some)
qed

lemma program_download_stream:
  assumes m: "length client_mac = 6" "length plc_mac = 6" and e: "(client_ip, client_port) \<noteq> (plc_ip, S7_PORT)"
    and n: "length mc7 \<le> 65000"
  obtains fs up down where "s7_program_download client_mac plc_mac client_ip plc_ip client_port block_id mc7 = ret fs"
    and "length fs = 17" and "tcp_conversation fs client_ip client_port plc_ip S7_PORT up down"
    and "s7_jobs up = Some [None, Some (0x01, 0xf0, []), Some (0x01, 0x1a, []), Some (0x01, 0x1b, mc7), Some (0x01, 0x1c, [])]"
proof -
  let ?xs = "[(request_download block_id, request_download_ack), (download_block block_id mc7, download_block_ack mc7),
        (download_ended block_id, download_ended_ack)]"
  let ?d = "block_descriptor block_id"
  let ?p1 = "[0x1a, 0, 0, 1, 0, 0, 0, 0, 0, 9] @ ?d @ [0x01] @ as_bytes ''000420'' @ as_bytes ''000260''"
  let ?p2 = "[0x1b, 0, 0, 0, 0, 0, 0, 0, 0, 9] @ ?d" and ?p3 = "[0x1c, 0, 0, 1, 0, 0, 0, 0, 0, 9] @ ?d"
  let ?s = "[0xf0, 0x00, 0x00, 0x01, 0x00, 0x01, 0x01, 0xe0] :: bytes"
  let ?cs = "[cr_body, s7_pdu 1 ?s [], s7_pdu 1 ?p1 [], s7_pdu 1 ?p2 mc7, s7_pdu 1 ?p3 []]"
  have j: "request_download block_id = tpkt (s7_pdu 1 ?p1 [])" "download_block block_id mc7 = tpkt (s7_pdu 1 ?p2 mc7)"
    "download_ended block_id = tpkt (s7_pdu 1 ?p3 [])"
    by (simp_all add: request_download_def download_block_def download_ended_def s7_job_pdu Let_def)
  have lt: "length (tpkt c) = 4 + length c" for c by (simp add: tpkt_def Let_def)
  have "list_all (\<lambda>(d, p). length p \<le> 65495) (s7_dialogue ?xs)"
    using n by (simp add: s7_dialogue_def j lt length_s7_pdu cr_body setup_pdus cotp_cc_def request_download_ack_def
        download_block_ack_def download_ended_ack_def s7_ack_pdu)
  then obtain fs where f: "tcp_converse client_mac plc_mac client_ip plc_ip client_port S7_PORT (s7_dialogue ?xs) = ret fs"
    "length fs = 7 + length (s7_dialogue ?xs)"
    "tcp_conversation fs client_ip client_port plc_ip S7_PORT (said_by Client (s7_dialogue ?xs)) (said_by Server (s7_dialogue ?xs))"
    using tcp_converse_ok [OF m e] by metis
  have up: "said_by Client (s7_dialogue ?xs) = concat (map tpkt ?cs)"
    by (simp add: said_by_def s7_dialogue_def cr_body setup_pdus j)
  have "s7_jobs (concat (map tpkt ?cs)) = Some (map (\<lambda>c. map_option (\<lambda>(k, param, data). (k, hd param, data)) (get_s7 c)) ?cs)"
    by (rule s7_stream) (use n in \<open>simp add: cr_body length_s7_pdu\<close>)
  moreover have "get_s7 (s7_pdu 1 ?s []) = Some (1, ?s, [])" "get_s7 (s7_pdu 1 ?p1 []) = Some (1, ?p1, [])"
    "get_s7 (s7_pdu 1 ?p2 mc7) = Some (1, ?p2, mc7)" "get_s7 (s7_pdu 1 ?p3 []) = Some (1, ?p3, [])"
    by (rule get_s7_pdu; use n in simp)+
  ultimately have "s7_jobs (said_by Client (s7_dialogue ?xs)) =
      Some [None, Some (0x01, 0xf0, []), Some (0x01, 0x1a, []), Some (0x01, 0x1b, mc7), Some (0x01, 0x1c, [])]"
    unfolding up by (simp add: cr_body)
  with f show thesis
    by (intro that [of fs]) (simp_all add: s7_program_download_def s7_session_converse s7_dialogue_def)
qed

end
