(* ===== verification/Telecontrol.thy ===== *)
theory Telecontrol
  imports Wire Mutators
begin

text \<open>
  \<open>src/synth/dnp3.rs\<close>, \<open>iec104.rs\<close> and \<open>iec101.rs\<close>: telecontrol commands.  The CRC-16/DNP of the
  \<open>crc\<close> crate (\<open>src/proto/crc.rs\<close> only calls it) is the parameter \<open>crc\<close>.  \<open>deframe\<close> reads a DNP3 link
  frame back with its header and block CRCs; \<open>get_apdu\<close> and \<open>get_ft12\<close> read the IEC 60870-5 frames.
\<close>

section \<open>Code: DNP3\<close>

definition DNP3_PORT :: u16 where "DNP3_PORT = 20000"

definition link_frame :: "(bytes \<Rightarrow> u16) \<Rightarrow> u8 \<Rightarrow> u16 \<Rightarrow> u16 \<Rightarrow> bytes \<Rightarrow> bytes" where
  "link_frame crc ctrl dest src user =
     (let b = [0x05, 0x64, word_of_nat (5 + length user), ctrl];
          b = b @ to_le16 dest;
          b = b @ to_le16 src;
          hcrc = crc (take 8 b);
          b = b @ to_le16 hcrc
      in b @ concat (map (\<lambda>chunk. chunk @ to_le16 (crc chunk)) (chunks 16 user)))"

definition integrity_poll_user :: bytes where
  "integrity_poll_user =
     [0xC0, 0xC0, 0x01] @ concat (map (\<lambda>var. [0x3C, var, 0x06]) [0x02, 0x03, 0x04, 0x01])"

definition crob_user :: "u8 \<Rightarrow> u8 \<Rightarrow> u8 \<Rightarrow> bool \<Rightarrow> bytes" where
  "crob_user func seq index close =
     (let app_ctrl = 0xC0 OR (seq AND 0x0f);
          control_code = (if close then 0x41 else 0x81);
          crob = [control_code, 0x01] @ to_le32 100 @ to_le32 0 @ [0x00];
          u = [app_ctrl, func, 0x0C, 0x01, 0x17, 0x01, index] @ crob
      in [0xC0] @ u)"

definition response_user :: "u8 \<Rightarrow> bytes" where
  "response_user seq = [0xC0, 0xC0 OR (seq AND 0x0f), 0x81, 0x00, 0x00]"

definition integrity_poll ::
  "(bytes \<Rightarrow> u16) \<Rightarrow> mac \<Rightarrow> mac \<Rightarrow> ipv4 \<Rightarrow> ipv4 \<Rightarrow> u16 \<Rightarrow> u16 \<Rightarrow> bytes list exec" where
  "integrity_poll crc master_mac out_mac master_ip out_ip master_port common_addr = do {
     let master = common_addr + 1000;
     let s = session_new master_mac out_mac master_ip out_ip master_port DNP3_PORT;
     s \<leftarrow> session_open s;
     s \<leftarrow> client_says (link_frame crc 0xC4 common_addr master integrity_poll_user) s;
     s \<leftarrow> server_says (link_frame crc 0x44 master common_addr (response_user 0)) s;
     s \<leftarrow> session_close s;
     ret (ts_frames s)
   }"

definition dnp3_operate ::
  "(bytes \<Rightarrow> u16) \<Rightarrow> mac \<Rightarrow> mac \<Rightarrow> ipv4 \<Rightarrow> ipv4 \<Rightarrow> u16 \<Rightarrow> u16 \<Rightarrow> u8 \<Rightarrow> bool \<Rightarrow> bytes list exec" where
  "dnp3_operate crc master_mac out_mac master_ip out_ip master_port common_addr index close = do {
     let master = common_addr + 1000;
     let s = session_new master_mac out_mac master_ip out_ip master_port DNP3_PORT;
     s \<leftarrow> session_open s;
     s \<leftarrow> client_says (link_frame crc 0xC4 common_addr master (crob_user 0x03 0 index close)) s;
     s \<leftarrow> server_says (link_frame crc 0x44 master common_addr (response_user 0)) s;
     s \<leftarrow> client_says (link_frame crc 0xC4 common_addr master (crob_user 0x04 1 index close)) s;
     s \<leftarrow> server_says (link_frame crc 0x44 master common_addr (response_user 1)) s;
     s \<leftarrow> session_close s;
     ret (ts_frames s)
   }"

section \<open>Code: IEC 60870-5-104\<close>

definition IEC104_PORT :: u16 where "IEC104_PORT = 2404"

definition u_frame :: "u8 \<Rightarrow> bytes" where
  "u_frame func = [0x68, 0x04, func, 0x00, 0x00, 0x00]"

definition i_frame :: "u16 \<Rightarrow> u16 \<Rightarrow> bytes \<Rightarrow> bytes" where
  "i_frame ns nr asdu_bytes =
     (let len = 4 + length asdu_bytes
      in [0x68, word_of_nat len] @ to_le16 (push_bit 1 ns) @ to_le16 (push_bit 1 nr) @ asdu_bytes)"

definition s_frame :: "u16 \<Rightarrow> bytes" where
  "s_frame nr = [0x68, 0x04, 0x01, 0x00] @ to_le16 (push_bit 1 nr)"

definition asdu :: "u8 \<Rightarrow> u8 \<Rightarrow> u16 \<Rightarrow> u32 \<Rightarrow> bytes \<Rightarrow> bytes" where
  "asdu type_id cot common_addr ioa elements =
     [type_id, 0x01, cot, 0x00] @ to_le16 common_addr @
     [ucast (ioa AND 0xff), ucast (drop_bit 8 ioa AND 0xff), ucast (drop_bit 16 ioa AND 0xff)] @ elements"

definition start_link :: "tcp_session \<Rightarrow> tcp_session exec" where
  "start_link s = do {
     s \<leftarrow> session_open s;
     s \<leftarrow> client_says (u_frame 0x07) s;
     server_says (u_frame 0x0b) s
   }"

definition iec104_single_command ::
  "mac \<Rightarrow> mac \<Rightarrow> ipv4 \<Rightarrow> ipv4 \<Rightarrow> u16 \<Rightarrow> u16 \<Rightarrow> u32 \<Rightarrow> bool \<Rightarrow> bytes list exec" where
  "iec104_single_command client_mac rtu_mac client_ip rtu_ip client_port common_addr ioa close = do {
     let sco = (if close then 1 else 0);
     let s = session_new client_mac rtu_mac client_ip rtu_ip client_port IEC104_PORT;
     s \<leftarrow> start_link s;
     s \<leftarrow> client_says (i_frame 0 0 (asdu 45 6 common_addr ioa [sco])) s;
     s \<leftarrow> server_says (i_frame 0 1 (asdu 45 7 common_addr ioa [sco])) s;
     s \<leftarrow> server_says (i_frame 1 1 (asdu 45 10 common_addr ioa [sco])) s;
     s \<leftarrow> client_says (s_frame 2) s;
     s \<leftarrow> session_close s;
     ret (ts_frames s)
   }"

definition iec104_double_command ::
  "mac \<Rightarrow> mac \<Rightarrow> ipv4 \<Rightarrow> ipv4 \<Rightarrow> u16 \<Rightarrow> u16 \<Rightarrow> u32 \<Rightarrow> u8 \<Rightarrow> bytes list exec" where
  "iec104_double_command client_mac rtu_mac client_ip rtu_ip client_port common_addr ioa state = do {
     let dco = state AND 0x03;
     let s = session_new client_mac rtu_mac client_ip rtu_ip client_port IEC104_PORT;
     s \<leftarrow> start_link s;
     s \<leftarrow> client_says (i_frame 0 0 (asdu 46 6 common_addr ioa [dco])) s;
     s \<leftarrow> server_says (i_frame 0 1 (asdu 46 7 common_addr ioa [dco])) s;
     s \<leftarrow> client_says (s_frame 1) s;
     s \<leftarrow> session_close s;
     ret (ts_frames s)
   }"

definition iec104_interrogation ::
  "mac \<Rightarrow> mac \<Rightarrow> ipv4 \<Rightarrow> ipv4 \<Rightarrow> u16 \<Rightarrow> u16 \<Rightarrow> bytes list exec" where
  "iec104_interrogation client_mac rtu_mac client_ip rtu_ip client_port common_addr = do {
     let s = session_new client_mac rtu_mac client_ip rtu_ip client_port IEC104_PORT;
     s \<leftarrow> start_link s;
     s \<leftarrow> client_says (i_frame 0 0 (asdu 100 6 common_addr 0 [20])) s;
     s \<leftarrow> server_says (i_frame 0 1 (asdu 100 7 common_addr 0 [20])) s;
     s \<leftarrow> server_says (i_frame 1 1 (asdu 100 10 common_addr 0 [20])) s;
     s \<leftarrow> client_says (s_frame 2) s;
     s \<leftarrow> session_close s;
     ret (ts_frames s)
   }"

section \<open>Code: IEC 60870-5-101 over TCP\<close>

definition IEC101_PORT :: u16 where "IEC101_PORT = 2405"

definition ft12 :: "u8 \<Rightarrow> u8 \<Rightarrow> bytes \<Rightarrow> bytes" where
  "ft12 ctrl link_addr asdu_bytes =
     (let l = word_of_nat (2 + length asdu_bytes);
          b = [0x68, l, l, 0x68, ctrl, link_addr] @ asdu_bytes;
          s = fold (\<lambda>x a. a + x) ([ctrl] @ [link_addr] @ asdu_bytes) 0
      in b @ [s] @ [0x16])"

definition iec101_interrogation ::
  "mac \<Rightarrow> mac \<Rightarrow> ipv4 \<Rightarrow> ipv4 \<Rightarrow> u16 \<Rightarrow> u16 \<Rightarrow> bytes list exec" where
  "iec101_interrogation client_mac rtu_mac client_ip rtu_ip client_port common_addr = do {
     let addr = ucast common_addr;
     let s = session_new client_mac rtu_mac client_ip rtu_ip client_port IEC101_PORT;
     s \<leftarrow> session_open s;
     s \<leftarrow> client_says (ft12 0x73 addr (asdu 100 6 common_addr 0 [20])) s;
     s \<leftarrow> server_says (ft12 0x00 addr (asdu 100 7 common_addr 0 [20])) s;
     s \<leftarrow> session_close s;
     ret (ts_frames s)
   }"

definition iec101_single_command ::
  "mac \<Rightarrow> mac \<Rightarrow> ipv4 \<Rightarrow> ipv4 \<Rightarrow> u16 \<Rightarrow> u16 \<Rightarrow> u32 \<Rightarrow> bool \<Rightarrow> bytes list exec" where
  "iec101_single_command client_mac rtu_mac client_ip rtu_ip client_port common_addr ioa close = do {
     let addr = ucast common_addr;
     let sco = (if close then 1 else 0);
     let s = session_new client_mac rtu_mac client_ip rtu_ip client_port IEC101_PORT;
     s \<leftarrow> session_open s;
     s \<leftarrow> client_says (ft12 0x73 addr (asdu 45 6 common_addr ioa [sco])) s;
     s \<leftarrow> server_says (ft12 0x00 addr (asdu 45 7 common_addr ioa [sco])) s;
     s \<leftarrow> session_close s;
     ret (ts_frames s)
   }"

section \<open>Reading DNP3 link frames\<close>

function unblock :: "(bytes \<Rightarrow> u16) \<Rightarrow> bytes \<Rightarrow> bytes option" where
  "unblock crc p =
     (if p = [] then Some []
      else if length p < 3 then None
      else let n = min 16 (length p - 2); chunk = take n p in
        if take 2 (drop n p) = to_le16 (crc chunk)
        then map_option ((@) chunk) (unblock crc (drop (n + 2) p)) else None)"
  by pat_completeness auto
termination by (relation "measure (\<lambda>(crc, p). length p)") auto

declare unblock.simps [simp del]

definition deframe :: "(bytes \<Rightarrow> u16) \<Rightarrow> bytes \<Rightarrow> (u8 \<times> u16 \<times> u16 \<times> bytes) option" where
  "deframe crc p = do {
     (head, r) \<leftarrow> get_bytes 8 p; (hcrc, r) \<leftarrow> get_le16 r;
     user \<leftarrow> unblock crc r;
     if take 2 head = [0x05, 0x64] \<and> unat (head ! 2) = 5 + length user \<and> hcrc = crc head
     then Some (head ! 3, le16 (head ! 4) (head ! 5), le16 (head ! 6) (head ! 7), user) else None
   }"

lemma unblock_step:
  assumes "c \<noteq> []" and "min 16 (length c + length r) = length c"
  shows "unblock crc (c @ to_le16 (crc c) @ r) = map_option ((@) c) (unblock crc r)"
proof -
  have "3 \<le> length (c @ to_le16 (crc c) @ r)" using assms(1) by (cases c) simp_all
  moreover have "min 16 (length (c @ to_le16 (crc c) @ r) - 2) = length c" using assms(2) by simp
  ultimately show ?thesis using assms(1) by (subst unblock.simps) (simp add: Let_def)
qed

text \<open>Every chunk but the last has sixteen bytes, which is how the receiver finds the CRCs.\<close>

lemma unblock_blocks:
  "unblock crc (concat (map (\<lambda>chunk. chunk @ to_le16 (crc chunk)) (chunks 16 user))) = Some user"
proof (induction "16 :: nat" user rule: chunks.induct)
  case (1 user)
  show ?case
  proof (cases "user = []")
    case True
    then show ?thesis by (simp add: unblock.simps)
  next
    case False
    let ?f = "\<lambda>chunk. chunk @ to_le16 (crc chunk)"
    let ?c = "take 16 user" and ?rest = "concat (map ?f (chunks 16 (drop 16 user)))"
    have ch: "concat (map ?f (chunks 16 user)) = ?c @ to_le16 (crc ?c) @ ?rest"
      using False by (simp add: chunks.simps [of 16 user])
    have n: "min 16 (length ?c + length ?rest) = length ?c"
      by (cases "16 \<le> length user") simp_all
    have IH: "unblock crc ?rest = Some (drop 16 user)" using 1 False by simp
    have "?c \<noteq> []" using False by simp
    from unblock_step [OF this n, of crc] show ?thesis unfolding ch IH by simp
  qed
qed

lemma length_blocks:
  "length (concat (map (\<lambda>chunk. chunk @ to_le16 (crc chunk)) (chunks 16 user))) = length user + 2 * ((length user + 15) div 16)"
proof (induction "16 :: nat" user rule: chunks.induct)
  case (1 user)
  show ?case
  proof (cases "user = []")
    case False
    then have IH: "length (concat (map (\<lambda>chunk. chunk @ to_le16 (crc chunk)) (chunks 16 (drop 16 user)))) =
        (length user - 16) + 2 * ((length user - 16 + 15) div 16)" using 1 by simp
    show ?thesis
    proof (cases "16 \<le> length user")
      case True
      then obtain k where k: "length user = 16 + k" by (metis le_Suc_ex)
      have "(31 + k) div 16 = Suc ((15 + k) div 16)" by linarith
      then show ?thesis using IH k False by (simp add: chunks.simps [of 16 user])
    next
      case short: False
      then have "(length user + 15) div 16 = 1" using False by (cases user) auto
      then show ?thesis using short False IH by (simp add: chunks.simps [of 16 user])
    qed
  qed simp
qed

lemma link_frame_parts:
  assumes "length user \<le> 250"
  obtains lb :: u8 where "unat lb = 5 + length user"
    and "link_frame crc ctrl dest src user = ([0x05, 0x64, lb, ctrl] @ to_le16 dest @ to_le16 src) @
      to_le16 (crc ([0x05, 0x64, lb, ctrl] @ to_le16 dest @ to_le16 src)) @
      concat (map (\<lambda>chunk. chunk @ to_le16 (crc chunk)) (chunks 16 user))"
proof -
  have "unat (word_of_nat (5 + length user) :: u8) = 5 + length user"
    using assms by (intro unat_word_of_nat) simp
  then obtain lb :: u8 where lb: "word_of_nat (5 + length user) = lb" "unat lb = 5 + length user" by blast
  show thesis
    by (rule that [of lb]) (simp_all add: lb(2) link_frame_def lb(1) [simplified])
qed

lemma le16_to_le16 [simp]: "le16 (ucast w) (ucast (drop_bit 8 (w :: u16))) = w"
  by (simp add: le16_def)

lemma deframe_parts:
  assumes "unat lb = 5 + length user"
  shows "deframe crc (([0x05, 0x64, lb, ctrl] @ to_le16 dest @ to_le16 src) @
      to_le16 (crc ([0x05, 0x64, lb, ctrl] @ to_le16 dest @ to_le16 src)) @
      concat (map (\<lambda>chunk. chunk @ to_le16 (crc chunk)) (chunks 16 user))) = Some (ctrl, dest, src, user)"
proof -
  define bl where "bl = concat (map (\<lambda>chunk. chunk @ to_le16 (crc chunk)) (chunks 16 user))"
  have bl: "unblock crc bl = Some user" by (simp add: bl_def unblock_blocks)
  define h where "h = [0x05, 0x64, lb, ctrl] @ to_le16 dest @ to_le16 src"
  have h: "length h = 8" "take 2 h = [0x05, 0x64]" "h ! 2 = lb" "h ! 3 = ctrl" "le16 (h ! 4) (h ! 5) = dest"
    "le16 (h ! 6) (h ! 7) = src"
    by (simp_all add: h_def to_le16_def)
  show ?thesis
    unfolding deframe_def bl_def [symmetric] h_def [symmetric] using assms h bl by simp
qed

lemma deframe_link_frame:
  "length user \<le> 250 \<Longrightarrow> deframe crc (link_frame crc ctrl dest src user) = Some (ctrl, dest, src, user)"
  by (rule link_frame_parts [of user crc ctrl dest src]) (simp_all only: deframe_parts)

section \<open>The mutator on a built link frame\<close>

lemma length_link_frame:
  "length user \<le> 250 \<Longrightarrow> length (link_frame crc ctrl dest src user) = 10 + length user + 2 * ((length user + 15) div 16)"
  by (rule link_frame_parts [of user crc ctrl dest src]) (simp_all add: length_blocks)

lemma link_frame_headers:
  assumes "length user \<le> 250"
  shows "dnp3_headers (link_frame crc ctrl dest src user) 0 = [0]"
proof -
  obtain lb :: u8 where lb: "unat lb = 5 + length user"
    "link_frame crc ctrl dest src user = ([0x05, 0x64, lb, ctrl] @ to_le16 dest @ to_le16 src) @
      to_le16 (crc ([0x05, 0x64, lb, ctrl] @ to_le16 dest @ to_le16 src)) @
      concat (map (\<lambda>chunk. chunk @ to_le16 (crc chunk)) (chunks 16 user))"
    by (rule link_frame_parts [OF assms, of crc ctrl dest src])
  let ?p = "link_frame crc ctrl dest src user"
  have n: "?p ! 0 = 0x05" "?p ! 1 = 0x64" "?p ! 2 = lb" unfolding lb(2) by simp_all
  have len: "length ?p = 10 + dnp3_user lb"
    using length_link_frame [OF assms] lb(1) by (simp add: dnp3_user_def)
  have at: "dnp3_at ?p 0" using n len lb(1) by (simp add: dnp3_at_def del: nat_shift)
  have "\<not> dnp3_at ?p (10 + dnp3_user lb)" using len by (simp add: dnp3_at_def)
  then have "dnp3_headers ?p (10 + dnp3_user lb) = []" by (subst dnp3_headers.simps) simp
  then show ?thesis using at n(3) by (subst dnp3_headers.simps) (simp del: nat_shift)
qed

lemma take4: "j + 4 \<le> length p \<Longrightarrow> take 4 (drop j p) = [p ! j, p ! (j + 1), p ! (j + 2), p ! (j + 3)]"
  by (intro nth_equalityI) (auto simp: less_Suc_eq numeral_eq_Suc)

text \<open>The mutated frame is the frame with the mapped addresses, CRCs included.\<close>

lemma mutated_link_frame:
  assumes u: "length user \<le> 250" and i: "mapper_inv gen m"
  obtains p' m' rs where "walk (dnp3_step crc gen) 0 (link_frame crc ctrl dest src user) m = ret (p', m', rs)"
    and "p' = link_frame crc ctrl (mapped m' Dnp3Addr dest) (mapped m' Dnp3Addr src) user"
proof -
  let ?p = "link_frame crc ctrl dest src user"
  obtain p' m' rs where w: "walk (dnp3_step crc gen) 0 ?p m = ret (p', m', rs)"
    using dn.walk_total [OF i] by blast
  from dnp3_walk_headers [OF w i] link_frame_headers [OF u, of crc ctrl dest src]
  have d: "length p' = length ?p" "dnp3_done crc m' ?p p' 0" "\<forall>i < length ?p. i \<notin> {4..<10} \<longrightarrow> p' ! i = ?p ! i"
    by auto
  obtain lb :: u8 where lb: "unat lb = 5 + length user"
    "\<And>ds sr. link_frame crc ctrl ds sr user = ([0x05, 0x64, lb, ctrl] @ to_le16 ds @ to_le16 sr) @
      to_le16 (crc ([0x05, 0x64, lb, ctrl] @ to_le16 ds @ to_le16 sr)) @
      concat (map (\<lambda>chunk. chunk @ to_le16 (crc chunk)) (chunks 16 user))"
  proof -
    have "unat (word_of_nat (5 + length user) :: u8) = 5 + length user"
      using u by (intro unat_word_of_nat) simp
    then obtain lb :: u8 where lb: "word_of_nat (5 + length user) = lb" "unat lb = 5 + length user" by blast
    show thesis
      by (rule that [of lb]) (simp_all add: lb(2) link_frame_def lb(1) [simplified])
  qed
  let ?nd = "mapped m' Dnp3Addr dest" and ?ns = "mapped m' Dnp3Addr src"
  let ?bl = "concat (map (\<lambda>chunk. chunk @ to_le16 (crc chunk)) (chunks 16 user))"
  have p: "take 4 ?p = [0x05, 0x64, lb, ctrl]" "drop 10 ?p = ?bl"
    "le16 (?p ! 4) (?p ! 5) = dest" "le16 (?p ! 6) (?p ! 7) = src" "10 \<le> length ?p"
    unfolding lb(2) by (simp_all add: to_le16_def)
  have keep: "take k (drop j p') = take k (drop j ?p)" if "j + k \<le> 4 \<or> 10 \<le> j" for j k
    using d(1,3) that by (intro nth_equalityI) auto
  have 1: "take 4 p' = [0x05, 0x64, lb, ctrl]" using keep [of 0 4] p(1) by simp
  have "drop 10 p' = drop 10 ?p" by (intro nth_equalityI) (use d(1,3) in auto)
  then have 2: "drop 10 p' = ?bl" using p(2) by simp
  have nd: "le16 (p' ! 4) (p' ! 5) = ?nd" "le16 (p' ! 6) (p' ! 7) = ?ns"
    "take 2 (drop 8 p') = to_le16 (crc (take 8 p'))"
    using d(2) p(3,4) by (simp_all add: dnp3_done_def)
  have sp: "[p' ! 4, p' ! 5] = to_le16 ?nd" "[p' ! 6, p' ! 7] = to_le16 ?ns"
    unfolding nd(1,2) [symmetric] by (simp_all add: to_le16_def le16_def)
  have h: "take 8 p' = [0x05, 0x64, lb, ctrl] @ to_le16 ?nd @ to_le16 ?ns"
  proof -
    have "take 8 p' = take 4 p' @ [p' ! 4, p' ! 5] @ [p' ! 6, p' ! 7]"
      using take_add [of 4 4 p'] take4 [of 4 p'] d(1) p(5) by simp
    then show ?thesis unfolding 1 sp .
  qed
  have "p' = take 8 p' @ take 2 (drop 8 p') @ drop 10 p'"
    using append_take_drop_id [of 8 p'] append_take_drop_id [of 2 "drop 8 p'"] by simp
  then have "p' = link_frame crc ctrl ?nd ?ns user"
    unfolding nd(3) h 2 lb(2) by simp
  with w that show thesis by blast
qed

section \<open>Reading IEC 60870-5 frames\<close>

datatype apdu = U_Format u8 | S_Format u16 | I_Format u16 u16 bytes

fun apdu_bytes :: "apdu \<Rightarrow> bytes" where
  "apdu_bytes (U_Format f) = u_frame f"
| "apdu_bytes (S_Format nr) = s_frame nr"
| "apdu_bytes (I_Format ns nr a) = i_frame ns nr a"

fun apdu_ok :: "apdu \<Rightarrow> bool" where
  "apdu_ok (U_Format f) \<longleftrightarrow> f AND 3 = 3"
| "apdu_ok (S_Format nr) \<longleftrightarrow> nr < 0x8000"
| "apdu_ok (I_Format ns nr a) \<longleftrightarrow> ns < 0x8000 \<and> nr < 0x8000 \<and> length a \<le> 251"

definition get_apdu :: "bytes \<Rightarrow> (apdu \<times> bytes) option" where
  "get_apdu p = do {
     (st, r) \<leftarrow> get8 p; (len, r) \<leftarrow> get8 r;
     (c0, r) \<leftarrow> get8 r; (c1, r) \<leftarrow> get8 r; (nr, r) \<leftarrow> get_le16 r;
     (a, r) \<leftarrow> get_bytes (unat len - 4) r;
     if st \<noteq> 0x68 \<or> len < 4 then None
     else if c0 AND 1 = 0 then Some (I_Format (drop_bit 1 (le16 c0 c1)) (drop_bit 1 nr) a, r)
     else if c0 AND 3 = 1 then Some (S_Format (drop_bit 1 nr), r)
     else Some (U_Format c0, r)
   }"

lemma push_1: "push_bit 1 n = n * (2 :: u16)"
  by simp

lemma shift_back [simp]: "(n :: u16) < 0x8000 \<Longrightarrow> drop_bit (Suc 0) (n * 2) = n"
proof -
  assume "n < 0x8000"
  then have "unat n < 0x8000" by (simp add: word_less_nat_alt)
  then have "unat (n * 2) = unat n * 2" by (simp add: unat_word_ariths)
  then show ?thesis by (simp add: word_unat_eq_iff unat_drop_bit_word)
qed

lemma shifted_even [simp]: "(ucast ((n :: u16) * 2) :: u8) AND 1 = 0"
proof -
  have "even ((unat n * 2) mod 65536 mod 256)" by (intro dvd_mod) simp_all
  then have "unat (ucast (n * 2) :: u8) mod 2 = 0"
    by (simp add: unat_ucast_u8 unat_word_ariths even_iff_mod_2_eq_zero)
  then show ?thesis by (simp add: word_unat_eq_iff and_one_eq unat_mod)
qed

interpretation apdu_code: self_delimiting apdu_bytes get_apdu apdu_ok
proof
  fix x r
  assume ok: "apdu_ok x"
  show "get_apdu (apdu_bytes x @ r) = Some (x, r)"
  proof (cases x)
    case (U_Format f)
    have "f AND 1 = (f AND 3) AND 1" by (simp add: and.assoc)
    then have "f AND 1 = 1" using ok U_Format by simp
    then show ?thesis using ok U_Format
      by (simp add: get_apdu_def u_frame_def get_bytes_def)
  next
    case (S_Format nr)
    then show ?thesis using ok
      by (simp add: get_apdu_def s_frame_def get_bytes_def)
  next
    case (I_Format ns nr a)
    have "unat (word_of_nat (4 + length a) :: u8) = 4 + length a"
      using ok I_Format by (intro unat_word_of_nat) simp
    then obtain w :: u8 where w: "word_of_nat (4 + length a) = w" "unat w = 4 + length a" by blast
    then have "\<not> w < 4" by (simp add: word_less_nat_alt)
    then show ?thesis using ok I_Format w(2)
      unfolding I_Format apdu_bytes.simps i_frame_def w(1) Let_def push_1
      by (simp add: get_apdu_def to_le16_def [of "ns * 2"])
  qed
  show "apdu_bytes x \<noteq> []" by (cases x) (simp_all add: u_frame_def s_frame_def i_frame_def Let_def)
qed

text \<open>An ASDU with one object: type, cause, station, object address (24 bits) and elements.\<close>

definition get_asdu :: "bytes \<Rightarrow> (u8 \<times> u8 \<times> u16 \<times> u32 \<times> bytes) option" where
  "get_asdu a = do {
     (t, r) \<leftarrow> get8 a; (vsq, r) \<leftarrow> get8 r; (cot, r) \<leftarrow> get8 r; (orig, r) \<leftarrow> get8 r; (ca, r) \<leftarrow> get_le16 r;
     (i0, r) \<leftarrow> get8 r; (i1, r) \<leftarrow> get8 r; (i2, r) \<leftarrow> get8 r;
     if vsq = 1 then Some (t, cot, ca, le32 i0 i1 i2 0, r) else None
   }"

lemma ioa_back: "le32 (ucast (ioa AND 0xff)) (ucast (drop_bit 8 ioa AND 0xff)) (ucast (drop_bit 16 ioa AND 0xff)) 0
    = take_bit 24 (ioa :: u32)"
proof -
  have m: "(0xff :: u32) = mask 8" by (simp add: mask_eq_exp_minus_1)
  let ?w = "take_bit 24 ioa"
  have b: "(ucast (ioa AND 0xff) :: u8) = ucast ?w" "(ucast (drop_bit 8 ioa AND 0xff) :: u8) = ucast (drop_bit 8 ?w)"
    "(ucast (drop_bit 16 ioa AND 0xff) :: u8) = ucast (drop_bit 16 ?w)" "(0 :: u8) = ucast (drop_bit 24 ?w)"
    unfolding m by (rule bit_word_eqI; auto simp: bit_simps)+
  show ?thesis unfolding b le32_def by simp
qed

lemma get_asdu_asdu: "get_asdu (asdu t cot ca ioa el) = Some (t, cot, ca, take_bit 24 ioa, el)"
  unfolding asdu_def get_asdu_def using ioa_back [of ioa] by simp

lemma length_asdu [simp, len_simps]: "length (asdu t cot ca ioa el) = 9 + length el"
  by (simp add: asdu_def)

text \<open>FT1.2: the two length octets, the checksum and the end octet are checked.\<close>

definition get_ft12 :: "bytes \<Rightarrow> ((u8 \<times> u8 \<times> bytes) \<times> bytes) option" where
  "get_ft12 p = do {
     (s0, r) \<leftarrow> get8 p; (l0, r) \<leftarrow> get8 r; (l1, r) \<leftarrow> get8 r; (s1, r) \<leftarrow> get8 r;
     (ctrl, r) \<leftarrow> get8 r; (addr, r) \<leftarrow> get8 r; (a, r) \<leftarrow> get_bytes (unat l0 - 2) r;
     (sum, r) \<leftarrow> get8 r; (e, r) \<leftarrow> get8 r;
     if s0 = 0x68 \<and> s1 = 0x68 \<and> l0 = l1 \<and> 2 \<le> unat l0 \<and> e = 0x16 \<and> sum = sum_list (ctrl # addr # a)
     then Some ((ctrl, addr, a), r) else None
   }"

lemma fold_sum_list: "fold (\<lambda>x a. a + x) xs s = s + sum_list xs" for s :: "'a :: comm_monoid_add"
  by (induction xs arbitrary: s) (simp_all add: ac_simps)

interpretation ft12_code: self_delimiting "\<lambda>(c, ad, a). ft12 c ad a" get_ft12 "\<lambda>(c, ad, a). length a \<le> 253"
proof
  fix x :: "u8 \<times> u8 \<times> bytes" and r :: bytes
  assume ok: "case x of (c, ad, a) \<Rightarrow> length a \<le> 253"
  obtain c ad a where x: "x = (c, ad, a)" by (cases x)
  have "unat (word_of_nat (2 + length a) :: u8) = 2 + length a"
    using ok x by (intro unat_word_of_nat) simp
  then obtain w :: u8 where w: "word_of_nat (2 + length a) = w" "unat w = 2 + length a" by blast
  show "get_ft12 ((case x of (c, ad, a) \<Rightarrow> ft12 c ad a) @ r) = Some (x, r)"
    unfolding x prod.case ft12_def w(1) Let_def fold_sum_list
    using w(2) by (simp add: get_ft12_def)
  show "(case x of (c, ad, a) \<Rightarrow> ft12 c ad a) \<noteq> []" by (simp add: x ft12_def Let_def)
qed

section \<open>Conversations\<close>

text \<open>A link frame at the front of a stream: its length octet says where it ends.\<close>

definition get_link :: "(bytes \<Rightarrow> u16) \<Rightarrow> bytes \<Rightarrow> ((u8 \<times> u16 \<times> u16 \<times> bytes) \<times> bytes) option" where
  "get_link crc p =
     (if length p < 3 then None
      else do { (f, r) \<leftarrow> get_bytes (10 + dnp3_user (p ! 2)) p; v \<leftarrow> deframe crc f; Some (v, r) })"

definition link_bytes :: "(bytes \<Rightarrow> u16) \<Rightarrow> u8 \<times> u16 \<times> u16 \<times> bytes \<Rightarrow> bytes" where
  "link_bytes crc v = (case v of (ctrl, dest, src, user) \<Rightarrow> link_frame crc ctrl dest src user)"

lemma get_link_link_frame:
  assumes "length user \<le> 250"
  shows "get_link crc (link_frame crc ctrl dest src user @ r) = Some ((ctrl, dest, src, user), r)"
proof -
  let ?p = "link_frame crc ctrl dest src user"
  obtain lb :: u8 where lb: "unat lb = 5 + length user" "?p ! 2 = lb"
    by (rule link_frame_parts [OF assms, of crc ctrl dest src]) simp
  have len: "length ?p = 10 + dnp3_user lb"
    using length_link_frame [OF assms] lb(1) by (simp add: dnp3_user_def)
  then have "(?p @ r) ! 2 = lb" using lb(2) by (simp add: nth_append)
  with len show ?thesis
    unfolding get_link_def using deframe_link_frame [OF assms, of crc ctrl dest src] by (simp del: nat_shift)
qed

interpretation link_code: self_delimiting "link_bytes crc" "get_link crc" "\<lambda>(c, d, s, u). length u \<le> 250" for crc
proof
  fix x :: "u8 \<times> u16 \<times> u16 \<times> bytes" and r :: bytes
  assume "case x of (c, d, s, u) \<Rightarrow> length u \<le> 250"
  then show "get_link crc (link_bytes crc x @ r) = Some (x, r)"
    by (cases x) (simp add: get_link_link_frame link_bytes_def)
  show "link_bytes crc x \<noteq> []" by (cases x) (simp add: link_frame_def link_bytes_def Let_def)
qed

lemma length_crob [simp]: "length (crob_user f s i c) = 19"
  by (simp add: crob_user_def Let_def)

lemma dnp3_operate_converse:
  "dnp3_operate crc mm om mi oi mp ca ix close = tcp_converse mm om mi oi mp DNP3_PORT
     [(Client, link_frame crc 0xC4 ca (ca + 1000) (crob_user 0x03 0 ix close)),
      (Server, link_frame crc 0x44 (ca + 1000) ca (response_user 0)),
      (Client, link_frame crc 0xC4 ca (ca + 1000) (crob_user 0x04 1 ix close)),
      (Server, link_frame crc 0x44 (ca + 1000) ca (response_user 1))]"
  by (simp add: dnp3_operate_def tcp_converse_eq Let_def)

lemma dnp3_streams:
  "get_all (get_link crc) (link_frame crc c1 d1 s1 u1 @ link_frame crc c2 d2 s2 u2) = Some [(c1, d1, s1, u1), (c2, d2, s2, u2)]"
  if "length u1 \<le> 250" and "length u2 \<le> 250"
  using link_code.get_all_enc [of "[(c1, d1, s1, u1), (c2, d2, s2, u2)]" crc] that by (simp add: link_bytes_def)

lemma dnp3_operate_ok:
  assumes "length mm = 6" "length om = 6" "(mi, mp) \<noteq> (oi, DNP3_PORT)"
  shows "\<exists>fs up down. dnp3_operate crc mm om mi oi mp ca ix close = ret fs
    \<and> tcp_conversation fs mi mp oi DNP3_PORT up down
    \<and> get_all (get_link crc) up = Some [(0xC4, ca, ca + 1000, crob_user 0x03 0 ix close),
       (0xC4, ca, ca + 1000, crob_user 0x04 1 ix close)]
    \<and> get_all (get_link crc) down = Some [(0x44, ca + 1000, ca, response_user 0), (0x44, ca + 1000, ca, response_user 1)]"
proof -
  have r: "length (response_user k) \<le> 250" for k by (simp add: response_user_def)
  have "\<exists>fs. dnp3_operate crc mm om mi oi mp ca ix close = ret fs \<and> length fs = 7 + 4 \<and>
      tcp_conversation fs mi mp oi DNP3_PORT
        (link_frame crc 0xC4 ca (ca + 1000) (crob_user 0x03 0 ix close) @
         link_frame crc 0xC4 ca (ca + 1000) (crob_user 0x04 1 ix close))
        (link_frame crc 0x44 (ca + 1000) ca (response_user 0) @ link_frame crc 0x44 (ca + 1000) ca (response_user 1))"
    by (rule tcp_dialogue [OF dnp3_operate_converse _ _ assms, THEN ex_forward])
      (simp_all add: said_by_def length_link_frame response_user_def)
  then obtain fs where fs: "dnp3_operate crc mm om mi oi mp ca ix close = ret fs"
    "tcp_conversation fs mi mp oi DNP3_PORT
        (link_frame crc 0xC4 ca (ca + 1000) (crob_user 0x03 0 ix close) @
         link_frame crc 0xC4 ca (ca + 1000) (crob_user 0x04 1 ix close))
        (link_frame crc 0x44 (ca + 1000) ca (response_user 0) @ link_frame crc 0x44 (ca + 1000) ca (response_user 1))"
    by blast
  show ?thesis
    by (rule exI [of _ fs], rule exI, rule exI, intro conjI, rule fs(1), rule fs(2))
      (rule dnp3_streams; simp add: r)+
qed

lemma iec104_single_converse:
  "iec104_single_command cm rm ci ri cp ca ioa close = tcp_converse cm rm ci ri cp IEC104_PORT
     [(Client, apdu_bytes (U_Format 0x07)), (Server, apdu_bytes (U_Format 0x0b)),
      (Client, apdu_bytes (I_Format 0 0 (asdu 45 6 ca ioa [of_bool close]))),
      (Server, apdu_bytes (I_Format 0 1 (asdu 45 7 ca ioa [of_bool close]))),
      (Server, apdu_bytes (I_Format 1 1 (asdu 45 10 ca ioa [of_bool close]))),
      (Client, apdu_bytes (S_Format 2))]"
  by (simp add: iec104_single_command_def start_link_def tcp_converse_eq of_bool_def)

lemma apdu_triple:
  "get_all get_apdu (apdu_bytes x @ apdu_bytes y @ apdu_bytes z) = Some [x, y, z]"
  if "apdu_ok x" and "apdu_ok y" and "apdu_ok z"
  using apdu_code.get_all_enc [of "[x, y, z]"] that by simp

lemma iec104_single_ok:
  assumes "length cm = 6" "length rm = 6" "(ci, cp) \<noteq> (ri, IEC104_PORT)"
  shows "\<exists>fs up down. iec104_single_command cm rm ci ri cp ca ioa close = ret fs
    \<and> tcp_conversation fs ci cp ri IEC104_PORT up down
    \<and> get_all get_apdu up = Some [U_Format 0x07, I_Format 0 0 (asdu 45 6 ca ioa [of_bool close]), S_Format 2]
    \<and> get_all get_apdu down = Some [U_Format 0x0b, I_Format 0 1 (asdu 45 7 ca ioa [of_bool close]),
      I_Format 1 1 (asdu 45 10 ca ioa [of_bool close])]"
proof -
  let ?a = "\<lambda>c. asdu 45 c ca ioa [of_bool close]"
  have "\<exists>fs. iec104_single_command cm rm ci ri cp ca ioa close = ret fs \<and> length fs = 7 + 6 \<and>
      tcp_conversation fs ci cp ri IEC104_PORT
        (apdu_bytes (U_Format 0x07) @ apdu_bytes (I_Format 0 0 (?a 6)) @ apdu_bytes (S_Format 2))
        (apdu_bytes (U_Format 0x0b) @ apdu_bytes (I_Format 0 1 (?a 7)) @ apdu_bytes (I_Format 1 1 (?a 10)))"
    by (rule tcp_dialogue [OF iec104_single_converse _ _ assms, THEN ex_forward])
      (simp_all add: said_by_def u_frame_def i_frame_def s_frame_def Let_def)
  moreover have "get_all get_apdu (apdu_bytes (U_Format 0x07) @ apdu_bytes (I_Format 0 0 (?a 6)) @ apdu_bytes (S_Format 2)) =
      Some [U_Format 0x07, I_Format 0 0 (?a 6), S_Format 2]"
    "get_all get_apdu (apdu_bytes (U_Format 0x0b) @ apdu_bytes (I_Format 0 1 (?a 7)) @ apdu_bytes (I_Format 1 1 (?a 10))) =
      Some [U_Format 0x0b, I_Format 0 1 (?a 7), I_Format 1 1 (?a 10)]"
    by (rule apdu_triple; simp)+
  ultimately show ?thesis by blast
qed

end
