(* ===== verification/Modbus_Synth.thy ===== *)
theory Modbus_Synth
  imports Wire Mutators
begin

text \<open>
  \<open>src/synth/modbus_devid.rs\<close> and \<open>src/synth/modbus_write.rs\<close>: Modbus/TCP device
  identification and register writes.  The decoders are what a Modbus server or sensor reads; the
  last section relates the builders to the Modbus mutator of \<open>Mutators\<close>.
\<close>

section \<open>Code\<close>

definition mbap :: "u8 \<Rightarrow> bytes \<Rightarrow> bytes" where
  "mbap unit_id pdu =
     to_be16 0x0001 @ to_be16 0x0000 @ to_be16 (word_of_nat (length pdu + 1)) @ [unit_id] @ pdu"

definition read_device_id_request :: "u8 \<Rightarrow> bytes" where
  "read_device_id_request unit_id = mbap unit_id [0x2B, 0x0E, 0x01, 0x00]"

record modbus_dev_id =
  md_vendor_name :: string
  md_product_code :: string
  md_revision :: string

definition device_id_object :: "u8 \<times> bytes \<Rightarrow> bytes" where
  "device_id_object ov = (case ov of (oid, val) \<Rightarrow> [oid, word_of_nat (length val)] @ val)"

definition read_device_id_response :: "u8 \<Rightarrow> modbus_dev_id \<Rightarrow> bytes" where
  "read_device_id_response unit_id i =
     mbap unit_id ([0x2B, 0x0E, 0x01, 0x01, 0x00, 0x00, 0x03] @
       concat (map device_id_object [(0, as_bytes (md_vendor_name i)), (1, as_bytes (md_product_code i)),
         (2, as_bytes (md_revision i))]))"

definition modbus_devid_exchange ::
  "mac \<Rightarrow> mac \<Rightarrow> ipv4 \<Rightarrow> ipv4 \<Rightarrow> u16 \<Rightarrow> u8 \<Rightarrow> modbus_dev_id \<Rightarrow> bytes list exec" where
  "modbus_devid_exchange tool_mac dev_mac tool_ip dev_ip tool_port unit_id i =
     request_response tool_mac dev_mac tool_ip dev_ip tool_port 502
       (read_device_id_request unit_id) (read_device_id_response unit_id i)"

definition write_single_request :: "u8 \<Rightarrow> u16 \<Rightarrow> u16 \<Rightarrow> bytes" where
  "write_single_request unit_id addr val = mbap unit_id ([0x06] @ to_be16 addr @ to_be16 val)"

definition write_multiple_request :: "u8 \<Rightarrow> u16 \<Rightarrow> u16 list \<Rightarrow> bytes" where
  "write_multiple_request unit_id addr vals =
     mbap unit_id ([0x10] @ to_be16 addr @ to_be16 (word_of_nat (length vals)) @
       [word_of_nat (length vals * 2)] @ concat (map to_be16 vals))"

definition write_single_response :: "u8 \<Rightarrow> u16 \<Rightarrow> u16 \<Rightarrow> bytes" where
  "write_single_response unit_id addr val = write_single_request unit_id addr val"

definition write_multiple_response :: "u8 \<Rightarrow> u16 \<Rightarrow> u16 \<Rightarrow> bytes" where
  "write_multiple_response unit_id addr count = mbap unit_id ([0x10] @ to_be16 addr @ to_be16 count)"

definition write_single_register ::
  "mac \<Rightarrow> mac \<Rightarrow> ipv4 \<Rightarrow> ipv4 \<Rightarrow> u16 \<Rightarrow> u8 \<Rightarrow> u16 \<Rightarrow> u16 \<Rightarrow> bytes list exec" where
  "write_single_register client_mac dev_mac client_ip dev_ip client_port unit_id addr val =
     request_response client_mac dev_mac client_ip dev_ip client_port 502
       (write_single_request unit_id addr val) (write_single_response unit_id addr val)"

definition write_multiple_registers ::
  "mac \<Rightarrow> mac \<Rightarrow> ipv4 \<Rightarrow> ipv4 \<Rightarrow> u16 \<Rightarrow> u8 \<Rightarrow> u16 \<Rightarrow> u16 list \<Rightarrow> bytes list exec" where
  "write_multiple_registers client_mac dev_mac client_ip dev_ip client_port unit_id addr vals =
     (let vals = take (min (length vals) 0x7b) vals
      in request_response client_mac dev_mac client_ip dev_ip client_port 502
           (write_multiple_request unit_id addr vals)
           (write_multiple_response unit_id addr (word_of_nat (length vals))))"

section \<open>Reading a Modbus message\<close>

text \<open>An MBAP header with its PDU: the unit and the PDU, when the length field is exact.\<close>

definition get_mbap :: "bytes \<Rightarrow> ((u8 \<times> bytes) \<times> bytes) option" where
  "get_mbap p = do {
     (tid, r) \<leftarrow> get_be16 p; (proto, r) \<leftarrow> get_be16 r; (len, r) \<leftarrow> get_be16 r;
     if proto \<noteq> 0 \<or> len = 0 then None
     else do {
       (unit_id, r) \<leftarrow> get8 r; (pdu, r) \<leftarrow> get_bytes (unat len - 1) r;
       Some ((unit_id, pdu), r)
     }
   }"

lemma unat_len16: "n < 65536 \<Longrightarrow> unat (word_of_nat n :: u16) = n"
  by (intro unat_word_of_nat) simp

lemma unat_len8: "n < 256 \<Longrightarrow> unat (word_of_nat n :: u8) = n"
  by (intro unat_word_of_nat) simp

text \<open>A length field by its value, so that the simplifier does not split it.\<close>

lemma len16E:
  assumes "n < 65536"
  obtains w :: u16 where "word_of_nat n = w" and "unat w = n"
  using unat_len16 [OF assms] that by blast

lemma get_mbap_mbap: "length pdu < 65535 \<Longrightarrow> get_mbap (mbap u pdu @ r) = Some ((u, pdu), r)"
proof -
  assume "length pdu < 65535"
  then obtain w :: u16 where w: "word_of_nat (length pdu + 1) = w" "unat w = length pdu + 1"
    using len16E [of "length pdu + 1"] by auto
  then have "w \<noteq> 0" by (metis add_is_0 one_neq_zero unsigned_0)
  then show ?thesis
    unfolding get_mbap_def mbap_def w(1) using w(2) by simp
qed

interpretation mbap_code: self_delimiting "\<lambda>(u, pdu). mbap u pdu" get_mbap "\<lambda>(u, pdu). length pdu < 65535"
  by (unfold_locales, auto simp: get_mbap_mbap) (simp add: mbap_def)

text \<open>The register write a PDU asks for.\<close>

definition get_write_multiple :: "bytes \<Rightarrow> (u16 \<times> u16 list) option" where
  "get_write_multiple pdu = do {
     (f, r) \<leftarrow> get8 pdu; (addr, r) \<leftarrow> get_be16 r; (n, r) \<leftarrow> get_be16 r; (nb, r) \<leftarrow> get8 r;
     (vals, r) \<leftarrow> get_many get_be16 (unat n) r;
     if f = 0x10 \<and> unat nb = 2 * unat n \<and> r = [] then Some (addr, vals) else None
   }"

definition decode_write :: "bytes \<Rightarrow> (u8 \<times> u16 \<times> u16 list) option" where
  "decode_write p = do {
     ((unit_id, pdu), r) \<leftarrow> get_mbap p;
     (addr, vals) \<leftarrow> get_write_multiple pdu;
     if r = [] then Some (unit_id, addr, vals) else None
   }"

lemma length_concat_be16 [simp]: "length (concat (map to_be16 vals)) = 2 * length vals"
  by (induction vals) simp_all

lemma decode_write_request:
  assumes "length vals \<le> 123"
  shows "decode_write (write_multiple_request unit_id addr vals) = Some (unit_id, addr, vals)"
proof -
  let ?pdu = "[0x10] @ to_be16 addr @ to_be16 (word_of_nat (length vals)) @
       [word_of_nat (length vals * 2)] @ concat (map to_be16 vals)"
  have "get_mbap (mbap unit_id ?pdu) = Some ((unit_id, ?pdu), [])"
    using mbap_code.get_enc_all [of "(unit_id, ?pdu)"] assms by simp
  moreover have "get_many get_be16 (length vals) (concat (map to_be16 vals)) = Some (vals, [])"
    using f_be16.get_many_enc [of vals "[]"] by (simp add: list_all_iff)
  then have "get_write_multiple ?pdu = Some (addr, vals)"
    using assms unat_len16 [of "length vals"] unat_len8 [of "length vals * 2"]
    by (simp add: get_write_multiple_def del: of_nat_mult)
  ultimately show ?thesis by (simp add: decode_write_def write_multiple_request_def)
qed

text \<open>The device identification objects.\<close>

definition get_device_id_object :: "bytes \<Rightarrow> ((u8 \<times> bytes) \<times> bytes) option" where
  "get_device_id_object p = do {
     (oid, r) \<leftarrow> get8 p; (n, r) \<leftarrow> get8 r; (val, r) \<leftarrow> get_bytes (unat n) r; Some ((oid, val), r)
   }"

interpretation devid_code: self_delimiting device_id_object get_device_id_object "\<lambda>(oid, val). length val < 256"
  by unfold_locales (auto simp: device_id_object_def get_device_id_object_def unat_len8)

definition decode_device_id :: "bytes \<Rightarrow> (u8 \<times> modbus_dev_id) option" where
  "decode_device_id p = do {
     ((unit_id, pdu), r) \<leftarrow> get_mbap p;
     (head, body) \<leftarrow> get_bytes 7 pdu;
     (objs, rest) \<leftarrow> get_many get_device_id_object (unat (head ! 6)) body;
     (case objs of
        [(o0, v), (o1, c), (o2, rv)] \<Rightarrow>
          if take 2 head = [0x2B, 0x0E] \<and> o0 = 0 \<and> o1 = 1 \<and> o2 = 2 \<and> rest = [] \<and> r = []
          then Some (unit_id, \<lparr>md_vendor_name = of_bytes v, md_product_code = of_bytes c, md_revision = of_bytes rv\<rparr>)
          else None
      | _ \<Rightarrow> None)
   }"

lemma decode_device_id_response:
  assumes "length (md_vendor_name i) < 256" and "length (md_product_code i) < 256" and "length (md_revision i) < 256"
  shows "decode_device_id (read_device_id_response unit_id i) = Some (unit_id, i)"
proof -
  let ?objs = "[(0, as_bytes (md_vendor_name i)), (1, as_bytes (md_product_code i)), (2, as_bytes (md_revision i))] :: (u8 \<times> bytes) list"
  let ?head = "[0x2B, 0x0E, 0x01, 0x01, 0x00, 0x00, 0x03] :: bytes"
  let ?body = "concat (map device_id_object ?objs)"
  have "get_mbap (mbap unit_id (?head @ ?body)) = Some ((unit_id, ?head @ ?body), [])"
    using mbap_code.get_enc_all [of "(unit_id, ?head @ ?body)"] assms by (simp add: device_id_object_def)
  moreover have "get_many get_device_id_object 3 ?body = Some (?objs, [])"
    using devid_code.get_many_enc [of ?objs "[]"] assms by (simp add: eval_nat_numeral)
  moreover have "get_bytes 7 (?head @ ?body) = Some (?head, ?body)"
    by (rule get_bytes_append) simp
  ultimately show ?thesis
    unfolding decode_device_id_def read_device_id_response_def by (simp del: append.simps list.map concat.simps)
qed

section \<open>The mutator on a built message\<close>

text \<open>The Modbus walk sees one ADU in a built message, and its unit id.\<close>

lemma mbap_units:
  assumes "length pdu < 65535"
  shows "modbus_units (mbap unit_id pdu) 0 = [6]"
proof -
  obtain w :: u16 where w: "word_of_nat (length pdu + 1) = w" "unat w = length pdu + 1"
    using len16E [of "length pdu + 1"] assms by auto
  let ?p = "to_be16 0x0001 @ to_be16 0x0000 @ to_be16 w @ [unit_id] @ pdu"
  have p: "mbap unit_id pdu = ?p" unfolding mbap_def w(1) by simp
  have n: "?p ! 2 = 0" "?p ! 3 = 0" "be16 (?p ! 4) (?p ! 5) = w"
    by (simp_all add: to_be16_def nth_append del: append_Cons)
  have "modbus_units ?p (7 + length pdu) = []" by (subst modbus_units.simps) simp
  then show ?thesis
    unfolding p by (subst modbus_units.simps) (simp only: add_0 n w(2), simp)
qed

section \<open>A register write on the wire\<close>

lemma write_multiple_ok:
  assumes "length cm = 6" and "length dm = 6" and "(ci, cp) \<noteq> (di, 502)"
  shows "\<exists>fs up down. write_multiple_registers cm dm ci di cp unit_id addr vals = ret fs \<and>
    tcp_conversation fs ci cp di 502 up down \<and> decode_write up = Some (unit_id, addr, take 123 vals) \<and>
    down = write_multiple_response unit_id addr (word_of_nat (min (length vals) 123))"
proof -
  let ?vs = "take 123 vals" and ?n = "word_of_nat (min (length vals) 123) :: u16"
  let ?q = "write_multiple_request unit_id addr ?vs" and ?r = "write_multiple_response unit_id addr ?n"
  have run: "write_multiple_registers cm dm ci di cp unit_id addr vals =
      tcp_converse cm dm ci di cp 502 [(Client, ?q), (Server, ?r)]"
    by (simp add: write_multiple_registers_def request_response_converse Let_def min_def)
  have "\<exists>fs. write_multiple_registers cm dm ci di cp unit_id addr vals = ret fs \<and> length fs = 7 + 2 \<and>
      tcp_conversation fs ci cp di 502 ?q ?r"
    by (rule tcp_dialogue [OF run _ _ assms, THEN ex_forward])
      (simp_all add: said_by_def write_multiple_request_def write_multiple_response_def mbap_def)
  moreover have "decode_write ?q = Some (unit_id, addr, ?vs)" by (rule decode_write_request) simp
  ultimately show ?thesis by blast
qed

end
