(* ===== verification/Enip_Synth.thy ===== *)
theory Enip_Synth
  imports Wire Mutators Modbus_Synth
begin

text \<open>
  \<open>src/synth/enip_identity.rs\<close>, \<open>src/synth/enip_cip.rs\<close> and \<open>src/synth/opcua.rs\<close>: the List Identity
  exchange, CIP explicit messages and the OPC UA handshake.  The last sections read the built
  streams back and run the EtherNet/IP mutator of \<open>Mutators\<close> on a built reply.
\<close>

section \<open>List Identity\<close>

abbreviation ENIP_PORT :: u16 where "ENIP_PORT \<equiv> 44818"

record enip_ident =
  en_vendor_id :: u16
  en_device_type :: u16
  en_product_code :: u16
  en_revision_major :: u8
  en_revision_minor :: u8
  en_serial :: u32
  en_product_name :: string

definition encap :: "u16 \<Rightarrow> bytes \<Rightarrow> bytes" where
  "encap command body =
     to_le16 command @ to_le16 (word_of_nat (length body)) @ replicate 4 0 @ replicate 4 0 @
     replicate 8 0 @ replicate 4 0 @ body"

definition list_identity_request :: bytes where
  "list_identity_request = encap 0x0063 []"

definition list_identity_reply :: "enip_ident \<Rightarrow> bytes" where
  "list_identity_reply i =
     (let name = as_bytes (en_product_name i);
          obj = to_le16 1 @ replicate 16 0 @ to_le16 (en_vendor_id i) @ to_le16 (en_device_type i) @
            to_le16 (en_product_code i) @ [en_revision_major i] @ [en_revision_minor i] @ to_le16 0 @
            to_le32 (en_serial i) @ [word_of_nat (length name)] @ name @ [0];
          body = to_le16 1 @ to_le16 0x000C @ to_le16 (word_of_nat (length obj)) @ obj
      in encap 0x0063 body)"

definition enip_identity_exchange ::
  "mac \<Rightarrow> mac \<Rightarrow> ipv4 \<Rightarrow> ipv4 \<Rightarrow> u16 \<Rightarrow> enip_ident \<Rightarrow> (bytes \<times> bytes) exec" where
  "enip_identity_exchange tool_mac dev_mac tool_ip dev_ip tool_port i = do {
     req_frame \<leftarrow> udp_frame tool_mac dev_mac tool_ip dev_ip tool_port ENIP_PORT list_identity_request;
     reply_frame \<leftarrow> udp_frame dev_mac tool_mac dev_ip tool_ip ENIP_PORT tool_port (list_identity_reply i);
     ret (req_frame, reply_frame)
   }"

section \<open>CIP explicit messages\<close>

definition encap_session :: "u16 \<Rightarrow> u32 \<Rightarrow> bytes \<Rightarrow> bytes" where
  "encap_session command session body =
     to_le16 command @ to_le16 (word_of_nat (length body)) @ to_le32 session @ replicate 4 0 @
     replicate 8 0 @ replicate 4 0 @ body"

definition register_body :: bytes where
  "register_body = [0x01, 0x00, 0x00, 0x00]"

definition send_rr_data :: "u32 \<Rightarrow> bytes \<Rightarrow> bytes" where
  "send_rr_data session cip =
     (let body = to_le32 0 @ to_le16 0 @ to_le16 2 @ to_le16 0x0000 @ to_le16 0 @ to_le16 0x00B2 @
            to_le16 (word_of_nat (length cip)) @ cip
      in encap_session 0x006F session body)"

definition epath :: "u8 \<Rightarrow> u8 \<Rightarrow> u8 \<Rightarrow> bytes" where
  "epath cls inst attr = [0x20, cls, 0x24, inst, 0x30, attr]"

definition cip_request :: "u8 \<Rightarrow> bytes \<Rightarrow> bytes \<Rightarrow> bytes" where
  "cip_request service path data = [service, word_of_nat (length path div 2)] @ path @ data"

definition cip_response :: "u8 \<Rightarrow> bytes \<Rightarrow> bytes" where
  "cip_response service data = [service OR 0x80, 0x00, 0x00, 0x00] @ data"

abbreviation ENIP_SESSION :: u32 where "ENIP_SESSION \<equiv> 0x00001A2B"

definition cip_exchange ::
  "mac \<Rightarrow> mac \<Rightarrow> ipv4 \<Rightarrow> ipv4 \<Rightarrow> u16 \<Rightarrow> bytes \<Rightarrow> bytes \<Rightarrow> bytes list exec" where
  "cip_exchange client_mac dev_mac client_ip dev_ip client_port req resp = do {
     s \<leftarrow> session_open (session_new client_mac dev_mac client_ip dev_ip client_port ENIP_PORT);
     s \<leftarrow> client_says (encap_session 0x0065 0 register_body) s;
     s \<leftarrow> server_says (encap_session 0x0065 ENIP_SESSION register_body) s;
     s \<leftarrow> client_says (send_rr_data ENIP_SESSION req) s;
     s \<leftarrow> server_says (send_rr_data ENIP_SESSION resp) s;
     s \<leftarrow> session_close s;
     ret (ts_frames s)
   }"

definition get_attribute :: "mac \<Rightarrow> mac \<Rightarrow> ipv4 \<Rightarrow> ipv4 \<Rightarrow> u16 \<Rightarrow> bytes list exec" where
  "get_attribute client_mac dev_mac client_ip dev_ip client_port =
     (let req = cip_request 0x0E (epath 0x01 0x01 0x01) [];
          resp = cip_response 0x0E (to_le16 1)
      in cip_exchange client_mac dev_mac client_ip dev_ip client_port req resp)"

definition set_attribute :: "mac \<Rightarrow> mac \<Rightarrow> ipv4 \<Rightarrow> ipv4 \<Rightarrow> u16 \<Rightarrow> u8 \<Rightarrow> u16 \<Rightarrow> bytes list exec" where
  "set_attribute client_mac dev_mac client_ip dev_ip client_port attr val =
     (let req = cip_request 0x10 (epath 0x04 0x01 attr) (to_le16 val);
          resp = cip_response 0x10 []
      in cip_exchange client_mac dev_mac client_ip dev_ip client_port req resp)"

section \<open>OPC UA\<close>

abbreviation OPCUA_PORT :: u16 where "OPCUA_PORT \<equiv> 4840"

definition opcua_message :: "string \<Rightarrow> bytes \<Rightarrow> bytes" where
  "opcua_message mtype body =
     (let size = word_of_nat (8 + length body) in as_bytes mtype @ as_bytes ''F'' @ to_le32 size @ body)"

definition opcua_string :: "string \<Rightarrow> bytes" where
  "opcua_string s = to_le32 (word_of_nat (length s)) @ as_bytes s"

definition opcua_buffers :: bytes where
  "opcua_buffers = concat (map to_le32 [0, 65535, 65535, 0, 0])"

definition opcua_hello :: "string \<Rightarrow> bytes" where
  "opcua_hello url = opcua_message ''HEL'' (opcua_buffers @ opcua_string url)"

definition opcua_acknowledge :: bytes where
  "opcua_acknowledge = opcua_message ''ACK'' opcua_buffers"

definition opcua_read :: "mac \<Rightarrow> mac \<Rightarrow> ipv4 \<Rightarrow> ipv4 \<Rightarrow> u16 \<Rightarrow> bytes list exec" where
  "opcua_read client_mac srv_mac client_ip srv_ip client_port = do {
     let url = ''opc.tcp://'' @ show_ipv4 srv_ip @ '':'' @ show_nat (unat OPCUA_PORT);
     s \<leftarrow> session_open (session_new client_mac srv_mac client_ip srv_ip client_port OPCUA_PORT);
     s \<leftarrow> client_says (opcua_hello url) s;
     s \<leftarrow> server_says opcua_acknowledge s;
     s \<leftarrow> session_close s;
     ret (ts_frames s)
   }"

section \<open>Reading the encapsulation\<close>

text \<open>A message of a session: command, session handle and body.\<close>

definition get_encap :: "bytes \<Rightarrow> ((u16 \<times> u32 \<times> bytes) \<times> bytes) option" where
  "get_encap p = do {
     (command, r) \<leftarrow> get_le16 p; (n, r) \<leftarrow> get_le16 r; (session, r) \<leftarrow> get_le32 r;
     (head, r) \<leftarrow> get_bytes 16 r; (body, r) \<leftarrow> get_bytes (unat n) r;
     if head = replicate 16 0 then Some ((command, session, body), r) else None
   }"

definition encap_bytes :: "u16 \<times> u32 \<times> bytes \<Rightarrow> bytes" where
  "encap_bytes v = (case v of (command, session, body) \<Rightarrow> encap_session command session body)"

lemma get_encap_session:
  "length body < 65536 \<Longrightarrow> get_encap (encap_session c s body @ r) = Some ((c, s, body), r)"
proof -
  assume n: "length body < 65536"
  obtain w :: u16 where w: "word_of_nat (length body) = w" "unat w = length body" by (rule len16E [OF n])
  have z: "replicate 4 0 @ replicate 8 0 @ replicate 4 0 @ q = replicate 16 0 @ q" for q :: bytes
    by (simp add: replicate_app_Cons_same eval_nat_numeral)
  show ?thesis
    unfolding get_encap_def encap_session_def w(1) append_assoc z
    using w(2) by (simp del: bind_exec_Some append_Cons replicate.simps)
qed

interpretation encap_code: self_delimiting encap_bytes get_encap "\<lambda>(c, s, body). length body < 65536"
proof
  fix x :: "u16 \<times> u32 \<times> bytes" and r :: bytes
  assume "case x of (c, s, body) \<Rightarrow> length body < 65536"
  then show "get_encap (encap_bytes x @ r) = Some (x, r)"
    by (cases x) (simp add: encap_bytes_def get_encap_session)
  show "encap_bytes x \<noteq> []" by (cases x) (simp add: encap_bytes_def encap_session_def to_le16_def)
qed

lemma encap_encap_session: "encap c body = encap_session c 0 body"
  by (simp add: encap_def encap_session_def to_le32_def eval_nat_numeral)

text \<open>The CIP message of a \<open>SendRRData\<close> body, and the request path and data of a CIP request.\<close>

definition get_rr_data :: "bytes \<Rightarrow> bytes option" where
  "get_rr_data body = do {
     (head, r) \<leftarrow> get_bytes 6 body; (n, r) \<leftarrow> get_le16 r; (t1, r) \<leftarrow> get_le16 r; (l1, r) \<leftarrow> get_le16 r;
     (t2, r) \<leftarrow> get_le16 r; (l2, r) \<leftarrow> get_le16 r; (cip, r) \<leftarrow> get_bytes (unat l2) r;
     if n = 2 \<and> t1 = 0 \<and> l1 = 0 \<and> t2 = 0x00B2 \<and> r = [] then Some cip else None
   }"

definition get_cip :: "bytes \<Rightarrow> (u8 \<times> bytes \<times> bytes) option" where
  "get_cip cip = do {
     (service, r) \<leftarrow> get8 cip; (n, r) \<leftarrow> get8 r; (path, r) \<leftarrow> get_bytes (2 * unat n) r; Some (service, path, r)
   }"

definition rr_body :: "bytes \<Rightarrow> bytes" where
  "rr_body cip = to_le32 0 @ to_le16 0 @ to_le16 2 @ to_le16 0x0000 @ to_le16 0 @ to_le16 0x00B2 @
     to_le16 (word_of_nat (length cip)) @ cip"

lemma send_rr_data: "send_rr_data session cip = encap_session 0x006F session (rr_body cip)"
  by (simp add: send_rr_data_def rr_body_def)

lemma length_rr_body [simp, len_simps]: "length (rr_body cip) = 16 + length cip"
  by (simp add: rr_body_def)

lemma get_rr_data_body: "length cip < 65536 \<Longrightarrow> get_rr_data (rr_body cip) = Some cip"
proof -
  assume n: "length cip < 65536"
  obtain w :: u16 where w: "word_of_nat (length cip) = w" "unat w = length cip" by (rule len16E [OF n])
  have h: "get_bytes 6 (to_le32 0 @ to_le16 0 @ q) = Some (to_le32 0 @ to_le16 0, q)" for q
    using get_bytes_append [of "to_le32 0 @ to_le16 0" 6 q] by simp
  show ?thesis
    unfolding get_rr_data_def rr_body_def w(1) h using w(2) by (simp del: bind_exec_Some)
qed

lemma get_cip_request: "get_cip (cip_request service (epath cls inst attr) data) = Some (service, epath cls inst attr, data)"
  by (simp add: get_cip_def cip_request_def epath_def get_bytes_def)

section \<open>Conversations\<close>

lemma cip_exchange_converse:
  "cip_exchange cm dm ci di cp req resp = tcp_converse cm dm ci di cp ENIP_PORT
     [(Client, encap_session 0x0065 0 register_body), (Server, encap_session 0x0065 ENIP_SESSION register_body),
      (Client, encap_session 0x006F ENIP_SESSION (rr_body req)), (Server, encap_session 0x006F ENIP_SESSION (rr_body resp))]"
  by (simp add: cip_exchange_def tcp_converse_eq send_rr_data)

lemma length_encap_session [simp, len_simps]: "length (encap_session c s body) = 24 + length body"
  by (simp add: encap_session_def)

lemma encap_pair:
  "get_all get_encap (encap_session c s b @ encap_session c' s' b') = Some [(c, s, b), (c', s', b')]"
  if "length b < 65536" and "length b' < 65536"
  using encap_code.get_all_enc [of "[(c, s, b), (c', s', b')]"] that by (simp add: encap_bytes_def)

lemma cip_exchange_ok:
  assumes "length cm = 6" "length dm = 6" "(ci, cp) \<noteq> (di, ENIP_PORT)"
    and n: "length req \<le> 65000" "length resp \<le> 65000"
  shows "\<exists>fs up down. cip_exchange cm dm ci di cp req resp = ret fs
    \<and> tcp_conversation fs ci cp di ENIP_PORT up down
    \<and> get_all get_encap up = Some [(0x0065, 0, register_body), (0x006F, ENIP_SESSION, rr_body req)]
    \<and> get_all get_encap down = Some [(0x0065, ENIP_SESSION, register_body), (0x006F, ENIP_SESSION, rr_body resp)]"
proof -
  have b: "length register_body = 4" by (simp add: register_body_def)
  have "\<exists>fs. cip_exchange cm dm ci di cp req resp = ret fs \<and> length fs = 7 + 4 \<and>
      tcp_conversation fs ci cp di ENIP_PORT
        (encap_session 0x0065 0 register_body @ encap_session 0x006F ENIP_SESSION (rr_body req))
        (encap_session 0x0065 ENIP_SESSION register_body @ encap_session 0x006F ENIP_SESSION (rr_body resp))"
    by (rule tcp_dialogue [OF cip_exchange_converse _ _ assms(1-3), THEN ex_forward])
      (use n in \<open>simp_all add: said_by_def b\<close>)
  moreover have "get_all get_encap (encap_session 0x0065 0 register_body @ encap_session 0x006F ENIP_SESSION (rr_body req)) =
      Some [(0x0065, 0, register_body), (0x006F, ENIP_SESSION, rr_body req)]"
    "get_all get_encap (encap_session 0x0065 ENIP_SESSION register_body @ encap_session 0x006F ENIP_SESSION (rr_body resp)) =
      Some [(0x0065, ENIP_SESSION, register_body), (0x006F, ENIP_SESSION, rr_body resp)]"
    by (rule encap_pair; use n b in simp)+
  ultimately show ?thesis by blast
qed

section \<open>The EtherNet/IP mutator on a built reply\<close>

text \<open>A reply by its fixed parts: everything before the vendor id, the revisions, and the name.\<close>

definition reply_head :: "string \<Rightarrow> bytes" where
  "reply_head name = to_le16 0x0063 @ to_le16 (word_of_nat (40 + length name)) @ replicate 20 0 @ to_le16 1 @
     to_le16 0x000C @ to_le16 (word_of_nat (34 + length name)) @ to_le16 1 @ replicate 16 0"

definition reply_parts :: "bytes \<Rightarrow> u16 \<Rightarrow> u16 \<Rightarrow> u16 \<Rightarrow> bytes \<Rightarrow> u32 \<Rightarrow> bytes \<Rightarrow> bytes" where
  "reply_parts h vendor dtype code revs serial ending =
     h @ to_le16 vendor @ to_le16 dtype @ to_le16 code @ revs @ to_le32 serial @ ending"

lemma list_identity_reply_parts:
  "list_identity_reply i = reply_parts (reply_head (en_product_name i)) (en_vendor_id i) (en_device_type i)
     (en_product_code i) [en_revision_major i, en_revision_minor i, 0, 0] (en_serial i)
     (word_of_nat (length (en_product_name i)) # as_bytes (en_product_name i) @ [0])"
proof -
  have z: "replicate 4 0 @ replicate 4 0 @ replicate 8 0 @ replicate 4 0 @ q = replicate 20 0 @ q" for q :: bytes
    by (simp add: eval_nat_numeral)
  show ?thesis
    unfolding list_identity_reply_def encap_def Let_def append_assoc z
    by (simp add: reply_parts_def reply_head_def to_le16_def [of 0] add.commute)
qed

lemma length_reply_head [simp, len_simps]: "length (reply_head name) = 48"
  by (simp add: reply_head_def)

lemma set_u16_le_at:
  "set_u16_le (pre @ to_le16 v @ post) (length pre) new f =
     ret (pre @ to_le16 new @ post,
       if new = v then [] else [\<lparr>rp_protocol = Enip, rp_field = f, rp_original = ucast v, rp_new = ucast new\<rparr>])"
  by (simp add: set_u16_le_def exec_simps splice_def to_le16_def le16_def nth_append)

lemma remap_u32_le_at:
  "map_u32 gen m dm v = (new, m') \<Longrightarrow>
   remap_u32_le gen (pre @ to_le32 v @ post) (length pre) dm f m =
     ret (pre @ to_le32 new @ post, m',
       if new = v then [] else [\<lparr>rp_protocol = Enip, rp_field = f, rp_original = ucast v, rp_new = ucast new\<rparr>])"
  by (simp add: remap_u32_le_def exec_simps splice_def to_le32_def le32_def nth_append)

text \<open>The device after the mutator: an identity of the table, the serial number mapped.\<close>

definition mutated_ident :: "'r gen \<Rightarrow> enip_id list \<Rightarrow> enip_ident \<Rightarrow> 'r mapper \<Rightarrow> enip_ident \<times> 'r mapper" where
  "mutated_ident gen ids i m =
     (let (i, m) = (if ids = [] then (i, m)
            else let (v, m) = map_u16 gen m EnipVendor (en_vendor_id i); e = ids ! (unat v mod length ids)
                 in (i\<lparr>en_vendor_id := ei_vendor e, en_device_type := ei_device_type e,
                       en_product_code := ei_product_code e\<rparr>, m));
          (s, m) = map_u32 gen m EnipSerial (en_serial i)
      in (i\<lparr>en_serial := s\<rparr>, m))"

lemma set_fields:
  assumes h: "length h = 48"
  shows "\<exists>rs. set_u16_le (reply_parts h v t c r s ending) 48 n f = ret (reply_parts h n t c r s ending, rs)"
    and "\<exists>rs. set_u16_le (reply_parts h v t c r s ending) 50 n f = ret (reply_parts h v n c r s ending, rs)"
    and "\<exists>rs. set_u16_le (reply_parts h v t c r s ending) 52 n f = ret (reply_parts h v t n r s ending, rs)"
  using h set_u16_le_at [of h v _ n f] set_u16_le_at [of "h @ to_le16 v" t _ n f]
    set_u16_le_at [of "h @ to_le16 v @ to_le16 t" c _ n f]
  by (simp_all add: reply_parts_def)

lemma remap_serial:
  assumes "length h = 48" and "length r = 4" and "map_u32 gen m dm s = (n, m')"
  shows "\<exists>rs. remap_u32_le gen (reply_parts h v t c r s ending) 58 dm f m = ret (reply_parts h v t c r n ending, m', rs)"
  using assms remap_u32_le_at [of gen m dm s n m' "h @ to_le16 v @ to_le16 t @ to_le16 c @ r" ending f]
  by (simp add: reply_parts_def)

lemma rd_vendor:
  "length h = 48 \<Longrightarrow> rd (reply_parts h v t c r s ending) 48 = ret (ucast v) \<and>
     rd (reply_parts h v t c r s ending) 49 = ret (ucast (drop_bit 8 v))"
  by (simp add: reply_parts_def rd_def nth_append to_le16_def)

lemma enip_identity_reply:
  assumes "length h = 48" and "length r = 4"
  shows "\<exists>rs. enip_identity gen ids 30
      (reply_parts h (en_vendor_id i) (en_device_type i) (en_product_code i) r (en_serial i) ending) m =
    (let (i', m') = mutated_ident gen ids i m
     in ret (reply_parts h (en_vendor_id i') (en_device_type i') (en_product_code i') r (en_serial i') ending, m', rs))"
proof (cases "ids = []")
  case True
  obtain s m' where s: "map_u32 gen m EnipSerial (en_serial i) = (s, m')" by fastforce
  show ?thesis using True remap_serial [OF assms s]
    by (fastforce simp: enip_identity_def mutated_ident_def s)
next
  case False
  obtain v m1 where v: "map_u16 gen m EnipVendor (en_vendor_id i) = (v, m1)" by fastforce
  obtain s m' where s: "map_u32 gen m1 EnipSerial (en_serial i) = (s, m')" by fastforce
  obtain e where e: "e = ids ! (unat v mod length ids)" by simp
  then have rd: "rd ids (unat v mod length ids) = ret e" using False by (simp add: rd_def)
  let ?p = "\<lambda>v t c s. reply_parts h v t c r s ending"
  obtain rs1 rs2 rs3 rs4 where
    "set_u16_le (?p (en_vendor_id i) (en_device_type i) (en_product_code i) (en_serial i)) 48 (ei_vendor e) ''vendor_id'' =
      ret (?p (ei_vendor e) (en_device_type i) (en_product_code i) (en_serial i), rs1)"
    "set_u16_le (?p (ei_vendor e) (en_device_type i) (en_product_code i) (en_serial i)) 50 (ei_device_type e) ''device_type'' =
      ret (?p (ei_vendor e) (ei_device_type e) (en_product_code i) (en_serial i), rs2)"
    "set_u16_le (?p (ei_vendor e) (ei_device_type e) (en_product_code i) (en_serial i)) 52 (ei_product_code e) ''product_code'' =
      ret (?p (ei_vendor e) (ei_device_type e) (ei_product_code e) (en_serial i), rs3)"
    "remap_u32_le gen (?p (ei_vendor e) (ei_device_type e) (ei_product_code e) (en_serial i)) 58 EnipSerial ''serial'' m1 =
      ret (?p (ei_vendor e) (ei_device_type e) (ei_product_code e) s, m', rs4)"
    using set_fields [OF assms(1)] remap_serial [OF assms s] by meson
  moreover have "mutated_ident gen ids i m = (i\<lparr>en_vendor_id := ei_vendor e, en_device_type := ei_device_type e,
      en_product_code := ei_product_code e, en_serial := s\<rparr>, m')"
    using False by (simp add: mutated_ident_def v s Let_def e)
  ultimately show ?thesis using False assms
    by (simp add: enip_identity_def rd_vendor le16_def v rd)
qed

text \<open>The mutated reply is the reply of the mutated device.\<close>

lemma enip_payload_reply:
  assumes "length (en_product_name i) \<le> 65000"
  shows "\<exists>rs. enip_payload gen ids (list_identity_reply i) m =
    (let (i', m') = mutated_ident gen ids i m in ret (list_identity_reply i', m', rs))"
proof -
  let ?n = "en_product_name i"
  let ?r = "[en_revision_major i, en_revision_minor i, 0, 0]"
  let ?ending = "word_of_nat (length ?n) # as_bytes ?n @ [0]"
  let ?p = "list_identity_reply i"
  have p: "?p = reply_parts (reply_head ?n) (en_vendor_id i) (en_device_type i) (en_product_code i) ?r (en_serial i) ?ending"
    by (rule list_identity_reply_parts)
  obtain i' m' where i': "mutated_ident gen ids i m = (i', m')" by fastforce
  have kept: "en_product_name i' = ?n" "en_revision_major i' = en_revision_major i"
    "en_revision_minor i' = en_revision_minor i"
    using i' by (auto simp: mutated_ident_def Let_def split: prod.splits if_splits)
  obtain rs where rs: "enip_identity gen ids 30 ?p m =
      ret (reply_parts (reply_head ?n) (en_vendor_id i') (en_device_type i') (en_product_code i') ?r (en_serial i') ?ending, m', rs)"
    using enip_identity_reply [of "reply_head ?n" ?r gen ids i ?ending m] unfolding p i' by auto
  have rds: "rd ?p 0 = ret 0x63" "rd ?p 1 = ret 0" "rd ?p 24 = ret 1" "rd ?p 25 = ret 0"
    "rd ?p 26 = ret 0x0c" "rd ?p 27 = ret 0" "\<exists>a. rd ?p 28 = ret a" "\<exists>a. rd ?p 29 = ret a"
    unfolding p reply_parts_def reply_head_def
    by (simp_all add: rd_def nth_append to_le16_def)
  have len: "62 \<le> length ?p" unfolding p by (simp add: reply_parts_def)
  have "reply_parts (reply_head ?n) (en_vendor_id i') (en_device_type i') (en_product_code i') ?r (en_serial i') ?ending
      = list_identity_reply i'"
    unfolding list_identity_reply_parts [of i'] kept by (rule refl)
  with rs rds len show ?thesis
    by (auto simp: enip_payload_def i' le16_def be16_code)
qed

end
