(* ===== verification/Tristation_Synth.thy ===== *)
theory Tristation_Synth
  imports Wire Modbus_Synth
begin

text \<open>
  \<open>src/synth/tristation.rs\<close>: the TriStation status poll and program download over UDP/1502.  The
  lemmas decode the engineering workstation's messages from the frames and put the downloaded
  program together again.
\<close>

section \<open>Code\<close>

abbreviation TRISTATION_PORT :: u16 where "TRISTATION_PORT \<equiv> 1502"

definition ts_message :: "u16 \<Rightarrow> bytes \<Rightarrow> bytes" where
  "ts_message msg_type body =
     (let m = to_le16 msg_type @ to_le16 (word_of_nat (length body)) @ body;
          sum = fold (\<lambda>b a. a + ucast b) m 0
      in m @ to_le16 sum)"

record ts_link =
  tl_ews_mac :: mac
  tl_tricon_mac :: mac
  tl_ews_ip :: ipv4
  tl_tricon_ip :: ipv4
  tl_ews_port :: u16

definition link_request :: "ts_link \<Rightarrow> bytes \<Rightarrow> bytes exec" where
  "link_request l msg =
     udp_frame (tl_ews_mac l) (tl_tricon_mac l) (tl_ews_ip l) (tl_tricon_ip l) (tl_ews_port l) TRISTATION_PORT msg"

definition link_reply :: "ts_link \<Rightarrow> bytes \<Rightarrow> bytes exec" where
  "link_reply l msg =
     udp_frame (tl_tricon_mac l) (tl_ews_mac l) (tl_tricon_ip l) (tl_ews_ip l) TRISTATION_PORT (tl_ews_port l) msg"

definition get_cp_status :: "ts_link \<Rightarrow> bytes list exec" where
  "get_cp_status l = do {
     q \<leftarrow> link_request l (ts_message 0x0005 []);
     r \<leftarrow> link_reply l (ts_message 0x0105 [0x00, 0x10]);
     ret [q, r]
   }"

text \<open>The loop over \<open>payload.chunks(chunk).enumerate()\<close>.\<close>

fun ts_downloads :: "ts_link \<Rightarrow> nat \<Rightarrow> bytes list \<Rightarrow> bytes list exec" where
  "ts_downloads l i [] = ret []"
| "ts_downloads l i (c # cs) = do {
     q \<leftarrow> link_request l (ts_message 0x000e (to_le16 (word_of_nat i) @ c));
     r \<leftarrow> link_reply l (ts_message 0x010e [0x00]);
     fs \<leftarrow> ts_downloads l (Suc i) cs;
     ret (q # r # fs)
   }"

definition ts_program_download :: "ts_link \<Rightarrow> bytes \<Rightarrow> nat \<Rightarrow> bytes list exec" where
  "ts_program_download l payload chunk = do {
     let chunk = max chunk 1;
     q \<leftarrow> link_request l (ts_message 0x0003 (to_le32 (word_of_nat (length payload))));
     r \<leftarrow> link_reply l (ts_message 0x0103 [0x00]);
     fs \<leftarrow> ts_downloads l 0 (chunks chunk payload);
     q' \<leftarrow> link_request l (ts_message 0x000d [0x01]);
     r' \<leftarrow> link_reply l (ts_message 0x010d [0x00]);
     ret ([q, r] @ fs @ [q', r'])
   }"

section \<open>Reading a message\<close>

definition get_ts :: "bytes \<Rightarrow> ((u16 \<times> bytes) \<times> bytes) option" where
  "get_ts p = do {
     (ty, r) \<leftarrow> get_le16 p; (n, r) \<leftarrow> get_le16 r; (body, r) \<leftarrow> get_bytes (unat n) r; (sum, r) \<leftarrow> get_le16 r;
     if sum = sum_list (map ucast (to_le16 ty @ to_le16 n @ body)) then Some ((ty, body), r) else None
   }"

lemma fold_ucast_sum: "fold (\<lambda>b a. a + ucast b) m s = s + sum_list (map ucast m)" for s :: "'a :: len word"
  by (induction m arbitrary: s) (simp_all add: add.assoc)

lemma get_ts_message: "length body < 65536 \<Longrightarrow> get_ts (ts_message ty body @ r) = Some ((ty, body), r)"
proof -
  assume "length body < 65536"
  then obtain w :: u16 where w: "word_of_nat (length body) = w" "unat w = length body" by (rule len16E)
  obtain sum :: u16 where sum: "sum = sum_list (map ucast (to_le16 ty @ to_le16 w @ body))" by simp
  have "ts_message ty body = to_le16 ty @ to_le16 w @ body @ to_le16 sum"
    unfolding ts_message_def w(1) fold_ucast_sum Let_def sum by simp
  then show ?thesis
    unfolding get_ts_def sum using w(2) by (simp del: bind_exec_Some)
qed

interpretation ts_code: self_delimiting "\<lambda>(ty, body). ts_message ty body" get_ts "\<lambda>(ty, body). length body < 65536"
  by (unfold_locales, auto simp: get_ts_message) (simp add: ts_message_def to_le16_def Let_def)

lemma length_ts_message [simp, len_simps]: "length (ts_message ty body) = 6 + length body"
  by (simp add: ts_message_def Let_def)

text \<open>The messages one endpoint sends, in frame order.\<close>

definition ts_sent :: "ipv4 \<Rightarrow> u16 \<Rightarrow> bytes list \<Rightarrow> (u16 \<times> bytes) option list" where
  "ts_sent ip port fs = map (\<lambda>f. map_option fst (get_ts (lv_payload (udp_view_of f))))
     (filter (\<lambda>f. lv_src (udp_view_of f) = ip \<and> lv_sport (udp_view_of f) = port) fs)"

definition link_ok :: "ts_link \<Rightarrow> bool" where
  "link_ok l \<longleftrightarrow> length (tl_ews_mac l) = 6 \<and> length (tl_tricon_mac l) = 6 \<and>
     (tl_ews_ip l, tl_ews_port l) \<noteq> (tl_tricon_ip l, TRISTATION_PORT)"

abbreviation ews_sent :: "ts_link \<Rightarrow> bytes list \<Rightarrow> (u16 \<times> bytes) option list" where
  "ews_sent l \<equiv> ts_sent (tl_ews_ip l) (tl_ews_port l)"

text \<open>A request and its reply: two valid datagrams, of which the workstation sent the first.\<close>

lemma link_pair:
  assumes "link_ok l" and "length b \<le> 65501" and "length b' \<le> 65501"
  obtains q r where "link_request l (ts_message t b) = ret q" and "link_reply l (ts_message t' b') = ret r"
    and "udp_frame_ok q" and "udp_frame_ok r" and "\<And>fs. ews_sent l (q # r # fs) = Some (t, b) # ews_sent l fs"
proof -
  have "length (tl_ews_mac l) = 6" "length (tl_tricon_mac l) = 6"
    and ne: "(tl_ews_ip l, tl_ews_port l) \<noteq> (tl_tricon_ip l, TRISTATION_PORT)"
    using assms(1) by (simp_all add: link_ok_def)
  then obtain q r where q: "link_request l (ts_message t b) = ret q"
      "datagram q (tl_ews_ip l) (tl_ews_port l) (tl_tricon_ip l) TRISTATION_PORT (ts_message t b)"
    and r: "link_reply l (ts_message t' b') = ret r"
      "datagram r (tl_tricon_ip l) TRISTATION_PORT (tl_ews_ip l) (tl_ews_port l) (ts_message t' b')"
    using udp_frame_datagram [of "tl_ews_mac l" "tl_tricon_mac l" "ts_message t b" "tl_ews_ip l" "tl_tricon_ip l" "tl_ews_port l" TRISTATION_PORT]
      udp_frame_datagram [of "tl_tricon_mac l" "tl_ews_mac l" "ts_message t' b'" "tl_tricon_ip l" "tl_ews_ip l" TRISTATION_PORT "tl_ews_port l"] assms(2,3)
    unfolding link_request_def link_reply_def by auto
  moreover have "get_ts (ts_message t b) = Some ((t, b), [])"
    using ts_code.get_enc_all [of "(t, b)"] assms(2) by simp
  ultimately show thesis
    using ne by (intro that [of q r]) (auto simp: datagram_def ts_sent_def)
qed

lemma ts_downloads_ok:
  assumes "link_ok l" and "\<forall>c \<in> set cs. length c \<le> 65499"
  shows "\<exists>fs. ts_downloads l i cs = ret fs \<and> list_all udp_frame_ok fs \<and> length fs = 2 * length cs \<and>
    ews_sent l fs = map (\<lambda>(i, c). Some (0x000e, to_le16 (word_of_nat i) @ c)) (enumerate i cs)"
  using assms(2)
proof (induction cs arbitrary: i)
  case Nil
  show ?case by (simp add: ts_sent_def)
next
  case (Cons c cs)
  obtain q r where qr: "link_request l (ts_message 0x000e (to_le16 (word_of_nat i) @ c)) = ret q"
    "link_reply l (ts_message 0x010e [0x00]) = ret r" "udp_frame_ok q" "udp_frame_ok r"
    "\<And>fs. ews_sent l (q # r # fs) = Some (0x000e, to_le16 (word_of_nat i) @ c) # ews_sent l fs"
    by (rule link_pair [OF assms(1), where b = "to_le16 (word_of_nat i) @ c" and b' = "[0x00]" and t = "0x000e" and t' = "0x010e"]) (use Cons.prems in auto)
  moreover obtain fs where "ts_downloads l (Suc i) cs = ret fs" "list_all udp_frame_ok fs" "length fs = 2 * length cs"
    "ews_sent l fs = map (\<lambda>(i, c). Some (0x000e, to_le16 (word_of_nat i) @ c)) (enumerate (Suc i) cs)"
    using Cons by fastforce
  ultimately show ?case by simp
qed

lemma ts_sent_append: "ts_sent ip port (fs @ gs) = ts_sent ip port fs @ ts_sent ip port gs"
  by (simp add: ts_sent_def)

text \<open>What the controller is told: the size, the numbered pieces and the start.\<close>

definition ts_script :: "bytes \<Rightarrow> nat \<Rightarrow> (u16 \<times> bytes) list" where
  "ts_script payload chunk =
     [(0x0003, to_le32 (word_of_nat (length payload)))] @
     map (\<lambda>(i, c). (0x000e, to_le16 (word_of_nat i) @ c)) (enumerate 0 (chunks chunk payload)) @ [(0x000d, [0x01])]"

definition downloaded :: "(u16 \<times> bytes) list \<Rightarrow> bytes" where
  "downloaded ms = concat (map (\<lambda>(t, b). drop 2 b) (filter (\<lambda>(t, b). t = 0x000e) ms))"

lemma downloaded_script: "0 < chunk \<Longrightarrow> downloaded (ts_script payload chunk) = payload"
proof -
  have "downloaded (map (\<lambda>(i, c). (0x000e, to_le16 (word_of_nat i) @ c)) (enumerate n cs)) = concat cs" for n cs
    by (induction cs arbitrary: n) (simp_all add: downloaded_def)
  moreover assume "0 < chunk"
  ultimately show ?thesis by (simp add: ts_script_def) (simp add: downloaded_def)
qed

lemma ts_program_download_ok:
  assumes l: "link_ok l" and n: "min (length payload) chunk \<le> 65499"
  shows "\<exists>fs. ts_program_download l payload chunk = ret fs \<and> list_all udp_frame_ok fs \<and>
    ews_sent l fs = map Some (ts_script payload (max chunk 1)) \<and>
    length fs = 4 + 2 * length (chunks (max chunk 1) payload)"
proof -
  obtain q r where qr: "link_request l (ts_message 0x0003 (to_le32 (word_of_nat (length payload)))) = ret q"
    "link_reply l (ts_message 0x0103 [0x00]) = ret r" "udp_frame_ok q" "udp_frame_ok r"
    "\<And>fs. ews_sent l (q # r # fs) = Some (0x0003, to_le32 (word_of_nat (length payload))) # ews_sent l fs"
    by (rule link_pair [OF l, where b = "to_le32 (word_of_nat (length payload))" and b' = "[0x00]" and t = "0x0003" and t' = "0x0103"]) auto
  obtain q' r' where qr': "link_request l (ts_message 0x000d [0x01]) = ret q'"
    "link_reply l (ts_message 0x010d [0x00]) = ret r'" "udp_frame_ok q'" "udp_frame_ok r'"
    "\<And>fs. ews_sent l (q' # r' # fs) = Some (0x000d, [0x01]) # ews_sent l fs"
    by (rule link_pair [OF l, where b = "[0x01]" and b' = "[0x00]" and t = "0x000d" and t' = "0x010d"]) auto
  have "length c \<le> 65499" if c: "c \<in> set (chunks (max chunk 1) payload)" for c
  proof -
    have "length c \<le> max chunk 1" using chunks_len [OF c] by simp
    moreover have "length c \<le> length (concat (chunks (max chunk 1) payload))"
      using c unfolding length_concat by (intro member_le_sum_list) auto
    ultimately show ?thesis using n by simp
  qed
  then obtain fs where "ts_downloads l 0 (chunks (max chunk 1) payload) = ret fs" "list_all udp_frame_ok fs"
    "length fs = 2 * length (chunks (max chunk 1) payload)"
    "ews_sent l fs = map (\<lambda>(i, c). Some (0x000e, to_le16 (word_of_nat i) @ c)) (enumerate 0 (chunks (max chunk 1) payload))"
    using ts_downloads_ok [OF l] by blast
  moreover have "ews_sent l [] = []" by (simp add: ts_sent_def)
  ultimately show ?thesis using qr qr'
    by (simp add: ts_program_download_def ts_script_def ts_sent_append comp_def case_prod_unfold)
qed

end
