(* ===== verification/Dns_Synth.thy ===== *)
theory Dns_Synth
  imports Wire
begin

text \<open>
  \<open>src/synth/dns.rs\<close>: the query and the answer that bind a host name to an address.  The decoder
  reads names label by label up to the root label and follows the compression pointer of the
  answer to the question.
\<close>

section \<open>Code\<close>

abbreviation DNS_PORT :: u16 where "DNS_PORT \<equiv> 53"

definition encode_label :: "string \<Rightarrow> bytes" where
  "encode_label label =
     (let b = as_bytes label; len = min (length b) 63 in [word_of_nat len] @ take len b)"

definition encode_name :: "string \<Rightarrow> bytes" where
  "encode_name name = concat (map encode_label (filter (\<lambda>l. l \<noteq> []) (split_on (CHR ''.'') name))) @ [0]"

definition query_payload :: "u16 \<Rightarrow> string \<Rightarrow> bytes" where
  "query_payload qid hostname =
     to_be16 qid @ to_be16 0x0100 @ to_be16 1 @ [0, 0, 0, 0, 0, 0] @ encode_name hostname @ to_be16 1 @ to_be16 1"

definition response_payload :: "u16 \<Rightarrow> string \<Rightarrow> ipv4 \<Rightarrow> bytes" where
  "response_payload qid hostname answer_ip =
     (let qname = encode_name hostname
      in to_be16 qid @ to_be16 0x8180 @ to_be16 1 @ to_be16 1 @ [0, 0, 0, 0] @ qname @ to_be16 1 @ to_be16 1 @
         to_be16 0xC00C @ to_be16 1 @ to_be16 1 @ to_be32 300 @ to_be16 4 @ octets answer_ip)"

definition dns_query :: "mac \<Rightarrow> mac \<Rightarrow> ipv4 \<Rightarrow> ipv4 \<Rightarrow> u16 \<Rightarrow> u16 \<Rightarrow> string \<Rightarrow> bytes exec" where
  "dns_query client_mac resolver_mac client_ip resolver_ip client_port qid hostname =
     udp_frame client_mac resolver_mac client_ip resolver_ip client_port DNS_PORT (query_payload qid hostname)"

definition dns_response :: "mac \<Rightarrow> mac \<Rightarrow> ipv4 \<Rightarrow> ipv4 \<Rightarrow> u16 \<Rightarrow> u16 \<Rightarrow> string \<Rightarrow> ipv4 \<Rightarrow> bytes exec" where
  "dns_response resolver_mac client_mac resolver_ip client_ip client_port qid hostname answer_ip =
     udp_frame resolver_mac client_mac resolver_ip client_ip DNS_PORT client_port
       (response_payload qid hostname answer_ip)"

definition dns_exchange ::
  "mac \<Rightarrow> mac \<Rightarrow> ipv4 \<Rightarrow> ipv4 \<Rightarrow> u16 \<Rightarrow> u16 \<Rightarrow> string \<Rightarrow> ipv4 \<Rightarrow> (bytes \<times> bytes) exec" where
  "dns_exchange client_mac resolver_mac client_ip resolver_ip client_port qid hostname answer_ip = do {
     q \<leftarrow> dns_query client_mac resolver_mac client_ip resolver_ip client_port qid hostname;
     r \<leftarrow> dns_response resolver_mac client_mac resolver_ip client_ip client_port qid hostname answer_ip;
     ret (q, r)
   }"

section \<open>Reading a name\<close>

definition get_label :: "bytes \<Rightarrow> (bytes \<times> bytes) option" where
  "get_label p = do { (n, r) \<leftarrow> get8 p; if n = 0 \<or> 63 < n then None else get_bytes (unat n) r }"

definition put_label :: "bytes \<Rightarrow> bytes" where
  "put_label l = word_of_nat (length l) # l"

interpretation label_code: self_delimiting put_label get_label "\<lambda>l. l \<noteq> [] \<and> length l \<le> 63"
proof
  fix l r :: bytes
  assume ok: "l \<noteq> [] \<and> length l \<le> 63"
  have "unat (word_of_nat (length l) :: u8) = length l" using ok by (intro unat_word_of_nat) simp
  then obtain w :: u8 where w: "word_of_nat (length l) = w" "unat w = length l" by blast
  then have "w \<noteq> 0" "\<not> 63 < w" using ok by (auto simp: word_less_nat_alt)
  then show "get_label (put_label l @ r) = Some (l, r)"
    unfolding put_label_def w(1) using w(2) by (simp add: get_label_def)
  show "put_label l \<noteq> []" by (simp add: put_label_def)
qed

fun get_labels :: "nat \<Rightarrow> bytes \<Rightarrow> (bytes list \<times> bytes) option" where
  "get_labels 0 p = None"
| "get_labels (Suc n) p =
     (case p of [] \<Rightarrow> None
      | b # r \<Rightarrow> if b = 0 then Some ([], r)
          else do { (l, r) \<leftarrow> get_label p; (ls, r) \<leftarrow> get_labels n r; Some (l # ls, r) })"

definition get_name :: "bytes \<Rightarrow> (bytes list \<times> bytes) option" where
  "get_name p = get_labels (length p) p"

text \<open>The labels a name stands for: its non-empty pieces, each cut to 63 bytes.\<close>

definition name_labels :: "string \<Rightarrow> bytes list" where
  "name_labels name = map (\<lambda>l. take 63 (as_bytes l)) (filter (\<lambda>l. l \<noteq> []) (split_on (CHR ''.'') name))"

lemma encode_label_put: "encode_label = (\<lambda>l. put_label (take 63 (as_bytes l)))"
  by (auto simp: fun_eq_iff encode_label_def put_label_def Let_def min_def)

lemma encode_name_labels: "encode_name name = concat (map put_label (name_labels name)) @ [0]"
  by (simp add: encode_name_def name_labels_def encode_label_put comp_def)

lemma name_labels_ok: "list_all (\<lambda>l. l \<noteq> [] \<and> length l \<le> 63) (name_labels name)"
  by (auto simp: name_labels_def list_all_iff as_bytes_def)

lemma put_label_nonzero: "l \<noteq> [] \<Longrightarrow> length l \<le> 63 \<Longrightarrow> \<exists>b t. put_label l = b # t \<and> b \<noteq> 0"
proof -
  assume l: "l \<noteq> []" "length l \<le> 63"
  have "unat (word_of_nat (length l) :: u8) = length l" using l by (intro unat_word_of_nat) simp
  then have "(word_of_nat (length l) :: u8) \<noteq> 0" using l(1) by (metis length_0_conv unat_0)
  then show ?thesis by (simp add: put_label_def)
qed

lemma get_labels_encode:
  assumes "list_all (\<lambda>l. l \<noteq> [] \<and> length l \<le> 63) ls" and "length ls < n"
  shows "get_labels n (concat (map put_label ls) @ 0 # r) = Some (ls, r)"
  using assms
proof (induction ls arbitrary: n)
  case Nil
  then show ?case by (cases n) simp_all
next
  case (Cons l ls)
  then obtain m where m: "n = Suc m" "length ls < m" by (cases n) auto
  obtain b t where b: "put_label l = b # t" "b \<noteq> 0" using Cons.prems put_label_nonzero [of l] by auto
  have "get_label (b # t @ q) = Some (l, q)" for q
    using label_code.get_enc [of l q] Cons.prems(1) b(1) by simp
  then show ?case using Cons m b by simp
qed

lemma get_name_encode: "get_name (encode_name name @ r) = Some (name_labels name, r)"
proof -
  have "length (name_labels name) \<le> length (concat (map put_label (name_labels name)))"
    by (rule label_code.length_concat_enc [OF name_labels_ok])
  then show ?thesis
    unfolding get_name_def encode_name_labels append_assoc append_Cons append_Nil
    by (intro get_labels_encode name_labels_ok) simp
qed

section \<open>Reading a message\<close>

text \<open>
  A resolver message with one question and at most one answer: identifier, flags, question name,
  and the address of the answer whose name points at the question.
\<close>

definition get_dns :: "bytes \<Rightarrow> (u16 \<times> u16 \<times> bytes list \<times> ipv4 option) option" where
  "get_dns p = do {
     (qid, r) \<leftarrow> get_be16 p; (flags, r) \<leftarrow> get_be16 r; (qd, r) \<leftarrow> get_be16 r; (an, r) \<leftarrow> get_be16 r;
     (rest, r) \<leftarrow> get_bytes 4 r;
     (name, r) \<leftarrow> get_name r; (qtype, r) \<leftarrow> get_be16 r; (qclass, r) \<leftarrow> get_be16 r;
     if qd \<noteq> 1 \<or> qtype \<noteq> 1 \<or> qclass \<noteq> 1 then None
     else if an = 0 then (if r = [] then Some (qid, flags, name, None) else None)
     else do {
       (ptr, r) \<leftarrow> get_be16 r; (ty, r) \<leftarrow> get_be16 r; (cl, r) \<leftarrow> get_be16 r; (ttl, r) \<leftarrow> get_be32 r;
       (n, r) \<leftarrow> get_be16 r; (ip, r) \<leftarrow> get_be32 r;
       if an = 1 \<and> ptr = 0xC00C \<and> ty = 1 \<and> cl = 1 \<and> n = 4 \<and> r = [] then Some (qid, flags, name, Some ip) else None
     }
   }"

lemma octets_be32: "octets ip = to_be32 ip"
  by (simp add: octets_def)

lemma get_dns_query: "get_dns (query_payload qid hostname) = Some (qid, 0x0100, name_labels hostname, None)"
proof -
  have z: "[0, 0, 0, 0, 0, 0] @ q = to_be16 0 @ replicate 4 0 @ q" for q :: bytes
    by (simp add: to_be16_def eval_nat_numeral)
  show ?thesis
    unfolding query_payload_def z get_dns_def
    by (simp add: get_name_encode del: bind_exec_Some append_Cons replicate.simps)
qed

lemma get_dns_response:
  "get_dns (response_payload qid hostname ip) = Some (qid, 0x8180, name_labels hostname, Some ip)"
proof -
  have z: "[0, 0, 0, 0] @ q = replicate 4 0 @ q" for q :: bytes
    by (simp add: eval_nat_numeral)
  show ?thesis
    unfolding response_payload_def Let_def z get_dns_def octets_be32
    by (simp add: get_name_encode del: bind_exec_Some append_Cons replicate.simps)
qed

lemma length_encode_name: "length (encode_name name) \<le> 2 * length name + 3"
proof -
  have p: "length (concat (map encode_label ls)) \<le> length ls + length (concat ls)" for ls
    by (induction ls) (auto simp: encode_label_def Let_def)
  have q: "length (split_on c s) + length (concat (split_on c s)) = length s + 1" for c s
    by (induction c s rule: split_on.induct) (auto split: list.splits)
  have f: "length (filter P ls) + length (concat (filter P ls)) \<le> length ls + length (concat ls)" for P and ls :: "string list"
    by (induction ls) auto
  show ?thesis
    using p [of "filter (\<lambda>l. l \<noteq> []) (split_on (CHR ''.'') name)"] f [of "\<lambda>l. l \<noteq> []" "split_on (CHR ''.'') name"]
      q [of "CHR ''.''" name]
    by (simp add: encode_name_def)
qed

text \<open>The exchange: two valid datagrams, the answer to the port that asked.\<close>

lemma dns_exchange_ok:
  assumes "length cm = 6" and "length rm = 6" and "length hostname \<le> 30000"
  shows "\<exists>q r. dns_exchange cm rm ci ri cp qid hostname ip = ret (q, r)
    \<and> datagram q ci cp ri DNS_PORT (query_payload qid hostname)
    \<and> datagram r ri DNS_PORT ci cp (response_payload qid hostname ip)"
proof -
  have "length (query_payload qid hostname) \<le> 65507" "length (response_payload qid hostname ip) \<le> 65507"
    using length_encode_name [of hostname] assms(3)
    by (simp_all add: query_payload_def response_payload_def Let_def octets_be32)
  then obtain q r where "dns_query cm rm ci ri cp qid hostname = ret q" "datagram q ci cp ri DNS_PORT (query_payload qid hostname)"
    "dns_response rm cm ri ci cp qid hostname ip = ret r" "datagram r ri DNS_PORT ci cp (response_payload qid hostname ip)"
    using udp_frame_datagram [OF assms(1,2)] udp_frame_datagram [OF assms(2,1)]
    unfolding dns_query_def dns_response_def by meson
  then show ?thesis by (simp add: dns_exchange_def)
qed

end
