(* ===== verification/Ioc_Synth.thy ===== *)
theory Ioc_Synth
  imports Dns_Synth Modbus_Synth
begin

text \<open>
  \<open>src/synth/ioc.rs\<close>: the indicators a scenario surfaces around its control actions: the C2 beacon,
  the remote-access session, the share write of a wiper and the firmware overwrite of a serial
  converter.
\<close>

section \<open>Code\<close>

record c2_target =
  c2_domain :: string
  c2_ip :: ipv4
  c2_port :: u16

definition crlf :: string where
  "crlf = [CHR 0x0D, CHR 0x0A]"

definition http_ping :: "string \<Rightarrow> bytes" where
  "http_ping domain = as_bytes (''GET /ping HTTP/1.1'' @ crlf @ ''Host: '' @ domain @ crlf @ ''User-Agent: '' @ crlf @ crlf)"

definition http_ok :: bytes where
  "http_ok = as_bytes (''HTTP/1.1 200 OK'' @ crlf @ ''Content-Length: 0'' @ crlf @ crlf)"

definition c2_beacon ::
  "mac \<Rightarrow> ipv4 \<Rightarrow> mac \<Rightarrow> ipv4 \<Rightarrow> mac \<Rightarrow> c2_target \<Rightarrow> u16 \<Rightarrow> u16 \<Rightarrow> bytes list exec" where
  "c2_beacon hmac host_ip resolver_mac resolver_ip gateway_mac c2 client_port qid = do {
     q \<leftarrow> dns_query hmac resolver_mac host_ip resolver_ip client_port qid (c2_domain c2);
     r \<leftarrow> dns_response resolver_mac hmac resolver_ip host_ip client_port qid (c2_domain c2) (c2_ip c2);
     s \<leftarrow> session_open (session_new hmac gateway_mac host_ip (c2_ip c2) ((client_port + 1) OR 0xc000) (c2_port c2));
     s \<leftarrow> client_says (http_ping (c2_domain c2)) s;
     s \<leftarrow> server_says http_ok s;
     s \<leftarrow> session_close s;
     ret ([q, r] @ ts_frames s)
   }"

definition remote_access :: "mac \<Rightarrow> ipv4 \<Rightarrow> mac \<Rightarrow> ipv4 \<Rightarrow> u16 \<Rightarrow> u16 \<Rightarrow> bytes list exec" where
  "remote_access gateway_mac external_ip hmac host_ip external_port access_port = do {
     s \<leftarrow> session_open (session_new gateway_mac hmac external_ip host_ip external_port access_port);
     s \<leftarrow> client_says ([0x17, 0x24, 0x00, 0x00] @ as_bytes ''remote-control-init'') s;
     s \<leftarrow> server_says ([0x17, 0x24, 0x00, 0x00] @ as_bytes ''remote-control-ack'') s;
     s \<leftarrow> client_says ([0x17, 0x24, 0x00, 0x00] @ as_bytes ''session-active'') s;
     s \<leftarrow> session_close s;
     ret (ts_frames s)
   }"

abbreviation SMB2_WRITE :: u16 where "SMB2_WRITE \<equiv> 0x0009"

definition to_le64 :: "u64 \<Rightarrow> bytes" where
  "to_le64 w = to_le32 (ucast w) @ to_le32 (ucast (drop_bit 32 w))"

text \<open>\<open>ProtocolId\<close>\<close>

definition SMB2_MAGIC :: bytes where
  "SMB2_MAGIC = [0xfe] @ as_bytes ''SMB''"

definition smb2_header :: "u16 \<Rightarrow> u32 \<Rightarrow> u64 \<Rightarrow> bytes" where
  "smb2_header command flags message_id =
     SMB2_MAGIC @ to_le16 64 @ to_le16 0 @ to_le32 0 @ to_le16 command @ to_le16 1 @ to_le32 flags @
     to_le32 0 @ to_le64 message_id @ to_le32 0 @ to_le32 0 @ to_le64 0 @ replicate 16 0"

definition nbss :: "bytes \<Rightarrow> bytes" where
  "nbss smb =
     (let len = length smb
      in [0x00] @ [word_of_nat (drop_bit 16 len), word_of_nat (drop_bit 8 len), word_of_nat len] @ smb)"

definition smb2_write :: "string \<Rightarrow> bytes" where
  "smb2_write share =
     (let data = as_bytes share;
          smb = smb2_header SMB2_WRITE 0 1 @ to_le16 49 @ to_le16 (64 + 48) @ to_le32 (word_of_nat (length data)) @
            to_le64 0 @ replicate 16 0xff @ to_le32 0 @ to_le32 0 @ to_le16 0 @ to_le16 0 @ to_le32 0 @ data
      in nbss smb)"

definition smb2_write_response :: "u32 \<Rightarrow> bytes" where
  "smb2_write_response count =
     (let smb = smb2_header SMB2_WRITE 0x00000001 1 @ to_le16 17 @ to_le16 0 @ to_le32 count @ to_le32 0 @
            to_le16 0 @ to_le16 0
      in nbss smb)"

definition smb_share_write :: "mac \<Rightarrow> mac \<Rightarrow> ipv4 \<Rightarrow> ipv4 \<Rightarrow> u16 \<Rightarrow> string \<Rightarrow> bytes list exec" where
  "smb_share_write client_mac server_mac client_ip server_ip client_port share = do {
     s \<leftarrow> session_open (session_new client_mac server_mac client_ip server_ip client_port 445);
     s \<leftarrow> client_says (smb2_write share) s;
     s \<leftarrow> server_says (smb2_write_response (word_of_nat (length share))) s;
     s \<leftarrow> session_close s;
     ret (ts_frames s)
   }"

abbreviation MOXA_ADMIN_PORT :: u16 where "MOXA_ADMIN_PORT \<equiv> 4800"

definition moxa_body :: "bytes \<Rightarrow> bytes" where
  "moxa_body firmware_chunk = [0x19, 0x00] @ to_le16 (word_of_nat (length firmware_chunk)) @ firmware_chunk"

definition moxa_brick :: "mac \<Rightarrow> mac \<Rightarrow> ipv4 \<Rightarrow> ipv4 \<Rightarrow> u16 \<Rightarrow> bytes \<Rightarrow> bytes list exec" where
  "moxa_brick client_mac conv_mac client_ip conv_ip client_port firmware_chunk = do {
     req \<leftarrow> udp_frame client_mac conv_mac client_ip conv_ip client_port MOXA_ADMIN_PORT (moxa_body firmware_chunk);
     ack \<leftarrow> udp_frame conv_mac client_mac conv_ip client_ip MOXA_ADMIN_PORT client_port [0x19, 0x80, 0x00, 0x00];
     ret [req, ack]
   }"

section \<open>The C2 beacon\<close>

text \<open>The lookup answers with the address the contact then goes to.\<close>

lemma length_http: "length (http_ping domain) = 44 + length domain" "length http_ok = 38"
  by (simp_all add: http_ping_def http_ok_def crlf_def)

lemma c2_beacon_ok:
  assumes m: "length hm = 6" "length rm = 6" "length gm = 6"
    and d: "length (c2_domain c2) \<le> 30000" and e: "(hi, (cp + 1) OR 0xc000) \<noteq> (c2_ip c2, c2_port c2)"
  shows "\<exists>q r fs. c2_beacon hm hi rm ri gm c2 cp qid = ret (q # r # fs)
    \<and> datagram q hi cp ri DNS_PORT (query_payload qid (c2_domain c2))
    \<and> datagram r ri DNS_PORT hi cp (response_payload qid (c2_domain c2) (c2_ip c2))
    \<and> get_dns (response_payload qid (c2_domain c2) (c2_ip c2)) =
        Some (qid, 0x8180, name_labels (c2_domain c2), Some (c2_ip c2))
    \<and> tcp_conversation fs hi ((cp + 1) OR 0xc000) (c2_ip c2) (c2_port c2) (http_ping (c2_domain c2)) http_ok"
proof -
  let ?p = "(cp + 1) OR 0xc000"
  obtain q r where x: "dns_exchange hm rm hi ri cp qid (c2_domain c2) (c2_ip c2) = ret (q, r)"
    and qr: "datagram q hi cp ri DNS_PORT (query_payload qid (c2_domain c2))"
      "datagram r ri DNS_PORT hi cp (response_payload qid (c2_domain c2) (c2_ip c2))"
    using dns_exchange_ok [OF m(1,2) d] by blast
  from x have x': "dns_query hm rm hi ri cp qid (c2_domain c2) = ret q"
    "dns_response rm hm ri hi cp qid (c2_domain c2) (c2_ip c2) = ret r"
    by (auto simp: dns_exchange_def)
  have "\<exists>fs. tcp_converse hm gm hi (c2_ip c2) ?p (c2_port c2) [(Client, http_ping (c2_domain c2)), (Server, http_ok)] = ret fs
      \<and> length fs = 7 + 2 \<and> tcp_conversation fs hi ?p (c2_ip c2) (c2_port c2) (http_ping (c2_domain c2)) http_ok"
    by (rule tcp_dialogue [OF refl _ _ m(1,3) e, of "[(Client, http_ping (c2_domain c2)), (Server, http_ok)]", THEN ex_forward])
      (use d in \<open>simp_all add: said_by_def length_http\<close>)
  then obtain fs where fs: "tcp_converse hm gm hi (c2_ip c2) ?p (c2_port c2)
      [(Client, http_ping (c2_domain c2)), (Server, http_ok)] = ret fs"
    "tcp_conversation fs hi ?p (c2_ip c2) (c2_port c2) (http_ping (c2_domain c2)) http_ok" by blast
  from fs(1) have "c2_beacon hm hi rm ri gm c2 cp qid = ret (q # r # fs)"
    unfolding tcp_converse_eq by (auto simp: c2_beacon_def x')
  with qr fs(2) get_dns_response show ?thesis by blast
qed

section \<open>The other sessions\<close>

lemma remote_access_ok:
  assumes "length gm = 6" and "length hm = 6" and "(ei, ep) \<noteq> (hi, ap)"
  shows "\<exists>fs. remote_access gm ei hm hi ep ap = ret fs \<and> length fs = 10 \<and> tcp_conversation fs ei ep hi ap
      ([0x17, 0x24, 0x00, 0x00] @ as_bytes ''remote-control-init'' @ [0x17, 0x24, 0x00, 0x00] @ as_bytes ''session-active'')
      ([0x17, 0x24, 0x00, 0x00] @ as_bytes ''remote-control-ack'')"
proof -
  let ?ps = "[(Client, [0x17, 0x24, 0x00, 0x00] @ as_bytes ''remote-control-init''),
     (Server, [0x17, 0x24, 0x00, 0x00] @ as_bytes ''remote-control-ack''),
     (Client, [0x17, 0x24, 0x00, 0x00] @ as_bytes ''session-active'')]"
  have "remote_access gm ei hm hi ep ap = tcp_converse gm hm ei hi ep ap ?ps"
    by (simp add: remote_access_def tcp_converse_eq)
  then show ?thesis
    by (rule tcp_dialogue [OF _ _ _ assms, THEN ex_forward]) (simp_all add: said_by_def)
qed

text \<open>A NetBIOS session message, and the share and size of an SMB2 write inside it.\<close>

definition get_nbss :: "bytes \<Rightarrow> (bytes \<times> bytes) option" where
  "get_nbss p = do {
     (t, r) \<leftarrow> get8 p; (a, r) \<leftarrow> get8 r; (n, r) \<leftarrow> get_be16 r;
     (smb, r) \<leftarrow> get_bytes (unat a * 65536 + unat n) r;
     if t = 0 then Some (smb, r) else None
   }"

interpretation nbss_code: self_delimiting nbss get_nbss "\<lambda>smb. length smb < 16777216"
proof
  fix smb r :: bytes
  assume n: "length smb < 16777216"
  have d: "drop_bit 16 (length smb) = length smb div 65536" "drop_bit 8 (length smb) = length smb div 256"
    by (simp_all add: drop_bit_eq_div)
  have "unat (word_of_nat (length smb div 65536) :: u8) = length smb div 65536"
    using n by (intro unat_word_of_nat) auto
  moreover have "unat (be16 (word_of_nat (length smb div 256)) (word_of_nat (length smb))) = length smb mod 65536"
    using mod_mult2_eq [of "length smb" 256 256] by (simp add: unat_be16 unat_of_nat)
  moreover have "length smb div 65536 * 65536 + length smb mod 65536 = length smb" by simp
  ultimately have "unat (word_of_nat (length smb div 65536) :: u8) * 65536 +
      unat (be16 (word_of_nat (length smb div 256)) (word_of_nat (length smb))) = length smb" by simp
  then obtain a b c :: u8 where abc: "word_of_nat (drop_bit 16 (length smb)) = a" "word_of_nat (drop_bit 8 (length smb)) = b"
    "word_of_nat (length smb) = c" "unat a * 65536 + unat (be16 b c) = length smb" unfolding d by blast
  then show "get_nbss (nbss smb @ r) = Some (smb, r)"
    unfolding nbss_def abc(1-3) Let_def by (simp add: get_nbss_def)
  show "nbss smb \<noteq> []" by (simp add: nbss_def Let_def)
qed

definition get_smb2_write :: "bytes \<Rightarrow> bytes option" where
  "get_smb2_write p = do {
     (smb, r) \<leftarrow> get_nbss p;
     (magic, q) \<leftarrow> get_bytes 4 smb; (hs, q) \<leftarrow> get_le16 q; (h1, q) \<leftarrow> get_bytes 6 q; (command, q) \<leftarrow> get_le16 q;
     (h2, q) \<leftarrow> get_bytes 50 q;
     (ss, q) \<leftarrow> get_le16 q; (off, q) \<leftarrow> get_le16 q; (n, q) \<leftarrow> get_le32 q;
     if magic = SMB2_MAGIC \<and> hs = 64 \<and> command = SMB2_WRITE \<and> ss = 49 \<and> r = [] \<and>
        unat off + unat n = length smb
     then Some (drop (unat off) smb) else None
   }"

lemma get_smb2_write_share:
  assumes "length share < 1000000"
  shows "get_smb2_write (smb2_write share) = Some (as_bytes share)"
proof -
  have "unat (word_of_nat (length share) :: u32) = length share" using assms by (intro unat_word_of_nat) simp
  then obtain w :: u32 where w: "word_of_nat (length share) = w" "unat w = length share" by blast
  let ?h1 = "to_le16 0 @ to_le32 0"
  let ?h2 = "to_le16 1 @ to_le32 0 @ to_le32 0 @ to_le64 1 @ to_le32 0 @ to_le32 0 @ to_le64 0 @ replicate 16 0"
  let ?t = "to_le64 0 @ replicate 16 0xff @ to_le32 0 @ to_le32 0 @ to_le16 0 @ to_le16 0 @ to_le32 0 @ as_bytes share"
  have l64: "length (to_le64 x) = 8" for x by (simp add: to_le64_def)
  obtain h1 h2 t where o: "h1 = ?h1" "h2 = ?h2" "t = ?t" by simp
  let ?smb = "SMB2_MAGIC @ to_le16 64 @ h1 @ to_le16 SMB2_WRITE @ h2 @ to_le16 49 @ to_le16 (64 + 48) @ to_le32 w @ t"
  have l: "length SMB2_MAGIC = 4" "length h1 = 6" "length h2 = 50" "length t = 40 + length share"
    by (simp_all add: o l64 SMB2_MAGIC_def)
  have smb: "smb2_write share = nbss ?smb"
    unfolding smb2_write_def smb2_header_def Let_def length_as_bytes w(1) o by (simp only: append_assoc)
  have "length ?smb = 112 + length share" by (simp add: l)
  moreover have "get_nbss (nbss ?smb) = Some (?smb, [])"
    by (rule nbss_code.get_enc_all) (use assms in \<open>simp add: l\<close>)
  moreover have "drop 112 ?smb = as_bytes share"
    by (simp add: l o(3) l64)
  ultimately show ?thesis
    unfolding smb get_smb2_write_def by (simp add: l w(2) del: bind_exec_Some)
qed

lemma smb_share_write_ok:
  assumes "length cm = 6" and "length sm = 6" and "(ci, cp) \<noteq> (si, 445)" and "length share \<le> 60000"
  shows "\<exists>fs. smb_share_write cm sm ci si cp share = ret fs \<and> length fs = 9 \<and>
    tcp_conversation fs ci cp si 445 (smb2_write share) (smb2_write_response (word_of_nat (length share)))"
proof -
  have l64: "length (to_le64 x) = 8" for x by (simp add: to_le64_def)
  have "smb_share_write cm sm ci si cp share = tcp_converse cm sm ci si cp 445
      [(Client, smb2_write share), (Server, smb2_write_response (word_of_nat (length share)))]"
    by (simp add: smb_share_write_def tcp_converse_eq)
  then show ?thesis
    by (rule tcp_dialogue [OF _ _ _ assms(1-3), THEN ex_forward])
      (use assms(4) in \<open>simp_all add: said_by_def smb2_write_def smb2_write_response_def smb2_header_def SMB2_MAGIC_def nbss_def l64 Let_def\<close>)
qed

lemma moxa_brick_ok:
  assumes "length cm = 6" and "length vm = 6" and "length fw \<le> 65500"
  shows "\<exists>q r. moxa_brick cm vm ci vi cp fw = ret [q, r] \<and> datagram q ci cp vi MOXA_ADMIN_PORT (moxa_body fw)
    \<and> datagram r vi MOXA_ADMIN_PORT ci cp [0x19, 0x80, 0x00, 0x00]"
proof -
  have "length (moxa_body fw) \<le> 65507" "length ([0x19, 0x80, 0x00, 0x00] :: bytes) \<le> 65507"
    using assms(3) by (simp_all add: moxa_body_def)
  then obtain q r where
    "udp_frame cm vm ci vi cp MOXA_ADMIN_PORT (moxa_body fw) = ret q" "datagram q ci cp vi MOXA_ADMIN_PORT (moxa_body fw)"
    "udp_frame vm cm vi ci MOXA_ADMIN_PORT cp [0x19, 0x80, 0x00, 0x00] = ret r"
    "datagram r vi MOXA_ADMIN_PORT ci cp [0x19, 0x80, 0x00, 0x00]"
    using udp_frame_datagram [OF assms(1,2)] udp_frame_datagram [OF assms(2,1)] by meson
  then show ?thesis by (simp add: moxa_brick_def)
qed

end
