(* ===== verification/Volume.thy ===== *)
theory Volume
  imports S7_Synth Telecontrol Enip_Synth Tristation_Synth Ioc_Synth
begin

text \<open>
  How many frames a builder makes.  A builder never panics, whatever its arguments, and the number of frames
  depends on the message sizes only, not on the ports, addresses or identifiers; the scenario engine relies
  on it when it slices an event over several bursts.
\<close>

definition makes :: "nat \<Rightarrow> bytes list exec \<Rightarrow> bool" where
  "makes k run \<longleftrightarrow> (\<exists>fs. run = ret fs \<and> length fs = k)"

lemma makesE: "makes k run \<Longrightarrow> (\<And>fs. run = ret fs \<Longrightarrow> length fs = k \<Longrightarrow> P) \<Longrightarrow> P"
  by (auto simp: makes_def)

lemma makes_unique: "makes k run \<Longrightarrow> makes k' run \<Longrightarrow> k = k'"
  by (auto simp: makes_def)

section \<open>Frames\<close>

lemma finish_total: "\<exists>b'. finish b = ret b'"
proof -
  obtain r where r: "parse_layout b = ret r" using parse_layout_total [of b] by auto
  show ?thesis
  proof (cases r)
    case None
    then show ?thesis by (simp add: finish_def r)
  next
    case (Some l)
    then obtain b' where "recompute_checksums b l = ret b'" using recompute_checksums_safe [of b l] r by blast
    then show ?thesis by (simp add: finish_def r Some)
  qed
qed

lemma tcp_segment_returns: "\<exists>b. tcp_segment smac dmac src dst sport dport seq ack flags payload = ret b"
  by (simp only: tcp_segment_def Let_def finish_total)

lemma udp_frame_returns: "\<exists>b. udp_frame smac dmac src dst sport dport payload = ret b"
  by (simp only: udp_frame_def Let_def finish_total)

lemma segment_returns: "\<exists>s'. segment d flags payload s = ret s' \<and> length (ts_frames s') = Suc (length (ts_frames s))"
proof -
  have "\<exists>b. tcp_segment sm dm a c p q x y flags payload = ret b" for sm dm a c p q x y
    by (rule tcp_segment_returns)
  then obtain b where b: "\<And>sm dm a c p q x y. tcp_segment sm dm a c p q x y flags payload = ret (b sm dm a c p q x y)"
    by metis
  show ?thesis by (cases d) (simp_all add: segment_def b Let_def)
qed

lemma run_segments_returns:
  "\<exists>s'. run_segments ms s = ret s' \<and> length (ts_frames s') = length (ts_frames s) + length ms"
proof (induction ms arbitrary: s)
  case (Cons m ms)
  obtain d f p where m: "m = (d, f, p)" by (cases m)
  obtain s1 where s1: "segment d f p s = ret s1" "length (ts_frames s1) = Suc (length (ts_frames s))"
    using segment_returns by blast
  obtain s' where "run_segments ms s1 = ret s'" "length (ts_frames s') = length (ts_frames s1) + length ms"
    using Cons by blast
  with s1 show ?case by (simp add: m)
qed simp

lemma tcp_converse_makes: "makes (7 + length ps) (tcp_converse cm sm ci si cp sp ps)"
proof -
  obtain s' where s': "run_segments (exchange ps) (session_new cm sm ci si cp sp) = ret s'"
    "length (ts_frames s') = length (ts_frames (session_new cm sm ci si cp sp)) + length (exchange ps)"
    using run_segments_returns by blast
  then show ?thesis unfolding tcp_converse_def makes_def s'(1) by (simp add: exchange_def session_new_def)
qed

text \<open>A builder that is a conversation makes one frame per message and seven around them.\<close>

lemma makes_converse: "run = tcp_converse cm sm ci si cp sp ps \<Longrightarrow> k = 7 + length ps \<Longrightarrow> makes k run"
  using tcp_converse_makes by simp

lemma makes_two:
  "makes 2 (do { q \<leftarrow> udp_frame a b c d e f p; r \<leftarrow> udp_frame a' b' c' d' e' f' p'; ret [q, r] })"
  using udp_frame_returns [of a b c d e f p] udp_frame_returns [of a' b' c' d' e' f' p'] by (auto simp: makes_def)

section \<open>The builders\<close>

lemma s7_session_makes: "makes (11 + 2 * length xs) (s7_session cm pm ci pi cp xs)"
proof -
  have "length (s7_dialogue xs) = 4 + 2 * length xs"
    unfolding s7_dialogue_def by (induction xs) auto
  then show ?thesis by (intro makes_converse [OF s7_session_converse]) simp
qed

lemma s7_makes:
  "makes 13 (plc_stop cm pm ci pi cp)" "makes 13 (write_db_word cm pm ci pi cp db off val)"
  "makes 17 (s7_program_download cm pm ci pi cp block mc7)"
  using s7_session_makes [of "[(plc_stop_request, plc_stop_response)]"]
    s7_session_makes [of "[(write_db_word_request db off val, write_var_response)]"]
    s7_session_makes [of "[(request_download block, request_download_ack), (download_block block mc7, download_block_ack mc7),
        (download_ended block, download_ended_ack)]"]
  by (simp_all add: plc_stop_def write_db_word_def s7_program_download_def)

lemma szl_exchange_makes: "makes 13 (szl_exchange cm pm ci pi cp order maj mn)"
  by (rule makes_converse [where ps = "[(Client, cotp_cr), (Server, cotp_cc), (Client, s7_setup_request),
      (Server, s7_setup_response), (Client, read_szl_request), (Server, read_szl_response order maj mn)]"])
    (simp_all add: szl_exchange_def tcp_converse_eq)

lemma modbus_makes: "makes 9 (write_single_register cm dm ci di cp u a v)"
  unfolding write_single_register_def request_response_converse by (rule makes_converse [OF refl]) simp

lemma dnp3_operate_makes: "makes 11 (dnp3_operate crc mm om mi oi mp ca ix close)"
  by (rule makes_converse [OF dnp3_operate_converse]) simp

lemma integrity_poll_makes: "makes 9 (integrity_poll crc mm om mi oi mp ca)"
  by (rule makes_converse [where ps = "[(Client, link_frame crc 0xC4 ca (ca + 1000) integrity_poll_user),
      (Server, link_frame crc 0x44 (ca + 1000) ca (response_user 0))]"])
    (simp_all add: integrity_poll_def tcp_converse_eq Let_def)

lemma iec104_single_makes: "makes 13 (iec104_single_command cm rm ci ri cp ca ioa close)"
  by (rule makes_converse [OF iec104_single_converse]) simp

lemma iec104_interrogation_makes: "makes 13 (iec104_interrogation cm rm ci ri cp ca)"
  by (rule makes_converse [where ps = "[(Client, u_frame 0x07), (Server, u_frame 0x0b),
      (Client, i_frame 0 0 (asdu 100 6 ca 0 [20])), (Server, i_frame 0 1 (asdu 100 7 ca 0 [20])),
      (Server, i_frame 1 1 (asdu 100 10 ca 0 [20])), (Client, s_frame 2)]"])
    (simp_all add: iec104_interrogation_def start_link_def tcp_converse_eq Let_def)

lemma iec101_makes:
  "makes 9 (iec101_interrogation cm rm ci ri cp ca)" "makes 9 (iec101_single_command cm rm ci ri cp ca ioa close)"
proof -
  show "makes 9 (iec101_interrogation cm rm ci ri cp ca)"
    by (rule makes_converse [where ps = "[(Client, ft12 0x73 (ucast ca) (asdu 100 6 ca 0 [20])),
        (Server, ft12 0x00 (ucast ca) (asdu 100 7 ca 0 [20]))]"])
      (simp_all add: iec101_interrogation_def tcp_converse_eq Let_def)
  show "makes 9 (iec101_single_command cm rm ci ri cp ca ioa close)"
    by (rule makes_converse [where ps = "[(Client, ft12 0x73 (ucast ca) (asdu 45 6 ca ioa [if close then 1 else 0])),
        (Server, ft12 0x00 (ucast ca) (asdu 45 7 ca ioa [if close then 1 else 0]))]"])
      (simp_all add: iec101_single_command_def tcp_converse_eq Let_def)
qed

lemma cip_makes: "makes 11 (cip_exchange cm dm ci di cp req resp)"
  by (rule makes_converse [OF cip_exchange_converse]) simp

lemma attribute_makes: "makes 11 (get_attribute cm dm ci di cp)" "makes 11 (set_attribute cm dm ci di cp a v)"
  unfolding get_attribute_def set_attribute_def Let_def by (rule cip_makes)+

lemma opcua_makes: "makes 9 (opcua_read cm sm ci si cp)"
  by (rule makes_converse [where ps = "[(Client, opcua_hello (''opc.tcp://'' @ show_ipv4 si @ '':'' @ show_nat (unat OPCUA_PORT))),
      (Server, opcua_acknowledge)]"])
    (simp_all add: opcua_read_def tcp_converse_eq)

lemma smb_makes: "makes 9 (smb_share_write cm sm ci si cp share)"
  by (rule makes_converse [where ps = "[(Client, smb2_write share), (Server, smb2_write_response (word_of_nat (length share)))]"])
    (simp_all add: smb_share_write_def tcp_converse_eq)

lemma remote_access_makes: "makes 10 (remote_access gm ei hm hi ep ap)"
  by (rule makes_converse [where ps = "[(Client, [0x17, 0x24, 0x00, 0x00] @ as_bytes ''remote-control-init''),
     (Server, [0x17, 0x24, 0x00, 0x00] @ as_bytes ''remote-control-ack''),
     (Client, [0x17, 0x24, 0x00, 0x00] @ as_bytes ''session-active'')]"])
    (simp_all add: remote_access_def tcp_converse_eq)

lemma moxa_makes: "makes 2 (moxa_brick cm vm ci vi cp fw)"
  unfolding moxa_brick_def by (rule makes_two)

lemma cp_status_makes: "makes 2 (get_cp_status l)"
  unfolding get_cp_status_def link_request_def link_reply_def by (rule makes_two)

lemma ts_downloads_makes: "makes (2 * length cs) (ts_downloads l i cs)"
proof (induction cs arbitrary: i)
  case (Cons c cs)
  obtain q r where "link_request l (ts_message 0x000e (to_le16 (word_of_nat i) @ c)) = ret q"
    "link_reply l (ts_message 0x010e [0x00]) = ret r"
    using udp_frame_returns unfolding link_request_def link_reply_def by meson
  moreover obtain fs where "ts_downloads l (Suc i) cs = ret fs" "length fs = 2 * length cs"
    using Cons unfolding makes_def by blast
  ultimately show ?case by (simp add: makes_def)
qed (simp add: makes_def)

lemma ts_program_download_makes:
  "makes (4 + 2 * length (chunks (max chunk 1) payload)) (ts_program_download l payload chunk)"
proof -
  obtain q r q' r' where "link_request l (ts_message 0x0003 (to_le32 (word_of_nat (length payload)))) = ret q"
    "link_reply l (ts_message 0x0103 [0x00]) = ret r" "link_request l (ts_message 0x000d [0x01]) = ret q'"
    "link_reply l (ts_message 0x010d [0x00]) = ret r'"
    using udp_frame_returns unfolding link_request_def link_reply_def by meson
  moreover obtain fs where "ts_downloads l 0 (chunks (max chunk 1) payload) = ret fs"
    "length fs = 2 * length (chunks (max chunk 1) payload)"
    using ts_downloads_makes [of "chunks (max chunk 1) payload" l 0] unfolding makes_def by blast
  ultimately show ?thesis by (simp add: ts_program_download_def makes_def)
qed

lemma c2_beacon_makes: "makes 11 (c2_beacon hm hi rm ri gm c2 cp qid)"
proof -
  obtain q r where qr: "dns_query hm rm hi ri cp qid (c2_domain c2) = ret q"
    "dns_response rm hm ri hi cp qid (c2_domain c2) (c2_ip c2) = ret r"
    using udp_frame_returns unfolding dns_query_def dns_response_def by meson
  obtain fs where fs: "tcp_converse hm gm hi (c2_ip c2) ((cp + 1) OR 0xc000) (c2_port c2)
      [(Client, http_ping (c2_domain c2)), (Server, http_ok)] = ret fs" "length fs = 7 + length [(Client, http_ping (c2_domain c2)), (Server, http_ok)]"
    using tcp_converse_makes by (rule makesE)
  from fs(1) have "c2_beacon hm hi rm ri gm c2 cp qid = ret (q # r # fs)"
    unfolding tcp_converse_eq by (auto simp: c2_beacon_def qr)
  with fs(2) show ?thesis by (simp add: makes_def)
qed

end
