(* ===== verification/Ledger.thy ===== *)
theory Ledger
  imports Wire
begin

text \<open>
  \<open>src/ledger/mod.rs\<close>: the session ledger, the fabricated world a simulation keeps across restarts.
  Addresses are stored as text; \<open>ipv4_from_str\<close> is the standard library's parser.  The operations are
  total; a run of them keeps the caps and the uniqueness of zones and registered hosts.  Reading and
  writing the file, and JSON, are input and output.
\<close>

section \<open>Addresses as text\<close>

text \<open>
  \<open>str::parse::<Ipv4Addr>\<close>: four decimal octets of one to three digits, without leading zeros.
\<close>

definition octet_from_str :: "string \<Rightarrow> u8 option" where
  "octet_from_str s =
     (if s = [] \<or> 3 < length s \<or> (1 < length s \<and> hd s = CHR ''0'') then None
      else case digits_val 10 0 s of
        None \<Rightarrow> None
      | Some v \<Rightarrow> if v \<le> 255 then Some (word_of_nat v) else None)"

definition ipv4_from_str :: "string \<Rightarrow> ipv4 option" where
  "ipv4_from_str s =
     (case map octet_from_str (split_on (CHR ''.'') s) of
        [Some a, Some b, Some c, Some d] \<Rightarrow> Some (be32 a b c d)
      | _ \<Rightarrow> None)"

section \<open>Code\<close>

definition MAX_SUBNETS :: nat where "MAX_SUBNETS = 16"

definition MAX_DEVICES :: nat where "MAX_DEVICES = 2000"

definition LEDGER_SCHEMA :: u32 where "LEDGER_SCHEMA = 4"

definition DEFAULT_MAX_ASSETS :: nat where "DEFAULT_MAX_ASSETS = 512"

definition effective_subnet_cap :: "nat option \<Rightarrow> nat" where
  "effective_subnet_cap configured =
     max (case configured of None \<Rightarrow> MAX_SUBNETS | Some c \<Rightarrow> min c MAX_SUBNETS) 1"

definition effective_device_cap :: "nat option \<Rightarrow> nat" where
  "effective_device_cap configured =
     max (case configured of None \<Rightarrow> MAX_DEVICES | Some c \<Rightarrow> min c MAX_DEVICES) 1"

definition effective_asset_cap :: "nat option \<Rightarrow> nat" where
  "effective_asset_cap configured =
     max (case configured of None \<Rightarrow> DEFAULT_MAX_ASSETS | Some c \<Rightarrow> min c MAX_DEVICES) 1"

record subnet_record =
  sr_cidr :: string
  sr_zone_name :: string
  sr_purdue_level :: u8
  sr_vendor :: "string option"
  sr_domain :: "string option"

record device_record =
  dr_ip :: string
  dr_mac :: string
  dr_vendor :: string
  dr_model :: string
  dr_firmware :: string
  dr_protocol :: string
  dr_cves :: "string list"
  dr_subnet_cidr :: string
  dr_hostname :: "string option"
  dr_asset_type :: "string option"

record promoted_host =
  ph_original_ip :: string
  ph_external_ip :: string
  ph_mac :: string
  ph_promoted_unix :: u64

record capture_host_record =
  ch_origin_ip :: string
  ch_ip :: string
  ch_mac :: string
  ch_vendor :: "string option"
  ch_protocol :: "string option"
  ch_purdue_level :: u8
  ch_subnet_cidr :: string
  ch_hostname :: "string option"
  ch_asset_type :: "string option"

record ledger =
  lg_schema :: u32
  lg_created_unix :: u64
  lg_seed :: u64
  lg_cycle :: u64
  lg_subnets :: "subnet_record list"
  lg_devices :: "device_record list"
  lg_promoted :: "promoted_host list"
  lg_last_threat_unix :: "u64 option"
  lg_sealed :: bool
  lg_target_devices :: nat
  lg_capture_hosts :: "capture_host_record list"
  lg_registry_generation :: u64
  lg_max_assets :: nat
  lg_scenario :: "string option"

definition ledger_new :: "u64 \<Rightarrow> u64 \<Rightarrow> ledger" where
  "ledger_new seed now_unix =
     \<lparr>lg_schema = LEDGER_SCHEMA, lg_created_unix = now_unix, lg_seed = seed, lg_cycle = 0, lg_subnets = [],
      lg_devices = [], lg_promoted = [], lg_last_threat_unix = None, lg_sealed = False, lg_target_devices = 0,
      lg_capture_hosts = [], lg_registry_generation = 0, lg_max_assets = 0, lg_scenario = None\<rparr>"

text \<open>\<open>Session::load\<close>: the file, the JSON parser, and the check of the schema.\<close>

datatype file_text = Read_Text string | Not_Found | Read_Failed

datatype ledger_error = Parse_Failed | Newer_Schema u32 | Unreadable

definition ledger_load :: "(string \<Rightarrow> ledger option) \<Rightarrow> file_text \<Rightarrow> ledger_error + ledger option" where
  "ledger_load parse_json file =
     (case file of
        Read_Text text \<Rightarrow>
          (case parse_json text of
             None \<Rightarrow> Inl Parse_Failed
           | Some s \<Rightarrow>
               if LEDGER_SCHEMA < lg_schema s then Inl (Newer_Schema (lg_schema s))
               else if lg_schema s < LEDGER_SCHEMA then Inr (Some (s\<lparr>lg_schema := LEDGER_SCHEMA\<rparr>))
               else Inr (Some s))
      | Not_Found \<Rightarrow> Inr None
      | Read_Failed \<Rightarrow> Inl Unreadable)"

definition subnet_count :: "ledger \<Rightarrow> nat" where
  "subnet_count s = length (lg_subnets s)"

definition device_count :: "ledger \<Rightarrow> nat" where
  "device_count s = length (lg_devices s)"

definition capture_host_count :: "ledger \<Rightarrow> nat" where
  "capture_host_count s = length (lg_capture_hosts s)"

definition total_wire_assets :: "ledger \<Rightarrow> nat" where
  "total_wire_assets s = length (lg_devices s) + length (lg_capture_hosts s)"

text \<open>The updates return the new ledger and the flag of the code.\<close>

definition register_capture_host :: "capture_host_record \<Rightarrow> nat \<Rightarrow> ledger \<Rightarrow> ledger \<times> bool" where
  "register_capture_host rec cap s =
     (if cap \<le> total_wire_assets s then (s, False)
      else if list_ex (\<lambda>h. ch_ip h = ch_ip rec) (lg_capture_hosts s) then (s, False)
      else (s\<lparr>lg_capture_hosts := lg_capture_hosts s @ [rec],
              lg_registry_generation := lg_registry_generation s + 1\<rparr>, True))"

definition device_counts_by_subnet :: "ledger \<Rightarrow> string \<Rightarrow> nat option" where
  "device_counts_by_subnet s =
     fold (\<lambda>d counts. counts(dr_subnet_cidr d \<mapsto>
       (case counts (dr_subnet_cidr d) of None \<Rightarrow> 1 | Some n \<Rightarrow> n + 1))) (lg_devices s) Map.empty"

definition has_subnet :: "ledger \<Rightarrow> string \<Rightarrow> bool" where
  "has_subnet s cidr = list_ex (\<lambda>r. sr_cidr r = cidr) (lg_subnets s)"

definition add_subnet :: "subnet_record \<Rightarrow> ledger \<Rightarrow> ledger \<times> bool" where
  "add_subnet rec s =
     (if MAX_SUBNETS \<le> length (lg_subnets s) \<or> has_subnet s (sr_cidr rec) then (s, False)
      else (s\<lparr>lg_subnets := lg_subnets s @ [rec]\<rparr>, True))"

definition add_device :: "device_record \<Rightarrow> ledger \<Rightarrow> ledger \<times> bool" where
  "add_device rec s =
     (if MAX_DEVICES \<le> length (lg_devices s) then (s, False)
      else (s\<lparr>lg_devices := lg_devices s @ [rec]\<rparr>, True))"

definition used_ips :: "ledger \<Rightarrow> ipv4 list" where
  "used_ips s = List.map_filter ipv4_from_str (map dr_ip (lg_devices s) @ map ch_ip (lg_capture_hosts s))"

definition next_free_ip :: "'n net_ops \<Rightarrow> ledger \<Rightarrow> 'n \<Rightarrow> ipv4 option" where
  "next_free_ip N s net = (let used = used_ips s in find (\<lambda>ip. ip \<notin> set used) (no_hosts N net))"

definition rename_zones_new_cycle :: "(nat \<Rightarrow> subnet_record \<Rightarrow> string) \<Rightarrow> ledger \<Rightarrow> ledger" where
  "rename_zones_new_cycle namer s =
     (let names = map (\<lambda>(i, r). namer i r) (enumerate 0 (lg_subnets s))
      in s\<lparr>lg_cycle := lg_cycle s + 1,
           lg_subnets := map2 (\<lambda>r name. r\<lparr>sr_zone_name := name\<rparr>) (lg_subnets s) names\<rparr>)"

section \<open>Reading an address back\<close>

lemma digits_val_show_all: "digits_val 10 0 (show_nat n) = Some n"
  using digits_val_show [of n "[]"] by simp

lemma show_nat_small: "n < 10 \<Longrightarrow> show_nat n = [char_of (48 + n)]"
  by (subst show_nat.simps) simp

lemma hd_show_nat: "0 < n \<Longrightarrow> hd (show_nat n) \<noteq> CHR ''0''"
proof (induction n rule: show_nat.induct)
  case (1 n)
  show ?case
  proof (cases "n < 10")
    case True
    then have "of_char (hd (show_nat n)) = 48 + n" by (simp add: show_nat_small)
    then show ?thesis using 1(2) by auto
  next
    case False
    then have "hd (show_nat n) = hd (show_nat (n div 10))" by (subst show_nat.simps) simp
    then show ?thesis using 1(1) False by simp
  qed
qed

lemma length_show_nat: "n < 10 ^ k \<Longrightarrow> 0 < k \<Longrightarrow> length (show_nat n) \<le> k"
proof (induction k arbitrary: n)
  case (Suc k)
  show ?case
  proof (cases "n < 10")
    case True
    then show ?thesis by (simp add: show_nat_small)
  next
    case False
    then have "k \<noteq> 0" using Suc.prems by (cases k) auto
    moreover have "n div 10 < 10 ^ k" using Suc.prems by (simp add: less_mult_imp_div_less mult.commute)
    ultimately show ?thesis using Suc.IH [of "n div 10"] False by (subst show_nat.simps) simp
  qed
qed simp

lemma octet_show: "octet_from_str (show_nat (unat (b :: u8))) = Some b"
proof -
  have "length (show_nat (unat b)) \<le> 3" using length_show_nat [of "unat b" 3] unat_u8_lt [of b] by simp
  moreover have "hd (show_nat (unat b)) \<noteq> CHR ''0''" if "1 < length (show_nat (unat b))"
    using that hd_show_nat [of "unat b"] show_nat_small [of "unat b"] by (cases "unat b = 0") auto
  ultimately show ?thesis by (auto simp: octet_from_str_def digits_val_show_all)
qed

lemma ipv4_show: "ipv4_from_str (show_ipv4 a) = Some a"
proof -
  have "split_on (CHR ''.'') (show_ipv4 a) = map (\<lambda>b. show_nat (unat b)) (octets a)"
    unfolding show_ipv4_def
    by (rule split_on_join) (auto simp: octets_def to_be32_def show_nat_no_dot)
  then show ?thesis by (simp add: ipv4_from_str_def octets_def to_be32_def octet_show)
qed

section \<open>The invariant\<close>

definition ledger_ok :: "ledger \<Rightarrow> bool" where
  "ledger_ok s \<longleftrightarrow> length (lg_subnets s) \<le> MAX_SUBNETS \<and> distinct (map sr_cidr (lg_subnets s)) \<and>
     length (lg_devices s) \<le> MAX_DEVICES \<and> distinct (map ch_ip (lg_capture_hosts s))"

text \<open>The updates a session is changed by.\<close>

datatype ledger_op = Register capture_host_record nat | Add_Subnet subnet_record | Add_Device device_record
  | Rename "nat \<Rightarrow> subnet_record \<Rightarrow> string"

fun ledger_step :: "ledger_op \<Rightarrow> ledger \<Rightarrow> ledger" where
  "ledger_step (Register rec cap) s = fst (register_capture_host rec cap s)"
| "ledger_step (Add_Subnet rec) s = fst (add_subnet rec s)"
| "ledger_step (Add_Device rec) s = fst (add_device rec s)"
| "ledger_step (Rename namer) s = rename_zones_new_cycle namer s"

lemma map2_cidr: "length ns = length rs \<Longrightarrow> map sr_cidr (map2 (\<lambda>r name. r\<lparr>sr_zone_name := name\<rparr>) rs ns) = map sr_cidr rs"
  by (induction rs ns rule: list_induct2') auto

lemma ledger_step_ok: "ledger_ok s \<Longrightarrow> ledger_ok (ledger_step f s)"
proof (cases f)
  case (Rename namer)
  assume s: "ledger_ok s"
  let ?ns = "map (\<lambda>(i, r). namer i r) (enumerate 0 (lg_subnets s))"
  have "map sr_cidr (map2 (\<lambda>r name. r\<lparr>sr_zone_name := name\<rparr>) (lg_subnets s) ?ns) = map sr_cidr (lg_subnets s)"
    by (rule map2_cidr) simp
  then show ?thesis using s by (simp add: Rename rename_zones_new_cycle_def ledger_ok_def Let_def)
qed (auto simp: ledger_ok_def register_capture_host_def add_subnet_def add_device_def has_subnet_def list_ex_iff)

lemma ledger_new_ok: "ledger_ok (ledger_new seed now)"
  by (simp add: ledger_ok_def ledger_new_def MAX_SUBNETS_def MAX_DEVICES_def)

lemma ledger_run_ok: "ledger_ok s \<Longrightarrow> ledger_ok (fold ledger_step fs s)"
  by (induction fs arbitrary: s) (simp_all add: ledger_step_ok)

text \<open>The registry only grows, in order, and its generation counts the growth.\<close>

lemma ledger_step_hosts:
  "\<exists>hs. lg_capture_hosts (ledger_step f s) = lg_capture_hosts s @ hs \<and>
     lg_registry_generation (ledger_step f s) = lg_registry_generation s + word_of_nat (length hs)"
  by (cases f) (auto simp: register_capture_host_def add_subnet_def add_device_def rename_zones_new_cycle_def Let_def)

lemma ledger_run_hosts:
  "\<exists>hs. lg_capture_hosts (fold ledger_step fs s) = lg_capture_hosts s @ hs \<and>
     lg_registry_generation (fold ledger_step fs s) = lg_registry_generation s + word_of_nat (length hs)"
proof (induction fs arbitrary: s)
  case (Cons f fs)
  obtain hs where 1: "lg_capture_hosts (ledger_step f s) = lg_capture_hosts s @ hs"
    "lg_registry_generation (ledger_step f s) = lg_registry_generation s + word_of_nat (length hs)"
    using ledger_step_hosts by blast
  obtain hs' where 2: "lg_capture_hosts (fold ledger_step fs (ledger_step f s)) = lg_capture_hosts (ledger_step f s) @ hs'"
    "lg_registry_generation (fold ledger_step fs (ledger_step f s)) =
      lg_registry_generation (ledger_step f s) + word_of_nat (length hs')"
    using Cons by blast
  show ?case
    using 1 2 by (intro exI [of _ "hs @ hs'"]) (simp add: add.assoc)
qed simp

text \<open>The assets on the wire stay under the cap every registration was given.\<close>

lemma register_cap:
  "register_capture_host rec cap s = (s', b) \<Longrightarrow> total_wire_assets s \<le> cap \<Longrightarrow> total_wire_assets s' \<le> cap"
  by (auto simp: register_capture_host_def total_wire_assets_def split: if_splits)

section \<open>Free addresses\<close>

lemma next_free_ip_fresh:
  assumes "net_ok N" and "next_free_ip N s net = Some ip"
  shows "no_contains N net ip" and "ip \<notin> set (used_ips s)"
proof -
  from assms(2) have "ip \<in> set (no_hosts N net)" "ip \<notin> set (used_ips s)"
    by (auto simp: next_free_ip_def Let_def find_Some_iff)
  with assms(1) show "no_contains N net ip" "ip \<notin> set (used_ips s)" by (auto simp: net_ok_def)
qed

lemma next_free_ip_None: "next_free_ip N s net = None \<longleftrightarrow> set (no_hosts N net) \<subseteq> set (used_ips s)"
  by (auto simp: next_free_ip_def Let_def find_None_iff)

lemma used_ips_iff:
  "ip \<in> set (used_ips s) \<longleftrightarrow> (\<exists>d \<in> set (lg_devices s). ipv4_from_str (dr_ip d) = Some ip) \<or>
     (\<exists>h \<in> set (lg_capture_hosts s). ipv4_from_str (ch_ip h) = Some ip)"
  by (auto simp: used_ips_def List.map_filter_def image_iff)

lemma device_count_subnet: "device_counts_by_subnet s c =
    (let n = length (filter (\<lambda>d. dr_subnet_cidr d = c) (lg_devices s)) in if n = 0 then None else Some n)"
proof -
  let ?f = "\<lambda>d counts. counts(dr_subnet_cidr d \<mapsto>
       (case counts (dr_subnet_cidr d) of None \<Rightarrow> 1 | Some n \<Rightarrow> n + 1))"
  have "fold ?f ds m c = (let n = length (filter (\<lambda>d. dr_subnet_cidr d = c) ds) in
      if n = 0 then m c else Some (n + (case m c of None \<Rightarrow> 0 | Some k \<Rightarrow> k)))"
    for ds :: "device_record list" and m :: "string \<Rightarrow> nat option"
    by (induction ds arbitrary: m) (auto simp: Let_def split: option.splits)
  then show ?thesis by (simp add: device_counts_by_subnet_def Let_def)
qed

end
