(* ===== verification/Roles.thy ===== *)
theory Roles
  imports Ledger
begin

text \<open>
  \<open>src/simulate/roles.rs\<close>: who resolves whom by ARP.  Every zone is cut into control cells; the
  master of a cell resolves its members, and the first member resolves the master.  The lemmas show
  that every asset of the ledger is the owner of an edge, so a sensor binds it, and that no requester
  resolves more than \<open>CELL_SIZE - 1\<close> owners of a zone, so nothing looks like a scan.
  Networks are parsed by the \<open>ipnet\<close> crate (\<open>no_parse\<close>).
\<close>

section \<open>Code\<close>

definition CELL_SIZE :: nat where "CELL_SIZE = 6"

record node =
  nd_ip :: ipv4
  nd_mac :: mac

record edge =
  eg_requester :: node
  eg_owner :: node

definition saturating_sub32 :: "u32 \<Rightarrow> u32 \<Rightarrow> u32" where
  "saturating_sub32 a b = (if a < b then 0 else a - b)"

text \<open>A shift by 32 (a \<open>/0\<close> network) shifts by 0 in a release build.\<close>

definition station_addr_net :: "'n net_ops \<Rightarrow> 'n \<Rightarrow> ipv4" where
  "station_addr_net N n =
     (let host_bits = 32 - unat (no_prefix_len N n);
          last_usable = (if 1 \<le> host_bits then saturating_sub32 (push_bit (host_bits mod 32) 1) 2 else 0);
          offset = min 250 last_usable
      in no_network N n + offset)"

definition station_addr :: "'n net_ops \<Rightarrow> string \<Rightarrow> ipv4" where
  "station_addr N subnet_cidr =
     (case no_parse N subnet_cidr of Some n \<Rightarrow> station_addr_net N n | None \<Rightarrow> 0x0A0000FA)"

definition firewall_addr :: "'n net_ops \<Rightarrow> string \<Rightarrow> ipv4" where
  "firewall_addr N subnet_cidr =
     (case no_parse N subnet_cidr of
        Some n \<Rightarrow> (let a = no_network N n in if a = - 1 then a else a + 1)
      | None \<Rightarrow> 0x0A000001)"

text \<open>A \<open>BTreeMap\<close> filled by \<open>entry().or_default().push()\<close>: keys in order, values as they came.\<close>

definition btree_group :: "('k::linorder \<times> 'v) list \<Rightarrow> ('k \<times> 'v list) list" where
  "btree_group xs = map (\<lambda>k. (k, map snd (filter (\<lambda>x. fst x = k) xs))) (sort (remdups (map fst xs)))"

definition det_index :: "u64 \<Rightarrow> string \<Rightarrow> nat \<Rightarrow> nat" where
  "det_index seed key len =
     (if len \<le> 1 then 0
      else let h = fold (\<lambda>b h. (h XOR ucast b) * 0x00000100000001B3) (as_bytes key) (seed XOR 0xCBF29CE484222325)
           in unat (h mod word_of_nat len))"

record crossing =
  cx_north_ip :: ipv4
  cx_south_ip :: ipv4
  cx_south_mac :: mac
  cx_conduit_mac :: mac

definition pick_conduit_mac :: "ledger \<Rightarrow> string \<Rightarrow> string \<Rightarrow> mac \<Rightarrow> mac" where
  "pick_conduit_mac s north_cidr south_cidr station =
     (let in_pair = (\<lambda>d. dr_subnet_cidr d = north_cidr \<or> dr_subnet_cidr d = south_cidr);
          of_class = (\<lambda>c. find (\<lambda>d. dr_asset_type d = Some c) (filter in_pair (lg_devices s)))
      in case List.map_filter of_class [''Router'', ''Firewall'', ''Switch''] of
           d # _ \<Rightarrow> parse_mac (dr_mac d) | [] \<Rightarrow> station)"

definition servers_by_zone :: "ledger \<Rightarrow> (string \<times> (ipv4 \<times> mac) list) list" where
  "servers_by_zone s =
     map (apsnd (sort_key fst)) (btree_group (List.map_filter (\<lambda>d.
       if dr_cves d = [] \<or> dr_asset_type d = Some ''Firewall'' \<or> dr_asset_type d = Some ''Router'' then None
       else map_option (\<lambda>ip. (dr_subnet_cidr d, ip, parse_mac (dr_mac d))) (ipv4_from_str (dr_ip d))) (lg_devices s)))"

definition zones_by_level :: "ledger \<Rightarrow> (u8 \<times> subnet_record list) list" where
  "zones_by_level s = map (apsnd (sort_key sr_cidr)) (btree_group (map (\<lambda>r. (sr_purdue_level r, r)) (lg_subnets s)))"

definition zone_crossings ::
  "'n net_ops \<Rightarrow> ledger \<Rightarrow> u64 \<Rightarrow> nat \<Rightarrow> subnet_record list \<Rightarrow> subnet_record \<Rightarrow> crossing list" where
  "zone_crossings N s seed max_per_pair south_zones north =
     (let south = south_zones ! det_index seed (sr_cidr north) (length south_zones)
      in case map_of (servers_by_zone s) (sr_cidr south) of
           None \<Rightarrow> []
         | Some servers \<Rightarrow>
             let north_ip = station_addr N (sr_cidr north);
                 station_mac = stable_mac seed north_ip;
                 conduit_mac = pick_conduit_mac s (sr_cidr north) (sr_cidr south) station_mac
             in map (\<lambda>(ip, m). \<lparr>cx_north_ip = north_ip, cx_south_ip = ip, cx_south_mac = m, cx_conduit_mac = conduit_mac\<rparr>)
                  (take max_per_pair servers))"

definition north_south_crossings :: "'n net_ops \<Rightarrow> ledger \<Rightarrow> u64 \<Rightarrow> nat \<Rightarrow> crossing list" where
  "north_south_crossings N s seed max_per_pair =
     (if max_per_pair = 0 then []
      else let by_level = zones_by_level s
           in concat (map (\<lambda>(level, north_zones).
                if level = 0 then []
                else case map_of by_level (level - 1) of
                  None \<Rightarrow> []
                | Some south_zones \<Rightarrow>
                    if south_zones = [] then []
                    else concat (map (zone_crossings N s seed max_per_pair south_zones) north_zones)) by_level))"

text \<open>
  \<open>cells_no_orphan\<close>: the loop over the index is a loop over the rest of the list.  It is called with size 6;
  for a size below 2 the code would not end.
\<close>

function cells_from :: "nat \<Rightarrow> 'a list \<Rightarrow> 'a list list" where
  "cells_from sz xs =
     (if xs = [] then []
      else let remaining = length xs;
               n = (if sz < remaining \<and> remaining - sz = 1 then sz - 1 else min sz remaining)
           in if n = 0 then [] else take n xs # cells_from sz (drop n xs))"
  by pat_completeness auto
termination by (relation "measure (\<lambda>(sz, xs). length xs)") (auto simp: Let_def split: if_splits)

declare cells_from.simps [simp del]

definition cells_no_orphan :: "'a list \<Rightarrow> nat \<Rightarrow> 'a list list" where
  "cells_no_orphan nodes sz =
     (if nodes = [] then [] else if length nodes \<le> sz then [nodes] else cells_from sz nodes)"

definition cell_edges :: "node list \<Rightarrow> edge list" where
  "cell_edges cell =
     (case cell of [] \<Rightarrow> []
      | master # members \<Rightarrow>
          map (\<lambda>m. \<lparr>eg_requester = master, eg_owner = m\<rparr>) members @
          (case members of [] \<Rightarrow> [] | f # _ \<Rightarrow> [\<lparr>eg_requester = f, eg_owner = master\<rparr>]))"

text \<open>The nodes of a zone: the station in front, and a requester for a lone asset.\<close>

definition zone_nodes :: "'n net_ops \<Rightarrow> u64 \<Rightarrow> string \<Rightarrow> node list \<Rightarrow> node list" where
  "zone_nodes N seed cidr reals =
     (let reals = sort_key nd_ip reals;
          station_ip = station_addr N cidr;
          nodes = (if \<not> list_ex (\<lambda>n. nd_ip n = station_ip) reals
            then [\<lparr>nd_ip = station_ip, nd_mac = stable_mac seed station_ip\<rparr>] else []);
          nodes = nodes @ reals
      in if length nodes = 1
         then let alt = saturating_sub32 station_ip 1
              in if alt \<noteq> nd_ip (nodes ! 0) then \<lparr>nd_ip = alt, nd_mac = stable_mac seed alt\<rparr> # nodes else nodes
         else nodes)"

definition zone_edges :: "'n net_ops \<Rightarrow> u64 \<Rightarrow> string \<Rightarrow> node list \<Rightarrow> edge list" where
  "zone_edges N seed cidr reals = concat (map cell_edges (cells_no_orphan (zone_nodes N seed cidr reals) CELL_SIZE))"

definition ledger_assets :: "ledger \<Rightarrow> (string \<times> node) list" where
  "ledger_assets s = List.map_filter (\<lambda>(ip, m, cidr). map_option (\<lambda>a. (cidr, \<lparr>nd_ip = a, nd_mac = parse_mac m\<rparr>)) (ipv4_from_str ip))
     (map (\<lambda>d. (dr_ip d, dr_mac d, dr_subnet_cidr d)) (lg_devices s) @
      map (\<lambda>h. (ch_ip h, ch_mac h, ch_subnet_cidr h)) (lg_capture_hosts s))"

definition arp_edges :: "'n net_ops \<Rightarrow> ledger \<Rightarrow> u64 \<Rightarrow> edge list" where
  "arp_edges N s seed = concat (map (\<lambda>(cidr, reals). zone_edges N seed cidr reals) (btree_group (ledger_assets s)))"

section \<open>Cells\<close>

lemma cells_from_ok:
  assumes "3 \<le> sz" and "length xs \<noteq> 1"
  shows "concat (cells_from sz xs) = xs \<and> (\<forall>c \<in> set (cells_from sz xs). 2 \<le> length c \<and> length c \<le> sz)"
  using assms
proof (induction sz xs rule: cells_from.induct)
  case (1 sz xs)
  show ?case
  proof (cases "xs = []")
    case True
    then show ?thesis by (simp add: cells_from.simps)
  next
    case False
    define n where "n = (if sz < length xs \<and> length xs - sz = 1 then sz - 1 else min sz (length xs))"
    have two: "2 \<le> length xs" using False 1(3) by (cases xs rule: list.exhaust) (auto simp: Suc_le_eq)
    then have n: "2 \<le> n" "n \<le> sz" "n \<le> length xs" using 1(2) by (auto simp: n_def)
    have "length (drop n xs) \<noteq> 1" using 1(2) two by (auto simp: n_def)
    then have ih: "concat (cells_from sz (drop n xs)) = drop n xs"
      "\<forall>c \<in> set (cells_from sz (drop n xs)). 2 \<le> length c \<and> length c \<le> sz"
      using 1(1) [OF False refl n_def] n 1(2) by auto
    have "cells_from sz xs = take n xs # cells_from sz (drop n xs)"
      using False n by (subst cells_from.simps) (simp add: Let_def n_def)
    then show ?thesis using ih n by auto
  qed
qed

lemma cells_no_orphan_ok:
  assumes "3 \<le> sz" and "2 \<le> length xs"
  shows "concat (cells_no_orphan xs sz) = xs" and "\<forall>c \<in> set (cells_no_orphan xs sz). 2 \<le> length c \<and> length c \<le> sz"
  using cells_from_ok [OF assms(1), of xs] assms by (auto simp: cells_no_orphan_def)

lemma cell_edges_owner: "2 \<le> length c \<Longrightarrow> x \<in> set c \<Longrightarrow> \<exists>e \<in> set (cell_edges c). eg_owner e = x"
  by (cases c; cases "tl c") (auto simp: cell_edges_def)

lemma cell_edges_nodes: "e \<in> set (cell_edges c) \<Longrightarrow> eg_owner e \<in> set c \<and> eg_requester e \<in> set c"
  by (cases c; cases "tl c") (auto simp: cell_edges_def)

text \<open>A requester asks at most the other nodes of its cell.\<close>

lemma cell_edges_fan:
  assumes "distinct c" and "length c \<le> sz" and "2 \<le> sz"
  shows "length (filter (\<lambda>e. eg_requester e = r) (cell_edges c)) \<le> sz - 1"
proof (cases c)
  case (Cons m ms)
  show ?thesis
  proof (cases ms)
    case Nil
    then show ?thesis by (simp add: Cons cell_edges_def)
  next
    case (Cons f fs)
    have c: "c = m # f # fs" using \<open>c = m # ms\<close> Cons by simp
    show ?thesis
    proof (cases "r = m")
      case True
      then have "r \<noteq> f" using assms(1) c by auto
      then show ?thesis using assms(2) True by (simp add: c cell_edges_def comp_def)
    next
      case False
      moreover have "Suc 0 \<le> sz - Suc 0" using assms(3) by linarith
      ultimately show ?thesis by (simp add: c cell_edges_def comp_def)
    qed
  qed
qed (simp add: cell_edges_def)

lemma cells_fan:
  assumes "distinct (concat cs)" and "\<forall>c \<in> set cs. length c \<le> sz" and "2 \<le> sz"
  shows "length (filter (\<lambda>e. eg_requester e = r) (concat (map cell_edges cs))) \<le> sz - 1"
  using assms
proof (induction cs)
  case (Cons c cs)
  show ?case
  proof (cases "r \<in> set c")
    case True
    have "\<forall>e \<in> set (concat (map cell_edges cs)). eg_requester e \<noteq> r"
      using Cons.prems(1) True cell_edges_nodes by fastforce
    then have "filter (\<lambda>e. eg_requester e = r) (concat (map cell_edges cs)) = []" by (simp add: filter_empty_conv)
    then show ?thesis using cell_edges_fan [of c sz r] Cons.prems by simp
  next
    case False
    then have "\<forall>e \<in> set (cell_edges c). eg_requester e \<noteq> r" using cell_edges_nodes by fastforce
    then have "filter (\<lambda>e. eg_requester e = r) (cell_edges c) = []" by (simp add: filter_empty_conv)
    then show ?thesis using Cons by simp
  qed
qed simp

section \<open>Zones\<close>

lemma length_zone_nodes: "reals \<noteq> [] \<Longrightarrow> station_addr N cidr \<noteq> 0 \<Longrightarrow> 2 \<le> length (zone_nodes N seed cidr reals)"
proof -
  assume r: "reals \<noteq> []" and st: "station_addr N cidr \<noteq> 0"
  show ?thesis
  proof (cases "list_ex (\<lambda>n. nd_ip n = station_addr N cidr) (sort_key nd_ip reals) \<and> length reals = 1")
    case True
    then obtain n where n: "reals = [n]" "nd_ip n = station_addr N cidr" by (cases reals) auto
    have "saturating_sub32 (station_addr N cidr) 1 \<noteq> station_addr N cidr"
      using st by (auto simp: saturating_sub32_def)
    then show ?thesis by (simp add: zone_nodes_def n Let_def)
  next
    case False
    have "1 \<le> length reals" using r by (simp add: Suc_le_eq)
    then show ?thesis using False by (auto simp: zone_nodes_def Let_def)
  qed
qed

lemma zone_nodes_reals: "set reals \<subseteq> set (zone_nodes N seed cidr reals)"
  by (auto simp: zone_nodes_def Let_def)

lemma btree_group_mem: "(k, v) \<in> set xs \<Longrightarrow> \<exists>vs. (k, vs) \<in> set (btree_group xs) \<and> v \<in> set vs"
  by (force simp: btree_group_def)

lemma btree_group_sound: "(k, vs) \<in> set (btree_group xs) \<Longrightarrow> vs = map snd (filter (\<lambda>x. fst x = k) xs) \<and> vs \<noteq> []"
  by (force simp: btree_group_def filter_empty_conv)

lemma cells_of_zone:
  assumes "reals \<noteq> []" and "station_addr N cidr \<noteq> 0"
  shows "concat (cells_no_orphan (zone_nodes N seed cidr reals) CELL_SIZE) = zone_nodes N seed cidr reals"
    and "\<forall>c \<in> set (cells_no_orphan (zone_nodes N seed cidr reals) CELL_SIZE). 2 \<le> length c \<and> length c \<le> CELL_SIZE"
  using cells_no_orphan_ok [of CELL_SIZE "zone_nodes N seed cidr reals"] length_zone_nodes [OF assms, of seed]
  by (simp_all add: CELL_SIZE_def)

lemma zone_edges_bind:
  assumes "reals \<noteq> []" and "station_addr N cidr \<noteq> 0" and "x \<in> set reals"
  shows "\<exists>e \<in> set (zone_edges N seed cidr reals). eg_owner e = x"
proof -
  have "x \<in> set (concat (cells_no_orphan (zone_nodes N seed cidr reals) CELL_SIZE))"
    using cells_of_zone(1) [OF assms(1,2), of seed] zone_nodes_reals assms(3) by fastforce
  then obtain c where c: "c \<in> set (cells_no_orphan (zone_nodes N seed cidr reals) CELL_SIZE)" "x \<in> set c" by auto
  then have "2 \<le> length c" using cells_of_zone(2) [OF assms(1,2), of seed] by blast
  from cell_edges_owner [OF this c(2)] c(1) show ?thesis by (auto simp: zone_edges_def)
qed

lemma zone_edges_fan:
  assumes "reals \<noteq> []" and "station_addr N cidr \<noteq> 0" and "distinct (zone_nodes N seed cidr reals)"
  shows "length (filter (\<lambda>e. eg_requester e = r) (zone_edges N seed cidr reals)) \<le> CELL_SIZE - 1"
  unfolding zone_edges_def
  by (rule cells_fan) (use cells_of_zone [OF assms(1,2), of seed] assms(3) in \<open>auto simp: CELL_SIZE_def\<close>)

lemma zone_nodes_distinct:
  assumes "distinct (map nd_ip reals)"
  shows "distinct (map nd_ip (zone_nodes N seed cidr reals))"
proof -
  let ?s = "sort_key nd_ip reals"
  have d: "distinct (map nd_ip ?s)" using assms by (simp add: distinct_map)
  show ?thesis
  proof (cases "list_ex (\<lambda>n. nd_ip n = station_addr N cidr) ?s")
    case True
    then show ?thesis using d by (cases "?s"; cases "tl ?s") (auto simp: zone_nodes_def Let_def)
  next
    case False
    then show ?thesis using d by (auto simp: zone_nodes_def Let_def list_ex_iff)
  qed
qed

lemma arp_edges_bind:
  assumes "(cidr, x) \<in> set (ledger_assets s)" and "station_addr N cidr \<noteq> 0"
  shows "\<exists>e \<in> set (arp_edges N s seed). eg_owner e = x"
proof -
  obtain vs where vs: "(cidr, vs) \<in> set (btree_group (ledger_assets s))" "x \<in> set vs"
    using btree_group_mem [OF assms(1)] by blast
  have "vs \<noteq> []" using vs(2) by auto
  from zone_edges_bind [OF this assms(2) vs(2), of seed] vs(1) show ?thesis by (force simp: arp_edges_def)
qed

section \<open>Crossings\<close>

text \<open>Bounded: at most \<open>max_per_pair\<close> crossings per northern zone.\<close>

lemma length_zone_crossings: "length (zone_crossings N s seed k south north) \<le> k"
  by (auto simp: zone_crossings_def Let_def split: option.splits)

lemma length_crossings: "length (concat (map (zone_crossings N s seed k south) zs)) \<le> k * length zs"
proof (induction zs)
  case (Cons z zs)
  then show ?case using length_zone_crossings [of N s seed k south z] by simp
qed simp

end
