(* ===== verification/Vuln.thy ===== *)
theory Vuln
  imports Texts
begin

text \<open>
  \<open>src/vuln/mod.rs\<close>: the database of vulnerable device profiles, and how a scenario pack overlays it.
  The TOML parser is outside; \<open>pack\<close> and \<open>disk\<close> are its results (\<open>None\<close>: no file, or malformed).
\<close>

section \<open>Code\<close>

datatype profile_proto = Proto_Enip | Proto_Modbus | Proto_S7 | Proto_Switch_Snmp

fun proto_as_str :: "profile_proto \<Rightarrow> string" where
  "proto_as_str Proto_Enip = ''enip''"
| "proto_as_str Proto_Modbus = ''modbus''"
| "proto_as_str Proto_S7 = ''s7''"
| "proto_as_str Proto_Switch_Snmp = ''switch_snmp''"

record device_profile =
  dp_vendor :: string
  dp_model :: string
  dp_firmware :: string
  dp_protocol :: profile_proto
  dp_purdue_level :: u8
  dp_oui :: "string option"
  dp_cves :: "string list"
  dp_enip_vendor_id :: "u16 option"
  dp_enip_device_type :: "u16 option"
  dp_enip_product_code :: "u16 option"
  dp_enip_product_name :: "string option"
  dp_s7_order_number :: "string option"
  dp_sys_descr :: "string option"
  dp_sys_object_id :: "string option"
  dp_firmware_oid :: "string option"
  dp_asset_class :: "string option"
  dp_modbus_vendor_name :: "string option"
  dp_modbus_product_code :: "string option"
  dp_modbus_revision :: "string option"

type_synonym vuln_db = "device_profile list"

definition oui_prefix :: "device_profile \<Rightarrow> bytes option" where
  "oui_prefix p = do {
     s \<leftarrow> dp_oui p;
     let cleaned = filter is_ascii_hexdigit s;
     if length cleaned \<noteq> 6 then None
     else do {
       a \<leftarrow> u8_from_hex (take 2 cleaned);
       b \<leftarrow> u8_from_hex (take 2 (drop 2 cleaned));
       c \<leftarrow> u8_from_hex (drop 4 cleaned);
       Some [a, b, c]
     }
   }"

definition vuln_load :: "vuln_db option \<Rightarrow> vuln_db option \<Rightarrow> vuln_db" where
  "vuln_load disk embedded =
     (case disk of Some db \<Rightarrow> db | None \<Rightarrow> (case embedded of Some db \<Rightarrow> db | None \<Rightarrow> []))"

text \<open>One profile of the pack: it replaces the first profile of its model, or is added.\<close>

fun overlay_profile :: "device_profile \<Rightarrow> vuln_db \<Rightarrow> vuln_db" where
  "overlay_profile p [] = [p]"
| "overlay_profile p (e # db) = (if dp_model e = dp_model p then p # db else e # overlay_profile p db)"

definition vuln_load_overlay :: "vuln_db option \<Rightarrow> vuln_db option \<Rightarrow> vuln_db" where
  "vuln_load_overlay embedded pack =
     (let db = (case embedded of Some db \<Rightarrow> db | None \<Rightarrow> [])
      in case pack of Some ps \<Rightarrow> fold overlay_profile ps db | None \<Rightarrow> db)"

definition by_protocol :: "vuln_db \<Rightarrow> profile_proto \<Rightarrow> vuln_db" where
  "by_protocol db p = filter (\<lambda>d. dp_protocol d = p) db"

definition vuln_pick :: "vuln_db \<Rightarrow> nat \<Rightarrow> device_profile option" where
  "vuln_pick db n = (if db = [] then None else Some (db ! (n mod length db)))"

definition by_model :: "vuln_db \<Rightarrow> string \<Rightarrow> device_profile option" where
  "by_model db model = find (\<lambda>p. dp_model p = model) db"

section \<open>The overlay\<close>

lemma by_model_overlay_profile:
  "by_model (overlay_profile p db) m = (if m = dp_model p then Some p else by_model db m)"
  by (induction db) (auto simp: by_model_def)

lemma models_overlay_profile:
  "map dp_model (overlay_profile p db) =
     map dp_model db @ (if dp_model p \<in> dp_model ` set db then [] else [dp_model p])"
  by (induction db) auto

lemma by_model_Nil: "by_model [] m = None"
  by (simp add: by_model_def)

lemma by_model_append:
  "by_model (ps @ qs) m = (case by_model ps m of Some q \<Rightarrow> Some q | None \<Rightarrow> by_model qs m)"
  by (induction ps) (auto simp: by_model_def)

text \<open>The last profile of the pack with a model wins; models outside the pack keep their profile.\<close>

lemma by_model_overlay:
  "by_model (fold overlay_profile ps db) m =
     (case by_model (rev ps) m of Some p \<Rightarrow> Some p | None \<Rightarrow> by_model db m)"
proof (induction ps arbitrary: db)
  case (Cons p ps)
  have "by_model [p] m = (if m = dp_model p then Some p else None)"
    by (auto simp: by_model_def)
  then show ?case
    by (simp add: Cons by_model_append by_model_overlay_profile split: option.splits)
qed (simp add: by_model_Nil)

lemma distinct_overlay:
  "distinct (map dp_model db) \<Longrightarrow> distinct (map dp_model (fold overlay_profile ps db))"
proof (induction ps arbitrary: db)
  case (Cons p ps)
  have "distinct (map dp_model (overlay_profile p db))"
    using Cons.prems unfolding models_overlay_profile by auto
  then show ?case using Cons.IH by simp
qed simp

lemma models_overlay:
  "dp_model ` set (fold overlay_profile ps db) = dp_model ` set db \<union> dp_model ` set ps"
proof (induction ps arbitrary: db)
  case (Cons p ps)
  have "dp_model ` set (overlay_profile p db) = insert (dp_model p) (dp_model ` set db)"
    using arg_cong [OF models_overlay_profile [of p db], of set] by auto
  then show ?case using Cons by simp
qed simp

lemma vuln_pick_in: "vuln_pick db n = Some p \<Longrightarrow> p \<in> set db"
  by (auto simp: vuln_pick_def split: if_splits)

section \<open>The vendor prefix\<close>

lemma hex2_hexdigits: "filter is_ascii_hexdigit (hex2 b) = hex2 b"
proof -
  have "unat b div 16 < 16" using unat_u8_lt [of b] by linarith
  then show ?thesis by (simp add: hex2_def is_ascii_hexdigit_def)
qed

lemma oui_prefix_formatted:
  assumes "dp_oui p = Some (join_with (CHR '':'') [hex2 a, hex2 b, hex2 c])"
  shows "oui_prefix p = Some [a, b, c]"
proof -
  have colon: "\<not> is_ascii_hexdigit (CHR '':'')"
    by (simp add: is_ascii_hexdigit_def digit_val_def)
  have len: "length (hex2 x) = 2" for x by (simp add: hex2_def)
  show ?thesis
    by (simp add: oui_prefix_def assms hex2_hexdigits colon len hex2_parse)
qed

lemma oui_prefix_length: "oui_prefix p = Some bs \<Longrightarrow> length bs = 3"
  by (auto simp: oui_prefix_def Let_def split: if_splits bind_splits)

end
