(* ===== verification/Scenario.thy ===== *)
theory Scenario
  imports Volume Roles Vuln
begin

text \<open>
  \<open>src/scenario/playbook.rs\<close> and \<open>src/scenario/engine.rs\<close>: the playbook of an attack and the engine that renders
  its events to frames and walks its phases, one step per burst.  \<open>timeline\<close> holds the fields of the engine that
  a burst changes; the rest of \<open>scenario_engine\<close> is fixed when it is loaded.  Parameters: the networks of the
  \<open>ipnet\<close> crate (\<open>N\<close>) and the DNP3 checksum of the \<open>crc\<close> crate (\<open>crc\<close>).
\<close>

section \<open>Code: the playbook\<close>

datatype emit_kind =
    S7Read | S7ProgramDownload | S7Write | S7Stop | ModbusWrite | TristationStatus | TristationDownload
  | Iec104Interrogation | Iec104Command | Dnp3Read | Dnp3Operate | CipRead | CipWrite | OpcuaRead
  | Iec101Interrogation | Iec101Command | C2Beacon | RemoteAccess | Wiper | MoxaBrick

record device_ref =
  rf_ip :: "string option"
  rf_model :: "string option"
  rf_asset_type :: "string option"

record event =
  ev_emit :: emit_kind
  ev_target :: "device_ref option"
  ev_value :: "u16 option"
  ev_register :: "u16 option"
  ev_db :: "u16 option"
  ev_offset :: "u16 option"
  ev_unit :: "u8 option"
  ev_ioa :: "u32 option"
  ev_common_addr :: "u16 option"
  ev_point :: "u16 option"
  ev_close :: "bool option"
  ev_block_id :: "string option"
  ev_payload_hex :: "string option"
  ev_chunk :: "nat option"
  ev_domain :: "string option"
  ev_ip :: "string option"
  ev_port :: "u16 option"
  ev_share :: "string option"

record phase =
  pa_id :: string
  pa_name :: "string option"
  pa_techniques :: "string list"
  pa_dwell_runs :: u64
  pa_events :: "event list"

text \<open>\<open>Playbook::load\<close> after the YAML parser, whose result is \<open>parsed\<close> (\<open>None\<close>: unreadable or malformed).\<close>

datatype load_error = Playbook_Unreadable | No_Phases | Bad_Char char | Odd_Digits nat

definition playbook_parse :: "phase list option \<Rightarrow> load_error + phase list" where
  "playbook_parse parsed =
     (case parsed of None \<Rightarrow> Inl Playbook_Unreadable
      | Some phases \<Rightarrow> if phases = [] then Inl No_Phases else Inr phases)"

section \<open>Code: the engine\<close>

datatype campaign = Oneshot | Loop

datatype ioc_fidelity = Real | Standin

record target_cfg =
  tg_name :: string
  tg_campaign :: campaign
  tg_max_frames_per_burst :: nat
  tg_ioc_fidelity :: ioc_fidelity
  tg_external_cidrs :: "string list"
  tg_c2_domains :: "string list"
  tg_c2_ips :: "string list"

record timeline =
  tm_phase_idx :: nat
  tm_event_cursor :: nat
  tm_bursts_in_phase :: u64
  tm_event_frame_offset :: nat
  tm_spill_nonce :: "u64 option"

record scenario_engine = timeline +
  en_name :: string
  en_playbook :: "phase list"
  en_external_cidrs :: "string list"
  en_c2_domains :: "string list"
  en_c2_ips :: "string list"
  en_fidelity :: ioc_fidelity
  en_campaign :: campaign
  en_max_frames_per_burst :: nat
  en_seed :: u64

definition is_separator :: "char \<Rightarrow> bool" where
  "is_separator c = (c \<in> {CHR '' '', CHR 0x09, CHR 0x0A, CHR 0x0D, CHR '':'', CHR ''-'', CHR ''_''})"

fun hex_nibbles :: "string \<Rightarrow> load_error + nat list" where
  "hex_nibbles [] = Inr []"
| "hex_nibbles (c # cs) =
     (if is_separator c then hex_nibbles cs
      else case digit_val 16 c of
        None \<Rightarrow> Inl (Bad_Char c)
      | Some d \<Rightarrow> (case hex_nibbles cs of Inl e \<Rightarrow> Inl e | Inr ds \<Rightarrow> Inr (d # ds)))"

fun pair_nibbles :: "nat list \<Rightarrow> bytes" where
  "pair_nibbles (a # b # ds) = (push_bit 4 (word_of_nat a) OR word_of_nat b) # pair_nibbles ds"
| "pair_nibbles _ = []"

definition decode_hex_strict :: "string \<Rightarrow> load_error + bytes" where
  "decode_hex_strict s =
     (case hex_nibbles s of
        Inl e \<Rightarrow> Inl e
      | Inr ds \<Rightarrow> if odd (length ds) then Inl (Odd_Digits (length ds)) else Inr (pair_nibbles ds))"

definition payload_bytes :: "string option \<Rightarrow> bytes \<Rightarrow> bytes" where
  "payload_bytes hex fallback =
     (case hex of
        Some h \<Rightarrow> (case decode_hex_strict h of Inr b \<Rightarrow> if b \<noteq> [] then b else fallback | Inl _ \<Rightarrow> fallback)
      | None \<Rightarrow> fallback)"

text \<open>The first malformed payload of the playbook, in order.\<close>

fun check_payloads :: "event list \<Rightarrow> load_error option" where
  "check_payloads [] = None"
| "check_payloads (ev # evs) =
     (case ev_payload_hex ev of
        None \<Rightarrow> check_payloads evs
      | Some h \<Rightarrow> (case decode_hex_strict h of Inl e \<Rightarrow> Some e | Inr _ \<Rightarrow> check_payloads evs))"

definition scenario_load :: "target_cfg \<Rightarrow> phase list option \<Rightarrow> u64 \<Rightarrow> load_error + scenario_engine" where
  "scenario_load target parsed seed =
     (case playbook_parse parsed of
        Inl e \<Rightarrow> Inl e
      | Inr phases \<Rightarrow>
          (case check_payloads (concat (map pa_events phases)) of
             Some e \<Rightarrow> Inl e
           | None \<Rightarrow> Inr
               \<lparr>tm_phase_idx = 0, tm_event_cursor = 0, tm_bursts_in_phase = 0, tm_event_frame_offset = 0,
                tm_spill_nonce = None, en_name = tg_name target, en_playbook = phases,
                en_external_cidrs = tg_external_cidrs target, en_c2_domains = tg_c2_domains target,
                en_c2_ips = tg_c2_ips target, en_fidelity = tg_ioc_fidelity target,
                en_campaign = tg_campaign target,
                en_max_frames_per_burst = max (tg_max_frames_per_burst target) 1, en_seed = seed\<rparr>))"

section \<open>Code: targets\<close>

definition find_device :: "(device_record \<Rightarrow> bool) \<Rightarrow> ledger \<Rightarrow> device_record option" where
  "find_device p s = find p (lg_devices s)"

text \<open>A field of the reference that is absent or matches no device leaves the choice to the next.\<close>

definition match_field :: "(device_record \<Rightarrow> string \<Rightarrow> bool) \<Rightarrow> string option \<Rightarrow> ledger \<Rightarrow> device_record option" where
  "match_field p v s = (case v of None \<Rightarrow> None | Some x \<Rightarrow> find_device (\<lambda>d. p d x) s)"

definition or_else :: "'a option \<Rightarrow> 'a option \<Rightarrow> 'a option" where
  "or_else a b = (case a of Some x \<Rightarrow> Some x | None \<Rightarrow> b)"

definition resolve :: "ledger \<Rightarrow> device_ref option \<Rightarrow> device_record option" where
  "resolve s t =
     (case t of
        None \<Rightarrow> None
      | Some t \<Rightarrow>
          or_else (match_field (\<lambda>d x. dr_ip d = x) (rf_ip t) s)
         (or_else (match_field (\<lambda>d x. dr_model d = x) (rf_model t) s)
                  (match_field (\<lambda>d x. dr_asset_type d = Some x) (rf_asset_type t) s)))"

definition endpoint :: "device_record \<Rightarrow> (ipv4 \<times> mac) option" where
  "endpoint dev = map_option (\<lambda>ip. (ip, parse_mac (dr_mac dev))) (ipv4_from_str (dr_ip dev))"

datatype target_error = Unresolved string nat | No_Target string nat

fun check_targets :: "ledger \<Rightarrow> string \<Rightarrow> nat \<Rightarrow> event list \<Rightarrow> target_error option" where
  "check_targets s ph i [] = None"
| "check_targets s ph i (ev # evs) =
     (case ev_target ev of
        Some _ \<Rightarrow> if resolve s (ev_target ev) = None then Some (Unresolved ph i) else check_targets s ph (Suc i) evs
      | None \<Rightarrow> if ev_emit ev \<noteq> C2Beacon then Some (No_Target ph i) else check_targets s ph (Suc i) evs)"

fun check_phases :: "ledger \<Rightarrow> phase list \<Rightarrow> target_error option" where
  "check_phases s [] = None"
| "check_phases s (ph # phs) =
     (case check_targets s (pa_id ph) 0 (pa_events ph) of Some e \<Rightarrow> Some e | None \<Rightarrow> check_phases s phs)"

definition validate_targets :: "scenario_engine \<Rightarrow> ledger \<Rightarrow> target_error + unit" where
  "validate_targets e s = (case check_phases s (en_playbook e) of Some err \<Rightarrow> Inl err | None \<Rightarrow> Inr ())"

section \<open>Code: who talks\<close>

definition station :: "'n net_ops \<Rightarrow> scenario_engine \<Rightarrow> device_record \<Rightarrow> ipv4 \<times> mac" where
  "station N e dev = (let ip = station_addr N (dr_subnet_cidr dev) in (ip, stable_mac (en_seed e) ip))"

definition firewall :: "ledger \<Rightarrow> string \<Rightarrow> (ipv4 \<times> mac) option" where
  "firewall s cidr =
     Option.bind (find_device (\<lambda>d. dr_subnet_cidr d = cidr \<and> dr_asset_type d = Some ''Firewall'') s) endpoint"

definition resolver :: "'n net_ops \<Rightarrow> scenario_engine \<Rightarrow> ledger \<Rightarrow> string \<Rightarrow> ipv4 \<times> mac" where
  "resolver N e s cidr =
     (case firewall s cidr of
        Some f \<Rightarrow> f
      | None \<Rightarrow> let ip = firewall_addr N cidr in (ip, stable_mac (en_seed e) ip))"

definition gateway_mac :: "'n net_ops \<Rightarrow> scenario_engine \<Rightarrow> ledger \<Rightarrow> string \<Rightarrow> mac" where
  "gateway_mac N e s cidr =
     (case firewall s cidr of Some (_, m) \<Rightarrow> m | None \<Rightarrow> stable_mac (en_seed e) (firewall_addr N cidr))"

definition first_host :: "'n net_ops \<Rightarrow> string \<Rightarrow> ipv4 option" where
  "first_host N cidr =
     Option.bind (no_parse N cidr) (\<lambda>n. if 9 < length (no_hosts N n) then Some (no_hosts N n ! 9) else None)"

fun opt_hd :: "'a list \<Rightarrow> 'a option" where
  "opt_hd [] = None"
| "opt_hd (x # xs) = Some x"

definition unwrap_or :: "'a option \<Rightarrow> 'a \<Rightarrow> 'a" where
  "unwrap_or a d = (case a of Some x \<Rightarrow> x | None \<Rightarrow> d)"

definition ioc_domain :: "scenario_engine \<Rightarrow> event \<Rightarrow> string" where
  "ioc_domain e ev =
     (if en_fidelity e = Standin then ''beacon.example''
      else unwrap_or (or_else (ev_domain ev) (opt_hd (en_c2_domains e))) ''beacon.example'')"

definition ioc_ip :: "scenario_engine \<Rightarrow> event \<Rightarrow> ipv4" where
  "ioc_ip e ev =
     (if en_fidelity e = Standin then be32 203 0 113 10
      else unwrap_or (or_else (Option.bind (ev_ip ev) ipv4_from_str)
             (Option.bind (opt_hd (en_c2_ips e)) ipv4_from_str)) (be32 203 0 113 10))"

definition external_ip :: "'n net_ops \<Rightarrow> scenario_engine \<Rightarrow> ipv4" where
  "external_ip N e =
     (if en_fidelity e = Standin then be32 198 51 100 10
      else unwrap_or (Option.bind (opt_hd (en_external_cidrs e)) (first_host N)) (be32 198 51 100 10))"

text \<open>\<open>f\<close> is given the device, the station's address and MAC, and the device's address and MAC.\<close>

definition on_target ::
  "'n net_ops \<Rightarrow> scenario_engine \<Rightarrow> ledger \<Rightarrow> device_ref option
    \<Rightarrow> (device_record \<Rightarrow> ipv4 \<Rightarrow> mac \<Rightarrow> ipv4 \<Rightarrow> mac \<Rightarrow> bytes list exec) \<Rightarrow> bytes list exec" where
  "on_target N e s t f =
     (case resolve s t of
        None \<Rightarrow> ret []
      | Some dev \<Rightarrow>
          (case endpoint dev of
             None \<Rightarrow> ret []
           | Some (dip, dmac) \<Rightarrow> let (cip, cmac) = station N e dev in f dev cip cmac dip dmac))"

definition event_port :: "u64 \<Rightarrow> u16" where
  "event_port nonce = 49152 + ucast (nonce mod 16384)"

definition render_event ::
  "'n net_ops \<Rightarrow> (bytes \<Rightarrow> u16) \<Rightarrow> scenario_engine \<Rightarrow> ledger \<Rightarrow> vuln_db \<Rightarrow> event \<Rightarrow> u64 \<Rightarrow> bytes list exec" where
  "render_event N crc e s vuln ev nonce =
     (let port = event_port nonce;
          on = on_target N e s (ev_target ev);
          common_addr = unwrap_or (ev_common_addr ev) 1;
          close = unwrap_or (ev_close ev) False
      in case ev_emit ev of
        S7Read \<Rightarrow> on (\<lambda>dev cip cmac dip dmac.
          let order = unwrap_or (Option.bind (by_model vuln (dr_model dev)) dp_s7_order_number) (dr_model dev);
              (maj, mn) = parse_version (dr_firmware dev)
          in szl_exchange cmac dmac cip dip port order maj mn)
      | S7ProgramDownload \<Rightarrow> on (\<lambda>_ cip cmac dip dmac.
          s7_program_download cmac dmac cip dip port (unwrap_or (ev_block_id ev) ''_0800001P'')
            (payload_bytes (ev_payload_hex ev) [0x70, 0x70, 0x01, 0x02, 0x03, 0x04]))
      | S7Write \<Rightarrow> on (\<lambda>_ cip cmac dip dmac.
          write_db_word cmac dmac cip dip port (unwrap_or (ev_db ev) 1) (unwrap_or (ev_offset ev) 0)
            (unwrap_or (ev_value ev) 0))
      | S7Stop \<Rightarrow> on (\<lambda>_ cip cmac dip dmac. plc_stop cmac dmac cip dip port)
      | ModbusWrite \<Rightarrow> on (\<lambda>_ cip cmac dip dmac.
          write_single_register cmac dmac cip dip port (unwrap_or (ev_unit ev) 1) (unwrap_or (ev_register ev) 0)
            (unwrap_or (ev_value ev) 0))
      | TristationStatus \<Rightarrow> on (\<lambda>_ cip cmac dip dmac.
          get_cp_status \<lparr>tl_ews_mac = cmac, tl_tricon_mac = dmac, tl_ews_ip = cip, tl_tricon_ip = dip, tl_ews_port = port\<rparr>)
      | TristationDownload \<Rightarrow> on (\<lambda>_ cip cmac dip dmac.
          ts_program_download
            \<lparr>tl_ews_mac = cmac, tl_tricon_mac = dmac, tl_ews_ip = cip, tl_tricon_ip = dip, tl_ews_port = port\<rparr>
            (payload_bytes (ev_payload_hex ev) (as_bytes ''imain.bin'' @ [0x00] @ as_bytes ''inject.bin''))
            (unwrap_or (ev_chunk ev) 8))
      | Iec104Interrogation \<Rightarrow> on (\<lambda>_ cip cmac dip dmac. iec104_interrogation cmac dmac cip dip port common_addr)
      | Iec104Command \<Rightarrow> on (\<lambda>_ cip cmac dip dmac.
          iec104_single_command cmac dmac cip dip port common_addr (unwrap_or (ev_ioa ev) 1) close)
      | Dnp3Read \<Rightarrow> on (\<lambda>_ cip cmac dip dmac. integrity_poll crc cmac dmac cip dip port common_addr)
      | Dnp3Operate \<Rightarrow> on (\<lambda>_ cip cmac dip dmac.
          dnp3_operate crc cmac dmac cip dip port common_addr (ucast (unwrap_or (ev_point ev) 0)) close)
      | CipRead \<Rightarrow> on (\<lambda>_ cip cmac dip dmac. get_attribute cmac dmac cip dip port)
      | CipWrite \<Rightarrow> on (\<lambda>_ cip cmac dip dmac.
          set_attribute cmac dmac cip dip port (ucast (unwrap_or (ev_register ev) 1)) (unwrap_or (ev_value ev) 0))
      | OpcuaRead \<Rightarrow> on (\<lambda>_ cip cmac dip dmac. opcua_read cmac dmac cip dip port)
      | Iec101Interrogation \<Rightarrow> on (\<lambda>_ cip cmac dip dmac. iec101_interrogation cmac dmac cip dip port common_addr)
      | Iec101Command \<Rightarrow> on (\<lambda>_ cip cmac dip dmac.
          iec101_single_command cmac dmac cip dip port common_addr (unwrap_or (ev_ioa ev) 1) close)
      | Wiper \<Rightarrow> on (\<lambda>_ cip cmac dip dmac.
          smb_share_write cmac dmac cip dip port
            (unwrap_or (ev_share ev)
              ([CHR 0x5C, CHR 0x5C] @ show_ipv4 dip @ [CHR 0x5C] @ ''ADMIN$'' @ [CHR 0x5C] @ ''update.dll'')))
      | MoxaBrick \<Rightarrow> on (\<lambda>_ cip cmac dip dmac.
          moxa_brick cmac dmac cip dip port (payload_bytes (ev_payload_hex ev) [0xde, 0xad, 0xbe, 0xef]))
      | RemoteAccess \<Rightarrow> on (\<lambda>dev _ _ hip hmac.
          remote_access (gateway_mac N e s (dr_subnet_cidr dev)) (external_ip N e) hmac hip port
            (unwrap_or (ev_port ev) 5938))
      | C2Beacon \<Rightarrow>
          (case or_else (resolve s (ev_target ev)) (opt_hd (lg_devices s)) of
             None \<Rightarrow> ret []
           | Some host \<Rightarrow>
               (case endpoint host of
                  None \<Rightarrow> ret []
                | Some (hip, hmac) \<Rightarrow>
                    let (rip, rmac) = resolver N e s (dr_subnet_cidr host);
                        gw = gateway_mac N e s (dr_subnet_cidr host);
                        c2 = \<lparr>c2_domain = ioc_domain e ev, c2_ip = ioc_ip e ev, c2_port = unwrap_or (ev_port ev) 80\<rparr>
                    in c2_beacon hmac hip rmac rip gw c2 port (ucast nonce))))"

section \<open>Code: the timeline\<close>

text \<open>The loop of a burst, over the events from the cursor on; \<open>render\<close> is \<open>render_event\<close>.\<close>

primrec burst_loop ::
  "('e \<Rightarrow> u64 \<Rightarrow> bytes list exec) \<Rightarrow> nat \<Rightarrow> u64 \<Rightarrow> 'e list \<Rightarrow> bytes list \<Rightarrow> 'a timeline_scheme
    \<Rightarrow> (bytes list \<times> 'a timeline_scheme) exec" where
  "burst_loop render cap nonce [] frames t = ret (frames, t)"
| "burst_loop render cap nonce (ev # evs) frames t =
     (let room = cap - length frames
      in if room = 0 then ret (frames, t)
         else do {
           let ev_nonce = unwrap_or (tm_spill_nonce t) (nonce + word_of_nat (tm_event_cursor t));
           ev_frames \<leftarrow> render ev ev_nonce;
           let remaining = length ev_frames - tm_event_frame_offset t;
           let n = min remaining room;
           part \<leftarrow> slice ev_frames (tm_event_frame_offset t) (tm_event_frame_offset t + n);
           if n = remaining
           then burst_loop render cap nonce evs (frames @ part)
             (t\<lparr>tm_event_frame_offset := 0, tm_spill_nonce := None, tm_event_cursor := tm_event_cursor t + 1\<rparr>)
           else ret (frames @ part,
             t\<lparr>tm_event_frame_offset := tm_event_frame_offset t + n, tm_spill_nonce := Some ev_nonce\<rparr>)
         })"

definition advance :: "scenario_engine \<Rightarrow> scenario_engine" where
  "advance e =
     (let e' = e\<lparr>tm_event_cursor := 0, tm_bursts_in_phase := 0, tm_event_frame_offset := 0, tm_spill_nonce := None\<rparr>;
          last = length (en_playbook e) - 1
      in if tm_phase_idx e < last then e'\<lparr>tm_phase_idx := tm_phase_idx e + 1\<rparr>
         else if en_campaign e = Loop then e'\<lparr>tm_phase_idx := 0\<rparr>
         else e')"

definition phase_frames ::
  "'n net_ops \<Rightarrow> (bytes \<Rightarrow> u16) \<Rightarrow> ledger \<Rightarrow> vuln_db \<Rightarrow> u64 \<Rightarrow> scenario_engine \<Rightarrow> (bytes list \<times> scenario_engine) exec" where
  "phase_frames N crc s vuln nonce e = do {
     ph \<leftarrow> rd (en_playbook e) (tm_phase_idx e);
     let events = pa_events ph;
     let dwell = max (pa_dwell_runs ph) 1;
     (frames, e) \<leftarrow> burst_loop (render_event N crc e s vuln) (en_max_frames_per_burst e) nonce
       (drop (tm_event_cursor e) events) [] e;
     let e = e\<lparr>tm_bursts_in_phase := tm_bursts_in_phase e + 1\<rparr>;
     ret (frames,
       if length events \<le> tm_event_cursor e \<and> tm_event_frame_offset e = 0 \<and> dwell \<le> tm_bursts_in_phase e
       then advance e else e)
   }"

end
