(* ===== verification/Campaign.thy ===== *)
theory Campaign
  imports Scenario
begin

text \<open>
  What the scenario engine promises.  Rendering is total and makes a number of frames that does not depend on the
  nonce (\<open>render_event_makes\<close>).  The locale \<open>event_renderer\<close> is that contract; inside it a burst is shown
  to send the next frames of the phase, at most \<open>cap\<close> of them, and fewer only when the phase is spent, and a
  phase is shown to end after its dwell with every frame of every event sent once, in order.
\<close>

section \<open>How many frames an event makes\<close>

definition kind_frames :: "event \<Rightarrow> nat" where
  "kind_frames ev =
     (case ev_emit ev of
        S7Read \<Rightarrow> 13 | S7ProgramDownload \<Rightarrow> 17 | S7Write \<Rightarrow> 13 | S7Stop \<Rightarrow> 13 | ModbusWrite \<Rightarrow> 9
      | TristationStatus \<Rightarrow> 2
      | TristationDownload \<Rightarrow> 4 + 2 * length (chunks (max (unwrap_or (ev_chunk ev) 8) 1)
          (payload_bytes (ev_payload_hex ev) (as_bytes ''imain.bin'' @ [0x00] @ as_bytes ''inject.bin'')))
      | Iec104Interrogation \<Rightarrow> 13 | Iec104Command \<Rightarrow> 13 | Dnp3Read \<Rightarrow> 9 | Dnp3Operate \<Rightarrow> 11
      | CipRead \<Rightarrow> 11 | CipWrite \<Rightarrow> 11 | OpcuaRead \<Rightarrow> 9 | Iec101Interrogation \<Rightarrow> 9 | Iec101Command \<Rightarrow> 9
      | C2Beacon \<Rightarrow> 11 | RemoteAccess \<Rightarrow> 10 | Wiper \<Rightarrow> 9 | MoxaBrick \<Rightarrow> 2)"

text \<open>The host an event acts on: a beacon falls back to the first device of the plant.\<close>

definition acts_on :: "ledger \<Rightarrow> event \<Rightarrow> device_record option" where
  "acts_on s ev =
     (if ev_emit ev = C2Beacon then or_else (resolve s (ev_target ev)) (opt_hd (lg_devices s))
      else resolve s (ev_target ev))"

definition frame_count :: "ledger \<Rightarrow> event \<Rightarrow> nat" where
  "frame_count s ev = (if Option.bind (acts_on s ev) endpoint = None then 0 else kind_frames ev)"

lemma on_target_makes:
  assumes "\<And>dev cip cmac dip dmac. makes k (f dev cip cmac dip dmac)"
  shows "makes (if Option.bind (resolve s t) endpoint = None then 0 else k) (on_target N e s t f)"
  using assms by (auto simp: on_target_def makes_def station_def Let_def split: option.splits)

lemma makes_0 [simp]: "makes 0 (ret [])"
  by (simp add: makes_def)

lemma c2_frames:
  assumes "ev_emit ev = C2Beacon"
  shows "makes (frame_count s ev) (render_event N crc e s vuln ev nonce)"
  by (simp add: assms render_event_def frame_count_def acts_on_def kind_frames_def Let_def split_beta c2_beacon_makes
      split: option.split)

lemma render_event_makes: "makes (frame_count s ev) (render_event N crc e s vuln ev nonce)"
proof (cases "ev_emit ev = C2Beacon")
  case True
  then show ?thesis by (rule c2_frames)
next
  case False
  note builders = szl_exchange_makes s7_makes modbus_makes cp_status_makes iec104_interrogation_makes iec104_single_makes
    integrity_poll_makes dnp3_operate_makes attribute_makes opcua_makes iec101_makes smb_makes moxa_makes
    remote_access_makes ts_program_download_makes [unfolded One_nat_def]
  show ?thesis
    using False
    by (cases "ev_emit ev")
      (simp_all add: render_event_def frame_count_def acts_on_def kind_frames_def Let_def split_beta on_target_makes builders)
qed


text \<open>Rendering reads the fixed fields of the engine only.\<close>

definition same_plan :: "'a scenario_engine_scheme \<Rightarrow> 'b scenario_engine_scheme \<Rightarrow> bool" where
  "same_plan e e' \<longleftrightarrow> en_seed e = en_seed e' \<and> en_fidelity e = en_fidelity e' \<and> en_c2_domains e = en_c2_domains e'
     \<and> en_c2_ips e = en_c2_ips e' \<and> en_external_cidrs e = en_external_cidrs e'"

lemma render_event_plan:
  assumes plan: "same_plan e e'"
  shows "render_event N crc e = render_event N crc e'"
proof -
  have seed: "en_seed e = en_seed e'" using plan by (simp add: same_plan_def)
  have "station N e = station N e'"
    by (intro ext) (simp only: station_def seed)
  then have parties: "on_target N e = on_target N e'" "resolver N e = resolver N e'" "gateway_mac N e = gateway_mac N e'"
    by (intro ext, simp only: on_target_def resolver_def gateway_mac_def seed)+
  have iocs: "ioc_domain e = ioc_domain e'" "ioc_ip e = ioc_ip e'" "external_ip N e = external_ip N e'"
    using plan by (simp_all add: same_plan_def ioc_domain_def ioc_ip_def external_ip_def fun_eq_iff)
  show ?thesis by (intro ext) (simp only: render_event_def parties iocs)
qed

lemma render_event_timeline [simp]:
  "render_event N crc (e\<lparr>tm_phase_idx := i\<rparr>) = render_event N crc e"
  "render_event N crc (e\<lparr>tm_event_cursor := c\<rparr>) = render_event N crc e"
  "render_event N crc (e\<lparr>tm_bursts_in_phase := b\<rparr>) = render_event N crc e"
  "render_event N crc (e\<lparr>tm_event_frame_offset := c\<rparr>) = render_event N crc e"
  "render_event N crc (e\<lparr>tm_spill_nonce := n\<rparr>) = render_event N crc e"
  by (rule render_event_plan, simp add: same_plan_def)+

section \<open>Bursts\<close>

definition frames_of :: "('e \<Rightarrow> u64 \<Rightarrow> bytes list exec) \<Rightarrow> 'e \<Rightarrow> u64 \<Rightarrow> bytes list" where
  "frames_of render ev n = unwrap_or (render ev n) []"

text \<open>The frames of the events, each rendered once with its nonce.\<close>

definition played :: "('e \<Rightarrow> u64 \<Rightarrow> bytes list exec) \<Rightarrow> 'e list \<Rightarrow> u64 list \<Rightarrow> bytes list" where
  "played render evs ns = concat (map2 (frames_of render) evs ns)"

text \<open>
  \<open>out\<close> has been sent of a phase with the events \<open>evs\<close>: the events before the cursor \<open>c\<close> whole, and of the one
  at the cursor, when it is spilling, its first \<open>off\<close> frames.
\<close>

definition sent_upto ::
  "('e \<Rightarrow> u64 \<Rightarrow> bytes list exec) \<Rightarrow> 'e list \<Rightarrow> nat \<Rightarrow> nat \<Rightarrow> u64 option \<Rightarrow> bytes list \<Rightarrow> bool" where
  "sent_upto render evs c off spill out \<longleftrightarrow>
     (\<exists>ns. length ns = c \<and> c \<le> length evs \<and>
       (case spill of
          None \<Rightarrow> off = 0 \<and> out = played render (take c evs) ns
        | Some n \<Rightarrow> c < length evs \<and> 0 < off \<and> off < length (frames_of render (evs ! c) n) \<and>
            out = played render (take c evs) ns @ take off (frames_of render (evs ! c) n)))"

lemma played_snoc:
  "length ns = length evs \<Longrightarrow> played render (evs @ [ev]) (ns @ [n]) = played render evs ns @ frames_of render ev n"
  by (simp add: played_def)

lemma sent_upto_start [simp]: "sent_upto render evs 0 0 None []"
  by (simp add: sent_upto_def played_def)

lemma sent_upto_event:
  assumes "sent_upto render evs c off spill out" and "c < length evs" and "off \<le> length fs"
    and "frames_of render (evs ! c) n = fs" and "spill = None \<or> spill = Some n"
  shows "off + k < length fs \<Longrightarrow> 0 < k \<Longrightarrow>
      sent_upto render evs c (off + k) (Some n) (out @ take k (drop off fs))"
    and "sent_upto render evs (Suc c) 0 None (out @ drop off fs)"
proof -
  obtain ns where ns: "length ns = c" "out = played render (take c evs) ns @ take off fs"
    using assms by (auto simp: sent_upto_def split: option.splits)
  show "sent_upto render evs (Suc c) 0 None (out @ drop off fs)"
    using ns assms(2,4) unfolding sent_upto_def
    by (auto intro!: exI [of _ "ns @ [n]"] simp: played_snoc take_Suc_conv_app_nth)
  show "sent_upto render evs c (off + k) (Some n) (out @ take k (drop off fs))" if "off + k < length fs" "0 < k"
    using ns assms(2,4) that unfolding sent_upto_def
    by (auto intro!: exI [of _ ns] simp: take_add)
qed

locale event_renderer =
  fixes render :: "'e \<Rightarrow> u64 \<Rightarrow> bytes list exec" and count :: "'e \<Rightarrow> nat"
  assumes render_makes: "makes (count ev) (render ev n)"
begin

lemma render_ret: "render ev n = ret (frames_of render ev n)"
  using render_makes [of ev n] by (auto simp: makes_def frames_of_def unwrap_or_def)

lemma length_frames_of: "length (frames_of render ev n) = count ev"
  using render_makes [of ev n] by (auto simp: makes_def frames_of_def unwrap_or_def)

lemma length_played: "length ns = length evs \<Longrightarrow> length (played render evs ns) = sum_list (map count evs)"
proof (induction evs arbitrary: ns)
  case (Cons ev evs)
  then show ?case by (cases ns) (auto simp: played_def length_frames_of)
qed (simp add: played_def)

lemma sum_count_take: "c < length evs \<Longrightarrow> sum_list (map count (take c evs)) + count (evs ! c) \<le> sum_list (map count evs)"
proof -
  assume "c < length evs"
  then have "evs = take c evs @ evs ! c # drop (Suc c) evs" by (rule id_take_nth_drop)
  then have "sum_list (map count evs) =
      sum_list (map count (take c evs)) + (count (evs ! c) + sum_list (map count (drop (Suc c) evs)))"
    by (metis list.simps(9) map_append sum_list.Cons sum_list_append)
  then show ?thesis by simp
qed

lemma sent_upto_bound:
  assumes s: "sent_upto render evs c off spill out"
  shows "length out \<le> sum_list (map count evs)"
proof (cases spill)
  case None
  have "sum_list (map count (take c evs)) + sum_list (map count (drop c evs)) = sum_list (map count evs)"
    by (metis append_take_drop_id map_append sum_list_append)
  then show ?thesis using s None by (auto simp: sent_upto_def length_played)
next
  case (Some n)
  then show ?thesis using s sum_count_take [of c evs]
    by (auto simp: sent_upto_def length_played length_frames_of)
qed

lemma sent_upto_all:
  "sent_upto render evs (length evs) off spill out \<Longrightarrow> length out = sum_list (map count evs)"
  by (auto simp: sent_upto_def length_played split: option.splits)

lemma burst:
  assumes "sent_upto render evs (tm_event_cursor t) (tm_event_frame_offset t) (tm_spill_nonce t) out"
    and "length frames \<le> cap" and "rest = drop (tm_event_cursor t) evs"
  shows "\<exists>c off spill new. burst_loop render cap nonce rest frames t =
      ret (frames @ new, t\<lparr>tm_event_cursor := c, tm_event_frame_offset := off, tm_spill_nonce := spill\<rparr>)
    \<and> sent_upto render evs c off spill (out @ new) \<and> length (frames @ new) \<le> cap
    \<and> (c = length evs \<or> length (frames @ new) = cap)"
  using assms
proof (induction rest arbitrary: frames t out)
  case Nil
  then have "tm_event_cursor t = length evs"
    by (auto simp: sent_upto_def)
  with Nil show ?case
    by (intro exI [of _ "tm_event_cursor t"] exI [of _ "tm_event_frame_offset t"] exI [of _ "tm_spill_nonce t"]
        exI [of _ "[]"]) simp
next
  case (Cons ev rest)
  let ?c = "tm_event_cursor t" and ?off = "tm_event_frame_offset t" and ?room = "cap - length frames"
  have c: "?c < length evs"
    using Cons.prems(3) by (cases "?c < length evs") auto
  have "ev # rest = evs ! ?c # drop (Suc ?c) evs"
    unfolding Cons_nth_drop_Suc [OF c] by (rule Cons.prems(3))
  then have ev: "evs ! ?c = ev" and rest: "rest = drop (Suc ?c) evs"
    by blast+
  obtain n where n: "n = unwrap_or (tm_spill_nonce t) (nonce + word_of_nat ?c)" by simp
  obtain fs where fs: "fs = frames_of render ev n" by simp
  have r: "render ev n = ret fs" unfolding fs by (rule render_ret)
  have off: "?off \<le> length fs" and spill: "tm_spill_nonce t = None \<or> tm_spill_nonce t = Some n"
    using Cons.prems(1) c by (auto simp: fs n sent_upto_def unwrap_or_def ev split: option.splits)
  show ?case
  proof (cases "?room = 0")
    case True
    with Cons.prems(1,2) show ?thesis
      by (intro exI [of _ ?c] exI [of _ ?off] exI [of _ "tm_spill_nonce t"] exI [of _ "[]"]) simp
  next
    case False
    let ?k = "min (length fs - ?off) ?room"
    have part: "slice fs ?off (?off + ?k) = ret (take ?k (drop ?off fs))"
      using off by (simp add: slice_def)
    note step = sent_upto_event [OF Cons.prems(1) c off fs [symmetric, folded ev] spill]
    show ?thesis
    proof (cases "?k = length fs - ?off")
      case True
      then have whole: "take ?k (drop ?off fs) = drop ?off fs" and fits: "length (frames @ drop ?off fs) \<le> cap"
        using Cons.prems(2) by (simp_all add: min_def split: if_splits)
      let ?t = "t\<lparr>tm_event_frame_offset := 0, tm_spill_nonce := None, tm_event_cursor := ?c + 1\<rparr>"
      have "burst_loop render cap nonce (ev # rest) frames t = burst_loop render cap nonce rest (frames @ drop ?off fs) ?t"
        using False part [unfolded whole] True r by (simp add: Let_def n [symmetric])
      moreover have "sent_upto render evs (tm_event_cursor ?t) (tm_event_frame_offset ?t) (tm_spill_nonce ?t) (out @ drop ?off fs)"
        using step(2) by simp
      ultimately obtain c off spill new where
        "burst_loop render cap nonce (ev # rest) frames t = ret ((frames @ drop ?off fs) @ new,
           ?t\<lparr>tm_event_cursor := c, tm_event_frame_offset := off, tm_spill_nonce := spill\<rparr>)"
        "sent_upto render evs c off spill ((out @ drop ?off fs) @ new)"
        "length ((frames @ drop ?off fs) @ new) \<le> cap" "c = length evs \<or> length ((frames @ drop ?off fs) @ new) = cap"
        using Cons.IH [of ?t "out @ drop ?off fs" "frames @ drop ?off fs"] fits rest by auto
      then show ?thesis
        by (intro exI [of _ c] exI [of _ off] exI [of _ spill] exI [of _ "drop ?off fs @ new"]) simp
    next
      case False
      then have k: "?k = ?room" "0 < ?room" "?off + ?room < length fs" using \<open>?room \<noteq> 0\<close> by auto
      have "burst_loop render cap nonce (ev # rest) frames t = ret (frames @ take ?room (drop ?off fs),
          t\<lparr>tm_event_frame_offset := ?off + ?room, tm_spill_nonce := Some n\<rparr>)"
        using False part r k by (simp add: Let_def n [symmetric])
      moreover have "length (frames @ take ?room (drop ?off fs)) = cap"
        using k by simp
      ultimately show ?thesis using step(1) [of ?room] k
        by (intro exI [of _ ?c] exI [of _ "?off + ?room"] exI [of _ "Some n"] exI [of _ "take ?room (drop ?off fs)"]) simp
    qed
  qed
qed

end

interpretation scen: event_renderer "render_event N crc e s vuln" "frame_count s" for N crc e s vuln
  by unfold_locales (rule render_event_makes)

section \<open>Phases\<close>

text \<open>Successive bursts, one nonce each: what they send and the engine after them.\<close>

fun run_bursts :: "(u64 \<Rightarrow> 'e \<Rightarrow> (bytes list \<times> 'e) exec) \<Rightarrow> u64 list \<Rightarrow> 'e \<Rightarrow> (bytes list list \<times> 'e) exec" where
  "run_bursts step [] e = ret ([], e)"
| "run_bursts step (n # ns) e = do {
     (b, e) \<leftarrow> step n e;
     (bs, e) \<leftarrow> run_bursts step ns e;
     ret (b # bs, e)
   }"

lemma run_bursts_append:
  "run_bursts step (ns @ ms) e =
     do { (bs, e) \<leftarrow> run_bursts step ns e; (cs, e) \<leftarrow> run_bursts step ms e; ret (bs @ cs, e) }"
proof (induction ns arbitrary: e)
  case (Cons n ns)
  show ?case by (cases "step n e") (auto simp: Cons split: bind_splits)
qed (simp add: case_prod_unfold)

lemma run_bursts_snoc:
  "run_bursts step ns e = ret (bs, e') \<Longrightarrow> step n e' = ret (b, e'') \<Longrightarrow> run_bursts step (ns @ [n]) e = ret (bs @ [b], e'')"
  by (simp add: run_bursts_append)

definition phase_total :: "ledger \<Rightarrow> phase \<Rightarrow> nat" where
  "phase_total s ph = sum_list (map (frame_count s) (pa_events ph))"

definition dwell_of :: "phase \<Rightarrow> nat" where
  "dwell_of ph = unat (max (pa_dwell_runs ph) 1)"

text \<open>A phase takes at most this many bursts.\<close>

definition phase_bound :: "ledger \<Rightarrow> nat \<Rightarrow> phase \<Rightarrow> nat" where
  "phase_bound s cap ph = max (dwell_of ph) (phase_total s ph div cap + 1)"

definition at_phase_start :: "scenario_engine \<Rightarrow> bool" where
  "at_phase_start e \<longleftrightarrow> tm_event_cursor e = 0 \<and> tm_bursts_in_phase e = 0 \<and> tm_event_frame_offset e = 0
     \<and> tm_spill_nonce e = None \<and> 1 \<le> en_max_frames_per_burst e \<and> tm_phase_idx e < length (en_playbook e)"

definition engine_at :: "scenario_engine \<Rightarrow> nat \<Rightarrow> nat \<Rightarrow> nat \<Rightarrow> u64 option \<Rightarrow> scenario_engine" where
  "engine_at e c j off spill = e\<lparr>tm_event_cursor := c, tm_bursts_in_phase := word_of_nat j,
     tm_event_frame_offset := off, tm_spill_nonce := spill\<rparr>"

lemma engine_at_simps [simp]:
  "tm_event_cursor (engine_at e c j off spill) = c" "tm_event_frame_offset (engine_at e c j off spill) = off"
  "tm_spill_nonce (engine_at e c j off spill) = spill" "tm_phase_idx (engine_at e c j off spill) = tm_phase_idx e"
  "tm_bursts_in_phase (engine_at e c j off spill) = word_of_nat j"
  "en_playbook (engine_at e c j off spill) = en_playbook e"
  "en_max_frames_per_burst (engine_at e c j off spill) = en_max_frames_per_burst e"
  "render_event N crc (engine_at e c j off spill) = render_event N crc e"
  by (simp_all add: engine_at_def)

lemma engine_at_next:
  "(engine_at e c j off spill)\<lparr>tm_event_cursor := c', tm_event_frame_offset := off', tm_spill_nonce := spill',
     tm_bursts_in_phase := word_of_nat (Suc j)\<rparr> = engine_at e c' (Suc j) off' spill'"
  by (simp add: engine_at_def)

lemma advance_engine_at: "advance (engine_at e c j off spill) = advance e"
  by (simp add: advance_def engine_at_def Let_def)

lemma dwell_pos: "0 < dwell_of ph"
  by (auto simp: dwell_of_def max_def word_le_nat_alt unat_eq_0 intro: gr0I)

lemma phase_step:
  assumes "at_phase_start e" and ph: "en_playbook e ! tm_phase_idx e = ph"
    and sent: "sent_upto (render_event N crc e s vuln) (pa_events ph) c off spill out"
    and j: "Suc j < 2 ^ 64"
  shows "\<exists>c' off' spill' b. phase_frames N crc s vuln nonce (engine_at e c j off spill) =
      ret (b, if c' = length (pa_events ph) \<and> dwell_of ph \<le> Suc j then advance e
              else engine_at e c' (Suc j) off' spill')
    \<and> sent_upto (render_event N crc e s vuln) (pa_events ph) c' off' spill' (out @ b)
    \<and> length b \<le> en_max_frames_per_burst e
    \<and> (c' = length (pa_events ph) \<or> length b = en_max_frames_per_burst e)"
proof -
  let ?e = "engine_at e c j off spill"
  have rd: "rd (en_playbook ?e) (tm_phase_idx ?e) = ret ph"
    using assms(1) ph by (simp add: rd_def at_phase_start_def)
  obtain c' off' spill' b where b: "burst_loop (render_event N crc e s vuln) (en_max_frames_per_burst e) nonce
        (drop c (pa_events ph)) [] ?e =
      ret (b, ?e\<lparr>tm_event_cursor := c', tm_event_frame_offset := off', tm_spill_nonce := spill'\<rparr>)"
    "sent_upto (render_event N crc e s vuln) (pa_events ph) c' off' spill' (out @ b)"
    "length b \<le> en_max_frames_per_burst e" "c' = length (pa_events ph) \<or> length b = en_max_frames_per_burst e"
    using scen.burst [of N crc e s vuln "pa_events ph" ?e out "[]" "en_max_frames_per_burst e" "drop c (pa_events ph)" nonce] sent
    by auto
  let ?w = "word_of_nat j + 1 :: u64"
  have w: "?w = word_of_nat (Suc j)" by simp
  have "unat ?w = Suc j" unfolding w using j by (intro unat_word_of_nat) simp
  then have dwell: "max (pa_dwell_runs ph) 1 \<le> ?w \<longleftrightarrow> dwell_of ph \<le> Suc j"
    unfolding dwell_of_def word_le_nat_alt by simp
  have ends: "length (pa_events ph) \<le> c' \<and> off' = 0 \<longleftrightarrow> c' = length (pa_events ph)"
    using b(2) by (auto simp: sent_upto_def split: option.splits)
  let ?done = "length (pa_events ph) \<le> c' \<and> off' = 0 \<and> max (pa_dwell_runs ph) 1 \<le> ?w"
  have "?done \<longleftrightarrow> c' = length (pa_events ph) \<and> dwell_of ph \<le> Suc j"
    using ends dwell by blast
  moreover have "phase_frames N crc s vuln nonce ?e =
      ret (b, if ?done then advance (engine_at e c' (Suc j) off' spill') else engine_at e c' (Suc j) off' spill')"
    unfolding phase_frames_def rd engine_at_next [where e = e and c = c and j = j and off = off and spill = spill, symmetric]
    by (simp add: b(1) Let_def add.commute del: max.bounded_iff)
  ultimately have "phase_frames N crc s vuln nonce ?e =
      ret (b, if c' = length (pa_events ph) \<and> dwell_of ph \<le> Suc j then advance e
              else engine_at e c' (Suc j) off' spill')"
    by (simp only: advance_engine_at)
  with b show ?thesis by blast
qed


text \<open>After \<open>j\<close> bursts the phase is still running, having sent \<open>out\<close>.\<close>

definition running ::
  "'n net_ops \<Rightarrow> (bytes \<Rightarrow> u16) \<Rightarrow> ledger \<Rightarrow> vuln_db \<Rightarrow> scenario_engine \<Rightarrow> phase \<Rightarrow> u64 list \<Rightarrow> bytes list list \<Rightarrow> bool" where
  "running N crc s vuln e ph ns bs \<longleftrightarrow>
     (\<exists>c off spill. run_bursts (phase_frames N crc s vuln) ns e = ret (bs, engine_at e c (length ns) off spill)
       \<and> sent_upto (render_event N crc e s vuln) (pa_events ph) c off spill (concat bs)
       \<and> (\<forall>b \<in> set bs. length b \<le> en_max_frames_per_burst e)
       \<and> (c = length (pa_events ph) \<and> length ns < dwell_of ph
          \<or> c < length (pa_events ph) \<and> length (concat bs) = length ns * en_max_frames_per_burst e))"

text \<open>The phase has ended: everything was sent, and the engine has advanced.\<close>

definition played_out ::
  "'n net_ops \<Rightarrow> (bytes \<Rightarrow> u16) \<Rightarrow> ledger \<Rightarrow> vuln_db \<Rightarrow> scenario_engine \<Rightarrow> phase \<Rightarrow> u64 list \<Rightarrow> bytes list list \<Rightarrow> bool" where
  "played_out N crc s vuln e ph ns bs \<longleftrightarrow>
     run_bursts (phase_frames N crc s vuln) ns e = ret (bs, advance e)
     \<and> dwell_of ph \<le> length ns
     \<and> (\<forall>b \<in> set bs. length b \<le> en_max_frames_per_burst e)
     \<and> (\<exists>ms. length ms = length (pa_events ph) \<and> concat bs = played (render_event N crc e s vuln) (pa_events ph) ms)"

lemma engine_at_start: "at_phase_start e \<Longrightarrow> engine_at e 0 0 0 None = e"
  by (simp add: engine_at_def at_phase_start_def)

lemma running_Nil: "at_phase_start e \<Longrightarrow> running N crc s vuln e ph [] []"
  unfolding running_def using engine_at_start [of e] dwell_pos [of ph]
  by (intro exI [of _ 0] exI [of _ None]) (auto intro: Nat.gr0I)

lemma running_snoc:
  assumes "at_phase_start e" and "en_playbook e ! tm_phase_idx e = ph"
    and run: "running N crc s vuln e ph ns bs" and "Suc (length ns) < 2 ^ 64"
  shows "\<exists>b. running N crc s vuln e ph (ns @ [n]) (bs @ [b]) \<or> played_out N crc s vuln e ph (ns @ [n]) (bs @ [b])"
proof -
  let ?cap = "en_max_frames_per_burst e" and ?render = "render_event N crc e s vuln"
  obtain c off spill where r: "run_bursts (phase_frames N crc s vuln) ns e = ret (bs, engine_at e c (length ns) off spill)"
    "sent_upto ?render (pa_events ph) c off spill (concat bs)" "\<forall>b \<in> set bs. length b \<le> ?cap"
    "c = length (pa_events ph) \<and> length ns < dwell_of ph \<or> c < length (pa_events ph) \<and> length (concat bs) = length ns * ?cap"
    using run unfolding running_def by blast
  obtain c' off' spill' b where b: "phase_frames N crc s vuln n (engine_at e c (length ns) off spill) =
      ret (b, if c' = length (pa_events ph) \<and> dwell_of ph \<le> Suc (length ns) then advance e
              else engine_at e c' (Suc (length ns)) off' spill')"
    "sent_upto ?render (pa_events ph) c' off' spill' (concat bs @ b)" "length b \<le> ?cap"
    "c' = length (pa_events ph) \<or> length b = ?cap"
    using phase_step [OF assms(1,2) r(2) assms(4), of n] by blast
  show ?thesis
  proof (cases "c' = length (pa_events ph) \<and> dwell_of ph \<le> Suc (length ns)")
    case True
    then have "\<exists>ms. length ms = length (pa_events ph) \<and> concat bs @ b = played ?render (pa_events ph) ms"
      using b(2) by (auto simp: sent_upto_def split: option.splits)
    then have "played_out N crc s vuln e ph (ns @ [n]) (bs @ [b])"
      unfolding played_out_def using run_bursts_snoc [OF r(1) b(1)] True r(3) b(3) by simp
    then show ?thesis by blast
  next
    case False
    then have "run_bursts (phase_frames N crc s vuln) (ns @ [n]) e =
        ret (bs @ [b], engine_at e c' (length (ns @ [n])) off' spill')"
      using run_bursts_snoc [OF r(1) b(1)] unfolding if_not_P [OF False] by simp
    moreover have "c' = length (pa_events ph) \<and> length (ns @ [n]) < dwell_of ph \<or>
        c' < length (pa_events ph) \<and> length (concat (bs @ [b])) = length (ns @ [n]) * ?cap"
    proof (cases "c' = length (pa_events ph)")
      case True
      with False show ?thesis by simp
    next
      case ahead: False
      then have c': "c' < length (pa_events ph)" "length b = ?cap"
        using b(2,4) by (auto simp: sent_upto_def)
      have "c \<noteq> length (pa_events ph)"
      proof
        assume "c = length (pa_events ph)"
        then have "length (concat bs) = phase_total s ph"
          using scen.sent_upto_all r(2) by (fastforce simp: phase_total_def)
        moreover have "length (concat bs @ b) \<le> phase_total s ph"
          unfolding phase_total_def by (rule scen.sent_upto_bound [OF b(2)])
        moreover have "1 \<le> ?cap" using assms(1) by (simp add: at_phase_start_def)
        ultimately show False using c'(2) by simp
      qed
      then show ?thesis using r(4) c' by simp
    qed
    moreover have "\<forall>b \<in> set (bs @ [b]). length b \<le> ?cap" using r(3) b(3) by simp
    ultimately have "running N crc s vuln e ph (ns @ [n]) (bs @ [b])"
      unfolding running_def using b(2) by auto
    then show ?thesis by blast
  qed
qed


lemma running_bounded:
  assumes "at_phase_start e" and run: "running N crc s vuln e ph ns bs"
  shows "length ns < phase_bound s (en_max_frames_per_burst e) ph"
proof -
  let ?cap = "en_max_frames_per_burst e"
  have cap: "0 < ?cap" using assms(1) by (simp add: at_phase_start_def)
  obtain c off spill where "sent_upto (render_event N crc e s vuln) (pa_events ph) c off spill (concat bs)"
    "length ns < dwell_of ph \<or> length (concat bs) = length ns * ?cap"
    using run unfolding running_def by blast
  then have "length ns < dwell_of ph \<or> length ns * ?cap \<le> phase_total s ph"
    using scen.sent_upto_bound by (fastforce simp: phase_total_def)
  then show ?thesis
    unfolding phase_bound_def using div_le_mono [of "length ns * ?cap" "phase_total s ph" ?cap] cap by auto
qed

text \<open>From its start a phase runs, and ends within its bound, whatever the nonces.\<close>

lemma phase_plays_out:
  assumes "at_phase_start e" and ph: "en_playbook e ! tm_phase_idx e = ph"
    and bound: "phase_bound s (en_max_frames_per_burst e) ph \<le> length ns" "phase_bound s (en_max_frames_per_burst e) ph < 2 ^ 64"
  shows "\<exists>k bs. k \<le> phase_bound s (en_max_frames_per_burst e) ph \<and> played_out N crc s vuln e ph (take k ns) bs
    \<and> (\<forall>i < k. \<exists>bs. running N crc s vuln e ph (take i ns) bs)"
proof -
  let ?B = "phase_bound s (en_max_frames_per_burst e) ph"
  let ?run = "\<lambda>i. \<exists>bs. running N crc s vuln e ph (take i ns) bs"
  have stop: "\<not> ?run ?B"
    using running_bounded [OF assms(1), of N crc s vuln ph "take ?B ns"] bound(1) by auto
  then obtain k where k: "\<not> ?run k" "k \<le> ?B" "\<forall>i < k. ?run i"
    using exists_least_iff [of "\<lambda>i. \<not> ?run i"] by (metis leI)
  have "?run 0" using running_Nil [OF assms(1), of N crc s vuln ph] by auto
  with k(1) obtain i where i: "k = Suc i" by (cases k) auto
  with k obtain bs where run: "running N crc s vuln e ph (take i ns) bs" by auto
  have ns: "take k ns = take i ns @ [ns ! i]" "length (take i ns) = i"
    using i k(2) bound(1) by (simp_all add: take_Suc_conv_app_nth)
  obtain b where "played_out N crc s vuln e ph (take k ns) (bs @ [b])"
    using running_snoc [OF assms(1) ph run, of "ns ! i"] k(1,2) i bound(2) unfolding ns by auto
  with k(2,3) show ?thesis by blast
qed


section \<open>Campaigns\<close>

lemma at_phase_start_idx:
  "at_phase_start e \<Longrightarrow> i < length (en_playbook e) \<Longrightarrow> at_phase_start (e\<lparr>tm_phase_idx := i\<rparr>)"
  by (simp add: at_phase_start_def)

lemma advance_start:
  "at_phase_start e \<Longrightarrow> advance e =
     (if Suc (tm_phase_idx e) < length (en_playbook e) then e\<lparr>tm_phase_idx := Suc (tm_phase_idx e)\<rparr>
      else if en_campaign e = Loop then e\<lparr>tm_phase_idx := 0\<rparr> else e)"
  by (auto simp: advance_def at_phase_start_def Let_def)

text \<open>Every phase of the playbook is reached, within the bounds of the phases before it.\<close>

lemma campaign_reaches:
  assumes "at_phase_start e" and "tm_phase_idx e = 0"
    and "\<And>j. j < length (en_playbook e) \<Longrightarrow> phase_bound s (en_max_frames_per_burst e) (en_playbook e ! j) < 2 ^ 64"
    and "i < length (en_playbook e)"
    and "(\<Sum>j<i. phase_bound s (en_max_frames_per_burst e) (en_playbook e ! j)) \<le> length ns"
  shows "\<exists>k bs. k \<le> (\<Sum>j<i. phase_bound s (en_max_frames_per_burst e) (en_playbook e ! j)) \<and>
    run_bursts (phase_frames N crc s vuln) (take k ns) e = ret (bs, e\<lparr>tm_phase_idx := i\<rparr>)"
  using assms(4,5)
proof (induction i)
  case 0
  have "e\<lparr>tm_phase_idx := 0\<rparr> = e" using assms(2) by simp
  then show ?case by simp
next
  case (Suc i)
  let ?bound = "\<lambda>j. phase_bound s (en_max_frames_per_burst e) (en_playbook e ! j)"
  obtain k bs where k: "k \<le> (\<Sum>j<i. ?bound j)"
    "run_bursts (phase_frames N crc s vuln) (take k ns) e = ret (bs, e\<lparr>tm_phase_idx := i\<rparr>)"
    using Suc by auto
  let ?e = "e\<lparr>tm_phase_idx := i\<rparr>"
  have start: "at_phase_start ?e" using assms(1) Suc.prems(1) by (simp add: at_phase_start_idx)
  have "\<exists>k' bs'. k' \<le> ?bound i \<and> played_out N crc s vuln ?e (en_playbook e ! i) (take k' (drop k ns)) bs'"
    using phase_plays_out [OF start refl, of s "drop k ns" N crc vuln] assms(3) [of i] Suc.prems k(1)
    by (fastforce simp: le_diff_conv2)
  then obtain k' bs' where k': "k' \<le> ?bound i"
    "run_bursts (phase_frames N crc s vuln) (take k' (drop k ns)) ?e = ret (bs', advance ?e)"
    unfolding played_out_def by blast
  have "advance ?e = e\<lparr>tm_phase_idx := Suc i\<rparr>"
    using advance_start [OF start] Suc.prems(1) by simp
  then have "run_bursts (phase_frames N crc s vuln) (take (k + k') ns) e = ret (bs @ bs', e\<lparr>tm_phase_idx := Suc i\<rparr>)"
    using k(2) k'(2) by (simp add: take_add run_bursts_append)
  moreover have "k + k' \<le> (\<Sum>j<Suc i. ?bound j)" using k(1) k'(1) by simp
  ultimately show ?case by blast
qed

section \<open>Loading and validation\<close>

lemma check_payloads_None:
  "check_payloads evs = None \<longleftrightarrow> (\<forall>ev \<in> set evs. \<forall>h. ev_payload_hex ev = Some h \<longrightarrow> (\<exists>b. decode_hex_strict h = Inr b))"
  by (induction evs) (auto split: option.splits sum.splits)

lemma scenario_load_start:
  assumes "scenario_load target parsed seed = Inr e"
  shows "at_phase_start e" "tm_phase_idx e = 0" "parsed = Some (en_playbook e)" "en_seed e = seed"
    "\<forall>ph \<in> set (en_playbook e). \<forall>ev \<in> set (pa_events ph). \<forall>h. ev_payload_hex ev = Some h \<longrightarrow> (\<exists>b. decode_hex_strict h = Inr b)"
proof -
  obtain phases where p: "parsed = Some phases" "phases \<noteq> []" "check_payloads (concat (map pa_events phases)) = None"
    using assms by (auto simp: scenario_load_def playbook_parse_def split: option.splits if_splits)
  then have e: "en_playbook e = phases" "at_phase_start e" "tm_phase_idx e = 0" "en_seed e = seed"
    using assms by (auto simp: scenario_load_def playbook_parse_def at_phase_start_def)
  with p show "at_phase_start e" "tm_phase_idx e = 0" "parsed = Some (en_playbook e)" "en_seed e = seed"
    "\<forall>ph \<in> set (en_playbook e). \<forall>ev \<in> set (pa_events ph). \<forall>h. ev_payload_hex ev = Some h \<longrightarrow> (\<exists>b. decode_hex_strict h = Inr b)"
    by (simp_all add: check_payloads_None)
qed

lemma check_targets_None:
  "check_targets s ph i evs = None \<longleftrightarrow>
     (\<forall>ev \<in> set evs. resolve s (ev_target ev) \<noteq> None \<or> ev_target ev = None \<and> ev_emit ev = C2Beacon)"
  by (induction evs arbitrary: i) (auto simp: resolve_def split: option.splits)

lemma check_phases_None:
  "check_phases s phs = None \<longleftrightarrow> (\<forall>ph \<in> set phs. check_targets s (pa_id ph) 0 (pa_events ph) = None)"
  by (induction phs) (auto split: option.splits)

lemma validate_targets_ok:
  "validate_targets e s = Inr () \<longleftrightarrow>
     (\<forall>ph \<in> set (en_playbook e). \<forall>ev \<in> set (pa_events ph).
        resolve s (ev_target ev) \<noteq> None \<or> ev_target ev = None \<and> ev_emit ev = C2Beacon)"
proof -
  have "validate_targets e s = Inr () \<longleftrightarrow> check_phases s (en_playbook e) = None"
    by (simp add: validate_targets_def split: option.splits)
  then show ?thesis unfolding check_phases_None check_targets_None .
qed

lemma kind_frames_pos: "2 \<le> kind_frames ev"
  by (simp add: kind_frames_def split: emit_kind.split)

lemma resolve_in: "resolve s t = Some d \<Longrightarrow> d \<in> set (lg_devices s)"
  by (auto simp: resolve_def or_else_def match_field_def find_device_def find_Some_iff in_set_conv_nth
      split: option.splits)

text \<open>
  A validated playbook on a plant that has a device, with device addresses that parse: no event is silent.
\<close>

lemma validated_events_emit:
  assumes "validate_targets e s = Inr ()" and "lg_devices s \<noteq> []"
    and "\<forall>d \<in> set (lg_devices s). ipv4_from_str (dr_ip d) \<noteq> None"
    and "ph \<in> set (en_playbook e)" and "ev \<in> set (pa_events ph)"
  shows "2 \<le> frame_count s ev"
proof -
  have "resolve s (ev_target ev) \<noteq> None \<or> ev_emit ev = C2Beacon"
    using assms(1,4,5) unfolding validate_targets_ok by blast
  then obtain d where d: "acts_on s ev = Some d" "d \<in> set (lg_devices s)"
    using assms(2) resolve_in [of s "ev_target ev"]
    by (cases "resolve s (ev_target ev)"; cases "lg_devices s") (auto simp: acts_on_def or_else_def)
  then have "endpoint d \<noteq> None" using assms(3) by (simp add: endpoint_def)
  with d show ?thesis by (simp add: frame_count_def kind_frames_pos)
qed

section \<open>Payload text\<close>

lemma hex_nibbles_separators: "hex_nibbles (filter (\<lambda>c. \<not> is_separator c) s) = hex_nibbles s"
  by (induction s) (auto split: option.splits)

lemma hex_digit_not_separator: "n < 16 \<Longrightarrow> \<not> is_separator (hex_digit n)"
proof -
  assume n: "n < 16"
  have "of_char c < (48 :: nat) \<or> of_char c = (58 :: nat) \<or> of_char c = (95 :: nat)" if "is_separator c" for c
    using that by (auto simp: is_separator_def)
  from this [of "hex_digit n"] show ?thesis using of_char_hex_digit [OF n] n by (auto split: if_splits)
qed

lemma hex_nibbles_hex2:
  "hex_nibbles (concat (map hex2 bs)) = Inr (concat (map (\<lambda>b. [unat b div 16, unat b mod 16]) bs))"
proof (induction bs)
  case (Cons b bs)
  have "unat b div 16 < 16" using unat_u8_lt [of b] by linarith
  then show ?case using Cons by (simp add: hex2_def hex_digit_not_separator)
qed simp

lemma nibbles_byte: "push_bit 4 (word_of_nat (unat b div 16)) OR word_of_nat (unat b mod 16) = (b :: u8)"
proof -
  have "push_bit 4 (drop_bit 4 b) OR take_bit 4 b = b"
    by (rule bit_word_eqI) (auto simp: bit_simps)
  moreover have "unat b div 16 < 256" using unat_u8_lt [of b] by linarith
  moreover from this have "word_of_nat (unat b div 16) = drop_bit 4 b"
    by (intro word_unat_eq_iff [THEN iffD2]) (simp add: unat_drop_bit_eq drop_bit_eq_div unat_of_nat unat_div)
  moreover have "word_of_nat (unat b mod 16) = take_bit 4 b"
    by (rule word_unat_eq_iff [THEN iffD2]) (simp add: take_bit_eq_mod unat_of_nat unat_mod)
  ultimately show ?thesis by simp
qed

lemma pair_nibbles_split: "pair_nibbles (concat (map (\<lambda>b. [unat b div 16, unat b mod 16]) bs)) = bs"
  by (induction bs) (simp_all add: nibbles_byte)

text \<open>The text of a payload reads back, whatever separators it is written with.\<close>

lemma decode_hex_roundtrip:
  assumes "filter (\<lambda>c. \<not> is_separator c) s = concat (map hex2 bs)"
  shows "decode_hex_strict s = Inr bs"
proof -
  have "hex_nibbles s = Inr (concat (map (\<lambda>b. [unat b div 16, unat b mod 16]) bs))"
    using hex_nibbles_separators [of s] unfolding assms hex_nibbles_hex2 by simp
  moreover have "length (concat (map (\<lambda>b. [unat b div 16, unat b mod 16]) bs)) = 2 * length bs"
    by (induction bs) simp_all
  ultimately show ?thesis
    by (simp add: decode_hex_strict_def pair_nibbles_split)
qed

end
