(* ===== verification/Threat.thy ===== *)
theory Threat
  imports Remap Ledger Oui Mapper
begin

text \<open>
  \<open>src/threat/mod.rs\<close>: the scheduler of external-threat promotions with its floor of one day, and the promotion
  of an internal host of a capture to an external actor.  Random draws are the parameters \<open>gen\<close>
  (\<open>gen_range(lo..=hi)\<close>), \<open>below\<close> (\<open>gen_range(0..n)\<close>) and \<open>byte\<close> (\<open>rng.gen::<u8>()\<close>).
\<close>

section \<open>Code: the scheduler\<close>

definition THREAT_FLOOR_SECS :: u64 where "THREAT_FLOOR_SECS = 86400"

record threat_scheduler =
  sd_min :: u64
  sd_max :: u64
  sd_next_due :: u64

definition saturating_add64 :: "u64 \<Rightarrow> u64 \<Rightarrow> u64" where
  "saturating_add64 a b = (if unat a + unat b < 2 ^ 64 then a + b else 0xFFFFFFFFFFFFFFFF)"

definition threat_schedule :: "'r gen \<Rightarrow> u64 \<Rightarrow> threat_scheduler \<times> 'r \<Rightarrow> threat_scheduler \<times> 'r" where
  "threat_schedule gen anchor = (\<lambda>(s, r).
     let span = sd_max s - sd_min s;
         (draw, r) = (if span = 0 then (0, r) else gen r 0 span)
     in (s\<lparr>sd_next_due := saturating_add64 anchor (sd_min s + draw)\<rparr>, r))"

definition threat_new :: "'r gen \<Rightarrow> u64 \<Rightarrow> u64 \<Rightarrow> u64 option \<Rightarrow> u64 \<Rightarrow> 'r \<Rightarrow> threat_scheduler \<times> 'r" where
  "threat_new gen min_interval max_interval last_threat now r =
     (let mn = max min_interval THREAT_FLOOR_SECS;
          mx = max max_interval mn
      in threat_schedule gen (case last_threat of Some t \<Rightarrow> t | None \<Rightarrow> now)
           (\<lparr>sd_min = mn, sd_max = mx, sd_next_due = 0\<rparr>, r))"

definition threat_due :: "threat_scheduler \<Rightarrow> u64 \<Rightarrow> bool" where
  "threat_due s now \<longleftrightarrow> sd_next_due s \<le> now"

section \<open>Code: the promotion\<close>

definition FALLBACK_DESKTOP_OUI :: bytes where "FALLBACK_DESKTOP_OUI = [0x00, 0x50, 0x56]"

definition is_unicast :: "ipv4 \<Rightarrow> bool" where
  "is_unicast a = (octet0 a \<noteq> 0 \<and> octet0 a \<noteq> 127 \<and> octet0 a < 224)"

definition threat_public_unicast :: "ipv4 \<Rightarrow> bool" where
  "threat_public_unicast a =
     (octet0 a \<noteq> 0 \<and> octet0 a \<noteq> 127 \<and> octet0 a < 224 \<and> \<not> is_private a \<and> \<not> is_link_local a)"

fun pick_external :: "'n net_ops \<Rightarrow> 'r below \<Rightarrow> string list \<Rightarrow> 'r \<Rightarrow> ipv4 option \<times> 'r" where
  "pick_external N below [] r = (None, r)"
| "pick_external N below (c # cs) r =
     (case no_parse N c of
        None \<Rightarrow> pick_external N below cs r
      | Some net \<Rightarrow>
          let hosts = take 1024 (filter threat_public_unicast (no_hosts N net))
          in if hosts = [] then pick_external N below cs r
             else let (i, r) = below r (word_of_nat (length hosts)) in (Some (hosts ! unat i), r))"

text \<open>What the first loop collects: hosts and desktop prefixes, each once, in the order of appearance.\<close>

definition push_new :: "'a \<Rightarrow> 'a list \<Rightarrow> 'a list" where
  "push_new x xs = (if x \<in> set xs then xs else xs @ [x])"

definition harvest_packet ::
  "oui_db \<Rightarrow> bytes \<Rightarrow> ipv4 list \<times> bytes list \<Rightarrow> (ipv4 list \<times> bytes list) exec" where
  "harvest_packet oui data = (\<lambda>(hosts, ouis). do {
     r \<leftarrow> parse_layout data;
     case r of
       None \<Rightarrow> ret (hosts, ouis)
     | Some l \<Rightarrow>
         if fl_l3_kind l \<noteq> L3_Ipv4 \<or> length data < fl_l3 l + 20 then ret (hosts, ouis)
         else do {
           src \<leftarrow> rd_be32 data (fl_l3 l + 12);
           let hosts = (if is_private src \<and> is_unicast src then push_new src hosts else hosts);
           if 12 \<le> length data then do {
             a \<leftarrow> rd data 6; b \<leftarrow> rd data 7; c \<leftarrow> rd data 8;
             ret (hosts, if vendor_of_prefix oui [a, b, c] = None then push_new [a, b, c] ouis else ouis)
           } else ret (hosts, ouis)
         }
   })"

text \<open>The second loop on one packet: its two conditionals, and its body.\<close>

definition promote_src :: "ipv4 \<Rightarrow> ipv4 \<Rightarrow> mac \<Rightarrow> parsed_frame \<Rightarrow> (parsed_frame \<times> bool) exec" where
  "promote_src host external mac f = do {
     s \<leftarrow> ipv4_src f;
     if s = Some (octets host) then do {
       f \<leftarrow> set_ipv4_src f (octets external);
       f \<leftarrow> set_src_mac f mac;
       ret (f, True)
     } else ret (f, False)
   }"

definition promote_dst :: "ipv4 \<Rightarrow> ipv4 \<Rightarrow> parsed_frame \<Rightarrow> (parsed_frame \<times> bool) exec" where
  "promote_dst host external f = do {
     d \<leftarrow> ipv4_dst f;
     if d = Some (octets host) then do { f \<leftarrow> set_ipv4_dst f (octets external); ret (f, True) }
     else ret (f, False)
   }"

definition promote_packet :: "ipv4 \<Rightarrow> ipv4 \<Rightarrow> mac \<Rightarrow> bytes \<Rightarrow> bytes exec" where
  "promote_packet host external mac data = do {
     r \<leftarrow> pf_parse data;
     case r of
       None \<Rightarrow> ret data
     | Some f \<Rightarrow> do {
         (f, is_src) \<leftarrow> promote_src host external mac f;
         (f, is_dst) \<leftarrow> promote_dst host external f;
         f \<leftarrow> (if is_src \<or> is_dst then pf_recompute f else ret f);
         ret (pf_buf f)
       }
   }"

definition promote_host ::
  "'n net_ops \<Rightarrow> 'r below \<Rightarrow> ('r \<Rightarrow> u8 \<times> 'r) \<Rightarrow> 'h capture \<Rightarrow> string list \<Rightarrow> oui_db \<Rightarrow> u64 \<Rightarrow> 'r
    \<Rightarrow> ('h capture \<times> promoted_host option \<times> 'r) exec" where
  "promote_host N below byte cap external_cidrs oui now r = do {
     (hosts, ouis) \<leftarrow> fold_exec (\<lambda>p. harvest_packet oui (pk_data p)) (cap_packets cap) ([], []);
     if hosts = [] then ret (cap, None, r)
     else do {
       let (i, r) = below r (word_of_nat (length hosts));
       host \<leftarrow> rd hosts (unat i);
       let (external, r) = pick_external N below external_cidrs r;
       case external of
         None \<Rightarrow> ret (cap, None, r)
       | Some external \<Rightarrow> do {
           (oui3, r) \<leftarrow> (if ouis = [] then ret (FALLBACK_DESKTOP_OUI, r)
             else do { let (j, r) = below r (word_of_nat (length ouis)); o3 \<leftarrow> rd ouis (unat j); ret (o3, r) });
           let (b0, r) = byte r;
           let (b1, r) = byte r;
           let (b2, r) = byte r;
           let mac = oui3 @ [b0, b1, b2];
           ps \<leftarrow> map_exec (\<lambda>p. do { d \<leftarrow> promote_packet host external mac (pk_data p); ret (p\<lparr>pk_data := d\<rparr>) })
             (cap_packets cap);
           ret (cap\<lparr>cap_packets := ps\<rparr>,
             Some \<lparr>ph_original_ip = show_ipv4 host, ph_external_ip = show_ipv4 external, ph_mac = fmt_mac mac,
                   ph_promoted_unix = now\<rparr>, r)
         }
     }
   }"

section \<open>The floor\<close>

lemma unat_saturating_add64: "unat (saturating_add64 a b) = min (unat a + unat b) (2 ^ 64 - 1)"
proof (cases "unat a + unat b < 2 ^ 64")
  case True
  then have "unat (a + b) = unat a + unat b"
    by (simp add: unat_word_ariths)
  with True show ?thesis by (simp add: saturating_add64_def)
next
  case False
  then show ?thesis by (simp add: saturating_add64_def)
qed

definition sched_ok :: "threat_scheduler \<Rightarrow> bool" where
  "sched_ok s \<longleftrightarrow> THREAT_FLOOR_SECS \<le> sd_min s \<and> sd_min s \<le> sd_max s"

lemma threat_schedule_due:
  assumes "gen_ok gen" and "sched_ok s" and "threat_schedule gen anchor (s, r) = (s', r')"
  shows "sched_ok s'" "min (unat anchor + 86400) (2 ^ 64 - 1) \<le> unat (sd_next_due s')"
    "unat (sd_next_due s') \<le> unat anchor + unat (sd_max s)"
proof -
  obtain d where d: "s' = s\<lparr>sd_next_due := saturating_add64 anchor (sd_min s + d)\<rparr>" "d \<le> sd_max s - sd_min s"
  proof (cases "sd_max s - sd_min s = 0")
    case True
    then show thesis using assms(3) by (intro that [of 0]) (simp_all add: threat_schedule_def)
  next
    case False
    have "fst (gen r 0 (sd_max s - sd_min s)) \<le> sd_max s - sd_min s"
      using assms(1) by (simp add: gen_ok_def)
    then show thesis
      using assms(3) False by (intro that) (auto simp: threat_schedule_def Let_def split: prod.splits)
  qed
  then show "sched_ok s'" using assms(2) by (simp add: sched_ok_def)
  have le: "sd_min s \<le> sd_max s" "86400 \<le> unat (sd_min s)"
    using assms(2) by (simp_all add: sched_ok_def THREAT_FLOOR_SECS_def word_le_nat_alt)
  then have "unat d \<le> unat (sd_max s) - unat (sd_min s)"
    using d(2) by (simp add: word_le_nat_alt unat_sub)
  then have sum: "unat (sd_min s + d) = unat (sd_min s) + unat d" "unat (sd_min s) + unat d \<le> unat (sd_max s)"
    using le(1) unsigned_less [of "sd_max s", where 'a = nat] by (simp_all add: word_le_nat_alt unat_word_ariths)
  with le show "min (unat anchor + 86400) (2 ^ 64 - 1) \<le> unat (sd_next_due s')"
    "unat (sd_next_due s') \<le> unat anchor + unat (sd_max s)"
    by (simp_all add: d(1) unat_saturating_add64)
qed

lemma sched_new_ok: "sched_ok \<lparr>sd_min = max mi THREAT_FLOOR_SECS, sd_max = max ma (max mi THREAT_FLOOR_SECS), sd_next_due = n\<rparr>"
  by (simp add: sched_ok_def)

section \<open>The promotion\<close>

lemma threat_public: "threat_public_unicast a \<longleftrightarrow> is_public_unicast a"
  by (auto simp: threat_public_unicast_def is_public_unicast_def is_loopback_def Let_def)

lemma pick_external_public:
  "below_ok below \<Longrightarrow> pick_external N below cs r = (Some a, r') \<Longrightarrow>
     is_public_unicast a \<and> (\<exists>c \<in> set cs. \<exists>n. no_parse N c = Some n \<and> a \<in> set (no_hosts N n))"
proof (induction cs)
  case (Cons c cs)
  show ?case
  proof (cases "no_parse N c")
    case None
    with Cons show ?thesis by auto
  next
    case (Some n)
    let ?hosts = "take 1024 (filter threat_public_unicast (no_hosts N n))"
    show ?thesis
    proof (cases "?hosts = []")
      case True
      with Some Cons show ?thesis by (auto simp: Let_def)
    next
      case False
      obtain i r1 where i: "below r (word_of_nat (length ?hosts)) = (i, r1)" by fastforce
      have len: "0 < length ?hosts" "length ?hosts \<le> 1024" using False by auto
      then have n: "unat (word_of_nat (length ?hosts) :: u64) = length ?hosts"
        by (intro unat_word_of_nat) simp
      have "i < word_of_nat (length ?hosts)"
        using Cons.prems(1) i n len unfolding below_ok_def by (metis fst_conv unat_0 less_irrefl word_gt_0)
      then have "unat i < length ?hosts" using n by (simp add: word_less_nat_alt)
      moreover have "a = ?hosts ! unat i"
        using Cons.prems(2) Some False i by (simp add: Let_def)
      ultimately have "a \<in> set ?hosts" using nth_mem by blast
      then have "a \<in> set (no_hosts N n)" "threat_public_unicast a"
        by (auto dest!: in_set_takeD)
      with Some show ?thesis by (auto simp: threat_public)
    qed
  qed
qed simp

text \<open>The sender of an IPv4 frame.\<close>

definition sender_of :: "bytes \<Rightarrow> ipv4 option" where
  "sender_of d =
     (case parse_layout d of
        Some (Some l) \<Rightarrow> if fl_l3_kind l = L3_Ipv4 then Some (word32_at d (fl_l3 l + 12)) else None
      | _ \<Rightarrow> None)"

lemma sender_of_length: "sender_of d = Some a \<Longrightarrow> 14 \<le> length d"
  using parse_layout_ok [of d] by (auto simp: sender_of_def layout_ok_def split: option.splits if_splits)

lemma private_unicast: "is_private a \<Longrightarrow> is_unicast a"
  by (auto simp: is_private_def is_unicast_def Let_def)

lemma harvest_total:
  "\<exists>hosts' ouis'. harvest_packet oui data (hosts, ouis) = ret (hosts', ouis')
     \<and> set hosts' = set hosts \<union> {a. sender_of data = Some a \<and> is_private a}
     \<and> set ouis' = set ouis \<union> {x. x = take 3 (drop 6 data) \<and> sender_of data \<noteq> None \<and> vendor_of_prefix oui x = None}
     \<and> length hosts' \<le> Suc (length hosts) \<and> length ouis' \<le> Suc (length ouis)"
proof -
  obtain r where r: "parse_layout data = ret r" using parse_layout_total [of data] by auto
  show ?thesis
  proof (cases "\<exists>l. r = Some l \<and> fl_l3_kind l = L3_Ipv4")
    case False
    then have "harvest_packet oui data (hosts, ouis) = ret (hosts, ouis)" "sender_of data = None"
      using r by (auto simp: harvest_packet_def sender_of_def split: option.splits)
    then show ?thesis by simp
  next
    case True
    then obtain l where l: "parse_layout data = ret (Some l)" "fl_l3_kind l = L3_Ipv4" using r by blast
    note lo = layout_ok_ipv4D [OF parse_layout_ok [OF l(1)] l(2)]
    have n: "fl_l3 l + 20 \<le> length data" "14 \<le> length data" using lo(1,10) by simp_all
    let ?a = "word32_at data (fl_l3 l + 12)" and ?x = "[data ! 6, data ! 7, data ! 8]"
    have x: "take 3 (drop 6 data) = ?x"
      using n(2) by (simp add: take_Suc_conv_app_nth numeral_eq_Suc)
    have "harvest_packet oui data (hosts, ouis) =
        ret (if is_private ?a then push_new ?a hosts else hosts,
             if vendor_of_prefix oui ?x = None then push_new ?x ouis else ouis)"
      using l n by (simp add: harvest_packet_def private_unicast rd_be32_ok rd_ok)
    moreover have "sender_of data = Some ?a" using l by (simp add: sender_of_def)
    ultimately show ?thesis using n(2) by (auto simp: x push_new_def)
  qed
qed

lemma window_agree:
  "agree_on A b b' \<Longrightarrow> {i..<i + n} \<subseteq> A \<Longrightarrow> i + n \<le> length b \<Longrightarrow> take n (drop i b') = take n (drop i b)"
  by (rule nth_equalityI) (auto simp: agree_on_def subset_iff)

lemma promote_packet_other:
  "pf_parse d = ret None \<or> (\<exists>f. pf_parse d = ret (Some f) \<and> \<not> is_ipv4 f) \<Longrightarrow> promote_packet host ext m d = ret d"
  by (auto simp: promote_packet_def promote_src_def promote_dst_def ipv4_src_def ipv4_dst_def pf_parse_ok)

lemma octets_eq: "octets w = [a, b, c, d] \<longleftrightarrow> w = be32 a b c d"
proof
  assume "octets w = [a, b, c, d]"
  then have "be32 a b c d = be32 (ucast (drop_bit 24 w)) (ucast (drop_bit 16 w)) (ucast (drop_bit 8 w)) (ucast w)"
    by (simp add: octets_def to_be32_def)
  then show "w = be32 a b c d" by (simp only: be32_to_be32)
qed (simp add: octets_def)

lemma length_4_cases: "length xs = 4 \<Longrightarrow> \<exists>a b c d. xs = [a, b, c, d]"
  by (auto simp: length_Suc_conv numeral_eq_Suc)

lemma octets_window:
  assumes "i + 4 \<le> length buf"
  shows "take 4 (drop i buf) = octets w \<longleftrightarrow> word32_at buf i = w"
proof -
  have "length (take 4 (drop i buf)) = 4" using assms by simp
  then obtain a b c d where x: "take 4 (drop i buf) = [a, b, c, d]"
    using length_4_cases by blast
  then have "word32_at buf i = be32 a b c d"
    unfolding from_be32_window [OF assms, symmetric] by (simp add: from_be32_def)
  with x octets_eq [of w a b c d] show ?thesis by auto
qed

lemma promote_src_eq:
  assumes "pf_ok f" "is_ipv4 f"
  shows "promote_src host ext m f = do {
     (f, ns) \<leftarrow> remap_src [host \<mapsto> ext] f;
     if ns \<noteq> None then do { f \<leftarrow> set_src_mac f m; ret (f, True) } else ret (f, False) }"
proof -
  let ?o = "fl_l3 (pf_layout f) + 12"
  have b: "?o + 4 \<le> length (pf_buf f)"
    using layout_ok_ipv4D(10) [OF pf_ok_layout [OF assms(1)]] assms(2) by (simp add: is_ipv4_def)
  then have s: "ipv4_src f = ret (Some (take 4 (drop ?o (pf_buf f))))"
    using assms(2) by (simp add: ipv4_src_def slice_ok)
  show ?thesis
    using b assms by (simp add: promote_src_def remap_src_def s octets_window from_be32_window set_ipv4_src_eq)
qed

lemma promote_dst_eq:
  assumes "pf_ok f" "is_ipv4 f"
  shows "promote_dst host ext f = do { (f, nd) \<leftarrow> remap_dst [host \<mapsto> ext] f; ret (f, nd \<noteq> None) }"
proof -
  let ?o = "fl_l3 (pf_layout f) + 16"
  have b: "?o + 4 \<le> length (pf_buf f)"
    using layout_ok_ipv4D(10) [OF pf_ok_layout [OF assms(1)]] assms(2) by (simp add: is_ipv4_def)
  then have d: "ipv4_dst f = ret (Some (take 4 (drop ?o (pf_buf f))))"
    using assms(2) by (simp add: ipv4_dst_def slice_ok)
  show ?thesis
    using b assms by (simp add: promote_dst_def remap_dst_def d octets_window from_be32_window set_ipv4_dst_eq)
qed

text \<open>An IPv4 frame: both addresses are moved, the sender takes the new MAC, the rest stays.\<close>

lemma promote_packet_ipv4:
  fixes host ext :: ipv4
  assumes p: "parse_layout d = ret (Some l)" and v4: "fl_l3_kind l = L3_Ipv4" and m: "length m = 6"
  defines "hm \<equiv> [host \<mapsto> ext]"
  obtains d' where "promote_packet host ext m d = ret d'" and "parse_layout d' = ret (Some l)"
    and "word32_at d' (fl_l3 l + 12) = subst hm (word32_at d (fl_l3 l + 12))"
    and "word32_at d' (fl_l3 l + 16) = subst hm (word32_at d (fl_l3 l + 16))"
    and "agree_on (- rewrite_bytes l) d d'"
    and "take 6 (drop 6 d') = (if word32_at d (fl_l3 l + 12) = host then m else take 6 (drop 6 d))" and "take 6 d' = take 6 d"
    and "l4_field_inside l \<Longrightarrow> host \<in> {word32_at d (fl_l3 l + 12), word32_at d (fl_l3 l + 16)} \<Longrightarrow>
      checksums_valid d' l = ret True"
proof -
  define f where "f = \<lparr>pf_buf = d, pf_layout = l\<rparr>"
  let ?src = "word32_at d (fl_l3 l + 12)" and ?dst = "word32_at d (fl_l3 l + 16)"
  have f: "pf_ok f" "is_ipv4 f" and pf: "pf_parse d = ret (Some f)"
    using p v4 by (simp_all add: f_def pf_ok_def is_ipv4_def pf_parse_def)
  note lo = parse_layout_ok [OF p]
  have b: "fl_l3 l + 20 \<le> length d" using layout_ok_ipv4D(10) [OF lo v4] .
  have l14: "14 \<le> fl_l3 l" using layout_ok_ipv4D(1) [OF lo v4] .
  have hm: "hm a \<noteq> None \<longleftrightarrow> a = host" for a by (simp add: hm_def)
  obtain f1 where 1: "remap_src hm f = ret (f1, hm ?src)" "pf_ok f1" "pf_layout f1 = l"
    "word32_at (pf_buf f1) (fl_l3 l + 12) = subst hm ?src" "agree_on (- {fl_l3 l + 12..<fl_l3 l + 16}) d (pf_buf f1)"
    using remap_src_ok [OF f, of hm] by (auto simp: f_def)
  obtain f2 where 2: "promote_src host ext m f = ret (f2, ?src = host)" "pf_ok f2" "pf_layout f2 = l"
    "agree_on (- {0..<12}) (pf_buf f1) (pf_buf f2)" "take 6 (drop 6 (pf_buf f2)) = (if ?src = host then m else take 6 (drop 6 (pf_buf f1)))"
    "take 6 (pf_buf f2) = take 6 (pf_buf f1)"
  proof (cases "?src = host")
    case True
    have "14 \<le> length (pf_buf f1)" using pf_ok_layout [OF 1(2)] by (simp add: layout_ok_def)
    then show thesis
      using True splice_mac_ok [OF 1(2), of 6 m] m 1(1,3)
      by (intro that [of "f1\<lparr>pf_buf := splice (pf_buf f1) 6 m\<rparr>"])
        (simp_all add: promote_src_eq [OF f] hm_def set_src_mac_def splice_def)
  next
    case False
    then show thesis
      using 1 by (intro that [of f1]) (simp_all add: promote_src_eq [OF f] hm_def)
  qed
  have len2: "length (pf_buf f2) = length d" using 1(5) 2(4) by (simp add: agree_on_def)
  have i2: "is_ipv4 f2" using 2(3) v4 by (simp add: is_ipv4_def)
  let ?dst2 = "word32_at (pf_buf f2) (fl_l3 l + 16)"
  obtain f3 where 3: "remap_dst hm f2 = ret (f3, hm ?dst2)" "pf_ok f3"
    "pf_layout f3 = l" "word32_at (pf_buf f3) (fl_l3 l + 16) = subst hm ?dst2"
    "agree_on (- {fl_l3 l + 16..<fl_l3 l + 20}) (pf_buf f2) (pf_buf f3)"
    using remap_dst_ok [OF 2(2) i2, of hm] by (auto simp: 2(3))
  then have dst: "promote_dst host ext f2 = ret (f3, ?dst2 = host)"
    by (simp add: promote_dst_eq [OF 2(2) i2] hm_def)
  have len3: "length (pf_buf f3) = length d" using 3(5) len2 by (simp add: agree_on_def)
  obtain f4 where 4: "(if ?src = host \<or> ?dst2 = host then pf_recompute f3 else ret f3) = ret f4" "pf_ok f4"
    "pf_layout f4 = l" "agree_on (- csum_bytes l) (pf_buf f3) (pf_buf f4)"
    using pf_recompute_ok [OF 3(2)] 3(2,3) by (metis agree_on_refl)
  have d2: "?dst2 = ?dst"
  proof -
    have "?dst2 = word32_at (pf_buf f1) (fl_l3 l + 16)"
      by (rule word32_at_agree [OF 2(4)]) (use b l14 1(5) in \<open>auto simp: agree_on_def\<close>)
    also have "\<dots> = ?dst" by (rule word32_at_agree [OF 1(5)]) (use b in auto)
    finally show ?thesis .
  qed
  have s4: "word32_at (pf_buf f4) (fl_l3 l + 12) = subst hm ?src"
  proof -
    have "word32_at (pf_buf f4) (fl_l3 l + 12) = word32_at (pf_buf f3) (fl_l3 l + 12)"
      by (rule word32_at_agree [OF 4(4) csum_bytes_not_addr [OF lo v4]]) (use b len3 in simp_all)
    also have "\<dots> = word32_at (pf_buf f2) (fl_l3 l + 12)"
      by (rule word32_at_agree [OF 3(5)]) (use b len2 in auto)
    also have "\<dots> = word32_at (pf_buf f1) (fl_l3 l + 12)"
      by (rule word32_at_agree [OF 2(4)]) (use b l14 1(5) in \<open>auto simp: agree_on_def\<close>)
    finally show ?thesis using 1(4) by simp
  qed
  have d4: "word32_at (pf_buf f4) (fl_l3 l + 16) = subst hm ?dst"
  proof -
    have "word32_at (pf_buf f4) (fl_l3 l + 16) = word32_at (pf_buf f3) (fl_l3 l + 16)"
      by (rule word32_at_agree [OF 4(4) csum_bytes_not_addr [OF lo v4]]) (use b len3 in simp_all)
    then show ?thesis using 3(4) d2 by simp
  qed
  have low: "take 6 (drop k (pf_buf f4)) = take 6 (drop k (pf_buf f2))" if "k + 6 \<le> 12" for k
  proof -
    have "{k..<k + 6} \<subseteq> - csum_bytes l" using layout_ok_ipv4D [OF lo v4] that
      by (auto simp: csum_bytes_def csum_off_def split: if_splits)
    then have "take 6 (drop k (pf_buf f4)) = take 6 (drop k (pf_buf f3))"
      using 4(4) len3 b that by (intro window_agree) auto
    also have "\<dots> = take 6 (drop k (pf_buf f2))"
      by (rule window_agree [OF 3(5)]) (use b len2 l14 that in auto)
    finally show ?thesis .
  qed
  have high: "take 6 (drop k (pf_buf f1)) = take 6 (drop k d)" if "k + 6 \<le> 12" for k
    by (rule window_agree [OF 1(5)]) (use b l14 that in auto)
  have m4: "take 6 (drop 6 (pf_buf f4)) = (if ?src = host then m else take 6 (drop 6 d))" "take 6 (pf_buf f4) = take 6 d"
    using low [of 6] high [of 6] low [of 0] high [of 0] 2(5,6) by simp_all
  have sub: "agree_on (- rewrite_bytes l) x y" if "agree_on (- A) x y" "A \<subseteq> rewrite_bytes l" for A x y
    using agree_on_subset [OF that(1), of "- rewrite_bytes l"] that(2) by blast
  have "agree_on (- rewrite_bytes l) d (pf_buf f2)"
    by (rule agree_on_trans [OF sub [OF 1(5)] sub [OF 2(4)]]) (auto simp: rewrite_bytes_def)
  moreover have "agree_on (- rewrite_bytes l) (pf_buf f2) (pf_buf f4)"
    by (rule agree_on_trans [OF sub [OF 3(5)] sub [OF 4(4)]]) (auto simp: rewrite_bytes_def)
  ultimately have ag: "agree_on (- rewrite_bytes l) d (pf_buf f4)" by (rule agree_on_trans)
  have ck: "checksums_valid (pf_buf f4) l = ret True" if "l4_field_inside l" "host \<in> {?src, ?dst}"
  proof -
    have "pf_recompute f3 = ret f4" using 4(1) that(2) d2 by (auto split: if_splits)
    then have "recompute_checksums (pf_buf f3) l = ret (pf_buf f4)"
      by (auto simp: pf_recompute_def 3(3))
    moreover have "parse_layout (pf_buf f3) = ret (Some l)" using 3(2,3) by (simp add: pf_ok_def)
    ultimately show ?thesis using recompute_checksums_valid [OF _ that(1), of "pf_buf f3"] by auto
  qed
  have "promote_packet host ext m d = ret (pf_buf f4)"
    using pf 2(1) dst 4(1) by (simp add: promote_packet_def)
  then show thesis
    using that 4(2,3) s4 d4 m4 ag ck by (simp add: pf_ok_def)
qed


lemma promote_packet_same:
  assumes "parse_layout d = ret (Some l)" and "fl_l3_kind l = L3_Ipv4"
    and "host \<notin> {word32_at d (fl_l3 l + 12), word32_at d (fl_l3 l + 16)}"
  shows "promote_packet host ext m d = ret d"
proof -
  define f where "f = \<lparr>pf_buf = d, pf_layout = l\<rparr>"
  have f: "pf_ok f" "is_ipv4 f" "pf_parse d = ret (Some f)"
    using assms by (simp_all add: f_def pf_ok_def is_ipv4_def pf_parse_def)
  have b: "fl_l3 l + 20 \<le> length d" using layout_ok_ipv4D(10) [OF parse_layout_ok [OF assms(1)] assms(2)] .
  then have "ipv4_src f = ret (Some (take 4 (drop (fl_l3 l + 12) d)))" "ipv4_dst f = ret (Some (take 4 (drop (fl_l3 l + 16) d)))"
    using f(2) by (simp_all add: ipv4_src_def ipv4_dst_def slice_ok f_def)
  then have "promote_src host ext m f = ret (f, False)" "promote_dst host ext f = ret (f, False)"
    using b assms(3) by (auto simp: promote_src_def promote_dst_def octets_window)
  then show ?thesis using f(3) by (simp add: promote_packet_def f_def)
qed

text \<open>
  What the promotion makes of a frame: in an IPv4 frame of the host, the host becomes the external address, the sender's MAC
  follows it and the checksums are right; every other frame stays as it is.
\<close>

definition promoted_frame :: "ipv4 \<Rightarrow> ipv4 \<Rightarrow> mac \<Rightarrow> bytes \<Rightarrow> bytes \<Rightarrow> bool" where
  "promoted_frame host ext m d d' \<longleftrightarrow>
     (case parse_layout d of
        Some (Some l) \<Rightarrow>
          let src = word32_at d (fl_l3 l + 12); dst = word32_at d (fl_l3 l + 16)
          in if fl_l3_kind l = L3_Ipv4 \<and> (src = host \<or> dst = host)
             then parse_layout d' = ret (Some l) \<and> agree_on (- rewrite_bytes l) d d' \<and>
               word32_at d' (fl_l3 l + 12) = (if src = host then ext else src) \<and>
               word32_at d' (fl_l3 l + 16) = (if dst = host then ext else dst) \<and>
               take 6 d' = take 6 d \<and> take 6 (drop 6 d') = (if src = host then m else take 6 (drop 6 d)) \<and>
               (l4_field_inside l \<longrightarrow> checksums_valid d' l = ret True)
             else d' = d
      | _ \<Rightarrow> d' = d)"

lemma promote_packet_spec:
  assumes "length m = 6" and "promote_packet host ext m d = ret d'"
  shows "promoted_frame host ext m d d'"
proof -
  obtain r where r: "parse_layout d = ret r" using parse_layout_total [of d] by auto
  show ?thesis
  proof (cases "\<exists>l. r = Some l \<and> fl_l3_kind l = L3_Ipv4")
    case False
    have "promote_packet host ext m d = ret d"
    proof (rule promote_packet_other)
      show "pf_parse d = ret None \<or> (\<exists>f. pf_parse d = ret (Some f) \<and> \<not> is_ipv4 f)"
        using r False by (cases r) (auto simp: pf_parse_def is_ipv4_def)
    qed
    then show ?thesis using assms(2) r False by (auto simp: promoted_frame_def Let_def split: option.splits)
  next
    case True
    then obtain l where l: "parse_layout d = ret (Some l)" "fl_l3_kind l = L3_Ipv4" using r by blast
    show ?thesis
    proof (cases "host \<in> {word32_at d (fl_l3 l + 12), word32_at d (fl_l3 l + 16)}")
      case False
      from promote_packet_same [OF l this, of ext m] assms(2) False l show ?thesis by (auto simp: promoted_frame_def Let_def)
    next
      case hit: True
      show ?thesis
      proof (rule promote_packet_ipv4 [OF l assms(1), of host ext])
        fix d'' assume run: "promote_packet host ext m d = ret d''" and
          d: "parse_layout d'' = ret (Some l)"
            "word32_at d'' (fl_l3 l + 12) = subst [host \<mapsto> ext] (word32_at d (fl_l3 l + 12))"
            "word32_at d'' (fl_l3 l + 16) = subst [host \<mapsto> ext] (word32_at d (fl_l3 l + 16))"
            "agree_on (- rewrite_bytes l) d d''"
            "take 6 (drop 6 d'') = (if word32_at d (fl_l3 l + 12) = host then m else take 6 (drop 6 d))" "take 6 d'' = take 6 d"
          and ck: "\<lbrakk>l4_field_inside l; host \<in> {word32_at d (fl_l3 l + 12), word32_at d (fl_l3 l + 16)}\<rbrakk> \<Longrightarrow>
            checksums_valid d'' l = ret True"
        have "d'' = d'" using run assms(2) by simp
        then show ?thesis using d ck [OF _ hit] hit l by (auto simp: promoted_frame_def Let_def subst_def)
      qed
    qed
  qed
qed

lemma promote_packet_total: "length m = 6 \<Longrightarrow> \<exists>d'. promote_packet host ext m d = ret d'"
proof -
  assume m: "length m = 6"
  obtain r where r: "pf_parse d = ret r" using pf_parse_total by blast
  show ?thesis
  proof (cases "\<exists>f. r = Some f \<and> is_ipv4 f")
    case True
    then obtain f where f: "pf_parse d = ret (Some f)" "is_ipv4 f" using r by blast
    then have "parse_layout d = ret (Some (pf_layout f))" "fl_l3_kind (pf_layout f) = L3_Ipv4"
      using pf_parse_ok [OF f(1)] by (auto simp: pf_ok_def is_ipv4_def)
    from promote_packet_ipv4 [OF this m] show ?thesis by metis
  next
    case False
    with r show ?thesis using promote_packet_other [of d] by (cases r) auto
  qed
qed

text \<open>After the promotion no IPv4 frame has the host as sender or receiver.\<close>

lemma promote_packet_gone:
  assumes "promote_packet host ext m d = ret d'" and "length m = 6" and "host \<noteq> ext"
    and "parse_layout d' = ret (Some l)" and "fl_l3_kind l = L3_Ipv4"
  shows "word32_at d' (fl_l3 l + 12) \<noteq> host \<and> word32_at d' (fl_l3 l + 16) \<noteq> host"
proof -
  obtain r where r: "pf_parse d = ret r" using pf_parse_total by blast
  have ipv4: "\<exists>f. r = Some f \<and> is_ipv4 f"
  proof (rule ccontr)
    assume no: "\<not> ?thesis"
    with r have "d' = d" using promote_packet_other [of d host ext m] assms(1) by (cases r) auto
    with assms(4,5) r no show False by (auto simp: pf_parse_def is_ipv4_def)
  qed
  then obtain f where f: "pf_parse d = ret (Some f)" "is_ipv4 f" using r by blast
  then have l: "parse_layout d = ret (Some (pf_layout f))" "fl_l3_kind (pf_layout f) = L3_Ipv4"
    using pf_parse_ok [OF f(1)] by (auto simp: pf_ok_def is_ipv4_def)
  obtain d'' where "promote_packet host ext m d = ret d''" "parse_layout d'' = ret (Some (pf_layout f))"
    "word32_at d'' (fl_l3 (pf_layout f) + 12) = subst [host \<mapsto> ext] (word32_at d (fl_l3 (pf_layout f) + 12))"
    "word32_at d'' (fl_l3 (pf_layout f) + 16) = subst [host \<mapsto> ext] (word32_at d (fl_l3 (pf_layout f) + 16))"
    using promote_packet_ipv4 [OF l assms(2)] by metis
  with assms(1,3,4) show ?thesis by (auto simp: subst_def split: option.splits if_splits)
qed

lemma harvest_fold:
  "\<exists>hosts' ouis'. fold_exec (\<lambda>p. harvest_packet oui (pk_data p)) ps (hosts, ouis) = ret (hosts', ouis')
     \<and> set hosts' = set hosts \<union> {a. \<exists>p \<in> set ps. sender_of (pk_data p) = Some a \<and> is_private a}
     \<and> set ouis' = set ouis \<union> {x. \<exists>p \<in> set ps. x = take 3 (drop 6 (pk_data p)) \<and> sender_of (pk_data p) \<noteq> None \<and>
           vendor_of_prefix oui x = None}
     \<and> length hosts' \<le> length ps + length hosts \<and> length ouis' \<le> length ps + length ouis"
proof (induction ps arbitrary: hosts ouis)
  case (Cons p ps)
  obtain h1 o1 where 1: "harvest_packet oui (pk_data p) (hosts, ouis) = ret (h1, o1)"
    "set h1 = set hosts \<union> {a. sender_of (pk_data p) = Some a \<and> is_private a}"
    "set o1 = set ouis \<union> {x. x = take 3 (drop 6 (pk_data p)) \<and> sender_of (pk_data p) \<noteq> None \<and> vendor_of_prefix oui x = None}"
    "length h1 \<le> Suc (length hosts)" "length o1 \<le> Suc (length ouis)"
    using harvest_total by blast
  obtain h2 o2 where 2: "fold_exec (\<lambda>p. harvest_packet oui (pk_data p)) ps (h1, o1) = ret (h2, o2)"
    "set h2 = set h1 \<union> {a. \<exists>p \<in> set ps. sender_of (pk_data p) = Some a \<and> is_private a}"
    "set o2 = set o1 \<union> {x. \<exists>p \<in> set ps. x = take 3 (drop 6 (pk_data p)) \<and> sender_of (pk_data p) \<noteq> None \<and>
       vendor_of_prefix oui x = None}"
    "length h2 \<le> length ps + length h1" "length o2 \<le> length ps + length o1"
    using Cons by blast
  have "fold_exec (\<lambda>p. harvest_packet oui (pk_data p)) (p # ps) (hosts, ouis) = ret (h2, o2)" using 1(1) 2(1) by simp
  moreover have "set h2 = set hosts \<union> {a. \<exists>q \<in> set (p # ps). sender_of (pk_data q) = Some a \<and> is_private a}"
    using 1(2) 2(2) by auto
  moreover have "set o2 = set ouis \<union> {x. \<exists>q \<in> set (p # ps). x = take 3 (drop 6 (pk_data q)) \<and> sender_of (pk_data q) \<noteq> None \<and>
       vendor_of_prefix oui x = None}"
    using 1(3) 2(3) by auto
  ultimately show ?case using 1(4,5) 2(4,5) by (intro exI [of _ h2] exI [of _ o2]) simp
qed simp

lemma harvest_all:
  obtains hosts ouis where "fold_exec (\<lambda>p. harvest_packet oui (pk_data p)) ps ([], []) = ret (hosts, ouis)"
    and "set hosts = {a. \<exists>p \<in> set ps. sender_of (pk_data p) = Some a \<and> is_private a}"
    and "set ouis = {x. \<exists>p \<in> set ps. x = take 3 (drop 6 (pk_data p)) \<and> sender_of (pk_data p) \<noteq> None \<and>
       vendor_of_prefix oui x = None}"
    and "length hosts \<le> length ps" and "length ouis \<le> length ps"
proof -
  have "\<exists>hosts ouis. fold_exec (\<lambda>p. harvest_packet oui (pk_data p)) ps ([], []) = ret (hosts, ouis)
     \<and> set hosts = {a. \<exists>p \<in> set ps. sender_of (pk_data p) = Some a \<and> is_private a}
     \<and> set ouis = {x. \<exists>p \<in> set ps. x = take 3 (drop 6 (pk_data p)) \<and> sender_of (pk_data p) \<noteq> None \<and>
           vendor_of_prefix oui x = None}
     \<and> length hosts \<le> length ps \<and> length ouis \<le> length ps"
    using harvest_fold [of oui ps "[]" "[]"] unfolding list.set(1) list.size(3) Un_empty_left add_0_right .
  then show thesis by (elim exE conjE) (rule that)
qed

lemma private_not_public: "is_private a \<Longrightarrow> \<not> is_public_unicast a"
  by (auto simp: is_public_unicast_def Let_def)

text \<open>A draw of an index is in range.\<close>

lemma draw_index:
  assumes "below_ok below" and "xs \<noteq> []" and "length xs < 2 ^ 64" and "below r (word_of_nat (length xs)) = (i, r')"
  shows "unat i < length xs"
proof -
  have n: "unat (word_of_nat (length xs) :: u64) = length xs" using assms(3) by (intro unat_word_of_nat) simp
  then have "0 < (word_of_nat (length xs) :: u64)" using assms(2) by (metis length_0_conv unat_0 word_gt_0)
  then have "i < word_of_nat (length xs)" using assms(1,4) unfolding below_ok_def by (metis fst_conv)
  then show ?thesis using n by (simp add: word_less_nat_alt)
qed


definition promoted_packets :: "ipv4 \<Rightarrow> ipv4 \<Rightarrow> mac \<Rightarrow> packet list \<Rightarrow> packet list \<Rightarrow> bool" where
  "promoted_packets host ext m ps ps' \<longleftrightarrow>
     list_all2 (\<lambda>p p'. p' = p\<lparr>pk_data := pk_data p'\<rparr> \<and> promote_packet host ext m (pk_data p) = ret (pk_data p')) ps ps'"

lemma promoted_packets_in:
  assumes "promoted_packets host ext m ps ps'" and "q \<in> set ps'"
  shows "\<exists>p \<in> set ps. promote_packet host ext m (pk_data p) = ret (pk_data q)"
proof -
  obtain i where i: "i < length ps'" "q = ps' ! i" using assms(2) by (auto simp: in_set_conv_nth)
  with assms(1) have "i < length ps" "promote_packet host ext m (pk_data (ps ! i)) = ret (pk_data q)"
    by (auto simp: promoted_packets_def list_all2_conv_all_nth)
  then show ?thesis using nth_mem by blast
qed

text \<open>The prefixes a promoted host may take: the unknown ones of the senders, or the fallback if there is none.\<close>

definition desktop_prefixes :: "oui_db \<Rightarrow> packet list \<Rightarrow> bytes set" where
  "desktop_prefixes oui ps =
     (let found = {x. \<exists>p \<in> set ps. x = take 3 (drop 6 (pk_data p)) \<and> sender_of (pk_data p) \<noteq> None \<and> vendor_of_prefix oui x = None}
      in if found = {} then {FALLBACK_DESKTOP_OUI} else found)"

text \<open>There is no private sender, or no range has a public host.\<close>

definition nothing_to_promote :: "'n net_ops \<Rightarrow> string list \<Rightarrow> packet list \<Rightarrow> bool" where
  "nothing_to_promote N cidrs ps \<longleftrightarrow>
     (\<forall>p \<in> set ps. \<forall>a. sender_of (pk_data p) = Some a \<longrightarrow> \<not> is_private a) \<or>
     (\<forall>c \<in> set cidrs. \<forall>n. no_parse N c = Some n \<longrightarrow> (\<forall>a \<in> set (no_hosts N n). \<not> is_public_unicast a))"

lemma pick_external_none:
  "fst (pick_external N below cs r) = None \<Longrightarrow>
     \<forall>c \<in> set cs. \<forall>n. no_parse N c = Some n \<longrightarrow> (\<forall>a \<in> set (no_hosts N n). \<not> is_public_unicast a)"
proof (induction cs)
  case (Cons c cs)
  show ?case
  proof (cases "no_parse N c")
    case None
    with Cons show ?thesis by auto
  next
    case (Some n)
    have "filter threat_public_unicast (no_hosts N n) = []"
    proof (rule ccontr)
      assume "\<not> ?thesis"
      then show False using Cons.prems Some by (simp add: Let_def split: prod.splits)
    qed
    with Cons Some show ?thesis by (auto simp: Let_def filter_empty_conv threat_public)
  qed
qed simp

lemma promoted_packets_lengths:
  assumes "promoted_packets host ext m ps ps'" and "length m = 6"
  shows "map (\<lambda>p. length (pk_data p)) ps' = map (\<lambda>p. length (pk_data p)) ps"
proof -
  have len: "length d' = length d" if "promote_packet host ext m d = ret d'" for d d'
    using promote_packet_spec [OF assms(2) that]
    by (auto simp: promoted_frame_def Let_def agree_on_def split: option.splits if_splits)
  from assms(1) show ?thesis unfolding promoted_packets_def
    by (induction rule: list_all2_induct) (auto dest: len)
qed

definition promotion ::
  "'n net_ops \<Rightarrow> oui_db \<Rightarrow> string list \<Rightarrow> u64 \<Rightarrow> 'h capture \<Rightarrow> 'h capture \<Rightarrow> promoted_host \<Rightarrow> bool" where
  "promotion N oui cidrs now cap cap' p \<longleftrightarrow>
     (\<exists>host ext m. p = \<lparr>ph_original_ip = show_ipv4 host, ph_external_ip = show_ipv4 ext, ph_mac = fmt_mac m,
           ph_promoted_unix = now\<rparr>
       \<and> (\<exists>q \<in> set (cap_packets cap). sender_of (pk_data q) = Some host) \<and> is_private host \<and> is_public_unicast ext
       \<and> (\<exists>c \<in> set cidrs. \<exists>n. no_parse N c = Some n \<and> ext \<in> set (no_hosts N n))
       \<and> length m = 6 \<and> take 3 m \<in> desktop_prefixes oui (cap_packets cap)
       \<and> cap' = cap\<lparr>cap_packets := cap_packets cap'\<rparr> \<and> promoted_packets host ext m (cap_packets cap) (cap_packets cap'))"

lemma promote_host_ok:
  assumes b: "below_ok below" and n: "length (cap_packets cap) < 2 ^ 64"
  shows "\<exists>cap' rec r'. promote_host N below byte cap cidrs oui now r = ret (cap', rec, r') \<and>
    (case rec of None \<Rightarrow> cap' = cap \<and> nothing_to_promote N cidrs (cap_packets cap) | Some p \<Rightarrow> promotion N oui cidrs now cap cap' p)"
proof -
  obtain hosts ouis where h: "fold_exec (\<lambda>p. harvest_packet oui (pk_data p)) (cap_packets cap) ([], []) = ret (hosts, ouis)"
    "set hosts = {a. \<exists>p \<in> set (cap_packets cap). sender_of (pk_data p) = Some a \<and> is_private a}"
    "set ouis = {x. \<exists>p \<in> set (cap_packets cap). x = take 3 (drop 6 (pk_data p)) \<and> sender_of (pk_data p) \<noteq> None \<and>
       vendor_of_prefix oui x = None}"
    "length hosts \<le> length (cap_packets cap)" "length ouis \<le> length (cap_packets cap)"
    by (rule harvest_all [of oui "cap_packets cap"]) (rule that)
  have three: "length x = 3" if x: "x \<in> set ouis" for x
  proof -
    obtain p where p: "p \<in> set (cap_packets cap)" "x = take 3 (drop 6 (pk_data p))" "sender_of (pk_data p) \<noteq> None"
      using x unfolding h(3) by blast
    then have "14 \<le> length (pk_data p)" by (auto intro: sender_of_length)
    then show ?thesis using p(2) by simp
  qed
  have prefixes: "desktop_prefixes oui (cap_packets cap) = (if ouis = [] then {FALLBACK_DESKTOP_OUI} else set ouis)"
    unfolding desktop_prefixes_def h(3) [symmetric] by simp
  show ?thesis
  proof (cases "hosts = []")
    case True
    then have "nothing_to_promote N cidrs (cap_packets cap)" using h(2) unfolding nothing_to_promote_def by auto
    with True h(1) show ?thesis by (simp add: promote_host_def)
  next
    case hosts: False
    obtain i r1 where i: "below r (word_of_nat (length hosts)) = (i, r1)" by fastforce
    have host: "unat i < length hosts" by (rule draw_index [OF b hosts _ i]) (use h(4) n in linarith)
    obtain ext r2 where ext: "pick_external N below cidrs r1 = (ext, r2)" by fastforce
    show ?thesis
    proof (cases ext)
      case None
      with ext have "nothing_to_promote N cidrs (cap_packets cap)"
        using pick_external_none [of N below cidrs r1] unfolding nothing_to_promote_def by simp
      with None h(1) hosts i host ext show ?thesis by (simp add: promote_host_def rd_ok)
    next
      case (Some e)
      obtain oui3 r3 where o3: "(if ouis = [] then ret (FALLBACK_DESKTOP_OUI, r2)
          else do { let (j, r) = below r2 (word_of_nat (length ouis)); o3 \<leftarrow> rd ouis (unat j); ret (o3, r) }) = ret (oui3, r3)"
        "length oui3 = 3" "oui3 \<in> desktop_prefixes oui (cap_packets cap)"
      proof (cases "ouis = []")
        case True
        then show thesis by (intro that [of FALLBACK_DESKTOP_OUI r2]) (simp_all add: prefixes FALLBACK_DESKTOP_OUI_def)
      next
        case False
        obtain j r3 where j: "below r2 (word_of_nat (length ouis)) = (j, r3)" by fastforce
        have "unat j < length ouis" by (rule draw_index [OF b False _ j]) (use h(5) n in linarith)
        with False j three show thesis by (intro that [of "ouis ! unat j" r3]) (simp_all add: rd_ok prefixes)
      qed
      obtain b0 r4 where b0: "byte r3 = (b0, r4)" by fastforce
      obtain b1 r5 where b1: "byte r4 = (b1, r5)" by fastforce
      obtain b2 r6 where b2: "byte r5 = (b2, r6)" by fastforce
      let ?m = "oui3 @ [b0, b1, b2]" and ?host = "hosts ! unat i"
      let ?step = "\<lambda>p. do { d \<leftarrow> promote_packet ?host e ?m (pk_data p); ret (p\<lparr>pk_data := d\<rparr>) }"
      have m: "length ?m = 6" using o3(2) by simp
      have step: "\<exists>y. ?step p = ret y" for p using promote_packet_total [OF m, of ?host e "pk_data p"] by auto
      have "\<exists>ps. map_exec ?step (cap_packets cap) = ret ps" by (rule map_exec_ret) (rule step)
      then obtain ps where ps: "map_exec ?step (cap_packets cap) = ret ps" by blast
      have pp: "promoted_packets ?host e ?m (cap_packets cap) ps"
        unfolding promoted_packets_def by (rule map_exec_rel [OF ps]) auto
      let ?p = "\<lparr>ph_original_ip = show_ipv4 ?host, ph_external_ip = show_ipv4 e, ph_mac = fmt_mac ?m, ph_promoted_unix = now\<rparr>"
      have sender: "is_private ?host" "\<exists>q \<in> set (cap_packets cap). sender_of (pk_data q) = Some ?host"
        using nth_mem [OF host] unfolding h(2) by blast+
      have "promotion N oui cidrs now cap (cap\<lparr>cap_packets := ps\<rparr>) ?p"
        unfolding promotion_def
        by (rule exI [of _ ?host], rule exI [of _ e], rule exI [of _ ?m])
          (use pp sender m o3 pick_external_public [OF b ext [unfolded Some]] in simp)
      moreover have "promote_host N below byte cap cidrs oui now r = ret (cap\<lparr>cap_packets := ps\<rparr>, Some ?p, r6)"
        using h(1) hosts i host ext Some o3(1) b0 b1 b2 ps by (simp add: promote_host_def rd_ok)
      ultimately show ?thesis by simp
    qed
  qed
qed

section \<open>A run of the scheduler\<close>

text \<open>
  What \<open>maybe_promote\<close> does with the scheduler at each iteration: when a promotion is due, it is attempted and the
  scheduler is rescheduled from now.  \<open>attempts\<close> are the times of a run at which one is made.
\<close>

fun attempts :: "'r gen \<Rightarrow> u64 list \<Rightarrow> threat_scheduler \<times> 'r \<Rightarrow> u64 list" where
  "attempts gen [] s = []"
| "attempts gen (now # ts) s =
     (if threat_due (fst s) now then now # attempts gen ts (threat_schedule gen now s) else attempts gen ts s)"

lemma threat_reschedule_due:
  assumes "gen_ok gen" and "sched_ok (fst s)" and "unat now + 86400 < 2 ^ 64"
  shows "sched_ok (fst (threat_schedule gen now s))"
    "unat now + 86400 \<le> unat (sd_next_due (fst (threat_schedule gen now s)))"
proof -
  obtain s' r' where s': "threat_schedule gen now (fst s, snd s) = (s', r')" by fastforce
  from threat_schedule_due [OF assms(1,2) s'] assms(3)
  show "sched_ok (fst (threat_schedule gen now s))"
    "unat now + 86400 \<le> unat (sd_next_due (fst (threat_schedule gen now s)))"
    using s' by simp_all
qed

text \<open>Attempts are at least a day apart, whatever the clock does below the last day of a 64-bit count.\<close>

lemma attempts_spaced:
  assumes "gen_ok gen" and "sched_ok (fst s)" and "\<forall>t \<in> set ts. unat t + 86400 < 2 ^ 64"
  shows "(\<forall>a \<in> set (attempts gen ts s). unat (sd_next_due (fst s)) \<le> unat a)
    \<and> sorted_wrt (\<lambda>a b. unat a + 86400 \<le> unat b) (attempts gen ts s)"
  using assms(2,3)
proof (induction ts arbitrary: s)
  case (Cons now ts)
  show ?case
  proof (cases "threat_due (fst s) now")
    case True
    note r = threat_reschedule_due [OF assms(1) Cons.prems(1), of now]
    have "unat now + 86400 < 2 ^ 64" using Cons.prems(2) by simp
    with Cons.IH [OF r(1)] r(2) Cons.prems(2) True show ?thesis
      by (fastforce simp: threat_due_def word_le_nat_alt)
  next
    case False
    with Cons show ?thesis by simp
  qed
qed simp

end
