(* ===== verification/Salts.thy ===== *)
theory Salts
  imports Zones Vuln
begin

text \<open>
  The search for an unused MAC that device fabrication, the bill of materials and the zone reconciliation share: a
  salt goes up until the address derived with it is free.  \<open>salted_mac\<close> is what such a derivation must satisfy for the
  search to end, namely that its last three bytes take every value; its interpretations are the derivations of the
  code.  \<open>src/simulate/devices.rs\<close>: \<open>make_mac\<close> and \<open>bom_mac_salted\<close>.
\<close>

section \<open>Code\<close>

text \<open>
  \<open>let mut mac = derive(0); while !used.insert(mac) { salt += 1; mac = derive(salt); }\<close>; the caller adds the result to
  \<open>used\<close>.  \<open>None\<close> is a loop that never ends.
\<close>

partial_function (option) salt_search :: "(u64 \<Rightarrow> mac) \<Rightarrow> mac set \<Rightarrow> u64 \<Rightarrow> mac option" where
  "salt_search derive used salt =
     (if derive salt \<notin> used then Some (derive salt) else salt_search derive used (salt + 1))"

definition make_mac :: "device_profile \<Rightarrow> u64 \<Rightarrow> u32 \<Rightarrow> u64 \<Rightarrow> mac" where
  "make_mac profile seed ip salt =
     (let low = stable_mac (seed + salt) ip
      in case oui_prefix profile of
           Some oui \<Rightarrow> [oui ! 0, oui ! 1, oui ! 2, low ! 3, low ! 4, low ! 5]
         | None \<Rightarrow> low)"

definition bom_mac_salted :: "oui_db \<Rightarrow> string \<Rightarrow> u64 \<Rightarrow> u32 \<Rightarrow> u64 \<Rightarrow> mac" where
  "bom_mac_salted oui vendor seed ip bump =
     (let salt = ucast ip;
          pre = (case oui_for_vendor oui vendor salt of Some p \<Rightarrow> p | None \<Rightarrow> it_pool_oui salt);
          low = stable_mac (seed + bump) ip
      in [pre ! 0, pre ! 1, pre ! 2, low ! 3, low ! 4, low ! 5])"

section \<open>The search ends\<close>

locale salted_mac =
  fixes derive :: "u64 \<Rightarrow> mac"
  assumes reaches: "\<exists>p. \<forall>x y z. \<exists>salt. derive salt = p @ [x, y, z]"
begin

lemma unused_salt:
  assumes "finite used" and "card used < 2 ^ 24"
  obtains salt where "derive salt \<notin> used"
proof -
  obtain p where p: "\<forall>x y z. \<exists>salt. derive salt = p @ [x, y, z]" using reaches by blast
  let ?f = "\<lambda>(x :: u8, y :: u8, z :: u8). p @ [x, y, z]"
  have "inj ?f" by (auto simp: inj_def)
  then have "card (range ?f) = CARD(u8 \<times> u8 \<times> u8)" by (rule card_image)
  then have "\<not> range ?f \<subseteq> used" using card_mono [OF assms(1), of "range ?f"] assms(2) by (auto simp: card_word)
  then obtain x y z where "p @ [x, y, z] \<notin> used" by auto
  with p that show thesis by metis
qed

lemma search_from:
  "derive (salt + word_of_nat k) \<notin> used \<Longrightarrow>
   \<exists>salt'. salt_search derive used salt = Some (derive salt') \<and> derive salt' \<notin> used"
proof (induction k arbitrary: salt)
  case 0
  then show ?case by (subst salt_search.simps) auto
next
  case (Suc k)
  then have "derive ((salt + 1) + word_of_nat k) \<notin> used" by (simp add: ac_simps)
  from Suc.IH [OF this] show ?case by (subst salt_search.simps) auto
qed

lemma search_total:
  assumes "finite used" and "card used < 2 ^ 24"
  obtains salt where "salt_search derive used 0 = Some (derive salt)" and "derive salt \<notin> used"
proof -
  obtain salt where "derive salt \<notin> used" using unused_salt [OF assms] by blast
  then have "derive (0 + word_of_nat (unat salt)) \<notin> used" by simp
  from search_from [OF this] that show thesis by blast
qed

end

text \<open>The low bytes of \<open>stable_mac\<close> reach every value with the upper ones clear.\<close>

lemma stable_mac_reaches: "\<exists>salt. stable_mac (seed + salt) ip = [0, 0, 0, x, y, z]"
proof -
  let ?h = "push_bit 32 (ucast x :: u64) OR push_bit 24 (ucast y) OR push_bit 16 (ucast z)"
  have "surj splitmix64" by (rule finite_UNIV_inj_surj) (auto simp: inj_def splitmix64_inj)
  then obtain w where w: "splitmix64 w = ?h" by (metis surjD)
  let ?c = "ucast ip * 0x9E3779B97F4A7C15 :: u64"
  have "(seed + ((w XOR ?c) - seed)) XOR ?c = w" by (simp add: xor.assoc)
  moreover have "ucast (drop_bit 56 ?h) = (0 :: u8)" "ucast (drop_bit 48 ?h) = (0 :: u8)" "ucast (drop_bit 40 ?h) = (0 :: u8)"
    by (rule bit_word_eqI; auto simp: bit_simps dest: bit_imp_le_length)+
  ultimately show ?thesis
    using word_three_bytes [of x y z] w
    by (intro exI [of _ "(w XOR ?c) - seed"]) (simp add: stable_mac_def to_be64_def Let_def)
qed

lemma stable_low_reaches:
  "\<exists>salt. stable_mac (seed + salt) ip ! 3 = x \<and> stable_mac (seed + salt) ip ! 4 = y \<and> stable_mac (seed + salt) ip ! 5 = z"
proof -
  obtain salt where "stable_mac (seed + salt) ip = [0, 0, 0, x, y, z]" using stable_mac_reaches by blast
  then show ?thesis by (intro exI [of _ salt]) simp
qed

interpretation host: salted_mac "host_mac_salted seed ip" for seed ip
proof
  show "\<exists>p. \<forall>x y z. \<exists>salt. host_mac_salted seed ip salt = p @ [x, y, z]"
    using stable_low_reaches [of seed ip]
    by (intro exI [of _ "[it_pool_oui (ucast ip) ! 0, it_pool_oui (ucast ip) ! 1, it_pool_oui (ucast ip) ! 2]"])
      (simp add: host_mac_salted_def Let_def)
qed

interpretation make: salted_mac "make_mac profile seed ip" for profile seed ip
proof
  show "\<exists>p. \<forall>x y z. \<exists>salt. make_mac profile seed ip salt = p @ [x, y, z]"
  proof (cases "oui_prefix profile")
    case None
    then show ?thesis
      using stable_mac_reaches [of seed ip] by (intro exI [of _ "[0, 0, 0]"]) (simp add: make_mac_def)
  next
    case (Some oui)
    then show ?thesis
      using stable_low_reaches [of seed ip]
      by (intro exI [of _ "[oui ! 0, oui ! 1, oui ! 2]"]) (simp add: make_mac_def Let_def)
  qed
qed

interpretation bom: salted_mac "bom_mac_salted oui vendor seed ip" for oui vendor seed ip
proof
  let ?pre = "case oui_for_vendor oui vendor (ucast ip) of Some p \<Rightarrow> p | None \<Rightarrow> it_pool_oui (ucast ip)"
  show "\<exists>p. \<forall>x y z. \<exists>bump. bom_mac_salted oui vendor seed ip bump = p @ [x, y, z]"
    using stable_low_reaches [of seed ip]
    by (intro exI [of _ "[?pre ! 0, ?pre ! 1, ?pre ! 2]"]) (simp add: bom_mac_salted_def Let_def)
qed

text \<open>The search of the zone reconciliation is this one.\<close>

lemma find_mac_is_search:
  assumes "finite used" and "card used < 2 ^ 24"
  shows "map_option fst (find_mac seed ip used 0) = salt_search (host_mac_salted seed ip) used 0"
proof -
  obtain salt where "host_mac_salted seed ip salt \<notin> used" using host.unused_salt [OF assms] by blast
  then have "host_mac_salted seed ip (0 + word_of_nat (unat salt)) \<notin> used" by simp
  moreover have "host_mac_salted seed ip (salt + word_of_nat k) \<notin> used \<Longrightarrow>
      map_option fst (find_mac seed ip used salt) = salt_search (host_mac_salted seed ip) used salt" for k salt
  proof (induction k arbitrary: salt)
    case 0
    then show ?case by (subst find_mac.simps, subst salt_search.simps) (simp add: Let_def)
  next
    case (Suc k)
    then have "host_mac_salted seed ip ((salt + 1) + word_of_nat k) \<notin> used" by (simp add: ac_simps)
    from Suc.IH [OF this] show ?case by (subst find_mac.simps, subst salt_search.simps) (simp add: Let_def)
  qed
  ultimately show ?thesis by blast
qed

lemma length_make_mac [simp]: "length (make_mac profile seed ip salt) = 6"
  by (simp add: make_mac_def Let_def split: option.split)

lemma length_bom_mac [simp]: "length (bom_mac_salted oui vendor seed ip bump) = 6"
  by (simp add: bom_mac_salted_def Let_def)

end
