(* ===== verification/Naming.thy ===== *)
theory Naming
  imports Threat "HOL-Library.Multiset"
begin

text \<open>
  \<open>src/simulate/zones.rs\<close> and \<open>src/simulate/bom.rs\<close>: labels and names of zones, the zones a capture shows by
  itself, the bill of materials of a zone and the names of its hosts.  Where the code iterates over a
  \<open>HashMap\<close>, the order is a parameter that returns a permutation of what it is given (\<open>hash_order\<close>).
\<close>

section \<open>Code: names of zones\<close>

text \<open>\<open>str::contains\<close>\<close>

fun str_contains :: "string \<Rightarrow> string \<Rightarrow> bool" where
  "str_contains [] p = (p = [])"
| "str_contains (c # cs) p = (prefix p (c # cs) \<or> str_contains cs p)"

definition purdue_label :: "u8 \<Rightarrow> string" where
  "purdue_label level =
     (if level = 0 then ''Field I/O'' else if level = 1 then ''Basic Control'' else if level = 2 then ''Supervisory''
      else if level = 3 then ''Operations'' else if level = 4 then ''Enterprise'' else ''Network'')"

definition SWITCH :: "string list" where
  "SWITCH = [''Cisco'', ''Hirschmann'', ''Moxa'', ''Belden'', ''Westermo'']"

definition CONTROLLER :: "string list" where
  "CONTROLLER = [''Siemens'', ''Rockwell'', ''Schneider'', ''GE'', ''ABB'', ''Beckhoff'', ''WAGO'', ''Phoenix'']"

definition infer_level :: "string option \<Rightarrow> u8" where
  "infer_level vendor =
     (case vendor of
        None \<Rightarrow> 3
      | Some v \<Rightarrow>
          if list_ex (str_contains v) SWITCH then 2
          else if list_ex (str_contains v) CONTROLLER then 1
          else 3)"

definition family_of :: "string \<Rightarrow> string" where
  "family_of model = takeWhile (Not \<circ> is_space) (dropWhile is_space model)"

text \<open>\<open>parts.join(" ")\<close> and \<open>idx + 1\<close>, which wraps at 64 bits.\<close>

definition usize_succ :: "nat \<Rightarrow> nat" where
  "usize_succ n = (n + 1) mod 2 ^ 64"

definition name_zone :: "string option \<Rightarrow> string option \<Rightarrow> u8 \<Rightarrow> nat \<Rightarrow> string" where
  "name_zone vendor family level idx =
     (let parts = [case vendor of Some v \<Rightarrow> v | None \<Rightarrow> ''ICS''] @
            (case family of Some f \<Rightarrow> if f \<noteq> [] then [f] else [] | None \<Rightarrow> []) @ [purdue_label level]
      in join_with (CHR '' '') parts @ '' Area '' @ show_nat (usize_succ idx))"

section \<open>Code: the zones of a capture\<close>

record 'n zone =
  zn_cidr :: 'n
  zn_name :: string
  zn_purdue_level :: u8
  zn_vendor :: "string option"
  zn_device_ips :: "ipv4 list"

definition zone_unicast :: "ipv4 \<Rightarrow> bool" where
  "zone_unicast addr = (let o0 = octet0 addr in o0 \<noteq> 0 \<and> o0 \<noteq> 127 \<and> o0 < 224)"

text \<open>\<open>host_mac.entry(ip).or_insert(mac)\<close>, and the closure \<open>note\<close>: \<open>seen\<close> holds the elements of \<open>hosts\<close>.\<close>

definition or_insert :: "'k \<Rightarrow> 'v \<Rightarrow> ('k \<Rightarrow> 'v option) \<Rightarrow> 'k \<Rightarrow> 'v option" where
  "or_insert k v m = (if m k = None then m(k \<mapsto> v) else m)"

definition note_unicast :: "ipv4 \<Rightarrow> ipv4 list \<Rightarrow> ipv4 list" where
  "note_unicast ip hosts = (if zone_unicast ip then push_new ip hosts else hosts)"

type_synonym sightings = "(ipv4 \<Rightarrow> mac option) \<times> ipv4 list"

definition sight :: "ipv4 \<Rightarrow> mac \<Rightarrow> ipv4 \<Rightarrow> sightings \<Rightarrow> sightings" where
  "sight src mac dst = (\<lambda>(macs, hosts).
     (if zone_unicast src then or_insert src mac macs else macs, note_unicast dst (note_unicast src hosts)))"

definition sight_packet :: "bytes \<Rightarrow> sightings \<Rightarrow> sightings exec" where
  "sight_packet data st = do {
     r \<leftarrow> parse_layout data;
     case r of
       None \<Rightarrow> ret st
     | Some l \<Rightarrow>
         if fl_l3_kind l = L3_Ipv4 \<and> fl_l3 l + 20 \<le> length data then do {
           src \<leftarrow> rd_be32 data (fl_l3 l + 12);
           dst \<leftarrow> rd_be32 data (fl_l3 l + 16);
           if 12 \<le> length data then do { mac \<leftarrow> slice data 6 12; ret (sight src mac dst st) }
           else ret (apsnd (note_unicast dst \<circ> note_unicast src) st)
         }
         else do {
           arp \<leftarrow> is_arp_ipv4 data (fl_l3 l);
           if \<not> arp then ret st
           else do {
             spa \<leftarrow> rd_be32 data (fl_l3 l + 14);
             tpa \<leftarrow> rd_be32 data (fl_l3 l + 24);
             sha \<leftarrow> slice data (fl_l3 l + 8) (fl_l3 l + 14);
             ret (sight spa sha tpa st)
           }
         }
   }"

definition sightings_of :: "packet list \<Rightarrow> sightings exec" where
  "sightings_of ps = fold_exec (\<lambda>p. sight_packet (pk_data p)) ps (Map.empty, [])"

text \<open>The counts of a \<open>HashMap\<close> filled by \<open>*entry(v).or_default() += 1\<close>, in some order.\<close>

definition tally :: "('v list \<Rightarrow> 'v list) \<Rightarrow> 'v list \<Rightarrow> ('v \<times> nat) list" where
  "tally order vs = map (\<lambda>v. (v, count_list vs v)) (order (remdups vs))"

text \<open>\<open>max_by_key\<close>: the last of the maximal elements.\<close>

definition better :: "'v \<times> nat \<Rightarrow> ('v \<times> nat) option \<Rightarrow> ('v \<times> nat) option" where
  "better x best = (case best of None \<Rightarrow> Some x | Some y \<Rightarrow> if snd y \<le> snd x then Some x else Some y)"

definition max_by_count :: "('v \<times> nat) list \<Rightarrow> ('v \<times> nat) option" where
  "max_by_count xs = fold better xs None"

definition vendor_votes :: "oui_db \<Rightarrow> (ipv4 \<Rightarrow> mac option) \<Rightarrow> ipv4 list \<Rightarrow> string list" where
  "vendor_votes oui macs ips = List.map_filter (\<lambda>ip. Option.bind (macs ip) (oui_vendor oui)) ips"

definition zone_vendor :: "oui_db \<Rightarrow> (string list \<Rightarrow> string list) \<Rightarrow> (ipv4 \<Rightarrow> mac option) \<Rightarrow> ipv4 list \<Rightarrow> string option" where
  "zone_vendor oui order macs ips =
     map_option fst (max_by_count (tally order (vendor_votes oui macs ips)))"

definition derive_zones ::
  "'n net_ops \<Rightarrow> ('n list \<Rightarrow> 'n list) \<Rightarrow> (string list \<Rightarrow> string list) \<Rightarrow> packet list \<Rightarrow> 'n list \<Rightarrow> oui_db
    \<Rightarrow> 'n zone list exec" where
  "derive_zones N keys order ps hints oui = do {
     (macs, hosts) \<leftarrow> sightings_of ps;
     by_subnet \<leftarrow> map_exec (\<lambda>h. do { n \<leftarrow> subnet_of N h hints; ret (n, h) }) hosts;
     let subs = sort_key (no_network N) (keys (remdups (map fst by_subnet)));
     ret (map (\<lambda>(idx, net).
       let ips = sort (map snd (filter (\<lambda>x. fst x = net) by_subnet));
           vendor = zone_vendor oui order macs ips;
           level = infer_level vendor
       in \<lparr>zn_cidr = net, zn_name = name_zone vendor None level idx, zn_purdue_level = level,
           zn_vendor = vendor, zn_device_ips = ips\<rparr>) (enumerate 0 subs))
   }"

section \<open>Code: the bill of materials\<close>

datatype asset_type = Controller | Switch | Router | Hmi | EngWorkstation | Historian | Firewall | ServerAsset

fun asset_label :: "asset_type \<Rightarrow> string" where
  "asset_label Controller = ''Controller''"
| "asset_label Switch = ''Switch''"
| "asset_label Router = ''Router''"
| "asset_label Hmi = ''HMI''"
| "asset_label EngWorkstation = ''EWS''"
| "asset_label Historian = ''Historian''"
| "asset_label Firewall = ''Firewall''"
| "asset_label ServerAsset = ''Server''"

fun host_token :: "asset_type \<Rightarrow> string" where
  "host_token Controller = ''PLC''"
| "host_token Switch = ''SW''"
| "host_token Router = ''RTR''"
| "host_token Hmi = ''HMI''"
| "host_token EngWorkstation = ''EWS''"
| "host_token Historian = ''HIST''"
| "host_token Firewall = ''FW''"
| "host_token ServerAsset = ''SRV''"

definition cve_bearing :: "asset_type \<Rightarrow> bool" where
  "cve_bearing t \<longleftrightarrow> t = Controller \<or> t = Switch \<or> t = Router \<or> t = Firewall"

definition bom_for :: "u8 \<Rightarrow> (asset_type \<times> nat) list" where
  "bom_for purdue_level =
     (if purdue_level = 1 then [(Firewall, 1), (Switch, 1), (Hmi, 1), (EngWorkstation, 1)]
      else if purdue_level = 2 then [(Firewall, 1), (Switch, 1), (Hmi, 1), (EngWorkstation, 1), (Historian, 1)]
      else if purdue_level = 3 then
        [(Firewall, 1), (Router, 1), (Switch, 1), (Historian, 1), (ServerAsset, 4), (EngWorkstation, 2)]
      else [(Firewall, 1)])"

definition vendor_style :: "string option \<Rightarrow> string \<times> string" where
  "vendor_style vendor =
     (let v = (case vendor of Some v \<Rightarrow> v | None \<Rightarrow> [])
      in if str_contains v ''Rockwell'' then (''LINE'', ''PLC'')
         else if str_contains v ''Siemens'' then (''CELL'', ''S7'')
         else if str_contains v ''Schneider'' then (''LINE'', ''M340'')
         else if str_contains v ''GE'' then (''LINE'', ''RX3i'')
         else if str_contains v ''ABB'' then (''LINE'', ''AC500'')
         else (''LINE'', ''PLC''))"

text \<open>\<open>{:02}\<close>\<close>

definition show2 :: "nat \<Rightarrow> string" where
  "show2 n = (if n < 10 then CHR ''0'' # show_nat n else show_nat n)"

definition hostname_for :: "string option \<Rightarrow> asset_type \<Rightarrow> nat \<Rightarrow> nat \<Rightarrow> string option \<Rightarrow> string" where
  "hostname_for vendor at area_idx dev_idx domain =
     (let area = usize_succ area_idx;
          dev = usize_succ dev_idx;
          host = (case at of
              Controller \<Rightarrow> (let (pre, token) = vendor_style vendor
                in pre @ ''-'' @ show2 area @ ''-'' @ token @ ''-'' @ show2 dev)
            | Firewall \<Rightarrow> ''FW-'' @ show2 area
            | Historian \<Rightarrow> ''HIST-'' @ show2 area
            | other \<Rightarrow> host_token other @ ''-'' @ show2 area @ ''-'' @ show2 dev)
      in case domain of Some d \<Rightarrow> if d \<noteq> [] then host @ ''.'' @ d else host | None \<Rightarrow> host)"

section \<open>Substrings and numbers\<close>

lemma str_contains_iff: "str_contains s p \<longleftrightarrow> (\<exists>a b. s = a @ p @ b)"
proof (induction s)
  case (Cons c cs)
  show ?case
  proof
    assume "str_contains (c # cs) p"
    then show "\<exists>a b. c # cs = a @ p @ b"
    proof (cases "prefix p (c # cs)")
      case True
      then obtain b where "c # cs = p @ b" by (auto simp: prefix_def)
      then show ?thesis by (metis append_Nil)
    next
      case False
      then obtain a b where "cs = a @ p @ b" using \<open>str_contains (c # cs) p\<close> Cons by auto
      then show ?thesis by (metis append_Cons)
    qed
  next
    assume "\<exists>a b. c # cs = a @ p @ b"
    then obtain a b where ab: "c # cs = a @ p @ b" by blast
    show "str_contains (c # cs) p"
    proof (cases a)
      case Nil
      with ab have "prefix p (c # cs)" by (auto simp: prefix_def)
      then show ?thesis by simp
    next
      case (Cons x xs)
      with ab have "cs = xs @ p @ b" by simp
      with \<open>str_contains cs p \<longleftrightarrow> _\<close> show ?thesis by auto
    qed
  qed
qed auto

lemma digits_val_show2: "digits_val 10 0 (show2 n) = Some n"
  using digits_val_show_all [of n] by (simp add: show2_def digit_val_def)

lemma show2_inj: "show2 m = show2 n \<longleftrightarrow> m = n"
  by (metis digits_val_show2 option.inject)

lemma show2_no_dash: "CHR ''-'' \<notin> set (show2 n)" "CHR ''.'' \<notin> set (show2 n)"
proof -
  have d: "digits_val 10 acc s = Some v \<Longrightarrow> c \<in> set s \<Longrightarrow> digit_val 10 c \<noteq> None" for acc s v c
    by (induction s arbitrary: acc) (auto split: option.splits)
  have "digit_val 10 (CHR ''-'') = None" "digit_val 10 (CHR ''.'') = None"
    by (simp_all add: digit_val_def)
  with d [OF digits_val_show2 [of n]] show "CHR ''-'' \<notin> set (show2 n)" "CHR ''.'' \<notin> set (show2 n)"
    by blast+
qed

text \<open>Two controllers of a zone, or two hosts of a class that is numbered, have different names.\<close>

lemma hostname_index:
  assumes "at \<noteq> Firewall" "at \<noteq> Historian" "i < 2 ^ 64 - 1" "j < 2 ^ 64 - 1"
    and "hostname_for v at area i d = hostname_for v at area j d"
  shows "i = j"
proof -
  have "usize_succ i = usize_succ j"
    using assms(1,2,5)
    by (cases at; cases d) (auto simp: hostname_for_def Let_def show2_inj split: if_splits prod.splits)
  then show ?thesis using assms(3,4) by (simp add: usize_succ_def)
qed

section \<open>Votes\<close>

text \<open>What is known of the order of a hash map: it lists the same elements.\<close>

definition hash_order :: "('a list \<Rightarrow> 'a list) \<Rightarrow> bool" where
  "hash_order f \<longleftrightarrow> (\<forall>xs. distinct (f xs) = distinct xs \<and> set (f xs) = set xs)"

lemma fold_better:
  "\<exists>m. fold better xs (Some b) = Some m \<and> m \<in> insert b (set xs) \<and> (\<forall>x \<in> insert b (set xs). snd x \<le> snd m)"
proof (induction xs arbitrary: b)
  case (Cons x xs)
  define c where "c = (if snd b \<le> snd x then x else b)"
  have c: "better x (Some b) = Some c" "c \<in> {b, x}" "snd b \<le> snd c" "snd x \<le> snd c"
    by (auto simp: better_def c_def)
  obtain m where "fold better xs (Some c) = Some m" "m \<in> insert c (set xs)" "\<forall>x \<in> insert c (set xs). snd x \<le> snd m"
    using Cons by blast
  with c show ?case by (intro exI [of _ m]) auto
qed simp

lemma better_None [simp]: "better x None = Some x"
  by (simp add: better_def)

lemma max_by_count_None: "max_by_count xs = None \<longleftrightarrow> xs = []"
proof (cases xs)
  case (Cons y ys)
  obtain m where "fold better ys (Some y) = Some m" using fold_better by blast
  with Cons show ?thesis by (simp add: max_by_count_def)
qed (simp add: max_by_count_def)

lemma max_by_count_Some:
  assumes "max_by_count xs = Some m"
  shows "m \<in> set xs" and "x \<in> set xs \<Longrightarrow> snd x \<le> snd m"
proof -
  have "xs \<noteq> []" using assms max_by_count_None [of xs] by fastforce
  then obtain y ys where xs: "xs = y # ys" by (cases xs) simp_all
  obtain m' where m': "fold better ys (Some y) = Some m'" "m' \<in> insert y (set ys)"
    "\<forall>x \<in> insert y (set ys). snd x \<le> snd m'" using fold_better by blast
  then have "Some m' = Some m" using assms by (simp only: max_by_count_def xs fold_simps better_None)
  then have "m' = m" by simp
  with m'(2,3) xs show "m \<in> set xs" "x \<in> set xs \<Longrightarrow> snd x \<le> snd m" by auto
qed

lemma tally_set: "hash_order order \<Longrightarrow> set (tally order vs) = (\<lambda>v. (v, count_list vs v)) ` set vs"
  by (simp add: tally_def hash_order_def)

text \<open>A vendor with the most votes, and none when nobody is known.\<close>

lemma zone_vendor_plurality:
  fixes oui macs ips
  defines "vs \<equiv> vendor_votes oui macs ips"
  assumes "hash_order order"
  shows "zone_vendor oui order macs ips = None \<longleftrightarrow> vs = []"
    and "zone_vendor oui order macs ips = Some v \<Longrightarrow> v \<in> set vs \<and> (\<forall>w. count_list vs w \<le> count_list vs v)"
proof -
  have t: "set (tally order vs) = (\<lambda>v. (v, count_list vs v)) ` set vs"
    using tally_set [OF assms(2)] .
  then have "tally order vs = [] \<longleftrightarrow> vs = []" by (metis image_is_empty set_empty)
  then show "zone_vendor oui order macs ips = None \<longleftrightarrow> vs = []"
    by (simp add: zone_vendor_def vs_def [symmetric] max_by_count_None)
  assume "zone_vendor oui order macs ips = Some v"
  then obtain c where c: "max_by_count (tally order vs) = Some (v, c)"
    by (auto simp: zone_vendor_def vs_def [symmetric])
  from max_by_count_Some [OF c] t
  have "(v, c) \<in> (\<lambda>v. (v, count_list vs v)) ` set vs"
    "\<And>x. x \<in> (\<lambda>v. (v, count_list vs v)) ` set vs \<Longrightarrow> snd x \<le> c" by simp_all
  then have v: "v \<in> set vs" "\<forall>w \<in> set vs. count_list vs w \<le> count_list vs v" by force+
  have "count_list vs w = 0" if "w \<notin> set vs" for w
    using that by (simp add: count_list_0_iff)
  with v show "v \<in> set vs \<and> (\<forall>w. count_list vs w \<le> count_list vs v)"
    by (metis le0)
qed

section \<open>What a capture shows\<close>

lemma zone_unicast_remappable: "zone_unicast a \<longleftrightarrow> is_remappable a"
  by (simp add: zone_unicast_def is_remappable_def)

lemma sight_packet_eq: "\<exists>macs'. sight_packet d (macs, hosts) = ret (macs', fold note_unicast (addrs_of d) hosts)"
proof -
  obtain r where r: "parse_layout d = ret r" using parse_layout_total by blast
  show ?thesis
  proof (cases r)
    case None
    with r show ?thesis by (simp add: sight_packet_def addrs_of_def)
  next
    case (Some l)
    show ?thesis
    proof (cases "fl_l3_kind l")
      case L3_Ipv4
      with layout_ipv4_bound [OF r [unfolded Some] L3_Ipv4] r Some show ?thesis
        by (auto simp: sight_packet_def addrs_of_def layout_addrs_def exec_simps sight_def)
    next
      case L3_Other
      have "arp_shape d (fl_l3 l) \<Longrightarrow> fl_l3 l + 28 \<le> length d" by (simp add: arp_shape_def)
      with L3_Other r Some show ?thesis
        by (cases "arp_shape d (fl_l3 l)")
          (auto simp: sight_packet_def addrs_of_def layout_addrs_def is_arp_ipv4_eq exec_simps sight_def)
    qed
  qed
qed

lemma sightings_eq: "\<exists>macs. sightings_of ps = ret (macs, fold note_unicast (capture_addrs ps) [])"
proof -
  have "\<exists>macs'. fold_exec (\<lambda>p. sight_packet (pk_data p)) ps (macs, hosts) = ret (macs', fold note_unicast (capture_addrs ps) hosts)"
    for macs hosts
  proof (induction ps arbitrary: macs hosts)
    case (Cons p ps)
    obtain macs1 where "sight_packet (pk_data p) (macs, hosts) = ret (macs1, fold note_unicast (addrs_of (pk_data p)) hosts)"
      using sight_packet_eq by blast
    with Cons show ?case by (auto simp: capture_addrs_def)
  qed (simp add: capture_addrs_def)
  then show ?thesis by (simp add: sightings_of_def)
qed

lemma fold_note_unicast:
  "distinct hs \<Longrightarrow> distinct (fold note_unicast as hs) \<and>
     set (fold note_unicast as hs) = set hs \<union> {a \<in> set as. is_remappable a}"
proof (induction as arbitrary: hs)
  case (Cons a as)
  have 1: "distinct (note_unicast a hs)" "set (note_unicast a hs) = set hs \<union> (if is_remappable a then {a} else {})"
    using Cons.prems by (auto simp: note_unicast_def push_new_def zone_unicast_remappable)
  from Cons.IH [OF 1(1)] 1(2) show ?case by auto
qed simp

lemma subnet_of_total:
  assumes "net_ok N"
  obtains n where "subnet_of N a hints = ret n" "no_contains N n a"
proof -
  obtain p net where g: "group_of N a hints = (p, net)" by fastforce
  note b = group_of_bounds [OF assms g]
  then have "p \<le> 32" by (simp add: word_le_nat_alt)
  then obtain n where n: "no_new N net p = Some n" "no_prefix_len N n = p" "no_network N n = net AND mask_for p"
    using assms unfolding net_ok_def by blast
  then have "no_contains N n a" using assms b(3) unfolding net_ok_def by (simp add: and.assoc)
  with n(1) g that show thesis by (simp add: subnet_of_def)
qed

lemma groups_partition:
  "distinct ks \<Longrightarrow> fst ` set xs \<subseteq> set ks \<Longrightarrow>
     mset (concat (map (\<lambda>k. sort (map snd (filter (\<lambda>x. fst x = k) xs))) ks)) = mset (map snd (xs :: ('k \<times> 'v :: linorder) list))"
proof (induction ks arbitrary: xs)
  case (Cons k ks)
  let ?rest = "filter (\<lambda>x. fst x \<noteq> k) xs"
  have same: "filter (\<lambda>x. fst x = j) xs = filter (\<lambda>x. fst x = j) ?rest" if "j \<in> set ks" for j
    using that Cons.prems(1) by (auto simp: filter_filter intro!: filter_cong)
  have "mset (concat (map (\<lambda>k. sort (map snd (filter (\<lambda>x. fst x = k) ?rest))) ks)) = mset (map snd ?rest)"
    by (rule Cons.IH) (use Cons.prems in auto)
  moreover have "map (\<lambda>k. sort (map snd (filter (\<lambda>x. fst x = k) xs))) ks = map (\<lambda>k. sort (map snd (filter (\<lambda>x. fst x = k) ?rest))) ks"
    using same by simp
  moreover have "mset (map snd xs) = mset (map snd (filter (\<lambda>x. fst x = k) xs)) + mset (map snd ?rest)"
    by (induction xs) auto
  ultimately show ?case by (simp only: list.map concat.simps mset_append mset_sort)
qed simp

lemma map_enumerate: "map (\<lambda>(i, x). f x) (enumerate n xs) = map f xs"
  by (induction xs arbitrary: n) simp_all

text \<open>The zones of a capture partition its unicast hosts, and a zone's vendor has the most votes.\<close>

lemma derive_zones_ok:
  assumes "net_ok N" "hash_order keys" "hash_order order"
  obtains macs hosts zs where "sightings_of ps = ret (macs, hosts)" "derive_zones N keys order ps hints oui = ret zs"
    "distinct hosts" "set hosts = {a \<in> set (capture_addrs ps). is_remappable a}"
    "mset (concat (map zn_device_ips zs)) = mset hosts"
    "distinct (map zn_cidr zs)" "sorted (map (no_network N \<circ> zn_cidr) zs)"
    "\<forall>z \<in> set zs. zn_device_ips z \<noteq> [] \<and> sorted (zn_device_ips z) \<and>
       (\<forall>a \<in> set (zn_device_ips z). subnet_of N a hints = ret (zn_cidr z) \<and> no_contains N (zn_cidr z) a) \<and>
       zn_vendor z = zone_vendor oui order macs (zn_device_ips z)"
proof -
  obtain macs hosts where h: "sightings_of ps = ret (macs, hosts)" "hosts = fold note_unicast (capture_addrs ps) []"
    using sightings_eq by blast
  have hosts: "distinct hosts" "set hosts = {a \<in> set (capture_addrs ps). is_remappable a}"
    using fold_note_unicast [of "[]" "capture_addrs ps"] h(2) by simp_all
  define net where "net = (\<lambda>a. the (subnet_of N a hints))"
  have net: "subnet_of N a hints = ret (net a)" "no_contains N (net a) a" for a
    using subnet_of_total [OF assms(1), of a hints] unfolding net_def by (metis option.sel)+
  let ?by = "map (\<lambda>h. (net h, h)) hosts"
  let ?subs = "sort_key (no_network N) (keys (remdups (map fst ?by)))"
  have subs: "distinct ?subs" "set ?subs = net ` set hosts"
    using assms(2) by (simp_all add: hash_order_def comp_def)
  let ?ips = "\<lambda>n. sort (map snd (filter (\<lambda>x. fst x = n) ?by))"
  let ?zone = "\<lambda>(idx, n). \<lparr>zn_cidr = n, zn_name = name_zone (zone_vendor oui order macs (?ips n)) None
      (infer_level (zone_vendor oui order macs (?ips n))) idx,
      zn_purdue_level = infer_level (zone_vendor oui order macs (?ips n)),
      zn_vendor = zone_vendor oui order macs (?ips n), zn_device_ips = ?ips n\<rparr>"
  let ?zs = "map ?zone (enumerate 0 ?subs)"
  have "map_exec (\<lambda>h. do { n \<leftarrow> subnet_of N h hints; ret (n, h) }) hosts = ret ?by"
    by (rule map_exec_map) (simp add: net)
  then have z: "derive_zones N keys order ps hints oui = ret ?zs"
    by (simp add: derive_zones_def h(1) Let_def)
  have cidr: "map zn_cidr ?zs = ?subs" "map zn_device_ips ?zs = map ?ips ?subs"
    using map_enumerate [of "\<lambda>n. n" 0 ?subs] map_enumerate [of ?ips 0 ?subs] by (simp_all add: comp_def case_prod_unfold)
  show thesis
  proof (rule that [OF h(1) z hosts])
    show "mset (concat (map zn_device_ips ?zs)) = mset hosts"
    proof -
      have "fst ` set ?by \<subseteq> set ?subs" using subs(2) by auto
      from groups_partition [OF subs(1) this] show ?thesis unfolding cidr by (simp add: comp_def)
    qed
    show "distinct (map zn_cidr ?zs)" unfolding cidr by (rule subs)
    show "sorted (map (no_network N \<circ> zn_cidr) ?zs)"
      unfolding map_map [symmetric] cidr by (rule sorted_sort_key)
    show "\<forall>z \<in> set ?zs. zn_device_ips z \<noteq> [] \<and> sorted (zn_device_ips z) \<and>
       (\<forall>a \<in> set (zn_device_ips z). subnet_of N a hints = ret (zn_cidr z) \<and> no_contains N (zn_cidr z) a) \<and>
       zn_vendor z = zone_vendor oui order macs (zn_device_ips z)"
    proof
      fix z assume z: "z \<in> set ?zs"
      then have c: "zn_device_ips z = ?ips (zn_cidr z)" "zn_vendor z = zone_vendor oui order macs (zn_device_ips z)"
        by (auto simp: case_prod_unfold)
      have "zn_cidr z \<in> set (map zn_cidr ?zs)" unfolding set_map [of zn_cidr] using z by (rule imageI)
      then have "zn_cidr z \<in> net ` set hosts" unfolding cidr subs(2) .
      then have "set (?ips (zn_cidr z)) \<noteq> {}" by auto
      then have 1: "zn_device_ips z \<noteq> []" unfolding c(1) set_empty .
      have 2: "sorted (zn_device_ips z)" unfolding c(1) by (rule sorted_sort)
      have "\<forall>a \<in> set (?ips (zn_cidr z)). net a = zn_cidr z" by auto
      then have 3: "\<forall>a \<in> set (zn_device_ips z). net a = zn_cidr z" unfolding c(1) .
      show "zn_device_ips z \<noteq> [] \<and> sorted (zn_device_ips z) \<and>
       (\<forall>a \<in> set (zn_device_ips z). subnet_of N a hints = ret (zn_cidr z) \<and> no_contains N (zn_cidr z) a) \<and>
       zn_vendor z = zone_vendor oui order macs (zn_device_ips z)"
        by (intro conjI 1 2 c(2) ballI) (metis 3 net(1), metis 3 net(2))
    qed
  qed
qed

end
