(* ===== verification/Fabricate.thy ===== *)
theory Fabricate
  imports Salts Naming Roles
begin

text \<open>
  \<open>src/simulate/devices.rs\<close>: the allocator that fills zones with simulated devices.  Random draws are the
  parameters \<open>below\<close> (\<open>gen_range(0..n)\<close>) and \<open>coin\<close> (\<open>gen_bool(0.15)\<close>); the loop is a \<open>partial_function\<close>, shown to end.
\<close>

section \<open>Code\<close>

record alloc_params =
  ap_max_subnets :: nat
  ap_max_devices :: nat
  ap_default_prefix :: u8

type_synonym 'r coin = "'r \<Rightarrow> bool \<times> 'r"

definition gateway_of :: "'n net_ops \<Rightarrow> 'n \<Rightarrow> ipv4" where
  "gateway_of N net = (let a = no_network N net in if a = - 1 then a else a + 1)"

definition next_free_in :: "'n net_ops \<Rightarrow> 'n \<Rightarrow> ipv4 set \<Rightarrow> ipv4 option" where
  "next_free_in N net used =
     find (\<lambda>ip. ip \<noteq> gateway_of N net \<and> ip \<noteq> station_addr_net N net \<and> ip \<notin> used) (no_hosts N net)"

definition is_core :: "device_profile \<Rightarrow> bool" where
  "is_core p \<longleftrightarrow> dp_asset_class p = None"

definition protocols_present :: "vuln_db \<Rightarrow> profile_proto list" where
  "protocols_present vuln =
     filter (\<lambda>p. list_ex is_core (by_protocol vuln p)) [Proto_Enip, Proto_Modbus, Proto_S7, Proto_Switch_Snmp]"

text \<open>\<open>xs[rng.gen_range(0..xs.len())]\<close>: an empty range panics.\<close>

definition pick_one :: "'r below \<Rightarrow> 'a list \<Rightarrow> 'r \<Rightarrow> ('a \<times> 'r) exec" where
  "pick_one below xs r =
     (if xs = [] then panic
      else do { let (i, r) = below r (word_of_nat (length xs)); x \<leftarrow> rd xs (unat i); ret (x, r) })"

definition parsed_nets :: "'n net_ops \<Rightarrow> ledger \<Rightarrow> 'n list" where
  "parsed_nets N s = List.map_filter (\<lambda>z. no_parse N (sr_cidr z)) (lg_subnets s)"

text \<open>Operations that may add a zone return the CIDR, the ledger and the generator.\<close>

type_synonym 'r grown = "string option \<times> ledger \<times> 'r"

definition create_zone :: "'n net_ops \<Rightarrow> 'r below \<Rightarrow> vuln_db \<Rightarrow> alloc_params \<Rightarrow> ledger \<Rightarrow> 'r \<Rightarrow> 'r grown exec" where
  "create_zone N below vuln params s r = do {
     (net, r) \<leftarrow> fresh_subnet N below (ap_default_prefix params) (parsed_nets N s) r;
     let protos = protocols_present vuln;
     if protos = [] then ret (None, s, r)
     else do {
       proto \<leftarrow> rd protos (subnet_count s mod length protos);
       let candidates = filter is_core (by_protocol vuln proto);
       if candidates = [] then ret (None, s, r)
       else do {
         (profile, r) \<leftarrow> pick_one below candidates r;
         let rec = \<lparr>sr_cidr = no_show N net,
           sr_zone_name = name_zone (Some (dp_vendor profile)) (Some (family_of (dp_model profile)))
             (dp_purdue_level profile) (subnet_count s),
           sr_purdue_level = dp_purdue_level profile, sr_vendor = Some (dp_vendor profile), sr_domain = None\<rparr>;
         let (s, ok) = add_subnet rec s;
         ret (if ok then Some (no_show N net) else None, s, r)
       }
     }
   }"

definition has_room :: "'n net_ops \<Rightarrow> ipv4 set \<Rightarrow> string \<Rightarrow> bool" where
  "has_room N used cidr = (case no_parse N cidr of None \<Rightarrow> False | Some n \<Rightarrow> next_free_in N n used \<noteq> None)"

definition choose_or_create_subnet ::
  "'n net_ops \<Rightarrow> 'r below \<Rightarrow> 'r coin \<Rightarrow> vuln_db \<Rightarrow> alloc_params \<Rightarrow> ipv4 set \<Rightarrow> ledger \<Rightarrow> 'r \<Rightarrow> 'r grown exec" where
  "choose_or_create_subnet N below coin vuln params used s r = do {
     let with_room = filter (has_room N used) (map sr_cidr (lg_subnets s));
     let can_create = subnet_count s < ap_max_subnets params;
     let need_coverage = subnet_count s < min (length (protocols_present vuln)) (ap_max_subnets params);
     let (create, r) = (if can_create then (if need_coverage \<or> with_room = [] then (True, r) else coin r) else (False, r));
     (made, s, r) \<leftarrow> (if create then create_zone N below vuln params s r else ret (None, s, r));
     case made of
       Some cidr \<Rightarrow> ret (Some cidr, s, r)
     | None \<Rightarrow>
         if with_room = [] then ret (None, s, r)
         else do { (c, r) \<leftarrow> pick_one below with_room r; ret (Some c, s, r) }
   }"

definition pick_profile :: "'r below \<Rightarrow> vuln_db \<Rightarrow> string option \<Rightarrow> 'r \<Rightarrow> (device_profile \<times> 'r) exec" where
  "pick_profile below vuln vendor r =
     (let core = filter is_core vuln;
          matches = (case vendor of Some v \<Rightarrow> filter (\<lambda>p. dp_vendor p = v) core | None \<Rightarrow> [])
      in if matches \<noteq> [] then pick_one below matches r else pick_one below core r)"

definition asset_label_for_proto :: "profile_proto \<Rightarrow> string" where
  "asset_label_for_proto p = (if p = Proto_Switch_Snmp then asset_label Switch else asset_label Controller)"

definition device_macs :: "ledger \<Rightarrow> mac list" where
  "device_macs s = map parse_mac (map dr_mac (lg_devices s) @ map ch_mac (lg_capture_hosts s))"

record 'r fab_state =
  fb_session :: ledger
  fb_used :: "ipv4 set"
  fb_used_macs :: "mac set"
  fb_added :: nat
  fb_rng :: 'r

definition fabricated :: "device_profile \<Rightarrow> ipv4 \<Rightarrow> mac \<Rightarrow> string \<Rightarrow> device_record" where
  "fabricated profile ip mac cidr =
     \<lparr>dr_ip = show_ipv4 ip, dr_mac = fmt_mac mac, dr_vendor = dp_vendor profile, dr_model = dp_model profile,
      dr_firmware = dp_firmware profile, dr_protocol = proto_as_str (dp_protocol profile), dr_cves = dp_cves profile,
      dr_subnet_cidr = cidr, dr_hostname = None, dr_asset_type = Some (asset_label_for_proto (dp_protocol profile))\<rparr>"

text \<open>One iteration of the loop; the flag is \<open>break\<close>.\<close>

definition fab_step ::
  "'n net_ops \<Rightarrow> 'r below \<Rightarrow> 'r coin \<Rightarrow> vuln_db \<Rightarrow> alloc_params \<Rightarrow> 'r fab_state \<Rightarrow> (bool \<times> 'r fab_state) exec" where
  "fab_step N below coin vuln params st = do {
     (cidr, s, r) \<leftarrow> choose_or_create_subnet N below coin vuln params (fb_used st) (fb_session st) (fb_rng st);
     let st = st\<lparr>fb_session := s, fb_rng := r\<rparr>;
     case cidr of
       None \<Rightarrow> ret (True, st)
     | Some cidr \<Rightarrow>
         (case no_parse N cidr of
            None \<Rightarrow> ret (True, st)
          | Some net \<Rightarrow>
              (case next_free_in N net (fb_used st) of
                 None \<Rightarrow> ret (False, st)
               | Some ip \<Rightarrow> do {
                   let zone_vendor = Option.bind (find (\<lambda>z. sr_cidr z = cidr) (lg_subnets s)) sr_vendor;
                   (profile, r) \<leftarrow> pick_profile below vuln zone_vendor r;
                   mac \<leftarrow> salt_search (make_mac profile (lg_seed s) ip) (fb_used_macs st) 0;
                   let st = st\<lparr>fb_used_macs := insert mac (fb_used_macs st), fb_rng := r\<rparr>;
                   let (s, ok) = add_device (fabricated profile ip mac cidr) s;
                   if \<not> ok then ret (True, st)
                   else ret (False, st\<lparr>fb_session := s, fb_used := insert ip (fb_used st), fb_added := fb_added st + 1\<rparr>)
                 }))
   }"

partial_function (option) fab_loop ::
  "'n net_ops \<Rightarrow> 'r below \<Rightarrow> 'r coin \<Rightarrow> vuln_db \<Rightarrow> alloc_params \<Rightarrow> nat \<Rightarrow> 'r fab_state \<Rightarrow> 'r fab_state option" where
  "fab_loop N below coin vuln params target st =
     (if \<not> device_count (fb_session st) < target then Some st
      else Option.bind (fab_step N below coin vuln params st)
        (\<lambda>(stop, st). if stop then Some st else fab_loop N below coin vuln params target st))"

definition fabricate ::
  "'n net_ops \<Rightarrow> 'r below \<Rightarrow> 'r coin \<Rightarrow> ledger \<Rightarrow> vuln_db \<Rightarrow> alloc_params \<Rightarrow> nat \<Rightarrow> 'r \<Rightarrow> (ledger \<times> nat \<times> 'r) exec" where
  "fabricate N below coin s vuln params target r =
     (if vuln = [] then ret (s, 0, r)
      else do {
        st \<leftarrow> fab_loop N below coin vuln params (min target (ap_max_devices params))
          \<lparr>fb_session = s, fb_used = set (used_ips s), fb_used_macs = set (device_macs s), fb_added = 0, fb_rng = r\<rparr>;
        ret (fb_session st, fb_added st, fb_rng st)
      })"

definition L3_VENDORS :: "string list" where
  "L3_VENDORS = [''VMware'', ''Dell'', ''Hewlett Packard'']"

fun create_l3_zones :: "'n net_ops \<Rightarrow> 'r below \<Rightarrow> alloc_params \<Rightarrow> nat \<Rightarrow> ledger \<Rightarrow> 'r \<Rightarrow> (ledger \<times> 'r) exec" where
  "create_l3_zones N below params 0 s r = ret (s, r)"
| "create_l3_zones N below params (Suc n) s r =
     (if ap_max_subnets params \<le> subnet_count s then ret (s, r)
      else do {
        (net, r) \<leftarrow> fresh_subnet N below (ap_default_prefix params) (parsed_nets N s) r;
        let idx = subnet_count s;
        vendor \<leftarrow> rd L3_VENDORS (idx mod length L3_VENDORS);
        let rec = \<lparr>sr_cidr = no_show N net, sr_zone_name = name_zone (Some vendor) None 3 idx, sr_purdue_level = 3,
          sr_vendor = Some vendor, sr_domain = None\<rparr>;
        create_l3_zones N below params n (fst (add_subnet rec s)) r
      })"

section \<open>Free slots\<close>

lemma next_free_in_Some:
  assumes "next_free_in N net used = Some ip"
  shows "ip \<in> set (no_hosts N net)" "ip \<notin> used" "ip \<noteq> gateway_of N net" "ip \<noteq> station_addr_net N net"
  using assms by (auto simp: next_free_in_def find_Some_iff)

lemma firewall_is_gateway: "no_parse N cidr = Some net \<Longrightarrow> firewall_addr N cidr = gateway_of N net"
  by (simp add: firewall_addr_def gateway_of_def)

lemma pick_one_ok:
  assumes "below_ok below" and "xs \<noteq> []" and "length xs < 2 ^ 64"
  obtains x r' where "pick_one below xs r = ret (x, r')" and "x \<in> set xs"
proof -
  obtain i r' where i: "below r (word_of_nat (length xs)) = (i, r')" by fastforce
  then have "unat i < length xs" by (rule draw_index [OF assms])
  then show thesis using i assms(2) by (intro that [of "xs ! unat i" r']) (simp_all add: pick_one_def rd_ok)
qed

lemma ten_block_octet:
  assumes "ten_block p n" and "unat p \<le> 32" and "a AND mask_for p = n"
  shows "octet0 a = 0x0A"
proof -
  have "a = (a AND mask_for p) OR (a AND NOT (mask_for p))" by (rule bit_word_eqI) (auto simp: bit_simps)
  then have "a = host_addr n p a" by (simp add: host_addr_def assms(3))
  then show ?thesis using host_addr_ten [OF assms(1,2), of a] by simp
qed

lemma fresh_subnet_total:
  assumes "net_ok N" and "below_ok below"
  obtains n r' where "fresh_subnet N below pl ex r = ret (n, r')" "\<And>a. no_contains N n a \<Longrightarrow> octet0 a = 0x0A"
proof -
  obtain net r' where p: "pick_new_net below (clamp_prefix pl) r (map (\<lambda>n. (no_network N n, no_prefix_len N n)) ex) = (net, r')"
    by fastforce
  have c: "clamp_prefix pl \<le> 32" using clamp_prefix_bounds(2) [of pl] by (simp add: word_le_nat_alt)
  then obtain n where n: "no_new N net (clamp_prefix pl) = Some n" "no_prefix_len N n = clamp_prefix pl"
    "no_network N n = net AND mask_for (clamp_prefix pl)"
    using assms(1) unfolding net_ok_def by blast
  have t: "ten_block (clamp_prefix pl) net" by (rule pick_new_net_block [OF assms(2) clamp_prefix_bounds(1) p])
  have c32: "unat (clamp_prefix pl) \<le> 32" using c by (simp add: word_le_nat_alt)
  have "no_network N n = net" using ten_block_aligned [OF t c32] n(3) by (simp add: aligned_def)
  then have "a AND mask_for (clamp_prefix pl) = net" if "no_contains N n a" for a
    using assms(1) that n(2) unfolding net_ok_def by metis
  then have "octet0 a = 0x0A" if "no_contains N n a" for a using ten_block_octet [OF t c32] that by blast
  moreover have "fresh_subnet N below pl ex r = ret (n, r')" using p n(1) by (simp add: fresh_subnet_def)
  ultimately show thesis using that by blast
qed

section \<open>Zones only grow\<close>

text \<open>What an operation that may add a zone does to the ledger.\<close>

text \<open>A zone of 10/8.\<close>

definition ten_zone :: "'n net_ops \<Rightarrow> subnet_record \<Rightarrow> bool" where
  "ten_zone N z \<longleftrightarrow> (\<exists>net. sr_cidr z = no_show N net \<and> (\<forall>a. no_contains N net a \<longrightarrow> octet0 a = 0x0A))"

definition zones_grow :: "'n net_ops \<Rightarrow> ledger \<Rightarrow> ledger \<Rightarrow> bool" where
  "zones_grow N s s' \<longleftrightarrow> (\<exists>zs. s' = s\<lparr>lg_subnets := lg_subnets s @ zs\<rparr> \<and> (\<forall>z \<in> set zs. ten_zone N z)) \<and>
     (ledger_ok s \<longrightarrow> ledger_ok s')"

lemma zones_grow_refl: "zones_grow N s s"
  unfolding zones_grow_def by (intro conjI exI [of _ "[]"]) simp_all

lemma zones_grow_trans:
  assumes "zones_grow N s s'" and "zones_grow N s' s''"
  shows "zones_grow N s s''"
proof -
  obtain zs where 1: "s' = s\<lparr>lg_subnets := lg_subnets s @ zs\<rparr>" "\<forall>z \<in> set zs. ten_zone N z"
    using assms(1) unfolding zones_grow_def by blast
  obtain zs' where 2: "s'' = s'\<lparr>lg_subnets := lg_subnets s' @ zs'\<rparr>" "\<forall>z \<in> set zs'. ten_zone N z"
    using assms(2) unfolding zones_grow_def by blast
  have "s'' = s\<lparr>lg_subnets := lg_subnets s @ (zs @ zs')\<rparr>" "\<forall>z \<in> set (zs @ zs'). ten_zone N z" using 1 2 by auto
  then show ?thesis using assms unfolding zones_grow_def by blast
qed

lemma zones_growD:
  assumes "zones_grow N s s'"
  shows "lg_devices s' = lg_devices s" "lg_capture_hosts s' = lg_capture_hosts s" "lg_seed s' = lg_seed s"
    "sr_cidr ` set (lg_subnets s) \<subseteq> sr_cidr ` set (lg_subnets s')" "subnet_count s \<le> subnet_count s'"
    "used_ips s' = used_ips s" "device_macs s' = device_macs s"
  using assms by (auto simp: zones_grow_def subnet_count_def used_ips_def device_macs_def)

lemma add_subnet_grow:
  assumes "add_subnet rec s = (s', ok)" and "ten_zone N rec"
  shows "zones_grow N s s'" "subnet_count s' = subnet_count s + of_bool ok" "ok \<Longrightarrow> sr_cidr rec \<in> sr_cidr ` set (lg_subnets s')"
proof -
  have "ledger_ok s \<longrightarrow> ledger_ok s'" using assms ledger_step_ok [of s "Add_Subnet rec"] by simp
  moreover have "\<exists>zs. s' = s\<lparr>lg_subnets := lg_subnets s @ zs\<rparr> \<and> (\<forall>z \<in> set zs. ten_zone N z)"
    using assms by (cases ok) (auto simp: add_subnet_def split: if_splits intro: exI [of _ "[]"])
  ultimately show "zones_grow N s s'" by (simp add: zones_grow_def)
  show "subnet_count s' = subnet_count s + of_bool ok" "ok \<Longrightarrow> sr_cidr rec \<in> sr_cidr ` set (lg_subnets s')"
    using assms by (auto simp: add_subnet_def subnet_count_def split: if_splits)
qed

lemma core_protocol:
  assumes "p \<in> set vuln" and "is_core p"
  shows "dp_protocol p \<in> set (protocols_present vuln)"
  using assms by (cases "dp_protocol p") (auto simp: protocols_present_def by_protocol_def list_ex_iff)

lemma protocols_present_core:
  "proto \<in> set (protocols_present vuln) \<Longrightarrow> filter is_core (by_protocol vuln proto) \<noteq> []"
  unfolding protocols_present_def by (simp only: set_filter mem_Collect_eq list_ex_iff filter_empty_conv) blast

lemma create_zone_ok:
  assumes N: "net_ok N" and b: "below_ok below" and db: "length vuln < 2 ^ 64"
  obtains cidr s' r' where "create_zone N below vuln params s r = ret (cidr, s', r')" "zones_grow N s s'"
    "cidr = None \<Longrightarrow> s' = s"
    "\<And>c. cidr = Some c \<Longrightarrow> subnet_count s' = subnet_count s + 1 \<and> c \<in> sr_cidr ` set (lg_subnets s') \<and> (\<exists>n. c = no_show N n)"
proof -
  obtain net r1 where net: "fresh_subnet N below (ap_default_prefix params) (parsed_nets N s) r = ret (net, r1)"
    and ten: "\<And>a. no_contains N net a \<Longrightarrow> octet0 a = 0x0A"
    using fresh_subnet_total [OF N b, of "ap_default_prefix params" "parsed_nets N s" r] by metis
  show thesis
  proof (cases "protocols_present vuln = []")
    case True
    then have "create_zone N below vuln params s r = ret (None, s, r1)"
      unfolding create_zone_def net bind.bind_lunit prod.case Let_def by simp
    from that [OF this] zones_grow_refl [of N s] show thesis by simp
  next
    case False
    then have i: "subnet_count s mod length (protocols_present vuln) < length (protocols_present vuln)" by simp
    define proto where "proto = protocols_present vuln ! (subnet_count s mod length (protocols_present vuln))"
    let ?cs = "filter is_core (by_protocol vuln proto)"
    have cs: "?cs \<noteq> []" using protocols_present_core nth_mem [OF i] by (simp add: proto_def)
    have "length ?cs \<le> length vuln" unfolding by_protocol_def by (metis filter_filter length_filter_le)
    then have "length ?cs < 2 ^ 64" using db by (rule le_less_trans)
    from pick_one_ok [OF b cs this, of r1] obtain p r2 where p: "pick_one below ?cs r1 = ret (p, r2)" by blast
    let ?rec = "\<lparr>sr_cidr = no_show N net, sr_zone_name = name_zone (Some (dp_vendor p)) (Some (family_of (dp_model p)))
             (dp_purdue_level p) (subnet_count s), sr_purdue_level = dp_purdue_level p, sr_vendor = Some (dp_vendor p),
             sr_domain = None\<rparr>"
    obtain s' ok where a: "add_subnet ?rec s = (s', ok)" by fastforce
    have tz: "ten_zone N ?rec" using ten by (auto simp: ten_zone_def)
    have "create_zone N below vuln params s r = ret (if ok then Some (no_show N net) else None, s', r2)"
      unfolding create_zone_def net bind.bind_lunit prod.case Let_def if_not_P [OF False] rd_ok [OF i] proto_def [symmetric]
        if_not_P [OF cs] p a by simp
    note cz = this
    have same: "\<not> ok \<Longrightarrow> s' = s" using a by (auto simp: add_subnet_def split: if_splits)
    show thesis
      by (rule that [OF cz add_subnet_grow(1) [OF a tz]]) (use add_subnet_grow(2,3) [OF a tz] same in \<open>auto split: if_splits\<close>)
  qed
qed

definition shows_ok :: "'n net_ops \<Rightarrow> bool" where
  "shows_ok N \<longleftrightarrow> (\<forall>n. no_parse N (no_show N n) = Some n)"

lemma has_room_parse: "has_room N used c \<longleftrightarrow> (\<exists>n ip. no_parse N c = Some n \<and> next_free_in N n used = Some ip)"
  by (auto simp: has_room_def split: option.split)

lemma choose_subnet_ok:
  assumes N: "net_ok N" "shows_ok N" and b: "below_ok below" and db: "length vuln < 2 ^ 64" and s: "ledger_ok s"
  obtains cidr s' r' where "choose_or_create_subnet N below coin vuln params used s r = ret (cidr, s', r')" "zones_grow N s s'"
    "cidr = None \<Longrightarrow> s' = s \<and> (\<forall>z \<in> set (lg_subnets s). \<not> has_room N used (sr_cidr z))"
    "\<And>c. cidr = Some c \<Longrightarrow> c \<in> sr_cidr ` set (lg_subnets s') \<and> no_parse N c \<noteq> None \<and>
       (has_room N used c \<or> subnet_count s < ap_max_subnets params \<and> subnet_count s' = subnet_count s + 1)"
proof -
  let ?room = "filter (has_room N used) (map sr_cidr (lg_subnets s))"
  obtain create r1 where c: "(if subnet_count s < ap_max_subnets params
      then (if subnet_count s < min (length (protocols_present vuln)) (ap_max_subnets params) \<or> ?room = [] then (True, r) else coin r)
      else (False, r)) = (create, r1)" by fastforce
  have can: "create \<Longrightarrow> subnet_count s < ap_max_subnets params" using c by (auto split: if_splits)
  obtain made s' r2 where m: "(if create then create_zone N below vuln params s r1 else ret (None, s, r1)) = ret (made, s', r2)"
    "zones_grow N s s'" "made = None \<Longrightarrow> s' = s"
    "\<And>c. made = Some c \<Longrightarrow> create \<and> subnet_count s' = subnet_count s + 1 \<and> c \<in> sr_cidr ` set (lg_subnets s') \<and> (\<exists>n. c = no_show N n)"
  proof (cases create)
    case True
    from create_zone_ok [OF N(1) b db, of params s r1] show thesis
      using True by (metis that)
  next
    case False
    then show thesis using that [of None s r1] zones_grow_refl [of N s] by simp
  qed
  show thesis
  proof (cases made)
    case (Some cidr)
    have "choose_or_create_subnet N below coin vuln params used s r = ret (Some cidr, s', r2)"
      unfolding choose_or_create_subnet_def Let_def c prod.case m(1) bind.bind_lunit Some by simp
    then show thesis
      using m(2) m(4) [OF Some] can N(2) by (intro that) (auto simp: shows_ok_def)
  next
    case None
    note s' = m(3) [OF None]
    show thesis
    proof (cases "?room = []")
      case True
      have "choose_or_create_subnet N below coin vuln params used s r = ret (None, s', r2)"
        unfolding choose_or_create_subnet_def Let_def c prod.case m(1) bind.bind_lunit None using True by simp
      then show thesis using True s' zones_grow_refl by (intro that) (auto simp: filter_empty_conv)
    next
      case False
      have "length ?room \<le> length (lg_subnets s)" by (metis length_filter_le length_map)
      also have "\<dots> \<le> 16" using s by (simp add: ledger_ok_def MAX_SUBNETS_def)
      finally have "length ?room < 2 ^ 64" by (rule le_less_trans) simp
      from pick_one_ok [OF b False this, of r2] obtain cidr r3 where k: "pick_one below ?room r2 = ret (cidr, r3)" "cidr \<in> set ?room"
        by blast
      have "choose_or_create_subnet N below coin vuln params used s r = ret (Some cidr, s', r3)"
        unfolding choose_or_create_subnet_def Let_def c prod.case m(1) bind.bind_lunit None option.case if_not_P [OF False] k(1)
        by simp
      then show thesis
        using k(2) s' zones_grow_refl by (intro that) (auto simp: has_room_parse)
    qed
  qed
qed

lemma pick_profile_ok:
  assumes b: "below_ok below" and db: "length vuln < 2 ^ 64" and core: "\<exists>p \<in> set vuln. is_core p"
  obtains p r' where "pick_profile below vuln vendor r = ret (p, r')" "p \<in> set vuln" "is_core p"
proof -
  let ?core = "filter is_core vuln"
  let ?m = "case vendor of Some v \<Rightarrow> filter (\<lambda>p. dp_vendor p = v) ?core | None \<Rightarrow> []"
  define xs where "xs = (if ?m \<noteq> [] then ?m else ?core)"
  have sub: "set xs \<subseteq> set ?core" by (auto simp: xs_def split: option.splits)
  have "length ?m \<le> length vuln"
    by (cases vendor) (auto intro: order_trans [OF length_filter_le length_filter_le])
  moreover have "length ?core \<le> length vuln" by simp
  ultimately have "length xs \<le> length vuln" unfolding xs_def by (cases "?m \<noteq> []") simp_all
  then have "length xs < 2 ^ 64" using db by (rule le_less_trans)
  moreover have "xs \<noteq> []" using core by (auto simp: xs_def filter_empty_conv)
  ultimately obtain p r' where p: "pick_one below xs r = ret (p, r')" "p \<in> set xs" using pick_one_ok [OF b] by blast
  then have "pick_profile below vuln vendor r = ret (p, r')" by (simp add: pick_profile_def xs_def Let_def split: if_splits)
  then show thesis using p(2) sub by (intro that) auto
qed

section \<open>The invariant of the loop\<close>

text \<open>A fabricated device: a free slot of a zone of the ledger, with the identity of a core profile.\<close>

definition fab_device :: "'n net_ops \<Rightarrow> vuln_db \<Rightarrow> ledger \<Rightarrow> device_record \<Rightarrow> bool" where
  "fab_device N vuln s d \<longleftrightarrow> (\<exists>p ip mac net. p \<in> set vuln \<and> is_core p \<and> length mac = 6 \<and>
     d = fabricated p ip mac (dr_subnet_cidr d) \<and>
     dr_subnet_cidr d \<in> sr_cidr ` set (lg_subnets s) \<and> no_parse N (dr_subnet_cidr d) = Some net \<and>
     ip \<in> set (no_hosts N net) \<and> ip \<noteq> gateway_of N net \<and> ip \<noteq> station_addr_net N net)"

lemma fab_device_grow: "fab_device N vuln s d \<Longrightarrow> zones_grow N s s' \<Longrightarrow> fab_device N vuln s' d"
  using zones_growD(4) unfolding fab_device_def by blast

text \<open>Addresses and MACs of the ledger are unique.\<close>

definition plant_unique :: "ledger \<Rightarrow> bool" where
  "plant_unique s \<longleftrightarrow> distinct (used_ips s) \<and> distinct (device_macs s)"

text \<open>A ledger grown from another by zones and fabricated devices.\<close>

definition grown_by :: "'n net_ops \<Rightarrow> vuln_db \<Rightarrow> ledger \<Rightarrow> nat \<Rightarrow> ledger \<Rightarrow> bool" where
  "grown_by N vuln s0 n s \<longleftrightarrow>
     (\<exists>zs ds. s = s0\<lparr>lg_subnets := lg_subnets s0 @ zs, lg_devices := lg_devices s0 @ ds\<rparr> \<and> length ds = n \<and>
        (\<forall>z \<in> set zs. ten_zone N z) \<and> (\<forall>d \<in> set ds. fab_device N vuln s d)) \<and>
     (ledger_ok s0 \<longrightarrow> ledger_ok s) \<and> (plant_unique s0 \<longrightarrow> plant_unique s)"

lemma grown_by_refl: "grown_by N vuln s 0 s"
  unfolding grown_by_def by (intro conjI exI [of _ "[]"]) simp_all

lemma grown_by_zones:
  assumes "grown_by N vuln s0 n s" and g: "zones_grow N s s'"
  shows "grown_by N vuln s0 n s'"
proof -
  obtain zs ds where s: "s = s0\<lparr>lg_subnets := lg_subnets s0 @ zs, lg_devices := lg_devices s0 @ ds\<rparr>" "length ds = n"
    "\<forall>d \<in> set ds. fab_device N vuln s d" "\<forall>z \<in> set zs. ten_zone N z" using assms(1) by (auto simp: grown_by_def)
  obtain zs' where s': "s' = s\<lparr>lg_subnets := lg_subnets s @ zs'\<rparr>" "\<forall>z \<in> set zs'. ten_zone N z"
    using g by (auto simp: zones_grow_def)
  have "s' = s0\<lparr>lg_subnets := lg_subnets s0 @ (zs @ zs'), lg_devices := lg_devices s0 @ ds\<rparr>"
    using s(1) s'(1) by simp
  moreover have "\<forall>z \<in> set (zs @ zs'). ten_zone N z" using s(4) s'(2) by auto
  moreover have "\<forall>d \<in> set ds. fab_device N vuln s' d" using s(3) fab_device_grow [OF _ g] by blast
  moreover have "ledger_ok s0 \<longrightarrow> ledger_ok s'" "plant_unique s0 \<longrightarrow> plant_unique s'"
    using assms zones_growD(6,7) [OF g] by (auto simp: grown_by_def zones_grow_def plant_unique_def)
  ultimately show ?thesis unfolding grown_by_def using s(2) by blast
qed

lemma map_filter_append: "List.map_filter f (xs @ ys) = List.map_filter f xs @ List.map_filter f ys"
  by (simp add: List.map_filter_def)

lemma add_device_mset:
  assumes "add_device d s = (s', True)"
  shows "ipv4_from_str (dr_ip d) = Some ip \<Longrightarrow> mset (used_ips s') = mset (ip # used_ips s)"
    and "mset (device_macs s') = mset (parse_mac (dr_mac d) # device_macs s)"
  using assms
  by (auto simp: add_device_def used_ips_def device_macs_def map_filter_append List.map_filter_def split: if_splits)

lemma add_device_unique:
  assumes "add_device d s = (s', True)" and "ipv4_from_str (dr_ip d) = Some ip" and "plant_unique s"
    and "ip \<notin> set (used_ips s)" and "parse_mac (dr_mac d) \<notin> set (device_macs s)"
  shows "plant_unique s'"
proof -
  have "distinct (used_ips s') \<longleftrightarrow> distinct (ip # used_ips s)"
    by (rule mset_eq_imp_distinct_iff) (rule add_device_mset(1) [OF assms(1,2)])
  moreover have "distinct (device_macs s') \<longleftrightarrow> distinct (parse_mac (dr_mac d) # device_macs s)"
    by (rule mset_eq_imp_distinct_iff) (rule add_device_mset(2) [OF assms(1)])
  ultimately show ?thesis using assms(3-5) by (simp add: plant_unique_def)
qed

lemma add_device_sets:
  assumes "add_device d s = (s', True)" and "ipv4_from_str (dr_ip d) = Some ip"
  shows "set (used_ips s') = insert ip (set (used_ips s))"
    and "set (device_macs s') = insert (parse_mac (dr_mac d)) (set (device_macs s))"
  using add_device_mset [OF assms(1)] assms(2) by (metis list.set(2) set_mset_mset)+

lemma grown_by_device:
  assumes g: "grown_by N vuln s0 n s" and a: "add_device d s = (s', True)" and d: "fab_device N vuln s d"
    and ip: "ipv4_from_str (dr_ip d) = Some ip" "ip \<notin> set (used_ips s)" and mac: "parse_mac (dr_mac d) \<notin> set (device_macs s)"
  shows "grown_by N vuln s0 (Suc n) s'"
proof -
  obtain zs ds where s: "s = s0\<lparr>lg_subnets := lg_subnets s0 @ zs, lg_devices := lg_devices s0 @ ds\<rparr>" "length ds = n"
    "\<forall>d \<in> set ds. fab_device N vuln s d" "\<forall>z \<in> set zs. ten_zone N z" using g by (auto simp: grown_by_def)
  have s': "s' = s\<lparr>lg_devices := lg_devices s @ [d]\<rparr>" using a by (auto simp: add_device_def split: if_splits)
  then have "s' = s0\<lparr>lg_subnets := lg_subnets s0 @ zs, lg_devices := lg_devices s0 @ (ds @ [d])\<rparr>" using s(1) by simp
  moreover have "\<forall>e \<in> set (ds @ [d]). fab_device N vuln s' e" using s(3) d s' by (auto simp: fab_device_def)
  moreover have "ledger_ok s0 \<longrightarrow> ledger_ok s'"
    using g a ledger_step_ok [of s "Add_Device d"] by (auto simp: grown_by_def)
  moreover have "plant_unique s0 \<longrightarrow> plant_unique s'"
    using g add_device_unique [OF a ip(1) _ ip(2) mac] by (auto simp: grown_by_def)
  ultimately show ?thesis unfolding grown_by_def using s(2,4) by (metis length_append_singleton)
qed

definition fab_inv :: "'n net_ops \<Rightarrow> vuln_db \<Rightarrow> ledger \<Rightarrow> 'r fab_state \<Rightarrow> bool" where
  "fab_inv N vuln s0 st \<longleftrightarrow> grown_by N vuln s0 (fb_added st) (fb_session st) \<and>
     fb_used st = set (used_ips (fb_session st)) \<and> fb_used_macs st = set (device_macs (fb_session st))"

text \<open>The loop stops for want of room, or at the cap of the ledger.\<close>

definition full :: "'n net_ops \<Rightarrow> ledger \<Rightarrow> bool" where
  "full N s \<longleftrightarrow> MAX_DEVICES \<le> device_count s \<or> (\<forall>z \<in> set (lg_subnets s). \<not> has_room N (set (used_ips s)) (sr_cidr z))"

definition fab_work :: "alloc_params \<Rightarrow> nat \<Rightarrow> 'r fab_state \<Rightarrow> nat" where
  "fab_work params target st =
     (target - device_count (fb_session st)) + (ap_max_subnets params - subnet_count (fb_session st))"

text \<open>What the allocator asks of its surroundings.\<close>

definition fab_world :: "'n net_ops \<Rightarrow> 'r below \<Rightarrow> vuln_db \<Rightarrow> bool" where
  "fab_world N below vuln \<longleftrightarrow> net_ok N \<and> shows_ok N \<and> below_ok below \<and> length vuln < 2 ^ 64 \<and> (\<exists>p \<in> set vuln. is_core p)"

definition macs_room :: "ledger \<Rightarrow> bool" where
  "macs_room s \<longleftrightarrow> capture_host_count s + 2 * MAX_DEVICES < 2 ^ 24"

lemma macs_room_card: "macs_room s \<Longrightarrow> ledger_ok s \<Longrightarrow> card (set (device_macs s)) < 2 ^ 24"
  by (rule le_less_trans [OF card_length])
    (simp add: device_macs_def macs_room_def ledger_ok_def capture_host_count_def)

lemma grown_by_fixed:
  assumes "grown_by N vuln s0 n s"
  shows "lg_capture_hosts s = lg_capture_hosts s0" "lg_seed s = lg_seed s0" "ledger_ok s0 \<Longrightarrow> ledger_ok s"
    "macs_room s \<longleftrightarrow> macs_room s0" "device_count s = device_count s0 + n"
  using assms by (auto simp: grown_by_def macs_room_def capture_host_count_def device_count_def)

lemma fab_step_ok:
  assumes w: "fab_world N below vuln" and s0: "ledger_ok s0" "macs_room s0" and inv: "fab_inv N vuln s0 st"
  obtains stop st' where "fab_step N below coin vuln params st = ret (stop, st')"
    "grown_by N vuln s0 (fb_added st') (fb_session st')" "device_count (fb_session st') \<le> Suc (device_count (fb_session st))"
    "stop \<Longrightarrow> full N (fb_session st')"
    "\<not> stop \<Longrightarrow> fab_inv N vuln s0 st' \<and> (device_count (fb_session st) < target \<longrightarrow>
       fab_work params target st' < fab_work params target st)"
proof -
  let ?s = "fb_session st"
  have N: "net_ok N" "shows_ok N" and b: "below_ok below" and db: "length vuln < 2 ^ 64" and core: "\<exists>p \<in> set vuln. is_core p"
    using w by (simp_all add: fab_world_def)
  have g: "grown_by N vuln s0 (fb_added st) ?s" and used: "fb_used st = set (used_ips ?s)"
    and macs: "fb_used_macs st = set (device_macs ?s)" using inv by (simp_all add: fab_inv_def)
  note s = grown_by_fixed [OF g]
  obtain cidr s1 r1 where c: "choose_or_create_subnet N below coin vuln params (fb_used st) ?s (fb_rng st) = ret (cidr, s1, r1)"
    "zones_grow N ?s s1" "cidr = None \<Longrightarrow> s1 = ?s \<and> (\<forall>z \<in> set (lg_subnets ?s). \<not> has_room N (fb_used st) (sr_cidr z))"
    "\<And>c. cidr = Some c \<Longrightarrow> c \<in> sr_cidr ` set (lg_subnets s1) \<and> no_parse N c \<noteq> None \<and>
       (has_room N (fb_used st) c \<or> subnet_count ?s < ap_max_subnets params \<and> subnet_count s1 = subnet_count ?s + 1)"
    using choose_subnet_ok [OF N b db s(3) [OF s0(1)], where used = "fb_used st" and r = "fb_rng st" and params = params and coin = coin]
    by blast
  let ?st1 = "st\<lparr>fb_session := s1, fb_rng := r1\<rparr>"
  note g1 = grown_by_zones [OF g c(2)]
  note z = zones_growD [OF c(2)]
  have n1: "device_count s1 = device_count ?s" using z(1) by (simp add: device_count_def)
  show thesis
  proof (cases cidr)
    case None
    have "fab_step N below coin vuln params st = ret (True, ?st1)"
      unfolding fab_step_def Let_def c(1) bind.bind_lunit prod.case None by simp
    moreover have "full N s1" using c(3) [OF None] used by (simp add: full_def)
    ultimately show thesis using g1 n1 by (intro that [of True ?st1]) simp_all
  next
    case (Some k)
    note k = c(4) [OF Some]
    then obtain net where net: "no_parse N k = Some net" by blast
    show thesis
    proof (cases "next_free_in N net (fb_used st)")
      case None
      have "fab_step N below coin vuln params st = ret (False, ?st1)"
        unfolding fab_step_def Let_def c(1) bind.bind_lunit prod.case Some option.case net using None by simp
      moreover have "subnet_count ?s < ap_max_subnets params \<and> subnet_count s1 = subnet_count ?s + 1"
        using k net None by (simp add: has_room_def)
      moreover have "fab_inv N vuln s0 ?st1" using g1 used macs z(6,7) by (simp add: fab_inv_def)
      ultimately show thesis using g1 n1 by (intro that [of False ?st1]) (auto simp: fab_work_def)
    next
      case ip: (Some ip)
      note slot = next_free_in_Some [OF ip]
      let ?zv = "Option.bind (find (\<lambda>z. sr_cidr z = k) (lg_subnets s1)) sr_vendor"
      obtain p r2 where p: "pick_profile below vuln ?zv r1 = ret (p, r2)" "p \<in> set vuln" "is_core p"
        using pick_profile_ok [OF b db core, of ?zv r1] by blast
      have "card (fb_used_macs st) < 2 ^ 24" using macs_room_card [of ?s] s(3,4) s0 macs by simp
      then obtain salt where salt: "salt_search (make_mac p (lg_seed s1) ip) (fb_used_macs st) 0 = Some (make_mac p (lg_seed s1) ip salt)"
        "make_mac p (lg_seed s1) ip salt \<notin> fb_used_macs st"
        using make.search_total [of "fb_used_macs st" p "lg_seed s1" ip] macs by (metis List.finite_set)
      define mac where "mac = make_mac p (lg_seed s1) ip salt"
      have lm: "length mac = 6" by (simp add: mac_def)
      let ?d = "fabricated p ip mac k"
      obtain s2 ok where a: "add_device ?d s1 = (s2, ok)" by fastforce
      let ?st2 = "?st1\<lparr>fb_used_macs := insert mac (fb_used_macs st), fb_rng := r2\<rparr>"
      have step: "fab_step N below coin vuln params st =
          (if \<not> ok then ret (True, ?st2)
           else ret (False, ?st2\<lparr>fb_session := s2, fb_used := insert ip (fb_used st), fb_added := fb_added st + 1\<rparr>))"
        unfolding fab_step_def Let_def c(1) bind.bind_lunit prod.case Some option.case net
        by (simp add: ip p(1) salt(1) mac_def [symmetric] a del: bind_exec_Some)
      have d: "ipv4_from_str (dr_ip ?d) = Some ip" "parse_mac (dr_mac ?d) = mac" "dr_subnet_cidr ?d = k"
        by (simp_all add: fabricated_def ipv4_show parse_fmt_mac [OF lm])
      have fd: "fab_device N vuln s1 ?d"
        unfolding fab_device_def d(3) using p(2,3) lm k net slot by blast
      show thesis
      proof (cases ok)
        case True
        have a: "add_device ?d s1 = (s2, True)" using a True by simp
        have "grown_by N vuln s0 (Suc (fb_added st)) s2"
          by (rule grown_by_device [OF g1 a fd d(1)]) (use slot(2) used macs salt(2) z(6,7) d(2) in \<open>simp_all add: mac_def\<close>)
        moreover have "device_count s2 = device_count ?s + 1" "subnet_count s2 = subnet_count s1"
          using a z(1) by (auto simp: add_device_def device_count_def subnet_count_def split: if_splits)
        moreover have "set (used_ips s2) = insert ip (fb_used st)" "set (device_macs s2) = insert mac (fb_used_macs st)"
          using add_device_sets [OF a d(1)] d(2) used macs z(6,7) by simp_all
        ultimately show thesis
          using step True z(5) by (intro that [of False "?st2\<lparr>fb_session := s2, fb_used := insert ip (fb_used st), fb_added := fb_added st + 1\<rparr>"])
            (auto simp: fab_inv_def fab_work_def)
      next
        case False
        then have "MAX_DEVICES \<le> device_count s1" using a by (auto simp: add_device_def device_count_def split: if_splits)
        then show thesis using step False g1 n1 by (intro that [of True ?st2]) (simp_all add: full_def)
      qed
    qed
  qed
qed

lemma fab_loop_ok:
  assumes w: "fab_world N below vuln" and s0: "ledger_ok s0" "macs_room s0" and inv: "fab_inv N vuln s0 st"
  obtains st' where "fab_loop N below coin vuln params target st = Some st'"
    "grown_by N vuln s0 (fb_added st') (fb_session st')" "target \<le> device_count (fb_session st') \<or> full N (fb_session st')"
    "device_count (fb_session st') \<le> max target (device_count (fb_session st))"
proof -
  have "\<exists>st'. fab_loop N below coin vuln params target st = Some st' \<and>
      grown_by N vuln s0 (fb_added st') (fb_session st') \<and> (target \<le> device_count (fb_session st') \<or> full N (fb_session st')) \<and>
      device_count (fb_session st') \<le> max target (device_count (fb_session st))"
    using inv
  proof (induction "fab_work params target st" arbitrary: st rule: less_induct)
    case less
    show ?case
    proof (cases "device_count (fb_session st) < target")
      case False
      then show ?thesis using less.prems by (subst fab_loop.simps) (auto simp: fab_inv_def)
    next
      case True
      from fab_step_ok [OF w s0 less.prems, where coin = coin and params = params and target = target]
      obtain stop st1 where 1: "fab_step N below coin vuln params st = ret (stop, st1)"
        "grown_by N vuln s0 (fb_added st1) (fb_session st1)" "device_count (fb_session st1) \<le> Suc (device_count (fb_session st))"
        "stop \<Longrightarrow> full N (fb_session st1)" "\<not> stop \<Longrightarrow> fab_inv N vuln s0 st1 \<and> (device_count (fb_session st) < target \<longrightarrow>
          fab_work params target st1 < fab_work params target st)" by metis
      have loop: "fab_loop N below coin vuln params target st =
          (if stop then Some st1 else fab_loop N below coin vuln params target st1)"
        using True 1(1) by (subst fab_loop.simps) simp
      show ?thesis
      proof (cases stop)
        case True
        then show ?thesis using loop 1 \<open>device_count (fb_session st) < target\<close> by simp
      next
        case False
        then have "fab_work params target st1 < fab_work params target st" "fab_inv N vuln s0 st1" using 1(5) True by auto
        from less.hyps [OF this] obtain st' where "fab_loop N below coin vuln params target st1 = Some st'"
          "grown_by N vuln s0 (fb_added st') (fb_session st')" "target \<le> device_count (fb_session st') \<or> full N (fb_session st')"
          "device_count (fb_session st') \<le> max target (device_count (fb_session st1))" by blast
        then show ?thesis using loop False 1(3) True by auto
      qed
    qed
  qed
  then show thesis using that by blast
qed

text \<open>Fabrication returns a grown ledger that has reached the target, unless there is no room for more.\<close>

lemma fabricate_ok:
  assumes w: "fab_world N below vuln" and s: "ledger_ok s" "macs_room s"
  obtains s' n r' where "fabricate N below coin s vuln params target r = ret (s', n, r')" "grown_by N vuln s n s'"
    "min target (ap_max_devices params) \<le> device_count s' \<or> full N s'"
    "device_count s' \<le> max (min target (ap_max_devices params)) (device_count s)"
proof -
  have "vuln \<noteq> []" using w by (auto simp: fab_world_def)
  let ?st = "\<lparr>fb_session = s, fb_used = set (used_ips s), fb_used_macs = set (device_macs s), fb_added = 0, fb_rng = r\<rparr>"
  have "fab_inv N vuln s ?st" by (simp add: fab_inv_def grown_by_refl)
  from fab_loop_ok [OF w s this, where coin = coin and params = params and target = "min target (ap_max_devices params)"]
  obtain st where "fab_loop N below coin vuln params (min target (ap_max_devices params)) ?st = Some st"
    "grown_by N vuln s (fb_added st) (fb_session st)"
    "min target (ap_max_devices params) \<le> device_count (fb_session st) \<or> full N (fb_session st)"
    "device_count (fb_session st) \<le> max (min target (ap_max_devices params)) (device_count s)" by auto
  then show thesis using \<open>vuln \<noteq> []\<close> by (intro that [of "fb_session st" "fb_added st" "fb_rng st"]) (simp_all add: fabricate_def)
qed

lemma create_l3_zones_ok:
  assumes "net_ok N" and "below_ok below"
  obtains s' r' where "create_l3_zones N below params n s r = ret (s', r')" "zones_grow N s s'"
proof -
  have "\<exists>s' r'. create_l3_zones N below params n s r = ret (s', r') \<and> zones_grow N s s'"
  proof (induction n arbitrary: s r)
    case (Suc n)
    show ?case
    proof (cases "ap_max_subnets params \<le> subnet_count s")
      case False
      obtain net r1 where net: "fresh_subnet N below (ap_default_prefix params) (parsed_nets N s) r = ret (net, r1)"
        and ten: "\<And>a. no_contains N net a \<Longrightarrow> octet0 a = 0x0A"
        using fresh_subnet_total [OF assms, of "ap_default_prefix params" "parsed_nets N s" r] by metis
      have i: "subnet_count s mod length L3_VENDORS < length L3_VENDORS" by (simp add: L3_VENDORS_def)
      let ?v = "L3_VENDORS ! (subnet_count s mod length L3_VENDORS)"
      let ?rec = "\<lparr>sr_cidr = no_show N net, sr_zone_name = name_zone (Some ?v) None 3 (subnet_count s), sr_purdue_level = 3,
          sr_vendor = Some ?v, sr_domain = None\<rparr>"
      obtain s1 ok where a: "add_subnet ?rec s = (s1, ok)" by fastforce
      have tz: "ten_zone N ?rec" using ten by (auto simp: ten_zone_def)
      have "create_l3_zones N below params (Suc n) s r = create_l3_zones N below params n s1 r1"
        using False net by (simp add: rd_ok [OF i] a Let_def)
      then show ?thesis using Suc [of s1 r1] zones_grow_trans [OF add_subnet_grow(1) [OF a tz]] by auto
    qed (simp add: zones_grow_refl)
  qed (simp add: zones_grow_refl)
  then show thesis using that by blast
qed

end
