(* ===== verification/Enrich.thy ===== *)
theory Enrich
  imports Fabricate
begin

text \<open>
  \<open>src/simulate/devices.rs\<close> after the controllers are fabricated: DNS domains of the zones, host names of the
  devices, and the bill of materials of every zone; and the composition of the steps in \<open>cmd_plan\<close> of
  \<open>src/simulate/mod.rs\<close>.
\<close>

section \<open>Code\<close>

definition asset_type_of :: "device_record \<Rightarrow> asset_type" where
  "asset_type_of dev =
     (if dr_asset_type dev = Some ''Switch'' then Switch
      else if dr_asset_type dev = Some ''Router'' then Router
      else if dr_asset_type dev = Some ''HMI'' then Hmi
      else if dr_asset_type dev = Some ''EWS'' then EngWorkstation
      else if dr_asset_type dev = Some ''Historian'' then Historian
      else if dr_asset_type dev = Some ''Firewall'' then Firewall
      else if dr_asset_type dev = Some ''Server'' then ServerAsset
      else Controller)"

fun bom_vendor :: "asset_type \<Rightarrow> string" where
  "bom_vendor Firewall = ''Fortinet''"
| "bom_vendor Switch = ''Cisco Systems''"
| "bom_vendor Router = ''Cisco Systems''"
| "bom_vendor Hmi = ''Advantech''"
| "bom_vendor EngWorkstation = ''Dell''"
| "bom_vendor Historian = ''Hewlett Packard''"
| "bom_vendor ServerAsset = ''VMware''"
| "bom_vendor Controller = []"

fun bom_model :: "asset_type \<Rightarrow> string" where
  "bom_model Firewall = ''FortiGate 40F''"
| "bom_model Switch = ''Catalyst IE-3300''"
| "bom_model Router = ''ISR 4321''"
| "bom_model Hmi = ''WebOP-2070T''"
| "bom_model EngWorkstation = ''OptiPlex 7090''"
| "bom_model Historian = ''ProLiant DL360''"
| "bom_model ServerAsset = ''ESXi Host''"
| "bom_model Controller = []"

definition ip_u32 :: "string \<Rightarrow> u32" where
  "ip_u32 s = (case ipv4_from_str s of Some a \<Rightarrow> a | None \<Rightarrow> 0)"

definition is_named :: "u64 \<Rightarrow> u32 \<Rightarrow> bool" where
  "is_named seed ip =
     (let h = word_rotl 31 (seed XOR ucast ip * 0x9E3779B97F4A7C15) in h mod 100 < 85)"

definition infra_profile :: "vuln_db \<Rightarrow> string \<Rightarrow> u64 \<Rightarrow> u32 \<Rightarrow> device_profile option" where
  "infra_profile vuln cls seed ip =
     (let matches = filter (\<lambda>p. dp_asset_class p = Some cls) vuln
      in if matches = [] then None
         else let h = word_rotl 17 (seed XOR ucast ip * 0x010000000001B3)
              in Some (matches ! (unat h mod length matches)))"

definition zone_domain :: "string list \<Rightarrow> u64 \<Rightarrow> nat \<Rightarrow> string" where
  "zone_domain domains seed i =
     (let h = word_rotl 29 (seed XOR word_of_nat i * 0x9E3779B97F4A7C15)
      in if length domains = 1 \<or> h mod 100 < 75 then domains ! 0
         else domains ! (1 + i mod (length domains - 1)))"

definition assign_domains :: "ledger \<Rightarrow> string list \<Rightarrow> u64 \<Rightarrow> ledger" where
  "assign_domains s domains seed =
     (if domains = [] then s
      else s\<lparr>lg_subnets := map (\<lambda>(i, sn). sn\<lparr>sr_domain := Some (zone_domain domains seed i)\<rparr>) (enumerate 0 (lg_subnets s))\<rparr>)"

text \<open>The zones are copied before the ledger changes: index, CIDR, level and domain.\<close>

type_synonym zone_copy = "nat \<times> string \<times> u8 \<times> string option"

definition zone_copies :: "ledger \<Rightarrow> zone_copy list" where
  "zone_copies s = map (\<lambda>(i, z). (i, sr_cidr z, sr_purdue_level z, sr_domain z)) (enumerate 0 (lg_subnets s))"

definition zone_order :: "string \<Rightarrow> device_record list \<Rightarrow> nat list" where
  "zone_order cidr ds =
     sort_key (\<lambda>i. ip_u32 (dr_ip (ds ! i))) (filter (\<lambda>i. dr_subnet_cidr (ds ! i) = cidr) [0..<length ds])"

definition name_device :: "u64 \<Rightarrow> nat \<Rightarrow> string option \<Rightarrow> nat \<times> nat \<Rightarrow> device_record list \<Rightarrow> device_record list" where
  "name_device seed zi domain = (\<lambda>(n, di) ds.
     if is_named seed (ip_u32 (dr_ip (ds ! di)))
     then ds[di := (ds ! di)\<lparr>dr_hostname := Some (hostname_for (Some (dr_vendor (ds ! di))) (asset_type_of (ds ! di)) zi n domain)\<rparr>]
     else ds)"

definition name_zone_devices :: "u64 \<Rightarrow> zone_copy \<Rightarrow> device_record list \<Rightarrow> device_record list" where
  "name_zone_devices seed = (\<lambda>(zi, cidr, _, domain) ds.
     fold (name_device seed zi domain) (enumerate 0 (zone_order cidr ds)) ds)"

record bom_state =
  bs_session :: ledger
  bs_used :: "ipv4 set"
  bs_used_macs :: "mac set"

definition bom_identity :: "vuln_db \<Rightarrow> u64 \<Rightarrow> asset_type \<Rightarrow> ipv4 \<Rightarrow> string \<times> string \<times> string \<times> string \<times> string list" where
  "bom_identity vuln seed atype ip =
     (case (if cve_bearing atype then infra_profile vuln (asset_label atype) seed ip else None) of
        Some p \<Rightarrow> (dp_vendor p, dp_model p, dp_firmware p, proto_as_str (dp_protocol p), dp_cves p)
      | None \<Rightarrow> (bom_vendor atype, bom_model atype, ''1.0'', ''none'', []))"

definition place_bom :: "vuln_db \<Rightarrow> oui_db \<Rightarrow> u64 \<Rightarrow> zone_copy \<Rightarrow> asset_type \<Rightarrow> nat \<Rightarrow> ipv4 \<Rightarrow> bom_state \<Rightarrow> bom_state exec" where
  "place_bom vuln oui seed z atype n ip st = (case z of (zi, cidr, _, domain) \<Rightarrow> do {
     let (vendor, model, firmware, protocol, cves) = bom_identity vuln seed atype ip;
     mac \<leftarrow> salt_search (bom_mac_salted oui vendor seed ip) (bs_used_macs st) 0;
     let rec = \<lparr>dr_ip = show_ipv4 ip, dr_mac = fmt_mac mac, dr_vendor = vendor, dr_model = model, dr_firmware = firmware,
       dr_protocol = protocol, dr_cves = cves, dr_subnet_cidr = cidr,
       dr_hostname = (if is_named seed ip then Some (hostname_for (Some vendor) atype zi n domain) else None),
       dr_asset_type = Some (asset_label atype)\<rparr>;
     let (s, ok) = add_device rec (bs_session st);
     ret (\<lparr>bs_session = s, bs_used = (if ok then insert ip (bs_used st) else bs_used st),
       bs_used_macs = insert mac (bs_used_macs st)\<rparr>)
   })"

text \<open>\<open>for n in 0..count\<close>, over the numbers that are left; a full zone breaks the loop.\<close>

fun bom_slots ::
  "'n net_ops \<Rightarrow> vuln_db \<Rightarrow> oui_db \<Rightarrow> u64 \<Rightarrow> zone_copy \<Rightarrow> 'n \<Rightarrow> asset_type \<Rightarrow> nat list \<Rightarrow> bom_state \<Rightarrow> bom_state exec" where
  "bom_slots N vuln oui seed z net atype [] st = ret st"
| "bom_slots N vuln oui seed z net atype (n # ns) st =
     (case (if atype = Firewall then Some (firewall_addr N (fst (snd z))) else next_free_in N net (bs_used st)) of
        None \<Rightarrow> ret st
      | Some ip \<Rightarrow>
          if ip \<in> bs_used st then bom_slots N vuln oui seed z net atype ns st
          else do {
            st \<leftarrow> place_bom vuln oui seed z atype n ip st;
            bom_slots N vuln oui seed z net atype ns st
          })"

definition bom_zone :: "'n net_ops \<Rightarrow> vuln_db \<Rightarrow> oui_db \<Rightarrow> u64 \<Rightarrow> zone_copy \<Rightarrow> bom_state \<Rightarrow> bom_state exec" where
  "bom_zone N vuln oui seed z st = (case z of (_, cidr, lvl, _) \<Rightarrow>
     (case no_parse N cidr of
        None \<Rightarrow> ret st
      | Some net \<Rightarrow> fold_exec (\<lambda>(atype, cnt). bom_slots N vuln oui seed z net atype [0..<cnt]) (bom_for lvl) st))"

definition enrich_plant :: "'n net_ops \<Rightarrow> vuln_db \<Rightarrow> oui_db \<Rightarrow> u64 \<Rightarrow> ledger \<Rightarrow> ledger exec" where
  "enrich_plant N vuln oui seed s = do {
     let used_macs = set (device_macs s);
     let zones = zone_copies s;
     let s = s\<lparr>lg_devices := fold (name_zone_devices seed) zones (lg_devices s)\<rparr>;
     st \<leftarrow> fold_exec (bom_zone N vuln oui seed) zones
       \<lparr>bs_session = s, bs_used = set (used_ips s), bs_used_macs = used_macs\<rparr>;
     ret (bs_session st)
   }"

text \<open>The generic path of \<open>cmd_plan\<close>: the plan, and the number of devices fabricated.\<close>

record plan_cfg =
  pc_params :: alloc_params
  pc_devices :: nat
  pc_dns_enabled :: bool
  pc_dns_domains :: "string list"
  pc_max_assets :: "nat option"

definition plan_generic ::
  "'n net_ops \<Rightarrow> 'r below \<Rightarrow> 'r coin \<Rightarrow> (u64 \<Rightarrow> 'r) \<Rightarrow> vuln_db \<Rightarrow> oui_db \<Rightarrow> plan_cfg \<Rightarrow> u64 \<Rightarrow> u64 \<Rightarrow> (ledger \<times> nat) option exec" where
  "plan_generic N below coin seed_from vuln oui cfg seed now =
     (if vuln = [] then ret None
      else do {
        let fab_params = (pc_params cfg)\<lparr>ap_max_subnets := min (ap_max_subnets (pc_params cfg)) 10\<rparr>;
        (s, added, r) \<leftarrow> fabricate N below coin (ledger_new seed now) vuln fab_params (pc_devices cfg) (seed_from seed);
        (s, r) \<leftarrow> create_l3_zones N below (pc_params cfg) 3 s r;
        let s = (if pc_dns_enabled cfg then assign_domains s (pc_dns_domains cfg) seed else s);
        s \<leftarrow> enrich_plant N vuln oui seed s;
        ret (Some (s\<lparr>lg_target_devices := device_count s, lg_max_assets := effective_asset_cap (pc_max_assets cfg)\<rparr>, added))
      })"

section \<open>Names\<close>

text \<open>Naming changes nothing but names.\<close>

definition unnamed :: "device_record \<Rightarrow> device_record" where
  "unnamed d = d\<lparr>dr_hostname := None\<rparr>"

lemma name_device_unnamed: "map unnamed (name_device seed zi dm nd ds) = map unnamed ds"
  by (cases nd; cases "snd nd < length ds")
    (auto simp: name_device_def map_update unnamed_def list_update_same_conv list_update_beyond)

lemma name_zone_unnamed: "map unnamed (name_zone_devices seed z ds) = map unnamed ds"
proof -
  have "map unnamed (fold (name_device seed zi d) nds ds) = map unnamed ds" for zi d nds ds
    by (induction nds arbitrary: ds) (simp_all add: name_device_unnamed)
  then show ?thesis by (simp add: name_zone_devices_def case_prod_unfold)
qed

lemma names_unnamed: "map unnamed (fold (name_zone_devices seed) zs ds) = map unnamed ds"
  by (induction zs arbitrary: ds) (simp_all add: name_zone_unnamed)

lemma same_but_names:
  assumes "map unnamed ds = map unnamed (lg_devices s)"
  shows "used_ips (s\<lparr>lg_devices := ds\<rparr>) = used_ips s" "device_macs (s\<lparr>lg_devices := ds\<rparr>) = device_macs s"
    "ledger_ok (s\<lparr>lg_devices := ds\<rparr>) = ledger_ok s" "length ds = length (lg_devices s)"
proof -
  have "map dr_ip ds = map dr_ip (lg_devices s)" "map dr_mac ds = map dr_mac (lg_devices s)"
    using arg_cong [OF assms, of "map dr_ip"] arg_cong [OF assms, of "map dr_mac"] by (simp_all add: unnamed_def comp_def)
  moreover have len: "length ds = length (lg_devices s)" using map_eq_imp_length_eq [OF assms] .
  ultimately show "used_ips (s\<lparr>lg_devices := ds\<rparr>) = used_ips s" "device_macs (s\<lparr>lg_devices := ds\<rparr>) = device_macs s"
    "ledger_ok (s\<lparr>lg_devices := ds\<rparr>) = ledger_ok s" "length ds = length (lg_devices s)"
    by (simp_all add: used_ips_def device_macs_def ledger_ok_def)
qed

text \<open>The first device of a zone is numbered 1 in its class, and so is the first host of the bill of materials.\<close>

lemma name_device_other:
  "snd nd \<noteq> i \<Longrightarrow> name_device seed zi domain nd ds ! i = ds ! i" "length (name_device seed zi domain nd ds) = length ds"
  by (cases nd; simp add: name_device_def)+

lemma name_zone_devices_first:
  assumes "zone_order cidr ds = i # is" and "is_named seed (ip_u32 (dr_ip (ds ! i)))"
  shows "name_zone_devices seed (zi, cidr, lvl, domain) ds ! i =
    (ds ! i)\<lparr>dr_hostname := Some (hostname_for (Some (dr_vendor (ds ! i))) (asset_type_of (ds ! i)) zi 0 domain)\<rparr>"
proof -
  have "set (zone_order cidr ds) \<subseteq> {..<length ds}" "distinct (zone_order cidr ds)"
    by (auto simp: zone_order_def)
  then have i: "i < length ds" "i \<notin> set is" unfolding assms(1) by auto
  have keep: "i \<notin> snd ` set nds \<Longrightarrow> fold (name_device seed zi domain) nds es ! i = es ! i" for nds es
    by (induction nds arbitrary: es) (auto simp: name_device_other)
  have "snd ` set (enumerate 1 is) = set is" by (metis list.set_map map_snd_enumerate)
  then have "i \<notin> snd ` set (enumerate 1 is)" using i(2) by simp
  from keep [OF this] show ?thesis
    using assms i(1) by (simp add: name_zone_devices_def name_device_def)
qed

lemma place_bom_names:
  assumes "place_bom vuln oui seed (zi, cidr, lvl, domain) t n ip st = ret st'"
    and "is_named seed ip" and "device_count (bs_session st) < MAX_DEVICES"
  obtains d v where "lg_devices (bs_session st') = lg_devices (bs_session st) @ [d]"
    "dr_hostname d = Some (hostname_for (Some v) t zi n domain)"
proof -
  obtain vendor model firmware protocol cves where id: "bom_identity vuln seed t ip = (vendor, model, firmware, protocol, cves)"
    by (cases "bom_identity vuln seed t ip")
  obtain mac where m: "salt_search (bom_mac_salted oui vendor seed ip) (bs_used_macs st) 0 = ret mac"
    using assms(1) by (cases "salt_search (bom_mac_salted oui vendor seed ip) (bs_used_macs st) 0") (simp_all add: place_bom_def id)
  show thesis
    using assms unfolding place_bom_def prod.case Let_def id m bind.bind_lunit
    by (intro that) (auto simp: add_device_def device_count_def)
qed

lemma hostname_for_switch: "hostname_for v Switch zi n domain = hostname_for w Switch zi n domain"
  by (simp add: hostname_for_def)

lemma place_bom_returns:
  assumes "salt_search (bom_mac_salted oui (fst (bom_identity vuln seed t ip)) seed ip) (bs_used_macs st) 0 \<noteq> panic"
  shows "\<exists>st'. place_bom vuln oui seed z t n ip st = ret st'"
proof -
  obtain vendor model firmware protocol cves where id: "bom_identity vuln seed t ip = (vendor, model, firmware, protocol, cves)"
    by (cases "bom_identity vuln seed t ip")
  with assms obtain mac where m: "salt_search (bom_mac_salted oui vendor seed ip) (bs_used_macs st) 0 = ret mac" by auto
  show ?thesis
    unfolding place_bom_def Let_def id prod.case m bind.bind_lunit by (simp split: prod.split)
qed

section \<open>The bill of materials\<close>

lemma infra_profile_Some:
  "infra_profile vuln cls seed ip = Some p \<Longrightarrow> p \<in> set vuln \<and> dp_asset_class p = Some cls"
proof -
  assume h: "infra_profile vuln cls seed ip = Some p"
  let ?m = "filter (\<lambda>p. dp_asset_class p = Some cls) vuln"
  have "?m \<noteq> []" using h by (auto simp: infra_profile_def Let_def split: if_splits)
  then have "?m ! (k mod length ?m) \<in> set ?m" for k by (intro nth_mem) simp
  moreover have "\<exists>k. p = ?m ! (k mod length ?m)"
    using h \<open>?m \<noteq> []\<close> by (auto simp: infra_profile_def Let_def)
  ultimately have "p \<in> set ?m" by metis
  then show ?thesis by simp
qed

text \<open>A device of the bill of materials: only a profile of its own class gives it CVEs.\<close>

definition slot_of :: "'n net_ops \<Rightarrow> string \<Rightarrow> ipv4 \<Rightarrow> bool" where
  "slot_of N cidr ip \<longleftrightarrow> (\<exists>net. no_parse N cidr = Some net \<and>
     (ip = gateway_of N net \<or> ip \<in> set (no_hosts N net) \<and> ip \<noteq> station_addr_net N net))"

definition bom_device :: "'n net_ops \<Rightarrow> vuln_db \<Rightarrow> device_record \<Rightarrow> bool" where
  "bom_device N vuln d \<longleftrightarrow> (\<exists>t ip mac. slot_of N (dr_subnet_cidr d) ip \<and> dr_asset_type d = Some (asset_label t) \<and> dr_ip d = show_ipv4 ip \<and>
     length mac = 6 \<and> dr_mac d = fmt_mac mac \<and>
     (dr_cves d = [] \<or> cve_bearing t \<and> (\<exists>p \<in> set vuln. dp_asset_class p = Some (asset_label t) \<and> dr_cves d = dp_cves p)))"

lemma bom_identity_cves:
  assumes "bom_identity vuln seed t ip = (vendor, model, firmware, protocol, cves)"
  shows "cves = [] \<or> cve_bearing t \<and> (\<exists>p \<in> set vuln. dp_asset_class p = Some (asset_label t) \<and> cves = dp_cves p)"
  using assms infra_profile_Some by (fastforce simp: bom_identity_def split: option.splits if_splits)

text \<open>The invariant of the loops: \<open>k\<close> more devices may be tried.\<close>

definition bom_inv :: "'n net_ops \<Rightarrow> vuln_db \<Rightarrow> ledger \<Rightarrow> nat \<Rightarrow> bom_state \<Rightarrow> bool" where
  "bom_inv N vuln s0 k st \<longleftrightarrow>
     (\<exists>ds. bs_session st = s0\<lparr>lg_devices := lg_devices s0 @ ds\<rparr> \<and> (\<forall>d \<in> set ds. bom_device N vuln d)) \<and>
     (ledger_ok s0 \<longrightarrow> ledger_ok (bs_session st)) \<and> (plant_unique s0 \<longrightarrow> plant_unique (bs_session st)) \<and>
     (distinct (used_ips s0) \<longrightarrow> distinct (used_ips (bs_session st))) \<and>
     bs_used st = set (used_ips (bs_session st)) \<and> set (device_macs (bs_session st)) \<subseteq> bs_used_macs st \<and>
     finite (bs_used_macs st) \<and> card (bs_used_macs st) + k < 2 ^ 24"

definition taken_or_full :: "ipv4 \<Rightarrow> bom_state \<Rightarrow> bool" where
  "taken_or_full ip st \<longleftrightarrow> ip \<in> bs_used st \<or> MAX_DEVICES \<le> device_count (bs_session st)"

definition bom_grows :: "bom_state \<Rightarrow> bom_state \<Rightarrow> bool" where
  "bom_grows st st' \<longleftrightarrow> bs_used st \<subseteq> bs_used st' \<and> device_count (bs_session st) \<le> device_count (bs_session st')"

lemma bom_grows_refl: "bom_grows st st"
  by (simp add: bom_grows_def)

lemma bom_grows_trans: "bom_grows st st' \<Longrightarrow> bom_grows st' st'' \<Longrightarrow> bom_grows st st''"
  by (auto simp: bom_grows_def)

lemma taken_or_full_grows: "taken_or_full ip st \<Longrightarrow> bom_grows st st' \<Longrightarrow> taken_or_full ip st'"
  by (auto simp: taken_or_full_def bom_grows_def)

lemma bom_inv_weaken: "bom_inv N vuln s0 k st \<Longrightarrow> j \<le> k \<Longrightarrow> bom_inv N vuln s0 j st"
  by (auto simp: bom_inv_def)

lemma place_bom_ok:
  assumes inv: "bom_inv N vuln s0 (Suc k) st" and ip: "ip \<notin> bs_used st" and slot: "slot_of N (fst (snd z)) ip"
  obtains st' where "place_bom vuln oui seed z atype n ip st = ret st'" "bom_inv N vuln s0 k st'" "bom_grows st st'"
    "taken_or_full ip st'"
proof -
  obtain ds where s: "bs_session st = s0\<lparr>lg_devices := lg_devices s0 @ ds\<rparr>" "\<forall>d \<in> set ds. bom_device N vuln d"
    using inv by (auto simp: bom_inv_def)
  have used: "bs_used st = set (used_ips (bs_session st))" and macs: "set (device_macs (bs_session st)) \<subseteq> bs_used_macs st"
    and fin: "finite (bs_used_macs st)" and card: "card (bs_used_macs st) + Suc k < 2 ^ 24" using inv by (simp_all add: bom_inv_def)
  obtain zi cidr lvl domain where z: "z = (zi, cidr, lvl, domain)" by (cases z)
  obtain vendor model firmware protocol cves where id: "bom_identity vuln seed atype ip = (vendor, model, firmware, protocol, cves)"
    by (cases "bom_identity vuln seed atype ip")
  have "card (bs_used_macs st) < 2 ^ 24" using card by linarith
  then obtain bump where m: "salt_search (bom_mac_salted oui vendor seed ip) (bs_used_macs st) 0 = Some (bom_mac_salted oui vendor seed ip bump)"
    "bom_mac_salted oui vendor seed ip bump \<notin> bs_used_macs st"
    using bom.search_total [OF fin] by metis
  define mac where "mac = bom_mac_salted oui vendor seed ip bump"
  have lm: "length mac = 6" by (simp add: mac_def)
  define d where "d = \<lparr>dr_ip = show_ipv4 ip, dr_mac = fmt_mac mac, dr_vendor = vendor, dr_model = model, dr_firmware = firmware,
       dr_protocol = protocol, dr_cves = cves, dr_subnet_cidr = cidr,
       dr_hostname = (if is_named seed ip then Some (hostname_for (Some vendor) atype zi n domain) else None),
       dr_asset_type = Some (asset_label atype)\<rparr>"
  obtain s' ok where a: "add_device d (bs_session st) = (s', ok)" by fastforce
  let ?st = "\<lparr>bs_session = s', bs_used = (if ok then insert ip (bs_used st) else bs_used st),
       bs_used_macs = insert mac (bs_used_macs st)\<rparr>"
  have step: "place_bom vuln oui seed z atype n ip st = ret ?st"
    unfolding place_bom_def z prod.case Let_def id m(1) [folded mac_def] bind.bind_lunit d_def [symmetric] a by simp
  have d: "ipv4_from_str (dr_ip d) = Some ip" "parse_mac (dr_mac d) = mac" "bom_device N vuln d"
    using bom_identity_cves [OF id] lm slot z by (auto simp: d_def ipv4_show parse_fmt_mac bom_device_def)
  have notin: "mac \<notin> set (device_macs (bs_session st))" "mac \<notin> bs_used_macs st" using m(2) macs by (auto simp: mac_def)
  have c: "card (insert mac (bs_used_macs st)) + k < 2 ^ 24" using card fin notin by simp
  show thesis
  proof (cases ok)
    case True
    with a have a: "add_device d (bs_session st) = (s', True)" by simp
    note sets = add_device_sets [OF a d(1)]
    have s': "s' = bs_session st\<lparr>lg_devices := lg_devices (bs_session st) @ [d]\<rparr>"
      using a by (auto simp: add_device_def split: if_splits)
    have "\<exists>ds. s' = s0\<lparr>lg_devices := lg_devices s0 @ ds\<rparr> \<and> (\<forall>d \<in> set ds. bom_device N vuln d)"
      using s s' d(3) by (intro exI [of _ "ds @ [d]"]) auto
    moreover have "ledger_ok s0 \<longrightarrow> ledger_ok s'"
      using inv a ledger_step_ok [of "bs_session st" "Add_Device d"] by (auto simp: bom_inv_def)
    moreover have "plant_unique s0 \<longrightarrow> plant_unique s'"
      using inv add_device_unique [OF a d(1)] ip used notin d(2) by (auto simp: bom_inv_def)
    moreover have "distinct (used_ips s') \<longleftrightarrow> distinct (ip # used_ips (bs_session st))"
      by (rule mset_eq_imp_distinct_iff) (rule add_device_mset(1) [OF a d(1)])
    ultimately have "bom_inv N vuln s0 k ?st"
      using True inv ip used sets d(2) macs fin c by (auto simp: bom_inv_def)
    moreover have "device_count s' = Suc (device_count (bs_session st))" using s' by (simp add: device_count_def)
    ultimately show thesis
      using True by (intro that [OF step]) (auto simp: bom_grows_def taken_or_full_def)
  next
    case False
    with a have s': "s' = bs_session st" "MAX_DEVICES \<le> device_count s'"
      by (auto simp: add_device_def device_count_def split: if_splits)
    have "bom_inv N vuln s0 k ?st" using inv False s' fin c by (auto simp: bom_inv_def)
    then show thesis using False s' by (intro that [OF step]) (auto simp: bom_grows_def taken_or_full_def)
  qed
qed

lemma bom_slots_ok:
  assumes "bom_inv N vuln s0 (length ns + k) st" and net: "no_parse N (fst (snd z)) = Some net"
  shows "\<exists>st'. bom_slots N vuln oui seed z net atype ns st = ret st' \<and> bom_inv N vuln s0 k st' \<and> bom_grows st st' \<and>
    (ns \<noteq> [] \<and> atype = Firewall \<longrightarrow> taken_or_full (firewall_addr N (fst (snd z))) st')"
  using assms(1)
proof (induction ns arbitrary: st)
  case Nil
  then show ?case by (simp add: bom_grows_refl)
next
  case (Cons n ns)
  let ?slot = "if atype = Firewall then Some (firewall_addr N (fst (snd z))) else next_free_in N net (bs_used st)"
  show ?case
  proof (cases ?slot)
    case None
    then have "bom_slots N vuln oui seed z net atype (n # ns) st = ret st" "atype \<noteq> Firewall" by (auto split: if_splits)
    moreover have "bom_inv N vuln s0 k st" by (rule bom_inv_weaken [OF Cons.prems]) simp
    ultimately show ?thesis using bom_grows_refl by blast
  next
    case (Some ip)
    have fw: "atype = Firewall \<Longrightarrow> ip = firewall_addr N (fst (snd z))" using Some by simp
    show ?thesis
    proof (cases "ip \<in> bs_used st")
      case True
      then have e: "bom_slots N vuln oui seed z net atype (n # ns) st = bom_slots N vuln oui seed z net atype ns st"
        using Some by simp
      have "bom_inv N vuln s0 (length ns + k) st" by (rule bom_inv_weaken [OF Cons.prems]) simp
      from Cons.IH [OF this] obtain st' where st': "bom_slots N vuln oui seed z net atype ns st = ret st'"
        "bom_inv N vuln s0 k st'" "bom_grows st st'" by blast
      moreover have "taken_or_full ip st'" using True taken_or_full_grows [OF _ st'(3)] by (simp add: taken_or_full_def)
      ultimately show ?thesis using e fw by auto
    next
      case False
      have "bom_inv N vuln s0 (Suc (length ns + k)) st" using Cons.prems by simp
      moreover have "slot_of N (fst (snd z)) ip"
        using Some net next_free_in_Some [of N net "bs_used st" ip] firewall_is_gateway [OF net]
        by (auto simp: slot_of_def split: if_splits)
      ultimately obtain st1 where st1: "place_bom vuln oui seed z atype n ip st = ret st1" "bom_inv N vuln s0 (length ns + k) st1"
        "bom_grows st st1" "taken_or_full ip st1" using place_bom_ok [OF _ False] by metis
      from Cons.IH [OF st1(2)] obtain st' where st': "bom_slots N vuln oui seed z net atype ns st1 = ret st'"
        "bom_inv N vuln s0 k st'" "bom_grows st1 st'" by blast
      have "bom_slots N vuln oui seed z net atype (n # ns) st = ret st'" using Some False st1(1) st'(1) by simp
      then show ?thesis
        using st'(2) bom_grows_trans [OF st1(3) st'(3)] taken_or_full_grows [OF st1(4) st'(3)] fw by blast
    qed
  qed
qed

lemma bom_entries_ok:
  assumes "bom_inv N vuln s0 (sum_list (map snd bs) + k) st" and net: "no_parse N (fst (snd z)) = Some net"
  shows "\<exists>st'. fold_exec (\<lambda>(t, c). bom_slots N vuln oui seed z net t [0..<c]) bs st = ret st' \<and> bom_inv N vuln s0 k st' \<and>
    bom_grows st st' \<and> (\<forall>c. (Firewall, Suc c) \<in> set bs \<longrightarrow> taken_or_full (firewall_addr N (fst (snd z))) st')"
  using assms(1)
proof (induction bs arbitrary: st)
  case Nil
  then show ?case by (simp add: bom_grows_refl)
next
  case (Cons b bs)
  obtain t c where b: "b = (t, c)" by (cases b)
  have "bom_inv N vuln s0 (length [0..<c] + (sum_list (map snd bs) + k)) st" using Cons.prems by (simp add: b add.assoc)
  from bom_slots_ok [OF this net, of oui seed t] obtain st1 where st1:
    "bom_slots N vuln oui seed z net t [0..<c] st = ret st1" "bom_inv N vuln s0 (sum_list (map snd bs) + k) st1"
    "bom_grows st st1" "[0..<c] \<noteq> [] \<and> t = Firewall \<longrightarrow> taken_or_full (firewall_addr N (fst (snd z))) st1" by blast
  from Cons.IH [OF st1(2)] obtain st' where st': "fold_exec (\<lambda>(t, c). bom_slots N vuln oui seed z net t [0..<c]) bs st1 = ret st'"
    "bom_inv N vuln s0 k st'" "bom_grows st1 st'"
    "\<forall>c. (Firewall, Suc c) \<in> set bs \<longrightarrow> taken_or_full (firewall_addr N (fst (snd z))) st'" by blast
  have "taken_or_full (firewall_addr N (fst (snd z))) st'" if "(t, c) = (Firewall, Suc j)" for j
    using st1(4) that taken_or_full_grows [OF _ st'(3)] by auto
  then show ?case
    using st1(1) st' bom_grows_trans [OF st1(3) st'(3)] by (auto simp: b)
qed

lemma bom_for_firewall: "(Firewall, Suc 0) \<in> set (bom_for lvl)"
  by (simp add: bom_for_def)

lemma bom_for_size: "sum_list (map snd (bom_for lvl)) \<le> 10"
  by (simp add: bom_for_def)

lemma bom_zones_ok:
  assumes "bom_inv N vuln s0 (10 * length zs) st"
  shows "\<exists>st'. fold_exec (bom_zone N vuln oui seed) zs st = ret st' \<and> bom_inv N vuln s0 0 st' \<and> bom_grows st st' \<and>
    (\<forall>(zi, cidr, lvl, dm) \<in> set zs. no_parse N cidr \<noteq> None \<longrightarrow> taken_or_full (firewall_addr N cidr) st')"
  using assms
proof (induction zs arbitrary: st)
  case Nil
  then show ?case by (simp add: bom_grows_refl)
next
  case (Cons z zs)
  obtain zi cidr lvl dm where z: "z = (zi, cidr, lvl, dm)" by (cases z)
  have "\<exists>st1. bom_zone N vuln oui seed z st = ret st1 \<and> bom_inv N vuln s0 (10 * length zs) st1 \<and> bom_grows st st1 \<and>
      (no_parse N cidr \<noteq> None \<longrightarrow> taken_or_full (firewall_addr N cidr) st1)"
  proof (cases "no_parse N cidr")
    case None
    moreover have "bom_inv N vuln s0 (10 * length zs) st" by (rule bom_inv_weaken [OF Cons.prems]) simp
    ultimately show ?thesis by (auto simp: bom_zone_def z bom_grows_refl)
  next
    case (Some net)
    have inv: "bom_inv N vuln s0 (sum_list (map snd (bom_for lvl)) + 10 * length zs) st"
      by (rule bom_inv_weaken [OF Cons.prems]) (use bom_for_size [of lvl] in simp)
    have "no_parse N (fst (snd z)) = Some net" using Some by (simp add: z)
    from bom_entries_ok [OF inv this, of oui seed] obtain st1 where
      "fold_exec (\<lambda>(t, c). bom_slots N vuln oui seed z net t [0..<c]) (bom_for lvl) st = ret st1"
      "bom_inv N vuln s0 (10 * length zs) st1" "bom_grows st st1" "taken_or_full (firewall_addr N (fst (snd z))) st1"
      using bom_for_firewall by blast
    then show ?thesis using Some by (simp add: bom_zone_def z)
  qed
  then obtain st1 where st1: "bom_zone N vuln oui seed z st = ret st1" "bom_inv N vuln s0 (10 * length zs) st1" "bom_grows st st1"
    "no_parse N cidr \<noteq> None \<longrightarrow> taken_or_full (firewall_addr N cidr) st1" by blast
  from Cons.IH [OF st1(2)] obtain st' where st': "fold_exec (bom_zone N vuln oui seed) zs st1 = ret st'" "bom_inv N vuln s0 0 st'"
    "bom_grows st1 st'" "\<forall>(zi, cidr, lvl, dm) \<in> set zs. no_parse N cidr \<noteq> None \<longrightarrow> taken_or_full (firewall_addr N cidr) st'" by blast
  show ?case
    using st1(1,4) st' bom_grows_trans [OF st1(3) st'(3)] taken_or_full_grows [OF _ st'(3)] by (auto simp: z)
qed

text \<open>
  Enrichment returns.  It keeps the zones and, up to names, the devices; what it adds is a bill of materials; it keeps
  addresses and MACs unique; and it leaves no zone without an asset in the gateway's place, unless the ledger is full.
\<close>

definition enriched :: "'n net_ops \<Rightarrow> vuln_db \<Rightarrow> ledger \<Rightarrow> ledger \<Rightarrow> bool" where
  "enriched N vuln s s' \<longleftrightarrow>
     (\<exists>core ds. s' = s\<lparr>lg_devices := core @ ds\<rparr> \<and> map unnamed core = map unnamed (lg_devices s) \<and> (\<forall>d \<in> set ds. bom_device N vuln d)) \<and>
     (ledger_ok s \<longrightarrow> ledger_ok s') \<and> (plant_unique s \<longrightarrow> plant_unique s') \<and>
     (distinct (used_ips s) \<longrightarrow> distinct (used_ips s')) \<and>
     (\<forall>z \<in> set (lg_subnets s). no_parse N (sr_cidr z) \<noteq> None \<longrightarrow>
        firewall_addr N (sr_cidr z) \<in> set (used_ips s') \<or> MAX_DEVICES \<le> device_count s')"

lemma enrich_ok:
  assumes s: "ledger_ok s" "macs_room s"
  obtains s' where "enrich_plant N vuln oui seed s = ret s'" "enriched N vuln s s'"
proof -
  let ?core = "fold (name_zone_devices seed) (zone_copies s) (lg_devices s)"
  let ?s = "s\<lparr>lg_devices := ?core\<rparr>"
  let ?st = "\<lparr>bs_session = ?s, bs_used = set (used_ips ?s), bs_used_macs = set (device_macs s)\<rparr>"
  note u = names_unnamed [of seed "zone_copies s" "lg_devices s"]
  note same = same_but_names [OF u]
  have len: "length (zone_copies s) \<le> 16" using s(1) by (simp add: zone_copies_def ledger_ok_def MAX_SUBNETS_def)
  have "length (device_macs s) \<le> capture_host_count s + MAX_DEVICES"
    using s(1) by (simp add: device_macs_def ledger_ok_def capture_host_count_def)
  then have "card (set (device_macs s)) + 10 * length (zone_copies s) < 2 ^ 24"
    using card_length [of "device_macs s"] len s(2) unfolding macs_room_def MAX_DEVICES_def by linarith
  then have "bom_inv N vuln ?s (10 * length (zone_copies s)) ?st"
    by (auto simp: bom_inv_def same intro: exI [of _ "[]"])
  from bom_zones_ok [OF this, of oui seed] obtain st where
    st: "fold_exec (bom_zone N vuln oui seed) (zone_copies s) ?st = ret st" "bom_inv N vuln ?s 0 st"
      "\<forall>(zi, cidr, lvl, dm) \<in> set (zone_copies s). no_parse N cidr \<noteq> None \<longrightarrow> taken_or_full (firewall_addr N cidr) st" by blast
  obtain ds where ds: "bs_session st = s\<lparr>lg_devices := ?core @ ds\<rparr>" "\<forall>d \<in> set ds. bom_device N vuln d"
    using st(2) by (auto simp: bom_inv_def)
  have gw: "firewall_addr N (sr_cidr z) \<in> set (used_ips (bs_session st)) \<or> MAX_DEVICES \<le> device_count (bs_session st)"
    if z: "z \<in> set (lg_subnets s)" "no_parse N (sr_cidr z) \<noteq> None" for z
  proof -
    have "z \<in> snd ` set (enumerate 0 (lg_subnets s))" using z(1) by (simp flip: set_map)
    then obtain i where "(i, z) \<in> set (enumerate 0 (lg_subnets s))" by auto
    then have "(i, sr_cidr z, sr_purdue_level z, sr_domain z) \<in> set (zone_copies s)" by (force simp: zone_copies_def)
    then have "taken_or_full (firewall_addr N (sr_cidr z)) st" using st(3) z(2) by fastforce
    then show ?thesis using st(2) by (simp add: taken_or_full_def bom_inv_def)
  qed
  have "enriched N vuln s (bs_session st)"
    unfolding enriched_def using ds u gw st(2) same by (auto simp: bom_inv_def plant_unique_def)
  moreover have "enrich_plant N vuln oui seed s = ret (bs_session st)"
    using st(1) by (simp add: enrich_plant_def Let_def same)
  ultimately show thesis by (rule that [rotated])
qed

section \<open>The plan\<close>

lemma assign_domains_same:
  "map sr_cidr (lg_subnets (assign_domains s ds seed)) = map sr_cidr (lg_subnets s)"
  "lg_devices (assign_domains s ds seed) = lg_devices s" "lg_capture_hosts (assign_domains s ds seed) = lg_capture_hosts s"
proof -
  have "map (sr_cidr \<circ> (\<lambda>(i, sn). sn\<lparr>sr_domain := Some (f i)\<rparr>)) (enumerate n zs) = map sr_cidr zs"
    for f n and zs :: "subnet_record list"
    by (induction zs arbitrary: n) simp_all
  then show "map sr_cidr (lg_subnets (assign_domains s ds seed)) = map sr_cidr (lg_subnets s)"
    by (simp add: assign_domains_def)
qed (simp_all add: assign_domains_def)

lemma ledger_ok_cong:
  assumes "map sr_cidr (lg_subnets s') = map sr_cidr (lg_subnets s)" "length (lg_devices s') = length (lg_devices s)"
    "lg_capture_hosts s' = lg_capture_hosts s"
  shows "ledger_ok s' = ledger_ok s"
  using map_eq_imp_length_eq [OF assms(1)] assms by (simp add: ledger_ok_def)

lemma fab_device_slot: "fab_device N vuln s d \<Longrightarrow> \<exists>ip. ipv4_from_str (dr_ip d) = Some ip \<and> slot_of N (dr_subnet_cidr d) ip"
  by (auto simp: fab_device_def slot_of_def) (metis device_record.select_convs(1) fabricated_def ipv4_show)

text \<open>Every device of the list sits in a slot of its zone.\<close>

definition in_slots :: "'n net_ops \<Rightarrow> device_record list \<Rightarrow> bool" where
  "in_slots N ds \<longleftrightarrow> (\<forall>d \<in> set ds. \<exists>ip. ipv4_from_str (dr_ip d) = Some ip \<and> slot_of N (dr_subnet_cidr d) ip)"

lemma unnamed_sel: "dr_ip (unnamed d) = dr_ip d" "dr_subnet_cidr (unnamed d) = dr_subnet_cidr d"
  by (simp_all add: unnamed_def)

lemma unnamed_eq: "unnamed d = unnamed e \<Longrightarrow> dr_ip d = dr_ip e" "unnamed d = unnamed e \<Longrightarrow> dr_subnet_cidr d = dr_subnet_cidr e"
  by (metis unnamed_sel)+

lemma in_slots_unnamed:
  assumes "map unnamed ds = map unnamed es" and "in_slots N es"
  shows "in_slots N ds"
  unfolding in_slots_def
proof
  fix d assume "d \<in> set ds"
  then have "unnamed d \<in> set (map unnamed es)" unfolding assms(1) [symmetric] by simp
  then obtain e where e: "e \<in> set es" "unnamed d = unnamed e" by auto
  then have "dr_ip d = dr_ip e" "dr_subnet_cidr d = dr_subnet_cidr e" using unnamed_eq [OF e(2)] by blast+
  then show "\<exists>ip. ipv4_from_str (dr_ip d) = Some ip \<and> slot_of N (dr_subnet_cidr d) ip"
    using assms(2) e(1) by (simp add: in_slots_def)
qed

lemma bom_device_slot: "bom_device N vuln d \<Longrightarrow> \<exists>ip. ipv4_from_str (dr_ip d) = Some ip \<and> slot_of N (dr_subnet_cidr d) ip"
  by (auto simp: bom_device_def ipv4_show)

lemma enriched_slots:
  assumes "enriched N vuln s s'" and "in_slots N (lg_devices s)"
  shows "in_slots N (lg_devices s')"
proof -
  obtain core ds where e: "s' = s\<lparr>lg_devices := core @ ds\<rparr>" "map unnamed core = map unnamed (lg_devices s)"
    "\<forall>d \<in> set ds. bom_device N vuln d" using assms(1) by (auto simp: enriched_def)
  have "in_slots N core" by (rule in_slots_unnamed [OF e(2) assms(2)])
  moreover have "in_slots N ds" using e(3) bom_device_slot unfolding in_slots_def by metis
  ultimately show ?thesis by (auto simp: in_slots_def e(1))
qed

lemma enriched_zones:
  assumes "enriched N vuln s s'"
  shows "lg_subnets s' = lg_subnets s" "device_count s \<le> device_count s'"
proof -
  obtain core ds where e: "s' = s\<lparr>lg_devices := core @ ds\<rparr>" "map unnamed core = map unnamed (lg_devices s)"
    using assms by (auto simp: enriched_def)
  with map_eq_imp_length_eq [OF e(2)] show "lg_subnets s' = lg_subnets s" "device_count s \<le> device_count s'"
    by (simp_all add: device_count_def)
qed

lemma plan_ok:
  assumes w: "fab_world N below vuln"
  obtains s n where "plan_generic N below coin seed_from vuln oui cfg seed now = ret (Some (s, n))"
    "ledger_ok s" "plant_unique s" "in_slots N (lg_devices s)" "n \<le> device_count s"
    "n \<le> min (pc_devices cfg) (ap_max_devices (pc_params cfg))"
    "\<forall>z \<in> set (lg_subnets s). no_parse N (sr_cidr z) \<noteq> None \<longrightarrow>
        firewall_addr N (sr_cidr z) \<in> set (used_ips s) \<or> MAX_DEVICES \<le> device_count s"
proof -
  let ?s0 = "ledger_new seed now"
  have s0: "ledger_ok ?s0" "macs_room ?s0" "plant_unique ?s0" "device_count ?s0 = 0" "lg_devices ?s0 = []"
    by (rule ledger_new_ok) (simp_all add: macs_room_def capture_host_count_def MAX_DEVICES_def plant_unique_def used_ips_def
        device_macs_def device_count_def ledger_new_def List.map_filter_def)
  let ?p = "(pc_params cfg)\<lparr>ap_max_subnets := min (ap_max_subnets (pc_params cfg)) 10\<rparr>"
  obtain s1 n r1 where 1: "fabricate N below coin ?s0 vuln ?p (pc_devices cfg) (seed_from seed) = ret (s1, n, r1)"
    "grown_by N vuln ?s0 n s1" "device_count s1 \<le> max (min (pc_devices cfg) (ap_max_devices ?p)) (device_count ?s0)"
    using fabricate_ok [OF w s0(1,2)] by metis
  note g = grown_by_fixed [OF 1(2)]
  have N: "net_ok N" and b: "below_ok below" using w by (simp_all add: fab_world_def)
  obtain s2 r2 where 2: "create_l3_zones N below (pc_params cfg) 3 s1 r1 = ret (s2, r2)" "zones_grow N s1 s2"
    by (rule create_l3_zones_ok [OF N b])
  define s3 where "s3 = (if pc_dns_enabled cfg then assign_domains s2 (pc_dns_domains cfg) seed else s2)"
  have s3: "map sr_cidr (lg_subnets s3) = map sr_cidr (lg_subnets s2)" "lg_devices s3 = lg_devices s1"
    "lg_capture_hosts s3 = lg_capture_hosts s1" using zones_growD(1,2) [OF 2(2)] by (simp_all add: s3_def assign_domains_same)
  have uses: "used_ips s3 = used_ips s1" "device_macs s3 = device_macs s1" "device_count s3 = device_count s1"
    "macs_room s3 = macs_room s1"
    using s3 by (simp_all add: used_ips_def device_macs_def device_count_def macs_room_def capture_host_count_def)
  have "ledger_ok s2" using 2(2) g(3) s0(1) by (simp add: zones_grow_def)
  then have ok3: "ledger_ok s3" using ledger_ok_cong [of s3 s2] s3 zones_growD(1,2) [OF 2(2)] by simp
  have u3: "plant_unique s3" using 1(2) s0(3) uses by (simp add: grown_by_def plant_unique_def)
  have "\<forall>d \<in> set (lg_devices s1). fab_device N vuln s1 d" using 1(2) s0(5) by (auto simp: grown_by_def)
  then have slots: "in_slots N (lg_devices s3)" using s3(2) fab_device_slot unfolding in_slots_def by metis
  obtain s4 where 4: "enrich_plant N vuln oui seed s3 = ret s4" "enriched N vuln s3 s4"
    using enrich_ok [OF ok3] uses(4) g(4) s0(2) by blast
  let ?s = "s4\<lparr>lg_target_devices := device_count s4, lg_max_assets := effective_asset_cap (pc_max_assets cfg)\<rparr>"
  have "vuln \<noteq> []" using w by (auto simp: fab_world_def)
  then have plan: "plan_generic N below coin seed_from vuln oui cfg seed now = ret (Some (?s, n))"
    by (simp add: plan_generic_def 1(1) 2(1) s3_def [symmetric] 4(1) Let_def)
  have same: "used_ips ?s = used_ips s4" "device_macs ?s = device_macs s4" "device_count ?s = device_count s4" "ledger_ok ?s = ledger_ok s4"
    by (simp_all add: used_ips_def device_macs_def device_count_def ledger_ok_def)
  have n: "n = device_count s1" using g(5) s0(4) by simp
  have zones: "lg_subnets s4 = lg_subnets s3" "device_count s3 \<le> device_count s4"
    using enriched_zones [OF 4(2)] by simp_all
  show thesis
  proof (rule that [OF plan])
    show "ledger_ok ?s" unfolding same using 4(2) ok3 by (simp add: enriched_def)
    show "plant_unique ?s" using 4(2) u3 by (simp add: enriched_def plant_unique_def same)
    show "in_slots N (lg_devices ?s)" using enriched_slots [OF 4(2) slots] by simp
    show "n \<le> device_count ?s" unfolding same using n zones(2) uses(3) by simp
    show "n \<le> min (pc_devices cfg) (ap_max_devices (pc_params cfg))" using n 1(3) s0(4) by simp
    have "\<forall>z \<in> set (lg_subnets s3). no_parse N (sr_cidr z) \<noteq> None \<longrightarrow>
        firewall_addr N (sr_cidr z) \<in> set (used_ips s4) \<or> MAX_DEVICES \<le> device_count s4"
      using 4(2) [unfolded enriched_def] by (elim conjE)
    then show "\<forall>z \<in> set (lg_subnets ?s). no_parse N (sr_cidr z) \<noteq> None \<longrightarrow>
        firewall_addr N (sr_cidr z) \<in> set (used_ips ?s) \<or> MAX_DEVICES \<le> device_count ?s"
      unfolding same using zones(1) by simp
  qed
qed

end
