(* ===== verification/Beacons.thy ===== *)
theory Beacons
  imports Wire
begin

text \<open>
  \<open>src/synth/lldp.rs\<close> and \<open>src/synth/cdp.rs\<close>: the beacons of a switch.  Both are sequences of
  type-length-value records; the lemmas read them back, and show that the CDP checksum of a built
  beacon is the one a receiver expects.
\<close>

section \<open>LLDP\<close>

definition LLDP_MULTICAST :: mac where
  "LLDP_MULTICAST = [0x01, 0x80, 0xC2, 0x00, 0x00, 0x0E]"

abbreviation ETHERTYPE_LLDP :: u16 where "ETHERTYPE_LLDP \<equiv> 0x88CC"

definition lldp_tlv :: "u8 \<Rightarrow> bytes \<Rightarrow> bytes" where
  "lldp_tlv t val =
     (let header = push_bit 9 (ucast t :: u16) OR (word_of_nat (length val) AND 0x01ff)
      in to_be16 header @ val)"

definition mgmt_address :: "ipv4 \<Rightarrow> bytes" where
  "mgmt_address ip = [5] @ [1] @ octets ip @ [2] @ to_be32 1 @ [0]"

definition lldp_beacon :: "mac \<Rightarrow> ipv4 \<Rightarrow> string \<Rightarrow> string \<Rightarrow> bytes" where
  "lldp_beacon switch_mac mgmt_ip system_name system_descr =
     (let chassis = [4] @ switch_mac;
          p = lldp_tlv 1 chassis;
          port = [7] @ as_bytes ''1'';
          p = p @ lldp_tlv 2 port;
          p = p @ lldp_tlv 3 (to_be16 120);
          p = p @ lldp_tlv 5 (as_bytes system_name);
          p = p @ lldp_tlv 6 (as_bytes system_descr);
          p = p @ lldp_tlv 8 (mgmt_address mgmt_ip);
          p = p @ lldp_tlv 0 []
      in l2_frame switch_mac LLDP_MULTICAST ETHERTYPE_LLDP p)"

section \<open>CDP\<close>

definition CDP_MULTICAST :: mac where
  "CDP_MULTICAST = [0x01, 0x00, 0x0C, 0xCC, 0xCC, 0xCC]"

definition SNAP_OUI_CISCO :: bytes where
  "SNAP_OUI_CISCO = [0x00, 0x00, 0x0C]"

abbreviation CDP_PROTOCOL_ID :: u16 where "CDP_PROTOCOL_ID \<equiv> 0x2000"

definition cdp_tlv :: "u16 \<Rightarrow> bytes \<Rightarrow> bytes" where
  "cdp_tlv t val = to_be16 t @ to_be16 (word_of_nat (4 + length val)) @ val"

definition cdp_addresses :: "ipv4 \<Rightarrow> bytes" where
  "cdp_addresses ip = to_be32 1 @ [1] @ [1] @ [0xCC] @ to_be16 4 @ octets ip"

text \<open>The index loop of \<open>checksum\<close>; \<open>(b as i8) < 0\<close> is the sign of the trailing byte.\<close>

fun cdp_words :: "u32 \<Rightarrow> bytes \<Rightarrow> u32" where
  "cdp_words acc (a # b # r) = cdp_words (acc + (push_bit 8 (ucast a) OR ucast b)) r"
| "cdp_words acc [b] = (if sint b < 0 then acc + (0xFF00 OR ucast b) else acc + push_bit 8 (ucast b))"
| "cdp_words acc [] = acc"

definition cdp_checksum :: "bytes \<Rightarrow> u16" where
  "cdp_checksum data = NOT (fold_sum (cdp_words 0 data))"

definition cdp_pdu :: "ipv4 \<Rightarrow> string \<Rightarrow> string \<Rightarrow> string \<Rightarrow> bytes" where
  "cdp_pdu mgmt_ip device_id software_version platform =
     (let tlvs = cdp_tlv 0x0001 (as_bytes device_id) @ cdp_tlv 0x0002 (cdp_addresses mgmt_ip) @
            cdp_tlv 0x0005 (as_bytes software_version) @ cdp_tlv 0x0006 (as_bytes platform);
          pdu = [2] @ [180] @ [0x00, 0x00] @ tlvs;
          ck = cdp_checksum pdu
      in pdu[2 := ucast (drop_bit 8 ck), 3 := ucast (ck AND 0xff)])"

definition cdp_beacon :: "mac \<Rightarrow> ipv4 \<Rightarrow> string \<Rightarrow> string \<Rightarrow> string \<Rightarrow> bytes" where
  "cdp_beacon switch_mac mgmt_ip device_id software_version platform =
     snap_frame switch_mac CDP_MULTICAST SNAP_OUI_CISCO CDP_PROTOCOL_ID
       (cdp_pdu mgmt_ip device_id software_version platform)"

section \<open>Reading LLDP\<close>

definition get_lldp_tlv :: "bytes \<Rightarrow> ((u8 \<times> bytes) \<times> bytes) option" where
  "get_lldp_tlv p = do {
     (header, r) \<leftarrow> get_be16 p;
     (val, r) \<leftarrow> get_bytes (unat (header AND 0x01ff)) r;
     Some ((ucast (drop_bit 9 header), val), r)
   }"

lemma lldp_header_type:
  assumes "t < 128"
  shows "ucast (drop_bit 9 (push_bit 9 (ucast t :: u16) OR (n AND 0x01ff))) = (t :: u8)"
proof -
  have "unat t < 2 ^ 7" using assms by (simp add: word_less_nat_alt)
  then have t: "take_bit 7 t = t" by (simp add: word_unat_eq_iff unsigned_take_bit_eq take_bit_nat_eq_self)
  have "(0x01ff :: u16) = mask 9" by (simp add: mask_eq_exp_minus_1)
  then have "ucast (drop_bit 9 (push_bit 9 (ucast t :: u16) OR (n AND 0x01ff))) = take_bit 7 t"
    by (simp only:) (rule bit_word_eqI, auto simp: bit_simps)
  with t show ?thesis by simp
qed

lemma lldp_header_len:
  "(push_bit 9 (ucast (t :: u8) :: u16) OR (n AND 0x01ff)) AND 0x01ff = n AND 0x01ff"
proof -
  have m: "(0x01ff :: u16) = mask 9" by (simp add: mask_eq_exp_minus_1)
  show ?thesis unfolding m by (rule bit_word_eqI) (auto simp: bit_simps)
qed

lemma lldp_len: "k < 512 \<Longrightarrow> unat ((word_of_nat k :: u16) AND 0x01ff) = k"
proof -
  assume k: "k < 512"
  have "(0x01ff :: u16) = mask 9" by (simp add: mask_eq_exp_minus_1)
  then have t: "(word_of_nat k :: u16) AND 0x01ff = take_bit 9 (word_of_nat k)" by (simp only: take_bit_eq_mask)
  have "unat (word_of_nat k :: u16) = k" using k by (intro unat_word_of_nat) simp
  then show ?thesis unfolding t unsigned_take_bit_eq using k by (simp add: take_bit_nat_eq_self)
qed

interpretation lldp_code: self_delimiting "\<lambda>(t, v). lldp_tlv t v" get_lldp_tlv "\<lambda>(t, v). t < 128 \<and> length v < 512"
proof
  fix x :: "u8 \<times> bytes" and r :: bytes
  assume ok: "case x of (t, v) \<Rightarrow> t < 128 \<and> length v < 512"
  obtain t v where x: "x = (t, v)" by (cases x)
  obtain h where h: "h = push_bit 9 (ucast t :: u16) OR (word_of_nat (length v) AND 0x01ff)" by simp
  then have "ucast (drop_bit 9 h) = t" "unat (h AND 0x01ff) = length v"
    using ok by (simp_all only: x prod.case lldp_header_type lldp_header_len lldp_len)
  then show "get_lldp_tlv ((case x of (t, v) \<Rightarrow> lldp_tlv t v) @ r) = Some (x, r)"
    unfolding x prod.case lldp_tlv_def Let_def h [symmetric] by (simp add: get_lldp_tlv_def)
  show "(case x of (t, v) \<Rightarrow> lldp_tlv t v) \<noteq> []" by (simp add: x lldp_tlv_def to_be16_def Let_def)
qed

text \<open>What an LLDP receiver makes of a frame: sender and records.\<close>

definition lldp_view :: "bytes \<Rightarrow> (mac \<times> (u8 \<times> bytes) list) option" where
  "lldp_view f = do {
     (dm, r) \<leftarrow> get_bytes 6 f; (sm, r) \<leftarrow> get_bytes 6 r; (et, r) \<leftarrow> get_be16 r;
     tlvs \<leftarrow> get_all get_lldp_tlv r;
     if dm = LLDP_MULTICAST \<and> et = ETHERTYPE_LLDP then Some (sm, tlvs) else None
   }"

lemma lldp_beacon_view:
  assumes "length switch_mac = 6" and "length system_name < 512" and "length system_descr < 512"
  shows "lldp_view (lldp_beacon switch_mac mgmt_ip system_name system_descr) = Some (switch_mac,
    [(1, 4 # switch_mac), (2, 7 # as_bytes ''1''), (3, to_be16 120), (5, as_bytes system_name),
     (6, as_bytes system_descr), (8, mgmt_address mgmt_ip), (0, [])])"
proof -
  let ?ts = "[(1, 4 # switch_mac), (2, 7 # as_bytes ''1''), (3, to_be16 120), (5, as_bytes system_name),
     (6, as_bytes system_descr), (8, mgmt_address mgmt_ip), (0, [])] :: (u8 \<times> bytes) list"
  have "get_all get_lldp_tlv (concat (map (\<lambda>(t, v). lldp_tlv t v) ?ts)) = Some ?ts"
    by (rule lldp_code.get_all_enc) (use assms in \<open>simp add: mgmt_address_def octets_def\<close>)
  moreover have "lldp_beacon switch_mac mgmt_ip system_name system_descr =
      LLDP_MULTICAST @ switch_mac @ to_be16 ETHERTYPE_LLDP @ concat (map (\<lambda>(t, v). lldp_tlv t v) ?ts)"
    by (simp add: lldp_beacon_def l2_frame_def ethernet_header_def Let_def)
  moreover have "length LLDP_MULTICAST = 6" by (simp add: LLDP_MULTICAST_def)
  ultimately show ?thesis
    using assms(1) by (simp add: lldp_view_def del: bind_exec_Some concat.simps list.map)
qed

section \<open>Reading CDP\<close>

text \<open>The sum is the internet sum of the data with a negative trailing byte widened to a word.\<close>

definition cdp_padded :: "bytes \<Rightarrow> bytes" where
  "cdp_padded d = (if odd (length d) \<and> sint (last d) < 0 then butlast d @ [0xFF, last d] else d)"

lemma cdp_words_padded: "cdp_words acc d = sum_words acc (cdp_padded d)"
proof (induction acc d rule: cdp_words.induct)
  case (1 acc a b r)
  then show ?case by (cases r rule: rev_cases) (auto simp: cdp_padded_def butlast_append)
qed (simp_all add: cdp_padded_def)

lemma length_cdp_padded: "length (cdp_padded d) \<le> length d + 1"
  by (cases d rule: rev_cases) (auto simp: cdp_padded_def)

text \<open>The stored checksum makes the whole message sum to ones.\<close>

lemma cdp_padded_put: "4 \<le> length d \<Longrightarrow> cdp_padded (put16 d 2 w) = put16 (cdp_padded d) 2 w"
proof -
  assume n: "4 \<le> length d"
  show ?thesis
  proof (cases "length d = 4")
    case True
    then show ?thesis by (simp add: cdp_padded_def)
  next
    case False
    then obtain d' x where d: "d = d' @ [x]" "4 \<le> length d'" using n by (cases d rule: rev_cases) auto
    have "put16 (d' @ y) 2 w = put16 d' 2 w @ y" for y
      using d(2) by (simp add: put16_def splice_def)
    then show ?thesis using d by (simp add: cdp_padded_def)
  qed
qed

lemma cdp_checksum_stored:
  assumes "4 \<le> length d" and "length d < 100000"
  shows "cdp_checksum (put16 d 2 (cdp_checksum (put16 d 2 0))) = 0"
proof -
  let ?p = "cdp_padded d"
  have n: "length d \<le> length ?p" by (cases d rule: rev_cases) (auto simp: cdp_padded_def)
  have "fold_sum (sum_words 0 (put16 ?p 2 (NOT (fold_sum (sum_words 0 (put16 ?p 2 0)))))) = 0xffff"
    using n assms length_cdp_padded [of d] by (intro stored_checksum_valid) (auto simp: sum_fits_def)
  then show ?thesis
    using assms by (simp add: cdp_checksum_def cdp_words_padded cdp_padded_put)
qed

definition get_cdp_tlv :: "bytes \<Rightarrow> ((u16 \<times> bytes) \<times> bytes) option" where
  "get_cdp_tlv p = do {
     (t, r) \<leftarrow> get_be16 p; (n, r) \<leftarrow> get_be16 r;
     (val, r) \<leftarrow> get_bytes (unat n - 4) r;
     if n < 4 then None else Some ((t, val), r)
   }"

interpretation cdp_code: self_delimiting "\<lambda>(t, v). cdp_tlv t v" get_cdp_tlv "\<lambda>(t, v). length v < 65532"
proof
  fix x :: "u16 \<times> bytes" and r :: bytes
  assume ok: "case x of (t, v) \<Rightarrow> length v < 65532"
  obtain t v where x: "x = (t, v)" by (cases x)
  have "unat (word_of_nat (4 + length v) :: u16) = 4 + length v"
    using ok x by (intro unat_word_of_nat) simp
  then obtain w :: u16 where w: "word_of_nat (4 + length v) = w" "unat w = 4 + length v" by blast
  then have "\<not> w < 4" by (simp add: word_less_nat_alt)
  then show "get_cdp_tlv ((case x of (t, v) \<Rightarrow> cdp_tlv t v) @ r) = Some (x, r)"
    unfolding x prod.case cdp_tlv_def w(1) using w(2) by (simp add: get_cdp_tlv_def)
  show "(case x of (t, v) \<Rightarrow> cdp_tlv t v) \<noteq> []" by (simp add: x cdp_tlv_def to_be16_def)
qed

text \<open>
  What a CDP receiver makes of a frame: the 802.3 length, the SNAP header and the checksum are
  checked before the records are read.
\<close>

definition cdp_view :: "bytes \<Rightarrow> (mac \<times> (u16 \<times> bytes) list) option" where
  "cdp_view f = do {
     (dm, r) \<leftarrow> get_bytes 6 f; (sm, r) \<leftarrow> get_bytes 6 r; (n, r) \<leftarrow> get_be16 r;
     (snap, pdu) \<leftarrow> get_bytes 8 r;
     (head, body) \<leftarrow> get_bytes 4 pdu;
     tlvs \<leftarrow> get_all get_cdp_tlv body;
     if dm = CDP_MULTICAST \<and> unat n = 8 + length pdu \<and>
        snap = [0xAA, 0xAA, 0x03] @ SNAP_OUI_CISCO @ to_be16 CDP_PROTOCOL_ID \<and> hd head = 2 \<and> cdp_checksum pdu = 0
     then Some (sm, tlvs) else None
   }"

lemma cdp_pdu_parts:
  assumes "length device_id + length software_version + length platform \<le> 60000"
  shows "\<exists>ck. cdp_pdu ip device_id software_version platform = [2, 180] @ to_be16 ck @ concat (map (\<lambda>(t, v). cdp_tlv t v)
      [(0x0001, as_bytes device_id), (0x0002, cdp_addresses ip), (0x0005, as_bytes software_version),
       (0x0006, as_bytes platform)])"
    and "cdp_checksum (cdp_pdu ip device_id software_version platform) = 0"
    and "length (cdp_pdu ip device_id software_version platform) =
      33 + length device_id + length software_version + length platform"
proof -
  let ?tl = "concat (map (\<lambda>(t, v). cdp_tlv t v)
      [(0x0001, as_bytes device_id), (0x0002, cdp_addresses ip), (0x0005, as_bytes software_version),
       (0x0006, as_bytes platform)])"
  let ?d = "[2, 180, 0, 0] @ ?tl"
  let ?ck = "cdp_checksum ?d"
  have z: "put16 ?d 2 0 = ?d" by (simp add: put16_def splice_def to_be16_def)
  have p: "cdp_pdu ip device_id software_version platform = put16 ?d 2 ?ck"
    using two_updates_put16 [of 2 ?d ?ck] by (simp add: cdp_pdu_def Let_def ucast_and_ff)
  then show "\<exists>ck. cdp_pdu ip device_id software_version platform = [2, 180] @ to_be16 ck @ ?tl"
    by (auto simp: put16_def splice_def eval_nat_numeral)
  have n: "length ?d = 33 + length device_id + length software_version + length platform"
    by (simp add: cdp_tlv_def cdp_addresses_def octets_def)
  then show "length (cdp_pdu ip device_id software_version platform) =
      33 + length device_id + length software_version + length platform"
    unfolding p by simp
  show "cdp_checksum (cdp_pdu ip device_id software_version platform) = 0"
    using cdp_checksum_stored [of ?d] n assms unfolding p z by simp
qed

lemma cdp_beacon_view:
  assumes "length switch_mac = 6" and "length device_id + length software_version + length platform \<le> 60000"
  shows "cdp_view (cdp_beacon switch_mac ip device_id software_version platform) = Some (switch_mac,
    [(0x0001, as_bytes device_id), (0x0002, cdp_addresses ip), (0x0005, as_bytes software_version),
     (0x0006, as_bytes platform)])"
proof -
  let ?ts = "[(0x0001, as_bytes device_id), (0x0002, cdp_addresses ip), (0x0005, as_bytes software_version),
       (0x0006, as_bytes platform)] :: (u16 \<times> bytes) list"
  let ?pdu = "cdp_pdu ip device_id software_version platform"
  note parts = cdp_pdu_parts [OF assms(2), of ip]
  obtain ck where p: "?pdu = ([2, 180] @ to_be16 ck) @ concat (map (\<lambda>(t, v). cdp_tlv t v) ?ts)"
    using parts(1) by auto
  have tlvs: "get_all get_cdp_tlv (concat (map (\<lambda>(t, v). cdp_tlv t v) ?ts)) = Some ?ts"
    by (rule cdp_code.get_all_enc) (use assms in \<open>simp add: cdp_addresses_def octets_def\<close>)
  have h: "get_bytes 4 ?pdu = Some ([2, 180] @ to_be16 ck, concat (map (\<lambda>(t, v). cdp_tlv t v) ?ts))"
    unfolding p by (rule get_bytes_append) simp
  let ?snap = "[0xAA, 0xAA, 0x03] @ SNAP_OUI_CISCO @ to_be16 CDP_PROTOCOL_ID"
  have "unat (word_of_nat (8 + length ?pdu) :: u16) = 8 + length ?pdu"
    using parts(3) assms(2) by (intro unat_word_of_nat) simp
  then obtain w :: u16 where w: "word_of_nat (8 + length ?pdu) = w" "unat w = 8 + length ?pdu" by blast
  obtain snap where snap: "snap = ?snap" by simp
  have f: "cdp_beacon switch_mac ip device_id software_version platform =
      CDP_MULTICAST @ switch_mac @ to_be16 w @ snap @ ?pdu"
    by (simp add: cdp_beacon_def snap_frame_def Let_def w(1) [symmetric] snap)
  have sn: "get_bytes 8 (snap @ ?pdu) = Some (snap, ?pdu)"
    by (rule get_bytes_append) (simp add: SNAP_OUI_CISCO_def snap)
  have dm: "length CDP_MULTICAST = 6" by (simp add: CDP_MULTICAST_def)
  show ?thesis
    unfolding f cdp_view_def snap [symmetric]
    by (simp add: dm assms(1) sn h tlvs parts(2) w(2) del: bind_exec_Some concat.simps list.map)
qed

end
