(* ===== verification/Snmp_Synth.thy ===== *)
theory Snmp_Synth
  imports Wire
begin

text \<open>
  \<open>src/synth/snmp.rs\<close>: object identifiers, BER encoding and the SNMP messages.  The decoder reads
  a message down to its variable bindings; object identifiers are read arc by arc.
\<close>

section \<open>Code\<close>

subsection \<open>Object identifiers\<close>

text \<open>The loop \<open>while v > 0\<close> over the ten-byte array; a write past the array panics.\<close>

function arc_loop :: "bytes \<Rightarrow> nat \<Rightarrow> u64 \<Rightarrow> (bytes \<times> nat) exec" where
  "arc_loop grp n v =
     (if 0 < v then do {
        grp \<leftarrow> wr grp n (ucast (v AND 0x7f) OR 0x80);
        arc_loop grp (n + 1) (drop_bit 7 v)
      } else ret (grp, n))"
  by pat_completeness auto

lemma drop7_less: "0 < v \<Longrightarrow> unat (drop_bit 7 (v :: u64)) < unat v"
  by (simp add: unat_drop_bit_word unat_gt_0)

termination arc_loop
  by (relation "measure (\<lambda>(grp, n, v). unat v)") (simp_all add: drop7_less)

declare arc_loop.simps [simp del]

definition encode_arc :: "u64 \<Rightarrow> bytes exec" where
  "encode_arc arc = do {
     grp \<leftarrow> wr (replicate 10 0) 0 (ucast (arc AND 0x7f));
     (grp, n) \<leftarrow> arc_loop grp 1 (drop_bit 7 arc);
     ret (rev (take n grp))
   }"

fun encode_arcs :: "u64 list \<Rightarrow> bytes exec" where
  "encode_arcs [] = ret []"
| "encode_arcs (a # as) = do { b \<leftarrow> encode_arc a; bs \<leftarrow> encode_arcs as; ret (b @ bs) }"

text \<open>\<open>map(|p| p.parse().ok()).collect::<Option<_>>()\<close>\<close>

fun parse_arcs :: "string list \<Rightarrow> u64 list option" where
  "parse_arcs [] = Some []"
| "parse_arcs (p # ps) =
     (case parse_radix 10 (2 ^ 64 - 1) p of
        None \<Rightarrow> None
      | Some v \<Rightarrow> map_option ((#) (word_of_nat v)) (parse_arcs ps))"

definition encode_oid :: "string \<Rightarrow> bytes option exec" where
  "encode_oid s =
     (case parse_arcs (split_on (CHR ''.'') s) of
        None \<Rightarrow> ret None
      | Some arcs \<Rightarrow>
          if length arcs < 2 \<or> 2 < arcs ! 0 then ret None
          else do {
            out \<leftarrow> encode_arcs (drop 2 arcs);
            ret (Some (ucast (arcs ! 0 * 40 + arcs ! 1) # out))
          })"

subsection \<open>BER\<close>

definition ber_len :: "nat \<Rightarrow> bytes" where
  "ber_len len =
     (if len < 0x80 then [word_of_nat len]
      else if len < 0x100 then [0x81, word_of_nat len]
      else [0x82, word_of_nat (drop_bit 8 len), word_of_nat (len AND 0xff)])"

definition ber_tlv :: "u8 \<Rightarrow> bytes \<Rightarrow> bytes" where
  "ber_tlv tag val = [tag] @ ber_len (length val) @ val"

function int_start :: "bytes \<Rightarrow> nat \<Rightarrow> nat" where
  "int_start b start = (if start < 3 \<and> b ! start = 0 then int_start b (start + 1) else start)"
  by pat_completeness auto
termination by (relation "measure (\<lambda>(b, start). 3 - start)") auto

declare int_start.simps [simp del]

definition ber_int :: "u32 \<Rightarrow> bytes" where
  "ber_int v =
     (let b = to_be32 v;
          val = drop (int_start b 0) b;
          val = (if val ! 0 AND 0x80 \<noteq> 0 then 0 # val else val)
      in ber_tlv 0x02 val)"

subsection \<open>Messages\<close>

definition SYSDESCR_OID :: bytes where
  "SYSDESCR_OID = [0x2b, 0x06, 0x01, 0x02, 0x01, 0x01, 0x01, 0x00]"

definition SYSOBJECTID_OID :: bytes where
  "SYSOBJECTID_OID = [0x2b, 0x06, 0x01, 0x02, 0x01, 0x01, 0x02, 0x00]"

definition snmp_message :: "string \<Rightarrow> u8 \<Rightarrow> u32 \<Rightarrow> bytes \<Rightarrow> bytes" where
  "snmp_message community pdu_tag request_id varbinds =
     (let pdu_body = ber_int request_id @ ber_int 0 @ ber_int 0 @ ber_tlv 0x30 varbinds;
          pdu = ber_tlv pdu_tag pdu_body;
          msg = ber_int 1 @ ber_tlv 0x04 (as_bytes community) @ pdu
      in ber_tlv 0x30 msg)"

definition varbind :: "bytes \<Rightarrow> bytes \<Rightarrow> bytes" where
  "varbind name_oid val = (let vb = ber_tlv 0x06 name_oid @ val in ber_tlv 0x30 vb)"

text \<open>\<open>o.and_then(encode_oid)\<close>\<close>

definition opt_oid :: "string option \<Rightarrow> bytes option exec" where
  "opt_oid os = (case os of None \<Rightarrow> ret None | Some s \<Rightarrow> encode_oid s)"

definition get_request :: "string \<Rightarrow> u32 \<Rightarrow> string option \<Rightarrow> bytes exec" where
  "get_request community request_id firmware_oid = do {
     let varbinds = varbind SYSDESCR_OID (ber_tlv 0x05 []) @ varbind SYSOBJECTID_OID (ber_tlv 0x05 []);
     fo \<leftarrow> opt_oid firmware_oid;
     let varbinds = (case fo of Some oid \<Rightarrow> varbinds @ varbind oid (ber_tlv 0x05 []) | None \<Rightarrow> varbinds);
     ret (snmp_message community 0xA0 request_id varbinds)
   }"

definition get_response ::
  "string \<Rightarrow> u32 \<Rightarrow> string \<Rightarrow> string option \<Rightarrow> string option \<Rightarrow> string option \<Rightarrow> bytes exec" where
  "get_response community request_id sys_descr sys_object_id firmware_oid firmware = do {
     let varbinds = varbind SYSDESCR_OID (ber_tlv 0x04 (as_bytes sys_descr));
     so \<leftarrow> opt_oid sys_object_id;
     let varbinds = (case so of Some oid \<Rightarrow> varbinds @ varbind SYSOBJECTID_OID (ber_tlv 0x06 oid) | None \<Rightarrow> varbinds);
     fo \<leftarrow> opt_oid firmware_oid;
     let varbinds = (case (fo, firmware) of
         (Some oid, Some fw) \<Rightarrow> varbinds @ varbind oid (ber_tlv 0x04 (as_bytes fw)) | _ \<Rightarrow> varbinds);
     ret (snmp_message community 0xA2 request_id varbinds)
   }"

abbreviation SNMP_PORT :: u16 where "SNMP_PORT \<equiv> 161"

definition snmp_exchange ::
  "mac \<Rightarrow> mac \<Rightarrow> ipv4 \<Rightarrow> ipv4 \<Rightarrow> u16 \<Rightarrow> string \<Rightarrow> u32 \<Rightarrow> string \<Rightarrow> string option \<Rightarrow> string option \<Rightarrow>
   string option \<Rightarrow> (bytes \<times> bytes) exec" where
  "snmp_exchange mgr_mac sw_mac mgr_ip sw_ip mgr_port community request_id sys_descr sys_object_id
     firmware_oid firmware = do {
     req \<leftarrow> get_request community request_id firmware_oid;
     resp \<leftarrow> get_response community request_id sys_descr sys_object_id firmware_oid firmware;
     rf \<leftarrow> udp_frame mgr_mac sw_mac mgr_ip sw_ip mgr_port SNMP_PORT req;
     pf \<leftarrow> udp_frame sw_mac mgr_mac sw_ip mgr_ip SNMP_PORT mgr_port resp;
     ret (rf, pf)
   }"

section \<open>Base-128 digits\<close>

text \<open>The continuation octets of an arc, and the arc as a reader takes it.\<close>

fun cont_octets :: "nat \<Rightarrow> bytes" where
  "cont_octets m = (if m = 0 then [] else cont_octets (m div 128) @ [word_of_nat (128 + m mod 128)])"

declare cont_octets.simps [simp del]

definition arc_octets :: "nat \<Rightarrow> bytes" where
  "arc_octets n = cont_octets (n div 128) @ [word_of_nat (n mod 128)]"

fun get_arc_from :: "nat \<Rightarrow> bytes \<Rightarrow> (nat \<times> bytes) option" where
  "get_arc_from acc [] = None"
| "get_arc_from acc (b # r) =
     (if unat b < 128 then Some (acc * 128 + unat b, r) else get_arc_from (acc * 128 + (unat b - 128)) r)"

lemma get_cont: "get_arc_from 0 (cont_octets m @ r) = get_arc_from m r"
proof (induction m arbitrary: r rule: cont_octets.induct)
  case (1 m)
  show ?case
  proof (cases "m = 0")
    case True
    then show ?thesis by (simp add: cont_octets.simps)
  next
    case False
    have "128 + m mod 128 < 256" using mod_less_divisor [of 128 m] by linarith
    then have "unat (word_of_nat (128 + m mod 128) :: u8) = 128 + m mod 128" by (intro unat_word_of_nat) simp
    then obtain w :: u8 where w: "word_of_nat (128 + m mod 128) = w" "unat w = 128 + m mod 128" by blast
    show ?thesis
      using 1 [OF False, of "w # r"] False w by (subst cont_octets.simps) (simp add: w(1))
  qed
qed

interpretation arc_code: self_delimiting arc_octets "get_arc_from 0" "\<lambda>_. True"
proof
  fix n :: nat and r :: bytes
  have "unat (word_of_nat (n mod 128) :: u8) = n mod 128"
    by (intro unat_word_of_nat) (simp add: less_trans [OF mod_less_divisor])
  then show "get_arc_from 0 (arc_octets n @ r) = Some (n, r)"
    by (simp add: arc_octets_def get_cont)
  show "arc_octets n \<noteq> []" by (simp add: arc_octets_def)
qed

lemma length_cont: "m < 128 ^ k \<Longrightarrow> length (cont_octets m) \<le> k"
proof (induction k arbitrary: m)
  case 0
  then show ?case by (simp add: cont_octets.simps)
next
  case (Suc k)
  then have "m div 128 < 128 ^ k" by (simp add: less_mult_imp_div_less mult.commute)
  with Suc.IH show ?case by (subst cont_octets.simps) auto
qed

section \<open>The array loop computes the digits\<close>

lemma low7: "ucast ((v :: u64) AND 0x7f) = (word_of_nat (unat v mod 128) :: u8)"
proof -
  have "(0x7f :: u64) = mask 7" by (simp add: mask_eq_exp_minus_1)
  then have "unat (v AND 0x7f) = unat v mod 128"
    by (simp only: take_bit_eq_mask [symmetric] unsigned_take_bit_eq) (simp add: take_bit_eq_mod)
  moreover have "(ucast (v AND 0x7f) :: u8) = word_of_nat (unat (v AND 0x7f))" by simp
  ultimately show ?thesis by simp
qed

lemma low7_cont: "ucast ((v :: u64) AND 0x7f) OR 0x80 = (word_of_nat (128 + unat v mod 128) :: u8)"
proof -
  define k where "k = unat v mod 128"
  have k: "k < 2 ^ 7" by (simp add: k_def)
  have "(128 :: nat) OR k = 128 + k"
  proof (rule disjunctive_add [symmetric])
    fix n
    have "\<not> bit k n" if "7 \<le> n"
    proof -
      have "k < 2 ^ n" using k that by (meson less_le_trans one_le_numeral power_increasing)
      then show ?thesis by (simp add: bit_iff_odd)
    qed
    moreover have "\<not> bit (128 :: nat) n" if "n < 7"
    proof -
      have "(128 :: nat) = 2 ^ 7" by simp
      then show ?thesis using that by (simp only: bit_exp_iff) simp
    qed
    ultimately show "\<not> bit (128 :: nat) n \<or> \<not> bit k n" by (meson not_le)
  qed
  then have "(word_of_nat (128 + k) :: u8) = word_of_nat (128 OR k)" by simp
  also have "\<dots> = word_of_nat 128 OR word_of_nat k" by (rule of_nat_or_eq)
  also have "\<dots> = word_of_nat k OR 0x80" by (simp add: or.commute)
  finally show ?thesis by (simp only: low7 k_def)
qed

lemma arc_loop_ok:
  assumes "n + length (cont_octets (unat v)) \<le> length grp"
  shows "\<exists>grp'. arc_loop grp n v = ret (grp', n + length (cont_octets (unat v))) \<and>
    rev (take (n + length (cont_octets (unat v))) grp') = cont_octets (unat v) @ rev (take n grp)"
  using assms
proof (induction grp n v rule: arc_loop.induct)
  case (1 grp n v)
  show ?case
  proof (cases "0 < v")
    case False
    then have "v = 0" using word_neq_0_conv by blast
    then show ?thesis by (simp add: arc_loop.simps cont_octets.simps)
  next
    case True
    let ?d = "word_of_nat (128 + unat v mod 128) :: u8"
    let ?rest = "cont_octets (unat (drop_bit 7 v))"
    have c: "cont_octets (unat v) = ?rest @ [?d]"
      using True by (subst cont_octets.simps) (simp add: unat_gt_0 unat_drop_bit_word)
    have n: "n < length grp" "(n + 1) + length ?rest \<le> length (grp[n := ?d])" using 1(2) c by auto
    have w: "wr grp n (ucast (v AND 0x7f) OR 0x80) = ret (grp[n := ?d])"
      using n(1) by (simp only: wr_ok low7_cont)
    obtain grp' where g: "arc_loop (grp[n := ?d]) (n + 1) (drop_bit 7 v) = ret (grp', (n + 1) + length ?rest)"
      "rev (take ((n + 1) + length ?rest) grp') = ?rest @ rev (take (n + 1) (grp[n := ?d]))"
      using 1(1) [OF True w n(2)] by blast
    have t: "take (n + 1) (grp[n := ?d]) = take n grp @ [?d]"
      using n(1) by (simp add: take_Suc_conv_app_nth)
    have "arc_loop grp n v = ret (grp', n + length (cont_octets (unat v)))"
      using True g(1) by (subst arc_loop.simps) (simp only: w c, simp)
    moreover have "rev (take (n + length (cont_octets (unat v))) grp') = cont_octets (unat v) @ rev (take n grp)"
      using g(2) unfolding c t by simp
    ultimately show ?thesis by blast
  qed
qed

text \<open>Ten octets are enough for 64 bits, so the array is never overrun.\<close>

lemma encode_arc_ok: "encode_arc v = ret (arc_octets (unat v))" and length_arc_octets: "length (arc_octets (unat (v :: u64))) \<le> 10"
proof -
  have "unat v < 2 ^ 64" using unsigned_less [of v] by simp
  then have "unat v div 128 < 128 ^ 9" by simp
  then have l: "length (cont_octets (unat v div 128)) \<le> 9" by (rule length_cont)
  then show "length (arc_octets (unat v)) \<le> 10" by (simp add: arc_octets_def)
  obtain g0 :: bytes where g0: "g0 = (replicate 10 0)[0 := ucast (v AND 0x7f)]" by simp
  have r: "replicate 10 (0 :: u8) = 0 # replicate 9 0" by (simp add: numeral_eq_Suc)
  have t: "length g0 = 10" "take 1 g0 = [word_of_nat (unat v mod 128)]"
    unfolding g0 r low7 by simp_all
  have w: "wr (replicate 10 0) 0 (ucast (v AND 0x7f)) = ret g0" unfolding g0 by (rule wr_ok) simp
  have d: "unat (drop_bit 7 v) = unat v div 128" by (simp add: unat_drop_bit_word)
  have "1 + length (cont_octets (unat (drop_bit 7 v))) \<le> length g0" using l t(1) unfolding d by simp
  then obtain g where g: "arc_loop g0 1 (drop_bit 7 v) = ret (g, 1 + length (cont_octets (unat v div 128)))"
    "rev (take (1 + length (cont_octets (unat v div 128))) g) = cont_octets (unat v div 128) @ rev (take 1 g0)"
    using arc_loop_ok [of 1 "drop_bit 7 v" g0] unfolding d by blast
  then show "encode_arc v = ret (arc_octets (unat v))"
    unfolding encode_arc_def w arc_octets_def t(2) by simp
qed

section \<open>Object identifiers\<close>

definition arcs_octets :: "u64 list \<Rightarrow> bytes" where
  "arcs_octets as = concat (map (\<lambda>a. arc_octets (unat a)) as)"

lemma encode_arcs_ok: "encode_arcs as = ret (arcs_octets as)"
  by (induction as) (simp_all add: arcs_octets_def encode_arc_ok)

text \<open>The encoder never panics: its result is this function of the string.\<close>

definition oid_octets :: "string \<Rightarrow> bytes option" where
  "oid_octets s =
     (case parse_arcs (split_on (CHR ''.'') s) of
        Some (a # b # as) \<Rightarrow> if 2 < a then None else Some (ucast (a * 40 + b) # arcs_octets as)
      | _ \<Rightarrow> None)"

lemma encode_oid_ok: "encode_oid s = ret (oid_octets s)"
proof (cases "parse_arcs (split_on (CHR ''.'') s)")
  case (Some arcs)
  then show ?thesis
    by (cases arcs; cases "tl arcs") (auto simp: encode_oid_def oid_octets_def encode_arcs_ok)
qed (simp add: encode_oid_def oid_octets_def)

text \<open>What a BER reader takes the octets for: the first octet holds the first two arcs.\<close>

definition decode_oid :: "bytes \<Rightarrow> nat list option" where
  "decode_oid p = do {
     subs \<leftarrow> get_all (get_arc_from 0) p;
     (case subs of [] \<Rightarrow> None
      | x # xs \<Rightarrow> Some ((if x < 80 then [x div 40, x mod 40] else [2, x - 80]) @ xs))
   }"

lemma parse_arcs_show:
  "list_all (\<lambda>n. n < 2 ^ 64) ns \<Longrightarrow> parse_arcs (map show_nat ns) = Some (map word_of_nat ns)"
  by (induction ns) (simp_all add: parse_show_nat)

lemma arc_octets_small: "n < 128 \<Longrightarrow> arc_octets n = [word_of_nat n]"
  by (simp add: arc_octets_def) (simp add: cont_octets.simps)

text \<open>The identifiers the one-octet first pair can express.\<close>

definition oid_ok :: "nat list \<Rightarrow> bool" where
  "oid_ok ns \<longleftrightarrow> (case ns of
      a # b # rest \<Rightarrow> (a < 2 \<and> b < 40 \<or> a = 2 \<and> b < 48) \<and> list_all (\<lambda>n. n < 2 ^ 64) rest
    | _ \<Rightarrow> False)"

definition dotted :: "nat list \<Rightarrow> string" where
  "dotted ns = join_with (CHR ''.'') (map show_nat ns)"

lemma oid_roundtrip:
  assumes "oid_ok ns"
  shows "\<exists>b. oid_octets (dotted ns) = Some b \<and> decode_oid b = Some ns"
proof -
  obtain a b rest where ns: "ns = a # b # rest" using assms by (auto simp: oid_ok_def split: list.splits)
  have ab: "a < 2 \<and> b < 40 \<or> a = 2 \<and> b < 48" and rest: "list_all (\<lambda>n. n < 2 ^ 64) rest"
    using assms by (simp_all add: ns oid_ok_def)
  have "split_on (CHR ''.'') (dotted ns) = map show_nat ns"
    unfolding dotted_def by (rule split_on_join) (auto simp: ns show_nat_no_dot)
  moreover have "parse_arcs (map show_nat ns) = Some (map word_of_nat ns)"
    by (rule parse_arcs_show) (use ab rest in \<open>auto simp: ns\<close>)
  ultimately have p: "parse_arcs (split_on (CHR ''.'') (dotted ns)) = Some (word_of_nat a # word_of_nat b # map word_of_nat rest)"
    by (simp add: ns)
  have x: "a * 40 + b < 128" using ab by auto
  have "unat (word_of_nat (a * 40 + b) :: u64) = a * 40 + b" using x by (intro unat_word_of_nat) simp
  then have "(ucast (word_of_nat (a * 40 + b) :: u64) :: u8) = word_of_nat (a * 40 + b)"
    by (metis unsigned_of_nat of_nat_unat)
  moreover have "(word_of_nat a * 40 + word_of_nat b :: u64) = word_of_nat (a * 40 + b)" by simp
  moreover have "\<not> (2 :: u64) < word_of_nat a"
    using ab unat_word_of_nat [of a, where 'a = 64] by (auto simp: word_less_nat_alt)
  moreover have r: "arcs_octets (map word_of_nat rest) = concat (map arc_octets rest)"
  proof -
    have "unat (word_of_nat n :: u64) = n" if "n \<in> set rest" for n
      using rest that by (intro unat_word_of_nat) (simp add: list_all_iff)
    then show ?thesis by (simp add: arcs_octets_def comp_def cong: map_cong)
  qed
  ultimately have o: "oid_octets (dotted ns) = Some (word_of_nat (a * 40 + b) # concat (map arc_octets rest))"
    unfolding oid_octets_def p by (simp del: of_nat_add of_nat_mult)
  have e1: "word_of_nat (a * 40 + b) # concat (map arc_octets rest) = concat (map arc_octets ((a * 40 + b) # rest))"
    using arc_octets_small [OF x] by simp
  have e2: "get_all (get_arc_from 0) (concat (map arc_octets ((a * 40 + b) # rest))) = Some ((a * 40 + b) # rest)"
    by (rule arc_code.get_all_enc) (simp add: list_all_iff)
  have "(if a * 40 + b < 80 then [(a * 40 + b) div 40, (a * 40 + b) mod 40] else [2, a * 40 + b - 80]) = [a, b]"
    using ab by auto
  then have "decode_oid (word_of_nat (a * 40 + b) # concat (map arc_octets rest)) = Some ns"
    unfolding decode_oid_def e1 e2 ns by simp
  with o show ?thesis by blast
qed

text \<open>
  Outside that range the octet is cut to eight bits: an identifier whose second arc is out of
  range for its first is encoded as another one instead of being rejected.
\<close>

lemma parse_arcs_examples:
  "parse_arcs (split_on (CHR ''.'') ''1.300.1'') = Some [1, 300, 1]"
  "parse_arcs (split_on (CHR ''.'') ''2.4.1'') = Some [2, 4, 1]"
  "parse_arcs (split_on (CHR ''.'') ''2.100.3'') = Some [2, 100, 3]"
  by (simp_all add: parse_radix_def digit_val_def)

lemma oid_first_pair_cut: "encode_oid ''1.300.1'' = encode_oid ''2.4.1'' \<and> encode_oid ''2.4.1'' = ret (Some [84, 1])"
  unfolding encode_oid_ok oid_octets_def parse_arcs_examples
  by (simp add: arcs_octets_def arc_octets_small)

lemma oid_joint_arc: "encode_oid ''2.100.3'' = ret (Some [180, 3]) \<and> decode_oid [180, 3] = Some [2, 6579]"
proof
  show "encode_oid ''2.100.3'' = ret (Some [180, 3])"
    unfolding encode_oid_ok oid_octets_def parse_arcs_examples
    by (simp add: arcs_octets_def arc_octets_small)
  show "decode_oid [180, 3] = Some [2, 6579]"
    by (simp add: decode_oid_def get_all_def)
qed

section \<open>BER\<close>

definition get_ber :: "bytes \<Rightarrow> ((u8 \<times> bytes) \<times> bytes) option" where
  "get_ber p = do {
     (tag, r) \<leftarrow> get8 p; (l, r) \<leftarrow> get8 r;
     (n, r) \<leftarrow> (if l < 0x80 then Some (unat l, r)
       else if l = 0x81 then map_option (apfst unat) (get8 r)
       else if l = 0x82 then map_option (apfst unat) (get_be16 r) else None);
     (val, r) \<leftarrow> get_bytes n r;
     Some ((tag, val), r)
   }"

lemma ber_len_hi: "n < 65536 \<Longrightarrow> unat (be16 (word_of_nat (drop_bit 8 n)) (word_of_nat (n AND 0xff))) = n"
proof -
  assume n: "n < 65536"
  have "(0xff :: nat) = mask 8" by (simp add: mask_eq_exp_minus_1)
  then have l: "n AND 0xff = n mod 256" by (simp only: take_bit_eq_mask [symmetric]) (simp add: take_bit_eq_mod)
  have h: "drop_bit 8 n = n div 256" by (simp add: drop_bit_eq_div)
  have "unat (word_of_nat (n div 256) :: u8) = n div 256" using n by (intro unat_word_of_nat) auto
  moreover have "unat (word_of_nat (n mod 256) :: u8) = n mod 256" by (intro unat_word_of_nat) simp
  ultimately show ?thesis unfolding l h unat_be16 by simp
qed

interpretation ber_code: self_delimiting "\<lambda>(t, v). ber_tlv t v" get_ber "\<lambda>(t, v). length v < 65536"
proof
  fix x :: "u8 \<times> bytes" and r :: bytes
  assume ok: "case x of (t, v) \<Rightarrow> length v < 65536"
  obtain t v where x: "x = (t, v)" by (cases x)
  consider "length v < 0x80" | "0x80 \<le> length v" "length v < 0x100" | "0x100 \<le> length v" by linarith
  then show "get_ber ((case x of (t, v) \<Rightarrow> ber_tlv t v) @ r) = Some (x, r)"
  proof cases
    case 1
    then have "unat (word_of_nat (length v) :: u8) = length v" by (intro unat_word_of_nat) simp
    then obtain w :: u8 where w: "word_of_nat (length v) = w" "unat w = length v" by blast
    then have "w < 0x80" using 1 by (simp add: word_less_nat_alt)
    with 1 w show ?thesis by (simp add: x ber_tlv_def ber_len_def get_ber_def)
  next
    case 2
    then have "unat (word_of_nat (length v) :: u8) = length v" by (intro unat_word_of_nat) simp
    then obtain w :: u8 where w: "word_of_nat (length v) = w" "unat w = length v" by blast
    with 2 show ?thesis by (simp add: x ber_tlv_def ber_len_def get_ber_def)
  next
    case 3
    obtain a b :: u8 where ab: "word_of_nat (drop_bit 8 (length v)) = a" "word_of_nat (length v AND 0xff) = b" by blast
    then have "unat (be16 a b) = length v" using ber_len_hi [of "length v"] ok x by simp
    with 3 ab show ?thesis by (simp add: x ber_tlv_def ber_len_def get_ber_def)
  qed
  show "(case x of (t, v) \<Rightarrow> ber_tlv t v) \<noteq> []" by (simp add: x ber_tlv_def)
qed

lemma get_ber_tlv [simp]: "length v < 65536 \<Longrightarrow> get_ber (ber_tlv t v @ r) = Some ((t, v), r)"
  using ber_code.get_enc [of "(t, v)" r] by simp

lemma get_ber_tlv_all [simp]: "length v < 65536 \<Longrightarrow> get_ber (ber_tlv t v) = Some ((t, v), [])"
  using get_ber_tlv [of v t "[]"] by simp

lemma length_ber_tlv: "length (ber_tlv t v) \<le> 4 + length v"
  by (simp add: ber_tlv_def ber_len_def)

text \<open>A non-negative integer of any length; a set sign bit is refused.\<close>

definition get_ber_int :: "bytes \<Rightarrow> (nat \<times> bytes) option" where
  "get_ber_int p = do {
     ((tag, val), r) \<leftarrow> get_ber p;
     if tag \<noteq> 0x02 \<or> val = [] \<or> hd val AND 0x80 \<noteq> 0 then None
     else Some (fold (\<lambda>b a. a * 256 + unat b) val 0, r)
   }"

definition int_val :: "u32 \<Rightarrow> bytes" where
  "int_val v = (let val = drop (int_start (to_be32 v) 0) (to_be32 v) in if val ! 0 AND 0x80 \<noteq> 0 then 0 # val else val)"

lemma int_start4:
  "int_start [a, b, c, d] 0 = (if a = 0 then int_start [a, b, c, d] 1 else 0)"
  "int_start [a, b, c, d] 1 = (if b = 0 then int_start [a, b, c, d] 2 else 1)"
  "int_start [a, b, c, d] 2 = (if c = 0 then int_start [a, b, c, d] 3 else 2)"
  "int_start [a, b, c, d] 3 = 3"
  by (subst int_start.simps, simp add: numeral_2_eq_2 numeral_3_eq_3)+

lemma int_val: "int_val v \<noteq> []" "length (int_val v) \<le> 5" "hd (int_val v) AND 0x80 = 0"
    "fold (\<lambda>b a. a * 256 + unat b) (int_val v) 0 = unat v"
proof -
  obtain a b c d where v: "to_be32 v = [a, b, c, d]" "be32 a b c d = v"
    using be32_to_be32 [of v] by (auto simp: to_be32_def)
  have s: "unat v = ((unat a * 256 + unat b) * 256 + unat c) * 256 + unat d"
    unfolding v(2) [symmetric] unat_be32 by simp
  have "\<exists>x ys. drop (int_start [a, b, c, d] 0) [a, b, c, d] = x # ys \<and> length ys \<le> 3 \<and>
      fold (\<lambda>b a. a * 256 + unat b) (x # ys) 0 = unat v"
  proof -
    have "drop (int_start [a, b, c, d] 0) [a, b, c, d] =
        (if a = 0 then if b = 0 then if c = 0 then [d] else [c, d] else [b, c, d] else [a, b, c, d])"
      unfolding int_start4 by (simp add: numeral_3_eq_3 numeral_2_eq_2)
    then show ?thesis using s by simp
  qed
  then obtain x ys where x: "drop (int_start [a, b, c, d] 0) [a, b, c, d] = x # ys" "length ys \<le> 3"
    "fold (\<lambda>b a. a * 256 + unat b) (x # ys) 0 = unat v" by blast
  have i: "int_val v = (if x AND 0x80 \<noteq> 0 then 0 # x # ys else x # ys)"
    by (simp add: int_val_def v(1) x(1) Let_def)
  show "int_val v \<noteq> []" "length (int_val v) \<le> 5" "hd (int_val v) AND 0x80 = 0"
    "fold (\<lambda>b a. a * 256 + unat b) (int_val v) 0 = unat v"
    unfolding i using x(2,3) by (cases "x AND 0x80 = 0"; simp)+
qed

lemma get_ber_int [simp]: "get_ber_int (ber_int v @ r) = Some (unat v, r)"
proof -
  have "ber_int v = ber_tlv 0x02 (int_val v)" by (simp add: ber_int_def int_val_def Let_def)
  then show ?thesis using int_val [of v] by (simp add: get_ber_int_def)
qed

section \<open>Reading a message\<close>

text \<open>A binding: name, tag of the value, value.\<close>

definition put_binding :: "bytes \<times> u8 \<times> bytes \<Rightarrow> bytes" where
  "put_binding b = (case b of (name, t, val) \<Rightarrow> varbind name (ber_tlv t val))"

definition get_binding :: "bytes \<Rightarrow> ((bytes \<times> u8 \<times> bytes) \<times> bytes) option" where
  "get_binding p = do {
     ((t, body), r) \<leftarrow> get_ber p;
     ((t1, name), q) \<leftarrow> get_ber body; ((vt, val), q) \<leftarrow> get_ber q;
     if t = 0x30 \<and> t1 = 0x06 \<and> q = [] then Some ((name, vt, val), r) else None
   }"

definition binding_size :: "bytes \<times> u8 \<times> bytes \<Rightarrow> nat" where
  "binding_size b = (case b of (name, t, val) \<Rightarrow> 12 + length name + length val)"

interpretation binding_code: self_delimiting put_binding get_binding "\<lambda>b. binding_size b < 65536"
proof
  fix b :: "bytes \<times> u8 \<times> bytes" and r
  assume ok: "binding_size b < 65536"
  obtain name t val where b: "b = (name, t, val)" by (cases b)
  have "length (ber_tlv 6 name @ ber_tlv t val) < 65536"
    using ok length_ber_tlv [of 6 name] length_ber_tlv [of t val] by (simp add: b binding_size_def)
  then show "get_binding (put_binding b @ r) = Some (b, r)"
    using ok by (simp add: b binding_size_def put_binding_def varbind_def get_binding_def Let_def)
  show "put_binding b \<noteq> []" by (simp add: b put_binding_def varbind_def ber_tlv_def Let_def)
qed

lemma length_put_binding: "length (put_binding b) \<le> binding_size b"
  using length_ber_tlv [of 6 "fst b"] length_ber_tlv [of "fst (snd b)" "snd (snd b)"]
    length_ber_tlv [of "0x30" "ber_tlv 6 (fst b) @ ber_tlv (fst (snd b)) (snd (snd b))"]
  by (cases b) (simp add: put_binding_def varbind_def binding_size_def Let_def)

lemma length_put_bindings: "length (concat (map put_binding bs)) \<le> sum_list (map binding_size bs)"
proof (induction bs)
  case (Cons b bs)
  then show ?case using length_put_binding [of b] by simp
qed simp

record snmp_view =
  sv_version :: nat
  sv_community :: string
  sv_pdu :: u8
  sv_request :: nat
  sv_bindings :: "(bytes \<times> u8 \<times> bytes) list"

definition snmp_read :: "bytes \<Rightarrow> snmp_view option" where
  "snmp_read p = do {
     ((t, body), r) \<leftarrow> get_ber p;
     (version, q) \<leftarrow> get_ber_int body; ((tc, community), q) \<leftarrow> get_ber q; ((pdu, pbody), q) \<leftarrow> get_ber q;
     (request, s) \<leftarrow> get_ber_int pbody; (status, s) \<leftarrow> get_ber_int s; (index, s) \<leftarrow> get_ber_int s;
     ((tl, bl), s) \<leftarrow> get_ber s;
     bindings \<leftarrow> get_all get_binding bl;
     if t = 0x30 \<and> tc = 0x04 \<and> tl = 0x30 \<and> status = 0 \<and> index = 0 \<and> r = [] \<and> q = [] \<and> s = []
     then Some \<lparr>sv_version = version, sv_community = of_bytes community, sv_pdu = pdu, sv_request = request,
       sv_bindings = bindings\<rparr>
     else None
   }"

lemma length_ber_int: "length (ber_int v) \<le> 9"
proof -
  have "ber_int v = ber_tlv 0x02 (int_val v)" by (simp add: ber_int_def int_val_def Let_def)
  then show ?thesis using length_ber_tlv [of 2 "int_val v"] int_val(2) [of v] by simp
qed

lemma snmp_read_message:
  assumes "length community + sum_list (map binding_size bs) \<le> 65000"
  shows "snmp_read (snmp_message community t request_id (concat (map put_binding bs))) =
    Some \<lparr>sv_version = 1, sv_community = community, sv_pdu = t, sv_request = unat request_id, sv_bindings = bs\<rparr>"
    and "length (snmp_message community t request_id (concat (map put_binding bs))) \<le>
      60 + length community + sum_list (map binding_size bs)"
proof -
  let ?vb = "concat (map put_binding bs)"
  let ?body = "ber_int request_id @ ber_int 0 @ ber_int 0 @ ber_tlv 0x30 ?vb"
  let ?msg = "ber_int 1 @ ber_tlv 0x04 (as_bytes community) @ ber_tlv t ?body"
  have vb: "length ?vb \<le> sum_list (map binding_size bs)" by (rule length_put_bindings)
  have body: "length ?body \<le> 31 + length ?vb"
    using length_ber_int [of request_id] length_ber_int [of 0] length_ber_tlv [of "0x30" ?vb] by simp
  have msg: "length ?msg \<le> 48 + length community + length ?vb"
    using body length_ber_int [of 1] length_ber_tlv [of 4 "as_bytes community"] length_ber_tlv [of t ?body] by simp
  have m: "snmp_message community t request_id ?vb = ber_tlv 0x30 ?msg" by (simp add: snmp_message_def Let_def)
  show "length (snmp_message community t request_id ?vb) \<le> 60 + length community + sum_list (map binding_size bs)"
    unfolding m using msg vb length_ber_tlv [of "0x30" ?msg] by linarith
  have "binding_size b \<le> sum_list (map binding_size bs)" if "b \<in> set bs" for b
    using that by (intro member_le_sum_list) auto
  then have all: "get_all get_binding ?vb = Some bs"
    by (intro binding_code.get_all_enc) (use assms in \<open>fastforce simp: list_all_iff\<close>)
  have l: "length ?msg < 65536" "length ?body < 65536" "length ?vb < 65536" "length (as_bytes community) < 65536"
    using assms vb body msg by simp_all
  have "get_ber (ber_tlv 0x30 ?msg) = Some ((0x30, ?msg), [])" using l(1) by (rule get_ber_tlv_all)
  moreover have "get_ber (ber_tlv 0x04 (as_bytes community) @ r) = Some ((0x04, as_bytes community), r)" for r
    using l(4) by (rule get_ber_tlv)
  moreover have "get_ber (ber_tlv t ?body) = Some ((t, ?body), [])" using l(2) by (rule get_ber_tlv_all)
  moreover have "get_ber (ber_tlv 0x30 ?vb) = Some ((0x30, ?vb), [])" using l(3) by (rule get_ber_tlv_all)
  ultimately show "snmp_read (snmp_message community t request_id ?vb) =
    Some \<lparr>sv_version = 1, sv_community = community, sv_pdu = t, sv_request = unat request_id, sv_bindings = bs\<rparr>"
    unfolding m snmp_read_def using all by (simp del: bind_exec_Some get_ber_tlv get_ber_tlv_all)
qed

text \<open>The bindings of a request and a response: one per value that is present.\<close>

definition opt_octets :: "string option \<Rightarrow> bytes option" where
  "opt_octets os = Option.bind os oid_octets"

lemma opt_oid_ok: "opt_oid os = ret (opt_octets os)"
  by (simp add: opt_oid_def opt_octets_def encode_oid_ok split: option.splits)

definition request_bindings :: "string option \<Rightarrow> (bytes \<times> u8 \<times> bytes) list" where
  "request_bindings fo = [(SYSDESCR_OID, 0x05, []), (SYSOBJECTID_OID, 0x05, [])] @
     (case opt_octets fo of None \<Rightarrow> [] | Some oid \<Rightarrow> [(oid, 0x05, [])])"

definition response_bindings ::
  "string \<Rightarrow> string option \<Rightarrow> string option \<Rightarrow> string option \<Rightarrow> (bytes \<times> u8 \<times> bytes) list" where
  "response_bindings descr so fo fw = [(SYSDESCR_OID, 0x04, as_bytes descr)] @
     (case opt_octets so of None \<Rightarrow> [] | Some oid \<Rightarrow> [(SYSOBJECTID_OID, 0x06, oid)]) @
     (case (opt_octets fo, fw) of (Some oid, Some v) \<Rightarrow> [(oid, 0x04, as_bytes v)] | _ \<Rightarrow> [])"

lemma get_request_eq:
  "get_request community rid fo = ret (snmp_message community 0xA0 rid (concat (map put_binding (request_bindings fo))))"
  by (simp add: get_request_def opt_oid_ok request_bindings_def put_binding_def split: option.split)

lemma get_response_eq:
  "get_response community rid descr so fo fw =
     ret (snmp_message community 0xA2 rid (concat (map put_binding (response_bindings descr so fo fw))))"
  by (cases "opt_octets so"; cases "opt_octets fo"; cases fw)
    (simp_all add: get_response_def opt_oid_ok response_bindings_def put_binding_def)

text \<open>The exchange: two valid datagrams that read back as the request and the response.\<close>

lemma snmp_exchange_ok:
  assumes m: "length mm = 6" "length sm = 6"
    and q: "length community + sum_list (map binding_size (request_bindings fo)) \<le> 65000"
    and r: "length community + sum_list (map binding_size (response_bindings descr so fo fw)) \<le> 65000"
  shows "\<exists>rf pf req resp. snmp_exchange mm sm mi si mp community rid descr so fo fw = ret (rf, pf)
    \<and> datagram rf mi mp si SNMP_PORT req \<and> datagram pf si SNMP_PORT mi mp resp
    \<and> snmp_read req = Some \<lparr>sv_version = 1, sv_community = community, sv_pdu = 0xA0, sv_request = unat rid,
        sv_bindings = request_bindings fo\<rparr>
    \<and> snmp_read resp = Some \<lparr>sv_version = 1, sv_community = community, sv_pdu = 0xA2, sv_request = unat rid,
        sv_bindings = response_bindings descr so fo fw\<rparr>"
proof -
  let ?req = "snmp_message community 0xA0 rid (concat (map put_binding (request_bindings fo)))"
  let ?resp = "snmp_message community 0xA2 rid (concat (map put_binding (response_bindings descr so fo fw)))"
  note rq = snmp_read_message [OF q, of "0xA0" rid] and rs = snmp_read_message [OF r, of "0xA2" rid]
  have "length ?req \<le> 65507" "length ?resp \<le> 65507" using rq(2) rs(2) q r by linarith+
  then obtain rf pf where "udp_frame mm sm mi si mp SNMP_PORT ?req = ret rf" "datagram rf mi mp si SNMP_PORT ?req"
    "udp_frame sm mm si mi SNMP_PORT mp ?resp = ret pf" "datagram pf si SNMP_PORT mi mp ?resp"
    using udp_frame_datagram [OF m] udp_frame_datagram [OF m(2,1)] by meson
  then show ?thesis
    using rq(1) rs(1) by (auto simp: snmp_exchange_def get_request_eq get_response_eq)
qed

end
