(* ===== verification/Announce.thy ===== *)
theory Announce
  imports Fabricate Scenario Beacons Snmp_Synth Dns_Synth
begin

text \<open>
  \<open>src/simulate/engine.rs\<close>: the identity burst.  Every asset answers an ARP resolution, every device with CVEs answers
  its zone's station in its own protocol, the zone's firewall names the devices, and supervisors of a zone poll
  devices of the zone below.  Log output is left out.
\<close>

section \<open>Code\<close>

text \<open>A \<open>String\<close> is its UTF-8 bytes, so a character begins at a byte that is not \<open>10xxxxxx\<close>.\<close>

definition is_char_boundary :: "string \<Rightarrow> nat \<Rightarrow> bool" where
  "is_char_boundary s i \<longleftrightarrow> i = 0 \<or> i = length s \<or> i < length s \<and> (of_char (s ! i) :: nat) div 64 \<noteq> 2"

fun clamp_end :: "string \<Rightarrow> nat \<Rightarrow> nat" where
  "clamp_end s e = (if 0 < e \<and> \<not> is_char_boundary s e then clamp_end s (e - 1) else e)"

declare clamp_end.simps [simp del]

definition clamp_str :: "string \<Rightarrow> nat \<Rightarrow> string" where
  "clamp_str s mx = (if length s \<le> mx then s else take (clamp_end s mx) s)"

definition ephemeral_port :: "u64 \<Rightarrow> ipv4 \<Rightarrow> u16" where
  "ephemeral_port nonce dev_ip =
     (let h = nonce * 0x9E3779B97F4A7C15 XOR ucast dev_ip * 0x2545F4914F6CDD1D
      in 49152 + ucast (h mod 16384))"

definition proto_from_str :: "string \<Rightarrow> profile_proto" where
  "proto_from_str s =
     (if s = ''modbus'' then Proto_Modbus else if s = ''s7'' then Proto_S7
      else if s = ''switch_snmp'' then Proto_Switch_Snmp else Proto_Enip)"

definition fallback_profile :: "device_record \<Rightarrow> device_profile" where
  "fallback_profile dev =
     \<lparr>dp_vendor = dr_vendor dev, dp_model = dr_model dev, dp_firmware = dr_firmware dev,
      dp_protocol = proto_from_str (dr_protocol dev), dp_purdue_level = 0, dp_oui = None, dp_cves = dr_cves dev,
      dp_enip_vendor_id = None, dp_enip_device_type = None, dp_enip_product_code = None, dp_enip_product_name = None,
      dp_s7_order_number = None, dp_sys_descr = None, dp_sys_object_id = None, dp_firmware_oid = None,
      dp_asset_class = None, dp_modbus_vendor_name = None, dp_modbus_product_code = None, dp_modbus_revision = None\<rparr>"

definition DEFAULT_FIRMWARE_OID :: string where
  "DEFAULT_FIRMWARE_OID = ''1.3.6.1.2.1.47.1.1.1.1.9.1''"

definition pair_frames :: "(bytes \<times> bytes) exec \<Rightarrow> bytes list exec" where
  "pair_frames run = do { (a, b) \<leftarrow> run; ret [a, b] }"

definition assert_identity :: "mac \<Rightarrow> ipv4 \<Rightarrow> ipv4 \<Rightarrow> mac \<Rightarrow> device_profile \<Rightarrow> bool \<Rightarrow> u64 \<Rightarrow> bytes list exec" where
  "assert_identity mac ip client_ip client_mac profile switch_beacons nonce =
     (let client_port = ephemeral_port nonce ip
      in case dp_protocol profile of
        Proto_Enip \<Rightarrow>
          (let (major, minor) = parse_version (dp_firmware profile);
               product_name = unwrap_or (dp_enip_product_name profile) (dp_model profile);
               i = \<lparr>en_vendor_id = unwrap_or (dp_enip_vendor_id profile) 0,
                    en_device_type = unwrap_or (dp_enip_device_type profile) 0,
                    en_product_code = unwrap_or (dp_enip_product_code profile) 0,
                    en_revision_major = major, en_revision_minor = minor, en_serial = ip,
                    en_product_name = clamp_str product_name 255\<rparr>
           in pair_frames (enip_identity_exchange client_mac mac client_ip ip client_port i))
      | Proto_Modbus \<Rightarrow>
          modbus_devid_exchange client_mac mac client_ip ip client_port 1
            \<lparr>md_vendor_name = clamp_str (unwrap_or (dp_modbus_vendor_name profile) (dp_vendor profile)) 255,
             md_product_code = clamp_str (unwrap_or (dp_modbus_product_code profile) (dp_model profile)) 255,
             md_revision = clamp_str (unwrap_or (dp_modbus_revision profile) (dp_firmware profile)) 255\<rparr>
      | Proto_S7 \<Rightarrow>
          (let (major, minor) = parse_version (dp_firmware profile);
               order = unwrap_or (dp_s7_order_number profile) (dp_model profile)
           in szl_exchange client_mac mac client_ip ip client_port order major minor)
      | Proto_Switch_Snmp \<Rightarrow>
          (let descr = unwrap_or (dp_sys_descr profile) (dp_vendor profile @ '' '' @ dp_model profile);
               infra = (dp_asset_class profile = Some ''Firewall'' \<or> dp_asset_class profile = Some ''Router'');
               beacons = (if switch_beacons \<and> \<not> infra
                 then [lldp_beacon mac ip (clamp_str (dp_model profile) 511) (clamp_str descr 511),
                       cdp_beacon mac ip (dp_model profile) (dp_firmware profile) (dp_model profile)]
                 else []);
               firmware_oid = (if dp_firmware profile \<noteq> []
                 then Some (unwrap_or (dp_firmware_oid profile) DEFAULT_FIRMWARE_OID) else None);
               firmware = (if dp_firmware profile \<noteq> [] then Some (dp_firmware profile) else None);
               request_id = 0x1000 + (ucast nonce AND 0x0fff)
           in do {
             fs \<leftarrow> pair_frames (snmp_exchange client_mac mac client_ip ip client_port ''public'' request_id descr
               (dp_sys_object_id profile) firmware_oid firmware);
             ret (beacons @ fs)
           }))"

text \<open>A loop that extends a vector of frames.\<close>

definition extend_frames :: "('a \<Rightarrow> bytes list exec) \<Rightarrow> 'a list \<Rightarrow> bytes list exec" where
  "extend_frames f xs = do { fss \<leftarrow> map_exec f xs; ret (concat fss) }"

definition edge_frames :: "edge \<Rightarrow> bytes list" where
  "edge_frames e =
     (let (req, rep) = arp_resolve (nd_mac (eg_requester e)) (nd_ip (eg_requester e)) (nd_mac (eg_owner e)) (nd_ip (eg_owner e))
      in [req, rep])"

definition profile_of :: "vuln_db \<Rightarrow> device_record \<Rightarrow> device_profile" where
  "profile_of vuln dev = (case by_model vuln (dr_model dev) of Some p \<Rightarrow> p | None \<Rightarrow> fallback_profile dev)"

definition identity_frames :: "'n net_ops \<Rightarrow> vuln_db \<Rightarrow> u64 \<Rightarrow> bool \<Rightarrow> u64 \<Rightarrow> device_record \<Rightarrow> bytes list exec" where
  "identity_frames N vuln seed switch_beacons nonce dev =
     (if dr_cves dev = [] then ret []
      else case ipv4_from_str (dr_ip dev) of
        None \<Rightarrow> ret []
      | Some dev_ip \<Rightarrow>
          let client_ip = station_addr N (dr_subnet_cidr dev)
          in assert_identity (parse_mac (dr_mac dev)) dev_ip client_ip (stable_mac seed client_ip) (profile_of vuln dev)
               switch_beacons nonce)"

text \<open>\<open>collect\<close> into a \<open>HashMap\<close>: the last entry of a key counts.\<close>

definition hash_collect :: "('k \<times> 'v) list \<Rightarrow> 'k \<Rightarrow> 'v option" where
  "hash_collect kvs = map_of (rev kvs)"

definition resolvers :: "ledger \<Rightarrow> string \<Rightarrow> (ipv4 \<times> mac) option" where
  "resolvers s = hash_collect (List.map_filter
     (\<lambda>d. map_option (\<lambda>ip. (dr_subnet_cidr d, ip, parse_mac (dr_mac d))) (ipv4_from_str (dr_ip d)))
     (filter (\<lambda>d. dr_asset_type d = Some ''Firewall'') (lg_devices s)))"

definition dns_frames :: "ledger \<Rightarrow> u64 \<Rightarrow> device_record \<Rightarrow> bytes list exec" where
  "dns_frames s nonce dev =
     (case dr_hostname dev of
        None \<Rightarrow> ret []
      | Some hostname \<Rightarrow>
          (case resolvers s (dr_subnet_cidr dev) of
             None \<Rightarrow> ret []
           | Some (rip, rmac) \<Rightarrow>
               (case ipv4_from_str (dr_ip dev) of
                  None \<Rightarrow> ret []
                | Some dip \<Rightarrow>
                    if dip = rip then ret []
                    else pair_frames (dns_exchange (parse_mac (dr_mac dev)) rmac dip rip (ephemeral_port nonce dip)
                      (ucast (nonce XOR ucast dip)) hostname dip))))"

definition device_by_ip :: "ledger \<Rightarrow> ipv4 \<Rightarrow> device_record option" where
  "device_by_ip s = hash_collect (List.map_filter (\<lambda>d. map_option (\<lambda>ip. (ip, d)) (ipv4_from_str (dr_ip d))) (lg_devices s))"

definition crossing_frames :: "vuln_db \<Rightarrow> ledger \<Rightarrow> u64 \<Rightarrow> crossing \<Rightarrow> bytes list exec" where
  "crossing_frames vuln s nonce c =
     (case device_by_ip s (cx_south_ip c) of
        None \<Rightarrow> ret []
      | Some dev \<Rightarrow>
          assert_identity (cx_south_mac c) (cx_south_ip c) (cx_north_ip c) (cx_conduit_mac c) (profile_of vuln dev) False nonce)"

record burst_cfg =
  bc_device_identity :: bool
  bc_switch_beacons :: bool
  bc_ns_enabled :: bool
  bc_ns_cadence :: u64
  bc_ns_max_per_pair :: nat

definition BEACON_EVERY :: u64 where "BEACON_EVERY = 8"

text \<open>\<open>run.is_multiple_of(n)\<close>; a multiple of 0 is 0.\<close>

definition multiple_of :: "u64 \<Rightarrow> u64 \<Rightarrow> bool" where
  "multiple_of a n \<longleftrightarrow> a mod n = 0"

definition build_assertions :: "'n net_ops \<Rightarrow> burst_cfg \<Rightarrow> ledger \<Rightarrow> vuln_db \<Rightarrow> u64 \<Rightarrow> u64 \<Rightarrow> bytes list exec" where
  "build_assertions N cfg s vuln run nonce =
     (if \<not> bc_device_identity cfg then ret []
      else do {
        let seed = lg_seed s;
        let switch_beacons = bc_switch_beacons cfg \<and> multiple_of run BEACON_EVERY;
        let arps = concat (map edge_frames (arp_edges N s seed));
        ids \<leftarrow> extend_frames (identity_frames N vuln seed switch_beacons nonce) (lg_devices s);
        names \<leftarrow> extend_frames (dns_frames s nonce) (lg_devices s);
        conduits \<leftarrow> (if bc_ns_enabled cfg \<and> multiple_of run (bc_ns_cadence cfg)
          then extend_frames (crossing_frames vuln s nonce) (north_south_crossings N s seed (bc_ns_max_per_pair cfg))
          else ret []);
        ret (arps @ ids @ names @ conduits)
      })"

section \<open>Clamping\<close>

lemma clamp_end_le: "clamp_end s e \<le> e"
proof (induction s e rule: clamp_end.induct)
  case (1 s e)
  then show ?case by (subst clamp_end.simps) (auto intro: le_trans)
qed

lemma clamp_end_boundary: "is_char_boundary s (clamp_end s e)"
proof (induction s e rule: clamp_end.induct)
  case (1 s e)
  then show ?case by (subst clamp_end.simps) (auto simp: is_char_boundary_def)
qed

text \<open>A clamped string fits, is a prefix, and ends between characters.\<close>

lemma clamp_str_ok:
  "length (clamp_str s mx) \<le> mx" "prefix (clamp_str s mx) s" "is_char_boundary s (length (clamp_str s mx))"
  using clamp_end_le [of s mx] clamp_end_boundary [of s mx]
  by (auto simp: clamp_str_def take_is_prefix min_def is_char_boundary_def)

section \<open>Ports\<close>

lemma mod_16384: "(w :: u64) mod 16384 = take_bit 14 w"
  by (simp add: take_bit_eq_mod)

lemma take_bit_word_mult: "n \<le> 64 \<Longrightarrow> take_bit n (take_bit n x * take_bit n y) = take_bit n (x * y :: u64)"
proof -
  assume n: "n \<le> 64"
  have "uint (a * b) = take_bit 64 (uint a * uint b)" for a b :: u64
    by (simp add: uint_word_ariths take_bit_eq_mod)
  then have "uint (take_bit n (a * b)) = take_bit n (uint a * uint b)" for a b :: u64
    using n by (simp add: unsigned_take_bit_eq take_bit_take_bit min_def)
  then show ?thesis by (simp add: word_uint_eq_iff unsigned_take_bit_eq take_bit_mult)
qed

lemma take_bit_odd_mult_inj:
  fixes a :: u64
  assumes "a * b = 1" and "take_bit 14 (x * a) = take_bit 14 (y * a)"
  shows "take_bit 14 x = take_bit 14 y"
proof -
  have "take_bit 14 (take_bit 14 (x * a) * take_bit 14 b) = take_bit 14 (take_bit 14 (y * a) * take_bit 14 b)"
    using assms(2) by simp
  then have "take_bit 14 (x * a * b) = take_bit 14 (y * a * b)" by (simp add: take_bit_word_mult)
  with assms(1) show ?thesis by (simp add: mult.assoc)
qed

lemma take_bit_mult_cong: "take_bit 14 x = take_bit 14 y \<Longrightarrow> take_bit 14 (x * a) = take_bit 14 (y * a :: u64)"
  using take_bit_word_mult [of 14 x a] take_bit_word_mult [of 14 y a] by simp

lemma take_bit_odd_mult_iff:
  fixes a :: u64
  assumes "a * b = 1"
  shows "take_bit 14 (x * a) = take_bit 14 (y * a) \<longleftrightarrow> take_bit 14 x = take_bit 14 y"
  using take_bit_odd_mult_inj [OF assms] take_bit_mult_cong by blast

lemma port_multipliers:
  "0x9E3779B97F4A7C15 * 0xF1DE83E19937733D = (1 :: u64)" "0x2545F4914F6CDD1D * 0x59071D96D81ECD35 = (1 :: u64)"
  by simp_all

lemma xor_right_inj: "x XOR c = y XOR c \<longleftrightarrow> x = (y :: u64)"
proof
  assume h: "x XOR c = y XOR c"
  show "x = y"
  proof (rule bit_word_eqI)
    fix i
    show "bit x i \<longleftrightarrow> bit y i" using arg_cong [OF h, of "\<lambda>w. bit w i"] by (auto simp: bit_xor_iff)
  qed
qed simp

lemma xor_left_inj: "c XOR x = c XOR y \<longleftrightarrow> x = (y :: u64)"
  by (simp only: xor.commute [of c] xor_right_inj)

lemma ephemeral_port_eq:
  "ephemeral_port n a = ephemeral_port m b \<longleftrightarrow>
     take_bit 14 (n * 0x9E3779B97F4A7C15 XOR ucast a * 0x2545F4914F6CDD1D) =
     take_bit 14 (m * 0x9E3779B97F4A7C15 XOR ucast b * (0x2545F4914F6CDD1D :: u64))"
proof -
  have inj: "ucast x = (ucast y :: u16) \<longleftrightarrow> x = y" if "take_bit 14 x = x" "take_bit 14 y = y" for x y :: u64
  proof
    assume e: "ucast x = (ucast y :: u16)"
    show "x = y"
    proof (rule bit_word_eqI)
      fix i
      have "bit x i \<longleftrightarrow> i < 14 \<and> bit x i" "bit y i \<longleftrightarrow> i < 14 \<and> bit y i"
        using arg_cong [OF that(1), of "\<lambda>w. bit w i"] arg_cong [OF that(2), of "\<lambda>w. bit w i"] by (auto simp: bit_simps)
      moreover have "i < 14 \<Longrightarrow> bit x i \<longleftrightarrow> bit y i" using arg_cong [OF e, of "\<lambda>w. bit w i"] by (simp add: bit_simps)
      ultimately show "bit x i \<longleftrightarrow> bit y i" by blast
    qed
  qed simp
  show ?thesis unfolding ephemeral_port_def Let_def mod_16384 by (simp add: inj)
qed

text \<open>One device: two bursts use the same port only if they are a multiple of 16384 bursts apart.\<close>

lemma ephemeral_port_bursts: "ephemeral_port n a = ephemeral_port m a \<longleftrightarrow> n mod 16384 = m mod 16384"
proof -
  have "ephemeral_port n a = ephemeral_port m a \<longleftrightarrow>
      take_bit 14 (n * 0x9E3779B97F4A7C15) = take_bit 14 (m * (0x9E3779B97F4A7C15 :: u64))"
    unfolding ephemeral_port_eq take_bit_xor by (rule xor_right_inj)
  also have "\<dots> \<longleftrightarrow> take_bit 14 n = take_bit 14 m"
    by (rule take_bit_odd_mult_iff [OF port_multipliers(1)])
  finally show ?thesis by (simp only: mod_16384)
qed

lemma nonces_apart: "i < j \<Longrightarrow> j - i < 16384 \<Longrightarrow> (word_of_nat i :: u64) mod 16384 \<noteq> word_of_nat j mod 16384"
proof
  assume h: "i < j" "j - i < 16384" "(word_of_nat i :: u64) mod 16384 = word_of_nat j mod 16384"
  have m: "unat ((word_of_nat k :: u64) mod 16384) = k mod 16384" for k
    by (simp add: unat_mod unsigned_of_nat take_bit_eq_mod mod_mod_cancel)
  have "i mod 16384 = j mod 16384" using arg_cong [OF h(3), of unat] unfolding m .
  then have "j mod 16384 = i mod 16384" by simp
  then have "16384 dvd j - i" using mod_eq_dvd_iff_nat [of i j 16384] h(1) by simp
  then show False using h(1,2) by (auto dest: dvd_imp_le)
qed

text \<open>One burst: two devices share a port only if their addresses agree in the low 14 bits.\<close>

lemma ephemeral_port_devices: "ephemeral_port n a = ephemeral_port n b \<longleftrightarrow> take_bit 14 a = take_bit 14 b"
proof -
  have "ephemeral_port n a = ephemeral_port n b \<longleftrightarrow>
      take_bit 14 (ucast a * 0x2545F4914F6CDD1D) = take_bit 14 (ucast b * (0x2545F4914F6CDD1D :: u64))"
    unfolding ephemeral_port_eq take_bit_xor by (rule xor_left_inj)
  also have "\<dots> \<longleftrightarrow> take_bit 14 (ucast a :: u64) = take_bit 14 (ucast b)"
    by (rule take_bit_odd_mult_iff [OF port_multipliers(2)])
  also have "\<dots> \<longleftrightarrow> take_bit 14 a = take_bit 14 b"
  proof -
    have "bit (take_bit 14 (ucast w :: u64)) i \<longleftrightarrow> bit (take_bit 14 w) i" for w :: u32 and i
      by (auto simp: bit_simps dest: bit_imp_le_length)
    note b = this
    show ?thesis
    proof
      assume "take_bit 14 (ucast a :: u64) = take_bit 14 (ucast b)"
      then show "take_bit 14 a = take_bit 14 b" by (intro bit_word_eqI) (metis b)
    next
      assume "take_bit 14 a = take_bit 14 b"
      then show "take_bit 14 (ucast a :: u64) = take_bit 14 (ucast b)" by (intro bit_word_eqI) (metis b)
    qed
  qed
  finally show ?thesis .
qed

lemma ephemeral_port_range: "49152 \<le> ephemeral_port n a"
proof -
  define h where "h = (n * 0x9E3779B97F4A7C15 XOR ucast a * 0x2545F4914F6CDD1D) mod 16384"
  have "unat h < 16384" using word_mod_less_divisor [of 16384] by (simp add: h_def unat_mod)
  then have "unat (ucast h :: u16) = unat h" by (simp add: unsigned_ucast_eq take_bit_nat_eq_self)
  with \<open>unat h < 16384\<close> have "unat (49152 + ucast h :: u16) = 49152 + unat h" by (simp add: unat_word_ariths)
  then show ?thesis by (simp add: ephemeral_port_def h_def [symmetric] word_le_nat_alt)
qed

end
