(* ===== verification/Burst.thy ===== *)
theory Burst
  imports Announce Volume
begin

text \<open>
  What a passive sensor takes from the identity burst of \<open>src/simulate/engine.rs\<close>: the bindings its ARP replies state.
  \<open>is_at\<close> reads such a binding; the lemmas show that the burst is built without a panic, that the replies at its
  head bind every asset of the ledger, and that no other frame of the burst is an ARP frame at all.
\<close>

section \<open>Reading a binding\<close>

text \<open>An ARP reply whose Ethernet source is its sender binds the sender's address.\<close>

definition is_at :: "bytes \<Rightarrow> (mac \<times> ipv4) option" where
  "is_at b =
     (if arp_shape b 14 \<and> word16_at b 20 = 2 \<and> take 6 (drop 6 b) = take 6 (drop 22 b)
      then Some (take 6 (drop 22 b), word32_at b 28) else None)"

lemma arp_reads:
  assumes "length d = 6" "length sm = 6" "length tm = 6"
  shows "is_at (arp d oper sm si tm ti) = (if oper = 2 then Some (sm, si) else None)"
proof -
  obtain d0 d1 d2 d3 d4 d5 where d: "d = [d0, d1, d2, d3, d4, d5]" using assms(1) unfolding mac6 by blast
  obtain s0 s1 s2 s3 s4 s5 where s: "sm = [s0, s1, s2, s3, s4, s5]" using assms(2) unfolding mac6 by blast
  obtain t0 t1 t2 t3 t4 t5 where t: "tm = [t0, t1, t2, t3, t4, t5]" using assms(3) unfolding mac6 by blast
  have e: "to_be16 0x0806 = [0x08, 0x06]" "to_be16 1 = [0, 1]" "to_be16 0x0800 = [0x08, 0]" by (simp_all add: to_be16_def)
  have h: "to_be16 oper = [ucast (drop_bit 8 oper), ucast oper]" by (simp add: to_be16_def)
  have o: "be16 (ucast (drop_bit 8 oper)) (ucast oper) = oper" using be16_to_be16 [of oper] by (simp add: to_be16_def)
  have a: "be32 (ucast (drop_bit 24 si)) (ucast (drop_bit 16 si)) (ucast (drop_bit 8 si)) (ucast si) = si"
    using be32_to_be32 [of si] by (simp add: to_be32_def)
  have k: "be16 8 6 = 0x0806" "be16 0 1 = 1" "be16 8 0 = 0x0800" by (simp_all add: be16_def)
  show ?thesis
    unfolding is_at_def arp_def l2_frame_def ethernet_header_def Let_def e h octets_def to_be32_def d s t
    by (simp add: arp_shape_def word16_at_def word32_at_def o a k)
qed

section \<open>Frames that are not ARP\<close>

lemma csum_bytes_body: "parse_layout b = ret (Some l) \<Longrightarrow> i < 14 \<Longrightarrow> i \<notin> csum_bytes l"
  using parse_layout_ok [of b l] by (auto simp: csum_bytes_def layout_ok_def)

lemma finish_ethertype:
  assumes "finish b = ret b'" and "14 \<le> length b"
  shows "word16_at b' 12 = word16_at b 12"
proof -
  obtain r where r: "parse_layout b = ret r" using parse_layout_total [of b] by auto
  show ?thesis
  proof (cases r)
    case None
    then show ?thesis using assms(1) r by (simp add: finish_def)
  next
    case (Some l)
    then obtain c where "recompute_checksums b l = ret c" "agree_on (- csum_bytes l) b c"
      using recompute_checksums_safe [of b l] r by blast
    moreover from this(1) have "b' = c" using assms(1) r Some by (simp add: finish_def)
    ultimately show ?thesis
      using csum_bytes_body [of b l] r Some assms(2) by (intro word16_at_agree) auto
  qed
qed

text \<open>
  A frame that is not an ARP frame, whoever looks: it has not the shape of one, and its type field says so too, except
  that an 802.3 frame carries its length there.
\<close>

definition silent :: "bytes \<Rightarrow> bool" where
  "silent f \<longleftrightarrow> \<not> arp_shape f 14 \<and> (word16_at f 12 = 0x0806 \<longrightarrow> 1514 < length f)"

text \<open>A run whose frames are no ARP frames.\<close>

definition quiet :: "bytes list exec \<Rightarrow> bool" where
  "quiet run \<longleftrightarrow> (\<exists>fs. run = ret fs \<and> (\<forall>f \<in> set fs. silent f))"

lemma ipv4_frame_quiet:
  assumes "length smac = 6" "length dmac = 6" "finish (ethernet_header smac dmac 0x0800 @ rest) = ret f"
  shows "silent f"
proof -
  let ?b = "ethernet_header smac dmac 0x0800 @ rest"
  have "word16_at ?b 12 = 0x0800"
    using assms(1,2) by (simp add: ethernet_header_def word16_at_def to_be16_def nth_append be16_def)
  moreover have "14 \<le> length ?b" using assms(1,2) by (simp add: ethernet_header_def)
  ultimately have "word16_at f 12 = 0x0800" using finish_ethertype [OF assms(3)] by simp
  then show ?thesis by (simp add: silent_def arp_shape_def)
qed

lemma udp_frame_quiet:
  assumes "length smac = 6" "length dmac = 6"
  obtains f where "udp_frame smac dmac src dst sport dport payload = ret f" "silent f"
proof -
  obtain f where f: "udp_frame smac dmac src dst sport dport payload = ret f" using udp_frame_returns by blast
  then show thesis
    using ipv4_frame_quiet [OF assms] that unfolding udp_frame_def Let_def append_assoc by blast
qed

lemma tcp_segment_quiet:
  assumes "length smac = 6" "length dmac = 6"
  obtains f where "tcp_segment smac dmac src dst sport dport seq ack flags payload = ret f" "silent f"
proof -
  obtain f where f: "tcp_segment smac dmac src dst sport dport seq ack flags payload = ret f" using tcp_segment_returns by blast
  then show thesis
    using ipv4_frame_quiet [OF assms] that unfolding tcp_segment_def Let_def append_assoc by blast
qed

definition quiet_session :: "tcp_session \<Rightarrow> bool" where
  "quiet_session s \<longleftrightarrow> session_ok s \<and> (\<forall>f \<in> set (ts_frames s). silent f)"

lemma segment_quiet:
  assumes "quiet_session s"
  obtains s' where "segment d flags payload s = ret s'" "quiet_session s'"
proof (cases d)
  case Client
  obtain f where f: "tcp_segment (ts_client_mac s) (ts_server_mac s) (ts_client_ip s) (ts_server_ip s) (ts_client_port s)
      (ts_server_port s) (ts_client_snd s) (ts_server_snd s) flags payload = ret f" "silent f"
    using assms tcp_segment_quiet by (metis quiet_session_def session_ok_def)
  from f(1) have "segment d flags payload s = ret (Session.advance d (consumed flags payload) f s)"
    by (simp add: segment_def Session.advance_def consumed_def Client)
  then show thesis
    by (rule that) (use assms f(2) in \<open>auto simp: quiet_session_def\<close>)
next
  case Server
  obtain f where f: "tcp_segment (ts_server_mac s) (ts_client_mac s) (ts_server_ip s) (ts_client_ip s) (ts_server_port s)
      (ts_client_port s) (ts_server_snd s) (ts_client_snd s) flags payload = ret f" "silent f"
    using assms tcp_segment_quiet by (metis quiet_session_def session_ok_def)
  from f(1) have "segment d flags payload s = ret (Session.advance d (consumed flags payload) f s)"
    by (simp add: segment_def Session.advance_def consumed_def Server)
  then show thesis
    by (rule that) (use assms f(2) in \<open>auto simp: quiet_session_def\<close>)
qed

lemma run_segments_quiet: "quiet_session s \<Longrightarrow> \<exists>s'. run_segments ms s = ret s' \<and> quiet_session s'"
proof (induction ms arbitrary: s)
  case (Cons m ms)
  obtain d f p where m: "m = (d, f, p)" by (cases m)
  obtain s1 where "segment d f p s = ret s1" "quiet_session s1" using segment_quiet [OF Cons.prems] by blast
  then show ?case using Cons.IH by (simp add: m)
qed simp

lemma converse_quiet:
  assumes "length cm = 6" "length sm = 6"
  shows "quiet (tcp_converse cm sm ci si cp sp ps)"
proof -
  have "quiet_session (session_new cm sm ci si cp sp)"
    using assms by (simp add: quiet_session_def session_ok_def session_new_def)
  from run_segments_quiet [OF this, of "exchange ps"] show ?thesis
    by (auto simp: quiet_def tcp_converse_def quiet_session_def)
qed

lemma two_quiet:
  assumes "length m = 6" "length m' = 6" "length n = 6" "length n' = 6"
  shows "quiet (do { q \<leftarrow> udp_frame m m' a b p q x; r \<leftarrow> udp_frame n n' c d s t y; ret [q, r] })"
proof -
  obtain f g where "udp_frame m m' a b p q x = ret f" "silent f" "udp_frame n n' c d s t y = ret g" "silent g"
    using udp_frame_quiet [OF assms(1,2)] udp_frame_quiet [OF assms(3,4)] by metis
  then show ?thesis by (simp add: quiet_def)
qed

lemma pair_quiet:
  assumes "length m = 6" "length m' = 6"
  shows "quiet (pair_frames (do { q \<leftarrow> udp_frame m m' a b p q x; r \<leftarrow> udp_frame m' m c d s t y; ret (q, r) }))"
  using two_quiet [OF assms(1,2,2,1), of a b p q x c d s t y] by (simp add: pair_frames_def)

lemma snap_frame_type:
  assumes "length smac = 6" "length dmac = 6" and "word16_at (snap_frame smac dmac oui pid payload) 12 = 0x0806"
  shows "1514 < length (snap_frame smac dmac oui pid payload)"
proof -
  let ?n = "8 + length payload"
  have "(word_of_nat ?n :: u16) = 0x0806"
    using assms by (simp add: snap_frame_def Let_def word16_at_def nth_append to_be16_def be16_to_be16 [unfolded to_be16_def])
  then have "unat (word_of_nat ?n :: u16) = 2054" by simp
  then have "?n mod 65536 = 2054" by (simp only: unat_of_nat) simp
  then have "2054 \<le> ?n" by (metis mod_less_eq_dividend)
  then show ?thesis using assms(1,2) by (simp add: snap_frame_def Let_def)
qed

lemma length_CDP_MULTICAST: "length CDP_MULTICAST = 6"
  by (simp add: CDP_MULTICAST_def)

lemma beacons_quiet:
  assumes "length m = 6"
  shows "silent (lldp_beacon m ip nm descr)" "silent (cdp_beacon m ip dev sw pf)"
proof -
  have "word16_at (lldp_beacon m ip nm descr) 12 = 0x88cc"
    using assms by (simp add: lldp_beacon_def l2_frame_def ethernet_header_def word16_at_def to_be16_def nth_append be16_def
        LLDP_MULTICAST_def Let_def)
  then show "silent (lldp_beacon m ip nm descr)" by (simp add: silent_def arp_shape_def)
  have "word16_at (cdp_beacon m ip dev sw pf) 14 = 0xaaaa"
    using assms by (simp add: cdp_beacon_def snap_frame_def word16_at_def to_be16_def nth_append be16_def
        CDP_MULTICAST_def Let_def)
  moreover have "1514 < length (cdp_beacon m ip dev sw pf)" if "word16_at (cdp_beacon m ip dev sw pf) 12 = 0x0806"
    using snap_frame_type [OF assms length_CDP_MULTICAST] that unfolding cdp_beacon_def by blast
  ultimately show "silent (cdp_beacon m ip dev sw pf)" by (simp add: silent_def arp_shape_def)
qed

lemma snmp_quiet:
  assumes "length m = 6" "length m' = 6"
  shows "quiet (pair_frames (snmp_exchange m m' a b p community rid descr so fo fw))"
  unfolding snmp_exchange_def get_request_eq get_response_eq bind.bind_lunit by (rule pair_quiet [OF assms])

lemma quiet_append: "quiet run \<Longrightarrow> \<forall>f \<in> set pre. silent f \<Longrightarrow> quiet (do { fs \<leftarrow> run; ret (pre @ fs) })"
  by (auto simp: quiet_def)

lemma szl_converse:
  "szl_exchange cm pm ci pi cp order maj mn = tcp_converse cm pm ci pi cp S7_PORT
     [(Client, cotp_cr), (Server, cotp_cc), (Client, s7_setup_request), (Server, s7_setup_response),
      (Client, read_szl_request), (Server, read_szl_response order maj mn)]"
  by (simp add: szl_exchange_def tcp_converse_eq)

lemma assert_identity_quiet:
  assumes "length m = 6" "length cm = 6"
  shows "quiet (assert_identity m ip ci cm profile beacons nonce)"
proof (cases "dp_protocol profile")
  case Proto_Enip
  then show ?thesis
    unfolding assert_identity_def Let_def Proto_Enip profile_proto.case enip_identity_exchange_def
    by (simp add: pair_quiet [OF assms(2,1)] split: prod.split)
next
  case Proto_Modbus
  then show ?thesis
    unfolding assert_identity_def Let_def Proto_Modbus profile_proto.case modbus_devid_exchange_def request_response_converse
    by (intro converse_quiet assms)
next
  case Proto_S7
  show ?thesis
    unfolding assert_identity_def Let_def Proto_S7 profile_proto.case
    using converse_quiet [OF assms(2,1)] by (simp add: szl_converse split: prod.split)
next
  case Proto_Switch_Snmp
  show ?thesis
    unfolding assert_identity_def Let_def Proto_Switch_Snmp profile_proto.case
    by (intro quiet_append snmp_quiet assms) (use beacons_quiet [OF assms(1)] in auto)
qed

lemma extend_frames_quiet:
  assumes "\<And>x. x \<in> set xs \<Longrightarrow> quiet (f x)"
  shows "quiet (extend_frames f xs)"
  using assms
proof (induction xs)
  case Nil
  then show ?case by (simp add: extend_frames_def quiet_def)
next
  case (Cons x xs)
  then obtain fs gs where "f x = ret fs" "\<forall>f \<in> set fs. silent f" "extend_frames f xs = ret gs" "\<forall>f \<in> set gs. silent f"
    unfolding quiet_def by (metis list.set_intros)
  moreover from this(3) obtain yss where "map_exec f xs = ret yss" "gs = concat yss"
    by (cases "map_exec f xs") (auto simp: extend_frames_def)
  ultimately show ?case by (auto simp: extend_frames_def quiet_def)
qed

lemma identity_frames_quiet: "quiet (identity_frames N vuln seed sb nonce dev)"
  using assert_identity_quiet [OF length_parse_mac length_stable_mac]
  by (simp add: identity_frames_def Let_def quiet_def split: option.split)

lemma dns_frames_quiet: "quiet (dns_frames s nonce dev)"
proof -
  have "length rmac = 6" if "resolvers s cidr = Some (rip, rmac)" for cidr rip rmac
  proof -
    have "(cidr, rip, rmac) \<in> set (List.map_filter
       (\<lambda>d. map_option (\<lambda>ip. (dr_subnet_cidr d, ip, parse_mac (dr_mac d))) (ipv4_from_str (dr_ip d)))
       (filter (\<lambda>d. dr_asset_type d = Some ''Firewall'') (lg_devices s)))"
      using map_of_SomeD that unfolding resolvers_def hash_collect_def by fastforce
    then show ?thesis by (auto simp: List.map_filter_def length_parse_mac)
  qed
  then have "quiet (pair_frames (dns_exchange (parse_mac (dr_mac dev)) rmac a b p q h c))"
    if "resolvers s cidr = Some (rip, rmac)" for cidr rip rmac a b p q h c
    unfolding dns_exchange_def dns_query_def dns_response_def
    by (intro pair_quiet length_parse_mac) (use that in blast)
  then show ?thesis by (simp add: dns_frames_def quiet_def split: option.split prod.split)
qed

section \<open>The resolutions\<close>

text \<open>
  A node is an asset of its zone, or derived: the station, or the requester one address below it, where no asset of the zone
  has the address.
\<close>

lemma zone_node_cases:
  "x \<in> set (zone_nodes N seed cidr reals) \<Longrightarrow> x \<in> set reals \<or>
     nd_mac x = stable_mac seed (nd_ip x) \<and> nd_ip x \<in> {station_addr N cidr, saturating_sub32 (station_addr N cidr) 1} \<and>
     nd_ip x \<notin> nd_ip ` set reals"
proof -
  assume x: "x \<in> set (zone_nodes N seed cidr reals)"
  define st rs where "st = station_addr N cidr" and "rs = sort_key nd_ip reals"
  have reals: "set reals = set rs" by (simp add: rs_def)
  let ?node = "\<lambda>a. \<lparr>nd_ip = a, nd_mac = stable_mac seed a\<rparr>" and ?alt = "saturating_sub32 st 1"
  have run: "zone_nodes N seed cidr reals =
    (let nodes = (if list_ex (\<lambda>n. nd_ip n = st) rs then rs else ?node st # rs)
     in if length nodes = 1 \<and> ?alt \<noteq> nd_ip (nodes ! 0) then ?node ?alt # nodes else nodes)"
    by (simp add: zone_nodes_def Let_def st_def rs_def)
  show ?thesis
  proof (cases "list_ex (\<lambda>n. nd_ip n = st) rs")
    case True
    have "x \<in> set rs \<or> x = ?node ?alt \<and> length rs = 1 \<and> ?alt \<noteq> nd_ip (rs ! 0)"
      using x True by (auto simp: run Let_def split: if_splits)
    then show ?thesis unfolding reals st_def [symmetric] by (auto simp: length_Suc_conv)
  next
    case False
    then have free: "\<forall>n \<in> set rs. nd_ip n \<noteq> st" by (simp add: list_ex_iff)
    have "x \<in> set rs \<or> x = ?node st \<or> x = ?node ?alt \<and> rs = []"
      using x False by (auto simp: run Let_def split: if_splits)
    then show ?thesis using free unfolding reals st_def [symmetric] by auto
  qed
qed

definition derived_node :: "'n net_ops \<Rightarrow> ledger \<Rightarrow> u64 \<Rightarrow> node \<Rightarrow> bool" where
  "derived_node N s seed x \<longleftrightarrow> nd_mac x = stable_mac seed (nd_ip x) \<and>
     (\<exists>cidr \<in> fst ` set (ledger_assets s).
        nd_ip x \<in> {station_addr N cidr, saturating_sub32 (station_addr N cidr) 1} \<and>
        (\<forall>y. (cidr, y) \<in> set (ledger_assets s) \<longrightarrow> nd_ip y \<noteq> nd_ip x))"

definition bound_node :: "'n net_ops \<Rightarrow> ledger \<Rightarrow> u64 \<Rightarrow> node \<Rightarrow> bool" where
  "bound_node N s seed x \<longleftrightarrow> (\<exists>cidr. (cidr, x) \<in> set (ledger_assets s)) \<or> derived_node N s seed x"

lemma bound_node_mac: "bound_node N s seed x \<Longrightarrow> length (nd_mac x) = 6"
  by (auto simp: bound_node_def derived_node_def ledger_assets_def List.map_filter_def length_parse_mac)

lemma cells_subset: "c \<in> set (cells_no_orphan xs sz) \<Longrightarrow> set c \<subseteq> set xs"
proof -
  have "c \<in> set (cells_from sz xs) \<Longrightarrow> set c \<subseteq> set xs"
  proof (induction sz xs rule: cells_from.induct)
    case (1 sz xs)
    then show ?case
      by (subst (asm) cells_from.simps) (auto simp: Let_def split: if_splits dest: in_set_takeD in_set_dropD)
  qed
  then show "c \<in> set (cells_no_orphan xs sz) \<Longrightarrow> set c \<subseteq> set xs" by (auto simp: cells_no_orphan_def split: if_splits)
qed

lemma arp_edge_nodes:
  assumes "e \<in> set (arp_edges N s seed)"
  shows "bound_node N s seed (eg_owner e)" "bound_node N s seed (eg_requester e)"
proof -
  obtain cidr reals c where c: "(cidr, reals) \<in> set (btree_group (ledger_assets s))"
    "c \<in> set (cells_no_orphan (zone_nodes N seed cidr reals) CELL_SIZE)" "e \<in> set (cell_edges c)"
    using assms by (auto simp: arp_edges_def zone_edges_def)
  have "bound_node N s seed x" if "x \<in> set c" for x
  proof -
    have "x \<in> set (zone_nodes N seed cidr reals)" using cells_subset [OF c(2)] that by blast
    note x = zone_node_cases [OF this]
    have reals: "reals = map snd (filter (\<lambda>x. fst x = cidr) (ledger_assets s))" "reals \<noteq> []"
      using btree_group_sound [OF c(1)] by blast+
    show ?thesis
    proof (cases "x \<in> set reals")
      case True
      then show ?thesis using reals(1) by (auto simp: bound_node_def)
    next
      case False
      have "nd_ip y \<noteq> nd_ip x" if "(cidr, y) \<in> set (ledger_assets s)" for y
      proof -
        have "y \<in> set reals" using that reals(1) by force
        then have "nd_ip y \<in> nd_ip ` set reals" by (rule imageI)
        moreover have "nd_ip x \<notin> nd_ip ` set reals" using x False by blast
        ultimately show ?thesis by metis
      qed
      moreover have "cidr \<in> fst ` set (ledger_assets s)"
      proof -
        have "filter (\<lambda>x. fst x = cidr) (ledger_assets s) \<noteq> []" using reals by (metis list.map_disc_iff)
        then show ?thesis by (force simp: filter_empty_conv)
      qed
      ultimately show ?thesis using x False unfolding bound_node_def derived_node_def by blast
    qed
  qed
  then show "bound_node N s seed (eg_owner e)" "bound_node N s seed (eg_requester e)"
    using cell_edges_nodes [OF c(3)] by blast+
qed

lemma arp_shape_arp:
  assumes "length d = 6" "length sm = 6" "length tm = 6"
  shows "arp_shape (arp d 1 sm si tm ti) 14"
proof -
  obtain d0 d1 d2 d3 d4 d5 where d: "d = [d0, d1, d2, d3, d4, d5]" using assms(1) unfolding mac6 by blast
  obtain s0 s1 s2 s3 s4 s5 where s: "sm = [s0, s1, s2, s3, s4, s5]" using assms(2) unfolding mac6 by blast
  obtain t0 t1 t2 t3 t4 t5 where t: "tm = [t0, t1, t2, t3, t4, t5]" using assms(3) unfolding mac6 by blast
  show ?thesis
    unfolding arp_def l2_frame_def ethernet_header_def Let_def octets_def to_be32_def d s t
    by (simp add: arp_shape_def word16_at_def to_be16_def be16_def)
qed

text \<open>What the two frames of a resolution state.\<close>

lemma edge_frames_read:
  assumes "e \<in> set (arp_edges N s seed)"
  obtains q r where "edge_frames e = [q, r]" "is_at q = None" "is_at r = Some (nd_mac (eg_owner e), nd_ip (eg_owner e))"
    "arp_shape q 14" "arp_shape r 14"
proof -
  have l: "length (nd_mac (eg_owner e)) = 6" "length (nd_mac (eg_requester e)) = 6"
    using arp_edge_nodes [OF assms] bound_node_mac by blast+
  define q where "q = arp_request (nd_mac (eg_requester e)) (nd_ip (eg_requester e)) (nd_ip (eg_owner e))"
  define r where "r = arp_reply (nd_mac (eg_owner e)) (nd_ip (eg_owner e)) (nd_mac (eg_requester e)) (nd_ip (eg_requester e))"
  have r: "is_at r = Some (nd_mac (eg_owner e), nd_ip (eg_owner e))" using l by (simp add: r_def arp_reply_def arp_reads)
  then have "arp_shape r 14" by (auto simp: is_at_def split: if_splits)
  moreover have "is_at q = None" "arp_shape q 14" using l by (simp_all add: q_def arp_request_def arp_reads arp_shape_arp)
  moreover have "edge_frames e = [q, r]" by (simp add: edge_frames_def arp_resolve_def q_def r_def Let_def)
  ultimately show thesis using r that by blast
qed

lemma crossing_macs:
  "c \<in> set (north_south_crossings N s seed k) \<Longrightarrow> length (cx_south_mac c) = 6 \<and> length (cx_conduit_mac c) = 6"
proof -
  assume "c \<in> set (north_south_crossings N s seed k)"
  then obtain south_zones north where "c \<in> set (zone_crossings N s seed k south_zones north)"
    by (auto simp: north_south_crossings_def Let_def split: if_splits option.splits)
  then obtain servers where c: "map_of (servers_by_zone s) (sr_cidr (south_zones ! det_index seed (sr_cidr north) (length south_zones)))
      = Some servers" "(cx_south_ip c, cx_south_mac c) \<in> set servers"
    "cx_conduit_mac c = pick_conduit_mac s (sr_cidr north) (sr_cidr (south_zones ! det_index seed (sr_cidr north) (length south_zones)))
      (stable_mac seed (station_addr N (sr_cidr north)))"
    by (cases "map_of (servers_by_zone s) (sr_cidr (south_zones ! det_index seed (sr_cidr north) (length south_zones)))")
      (auto simp: zone_crossings_def Let_def dest: in_set_takeD)
  have "length m = 6" if "(a, m) \<in> set servers" for a m
    using map_of_SomeD [OF c(1)] that btree_group_sound
    by (fastforce simp: servers_by_zone_def List.map_filter_def length_parse_mac split: if_splits)
  moreover have "length (pick_conduit_mac s n z m) = 6" if "length m = 6" for n z m
    using that by (auto simp: pick_conduit_mac_def Let_def length_parse_mac split: list.split)
  ultimately show ?thesis using c by simp
qed

lemma crossing_frames_quiet:
  "c \<in> set (north_south_crossings N s seed k) \<Longrightarrow> quiet (crossing_frames vuln s nonce c)"
  using assert_identity_quiet [of "cx_south_mac c" "cx_conduit_mac c"] crossing_macs [of c N s seed k]
  by (simp add: crossing_frames_def quiet_def split: option.split)

section \<open>The burst\<close>

lemma burst_ok:
  assumes "bc_device_identity cfg"
  obtains rest where "build_assertions N cfg s vuln run nonce = ret (concat (map edge_frames (arp_edges N s (lg_seed s))) @ rest)"
    "\<forall>f \<in> set rest. silent f"
proof -
  have "quiet (extend_frames (identity_frames N vuln (lg_seed s) (bc_switch_beacons cfg \<and> multiple_of run BEACON_EVERY) nonce)
      (lg_devices s))" by (rule extend_frames_quiet) (rule identity_frames_quiet)
  then obtain ids where ids: "extend_frames (identity_frames N vuln (lg_seed s) (bc_switch_beacons cfg \<and> multiple_of run BEACON_EVERY) nonce)
      (lg_devices s) = ret ids" "\<forall>f \<in> set ids. silent f"
    unfolding quiet_def by blast
  have "quiet (extend_frames (dns_frames s nonce) (lg_devices s))" by (rule extend_frames_quiet) (rule dns_frames_quiet)
  then obtain nms where nms: "extend_frames (dns_frames s nonce) (lg_devices s) = ret nms" "\<forall>f \<in> set nms. silent f"
    unfolding quiet_def by blast
  have "quiet (if bc_ns_enabled cfg \<and> multiple_of run (bc_ns_cadence cfg)
          then extend_frames (crossing_frames vuln s nonce) (north_south_crossings N s (lg_seed s) (bc_ns_max_per_pair cfg))
          else ret [])"
  proof -
    have "quiet (extend_frames (crossing_frames vuln s nonce) (north_south_crossings N s (lg_seed s) (bc_ns_max_per_pair cfg)))"
      by (rule extend_frames_quiet) (rule crossing_frames_quiet)
    then show ?thesis by (simp add: quiet_def)
  qed
  then obtain cs where cs: "(if bc_ns_enabled cfg \<and> multiple_of run (bc_ns_cadence cfg)
          then extend_frames (crossing_frames vuln s nonce) (north_south_crossings N s (lg_seed s) (bc_ns_max_per_pair cfg))
          else ret []) = ret cs" "\<forall>f \<in> set cs. silent f"
    unfolding quiet_def by blast
  show thesis
  proof (rule that)
    show "build_assertions N cfg s vuln run nonce = ret (concat (map edge_frames (arp_edges N s (lg_seed s))) @ (ids @ nms @ cs))"
      unfolding build_assertions_def Let_def ids(1) nms(1) cs(1) bind.bind_lunit using assms by simp
    show "\<forall>f \<in> set (ids @ nms @ cs). silent f" using ids(2) nms(2) cs(2) by auto
  qed
qed

lemma arps_read:
  assumes "f \<in> set (concat (map edge_frames (arp_edges N s seed)))"
  shows "arp_shape f 14" "is_at f = Some (m, a) \<Longrightarrow> bound_node N s seed \<lparr>nd_ip = a, nd_mac = m\<rparr>"
proof -
  obtain e where e: "e \<in> set (arp_edges N s seed)" "f \<in> set (edge_frames e)" using assms by auto
  obtain q r where qr: "edge_frames e = [q, r]" "is_at q = None" "is_at r = Some (nd_mac (eg_owner e), nd_ip (eg_owner e))"
    "arp_shape q 14" "arp_shape r 14" by (rule edge_frames_read [OF e(1)])
  show "arp_shape f 14" using qr e(2) by auto
  assume "is_at f = Some (m, a)"
  then have "eg_owner e = \<lparr>nd_ip = a, nd_mac = m\<rparr>" using qr e(2) by auto
  then show "bound_node N s seed \<lparr>nd_ip = a, nd_mac = m\<rparr>" using arp_edge_nodes(1) [OF e(1)] by simp
qed

lemma arps_bind:
  assumes "(cidr, x) \<in> set (ledger_assets s)" and "station_addr N cidr \<noteq> 0"
  obtains f where "f \<in> set (concat (map edge_frames (arp_edges N s seed)))" "is_at f = Some (nd_mac x, nd_ip x)"
proof -
  obtain e where e: "e \<in> set (arp_edges N s seed)" "eg_owner e = x" using arp_edges_bind [OF assms] by blast
  obtain q r where qr: "edge_frames e = [q, r]" "is_at r = Some (nd_mac (eg_owner e), nd_ip (eg_owner e))"
    using edge_frames_read [OF e(1)] by metis
  show thesis by (rule that [of r]) (use e qr in \<open>force+\<close>)
qed

end
