(* ===== verification/Tick.thy ===== *)
theory Tick
  imports Burst Campaign Threat Enrich Pipeline
begin

text \<open>
  \<open>src/simulate/engine.rs\<close>: the simulator engine over time.  \<open>red\<close> builds it from the loaded ledger, \<open>red_tick\<close> is one
  iteration of the feed and \<open>maybe_promote\<close> one offer of a capture to the threat scheduler.  Whether a file could be
  written is an argument; \<open>si_file\<close> is what the session file holds.
\<close>

section \<open>Code\<close>

definition FABRICATE_BATCH :: nat where "FABRICATE_BATCH = 16"

record 'r sim =
  si_ledger :: ledger
  si_vuln :: vuln_db
  si_oui :: oui_db
  si_params :: alloc_params
  si_identity_every :: u64
  si_cycle_every :: u64
  si_synth_enabled :: bool
  si_burst :: burst_cfg
  si_sealed :: bool
  si_threats_enabled :: bool
  si_external_cidrs :: "string list"
  si_scheduler :: threat_scheduler
  si_rng :: 'r
  si_announce_interval :: u64
  si_last_announce :: "u64 option"
  si_announce_count :: u64
  si_dirty :: bool
  si_scenario :: "scenario_engine option"
  si_file :: "ledger option"

text \<open>The configuration \<open>red\<close> reads.\<close>

record red_cfg =
  rc_max_subnets :: "nat option"
  rc_max_devices :: "nat option"
  rc_max_assets :: "nat option"
  rc_default_prefix :: u8
  rc_identity_every :: u64
  rc_cycle_every :: u64
  rc_synth_enabled :: bool
  rc_device_identity :: bool
  rc_switch_beacons :: bool
  rc_ns_enabled :: bool
  rc_ns_cadence :: u64
  rc_ns_max_per_pair :: nat
  rc_threats_enabled :: bool
  rc_external_cidrs :: "string list"
  rc_min_interval :: u64
  rc_max_interval :: u64
  rc_announce_interval :: u64

definition guard_ledger_scenario :: "string option \<Rightarrow> string option \<Rightarrow> bool" where
  "guard_ledger_scenario tag active \<longleftrightarrow> tag = active"

datatype 'e red_error = Scenario_Mismatch "string option" "string option" | Plant_Error 'e | Playbook_Error load_error

text \<open>
  A scenario is the target, the plant \<open>pin_from_pack\<close> builds for a seed and the parsed playbook; \<open>seed\<close> is the configured
  seed or a random one.  An unreadable ledger counts as none.
\<close>

type_synonym 'e target = "target_cfg \<times> (u64 \<Rightarrow> 'e + ledger) \<times> phase list option"

definition red_session ::
  "red_cfg \<Rightarrow> ledger_error + ledger option \<Rightarrow> u64 \<Rightarrow> u64 \<Rightarrow> 'e target option \<Rightarrow> bool \<Rightarrow> 'e red_error + ledger \<times> ledger option" where
  "red_session cfg loaded seed now target save_ok =
     (let active = map_option (\<lambda>(t, _). tg_name t) target;
          existing = (case loaded of Inl _ \<Rightarrow> None | Inr s \<Rightarrow> s)
      in case existing of
           Some s \<Rightarrow> if guard_ledger_scenario (lg_scenario s) active then Inr (s, Some s) else Inl (Scenario_Mismatch (lg_scenario s) active)
         | None \<Rightarrow>
             (case target of
                None \<Rightarrow> Inr (ledger_new seed now, None)
              | Some (_, pin, _) \<Rightarrow>
                  (case pin seed of
                     Inl e \<Rightarrow> Inl (Plant_Error e)
                   | Inr p \<Rightarrow>
                       let p = p\<lparr>lg_max_assets := effective_asset_cap (rc_max_assets cfg)\<rparr>
                       in Inr (p, if save_ok then Some p else None))))"

definition red ::
  "'r gen \<Rightarrow> (u64 \<Rightarrow> 'r) \<Rightarrow> red_cfg \<Rightarrow> vuln_db \<Rightarrow> oui_db \<Rightarrow> ledger_error + ledger option \<Rightarrow> u64 \<Rightarrow> u64 \<Rightarrow> 'e target option \<Rightarrow> bool
    \<Rightarrow> 'e red_error + 'r sim" where
  "red gen seed_from cfg vuln oui loaded seed now target save_ok =
     (case red_session cfg loaded seed now target save_ok of
        Inl e \<Rightarrow> Inl e
      | Inr (session, file) \<Rightarrow>
          (case (case target of
                   None \<Rightarrow> Inr None
                 | Some (t, _, parsed) \<Rightarrow>
                     (case scenario_load t parsed (lg_seed session) of Inl e \<Rightarrow> Inl e | Inr e \<Rightarrow> Inr (Some e))) of
             Inl e \<Rightarrow> Inl (Playbook_Error e)
           | Inr scenario \<Rightarrow>
               let (scheduler, r) = threat_new gen (rc_min_interval cfg) (rc_max_interval cfg) (lg_last_threat_unix session) now
                     (seed_from (lg_seed session))
               in Inr \<lparr>si_ledger = session, si_vuln = vuln, si_oui = oui,
                    si_params = \<lparr>ap_max_subnets = effective_subnet_cap (rc_max_subnets cfg),
                      ap_max_devices = effective_device_cap (rc_max_devices cfg), ap_default_prefix = rc_default_prefix cfg\<rparr>,
                    si_identity_every = max (rc_identity_every cfg) 1, si_cycle_every = rc_cycle_every cfg,
                    si_synth_enabled = rc_synth_enabled cfg,
                    si_burst = \<lparr>bc_device_identity = rc_device_identity cfg, bc_switch_beacons = rc_switch_beacons cfg,
                      bc_ns_enabled = rc_ns_enabled cfg, bc_ns_cadence = max (rc_ns_cadence cfg) 1,
                      bc_ns_max_per_pair = rc_ns_max_per_pair cfg\<rparr>,
                    si_sealed = lg_sealed session, si_threats_enabled = rc_threats_enabled cfg,
                    si_external_cidrs = rc_external_cidrs cfg, si_scheduler = scheduler, si_rng = r,
                    si_announce_interval = rc_announce_interval cfg, si_last_announce = None, si_announce_count = 0,
                    si_dirty = False, si_scenario = scenario, si_file = file\<rparr>))"

definition persist_if_dirty :: "bool \<Rightarrow> 'r sim \<Rightarrow> 'r sim" where
  "persist_if_dirty save_ok sim =
     (if si_dirty sim \<and> save_ok then sim\<lparr>si_dirty := False, si_file := Some (si_ledger sim)\<rparr> else sim)"

subsection \<open>A tick\<close>

definition tick_grow :: "'n net_ops \<Rightarrow> 'r below \<Rightarrow> 'r coin \<Rightarrow> 'r sim \<Rightarrow> (nat \<times> 'r sim) exec" where
  "tick_grow N below coin sim =
     (if bc_device_identity (si_burst sim) \<and> \<not> si_sealed sim
      then do {
        let target = min (device_count (si_ledger sim) + FABRICATE_BATCH) (ap_max_devices (si_params sim));
        (s, added, r) \<leftarrow> fabricate N below coin (si_ledger sim) (si_vuln sim) (si_params sim) target (si_rng sim);
        ret (added, sim\<lparr>si_ledger := s, si_rng := r, si_dirty := (si_dirty sim \<or> 0 < added)\<rparr>)
      }
      else ret (0, sim))"

definition usize_saturating :: "nat \<Rightarrow> nat" where
  "usize_saturating n = min n (2 ^ 64 - 1)"

definition cycle_name :: "u64 \<Rightarrow> nat \<Rightarrow> subnet_record \<Rightarrow> string" where
  "cycle_name cycle_next idx s =
     name_zone (sr_vendor s) None (sr_purdue_level s)
       (usize_saturating (idx + usize_saturating (unat cycle_next * MAX_SUBNETS)))"

definition tick_cycle :: "u64 \<Rightarrow> nat \<Rightarrow> 'r sim \<Rightarrow> 'r sim" where
  "tick_cycle run added sim =
     (if \<not> si_sealed sim \<and> 0 < si_cycle_every sim \<and> 0 < run \<and> multiple_of run (si_cycle_every sim) \<and> added = 0 \<and>
         0 < subnet_count (si_ledger sim)
      then sim\<lparr>si_ledger := rename_zones_new_cycle (cycle_name (lg_cycle (si_ledger sim) + 1)) (si_ledger sim), si_dirty := True\<rparr>
      else sim)"

definition cadence_due :: "u64 \<Rightarrow> 'r sim \<Rightarrow> bool" where
  "cadence_due now sim =
     (case si_last_announce sim of
        Some t \<Rightarrow> si_announce_interval sim \<le> (if t \<le> now then now - t else 0)
      | None \<Rightarrow> True)"

text \<open>The frames of the tick, if it announces.\<close>

definition tick_frames ::
  "'n net_ops \<Rightarrow> (bytes \<Rightarrow> u16) \<Rightarrow> u64 \<Rightarrow> u64 \<Rightarrow> 'r sim \<Rightarrow> (bytes list \<times> 'r sim) exec" where
  "tick_frames N crc run now sim =
     (if multiple_of run (si_identity_every sim) \<and> cadence_due now sim
      then do {
        let nonce = si_announce_count sim;
        let sim = sim\<lparr>si_last_announce := Some now, si_announce_count := nonce + 1\<rparr>;
        frames \<leftarrow> build_assertions N (si_burst sim) (si_ledger sim) (si_vuln sim) run nonce;
        case si_scenario sim of
          None \<Rightarrow> ret (frames, sim)
        | Some e \<Rightarrow> do {
            (attack, e) \<leftarrow> phase_frames N crc (si_ledger sim) (si_vuln sim) nonce e;
            ret (frames @ attack, sim\<lparr>si_scenario := Some e\<rparr>)
          }
      }
      else ret ([], sim))"

text \<open>The result is the capture written, if any; \<open>write_ok\<close> covers creating the directory and writing the file.\<close>

definition red_tick ::
  "'n net_ops \<Rightarrow> 'r below \<Rightarrow> 'r coin \<Rightarrow> (bytes \<Rightarrow> u16) \<Rightarrow> 'h \<Rightarrow> bool \<Rightarrow> bool \<Rightarrow> u64 \<Rightarrow> u64 \<Rightarrow> 'r sim
    \<Rightarrow> ('h capture option \<times> 'r sim) exec" where
  "red_tick N below coin crc header save_ok write_ok run now sim =
     (if \<not> si_synth_enabled sim then ret (None, sim)
      else do {
        (added, sim) \<leftarrow> tick_grow N below coin sim;
        (frames, sim) \<leftarrow> tick_frames N crc run now (tick_cycle run added sim);
        let sim = persist_if_dirty save_ok sim;
        if frames = [] then ret (None, sim)
        else do {
          (cap, oversize) \<leftarrow> drop_oversize_frames (to_capture header frames) standard_frame_bytes;
          ret (if write_ok then Some cap else None, sim)
        }
      })"

subsection \<open>A promotion\<close>

definition maybe_promote ::
  "'n net_ops \<Rightarrow> 'r below \<Rightarrow> 'r gen \<Rightarrow> ('r \<Rightarrow> u8 \<times> 'r) \<Rightarrow> bool \<Rightarrow> bool \<Rightarrow> 'h capture option \<Rightarrow> u64 \<Rightarrow> 'r sim
    \<Rightarrow> ('h capture option \<times> 'r sim) exec" where
  "maybe_promote N below gen byte save_ok write_ok file now sim =
     (if \<not> si_threats_enabled sim \<or> \<not> threat_due (si_scheduler sim) now then ret (None, sim)
      else case file of
        None \<Rightarrow>
          let (sch, r) = threat_schedule gen now (si_scheduler sim, si_rng sim)
          in ret (None, sim\<lparr>si_scheduler := sch, si_rng := r\<rparr>)
      | Some cap \<Rightarrow> do {
          (cap, rec, r) \<leftarrow> promote_host N below byte cap (si_external_cidrs sim) (si_oui sim) now (si_rng sim);
          let (sch, r) = threat_schedule gen now (si_scheduler sim, r);
          let sim = sim\<lparr>si_scheduler := sch, si_rng := r\<rparr>;
          case rec of
            None \<Rightarrow> ret (None, sim)
          | Some rec \<Rightarrow>
              if \<not> write_ok then ret (None, sim)
              else ret (Some cap, persist_if_dirty save_ok (sim\<lparr>
                si_ledger := (si_ledger sim)\<lparr>lg_promoted := lg_promoted (si_ledger sim) @ [rec], lg_last_threat_unix := Some now\<rparr>,
                si_dirty := True\<rparr>))
        })"

end
