(* ===== verification/Feed.thy ===== *)
theory Feed
  imports Tick
begin

text \<open>
  Runs of the simulator engine.  A run is a list of events, ticks and offered captures with the clock and the outcome
  of the writes; the lemmas show that no event panics, that the ledger stays well formed, what a sealed session
  keeps, and when bursts are sent.
\<close>

section \<open>The timeline of a scenario\<close>

definition timeline_ok :: "ledger \<Rightarrow> scenario_engine \<Rightarrow> bool" where
  "timeline_ok s e \<longleftrightarrow> tm_phase_idx e < length (en_playbook e) \<and>
     (let evs = pa_events (en_playbook e ! tm_phase_idx e) in
      tm_event_cursor e \<le> length evs \<and>
      (case tm_spill_nonce e of
         None \<Rightarrow> tm_event_frame_offset e = 0
       | Some n \<Rightarrow> tm_event_cursor e < length evs \<and> 0 < tm_event_frame_offset e \<and>
           tm_event_frame_offset e < frame_count s (evs ! tm_event_cursor e)))"

lemma timeline_sent:
  "timeline_ok s e \<longleftrightarrow> tm_phase_idx e < length (en_playbook e) \<and>
     (\<exists>out. sent_upto (render_event N crc e s vuln) (pa_events (en_playbook e ! tm_phase_idx e)) (tm_event_cursor e)
        (tm_event_frame_offset e) (tm_spill_nonce e) out)"
proof -
  have len: "(\<exists>ns :: u64 list. length ns = k)" for k by (rule exI [of _ "replicate k 0"]) simp
  show ?thesis
    unfolding timeline_ok_def Let_def sent_upto_def
    by (cases "tm_spill_nonce e") (auto simp: scen.length_frames_of len)
qed

lemma timeline_start: "at_phase_start e \<Longrightarrow> timeline_ok s e"
  by (simp add: timeline_ok_def at_phase_start_def)

lemma frame_count_devices: "lg_devices s = lg_devices s' \<Longrightarrow> frame_count s = frame_count s'"
proof -
  assume h: "lg_devices s = lg_devices s'"
  have "resolve s = resolve s'" by (intro ext) (simp only: resolve_def match_field_def find_device_def h)
  then show ?thesis by (intro ext) (simp only: frame_count_def acts_on_def h)
qed

lemma timeline_devices: "lg_devices s = lg_devices s' \<Longrightarrow> timeline_ok s e = timeline_ok s' e"
  by (drule frame_count_devices) (simp only: timeline_ok_def)

text \<open>A burst of the scenario returns, within the cap.\<close>

lemma phase_frames_ok:
  assumes "timeline_ok s e"
  obtains fs e' where "phase_frames N crc s vuln nonce e = ret (fs, e')" "timeline_ok s e'"
    "length fs \<le> en_max_frames_per_burst e" "en_playbook e' = en_playbook e"
    "en_max_frames_per_burst e' = en_max_frames_per_burst e"
proof -
  let ?ph = "en_playbook e ! tm_phase_idx e"
  have idx: "tm_phase_idx e < length (en_playbook e)" using assms by (simp add: timeline_ok_def)
  obtain out where sent: "sent_upto (render_event N crc e s vuln) (pa_events ?ph) (tm_event_cursor e)
        (tm_event_frame_offset e) (tm_spill_nonce e) out" using assms timeline_sent by blast
  from scen.burst [of N crc e s vuln "pa_events ?ph" e out "[]" "en_max_frames_per_burst e", OF sent _ refl, of nonce]
  obtain c off spill fs where b: "burst_loop (render_event N crc e s vuln) (en_max_frames_per_burst e) nonce
        (drop (tm_event_cursor e) (pa_events ?ph)) [] e =
      ret (fs, e\<lparr>tm_event_cursor := c, tm_event_frame_offset := off, tm_spill_nonce := spill\<rparr>)"
    "sent_upto (render_event N crc e s vuln) (pa_events ?ph) c off spill (out @ fs)" "length fs \<le> en_max_frames_per_burst e"
    by auto
  define e1 where "e1 = e\<lparr>tm_event_cursor := c, tm_event_frame_offset := off, tm_spill_nonce := spill,
      tm_bursts_in_phase := tm_bursts_in_phase e + 1\<rparr>"
  define e2 where "e2 = (if length (pa_events ?ph) \<le> tm_event_cursor e1 \<and> tm_event_frame_offset e1 = 0 \<and>
      max (pa_dwell_runs ?ph) 1 \<le> tm_bursts_in_phase e1 then advance e1 else e1)"
  have run: "phase_frames N crc s vuln nonce e = ret (fs, e2)"
    unfolding phase_frames_def rd_ok [OF idx] bind.bind_lunit Let_def b(1) prod.case e2_def e1_def by simp
  have "timeline_ok s e1"
    unfolding timeline_sent [where N = N and crc = crc and vuln = vuln] using idx b(2) by (auto simp: e1_def)
  moreover have "timeline_ok s (advance e1)"
    using idx by (auto simp: timeline_ok_def advance_def e1_def Let_def)
  ultimately show thesis
    using run b(3) by (intro that [of fs e2]) (auto simp: e2_def e1_def advance_def Let_def)
qed

section \<open>One tick\<close>

definition same_cfg :: "'r sim \<Rightarrow> 'r sim \<Rightarrow> bool" where
  "same_cfg sim sim' \<longleftrightarrow> si_vuln sim' = si_vuln sim \<and> si_oui sim' = si_oui sim \<and> si_params sim' = si_params sim \<and>
     si_identity_every sim' = si_identity_every sim \<and> si_cycle_every sim' = si_cycle_every sim \<and>
     si_synth_enabled sim' = si_synth_enabled sim \<and> si_burst sim' = si_burst sim \<and> si_sealed sim' = si_sealed sim \<and>
     si_threats_enabled sim' = si_threats_enabled sim \<and> si_external_cidrs sim' = si_external_cidrs sim \<and>
     si_announce_interval sim' = si_announce_interval sim"

lemma same_cfg_refl [simp]: "same_cfg sim sim"
  by (simp add: same_cfg_def)

lemma same_cfg_trans: "same_cfg a b \<Longrightarrow> same_cfg b c \<Longrightarrow> same_cfg a c"
  by (simp add: same_cfg_def)

text \<open>The invariant of the engine.\<close>

definition scenario_ok :: "'r sim \<Rightarrow> bool" where
  "scenario_ok sim \<longleftrightarrow>
     (case si_scenario sim of None \<Rightarrow> True | Some e \<Rightarrow> si_sealed sim \<and> timeline_ok (si_ledger sim) e)"

definition sim_ok :: "'r sim \<Rightarrow> bool" where
  "sim_ok sim \<longleftrightarrow> ledger_ok (si_ledger sim) \<and> plant_unique (si_ledger sim) \<and> macs_room (si_ledger sim) \<and>
     ap_max_devices (si_params sim) \<le> MAX_DEVICES \<and> scenario_ok sim \<and> sched_ok (si_scheduler sim)"

lemma tick_grow_ok:
  assumes w: "fab_world N below (si_vuln sim)" and ok: "sim_ok sim"
  obtains n s r where "tick_grow N below coin sim = ret (n, sim\<lparr>si_ledger := s, si_rng := r, si_dirty := (si_dirty sim \<or> 0 < n)\<rparr>)"
    "grown_by N (si_vuln sim) (si_ledger sim) n s" "si_sealed sim \<Longrightarrow> s = si_ledger sim"
    "device_count s \<le> max (ap_max_devices (si_params sim)) (device_count (si_ledger sim))"
proof (cases "bc_device_identity (si_burst sim) \<and> \<not> si_sealed sim")
  case True
  let ?target = "min (device_count (si_ledger sim) + FABRICATE_BATCH) (ap_max_devices (si_params sim))"
  obtain s n r where f: "fabricate N below coin (si_ledger sim) (si_vuln sim) (si_params sim) ?target (si_rng sim) = ret (s, n, r)"
    "grown_by N (si_vuln sim) (si_ledger sim) n s"
    "device_count s \<le> max (min ?target (ap_max_devices (si_params sim))) (device_count (si_ledger sim))"
    using fabricate_ok [OF w, of "si_ledger sim" coin "si_params sim" ?target "si_rng sim"] ok
    unfolding sim_ok_def by blast
  have "tick_grow N below coin sim = ret (n, sim\<lparr>si_ledger := s, si_rng := r, si_dirty := (si_dirty sim \<or> 0 < n)\<rparr>)"
    unfolding tick_grow_def Let_def f(1) bind.bind_lunit prod.case using True by simp
  then show thesis using f(2,3) True by (intro that [of n r s]) auto
next
  case False
  then have "tick_grow N below coin sim = ret (0, sim)" by (auto simp: tick_grow_def)
  then show thesis
    by (intro that [of 0 "si_rng sim" "si_ledger sim"]) (simp_all add: grown_by_refl)
qed

lemma rename_same:
  "used_ips (rename_zones_new_cycle f s) = used_ips s" "device_macs (rename_zones_new_cycle f s) = device_macs s"
  "ledger_ok (rename_zones_new_cycle f s) = ledger_ok s" "lg_devices (rename_zones_new_cycle f s) = lg_devices s"
  "macs_room (rename_zones_new_cycle f s) = macs_room s" "lg_capture_hosts (rename_zones_new_cycle f s) = lg_capture_hosts s"
proof -
  have "map sr_cidr (map2 (\<lambda>r name. r\<lparr>sr_zone_name := name\<rparr>) zs ns) = map sr_cidr (take (length ns) zs)"
    for zs :: "subnet_record list" and ns
    by (induction zs ns rule: list_induct2') simp_all
  then have "map sr_cidr (lg_subnets (rename_zones_new_cycle f s)) = map sr_cidr (lg_subnets s)"
    by (simp add: rename_zones_new_cycle_def Let_def)
  then show "ledger_ok (rename_zones_new_cycle f s) = ledger_ok s"
    by (rule ledger_ok_cong) (simp_all add: rename_zones_new_cycle_def Let_def)
qed (simp_all add: rename_zones_new_cycle_def Let_def used_ips_def device_macs_def macs_room_def capture_host_count_def)

definition announces :: "u64 \<Rightarrow> u64 \<Rightarrow> 'r sim \<Rightarrow> bool" where
  "announces run now sim \<longleftrightarrow> si_synth_enabled sim \<and> multiple_of run (si_identity_every sim) \<and> cadence_due now sim"

lemma build_returns: "\<exists>fs. build_assertions N cfg s vuln run nonce = ret fs"
proof (cases "bc_device_identity cfg")
  case True
  from burst_ok [OF this, of N s vuln run nonce] show ?thesis by blast
qed (simp add: build_assertions_def)

lemma tick_frames_ok:
  assumes "scenario_ok sim" and "si_synth_enabled sim"
  obtains fs e where "tick_frames N crc run now sim = ret (fs, if announces run now sim
      then sim\<lparr>si_last_announce := Some now, si_announce_count := si_announce_count sim + 1, si_scenario := e\<rparr> else sim)"
    "case e of None \<Rightarrow> True | Some e \<Rightarrow> si_sealed sim \<and> timeline_ok (si_ledger sim) e"
proof (cases "announces run now sim")
  case False
  then have "tick_frames N crc run now sim = ret ([], sim)" using assms(2) by (auto simp: tick_frames_def announces_def)
  then show thesis using assms(1) False by (intro that [of "[]" "si_scenario sim"]) (simp_all add: scenario_ok_def)
next
  case True
  then have due: "multiple_of run (si_identity_every sim) \<and> cadence_due now sim" by (simp add: announces_def)
  let ?n = "si_announce_count sim"
  let ?sim = "sim\<lparr>si_last_announce := Some now, si_announce_count := ?n + 1\<rparr>"
  obtain fs where fs: "build_assertions N (si_burst ?sim) (si_ledger ?sim) (si_vuln ?sim) run ?n = ret fs"
    using build_returns by blast
  show thesis
  proof (cases "si_scenario sim")
    case None
    have "tick_frames N crc run now sim = ret (fs, ?sim)"
      unfolding tick_frames_def if_P [OF due] Let_def fs bind.bind_lunit using None by simp
    then show thesis using True None by (intro that [of fs None]) simp_all
  next
    case (Some e)
    then have e: "si_sealed sim" "timeline_ok (si_ledger sim) e" using assms(1) by (simp_all add: scenario_ok_def)
    obtain atk e' where a: "phase_frames N crc (si_ledger sim) (si_vuln sim) ?n e = ret (atk, e')" "timeline_ok (si_ledger sim) e'"
      using phase_frames_ok [OF e(2)] by blast
    have "tick_frames N crc run now sim = ret (fs @ atk, ?sim\<lparr>si_scenario := Some e'\<rparr>)"
      unfolding tick_frames_def if_P [OF due] Let_def fs bind.bind_lunit using Some a(1) by simp
    then show thesis using True e a(2) by (intro that [of "fs @ atk" "Some e'"]) simp_all
  qed
qed

text \<open>What a tick changes of the ledger: growth of an unsealed one, then new names.\<close>

definition ledger_evolves :: "'n net_ops \<Rightarrow> vuln_db \<Rightarrow> ledger \<Rightarrow> ledger \<Rightarrow> bool" where
  "ledger_evolves N vuln s s' \<longleftrightarrow>
     (\<exists>n g. grown_by N vuln s n g \<and> (s' = g \<or> n = 0 \<and> s' = rename_zones_new_cycle (cycle_name (lg_cycle g + 1)) g))"

lemma ledger_evolves_ok:
  assumes "ledger_evolves N vuln s s'" and "ledger_ok s" "plant_unique s" "macs_room s"
  shows "ledger_ok s'" "plant_unique s'" "macs_room s'"
proof -
  obtain n g where g: "grown_by N vuln s n g" "s' = g \<or> n = 0 \<and> s' = rename_zones_new_cycle (cycle_name (lg_cycle g + 1)) g"
    using assms(1) by (auto simp: ledger_evolves_def)
  have "ledger_ok g" "plant_unique g" "macs_room g"
    using g(1) assms(2,3,4) grown_by_fixed(4) [OF g(1)] by (simp_all add: grown_by_def)
  with g(2) show "ledger_ok s'" "plant_unique s'" "macs_room s'" by (auto simp: rename_same plant_unique_def)
qed

lemma tick_cycle_eq:
  "tick_cycle run n sim = sim \<or>
   n = 0 \<and> \<not> si_sealed sim \<and>
   tick_cycle run n sim = sim\<lparr>si_ledger := rename_zones_new_cycle (cycle_name (lg_cycle (si_ledger sim) + 1)) (si_ledger sim), si_dirty := True\<rparr>"
  by (simp add: tick_cycle_def)

lemma red_tick_ok:
  assumes w: "fab_world N below (si_vuln sim)" and ok: "sim_ok sim"
  obtains out sim' where "red_tick N below coin crc header save_ok write_ok run now sim = ret (out, sim')"
    "sim_ok sim'" "same_cfg sim sim'" "si_scheduler sim' = si_scheduler sim"
    "si_announce_count sim' = si_announce_count sim + of_bool (announces run now sim)"
    "si_last_announce sim' = (if announces run now sim then Some now else si_last_announce sim)"
    "ledger_evolves N (si_vuln sim) (si_ledger sim) (si_ledger sim')" "si_sealed sim \<Longrightarrow> si_ledger sim' = si_ledger sim"
    "\<forall>cap. out = Some cap \<longrightarrow> (\<forall>p \<in> set (cap_packets cap). length (pk_data p) \<le> 1514)"
proof (cases "si_synth_enabled sim")
  case False
  then show thesis
    by (intro that [of None sim])
      (use ok in \<open>auto simp: red_tick_def announces_def ledger_evolves_def intro: grown_by_refl\<close>)
next
  case True
  obtain n s r where g: "tick_grow N below coin sim = ret (n, sim\<lparr>si_ledger := s, si_rng := r, si_dirty := (si_dirty sim \<or> 0 < n)\<rparr>)"
    "grown_by N (si_vuln sim) (si_ledger sim) n s" "si_sealed sim \<Longrightarrow> s = si_ledger sim"
    using tick_grow_ok [OF w ok] by blast
  define sim1 where "sim1 = sim\<lparr>si_ledger := s, si_rng := r, si_dirty := (si_dirty sim \<or> 0 < n)\<rparr>"
  define sim2 where "sim2 = tick_cycle run n sim1"
  have sealed: "si_sealed sim \<Longrightarrow> si_ledger sim2 = si_ledger sim"
    using g(3) by (simp add: sim2_def sim1_def tick_cycle_def)
  have ev: "ledger_evolves N (si_vuln sim) (si_ledger sim) (si_ledger sim2)"
    unfolding ledger_evolves_def
    by (rule exI [of _ n], rule exI [of _ s])
      (use g(2) tick_cycle_eq [of run n sim1] in \<open>auto simp: sim2_def sim1_def\<close>)
  have same: "same_cfg sim sim2" "si_scheduler sim2 = si_scheduler sim" "si_last_announce sim2 = si_last_announce sim"
    "si_announce_count sim2 = si_announce_count sim" "si_scenario sim2 = si_scenario sim"
    using tick_cycle_eq [of run n sim1] by (auto simp: sim2_def sim1_def same_cfg_def)
  have sc2: "scenario_ok sim2"
  proof (cases "si_scenario sim")
    case None
    then show ?thesis using same(5) by (simp add: scenario_ok_def)
  next
    case (Some e)
    then have "si_sealed sim" "timeline_ok (si_ledger sim) e" using ok by (simp_all add: sim_ok_def scenario_ok_def)
    then show ?thesis using Some same(1,5) sealed by (simp add: scenario_ok_def same_cfg_def)
  qed
  have syn: "si_synth_enabled sim2" using True same(1) by (simp add: same_cfg_def)
  have an: "announces run now sim2 = announces run now sim"
    using same by (cases "si_last_announce sim") (simp_all add: announces_def cadence_due_def same_cfg_def)
  obtain fs e where f: "tick_frames N crc run now sim2 = ret (fs, if announces run now sim2
      then sim2\<lparr>si_last_announce := Some now, si_announce_count := si_announce_count sim2 + 1, si_scenario := e\<rparr> else sim2)"
    "case e of None \<Rightarrow> True | Some e \<Rightarrow> si_sealed sim2 \<and> timeline_ok (si_ledger sim2) e"
    using tick_frames_ok [OF sc2 syn] by blast
  define sim3 where "sim3 = (if announces run now sim2
      then sim2\<lparr>si_last_announce := Some now, si_announce_count := si_announce_count sim2 + 1, si_scenario := e\<rparr> else sim2)"
  define sim4 where "sim4 = persist_if_dirty save_ok sim3"
  define cap where "cap = (to_capture header fs)\<lparr>cap_packets := filter (\<lambda>p. length (pk_data p) \<le> standard_frame_bytes)
      (cap_packets (to_capture header fs))\<rparr>"
  obtain k where k: "drop_oversize_frames (to_capture header fs) standard_frame_bytes = ret (cap, k)"
    by (simp add: drop_oversize_frames_def size_filter.drop_eq keep_size_def cap_def)
  have run: "red_tick N below coin crc header save_ok write_ok run now sim =
      ret (if fs \<noteq> [] \<and> write_ok then Some cap else None, sim4)"
    unfolding red_tick_def g(1) bind.bind_lunit prod.case sim1_def [symmetric] sim2_def [symmetric] f(1) sim3_def [symmetric]
      sim4_def [symmetric] Let_def k using True by simp
  have keep: "si_ledger sim4 = si_ledger sim2" "same_cfg sim2 sim4" "si_scheduler sim4 = si_scheduler sim2"
    "si_announce_count sim4 = si_announce_count sim2 + of_bool (announces run now sim2)"
    "si_last_announce sim4 = (if announces run now sim2 then Some now else si_last_announce sim2)"
    "si_scenario sim4 = (if announces run now sim2 then e else si_scenario sim2)"
    by (simp_all add: sim4_def sim3_def persist_if_dirty_def same_cfg_def)
  have "scenario_ok sim4"
  proof (cases "announces run now sim2")
    case True
    then show ?thesis using f(2) keep(1,2,6) by (cases e) (simp_all add: scenario_ok_def same_cfg_def)
  next
    case False
    then show ?thesis using sc2 keep(1,2,6) by (cases "si_scenario sim2") (simp_all add: scenario_ok_def same_cfg_def)
  qed
  moreover have "sched_ok (si_scheduler sim4)" "ap_max_devices (si_params sim4) \<le> MAX_DEVICES"
    using ok keep(2,3) same(1,2) by (simp_all add: sim_ok_def same_cfg_def)
  ultimately have ok4: "sim_ok sim4" using ledger_evolves_ok [OF ev] ok keep(1) by (simp add: sim_ok_def)
  show thesis
  proof (rule that [OF run ok4])
    show "same_cfg sim sim4" using same(1) keep(2) by (rule same_cfg_trans)
    show "\<forall>c. (if fs \<noteq> [] \<and> write_ok then Some cap else None) = Some c \<longrightarrow> (\<forall>p \<in> set (cap_packets c). length (pk_data p) \<le> 1514)"
      by (auto simp: cap_def standard_frame_bytes_def)
  qed (use keep same an sealed ev in auto)
qed

section \<open>One offer\<close>

lemma none_promoted: "\<exists>new t. s = s\<lparr>lg_promoted := lg_promoted s @ new, lg_last_threat_unix := t\<rparr>"
  by (rule exI [of _ "[]"], rule exI [of _ "lg_last_threat_unix s"]) simp

lemma maybe_promote_ok:
  assumes g: "gen_ok gen" and b: "below_ok below" and n: "\<And>cap. offered = Some cap \<Longrightarrow> length (cap_packets cap) < 2 ^ 64"
    and ok: "sim_ok sim"
  obtains out sim' where "maybe_promote N below gen byte save_ok write_ok offered now sim = ret (out, sim')" "sim_ok sim'"
    "same_cfg sim sim'" "si_announce_count sim' = si_announce_count sim" "si_last_announce sim' = si_last_announce sim"
    "\<exists>new t. si_ledger sim' = (si_ledger sim)\<lparr>lg_promoted := lg_promoted (si_ledger sim) @ new, lg_last_threat_unix := t\<rparr>"
proof (cases "si_threats_enabled sim \<and> threat_due (si_scheduler sim) now")
  case False
  then have run: "maybe_promote N below gen byte save_ok write_ok offered now sim = ret (None, sim)" by (simp add: maybe_promote_def)
  show thesis by (rule that [OF run ok same_cfg_refl refl refl none_promoted])
next
  case True
  have sch: "sched_ok sch" if "threat_schedule gen now (si_scheduler sim, r) = (sch, r')" for sch r r'
    using threat_schedule_due(1) [OF g _ that] ok by (simp add: sim_ok_def)
  have keep: "sim_ok (sim\<lparr>si_scheduler := sch, si_rng := r\<rparr>)" if "sched_ok sch" for sch r
    using ok that by (cases "si_scenario sim") (simp_all add: sim_ok_def scenario_ok_def)
  show thesis
  proof (cases offered)
    case None
    obtain sch r where s: "threat_schedule gen now (si_scheduler sim, si_rng sim) = (sch, r)" by fastforce
    then have run: "maybe_promote N below gen byte save_ok write_ok offered now sim = ret (None, sim\<lparr>si_scheduler := sch, si_rng := r\<rparr>)"
      using True None by (simp add: maybe_promote_def)
    show thesis
      by (rule that [OF run keep [OF sch [OF s]]]) (simp_all add: same_cfg_def none_promoted del: ledger.surjective)
  next
    case (Some cap)
    obtain cap' rec r1 where p: "promote_host N below byte cap (si_external_cidrs sim) (si_oui sim) now (si_rng sim) = ret (cap', rec, r1)"
      using promote_host_ok [OF b n [OF Some]] by blast
    obtain sch r where s: "threat_schedule gen now (si_scheduler sim, r1) = (sch, r)" by fastforce
    let ?sim = "sim\<lparr>si_scheduler := sch, si_rng := r\<rparr>"
    note base = keep [OF sch [OF s], of r]
    show thesis
    proof (cases "rec = None \<or> \<not> write_ok")
      case True
      then have run: "maybe_promote N below gen byte save_ok write_ok offered now sim = ret (None, ?sim)"
        using \<open>si_threats_enabled sim \<and> _\<close> Some p s
        by (cases rec; cases write_ok) (auto simp: maybe_promote_def Let_def)
      show thesis
        by (rule that [OF run base]) (simp_all add: same_cfg_def none_promoted del: ledger.surjective)
    next
      case False
      then obtain p' where rec: "rec = Some p'" and wr: "write_ok" by auto
      let ?l = "(si_ledger sim)\<lparr>lg_promoted := lg_promoted (si_ledger sim) @ [p'], lg_last_threat_unix := Some now\<rparr>"
      let ?sim' = "persist_if_dirty save_ok (?sim\<lparr>si_ledger := ?l, si_dirty := True\<rparr>)"
      have run: "maybe_promote N below gen byte save_ok write_ok offered now sim = ret (Some cap', ?sim')"
        using True Some p s rec wr by (simp add: maybe_promote_def)
      have f: "si_ledger ?sim' = ?l" "same_cfg sim ?sim'" "si_scheduler ?sim' = sch" "si_scenario ?sim' = si_scenario sim"
        "si_announce_count ?sim' = si_announce_count sim" "si_last_announce ?sim' = si_last_announce sim"
        by (simp_all add: persist_if_dirty_def same_cfg_def)
      have "used_ips ?l = used_ips (si_ledger sim)" "device_macs ?l = device_macs (si_ledger sim)"
        by (simp_all add: used_ips_def device_macs_def)
      then have l: "ledger_ok ?l" "plant_unique ?l" "macs_room ?l" "\<And>e. timeline_ok ?l e = timeline_ok (si_ledger sim) e"
        using ok timeline_devices [of ?l "si_ledger sim"]
        by (simp_all add: sim_ok_def ledger_ok_def plant_unique_def macs_room_def capture_host_count_def)
      have "scenario_ok ?sim'"
        using ok f(1,2,4) l(4) by (cases "si_scenario sim") (simp_all add: sim_ok_def scenario_ok_def same_cfg_def)
      then have "sim_ok ?sim'"
        using l(1,2,3) f(1,2,3) ok sch [OF s] by (simp add: sim_ok_def same_cfg_def)
      from that [OF run this f(2,5,6)] f(1) show thesis by blast
    qed
  qed
qed

text \<open>What a promotion writes.\<close>

lemma maybe_promote_out:
  assumes "maybe_promote N below gen byte save_ok write_ok offered now sim = ret (Some out, sim')" and "below_ok below"
    and n: "\<And>cap. offered = Some cap \<Longrightarrow> length (cap_packets cap) < 2 ^ 64"
  obtains cap p where "offered = Some cap" "promotion N (si_oui sim) (si_external_cidrs sim) now cap out p"
proof -
  have due: "si_threats_enabled sim" "threat_due (si_scheduler sim) now"
    using assms(1) by (auto simp: maybe_promote_def split: if_splits)
  show thesis
  proof (cases offered)
    case None
    then show thesis using assms(1) due by (simp add: maybe_promote_def split: prod.splits)
  next
    case (Some cap)
    obtain cap' rec r where p: "promote_host N below byte cap (si_external_cidrs sim) (si_oui sim) now (si_rng sim) = ret (cap', rec, r)"
      "case rec of None \<Rightarrow> cap' = cap \<and> nothing_to_promote N (si_external_cidrs sim) (cap_packets cap)
        | Some p \<Rightarrow> promotion N (si_oui sim) (si_external_cidrs sim) now cap cap' p"
      using promote_host_ok [OF assms(2) n [OF Some]] by blast
    obtain q where "rec = Some q" "cap' = out"
      using assms(1) due Some p(1) by (cases rec) (auto simp: maybe_promote_def Let_def split: prod.splits if_splits)
    then show thesis using that [OF Some, of q] p(2) by simp
  qed
qed

section \<open>Runs\<close>

record ('n, 'r, 'h) world =
  wd_net :: "'n net_ops"
  wd_below :: "'r below"
  wd_coin :: "'r coin"
  wd_gen :: "'r gen"
  wd_byte :: "'r \<Rightarrow> u8 \<times> 'r"
  wd_crc :: "bytes \<Rightarrow> u16"
  wd_header :: 'h

text \<open>An event: a tick of a run at a time, or an offered file; and whether the ledger and the capture could be written.\<close>

datatype 'h sim_event = Tick (tick_run: u64) (event_time: u64) bool bool | Offer "'h capture option" (event_time: u64) bool bool

fun sim_do :: "('n, 'r, 'h) world \<Rightarrow> 'h sim_event \<Rightarrow> 'r sim \<Rightarrow> ('h capture option \<times> 'r sim) exec" where
  "sim_do w (Tick run now save_ok write_ok) sim =
     red_tick (wd_net w) (wd_below w) (wd_coin w) (wd_crc w) (wd_header w) save_ok write_ok run now sim"
| "sim_do w (Offer offered now save_ok write_ok) sim =
     maybe_promote (wd_net w) (wd_below w) (wd_gen w) (wd_byte w) save_ok write_ok offered now sim"

fun sim_run :: "('n, 'r, 'h) world \<Rightarrow> 'h sim_event list \<Rightarrow> 'r sim \<Rightarrow> ('h capture option list \<times> 'r sim) exec" where
  "sim_run w [] sim = ret ([], sim)"
| "sim_run w (ev # evs) sim = do {
     (out, sim) \<leftarrow> sim_do w ev sim;
     (outs, sim) \<leftarrow> sim_run w evs sim;
     ret (out # outs, sim)
   }"

definition sim_world :: "('n, 'r, 'h) world \<Rightarrow> 'r sim \<Rightarrow> bool" where
  "sim_world w sim \<longleftrightarrow> fab_world (wd_net w) (wd_below w) (si_vuln sim) \<and> gen_ok (wd_gen w)"

fun event_ok :: "'h sim_event \<Rightarrow> bool" where
  "event_ok (Tick _ _ _ _) = True"
| "event_ok (Offer offered _ _ _) = (case offered of None \<Rightarrow> True | Some cap \<Rightarrow> length (cap_packets cap) < 2 ^ 64)"

text \<open>What an event may write: a tick frames that fit the link, a promotion frames of the sizes of the offered ones.\<close>

fun fits_mtu :: "'h sim_event \<Rightarrow> 'h capture option \<Rightarrow> bool" where
  "fits_mtu (Tick _ _ _ _) (Some cap) = (\<forall>p \<in> set (cap_packets cap). length (pk_data p) \<le> 1514)"
| "fits_mtu (Offer offered _ _ _) (Some cap) =
     (\<exists>orig. offered = Some orig \<and> map (\<lambda>p. length (pk_data p)) (cap_packets cap) = map (\<lambda>p. length (pk_data p)) (cap_packets orig))"
| "fits_mtu _ None = True"

text \<open>Which events announce, and the bursts of a run: the nonce of each and its time.\<close>

fun is_burst :: "'h sim_event \<Rightarrow> 'r sim \<Rightarrow> bool" where
  "is_burst (Tick run now _ _) sim = announces run now sim"
| "is_burst (Offer _ _ _ _) sim = False"

fun bursts :: "('n, 'r, 'h) world \<Rightarrow> 'h sim_event list \<Rightarrow> 'r sim \<Rightarrow> (u64 \<times> u64) list" where
  "bursts w [] sim = []"
| "bursts w (ev # evs) sim =
     (if is_burst ev sim then [(si_announce_count sim, event_time ev)] else []) @
     (case sim_do w ev sim of None \<Rightarrow> [] | Some (_, sim') \<Rightarrow> bursts w evs sim')"

lemma sim_do_ok:
  assumes w: "sim_world w sim" and ok: "sim_ok sim" and ev: "event_ok ev"
  obtains out sim' where "sim_do w ev sim = ret (out, sim')" "sim_ok sim'" "same_cfg sim sim'" "fits_mtu ev out"
    "si_announce_count sim' = si_announce_count sim + of_bool (is_burst ev sim)"
    "si_last_announce sim' = (if is_burst ev sim then Some (event_time ev) else si_last_announce sim)"
    "si_sealed sim \<Longrightarrow> lg_subnets (si_ledger sim') = lg_subnets (si_ledger sim) \<and> lg_devices (si_ledger sim') = lg_devices (si_ledger sim)
       \<and> lg_capture_hosts (si_ledger sim') = lg_capture_hosts (si_ledger sim) \<and> lg_cycle (si_ledger sim') = lg_cycle (si_ledger sim)"
proof (cases ev)
  case (Tick run now save_ok write_ok)
  have fw: "fab_world (wd_net w) (wd_below w) (si_vuln sim)" using w by (simp add: sim_world_def)
  obtain out sim' where t: "red_tick (wd_net w) (wd_below w) (wd_coin w) (wd_crc w) (wd_header w) save_ok write_ok run now sim = ret (out, sim')"
    "sim_ok sim'" "same_cfg sim sim'" "si_announce_count sim' = si_announce_count sim + of_bool (announces run now sim)"
    "si_last_announce sim' = (if announces run now sim then Some now else si_last_announce sim)"
    "si_sealed sim \<Longrightarrow> si_ledger sim' = si_ledger sim"
    "\<forall>cap. out = Some cap \<longrightarrow> (\<forall>p \<in> set (cap_packets cap). length (pk_data p) \<le> 1514)"
    using red_tick_ok [OF fw ok] by metis
  show thesis
    by (rule that [of out sim']) (use t Tick in \<open>cases out; simp\<close>)+
next
  case (Offer offered now save_ok write_ok)
  have b: "gen_ok (wd_gen w)" "below_ok (wd_below w)" using w by (simp_all add: sim_world_def fab_world_def)
  have n: "\<And>cap. offered = Some cap \<Longrightarrow> length (cap_packets cap) < 2 ^ 64" using ev Offer by simp
  obtain out sim' new t where o: "maybe_promote (wd_net w) (wd_below w) (wd_gen w) (wd_byte w) save_ok write_ok offered now sim = ret (out, sim')"
    "sim_ok sim'" "same_cfg sim sim'" "si_announce_count sim' = si_announce_count sim" "si_last_announce sim' = si_last_announce sim"
    "si_ledger sim' = (si_ledger sim)\<lparr>lg_promoted := lg_promoted (si_ledger sim) @ new, lg_last_threat_unix := t\<rparr>"
    using maybe_promote_ok [OF b n ok] by metis
  have "fits_mtu ev out"
  proof (cases out)
    case (Some c)
    obtain cap p where "offered = Some cap" "promotion (wd_net w) (si_oui sim) (si_external_cidrs sim) now cap c p"
      by (rule maybe_promote_out [OF o(1) [unfolded Some] b(2) n], assumption, rule that)
    then show ?thesis using promoted_packets_lengths unfolding Offer Some promotion_def by fastforce
  qed (simp add: Offer)
  then show thesis
    by (rule that [of out sim', rotated 3]) (use o Offer in simp_all)
qed

lemma sim_world_cfg: "same_cfg sim sim' \<Longrightarrow> sim_world w sim' = sim_world w sim"
  by (simp add: sim_world_def same_cfg_def)

text \<open>No run panics; the invariant holds after it, and every capture a tick writes fits the link.\<close>

lemma sim_run_ok:
  assumes "sim_world w sim" and "sim_ok sim" and "\<forall>ev \<in> set evs. event_ok ev"
  shows "\<exists>outs sim'. sim_run w evs sim = ret (outs, sim') \<and> sim_ok sim' \<and> same_cfg sim sim' \<and> list_all2 fits_mtu evs outs \<and>
    (si_sealed sim \<longrightarrow> lg_subnets (si_ledger sim') = lg_subnets (si_ledger sim) \<and> lg_devices (si_ledger sim') = lg_devices (si_ledger sim)
       \<and> lg_capture_hosts (si_ledger sim') = lg_capture_hosts (si_ledger sim) \<and> lg_cycle (si_ledger sim') = lg_cycle (si_ledger sim))"
  using assms
proof (induction evs arbitrary: sim)
  case (Cons ev evs)
  have ev: "event_ok ev" using Cons.prems(3) by simp
  obtain out sim1 where 1: "sim_do w ev sim = ret (out, sim1)" "sim_ok sim1" "same_cfg sim sim1" "fits_mtu ev out"
    "si_sealed sim \<Longrightarrow> lg_subnets (si_ledger sim1) = lg_subnets (si_ledger sim) \<and> lg_devices (si_ledger sim1) = lg_devices (si_ledger sim)
       \<and> lg_capture_hosts (si_ledger sim1) = lg_capture_hosts (si_ledger sim) \<and> lg_cycle (si_ledger sim1) = lg_cycle (si_ledger sim)"
    using sim_do_ok [OF Cons.prems(1,2) ev] by blast
  have "sim_world w sim1" using Cons.prems(1) by (simp add: sim_world_cfg [OF 1(3)])
  then obtain outs sim2 where 2: "sim_run w evs sim1 = ret (outs, sim2)" "sim_ok sim2" "same_cfg sim1 sim2" "list_all2 fits_mtu evs outs"
    "si_sealed sim1 \<longrightarrow> lg_subnets (si_ledger sim2) = lg_subnets (si_ledger sim1) \<and> lg_devices (si_ledger sim2) = lg_devices (si_ledger sim1)
       \<and> lg_capture_hosts (si_ledger sim2) = lg_capture_hosts (si_ledger sim1) \<and> lg_cycle (si_ledger sim2) = lg_cycle (si_ledger sim1)"
    using Cons.IH [of sim1] 1(2) Cons.prems(3) by auto
  have "sim_run w (ev # evs) sim = ret (out # outs, sim2)" using 1(1) 2(1) by simp
  moreover have "same_cfg sim sim2" using 1(3) 2(3) by (rule same_cfg_trans)
  moreover have "si_sealed sim1 = si_sealed sim" using 1(3) by (simp add: same_cfg_def)
  ultimately show ?case using 1(4,5) 2(2,4,5) by (intro exI [of _ "out # outs"] exI [of _ sim2]) simp
qed simp

section \<open>The bursts of a run\<close>

definition spaced :: "u64 \<Rightarrow> u64 \<Rightarrow> u64 \<Rightarrow> bool" where
  "spaced interval a b \<longleftrightarrow> interval = 0 \<or> unat a + unat interval \<le> unat b"

lemma spaced_trans: "spaced i a b \<Longrightarrow> spaced i b c \<Longrightarrow> spaced i a c"
  by (auto simp: spaced_def)

lemma cadence_spaced:
  "cadence_due now sim \<Longrightarrow> si_last_announce sim = Some t \<Longrightarrow> spaced (si_announce_interval sim) t now"
  by (auto simp: cadence_due_def spaced_def word_le_nat_alt unat_sub unat_eq_0 split: if_splits)

text \<open>Nonces count up, and the times of the bursts are at least the configured interval apart.\<close>

lemma bursts_ok:
  assumes "sim_world w sim" and "sim_ok sim" and "\<forall>ev \<in> set evs. event_ok ev"
  shows "map fst (bursts w evs sim) = map (\<lambda>i. si_announce_count sim + word_of_nat i) [0..<length (bursts w evs sim)] \<and>
    sorted_wrt (spaced (si_announce_interval sim)) (map snd (bursts w evs sim)) \<and>
    (\<forall>t. si_last_announce sim = Some t \<longrightarrow> (\<forall>b \<in> set (bursts w evs sim). spaced (si_announce_interval sim) t (snd b)))"
  using assms
proof (induction evs arbitrary: sim)
  case (Cons ev evs)
  have ev: "event_ok ev" using Cons.prems(3) by simp
  obtain out sim1 where 1: "sim_do w ev sim = ret (out, sim1)" "sim_ok sim1" "same_cfg sim sim1"
    "si_announce_count sim1 = si_announce_count sim + of_bool (is_burst ev sim)"
    "si_last_announce sim1 = (if is_burst ev sim then Some (event_time ev) else si_last_announce sim)"
    using sim_do_ok [OF Cons.prems(1,2) ev] by blast
  have "sim_world w sim1" using Cons.prems(1) by (simp add: sim_world_cfg [OF 1(3)])
  note ih = Cons.IH [OF this 1(2)]
  have i: "si_announce_interval sim1 = si_announce_interval sim" using 1(3) by (simp add: same_cfg_def)
  show ?case
  proof (cases "is_burst ev sim")
    case False
    then have "bursts w (ev # evs) sim = bursts w evs sim1" using 1(1) by simp
    then show ?thesis using ih Cons.prems(3) 1(4,5) i False by simp
  next
    case True
    let ?bs = "bursts w evs sim1"
    have b: "bursts w (ev # evs) sim = (si_announce_count sim, event_time ev) # ?bs" using 1(1) True by simp
    have n: "map fst ?bs = map (\<lambda>i. si_announce_count sim + word_of_nat (Suc i)) [0..<length ?bs]"
      using ih Cons.prems(3) 1(4) True by (simp add: ac_simps)
    have t: "si_last_announce sim = Some t \<Longrightarrow> spaced (si_announce_interval sim) t (event_time ev)" for t
      using True cadence_spaced by (cases ev) (auto simp: announces_def)
    have later: "\<forall>b \<in> set ?bs. spaced (si_announce_interval sim) (event_time ev) (snd b)"
      using ih Cons.prems(3) 1(5) True i by simp
    have "map fst (bursts w (ev # evs) sim) = map (\<lambda>i. si_announce_count sim + word_of_nat i) [0..<Suc (length ?bs)]"
      unfolding b upt_conv_Cons [OF zero_less_Suc] map_Suc_upt [symmetric] by (simp add: n comp_def)
    then show ?thesis
      using ih Cons.prems(3) i later t spaced_trans unfolding b by fastforce
  qed
qed simp

section \<open>The first state\<close>

text \<open>A well-formed ledger, sealed if it is of a scenario.\<close>

definition session_well_formed :: "ledger \<Rightarrow> bool" where
  "session_well_formed s \<longleftrightarrow> ledger_ok s \<and> plant_unique s \<and> macs_room s \<and> (lg_scenario s \<noteq> None \<longrightarrow> lg_sealed s)"

lemma session_well_formed_new: "session_well_formed (ledger_new seed now)"
  by (simp add: session_well_formed_def ledger_new_ok plant_unique_def macs_room_def capture_host_count_def used_ips_def
      device_macs_def List.map_filter_def) (simp add: ledger_new_def MAX_DEVICES_def List.map_filter_def)

definition inputs_well_formed :: "ledger_error + ledger option \<Rightarrow> u64 \<Rightarrow> 'e target option \<Rightarrow> bool" where
  "inputs_well_formed loaded seed target \<longleftrightarrow>
     (\<forall>s. loaded = Inr (Some s) \<longrightarrow> session_well_formed s) \<and>
     (\<forall>t pin parsed p. target = Some (t, pin, parsed) \<longrightarrow> pin seed = Inr p \<longrightarrow>
        session_well_formed p \<and> lg_scenario p = Some (tg_name t))"

lemma red_session_ok:
  assumes "red_session cfg loaded seed now target save_ok = Inr (s, f)" and "inputs_well_formed loaded seed target"
  shows "session_well_formed s" "lg_scenario s = map_option (\<lambda>(t, _). tg_name t) target"
proof -
  have "session_well_formed s \<and> lg_scenario s = map_option (\<lambda>(t, _). tg_name t) target"
  proof (cases "case loaded of Inl _ \<Rightarrow> None | Inr s \<Rightarrow> s")
    case (Some x)
    then have "loaded = Inr (Some x)" by (cases loaded) simp_all
    with assms show ?thesis
      by (auto simp: red_session_def inputs_well_formed_def guard_ledger_scenario_def Let_def split: if_splits)
  next
    case None
    show ?thesis
    proof (cases target)
      case no: None
      then have "s = ledger_new seed now" using assms(1) None by (simp add: red_session_def Let_def)
      then show ?thesis using no session_well_formed_new by (simp add: ledger_new_def)
    next
      case (Some x)
      obtain t pin parsed where t: "target = Some (t, pin, parsed)" using Some by (cases x) auto
      then obtain p where p: "pin seed = Inr p" "s = p\<lparr>lg_max_assets := effective_asset_cap (rc_max_assets cfg)\<rparr>"
        using assms(1) None by (auto simp: red_session_def Let_def split: sum.splits)
      then have "session_well_formed p" "lg_scenario p = Some (tg_name t)" using assms(2) t by (auto simp: inputs_well_formed_def)
      then show ?thesis
        unfolding p(2) t
        by (simp add: session_well_formed_def ledger_ok_def plant_unique_def used_ips_def device_macs_def macs_room_def
            capture_host_count_def)
    qed
  qed
  then show "session_well_formed s" "lg_scenario s = map_option (\<lambda>(t, _). tg_name t) target" by blast+
qed

lemma effective_device_cap_le: "effective_device_cap c \<le> MAX_DEVICES"
  by (auto simp: effective_device_cap_def MAX_DEVICES_def split: option.split)

lemma red_ok:
  assumes g: "gen_ok gen" and r: "red gen seed_from cfg vuln oui loaded seed now target save_ok = Inr sim"
    and i: "inputs_well_formed loaded seed target"
  shows "sim_ok sim" "si_vuln sim = vuln" "si_last_announce sim = None" "si_announce_count sim = 0"
    "si_sealed sim = lg_sealed (si_ledger sim)"
proof -
  obtain s f where s: "red_session cfg loaded seed now target save_ok = Inr (s, f)"
    using r by (cases "red_session cfg loaded seed now target save_ok") (auto simp: red_def)
  note wf = red_session_ok [OF s i]
  define sc where "sc = (case target of
                   None \<Rightarrow> Inr None
                 | Some (t, _, parsed) \<Rightarrow>
                     (case scenario_load t parsed (lg_seed s) of Inl e \<Rightarrow> Inl e | Inr e \<Rightarrow> Inr (Some e)))"
  obtain scenario where sc: "sc = Inr scenario"
    using r s by (cases sc) (simp_all add: red_def sc_def)
  obtain sch r' where th: "threat_new gen (rc_min_interval cfg) (rc_max_interval cfg) (lg_last_threat_unix s) now (seed_from (lg_seed s)) = (sch, r')"
    by fastforce
  have sim: "si_ledger sim = s" "si_scheduler sim = sch" "si_scenario sim = scenario" "si_sealed sim = lg_sealed s"
    "ap_max_devices (si_params sim) = effective_device_cap (rc_max_devices cfg)"
    "si_vuln sim = vuln" "si_last_announce sim = None" "si_announce_count sim = 0"
    using r s sc th by (auto simp: red_def sc_def)
  have "sched_ok sch"
  proof -
    have "threat_schedule gen (case lg_last_threat_unix s of Some t \<Rightarrow> t | None \<Rightarrow> now)
       (\<lparr>sd_min = max (rc_min_interval cfg) THREAT_FLOOR_SECS,
         sd_max = max (rc_max_interval cfg) (max (rc_min_interval cfg) THREAT_FLOOR_SECS), sd_next_due = 0\<rparr>, seed_from (lg_seed s)) = (sch, r')"
      using th by (simp only: threat_new_def Let_def)
    from threat_schedule_due(1) [OF g sched_new_ok this] show ?thesis .
  qed
  moreover have "case scenario of None \<Rightarrow> True | Some e \<Rightarrow> lg_sealed s \<and> timeline_ok s e"
  proof (cases scenario)
    case (Some e)
    then obtain t pin parsed where t: "target = Some (t, pin, parsed)" "scenario_load t parsed (lg_seed s) = Inr e"
      using sc by (auto simp: sc_def split: option.splits sum.splits)
    then have "at_phase_start e" using scenario_load_start by blast
    moreover have "lg_sealed s" using wf t(1) by (simp add: session_well_formed_def)
    ultimately show ?thesis using Some timeline_start by simp
  qed simp
  ultimately show "sim_ok sim"
    using wf(1) sim effective_device_cap_le
    by (cases scenario) (simp_all add: sim_ok_def scenario_ok_def session_well_formed_def)
qed (use r in \<open>auto simp: red_def split: sum.splits prod.splits\<close>)

end
