(* ===== verification/Plant_Samples.thy ===== *)
theory Plant_Samples
  imports Samples Campaign Threat Enrich Feed
begin

text \<open>
  Concrete inputs for the properties of the simulation and the scenario side: a plant of one controller and its
  firewall, and a playbook of two phases that reads the controller and then stops it.
\<close>

definition sample_device :: "string \<Rightarrow> string \<Rightarrow> string \<Rightarrow> device_record" where
  "sample_device ip m class = \<lparr>dr_ip = ip, dr_mac = m, dr_vendor = ''Siemens AG'', dr_model = ''S7-300'',
     dr_firmware = ''V3.2.12'', dr_protocol = ''s7'', dr_cves = [''CVE-2016-9159''], dr_subnet_cidr = ''10.20.10.0/24'',
     dr_hostname = None, dr_asset_type = Some class\<rparr>"

definition sample_plant :: ledger where
  "sample_plant = (ledger_new 1337 0)\<lparr>
     lg_subnets := [\<lparr>sr_cidr = ''10.20.10.0/24'', sr_zone_name = ''L1'', sr_purdue_level = 1, sr_vendor = None, sr_domain = None\<rparr>],
     lg_devices := [sample_device ''10.20.10.11'' ''00:0e:8c:11:22:33'' ''Controller'',
                    sample_device ''10.20.10.1'' ''00:09:0f:aa:bb:cc'' ''Firewall'']\<rparr>"

definition sample_event :: "emit_kind \<Rightarrow> event" where
  "sample_event k = \<lparr>ev_emit = k, ev_target = Some \<lparr>rf_ip = None, rf_model = None, rf_asset_type = Some ''Controller''\<rparr>,
     ev_value = None, ev_register = None, ev_db = None, ev_offset = None, ev_unit = None, ev_ioa = None,
     ev_common_addr = None, ev_point = None, ev_close = None, ev_block_id = None, ev_payload_hex = None,
     ev_chunk = None, ev_domain = None, ev_ip = None, ev_port = None, ev_share = None\<rparr>"

definition sample_phases :: "phase list" where
  "sample_phases =
     [\<lparr>pa_id = ''recon'', pa_name = None, pa_techniques = [''T0842''], pa_dwell_runs = 2, pa_events = [sample_event S7Read]\<rparr>,
      \<lparr>pa_id = ''impact'', pa_name = None, pa_techniques = [''T0831''], pa_dwell_runs = 1,
       pa_events = [sample_event S7Stop, sample_event C2Beacon]\<rparr>]"

definition sample_target :: target_cfg where
  "sample_target = \<lparr>tg_name = ''sample'', tg_campaign = Oneshot, tg_max_frames_per_burst = 5, tg_ioc_fidelity = Standin,
     tg_external_cidrs = [], tg_c2_domains = [''c2.example''], tg_c2_ips = []\<rparr>"

definition sample_engine :: scenario_engine where
  "sample_engine =
     \<lparr>tm_phase_idx = 0, tm_event_cursor = 0, tm_bursts_in_phase = 0, tm_event_frame_offset = 0, tm_spill_nonce = None,
      en_name = ''sample'', en_playbook = sample_phases, en_external_cidrs = [], en_c2_domains = [''c2.example''],
      en_c2_ips = [], en_fidelity = Standin, en_campaign = Oneshot, en_max_frames_per_burst = 5, en_seed = 1337\<rparr>"

lemma sample_load: "scenario_load sample_target (Some sample_phases) 1337 = Inr sample_engine"
  by (simp add: scenario_load_def playbook_parse_def sample_target_def sample_engine_def sample_phases_def sample_event_def)

lemma sample_start: "at_phase_start sample_engine" "tm_phase_idx sample_engine = 0"
  using scenario_load_start [OF sample_load] by simp_all

lemma sample_addresses: "ipv4_from_str ''10.20.10.11'' = Some 0x0a140a0b" "ipv4_from_str ''10.20.10.1'' = Some 0x0a140a01"
  by code_simp+

lemma sample_acts: "Option.bind (acts_on sample_plant (sample_event k)) endpoint \<noteq> None"
  by (simp add: acts_on_def or_else_def resolve_def match_field_def find_device_def sample_event_def sample_plant_def
      sample_device_def endpoint_def sample_addresses)

lemma sample_counts: "frame_count sample_plant (sample_event S7Read) = 13"
  "frame_count sample_plant (sample_event S7Stop) = 13" "frame_count sample_plant (sample_event C2Beacon) = 11"
  using sample_acts by (simp_all add: frame_count_def) (simp_all add: kind_frames_def sample_event_def)

lemma sample_bounds:
  "phase_bound sample_plant 5 (sample_phases ! 0) = 3" "phase_bound sample_plant 5 (sample_phases ! 1) = 5"
  by (simp_all add: phase_bound_def phase_total_def sample_phases_def sample_counts dwell_of_def)

lemma sample_valid: "validate_targets sample_engine sample_plant = Inr ()"
proof -
  have "resolve sample_plant (ev_target (sample_event k)) \<noteq> None" for k
    by (simp add: or_else_def resolve_def match_field_def find_device_def sample_event_def sample_plant_def sample_device_def)
  then show ?thesis
    unfolding validate_targets_ok by (auto simp: sample_engine_def sample_phases_def)
qed

lemma sample_devices: "lg_devices sample_plant \<noteq> []" "\<forall>d \<in> set (lg_devices sample_plant). ipv4_from_str (dr_ip d) \<noteq> None"
  by (simp_all add: sample_plant_def sample_device_def sample_addresses)

text \<open>Networks: the pair networks with one name.\<close>

definition plant_net :: "(u32 \<times> u8) net_ops" where
  "plant_net = pair_net\<lparr>no_parse := (\<lambda>s. if s = ''10.20.10.0/24'' then Some (0x0a140a00, 24)
     else if s = ''203.0.113.0/24'' then Some (0xcb007100, 24) else None)\<rparr>"

lemma plant_net_ok: "net_ok plant_net"
proof -
  have same: "no_network plant_net = no_network pair_net" "no_broadcast plant_net = no_broadcast pair_net"
    "no_prefix_len plant_net = no_prefix_len pair_net" "no_contains plant_net = no_contains pair_net"
    "no_hosts plant_net = no_hosts pair_net" "no_new plant_net = no_new pair_net"
    by (simp_all add: plant_net_def)
  show ?thesis using pair_net_ok unfolding net_ok_def same .
qed

lemma plant_station: "station_addr plant_net ''10.20.10.0/24'' = 0x0a140afa"
  by (simp add: station_addr_def station_addr_net_def plant_net_def pair_net_def cap32_def saturating_sub32_def mask24 Let_def)

text \<open>The pair networks with their text form read back, and a database of one controller.\<close>

definition text_net :: "(u32 \<times> u8) net_ops" where
  "text_net = pair_net\<lparr>no_parse := (\<lambda>s. case split_on (CHR ''/'') s of
     [a, p] \<Rightarrow> (case (ipv4_from_str a, octet_from_str p) of (Some net, Some plen) \<Rightarrow> Some (net, plen) | _ \<Rightarrow> None)
   | _ \<Rightarrow> None)\<rparr>"

lemma text_net_ok: "net_ok text_net"
proof -
  have same: "no_network text_net = no_network pair_net" "no_broadcast text_net = no_broadcast pair_net"
    "no_prefix_len text_net = no_prefix_len pair_net" "no_contains text_net = no_contains pair_net"
    "no_hosts text_net = no_hosts pair_net" "no_new text_net = no_new pair_net"
    by (simp_all add: text_net_def)
  show ?thesis using pair_net_ok unfolding net_ok_def same .
qed

lemma show_nat_no_slash: "CHR ''/'' \<notin> set (show_nat n)"
proof
  assume "CHR ''/'' \<in> set (show_nat n)"
  then obtain k :: nat where "k < 10" "CHR ''/'' = char_of (48 + k)" using show_nat_digit by blast
  then have "of_char (CHR ''/'') = 48 + k" by simp
  then show False by simp
qed

lemma text_net_shows: "shows_ok text_net"
proof -
  have "CHR ''/'' \<notin> set (show_ipv4 a)" for a
    by (simp add: show_ipv4_def octets_def to_be32_def show_nat_no_slash)
  then have "split_on (CHR ''/'') (show_cidr a p) = [show_ipv4 a, show_nat (unat p)]" for a p
    by (simp add: show_cidr_def split_on_append split_on_single show_nat_no_slash)
  then show ?thesis
    by (auto simp: shows_ok_def text_net_def pair_net_def Let_def ipv4_show octet_show)
qed

definition sample_profile :: device_profile where
  "sample_profile = \<lparr>dp_vendor = ''Siemens AG'', dp_model = ''S7-300'', dp_firmware = ''V3.2.12'', dp_protocol = Proto_S7,
     dp_purdue_level = 1, dp_oui = Some ''00:0E:8C'', dp_cves = [''CVE-2016-9159''], dp_enip_vendor_id = None,
     dp_enip_device_type = None, dp_enip_product_code = None, dp_enip_product_name = None, dp_s7_order_number = None,
     dp_sys_descr = None, dp_sys_object_id = None, dp_firmware_oid = None,
     dp_asset_class = None, dp_modbus_vendor_name = None, dp_modbus_product_code = None, dp_modbus_revision = None\<rparr>"

lemma sample_world: "fab_world text_net count_below [sample_profile]"
  by (simp add: fab_world_def text_net_ok text_net_shows count_below_ok is_core_def sample_profile_def)

definition sample_burst :: burst_cfg where
  "sample_burst = \<lparr>bc_device_identity = True, bc_switch_beacons = True, bc_ns_enabled = True, bc_ns_cadence = 4,
     bc_ns_max_per_pair = 2\<rparr>"

text \<open>A daemon over the sample plant, sealed.\<close>

definition sample_cfg :: red_cfg where
  "sample_cfg = \<lparr>rc_max_subnets = None, rc_max_devices = None, rc_max_assets = None, rc_default_prefix = 24, rc_identity_every = 1,
     rc_cycle_every = 0, rc_synth_enabled = True, rc_device_identity = True, rc_switch_beacons = True, rc_ns_enabled = True,
     rc_ns_cadence = 4, rc_ns_max_per_pair = 2, rc_threats_enabled = True, rc_external_cidrs = [''203.0.113.0/24''],
     rc_min_interval = 0, rc_max_interval = 0, rc_announce_interval = 25\<rparr>"

definition sample_daemon :: "(u32 \<times> u8, u64, unit) world" where
  "sample_daemon = \<lparr>wd_net = text_net, wd_below = count_below, wd_coin = (\<lambda>r. (False, r)), wd_gen = count_gen,
     wd_byte = (\<lambda>r. (0, r)), wd_crc = (\<lambda>_. 0), wd_header = ()\<rparr>"

definition sealed_plant :: ledger where
  "sealed_plant = sample_plant\<lparr>lg_sealed := True\<rparr>"

lemma sample_daemon_ok: "gen_ok (wd_gen sample_daemon)" "fab_world (wd_net sample_daemon) (wd_below sample_daemon) [sample_profile]"
  using sample_world count_gen_ok by (simp_all add: sample_daemon_def)

lemma sealed_plant_ok: "session_well_formed sealed_plant"
proof -
  have "parse_mac ''00:0e:8c:11:22:33'' \<noteq> parse_mac ''00:09:0f:aa:bb:cc''" by code_simp
  then show ?thesis
    by (simp add: session_well_formed_def sealed_plant_def sample_plant_def sample_device_def ledger_new_def ledger_ok_def
        plant_unique_def used_ips_def device_macs_def macs_room_def capture_host_count_def List.map_filter_def sample_addresses
        MAX_SUBNETS_def MAX_DEVICES_def)
qed

lemma sample_inputs: "inputs_well_formed (Inr (Some sealed_plant)) 1 None"
  using sealed_plant_ok by (simp add: inputs_well_formed_def)

lemma sample_red:
  obtains sim where "red (wd_gen sample_daemon) id sample_cfg [sample_profile] (oui_parse []) (Inr (Some sealed_plant)) 1 0 None True = Inr sim"
    "si_ledger sim = sealed_plant" "si_announce_interval sim = 25"
proof -
  have "\<exists>sim. red (wd_gen sample_daemon) id sample_cfg [sample_profile] (oui_parse []) (Inr (Some sealed_plant)) 1 0 None True = Inr sim
      \<and> si_ledger sim = sealed_plant \<and> si_announce_interval sim = 25"
    by (simp add: red_def red_session_def guard_ledger_scenario_def sealed_plant_def sample_plant_def ledger_new_def sample_cfg_def
        split: prod.split)
  with that show thesis by blast
qed

end
