(* ===== verification/Cache.thy ===== *)
theory Cache
  imports Threat
begin

text \<open>
  The remap cache of \<open>src/simulate/engine.rs\<close>: directories of rewritten captures, each kept under a byte budget.  A
  directory is the list of its entries in the order \<open>read_dir\<close> gives them.  Which files can be removed and whether the
  directory can be read are arguments.
\<close>

section \<open>Code\<close>

record 'c cache_file =
  cf_name :: string
  cf_regular :: bool
  cf_len :: u64
  cf_modified :: nat
  cf_content :: 'c

type_synonym 'c cache_listing = "'c cache_file list"

definition dir_total_bytes :: "bool \<Rightarrow> 'c cache_listing \<Rightarrow> u64" where
  "dir_total_bytes readable dir = (if readable then sum_list (map cf_len (filter cf_regular dir)) else 0)"

text \<open>The loop of \<open>plan_evictions\<close> over the order, with \<open>remaining\<close>.\<close>

fun evict_loop :: "(u64 \<times> nat) list \<Rightarrow> u64 \<Rightarrow> nat \<Rightarrow> nat list \<Rightarrow> u64 \<Rightarrow> nat list" where
  "evict_loop entries budget keep_idx [] remaining = []"
| "evict_loop entries budget keep_idx (i # order) remaining =
     (if remaining \<le> budget then []
      else if i = keep_idx then evict_loop entries budget keep_idx order remaining
      else i # evict_loop entries budget keep_idx order (remaining - fst (entries ! i)))"

definition plan_evictions :: "(u64 \<times> nat) list \<Rightarrow> u64 \<Rightarrow> u64 \<Rightarrow> nat \<Rightarrow> nat list" where
  "plan_evictions entries held budget keep_idx =
     (if held \<le> budget then []
      else evict_loop entries budget keep_idx (sort_key (\<lambda>i. snd (entries ! i)) [0..<length entries]) held)"

text \<open>\<open>usize::MAX\<close> stands for no file to keep.\<close>

definition keep_index :: "string \<Rightarrow> 'c cache_listing \<Rightarrow> nat" where
  "keep_index keep fs = fold (\<lambda>i k. if cf_name (fs ! i) = keep then i else k) [0..<length fs] (2 ^ 64 - 1)"

definition remove_entry :: "(string \<Rightarrow> bool) \<Rightarrow> 'c cache_file \<Rightarrow> 'c cache_listing \<times> u64 \<Rightarrow> 'c cache_listing \<times> u64" where
  "remove_entry removable f = (\<lambda>(dir, held).
     if removable (cf_name f) then (filter (\<lambda>g. cf_name g \<noteq> cf_name f) dir, held - cf_len f) else (dir, held))"

definition evict_remap_cache ::
  "bool \<Rightarrow> (string \<Rightarrow> bool) \<Rightarrow> 'c cache_listing \<Rightarrow> string \<Rightarrow> u64 \<Rightarrow> 'c cache_listing \<times> u64" where
  "evict_remap_cache readable removable dir keep budget =
     (if \<not> readable then (dir, 0)
      else let fs = filter cf_regular dir;
               meta = map (\<lambda>f. (cf_len f, cf_modified f)) fs;
               held = sum_list (map cf_len fs)
           in fold (\<lambda>i. remove_entry removable (fs ! i)) (plan_evictions meta held budget (keep_index keep fs)) (dir, held))"

text \<open>
  A cache directory and the engine's running estimate of its size, \<open>remap_cache_bytes\<close>.  \<open>settle_cache\<close> is the end of
  \<open>remap_into_session\<close>: the file \<open>f\<close> is written, and the directory is walked on first use or over the budget.
\<close>

record 'c cache_dir =
  cd_files :: "'c cache_listing"
  cd_estimate :: "u64 option"

definition write_file :: "'c cache_file \<Rightarrow> 'c cache_listing \<Rightarrow> 'c cache_listing" where
  "write_file f dir = filter (\<lambda>g. cf_name g \<noteq> cf_name f) dir @ [f]"

definition settle_cache ::
  "bool \<Rightarrow> (string \<Rightarrow> bool) \<Rightarrow> u64 \<Rightarrow> 'c cache_file \<Rightarrow> 'c cache_dir \<Rightarrow> 'c cache_dir" where
  "settle_cache readable removable budget f cd =
     (let dir = write_file f (cd_files cd);
          projected = (case cd_estimate cd of Some prev \<Rightarrow> saturating_add64 prev (cf_len f) | None \<Rightarrow> dir_total_bytes readable dir);
          (dir, held) = (if budget < projected then evict_remap_cache readable removable dir (cf_name f) budget else (dir, projected))
      in \<lparr>cd_files = dir, cd_estimate = Some held\<rparr>)"

definition lookup_file :: "string \<Rightarrow> 'c cache_listing \<Rightarrow> 'c cache_file option" where
  "lookup_file name dir = find (\<lambda>f. cf_name f = name \<and> cf_regular f) dir"

section \<open>The policy\<close>

text \<open>The bytes of some entries, as a number.\<close>

definition entry_bytes :: "(u64 \<times> nat) list \<Rightarrow> nat set \<Rightarrow> nat" where
  "entry_bytes entries A = (\<Sum>i \<in> A. unat (fst (entries ! i)))"

lemma entry_bytes_insert: "finite A \<Longrightarrow> i \<notin> A \<Longrightarrow> entry_bytes entries (insert i A) = unat (fst (entries ! i)) + entry_bytes entries A"
  by (simp add: entry_bytes_def)

lemma entry_bytes_mono: "finite B \<Longrightarrow> A \<subseteq> B \<Longrightarrow> entry_bytes entries A \<le> entry_bytes entries B"
  by (simp add: entry_bytes_def sum_mono2)

lemma unat_sub_le: "unat b \<le> unat a \<Longrightarrow> unat (a - b :: u64) = unat a - unat b"
  by (simp add: unat_sub word_le_nat_alt)

text \<open>A policy answer: a prefix of the order without \<open>k\<close>, long enough and no longer than needed.\<close>

definition evicts :: "(u64 \<times> nat) list \<Rightarrow> u64 \<Rightarrow> nat \<Rightarrow> nat list \<Rightarrow> u64 \<Rightarrow> nat list \<Rightarrow> bool" where
  "evicts entries budget k order remaining ev \<longleftrightarrow>
     distinct ev \<and> set ev \<subseteq> set order - {k} \<and>
     (unat remaining - entry_bytes entries (set ev) \<le> unat budget \<or> set ev = set order - {k}) \<and>
     (\<exists>n. ev = filter (\<lambda>i. i \<noteq> k) (take n order)) \<and>
     (\<forall>e i. ev = e @ [i] \<longrightarrow> unat budget < unat remaining - entry_bytes entries (set e))"

lemma evict_loop_ok:
  assumes "distinct order" and "entry_bytes entries (set order) \<le> unat remaining"
  shows "evicts entries budget k order remaining (evict_loop entries budget k order remaining)"
  using assms
proof (induction order arbitrary: remaining)
  case (Cons i order)
  let ?ev = "evict_loop entries budget k"
  let ?b = "unat (fst (entries ! i))"
  have "entry_bytes entries (set (i # order)) = ?b + entry_bytes entries (set order)"
    using Cons.prems(1) by (simp add: entry_bytes_insert)
  then have r: "?b \<le> unat remaining" "entry_bytes entries (set order) \<le> unat remaining - ?b"
    using Cons.prems(2) by simp_all
  then have u: "unat (remaining - fst (entries ! i)) = unat remaining - ?b" by (simp add: unat_sub_le)
  have pass: "entry_bytes entries (set order) \<le> unat remaining" using r by simp
  have step: "entry_bytes entries (set order) \<le> unat (remaining - fst (entries ! i))" using r u by simp
  note ih0 = Cons.IH [of remaining, OF _ pass] and ih1 = Cons.IH [of "remaining - fst (entries ! i)", OF _ step]
  consider "remaining \<le> budget" | "\<not> remaining \<le> budget" "i = k" | "\<not> remaining \<le> budget" "i \<noteq> k" by fastforce
  note cases = this
  have d: "distinct order" "i \<notin> set order" using Cons.prems(1) by auto
  have h0: "evicts entries budget k order remaining (?ev order remaining)" by (rule ih0 [OF d(1)])
  have h1: "evicts entries budget k order (remaining - fst (entries ! i)) (?ev order (remaining - fst (entries ! i)))"
    by (rule ih1 [OF d(1)])
  let ?r = "?ev order (remaining - fst (entries ! i))"
  show ?case
  proof (cases rule: cases)
    case 1
    then have "?ev (i # order) remaining = []" by simp
    moreover have "evicts entries budget k (i # order) remaining []"
      using 1 by (auto simp: evicts_def entry_bytes_def word_le_nat_alt intro: exI [of _ 0])
    ultimately show ?thesis by simp
  next
    case 2
    then have e: "?ev (i # order) remaining = ?ev order remaining" by simp
    obtain n where "?ev order remaining = filter (\<lambda>i. i \<noteq> k) (take n order)" using h0 unfolding evicts_def by blast
    then have "\<exists>n. ?ev order remaining = filter (\<lambda>i. i \<noteq> k) (take n (i # order))"
      using 2(2) by (intro exI [of _ "Suc n"]) simp
    moreover have "set (i # order) - {k} = set order - {k}" using 2 by auto
    ultimately show ?thesis using h0 unfolding evicts_def e by simp
  next
    case 3
    then have e: "?ev (i # order) remaining = i # ?r" by simp
    have i: "i \<notin> set ?r" using h1 d(2) unfolding evicts_def by blast
    obtain n where "?r = filter (\<lambda>i. i \<noteq> k) (take n order)" using h1 unfolding evicts_def by blast
    then have n: "\<exists>n. i # ?r = filter (\<lambda>i. i \<noteq> k) (take n (i # order))"
      using 3(2) by (intro exI [of _ "Suc n"]) simp
    have b: "entry_bytes entries (set (i # ?r)) = ?b + entry_bytes entries (set ?r)" using i by (simp add: entry_bytes_insert)
    have m: "unat budget < unat remaining - entry_bytes entries (set e')" if "i # ?r = e' @ [j]" for e' j
    proof (cases e')
      case Nil
      then show ?thesis using 3 by (simp add: entry_bytes_def word_le_nat_alt)
    next
      case (Cons x e2)
      then have e2: "x = i" "?r = e2 @ [j]" using that by auto
      have "i \<notin> set e2" using i e2(2) by auto
      then show ?thesis using h1 Cons e2 u unfolding evicts_def by (simp add: entry_bytes_insert)
    qed
    have "set (i # order) - {k} = insert i (set order - {k})" using 3 by auto
    then show ?thesis unfolding evicts_def e using h1 3 i n b m u unfolding evicts_def by auto
  qed
qed (auto simp: evicts_def entry_bytes_def)


lemma prefix_oldest:
  assumes "sorted (map f xs)" and "i \<in> set (take n xs)" and "j \<in> set xs" and "j \<notin> set (take n xs)"
  shows "(f i :: nat) \<le> f j"
proof -
  have "j \<in> set (drop n xs)" using assms(3,4) by (metis Un_iff append_take_drop_id set_append)
  moreover have "sorted (map f (take n xs) @ map f (drop n xs))" using assms(1) by (metis append_take_drop_id map_append)
  ultimately show ?thesis using assms(2) by (auto simp: sorted_append)
qed

lemma plan_evictions_ok:
  fixes budget :: u64 and k :: nat
  assumes "entry_bytes entries {..<length entries} = unat held"
  defines "ev \<equiv> plan_evictions entries held budget k"
  shows "distinct ev" "set ev \<subseteq> {..<length entries} - {k}"
    "unat held - entry_bytes entries (set ev) \<le> unat budget \<or> set ev = {..<length entries} - {k}"
    "\<forall>i \<in> set ev. \<forall>j < length entries. j \<notin> set ev \<and> j \<noteq> k \<longrightarrow> snd (entries ! i) \<le> snd (entries ! j)"
    "\<forall>e i. ev = e @ [i] \<longrightarrow> unat budget < unat held - entry_bytes entries (set e)"
proof -
  let ?order = "sort_key (\<lambda>i. snd (entries ! i)) [0..<length entries]"
  have o: "set ?order = {..<length entries}" "distinct ?order" "sorted (map (\<lambda>i. snd (entries ! i)) ?order)"
    by (auto simp: lessThan_atLeast0)
  have e: "evicts entries budget k ?order held ev"
  proof (cases "held \<le> budget")
    case True
    then show ?thesis
      by (auto simp: ev_def plan_evictions_def evicts_def entry_bytes_def word_le_nat_alt intro: exI [of _ 0])
  next
    case False
    then show ?thesis
      using evict_loop_ok [OF o(2), of entries held budget k] assms(1) o(1) by (simp add: ev_def plan_evictions_def)
  qed
  then show "distinct ev" "set ev \<subseteq> {..<length entries} - {k}"
    "unat held - entry_bytes entries (set ev) \<le> unat budget \<or> set ev = {..<length entries} - {k}"
    "\<forall>e i. ev = e @ [i] \<longrightarrow> unat budget < unat held - entry_bytes entries (set e)"
    unfolding evicts_def o(1) by auto
  obtain n where n: "ev = filter (\<lambda>i. i \<noteq> k) (take n ?order)" using e unfolding evicts_def by blast
  show "\<forall>i \<in> set ev. \<forall>j < length entries. j \<notin> set ev \<and> j \<noteq> k \<longrightarrow> snd (entries ! i) \<le> snd (entries ! j)"
    using prefix_oldest [OF o(3), of _ n] o(1) unfolding n by auto
qed

section \<open>The directory\<close>

definition listing_ok :: "'c cache_listing \<Rightarrow> bool" where
  "listing_ok dir \<longleftrightarrow> distinct (map cf_name dir)"

lemma remove_entry_bytes:
  assumes "listing_ok dir" and "f \<in> set dir" and "cf_regular f"
  shows "sum_list (map cf_len (filter cf_regular (filter (\<lambda>g. cf_name g \<noteq> cf_name f) dir))) =
    sum_list (map cf_len (filter cf_regular dir)) - cf_len f"
  using assms
proof (induction dir)
  case (Cons g dir)
  show ?case
  proof (cases "g = f")
    case True
    then have "cf_name f \<notin> cf_name ` set dir" using Cons.prems(1) by (simp add: listing_ok_def)
    then have "filter (\<lambda>g. cf_name g \<noteq> cf_name f) dir = dir" by (intro filter_True) (metis imageI)
    then show ?thesis using True Cons.prems(3) by simp
  next
    case False
    then have "f \<in> set dir" using Cons.prems(2) by simp
    then have "cf_name g \<noteq> cf_name f" using Cons.prems(1) by (auto simp: listing_ok_def)
    then show ?thesis using Cons False by (auto simp: listing_ok_def)
  qed
qed simp

lemma fold_remove_entry:
  fixes removable :: "string \<Rightarrow> bool"
  assumes "listing_ok dir" and "set fs \<subseteq> set dir" and "\<forall>f \<in> set fs. cf_regular f" and "distinct fs"
  defines "dir' \<equiv> filter (\<lambda>g. cf_name g \<notin> cf_name ` {f \<in> set fs. removable (cf_name f)}) dir"
  shows "fold (remove_entry removable) fs (dir, sum_list (map cf_len (filter cf_regular dir))) =
    (dir', sum_list (map cf_len (filter cf_regular dir')))"
  using assms(1-4) unfolding dir'_def
proof (induction fs arbitrary: dir)
  case (Cons f fs)
  show ?case
  proof (cases "removable (cf_name f)")
    case True
    let ?d = "filter (\<lambda>g. cf_name g \<noteq> cf_name f) dir"
    have f: "f \<in> set dir" "cf_regular f" using Cons.prems by auto
    have d: "listing_ok ?d" using Cons.prems(1) by (simp add: listing_ok_def distinct_map_filter)
    have apart: "cf_name g \<noteq> cf_name f" if "g \<in> set fs" for g
    proof
      assume "cf_name g = cf_name f"
      moreover have "g \<in> set dir" using Cons.prems(2) that by auto
      ultimately have "g = f" using f(1) Cons.prems(1) by (auto simp: listing_ok_def distinct_map dest: inj_onD)
      then show False using that Cons.prems(4) by simp
    qed
    then have sub: "set fs \<subseteq> set ?d" using Cons.prems(2) by auto
    have "\<forall>g \<in> set fs. cf_regular g" "distinct fs" using Cons.prems(3,4) by simp_all
    note ih = Cons.IH [OF d sub this]
    have "remove_entry removable f (dir, sum_list (map cf_len (filter cf_regular dir))) =
        (?d, sum_list (map cf_len (filter cf_regular ?d)))"
      unfolding remove_entry_bytes [OF Cons.prems(1) f] by (simp add: remove_entry_def True)
    then have "fold (remove_entry removable) (f # fs) (dir, sum_list (map cf_len (filter cf_regular dir))) =
      (filter (\<lambda>g. cf_name g \<notin> cf_name ` {f \<in> set fs. removable (cf_name f)}) ?d,
       sum_list (map cf_len (filter cf_regular (filter (\<lambda>g. cf_name g \<notin> cf_name ` {f \<in> set fs. removable (cf_name f)}) ?d))))"
      by (simp only: fold_simps ih)
    moreover have "filter (\<lambda>g. cf_name g \<notin> cf_name ` {f \<in> set fs. removable (cf_name f)}) ?d =
      filter (\<lambda>g. cf_name g \<notin> cf_name ` {x \<in> set (f # fs). removable (cf_name x)}) dir"
      unfolding filter_filter by (rule filter_cong) (use True in auto)
    ultimately show ?thesis by (simp only:)
  next
    case False
    then have "{x \<in> set (f # fs). removable (cf_name x)} = {x \<in> set fs. removable (cf_name x)}" by auto
    then show ?thesis using Cons False by (simp add: remove_entry_def)
  qed
qed simp


lemma fold_last_index:
  assumes "P j" and "\<And>i. i < n \<Longrightarrow> P i \<Longrightarrow> i = j"
  shows "fold (\<lambda>i k. if P i then i else k) [0..<n] k = (if j < n then j else k)"
  using assms(2)
proof (induction n)
  case (Suc n)
  have ih: "fold (\<lambda>i k. if P i then i else k) [0..<n] k = (if j < n then j else k)"
    by (rule Suc.IH) (use Suc.prems in simp)
  have "P n \<longleftrightarrow> n = j" using assms(1) Suc.prems [of n] by blast
  then show ?case unfolding upt_Suc by (simp add: ih del: upt_Suc)
qed simp

lemma keep_index_eq:
  assumes "listing_ok fs" and "j < length fs"
  shows "keep_index (cf_name (fs ! j)) fs = j"
proof -
  have "i = j" if "i < length fs" "cf_name (fs ! i) = cf_name (fs ! j)" for i
  proof -
    have "map cf_name fs ! i = map cf_name fs ! j" using that assms(2) by simp
    with nth_eq_iff_index_eq [of "map cf_name fs" i j] show ?thesis
      using assms that(1) unfolding listing_ok_def length_map by blast
  qed
  then have "fold (\<lambda>i k. if cf_name (fs ! i) = cf_name (fs ! j) then i else k) [0..<length fs] k0 =
      (if j < length fs then j else k0)" for k0
    by (intro fold_last_index) auto
  then show ?thesis using assms(2) unfolding keep_index_def by (simp only: if_True)
qed

text \<open>The bytes of the regular files, as a number.\<close>

definition listing_bytes :: "'c cache_listing \<Rightarrow> nat" where
  "listing_bytes dir = sum_list (map (\<lambda>f. unat (cf_len f)) (filter cf_regular dir))"

lemma unat_sum_list: "sum_list (map (\<lambda>x. unat (f x)) xs) < 2 ^ 64 \<Longrightarrow> unat (sum_list (map f xs) :: u64) = sum_list (map (\<lambda>x. unat (f x)) xs)"
proof (induction xs)
  case (Cons x xs)
  then have "unat (sum_list (map f xs)) = sum_list (map (\<lambda>x. unat (f x)) xs)" by simp
  moreover have "unat (f x) + sum_list (map (\<lambda>x. unat (f x)) xs) < 2 ^ LENGTH(64)" using Cons.prems by simp
  ultimately show ?case by (simp add: unat_word_ariths(1))
qed simp

lemma unat_listing: "listing_bytes dir < 2 ^ 64 \<Longrightarrow> unat (sum_list (map cf_len (filter cf_regular dir))) = listing_bytes dir"
  unfolding listing_bytes_def by (rule unat_sum_list)

lemma listing_bytes_filter: "listing_bytes (filter P dir) \<le> listing_bytes dir"
  by (induction dir) (auto simp: listing_bytes_def)

text \<open>
  An eviction keeps the file just written, removes only regular files no newer than every one that stays, and ends within
  the budget or with that file alone; the size returned is that of what is left.
\<close>

definition evicted :: "'c cache_file \<Rightarrow> u64 \<Rightarrow> 'c cache_listing \<Rightarrow> 'c cache_listing \<Rightarrow> bool" where
  "evicted f budget dir dir' \<longleftrightarrow>
     (\<exists>P. dir' = filter P dir) \<and> f \<in> set dir' \<and> filter (\<lambda>g. \<not> cf_regular g) dir' = filter (\<lambda>g. \<not> cf_regular g) dir \<and>
     (listing_bytes dir' \<le> unat budget \<or> filter cf_regular dir' = [f]) \<and>
     (\<forall>g \<in> set dir - set dir'. \<forall>h \<in> set dir'. cf_regular h \<and> h \<noteq> f \<longrightarrow> cf_modified g \<le> cf_modified h)"

lemma entry_bytes_listing:
  "entry_bytes (map (\<lambda>f. (cf_len f, cf_modified f)) fs) {..<length fs} = sum_list (map (\<lambda>f. unat (cf_len f)) fs)"
  by (simp add: entry_bytes_def sum_list_sum_nth lessThan_atLeast0)

lemma remove_all:
  assumes "listing_ok dir" and "set fs \<subseteq> set dir" and "\<forall>f \<in> set fs. cf_regular f" and "distinct fs" and "\<And>n. removable n"
  shows "fold (remove_entry removable) fs (dir, sum_list (map cf_len (filter cf_regular dir))) =
    (filter (\<lambda>g. g \<notin> set fs) dir, sum_list (map cf_len (filter cf_regular (filter (\<lambda>g. g \<notin> set fs) dir))))"
proof -
  have i: "inj_on cf_name (set dir)" using assms(1) by (simp add: listing_ok_def distinct_map)
  have "{f \<in> set fs. removable (cf_name f)} = set fs" using assms(5) by simp
  moreover have "filter (\<lambda>g. cf_name g \<notin> cf_name ` set fs) dir = filter (\<lambda>g. g \<notin> set fs) dir"
    by (rule filter_cong) (simp_all add: inj_on_image_mem_iff [OF i _ assms(2)])
  ultimately show ?thesis using fold_remove_entry [OF assms(1-4), of removable] by (simp only:)
qed

lemma listing_split:
  assumes "listing_ok dir" and "gone \<subseteq> set (filter cf_regular dir)"
  shows "listing_bytes (filter (\<lambda>g. g \<notin> gone) dir) + (\<Sum>g \<in> gone. unat (cf_len g)) = listing_bytes dir"
proof -
  let ?fs = "filter cf_regular dir"
  have d: "distinct ?fs" using assms(1) by (auto simp: listing_ok_def distinct_map)
  have reg: "filter cf_regular (filter (\<lambda>g. g \<notin> gone) dir) = filter (\<lambda>g. g \<notin> gone) ?fs" by (simp add: conj_commute)
  have "listing_bytes dir = (\<Sum>g \<in> set ?fs. unat (cf_len g))"
    using d by (simp add: listing_bytes_def sum_list_distinct_conv_sum_set)
  moreover have "listing_bytes (filter (\<lambda>g. g \<notin> gone) dir) = (\<Sum>g \<in> set ?fs - gone. unat (cf_len g))"
  proof -
    have "distinct (filter (\<lambda>g. g \<notin> gone) ?fs)" using d by (rule distinct_filter)
    from sum_list_distinct_conv_sum_set [OF this, of "\<lambda>g. unat (cf_len g)"] show ?thesis
      unfolding listing_bytes_def reg by (simp only: set_filter set_diff_eq mem_Collect_eq)
  qed
  ultimately show ?thesis using sum.subset_diff [OF assms(2), of "\<lambda>g. unat (cf_len g)"] by simp
qed

lemma entry_bytes_image:
  assumes "distinct fs" and "A \<subseteq> {..<length fs}"
  shows "entry_bytes (map (\<lambda>f. (cf_len f, cf_modified f)) fs) A = (\<Sum>g \<in> (!) fs ` A. unat (cf_len g))"
proof -
  have "inj_on ((!) fs) A" using assms by (intro inj_on_nth) auto
  then show ?thesis unfolding entry_bytes_def using assms(2) by (subst sum.reindex) (auto intro!: sum.cong)
qed

lemma distinct_filter_unique: "distinct xs \<Longrightarrow> x \<in> set xs \<Longrightarrow> filter (\<lambda>g. g = x) xs = [x]"
  by (induction xs) (auto simp: filter_empty_conv)

lemma rest_alone:
  assumes "distinct (filter P xs)" and "j < length (filter P xs)" and "filter P xs ! j = f"
  shows "filter P (filter (\<lambda>g. g \<notin> (!) (filter P xs) ` ({..<length (filter P xs)} - {j})) xs) = [f]"
proof -
  let ?fs = "filter P xs"
  have f: "f \<in> set ?fs" using assms(2,3) nth_mem by metis
  have eq: "?fs ! m = f \<longleftrightarrow> m = j" if "m < length ?fs" for m
    using nth_eq_iff_index_eq [OF assms(1) that assms(2)] assms(3) by simp
  have "g \<in> (!) ?fs ` ({..<length ?fs} - {j}) \<longleftrightarrow> g \<noteq> f" if g: "g \<in> set ?fs" for g
  proof
    show "g \<noteq> f" if "g \<in> (!) ?fs ` ({..<length ?fs} - {j})" using that eq by blast
    obtain l where l: "l < length ?fs" "g = ?fs ! l" using g unfolding in_set_conv_nth by blast
    show "g \<in> (!) ?fs ` ({..<length ?fs} - {j})" if "g \<noteq> f" using l eq that by blast
  qed
  then have "filter (\<lambda>g. g \<notin> (!) ?fs ` ({..<length ?fs} - {j})) ?fs = filter (\<lambda>g. g = f) ?fs" by (intro filter_cong) auto
  also have "\<dots> = [f]" using assms(1) f distinct_filter_unique [of ?fs f] by simp
  finally show ?thesis by (simp add: conj_commute)
qed

lemma evict_ok:
  assumes d: "listing_ok dir" "listing_bytes dir < 2 ^ 64" and f: "f \<in> set dir" "cf_regular f"
    and r: "\<And>n. removable n"
  obtains dir' where "evict_remap_cache True removable dir (cf_name f) budget = (dir', word_of_nat (listing_bytes dir'))"
    "evicted f budget dir dir'"
proof -
  let ?fs = "filter cf_regular dir"
  let ?meta = "map (\<lambda>f. (cf_len f, cf_modified f)) ?fs"
  let ?held = "sum_list (map cf_len ?fs)"
  have fs: "listing_ok ?fs" "f \<in> set ?fs" using d(1) f by (simp_all add: listing_ok_def distinct_map_filter)
  then have "distinct ?fs" by (simp add: listing_ok_def distinct_map)
  note fs = fs this
  obtain j where j: "j < length ?fs" "?fs ! j = f" using fs(2) by (metis in_set_conv_nth)
  define ev where "ev = plan_evictions ?meta ?held budget j"
  let ?gone = "set (map ((!) ?fs) ev)"
  define dir' where "dir' = filter (\<lambda>g. g \<notin> ?gone) dir"
  have k: "keep_index (cf_name f) ?fs = j" using keep_index_eq [OF fs(1) j(1)] j(2) by simp
  have e0: "entry_bytes ?meta {..<length ?meta} = unat ?held"
    using entry_bytes_listing [of ?fs] unat_listing [OF d(2)] by (simp add: listing_bytes_def)
  have ev: "distinct ev" "set ev \<subseteq> {..<length ?fs} - {j}"
    "unat ?held - entry_bytes ?meta (set ev) \<le> unat budget \<or> set ev = {..<length ?fs} - {j}"
    "\<forall>i \<in> set ev. \<forall>l < length ?fs. l \<notin> set ev \<and> l \<noteq> j \<longrightarrow> snd (?meta ! i) \<le> snd (?meta ! l)"
    using plan_evictions_ok(1-4) [OF e0, of budget j] unfolding ev_def length_map by blast+
  have sub: "set ev \<subseteq> {..<length ?fs}" using ev(2) by blast
  then have lt: "i < length ?fs" if "i \<in> set ev" for i using that by blast
  have gone: "?gone \<subseteq> set ?fs" using lt nth_mem by (metis image_subsetI set_map)
  have nf: "f \<notin> ?gone" using ev(2) j fs(3) by (auto simp: nth_eq_iff_index_eq)
  have dist: "distinct (map ((!) ?fs) ev)"
    unfolding distinct_map using ev(1) fs(3) lt by (auto simp: inj_on_def nth_eq_iff_index_eq)
  have "listing_bytes dir' < 2 ^ 64" using listing_bytes_filter [of _ dir] d(2) unfolding dir'_def by (rule le_less_trans)
  note unat_listing [OF this]
  moreover have "word_of_nat (unat w) = w" for w :: u64 by simp
  ultimately have "sum_list (map cf_len (filter cf_regular dir')) = word_of_nat (listing_bytes dir')" by metis
  moreover have "?gone \<subseteq> set dir" "\<forall>g \<in> ?gone. cf_regular g" using gone by auto
  note remove_all [OF d(1) this dist r, folded dir'_def]
  ultimately have run: "evict_remap_cache True removable dir (cf_name f) budget = (dir', word_of_nat (listing_bytes dir'))"
    unfolding evict_remap_cache_def Let_def by (simp add: k ev_def [symmetric] fold_map comp_def)
  have "listing_bytes dir' + entry_bytes ?meta (set ev) = listing_bytes dir"
    using listing_split [OF d(1) gone] entry_bytes_image [OF fs(3) sub] unfolding dir'_def set_map by (simp only:)
  then have "listing_bytes dir' \<le> unat budget \<or> filter cf_regular dir' = [f]"
    using ev(3) unat_listing [OF d(2)] rest_alone [OF fs(3) j] unfolding dir'_def by fastforce
  moreover have "cf_modified g \<le> cf_modified h" if g: "g \<in> set dir - set dir'" and h: "h \<in> set dir'" "cf_regular h \<and> h \<noteq> f" for g h
  proof -
    obtain i where i: "i \<in> set ev" "?fs ! i = g" using g by (auto simp: dir'_def)
    have "h \<in> set ?fs" "h \<notin> ?gone" using h by (auto simp: dir'_def)
    then obtain l where l: "l < length ?fs" "?fs ! l = h" by (metis in_set_conv_nth)
    then have "l \<notin> set ev" "l \<noteq> j" using h \<open>h \<notin> ?gone\<close> j by auto
    then show ?thesis using ev(4) i l lt [OF i(1)] by auto
  qed
  moreover have "filter (\<lambda>g. \<not> cf_regular g) dir' = filter (\<lambda>g. \<not> cf_regular g) dir"
    unfolding dir'_def filter_filter using gone by (intro filter_cong) auto
  moreover have "f \<in> set dir'" using f nf by (simp add: dir'_def)
  ultimately have "evicted f budget dir dir'" unfolding evicted_def using dir'_def by blast
  with run show thesis by (rule that)
qed

section \<open>The estimate\<close>

definition cache_ok :: "'c cache_dir \<Rightarrow> bool" where
  "cache_ok cd \<longleftrightarrow> listing_ok (cd_files cd) \<and>
     (\<forall>e. cd_estimate cd = Some e \<longrightarrow> listing_bytes (cd_files cd) \<le> unat e)"

definition no_cache :: "'c cache_dir" where
  "no_cache = \<lparr>cd_files = [], cd_estimate = None\<rparr>"

lemma no_cache_ok [simp]: "cache_ok no_cache"
  by (simp add: cache_ok_def no_cache_def listing_ok_def)

lemma write_file_ok: "listing_ok dir \<Longrightarrow> listing_ok (write_file f dir)"
  by (auto simp: listing_ok_def write_file_def distinct_map_filter)

lemma write_file_set: "set (write_file f dir) \<subseteq> insert f (set dir)" "f \<in> set (write_file f dir)"
  by (auto simp: write_file_def)

lemma write_file_bytes: "listing_bytes (write_file f dir) \<le> listing_bytes dir + unat (cf_len f)"
  using listing_bytes_filter [of "\<lambda>g. cf_name g \<noteq> cf_name f" dir] by (simp add: write_file_def listing_bytes_def)

lemma unat_max64: "unat (0xFFFFFFFFFFFFFFFF :: u64) = 2 ^ 64 - 1" by simp

lemma projected_bytes:
  assumes "listing_bytes dir \<le> unat e" and "listing_bytes (write_file f dir) < 2 ^ 64"
  shows "listing_bytes (write_file f dir) \<le> unat (saturating_add64 e (cf_len f))"
proof (cases "unat e + unat (cf_len f) < 2 ^ 64")
  case True
  then have "unat (e + cf_len f) = unat e + unat (cf_len f)" by (simp add: unat_word_ariths(1))
  then show ?thesis using True assms(1) write_file_bytes [of f dir] by (simp add: saturating_add64_def)
next
  case False
  then show ?thesis using assms(2) by (simp add: saturating_add64_def)
qed

text \<open>
  After a write the directory holds the file, nothing new beside it, and fits the budget or holds that file alone; the
  estimate is never below the size.
\<close>

lemma settle_ok:
  fixes budget :: u64
  assumes c: "cache_ok cd" and b: "listing_bytes (write_file f (cd_files cd)) < 2 ^ 64" and f: "cf_regular f"
    and r: "\<And>n. removable n"
  defines "cd' \<equiv> settle_cache True removable budget f cd"
  shows "cache_ok cd'" "f \<in> set (cd_files cd')" "set (cd_files cd') \<subseteq> insert f (set (cd_files cd))"
    "listing_bytes (cd_files cd') \<le> unat budget \<or> filter cf_regular (cd_files cd') = [f]"
proof -
  let ?dir = "write_file f (cd_files cd)"
  define p where "p = (case cd_estimate cd of Some prev \<Rightarrow> saturating_add64 prev (cf_len f) | None \<Rightarrow> dir_total_bytes True ?dir)"
  have l: "listing_ok ?dir" using c by (simp add: cache_ok_def write_file_ok)
  have p: "listing_bytes ?dir \<le> unat p"
    using c b projected_bytes [of "cd_files cd" _ f]
    by (auto simp: p_def cache_ok_def dir_total_bytes_def unat_listing split: option.split)
  have "\<exists>dir' e. cd' = \<lparr>cd_files = dir', cd_estimate = Some e\<rparr> \<and> listing_ok dir' \<and> listing_bytes dir' \<le> unat e \<and> f \<in> set dir' \<and>
      set dir' \<subseteq> insert f (set (cd_files cd)) \<and> (listing_bytes dir' \<le> unat budget \<or> filter cf_regular dir' = [f])"
  proof (cases "budget < p")
    case True
    obtain dir' where e: "evict_remap_cache True removable ?dir (cf_name f) budget = (dir', word_of_nat (listing_bytes dir'))"
      "evicted f budget ?dir dir'"
      by (rule evict_ok [OF l b write_file_set(2) f r])
    obtain P where P: "dir' = filter P ?dir" using e(2) unfolding evicted_def by blast
    have "listing_bytes dir' < 2 ^ 64" unfolding P using listing_bytes_filter b by (rule le_less_trans)
    then have "unat (word_of_nat (listing_bytes dir') :: u64) = listing_bytes dir'" by (simp add: unat_word_of_nat)
    moreover have "listing_ok dir'" using l unfolding P by (simp add: listing_ok_def distinct_map_filter)
    moreover have "set dir' \<subseteq> insert f (set (cd_files cd))" using write_file_set(1) unfolding P by fastforce
    moreover have "cd' = \<lparr>cd_files = dir', cd_estimate = Some (word_of_nat (listing_bytes dir'))\<rparr>"
      using True e(1) by (simp add: cd'_def settle_cache_def p_def [symmetric] Let_def)
    moreover have "f \<in> set dir'" "listing_bytes dir' \<le> unat budget \<or> filter cf_regular dir' = [f]"
      using e(2) unfolding evicted_def by blast+
    ultimately show ?thesis by (intro exI [of _ dir'] exI [of _ "word_of_nat (listing_bytes dir')"]) simp
  next
    case False
    then have "cd' = \<lparr>cd_files = ?dir, cd_estimate = Some p\<rparr>"
      by (simp add: cd'_def settle_cache_def p_def [symmetric] Let_def)
    moreover have "listing_bytes ?dir \<le> unat budget" if "p \<le> budget" using p that by (simp add: word_le_nat_alt)
    ultimately show ?thesis using False l p write_file_set(1) [of f "cd_files cd"] write_file_set(2) [of f "cd_files cd"] by (intro exI [of _ ?dir] exI [of _ p]) simp
  qed
  then show "cache_ok cd'" "f \<in> set (cd_files cd')" "set (cd_files cd') \<subseteq> insert f (set (cd_files cd))"
    "listing_bytes (cd_files cd') \<le> unat budget \<or> filter cf_regular (cd_files cd') = [f]"
    by (auto simp: cache_ok_def)
qed

lemma lookup_file_in: "lookup_file name dir = Some f \<Longrightarrow> f \<in> set dir \<and> cf_name f = name \<and> cf_regular f"
  by (auto simp: lookup_file_def find_Some_iff)

lemma lookup_file_unique:
  assumes "listing_ok dir" and "f \<in> set dir" and "cf_regular f"
  shows "lookup_file (cf_name f) dir = Some f"
proof (cases "lookup_file (cf_name f) dir")
  case None
  then show ?thesis using assms(2,3) by (auto simp: lookup_file_def find_None_iff)
next
  case (Some g)
  from lookup_file_in [OF this] Some show ?thesis
    using assms(1,2) by (auto simp: listing_ok_def distinct_map dest: inj_onD)
qed

text \<open>Without an assumption on the file system: nothing is added but the file written, and it stays.\<close>

lemma evict_loop_subset: "set (evict_loop entries budget k order remaining) \<subseteq> set order - {k}"
  by (induction order arbitrary: remaining) auto

lemma evict_keeps:
  assumes d: "listing_ok dir" and f: "f \<in> set dir" "cf_regular f"
    and e: "evict_remap_cache readable removable dir (cf_name f) budget = (dir', held)"
  shows "listing_ok dir'" "set dir' \<subseteq> set dir" "f \<in> set dir'"
proof -
  let ?fs = "filter cf_regular dir"
  have "listing_ok dir' \<and> set dir' \<subseteq> set dir \<and> f \<in> set dir'"
  proof (cases readable)
    case False
    then show ?thesis using d f e by (simp add: evict_remap_cache_def)
  next
    case True
    have fs: "listing_ok ?fs" "f \<in> set ?fs" using d f by (simp_all add: listing_ok_def distinct_map_filter)
    obtain j where j: "j < length ?fs" "?fs ! j = f" using fs(2) by (metis in_set_conv_nth)
    define ev where "ev = plan_evictions (map (\<lambda>f. (cf_len f, cf_modified f)) ?fs) (sum_list (map cf_len ?fs)) budget j"
    have k: "keep_index (cf_name f) ?fs = j" using keep_index_eq [OF fs(1) j(1)] j(2) by simp
    have ev: "set ev \<subseteq> {..<length ?fs} - {j}"
      unfolding ev_def plan_evictions_def
      by (split if_split) (use evict_loop_subset in \<open>fastforce\<close>)
    have sub: "listing_ok (fst st') \<and> set (fst st') \<subseteq> set dir \<and> f \<in> set (fst st')"
      if "st' = fold (\<lambda>i. remove_entry removable (?fs ! i)) is st" "set is \<subseteq> {..<length ?fs} - {j}"
        "listing_ok (fst st)" "set (fst st) \<subseteq> set dir" "f \<in> set (fst st)" for "is" st st'
      using that
    proof (induction "is" arbitrary: st)
      case (Cons i xs)
      have "i < length ?fs" "i \<noteq> j" using Cons.prems(2) by auto
      then have "cf_name (?fs ! i) \<noteq> cf_name f"
        using fs(1) j nth_eq_iff_index_eq [of "map cf_name ?fs" i j] by (auto simp: listing_ok_def)
      then have "listing_ok (fst (remove_entry removable (?fs ! i) st)) \<and> set (fst (remove_entry removable (?fs ! i) st)) \<subseteq> set dir
          \<and> f \<in> set (fst (remove_entry removable (?fs ! i) st))"
        using Cons.prems(3-5) by (cases st) (auto simp: remove_entry_def listing_ok_def distinct_map_filter)
      then show ?case using Cons.IH [of "remove_entry removable (?fs ! i) st"] Cons.prems(1,2) by simp
    qed simp
    have "(dir', held) = fold (\<lambda>i. remove_entry removable (?fs ! i)) ev (dir, sum_list (map cf_len ?fs))"
      using e True by (simp add: evict_remap_cache_def k ev_def [symmetric] Let_def)
    from sub [OF this ev] d f(1) show ?thesis by simp
  qed
  then show "listing_ok dir'" "set dir' \<subseteq> set dir" "f \<in> set dir'" by blast+
qed

lemma settle_keeps:
  fixes budget :: u64 and removable :: "string \<Rightarrow> bool" and readable :: bool
  assumes "listing_ok (cd_files cd)" and "cf_regular f"
  defines "cd' \<equiv> settle_cache readable removable budget f cd"
  shows "listing_ok (cd_files cd')" "set (cd_files cd') \<subseteq> insert f (set (cd_files cd))" "f \<in> set (cd_files cd')"
proof -
  let ?dir = "write_file f (cd_files cd)"
  define p where "p = (case cd_estimate cd of Some prev \<Rightarrow> saturating_add64 prev (cf_len f) | None \<Rightarrow> dir_total_bytes readable ?dir)"
  obtain dir' held where e: "evict_remap_cache readable removable ?dir (cf_name f) budget = (dir', held)" by fastforce
  note k = evict_keeps [OF write_file_ok [OF assms(1)] write_file_set(2) assms(2) e]
  have "cd_files cd' = (if budget < p then dir' else ?dir)"
    using e by (simp add: cd'_def settle_cache_def p_def [symmetric] Let_def)
  then show "listing_ok (cd_files cd')" "set (cd_files cd') \<subseteq> insert f (set (cd_files cd))" "f \<in> set (cd_files cd')"
    using k write_file_ok [OF assms(1)] write_file_set [of f "cd_files cd"] by auto
qed

end
