(* ===== verification/Rezone.thy ===== *)
theory Rezone
  imports Zones Tick Cache
begin

text \<open>
  \<open>src/simulate/engine.rs\<close>: a capture on its way into the session.  \<open>remap_into_session\<close> reconciles it into the zones of
  the ledger, registers the hosts it placed, and keeps the result in a cache keyed by the capture and the generation of
  the registry.
\<close>

section \<open>Code: the context of the ledger\<close>

definition MAX_SHM_BYTES :: u64 where "MAX_SHM_BYTES = 256 * 1024 * 1024"

definition REMAP_CACHE_VERSION :: nat where "REMAP_CACHE_VERSION = 3"

text \<open>The configuration \<open>remap_into_session\<close> reads.\<close>

record rezone_cfg =
  rz_max_remap_bytes :: u64
  rz_skip_oversize :: bool
  rz_affinity :: zone_affinity
  rz_remap_mac :: bool
  rz_max_assets :: "nat option"
  rz_max_frame_bytes :: nat
  rz_replay_arp :: bool

text \<open>The entries of a \<open>HashMap\<close> collected from pairs: a later pair replaces an earlier one of its key.\<close>

definition registered_origins :: "ledger \<Rightarrow> (u32 \<times> u32) list" where
  "registered_origins s =
     fold (\<lambda>(k, v). AList.update k v)
       (List.map_filter (\<lambda>h. Option.bind (ipv4_from_str (ch_origin_ip h))
          (\<lambda>a. map_option (\<lambda>n. (a, n)) (ipv4_from_str (ch_ip h)))) (lg_capture_hosts s)) []"

definition device_mac_map :: "ledger \<Rightarrow> u32 \<Rightarrow> mac option" where
  "device_mac_map s = hash_collect
     (List.map_filter (\<lambda>d. map_option (\<lambda>ip. (ip, parse_mac (dr_mac d))) (ipv4_from_str (dr_ip d))) (lg_devices s))"

definition zone_target_of :: "'n net_ops \<Rightarrow> ledger \<Rightarrow> subnet_record \<Rightarrow> 'n zone_target option" where
  "zone_target_of N s z =
     map_option (\<lambda>net.
       \<lparr>zt_net = net, zt_vendor = sr_vendor z, zt_purdue_level = sr_purdue_level z,
        zt_protocol = map_option dr_protocol (find (\<lambda>d. dr_subnet_cidr d = sr_cidr z) (lg_devices s)),
        zt_reserved = set (List.map_filter (\<lambda>d. ipv4_from_str (dr_ip d))
          (filter (\<lambda>d. dr_subnet_cidr d = sr_cidr z) (lg_devices s)))\<rparr>) (no_parse N (sr_cidr z))"

definition zone_targets :: "'n net_ops \<Rightarrow> ledger \<Rightarrow> 'n zone_target list" where
  "zone_targets N s = List.map_filter (zone_target_of N s) (lg_subnets s)"

text \<open>The votes of one packet: its protocol for the subnet of either end.\<close>

definition packet_votes :: "'n net_ops \<Rightarrow> 'n list \<Rightarrow> bytes \<Rightarrow> ('n \<times> string) list exec" where
  "packet_votes N hints data = do {
     r \<leftarrow> parse_layout data;
     case r of
       None \<Rightarrow> ret []
     | Some l \<Rightarrow>
         if fl_l3_kind l \<noteq> L3_Ipv4 \<or> fl_l4_kind l = L4_Other \<or> length data < fl_l4 l + 4 then ret []
         else do {
           sport \<leftarrow> rd_be16 data (fl_l4 l);
           dport \<leftarrow> rd_be16 data (fl_l4 l + 2);
           case (case ot_protocol_for_port dport of Some p \<Rightarrow> Some p | None \<Rightarrow> ot_protocol_for_port sport) of
             None \<Rightarrow> ret []
           | Some proto \<Rightarrow>
               if length data < fl_l3 l + 20 then ret []
               else do {
                 src \<leftarrow> rd_be32 data (fl_l3 l + 12);
                 dst \<leftarrow> rd_be32 data (fl_l3 l + 16);
                 a \<leftarrow> subnet_of N src hints;
                 b \<leftarrow> subnet_of N dst hints;
                 ret [(a, proto), (b, proto)]
               }
         }
   }"

definition dominant_protocol_by_group ::
  "'n net_ops \<Rightarrow> (string list \<Rightarrow> string list) \<Rightarrow> packet list \<Rightarrow> 'n list \<Rightarrow> ('n \<Rightarrow> string option) exec" where
  "dominant_protocol_by_group N order ps hints = do {
     votes \<leftarrow> map_exec (\<lambda>p. packet_votes N hints (pk_data p)) ps;
     ret (\<lambda>g. map_option fst (max_by_count (tally order (map snd (filter (\<lambda>v. fst v = g) (concat votes))))))
   }"

definition capture_groups ::
  "'n net_ops \<Rightarrow> ('n list \<Rightarrow> 'n list) \<Rightarrow> (string list \<Rightarrow> string list) \<Rightarrow> packet list \<Rightarrow> 'n list \<Rightarrow> oui_db
    \<Rightarrow> 'n capture_group list exec" where
  "capture_groups N keys order ps hints oui = do {
     proto \<leftarrow> dominant_protocol_by_group N order ps hints;
     zs \<leftarrow> derive_zones N keys order ps hints oui;
     ret (map (\<lambda>z. \<lparr>cg_net = zn_cidr z, cg_purdue_level = zn_purdue_level z, cg_vendor = zn_vendor z,
       cg_protocol = proto (zn_cidr z), cg_hosts = zn_device_ips z\<rparr>) zs)
   }"

definition rezone_ctx :: "'n net_ops \<Rightarrow> rezone_cfg \<Rightarrow> ledger \<Rightarrow> 'n reconcile_ctx" where
  "rezone_ctx N cfg s =
     \<lparr>rc_zones = zone_targets N s, rc_affinity = rz_affinity cfg, rc_seed = lg_seed s, rc_remap_mac = rz_remap_mac cfg,
      rc_registered = registered_origins s, rc_device_macs = device_mac_map s, rc_reserved_macs = set (device_macs s),
      rc_budget = effective_asset_cap (rz_max_assets cfg) - total_wire_assets s\<rparr>"

definition capture_record :: "new_asset \<Rightarrow> capture_host_record" where
  "capture_record a =
     \<lparr>ch_origin_ip = show_ipv4 (na_origin a), ch_ip = show_ipv4 (na_ip a), ch_mac = fmt_mac (na_mac a),
      ch_vendor = na_vendor a, ch_protocol = na_protocol a, ch_purdue_level = na_purdue_level a,
      ch_subnet_cidr = na_subnet_cidr a, ch_hostname = None, ch_asset_type = None\<rparr>"

definition register_asset :: "nat \<Rightarrow> new_asset \<Rightarrow> 'r sim \<Rightarrow> 'r sim" where
  "register_asset cap a sim =
     (let (s, registered) = register_capture_host (capture_record a) cap (si_ledger sim)
      in if registered then sim\<lparr>si_ledger := s, si_dirty := True\<rparr> else sim)"

section \<open>Code: the remap\<close>

text \<open>The rewritten capture: into the zones, or at random while there are none.\<close>

definition rezone ::
  "'n net_ops \<Rightarrow> ('n list \<Rightarrow> 'n list) \<Rightarrow> (string list \<Rightarrow> string list) \<Rightarrow> 'r below \<Rightarrow> (u64 \<Rightarrow> 'r) \<Rightarrow> rezone_cfg \<Rightarrow> bool
    \<Rightarrow> 'n list \<Rightarrow> 'h capture \<Rightarrow> 'r sim \<Rightarrow> ('h capture \<times> 'r sim) exec" where
  "rezone N keys order below seed_from cfg save_ok hints cap sim =
     (if zone_targets N (si_ledger sim) = []
      then do {
        (cap, summary) \<leftarrow> remap_capture N below seed_from cap hints (lg_seed (si_ledger sim)) (rz_remap_mac cfg);
        ret (cap, sim)
      }
      else do {
        groups \<leftarrow> capture_groups N keys order (cap_packets cap) hints (si_oui sim);
        (cap, summary, new_assets) \<leftarrow> reconcile_capture_into_zones N cap groups (rezone_ctx N cfg (si_ledger sim));
        let sim = fold (register_asset (effective_asset_cap (rz_max_assets cfg))) new_assets sim;
        ret (cap, persist_if_dirty save_ok sim)
      })"

text \<open>What is left of it for the wire.\<close>

definition thin :: "rezone_cfg \<Rightarrow> 'h capture \<Rightarrow> 'h capture exec" where
  "thin cfg cap = do {
     (cap, oversize) \<leftarrow> drop_oversize_frames cap (rz_max_frame_bytes cfg);
     if rz_replay_arp cfg then ret cap else do { (cap, arp) \<leftarrow> drop_arp_frames cap; ret cap }
   }"

text \<open>The source file: \<open>sf_parent\<close> is its directory, \<open>sf_mtime\<close> its modification time in seconds.\<close>

record source_file =
  sf_parent :: "string option"
  sf_stem :: "string option"
  sf_size :: u64
  sf_mtime :: "u64 option"

datatype cache_place = Tmpfs_Cache | Tmpfs_Root | Disk_Spill string

definition cache_place_of :: "source_file \<Rightarrow> cache_place" where
  "cache_place_of f =
     (if MAX_SHM_BYTES < sf_size f then (case sf_parent f of Some d \<Rightarrow> Disk_Spill d | None \<Rightarrow> Tmpfs_Root)
      else Tmpfs_Cache)"

fun affinity_char :: "zone_affinity \<Rightarrow> char" where
  "affinity_char ZA_Both = CHR ''b''"
| "affinity_char ZA_Vendor = CHR ''v''"
| "affinity_char ZA_Protocol = CHR ''p''"
| "affinity_char ZA_Off = CHR ''o''"

text \<open>\<open>{seed:016x}\<close> and the file name of a cached remap.\<close>

definition hex16 :: "u64 \<Rightarrow> string" where
  "hex16 w = concat (map hex2 (to_be64 w))"

definition cache_name :: "rezone_cfg \<Rightarrow> source_file \<Rightarrow> u64 \<Rightarrow> u64 \<Rightarrow> string" where
  "cache_name cfg f seed generation =
     ''v'' @ show_nat REMAP_CACHE_VERSION @ ''.'' @ hex16 seed @ ''.g'' @ show_nat (unat generation) @ ''.'' @
     [affinity_char (rz_affinity cfg)] @ ''.'' @ show_nat (unat (case sf_mtime f of Some t \<Rightarrow> t | None \<Rightarrow> 0)) @ ''.'' @
     show_nat (unat (sf_size f)) @ ''.'' @ (case sf_stem f of Some t \<Rightarrow> t | None \<Rightarrow> ''capture'') @ ''.pcap''"

text \<open>
  What a file written by \<open>pcapio::write\<close> holds: a whole capture, or the first packets of one whose write failed.
\<close>

datatype 'h pcap_text = Whole "'h capture" | Torn "'h capture"

datatype write_result = Written | Not_Created | Cut_After nat

definition pcap_write :: "'h \<Rightarrow> write_result \<Rightarrow> 'h capture \<Rightarrow> 'h pcap_text option" where
  "pcap_write header res cap =
     (case res of
        Written \<Rightarrow> Some (Whole (cap\<lparr>cap_header := header\<rparr>))
      | Not_Created \<Rightarrow> None
      | Cut_After n \<Rightarrow> Some (Torn \<lparr>cap_header = header, cap_packets = take n (cap_packets cap)\<rparr>))"

datatype remap_error = Stat_Failed | Over_Ceiling u64 | Over_Tmpfs u64 | Unreadable_Capture | Mkdir_Failed | Not_Written

text \<open>What the file system answers during one call, and the size of a pcap file.\<close>

record remap_io =
  ri_save_ok :: bool
  ri_mkdir_ok :: bool
  ri_write :: write_result
  ri_readable :: bool
  ri_removable :: "string \<Rightarrow> bool"
  ri_now :: nat

record ('r, 'h) remapper =
  rm_sim :: "'r sim"
  rm_caches :: "cache_place \<Rightarrow> 'h pcap_text cache_dir"

definition cached_file :: "string \<Rightarrow> ('h pcap_text \<Rightarrow> u64) \<Rightarrow> nat \<Rightarrow> 'h pcap_text \<Rightarrow> 'h pcap_text cache_file" where
  "cached_file name pcap_len now t =
     \<lparr>cf_name = name, cf_regular = True, cf_len = pcap_len t, cf_modified = now, cf_content = t\<rparr>"

definition saturating_double :: "u64 \<Rightarrow> u64" where
  "saturating_double a = (if unat a * 2 < 2 ^ 64 then a * 2 else - 1)"

definition cache_budget :: "rezone_cfg \<Rightarrow> source_file \<Rightarrow> u64" where
  "cache_budget cfg f = (if MAX_SHM_BYTES < sf_size f then saturating_double (rz_max_remap_bytes cfg) else MAX_SHM_BYTES)"

text \<open>The end of the call: the file is written under the generation reached, and the directory settled.\<close>

definition store_remap ::
  "'h \<Rightarrow> ('h pcap_text \<Rightarrow> u64) \<Rightarrow> rezone_cfg \<Rightarrow> remap_io \<Rightarrow> source_file \<Rightarrow> 'h capture \<Rightarrow> ('r, 'h) remapper
    \<Rightarrow> (remap_error + cache_place \<times> string) \<times> ('r, 'h) remapper" where
  "store_remap header pcap_len cfg io f cap rm =
     (if \<not> ri_mkdir_ok io then (Inl Mkdir_Failed, rm)
      else
        let s = si_ledger (rm_sim rm); place = cache_place_of f; cd = rm_caches rm place;
            out = cache_name cfg f (lg_seed s) (lg_registry_generation s)
        in case pcap_write header (ri_write io) cap of
             None \<Rightarrow> (Inl Not_Written, rm)
           | Some (Torn t) \<Rightarrow>
               (Inl Not_Written, rm\<lparr>rm_caches := (rm_caches rm)(place := cd\<lparr>cd_files :=
                 write_file (cached_file out pcap_len (ri_now io) (Torn t)) (cd_files cd)\<rparr>)\<rparr>)
           | Some (Whole t) \<Rightarrow>
               (Inr (place, out), rm\<lparr>rm_caches := (rm_caches rm)(place :=
                 settle_cache (ri_readable io) (ri_removable io) (cache_budget cfg f)
                   (cached_file out pcap_len (ri_now io) (Whole t)) cd)\<rparr>))"

definition remap_into_session ::
  "'n net_ops \<Rightarrow> ('n list \<Rightarrow> 'n list) \<Rightarrow> (string list \<Rightarrow> string list) \<Rightarrow> 'r below \<Rightarrow> (u64 \<Rightarrow> 'r) \<Rightarrow> 'h \<Rightarrow> ('h pcap_text \<Rightarrow> u64)
    \<Rightarrow> rezone_cfg \<Rightarrow> 'n list \<Rightarrow> remap_io \<Rightarrow> source_file option \<Rightarrow> 'h capture option \<Rightarrow> ('r, 'h) remapper
    \<Rightarrow> ((remap_error + cache_place \<times> string) \<times> ('r, 'h) remapper) exec" where
  "remap_into_session N keys order below seed_from header pcap_len cfg hints io meta contents rm =
     (case meta of
        None \<Rightarrow> ret (Inl Stat_Failed, rm)
      | Some f \<Rightarrow>
          if rz_max_remap_bytes cfg < sf_size f then ret (Inl (Over_Ceiling (sf_size f)), rm)
          else if MAX_SHM_BYTES < sf_size f \<and> rz_skip_oversize cfg then ret (Inl (Over_Tmpfs (sf_size f)), rm)
          else
            let s = si_ledger (rm_sim rm); place = cache_place_of f;
                out = cache_name cfg f (lg_seed s) (lg_registry_generation s)
            in if lookup_file out (cd_files (rm_caches rm place)) \<noteq> None then ret (Inr (place, out), rm)
               else case contents of
                 None \<Rightarrow> ret (Inl Unreadable_Capture, rm)
               | Some cap \<Rightarrow> do {
                   (cap, sim) \<leftarrow> rezone N keys order below seed_from cfg (ri_save_ok io) hints cap (rm_sim rm);
                   cap \<leftarrow> thin cfg cap;
                   ret (store_remap header pcap_len cfg io f cap (rm\<lparr>rm_sim := sim\<rparr>))
                 })"

end
