(* ===== verification/Rezoned.thy ===== *)
theory Rezoned
  imports Rezone
begin

text \<open>
  What a remap does to the session: the context built from a well-formed ledger meets what the reconciliation asks for, a
  host of the registry keeps its asset, and registering the new assets keeps the ledger well formed and under its cap.
\<close>

section \<open>The context\<close>

text \<open>Every device lies in a zone of the ledger.\<close>

definition plant_zoned :: "'n net_ops \<Rightarrow> ledger \<Rightarrow> bool" where
  "plant_zoned N s \<longleftrightarrow> (\<forall>d \<in> set (lg_devices s).
     dr_subnet_cidr d \<in> sr_cidr ` set (lg_subnets s) \<and> no_parse N (dr_subnet_cidr d) \<noteq> None)"

text \<open>The registry: one entry per captured host, its addresses in the standard notation.\<close>

definition hosts_known :: "ledger \<Rightarrow> bool" where
  "hosts_known s \<longleftrightarrow> distinct (map ch_origin_ip (lg_capture_hosts s)) \<and>
     (\<forall>h \<in> set (lg_capture_hosts s). \<exists>a n. ch_origin_ip h = show_ipv4 a \<and> ch_ip h = show_ipv4 n)"

text \<open>No address of the plan is public, and no zone reaches into public space.\<close>

definition private_plan :: "'n net_ops \<Rightarrow> ledger \<Rightarrow> bool" where
  "private_plan N s \<longleftrightarrow> (\<forall>a \<in> set (used_ips s). \<not> is_public_unicast a) \<and>
     (\<forall>z \<in> set (lg_subnets s). \<forall>net. no_parse N (sr_cidr z) = Some net \<longrightarrow>
        (\<forall>a. no_contains N net a \<longrightarrow> \<not> is_public_unicast a))"

definition rezone_ok :: "'n net_ops \<Rightarrow> ledger \<Rightarrow> bool" where
  "rezone_ok N s \<longleftrightarrow> ledger_ok s \<and> plant_unique s \<and> macs_room s \<and> plant_zoned N s \<and> hosts_known s \<and> private_plan N s"

lemma show_ipv4_inj [simp]: "show_ipv4 a = show_ipv4 b \<longleftrightarrow> a = b"
  by (metis ipv4_show option.inject)

lemma update_fresh: "k \<notin> fst ` set xs \<Longrightarrow> AList.update k v xs = xs @ [(k, v)]"
  by (induction xs) auto

lemma fold_update_fresh: "distinct (map fst (xs @ kvs)) \<Longrightarrow> fold (\<lambda>(k, v). AList.update k v) kvs xs = xs @ kvs"
proof (induction kvs arbitrary: xs)
  case (Cons kv kvs)
  then have "(case kv of (k, v) \<Rightarrow> AList.update k v) xs = xs @ [kv]"
    by (cases kv) (auto intro!: update_fresh)
  then show ?case using Cons by simp
qed simp

definition host_pairs :: "ledger \<Rightarrow> (u32 \<times> u32) list" where
  "host_pairs s = map (\<lambda>h. (the (ipv4_from_str (ch_origin_ip h)), the (ipv4_from_str (ch_ip h)))) (lg_capture_hosts s)"

lemma map_filter_some: "(\<And>x. x \<in> set xs \<Longrightarrow> f x = Some (g x)) \<Longrightarrow> List.map_filter f xs = map g xs"
  by (induction xs) (simp_all add: List.map_filter_simps)

lemma host_pairs_keys: "hosts_known s \<Longrightarrow> map ch_origin_ip (lg_capture_hosts s) = map (show_ipv4 \<circ> fst) (host_pairs s)"
  by (auto simp: hosts_known_def host_pairs_def ipv4_show)

lemma registered_eq:
  assumes "hosts_known s"
  shows "registered_origins s = host_pairs s" "distinct (map fst (host_pairs s))"
proof -
  have "distinct (map show_ipv4 (map fst (host_pairs s)))"
    using assms host_pairs_keys [OF assms] by (simp add: hosts_known_def)
  then show d: "distinct (map fst (host_pairs s))" using distinct_map by blast
  have "List.map_filter (\<lambda>h. Option.bind (ipv4_from_str (ch_origin_ip h))
          (\<lambda>a. map_option (\<lambda>n. (a, n)) (ipv4_from_str (ch_ip h)))) (lg_capture_hosts s) = host_pairs s"
    unfolding host_pairs_def
    by (rule map_filter_some) (use assms in \<open>auto simp: hosts_known_def ipv4_show dest!: bspec\<close>)
  then show "registered_origins s = host_pairs s"
    using d fold_update_fresh [of "[]" "host_pairs s"] by (simp add: registered_origins_def)
qed

lemma host_pairs_ips: "hosts_known s \<Longrightarrow> ip \<in> snd ` set (host_pairs s) \<longleftrightarrow> (\<exists>h \<in> set (lg_capture_hosts s). ipv4_from_str (ch_ip h) = Some ip)"
  by (force simp: host_pairs_def hosts_known_def ipv4_show)

lemma zone_targets_reserved:
  "z \<in> set (zone_targets N s) \<longleftrightarrow> (\<exists>r \<in> set (lg_subnets s). zone_target_of N s r = Some z)"
  by (force simp: zone_targets_def List.map_filter_def)

lemma reserved_in:
  "zone_target_of N s r = Some z \<Longrightarrow> ip \<in> zt_reserved z \<longleftrightarrow>
     (\<exists>d \<in> set (lg_devices s). dr_subnet_cidr d = sr_cidr r \<and> ipv4_from_str (dr_ip d) = Some ip)"
  by (force simp: zone_target_of_def List.map_filter_def)

lemma plan_base_used:
  assumes "plant_zoned N s" and "hosts_known s"
  shows "plan_base (rezone_ctx N cfg s) = set (used_ips s)"
proof (intro set_eqI)
  fix ip
  have "(\<exists>z \<in> set (zone_targets N s). ip \<in> zt_reserved z) \<longleftrightarrow> (\<exists>d \<in> set (lg_devices s). ipv4_from_str (dr_ip d) = Some ip)"
  proof
    assume "\<exists>z \<in> set (zone_targets N s). ip \<in> zt_reserved z"
    then show "\<exists>d \<in> set (lg_devices s). ipv4_from_str (dr_ip d) = Some ip"
      using reserved_in zone_targets_reserved by metis
  next
    assume "\<exists>d \<in> set (lg_devices s). ipv4_from_str (dr_ip d) = Some ip"
    then obtain d where d: "d \<in> set (lg_devices s)" "ipv4_from_str (dr_ip d) = Some ip" by blast
    then obtain r where r: "r \<in> set (lg_subnets s)" "sr_cidr r = dr_subnet_cidr d" "no_parse N (sr_cidr r) \<noteq> None"
      using assms(1) by (auto simp: plant_zoned_def)
    then obtain z where z: "zone_target_of N s r = Some z" by (auto simp: zone_target_of_def)
    then have "ip \<in> zt_reserved z" using reserved_in [OF z] d r(2) by auto
    then show "\<exists>z \<in> set (zone_targets N s). ip \<in> zt_reserved z" using z r(1) zone_targets_reserved by blast
  qed
  then show "ip \<in> plan_base (rezone_ctx N cfg s) \<longleftrightarrow> ip \<in> set (used_ips s)"
    using registered_eq(1) [OF assms(2)] host_pairs_ips [OF assms(2), of ip]
    by (auto simp: plan_base_def rezone_ctx_def used_ips_iff)
qed

lemma effective_asset_cap_le: "effective_asset_cap c \<le> MAX_DEVICES"
  by (auto simp: effective_asset_cap_def MAX_DEVICES_def DEFAULT_MAX_ASSETS_def split: option.split)

lemma rezone_macs_left:
  assumes "ledger_ok s" and "macs_room s"
  shows "macs_left (rezone_ctx N cfg s)"
proof -
  have "card (set (device_macs s)) \<le> length (lg_devices s) + length (lg_capture_hosts s)"
    using card_length [of "device_macs s"] by (simp add: device_macs_def)
  moreover have "rc_budget (rezone_ctx N cfg s) \<le> MAX_DEVICES"
    using effective_asset_cap_le [of "rz_max_assets cfg"] by (simp add: rezone_ctx_def)
  ultimately show ?thesis
    using assms by (simp add: macs_left_def rezone_ctx_def ledger_ok_def macs_room_def capture_host_count_def)
qed

lemma device_mac_map_ok: "macs_ok (device_mac_map s)"
proof -
  have "length m = 6" if "device_mac_map s ip = Some m" for ip m
  proof -
    have "(ip, m) \<in> set (rev (List.map_filter (\<lambda>d. map_option (\<lambda>ip. (ip, parse_mac (dr_mac d))) (ipv4_from_str (dr_ip d))) (lg_devices s)))"
      using that unfolding device_mac_map_def hash_collect_def by (rule map_of_SomeD)
    then show ?thesis by (auto simp: List.map_filter_def length_parse_mac)
  qed
  then show ?thesis by (auto simp: macs_ok_def)
qed

lemma rezone_macs_ok: "macs_ok (rc_device_macs (rezone_ctx N cfg s))"
  by (simp add: rezone_ctx_def device_mac_map_ok)

section \<open>Where a captured host goes\<close>

text \<open>
  A registered host is mapped to its asset; a new asset has an origin of its own, which is not registered and is mapped to
  it.
\<close>

definition placed_ok :: "'n reconcile_ctx \<Rightarrow> zone_state \<Rightarrow> bool" where
  "placed_ok ctx st \<longleftrightarrow> distinct (map na_origin (zs_new st)) \<and>
     (\<forall>a \<in> set (zs_new st). map_of (rc_registered ctx) (na_origin a) = None \<and> map_of (zs_map st) (na_origin a) = Some (na_ip a)) \<and>
     (\<forall>h n. map_of (rc_registered ctx) h = Some n \<and> h \<in> map_keys st \<longrightarrow> map_of (zs_map st) h = Some n)"

lemma map_keys_iff: "h \<in> map_keys st \<longleftrightarrow> map_of (zs_map st) h \<noteq> None"
  by (simp add: map_keys_def map_of_eq_None_iff)

lemma update_map_of: "map_of (AList.update k v xs) x = (if x = k then Some v else map_of xs x)"
  by (simp add: update_conv')

text \<open>A loop over keys none of which was seen before.\<close>

lemma fold_exec_fresh:
  assumes "fold_exec f xs s = ret s'" and "P s" and "distinct (concat (map hs xs))" and "set (concat (map hs xs)) \<inter> K s = {}"
    and step: "\<And>x s s'. x \<in> set xs \<Longrightarrow> P s \<Longrightarrow> distinct (hs x) \<Longrightarrow> set (hs x) \<inter> K s = {} \<Longrightarrow> f x s = ret s' \<Longrightarrow>
      P s' \<and> K s' \<subseteq> K s \<union> set (hs x)"
  shows "P s' \<and> K s' \<subseteq> K s \<union> set (concat (map hs xs))"
  using assms(1-4) step
proof (induction xs arbitrary: s)
  case (Cons x xs)
  obtain s1 where 1: "f x s = ret s1" "fold_exec f xs s1 = ret s'" using Cons.prems(1) by (auto split: bind_splits)
  have "P s1 \<and> K s1 \<subseteq> K s \<union> set (hs x)"
    by (rule Cons.prems(5) [OF _ Cons.prems(2) _ _ 1(1)]) (use Cons.prems(3,4) in auto)
  then have s1: "P s1" "K s1 \<subseteq> K s \<union> set (hs x)" by blast+
  have "P s' \<and> K s' \<subseteq> K s1 \<union> set (concat (map hs xs))"
  proof (rule Cons.IH [OF 1(2) s1(1)])
    show "distinct (concat (map hs xs))" using Cons.prems(3) by simp
    show "set (concat (map hs xs)) \<inter> K s1 = {}" using Cons.prems(3,4) s1(2) by auto
  qed (use Cons.prems(5) in auto)
  then show ?case using s1(2) by auto
qed simp

lemma place_new_placed:
  assumes "place_new N ctx z host st = ret (Some st')" and "map_of (rc_registered ctx) host = None"
    and "placed_ok ctx st" and "host \<notin> map_keys st"
  shows "placed_ok ctx st'" "map_keys st' = insert host (map_keys st)"
proof -
  obtain ip taken where p: "place_in_zone N (zt_net z) (zs_taken st) host = (Some ip, taken)"
    using assms(1) by (auto simp: place_new_def split: if_splits prod.splits option.splits)
  obtain mac salt where m: "find_mac (rc_seed ctx) ip (zs_used_macs st) 0 = Some (mac, salt)"
    using assms(1) p by (auto simp: place_new_def split: if_splits bind_splits)
  have n: "zs_new st' = zs_new st @ [\<lparr>na_origin = host, na_ip = ip, na_mac = mac, na_vendor = zt_vendor z,
      na_protocol = zt_protocol z, na_purdue_level = zt_purdue_level z, na_subnet_cidr = no_show N (zt_net z)\<rparr>]"
    "zs_map st' = AList.update host ip (zs_map st)"
    using assms(1) p m by (auto simp: place_new_def split: if_splits)
  show "map_keys st' = insert host (map_keys st)" unfolding set_eq_iff map_keys_iff insert_iff n by (simp add: update_map_of)
  have "host \<notin> na_origin ` set (zs_new st)" using assms(3,4) by (auto simp: placed_ok_def map_keys_iff)
  then show "placed_ok ctx st'"
    using assms(2-4) unfolding placed_ok_def n by (auto simp: map_keys_iff update_map_of n)
qed

lemma host_step_placed:
  assumes r: "host_step N ctx zi host sp = ret sp'" and p: "placed_ok ctx (fst sp)" and h: "host \<notin> map_keys (fst sp)"
  shows "placed_ok ctx (fst sp') \<and> map_keys (fst sp') \<subseteq> map_keys (fst sp) \<union> {host}"
proof -
  obtain st placed where sp: "sp = (st, placed)" by fastforce
  have other: "placed_ok ctx (st\<lparr>zs_map := AList.update host v (zs_map st)\<rparr>) \<and>
      map_keys (st\<lparr>zs_map := AList.update host v (zs_map st)\<rparr>) \<subseteq> map_keys st \<union> {host}"
    if "\<And>n. map_of (rc_registered ctx) host = Some n \<Longrightarrow> v = n" for v
  proof -
    have "host \<notin> na_origin ` set (zs_new st)" using p h by (auto simp: placed_ok_def map_keys_iff sp)
    then show ?thesis using that p h by (auto simp: placed_ok_def map_keys_iff update_map_of sp)
  qed
  show ?thesis
  proof (cases "map_of (rc_registered ctx) host")
    case (Some n)
    then show ?thesis using r other [of n] by (auto simp: host_step_def sp)
  next
    case None
    then obtain o' where o: "place_new N ctx (rc_zones ctx ! zi) host st = ret o'"
      using r by (auto simp: host_step_def sp split: bind_splits)
    show ?thesis
    proof (cases o')
      case (Some st')
      have "placed_ok ctx st'" "map_keys st' = insert host (map_keys st)"
        by (rule place_new_placed [OF o [unfolded Some] None]; use p h sp in simp)+
      moreover have "sp' = (st', True)" using r None o Some by (simp add: host_step_def sp)
      ultimately show ?thesis using sp by simp
    next
      case n: None
      show ?thesis
      proof (cases "force_map_target (rc_zones ctx) zi")
        case (Some t)
        have "fst sp' = st\<lparr>zs_map := AList.update host t (zs_map st)\<rparr>"
          using r None o n Some by (auto simp: host_step_def sp)
        then show ?thesis using other [of t] None sp by simp
      qed (use r None o n p in \<open>auto simp: host_step_def sp\<close>)
    qed
  qed
qed

lemma group_step_placed:
  assumes r: "group_step N ctx g st = ret st'" and p: "placed_ok ctx st" and d: "distinct (cg_hosts g)"
    and f: "set (cg_hosts g) \<inter> map_keys st = {}"
  shows "placed_ok ctx st' \<and> map_keys st' \<subseteq> map_keys st \<union> set (cg_hosts g)"
proof (cases "rank_zones N g (rc_zones ctx) (rc_affinity ctx) (rc_seed ctx)")
  case Nil
  then show ?thesis using r p by (simp add: group_step_def)
next
  case (Cons zi zs)
  then obtain st1 placed where 1: "fold_exec (host_step N ctx zi) (sort (cg_hosts g)) (st, False) = ret (st1, placed)"
    using r by (auto simp: group_step_def Let_def split: bind_splits)
  have "placed_ok ctx (fst (st1, placed)) \<and> map_keys (fst (st1, placed)) \<subseteq>
      map_keys (fst (st, False)) \<union> set (concat (map (\<lambda>h. [h]) (sort (cg_hosts g))))"
  proof (rule fold_exec_fresh [where P = "\<lambda>sp. placed_ok ctx (fst sp)" and K = "\<lambda>sp. map_keys (fst sp)", OF 1])
    fix h sp sp'
    assume "placed_ok ctx (fst sp)" "set [h] \<inter> map_keys (fst sp) = {}" "host_step N ctx zi h sp = ret sp'"
    then show "placed_ok ctx (fst sp') \<and> map_keys (fst sp') \<subseteq> map_keys (fst sp) \<union> set [h]"
      using host_step_placed [of N ctx zi h sp sp'] by simp
  qed (use p d f in \<open>simp_all add: concat_map_singleton\<close>)
  then have s1: "placed_ok ctx st1" "map_keys st1 \<subseteq> map_keys st \<union> set (cg_hosts g)" by auto
  have "placed_ok ctx (st1\<lparr>zs_subnets := x\<rparr>)" "map_keys (st1\<lparr>zs_subnets := x\<rparr>) = map_keys st1" for x
    using s1(1) by (auto simp: placed_ok_def map_keys_def)
  then show ?thesis using r Cons 1 s1 by (auto simp: group_step_def Let_def split: if_splits)
qed

lemma place_groups_placed:
  assumes r: "place_groups N ctx groups = ret st" and d: "distinct (concat (map cg_hosts groups))"
  shows "placed_ok ctx st"
proof -
  let ?order = "sort_key (\<lambda>i. no_network N (cg_net (groups ! i))) [0..<length groups]"
  have "mset (concat (map (\<lambda>i. cg_hosts (groups ! i)) ?order)) = mset (concat (map (\<lambda>i. cg_hosts (groups ! i)) [0..<length groups]))"
    by (simp only: mset_concat sum_mset_sum_list [symmetric] map_map mset_map mset_sort)
  also have "map (\<lambda>i. cg_hosts (groups ! i)) [0..<length groups] = map cg_hosts groups"
    by (rule nth_equalityI) simp_all
  finally have "distinct (concat (map (\<lambda>i. cg_hosts (groups ! i)) ?order))" using d mset_eq_imp_distinct_iff by blast
  moreover have "map_keys (zone_init ctx) = {}" "placed_ok ctx (zone_init ctx)"
    by (simp_all add: map_keys_def zone_init_def placed_ok_def)
  ultimately show ?thesis
    using fold_exec_fresh [where P = "placed_ok ctx" and K = map_keys and hs = "\<lambda>i. cg_hosts (groups ! i)",
        OF r [unfolded place_groups_def]] group_step_placed
    by blast
qed

section \<open>The groups of a capture\<close>

lemma packet_votes_total:
  assumes "net_ok N"
  shows "\<exists>vs. packet_votes N hints data = ret vs"
proof -
  obtain r where r: "parse_layout data = ret r" using parse_layout_total by blast
  show ?thesis
  proof (cases r)
    case (Some l)
    obtain a where a: "subnet_of N (word32_at data (fl_l3 l + 12)) hints = ret a" by (rule subnet_of_total [OF assms])
    obtain b where b: "subnet_of N (word32_at data (fl_l3 l + 16)) hints = ret b" by (rule subnet_of_total [OF assms])
    show ?thesis
    proof (cases "fl_l3_kind l \<noteq> L3_Ipv4 \<or> fl_l4_kind l = L4_Other \<or> length data < fl_l4 l + 4")
      case True
      then show ?thesis by (simp add: packet_votes_def r Some)
    next
      case False
      then have w: "rd_be16 data (fl_l4 l) = ret (word16_at data (fl_l4 l))"
        "rd_be16 data (fl_l4 l + 2) = ret (word16_at data (fl_l4 l + 2))"
        by (simp_all add: rd_be16_ok)
      let ?proto = "case ot_protocol_for_port (word16_at data (fl_l4 l + 2)) of Some p \<Rightarrow> Some p
        | None \<Rightarrow> ot_protocol_for_port (word16_at data (fl_l4 l))"
      have "packet_votes N hints data = (case ?proto of None \<Rightarrow> ret [] | Some proto \<Rightarrow>
          if length data < fl_l3 l + 20 then ret [] else ret [(a, proto), (b, proto)])"
        unfolding packet_votes_def r Some using False w a b
        by (simp add: rd_be32_ok split: option.split)
      then show ?thesis by (cases ?proto) simp_all
    qed
  qed (simp add: packet_votes_def r)
qed

lemma capture_groups_ok:
  assumes "net_ok N" "hash_order keys" "hash_order order"
  obtains groups where "capture_groups N keys order ps hints oui = ret groups" "distinct (concat (map cg_hosts groups))"
    "set (concat (map cg_hosts groups)) = {a \<in> set (capture_addrs ps). is_remappable a}"
proof -
  obtain vs where "map_exec (\<lambda>p. packet_votes N hints (pk_data p)) ps = ret vs"
    using map_exec_ret [of ps "\<lambda>p. packet_votes N hints (pk_data p)"] packet_votes_total [OF assms(1)] by blast
  then obtain proto where p: "dominant_protocol_by_group N order ps hints = ret proto"
    by (simp add: dominant_protocol_by_group_def)
  obtain macs hosts zs where z: "derive_zones N keys order ps hints oui = ret zs" "distinct hosts"
    "set hosts = {a \<in> set (capture_addrs ps). is_remappable a}" "mset (concat (map zn_device_ips zs)) = mset hosts"
    by (rule derive_zones_ok [OF assms, of ps hints oui])
  let ?g = "\<lambda>z. \<lparr>cg_net = zn_cidr z, cg_purdue_level = zn_purdue_level z, cg_vendor = zn_vendor z,
      cg_protocol = proto (zn_cidr z), cg_hosts = zn_device_ips z\<rparr>"
  have c: "map cg_hosts (map ?g zs) = map zn_device_ips zs" by simp
  show thesis
  proof (rule that [of "map ?g zs"])
    show "capture_groups N keys order ps hints oui = ret (map ?g zs)" by (simp add: capture_groups_def p z(1))
    show "distinct (concat (map cg_hosts (map ?g zs)))" unfolding c using z(2,4) mset_eq_imp_distinct_iff by blast
    show "set (concat (map cg_hosts (map ?g zs))) = {a \<in> set (capture_addrs ps). is_remappable a}"
      unfolding c using mset_eq_setD [OF z(4)] z(3) by simp
  qed
qed

section \<open>The registration\<close>

lemma register_asset_step:
  assumes "total_wire_assets (si_ledger sim) < cap" and "show_ipv4 (na_ip a) \<notin> ch_ip ` set (lg_capture_hosts (si_ledger sim))"
  shows "register_asset cap a sim = sim\<lparr>si_ledger := (si_ledger sim)\<lparr>
      lg_capture_hosts := lg_capture_hosts (si_ledger sim) @ [capture_record a],
      lg_registry_generation := lg_registry_generation (si_ledger sim) + 1\<rparr>, si_dirty := True\<rparr>"
proof -
  have "ch_ip (capture_record a) = show_ipv4 (na_ip a)" by (simp add: capture_record_def)
  then have "\<not> list_ex (\<lambda>h. ch_ip h = ch_ip (capture_record a)) (lg_capture_hosts (si_ledger sim))"
    using assms(2) unfolding list_ex_iff by (metis imageI)
  then show ?thesis using assms(1) by (simp add: register_asset_def register_capture_host_def)
qed

text \<open>The new assets, all of them, at the end of the registry.\<close>

definition registered_with :: "new_asset list \<Rightarrow> ledger \<Rightarrow> ledger" where
  "registered_with as s = s\<lparr>lg_capture_hosts := lg_capture_hosts s @ map capture_record as,
     lg_registry_generation := lg_registry_generation s + word_of_nat (length as)\<rparr>"

lemma register_all:
  assumes "total_wire_assets (si_ledger sim) + length as \<le> cap" and "distinct (map na_ip as)"
    and "show_ipv4 ` na_ip ` set as \<inter> ch_ip ` set (lg_capture_hosts (si_ledger sim)) = {}"
  shows "fold (register_asset cap) as sim =
    sim\<lparr>si_ledger := registered_with as (si_ledger sim), si_dirty := (si_dirty sim \<or> as \<noteq> [])\<rparr>"
  using assms
proof (induction as arbitrary: sim)
  case Nil
  then show ?case by (simp add: registered_with_def)
next
  case (Cons a as)
  let ?sim = "register_asset cap a sim"
  have s: "?sim = sim\<lparr>si_ledger := (si_ledger sim)\<lparr>
      lg_capture_hosts := lg_capture_hosts (si_ledger sim) @ [capture_record a],
      lg_registry_generation := lg_registry_generation (si_ledger sim) + 1\<rparr>, si_dirty := True\<rparr>"
    by (rule register_asset_step) (use Cons.prems in auto)
  have "fold (register_asset cap) as ?sim =
      ?sim\<lparr>si_ledger := registered_with as (si_ledger ?sim), si_dirty := (si_dirty ?sim \<or> as \<noteq> [])\<rparr>"
  proof (rule Cons.IH)
    show "total_wire_assets (si_ledger ?sim) + length as \<le> cap"
      using Cons.prems(1) by (simp add: s total_wire_assets_def)
    show "distinct (map na_ip as)" using Cons.prems(2) by simp
    show "show_ipv4 ` na_ip ` set as \<inter> ch_ip ` set (lg_capture_hosts (si_ledger ?sim)) = {}"
      using Cons.prems(2,3) by (auto simp: s capture_record_def)
  qed
  then show ?case by (simp add: s registered_with_def add.assoc)
qed

text \<open>The fields of a session that a registration leaves alone.\<close>

lemma registered_with_fields:
  "lg_subnets (registered_with as s) = lg_subnets s" "lg_devices (registered_with as s) = lg_devices s"
  "lg_seed (registered_with as s) = lg_seed s" "lg_scenario (registered_with as s) = lg_scenario s"
  "lg_sealed (registered_with as s) = lg_sealed s" "lg_cycle (registered_with as s) = lg_cycle s"
  by (simp_all add: registered_with_def)

lemma registered_with_ips: "used_ips (registered_with as s) = used_ips s @ map na_ip as"
  by (simp add: used_ips_def registered_with_def map_filter_append List.map_filter_def capture_record_def ipv4_show comp_def)

lemma registered_with_ok:
  assumes s: "rezone_ok N s" and as: "assets_ok N (rezone_ctx N cfg s) as" "\<forall>a \<in> set as. length (na_mac a) = 6"
    and o: "distinct (map na_origin as)" "\<forall>a \<in> set as. map_of (registered_origins s) (na_origin a) = None"
    and n: "length as \<le> rc_budget (rezone_ctx N cfg s)"
  shows "rezone_ok N (registered_with as s)"
proof -
  have s': "ledger_ok s" "plant_unique s" "macs_room s" "plant_zoned N s" "hosts_known s" using s by (simp_all add: rezone_ok_def)
  have ips: "distinct (map na_ip as)" "na_ip ` set as \<inter> set (used_ips s) = {}"
    and macs: "distinct (map na_mac as)" "na_mac ` set as \<inter> set (device_macs s) = {}"
    using as(1) plan_base_used [OF s'(4,5)] by (simp_all add: assets_ok_def rezone_ctx_def)
  note u = registered_with_ips
  have m: "device_macs (registered_with as s) = device_macs s @ map na_mac as"
    using as(2) by (simp add: device_macs_def registered_with_def capture_record_def parse_fmt_mac)
  have ch: "ch_ip h \<noteq> show_ipv4 (na_ip a)" if "h \<in> set (lg_capture_hosts s)" "a \<in> set as" for h a
  proof
    assume "ch_ip h = show_ipv4 (na_ip a)"
    then have "na_ip a \<in> set (used_ips s)" using that(1) ipv4_show [of "na_ip a"] unfolding used_ips_iff by metis
    then show False using ips(2) that(2) by blast
  qed
  have "distinct (map ch_ip (lg_capture_hosts (registered_with as s)))"
    using s'(1) ips(1) ch by (fastforce simp: ledger_ok_def registered_with_def capture_record_def distinct_map inj_on_def)
  then have l: "ledger_ok (registered_with as s)" using s'(1) by (simp add: ledger_ok_def registered_with_fields)
  moreover have "plant_unique (registered_with as s)"
    using s'(2) ips macs unfolding plant_unique_def u m by auto
  moreover have "macs_room (registered_with as s)"
  proof (cases "as = []")
    case False
    then have "total_wire_assets s + length as \<le> effective_asset_cap (rz_max_assets cfg)"
      using n by (cases as) (simp_all add: rezone_ctx_def)
    then have "length (lg_capture_hosts s) + length as \<le> MAX_DEVICES"
      using effective_asset_cap_le [of "rz_max_assets cfg"] by (simp add: total_wire_assets_def)
    then show ?thesis by (simp add: macs_room_def capture_host_count_def registered_with_def MAX_DEVICES_def)
  qed (use s'(3) in \<open>simp add: registered_with_def\<close>)
  moreover have "plant_zoned N (registered_with as s)" using s'(4) by (simp add: plant_zoned_def registered_with_fields)
  moreover have "hosts_known (registered_with as s)"
  proof -
    have "ch_origin_ip h \<noteq> show_ipv4 (na_origin a)" if "h \<in> set (lg_capture_hosts s)" "a \<in> set as" for h a
    proof
      assume e: "ch_origin_ip h = show_ipv4 (na_origin a)"
      then have "na_origin a \<in> fst ` set (host_pairs s)" using that(1) by (force simp: host_pairs_def ipv4_show)
      then show False using o(2) that(2) by (auto simp: registered_eq(1) [OF s'(5)] map_of_eq_None_iff)
    qed
    then show ?thesis using s'(5) o(1)
      by (fastforce simp: hosts_known_def registered_with_def capture_record_def distinct_map inj_on_def)
  qed
  moreover have "private_plan N (registered_with as s)"
  proof -
    have p: "private_plan N s" using s by (simp add: rezone_ok_def)
    have "\<not> is_public_unicast (na_ip a)" if a: "a \<in> set as" for a
    proof -
      obtain z where z: "z \<in> set (zone_targets N s)" "asset_of N z a"
        using as(1) a by (auto simp: assets_ok_def rezone_ctx_def)
      then obtain r where "r \<in> set (lg_subnets s)" "no_parse N (sr_cidr r) = Some (zt_net z)"
        using zone_targets_reserved [of z N s] by (auto simp: zone_target_of_def)
      then show ?thesis using p z(2) by (auto simp: private_plan_def asset_of_def)
    qed
    then show ?thesis using p unfolding private_plan_def registered_with_ips by (auto simp: registered_with_fields)
  qed
  ultimately show ?thesis by (simp add: rezone_ok_def)
qed

section \<open>The rezoned capture\<close>

text \<open>What a frame \<open>p\<close> of the output is: a rewritten frame of the capture, coherent with the plan.\<close>

definition moved_frame :: "'n net_ops \<Rightarrow> ledger \<Rightarrow> bool \<Rightarrow> (u32 \<Rightarrow> u32 option) \<Rightarrow> 'h capture \<Rightarrow> bytes \<Rightarrow> bool" where
  "moved_frame N s remap_mac hm cap d \<longleftrightarrow>
     (\<exists>q \<in> set (cap_packets cap). \<exists>macs l. macs_ok macs \<and> remap_frame hm macs (lg_seed s) remap_mac (pk_data q) = ret d \<and>
        parse_layout d = ret (Some l) \<and> coherent_at (ran hm) d l \<and> (\<forall>h \<in> dom hm. \<not> sublist (octets h) d))"

text \<open>The host map: registered hosts to their assets, new ones to theirs.\<close>

definition session_map :: "'n net_ops \<Rightarrow> ledger \<Rightarrow> new_asset list \<Rightarrow> packet list \<Rightarrow> (u32 \<Rightarrow> u32 option) \<Rightarrow> bool" where
  "session_map N s as ps hm \<longleftrightarrow>
     dom hm \<subseteq> {a \<in> set (capture_addrs ps). is_remappable a} \<and>
     ((\<exists>z \<in> set (zone_targets N s). zt_reserved z \<noteq> {}) \<longrightarrow> dom hm = {a \<in> set (capture_addrs ps). is_remappable a}) \<and>
     ran hm \<subseteq> set (used_ips (registered_with as s)) \<and>
     (\<forall>h n. (h, n) \<in> set (host_pairs s) \<and> h \<in> dom hm \<longrightarrow> hm h = Some n) \<and>
     (\<forall>a \<in> set as. hm (na_origin a) = Some (na_ip a))"

lemma ran_distinct: "distinct (map fst xs) \<Longrightarrow> ran (map_of xs) = snd ` set xs"
  by (force simp: ran_def)

lemma asset_mac_length:
  assumes "zone_inv N ctx st" and "a \<in> set (zs_new st)"
  shows "length (na_mac a) = 6"
proof -
  have r: "resolved_ok (rc_seed ctx) (zs_new st) (zs_resolved st)" using assms(1) by (simp add: zone_inv_def)
  then consider "map_of (zs_resolved st) (na_ip a) = Some (na_mac a)" | "na_mac a = host_mac (rc_seed ctx) (na_ip a)"
    using assms(2) by (auto simp: resolved_ok_def)
  then show ?thesis
  proof cases
    case 1
    then have "na_mac a \<in> snd ` set (zs_resolved st)" using map_of_SomeD by force
    then show ?thesis using r unfolding resolved_ok_def by blast
  qed simp
qed

lemma zone_map_sets:
  assumes "zone_inv N ctx st"
  shows "dom (map_of (zs_map st)) = map_keys st" "ran (map_of (zs_map st)) = snd ` set (zs_map st)"
proof -
  show "dom (map_of (zs_map st)) = map_keys st" by (simp add: dom_map_of_conv_image_fst map_keys_def)
  show "ran (map_of (zs_map st)) = snd ` set (zs_map st)" by (rule ran_distinct) (use assms in \<open>simp add: zone_inv_def\<close>)
qed

lemma placed_session_map:
  assumes s: "plant_zoned N s" "hosts_known s" and inv: "zone_inv N (rezone_ctx N cfg s) st"
    and pl: "placed_ok (rezone_ctx N cfg s) st"
    and keys: "map_keys st \<subseteq> {a \<in> set (capture_addrs ps). is_remappable a}"
    and all: "has_device (rezone_ctx N cfg s) \<Longrightarrow> map_keys st = {a \<in> set (capture_addrs ps). is_remappable a}"
  shows "session_map N s (zs_new st) ps (map_of (zs_map st))"
  unfolding session_map_def zone_map_sets(1) [OF inv]
proof (intro conjI impI allI)
  let ?ctx = "rezone_ctx N cfg s"
  have reg: "rc_registered ?ctx = host_pairs s" "distinct (map fst (host_pairs s))"
    using registered_eq [OF s(2)] by (simp_all add: rezone_ctx_def)
  show "map_keys st \<subseteq> {a \<in> set (capture_addrs ps). is_remappable a}" by (rule keys)
  show "map_keys st = {a \<in> set (capture_addrs ps). is_remappable a}"
    if "\<exists>z \<in> set (zone_targets N s). zt_reserved z \<noteq> {}"
    using all that unfolding has_device_def by (simp add: rezone_ctx_def)
  have "snd ` set (zs_map st) \<subseteq> plan_base ?ctx \<union> na_ip ` set (zs_new st)" using inv by (simp add: zone_inv_def)
  then show "ran (map_of (zs_map st)) \<subseteq> set (used_ips (registered_with (zs_new st) s))"
    unfolding zone_map_sets(2) [OF inv] plan_base_used [OF s] registered_with_ips by simp
  show "map_of (zs_map st) k = Some m" if "(k, m) \<in> set (host_pairs s) \<and> k \<in> map_keys st" for k m
    using pl that reg unfolding placed_ok_def by simp
  show "\<forall>a \<in> set (zs_new st). map_of (zs_map st) (na_origin a) = Some (na_ip a)" using pl by (simp add: placed_ok_def)
qed

lemma reconcile_moved:
  assumes inv: "zone_inv N (rezone_ctx N cfg s) st"
    and 1: "apply_host_map cap (map_of (zs_map st)) (mac_overrides (rezone_ctx N cfg s) st) (lg_seed s) (rz_remap_mac cfg) = ret cap1"
    and 2: "drop_incoherent_frames cap1 (snd ` set (zs_map st)) = ret (cap2, n)"
    and 3: "drop_payload_leak_frames cap2 (map_keys st) = ret (cap', n')" and p: "p \<in> set (cap_packets cap')"
  shows "moved_frame N s (rz_remap_mac cfg) (map_of (zs_map st)) cap (pk_data p)"
proof -
  let ?hm = "map_of (zs_map st)"
  note mo = mac_overrides_ok [OF inv rezone_macs_ok]
  have p2: "p \<in> set (cap_packets cap2)" using drop_leak_survivors(1) [OF 3] p by blast
  note f = plan_filter.drop_survivors(1) [OF 2 [unfolded drop_incoherent_frames_def]]
  have "frame_is_plan_coherent (ran ?hm) (pk_data p) = ret True" using p2 f unfolding zone_map_sets(2) [OF inv] by auto
  then obtain l where l: "parse_layout (pk_data p) = ret (Some l)" "coherent_at (ran ?hm) (pk_data p) l"
    by (auto simp: coherent_eq split: option.splits)
  have "p \<in> set (cap_packets cap1)" using p2 f by blast
  moreover have "list_all2 (packet_rewrite ?hm (mac_overrides (rezone_ctx N cfg s) st) (lg_seed s) (rz_remap_mac cfg))
      (cap_packets cap) (cap_packets cap1)"
    using apply_host_map_total [OF mo, of cap ?hm "lg_seed s" "rz_remap_mac cfg"] 1 by auto
  ultimately obtain q where q: "q \<in> set (cap_packets cap)"
    "packet_rewrite ?hm (mac_overrides (rezone_ctx N cfg s) st) (lg_seed s) (rz_remap_mac cfg) q p"
    by (metis in_set_conv_nth list_all2_conv_all_nth)
  then have "remap_frame ?hm (mac_overrides (rezone_ctx N cfg s) st) (lg_seed s) (rz_remap_mac cfg) (pk_data q) = ret (pk_data p)"
    by (auto simp: packet_rewrite_def)
  moreover have "\<forall>h \<in> dom ?hm. \<not> sublist (octets h) (pk_data p)"
    using drop_leak_survivors(3) [OF 3 p] unfolding zone_map_sets(1) [OF inv] by blast
  ultimately show ?thesis unfolding moved_frame_def using q(1) mo l by blast
qed

lemma reconcile_session:
  assumes N: "net_ok N" and s: "rezone_ok N s" and z: "zone_targets N s \<noteq> []"
    and d: "distinct (concat (map cg_hosts groups))"
    and h: "set (concat (map cg_hosts groups)) = {a \<in> set (capture_addrs (cap_packets cap)). is_remappable a}"
  obtains cap' sm as hm where
    "reconcile_capture_into_zones N cap groups (rezone_ctx N cfg s) = ret (cap', sm, as)"
    "rezone_ok N (registered_with as s)" "length as \<le> rc_budget (rezone_ctx N cfg s)" "distinct (map na_ip as)"
    "na_ip ` set as \<inter> set (used_ips s) = {}" "session_map N s as (cap_packets cap) hm"
    "\<forall>p \<in> set (cap_packets cap'). moved_frame N s (rz_remap_mac cfg) hm cap (pk_data p)"
proof -
  let ?ctx = "rezone_ctx N cfg s"
  have s': "ledger_ok s" "plant_unique s" "macs_room s" "plant_zoned N s" "hosts_known s" using s by (simp_all add: rezone_ok_def)
  have zones: "rc_zones ?ctx \<noteq> []" using z by (simp add: rezone_ctx_def)
  note base = N rezone_macs_left [OF s'(1,3), of N cfg]
  obtain cap' sm as where r: "reconcile_capture_into_zones N cap groups ?ctx = ret (cap', sm, as)"
    using reconcile_total [OF base rezone_macs_ok] by (metis prod_cases3)
  obtain st cap1 cap2 n n' where st: "place_groups N ?ctx groups = ret st" "zone_inv N ?ctx st" "as = zs_new st"
    and 1: "apply_host_map cap (map_of (zs_map st)) (mac_overrides ?ctx st) (rc_seed ?ctx) (rc_remap_mac ?ctx) = ret cap1"
    and 2: "drop_incoherent_frames cap1 (snd ` set (zs_map st)) = ret (cap2, n)"
    and 3: "drop_payload_leak_frames cap2 (map_keys st) = ret (cap', n')"
    and all: "has_device ?ctx \<Longrightarrow> map_keys st = (\<Union>g \<in> set groups. set (cg_hosts g))"
    using reconcile_result [OF base zones r] by metis
  obtain st' where "place_groups N ?ctx groups = ret st'" "map_keys st' \<subseteq> (\<Union>g \<in> set groups. set (cg_hosts g))"
    using place_groups_ok [OF base zones] by metis
  then have keys: "map_keys st \<subseteq> {a \<in> set (capture_addrs (cap_packets cap)). is_remappable a}"
    using st(1) h by simp
  note pl = place_groups_placed [OF st(1) d]
  have inv: "assets_ok N ?ctx as" "length as \<le> rc_budget ?ctx" using st(2,3) by (auto simp: zone_inv_def)
  have ok: "rezone_ok N (registered_with as s)"
  proof (rule registered_with_ok [OF s inv(1) _ _ _ inv(2)])
    show "\<forall>a \<in> set as. length (na_mac a) = 6" using asset_mac_length [OF st(2)] st(3) by simp
    show "distinct (map na_origin as)" using pl st(3) by (simp add: placed_ok_def)
    show "\<forall>a \<in> set as. map_of (registered_origins s) (na_origin a) = None"
      using pl st(3) by (simp add: placed_ok_def rezone_ctx_def)
  qed
  have "session_map N s as (cap_packets cap) (map_of (zs_map st))"
    unfolding st(3) by (rule placed_session_map [OF s'(4,5) st(2) pl keys]) (use all h in simp)
  moreover have "\<forall>p \<in> set (cap_packets cap'). moved_frame N s (rz_remap_mac cfg) (map_of (zs_map st)) cap (pk_data p)"
    using reconcile_moved [OF st(2) _ 2 3] 1 by (simp add: rezone_ctx_def)
  moreover have "distinct (map na_ip as)" "na_ip ` set as \<inter> set (used_ips s) = {}"
    using inv plan_base_used [OF s'(4,5)] by (simp_all add: assets_ok_def)
  ultimately show thesis using that r ok inv by blast
qed

section \<open>No packet is added\<close>

lemma retain_length: "retain keep ps = ret qs \<Longrightarrow> length qs \<le> length ps"
  by (induction ps arbitrary: qs) (auto split: bind_splits if_splits)

lemma drop_frames_length: "drop_frames keep cap = ret (cap', n) \<Longrightarrow> length (cap_packets cap') \<le> length (cap_packets cap)"
  by (auto simp: drop_frames_def split: bind_splits dest: retain_length)

lemma apply_host_map_length:
  "apply_host_map cap hm macs seed remap_mac = ret cap' \<Longrightarrow> length (cap_packets cap') = length (cap_packets cap)"
  by (auto simp: apply_host_map_def split: bind_splits dest: map_exec_length)

lemma filtered_length:
  assumes "apply_host_map cap hm macs seed remap_mac = ret c1" and "drop_incoherent_frames c1 valid = ret (c2, n)"
    and "drop_payload_leak_frames c2 originals = ret (cap', n')"
  shows "length (cap_packets cap') \<le> length (cap_packets cap)"
proof -
  have "length (cap_packets cap') \<le> length (cap_packets c2)"
    using assms(3) drop_frames_length by (auto simp: drop_payload_leak_frames_def split: if_splits)
  also have "\<dots> \<le> length (cap_packets c1)" using assms(2) drop_frames_length by (auto simp: drop_incoherent_frames_def)
  finally show ?thesis using apply_host_map_length [OF assms(1)] by simp
qed

lemma remap_capture_length:
  assumes "remap_capture N below seed_from cap hints seed remap_mac = ret (cap', s)"
  shows "length (cap_packets cap') \<le> length (cap_packets cap)"
  using assms filtered_length by (fastforce simp: remap_capture_def split: bind_splits)

lemma reconcile_length:
  assumes "reconcile_capture_into_zones N cap groups ctx = ret (cap', s, as)"
  shows "length (cap_packets cap') \<le> length (cap_packets cap)"
  using assms filtered_length by (fastforce simp: reconcile_capture_into_zones_def Let_def split: bind_splits if_splits)

end
