(* ===== verification/Remapping.thy ===== *)
theory Remapping
  imports Rezoned Feed
begin

text \<open>
  The invariant of the engine together with its caches: the session is well formed, and every cached file holds frames
  that may go on the wire.  A remap keeps it, and so do ticks and promotions.
\<close>

section \<open>One capture\<close>

lemma registered_with_Nil [simp]: "registered_with [] s = s"
  by (simp add: registered_with_def)

definition frame_safe :: "bytes \<Rightarrow> bool" where
  "frame_safe d \<longleftrightarrow> carries_public_address d = ret False"

lemma moved_frame_safe:
  assumes "moved_frame N s remap_mac hm cap d" and "session_map N s as ps hm" and "rezone_ok N (registered_with as s)"
  shows "frame_safe d"
proof -
  obtain l where l: "parse_layout d = ret (Some l)" "coherent_at (ran hm) d l" using assms(1) by (auto simp: moved_frame_def)
  have "\<forall>a \<in> ran hm. \<not> is_public_unicast a"
    using assms(2,3) by (auto simp: session_map_def rezone_ok_def private_plan_def)
  from coherent_not_public [OF l this] show ?thesis by (simp add: frame_safe_def)
qed

text \<open>The world a remap runs in.\<close>

definition remap_world :: "'n net_ops \<Rightarrow> ('n list \<Rightarrow> 'n list) \<Rightarrow> (string list \<Rightarrow> string list) \<Rightarrow> 'r below \<Rightarrow> bool" where
  "remap_world N keys order below \<longleftrightarrow> net_ok N \<and> hash_order keys \<and> hash_order order \<and> below_ok below"

definition only_ledger :: "'r sim \<Rightarrow> 'r sim \<Rightarrow> bool" where
  "only_ledger sim sim' \<longleftrightarrow> sim' = sim\<lparr>si_ledger := si_ledger sim', si_dirty := si_dirty sim', si_file := si_file sim'\<rparr>"

lemma only_ledger_refl: "only_ledger sim sim"
  by (simp add: only_ledger_def)

lemma rezone_total:
  assumes w: "remap_world N keys order below" and s: "rezone_ok N (si_ledger sim)"
  obtains cap' sim' as where "rezone N keys order below seed_from cfg save_ok hints cap sim = ret (cap', sim')"
    "si_ledger sim' = registered_with as (si_ledger sim)" "rezone_ok N (si_ledger sim')" "only_ledger sim sim'"
    "total_wire_assets (si_ledger sim') \<le> max (total_wire_assets (si_ledger sim)) (effective_asset_cap (rz_max_assets cfg))"
    "\<forall>p \<in> set (cap_packets cap'). frame_safe (pk_data p)" "length (cap_packets cap') \<le> length (cap_packets cap)"
    "zone_targets N (si_ledger sim) = [] \<and> as = [] \<or>
       (\<exists>hm. session_map N (si_ledger sim) as (cap_packets cap) hm \<and>
          (\<forall>p \<in> set (cap_packets cap'). moved_frame N (si_ledger sim) (rz_remap_mac cfg) hm cap (pk_data p)))"
proof (cases "zone_targets N (si_ledger sim) = []")
  case True
  obtain cap' sm where r: "remap_capture N below seed_from cap hints (lg_seed (si_ledger sim)) (rz_remap_mac cfg) = ret (cap', sm)"
    using remap_capture_total by blast
  then have run: "rezone N keys order below seed_from cfg save_ok hints cap sim = ret (cap', sim)"
    using True by (simp add: rezone_def)
  have "frame_safe (pk_data p)" if "p \<in> set (cap_packets cap')" for p
    using remap_survivor_not_public [OF _ _ r that] w by (simp add: remap_world_def frame_safe_def)
  then show thesis using run s True only_ledger_refl remap_capture_length [OF r] by (intro that [of cap' sim "[]"]) simp_all
next
  case False
  let ?s = "si_ledger sim" and ?cap = "effective_asset_cap (rz_max_assets cfg)"
  have N: "net_ok N" and h: "hash_order keys" "hash_order order" using w by (simp_all add: remap_world_def)
  obtain groups where g: "capture_groups N keys order (cap_packets cap) hints (si_oui sim) = ret groups"
    "distinct (concat (map cg_hosts groups))"
    "set (concat (map cg_hosts groups)) = {a \<in> set (capture_addrs (cap_packets cap)). is_remappable a}"
    by (rule capture_groups_ok [OF N h])
  obtain cap' sm as hm where r: "reconcile_capture_into_zones N cap groups (rezone_ctx N cfg ?s) = ret (cap', sm, as)"
    and ok: "rezone_ok N (registered_with as ?s)" and n: "length as \<le> rc_budget (rezone_ctx N cfg ?s)"
    and d: "distinct (map na_ip as)" "na_ip ` set as \<inter> set (used_ips ?s) = {}"
    and m: "session_map N ?s as (cap_packets cap) hm" "\<forall>p \<in> set (cap_packets cap'). moved_frame N ?s (rz_remap_mac cfg) hm cap (pk_data p)"
    by (rule reconcile_session [OF N s False g(2,3)])
  define sim1 where "sim1 = fold (register_asset ?cap) as sim"
  have sim1: "sim1 = sim\<lparr>si_ledger := registered_with as ?s, si_dirty := (si_dirty sim \<or> as \<noteq> [])\<rparr>"
  proof (cases "as = []")
    case True
    then show ?thesis by (simp add: sim1_def)
  next
    case ne: False
    have "show_ipv4 ` na_ip ` set as \<inter> ch_ip ` set (lg_capture_hosts ?s) = {}"
    proof -
      have "show_ipv4 a \<noteq> ch_ip h" if "a \<in> na_ip ` set as" "h \<in> set (lg_capture_hosts ?s)" for a h
      proof
        assume "show_ipv4 a = ch_ip h"
        then have "ipv4_from_str (ch_ip h) = Some a" using ipv4_show [of a] by simp
        then have "a \<in> set (used_ips ?s)" using that(2) unfolding used_ips_iff by blast
        then show False using d(2) that(1) by blast
      qed
      then show ?thesis by blast
    qed
    then show ?thesis unfolding sim1_def
      by (rule register_all [rotated 2]) (use n ne d(1) in \<open>cases as; simp add: rezone_ctx_def\<close>)+
  qed
  let ?sim = "persist_if_dirty save_ok sim1"
  have f: "si_ledger ?sim = registered_with as ?s" by (simp add: persist_if_dirty_def sim1)
  have "only_ledger sim ?sim"
    by (cases sim) (simp add: only_ledger_def persist_if_dirty_def sim1)
  moreover have "rezone N keys order below seed_from cfg save_ok hints cap sim = ret (cap', ?sim)"
    using False by (simp add: rezone_def g(1) r sim1_def Let_def)
  moreover have "total_wire_assets (registered_with as ?s) \<le> max (total_wire_assets ?s) ?cap"
    using n by (cases as) (simp_all add: total_wire_assets_def registered_with_def rezone_ctx_def)
  ultimately show thesis using that [of cap' ?sim as] ok m moved_frame_safe [OF _ m(1) ok] f reconcile_length [OF r] by metis
qed

section \<open>What keeps a session fit for remaps\<close>

text \<open>Only the CIDRs of the zones, the devices and the hosts matter.\<close>

lemma rezone_ok_cong:
  assumes "rezone_ok N s" and "map sr_cidr (lg_subnets s') = map sr_cidr (lg_subnets s)" and "lg_devices s' = lg_devices s"
    and "lg_capture_hosts s' = lg_capture_hosts s"
  shows "rezone_ok N s'"
proof -
  have img: "sr_cidr ` set (lg_subnets s') = sr_cidr ` set (lg_subnets s)" using assms(2) by (metis set_map)
  have "ledger_ok s'"
  proof -
    have "length (lg_subnets s') = length (lg_subnets s)" using assms(2) by (metis length_map)
    then show ?thesis using assms by (simp add: rezone_ok_def ledger_ok_def)
  qed
  moreover have u: "used_ips s' = used_ips s" "device_macs s' = device_macs s"
    using assms(3,4) by (simp_all add: used_ips_def device_macs_def)
  have "private_plan N s'"
    unfolding private_plan_def u(1)
  proof (intro conjI ballI allI impI)
    have p: "private_plan N s" using assms(1) by (simp add: rezone_ok_def)
    show "\<not> is_public_unicast a" if "a \<in> set (used_ips s)" for a using p that by (simp add: private_plan_def)
    fix z net a assume z: "z \<in> set (lg_subnets s')" "no_parse N (sr_cidr z) = Some net" "no_contains N net a"
    then obtain z' where "z' \<in> set (lg_subnets s)" "sr_cidr z' = sr_cidr z" using img by (metis imageE imageI)
    then show "\<not> is_public_unicast a" using p z(2,3) unfolding private_plan_def by metis
  qed
  ultimately show ?thesis
    using assms u img by (simp add: rezone_ok_def plant_unique_def macs_room_def capture_host_count_def plant_zoned_def hosts_known_def)
qed

lemma ten_zone_private:
  assumes "ten_zone N z" and "shows_ok N" and "no_parse N (sr_cidr z) = Some net" and "no_contains N net a"
  shows "\<not> is_public_unicast a"
proof -
  obtain n where n: "sr_cidr z = no_show N n" "\<And>a. no_contains N n a \<Longrightarrow> octet0 a = 0x0A"
    using assms(1) unfolding ten_zone_def by blast
  then have "net = n" using assms(2,3) by (simp add: shows_ok_def)
  then show ?thesis using n(2) [of a] assms(4) ten_private by blast
qed

lemma rezone_ok_grown:
  assumes g: "grown_by N vuln s n s'" and s: "rezone_ok N s" and N: "net_ok N" "shows_ok N"
  shows "rezone_ok N s'"
proof -
  obtain zs ds where e: "s' = s\<lparr>lg_subnets := lg_subnets s @ zs, lg_devices := lg_devices s @ ds\<rparr>"
    "\<forall>z \<in> set zs. ten_zone N z" "\<forall>d \<in> set ds. fab_device N vuln s' d"
    using g unfolding grown_by_def by blast
  have s': "ledger_ok s" "plant_unique s" "macs_room s" "plant_zoned N s" "hosts_known s" "private_plan N s"
    using s by (simp_all add: rezone_ok_def)
  have net: "\<not> is_public_unicast a" if "z \<in> set (lg_subnets s')" "no_parse N (sr_cidr z) = Some net" "no_contains N net a" for z net a
    using that s'(6) e(1,2) ten_zone_private [OF _ N(2) that(2,3)] by (auto simp: private_plan_def)
  have dev: "dr_subnet_cidr d \<in> sr_cidr ` set (lg_subnets s') \<and> no_parse N (dr_subnet_cidr d) \<noteq> None \<and>
      (\<forall>ip. ipv4_from_str (dr_ip d) = Some ip \<longrightarrow> \<not> is_public_unicast ip)" if d: "d \<in> set ds" for d
  proof -
    obtain p ip mac nt where f: "d = fabricated p ip mac (dr_subnet_cidr d)" "dr_subnet_cidr d \<in> sr_cidr ` set (lg_subnets s')"
      "no_parse N (dr_subnet_cidr d) = Some nt" "ip \<in> set (no_hosts N nt)"
      using e(3) d unfolding fab_device_def by blast
    have "dr_ip d = show_ipv4 ip" by (subst f(1)) (simp add: fabricated_def)
    moreover have "no_contains N nt ip" using f(4) N(1) unfolding net_ok_def by blast
    moreover obtain z where "z \<in> set (lg_subnets s')" "sr_cidr z = dr_subnet_cidr d" using f(2) by (metis imageE)
    ultimately show ?thesis using f(2,3) net [of z nt ip] by (auto simp: ipv4_show)
  qed
  have "plant_zoned N s'" using s'(4) dev e(1) by (auto simp: plant_zoned_def)
  moreover have "\<not> is_public_unicast a" if "a \<in> set (used_ips s')" for a
  proof -
    have "(\<exists>d \<in> set ds. ipv4_from_str (dr_ip d) = Some a) \<or> a \<in> set (used_ips s)"
      using that unfolding e(1) used_ips_iff by auto
    then show ?thesis using dev s'(6) by (auto simp: private_plan_def)
  qed
  then have "private_plan N s'" unfolding private_plan_def using net by blast
  moreover have "hosts_known s'" using s'(5) e(1) by (simp add: hosts_known_def)
  moreover have "ledger_ok s'" "plant_unique s'" "macs_room s'"
    using g s' grown_by_fixed [OF g] by (auto simp: grown_by_def)
  ultimately show ?thesis by (simp add: rezone_ok_def)
qed

lemma rezone_ok_evolves:
  assumes "ledger_evolves N vuln s s'" and "rezone_ok N s" and "net_ok N" "shows_ok N"
  shows "rezone_ok N s'"
proof -
  obtain n g where g: "grown_by N vuln s n g" "s' = g \<or> n = 0 \<and> s' = rename_zones_new_cycle (cycle_name (lg_cycle g + 1)) g"
    using assms(1) unfolding ledger_evolves_def by blast
  note ok = rezone_ok_grown [OF g(1) assms(2-4)]
  show ?thesis
  proof (cases "s' = g")
    case False
    then have s': "s' = rename_zones_new_cycle (cycle_name (lg_cycle g + 1)) g" using g(2) by blast
    have "map sr_cidr (lg_subnets s') = map sr_cidr (lg_subnets g)"
      unfolding s' rename_zones_new_cycle_def Let_def
      by (simp add: map2_cidr del: map_map map_zip_map2 map_zip_map)
    then show ?thesis by (rule rezone_ok_cong [OF ok]) (simp_all add: s' rename_zones_new_cycle_def Let_def)
  qed (use ok in simp)
qed

lemma rezone_ok_new: "rezone_ok N (ledger_new seed now)"
proof -
  have "used_ips (ledger_new seed now) = []" by (simp add: used_ips_def ledger_new_def List.map_filter_def)
  then show ?thesis using session_well_formed_new [of seed now]
    by (simp add: rezone_ok_def session_well_formed_def plant_zoned_def hosts_known_def private_plan_def ledger_new_def)
qed

section \<open>The caches\<close>

fun text_packets :: "'h pcap_text \<Rightarrow> packet list" where
  "text_packets (Whole c) = cap_packets c"
| "text_packets (Torn c) = cap_packets c"

text \<open>Frames for the wire: no public address, and within the link; a count of packets fits a counter.\<close>

definition packets_safe :: "rezone_cfg \<Rightarrow> packet list \<Rightarrow> bool" where
  "packets_safe cfg ps \<longleftrightarrow> length ps < 2 ^ 64 \<and>
     (\<forall>p \<in> set ps. frame_safe (pk_data p) \<and> length (pk_data p) \<le> rz_max_frame_bytes cfg)"

definition cached_safe :: "rezone_cfg \<Rightarrow> 'h pcap_text \<Rightarrow> bool" where
  "cached_safe cfg t \<longleftrightarrow> packets_safe cfg (text_packets t)"

definition caches_safe :: "rezone_cfg \<Rightarrow> (cache_place \<Rightarrow> 'h pcap_text cache_dir) \<Rightarrow> bool" where
  "caches_safe cfg caches \<longleftrightarrow> (\<forall>place. listing_ok (cd_files (caches place)) \<and>
     (\<forall>f \<in> set (cd_files (caches place)). cached_safe cfg (cf_content f)))"

definition remapper_ok :: "'n net_ops \<Rightarrow> rezone_cfg \<Rightarrow> ('r, 'h) remapper \<Rightarrow> bool" where
  "remapper_ok N cfg rm \<longleftrightarrow> sim_ok (rm_sim rm) \<and> rezone_ok N (si_ledger (rm_sim rm)) \<and> caches_safe cfg (rm_caches rm)"

lemma thin_ok:
  obtains cap' where "thin cfg cap = ret cap'" "set (cap_packets cap') \<subseteq> set (cap_packets cap)"
    "length (cap_packets cap') \<le> length (cap_packets cap)"
    "\<forall>p \<in> set (cap_packets cap'). length (pk_data p) \<le> rz_max_frame_bytes cfg"
    "rz_replay_arp cfg \<or> (\<forall>p \<in> set (cap_packets cap'). keep_not_arp (pk_data p) = ret True)"
proof -
  obtain c1 n1 where 1: "drop_oversize_frames cap (rz_max_frame_bytes cfg) = ret (c1, n1)"
    by (simp add: drop_oversize_frames_def size_filter.drop_eq)
  note s1 = size_filter.drop_survivors(1) [OF 1 [unfolded drop_oversize_frames_def]]
  show thesis
  proof (cases "rz_replay_arp cfg")
    case True
    then have "thin cfg cap = ret c1" by (simp add: thin_def 1)
    then show thesis by (rule that) (use True s1 drop_frames_length [OF 1 [unfolded drop_oversize_frames_def]] in \<open>auto simp: keep_size_def\<close>)
  next
    case False
    obtain c2 n2 where 2: "drop_arp_frames c1 = ret (c2, n2)" by (simp add: drop_arp_frames_def arp_filter.drop_eq)
    note s2 = arp_filter.drop_survivors(1) [OF 2 [unfolded drop_arp_frames_def]]
    have "thin cfg cap = ret c2" using False by (simp add: thin_def 1 2)
    then show thesis by (rule that) (use s1 s2 drop_frames_length [OF 1 [unfolded drop_oversize_frames_def]] drop_frames_length [OF 2 [unfolded drop_arp_frames_def]] in \<open>auto simp: keep_size_def\<close>)
  qed
qed

lemma pcap_write_packets:
  "pcap_write header res cap = Some t \<Longrightarrow> set (text_packets t) \<subseteq> set (cap_packets cap) \<and> length (text_packets t) \<le> length (cap_packets cap)"
  by (cases res) (auto simp: pcap_write_def dest: in_set_takeD)

lemma store_remap_ok:
  assumes c: "caches_safe cfg (rm_caches rm)"
    and p: "packets_safe cfg (cap_packets cap)"
    and r: "store_remap header pcap_len cfg io f cap rm = (res, rm')"
  shows "rm_sim rm' = rm_sim rm" "caches_safe cfg (rm_caches rm')"
    "\<And>place name. res = Inr (place, name) \<Longrightarrow> \<exists>g. lookup_file name (cd_files (rm_caches rm' place)) = Some g \<and>
       cf_content g = Whole (cap\<lparr>cap_header := header\<rparr>)"
proof -
  let ?place = "cache_place_of f" and ?s = "si_ledger (rm_sim rm)"
  let ?out = "cache_name cfg f (lg_seed ?s) (lg_registry_generation ?s)"
  let ?cd = "rm_caches rm ?place"
  have l: "listing_ok (cd_files ?cd)" using c by (simp add: caches_safe_def)
  have safe: "cached_safe cfg t" if "pcap_write header (ri_write io) cap = Some t" for t
    using pcap_write_packets [OF that] p by (auto simp: cached_safe_def packets_safe_def)
  have upd: "caches_safe cfg ((rm_caches rm)(?place := cd))"
    if "listing_ok (cd_files cd)" "set (cd_files cd) \<subseteq> insert (cached_file ?out pcap_len (ri_now io) t) (set (cd_files ?cd))"
      "cached_safe cfg t" for cd t
    using c that by (auto simp: caches_safe_def cached_file_def)
  have reg: "cf_regular (cached_file n pcap_len now t)" "cf_name (cached_file n pcap_len now t) = n" for n now t
    by (simp_all add: cached_file_def)
  have "rm_sim rm' = rm_sim rm \<and> caches_safe cfg (rm_caches rm') \<and> (\<forall>place name. res = Inr (place, name) \<longrightarrow>
     (\<exists>g. lookup_file name (cd_files (rm_caches rm' place)) = Some g \<and> cf_content g = Whole (cap\<lparr>cap_header := header\<rparr>)))"
  proof (cases "ri_mkdir_ok io")
    case False
    then show ?thesis using r c by (auto simp: store_remap_def)
  next
    case True
    show ?thesis
    proof (cases "ri_write io")
      case Written
      then have w: "pcap_write header (ri_write io) cap = Some (Whole (cap\<lparr>cap_header := header\<rparr>))" by (simp add: pcap_write_def)
      let ?g = "cached_file ?out pcap_len (ri_now io) (Whole (cap\<lparr>cap_header := header\<rparr>))"
      note k = settle_keeps [OF l reg(1) [of ?out "ri_now io" "Whole (cap\<lparr>cap_header := header\<rparr>)"],
          of "ri_readable io" "ri_removable io" "cache_budget cfg f"]
      have e: "res = Inr (?place, ?out)" "rm' = rm\<lparr>rm_caches := (rm_caches rm)(?place :=
          settle_cache (ri_readable io) (ri_removable io) (cache_budget cfg f) ?g ?cd)\<rparr>"
        using r True w by (auto simp: store_remap_def Let_def)
      have "lookup_file ?out (cd_files (rm_caches rm' ?place)) = Some ?g"
        using lookup_file_unique [OF k(1,3) reg(1)] unfolding e(2) by (simp add: reg(2))
      then show ?thesis using e upd [OF k(1,2) safe [OF w]] by (auto simp: cached_file_def)
    next
      case Not_Created
      then show ?thesis using r True c by (auto simp: store_remap_def Let_def pcap_write_def)
    next
      case (Cut_After n)
      let ?t = "Torn \<lparr>cap_header = header, cap_packets = take n (cap_packets cap)\<rparr>"
      have w: "pcap_write header (ri_write io) cap = Some ?t" using Cut_After by (simp add: pcap_write_def)
      have "res = Inl Not_Written" "rm' = rm\<lparr>rm_caches := (rm_caches rm)(?place := ?cd\<lparr>cd_files :=
          write_file (cached_file ?out pcap_len (ri_now io) ?t) (cd_files ?cd)\<rparr>)\<rparr>"
        using r True w by (auto simp: store_remap_def Let_def)
      then show ?thesis
        using upd [OF _ _ safe [OF w], of "?cd\<lparr>cd_files := write_file (cached_file ?out pcap_len (ri_now io) ?t) (cd_files ?cd)\<rparr>"]
          write_file_ok [OF l] write_file_set(1) by auto
    qed
  qed
  then show "rm_sim rm' = rm_sim rm" "caches_safe cfg (rm_caches rm')"
    "\<And>place name. res = Inr (place, name) \<Longrightarrow> \<exists>g. lookup_file name (cd_files (rm_caches rm' place)) = Some g \<and>
       cf_content g = Whole (cap\<lparr>cap_header := header\<rparr>)" by blast+
qed

section \<open>A remap\<close>

lemma only_ledger_cfg:
  "only_ledger sim sim' \<Longrightarrow> same_cfg sim sim' \<and> si_scenario sim' = si_scenario sim \<and> si_scheduler sim' = si_scheduler sim \<and>
     si_rng sim' = si_rng sim \<and> si_announce_count sim' = si_announce_count sim \<and> si_last_announce sim' = si_last_announce sim"
  by (cases sim; cases sim') (simp add: only_ledger_def same_cfg_def)

lemma sim_ok_registered:
  assumes "sim_ok sim" and o: "only_ledger sim sim'" and "lg_devices (si_ledger sim') = lg_devices (si_ledger sim)"
    and "rezone_ok N (si_ledger sim')"
  shows "sim_ok sim'"
proof -
  have "scenario_ok sim'"
    using assms(1) timeline_devices [OF assms(3)] only_ledger_cfg [OF o]
    by (cases "si_scenario sim") (simp_all add: sim_ok_def scenario_ok_def same_cfg_def)
  then show ?thesis using assms(1,4) only_ledger_cfg [OF o] by (simp add: sim_ok_def rezone_ok_def same_cfg_def)
qed

text \<open>
  What one call does: the session only gains assets, under the cap, and a successful call hands out a file of the cache.
\<close>

definition remap_step ::
  "'n net_ops \<Rightarrow> rezone_cfg \<Rightarrow> ('r, 'h) remapper \<Rightarrow> remap_error + cache_place \<times> string \<Rightarrow> ('r, 'h) remapper \<Rightarrow> bool" where
  "remap_step N cfg rm res rm' \<longleftrightarrow> remapper_ok N cfg rm' \<and> only_ledger (rm_sim rm) (rm_sim rm') \<and>
     (\<exists>as. si_ledger (rm_sim rm') = registered_with as (si_ledger (rm_sim rm))) \<and>
     total_wire_assets (si_ledger (rm_sim rm')) \<le>
       max (total_wire_assets (si_ledger (rm_sim rm))) (effective_asset_cap (rz_max_assets cfg)) \<and>
     (\<forall>place name. res = Inr (place, name) \<longrightarrow> lookup_file name (cd_files (rm_caches rm' place)) \<noteq> None)"

lemma remap_step_stay:
  assumes "remapper_ok N cfg rm"
    and "\<And>place name. res = Inr (place, name) \<Longrightarrow> lookup_file name (cd_files (rm_caches rm place)) \<noteq> None"
  shows "remap_step N cfg rm res rm"
  unfolding remap_step_def using assms only_ledger_refl
  by (intro conjI exI [of _ "[]"]) simp_all

lemma remap_new_file:
  assumes w: "remap_world N keys order below" and ok: "remapper_ok N cfg rm" and size: "length (cap_packets cap) < 2 ^ 64"
  obtains cap' sim' cap2 as where "rezone N keys order below seed_from cfg (ri_save_ok io) hints cap (rm_sim rm) = ret (cap', sim')"
    "thin cfg cap' = ret cap2" "set (cap_packets cap2) \<subseteq> set (cap_packets cap')"
    "si_ledger sim' = registered_with as (si_ledger (rm_sim rm))"
    "\<And>res rm'. store_remap header pcap_len cfg io f cap2 (rm\<lparr>rm_sim := sim'\<rparr>) = (res, rm') \<Longrightarrow> remap_step N cfg rm res rm'"
proof -
  have s: "sim_ok (rm_sim rm)" "rezone_ok N (si_ledger (rm_sim rm))" "caches_safe cfg (rm_caches rm)"
    using ok by (simp_all add: remapper_ok_def)
  obtain cap' sim' as where z: "rezone N keys order below seed_from cfg (ri_save_ok io) hints cap (rm_sim rm) = ret (cap', sim')"
    and l: "si_ledger sim' = registered_with as (si_ledger (rm_sim rm))" and r: "rezone_ok N (si_ledger sim')"
    and o: "only_ledger (rm_sim rm) sim'"
    and n: "total_wire_assets (si_ledger sim') \<le> max (total_wire_assets (si_ledger (rm_sim rm))) (effective_asset_cap (rz_max_assets cfg))"
    and p: "\<forall>p \<in> set (cap_packets cap'). frame_safe (pk_data p)" "length (cap_packets cap') \<le> length (cap_packets cap)"
    by (rule rezone_total [OF w s(2)])
  obtain cap2 where t: "thin cfg cap' = ret cap2" "set (cap_packets cap2) \<subseteq> set (cap_packets cap')"
    "length (cap_packets cap2) \<le> length (cap_packets cap')" "\<forall>p \<in> set (cap_packets cap2). length (pk_data p) \<le> rz_max_frame_bytes cfg"
    by (rule thin_ok)
  have safe: "packets_safe cfg (cap_packets cap2)"
    unfolding packets_safe_def
    by (intro conjI ballI) (use p t(2-4) size in \<open>auto dest: subsetD\<close>)
  have sim: "sim_ok sim'" by (rule sim_ok_registered [OF s(1) o _ r]) (simp add: l registered_with_fields)
  have step: "remap_step N cfg rm res rm'"
    if st: "store_remap header pcap_len cfg io f cap2 (rm\<lparr>rm_sim := sim'\<rparr>) = (res, rm')" for res rm'
  proof -
    have c: "caches_safe cfg (rm_caches (rm\<lparr>rm_sim := sim'\<rparr>))" using s(3) by simp
    note k = store_remap_ok [OF c safe st]
    show ?thesis using k(1,2) k(3) sim r o l n by (auto simp: remap_step_def remapper_ok_def)
  qed
  show thesis by (rule that [OF z t(1,2) l step])
qed

lemma remap_session_ok:
  assumes w: "remap_world N keys order below" and ok: "remapper_ok N cfg rm"
    and size: "\<And>cap. contents = Some cap \<Longrightarrow> length (cap_packets cap) < 2 ^ 64"
  obtains res rm' where
    "remap_into_session N keys order below seed_from header pcap_len cfg hints io meta contents rm = ret (res, rm')"
    "remap_step N cfg rm res rm'"
proof -
  let ?run = "remap_into_session N keys order below seed_from header pcap_len cfg hints io meta contents rm"
  have "\<exists>res rm'. ?run = ret (res, rm') \<and> remap_step N cfg rm res rm'"
  proof (cases meta)
    case None
    then show ?thesis using remap_step_stay [OF ok, of "Inl Stat_Failed"] by (simp add: remap_into_session_def)
  next
    case (Some f)
    let ?s = "si_ledger (rm_sim rm)"
    let ?out = "cache_name cfg f (lg_seed ?s) (lg_registry_generation ?s)"
    consider "rz_max_remap_bytes cfg < sf_size f" | "\<not> rz_max_remap_bytes cfg < sf_size f" "MAX_SHM_BYTES < sf_size f \<and> rz_skip_oversize cfg"
      | "\<not> rz_max_remap_bytes cfg < sf_size f" "\<not> (MAX_SHM_BYTES < sf_size f \<and> rz_skip_oversize cfg)" by blast
    then show ?thesis
    proof cases
      case 1
      then show ?thesis using Some remap_step_stay [OF ok, of "Inl (Over_Ceiling (sf_size f))"] by (simp add: remap_into_session_def)
    next
      case 2
      then show ?thesis using Some remap_step_stay [OF ok, of "Inl (Over_Tmpfs (sf_size f))"] by (simp add: remap_into_session_def)
    next
      case 3
      show ?thesis
      proof (cases "lookup_file ?out (cd_files (rm_caches rm (cache_place_of f))) \<noteq> None")
        case True
        then have "?run = ret (Inr (cache_place_of f, ?out), rm)"
          using Some 3 by (simp add: remap_into_session_def Let_def)
        then show ?thesis using True remap_step_stay [OF ok, of "Inr (cache_place_of f, ?out)"] by auto
      next
        case False
        show ?thesis
        proof (cases contents)
          case None
          then have "?run = ret (Inl Unreadable_Capture, rm)"
            using Some 3 False by (simp add: remap_into_session_def Let_def)
          then show ?thesis using remap_step_stay [OF ok, of "Inl Unreadable_Capture"] by auto
        next
          case (Some cap)
          obtain cap' sim' cap2 where
            z: "rezone N keys order below seed_from cfg (ri_save_ok io) hints cap (rm_sim rm) = ret (cap', sim')"
            "thin cfg cap' = ret cap2"
            and st: "\<And>res rm'. store_remap header pcap_len cfg io f cap2 (rm\<lparr>rm_sim := sim'\<rparr>) = (res, rm') \<Longrightarrow> remap_step N cfg rm res rm'"
            using remap_new_file [OF w ok size [OF Some], of seed_from io hints header pcap_len f] by metis
          obtain res rm' where r: "store_remap header pcap_len cfg io f cap2 (rm\<lparr>rm_sim := sim'\<rparr>) = (res, rm')" by fastforce
          have "?run = ret (res, rm')"
            using \<open>meta = Some f\<close> Some 3 False z r by (auto simp: remap_into_session_def Let_def)
          then show ?thesis using st [OF r] by blast
        qed
      qed
    qed
  qed
  then show thesis using that by blast
qed

end
