(* ===== verification/Daemon.thy ===== *)
theory Daemon
  imports Remapping
begin

text \<open>
  \<open>src/run/mod.rs\<close>: one iteration of the replay daemon, and what it puts on the wire.  The file picked, the answers of the
  file system and the clock are its input; what tcpreplay is started on is its output.
\<close>

section \<open>Code: an iteration\<close>

record run_cfg =
  ru_red :: bool
  ru_remap :: bool
  ru_guard :: bool
  ru_rezone :: rezone_cfg

text \<open>The file picked: its metadata, if it could be read, and its capture, if it parses.\<close>

record 'h picked =
  pd_meta :: "source_file option"
  pd_capture :: "'h capture option"

text \<open>\<open>is_torn_readable\<close> says whether a capture cut off in the middle still parses.\<close>

record 'h run_input =
  in_picked :: "'h picked option"
  in_io :: remap_io
  in_torn_readable :: bool
  in_promote_now :: u64
  in_promote_save :: bool
  in_promote_write :: bool
  in_tick_now :: u64
  in_tick_save :: bool
  in_tick_write :: bool

datatype run_state = Idle_No_Pcaps | Skipped_Remap_Failed remap_error | Skipped_Public_Source | Replaying

text \<open>What tcpreplay is started on.\<close>

datatype 'h wire_item = Original "'h capture option" | Remapped_File "'h pcap_text" | Promoted_File "'h capture" | Identity_Burst "'h capture"

fun read_text :: "bool \<Rightarrow> 'h pcap_text \<Rightarrow> 'h capture option" where
  "read_text torn (Whole c) = Some c"
| "read_text torn (Torn c) = (if torn then Some c else None)"

fun any_public :: "packet list \<Rightarrow> bool exec" where
  "any_public [] = ret False"
| "any_public (p # ps) = do { b \<leftarrow> carries_public_address (pk_data p); if b then ret True else any_public ps }"

definition has_public_source :: "u64 \<Rightarrow> 'h picked \<Rightarrow> bool exec" where
  "has_public_source max_bytes pd =
     (case pd_meta pd of
        None \<Rightarrow> ret True
      | Some f \<Rightarrow>
          if max_bytes < sf_size f then ret True
          else case pd_capture pd of None \<Rightarrow> ret True | Some cap \<Rightarrow> any_public (cap_packets cap))"

text \<open>The remap of an iteration: none in green mode or when it is off.\<close>

definition iteration_remap ::
  "('n, 'r, 'h) world \<Rightarrow> ('n list \<Rightarrow> 'n list) \<Rightarrow> (string list \<Rightarrow> string list) \<Rightarrow> (u64 \<Rightarrow> 'r) \<Rightarrow> ('h pcap_text \<Rightarrow> u64) \<Rightarrow> run_cfg
    \<Rightarrow> 'n list \<Rightarrow> remap_io \<Rightarrow> 'h picked \<Rightarrow> ('r, 'h) remapper option
    \<Rightarrow> ((remap_error + cache_place \<times> string) option \<times> ('r, 'h) remapper option) exec" where
  "iteration_remap w keys order seed_from pcap_len cfg hints io pd engine =
     (if ru_red cfg \<and> ru_remap cfg
      then case engine of
          None \<Rightarrow> ret (None, None)
        | Some rm \<Rightarrow> do {
            (res, rm) \<leftarrow> remap_into_session (wd_net w) keys order (wd_below w) seed_from (wd_header w) pcap_len (ru_rezone cfg)
              hints io (pd_meta pd) (pd_capture pd) rm;
            ret (Some res, Some rm)
          }
      else ret (None, engine))"

definition iteration_promote ::
  "('n, 'r, 'h) world \<Rightarrow> 'h run_input \<Rightarrow> 'h capture option \<Rightarrow> ('r, 'h) remapper option
    \<Rightarrow> ('h capture option \<times> ('r, 'h) remapper option) exec" where
  "iteration_promote w inp offered engine =
     (case engine of
        None \<Rightarrow> ret (None, None)
      | Some rm \<Rightarrow> do {
          (promoted, sim) \<leftarrow> maybe_promote (wd_net w) (wd_below w) (wd_gen w) (wd_byte w) (in_promote_save inp)
            (in_promote_write inp) offered (in_promote_now inp) (rm_sim rm);
          ret (promoted, Some (rm\<lparr>rm_sim := sim\<rparr>))
        })"

definition iteration_tick ::
  "('n, 'r, 'h) world \<Rightarrow> 'h run_input \<Rightarrow> u64 \<Rightarrow> ('r, 'h) remapper option
    \<Rightarrow> ('h capture option \<times> ('r, 'h) remapper option) exec" where
  "iteration_tick w inp run engine =
     (case engine of
        None \<Rightarrow> ret (None, None)
      | Some rm \<Rightarrow> do {
          (burst, sim) \<leftarrow> red_tick (wd_net w) (wd_below w) (wd_coin w) (wd_crc w) (wd_header w) (in_tick_save inp)
            (in_tick_write inp) run (in_tick_now inp) (rm_sim rm);
          ret (burst, Some (rm\<lparr>rm_sim := sim\<rparr>))
        })"

text \<open>The contents of the file the remap returned.\<close>

definition remapped_text :: "(remap_error + cache_place \<times> string) option \<Rightarrow> ('r, 'h) remapper option \<Rightarrow> 'h pcap_text option" where
  "remapped_text remapped engine =
     (case (remapped, engine) of
        (Some (Inr (place, name)), Some rm) \<Rightarrow> map_option cf_content (lookup_file name (cd_files (rm_caches rm place)))
      | _ \<Rightarrow> None)"

definition option_list :: "'a option \<Rightarrow> 'a list" where
  "option_list x = (case x of None \<Rightarrow> [] | Some a \<Rightarrow> [a])"

text \<open>The rest of an iteration, from the file to send on.\<close>

definition send_file ::
  "('n, 'r, 'h) world \<Rightarrow> run_cfg \<Rightarrow> 'h run_input \<Rightarrow> 'h picked \<Rightarrow> (remap_error + cache_place \<times> string) option
    \<Rightarrow> u64 \<times> ('r, 'h) remapper option \<Rightarrow> (run_state \<times> 'h wire_item list \<times> u64 \<times> ('r, 'h) remapper option) exec" where
  "send_file w cfg inp pd remapped st =
     (case st of (run, engine) \<Rightarrow> do {
        let text = remapped_text remapped engine;
        let offered = (if remapped = None then pd_capture pd else Option.bind text (read_text (in_torn_readable inp)));
        (promoted, engine) \<leftarrow> iteration_promote w inp offered engine;
        public \<leftarrow> (if ru_red cfg \<and> ru_guard cfg \<and> remapped = None \<and> promoted = None
          then has_public_source (rz_max_remap_bytes (ru_rezone cfg)) pd else ret False);
        if public then ret (Skipped_Public_Source, [], run + 1, engine)
        else do {
          let first = (case promoted of
              Some c \<Rightarrow> [Promoted_File c]
            | None \<Rightarrow> if remapped = None then [Original (pd_capture pd)] else map Remapped_File (option_list text));
          (burst, engine) \<leftarrow> iteration_tick w inp run engine;
          ret (Replaying, first @ map Identity_Burst (option_list burst), run + 1, engine)
        }
      })"

definition run_iteration ::
  "('n, 'r, 'h) world \<Rightarrow> ('n list \<Rightarrow> 'n list) \<Rightarrow> (string list \<Rightarrow> string list) \<Rightarrow> (u64 \<Rightarrow> 'r) \<Rightarrow> ('h pcap_text \<Rightarrow> u64) \<Rightarrow> run_cfg
    \<Rightarrow> 'n list \<Rightarrow> 'h run_input \<Rightarrow> u64 \<times> ('r, 'h) remapper option
    \<Rightarrow> (run_state \<times> 'h wire_item list \<times> u64 \<times> ('r, 'h) remapper option) exec" where
  "run_iteration w keys order seed_from pcap_len cfg hints inp st =
     (case st of (run, engine) \<Rightarrow>
        case in_picked inp of
          None \<Rightarrow> ret (Idle_No_Pcaps, [], run, engine)
        | Some pd \<Rightarrow> do {
            (remapped, engine) \<leftarrow> iteration_remap w keys order seed_from pcap_len cfg hints (in_io inp) pd engine;
            case remapped of
              Some (Inl err) \<Rightarrow> ret (Skipped_Remap_Failed err, [], run + 1, engine)
            | _ \<Rightarrow> send_file w cfg inp pd remapped (run, engine)
          })"

fun run_daemon ::
  "('n, 'r, 'h) world \<Rightarrow> ('n list \<Rightarrow> 'n list) \<Rightarrow> (string list \<Rightarrow> string list) \<Rightarrow> (u64 \<Rightarrow> 'r) \<Rightarrow> ('h pcap_text \<Rightarrow> u64) \<Rightarrow> run_cfg
    \<Rightarrow> 'n list \<Rightarrow> 'h run_input list \<Rightarrow> u64 \<times> ('r, 'h) remapper option
    \<Rightarrow> ((run_state \<times> 'h wire_item list) list \<times> u64 \<times> ('r, 'h) remapper option) exec" where
  "run_daemon w keys order seed_from pcap_len cfg hints [] st = ret ([], st)"
| "run_daemon w keys order seed_from pcap_len cfg hints (inp # inps) st = do {
     (state, items, st) \<leftarrow> run_iteration w keys order seed_from pcap_len cfg hints inp st;
     (outs, st) \<leftarrow> run_daemon w keys order seed_from pcap_len cfg hints inps st;
     ret ((state, items) # outs, st)
   }"

section \<open>Code: the start\<close>

text \<open>\<open>purge_remap_cache\<close>; \<open>kept\<close> names the files that could not be removed.\<close>

definition purge_remap_cache ::
  "(string \<Rightarrow> bool) \<Rightarrow> (cache_place \<Rightarrow> 'h pcap_text cache_dir) \<Rightarrow> cache_place \<Rightarrow> 'h pcap_text cache_dir" where
  "purge_remap_cache kept caches =
     caches(Tmpfs_Cache := (caches Tmpfs_Cache)\<lparr>cd_files := filter (\<lambda>f. kept (cf_name f)) (cd_files (caches Tmpfs_Cache))\<rparr>)"

text \<open>The engine of \<open>red\<close> over the caches on disk: purged, and with no size estimate yet.\<close>

definition start_engine :: "(string \<Rightarrow> bool) \<Rightarrow> (cache_place \<Rightarrow> 'h pcap_text cache_dir) \<Rightarrow> 'r sim \<Rightarrow> ('r, 'h) remapper" where
  "start_engine kept caches sim =
     \<lparr>rm_sim = sim, rm_caches = (\<lambda>place. (purge_remap_cache kept caches place)\<lparr>cd_estimate := None\<rparr>)\<rparr>"

section \<open>The engine between two iterations\<close>

definition engine_ok :: "('n, 'r, 'h) world \<Rightarrow> run_cfg \<Rightarrow> ('r, 'h) remapper option \<Rightarrow> bool" where
  "engine_ok w cfg engine \<longleftrightarrow>
     (case engine of
        None \<Rightarrow> \<not> ru_red cfg
      | Some rm \<Rightarrow> ru_red cfg \<and> remapper_ok (wd_net w) (ru_rezone cfg) rm \<and> sim_world w (rm_sim rm))"

text \<open>
  What an iteration may do to a session: a sealed one keeps its zones, its devices and its cycle; captured hosts are only
  appended, by a remap, under the cap.
\<close>

definition session_step :: "run_cfg \<Rightarrow> 'r sim \<Rightarrow> 'r sim \<Rightarrow> bool" where
  "session_step cfg sim sim' \<longleftrightarrow> si_sealed sim' = si_sealed sim \<and>
     (let s = si_ledger sim; s' = si_ledger sim'
      in si_sealed sim \<longrightarrow> lg_subnets s' = lg_subnets s \<and> lg_devices s' = lg_devices s \<and> lg_cycle s' = lg_cycle s \<and>
           (\<exists>as. lg_capture_hosts s' = lg_capture_hosts s @ as \<and> (as \<noteq> [] \<longrightarrow> ru_remap cfg)) \<and>
           total_wire_assets s' \<le> max (total_wire_assets s) (effective_asset_cap (rz_max_assets (ru_rezone cfg))))"

definition engine_step :: "run_cfg \<Rightarrow> ('r, 'h) remapper option \<Rightarrow> ('r, 'h) remapper option \<Rightarrow> bool" where
  "engine_step cfg e e' \<longleftrightarrow> rel_option (\<lambda>rm rm'. session_step cfg (rm_sim rm) (rm_sim rm')) e e'"

lemma session_step_refl: "session_step cfg sim sim"
  by (simp add: session_step_def Let_def)

lemma session_step_trans:
  assumes "session_step cfg a b" and "session_step cfg b c"
  shows "session_step cfg a c"
proof -
  have "si_sealed c = si_sealed a" using assms by (simp add: session_step_def)
  moreover have "lg_subnets (si_ledger c) = lg_subnets (si_ledger a) \<and> lg_devices (si_ledger c) = lg_devices (si_ledger a) \<and>
      lg_cycle (si_ledger c) = lg_cycle (si_ledger a) \<and>
      (\<exists>as. lg_capture_hosts (si_ledger c) = lg_capture_hosts (si_ledger a) @ as \<and> (as \<noteq> [] \<longrightarrow> ru_remap cfg)) \<and>
      total_wire_assets (si_ledger c) \<le> max (total_wire_assets (si_ledger a)) (effective_asset_cap (rz_max_assets (ru_rezone cfg)))"
    if sealed: "si_sealed a"
  proof -
    obtain as1 as2 where "lg_capture_hosts (si_ledger b) = lg_capture_hosts (si_ledger a) @ as1" "as1 \<noteq> [] \<longrightarrow> ru_remap cfg"
      "lg_capture_hosts (si_ledger c) = lg_capture_hosts (si_ledger b) @ as2" "as2 \<noteq> [] \<longrightarrow> ru_remap cfg"
      using assms sealed unfolding session_step_def Let_def by blast
    then have "lg_capture_hosts (si_ledger c) = lg_capture_hosts (si_ledger a) @ (as1 @ as2) \<and> (as1 @ as2 \<noteq> [] \<longrightarrow> ru_remap cfg)"
      by auto
    then have "\<exists>as. lg_capture_hosts (si_ledger c) = lg_capture_hosts (si_ledger a) @ as \<and> (as \<noteq> [] \<longrightarrow> ru_remap cfg)" by blast
    then show ?thesis using assms sealed unfolding session_step_def Let_def by auto
  qed
  ultimately show ?thesis unfolding session_step_def Let_def by blast
qed

lemma engine_step_refl: "engine_step cfg e e"
  by (simp add: engine_step_def option.rel_refl session_step_refl)

lemma engine_step_trans: "engine_step cfg a b \<Longrightarrow> engine_step cfg b c \<Longrightarrow> engine_step cfg a c"
  by (cases a; cases b; cases c) (auto simp: engine_step_def intro: session_step_trans)

definition input_ok :: "'h run_input \<Rightarrow> bool" where
  "input_ok inp \<longleftrightarrow>
     (\<forall>pd cap. in_picked inp = Some pd \<longrightarrow> pd_capture pd = Some cap \<longrightarrow> length (cap_packets cap) < 2 ^ 64)"

lemma start_engine_ok:
  assumes "sim_ok sim" and "rezone_ok N (si_ledger sim)" and "caches_safe cfg (purge_remap_cache kept caches)"
  shows "remapper_ok N cfg (start_engine kept caches sim)"
  using assms by (simp add: remapper_ok_def start_engine_def caches_safe_def)

lemma remap_stage_ok:
  assumes e: "engine_ok w cfg engine" and o: "hash_order keys" "hash_order order"
    and n: "\<And>cap. pd_capture pd = Some cap \<Longrightarrow> length (cap_packets cap) < 2 ^ 64"
  obtains remapped engine' where
    "iteration_remap w keys order seed_from pcap_len cfg hints io pd engine = ret (remapped, engine')" "engine_ok w cfg engine'"
    "engine_step cfg engine engine'" "remapped = None \<longleftrightarrow> \<not> (ru_red cfg \<and> ru_remap cfg)"
    "\<And>place name. remapped = Some (Inr (place, name)) \<Longrightarrow>
       \<exists>t. remapped_text remapped engine' = Some t \<and> cached_safe (ru_rezone cfg) t"
proof (cases "ru_red cfg \<and> ru_remap cfg")
  case False
  then show thesis by (intro that [of None engine]) (use e engine_step_refl in \<open>auto simp: iteration_remap_def\<close>)
next
  case True
  then obtain rm where rm: "engine = Some rm" "remapper_ok (wd_net w) (ru_rezone cfg) rm" "sim_world w (rm_sim rm)"
    using e by (cases engine) (auto simp: engine_ok_def)
  have w: "remap_world (wd_net w) keys order (wd_below w)"
    using rm(3) o by (simp add: remap_world_def sim_world_def fab_world_def)
  obtain res rm' where r: "remap_into_session (wd_net w) keys order (wd_below w) seed_from (wd_header w) pcap_len (ru_rezone cfg)
      hints io (pd_meta pd) (pd_capture pd) rm = ret (res, rm')" "remap_step (wd_net w) (ru_rezone cfg) rm res rm'"
    using remap_session_ok [OF w rm(2), of "pd_capture pd"] n by metis
  have ok: "remapper_ok (wd_net w) (ru_rezone cfg) rm'" and cfg: "same_cfg (rm_sim rm) (rm_sim rm')"
    using r(2) only_ledger_cfg by (auto simp: remap_step_def)
  have "engine_ok w cfg (Some rm')" using True ok rm(3) sim_world_cfg [OF cfg, of w] by (simp add: engine_ok_def)
  moreover have "\<exists>t. remapped_text (Some res) (Some rm') = Some t \<and> cached_safe (ru_rezone cfg) t"
    if "res = Inr (place, name)" for place name
  proof -
    have "lookup_file name (cd_files (rm_caches rm' place)) \<noteq> None" using r(2) that unfolding remap_step_def by blast
    then obtain f where f: "lookup_file name (cd_files (rm_caches rm' place)) = Some f" by blast
    then have "f \<in> set (cd_files (rm_caches rm' place))" using lookup_file_in by blast
    then show ?thesis using ok f that by (auto simp: remapped_text_def remapper_ok_def caches_safe_def)
  qed
  moreover have "engine_step cfg (Some rm) (Some rm')"
  proof -
    obtain as where as: "si_ledger (rm_sim rm') = registered_with as (si_ledger (rm_sim rm))"
      "total_wire_assets (si_ledger (rm_sim rm')) \<le>
         max (total_wire_assets (si_ledger (rm_sim rm))) (effective_asset_cap (rz_max_assets (ru_rezone cfg)))"
      using r(2) unfolding remap_step_def by blast
    moreover have "si_sealed (rm_sim rm') = si_sealed (rm_sim rm)" using cfg by (simp add: same_cfg_def)
    ultimately show ?thesis using True by (simp add: engine_step_def session_step_def Let_def) (simp add: registered_with_def)
  qed
  ultimately show thesis using True rm(1) r(1) by (intro that [of "Some res" "Some rm'"]) (auto simp: iteration_remap_def)
qed

section \<open>What a promotion writes\<close>

text \<open>A frame whose only public addresses are \<open>ext\<close>.\<close>

definition only_public :: "ipv4 \<Rightarrow> bytes \<Rightarrow> bool" where
  "only_public ext d \<longleftrightarrow> frame_safe d \<or>
     (\<exists>l. parse_layout d = ret (Some l) \<and> fl_l3_kind l = L3_Ipv4 \<and>
        (\<forall>o3 \<in> {12, 16}. word32_at d (fl_l3 l + o3) = ext \<or> \<not> is_public_unicast (word32_at d (fl_l3 l + o3))))"

lemma promote_packet_only_public:
  assumes "promote_packet host ext m d = ret d'" and "length m = 6" and "frame_safe d"
  shows "only_public ext d' \<and> length d' = length d"
proof -
  obtain r where r: "pf_parse d = ret r" using pf_parse_total by blast
  show ?thesis
  proof (cases "\<exists>f. r = Some f \<and> is_ipv4 f")
    case True
    then obtain f where f: "pf_parse d = ret (Some f)" "is_ipv4 f" using r by blast
    then have l: "parse_layout d = ret (Some (pf_layout f))" "fl_l3_kind (pf_layout f) = L3_Ipv4"
      using pf_parse_ok [OF f(1)] by (auto simp: pf_ok_def is_ipv4_def)
    obtain d2 where d2: "promote_packet host ext m d = ret d2" "parse_layout d2 = ret (Some (pf_layout f))"
      "word32_at d2 (fl_l3 (pf_layout f) + 12) = subst [host \<mapsto> ext] (word32_at d (fl_l3 (pf_layout f) + 12))"
      "word32_at d2 (fl_l3 (pf_layout f) + 16) = subst [host \<mapsto> ext] (word32_at d (fl_l3 (pf_layout f) + 16))"
      "agree_on (- rewrite_bytes (pf_layout f)) d d2"
      by (rule promote_packet_ipv4 [OF l assms(2)]) blast
    have "\<not> is_public_unicast (word32_at d (fl_l3 (pf_layout f) + 12))" "\<not> is_public_unicast (word32_at d (fl_l3 (pf_layout f) + 16))"
      using carries_public_eq [OF l(1)] l(2) assms(3) by (simp_all add: frame_safe_def)
    then have "only_public ext d2"
      unfolding only_public_def using d2(2-4) l(2)
      by (intro disjI2 exI [of _ "pf_layout f"]) (simp add: subst_def)
    then show ?thesis using d2(1,5) assms(1) by (simp add: agree_on_def)
  next
    case False
    with r have "promote_packet host ext m d = ret d" by (cases r) (auto intro!: promote_packet_other)
    then show ?thesis using assms(1,3) by (simp add: only_public_def)
  qed
qed

lemma promotion_only_public:
  assumes "promotion N oui cidrs now cap out p" and "packets_safe cfg (cap_packets cap)"
  obtains ext where "is_public_unicast ext" "\<forall>q \<in> set (cap_packets out). only_public ext (pk_data q) \<and> length (pk_data q) \<le> rz_max_frame_bytes cfg"
proof -
  obtain host ext m where p: "is_public_unicast ext" "length m = 6" "promoted_packets host ext m (cap_packets cap) (cap_packets out)"
    using assms(1) unfolding promotion_def by blast
  have "only_public ext (pk_data q) \<and> length (pk_data q) \<le> rz_max_frame_bytes cfg" if q: "q \<in> set (cap_packets out)" for q
  proof -
    obtain p0 where p0: "p0 \<in> set (cap_packets cap)" "promote_packet host ext m (pk_data p0) = ret (pk_data q)"
      using promoted_packets_in [OF p(3) q] by blast
    then show ?thesis
      using promote_packet_only_public [OF p0(2) p(2)] assms(2) by (auto simp: packets_safe_def)
  qed
  then show thesis using that p(1) by blast
qed

section \<open>The stages of an iteration\<close>

lemma keeps_engine:
  assumes "remapper_ok N cfg rm" and "sim_ok sim'" and "rezone_ok N (si_ledger sim')"
  shows "remapper_ok N cfg (rm\<lparr>rm_sim := sim'\<rparr>)"
  using assms by (simp add: remapper_ok_def)

lemma promote_stage_ok:
  assumes e: "engine_ok w cfg engine" and n: "\<And>cap. offered = Some cap \<Longrightarrow> length (cap_packets cap) < 2 ^ 64"
  obtains promoted engine' where "iteration_promote w inp offered engine = ret (promoted, engine')" "engine_ok w cfg engine'"
    "engine_step cfg engine engine'" "\<And>t res. remapped_text res engine' = remapped_text res engine"
    "\<And>out. promoted = Some out \<Longrightarrow> ru_red cfg \<and> (\<exists>cap oui cidrs now p. offered = Some cap \<and> promotion (wd_net w) oui cidrs now cap out p)"
proof (cases engine)
  case None
  then show thesis by (intro that [of None None]) (use e engine_step_refl in \<open>simp_all add: iteration_promote_def\<close>)
next
  case (Some rm)
  then have rm: "ru_red cfg" "remapper_ok (wd_net w) (ru_rezone cfg) rm" "sim_world w (rm_sim rm)"
    using e by (simp_all add: engine_ok_def)
  then have g: "gen_ok (wd_gen w)" "below_ok (wd_below w)" "sim_ok (rm_sim rm)" "rezone_ok (wd_net w) (si_ledger (rm_sim rm))"
    by (simp_all add: sim_world_def fab_world_def remapper_ok_def)
  obtain out sim' new t where r: "maybe_promote (wd_net w) (wd_below w) (wd_gen w) (wd_byte w) (in_promote_save inp)
      (in_promote_write inp) offered (in_promote_now inp) (rm_sim rm) = ret (out, sim')" "sim_ok sim'" "same_cfg (rm_sim rm) sim'"
    "si_ledger sim' = (si_ledger (rm_sim rm))\<lparr>lg_promoted := lg_promoted (si_ledger (rm_sim rm)) @ new, lg_last_threat_unix := t\<rparr>"
    using maybe_promote_ok [OF g(1,2) n g(3)] by metis
  have l: "rezone_ok (wd_net w) (si_ledger sim')" by (rule rezone_ok_cong [OF g(4)]) (simp_all add: r(4))
  have "engine_ok w cfg (Some (rm\<lparr>rm_sim := sim'\<rparr>))"
    using rm keeps_engine [OF rm(2) r(2) l] sim_world_cfg [OF r(3), of w] by (simp add: engine_ok_def)
  moreover have "iteration_promote w inp offered engine = ret (out, Some (rm\<lparr>rm_sim := sim'\<rparr>))"
    by (simp add: Some iteration_promote_def r(1))
  moreover have "ru_red cfg \<and> (\<exists>cap oui cidrs now p. offered = Some cap \<and> promotion (wd_net w) oui cidrs now cap c p)" if out: "out = Some c" for c
  proof -
    obtain cap p where "offered = Some cap"
      "promotion (wd_net w) (si_oui (rm_sim rm)) (si_external_cidrs (rm_sim rm)) (in_promote_now inp) cap c p"
      by (rule maybe_promote_out [OF r(1) [unfolded out] g(2) n], assumption, rule that)
    then show ?thesis using rm(1) by blast
  qed
  moreover have "engine_step cfg engine (Some (rm\<lparr>rm_sim := sim'\<rparr>))"
    using r(3,4) by (simp add: Some engine_step_def session_step_def Let_def same_cfg_def total_wire_assets_def capture_host_count_def device_count_def)
  ultimately show thesis using Some
    by (intro that [of out "Some (rm\<lparr>rm_sim := sim'\<rparr>)"]) (auto simp: remapped_text_def split: option.splits sum.splits)
qed

lemma tick_stage_ok:
  assumes e: "engine_ok w cfg engine"
  obtains burst engine' where "iteration_tick w inp run engine = ret (burst, engine')" "engine_ok w cfg engine'"
    "engine_step cfg engine engine'" "\<And>c. burst = Some c \<Longrightarrow> ru_red cfg \<and> (\<forall>p \<in> set (cap_packets c). length (pk_data p) \<le> 1514)"
proof (cases engine)
  case None
  then show thesis by (intro that [of None None]) (use e engine_step_refl in \<open>simp_all add: iteration_tick_def\<close>)
next
  case (Some rm)
  then have rm: "ru_red cfg" "remapper_ok (wd_net w) (ru_rezone cfg) rm" "sim_world w (rm_sim rm)"
    using e by (simp_all add: engine_ok_def)
  have f: "fab_world (wd_net w) (wd_below w) (si_vuln (rm_sim rm))" using rm(3) by (simp add: sim_world_def)
  then have N: "net_ok (wd_net w)" "shows_ok (wd_net w)" by (simp_all add: fab_world_def)
  have s: "sim_ok (rm_sim rm)" "rezone_ok (wd_net w) (si_ledger (rm_sim rm))" using rm(2) by (simp_all add: remapper_ok_def)
  obtain out sim' where r: "red_tick (wd_net w) (wd_below w) (wd_coin w) (wd_crc w) (wd_header w) (in_tick_save inp)
      (in_tick_write inp) run (in_tick_now inp) (rm_sim rm) = ret (out, sim')" "sim_ok sim'" "same_cfg (rm_sim rm) sim'"
    "ledger_evolves (wd_net w) (si_vuln (rm_sim rm)) (si_ledger (rm_sim rm)) (si_ledger sim')"
    "si_sealed (rm_sim rm) \<Longrightarrow> si_ledger sim' = si_ledger (rm_sim rm)" "\<forall>cap. out = Some cap \<longrightarrow> (\<forall>p \<in> set (cap_packets cap). length (pk_data p) \<le> 1514)"
    by (rule red_tick_ok [OF f s(1), where coin = "wd_coin w" and crc = "wd_crc w" and header = "wd_header w" and
        save_ok = "in_tick_save inp" and write_ok = "in_tick_write inp" and run = run and now = "in_tick_now inp"], rule that)
  have "engine_ok w cfg (Some (rm\<lparr>rm_sim := sim'\<rparr>))"
    using rm keeps_engine [OF rm(2) r(2) rezone_ok_evolves [OF r(4) s(2) N]] sim_world_cfg [OF r(3), of w]
    by (simp add: engine_ok_def)
  moreover have "engine_step cfg engine (Some (rm\<lparr>rm_sim := sim'\<rparr>))"
    using r(3,5) by (simp add: Some engine_step_def session_step_def Let_def same_cfg_def)
  ultimately show thesis using Some r(1,6) rm(1)
    by (intro that [of out "Some (rm\<lparr>rm_sim := sim'\<rparr>)"]) (simp_all add: iteration_tick_def)
qed

lemma carries_public_total: "\<exists>b. carries_public_address d = ret b"
proof -
  obtain r where r: "parse_layout d = ret r" using parse_layout_total by blast
  show ?thesis
  proof (cases r)
    case (Some l)
    show ?thesis
    proof (cases "fl_l3_kind l")
      case L3_Ipv4
      then show ?thesis using carries_public_eq(1) r Some by blast
    next
      case L3_Other
      have b: "14 \<le> fl_l3 l" "fl_l3 l \<le> length d" using layout_l3_bounds r Some by blast+
      then have t: "rd_be16 d (fl_l3 l - 2) = ret (word16_at d (fl_l3 l - 2))" by (intro rd_be16_range) simp_all
      show ?thesis
      proof (cases "arp_shape d (fl_l3 l)")
        case True
        then show ?thesis using carries_public_eq(2) r Some L3_Other by blast
      next
        case False
        then show ?thesis using r Some L3_Other b t ipv6_total [of d "fl_l3 l"] by (auto simp: carries_public_address_def is_arp_ipv4_eq)
      qed
    qed
  qed (simp add: carries_public_address_def r)
qed

lemma any_public_total: "\<exists>b. any_public ps = ret b \<and> (\<not> b \<longrightarrow> (\<forall>p \<in> set ps. frame_safe (pk_data p)))"
proof (induction ps)
  case (Cons p ps)
  obtain b where "carries_public_address (pk_data p) = ret b" using carries_public_total by blast
  then show ?case using Cons by (cases b) (auto simp: frame_safe_def)
qed simp

lemma guard_ok:
  "\<exists>b. has_public_source mx pd = ret b \<and>
     (\<not> b \<longrightarrow> (\<exists>cap. pd_capture pd = Some cap \<and> (\<forall>p \<in> set (cap_packets cap). frame_safe (pk_data p))))"
  using any_public_total by (auto simp: has_public_source_def split: option.splits)

section \<open>What goes on the wire\<close>

text \<open>What may be sent: an original file only where the configuration lets it through.\<close>

definition frames_safe :: "packet list \<Rightarrow> bool" where
  "frames_safe ps \<longleftrightarrow> (\<forall>p \<in> set ps. frame_safe (pk_data p))"

fun wire_ok :: "run_cfg \<Rightarrow> 'h wire_item \<Rightarrow> bool" where
  "wire_ok cfg (Original c) =
     (\<not> (ru_red cfg \<and> ru_remap cfg) \<and> (ru_red cfg \<and> ru_guard cfg \<longrightarrow> (\<exists>cap. c = Some cap \<and> frames_safe (cap_packets cap))))"
| "wire_ok cfg (Remapped_File t) = (ru_red cfg \<and> ru_remap cfg \<and> cached_safe (ru_rezone cfg) t)"
| "wire_ok cfg (Promoted_File c) =
     (ru_red cfg \<and> (ru_remap cfg \<longrightarrow> (\<exists>ext. is_public_unicast ext \<and>
        (\<forall>p \<in> set (cap_packets c). only_public ext (pk_data p) \<and> length (pk_data p) \<le> rz_max_frame_bytes (ru_rezone cfg)))))"
| "wire_ok cfg (Identity_Burst c) = (ru_red cfg \<and> (\<forall>p \<in> set (cap_packets c). length (pk_data p) \<le> 1514))"

text \<open>An iteration that replays sends one capture and at most one burst; another one sends nothing.\<close>

definition sends_ok :: "run_cfg \<Rightarrow> run_state \<Rightarrow> 'h wire_item list \<Rightarrow> bool" where
  "sends_ok cfg state items \<longleftrightarrow> (\<forall>x \<in> set items. wire_ok cfg x) \<and>
     (if state = Replaying then \<exists>x bs. items = x # map Identity_Burst bs \<and> length bs \<le> 1 else items = [])"

lemma read_text_size:
  "cached_safe cfg t \<Longrightarrow> read_text torn t = Some cap \<Longrightarrow> packets_safe cfg (cap_packets cap)"
  by (cases t) (auto simp: cached_safe_def split: if_splits)

lemma send_file_ok:
  assumes e: "engine_ok w cfg engine" and n: "\<And>cap. pd_capture pd = Some cap \<Longrightarrow> length (cap_packets cap) < 2 ^ 64"
    and off: "remapped = None \<longleftrightarrow> \<not> (ru_red cfg \<and> ru_remap cfg)"
    and tx: "remapped \<noteq> None \<Longrightarrow> \<exists>t. remapped_text remapped engine = Some t \<and> cached_safe (ru_rezone cfg) t"
  obtains state items engine' where "send_file w cfg inp pd remapped (run, engine) = ret (state, items, run + 1, engine')"
    "engine_ok w cfg engine'" "engine_step cfg engine engine'" "sends_ok cfg state items"
proof -
  let ?text = "remapped_text remapped engine"
  let ?offered = "if remapped = None then pd_capture pd else Option.bind ?text (read_text (in_torn_readable inp))"
  have read: "packets_safe (ru_rezone cfg) (cap_packets cap)" if "?offered = Some cap" "remapped \<noteq> None" for cap
    using tx [OF that(2)] that read_text_size by (auto simp: Option.bind_eq_Some_conv)
  have size: "length (cap_packets cap) < 2 ^ 64" if "?offered = Some cap" for cap
    using n read [OF that] that by (cases "remapped = None") (auto simp: packets_safe_def)
  obtain promoted engine1 where p: "iteration_promote w inp ?offered engine = ret (promoted, engine1)" "engine_ok w cfg engine1"
    "engine_step cfg engine engine1" "\<And>out. promoted = Some out \<Longrightarrow> ru_red cfg \<and> (\<exists>cap oui cidrs now p. ?offered = Some cap \<and> promotion (wd_net w) oui cidrs now cap out p)"
    by (rule promote_stage_ok [OF e size], assumption, rule that)
  define first where "first = (case promoted of Some c \<Rightarrow> [Promoted_File c]
    | None \<Rightarrow> if remapped = None then [Original (pd_capture pd)] else map Remapped_File (option_list ?text))"
  obtain burst engine2 where t: "iteration_tick w inp run engine1 = ret (burst, engine2)" "engine_ok w cfg engine2"
    "engine_step cfg engine1 engine2" "\<And>c. burst = Some c \<Longrightarrow> ru_red cfg \<and> (\<forall>p \<in> set (cap_packets c). length (pk_data p) \<le> 1514)"
    by (rule tick_stage_ok [OF p(2)], rule that)
  obtain b where b: "(if ru_red cfg \<and> ru_guard cfg \<and> remapped = None \<and> promoted = None
      then has_public_source (rz_max_remap_bytes (ru_rezone cfg)) pd else ret False) = ret b"
    "\<not> b \<Longrightarrow> ru_red cfg \<and> ru_guard cfg \<and> remapped = None \<and> promoted = None \<Longrightarrow>
       \<exists>cap. pd_capture pd = Some cap \<and> frames_safe (cap_packets cap)"
  proof (cases "ru_red cfg \<and> ru_guard cfg \<and> remapped = None \<and> promoted = None")
    case True
    obtain b where "has_public_source (rz_max_remap_bytes (ru_rezone cfg)) pd = ret b"
      "\<not> b \<longrightarrow> (\<exists>cap. pd_capture pd = Some cap \<and> frames_safe (cap_packets cap))"
      using guard_ok [of "rz_max_remap_bytes (ru_rezone cfg)" pd] unfolding frames_safe_def by blast
    then show thesis using that [of b] True by simp
  next
    case False
    then show thesis using that [of False] by (simp only: if_False False simp_thms)
  qed
  show thesis
  proof (cases b)
    case True
    have "send_file w cfg inp pd remapped (run, engine) = ret (Skipped_Public_Source, [], run + 1, engine1)"
      unfolding send_file_def Let_def prod.case p(1) bind.bind_lunit b(1) using True by simp
    then show thesis by (rule that) (use p(2,3) in \<open>simp_all add: sends_ok_def\<close>)
  next
    case False
    have run: "send_file w cfg inp pd remapped (run, engine) =
        ret (Replaying, first @ map Identity_Burst (option_list burst), run + 1, engine2)"
      unfolding send_file_def Let_def prod.case p(1) bind.bind_lunit b(1) first_def using False by (simp add: t(1))
    have "\<exists>x. first = [x] \<and> wire_ok cfg x"
    proof (cases promoted)
      case None
      then show ?thesis
        using off tx b(2) [OF False] by (cases "remapped = None") (auto simp: first_def option_list_def)
    next
      case (Some out)
      obtain cap oui cidrs now q where q: "ru_red cfg" "?offered = Some cap" "promotion (wd_net w) oui cidrs now cap out q"
        using p(4) [OF Some] by blast
      have "\<exists>ext. is_public_unicast ext \<and> (\<forall>p \<in> set (cap_packets out). only_public ext (pk_data p) \<and>
          length (pk_data p) \<le> rz_max_frame_bytes (ru_rezone cfg))" if "ru_remap cfg"
        using promotion_only_public [OF q(3) read [OF q(2)]] q(1) off that by metis
      then show ?thesis using Some q(1) by (simp add: first_def)
    qed
    moreover have "\<forall>c \<in> set (option_list burst). wire_ok cfg (Identity_Burst c)" "length (option_list burst) \<le> 1"
      using t(4) by (auto simp: option_list_def split: option.splits)
    ultimately have "sends_ok cfg Replaying (first @ map Identity_Burst (option_list burst))"
      unfolding sends_ok_def by auto
    then show thesis by (rule that [OF run t(2) engine_step_trans [OF p(3) t(3)]])
  qed
qed

lemma iteration_ok:
  assumes e: "engine_ok w cfg engine" and o: "hash_order keys" "hash_order order" and i: "input_ok inp"
  obtains state items run' engine' where
    "run_iteration w keys order seed_from pcap_len cfg hints inp (run, engine) = ret (state, items, run', engine')"
    "engine_ok w cfg engine'" "engine_step cfg engine engine'" "sends_ok cfg state items"
proof (cases "in_picked inp")
  case None
  then show thesis
    by (intro that [of Idle_No_Pcaps "[]" run engine]) (use e engine_step_refl in \<open>simp_all add: run_iteration_def sends_ok_def\<close>)
next
  case (Some pd)
  have n: "length (cap_packets cap) < 2 ^ 64" if "pd_capture pd = Some cap" for cap
    using i Some that by (simp add: input_ok_def)
  obtain remapped engine1 where r:
    "iteration_remap w keys order seed_from pcap_len cfg hints (in_io inp) pd engine = ret (remapped, engine1)" "engine_ok w cfg engine1"
    "engine_step cfg engine engine1" "remapped = None \<longleftrightarrow> \<not> (ru_red cfg \<and> ru_remap cfg)"
    "\<And>place name. remapped = Some (Inr (place, name)) \<Longrightarrow>
       \<exists>t. remapped_text remapped engine1 = Some t \<and> cached_safe (ru_rezone cfg) t"
    using remap_stage_ok [OF e o n] by metis
  show thesis
  proof (cases "\<exists>err. remapped = Some (Inl err)")
    case True
    then obtain err where err: "remapped = Some (Inl err)" by blast
    then have "run_iteration w keys order seed_from pcap_len cfg hints inp (run, engine) =
        ret (Skipped_Remap_Failed err, [], run + 1, engine1)"
      using Some r(1) by (simp add: run_iteration_def)
    then show thesis by (rule that) (use r(2,3) in \<open>simp_all add: sends_ok_def\<close>)
  next
    case False
    have tx: "\<exists>t. remapped_text remapped engine1 = Some t \<and> cached_safe (ru_rezone cfg) t" if "remapped \<noteq> None"
      using False that r(5) by (cases "the remapped") auto
    obtain state items engine2 where
      s: "send_file w cfg inp pd remapped (run, engine1) = ret (state, items, run + 1, engine2)" "engine_ok w cfg engine2"
      "engine_step cfg engine1 engine2" "sends_ok cfg state items"
      by (rule send_file_ok [OF r(2) n r(4) tx])
    have "run_iteration w keys order seed_from pcap_len cfg hints inp (run, engine) = ret (state, items, run + 1, engine2)"
      using Some r(1) s(1) False by (cases "the remapped"; cases remapped) (auto simp: run_iteration_def)
    then show thesis by (rule that [OF _ s(2) engine_step_trans [OF r(3) s(3)] s(4)])
  qed
qed

lemma daemon_ok:
  assumes "engine_ok w cfg engine" and o: "hash_order keys" "hash_order order" and "\<forall>inp \<in> set inps. input_ok inp"
  shows "\<exists>outs run' engine'. run_daemon w keys order seed_from pcap_len cfg hints inps (run, engine) = ret (outs, run', engine') \<and>
    engine_ok w cfg engine' \<and> engine_step cfg engine engine' \<and> (\<forall>(state, items) \<in> set outs. sends_ok cfg state items)"
  using assms(1,4)
proof (induction inps arbitrary: run engine)
  case (Cons inp inps)
  obtain state items run1 engine1 where 1: "run_iteration w keys order seed_from pcap_len cfg hints inp (run, engine) = ret (state, items, run1, engine1)"
    "engine_ok w cfg engine1" "engine_step cfg engine engine1" "sends_ok cfg state items"
    using iteration_ok [OF Cons.prems(1) o] Cons.prems(2) by (metis list.set_intros(1))
  obtain outs run2 engine2 where 2: "run_daemon w keys order seed_from pcap_len cfg hints inps (run1, engine1) = ret (outs, run2, engine2)"
    "engine_ok w cfg engine2" "engine_step cfg engine1 engine2" "\<forall>(state, items) \<in> set outs. sends_ok cfg state items"
    using Cons.IH [OF 1(2), of run1] Cons.prems(2) by auto
  have "run_daemon w keys order seed_from pcap_len cfg hints (inp # inps) (run, engine) = ret ((state, items) # outs, run2, engine2)"
    using 1(1) 2(1) by simp
  then show ?case
    using 2(2,4) 1(4) engine_step_trans [OF 1(3) 2(3)] by (intro exI [of _ "(state, items) # outs"] exI [of _ run2] exI [of _ engine2]) simp
qed (simp add: engine_step_refl)

end
