(* ===== verification/Pinned.thy ===== *)
theory Pinned
  imports Enrich
begin

text \<open>
  \<open>src/scenario/plant.rs\<close>: the plant of a scenario, pinned into a sealed ledger, and the lint of its devices.  The YAML
  parser is a parameter: a specification is given as its fields, or missing if the file could not be read or parsed.
\<close>

section \<open>Code\<close>

record zone_spec =
  zo_cidr :: string
  zo_name :: string
  zo_purdue_level :: u8
  zo_vendor :: "string option"

record device_spec =
  dv_zone :: string
  dv_model :: "string option"
  dv_ip :: "string option"
  dv_hostname :: "string option"
  dv_asset_type :: "string option"
  dv_vendor :: "string option"
  dv_firmware :: "string option"
  dv_protocol :: "string option"

record plant_spec =
  pl_zones :: "zone_spec list"
  pl_devices :: "device_spec list"
  pl_domains :: "string list"
  pl_enrich :: bool

datatype pin_error = No_Plant | Bad_Zone string | Zone_Not_Added string | Undeclared_Zone string | Bad_Device_Ip string
  | Bad_Device_Zone string | Zone_Exhausted string | Ip_Collides ipv4 | Not_Pinned ipv4

definition pinned_mac :: "oui_db \<Rightarrow> string \<Rightarrow> bytes option \<Rightarrow> u64 \<Rightarrow> ipv4 \<Rightarrow> mac" where
  "pinned_mac oui vendor profile_oui seed ip =
     (let salt = ucast ip;
          low = stable_mac seed ip;
          pre = (case (case profile_oui of Some p \<Rightarrow> Some p | None \<Rightarrow> oui_for_vendor oui vendor salt) of
                   Some p \<Rightarrow> p | None \<Rightarrow> it_pool_oui salt)
      in [pre ! 0, pre ! 1, pre ! 2, low ! 3, low ! 4, low ! 5])"

definition label_for_proto :: "profile_proto \<Rightarrow> string" where
  "label_for_proto p = (if p = Proto_Switch_Snmp then ''Switch'' else ''Controller'')"

datatype slot_warning = Station_Slot ipv4 | Gateway_Slot ipv4

definition reserved_slot_warning :: "'n net_ops \<Rightarrow> ipv4 \<Rightarrow> string \<Rightarrow> bool \<Rightarrow> slot_warning option" where
  "reserved_slot_warning N ip zone enrich =
     (if ip = station_addr N zone then Some (Station_Slot ip)
      else if enrich \<and> ip = firewall_addr N zone then Some (Gateway_Slot ip)
      else None)"

definition reserved_slot_lint :: "'n net_ops \<Rightarrow> plant_spec \<Rightarrow> slot_warning list" where
  "reserved_slot_lint N spec =
     List.map_filter (\<lambda>d. Option.bind (Option.bind (dv_ip d) ipv4_from_str)
       (\<lambda>ip. reserved_slot_warning N ip (dv_zone d) (pl_enrich spec))) (pl_devices spec)"

subsection \<open>The zones\<close>

definition zone_record :: "zone_spec \<Rightarrow> subnet_record" where
  "zone_record z = \<lparr>sr_cidr = zo_cidr z, sr_zone_name = zo_name z, sr_purdue_level = zo_purdue_level z,
     sr_vendor = zo_vendor z, sr_domain = None\<rparr>"

fun pin_zones :: "'n net_ops \<Rightarrow> zone_spec list \<Rightarrow> ledger \<Rightarrow> pin_error + ledger" where
  "pin_zones N [] s = Inr s"
| "pin_zones N (z # zs) s =
     (if no_parse N (zo_cidr z) = None then Inl (Bad_Zone (zo_cidr z))
      else let (s, added) = add_subnet (zone_record z) s
           in if added then pin_zones N zs s else Inl (Zone_Not_Added (zo_cidr z)))"

subsection \<open>The devices\<close>

definition pin_ip :: "'n net_ops \<Rightarrow> device_spec \<Rightarrow> ledger \<Rightarrow> pin_error + ipv4" where
  "pin_ip N d s =
     (case dv_ip d of
        Some t \<Rightarrow> (case ipv4_from_str t of Some ip \<Rightarrow> Inr ip | None \<Rightarrow> Inl (Bad_Device_Ip t))
      | None \<Rightarrow>
          (case no_parse N (dv_zone d) of
             None \<Rightarrow> Inl (Bad_Device_Zone (dv_zone d))
           | Some net \<Rightarrow>
               (case next_free_in N net (set (used_ips s)) of
                  Some ip \<Rightarrow> Inr ip | None \<Rightarrow> Inl (Zone_Exhausted (dv_zone d)))))"

definition pinned_record :: "vuln_db \<Rightarrow> oui_db \<Rightarrow> u64 \<Rightarrow> device_spec \<Rightarrow> ipv4 \<Rightarrow> device_record" where
  "pinned_record vuln oui seed d ip =
     (let profile = Option.bind (dv_model d) (by_model vuln);
          (vendor, model, firmware, protocol, cves, prefix, asset_type) =
            (case profile of
               Some p \<Rightarrow>
                 (dp_vendor p, dp_model p, dp_firmware p, proto_as_str (dp_protocol p), dp_cves p, oui_prefix p,
                  case dv_asset_type d of Some t \<Rightarrow> t | None \<Rightarrow> label_for_proto (dp_protocol p))
             | None \<Rightarrow>
                 (case dv_vendor d of Some v \<Rightarrow> v | None \<Rightarrow> [],
                  case dv_model d of Some m \<Rightarrow> m | None \<Rightarrow> (case dv_asset_type d of Some t \<Rightarrow> t | None \<Rightarrow> ''Device''),
                  case dv_firmware d of Some f \<Rightarrow> f | None \<Rightarrow> ''1.0'',
                  case dv_protocol d of Some p \<Rightarrow> p | None \<Rightarrow> ''none'',
                  [], None,
                  case dv_asset_type d of Some t \<Rightarrow> t | None \<Rightarrow> ''Controller''))
      in \<lparr>dr_ip = show_ipv4 ip, dr_mac = fmt_mac (pinned_mac oui vendor prefix seed ip), dr_vendor = vendor, dr_model = model,
          dr_firmware = firmware, dr_protocol = protocol, dr_cves = cves, dr_subnet_cidr = dv_zone d,
          dr_hostname = dv_hostname d, dr_asset_type = Some asset_type\<rparr>)"

text \<open>The ledger with the devices, and the names the specification gives, by address.\<close>

fun pin_devices ::
  "'n net_ops \<Rightarrow> vuln_db \<Rightarrow> oui_db \<Rightarrow> u64 \<Rightarrow> device_spec list \<Rightarrow> ledger \<times> (string \<times> string) list
    \<Rightarrow> pin_error + ledger \<times> (string \<times> string) list" where
  "pin_devices N vuln oui seed [] st = Inr st"
| "pin_devices N vuln oui seed (d # ds) (s, names) =
     (if \<not> has_subnet s (dv_zone d) then Inl (Undeclared_Zone (dv_zone d))
      else case pin_ip N d s of
        Inl e \<Rightarrow> Inl e
      | Inr ip \<Rightarrow>
          let rec = pinned_record vuln oui seed d ip;
              names = names @ (case dv_hostname d of Some h \<Rightarrow> [(show_ipv4 ip, h)] | None \<Rightarrow> [])
          in if ip \<in> set (used_ips s) then Inl (Ip_Collides ip)
             else let (s, added) = add_device rec s
                  in if added then pin_devices N vuln oui seed ds (s, names) else Inl (Not_Pinned ip))"

subsection \<open>The names\<close>

definition zone_domain_map :: "ledger \<Rightarrow> string \<Rightarrow> string option" where
  "zone_domain_map s =
     fold (\<lambda>sn m. case sr_domain sn of Some dn \<Rightarrow> m(sr_cidr sn \<mapsto> dn) | None \<Rightarrow> m) (lg_subnets s) (\<lambda>_. None)"

definition full_name :: "(string \<Rightarrow> string option) \<Rightarrow> string \<Rightarrow> string \<Rightarrow> string" where
  "full_name domains cidr name =
     (case domains cidr of
        Some dn \<Rightarrow> if CHR ''.'' \<notin> set name then name @ ''.'' @ dn else name
      | None \<Rightarrow> name)"

text \<open>\<open>find(|d| d.ip == ip)\<close>, and the name it is given.\<close>

fun name_at :: "(string \<Rightarrow> string option) \<Rightarrow> string \<times> string \<Rightarrow> device_record list \<Rightarrow> device_record list" where
  "name_at domains (ip, name) [] = []"
| "name_at domains (ip, name) (d # ds) =
     (if dr_ip d = ip then d\<lparr>dr_hostname := Some (full_name domains (dr_subnet_cidr d) name)\<rparr> # ds
      else d # name_at domains (ip, name) ds)"

definition build_sealed_session ::
  "'n net_ops \<Rightarrow> vuln_db \<Rightarrow> oui_db \<Rightarrow> plant_spec \<Rightarrow> u64 \<Rightarrow> u64 \<Rightarrow> string \<Rightarrow> string list \<Rightarrow> (pin_error + ledger) exec" where
  "build_sealed_session N vuln oui spec seed now scenario fallback =
     (case pin_zones N (pl_zones spec) (ledger_new seed now) of
        Inl e \<Rightarrow> ret (Inl e)
      | Inr s \<Rightarrow>
          (case pin_devices N vuln oui seed (pl_devices spec) (s, []) of
             Inl e \<Rightarrow> ret (Inl e)
           | Inr (s, names) \<Rightarrow> do {
               let domains = (if pl_domains spec = [] then fallback else pl_domains spec);
               let s = assign_domains s domains seed;
               s \<leftarrow> (if pl_enrich spec then enrich_plant N vuln oui seed s else ret s);
               let s = s\<lparr>lg_devices := fold (name_at (zone_domain_map s)) names (lg_devices s)\<rparr>;
               ret (Inr (s\<lparr>lg_sealed := True, lg_target_devices := device_count s, lg_scenario := Some scenario\<rparr>))
             }))"

definition pin_from_pack ::
  "'n net_ops \<Rightarrow> plant_spec option \<Rightarrow> string \<Rightarrow> vuln_db \<Rightarrow> oui_db \<Rightarrow> u64 \<Rightarrow> u64 \<Rightarrow> string list \<Rightarrow> (pin_error + ledger) exec" where
  "pin_from_pack N plant name vuln oui seed now fallback =
     (case plant of
        None \<Rightarrow> ret (Inl No_Plant)
      | Some spec \<Rightarrow> build_sealed_session N vuln oui spec seed now name fallback)"

section \<open>Zones and devices\<close>

lemma pin_zones_ok:
  assumes "pin_zones N zs s = Inr s'" and "ledger_ok s"
  shows "s' = s\<lparr>lg_subnets := lg_subnets s @ map zone_record zs\<rparr> \<and> ledger_ok s' \<and> (\<forall>z \<in> set zs. no_parse N (zo_cidr z) \<noteq> None)"
  using assms
proof (induction zs arbitrary: s)
  case (Cons z zs)
  obtain s1 added where a: "add_subnet (zone_record z) s = (s1, added)" by fastforce
  then have s1: "added" "pin_zones N zs s1 = Inr s'" "no_parse N (zo_cidr z) \<noteq> None"
    using Cons.prems(1) by (auto split: if_splits)
  then have e: "s1 = s\<lparr>lg_subnets := lg_subnets s @ [zone_record z]\<rparr>" "ledger_ok s1"
    using a Cons.prems(2) by (fastforce simp: add_subnet_def ledger_ok_def has_subnet_def list_ex_iff split: if_splits)+
  show ?case using Cons.IH [OF s1(2) e(2)] s1(3) by (auto simp: e(1))
qed simp

text \<open>Where a device may go: to the address it names, or to a free slot that is neither gateway nor station.\<close>

definition pin_slot :: "'n net_ops \<Rightarrow> device_spec \<Rightarrow> ipv4 \<Rightarrow> bool" where
  "pin_slot N d ip \<longleftrightarrow>
     (case dv_ip d of
        Some t \<Rightarrow> ipv4_from_str t = Some ip
      | None \<Rightarrow> \<exists>net. no_parse N (dv_zone d) = Some net \<and> ip \<in> set (no_hosts N net) \<and>
          ip \<noteq> gateway_of N net \<and> ip \<noteq> station_addr_net N net)"

lemma pin_ip_slot: "pin_ip N d s = Inr ip \<Longrightarrow> pin_slot N d ip"
  using next_free_in_Some by (fastforce simp: pin_ip_def pin_slot_def split: option.splits)

lemma pinned_record_sel [simp]:
  "dr_ip (pinned_record vuln oui seed d ip) = show_ipv4 ip" "dr_subnet_cidr (pinned_record vuln oui seed d ip) = dv_zone d"
  "dr_hostname (pinned_record vuln oui seed d ip) = dv_hostname d"
  by (simp_all add: pinned_record_def Let_def split: option.splits)

definition pinned :: "'n net_ops \<Rightarrow> vuln_db \<Rightarrow> oui_db \<Rightarrow> u64 \<Rightarrow> device_spec \<Rightarrow> device_record \<Rightarrow> bool" where
  "pinned N vuln oui seed d dev \<longleftrightarrow> (\<exists>ip. dev = pinned_record vuln oui seed d ip \<and> pin_slot N d ip)"

definition spec_names :: "device_spec list \<Rightarrow> device_record list \<Rightarrow> (string \<times> string) list" where
  "spec_names ds devs = concat (map2 (\<lambda>d dev. case dv_hostname d of Some h \<Rightarrow> [(dr_ip dev, h)] | None \<Rightarrow> []) ds devs)"

lemma pin_devices_ok:
  assumes "pin_devices N vuln oui seed ds (s, names) = Inr (s', names')" and "ledger_ok s" and "distinct (used_ips s)"
    and "lg_capture_hosts s = []"
  shows "\<exists>devs. s' = s\<lparr>lg_devices := lg_devices s @ devs\<rparr> \<and> list_all2 (pinned N vuln oui seed) ds devs \<and>
    names' = names @ spec_names ds devs \<and> ledger_ok s' \<and> distinct (used_ips s') \<and>
    (\<forall>d \<in> set ds. has_subnet s (dv_zone d))"
  using assms
proof (induction ds arbitrary: s names)
  case Nil
  then show ?case by (simp add: spec_names_def)
next
  case (Cons d ds)
  have sub: "has_subnet s (dv_zone d)" using Cons.prems(1) by (simp split: if_splits)
  obtain ip where ip: "pin_ip N d s = Inr ip" using Cons.prems(1) sub by (cases "pin_ip N d s") simp_all
  let ?rec = "pinned_record vuln oui seed d ip"
  let ?names = "names @ (case dv_hostname d of Some h \<Rightarrow> [(show_ipv4 ip, h)] | None \<Rightarrow> [])"
  obtain s1 added where a: "add_device ?rec s = (s1, added)" by fastforce
  have r: "ip \<notin> set (used_ips s)" "added" "pin_devices N vuln oui seed ds (s1, ?names) = Inr (s', names')"
    using Cons.prems(1) sub ip a by (auto simp: Let_def split: if_splits)
  have s1: "s1 = s\<lparr>lg_devices := lg_devices s @ [?rec]\<rparr>" "ledger_ok s1"
    using a r(2) Cons.prems(2) by (auto simp: add_device_def ledger_ok_def split: if_splits)
  have u: "used_ips s1 = used_ips s @ [ip]"
    using Cons.prems(4) by (simp add: used_ips_def s1(1) List.map_filter_def ipv4_show)
  have "\<exists>devs. s' = s1\<lparr>lg_devices := lg_devices s1 @ devs\<rparr> \<and> list_all2 (pinned N vuln oui seed) ds devs \<and>
    names' = ?names @ spec_names ds devs \<and> ledger_ok s' \<and> distinct (used_ips s') \<and> (\<forall>d \<in> set ds. has_subnet s1 (dv_zone d))"
    by (rule Cons.IH [OF r(3) s1(2)]) (use u Cons.prems(3,4) r(1) in \<open>simp_all add: s1(1)\<close>)
  then obtain devs where devs: "s' = s1\<lparr>lg_devices := lg_devices s1 @ devs\<rparr>" "list_all2 (pinned N vuln oui seed) ds devs"
    "names' = ?names @ spec_names ds devs" "ledger_ok s'" "distinct (used_ips s')" "\<forall>d \<in> set ds. has_subnet s1 (dv_zone d)" by blast
  have "pinned N vuln oui seed d ?rec" using pin_ip_slot [OF ip] by (auto simp: pinned_def)
  then show ?case
    using devs sub by (intro exI [of _ "?rec # devs"]) (auto simp: s1(1) spec_names_def has_subnet_def split: option.splits)
qed

section \<open>Names\<close>

lemma name_at_unnamed: "map unnamed (name_at domains p ds) = map unnamed ds"
  by (induction domains p ds rule: name_at.induct) (simp_all add: unnamed_def)

lemma names_at_unnamed: "map unnamed (fold (name_at domains) names ds) = map unnamed ds"
  by (induction names arbitrary: ds) (simp_all add: name_at_unnamed)

lemma name_at_map:
  assumes "distinct (map dr_ip core)" and "ip \<in> dr_ip ` set core"
  shows "name_at domains (ip, name) (core @ ds) =
    map (\<lambda>d. if dr_ip d = ip then d\<lparr>dr_hostname := Some (full_name domains (dr_subnet_cidr d) name)\<rparr> else d) core @ ds"
  using assms
proof (induction core)
  case (Cons c core)
  show ?case
  proof (cases "dr_ip c = ip")
    case True
    then have "map (\<lambda>d. if dr_ip d = ip then d\<lparr>dr_hostname := Some (full_name domains (dr_subnet_cidr d) name)\<rparr> else d) core = core"
      using Cons.prems(1) True by (intro map_idI) (auto, metis imageI)
    then show ?thesis using True by simp
  next
    case False
    then show ?thesis using Cons by auto
  qed
qed simp

text \<open>Every name of the list ends up at its device.\<close>

definition named_by :: "(string \<Rightarrow> string option) \<Rightarrow> (string \<times> string) list \<Rightarrow> device_record \<Rightarrow> device_record" where
  "named_by domains names d =
     (case map_of names (dr_ip d) of
        None \<Rightarrow> d | Some name \<Rightarrow> d\<lparr>dr_hostname := Some (full_name domains (dr_subnet_cidr d) name)\<rparr>)"

lemma names_at_map:
  assumes "distinct (map dr_ip core)" and "fst ` set names \<subseteq> dr_ip ` set core" and "distinct (map fst names)"
  shows "fold (name_at domains) names (core @ ds) = map (named_by domains names) core @ ds"
  using assms
proof (induction names arbitrary: core)
  case Nil
  then show ?case by (simp add: named_by_def)
next
  case (Cons p names)
  obtain ip name where p: "p = (ip, name)" by fastforce
  let ?f = "\<lambda>d. if dr_ip d = ip then d\<lparr>dr_hostname := Some (full_name domains (dr_subnet_cidr d) name)\<rparr> else d"
  have f1: "map dr_ip (map ?f core) = map dr_ip core" by simp
  have f: "map dr_ip (map ?f core) = map dr_ip core" "dr_ip ` set (map ?f core) = dr_ip ` set core"
    using f1 by (simp_all only: f1 flip: set_map)
  have step: "name_at domains (ip, name) (core @ ds) = map ?f core @ ds"
    by (rule name_at_map) (use Cons.prems in \<open>auto simp: p\<close>)
  have ih: "fold (name_at domains) names (map ?f core @ ds) = map (named_by domains names) (map ?f core) @ ds"
    by (rule Cons.IH) (use Cons.prems f in \<open>simp_all only: p list.map fst_conv distinct.simps list.set image_insert insert_subset\<close>)
  have ipn: "map_of names ip = None" using Cons.prems(3) by (simp add: p map_of_eq_None_iff)
  have "named_by domains names (?f d) = named_by domains (p # names) d" for d
    using ipn by (simp add: named_by_def p)
  then show ?case by (simp add: p step ih)
qed

lemma spec_names_Cons: "spec_names (d # ds) (dev # devs) =
    (case dv_hostname d of Some h \<Rightarrow> [(dr_ip dev, h)] | None \<Rightarrow> []) @ spec_names ds devs"
  by (simp add: spec_names_def)

lemma spec_names_keys:
  assumes "length ds = length devs"
  shows "fst ` set (spec_names ds devs) \<subseteq> dr_ip ` set devs" "distinct (map dr_ip devs) \<Longrightarrow> distinct (map fst (spec_names ds devs))"
proof -
  have k: "fst ` set (spec_names ds devs) \<subseteq> dr_ip ` set devs" if "length ds = length devs" for ds devs
    using that
  proof (induction ds devs rule: list_induct2)
    case (Cons d ds dev devs)
    then show ?case by (cases "dv_hostname d") (auto simp: spec_names_Cons)
  qed (simp add: spec_names_def)
  show "fst ` set (spec_names ds devs) \<subseteq> dr_ip ` set devs" by (rule k [OF assms])
  show "distinct (map fst (spec_names ds devs))" if "distinct (map dr_ip devs)"
    using assms that
  proof (induction ds devs rule: list_induct2)
    case (Cons d ds dev devs)
    have "dr_ip dev \<notin> fst ` set (spec_names ds devs)" using k [OF Cons.hyps] Cons.prems by auto
    then show ?case using Cons.IH Cons.prems by (cases "dv_hostname d") (simp_all add: spec_names_Cons)
  qed (simp add: spec_names_def)
qed

lemma spec_names_at:
  assumes "length ds = length devs" and "distinct (map dr_ip devs)" and "i < length ds"
  shows "map_of (spec_names ds devs) (dr_ip (devs ! i)) = dv_hostname (ds ! i)"
  using assms
proof (induction ds devs arbitrary: i rule: list_induct2)
  case (Cons d ds dev devs)
  have keys: "fst ` set (spec_names ds devs) \<subseteq> dr_ip ` set devs" by (rule spec_names_keys(1) [OF Cons.hyps])
  show ?case
  proof (cases i)
    case 0
    have "dr_ip dev \<notin> fst ` set (spec_names ds devs)" using keys Cons.prems(1) by auto
    then have "map_of (spec_names ds devs) (dr_ip dev) = None" by (simp add: map_of_eq_None_iff)
    then show ?thesis unfolding spec_names_Cons 0 by (cases "dv_hostname d") simp_all
  next
    case (Suc j)
    then have "dr_ip (devs ! j) \<noteq> dr_ip dev" using Cons.prems Cons.hyps by (auto simp: image_iff) (metis nth_mem)
    then show ?thesis using Cons.IH [of j] Cons.prems Suc unfolding spec_names_Cons by (cases "dv_hostname d") auto
  qed
qed (simp add: spec_names_def)

section \<open>The sealed plan\<close>

lemma distinct_used_texts:
  assumes "\<forall>x \<in> set devs. \<exists>ip. dr_ip x = show_ipv4 ip" and "lg_capture_hosts s = []"
  shows "distinct (used_ips (s\<lparr>lg_devices := devs\<rparr>)) \<longleftrightarrow> distinct (map dr_ip devs)"
proof -
  have "used_ips (s\<lparr>lg_devices := devs\<rparr>) = map (the \<circ> ipv4_from_str) (map dr_ip devs)"
    using assms(1) by (induction devs) (auto simp: used_ips_def assms(2) List.map_filter_def ipv4_show)
  moreover have "inj_on (the \<circ> ipv4_from_str) (set (map dr_ip devs))"
    using assms(1) by (auto simp: inj_on_def) (metis ipv4_show option.sel)
  ultimately show ?thesis by (simp only: distinct_map simp_thms)
qed

text \<open>A device of the specification in the plan: its identity, its address, and its name.\<close>

definition pinned_as ::
  "'n net_ops \<Rightarrow> vuln_db \<Rightarrow> oui_db \<Rightarrow> u64 \<Rightarrow> (string \<Rightarrow> string option) \<Rightarrow> device_spec \<Rightarrow> device_record \<Rightarrow> bool" where
  "pinned_as N vuln oui seed domains d dev \<longleftrightarrow>
     (\<exists>ip. pin_slot N d ip \<and> unnamed dev = unnamed (pinned_record vuln oui seed d ip)) \<and>
     (\<forall>h. dv_hostname d = Some h \<longrightarrow> dr_hostname dev = Some (full_name domains (dv_zone d) h))"

definition sealed_from :: "'n net_ops \<Rightarrow> vuln_db \<Rightarrow> oui_db \<Rightarrow> plant_spec \<Rightarrow> u64 \<Rightarrow> string \<Rightarrow> ledger \<Rightarrow> bool" where
  "sealed_from N vuln oui spec seed scenario s \<longleftrightarrow>
     lg_sealed s \<and> lg_scenario s = Some scenario \<and> lg_target_devices s = device_count s \<and> lg_seed s = seed \<and>
     lg_capture_hosts s = [] \<and> ledger_ok s \<and> distinct (used_ips s) \<and>
     map (\<lambda>z. z\<lparr>sr_domain := None\<rparr>) (lg_subnets s) = map zone_record (pl_zones spec) \<and>
     (\<exists>core extra. lg_devices s = core @ extra \<and>
        list_all2 (pinned_as N vuln oui seed (zone_domain_map s)) (pl_devices spec) core \<and>
        (\<forall>d \<in> set extra. bom_device N vuln d) \<and> (\<not> pl_enrich spec \<longrightarrow> extra = []) \<and>
        (distinct (map (parse_mac \<circ> dr_mac) core) \<longrightarrow> plant_unique s))"

lemma assign_domains_records:
  "map (\<lambda>z. z\<lparr>sr_domain := None\<rparr>) (lg_subnets (assign_domains s ds seed)) = map (\<lambda>z. z\<lparr>sr_domain := None\<rparr>) (lg_subnets s)"
  "lg_seed (assign_domains s ds seed) = lg_seed s"
proof -
  have "map ((\<lambda>z. z\<lparr>sr_domain := None\<rparr>) \<circ> (\<lambda>(i, sn). sn\<lparr>sr_domain := Some (f i)\<rparr>)) (enumerate n zs) = map (\<lambda>z. z\<lparr>sr_domain := None\<rparr>) zs"
    for f n and zs :: "subnet_record list"
    by (induction zs arbitrary: n) simp_all
  then show "map (\<lambda>z. z\<lparr>sr_domain := None\<rparr>) (lg_subnets (assign_domains s ds seed)) = map (\<lambda>z. z\<lparr>sr_domain := None\<rparr>) (lg_subnets s)"
    by (simp add: assign_domains_def)
qed (simp add: assign_domains_def)

text \<open>The middle of the build: domains, and the bill of materials if it is asked for.\<close>

lemma enrich_stage:
  assumes "ledger_ok s" and "lg_capture_hosts s = []" and "distinct (used_ips s)"
  obtains s' core extra where "(if on then enrich_plant N vuln oui seed s else ret s) = ret s'"
    "s' = s\<lparr>lg_devices := core @ extra\<rparr>" "map unnamed core = map unnamed (lg_devices s)" "\<forall>d \<in> set extra. bom_device N vuln d"
    "\<not> on \<longrightarrow> extra = []" "ledger_ok s'" "distinct (used_ips s')" "plant_unique s \<longrightarrow> plant_unique s'"
proof (cases on)
  case True
  have "macs_room s" using assms(2) by (simp add: macs_room_def capture_host_count_def MAX_DEVICES_def)
  then obtain s' where s': "enrich_plant N vuln oui seed s = ret s'" "enriched N vuln s s'" by (rule enrich_ok [OF assms(1)])
  then obtain core extra where "s' = s\<lparr>lg_devices := core @ extra\<rparr>" "map unnamed core = map unnamed (lg_devices s)"
    "\<forall>d \<in> set extra. bom_device N vuln d" unfolding enriched_def by blast
  then show thesis using that [of s' core extra] s' True assms by (simp add: enriched_def)
next
  case False
  then show thesis using that [of s "lg_devices s" "[]"] assms by simp
qed

lemma pinned_names:
  assumes p: "list_all2 (pinned N vuln oui seed) ds devs" and u: "map unnamed core = map unnamed devs" and d: "distinct (map dr_ip devs)"
  shows "list_all2 (pinned_as N vuln oui seed domains) ds (map (named_by domains (spec_names ds devs)) core)"
proof (rule list_all2_all_nthI)
  have len: "length ds = length devs" "length core = length devs"
    using list_all2_lengthD [OF p] map_eq_imp_length_eq [OF u] by simp_all
  then show "length ds = length (map (named_by domains (spec_names ds devs)) core)" by simp
  fix i assume i: "i < length ds"
  obtain ip where ip: "devs ! i = pinned_record vuln oui seed (ds ! i) ip" "pin_slot N (ds ! i) ip"
    using list_all2_nthD [OF p i] by (auto simp: pinned_def)
  have ui: "unnamed (core ! i) = unnamed (devs ! i)" using arg_cong [OF u, of "\<lambda>xs. xs ! i"] i len by simp
  note e = unnamed_eq [OF ui]
  have nm: "named_by domains (spec_names ds devs) (core ! i) =
      (case dv_hostname (ds ! i) of None \<Rightarrow> core ! i
       | Some h \<Rightarrow> (core ! i)\<lparr>dr_hostname := Some (full_name domains (dv_zone (ds ! i)) h)\<rparr>)"
    using spec_names_at [OF len(1) d i] e(2) ip(1) by (cases "dv_hostname (ds ! i)") (simp_all add: named_by_def e(1))
  have "unnamed (named_by domains (spec_names ds devs) (core ! i)) = unnamed (core ! i)"
    unfolding nm by (simp add: unnamed_def split: option.split)
  then show "pinned_as N vuln oui seed domains (ds ! i) (map (named_by domains (spec_names ds devs)) core ! i)"
    unfolding pinned_as_def using ip i len ui nm by auto
qed

lemma build_ok:
  obtains r where "build_sealed_session N vuln oui spec seed now scenario fallback = ret r"
    "\<And>s. r = Inr s \<Longrightarrow> sealed_from N vuln oui spec seed scenario s"
    "\<And>s. r = Inr s \<Longrightarrow> \<forall>d \<in> set (pl_devices spec). dv_zone d \<in> zo_cidr ` set (pl_zones spec)"
proof (cases "pin_zones N (pl_zones spec) (ledger_new seed now)")
  case (Inl e)
  then show thesis by (intro that [of "Inl e"]) (simp_all add: build_sealed_session_def)
next
  case z: (Inr s1)
  have s1: "s1 = (ledger_new seed now)\<lparr>lg_subnets := map zone_record (pl_zones spec)\<rparr>" "ledger_ok s1"
    using pin_zones_ok [OF z ledger_new_ok] by (simp add: ledger_new_def) (use pin_zones_ok [OF z ledger_new_ok] in blast)
  have u1: "used_ips s1 = []" "lg_capture_hosts s1 = []" "lg_devices s1 = []" "lg_seed s1 = seed"
    by (simp_all add: s1(1) used_ips_def ledger_new_def List.map_filter_def)
  show thesis
  proof (cases "pin_devices N vuln oui seed (pl_devices spec) (s1, [])")
    case (Inl e)
    then show thesis using z by (intro that [of "Inl e"]) (simp_all add: build_sealed_session_def)
  next
    case (Inr st)
    obtain s2 names where st: "st = (s2, names)" by fastforce
    have "\<exists>devs. s2 = s1\<lparr>lg_devices := lg_devices s1 @ devs\<rparr> \<and> list_all2 (pinned N vuln oui seed) (pl_devices spec) devs \<and>
      names = [] @ spec_names (pl_devices spec) devs \<and> ledger_ok s2 \<and> distinct (used_ips s2) \<and>
      (\<forall>d \<in> set (pl_devices spec). has_subnet s1 (dv_zone d))"
      by (rule pin_devices_ok [OF Inr [unfolded st] s1(2)]) (simp_all add: u1)
    then obtain devs where s2: "s2 = s1\<lparr>lg_devices := devs\<rparr>" "list_all2 (pinned N vuln oui seed) (pl_devices spec) devs"
      "names = spec_names (pl_devices spec) devs" "ledger_ok s2" "distinct (used_ips s2)"
      "\<forall>d \<in> set (pl_devices spec). has_subnet s1 (dv_zone d)" by (auto simp: u1)
    define s3 where "s3 = assign_domains s2 (if pl_domains spec = [] then fallback else pl_domains spec) seed"
    have s3: "lg_devices s3 = devs" "lg_capture_hosts s3 = []" "lg_seed s3 = seed"
      "map (\<lambda>z. z\<lparr>sr_domain := None\<rparr>) (lg_subnets s3) = map (\<lambda>z. z\<lparr>sr_domain := None\<rparr>) (map zone_record (pl_zones spec))"
      by (simp_all add: s3_def assign_domains_same assign_domains_records s2(1) s1(1) ledger_new_def)
    have rec: "map (\<lambda>z. z\<lparr>sr_domain := None\<rparr>) (map zone_record zs) = map zone_record zs" for zs
      by (simp add: zone_record_def)
    have "used_ips s3 = used_ips s2" by (simp add: used_ips_def s3_def assign_domains_same)
    then have d3: "distinct (used_ips s3)" using s2(5) by simp
    have ok3: "ledger_ok s3" using s2(4) ledger_ok_cong [of s3 s2] by (simp add: s3_def assign_domains_same)
    obtain s4 core extra where s4: "(if pl_enrich spec then enrich_plant N vuln oui seed s3 else ret s3) = ret s4"
      "s4 = s3\<lparr>lg_devices := core @ extra\<rparr>" "map unnamed core = map unnamed (lg_devices s3)" "\<forall>d \<in> set extra. bom_device N vuln d"
      "\<not> pl_enrich spec \<longrightarrow> extra = []" "ledger_ok s4" "distinct (used_ips s4)" "plant_unique s3 \<longrightarrow> plant_unique s4"
      by (rule enrich_stage [OF ok3 s3(2) d3, of "pl_enrich spec" N vuln oui seed]) blast
    let ?zd = "zone_domain_map s4"
    define s5 where "s5 = s4\<lparr>lg_devices := fold (name_at ?zd) names (lg_devices s4)\<rparr>"
    define s where "s = s5\<lparr>lg_sealed := True, lg_target_devices := device_count s5, lg_scenario := Some scenario\<rparr>"
    have run: "build_sealed_session N vuln oui spec seed now scenario fallback = ret (Inr s)"
      unfolding build_sealed_session_def z sum.case Inr st prod.case Let_def s3_def [symmetric] s4(1) bind.bind_lunit
        s5_def [symmetric] s_def [symmetric] ..
    have ips: "map dr_ip core = map dr_ip devs"
      using arg_cong [OF s4(3), of "map dr_ip"] by (simp add: s3(1) unnamed_def comp_def)
    have dev_ips: "\<forall>x \<in> set devs. \<exists>ip. dr_ip x = show_ipv4 ip"
      using s2(2) by (auto simp: list_all2_conv_all_nth pinned_def in_set_conv_nth) (metis pinned_record_sel(1))
    have dist: "distinct (map dr_ip devs)"
      using s2(5) dev_ips by (simp add: s2(1) u1 distinct_used_texts)
    have len: "length (pl_devices spec) = length devs" using list_all2_lengthD [OF s2(2)] .
    have named: "fold (name_at ?zd) names (core @ extra) = map (named_by ?zd names) core @ extra"
      by (rule names_at_map) (use dist ips spec_names_keys [OF len] in \<open>simp_all add: s2(3) flip: set_map\<close>)
    have devices: "lg_devices s = map (named_by ?zd names) core @ extra" by (simp add: s_def s5_def s4(2) named [unfolded s4(2)])
    have un: "map unnamed (lg_devices s5) = map unnamed (lg_devices s4)" by (simp add: s5_def names_at_unnamed)
    note same = same_but_names [OF un]
    have zd: "zone_domain_map s = ?zd" by (simp add: zone_domain_map_def s_def s5_def)
    have pins: "list_all2 (pinned_as N vuln oui seed (zone_domain_map s)) (pl_devices spec) (map (named_by ?zd names) core)"
      unfolding zd s2(3) by (rule pinned_names [OF s2(2) _ dist]) (use s4(3) s3(1) in simp)
    have "s5 = s4\<lparr>lg_devices := lg_devices s5\<rparr>" by (simp add: s5_def)
    then have s5: "ledger_ok s5" "used_ips s5 = used_ips s4" "device_macs s5 = device_macs s4" using same s4(6) by metis+
    have zones: "map (\<lambda>z. z\<lparr>sr_domain := None\<rparr>) (lg_subnets s) = map zone_record (pl_zones spec)"
      using s3(4) rec by (simp add: s_def s5_def s4(2))
    have "ledger_ok s" "distinct (used_ips s)" using s4(7) s5 by (simp_all add: s_def ledger_ok_def used_ips_def)
    moreover have "lg_sealed s" "lg_scenario s = Some scenario" "lg_target_devices s = device_count s" "lg_seed s = seed"
      "lg_capture_hosts s = []" using s3 by (simp_all add: s_def s5_def s4(2) device_count_def)
    moreover have "plant_unique s" if m: "distinct (map (parse_mac \<circ> dr_mac) (map (named_by ?zd names) core))"
    proof -
      have "map (parse_mac \<circ> dr_mac) (map (named_by ?zd names) core) = map (parse_mac \<circ> dr_mac) core"
        by (simp add: named_by_def split: option.split)
      also have "\<dots> = device_macs s3"
        using arg_cong [OF s4(3), of "map (parse_mac \<circ> dr_mac)"] by (simp add: s3(1,2) device_macs_def unnamed_def comp_def)
      finally have "plant_unique s3" using m d3 by (simp add: plant_unique_def)
      then have "distinct (device_macs s4)" using s4(8) by (simp add: plant_unique_def)
      then show ?thesis using s5(3) \<open>distinct (used_ips s)\<close> by (simp add: plant_unique_def s_def device_macs_def)
    qed
    ultimately have "sealed_from N vuln oui spec seed scenario s"
      unfolding sealed_from_def using zones devices pins s4(4,5) by blast
    moreover have "\<forall>d \<in> set (pl_devices spec). dv_zone d \<in> zo_cidr ` set (pl_zones spec)"
      using s2(6) by (force simp: has_subnet_def list_ex_iff s1(1) zone_record_def)
    ultimately show thesis using that [OF run] by blast
  qed
qed

section \<open>The lint\<close>

text \<open>An empty lint: no address of the specification is a reserved slot of its zone.\<close>

lemma lint_empty:
  "reserved_slot_lint N spec = [] \<longleftrightarrow>
    (\<forall>d \<in> set (pl_devices spec). \<forall>t ip. dv_ip d = Some t \<and> ipv4_from_str t = Some ip \<longrightarrow>
       ip \<noteq> station_addr N (dv_zone d) \<and> (pl_enrich spec \<longrightarrow> ip \<noteq> firewall_addr N (dv_zone d)))"
proof -
  have f: "List.map_filter f xs = [] \<longleftrightarrow> (\<forall>x \<in> set xs. f x = None)" for f and xs :: "device_spec list"
    by (induction xs) (auto simp: List.map_filter_def split: if_splits)
  have "Option.bind (Option.bind (dv_ip d) ipv4_from_str) (\<lambda>ip. reserved_slot_warning N ip (dv_zone d) (pl_enrich spec)) = None \<longleftrightarrow>
      (\<forall>t ip. dv_ip d = Some t \<and> ipv4_from_str t = Some ip \<longrightarrow>
         ip \<noteq> station_addr N (dv_zone d) \<and> (pl_enrich spec \<longrightarrow> ip \<noteq> firewall_addr N (dv_zone d)))" for d
    by (cases "dv_ip d"; cases "ipv4_from_str (the (dv_ip d))") (simp_all add: reserved_slot_warning_def)
  then show ?thesis unfolding reserved_slot_lint_def f by blast
qed

lemma pin_slot_reserved:
  assumes "reserved_slot_lint N spec = []" and "d \<in> set (pl_devices spec)" and "pin_slot N d ip"
  shows "ip \<noteq> station_addr N (dv_zone d)" "pl_enrich spec \<Longrightarrow> ip \<noteq> firewall_addr N (dv_zone d)"
  using assms
  by (cases "dv_ip d"; auto simp: lint_empty pin_slot_def station_addr_def firewall_is_gateway)+

end
