(* ===== verification/Watchdog.thy ===== *)
theory Watchdog
  imports Prelude "HOL-Library.Sublist"
begin

text \<open>
  \<open>src/run/watchdog.rs\<close> and the verdict of \<open>run_once\<close> (\<open>src/run/replay.rs\<close>).  The guard is the state of the polling thread
  together with the flags it shares with the run loop; a run is a list of events in the order they take effect.
\<close>

section \<open>Code\<close>

text \<open>\<open>step\<close>: the last reading and the seconds it has not changed for, given a reading, if there is one.\<close>

definition watchdog_step :: "u64 \<Rightarrow> u64 option \<Rightarrow> u64 option \<times> u64 \<Rightarrow> u64 option \<times> u64" where
  "watchdog_step poll_secs tx st =
     (case (tx, fst st) of
        (Some now, Some prev) \<Rightarrow> if now = prev then (fst st, snd st + poll_secs) else (Some now, 0)
      | (Some now, None) \<Rightarrow> (Some now, 0)
      | (None, _) \<Rightarrow> st)"

record watchdog =
  wg_active :: bool
  wg_tripped :: bool
  wg_last :: "u64 option"
  wg_stall :: u64

definition watchdog_spawn :: watchdog where
  "watchdog_spawn = \<lparr>wg_active = False, wg_tripped = False, wg_last = None, wg_stall = 0\<rparr>"

definition watchdog_begin :: "watchdog \<Rightarrow> watchdog" where
  "watchdog_begin g = g\<lparr>wg_tripped := False, wg_active := True\<rparr>"

definition watchdog_end :: "watchdog \<Rightarrow> watchdog" where
  "watchdog_end g = g\<lparr>wg_active := False\<rparr>"

text \<open>One round of the thread after its sleep.\<close>

definition watchdog_poll :: "u64 \<Rightarrow> u64 \<Rightarrow> u64 option \<Rightarrow> watchdog \<Rightarrow> watchdog" where
  "watchdog_poll poll_secs flatline_secs tx g =
     (if \<not> wg_active g then g\<lparr>wg_last := None, wg_stall := 0\<rparr>
      else let (last, stall) = watchdog_step (max poll_secs 1) tx (wg_last g, wg_stall g)
           in g\<lparr>wg_last := last, wg_stall := stall, wg_tripped := (wg_tripped g \<or> max flatline_secs 1 \<le> stall)\<rparr>)"

datatype guard_event = Begin_Send | End_Send | Poll "u64 option"

fun guard_do :: "u64 \<Rightarrow> u64 \<Rightarrow> guard_event \<Rightarrow> watchdog \<Rightarrow> watchdog" where
  "guard_do poll_secs flatline_secs Begin_Send g = watchdog_begin g"
| "guard_do poll_secs flatline_secs End_Send g = watchdog_end g"
| "guard_do poll_secs flatline_secs (Poll tx) g = watchdog_poll poll_secs flatline_secs tx g"

definition guard_run :: "u64 \<Rightarrow> u64 \<Rightarrow> guard_event list \<Rightarrow> watchdog \<Rightarrow> watchdog" where
  "guard_run poll_secs flatline_secs = fold (guard_do poll_secs flatline_secs)"

text \<open>What \<open>run_once\<close> makes of a run: the exit status, the watchdog, the text of tcpreplay and its count of packets.\<close>

definition is_fatal :: "string \<Rightarrow> bool" where
  "is_fatal t \<longleftrightarrow> sublist ''Unable to process unsupported DLT type'' t \<or> sublist ''Fatal Error'' t"

definition replay_success :: "bool \<Rightarrow> bool \<Rightarrow> string \<Rightarrow> u64 option \<Rightarrow> bool" where
  "replay_success exit_ok killed t packets \<longleftrightarrow> exit_ok \<and> \<not> killed \<and> \<not> is_fatal t \<and> packets \<noteq> Some 0"

section \<open>Lemmas\<close>

text \<open>How often the latest reading was read again since the counter last moved.\<close>

definition readable :: "u64 option list \<Rightarrow> u64 list" where
  "readable txs = List.map_filter (\<lambda>x. x) txs"

definition flat_polls :: "u64 option list \<Rightarrow> nat" where
  "flat_polls txs = (case rev (readable txs) of [] \<Rightarrow> 0 | now # before \<Rightarrow> length (takeWhile (\<lambda>x. x = now) before))"

lemma readable_snoc: "readable (txs @ [tx]) = readable txs @ (case tx of None \<Rightarrow> [] | Some x \<Rightarrow> [x])"
  by (simp add: readable_def List.map_filter_def split: option.splits)

lemma readable_length: "length (readable txs) \<le> length txs"
  by (simp add: readable_def List.map_filter_def)

lemma flat_polls_le: "flat_polls txs \<le> length txs"
proof -
  have "flat_polls txs \<le> length (rev (readable txs))"
    by (auto simp: flat_polls_def intro: le_trans [OF length_takeWhile_le] split: list.splits)
  then show ?thesis using readable_length [of txs] by simp
qed

text \<open>The state after the polls of a send: the latest reading and the time it has been flat.\<close>

definition polled :: "u64 \<Rightarrow> u64 option list \<Rightarrow> u64 option \<times> u64" where
  "polled poll_secs txs =
     ((case rev (readable txs) of [] \<Rightarrow> None | now # _ \<Rightarrow> Some now), of_nat (flat_polls txs) * poll_secs)"

lemma polled_snoc: "watchdog_step poll_secs tx (polled poll_secs txs) = polled poll_secs (txs @ [tx])"
proof (cases tx)
  case None
  then show ?thesis by (simp add: watchdog_step_def polled_def flat_polls_def readable_snoc)
next
  case (Some x)
  show ?thesis
  proof (cases "rev (readable txs)")
    case Nil
    then have e: "readable txs = []" by simp
    show ?thesis by (simp add: watchdog_step_def polled_def flat_polls_def readable_snoc e Some)
  next
    case (Cons now before)
    then have e: "rev (readable (txs @ [Some x])) = x # now # before" by (simp add: readable_snoc Some)
    show ?thesis
      unfolding watchdog_step_def polled_def flat_polls_def e Cons Some list.case fst_conv prod.case option.case snd_conv
      by (cases "x = now") (auto simp: algebra_simps)
  qed
qed

definition fresh :: "watchdog \<Rightarrow> bool" where
  "fresh g \<longleftrightarrow> wg_last g = None \<and> wg_stall g = 0"

lemma polls_of_send:
  assumes "fresh g"
  shows "guard_run poll_secs flatline_secs (Begin_Send # map Poll txs) g =
    \<lparr>wg_active = True,
     wg_tripped = (\<exists>k \<le> length txs. 0 < k \<and> max flatline_secs 1 \<le> snd (polled (max poll_secs 1) (take k txs))),
     wg_last = fst (polled (max poll_secs 1) txs), wg_stall = snd (polled (max poll_secs 1) txs)\<rparr>"
proof (induction txs rule: rev_induct)
  case Nil
  then show ?case using assms by (simp add: guard_run_def watchdog_begin_def fresh_def polled_def readable_def flat_polls_def List.map_filter_def)
next
  case (snoc tx txs)
  let ?p = "max poll_secs 1" and ?f = "max flatline_secs 1"
  define T where "T xs k \<longleftrightarrow> 0 < k \<and> ?f \<le> snd (polled ?p (take k xs))" for xs k
  have t: "(\<exists>k \<le> length (txs @ [tx]). T (txs @ [tx]) k) \<longleftrightarrow> (\<exists>k \<le> length txs. T txs k) \<or> ?f \<le> snd (polled ?p (txs @ [tx]))"
    by (auto simp: T_def le_Suc_eq)
  have "guard_run poll_secs flatline_secs (Begin_Send # map Poll (txs @ [tx])) g =
      watchdog_poll poll_secs flatline_secs tx (guard_run poll_secs flatline_secs (Begin_Send # map Poll txs) g)"
    by (simp add: guard_run_def)
  also have "\<dots> = \<lparr>wg_active = True, wg_tripped = ((\<exists>k \<le> length txs. T txs k) \<or> ?f \<le> snd (polled ?p (txs @ [tx]))),
      wg_last = fst (polled ?p (txs @ [tx])), wg_stall = snd (polled ?p (txs @ [tx]))\<rparr>"
    unfolding snoc.IH watchdog_poll_def T_def by (simp add: polled_snoc case_prod_beta)
  also note t [symmetric]
  finally show ?case unfolding T_def .
qed

lemma polled_stall:
  assumes "unat poll_secs * length txs < 2 ^ 64"
  shows "unat (snd (polled poll_secs txs)) = flat_polls txs * unat poll_secs"
proof -
  have le: "flat_polls txs * unat poll_secs \<le> unat poll_secs * length txs" using flat_polls_le [of txs] by simp
  have "snd (polled poll_secs txs) = of_nat (flat_polls txs * unat poll_secs)" by (simp add: polled_def)
  moreover have "unat (of_nat (flat_polls txs * unat poll_secs) :: u64) = flat_polls txs * unat poll_secs"
    using le_less_trans [OF le assms] by (intro unat_word_of_nat) simp
  ultimately show ?thesis by simp
qed

text \<open>A send that starts on a fresh guard trips exactly when the counter has been flat for the window.\<close>

lemma trips_iff:
  assumes "fresh g" and n: "unat (max poll_secs 1) * length txs < 2 ^ 64"
  shows "wg_tripped (guard_run poll_secs flatline_secs (Begin_Send # map Poll txs) g) \<longleftrightarrow>
    (\<exists>k \<le> length txs. unat (max flatline_secs 1) \<le> flat_polls (take k txs) * unat (max poll_secs 1))"
proof -
  have u: "unat (snd (polled (max poll_secs 1) (take k txs))) = flat_polls (take k txs) * unat (max poll_secs 1)" for k
    by (rule polled_stall, rule le_less_trans [OF _ n]) (simp add: mult_le_mono2 del: mult_le_cancel1)
  have f: "0 < unat (max flatline_secs 1)" by (auto simp: unat_gt_0 max_def word_gt_0)
  have "flat_polls (take 0 txs) = 0" by (simp add: flat_polls_def readable_def List.map_filter_def)
  then have "0 < k" if "unat (max flatline_secs 1) \<le> flat_polls (take k txs) * unat (max poll_secs 1)" for k
    using that f by (cases k) auto
  then show ?thesis unfolding polls_of_send [OF assms(1)] word_le_nat_alt u by auto
qed

text \<open>While no send is active nothing trips, and the first poll makes the guard fresh.\<close>

lemma idle_polls:
  assumes "\<not> wg_active g"
  shows "wg_tripped (guard_run poll_secs flatline_secs (map Poll txs) g) = wg_tripped g \<and>
    (txs \<noteq> [] \<longrightarrow> fresh (guard_run poll_secs flatline_secs (map Poll txs) g))"
proof -
  have "guard_run poll_secs flatline_secs (map Poll txs) g = (if txs = [] then g else g\<lparr>wg_last := None, wg_stall := 0\<rparr>)"
    using assms
  proof (induction txs arbitrary: g)
    case (Cons tx txs)
    show ?case using Cons.IH [of "g\<lparr>wg_last := None, wg_stall := 0\<rparr>"] Cons.prems by (simp add: guard_run_def watchdog_poll_def)
  qed (simp add: guard_run_def)
  then show ?thesis by (simp add: fresh_def)
qed

text \<open>Without such a poll the next send inherits the flat time of the one before.\<close>

lemma stall_inherited:
  assumes "wg_last g = Some c" and "max flatline_secs 1 \<le> wg_stall g" and "unat (wg_stall g) + unat (max poll_secs 1) < 2 ^ 64"
  shows "wg_tripped (guard_run poll_secs flatline_secs [End_Send, Begin_Send, Poll (Some c)] g)"
proof -
  have "unat (wg_stall g + max poll_secs 1) = unat (wg_stall g) + unat (max poll_secs 1)"
    using assms(3) by (intro unat_add_lem [THEN iffD1]) simp
  then have "max flatline_secs 1 \<le> wg_stall g + max poll_secs 1"
    using assms(2) unfolding word_le_nat_alt by linarith
  then show ?thesis
    using assms(1) by (simp add: guard_run_def watchdog_end_def watchdog_begin_def watchdog_poll_def watchdog_step_def)
qed

end
