(* ===== verification/Run_Samples.thy ===== *)
theory Run_Samples
  imports Plant_Samples Daemon Pinned Watchdog
begin

text \<open>Concrete inputs for the properties of the pinned plant, the watchdog and the run loop.\<close>

section \<open>Pinned plants\<close>

definition sample_pin :: "string \<Rightarrow> string \<Rightarrow> device_spec" where
  "sample_pin zone ip = \<lparr>dv_zone = zone, dv_model = None, dv_ip = Some ip, dv_hostname = Some ''A87'', dv_asset_type = None,
     dv_vendor = None, dv_firmware = None, dv_protocol = None\<rparr>"

definition sample_zone :: "string \<Rightarrow> zone_spec" where
  "sample_zone cidr = \<lparr>zo_cidr = cidr, zo_name = ''Cell'', zo_purdue_level = 1, zo_vendor = None\<rparr>"

text \<open>Two devices of one zone with one MAC, and a device on the station's slot of another zone.\<close>

definition twin_spec :: plant_spec where
  "twin_spec = \<lparr>pl_zones = [sample_zone ''10.0.0.0/16''],
     pl_devices = [sample_pin ''10.0.0.0/16'' ''10.0.14.222'', sample_pin ''10.0.0.0/16'' ''10.0.3.119''],
     pl_domains = [''plant.example''], pl_enrich = False\<rparr>"

definition stray_spec :: plant_spec where
  "stray_spec = \<lparr>pl_zones = [sample_zone ''10.0.1.0/24'', sample_zone ''10.0.2.0/24''],
     pl_devices = [sample_pin ''10.0.1.0/24'' ''10.0.2.250''], pl_domains = [], pl_enrich = False\<rparr>"

lemma sample_texts:
  "split_on (CHR ''/'') ''10.0.0.0/16'' = [''10.0.0.0'', ''16'']" "split_on (CHR ''/'') ''10.0.1.0/24'' = [''10.0.1.0'', ''24'']"
  "split_on (CHR ''/'') ''10.0.2.0/24'' = [''10.0.2.0'', ''24'']" "octet_from_str ''16'' = Some 16" "octet_from_str ''24'' = Some 24"
  "ipv4_from_str ''10.0.0.0'' = Some 0x0a000000" "ipv4_from_str ''10.0.1.0'' = Some 0x0a000100"
  "ipv4_from_str ''10.0.2.0'' = Some 0x0a000200" "ipv4_from_str ''10.0.14.222'' = Some 0x0a000ede"
  "ipv4_from_str ''10.0.3.119'' = Some 0x0a000377" "ipv4_from_str ''10.0.2.250'' = Some 0x0a0002fa"
  by code_simp+

lemma text_parse:
  "no_parse text_net ''10.0.0.0/16'' = Some (0x0a000000, 16)" "no_parse text_net ''10.0.1.0/24'' = Some (0x0a000100, 24)"
  "no_parse text_net ''10.0.2.0/24'' = Some (0x0a000200, 24)"
  by (simp_all add: text_net_def sample_texts del: split_on.simps)

definition no_oui :: oui_db where
  "no_oui = \<lparr>od_map = (\<lambda>_. None), od_by_vendor = (\<lambda>_. None)\<rparr>"

definition twin_plan :: ledger where
  "twin_plan = (ledger_new 0 0)\<lparr>
     lg_subnets := [(zone_record (sample_zone ''10.0.0.0/16''))\<lparr>sr_domain := Some ''plant.example''\<rparr>],
     lg_devices := map (\<lambda>ip. (pinned_record [] no_oui 0 (sample_pin ''10.0.0.0/16'' []) ip)\<lparr>dr_hostname := Some ''A87.plant.example''\<rparr>)
       [0x0a000ede, 0x0a000377],
     lg_sealed := True, lg_target_devices := 2, lg_scenario := Some ''twin''\<rparr>"

lemma twin_build: "build_sealed_session text_net [] no_oui twin_spec 0 0 ''twin'' [] = ret (Inr twin_plan)"
proof -
  have z: "pin_zones text_net (pl_zones twin_spec) (ledger_new 0 0) =
      Inr ((ledger_new 0 0)\<lparr>lg_subnets := [zone_record (sample_zone ''10.0.0.0/16'')]\<rparr>)"
    by (simp add: twin_spec_def sample_zone_def text_parse add_subnet_def ledger_new_def MAX_SUBNETS_def has_subnet_def)
  have ne: "show_ipv4 0x0a000ede \<noteq> show_ipv4 0x0a000377" by simp
  let ?s = "(ledger_new 0 0)\<lparr>lg_subnets := [zone_record (sample_zone ''10.0.0.0/16'')]\<rparr>"
  let ?r = "pinned_record [] no_oui 0 (sample_pin ''10.0.0.0/16'' [])"
  have d: "pin_devices text_net [] no_oui 0 (pl_devices twin_spec) (?s, []) =
      Inr (?s\<lparr>lg_devices := [?r 0x0a000ede, ?r 0x0a000377]\<rparr>, [(show_ipv4 0x0a000ede, ''A87''), (show_ipv4 0x0a000377, ''A87'')])"
    unfolding twin_spec_def
    by (simp add: sample_pin_def sample_zone_def zone_record_def has_subnet_def pin_ip_def sample_texts add_device_def ledger_new_def
        MAX_DEVICES_def used_ips_def List.map_filter_def ipv4_show)
      (simp add: pinned_record_def Let_def)
  have p: "pl_domains twin_spec = [''plant.example'']" "pl_enrich twin_spec = False" by (simp_all add: twin_spec_def)
  have dm: "assign_domains (?s\<lparr>lg_devices := [?r 0x0a000ede, ?r 0x0a000377]\<rparr>)
        (if pl_domains twin_spec = [] then [] else pl_domains twin_spec) 0 =
      ?s\<lparr>lg_subnets := [(zone_record (sample_zone ''10.0.0.0/16''))\<lparr>sr_domain := Some ''plant.example''\<rparr>],
        lg_devices := [?r 0x0a000ede, ?r 0x0a000377]\<rparr>"
    by (simp add: p assign_domains_def zone_domain_def ledger_new_def)
  have t: "dv_zone (sample_pin ''10.0.0.0/16'' []) = ''10.0.0.0/16''" by (simp add: sample_pin_def)
  show ?thesis
    unfolding build_sealed_session_def z sum.case d prod.case Let_def dm p(2) if_False bind.bind_lunit
    by (simp add: twin_plan_def zone_domain_map_def sample_zone_def zone_record_def full_name_def t ledger_new_def device_count_def)
qed

lemma twin_macs: "pinned_mac no_oui [] None 0 0x0a000ede = pinned_mac no_oui [] None 0 0x0a000377"
  by (simp add: pinned_mac_def oui_for_vendor_def no_oui_def stable_mac_def splitmix64_def to_be64_def it_pool_oui_def
      it_pool_def Let_def)

lemma mask16: "mask_for 16 = 0xffff0000"
  by (simp add: mask_for_def push_bit_eq_mult)

lemma twin_not_unique: "\<not> distinct (device_macs twin_plan)" "reserved_slot_lint text_net twin_spec = []"
proof -
  have "dr_mac (pinned_record [] no_oui 0 (sample_pin ''10.0.0.0/16'' []) ip) = fmt_mac (pinned_mac no_oui [] None 0 ip)" for ip
    by (simp add: pinned_record_def sample_pin_def)
  then show "\<not> distinct (device_macs twin_plan)"
    by (simp add: device_macs_def twin_plan_def ledger_new_def twin_macs)
  have "station_addr text_net ''10.0.0.0/16'' = 0x0a0000fa"
    by (simp add: station_addr_def text_parse station_addr_net_def) (simp add: text_net_def pair_net_def cap32_def saturating_sub32_def mask16 Let_def)
  then show "reserved_slot_lint text_net twin_spec = []"
    by (simp add: lint_empty twin_spec_def sample_pin_def sample_texts)
qed

definition stray_plan :: ledger where
  "stray_plan = (ledger_new 0 0)\<lparr>
     lg_subnets := map zone_record [sample_zone ''10.0.1.0/24'', sample_zone ''10.0.2.0/24''],
     lg_devices := [(pinned_record [] no_oui 0 (sample_pin ''10.0.1.0/24'' []) 0x0a0002fa)\<lparr>dr_hostname := Some ''A87''\<rparr>],
     lg_sealed := True, lg_target_devices := 1, lg_scenario := Some ''stray''\<rparr>"

lemma stray_build: "build_sealed_session text_net [] no_oui stray_spec 0 0 ''stray'' [] = ret (Inr stray_plan)"
proof -
  let ?s = "(ledger_new 0 0)\<lparr>lg_subnets := map zone_record [sample_zone ''10.0.1.0/24'', sample_zone ''10.0.2.0/24'']\<rparr>"
  let ?r = "pinned_record [] no_oui 0 (sample_pin ''10.0.1.0/24'' []) 0x0a0002fa"
  have z: "pin_zones text_net (pl_zones stray_spec) (ledger_new 0 0) = Inr ?s"
    by (simp add: stray_spec_def sample_zone_def text_parse add_subnet_def ledger_new_def MAX_SUBNETS_def has_subnet_def zone_record_def)
  have d: "pin_devices text_net [] no_oui 0 (pl_devices stray_spec) (?s, []) = Inr (?s\<lparr>lg_devices := [?r]\<rparr>, [(show_ipv4 0x0a0002fa, ''A87'')])"
    unfolding stray_spec_def
    by (simp add: sample_pin_def sample_zone_def zone_record_def has_subnet_def pin_ip_def sample_texts add_device_def ledger_new_def
        MAX_DEVICES_def used_ips_def List.map_filter_def ipv4_show)
      (simp add: pinned_record_def Let_def)
  have p: "pl_domains stray_spec = []" "pl_enrich stray_spec = False" by (simp_all add: stray_spec_def)
  have dm: "assign_domains (?s\<lparr>lg_devices := [?r]\<rparr>) (if pl_domains stray_spec = [] then [] else pl_domains stray_spec) 0 =
      ?s\<lparr>lg_devices := [?r]\<rparr>"
    by (simp add: p assign_domains_def)
  have t: "dv_zone (sample_pin ''10.0.1.0/24'' []) = ''10.0.1.0/24''" by (simp add: sample_pin_def)
  show ?thesis
    unfolding build_sealed_session_def z sum.case d prod.case Let_def dm p(2) if_False bind.bind_lunit
    by (simp add: stray_plan_def zone_domain_map_def sample_zone_def zone_record_def full_name_def t ledger_new_def device_count_def)
qed

lemma stray_station:
  "station_addr text_net ''10.0.2.0/24'' = 0x0a0002fa" "reserved_slot_lint text_net stray_spec = []"
proof -
  have "station_addr text_net ''10.0.1.0/24'' = 0x0a0001fa"
    by (simp add: station_addr_def text_parse station_addr_net_def)
      (simp add: text_net_def pair_net_def cap32_def saturating_sub32_def mask24 Let_def)
  then show "reserved_slot_lint text_net stray_spec = []"
    by (simp add: lint_empty stray_spec_def sample_pin_def sample_texts)
  show "station_addr text_net ''10.0.2.0/24'' = 0x0a0002fa"
    by (simp add: station_addr_def text_parse station_addr_net_def)
      (simp add: text_net_def pair_net_def cap32_def saturating_sub32_def mask24 Let_def)
qed

section \<open>Cached files\<close>

definition sample_files :: "unit pcap_text cache_file list" where
  "sample_files = map (\<lambda>(n, t). cached_file n (\<lambda>_. 60) t (Whole \<lparr>cap_header = (), cap_packets = []\<rparr>)) [(''a'', 1), (''b'', 2)]"

lemma sample_files_ok:
  "cache_ok no_cache" "listing_bytes (cd_files no_cache) \<le> max (unat (100 :: u64)) 60" "sample_files \<noteq> []"
  "\<forall>f \<in> set sample_files. cf_regular f \<and> unat (cf_len f) \<le> 60"
  by (simp, simp_all add: sample_files_def cached_file_def listing_bytes_def no_cache_def)

section \<open>A run\<close>

definition sample_rezone :: rezone_cfg where
  "sample_rezone = \<lparr>rz_max_remap_bytes = 1000000, rz_skip_oversize = False, rz_affinity = ZA_Both, rz_remap_mac = True,
     rz_max_assets = None, rz_max_frame_bytes = 1514, rz_replay_arp = True\<rparr>"

definition sample_source :: source_file where
  "sample_source = \<lparr>sf_parent = Some ''pool'', sf_stem = Some ''arp'', sf_size = 100, sf_mtime = Some 7\<rparr>"

definition sample_io :: remap_io where
  "sample_io = \<lparr>ri_save_ok = True, ri_mkdir_ok = True, ri_write = Written, ri_readable = True, ri_removable = (\<lambda>_. True), ri_now = 1\<rparr>"

definition sample_run :: run_cfg where
  "sample_run = \<lparr>ru_red = True, ru_remap = True, ru_guard = True, ru_rezone = sample_rezone\<rparr>"

definition sample_input :: "u64 \<Rightarrow> unit run_input" where
  "sample_input now = \<lparr>in_picked = Some \<lparr>pd_meta = Some sample_source, pd_capture = Some (arp_capture arp_frame)\<rparr>, in_io = sample_io,
     in_torn_readable = True, in_promote_now = now, in_promote_save = True, in_promote_write = True,
     in_tick_now = now, in_tick_save = True, in_tick_write = True\<rparr>"

lemma sample_input_ok: "\<forall>inp \<in> set (map sample_input ts). input_ok inp"
  by (auto simp: input_ok_def sample_input_def arp_capture_def)

lemma id_order: "hash_order id"
  by (simp add: hash_order_def)

text \<open>A daemon that starts without a ledger.\<close>

lemma fresh_red:
  obtains sim where "red (wd_gen sample_daemon) id sample_cfg [sample_profile] no_oui (Inr None) 1 0 None True = Inr sim"
    "si_ledger sim = ledger_new 1 0"
proof -
  have "\<exists>sim. red (wd_gen sample_daemon) id sample_cfg [sample_profile] no_oui (Inr None) 1 0 None True = Inr sim \<and> si_ledger sim = ledger_new 1 0"
    by (simp add: red_def red_session_def split: prod.split)
  with that show thesis by blast
qed

lemma fresh_inputs: "inputs_well_formed (Inr None) 1 None"
  by (simp add: inputs_well_formed_def)

lemma no_cache_safe: "caches_safe cfg (purge_remap_cache kept (\<lambda>_. no_cache))"
  by (simp add: caches_safe_def purge_remap_cache_def no_cache_def listing_ok_def)

text \<open>The sealed plant may be remapped into.\<close>

lemma plant_parse: "no_parse text_net ''10.20.10.0/24'' = Some (0x0a140a00, 24)"
proof -
  have "split_on (CHR ''/'') ''10.20.10.0/24'' = [''10.20.10.0'', ''24'']" "ipv4_from_str ''10.20.10.0'' = Some 0x0a140a00"
    by code_simp+
  then show ?thesis by (simp add: text_net_def sample_texts del: split_on.simps)
qed

lemma sealed_plant_rezone: "rezone_ok text_net sealed_plant"
proof -
  have s: "lg_subnets sealed_plant = lg_subnets sample_plant" "lg_devices sealed_plant = lg_devices sample_plant"
    "lg_capture_hosts sealed_plant = []" by (simp_all add: sealed_plant_def sample_plant_def ledger_new_def)
  have zoned: "plant_zoned text_net sealed_plant"
    unfolding plant_zoned_def s by (simp add: sample_plant_def sample_device_def plant_parse)
  have known: "hosts_known sealed_plant" by (simp add: hosts_known_def s)
  have "ten_block 24 0x0a140a00"
    by (simp add: ten_block_def clamp_prefix_def block_size_def exI [of _ 5130])
  note block = ten_block_octet [OF this]
  have "octet0 a = 0x0A" if "no_contains text_net (0x0a140a00, 24) a" for a
    by (rule block) (use that in \<open>simp_all add: text_net_def pair_net_def cap32_def mask24 Let_def\<close>)
  then have inside: "\<not> is_public_unicast a" if "no_contains text_net (0x0a140a00, 24) a" for a using that ten_private by blast
  have used: "used_ips sealed_plant = [0x0a140a0b, 0x0a140a01]"
    by (simp add: used_ips_def s List.map_filter_def sample_plant_def sample_device_def sample_addresses)
  have "\<not> is_public_unicast 0x0a140a0b" "\<not> is_public_unicast 0x0a140a01" by code_simp+
  then have "private_plan text_net sealed_plant"
    unfolding private_plan_def used s using inside by (auto simp: sample_plant_def plant_parse)
  then show ?thesis using sealed_plant_ok zoned known by (simp add: rezone_ok_def session_well_formed_def)
qed

end
