(* ===== verification/Runs.thy ===== *)
theory Runs
  imports Run_Samples
begin

text \<open>
  What the run loop keeps to: the frames it sends, the assets of a remapped capture, the cache of remaps, the watchdog,
  and the plant of a scenario.
\<close>

section \<open>The cache\<close>

lemma listing_single: "filter cf_regular dir = [f] \<Longrightarrow> listing_bytes dir = unat (cf_len f)"
  by (simp add: listing_bytes_def)

text \<open>
  C33: the cache of remaps is bounded while its disk works.  Suppose the directory can be read, its files can be removed, every
  store succeeds and no file exceeds \<open>L\<close> bytes.  Then over any sequence of stored files the size estimate is at least the size
  of the directory, the file just written is in it, and the directory holds no more than the budget, or that file alone.
  Stores that fail midway are outside the claim: the torn file they leave is not in the estimate.
\<close>

theorem cache_bounded:
  assumes "cache_ok cd" and "listing_bytes (cd_files cd) \<le> max (unat budget) L" and "fs \<noteq> []"
    and "\<forall>f \<in> set fs. cf_regular f \<and> unat (cf_len f) \<le> L" and "unat budget + L < 2 ^ 64" and "2 * L < 2 ^ 64"
  shows "cache_ok (fold (settle_cache True (\<lambda>_. True) budget) fs cd) \<and>
    last fs \<in> set (cd_files (fold (settle_cache True (\<lambda>_. True) budget) fs cd)) \<and>
    (listing_bytes (cd_files (fold (settle_cache True (\<lambda>_. True) budget) fs cd)) \<le> unat budget \<or>
     filter cf_regular (cd_files (fold (settle_cache True (\<lambda>_. True) budget) fs cd)) = [last fs])"
  using assms(3,4)
proof (induction fs rule: rev_induct)
  case (snoc f fs)
  let ?cd = "fold (settle_cache True (\<lambda>_. True) budget) fs cd"
  have f: "cf_regular f" "unat (cf_len f) \<le> L" using snoc.prems by simp_all
  have c: "cache_ok ?cd \<and> listing_bytes (cd_files ?cd) \<le> max (unat budget) L"
  proof (cases "fs = []")
    case True
    then show ?thesis using assms(1,2) by simp
  next
    case False
    have l: "unat (cf_len (last fs)) \<le> L" using snoc.prems False by simp
    have "cache_ok ?cd" "listing_bytes (cd_files ?cd) \<le> unat budget \<or> filter cf_regular (cd_files ?cd) = [last fs]"
      using snoc.IH snoc.prems False by simp_all
    then show ?thesis using listing_single [of "cd_files ?cd" "last fs"] l by auto
  qed
  have "listing_bytes (write_file f (cd_files ?cd)) < 2 ^ 64"
    using write_file_bytes [of f "cd_files ?cd"] c f(2) assms(5,6) by linarith
  note k = settle_ok [OF conjunct1 [OF c] this f(1), of "\<lambda>_. True" budget]
  show ?case using k(1,2,4) by simp
qed simp

theorem cache_bounded_witness:
  "last sample_files \<in> set (cd_files (fold (settle_cache True (\<lambda>_. True) 100) sample_files no_cache)) \<and>
    (listing_bytes (cd_files (fold (settle_cache True (\<lambda>_. True) 100) sample_files no_cache)) \<le> 100 \<or>
     filter cf_regular (cd_files (fold (settle_cache True (\<lambda>_. True) 100) sample_files no_cache)) = [last sample_files])"
  using cache_bounded [OF sample_files_ok] by simp

section \<open>The watchdog\<close>

text \<open>
  C35: the watchdog kills a stalled send and no other, on a fresh guard.  On a guard that was polled since its last send (or never
  used), a send trips exactly if at some poll the counter had been read unchanged for the configured window; unreadable polls
  count for nothing.  After the send no poll trips it, and the first poll makes the guard fresh again.  A send that starts
  before such a poll, as a burst right after its capture may, inherits the flat time of the one before (\<open>stall_inherited\<close>).
\<close>

theorem watchdog_trips:
  assumes "fresh g" and "unat (max poll_secs 1) * length txs < 2 ^ 64"
  shows "(wg_tripped (guard_run poll_secs flatline_secs (Begin_Send # map Poll txs) g) \<longleftrightarrow>
      (\<exists>k \<le> length txs. unat (max flatline_secs 1) \<le> flat_polls (take k txs) * unat (max poll_secs 1))) \<and>
    wg_tripped (guard_run poll_secs flatline_secs (Begin_Send # map Poll txs @ End_Send # map Poll idle) g) =
      wg_tripped (guard_run poll_secs flatline_secs (Begin_Send # map Poll txs) g) \<and>
    (idle \<noteq> [] \<longrightarrow> fresh (guard_run poll_secs flatline_secs (Begin_Send # map Poll txs @ End_Send # map Poll idle) g))"
proof -
  let ?g = "guard_run poll_secs flatline_secs (Begin_Send # map Poll txs) g"
  have "\<not> wg_active (watchdog_end ?g)" by (simp add: watchdog_end_def)
  note i = idle_polls [OF this, of poll_secs flatline_secs idle]
  have "guard_run poll_secs flatline_secs (Begin_Send # map Poll txs @ End_Send # map Poll idle) g =
      guard_run poll_secs flatline_secs (map Poll idle) (watchdog_end ?g)" by (simp add: guard_run_def)
  moreover have "wg_tripped (watchdog_end ?g) = wg_tripped ?g" by (simp add: watchdog_end_def)
  ultimately show ?thesis using i trips_iff [OF assms] by simp
qed

theorem watchdog_trips_witness:
  "wg_tripped (guard_run 5 10 (Begin_Send # map Poll [Some 7, None, Some 7, Some 7]) watchdog_spawn)"
proof -
  have "fresh watchdog_spawn" by (simp add: fresh_def watchdog_spawn_def)
  moreover have "flat_polls (take 4 [Some 7, None, Some 7, Some 7]) = 2"
    by (simp add: flat_polls_def readable_def List.map_filter_def)
  ultimately show ?thesis
    using watchdog_trips [of watchdog_spawn 5 "[Some 7, None, Some 7, Some 7]" 10 "[]"] by (auto intro: exI [of _ 4])
qed

section \<open>The run loop\<close>





section \<open>The remap of a session\<close>

text \<open>
  C2: a remap keeps the session.  It never panics; the assets it registers stay under the cap, and addresses and MACs stay
  unique in a private plan.  One host map does it: a registered host goes to its asset, a new one to the asset just
  registered, every target belongs to the session, and if a zone has devices every unicast host is moved.  Every frame that
  is left was rewritten with that map, has both addresses in the plan and holds no mapped original anywhere.
\<close>

theorem remap_keeps_session:
  assumes "remap_world N keys order below" and "rezone_ok N (si_ledger sim)"
  shows "\<exists>cap' sim' as. rezone N keys order below seed_from cfg save_ok hints cap sim = ret (cap', sim') \<and>
    si_ledger sim' = registered_with as (si_ledger sim) \<and> rezone_ok N (si_ledger sim') \<and>
    total_wire_assets (si_ledger sim') \<le> max (total_wire_assets (si_ledger sim)) (effective_asset_cap (rz_max_assets cfg)) \<and>
    (zone_targets N (si_ledger sim) \<noteq> [] \<longrightarrow>
       (\<exists>hm. session_map N (si_ledger sim) as (cap_packets cap) hm \<and>
         (\<forall>p \<in> set (cap_packets cap'). moved_frame N (si_ledger sim) (rz_remap_mac cfg) hm cap (pk_data p))))"
proof -
  obtain cap' sim' as where "rezone N keys order below seed_from cfg save_ok hints cap sim = ret (cap', sim')"
    "si_ledger sim' = registered_with as (si_ledger sim)" "rezone_ok N (si_ledger sim')" "only_ledger sim sim'"
    "total_wire_assets (si_ledger sim') \<le> max (total_wire_assets (si_ledger sim)) (effective_asset_cap (rz_max_assets cfg))"
    "\<forall>p \<in> set (cap_packets cap'). frame_safe (pk_data p)" "length (cap_packets cap') \<le> length (cap_packets cap)"
    "zone_targets N (si_ledger sim) = [] \<and> as = [] \<or>
       (\<exists>hm. session_map N (si_ledger sim) as (cap_packets cap) hm \<and>
          (\<forall>p \<in> set (cap_packets cap'). moved_frame N (si_ledger sim) (rz_remap_mac cfg) hm cap (pk_data p)))"
    by (rule rezone_total [OF assms])
  then show ?thesis by (intro exI [of _ cap'] exI [of _ sim'] exI [of _ as]) blast
qed

theorem remap_keeps_session_witness:
  "\<exists>sim cap' sim'. si_ledger sim = sealed_plant \<and>
    rezone text_net id id count_below id sample_rezone True [] (arp_capture arp_frame) sim = ret (cap', sim') \<and>
    (\<exists>as hm. session_map text_net sealed_plant as (cap_packets (arp_capture arp_frame)) hm \<and>
       (\<forall>p \<in> set (cap_packets cap'). moved_frame text_net sealed_plant True hm (arp_capture arp_frame) (pk_data p)))"
proof -
  obtain sim where r: "si_ledger (sim :: u64 sim) = sealed_plant" by (rule sample_red)
  have w: "remap_world text_net id id count_below"
    by (simp add: remap_world_def id_order text_net_ok count_below_ok)
  have "zone_targets text_net sealed_plant \<noteq> []"
    by (simp add: zone_targets_def List.map_filter_def sealed_plant_def sample_plant_def zone_target_of_def plant_parse)
  moreover have "rz_remap_mac sample_rezone" by (simp add: sample_rezone_def)
  ultimately show ?thesis
    using remap_keeps_session [OF w, of sim id sample_rezone True "[]" "arp_capture arp_frame"] sealed_plant_rezone r by auto
qed

lemma evolves_key:
  assumes "ledger_evolves N vuln s s'"
  shows "lg_seed s' = lg_seed s" "lg_registry_generation s' = lg_registry_generation s"
  using assms by (auto simp: ledger_evolves_def grown_by_def rename_zones_new_cycle_def Let_def)

lemma rezone_without_zones:
  assumes "zone_targets N (si_ledger sim) = []"
  obtains cap' sm where "rezone N keys order below seed_from cfg save_ok hints cap sim = ret (cap', sim)"
    "remap_capture N below seed_from cap hints (lg_seed (si_ledger sim)) (rz_remap_mac cfg) = ret (cap', sm)"
proof -
  obtain cap' sm where r: "remap_capture N below seed_from cap hints (lg_seed (si_ledger sim)) (rz_remap_mac cfg) = ret (cap', sm)"
    using remap_capture_total by blast
  then show thesis using assms by (intro that [of cap' sm]) (simp_all add: rezone_def)
qed

lemma remap_hit:
  assumes "\<not> rz_max_remap_bytes cfg < sf_size f" and "\<not> (MAX_SHM_BYTES < sf_size f \<and> rz_skip_oversize cfg)"
    and "lookup_file (cache_name cfg f (lg_seed (si_ledger (rm_sim rm))) (lg_registry_generation (si_ledger (rm_sim rm))))
      (cd_files (rm_caches rm (cache_place_of f))) \<noteq> None"
  shows "remap_into_session N keys order below seed_from header pcap_len cfg hints io (Some f) contents rm =
    ret (Inr (cache_place_of f, cache_name cfg f (lg_seed (si_ledger (rm_sim rm))) (lg_registry_generation (si_ledger (rm_sim rm)))), rm)"
  using assms by (simp add: remap_into_session_def Let_def)

text \<open>
  C34: a cached remap can outlive the plan it was made without.  A capture that is remapped while the session has no zones is
  rewritten at random and cached under the seed and the generation; the ticks that then build the zones change neither.
  However the session has evolved by then, the next call for the file returns the random remap, registers no host, and
  does not look at the capture.
\<close>

theorem stale_remap_hit:
  assumes "zone_targets N (si_ledger (rm_sim rm)) = []" and "listing_ok (cd_files (rm_caches rm (cache_place_of f)))"
    and "\<not> rz_max_remap_bytes cfg < sf_size f" and "\<not> (MAX_SHM_BYTES < sf_size f \<and> rz_skip_oversize cfg)"
    and "lookup_file (cache_name cfg f (lg_seed (si_ledger (rm_sim rm))) (lg_registry_generation (si_ledger (rm_sim rm))))
      (cd_files (rm_caches rm (cache_place_of f))) = None"
    and "ri_mkdir_ok io" and "ri_write io = Written"
    and "ledger_evolves N vuln (si_ledger (rm_sim rm)) (si_ledger later)"
  shows "\<exists>hit rm' file cap' sm cap2.
    remap_into_session N keys order below seed_from header pcap_len cfg hints io (Some f) (Some cap) rm = ret (Inr hit, rm') \<and>
    remap_into_session N keys order below seed_from header pcap_len cfg hints io2 (Some f) contents (rm'\<lparr>rm_sim := later\<rparr>) =
      ret (Inr hit, rm'\<lparr>rm_sim := later\<rparr>) \<and>
    lookup_file (snd hit) (cd_files (rm_caches rm' (fst hit))) = Some file \<and>
    remap_capture N below seed_from cap hints (lg_seed (si_ledger (rm_sim rm))) (rz_remap_mac cfg) = ret (cap', sm) \<and>
    thin cfg cap' = ret cap2 \<and> cf_content file = Whole (cap2\<lparr>cap_header := header\<rparr>)"
proof -
  let ?s = "si_ledger (rm_sim rm)"
  let ?out = "cache_name cfg f (lg_seed ?s) (lg_registry_generation ?s)" and ?place = "cache_place_of f"
  obtain cap' sm where z: "rezone N keys order below seed_from cfg (ri_save_ok io) hints cap (rm_sim rm) = ret (cap', rm_sim rm)"
    "remap_capture N below seed_from cap hints (lg_seed ?s) (rz_remap_mac cfg) = ret (cap', sm)"
    by (rule rezone_without_zones [OF assms(1)])
  obtain cap2 where t: "thin cfg cap' = ret cap2" by (rule thin_ok [of cfg cap'], rule that)
  let ?g = "cached_file ?out pcap_len (ri_now io) (Whole (cap2\<lparr>cap_header := header\<rparr>))"
  let ?cd = "settle_cache (ri_readable io) (ri_removable io) (cache_budget cfg f) ?g (rm_caches rm ?place)"
  define rm' where "rm' = rm\<lparr>rm_caches := (rm_caches rm)(?place := ?cd)\<rparr>"
  have run: "remap_into_session N keys order below seed_from header pcap_len cfg hints io (Some f) (Some cap) rm = ret (Inr (?place, ?out), rm')"
    using assms(3-7) z(1) t
    by (simp add: remap_into_session_def store_remap_def pcap_write_def Let_def rm'_def)
  have reg: "cf_regular ?g" "cf_name ?g = ?out" by (simp_all add: cached_file_def)
  note k = settle_keeps [OF assms(2) reg(1), of "ri_readable io" "ri_removable io" "cache_budget cfg f"]
  have hit: "lookup_file ?out (cd_files (rm_caches rm' ?place)) = Some ?g"
    using lookup_file_unique [OF k(1,3) reg(1)] unfolding rm'_def by (simp add: reg(2))
  have key: "cache_name cfg f (lg_seed (si_ledger later)) (lg_registry_generation (si_ledger later)) = ?out"
    using evolves_key [OF assms(8)] by simp
  have "remap_into_session N keys order below seed_from header pcap_len cfg hints io2 (Some f) contents (rm'\<lparr>rm_sim := later\<rparr>) =
      ret (Inr (?place, ?out), rm'\<lparr>rm_sim := later\<rparr>)"
    using remap_hit [OF assms(3,4), of "rm'\<lparr>rm_sim := later\<rparr>"] hit key by simp
  then show ?thesis
    using run hit z(2) t
    by (intro exI [of _ "(?place, ?out)"] exI [of _ rm'] exI [of _ ?g] exI [of _ cap'] exI [of _ sm] exI [of _ cap2])
      (simp add: cached_file_def)
qed

theorem stale_remap_hit_witness:
  "\<exists>rm later hit rm'. si_ledger (rm_sim rm) = ledger_new 1 0 \<and>
    ledger_evolves text_net [sample_profile] (ledger_new 1 0) (si_ledger later) \<and>
    remap_into_session text_net id id count_below id () (\<lambda>_. 60) sample_rezone [] sample_io (Some sample_source)
      (Some (arp_capture arp_frame)) rm = ret (Inr hit, rm') \<and>
    remap_into_session text_net id id count_below id () (\<lambda>_. 60) sample_rezone [] sample_io (Some sample_source)
      None (rm'\<lparr>rm_sim := later\<rparr>) = ret (Inr hit, rm'\<lparr>rm_sim := later\<rparr>)"
proof -
  obtain sim where r: "si_ledger (sim :: u64 sim) = ledger_new 1 0" by (rule fresh_red)
  let ?p = "\<lparr>ap_max_subnets = 4, ap_max_devices = 40, ap_default_prefix = 24\<rparr>"
  have m: "macs_room (ledger_new 1 0)" by (simp add: macs_room_def capture_host_count_def ledger_new_def MAX_DEVICES_def)
  obtain s n r1 where "fabricate text_net count_below (\<lambda>r. (False, r)) (ledger_new 1 0) [sample_profile] ?p 25 1 = ret (s, n, r1)"
    "grown_by text_net [sample_profile] (ledger_new 1 0) n s"
    by (rule fabricate_ok [OF sample_world ledger_new_ok m])
  then have ev: "ledger_evolves text_net [sample_profile] (ledger_new 1 0) (si_ledger (sim\<lparr>si_ledger := s\<rparr>))"
    unfolding ledger_evolves_def by auto
  let ?rm = "start_engine (\<lambda>_. False) (\<lambda>_. no_cache) sim :: (u64, unit) remapper"
  have rm: "si_ledger (rm_sim ?rm) = ledger_new 1 0" by (simp add: start_engine_def r)
  have z: "zone_targets text_net (si_ledger (rm_sim ?rm)) = []"
    by (simp add: rm zone_targets_def ledger_new_def List.map_filter_def)
  have files: "cd_files (rm_caches ?rm place) = []" for place
    by (simp add: start_engine_def purge_remap_cache_def no_cache_def)
  have l: "listing_ok (cd_files (rm_caches ?rm (cache_place_of sample_source)))" by (simp add: files listing_ok_def)
  have miss: "lookup_file name (cd_files (rm_caches ?rm place)) = None" for name place by (simp add: files lookup_file_def)
  have size: "\<not> rz_max_remap_bytes sample_rezone < sf_size sample_source"
    "\<not> (MAX_SHM_BYTES < sf_size sample_source \<and> rz_skip_oversize sample_rezone)"
    by (simp_all add: sample_rezone_def sample_source_def)
  have io: "ri_mkdir_ok sample_io" "ri_write sample_io = Written" by (simp_all add: sample_io_def)
  from stale_remap_hit [OF z l size miss io ev [folded rm]] rm ev show ?thesis by metis
qed

section \<open>The plant of a scenario\<close>

text \<open>
  C39: a scenario's plan is its specification.  The build returns; if it succeeds, the plan is sealed, tagged and complete: its
  zones are those of the specification in order, its first devices are the specified ones in order, each with its
  identity, at its address or in a free slot that is neither gateway nor station, under its own name; what follows is a bill
  of materials, if one was asked for.  The caps hold, addresses are unique, and so are MACs if those of the pinned
  devices are.
\<close>

theorem pinned_plan:
  "\<exists>r. build_sealed_session N vuln oui spec seed now scenario fallback = ret r \<and>
    (\<forall>s. r = Inr s \<longrightarrow> sealed_from N vuln oui spec seed scenario s \<and>
       (\<forall>d \<in> set (pl_devices spec). dv_zone d \<in> zo_cidr ` set (pl_zones spec)))"
proof -
  obtain r where "build_sealed_session N vuln oui spec seed now scenario fallback = ret r"
    "\<And>s. r = Inr s \<Longrightarrow> sealed_from N vuln oui spec seed scenario s"
    "\<And>s. r = Inr s \<Longrightarrow> \<forall>d \<in> set (pl_devices spec). dv_zone d \<in> zo_cidr ` set (pl_zones spec)"
    by (rule build_ok, rule that)
  then show ?thesis by blast
qed

theorem pinned_plan_witness: "sealed_from text_net [] no_oui twin_spec 0 ''twin'' twin_plan"
proof -
  obtain r where r: "build_sealed_session text_net [] no_oui twin_spec 0 0 ''twin'' [] = ret r"
    "\<forall>s. r = Inr s \<longrightarrow> sealed_from text_net [] no_oui twin_spec 0 ''twin'' s"
    using pinned_plan [of text_net "[]" no_oui twin_spec 0 0 "''twin''" "[]"] by blast
  with twin_build have "r = Inr twin_plan" by simp
  with r(2) show ?thesis by blast
qed

text \<open>
  C40: conflicts of a specification pass the build and its lint.  Two devices of one zone can get one MAC, since the search for
  an unused one is left out; and an address need not lie in the zone of its device, so that a device can sit on the
  station's slot of another zone unnoticed.
\<close>

theorem pin_conflicts_pass:
  "(\<exists>spec s. build_sealed_session text_net [] no_oui spec 0 0 ''twin'' [] = ret (Inr s) \<and> reserved_slot_lint text_net spec = [] \<and>
      \<not> distinct (device_macs s)) \<and>
   (\<exists>spec s d z. build_sealed_session text_net [] no_oui spec 0 0 ''stray'' [] = ret (Inr s) \<and> reserved_slot_lint text_net spec = [] \<and>
      d \<in> set (lg_devices s) \<and> z \<in> set (lg_subnets s) \<and> dr_ip d = show_ipv4 (station_addr text_net (sr_cidr z)))"
proof (intro conjI)
  show "\<exists>spec s. build_sealed_session text_net [] no_oui spec 0 0 ''twin'' [] = ret (Inr s) \<and> reserved_slot_lint text_net spec = [] \<and>
      \<not> distinct (device_macs s)"
    using twin_build twin_not_unique by blast
  let ?d = "(pinned_record [] no_oui 0 (sample_pin ''10.0.1.0/24'' []) 0x0a0002fa)\<lparr>dr_hostname := Some ''A87''\<rparr>"
  let ?z = "zone_record (sample_zone ''10.0.2.0/24'')"
  have "?d \<in> set (lg_devices stray_plan)" "?z \<in> set (lg_subnets stray_plan)" by (simp_all add: stray_plan_def)
  moreover have "dr_ip ?d = show_ipv4 (station_addr text_net (sr_cidr ?z))"
    by (simp add: zone_record_def sample_zone_def stray_station)
  ultimately show "\<exists>spec s d z. build_sealed_session text_net [] no_oui spec 0 0 ''stray'' [] = ret (Inr s) \<and>
      reserved_slot_lint text_net spec = [] \<and> d \<in> set (lg_devices s) \<and> z \<in> set (lg_subnets s) \<and>
      dr_ip d = show_ipv4 (station_addr text_net (sr_cidr z))"
    using stray_build stray_station(2) by blast
qed

end
