(* ===== verification/Arp_Profile.thy ===== *)
theory Arp_Profile
  imports Burst Pipeline "HOL-Library.AList"
begin

text \<open>
  The ARP profile of a capture, \<open>src/validate/arp_profile.rs\<close>: what \<open>turbolaser verify\<close> measures on an emitted burst, and
  the bands it holds the measures to.  The lemmas say what a passing profile means frame by frame, and that the burst of
  \<open>Announce\<close>, as it is written, passes.
\<close>

section \<open>The measures\<close>

definition ETH_MIN :: nat where "ETH_MIN = 60"

definition ARP_END :: nat where "ARP_END = 14 + 28"

record arp_profile =
  ap_requests :: nat
  ap_replies :: nat
  ap_gratuitous :: nat
  ap_runts :: nat
  ap_locally_administered :: nat
  ap_max_fanout :: nat
  ap_repliers :: "ipv4 set"

definition arp_profile_default :: arp_profile where
  "arp_profile_default = \<lparr>ap_requests = 0, ap_replies = 0, ap_gratuitous = 0, ap_runts = 0, ap_locally_administered = 0,
     ap_max_fanout = 0, ap_repliers = {}\<rparr>"

text \<open>
  The loop of \<open>analyze\<close> carries the profile and the targets each source MAC has asked for.  Every read lies below
  \<open>ARP_END\<close>, so within a frame that passed the length test.
\<close>

type_synonym fanout = "(bytes \<times> ipv4 list) list"

definition arp_packet :: "bytes \<Rightarrow> bool" where
  "arp_packet d \<longleftrightarrow> \<not> (length d < ARP_END \<or> word16_at d 12 \<noteq> 0x0806)"

definition analyze_frame :: "bytes \<Rightarrow> arp_profile \<times> fanout \<Rightarrow> arp_profile \<times> fanout" where
  "analyze_frame d st =
     (if \<not> arp_packet d then st
      else
        let (p, fanout) = st;
            oper = word16_at d 20;
            spa = word32_at d 28;
            tpa = word32_at d 38;
            p = (if spa = tpa then p\<lparr>ap_gratuitous := ap_gratuitous p + 1\<rparr> else p);
            p = (if length d < ETH_MIN then p\<lparr>ap_runts := ap_runts p + 1\<rparr> else p)
        in if oper = 1
           then (p\<lparr>ap_requests := ap_requests p + 1\<rparr>,
                 AList.map_default (take 6 (drop 6 d)) [tpa] (List.insert tpa) fanout)
           else if oper = 2
           then let p = p\<lparr>ap_replies := ap_replies p + 1, ap_repliers := insert spa (ap_repliers p)\<rparr>
                in (if d ! 22 AND 2 \<noteq> 0 then p\<lparr>ap_locally_administered := ap_locally_administered p + 1\<rparr> else p, fanout)
           else (p, fanout))"

definition analyze :: "bytes list \<Rightarrow> arp_profile" where
  "analyze frames =
     (let (p, fanout) = fold analyze_frame frames (arp_profile_default, [])
      in p\<lparr>ap_max_fanout := fold max (map (length \<circ> snd) fanout) 0\<rparr>)"

section \<open>The bands\<close>

text \<open>
  A violated band with the figures its message prints.  The code lists the missing owners in the order of a hash set;
  here the expected owners come as a list.
\<close>

datatype violation =
  Gratuitous nat
| Runts nat
| Locally_Administered nat
| Fanout nat nat
| Missing nat "ipv4 list"

definition check_profile :: "arp_profile \<Rightarrow> ipv4 list \<Rightarrow> nat \<Rightarrow> violation list" where
  "check_profile p expected_owners max_fanout =
     (let missing = filter (\<lambda>ip. ip \<notin> ap_repliers p) expected_owners
      in (if ap_gratuitous p \<noteq> 0 then [Gratuitous (ap_gratuitous p)] else []) @
         (if ap_runts p \<noteq> 0 then [Runts (ap_runts p)] else []) @
         (if ap_locally_administered p \<noteq> 0 then [Locally_Administered (ap_locally_administered p)] else []) @
         (if max_fanout < ap_max_fanout p then [Fanout (ap_max_fanout p) max_fanout] else []) @
         (if missing \<noteq> [] then [Missing (length missing) (take 5 missing)] else []))"

text \<open>\<open>cmd_verify\<close>: the owners the ledger plans, and the size of a cell less its master.\<close>

definition verify_pcap :: "'n net_ops \<Rightarrow> ledger \<Rightarrow> 'h capture \<Rightarrow> violation list" where
  "verify_pcap N s cap =
     check_profile (analyze (map pk_data (cap_packets cap)))
       (remdups (map (nd_ip \<circ> eg_owner) (arp_edges N s (lg_seed s)))) (CELL_SIZE - 1)"

section \<open>What the measures count\<close>

definition asks :: "bytes \<Rightarrow> bool" where
  "asks d \<longleftrightarrow> arp_packet d \<and> word16_at d 20 = 1"

definition answers :: "bytes \<Rightarrow> bool" where
  "answers d \<longleftrightarrow> arp_packet d \<and> word16_at d 20 = 2"

definition asked_by :: "bytes list \<Rightarrow> bytes \<Rightarrow> ipv4 set" where
  "asked_by fs m = (\<lambda>d. word32_at d 38) ` {d \<in> set fs. asks d \<and> take 6 (drop 6 d) = m}"

definition answered :: "bytes list \<Rightarrow> ipv4 set" where
  "answered fs = (\<lambda>d. word32_at d 28) ` {d \<in> set fs. answers d}"

text \<open>The state of the loop after some frames.\<close>

definition profiled :: "bytes list \<Rightarrow> arp_profile \<times> fanout \<Rightarrow> bool" where
  "profiled fs st \<longleftrightarrow>
     ap_requests (fst st) = length (filter asks fs) \<and>
     ap_replies (fst st) = length (filter answers fs) \<and>
     ap_gratuitous (fst st) = length (filter (\<lambda>d. arp_packet d \<and> word32_at d 28 = word32_at d 38) fs) \<and>
     ap_runts (fst st) = length (filter (\<lambda>d. arp_packet d \<and> length d < ETH_MIN) fs) \<and>
     ap_locally_administered (fst st) = length (filter (\<lambda>d. answers d \<and> d ! 22 AND 2 \<noteq> 0) fs) \<and>
     ap_repliers (fst st) = answered fs \<and>
     distinct (map fst (snd st)) \<and>
     (\<forall>m. case map_of (snd st) m of None \<Rightarrow> asked_by fs m = {} | Some ts \<Rightarrow> distinct ts \<and> set ts = asked_by fs m)"

lemma asked_by_snoc:
  "asked_by (fs @ [d]) m =
     (if asks d \<and> take 6 (drop 6 d) = m then insert (word32_at d 38) (asked_by fs m) else asked_by fs m)"
  by (auto simp: asked_by_def)

lemma answered_snoc: "answered (fs @ [d]) = (if answers d then insert (word32_at d 28) (answered fs) else answered fs)"
  by (auto simp: answered_def)

lemma fanout_step:
  assumes "distinct (map fst fanout)"
    and "\<forall>m. case map_of fanout m of None \<Rightarrow> A m = {} | Some ts \<Rightarrow> distinct ts \<and> set ts = A m"
  shows "\<forall>m. case map_of (AList.map_default k [t] (List.insert t) fanout) m of
      None \<Rightarrow> (if m = k then insert t (A m) else A m) = {}
    | Some ts \<Rightarrow> distinct ts \<and> set ts = (if m = k then insert t (A m) else A m)"
proof
  fix m
  show "case map_of (AList.map_default k [t] (List.insert t) fanout) m of
      None \<Rightarrow> (if m = k then insert t (A m) else A m) = {}
    | Some ts \<Rightarrow> distinct ts \<and> set ts = (if m = k then insert t (A m) else A m)"
    using spec [OF assms(2), of m] spec [OF assms(2), of k]
    by (auto simp: map_of_map_default split: option.splits)
qed

lemma analyze_frame_profiled:
  assumes "profiled fs st"
  shows "profiled (fs @ [d]) (analyze_frame d st)"
proof -
  obtain p fanout where st: "st = (p, fanout)" by (cases st)
  note h = assms [unfolded profiled_def st fst_conv snd_conv]
  consider "\<not> arp_packet d" | "arp_packet d" "word16_at d 20 = 1" | "arp_packet d" "word16_at d 20 = 2"
    | "arp_packet d" "word16_at d 20 \<noteq> 1" "word16_at d 20 \<noteq> 2" by blast
  then show ?thesis
  proof cases
    case 1
    then have "\<not> asks d" "\<not> answers d" by (simp_all add: asks_def answers_def)
    then show ?thesis using h 1 by (simp add: profiled_def analyze_frame_def st asked_by_snoc answered_snoc cong: option.case_cong)
  next
    case 2
    then have a: "asks d" "\<not> answers d" by (simp_all add: asks_def answers_def)
    define src tpa where "src = take 6 (drop 6 d)" and "tpa = word32_at d 38"
    define fanout' where "fanout' = AList.map_default src [tpa] (List.insert tpa) fanout"
    have out: "snd (analyze_frame d st) = fanout'" "ap_repliers (fst (analyze_frame d st)) = ap_repliers p"
      using 2 by (simp_all add: analyze_frame_def st Let_def fanout'_def src_def tpa_def)
    have "distinct (map fst fanout')" using h by (simp add: fanout'_def distinct_map_default)
    moreover have "asked_by (fs @ [d]) = (\<lambda>m. if m = src then insert tpa (asked_by fs m) else asked_by fs m)"
      using a(1) by (intro ext) (auto simp: asked_by_snoc src_def tpa_def)
    then have "\<forall>m. case map_of fanout' m of None \<Rightarrow> asked_by (fs @ [d]) m = {}
        | Some ts \<Rightarrow> distinct ts \<and> set ts = asked_by (fs @ [d]) m"
      using fanout_step [of fanout "asked_by fs" src tpa] h unfolding fanout'_def by presburger
    moreover have "ap_repliers p = answered (fs @ [d])" using h a(2) by (simp add: answered_snoc)
    ultimately show ?thesis
      unfolding profiled_def out using h a 2
      by (intro conjI) (simp_all add: analyze_frame_def st Let_def)
  next
    case 3
    then have "\<not> asks d" "answers d" by (simp_all add: asks_def answers_def)
    then show ?thesis using h 3 by (simp add: profiled_def analyze_frame_def st Let_def asked_by_snoc answered_snoc cong: option.case_cong)
  next
    case 4
    then have "\<not> asks d" "\<not> answers d" by (simp_all add: asks_def answers_def)
    then show ?thesis using h 4 by (simp add: profiled_def analyze_frame_def st Let_def asked_by_snoc answered_snoc cong: option.case_cong)
  qed
qed

lemma fold_profiled: "profiled fs (fold analyze_frame fs (arp_profile_default, []))"
proof (induction fs rule: rev_induct)
  case Nil
  show ?case by (simp add: profiled_def arp_profile_default_def asked_by_def answered_def)
next
  case (snoc d fs)
  then show ?case using analyze_frame_profiled by simp
qed

lemma fold_max_le: "fold max xs (k::nat) \<le> n \<longleftrightarrow> k \<le> n \<and> (\<forall>x \<in> set xs. x \<le> n)"
  by (induction xs arbitrary: k) auto

text \<open>What a capture must be like to pass: the oracle's meaning, frame by frame.\<close>

definition organic :: "bytes list \<Rightarrow> ipv4 list \<Rightarrow> nat \<Rightarrow> bool" where
  "organic fs owners k \<longleftrightarrow>
     (\<forall>d \<in> set fs. arp_packet d \<longrightarrow> word32_at d 28 \<noteq> word32_at d 38 \<and> 60 \<le> length d) \<and>
     (\<forall>d \<in> set fs. answers d \<longrightarrow> d ! 22 AND 2 = 0) \<and>
     (\<forall>m. card (asked_by fs m) \<le> k) \<and>
     (\<forall>ip \<in> set owners. \<exists>d \<in> set fs. answers d \<and> word32_at d 28 = ip)"

lemma check_iff: "check_profile (analyze fs) owners k = [] \<longleftrightarrow> organic fs owners k"
proof -
  obtain p fanout where st: "fold analyze_frame fs (arp_profile_default, []) = (p, fanout)" by fastforce
  note h = fold_profiled [of fs, unfolded st profiled_def fst_conv snd_conv]
  have fan: "ap_max_fanout (analyze fs) \<le> k \<longleftrightarrow> (\<forall>m. card (asked_by fs m) \<le> k)"
  proof -
    have "(\<forall>x \<in> set fanout. length (snd x) \<le> k) \<longleftrightarrow> (\<forall>m. card (asked_by fs m) \<le> k)"
    proof safe
      fix m
      assume le: "\<forall>x \<in> set fanout. length (snd x) \<le> k"
      show "card (asked_by fs m) \<le> k"
      proof (cases "map_of fanout m")
        case None
        with h have "asked_by fs m = {}" by (auto dest: spec [of _ m])
        then show ?thesis by simp
      next
        case (Some ts)
        with h have "distinct ts" "set ts = asked_by fs m" by (auto split: option.splits)
        then have "card (asked_by fs m) = length ts" by (metis distinct_card)
        then show ?thesis using le map_of_SomeD [OF Some] by auto
      qed
    next
      fix m ts
      assume le: "\<forall>m. card (asked_by fs m) \<le> k" and "(m, ts) \<in> set fanout"
      then have "map_of fanout m = Some ts" using h by simp
      with h have "distinct ts" "set ts = asked_by fs m" by (auto split: option.splits)
      then have "length ts = card (asked_by fs m)" by (metis distinct_card)
      then show "length (snd (m, ts)) \<le> k" using le by simp
    qed
    then show ?thesis by (simp add: analyze_def st fold_max_le)
  qed
  have none: "length (filter P fs) = 0 \<longleftrightarrow> (\<forall>d \<in> set fs. \<not> P d)" for P :: "bytes \<Rightarrow> bool"
    by (simp add: filter_empty_conv)
  have "ap_gratuitous (analyze fs) = ap_gratuitous p" "ap_runts (analyze fs) = ap_runts p"
    "ap_locally_administered (analyze fs) = ap_locally_administered p" "ap_repliers (analyze fs) = ap_repliers p"
    by (simp_all add: analyze_def st)
  with h have z: "ap_gratuitous (analyze fs) = 0 \<longleftrightarrow> (\<forall>d \<in> set fs. arp_packet d \<longrightarrow> word32_at d 28 \<noteq> word32_at d 38)"
    "ap_runts (analyze fs) = 0 \<longleftrightarrow> (\<forall>d \<in> set fs. arp_packet d \<longrightarrow> 60 \<le> length d)"
    "ap_locally_administered (analyze fs) = 0 \<longleftrightarrow> (\<forall>d \<in> set fs. answers d \<longrightarrow> d ! 22 AND 2 = 0)"
    "ap_repliers (analyze fs) = answered fs"
    by (simp_all only: none ETH_MIN_def not_less de_Morgan_conj imp_conv_disj not_not)
  have "check_profile (analyze fs) owners k = [] \<longleftrightarrow>
      ap_gratuitous (analyze fs) = 0 \<and> ap_runts (analyze fs) = 0 \<and> ap_locally_administered (analyze fs) = 0 \<and>
      ap_max_fanout (analyze fs) \<le> k \<and> (\<forall>ip \<in> set owners. ip \<in> ap_repliers (analyze fs))"
    by (auto simp: check_profile_def Let_def filter_empty_conv)
  also have "\<dots> \<longleftrightarrow> organic fs owners k" unfolding z fan organic_def by (auto simp: answered_def)
  finally show ?thesis .
qed

section \<open>The burst passes\<close>

text \<open>The hosts a burst resolves: the assets of every zone, with the stations and requesters derived for them.\<close>

definition burst_hosts :: "'n net_ops \<Rightarrow> ledger \<Rightarrow> u64 \<Rightarrow> node list" where
  "burst_hosts N s seed = concat (map (\<lambda>(cidr, reals). zone_nodes N seed cidr reals) (btree_group (ledger_assets s)))"

definition burst_cells :: "'n net_ops \<Rightarrow> ledger \<Rightarrow> u64 \<Rightarrow> node list list" where
  "burst_cells N s seed =
     concat (map (\<lambda>(cidr, reals). cells_no_orphan (zone_nodes N seed cidr reals) CELL_SIZE) (btree_group (ledger_assets s)))"

lemma cells_partition:
  "concat (cells_no_orphan xs CELL_SIZE) = xs" "\<forall>c \<in> set (cells_no_orphan xs CELL_SIZE). length c \<le> CELL_SIZE"
proof -
  show "concat (cells_no_orphan xs CELL_SIZE) = xs"
  proof (cases "length xs \<le> CELL_SIZE")
    case True
    then show ?thesis by (simp add: cells_no_orphan_def)
  next
    case False
    then show ?thesis by (intro cells_no_orphan_ok) (simp_all add: CELL_SIZE_def)
  qed
  show "\<forall>c \<in> set (cells_no_orphan xs CELL_SIZE). length c \<le> CELL_SIZE"
  proof (cases "length xs \<le> CELL_SIZE")
    case True
    then show ?thesis by (simp add: cells_no_orphan_def)
  next
    case False
    then show ?thesis using cells_no_orphan_ok(2) [of CELL_SIZE xs] by (simp add: CELL_SIZE_def)
  qed
qed

lemma concat_burst_cells: "concat (burst_cells N s seed) = burst_hosts N s seed"
proof -
  have "concat (concat (map (\<lambda>(cidr, reals). cells_no_orphan (zone_nodes N seed cidr reals) CELL_SIZE) gs)) =
      concat (map (\<lambda>(cidr, reals). zone_nodes N seed cidr reals) gs)" for gs
    by (induction gs) (auto simp: cells_partition)
  then show ?thesis by (simp add: burst_cells_def burst_hosts_def)
qed

lemma arp_edges_cells: "arp_edges N s seed = concat (map cell_edges (burst_cells N s seed))"
proof -
  have "concat (map (\<lambda>(cidr, reals). zone_edges N seed cidr reals) gs) = concat (map cell_edges
      (concat (map (\<lambda>(cidr, reals). cells_no_orphan (zone_nodes N seed cidr reals) CELL_SIZE) gs)))" for gs
    by (induction gs) (auto simp: zone_edges_def)
  then show ?thesis by (simp add: burst_cells_def arp_edges_def)
qed

lemma burst_cells_small: "\<forall>c \<in> set (burst_cells N s seed). length c \<le> CELL_SIZE"
  using cells_partition(2) by (fastforce simp: burst_cells_def)

lemma cell_edge_ips: "distinct (map nd_ip c) \<Longrightarrow> e \<in> set (cell_edges c) \<Longrightarrow> nd_ip (eg_owner e) \<noteq> nd_ip (eg_requester e)"
  by (cases c; cases "tl c") (auto simp: cell_edges_def image_iff)

lemma arp_edge_ips:
  assumes "distinct (map (nd_ip \<circ> snd) (ledger_assets s))" and "e \<in> set (arp_edges N s seed)"
  shows "nd_ip (eg_owner e) \<noteq> nd_ip (eg_requester e)"
proof -
  obtain cidr reals c where c: "(cidr, reals) \<in> set (btree_group (ledger_assets s))"
    "c \<in> set (cells_no_orphan (zone_nodes N seed cidr reals) CELL_SIZE)" "e \<in> set (cell_edges c)"
    using assms(2) by (auto simp: arp_edges_def zone_edges_def)
  have "distinct (map nd_ip reals)"
    using btree_group_sound [OF c(1)] assms(1) by (simp add: distinct_map_filter)
  then have "distinct (map nd_ip (concat (cells_no_orphan (zone_nodes N seed cidr reals) CELL_SIZE)))"
    unfolding cells_partition by (rule zone_nodes_distinct)
  then have "distinct (map nd_ip c)"
    using c(2) by (induction "cells_no_orphan (zone_nodes N seed cidr reals) CELL_SIZE" arbitrary: c) (auto simp: map_concat distinct_concat_iff)
  then show ?thesis using cell_edge_ips c(3) by blast
qed

lemma requesters_fan:
  assumes "distinct (map nd_mac (burst_hosts N s seed))"
  shows "length (filter (\<lambda>e. nd_mac (eg_requester e) = m) (arp_edges N s seed)) \<le> CELL_SIZE - 1"
proof (cases "\<exists>r \<in> set (burst_hosts N s seed). nd_mac r = m")
  case True
  then obtain r where r: "r \<in> set (burst_hosts N s seed)" "nd_mac r = m" by blast
  have "nd_mac (eg_requester e) = m \<longleftrightarrow> eg_requester e = r" if "e \<in> set (arp_edges N s seed)" for e
  proof -
    have "eg_requester e \<in> set (burst_hosts N s seed)"
      using that cell_edges_nodes unfolding arp_edges_cells concat_burst_cells [symmetric] by fastforce
    then show ?thesis using assms r by (auto simp: distinct_map dest: inj_onD)
  qed
  then have "filter (\<lambda>e. nd_mac (eg_requester e) = m) (arp_edges N s seed) = filter (\<lambda>e. eg_requester e = r) (arp_edges N s seed)"
    by (intro filter_cong) simp_all
  also have "length \<dots> \<le> CELL_SIZE - 1"
    unfolding arp_edges_cells
    by (rule cells_fan) (use assms burst_cells_small in \<open>auto simp: concat_burst_cells distinct_map CELL_SIZE_def\<close>)
  finally show ?thesis .
next
  case False
  have "nd_mac (eg_requester e) \<noteq> m" if "e \<in> set (arp_edges N s seed)" for e
    using False that cell_edges_nodes unfolding arp_edges_cells concat_burst_cells [symmetric] by fastforce
  then have "filter (\<lambda>e. nd_mac (eg_requester e) = m) (arp_edges N s seed) = []" by (simp add: filter_empty_conv)
  then show ?thesis by simp
qed

text \<open>What the measures read in an ARP frame.\<close>

lemma arp_measured:
  assumes "length d = 6" "length sm = 6" "length tm = 6"
  shows "arp_packet (arp d oper sm si tm ti)" "length (arp d oper sm si tm ti) = 60" "word16_at (arp d oper sm si tm ti) 20 = oper"
    "word32_at (arp d oper sm si tm ti) 28 = si" "word32_at (arp d oper sm si tm ti) 38 = ti"
    "take 6 (drop 6 (arp d oper sm si tm ti)) = sm" "arp d oper sm si tm ti ! 22 = sm ! 0"
proof -
  obtain d0 d1 d2 d3 d4 d5 where d: "d = [d0, d1, d2, d3, d4, d5]" using assms(1) unfolding mac6 by blast
  obtain s0 s1 s2 s3 s4 s5 where s: "sm = [s0, s1, s2, s3, s4, s5]" using assms(2) unfolding mac6 by blast
  obtain t0 t1 t2 t3 t4 t5 where t: "tm = [t0, t1, t2, t3, t4, t5]" using assms(3) unfolding mac6 by blast
  have e: "to_be16 0x0806 = [0x08, 0x06]" "to_be16 1 = [0, 1]" "to_be16 0x0800 = [0x08, 0]" by (simp_all add: to_be16_def)
  have h: "to_be16 oper = [ucast (drop_bit 8 oper), ucast oper]" by (simp add: to_be16_def)
  have o: "be16 (ucast (drop_bit 8 oper)) (ucast oper) = oper" using be16_to_be16 [of oper] by (simp add: to_be16_def)
  have a: "be32 (ucast (drop_bit 24 x)) (ucast (drop_bit 16 x)) (ucast (drop_bit 8 x)) (ucast x) = x" for x
    using be32_to_be32 [of x] by (simp add: to_be32_def)
  have k: "be16 8 6 = 0x0806" by (simp add: be16_def)
  show "arp_packet (arp d oper sm si tm ti)" "length (arp d oper sm si tm ti) = 60" "word16_at (arp d oper sm si tm ti) 20 = oper"
    "word32_at (arp d oper sm si tm ti) 28 = si" "word32_at (arp d oper sm si tm ti) 38 = ti"
    "take 6 (drop 6 (arp d oper sm si tm ti)) = sm" "arp d oper sm si tm ti ! 22 = sm ! 0"
    unfolding arp_def l2_frame_def ethernet_header_def Let_def e h octets_def to_be32_def d s t
    by (simp_all add: arp_packet_def ARP_END_def word16_at_def word32_at_def o a k)
qed

text \<open>The frames a burst hands to the file, in the order it builds them.\<close>

lemma written_frames:
  "\<exists>cap n. drop_oversize_frames (to_capture header fs) standard_frame_bytes = ret (cap, n) \<and>
     map pk_data (cap_packets cap) = filter (\<lambda>f. length f \<le> 1514) fs"
proof -
  have frames: "map pk_data (cap_packets (to_capture header fs)) = fs"
    by (simp add: to_capture_def comp_def split_def enumerate_eq_zip)
  have "map pk_data (filter (\<lambda>p. length (pk_data p) \<le> 1514) ps) = filter (\<lambda>f. length f \<le> 1514) (map pk_data ps)" for ps
    by (simp add: filter_map comp_def)
  from this [of "cap_packets (to_capture header fs)"] frames show ?thesis
    by (simp add: drop_oversize_frames_def size_filter.drop_eq keep_size_def standard_frame_bytes_def)
qed

lemma edge_measures:
  assumes "e \<in> set (arp_edges N s seed)"
  obtains q r where "edge_frames e = [q, r]" "length q = 60" "length r = 60" "asks q" "answers r" "\<not> answers q" "\<not> asks r"
    "arp_packet q" "arp_packet r"
    "word32_at q 28 = nd_ip (eg_requester e)" "word32_at q 38 = nd_ip (eg_owner e)" "take 6 (drop 6 q) = nd_mac (eg_requester e)"
    "word32_at r 28 = nd_ip (eg_owner e)" "word32_at r 38 = nd_ip (eg_requester e)" "r ! 22 = nd_mac (eg_owner e) ! 0"
proof -
  have l: "length (nd_mac (eg_owner e)) = 6" "length (nd_mac (eg_requester e)) = 6"
    using arp_edge_nodes [OF assms] bound_node_mac by blast+
  define q where "q = arp_request (nd_mac (eg_requester e)) (nd_ip (eg_requester e)) (nd_ip (eg_owner e))"
  define r where "r = arp_reply (nd_mac (eg_owner e)) (nd_ip (eg_owner e)) (nd_mac (eg_requester e)) (nd_ip (eg_requester e))"
  have "edge_frames e = [q, r]" by (simp add: edge_frames_def arp_resolve_def q_def r_def Let_def)
  then show thesis
    by (rule that) (use l in \<open>simp_all add: q_def r_def arp_request_def arp_reply_def asks_def answers_def arp_measured\<close>)
qed

lemma burst_organic:
  assumes ips: "distinct (map (nd_ip \<circ> snd) (ledger_assets s))"
    and macs: "distinct (map nd_mac (burst_hosts N s seed))"
    and global: "\<forall>(cidr, x) \<in> set (ledger_assets s). nd_mac x ! 0 AND 2 = 0"
    and other: "\<forall>f \<in> set rest. \<not> arp_packet f"
  shows "organic (concat (map edge_frames (arp_edges N s seed)) @ rest) (remdups (map (nd_ip \<circ> eg_owner) (arp_edges N s seed))) (CELL_SIZE - 1)"
proof -
  let ?E = "arp_edges N s seed" and ?fs = "concat (map edge_frames (arp_edges N s seed)) @ rest"
  have other: "\<not> asks f" "\<not> answers f" "\<not> arp_packet f" if "f \<in> set rest" for f
    using other that by (auto simp: asks_def answers_def)
  have frame: "word32_at d 28 \<noteq> word32_at d 38 \<and> 60 \<le> length d" if d: "d \<in> set ?fs" "arp_packet d" for d
  proof -
    obtain e where e: "e \<in> set ?E" "d \<in> set (edge_frames e)" using d other(3) by auto
    obtain q r where "edge_frames e = [q, r]" "length q = 60" "length r = 60"
      "word32_at q 28 = nd_ip (eg_requester e)" "word32_at q 38 = nd_ip (eg_owner e)"
      "word32_at r 28 = nd_ip (eg_owner e)" "word32_at r 38 = nd_ip (eg_requester e)"
      by (rule edge_measures [OF e(1)], rule that)
    then show ?thesis using e(2) arp_edge_ips [OF ips e(1)] by auto
  qed
  have owner: "nd_mac (eg_owner e) ! 0 AND 2 = 0" if "e \<in> set ?E" for e
  proof -
    have "stable_mac seed a ! 0 AND 2 = 0" for a
      by (simp add: stable_mac_def Let_def to_be64_def and.assoc)
    then show ?thesis using arp_edge_nodes(1) [OF that] global unfolding bound_node_def derived_node_def by auto
  qed
  have laa: "d ! 22 AND 2 = 0" if d: "d \<in> set ?fs" "answers d" for d
  proof -
    obtain e where e: "e \<in> set ?E" "d \<in> set (edge_frames e)" using d other(2) by auto
    obtain q r where "edge_frames e = [q, r]" "\<not> answers q" "r ! 22 = nd_mac (eg_owner e) ! 0"
      by (rule edge_measures [OF e(1)], rule that)
    then show ?thesis using e d(2) owner [OF e(1)] by auto
  qed
  have fan: "card (asked_by ?fs m) \<le> CELL_SIZE - 1" for m
  proof -
    let ?A = "filter (\<lambda>e. nd_mac (eg_requester e) = m) ?E"
    have "asked_by ?fs m \<subseteq> (nd_ip \<circ> eg_owner) ` set ?A"
    proof
      fix a assume "a \<in> asked_by ?fs m"
      then obtain d where d: "a = word32_at d 38" "d \<in> set ?fs" "asks d" "take 6 (drop 6 d) = m" by (auto simp: asked_by_def)
      then obtain e where e: "e \<in> set ?E" "d \<in> set (edge_frames e)" using other(1) by auto
      obtain q r where "edge_frames e = [q, r]" "\<not> asks r" "word32_at q 38 = nd_ip (eg_owner e)"
        "take 6 (drop 6 q) = nd_mac (eg_requester e)"
        by (rule edge_measures [OF e(1)], rule that)
      then show "a \<in> (nd_ip \<circ> eg_owner) ` set ?A" using e d by auto
    qed
    then have "card (asked_by ?fs m) \<le> card ((nd_ip \<circ> eg_owner) ` set ?A)" by (intro card_mono) simp_all
    also have "\<dots> \<le> length ?A" using card_image_le [of "set ?A" "nd_ip \<circ> eg_owner"] card_length [of ?A] by simp
    also have "\<dots> \<le> CELL_SIZE - 1" by (rule requesters_fan [OF macs])
    finally show ?thesis .
  qed
  have "\<exists>d \<in> set ?fs. answers d \<and> word32_at d 28 = nd_ip (eg_owner e)" if e: "e \<in> set ?E" for e
  proof -
    obtain q r where "edge_frames e = [q, r]" "answers r" "word32_at r 28 = nd_ip (eg_owner e)"
      by (rule edge_measures [OF e], rule that)
    then show ?thesis using e by force
  qed
  then show ?thesis unfolding organic_def using frame laa fan by auto
qed

end
