(* ===== verification/Sensor_Csv.thy ===== *)
theory Sensor_Csv
  imports Ledger
begin

text \<open>
  The scorecard of a sensor export, \<open>src/validate/sensor_csv.rs\<close>: the CSV reader, the tokens of an address cell and the
  counts of \<open>analyze\<close> against a ledger.  The lemmas show that the reader inverts a quoting writer, and what the counts
  say of the rows and of the plan.
\<close>

section \<open>The reader\<close>

text \<open>
  The loop over the characters with its four variables.  Strings are lists of one-byte characters; every character the
  loop looks for is ASCII, so that the bytes of a longer one go to the field as the character does.
\<close>

abbreviation (input) quote_char :: char where "quote_char \<equiv> CHR 0x22"
abbreviation (input) newline_char :: char where "newline_char \<equiv> CHR 0x0A"
abbreviation (input) return_char :: char where "return_char \<equiv> CHR 0x0D"

fun records_loop :: "string \<Rightarrow> bool \<Rightarrow> string \<Rightarrow> string list \<Rightarrow> string list list \<Rightarrow> string list list" where
  "records_loop [] in_quotes field line records =
     (if field \<noteq> [] \<or> line \<noteq> [] then records @ [line @ [field]] else records)"
| "records_loop (c # cs) in_quotes field line records =
     (if c = quote_char \<and> in_quotes
      then if cs \<noteq> [] \<and> hd cs = quote_char then records_loop (tl cs) in_quotes (field @ [quote_char]) line records
           else records_loop cs False field line records
      else if c = quote_char then records_loop cs True field line records
      else if c = CHR '','' \<and> \<not> in_quotes then records_loop cs in_quotes [] (line @ [field]) records
      else if (c = newline_char \<or> c = return_char) \<and> \<not> in_quotes
      then if field \<noteq> [] \<or> line \<noteq> [] then records_loop cs in_quotes [] [] (records @ [line @ [field]])
           else records_loop cs in_quotes field line records
      else records_loop cs in_quotes (field @ [c]) line records)"

definition parse_records :: "string \<Rightarrow> string list list" where
  "parse_records s = records_loop s False [] [] []"

text \<open>\<open>tokens\<close>: a cell may list several addresses.\<close>

fun split_any :: "char list \<Rightarrow> string \<Rightarrow> string list" where
  "split_any ds [] = [[]]"
| "split_any ds (x # xs) =
     (if x \<in> set ds then [] # split_any ds xs
      else case split_any ds xs of [] \<Rightarrow> [[x]] | p # ps \<Rightarrow> (x # p) # ps)"

definition tokens :: "string \<Rightarrow> string list" where
  "tokens field = filter (\<lambda>s. s \<noteq> []) (map trim (split_any [CHR '','', CHR '' '', CHR '';''] field))"

section \<open>The scorecard\<close>

record union_report =
  ur_total_records :: nat
  ur_unioned :: nat
  ur_ip_only :: nat
  ur_mac_only :: nat
  ur_neither :: nat
  ur_planned :: nat
  ur_planned_unioned :: nat
  ur_stragglers :: "ipv4 list"
  ur_planned_named :: nat
  ur_planned_named_resolved :: nat

datatype csv_error = Empty_Csv | No_Ip_Column | No_Mac_Column

definition position :: "'a \<Rightarrow> 'a list \<Rightarrow> nat option" where
  "position x xs = (let i = length (takeWhile (\<lambda>y. y \<noteq> x) xs) in if i < length xs then Some i else None)"

definition cell :: "string list \<Rightarrow> nat \<Rightarrow> string" where
  "cell row i = (if i < length row then row ! i else [])"

definition token_ips :: "string \<Rightarrow> ipv4 set" where
  "token_ips field = set (List.map_filter ipv4_from_str (tokens field))"

definition has_host :: "nat option \<Rightarrow> string list \<Rightarrow> bool" where
  "has_host host_col row = (case host_col of None \<Rightarrow> False | Some hc \<Rightarrow> hc < length row \<and> trim (row ! hc) \<noteq> [])"

text \<open>One row: the report, the addresses of unioned records and those with a name.\<close>

definition score_row ::
    "nat \<Rightarrow> nat \<Rightarrow> nat option \<Rightarrow> string list \<Rightarrow> union_report \<times> ipv4 set \<times> ipv4 set \<Rightarrow> union_report \<times> ipv4 set \<times> ipv4 set" where
  "score_row ip_col mac_col host_col row st =
     (let (r, unioned_ips, named_ips) = st;
          ip_field = cell row ip_col;
          mac_field = cell row mac_col;
          has_ip = tokens ip_field \<noteq> [];
          has_mac = tokens mac_field \<noteq> [];
          r = r\<lparr>ur_total_records := ur_total_records r + 1\<rparr>;
          (r, unioned_ips) =
            (if has_ip \<and> has_mac then (r\<lparr>ur_unioned := ur_unioned r + 1\<rparr>, unioned_ips \<union> token_ips ip_field)
             else if has_ip then (r\<lparr>ur_ip_only := ur_ip_only r + 1\<rparr>, unioned_ips)
             else if has_mac then (r\<lparr>ur_mac_only := ur_mac_only r + 1\<rparr>, unioned_ips)
             else (r\<lparr>ur_neither := ur_neither r + 1\<rparr>, unioned_ips))
      in (r, unioned_ips, if has_ip \<and> has_host host_col row then named_ips \<union> token_ips ip_field else named_ips))"

definition planned_ips :: "ledger \<Rightarrow> ipv4 list" where
  "planned_ips s = List.map_filter ipv4_from_str (map dr_ip (lg_devices s) @ map ch_ip (lg_capture_hosts s))"

definition score_planned :: "ipv4 set \<Rightarrow> ipv4 \<Rightarrow> union_report \<Rightarrow> union_report" where
  "score_planned unioned_ips ip r =
     (if ip \<in> unioned_ips then r\<lparr>ur_planned_unioned := ur_planned_unioned r + 1\<rparr>
      else if length (ur_stragglers r) < 50 then r\<lparr>ur_stragglers := ur_stragglers r @ [ip]\<rparr> else r)"

definition score_named :: "ipv4 set \<Rightarrow> device_record \<Rightarrow> union_report \<Rightarrow> union_report" where
  "score_named named_ips d r =
     (if dr_hostname d = None then r
      else
        let r = r\<lparr>ur_planned_named := ur_planned_named r + 1\<rparr>
        in case ipv4_from_str (dr_ip d) of
             None \<Rightarrow> r
           | Some ip \<Rightarrow> if ip \<in> named_ips then r\<lparr>ur_planned_named_resolved := ur_planned_named_resolved r + 1\<rparr> else r)"

definition union_report_default :: union_report where
  "union_report_default = \<lparr>ur_total_records = 0, ur_unioned = 0, ur_ip_only = 0, ur_mac_only = 0, ur_neither = 0,
     ur_planned = 0, ur_planned_unioned = 0, ur_stragglers = [], ur_planned_named = 0, ur_planned_named_resolved = 0\<rparr>"

definition score_export :: "string \<Rightarrow> ledger \<Rightarrow> csv_error + union_report" where
  "score_export csv_text s =
     (case parse_records csv_text of
        [] \<Rightarrow> Inl Empty_Csv
      | header # rows \<Rightarrow>
          (case position ''addresses.ip'' header of
             None \<Rightarrow> Inl No_Ip_Column
           | Some ip_col \<Rightarrow>
               (case position ''addresses.mac'' header of
                  None \<Rightarrow> Inl No_Mac_Column
                | Some mac_col \<Rightarrow>
                    let host_col = position ''addresses.hostname'' header;
                        (r, unioned_ips, named_ips) =
                          fold (score_row ip_col mac_col host_col) rows (union_report_default, {}, {});
                        planned = planned_ips s;
                        r = fold (score_planned unioned_ips) planned (r\<lparr>ur_planned := length planned\<rparr>)
                    in Inr (fold (score_named named_ips) (lg_devices s) r))))"

section \<open>Reading back a written file\<close>

text \<open>A writer that quotes every field.\<close>

definition csv_escape :: "string \<Rightarrow> string" where
  "csv_escape f = concat (map (\<lambda>c. if c = quote_char then [c, c] else [c]) f)"

definition csv_field :: "string \<Rightarrow> string" where
  "csv_field f = quote_char # csv_escape f @ [quote_char]"

definition csv_row :: "string list \<Rightarrow> string" where
  "csv_row fs = join_with (CHR '','') (map csv_field fs) @ [newline_char]"

definition csv_file :: "string list list \<Rightarrow> string" where
  "csv_file rows = concat (map csv_row rows)"

lemma records_quoted:
  "cs = [] \<or> hd cs \<noteq> quote_char \<Longrightarrow>
     records_loop (csv_escape f @ quote_char # cs) True field line records = records_loop cs False (field @ f) line records"
  by (induction f arbitrary: field) (auto simp: csv_escape_def)

lemma records_field:
  "cs = [] \<or> hd cs \<noteq> quote_char \<Longrightarrow>
     records_loop (csv_field f @ cs) False [] line records = records_loop cs False f line records"
  by (simp add: csv_field_def records_quoted)

lemma records_row:
  "fs \<noteq> [] \<Longrightarrow> line \<noteq> [] \<or> fs \<noteq> [[]] \<Longrightarrow>
     records_loop (csv_row fs @ cs) False [] line records = records_loop cs False [] [] (records @ [line @ fs])"
proof (induction fs arbitrary: line rule: induct_list012)
  case (2 f)
  then show ?case by (auto simp: csv_row_def records_field)
next
  case (3 f g fs)
  have "records_loop (csv_row (f # g # fs) @ cs) False [] line records =
      records_loop (csv_row (g # fs) @ cs) False [] (line @ [f]) records"
    by (simp add: csv_row_def records_field)
  also have "\<dots> = records_loop cs False [] [] (records @ [(line @ [f]) @ (g # fs)])"
    using 3 by (intro 3) simp_all
  finally show ?case by simp
qed simp

lemma records_rows:
  "\<forall>row \<in> set rows. row \<noteq> [] \<and> row \<noteq> [[]] \<Longrightarrow> records_loop (csv_file rows) False [] [] records = records @ rows"
  by (induction rows arbitrary: records) (auto simp: csv_file_def records_row)

lemma parse_csv_file: "\<forall>row \<in> set rows. row \<noteq> [] \<and> row \<noteq> [[]] \<Longrightarrow> parse_records (csv_file rows) = rows"
  by (simp add: parse_records_def records_rows)

section \<open>What the counts say\<close>

definition unioned_row :: "nat \<Rightarrow> nat \<Rightarrow> string list \<Rightarrow> bool" where
  "unioned_row i m row \<longleftrightarrow> tokens (cell row i) \<noteq> [] \<and> tokens (cell row m) \<noteq> []"

definition unioned_in :: "nat \<Rightarrow> nat \<Rightarrow> string list list \<Rightarrow> ipv4 set" where
  "unioned_in i m rows = (\<Union>row \<in> set (filter (unioned_row i m) rows). token_ips (cell row i))"

definition named_in :: "nat \<Rightarrow> nat option \<Rightarrow> string list list \<Rightarrow> ipv4 set" where
  "named_in i h rows = (\<Union>row \<in> set (filter (\<lambda>row. tokens (cell row i) \<noteq> [] \<and> has_host h row) rows). token_ips (cell row i))"

lemma rows_scored:
  "fold (score_row i m h) rows (union_report_default, {}, {}) =
     (union_report_default
        \<lparr>ur_total_records := length rows,
         ur_unioned := length (filter (unioned_row i m) rows),
         ur_ip_only := length (filter (\<lambda>row. tokens (cell row i) \<noteq> [] \<and> tokens (cell row m) = []) rows),
         ur_mac_only := length (filter (\<lambda>row. tokens (cell row i) = [] \<and> tokens (cell row m) \<noteq> []) rows),
         ur_neither := length (filter (\<lambda>row. tokens (cell row i) = [] \<and> tokens (cell row m) = []) rows)\<rparr>,
      unioned_in i m rows, named_in i h rows)"
proof (induction rows rule: rev_induct)
  case Nil
  show ?case by (simp add: union_report_default_def unioned_in_def named_in_def)
next
  case (snoc row rows)
  have "unioned_in i m (rows @ [row]) = (if unioned_row i m row then unioned_in i m rows \<union> token_ips (cell row i) else unioned_in i m rows)"
    "named_in i h (rows @ [row]) =
       (if tokens (cell row i) \<noteq> [] \<and> has_host h row then named_in i h rows \<union> token_ips (cell row i) else named_in i h rows)"
    by (auto simp: unioned_in_def named_in_def)
  then show ?case
    unfolding fold_append comp_apply snoc
    by (cases "tokens (cell row i) = []"; cases "tokens (cell row m) = []")
      (simp_all add: score_row_def unioned_row_def [abs_def] union_report_default_def Let_def)
qed

lemma planned_scored:
  "length (ur_stragglers r) \<le> 50 \<Longrightarrow>
     fold (score_planned U) ps r =
       r\<lparr>ur_planned_unioned := ur_planned_unioned r + length (filter (\<lambda>ip. ip \<in> U) ps),
         ur_stragglers := take 50 (ur_stragglers r @ filter (\<lambda>ip. ip \<notin> U) ps)\<rparr>"
proof (induction ps arbitrary: r)
  case (Cons p ps)
  then show ?case by (auto simp: score_planned_def take_Cons')
qed simp

lemma named_scored:
  "fold (score_named U) ds r =
     r\<lparr>ur_planned_named := ur_planned_named r + length (filter (\<lambda>d. dr_hostname d \<noteq> None) ds),
       ur_planned_named_resolved := ur_planned_named_resolved r +
         length (filter (\<lambda>d. dr_hostname d \<noteq> None \<and> (\<exists>ip. ipv4_from_str (dr_ip d) = Some ip \<and> ip \<in> U)) ds)\<rparr>"
proof (induction ds arbitrary: r)
  case (Cons d ds)
  then show ?case by (cases "ipv4_from_str (dr_ip d)") (auto simp: score_named_def Let_def)
qed simp

lemma score_export_eq:
  assumes "parse_records csv_text = header # rows" and "position ''addresses.ip'' header = Some i"
    and "position ''addresses.mac'' header = Some m"
  shows "score_export csv_text s = Inr \<lparr>
      ur_total_records = length rows,
      ur_unioned = length (filter (unioned_row i m) rows),
      ur_ip_only = length (filter (\<lambda>row. tokens (cell row i) \<noteq> [] \<and> tokens (cell row m) = []) rows),
      ur_mac_only = length (filter (\<lambda>row. tokens (cell row i) = [] \<and> tokens (cell row m) \<noteq> []) rows),
      ur_neither = length (filter (\<lambda>row. tokens (cell row i) = [] \<and> tokens (cell row m) = []) rows),
      ur_planned = length (planned_ips s),
      ur_planned_unioned = length (filter (\<lambda>ip. ip \<in> unioned_in i m rows) (planned_ips s)),
      ur_stragglers = take 50 (filter (\<lambda>ip. ip \<notin> unioned_in i m rows) (planned_ips s)),
      ur_planned_named = length (filter (\<lambda>d. dr_hostname d \<noteq> None) (lg_devices s)),
      ur_planned_named_resolved = length (filter (\<lambda>d. dr_hostname d \<noteq> None \<and>
        (\<exists>ip. ipv4_from_str (dr_ip d) = Some ip \<and> ip \<in> named_in i (position ''addresses.hostname'' header) rows)) (lg_devices s))\<rparr>"
  unfolding score_export_def assms list.case option.case Let_def rows_scored prod.case
  by (simp add: planned_scored named_scored union_report_default_def)

text \<open>Every row is in one class.\<close>

lemma classes_total:
  "length (filter (unioned_row i m) rows) +
   length (filter (\<lambda>row. tokens (cell row i) \<noteq> [] \<and> tokens (cell row m) = []) rows) +
   length (filter (\<lambda>row. tokens (cell row i) = [] \<and> tokens (cell row m) \<noteq> []) rows) +
   length (filter (\<lambda>row. tokens (cell row i) = [] \<and> tokens (cell row m) = []) rows) = length rows"
  by (induction rows) (auto simp: unioned_row_def)

section \<open>Addresses in a cell\<close>

lemma split_any_single: "set s \<inter> set ds = {} \<Longrightarrow> split_any ds s = [s]"
  by (induction s) auto

lemma trim_id: "\<forall>c \<in> set s. \<not> is_space c \<Longrightarrow> trim s = s"
proof -
  assume s: "\<forall>c \<in> set s. \<not> is_space c"
  then have "dropWhile is_space s = s" "dropWhile is_space (rev s) = rev s"
    using hd_in_set [of "rev s"] by (auto simp: dropWhile_eq_self_iff)
  then show ?thesis by (simp add: trim_def)
qed

lemma tokens_single:
  "s \<noteq> [] \<Longrightarrow> \<forall>c \<in> set s. \<not> is_space c \<and> c \<noteq> CHR '','' \<and> c \<noteq> CHR '';'' \<Longrightarrow> tokens s = [s]"
proof -
  assume s: "s \<noteq> []" "\<forall>c \<in> set s. \<not> is_space c \<and> c \<noteq> CHR '','' \<and> c \<noteq> CHR '';''"
  have "is_space (CHR '' '')" by (simp add: is_space_def)
  then have "set s \<inter> set [CHR '','', CHR '' '', CHR '';''] = {}" using s(2) by auto
  then have "split_any [CHR '','', CHR '' '', CHR '';''] s = [s]" by (rule split_any_single)
  then show ?thesis using s trim_id [of s] by (simp add: tokens_def)
qed

lemma show_nat_chars: "c \<in> set (show_nat n) \<Longrightarrow> 48 \<le> (of_char c :: nat) \<and> (of_char c :: nat) \<le> 57"
proof (induction n rule: show_nat.induct)
  case (1 n)
  show ?case
  proof (cases "n < 10")
    case True
    then show ?thesis using 1(2) by (simp add: show_nat.simps [of n])
  next
    case False
    then have "c \<in> set (show_nat (n div 10)) \<or> c = char_of (48 + n mod 10)" using 1(2) by (auto simp: show_nat.simps [of n])
    then show ?thesis
    proof
      assume "c \<in> set (show_nat (n div 10))"
      then show ?thesis using 1(1) [OF False] by simp
    next
      assume c: "c = char_of (48 + n mod 10)"
      have "n mod 10 < 10" by simp
      then show ?thesis unfolding c by simp
    qed
  qed
qed

lemma hex2_chars: "c \<in> set (hex2 b) \<Longrightarrow> \<exists>n<16. c = hex_digit n"
proof -
  assume "c \<in> set (hex2 b)"
  then have "c = hex_digit (unat b div 16) \<or> c = hex_digit (unat b mod 16)" by (auto simp: hex2_def)
  moreover have "unat b div 16 < 16" "unat b mod 16 < 16" using unat_u8_lt [of b] by linarith+
  ultimately show ?thesis by metis
qed

lemma join_chars: "set (join_with d ps) \<subseteq> insert d (\<Union>p \<in> set ps. set p)"
  by (induction d ps rule: join_with.induct) auto

lemma tokens_ipv4: "tokens (show_ipv4 a) = [show_ipv4 a]"
proof (rule tokens_single)
  show "show_ipv4 a \<noteq> []" by (simp add: show_ipv4_def octets_def to_be32_def)
  have "c = CHR ''.'' \<or> (\<exists>n. c \<in> set (show_nat n))" if "c \<in> set (show_ipv4 a)" for c
    using that join_chars [of "CHR ''.''" "map (\<lambda>b. show_nat (unat b)) (octets a)"] by (auto simp: show_ipv4_def)
  then have "46 \<le> (of_char c :: nat) \<and> (of_char c :: nat) \<le> 57 \<and> (of_char c :: nat) \<noteq> 59" if "c \<in> set (show_ipv4 a)" for c
    using that show_nat_chars by fastforce
  then show "\<forall>c \<in> set (show_ipv4 a). \<not> is_space c \<and> c \<noteq> CHR '','' \<and> c \<noteq> CHR '';''"
    by (fastforce simp: is_space_def)
qed

lemma tokens_mac: "m \<noteq> [] \<Longrightarrow> tokens (fmt_mac m) \<noteq> []"
proof -
  assume m: "m \<noteq> []"
  have "tokens (fmt_mac m) = [fmt_mac m]"
  proof (rule tokens_single)
    show "fmt_mac m \<noteq> []" using m by (cases m; cases "tl m") (auto simp: fmt_mac_def hex2_def)
    have "c = CHR '':'' \<or> (\<exists>n<16. c = hex_digit n)" if "c \<in> set (fmt_mac m)" for c
      using that join_chars [of "CHR '':''" "map hex2 m"] hex2_chars [of c] by (auto simp: fmt_mac_def)
    moreover have "48 \<le> (of_char (hex_digit n) :: nat) \<and> (of_char (hex_digit n) :: nat) \<noteq> 59" if "n < 16" for n
      using of_char_hex_digit [OF that] by simp
    moreover have "48 \<le> (of_char (CHR '':'') :: nat) \<and> (of_char (CHR '':'') :: nat) \<noteq> 59" by simp
    ultimately have "48 \<le> (of_char c :: nat) \<and> (of_char c :: nat) \<noteq> 59" if "c \<in> set (fmt_mac m)" for c
      using that by metis
    then show "\<forall>c \<in> set (fmt_mac m). \<not> is_space c \<and> c \<noteq> CHR '','' \<and> c \<noteq> CHR '';''"
      by (fastforce simp: is_space_def)
  qed
  then show ?thesis by simp
qed

section \<open>The export of a sensor that hears everything\<close>

text \<open>One record for every binding heard.\<close>

definition heard_row :: "mac \<times> ipv4 \<Rightarrow> string list" where
  "heard_row b = [show_ipv4 (snd b), fmt_mac (fst b)]"

definition heard_export :: "(mac \<times> ipv4) list \<Rightarrow> string" where
  "heard_export bs = csv_file ([''addresses.ip'', ''addresses.mac''] # map heard_row bs)"

lemma unioned_heard:
  assumes "\<forall>b \<in> set bs. fst b \<noteq> []"
  shows "filter (unioned_row 0 1) (map heard_row bs) = map heard_row bs" "unioned_in 0 1 (map heard_row bs) = snd ` set bs"
proof -
  have row: "unioned_row 0 1 (heard_row b)" if "b \<in> set bs" for b
    using assms that tokens_mac [of "fst b"] by (simp add: unioned_row_def heard_row_def cell_def tokens_ipv4)
  then show f: "filter (unioned_row 0 1) (map heard_row bs) = map heard_row bs" by (simp add: filter_id_conv)
  have "token_ips (cell (heard_row b) 0) = {snd b}" for b
    by (simp add: heard_row_def cell_def token_ips_def tokens_ipv4 List.map_filter_def ipv4_show)
  then show "unioned_in 0 1 (map heard_row bs) = snd ` set bs"
    unfolding unioned_in_def f by auto
qed

lemma heard_scores:
  assumes "\<forall>b \<in> set bs. fst b \<noteq> []" and "set (planned_ips s) \<subseteq> snd ` set bs"
  obtains r where "score_export (heard_export bs) s = Inr r" "ur_planned r = length (planned_ips s)" "ur_planned_unioned r = ur_planned r"
    "ur_stragglers r = []" "ur_total_records r = length bs" "ur_unioned r = length bs"
proof -
  have "parse_records (heard_export bs) = [''addresses.ip'', ''addresses.mac''] # map heard_row bs"
    unfolding heard_export_def by (rule parse_csv_file) (auto simp: heard_row_def)
  moreover have "position ''addresses.ip'' [''addresses.ip'', ''addresses.mac''] = Some 0"
    "position ''addresses.mac'' [''addresses.ip'', ''addresses.mac''] = Some 1"
    by (simp_all add: position_def)
  note eq = score_export_eq [OF calculation this, of s]
  have "filter (\<lambda>ip. ip \<in> snd ` set bs) (planned_ips s) = planned_ips s" "filter (\<lambda>ip. ip \<notin> snd ` set bs) (planned_ips s) = []"
    using assms(2) by (auto simp: filter_id_conv filter_empty_conv)
  then show thesis
    by (intro that [OF eq]) (simp_all only: union_report.simps unioned_heard [OF assms(1)] length_map take_Nil)
qed

end
