(* ===== verification/Pacing.thy ===== *)
theory Pacing
  imports Texts "HOL-Library.Countable"
begin

text \<open>
  The pace of the replay: the rate and gap sections of \<open>src/config.rs\<close> with their checks, the gap drawn between two runs
  (\<open>src/run/gap.rs\<close>), the sleep that waits for it (\<open>src/run/signal.rs\<close>) and the weight of a file (\<open>src/run/selection.rs\<close>).
\<close>

section \<open>Doubles\<close>

text \<open>
  A finite \<open>f64\<close> is a rational number.  The code here only compares doubles and takes the greater or the lesser one, which is
  exact.  The one sum of the file, the middle of a band, is the parameter \<open>mid\<close>.
\<close>

datatype f64 = Finite rat | Pos_Inf | Neg_Inf | NaN

fun f_less :: "f64 \<Rightarrow> f64 \<Rightarrow> bool" where
  "f_less (Finite a) (Finite b) = (a < b)"
| "f_less Neg_Inf (Finite b) = True"
| "f_less Neg_Inf Pos_Inf = True"
| "f_less (Finite a) Pos_Inf = True"
| "f_less _ _ = False"

definition f_le :: "f64 \<Rightarrow> f64 \<Rightarrow> bool" where
  "f_le a b = (f_less a b \<or> (a = b \<and> a \<noteq> NaN))"

definition f_max :: "f64 \<Rightarrow> f64 \<Rightarrow> f64" where
  "f_max a b = (if a = NaN then b else if b = NaN then a else if f_less a b then b else a)"

definition f_min :: "f64 \<Rightarrow> f64 \<Rightarrow> f64" where
  "f_min a b = (if a = NaN then b else if b = NaN then a else if f_less b a then b else a)"

text \<open>\<open>f64::clamp\<close> asserts \<open>min <= max\<close>, which fails when one of them is not a number.\<close>

definition f_clamp :: "f64 \<Rightarrow> f64 \<Rightarrow> f64 \<Rightarrow> f64 exec" where
  "f_clamp v lo hi =
     (if \<not> f_le lo hi then panic
      else let v = (if f_less v lo then lo else v) in ret (if f_less hi v then hi else v))"

definition is_finite :: "f64 \<Rightarrow> bool" where
  "is_finite a = (case a of Finite _ \<Rightarrow> True | _ \<Rightarrow> False)"

abbreviation (input) f_zero :: f64 where "f_zero \<equiv> Finite 0"

section \<open>The rate\<close>

text \<open>An error is the message, except where the message quotes a value as \<open>{:?}\<close> does.\<close>

datatype cfg_error = Message string | Bad_Domain string | Needs_Red_Laser string | Needs_Remap string

definition require_positive :: "string \<Rightarrow> f64 option \<Rightarrow> cfg_error + f64" where
  "require_positive name v =
     (case v of
        Some x \<Rightarrow> if f_less f_zero x then Inr x else Inl (Message (name @ '' must be > 0''))
      | None \<Rightarrow> Inl (Message (name @ '' is required'')))"

datatype rate_model = Original_Rate | Multiplier | Pps | Mbps | Topspeed

record rate_cfg =
  rt_model :: rate_model
  rt_multiplier :: "f64 option"
  rt_pps :: "f64 option"
  rt_pps_multi :: "u32 option"
  rt_mbps :: "f64 option"
  rt_mbps_min :: "f64 option"
  rt_mbps_max :: "f64 option"

definition check_then :: "'e + 'a \<Rightarrow> 'e + unit \<Rightarrow> 'e + unit" where
  "check_then a b = (case a of Inl e \<Rightarrow> Inl e | Inr _ \<Rightarrow> b)"

definition rate_validate :: "rate_cfg \<Rightarrow> cfg_error + unit" where
  "rate_validate c =
     (case rt_model c of
        Original_Rate \<Rightarrow> Inr ()
      | Topspeed \<Rightarrow> Inr ()
      | Multiplier \<Rightarrow> check_then (require_positive ''rate.multiplier'' (rt_multiplier c)) (Inr ())
      | Pps \<Rightarrow> check_then (require_positive ''rate.pps'' (rt_pps c))
          (if rt_pps_multi c = Some 0 then Inl (Message ''rate.pps_multi must be > 0'') else Inr ())
      | Mbps \<Rightarrow> (case (rt_mbps_min c, rt_mbps_max c) of
            (Some lo, Some hi) \<Rightarrow>
              check_then (require_positive ''rate.mbps_min'' (Some lo))
                (check_then (require_positive ''rate.mbps_max'' (Some hi))
                  (if f_less hi lo then Inl (Message ''rate.mbps_max must be >= rate.mbps_min'') else Inr ()))
          | (None, None) \<Rightarrow> check_then (require_positive ''rate.mbps'' (rt_mbps c)) (Inr ())
          | _ \<Rightarrow> Inl (Message ''rate.mbps band needs both mbps_min and mbps_max'')))"

definition mbps_value :: "(f64 \<Rightarrow> f64 \<Rightarrow> f64) \<Rightarrow> rate_cfg \<Rightarrow> f64" where
  "mbps_value mid c =
     (case rt_mbps c of
        Some x \<Rightarrow> x
      | None \<Rightarrow> (case (rt_mbps_min c, rt_mbps_max c) of (Some lo, Some hi) \<Rightarrow> mid lo hi | _ \<Rightarrow> f_zero))"

text \<open>The tcpreplay flags, before their values are printed.\<close>

datatype rate_arg = Arg_Topspeed | Arg_Multiplier f64 | Arg_Pps f64 | Arg_Pps_Multi u32 | Arg_Mbps f64

definition unwrap :: "'a option \<Rightarrow> 'a exec" where
  "unwrap x = (case x of None \<Rightarrow> panic | Some a \<Rightarrow> ret a)"

definition to_args :: "(f64 \<Rightarrow> f64 \<Rightarrow> f64) \<Rightarrow> rate_cfg \<Rightarrow> rate_arg list exec" where
  "to_args mid c =
     (case rt_model c of
        Original_Rate \<Rightarrow> ret []
      | Topspeed \<Rightarrow> ret [Arg_Topspeed]
      | Multiplier \<Rightarrow> do { m \<leftarrow> unwrap (rt_multiplier c); ret [Arg_Multiplier m] }
      | Pps \<Rightarrow> do {
          p \<leftarrow> unwrap (rt_pps c);
          ret (Arg_Pps p # (case rt_pps_multi c of None \<Rightarrow> [] | Some m \<Rightarrow> [Arg_Pps_Multi m]))
        }
      | Mbps \<Rightarrow> ret [Arg_Mbps (mbps_value mid c)])"

text \<open>
  \<open>drawn\<close> is \<open>rng.gen_range(lo..=hi)\<close> on doubles, which panics on a range it cannot span.  The law is the documented one for
  a range of positive finite bounds.
\<close>

definition to_args_for_run ::
    "(f64 \<Rightarrow> f64 \<Rightarrow> f64) \<Rightarrow> ('r \<Rightarrow> f64 \<Rightarrow> f64 \<Rightarrow> (f64 \<times> 'r) exec) \<Rightarrow> rate_cfg \<Rightarrow> 'r \<Rightarrow> (rate_arg list \<times> 'r) exec" where
  "to_args_for_run mid drawn c r =
     (let plain = do { args \<leftarrow> to_args mid c; ret (args, r) }
      in if rt_model c = Mbps
         then case (rt_mbps_min c, rt_mbps_max c) of
                (Some lo, Some hi) \<Rightarrow>
                  if f_le lo hi then do { (x, r) \<leftarrow> drawn r lo hi; ret ([Arg_Mbps x], r) } else plain
              | _ \<Rightarrow> plain
         else plain)"

definition draw_ok :: "('r \<Rightarrow> f64 \<Rightarrow> f64 \<Rightarrow> (f64 \<times> 'r) exec) \<Rightarrow> bool" where
  "draw_ok drawn \<longleftrightarrow>
     (\<forall>r lo hi. 0 < lo \<and> lo \<le> hi \<longrightarrow>
        (\<exists>x r'. drawn r (Finite lo) (Finite hi) = ret (x, r') \<and> f_le (Finite lo) x \<and> f_le x (Finite hi)))"

section \<open>The gap\<close>

datatype gap_dist = Exp_Poisson | Trunc_Normal

record gap_cfg =
  gp_dist :: gap_dist
  gp_mean_secs :: "f64 option"
  gp_min_secs :: "f64 option"
  gp_max_secs :: "f64 option"
  gp_stddev_secs :: "f64 option"
  gp_lower_secs :: "f64 option"
  gp_upper_secs :: "f64 option"

definition gap_validate :: "gap_cfg \<Rightarrow> cfg_error + unit" where
  "gap_validate c =
     (case gp_dist c of
        Exp_Poisson \<Rightarrow>
          check_then (require_positive ''gap.mean_secs'' (gp_mean_secs c))
            (case (gp_min_secs c, gp_max_secs c) of
               (Some lo, Some hi) \<Rightarrow>
                 if f_less lo f_zero then Inl (Message ''gap.min_secs must be >= 0'')
                 else if f_le hi lo then Inl (Message ''gap.min_secs must be < gap.max_secs'') else Inr ()
             | _ \<Rightarrow> Inr ())
      | Trunc_Normal \<Rightarrow>
          check_then (require_positive ''gap.mean_secs'' (gp_mean_secs c))
            (check_then (require_positive ''gap.stddev_secs'' (gp_stddev_secs c))
              (case gp_lower_secs c of
                 None \<Rightarrow> Inl (Message ''gap.lower_secs required for trunc_normal'')
               | Some lo \<Rightarrow>
                   (case gp_upper_secs c of
                      None \<Rightarrow> Inl (Message ''gap.upper_secs required for trunc_normal'')
                    | Some hi \<Rightarrow>
                        if f_less lo f_zero then Inl (Message ''gap.lower_secs must be >= 0'')
                        else if f_le hi lo then Inl (Message ''gap.lower_secs must be < gap.upper_secs'') else Inr ()))))"

text \<open>
  \<open>exp_draw\<close> and \<open>normal_draw\<close> are one sample of the distributions of \<open>rand_distr\<close>, with the fallbacks of their
  constructors; the double next to \<open>1e-9\<close> and the greatest one are written out.
\<close>

definition tiny :: f64 where "tiny = Finite (4835703278458517 / 2 ^ 82)"

definition f64_max :: f64 where "f64_max = Finite ((2 ^ 53 - 1) * 2 ^ 971)"

definition or_default :: "'a \<Rightarrow> 'a option \<Rightarrow> 'a" where
  "or_default d x = (case x of None \<Rightarrow> d | Some a \<Rightarrow> a)"

fun redraw_gap :: "('r \<Rightarrow> f64 \<times> 'r) \<Rightarrow> f64 \<Rightarrow> f64 \<Rightarrow> nat \<Rightarrow> f64 \<times> 'r \<Rightarrow> f64 \<times> 'r" where
  "redraw_gap draw lo hi 0 st = st"
| "redraw_gap draw lo hi (Suc n) (v, r) = (if f_le lo v \<and> f_le v hi then (v, r) else redraw_gap draw lo hi n (draw r))"

definition sample_gap ::
    "(f64 \<Rightarrow> 'r \<Rightarrow> f64 \<times> 'r) \<Rightarrow> (f64 \<Rightarrow> f64 \<Rightarrow> 'r \<Rightarrow> f64 \<times> 'r) \<Rightarrow> gap_cfg \<Rightarrow> 'r \<Rightarrow> (f64 \<times> 'r) exec" where
  "sample_gap exp_draw normal_draw c r =
     (case gp_dist c of
        Exp_Poisson \<Rightarrow>
          (let mean = f_max (or_default (Finite 1) (gp_mean_secs c)) tiny;
               (v, r) = exp_draw mean r;
               v = (case gp_min_secs c of None \<Rightarrow> v | Some lo \<Rightarrow> f_max v lo);
               v = (case gp_max_secs c of None \<Rightarrow> v | Some hi \<Rightarrow> f_min v hi)
           in ret (v, r))
      | Trunc_Normal \<Rightarrow>
          (let mean = or_default (Finite 1) (gp_mean_secs c);
               sd = f_max (or_default (Finite 1) (gp_stddev_secs c)) tiny;
               lo = or_default f_zero (gp_lower_secs c);
               hi = or_default f64_max (gp_upper_secs c);
               (v, r) = redraw_gap (normal_draw mean sd) lo hi 64 (normal_draw mean sd r)
           in do { v \<leftarrow> f_clamp v lo hi; ret (v, r) }))"

section \<open>The sleep\<close>

text \<open>
  \<open>Duration::from_secs_f64\<close>, in nanoseconds: the nearest one, a tie to the even one; it panics on a negative or too long
  time and on one that is not a number.
\<close>

definition round_even :: "rat \<Rightarrow> int" where
  "round_even x =
     (let f = \<lfloor>x\<rfloor>; d = x - of_int f
      in if d < 1 / 2 then f else if 1 / 2 < d then f + 1 else if even f then f else f + 1)"

definition from_secs_f64 :: "f64 \<Rightarrow> nat exec" where
  "from_secs_f64 s =
     (case s of
        Finite q \<Rightarrow>
          (let n = round_even (q * 1000000000)
           in if 0 \<le> q \<and> n < 2 ^ 64 * 1000000000 then ret (nat n) else panic)
      | _ \<Rightarrow> panic)"

text \<open>\<open>down i\<close> is the shutdown flag as the \<open>i\<close>-th turn of the loop reads it; the result is the time slept.\<close>

definition SLICE :: nat where "SLICE = 200000000"

function sleep_loop :: "(nat \<Rightarrow> bool) \<Rightarrow> nat \<Rightarrow> nat \<Rightarrow> nat \<Rightarrow> nat" where
  "sleep_loop down i all elapsed =
     (if elapsed < all
      then if down i then elapsed
           else sleep_loop down (i + 1) all (elapsed + min SLICE (all - elapsed))
      else elapsed)"
  by pat_completeness auto
termination by (relation "measure (\<lambda>(down, i, all, elapsed). all - elapsed)") (auto simp: SLICE_def)

declare sleep_loop.simps [simp del]

definition interruptible_sleep :: "(nat \<Rightarrow> bool) \<Rightarrow> f64 \<Rightarrow> nat exec" where
  "interruptible_sleep down secs =
     (if f_le secs f_zero then ret 0 else do { all \<leftarrow> from_secs_f64 secs; ret (sleep_loop down 0 all 0) })"

section \<open>The weight of a file\<close>

record glob_weight =
  gw_pattern :: string
  gw_weight :: f64

record weights =
  we_default :: f64
  we_globs :: "glob_weight list"
  we_files :: "(string \<times> f64) list"

text \<open>\<open>glob\<close> compiles a pattern of the \<open>glob\<close> crate, and none if it is invalid; \<open>name\<close> is the file name of the path or empty.\<close>

definition weight_for :: "(string \<Rightarrow> (string \<Rightarrow> bool) option) \<Rightarrow> string \<Rightarrow> string \<Rightarrow> weights \<Rightarrow> f64" where
  "weight_for glob name path w =
     (case map_of (we_files w) name of
        Some x \<Rightarrow> x
      | None \<Rightarrow>
          (case map_of (we_files w) path of
             Some x \<Rightarrow> x
           | None \<Rightarrow>
               (case find (\<lambda>g. case glob (gw_pattern g) of None \<Rightarrow> False | Some m \<Rightarrow> m name \<or> m path) (we_globs w) of
                  Some g \<Rightarrow> gw_weight g
                | None \<Rightarrow> we_default w)))"

section \<open>Comparing doubles\<close>

lemma f_le_refl: "a \<noteq> NaN \<Longrightarrow> f_le a a" by (simp add: f_le_def)

lemma f_less_trans: "f_less a b \<Longrightarrow> f_less b c \<Longrightarrow> f_less a c"
  by (cases a; cases b; cases c) auto

lemma f_le_trans: "f_le a b \<Longrightarrow> f_le b c \<Longrightarrow> f_le a c"
  unfolding f_le_def using f_less_trans by blast

lemma f_less_NaN [simp]: "\<not> f_less a NaN" "\<not> f_less NaN a"
  by (cases a; simp)+

lemma f_le_NaN [simp]: "\<not> f_le a NaN" "\<not> f_le NaN a"
  by (simp_all add: f_le_def)

lemma f_not_less: "a \<noteq> NaN \<Longrightarrow> b \<noteq> NaN \<Longrightarrow> \<not> f_less a b \<longleftrightarrow> f_le b a"
  by (cases a; cases b) (auto simp: f_le_def)

lemma f_less_le: "f_less a b \<Longrightarrow> f_le a b" by (simp add: f_le_def)

section \<open>The gap is in its bounds\<close>

lemma f_clamp_bounds:
  assumes "f_le lo hi" and "v \<noteq> NaN"
  shows "\<exists>x. f_clamp v lo hi = ret x \<and> f_le lo x \<and> f_le x hi"
proof -
  have n: "lo \<noteq> NaN" "hi \<noteq> NaN" using assms(1) by auto
  show ?thesis
  proof (cases "f_less v lo")
    case True
    then show ?thesis using assms n f_not_less [of hi lo] by (auto simp: f_clamp_def Let_def f_le_refl)
  next
    case False
    then have "f_le lo v" using f_not_less n assms(2) by blast
    then show ?thesis using False assms n f_not_less [of hi v] by (auto simp: f_clamp_def Let_def f_le_refl)
  qed
qed

lemma f_clamp_nan: "lo = NaN \<or> hi = NaN \<Longrightarrow> f_clamp v lo hi = panic"
  by (auto simp: f_clamp_def)

lemma redraw_not_nan:
  assumes "\<And>r. fst (draw r) \<noteq> NaN" and "fst st \<noteq> NaN"
  shows "fst (redraw_gap draw lo hi n st) \<noteq> NaN"
  using assms by (induction draw lo hi n st rule: redraw_gap.induct) auto

lemma f_max_ge: "lo \<noteq> NaN \<Longrightarrow> f_le lo (f_max v lo)"
  using f_not_less [of v lo] by (auto simp: f_max_def f_le_refl)

lemma f_min_le: "hi \<noteq> NaN \<Longrightarrow> f_le (f_min v hi) hi"
  using f_not_less [of hi v] by (auto simp: f_min_def f_le_refl)

lemma f_min_ge: "f_le lo v \<Longrightarrow> f_le lo hi \<Longrightarrow> f_le lo (f_min v hi)"
  by (simp add: f_min_def)

text \<open>The bounds a configuration sets for a distribution.\<close>

definition gap_bounds :: "gap_cfg \<Rightarrow> (f64 \<times> f64) option" where
  "gap_bounds c =
     (case gp_dist c of
        Exp_Poisson \<Rightarrow> (case (gp_min_secs c, gp_max_secs c) of (Some lo, Some hi) \<Rightarrow> Some (lo, hi) | _ \<Rightarrow> None)
      | Trunc_Normal \<Rightarrow> (case (gp_lower_secs c, gp_upper_secs c) of (Some lo, Some hi) \<Rightarrow> Some (lo, hi) | _ \<Rightarrow> None))"

lemma validated_bounds:
  assumes "gap_validate c = Inr ()" and "gap_bounds c = Some (lo, hi)" and "lo \<noteq> NaN" "hi \<noteq> NaN"
  shows "f_le f_zero lo" "f_less lo hi"
  using assms f_not_less [of lo f_zero] f_not_less [of lo hi]
  by (auto simp: gap_validate_def gap_bounds_def check_then_def f_le_def split: gap_dist.splits option.splits sum.splits if_splits)

lemma sample_gap_bounds:
  assumes "gap_validate c = Inr ()" and "gap_bounds c = Some (lo, hi)" and "lo \<noteq> NaN" "hi \<noteq> NaN"
    and "\<And>m d r. fst (normal_draw m d r) \<noteq> NaN"
  shows "\<exists>v r'. sample_gap exp_draw normal_draw c r = ret (v, r') \<and> f_le lo v \<and> f_le v hi"
proof (cases "gp_dist c")
  case Exp_Poisson
  then have b: "gp_min_secs c = Some lo" "gp_max_secs c = Some hi"
    using assms(2) by (auto simp: gap_bounds_def split: option.splits)
  obtain v r' where d: "exp_draw (f_max (or_default (Finite 1) (gp_mean_secs c)) tiny) r = (v, r')" by fastforce
  have "f_le lo hi" using validated_bounds(2) [OF assms(1-4)] by (rule f_less_le)
  then have "f_le lo (f_min (f_max v lo) hi)" "f_le (f_min (f_max v lo) hi) hi"
    using f_min_ge [OF f_max_ge [OF assms(3)]] f_min_le [OF assms(4)] by blast+
  then show ?thesis by (simp add: sample_gap_def Exp_Poisson b d Let_def)
next
  case Trunc_Normal
  then have b: "gp_lower_secs c = Some lo" "gp_upper_secs c = Some hi"
    using assms(2) by (auto simp: gap_bounds_def split: option.splits)
  let ?d = "normal_draw (or_default (Finite 1) (gp_mean_secs c)) (f_max (or_default (Finite 1) (gp_stddev_secs c)) tiny)"
  obtain v r' where d: "redraw_gap ?d lo hi 64 (?d r) = (v, r')" by fastforce
  have "v \<noteq> NaN" using redraw_not_nan [of ?d "?d r" lo hi 64] assms(5) d by auto
  from f_clamp_bounds [OF f_less_le [OF validated_bounds(2) [OF assms(1-4)]] this] obtain x where
    "f_clamp v lo hi = ret x" "f_le lo x" "f_le x hi" by blast
  then show ?thesis using d by (auto simp: sample_gap_def Trunc_Normal b Let_def or_default_def)
qed

text \<open>A bound that is not a number passes the checks and stops the daemon.\<close>

lemma nan_gap_validates:
  assumes "gp_dist c = Trunc_Normal" and "gp_mean_secs c = Some m" and "f_less f_zero m" and "gp_stddev_secs c = Some sd"
    and "f_less f_zero sd" and "gp_lower_secs c = Some NaN" and "gp_upper_secs c = Some hi"
  shows "gap_validate c = Inr ()" and "sample_gap exp_draw normal_draw c r = panic"
  using assms
  by (auto simp: gap_validate_def check_then_def require_positive_def sample_gap_def or_default_def f_clamp_nan Let_def split: prod.split)

section \<open>The sleep ends\<close>

lemma sleep_loop_le: "elapsed \<le> all \<Longrightarrow> sleep_loop down i all elapsed \<le> all"
proof (induction down i all elapsed rule: sleep_loop.induct)
  case (1 down i all elapsed)
  then show ?case by (subst sleep_loop.simps) auto
qed

text \<open>Without a shutdown the whole time; with one at turn \<open>n\<close> that many slices.\<close>

lemma sleep_loop_until:
  assumes "\<forall>j. i \<le> j \<and> j < n \<longrightarrow> \<not> down j" and "down n" and "i \<le> n" and "elapsed = min all (i * SLICE)"
  shows "sleep_loop down i all elapsed = min all (n * SLICE)"
  using assms
proof (induction down i all elapsed rule: sleep_loop.induct)
  case (1 down i all elapsed)
  show ?case
  proof (cases "elapsed < all \<and> \<not> down i")
    case True
    then have e: "elapsed = i * SLICE" and n: "i + 1 \<le> n" using 1(3,4,5) by (auto simp: Suc_le_eq le_less)
    then have "elapsed + min SLICE (all - elapsed) = min all ((i + 1) * SLICE)" using True by auto
    with 1(1) True 1(2,3) n have "sleep_loop down (i + 1) all (elapsed + min SLICE (all - elapsed)) = min all (n * SLICE)" by auto
    then show ?thesis using True by (subst sleep_loop.simps) simp
  next
    case False
    show ?thesis
    proof (cases "elapsed < all")
      case True
      then have "down i" using False by blast
      then have "i = n" using 1(2,4) by (metis le_less)
      then show ?thesis using True \<open>down i\<close> 1(5) by (subst sleep_loop.simps) simp
    next
      case False
      then have "all \<le> i * SLICE" using 1(5) by simp
      then have "all \<le> n * SLICE" using 1(4) mult_le_mono1 [of i n SLICE] by linarith
      then show ?thesis using False 1(5) by (subst sleep_loop.simps) simp
    qed
  qed
qed

lemma sleep_loop_full: "\<forall>j. \<not> down j \<Longrightarrow> elapsed \<le> all \<Longrightarrow> sleep_loop down i all elapsed = all"
proof (induction down i all elapsed rule: sleep_loop.induct)
  case (1 down i all elapsed)
  show ?case
  proof (cases "elapsed < all")
    case True
    have d: "\<not> down i" using 1(2) by blast
    have "sleep_loop down (i + 1) all (elapsed + min SLICE (all - elapsed)) = all"
      by (rule 1(1) [OF True d 1(2)]) (use True in simp)
    then show ?thesis by (subst sleep_loop.simps) (simp only: True d if_True if_False)
  next
    case False
    then show ?thesis using 1(3) by (subst sleep_loop.simps) simp
  qed
qed

lemma round_even_bounds: "of_int (round_even x) \<le> x + 1 / 2"
proof -
  have f: "of_int \<lfloor>x\<rfloor> \<le> x" by (rule of_int_floor_le)
  have "round_even x = \<lfloor>x\<rfloor> \<or> round_even x = \<lfloor>x\<rfloor> + 1 \<and> 1 / 2 \<le> x - of_int \<lfloor>x\<rfloor>"
    by (auto simp: round_even_def Let_def not_less)
  then show ?thesis
  proof
    assume "round_even x = \<lfloor>x\<rfloor>"
    with f show ?thesis by linarith
  next
    assume "round_even x = \<lfloor>x\<rfloor> + 1 \<and> 1 / 2 \<le> x - of_int \<lfloor>x\<rfloor>"
    then show ?thesis by simp
  qed
qed

lemma from_secs_ok: "0 \<le> q \<Longrightarrow> q \<le> 18446744073 \<Longrightarrow> \<exists>n. from_secs_f64 (Finite q) = ret n"
proof -
  assume q: "0 \<le> q" "q \<le> 18446744073"
  have "of_int (round_even (q * 1000000000)) \<le> q * 1000000000 + 1 / 2" by (rule round_even_bounds)
  then have "of_int (round_even (q * 1000000000)) < (of_int (2 ^ 64 * 1000000000) :: rat)" using q(2) by simp
  then have "round_even (q * 1000000000) < 2 ^ 64 * 1000000000" by linarith
  then show ?thesis using q(1) by (simp add: from_secs_f64_def Let_def)
qed

section \<open>Weights and rates\<close>

definition weight_ok :: "f64 \<Rightarrow> bool" where
  "weight_ok x \<longleftrightarrow> is_finite x \<and> \<not> f_less x f_zero"

lemma weight_for_ok:
  assumes "weight_ok (we_default w)" and "\<forall>g \<in> set (we_globs w). weight_ok (gw_weight g)" and "\<forall>(f, x) \<in> set (we_files w). weight_ok x"
  shows "weight_ok (weight_for glob name path w)"
  using assms by (auto simp: weight_for_def find_Some_iff split: option.split dest!: map_of_SomeD)

section \<open>The rate of a run\<close>

lemma validated_args: "rate_validate c = Inr () \<Longrightarrow> \<exists>args. to_args mid c = ret args"
  by (auto simp: rate_validate_def to_args_def check_then_def require_positive_def unwrap_def split: rate_model.splits option.splits sum.splits if_splits)

text \<open>The band a run draws its rate from.\<close>

definition rate_band :: "rate_cfg \<Rightarrow> (f64 \<times> f64) option" where
  "rate_band c =
     (if rt_model c = Mbps
      then (case (rt_mbps_min c, rt_mbps_max c) of (Some lo, Some hi) \<Rightarrow> Some (lo, hi) | _ \<Rightarrow> None)
      else None)"

lemma validated_band:
  assumes "rate_validate c = Inr ()" and "rate_band c = Some (lo, hi)"
  shows "f_less f_zero lo" "f_le lo hi"
proof -
  have "f_less f_zero lo \<and> f_less f_zero hi \<and> \<not> f_less hi lo"
    using assms by (auto simp: rate_validate_def rate_band_def check_then_def require_positive_def split: if_splits option.splits)
  then show "f_less f_zero lo" "f_le lo hi" using f_not_less [of hi lo] by (cases lo; cases hi; simp)+
qed

text \<open>A validated rate gives its arguments for every run, except that a band without an upper end cannot be drawn from.\<close>

lemma validated_run_args:
  assumes "rate_validate c = Inr ()" and "draw_ok drawn"
  shows "case rate_band c of
      None \<Rightarrow> \<exists>args. to_args_for_run mid drawn c r = ret (args, r)
    | Some (lo, hi) \<Rightarrow> hi \<noteq> Pos_Inf \<longrightarrow>
        (\<exists>x r'. to_args_for_run mid drawn c r = ret ([Arg_Mbps x], r') \<and> f_le lo x \<and> f_le x hi)"
proof (cases "rate_band c")
  case None
  then show ?thesis using validated_args [OF assms(1), of mid]
    by (auto simp: to_args_for_run_def rate_band_def split: option.splits if_splits)
next
  case (Some b)
  obtain lo hi where b: "b = (lo, hi)" by (cases b)
  note v = validated_band [OF assms(1) Some [unfolded b]]
  have m: "rt_model c = Mbps" "rt_mbps_min c = Some lo" "rt_mbps_max c = Some hi"
    using Some b by (auto simp: rate_band_def split: option.splits if_splits)
  have "\<exists>x r'. to_args_for_run mid drawn c r = ret ([Arg_Mbps x], r') \<and> f_le lo x \<and> f_le x hi" if fin: "hi \<noteq> Pos_Inf"
  proof -
    obtain p q where pq: "lo = Finite p" "hi = Finite q" "0 < p" "p \<le> q"
      using v fin by (cases lo; cases hi) (auto simp: f_le_def)
    then obtain x r' where "drawn r lo hi = ret (x, r')" "f_le lo x" "f_le x hi" using assms(2) unfolding draw_ok_def by metis
    then show ?thesis using m v by (simp add: to_args_for_run_def)
  qed
  then show ?thesis using Some b by simp
qed

text \<open>Such a band passes the checks, and \<open>gen_range\<close> panics on it.\<close>

lemma endless_band_validates:
  assumes "rt_model c = Mbps" and "rt_mbps_min c = Some lo" and "f_less f_zero lo" and "rt_mbps_max c = Some Pos_Inf"
    and "drawn r lo Pos_Inf = panic"
  shows "rate_validate c = Inr ()" and "to_args_for_run mid drawn c r = panic"
proof -
  have "f_le lo Pos_Inf" using assms(3) by (cases lo) (simp_all add: f_le_def)
  moreover have "\<not> f_less Pos_Inf lo" by (cases lo) simp_all
  ultimately show "rate_validate c = Inr ()" "to_args_for_run mid drawn c r = panic"
    using assms by (simp_all add: rate_validate_def check_then_def require_positive_def to_args_for_run_def)
qed

text \<open>When the gap of a validated section panics.\<close>

lemma sample_gap_panics:
  assumes "gap_validate c = Inr ()"
  shows "sample_gap exp_draw normal_draw c r = panic \<longleftrightarrow>
    gp_dist c = Trunc_Normal \<and> (gp_lower_secs c = Some NaN \<or> gp_upper_secs c = Some NaN)"
proof (cases "gp_dist c")
  case Exp_Poisson
  then show ?thesis by (simp add: sample_gap_def Let_def split: prod.split)
next
  case Trunc_Normal
  then obtain lo hi where b: "gp_lower_secs c = Some lo" "gp_upper_secs c = Some hi" "\<not> f_le hi lo"
    using assms by (auto simp: gap_validate_def check_then_def split: option.splits sum.splits if_splits)
  have "f_clamp v lo hi = panic \<longleftrightarrow> lo = NaN \<or> hi = NaN" for v
    using f_not_less [of lo hi] b(3) by (cases lo; cases hi) (auto simp: f_clamp_def f_le_def Let_def)
  then show ?thesis using b Trunc_Normal
    by (auto simp: sample_gap_def or_default_def Let_def split: prod.split bind_splits)
qed

end
