(* ===== verification/Config.thy ===== *)
theory Config
  imports Daemon Pacing
begin

text \<open>
  \<open>src/config.rs\<close>: the configuration with its checks, the merge of a scenario over a base file, and the loader.  Reading a
  file, parsing YAML and building a configuration from it are parameters (\<open>config_io\<close>); so is \<open>ipnet\<close>, as in \<open>Net\<close>.
\<close>

section \<open>Paths\<close>

text \<open>
  A \<open>Path\<close> is what \<open>components()\<close> makes of it: empty pieces and inner \<open>.\<close> pieces go, a leading \<open>.\<close> stays.
\<close>

datatype component = Cur_Dir | Parent_Dir | Normal string

record path =
  pt_absolute :: bool
  pt_components :: "component list"

definition component_of :: "string \<Rightarrow> component" where
  "component_of s = (if s = ''.'' then Cur_Dir else if s = ''..'' then Parent_Dir else Normal s)"

definition path_of :: "string \<Rightarrow> path" where
  "path_of s =
     (let absolute = (s \<noteq> [] \<and> hd s = CHR ''/'');
          pieces = split_on (CHR ''/'') s;
          rest = filter (\<lambda>c. c \<noteq> Cur_Dir) (map component_of (filter (\<lambda>p. p \<noteq> []) pieces))
      in \<lparr>pt_absolute = absolute, pt_components = (if hd pieces = ''.'' then [Cur_Dir] else []) @ rest\<rparr>)"

definition path_join :: "path \<Rightarrow> path \<Rightarrow> path" where
  "path_join a b =
     (if pt_absolute b then b
      else if \<not> pt_absolute a \<and> pt_components a = [] then b
      else a\<lparr>pt_components := pt_components a @ filter (\<lambda>c. c \<noteq> Cur_Dir) (pt_components b)\<rparr>)"

definition path_parent :: "path \<Rightarrow> path option" where
  "path_parent p = (if pt_components p = [] then None else Some (p\<lparr>pt_components := butlast (pt_components p)\<rparr>))"

section \<open>The sections of the file\<close>

datatype laser_mode = Red_Laser | Green_Laser

record paths_cfg =
  pa_pool :: path
  pa_variants :: path
  pa_shm_dir :: path
  pa_status_file :: path

datatype oversize_policy = Remap_To_Disk | Skip_Oversize

record l3_cfg =
  l3_remap :: bool
  l3_remap_mac :: bool
  l3_subnets :: "string list"
  l3_zone_affinity :: zone_affinity
  l3_max_remap_bytes :: u64
  l3_on_oversize :: oversize_policy
  l3_guard_public_sources :: bool
  l3_max_frame_bytes :: nat
  l3_replay_capture_arp :: bool

record watchdog_cfg =
  wd_poll_secs :: u64
  wd_flatline_secs :: u64

datatype mirror_mode = Tc | Ovs

record net_cfg =
  ne_mirror :: mirror_mode
  ne_bridge :: string
  ne_sensor_port :: string

definition mirror_as_str :: "mirror_mode \<Rightarrow> string" where
  "mirror_as_str m = (case m of Tc \<Rightarrow> ''tc'' | Ovs \<Rightarrow> ''ovs'')"

record zones_cfg =
  zc_enabled :: bool
  zc_max_subnets :: "nat option"
  zc_default_prefix :: u8

record synthesis_cfg =
  sy_enabled :: bool
  sy_switch_beacons :: bool
  sy_device_identity :: bool
  sy_identity_every_n_runs :: u64
  sy_announce_interval_secs :: u64
  sy_cycle_every_n_runs :: u64
  sy_max_devices :: "nat option"
  sy_target_devices :: nat
  sy_max_assets :: "nat option"

record dns_cfg =
  dn_enabled :: bool
  dn_domains :: "string list"

record north_south_cfg =
  ns_enabled :: bool
  ns_max_flows_per_pair :: nat
  ns_cadence_runs :: u64

record threats_cfg =
  th_enabled :: bool
  th_min_interval_secs :: u64
  th_max_interval_secs :: u64
  th_external_cidrs :: "string list"

record session_cfg =
  se_path :: path
  se_seed :: "u64 option"

record oui_db_cfg =
  od_path :: path
  od_vuln_path :: path

text \<open>The target section: what the scenario engine takes from it is a \<open>target_cfg\<close>.\<close>

record target_section =
  ts_cfg :: target_cfg
  ts_profiles :: path
  ts_playbook :: path
  ts_plant :: path
  ts_pack_dir :: path

record config =
  cf_iface :: string
  cf_mode :: laser_mode
  cf_seed :: "u64 option"
  cf_paths :: paths_cfg
  cf_l3 :: l3_cfg
  cf_rate :: rate_cfg
  cf_gap :: gap_cfg
  cf_weights :: weights
  cf_watchdog :: watchdog_cfg
  cf_net :: net_cfg
  cf_no_pcaps_retry_secs :: u64
  cf_zones :: zones_cfg
  cf_synthesis :: synthesis_cfg
  cf_dns :: dns_cfg
  cf_north_south :: north_south_cfg
  cf_threats :: threats_cfg
  cf_session :: session_cfg
  cf_oui_db :: oui_db_cfg
  cf_target :: "target_section option"

section \<open>The checks\<close>

text \<open>\<open>validate\<close> returns at the first check that fails.  A path in a message is as it was written.\<close>

fun first_error :: "('e + unit) list \<Rightarrow> 'e + unit" where
  "first_error [] = Inr ()"
| "first_error (r # rs) = (case r of Inl e \<Rightarrow> Inl e | Inr _ \<Rightarrow> first_error rs)"

definition ensure :: "bool \<Rightarrow> string \<Rightarrow> cfg_error + unit" where
  "ensure ok msg = (if ok then Inr () else Inl (Message msg))"

definition ensure_absolute :: "(path \<Rightarrow> string) \<Rightarrow> string \<times> path \<Rightarrow> cfg_error + unit" where
  "ensure_absolute show_path = (\<lambda>(name, p). ensure (pt_absolute p) (name @ '' must be absolute: '' @ show_path p))"

definition valid_weight :: "f64 \<Rightarrow> bool" where
  "valid_weight x \<longleftrightarrow> \<not> (\<not> is_finite x \<or> f_less x f_zero)"

definition check_weights :: "weights \<Rightarrow> (cfg_error + unit) list" where
  "check_weights w =
     ensure (valid_weight (we_default w)) ''weights.default must be a finite value >= 0'' #
     map (\<lambda>g. ensure (valid_weight (gw_weight g)) (''weight for glob '' @ gw_pattern g @ '' must be a finite value >= 0'')) (we_globs w) @
     map (\<lambda>(f, x). ensure (valid_weight x) (''weight for file '' @ f @ '' must be a finite value >= 0'')) (we_files w)"

definition valid_domain :: "string \<Rightarrow> bool" where
  "valid_domain d \<longleftrightarrow> \<not> (trim d = [] \<or> list_ex is_space d)"

definition check_dns :: "dns_cfg \<Rightarrow> (cfg_error + unit) list" where
  "check_dns c = (if dn_enabled c then map (\<lambda>d. if valid_domain d then Inr () else Inl (Bad_Domain d)) (dn_domains c) else [])"

definition check_external_cidr :: "'n net_ops \<Rightarrow> string \<Rightarrow> cfg_error + unit" where
  "check_external_cidr N c =
     (case no_parse N c of
        None \<Rightarrow> Inl (Message (''threats.external_cidrs entry '' @ c @ '' is not a valid CIDR''))
      | Some net \<Rightarrow>
          let n = no_network N net;
              o0 = octet0 n;
              public_unicast = o0 \<noteq> 0 \<and> o0 \<noteq> 127 \<and> o0 < 224 \<and> \<not> is_private n \<and> \<not> is_loopback n \<and> \<not> is_link_local n
          in ensure public_unicast (''threats.external_cidrs entry '' @ c @
               '' must be a public unicast range (not RFC1918, loopback, link-local, or multicast)''))"

definition inside_pack :: "path \<Rightarrow> bool" where
  "inside_pack p \<longleftrightarrow> \<not> (pt_absolute p \<or> Parent_Dir \<in> set (pt_components p))"

definition quoted :: "string \<Rightarrow> string" where
  "quoted s = [CHR 0x27] @ s @ [CHR 0x27]"

definition check_pack_path :: "(path \<Rightarrow> string) \<Rightarrow> string \<times> path \<Rightarrow> cfg_error + unit" where
  "check_pack_path show_path = (\<lambda>(field, p). ensure (inside_pack p)
     (''target.'' @ field @ '' '' @ quoted (show_path p) @ '' must be a relative path inside the pack dir (no leading '' @
      quoted ''/'' @ '' or '' @ quoted ''..'' @ '')''))"

definition check_target :: "(path \<Rightarrow> string) \<Rightarrow> laser_mode \<Rightarrow> bool \<Rightarrow> target_section \<Rightarrow> (cfg_error + unit) list" where
  "check_target show_path mode remap t =
     [if mode \<noteq> Red_Laser then Inl (Needs_Red_Laser (tg_name (ts_cfg t))) else Inr (),
      if \<not> remap then Inl (Needs_Remap (tg_name (ts_cfg t))) else Inr (),
      ensure (trim (tg_name (ts_cfg t)) \<noteq> []) ''target.name must not be empty'',
      ensure (tg_max_frames_per_burst (ts_cfg t) \<noteq> 0) ''target.max_frames_per_burst must be > 0''] @
     map (check_pack_path show_path) [(''plant'', ts_plant t), (''playbook'', ts_playbook t), (''profiles'', ts_profiles t)]"

definition checks :: "'n net_ops \<Rightarrow> (path \<Rightarrow> string) \<Rightarrow> config \<Rightarrow> (cfg_error + unit) list" where
  "checks N show_path c =
     [ensure (trim (cf_iface c) \<noteq> []) ''iface must not be empty'',
      ensure (\<not> (cf_mode c = Red_Laser \<and> \<not> l3_remap (cf_l3 c)))
        ''red_laser requires l3.remap = true (plan==wire); use green_laser for raw replay''] @
     map (\<lambda>(n, p). ensure_absolute show_path (''paths.'' @ n, p))
       [(''pool'', pa_pool (cf_paths c)), (''variants'', pa_variants (cf_paths c)), (''shm_dir'', pa_shm_dir (cf_paths c)),
        (''status_file'', pa_status_file (cf_paths c))] @
     [rate_validate (cf_rate c), gap_validate (cf_gap c)] @
     check_weights (cf_weights c) @
     [ensure (zc_max_subnets (cf_zones c) \<noteq> Some 0) ''zones.max_subnets must be > 0'',
      ensure (8 \<le> zc_default_prefix (cf_zones c) \<and> zc_default_prefix (cf_zones c) \<le> 30) ''zones.default_prefix must be between 8 and 30'',
      ensure (sy_max_devices (cf_synthesis c) \<noteq> Some 0) ''synthesis.max_devices must be > 0'',
      ensure (sy_identity_every_n_runs (cf_synthesis c) \<noteq> 0) ''synthesis.identity_every_n_runs must be > 0'',
      ensure (sy_target_devices (cf_synthesis c) \<noteq> 0) ''synthesis.target_devices must be > 0'',
      ensure (sy_max_assets (cf_synthesis c) \<noteq> Some 0) ''synthesis.max_assets must be > 0''] @
     check_dns (cf_dns c) @
     (if ns_enabled (cf_north_south c)
      then [ensure (ns_cadence_runs (cf_north_south c) \<noteq> 0) ''north_south.cadence_runs must be > 0'',
            ensure (ns_max_flows_per_pair (cf_north_south c) \<noteq> 0) ''north_south.max_flows_per_pair must be > 0'']
      else []) @
     [ensure (wd_poll_secs (cf_watchdog c) \<noteq> 0) ''watchdog.poll_secs must be > 0'',
      ensure (wd_flatline_secs (cf_watchdog c) \<noteq> 0) ''watchdog.flatline_secs must be > 0'',
      ensure (cf_no_pcaps_retry_secs c \<noteq> 0) ''no_pcaps_retry_secs must be > 0'',
      ensure (\<not> (sy_enabled (cf_synthesis c) \<and> sy_announce_interval_secs (cf_synthesis c) = 0))
        ''synthesis.announce_interval_secs must be > 0'',
      ensure (th_min_interval_secs (cf_threats c) \<le> th_max_interval_secs (cf_threats c))
        ''threats.min_interval_secs must be <= threats.max_interval_secs''] @
     map (check_external_cidr N) (th_external_cidrs (cf_threats c)) @
     map (ensure_absolute show_path)
       [(''session.path'', se_path (cf_session c)), (''oui_db.path'', od_path (cf_oui_db c)),
        (''oui_db.vuln_path'', od_vuln_path (cf_oui_db c))] @
     (case cf_target c of None \<Rightarrow> [] | Some t \<Rightarrow> check_target show_path (cf_mode c) (l3_remap (cf_l3 c)) t)"

definition validate :: "'n net_ops \<Rightarrow> (path \<Rightarrow> string) \<Rightarrow> config \<Rightarrow> cfg_error + unit" where
  "validate N show_path c = first_error (checks N show_path c)"

section \<open>The merge\<close>

text \<open>A YAML value over the keys and scalars of the parser; a mapping keeps the order of its entries.\<close>

datatype ('k, 's) yaml =
  Scalar 's | Sequence "('k, 's) yaml list" | Mapping "('k \<times> ('k, 's) yaml) list" | Tagged string "('k, 's) yaml"

text \<open>\<open>Value::as_mapping_mut\<close>, with the change made through the reference: it reaches a mapping below tags, which stay.\<close>

fun as_mapping_mut :: "(('k \<times> ('k, 's) yaml) list \<Rightarrow> ('k \<times> ('k, 's) yaml) list) \<Rightarrow> ('k, 's) yaml \<Rightarrow> ('k, 's) yaml option" where
  "as_mapping_mut f (Mapping m) = Some (Mapping (f m))"
| "as_mapping_mut f (Tagged t v) = map_option (Tagged t) (as_mapping_mut f v)"
| "as_mapping_mut f _ = None"

fun deep_merge :: "('k, 's) yaml \<Rightarrow> ('k, 's) yaml \<Rightarrow> ('k, 's) yaml"
  and merge_entries :: "('k \<times> ('k, 's) yaml) list \<Rightarrow> ('k \<times> ('k, 's) yaml) list \<Rightarrow> ('k \<times> ('k, 's) yaml) list" where
  "deep_merge base (Mapping over) =
     (case as_mapping_mut (\<lambda>m. merge_entries m over) base of Some merged \<Rightarrow> merged | None \<Rightarrow> Mapping over)"
| "deep_merge base (Scalar s) = Scalar s"
| "deep_merge base (Sequence vs) = Sequence vs"
| "deep_merge base (Tagged t v) = Tagged t v"
| "merge_entries m [] = m"
| "merge_entries m ((k, ov) # over) =
     merge_entries (case map_of m k of Some bv \<Rightarrow> AList.update k (deep_merge bv ov) m | None \<Rightarrow> m @ [(k, ov)]) over"

section \<open>The loader\<close>

datatype cfg_load_error =
  Read_Failed path
| Parse_Failed path
| Invalid cfg_error
| Bad_Scenario_Name string
| Read_Scenario_Failed path
| Parse_Scenario_Failed path
| Merge_Failed string
| No_Target string

record ('k, 's) config_io =
  io_read :: "path \<Rightarrow> string option"
  io_from_str :: "string \<Rightarrow> config option"
  io_parse :: "string \<Rightarrow> ('k, 's) yaml option"
  io_config :: "('k, 's) yaml \<Rightarrow> config option"
  io_canonical :: "path \<Rightarrow> path option"

definition load_config :: "'n net_ops \<Rightarrow> (path \<Rightarrow> string) \<Rightarrow> ('k, 's) config_io \<Rightarrow> path \<Rightarrow> cfg_load_error + config" where
  "load_config N show_path io p =
     (case io_read io p of
        None \<Rightarrow> Inl (Read_Failed p)
      | Some text \<Rightarrow>
          (case io_from_str io text of
             None \<Rightarrow> Inl (Parse_Failed p)
           | Some c \<Rightarrow> (case validate N show_path c of Inl e \<Rightarrow> Inl (Invalid e) | Inr _ \<Rightarrow> Inr c)))"

definition bare_slug :: "string \<Rightarrow> bool" where
  "bare_slug name \<longleftrightarrow> \<not> (trim name = [] \<or> list_ex (\<lambda>c. c = CHR ''/'' \<or> c = CHR 0x5C \<or> c = CHR ''.'') name)"

definition pack_dir_of :: "path \<Rightarrow> string \<Rightarrow> path" where
  "pack_dir_of base name =
     path_join (path_join (case path_parent base of None \<Rightarrow> path_of ''.'' | Some p \<Rightarrow> p) (path_of ''targets'')) (path_of name)"

definition load_with_scenario ::
    "'n net_ops \<Rightarrow> (path \<Rightarrow> string) \<Rightarrow> ('k, 's) config_io \<Rightarrow> path \<Rightarrow> string option \<Rightarrow> cfg_load_error + config" where
  "load_with_scenario N show_path io base scenario =
     (case scenario of
        None \<Rightarrow> load_config N show_path io base
      | Some name \<Rightarrow>
          if \<not> bare_slug name then Inl (Bad_Scenario_Name name)
          else
            (case io_read io base of
               None \<Rightarrow> Inl (Read_Failed base)
             | Some base_text \<Rightarrow>
                 let pack_dir = pack_dir_of base name;
                     scenario_path = path_join pack_dir (path_of ''scenario.yaml'')
                 in (case io_read io scenario_path of
                       None \<Rightarrow> Inl (Read_Scenario_Failed scenario_path)
                     | Some scen_text \<Rightarrow>
                         (case io_parse io base_text of
                            None \<Rightarrow> Inl (Parse_Failed base)
                          | Some merged \<Rightarrow>
                              (case io_parse io scen_text of
                                 None \<Rightarrow> Inl (Parse_Scenario_Failed scenario_path)
                               | Some overlay \<Rightarrow>
                                   (case io_config io (deep_merge merged overlay) of
                                      None \<Rightarrow> Inl (Merge_Failed name)
                                    | Some cfg \<Rightarrow>
                                        (case cf_target cfg of
                                           None \<Rightarrow> Inl (No_Target name)
                                         | Some t \<Rightarrow>
                                             let t = t\<lparr>ts_pack_dir := (case io_canonical io pack_dir of None \<Rightarrow> pack_dir | Some p \<Rightarrow> p)\<rparr>;
                                                 cfg = cfg\<lparr>cf_target := Some t\<rparr>
                                             in (case validate N show_path cfg of Inl e \<Rightarrow> Inl (Invalid e) | Inr _ \<Rightarrow> Inr cfg))))))))"

section \<open>What the engine and the run loop read\<close>

definition red_cfg_of :: "config \<Rightarrow> red_cfg" where
  "red_cfg_of c =
     \<lparr>rc_max_subnets = zc_max_subnets (cf_zones c), rc_max_devices = sy_max_devices (cf_synthesis c),
      rc_max_assets = sy_max_assets (cf_synthesis c), rc_default_prefix = zc_default_prefix (cf_zones c),
      rc_identity_every = sy_identity_every_n_runs (cf_synthesis c), rc_cycle_every = sy_cycle_every_n_runs (cf_synthesis c),
      rc_synth_enabled = sy_enabled (cf_synthesis c), rc_device_identity = sy_device_identity (cf_synthesis c),
      rc_switch_beacons = sy_switch_beacons (cf_synthesis c), rc_ns_enabled = ns_enabled (cf_north_south c),
      rc_ns_cadence = ns_cadence_runs (cf_north_south c), rc_ns_max_per_pair = ns_max_flows_per_pair (cf_north_south c),
      rc_threats_enabled = th_enabled (cf_threats c), rc_external_cidrs = th_external_cidrs (cf_threats c),
      rc_min_interval = th_min_interval_secs (cf_threats c), rc_max_interval = th_max_interval_secs (cf_threats c),
      rc_announce_interval = sy_announce_interval_secs (cf_synthesis c)\<rparr>"

definition rezone_cfg_of :: "config \<Rightarrow> rezone_cfg" where
  "rezone_cfg_of c =
     \<lparr>rz_max_remap_bytes = l3_max_remap_bytes (cf_l3 c), rz_skip_oversize = (l3_on_oversize (cf_l3 c) = Skip_Oversize),
      rz_affinity = l3_zone_affinity (cf_l3 c), rz_remap_mac = l3_remap_mac (cf_l3 c),
      rz_max_assets = sy_max_assets (cf_synthesis c), rz_max_frame_bytes = l3_max_frame_bytes (cf_l3 c),
      rz_replay_arp = l3_replay_capture_arp (cf_l3 c)\<rparr>"

definition run_cfg_of :: "config \<Rightarrow> run_cfg" where
  "run_cfg_of c =
     \<lparr>ru_red = (cf_mode c = Red_Laser), ru_remap = l3_remap (cf_l3 c), ru_guard = l3_guard_public_sources (cf_l3 c),
      ru_rezone = rezone_cfg_of c\<rparr>"

end
