(* ===== verification/Datapath.thy ===== *)
theory Datapath
  imports Config
begin

text \<open>
  The read-only view of the datapath: \<open>src/netinfo.rs\<close> and the \<open>net-show\<close> command of \<open>src/control.rs\<close>.  The files and links of
  \<open>/sys\<close> and the commands run are a parameter (\<open>host\<close>); so is what they answer later in the same command.
\<close>

section \<open>Reading the host\<close>

text \<open>\<open>ho_read\<close> is the contents of a file, \<open>ho_link\<close> the target of a link, \<open>ho_run\<close> the output of a command that succeeded.\<close>

record host =
  ho_read :: "string \<Rightarrow> string option"
  ho_link :: "string \<Rightarrow> string option"
  ho_dir :: "string \<Rightarrow> string list option"
  ho_exists :: "string \<Rightarrow> bool"
  ho_run :: "string \<Rightarrow> string list \<Rightarrow> string option"

definition net_path :: "string \<Rightarrow> string \<Rightarrow> string" where
  "net_path iface name = ''/sys/class/net/'' @ iface @ ''/'' @ name"

definition read_trimmed :: "host \<Rightarrow> string \<Rightarrow> string option" where
  "read_trimmed h p = map_option trim (ho_read h p)"

definition read_u64 :: "host \<Rightarrow> string \<Rightarrow> u64 option" where
  "read_u64 h p = Option.bind (read_trimmed h p) (\<lambda>s. map_option word_of_nat (parse_radix 10 (2 ^ 64 - 1) s))"

definition sysfs_stat :: "host \<Rightarrow> string \<Rightarrow> string \<Rightarrow> u64 option" where
  "sysfs_stat h iface name = read_u64 h (net_path iface (''statistics/'' @ name))"

definition iface_exists :: "host \<Rightarrow> string \<Rightarrow> bool" where
  "iface_exists h iface = ho_exists h (''/sys/class/net/'' @ iface)"

definition mtu_of :: "host \<Rightarrow> string \<Rightarrow> u64 option" where
  "mtu_of h iface = read_u64 h (net_path iface ''mtu'')"

definition operstate :: "host \<Rightarrow> string \<Rightarrow> string option" where
  "operstate h iface = read_trimmed h (net_path iface ''operstate'')"

definition carrier :: "host \<Rightarrow> string \<Rightarrow> bool option" where
  "carrier h iface = map_option (\<lambda>v. v \<noteq> 0) (read_u64 h (net_path iface ''carrier''))"

definition link_up :: "host \<Rightarrow> string \<Rightarrow> bool" where
  "link_up h iface \<longleftrightarrow> operstate h iface = Some ''up'' \<or> or_default False (carrier h iface)"

definition file_name :: "path \<Rightarrow> string option" where
  "file_name p = (if pt_components p = [] then None else case last (pt_components p) of Normal s \<Rightarrow> Some s | _ \<Rightarrow> None)"

definition bridge_master :: "host \<Rightarrow> string \<Rightarrow> string option" where
  "bridge_master h iface = Option.bind (ho_link h (net_path iface ''master'')) (\<lambda>l. file_name (path_of l))"

definition strip_prefix :: "string \<Rightarrow> string \<Rightarrow> string option" where
  "strip_prefix p s = (if take (length p) s = p then Some (drop (length p) s) else None)"

definition promisc :: "host \<Rightarrow> string \<Rightarrow> bool option" where
  "promisc h iface =
     map_option (\<lambda>v. (word_of_nat v :: u64) AND 0x100 \<noteq> 0)
       (Option.bind (read_trimmed h (net_path iface ''flags''))
         (\<lambda>s. parse_radix 16 (2 ^ 64 - 1) (or_default s (strip_prefix ''0x'' s))))"

definition bridge_members :: "host \<Rightarrow> string \<Rightarrow> string list" where
  "bridge_members h bridge = or_default [] (ho_dir h (net_path bridge ''brif''))"

definition is_physical :: "host \<Rightarrow> string \<Rightarrow> bool" where
  "is_physical h iface =
     (case ho_link h (net_path iface ''device'') of
        Some s \<Rightarrow> sublist ''/pci'' s \<or> sublist ''/usb'' s
      | None \<Rightarrow> False)"

section \<open>The verdict\<close>

record datapath =
  dp_mirror_mode :: string
  dp_replay :: string
  dp_bridge :: string
  dp_sensor :: string
  dp_replay_exists :: bool
  dp_replay_up :: bool
  dp_replay_master :: "string option"
  dp_bridge_exists :: bool
  dp_bridge_physical_member :: "string option"
  dp_sensor_exists :: bool
  dp_sensor_up :: bool
  dp_sensor_promisc :: bool
  dp_mirror_present :: bool
  dp_tx_delta :: "u64 option"
  dp_rx_delta :: "u64 option"

datatype health = Healthy | Degraded | Broken

definition health_exit_code :: "health \<Rightarrow> int" where
  "health_exit_code x = (case x of Healthy \<Rightarrow> 0 | Degraded \<Rightarrow> 1 | Broken \<Rightarrow> 2)"

text \<open>What a finding says; its message and remedy print these values.\<close>

datatype complaint =
  Isolation_Breach string string
| No_Replay_Port string
| Replay_Down string
| No_Bridge string
| Not_Enslaved string string "string option"
| No_Sensor_Port string
| Sensor_Down string
| Not_Promiscuous string
| No_Mirror string string string
| No_Frames
| Not_Delivering u64 string string

definition note_finding :: "health \<Rightarrow> complaint \<Rightarrow> health \<times> (health \<times> complaint) list \<Rightarrow> health \<times> (health \<times> complaint) list" where
  "note_finding sev c = (\<lambda>(worst, fs).
     (if sev = Broken then Broken else if sev = Degraded \<and> worst = Healthy then Degraded else worst, fs @ [(sev, c)]))"

definition note_if :: "bool \<Rightarrow> health \<Rightarrow> complaint \<Rightarrow> health \<times> (health \<times> complaint) list \<Rightarrow> health \<times> (health \<times> complaint) list" where
  "note_if b sev c st = (if b then note_finding sev c st else st)"

definition assess :: "datapath \<Rightarrow> health \<times> (health \<times> complaint) list" where
  "assess d =
     (let st = (Healthy, []);
          st = (case dp_bridge_physical_member d of None \<Rightarrow> st | Some m \<Rightarrow> note_finding Broken (Isolation_Breach (dp_bridge d) m) st)
      in if \<not> dp_replay_exists d then note_finding Broken (No_Replay_Port (dp_replay d)) st
         else
           let st = note_if (\<not> dp_replay_up d) Broken (Replay_Down (dp_replay d)) st;
               st = (if \<not> dp_bridge_exists d then note_finding Broken (No_Bridge (dp_bridge d)) st
                     else note_if (dp_mirror_mode d = ''tc'' \<and> dp_replay_master d \<noteq> Some (dp_bridge d)) Degraded
                       (Not_Enslaved (dp_replay d) (dp_bridge d) (dp_replay_master d)) st);
               st = (if \<not> dp_sensor_exists d then note_finding Broken (No_Sensor_Port (dp_sensor d)) st
                     else note_if (\<not> dp_sensor_promisc d) Degraded (Not_Promiscuous (dp_sensor d))
                       (note_if (\<not> dp_sensor_up d) Broken (Sensor_Down (dp_sensor d)) st));
               st = note_if (\<not> dp_mirror_present d) Broken (No_Mirror (dp_replay d) (dp_sensor d) (dp_mirror_mode d)) st
           in (case (dp_tx_delta d, dp_rx_delta d) of
                 (Some tx, Some rx) \<Rightarrow>
                   if tx = 0 then note_finding Degraded No_Frames st
                   else note_if (rx = 0) Broken (Not_Delivering tx (dp_replay d) (dp_sensor d)) st
               | _ \<Rightarrow> st))"

section \<open>The snapshot\<close>

definition bridge_member_list :: "host \<Rightarrow> string \<Rightarrow> string \<Rightarrow> string list" where
  "bridge_member_list h mode bridge =
     (if mode = ''ovs''
      then or_default [] (map_option (\<lambda>s. filter (\<lambda>l. l \<noteq> []) (map trim (text_lines s))) (ho_run h ''ovs-vsctl'' [''list-ports'', bridge]))
      else bridge_members h bridge)"

definition ovs_bridge_exists :: "host \<Rightarrow> string \<Rightarrow> bool" where
  "ovs_bridge_exists h bridge =
     or_default False (map_option (\<lambda>s. list_ex (\<lambda>l. trim l = bridge) (text_lines s)) (ho_run h ''ovs-vsctl'' [''list-br'']))"

definition detect_mirror :: "host \<Rightarrow> string \<Rightarrow> string \<Rightarrow> string \<Rightarrow> bool" where
  "detect_mirror h mode replay sensor =
     (if mode = ''ovs''
      then (case ho_run h ''ovs-vsctl'' [''get'', ''port'', sensor, ''_uuid''] of
              None \<Rightarrow> False
            | Some uuid \<Rightarrow>
                let uuid = trim uuid
                in if uuid = [] then False
                   else or_default False (map_option (sublist uuid)
                     (ho_run h ''ovs-vsctl'' [''--format=csv'', ''--no-headings'', ''--columns=output_port'', ''list'', ''mirror''])))
      else
        let combined = concat (map (\<lambda>dir. or_default [] (ho_run h ''tc'' [''filter'', ''show'', ''dev'', replay, dir])) [''egress'', ''ingress''])
        in sublist ''mirred'' combined \<and> sublist sensor combined)"

definition counter_delta :: "u64 option \<Rightarrow> u64 option \<Rightarrow> u64 option" where
  "counter_delta a b = (case (a, b) of (Some a, Some b) \<Rightarrow> Some (if b < a then 0 else b - a) | _ \<Rightarrow> None)"

text \<open>\<open>h0\<close> answers up to the first sample of the counters, \<open>h1\<close> from the second one on.\<close>

definition snapshot :: "host \<Rightarrow> host \<Rightarrow> u64 \<Rightarrow> config \<Rightarrow> datapath" where
  "snapshot h0 h1 probe_secs cfg =
     (let replay = cf_iface cfg;
          bridge = ne_bridge (cf_net cfg);
          sensor = ne_sensor_port (cf_net cfg);
          mode = mirror_as_str (ne_mirror (cf_net cfg));
          replay_exists = iface_exists h0 replay;
          sensor_exists = iface_exists h0 sensor;
          bridge_exists = iface_exists h0 bridge \<or> ovs_bridge_exists h0 bridge;
          members = bridge_member_list h0 mode bridge;
          mirror_present = detect_mirror h0 mode replay sensor;
          probe = 0 < probe_secs \<and> replay_exists \<and> sensor_exists;
          (tx0, rx0) = (if probe then (sysfs_stat h0 replay ''tx_packets'', sysfs_stat h0 sensor ''rx_packets'') else (None, None));
          tx1 = sysfs_stat h1 replay ''tx_packets'';
          rx1 = sysfs_stat h1 sensor ''rx_packets''
      in \<lparr>dp_mirror_mode = mode, dp_replay = replay, dp_bridge = bridge, dp_sensor = sensor, dp_replay_exists = replay_exists,
          dp_replay_up = (replay_exists \<and> link_up h1 replay), dp_replay_master = bridge_master h1 replay,
          dp_bridge_exists = bridge_exists, dp_bridge_physical_member = find (is_physical h0) members,
          dp_sensor_exists = sensor_exists, dp_sensor_up = (sensor_exists \<and> link_up h1 sensor),
          dp_sensor_promisc = or_default False (promisc h1 sensor), dp_mirror_present = mirror_present,
          dp_tx_delta = (if probe then counter_delta tx0 tx1 else None),
          dp_rx_delta = (if probe then counter_delta rx0 rx1 else None)\<rparr>)"

definition net_show :: "host \<Rightarrow> host \<Rightarrow> u64 \<Rightarrow> config \<Rightarrow> int" where
  "net_show h0 h1 probe_secs cfg = health_exit_code (fst (assess (snapshot h0 h1 probe_secs cfg)))"

section \<open>What the verdict means\<close>

definition worst_of :: "(health \<times> complaint) list \<Rightarrow> health" where
  "worst_of fs = (if Broken \<in> fst ` set fs then Broken else if Degraded \<in> fst ` set fs then Degraded else Healthy)"

definition assessed :: "health \<times> (health \<times> complaint) list \<Rightarrow> bool" where
  "assessed st \<longleftrightarrow> fst st = worst_of (snd st) \<and> Healthy \<notin> fst ` set (snd st)"

lemma assessed_nil: "assessed (Healthy, [])" by (simp add: assessed_def worst_of_def)

lemma assessed_note: "assessed st \<Longrightarrow> sev \<noteq> Healthy \<Longrightarrow> assessed (note_finding sev c st)"
  by (cases st; cases sev) (auto simp: assessed_def note_finding_def worst_of_def)

lemma assessed_note_if: "assessed st \<Longrightarrow> sev \<noteq> Healthy \<Longrightarrow> assessed (note_if b sev c st)"
  by (simp add: note_if_def assessed_note)

lemma assess_assessed: "assessed (assess d)"
  by (auto simp: assess_def Let_def assessed_nil split: option.split intro!: assessed_note assessed_note_if)

text \<open>A datapath on which nothing is wrong.\<close>

definition sound_path :: "datapath \<Rightarrow> bool" where
  "sound_path d \<longleftrightarrow> dp_bridge_physical_member d = None \<and> dp_replay_exists d \<and> dp_replay_up d \<and> dp_bridge_exists d \<and>
     (dp_mirror_mode d = ''tc'' \<longrightarrow> dp_replay_master d = Some (dp_bridge d)) \<and>
     dp_sensor_exists d \<and> dp_sensor_up d \<and> dp_sensor_promisc d \<and> dp_mirror_present d \<and>
     (\<forall>tx rx. dp_tx_delta d = Some tx \<and> dp_rx_delta d = Some rx \<longrightarrow> 0 < tx \<and> 0 < rx)"

lemma note_nonempty: "snd (note_finding sev c st) \<noteq> []" "note_if b sev c st = (w, []) \<longleftrightarrow> \<not> b \<and> st = (w, [])"
  by (cases st; simp add: note_finding_def note_if_def)+

lemma assess_findings: "snd (assess d) = [] \<longleftrightarrow> sound_path d"
proof -
  have n: "snd (note_if b sev c st) = [] \<longleftrightarrow> \<not> b \<and> snd st = []" for b sev c st
    by (cases st) (simp add: note_if_def note_finding_def)
  show ?thesis
    by (auto simp: assess_def sound_path_def Let_def n note_nonempty(1) word_neq_0_conv split: option.splits)
qed

lemma healthy_iff: "fst (assess d) = Healthy \<longleftrightarrow> sound_path d"
proof -
  have "snd (assess d) = []" if "Broken \<notin> fst ` set (snd (assess d))" "Degraded \<notin> fst ` set (snd (assess d))" "Healthy \<notin> fst ` set (snd (assess d))"
  proof (rule ccontr)
    assume "snd (assess d) \<noteq> []"
    then have "fst (hd (snd (assess d))) \<in> fst ` set (snd (assess d))" by simp
    with that show False by (cases "fst (hd (snd (assess d)))") simp_all
  qed
  then have "fst (assess d) = Healthy \<longleftrightarrow> snd (assess d) = []"
    using assess_assessed [of d] unfolding assessed_def worst_of_def by (auto split: if_splits)
  then show ?thesis by (simp add: assess_findings)
qed

lemma health_exit_zero: "health_exit_code x = 0 \<longleftrightarrow> x = Healthy"
  by (cases x) (simp_all add: health_exit_code_def)

text \<open>What a zero exit of the command promises, in terms of the host.\<close>

definition delivering :: "host \<Rightarrow> host \<Rightarrow> u64 \<Rightarrow> config \<Rightarrow> bool" where
  "delivering h0 h1 probe_secs cfg \<longleftrightarrow>
     (let replay = cf_iface cfg; sensor = ne_sensor_port (cf_net cfg); bridge = ne_bridge (cf_net cfg);
          mode = mirror_as_str (ne_mirror (cf_net cfg))
      in iface_exists h0 replay \<and> link_up h1 replay \<and> iface_exists h0 sensor \<and> link_up h1 sensor \<and> promisc h1 sensor = Some True \<and>
         (iface_exists h0 bridge \<or> ovs_bridge_exists h0 bridge) \<and> detect_mirror h0 mode replay sensor \<and>
         (\<forall>m \<in> set (bridge_member_list h0 mode bridge). \<not> is_physical h0 m) \<and>
         (ne_mirror (cf_net cfg) = Tc \<longrightarrow> bridge_master h1 replay = Some bridge) \<and>
         (0 < probe_secs \<longrightarrow> (\<forall>t0 t1 r0 r1. sysfs_stat h0 replay ''tx_packets'' = Some t0 \<and> sysfs_stat h1 replay ''tx_packets'' = Some t1 \<and>
            sysfs_stat h0 sensor ''rx_packets'' = Some r0 \<and> sysfs_stat h1 sensor ''rx_packets'' = Some r1 \<longrightarrow> t0 < t1 \<and> r0 < r1)))"

lemma counter_delta_pos: "counter_delta (Some a) (Some b) = Some c \<Longrightarrow> 0 < c \<longleftrightarrow> a < b"
  by (auto simp: counter_delta_def word_neq_0_conv [symmetric] split: if_splits)

lemma net_show_zero: "net_show h0 h1 probe_secs cfg = 0 \<longleftrightarrow> delivering h0 h1 probe_secs cfg"
proof -
  let ?d = "snapshot h0 h1 probe_secs cfg"
  let ?r = "cf_iface cfg" and ?s = "ne_sensor_port (cf_net cfg)"
  let ?t = "\<lambda>h. sysfs_stat h ?r ''tx_packets''" and ?x = "\<lambda>h. sysfs_stat h ?s ''rx_packets''"
  have tc: "dp_mirror_mode ?d = ''tc'' \<longleftrightarrow> ne_mirror (cf_net cfg) = Tc"
    by (cases "ne_mirror (cf_net cfg)") (simp_all add: snapshot_def mirror_as_str_def Let_def split: prod.split)
  have fl: "(\<forall>tx rx. dp_tx_delta ?d = Some tx \<and> dp_rx_delta ?d = Some rx \<longrightarrow> 0 < tx \<and> 0 < rx) \<longleftrightarrow>
      (0 < probe_secs \<longrightarrow> (\<forall>t0 t1 r0 r1. ?t h0 = Some t0 \<and> ?t h1 = Some t1 \<and> ?x h0 = Some r0 \<and> ?x h1 = Some r1 \<longrightarrow> t0 < t1 \<and> r0 < r1))"
    if "iface_exists h0 ?r" "iface_exists h0 ?s"
  proof -
    have dl: "dp_tx_delta ?d = (if 0 < probe_secs then counter_delta (?t h0) (?t h1) else None)"
      "dp_rx_delta ?d = (if 0 < probe_secs then counter_delta (?x h0) (?x h1) else None)"
      using that by (simp_all add: snapshot_def Let_def)
    have cd: "counter_delta a b = (case (a, b) of (Some x, Some y) \<Rightarrow> Some (if y < x then 0 else y - x) | _ \<Rightarrow> None)" for a b
      by (cases a; cases b) (simp_all add: counter_delta_def)
    show ?thesis
    proof (cases "0 < probe_secs \<and> ?t h0 \<noteq> None \<and> ?t h1 \<noteq> None \<and> ?x h0 \<noteq> None \<and> ?x h1 \<noteq> None")
      case True
      then obtain a b c d where v: "?t h0 = Some a" "?t h1 = Some b" "?x h0 = Some c" "?x h1 = Some d" by blast
      obtain tx rx where k: "counter_delta (Some a) (Some b) = Some tx" "counter_delta (Some c) (Some d) = Some rx"
        by (simp add: cd)
      show ?thesis using True by (simp add: dl v k counter_delta_pos [OF k(1)] counter_delta_pos [OF k(2)])
    next
      case False
      then show ?thesis by (auto simp: dl cd split: option.splits)
    qed
  qed
  have f: "find (is_physical h0) ms = None \<longleftrightarrow> (\<forall>m \<in> set ms. \<not> is_physical h0 m)" for ms
    by (auto simp: find_None_iff)
  have p: "or_default False b \<longleftrightarrow> b = Some True" for b :: "bool option" by (cases b) (simp_all add: or_default_def)
  have flds: "dp_bridge_physical_member ?d = find (is_physical h0) (bridge_member_list h0 (mirror_as_str (ne_mirror (cf_net cfg))) (ne_bridge (cf_net cfg)))"
    "dp_replay_exists ?d = iface_exists h0 ?r" "dp_replay_up ?d = (iface_exists h0 ?r \<and> link_up h1 ?r)"
    "dp_bridge_exists ?d = (iface_exists h0 (ne_bridge (cf_net cfg)) \<or> ovs_bridge_exists h0 (ne_bridge (cf_net cfg)))"
    "dp_replay_master ?d = bridge_master h1 ?r" "dp_bridge ?d = ne_bridge (cf_net cfg)"
    "dp_sensor_exists ?d = iface_exists h0 ?s" "dp_sensor_up ?d = (iface_exists h0 ?s \<and> link_up h1 ?s)"
    "dp_sensor_promisc ?d = or_default False (promisc h1 ?s)"
    "dp_mirror_present ?d = detect_mirror h0 (mirror_as_str (ne_mirror (cf_net cfg))) ?r ?s"
    by (simp_all add: snapshot_def Let_def split: prod.split)
  define probed flows where "probed \<longleftrightarrow> (\<forall>tx rx. dp_tx_delta ?d = Some tx \<and> dp_rx_delta ?d = Some rx \<longrightarrow> 0 < tx \<and> 0 < rx)"
    and "flows \<longleftrightarrow> (0 < probe_secs \<longrightarrow>
      (\<forall>t0 t1 r0 r1. ?t h0 = Some t0 \<and> ?t h1 = Some t1 \<and> ?x h0 = Some r0 \<and> ?x h1 = Some r1 \<longrightarrow> t0 < t1 \<and> r0 < r1))"
  define clean where "clean \<longleftrightarrow> (\<forall>m \<in> set (bridge_member_list h0 (mirror_as_str (ne_mirror (cf_net cfg))) (ne_bridge (cf_net cfg))). \<not> is_physical h0 m)"
  have "iface_exists h0 ?r \<Longrightarrow> iface_exists h0 ?s \<Longrightarrow> probed = flows" using fl by (simp only: probed_def flows_def)
  moreover have "net_show h0 h1 probe_secs cfg = 0 \<longleftrightarrow> sound_path ?d" by (simp add: net_show_def health_exit_zero healthy_iff)
  ultimately show ?thesis
    unfolding sound_path_def delivering_def Let_def tc flds f p probed_def [symmetric] flows_def [symmetric] clean_def [symmetric] by blast
qed

end
