(* ===== verification/Config_Sound.thy ===== *)
theory Config_Sound
  imports Config
begin

text \<open>What a configuration that passed the checks of \<open>Config\<close> guarantees, and what the merge of a scenario keeps.\<close>

section \<open>The checks\<close>

lemma first_error_ok [simp]: "first_error rs = Inr () \<longleftrightarrow> (\<forall>r \<in> set rs. r = Inr ())"
  by (induction rs) (auto split: sum.splits)

lemma ensure_ok [simp]: "ensure ok msg = Inr () \<longleftrightarrow> ok" by (simp add: ensure_def)

lemma valid_weight_ok: "valid_weight x = weight_ok x" by (simp add: valid_weight_def weight_ok_def)

lemma validated_checks: "validate N sp c = Inr () \<Longrightarrow> r \<in> set (checks N sp c) \<Longrightarrow> r = Inr ()"
  by (simp add: validate_def)

lemma validated_remap: "validate N sp c = Inr () \<Longrightarrow> cf_mode c = Red_Laser \<Longrightarrow> l3_remap (cf_l3 c)"
  using validated_checks [of N sp c "ensure (\<not> (cf_mode c = Red_Laser \<and> \<not> l3_remap (cf_l3 c)))
        ''red_laser requires l3.remap = true (plan==wire); use green_laser for raw replay''"]
  by (simp add: checks_def)

lemma validated_sections:
  assumes "validate N sp c = Inr ()"
  shows "rate_validate (cf_rate c) = Inr ()" "gap_validate (cf_gap c) = Inr ()"
    "\<forall>x \<in> set (check_weights (cf_weights c)). x = Inr ()"
    "\<forall>d \<in> set (th_external_cidrs (cf_threats c)). check_external_cidr N d = Inr ()"
    "\<forall>t. cf_target c = Some t \<longrightarrow> (\<forall>r \<in> set (check_target sp (cf_mode c) (l3_remap (cf_l3 c)) t). r = Inr ())"
  using validated_checks [OF assms] by (auto simp: checks_def)

lemma validated_weights:
  assumes "validate N sp c = Inr ()"
  shows "weight_ok (weight_for glob name p (cf_weights c))"
  using validated_sections(3) [OF assms]
  by (intro weight_for_ok) (simp_all add: check_weights_def valid_weight_ok ball_Un split_def)

text \<open>Numbers of the sections the engine divides by or waits for.\<close>

lemma validated_numbers:
  assumes "validate N sp c = Inr ()"
  shows "8 \<le> zc_default_prefix (cf_zones c)" "zc_default_prefix (cf_zones c) \<le> 30" "sy_identity_every_n_runs (cf_synthesis c) \<noteq> 0"
    "wd_poll_secs (cf_watchdog c) \<noteq> 0" "wd_flatline_secs (cf_watchdog c) \<noteq> 0" "cf_no_pcaps_retry_secs c \<noteq> 0"
    "ns_enabled (cf_north_south c) \<Longrightarrow> ns_cadence_runs (cf_north_south c) \<noteq> 0"
    "th_min_interval_secs (cf_threats c) \<le> th_max_interval_secs (cf_threats c)"
  using assms unfolding validate_def first_error_ok checks_def set_append ball_Un by simp_all

section \<open>The pack directory\<close>

definition stays_below :: "path \<Rightarrow> path \<Rightarrow> bool" where
  "stays_below d p \<longleftrightarrow> pt_absolute p = pt_absolute d \<and>
     (\<exists>rest. pt_components p = pt_components d @ rest \<and> Parent_Dir \<notin> set rest)"

lemma join_below: "\<not> pt_absolute p \<Longrightarrow> Parent_Dir \<notin> set (pt_components p) \<Longrightarrow> stays_below d (path_join d p)"
  by (auto simp: path_join_def stays_below_def)

lemma check_pack_path_ok [simp]: "check_pack_path sp (field, p) = Inr () \<longleftrightarrow> inside_pack p"
  by (simp add: check_pack_path_def)

lemma target_paths_below:
  assumes "\<forall>r \<in> set (check_target sp mode remap t). r = Inr ()"
  shows "mode = Red_Laser" "remap" "\<forall>p \<in> {ts_plant t, ts_playbook t, ts_profiles t}. stays_below d (path_join d p)"
proof -
  have "(if mode \<noteq> Red_Laser then Inl (Needs_Red_Laser (tg_name (ts_cfg t))) else Inr ()) = Inr ()"
    by (rule bspec [OF assms]) (simp add: check_target_def)
  then show "mode = Red_Laser" by (simp split: if_splits)
  have "(if \<not> remap then Inl (Needs_Remap (tg_name (ts_cfg t))) else Inr ()) = Inr ()"
    by (rule bspec [OF assms]) (simp add: check_target_def)
  then show remap by (simp split: if_splits)
  let ?ps = "[(''plant'', ts_plant t), (''playbook'', ts_playbook t), (''profiles'', ts_profiles t)]"
  have c: "inside_pack p" if "(field, p) \<in> set ?ps" for field p
  proof -
    have "check_pack_path sp (field, p) \<in> set (check_target sp mode remap t)"
      unfolding check_target_def set_append set_map using that by blast
    then show ?thesis using bspec [OF assms] check_pack_path_ok by blast
  qed
  have "inside_pack (ts_plant t)" "inside_pack (ts_playbook t)" "inside_pack (ts_profiles t)"
    using c [of "''plant''" "ts_plant t"] c [of "''playbook''" "ts_playbook t"] c [of "''profiles''" "ts_profiles t"] by simp_all
  then show "\<forall>p \<in> {ts_plant t, ts_playbook t, ts_profiles t}. stays_below d (path_join d p)"
    by (auto simp: inside_pack_def intro: join_below)
qed

lemma bare_slug_path:
  assumes "bare_slug name"
  shows "path_of name = \<lparr>pt_absolute = False, pt_components = [Normal name]\<rparr>"
proof -
  have t: "trim name \<noteq> []" "\<forall>c \<in> set name. \<not> (c = CHR ''/'' \<or> c = CHR 0x5C \<or> c = CHR ''.'')"
    using assms unfolding bare_slug_def list_ex_iff by blast+
  have n: "name \<noteq> []" "CHR ''/'' \<notin> set name" "CHR ''.'' \<notin> set name"
    using t(1) by (rule contrapos_nn, simp add: trim_def) (use t(2) in blast)+
  then have "split_on (CHR ''/'') name = [name]" by (intro split_on_single)
  moreover have "component_of name = Normal name" using n(3) by (auto simp: component_of_def)
  moreover have "hd name \<noteq> CHR ''/''" using n(1,2) by (metis hd_in_set)
  moreover have "name \<noteq> ''.''" using n(3) by auto
  ultimately show ?thesis using n(1) by (simp add: path_of_def)
qed

lemma path_of_targets: "path_of ''targets'' = \<lparr>pt_absolute = False, pt_components = [Normal ''targets'']\<rparr>"
  by (simp add: path_of_def component_of_def)

lemma pack_dir_below:
  assumes "bare_slug name"
  shows "\<exists>d. pt_components (pack_dir_of base name) = d @ [Normal ''targets'', Normal name] \<and>
    (case path_parent base of None \<Rightarrow> d = [Cur_Dir] | Some p \<Rightarrow> d = pt_components p)"
proof -
  have "path_of ''.'' = \<lparr>pt_absolute = False, pt_components = [Cur_Dir]\<rparr>" by (simp add: path_of_def component_of_def)
  then show ?thesis
    by (auto simp: pack_dir_of_def bare_slug_path [OF assms] path_of_targets path_join_def split: option.split)
qed

text \<open>What a loaded scenario is.\<close>

definition loaded_scenario :: "('k, 's) config_io \<Rightarrow> path \<Rightarrow> string \<Rightarrow> config \<Rightarrow> bool" where
  "loaded_scenario io base name cfg \<longleftrightarrow> bare_slug name \<and> cf_mode cfg = Red_Laser \<and> l3_remap (cf_l3 cfg) \<and>
     (\<exists>t. cf_target cfg = Some t \<and>
        ts_pack_dir t = (case io_canonical io (pack_dir_of base name) of None \<Rightarrow> pack_dir_of base name | Some p \<Rightarrow> p) \<and>
        (\<forall>p \<in> {ts_plant t, ts_playbook t, ts_profiles t}. stays_below (ts_pack_dir t) (path_join (ts_pack_dir t) p)))"

lemma load_scenario_ok:
  assumes "load_with_scenario N sp io base (Some name) = Inr cfg"
  shows "validate N sp cfg = Inr ()" "loaded_scenario io base name cfg"
proof -
  from assms obtain t where h: "bare_slug name" "validate N sp cfg = Inr ()" "cf_target cfg = Some t"
    "ts_pack_dir t = (case io_canonical io (pack_dir_of base name) of None \<Rightarrow> pack_dir_of base name | Some p \<Rightarrow> p)"
    by (auto simp: load_with_scenario_def Let_def split: if_splits option.splits sum.splits)
  show "validate N sp cfg = Inr ()" by (rule h(2))
  have "\<forall>r \<in> set (check_target sp (cf_mode cfg) (l3_remap (cf_l3 cfg)) t). r = Inr ()"
    using validated_sections(5) [OF h(2)] h(3) by blast
  from target_paths_below [OF this] show "loaded_scenario io base name cfg"
    unfolding loaded_scenario_def using h by blast
qed

lemma load_plain: "load_with_scenario N sp io base None = load_config N sp io base"
  by (simp add: load_with_scenario_def)

section \<open>Lookups in a merged file\<close>

text \<open>Keys are looked up below tags, as the code does.\<close>

fun untag :: "('k, 's) yaml \<Rightarrow> ('k, 's) yaml" where
  "untag (Tagged t v) = untag v"
| "untag v = v"

fun yaml_get :: "('k, 's) yaml \<Rightarrow> 'k list \<Rightarrow> ('k, 's) yaml option" where
  "yaml_get v [] = Some v"
| "yaml_get v (k # ks) =
     (case untag v of Mapping m \<Rightarrow> (case map_of m k of None \<Rightarrow> None | Some w \<Rightarrow> yaml_get w ks) | _ \<Rightarrow> None)"

definition is_leaf :: "('k, 's) yaml \<Rightarrow> bool" where
  "is_leaf v \<longleftrightarrow> (case v of Mapping _ \<Rightarrow> False | _ \<Rightarrow> True)"

text \<open>A parser gives mappings with each key once.\<close>

inductive yaml_ok :: "('k, 's) yaml \<Rightarrow> bool" where
  "yaml_ok (Scalar s)"
| "yaml_ok (Sequence vs)"
| "distinct (map fst m) \<Longrightarrow> (\<And>k v. (k, v) \<in> set m \<Longrightarrow> yaml_ok v) \<Longrightarrow> yaml_ok (Mapping m)"
| "yaml_ok v \<Longrightarrow> yaml_ok (Tagged t v)"

inductive_simps yaml_ok_mapping: "yaml_ok (Mapping m)"

text \<open>The overlay says nothing of a key path: its mappings end before it does.\<close>

fun says_nothing :: "('k, 's) yaml \<Rightarrow> 'k list \<Rightarrow> bool" where
  "says_nothing (Mapping m) (k # ks) = (case map_of m k of None \<Rightarrow> True | Some v \<Rightarrow> says_nothing v ks)"
| "says_nothing v ks = False"

lemma as_mapping_mut_untag:
  "untag v = Mapping m \<Longrightarrow> \<exists>w. as_mapping_mut f v = Some w \<and> untag w = Mapping (f m)"
  "(\<And>m. untag v \<noteq> Mapping m) \<Longrightarrow> as_mapping_mut f v = None"
  by (induction v rule: untag.induct) auto

lemma merge_mapping:
  "untag (deep_merge base (Mapping over)) = Mapping (case untag base of Mapping m \<Rightarrow> merge_entries m over | _ \<Rightarrow> over)"
proof (cases "\<exists>m. untag base = Mapping m")
  case True
  then obtain m where m: "untag base = Mapping m" by blast
  from as_mapping_mut_untag(1) [OF m, of "\<lambda>m. merge_entries m over"] m show ?thesis by auto
next
  case False
  then have "\<And>m. untag base \<noteq> Mapping m" by blast
  from as_mapping_mut_untag(2) [OF this] False show ?thesis by (auto split: yaml.split)
qed

lemma merge_entries_get:
  "distinct (map fst over) \<Longrightarrow>
     map_of (merge_entries m over) k =
       (case map_of over k of
          None \<Rightarrow> map_of m k
        | Some ov \<Rightarrow> Some (case map_of m k of None \<Rightarrow> ov | Some bv \<Rightarrow> deep_merge bv ov))"
proof (induction over arbitrary: m)
  case (Cons e over)
  obtain k' ov where e: "e = (k', ov)" by (cases e)
  then have "k' \<notin> fst ` set over" using Cons.prems by simp
  then have "map_of over k' = None" by (simp add: map_of_eq_None_iff)
  then show ?case
    using Cons by (auto simp: e update_conv' map_add_def split: option.splits)
qed simp

text \<open>One key below a mapping of the overlay.\<close>

lemma merge_get_key:
  assumes "distinct (map fst over)"
  shows "yaml_get (deep_merge base (Mapping over)) (k # ks) =
    (case map_of over k of
       None \<Rightarrow> yaml_get base (k # ks)
     | Some ov \<Rightarrow> yaml_get (case yaml_get base [k] of None \<Rightarrow> ov | Some bv \<Rightarrow> deep_merge bv ov) ks)"
  using merge_mapping [of base over] merge_entries_get [OF assms, of _ k]
  by (simp split: yaml.split option.split)

lemma merge_leaf:
  "yaml_ok over \<Longrightarrow> yaml_get over ks = Some v \<Longrightarrow> is_leaf v \<Longrightarrow> yaml_get (deep_merge base over) ks = Some v"
proof (induction ks arbitrary: base over)
  case Nil
  then show ?case by (cases over) (auto simp: is_leaf_def)
next
  case (Cons k ks)
  show ?case
  proof (cases over)
    case (Mapping m)
    then obtain ov where ov: "map_of m k = Some ov" "yaml_get ov ks = Some v" using Cons.prems(2) by (auto split: option.splits)
    have ok: "distinct (map fst m)" "yaml_ok ov"
      using Cons.prems(1) Mapping map_of_SomeD [OF ov(1)] by (auto simp: yaml_ok_mapping)
    show ?thesis
      using Cons.IH [OF ok(2) ov(2) Cons.prems(3)] ov Mapping
      by (simp add: merge_get_key [OF ok(1)] del: yaml_get.simps deep_merge.simps(1) split: option.split)
  qed (use Cons.prems in simp_all)
qed

lemma says_nothing_get: "says_nothing over ks \<Longrightarrow> yaml_get over ks = None"
  by (induction over ks rule: says_nothing.induct) (auto split: option.splits)

lemma merge_keeps:
  "yaml_ok over \<Longrightarrow> says_nothing over ks \<Longrightarrow> yaml_get (deep_merge base over) ks = yaml_get base ks"
proof (induction over ks arbitrary: base rule: says_nothing.induct)
  case (1 over k ks)
  have ok: "distinct (map fst over)" using 1(2) by (simp add: yaml_ok_mapping)
  show ?case
  proof (cases "map_of over k")
    case None
    then show ?thesis by (simp add: merge_get_key [OF ok] del: yaml_get.simps deep_merge.simps)
  next
    case (Some ov)
    then have ov: "yaml_ok ov" "says_nothing ov ks" using 1(2,3) map_of_SomeD [OF Some] by (auto simp: yaml_ok_mapping)
    have "yaml_get base (k # ks) = (case yaml_get base [k] of None \<Rightarrow> None | Some bv \<Rightarrow> yaml_get bv ks)"
      by (simp split: yaml.split option.split)
    then show ?thesis
      using 1(1) [OF Some ov] says_nothing_get [OF ov(2)] Some
      by (simp add: merge_get_key [OF ok] del: yaml_get.simps deep_merge.simps split: option.split)
  qed
qed simp_all

section \<open>The external ranges\<close>

lemma first_host:
  assumes "net_ok N" and "no_prefix_len N n \<le> 30"
  shows "no_network N n OR 1 \<in> set (no_hosts N n)" "octet0 (no_network N n OR 1) = octet0 (no_network N n)"
    "octet1 (no_network N n OR 1) = octet1 (no_network N n)"
proof -
  let ?n = "no_network N n" and ?m = "mask_for (no_prefix_len N n)"
  have ok: "?n AND ?m = ?n" "no_broadcast N n = ?n OR NOT ?m" "\<And>a. no_contains N n a \<longleftrightarrow> a AND ?m = ?n"
    "\<And>a. a \<in> set (no_hosts N n) \<longleftrightarrow> no_contains N n a \<and> a \<noteq> ?n \<and> a \<noteq> no_broadcast N n"
    using assms by (simp_all add: net_ok_def)
  have thirty: "unat (30 :: u8) = 30" by simp
  have p: "unat (no_prefix_len N n) \<le> 30" using word_le_nat_alt [THEN iffD1, OF assms(2)] unfolding thirty .
  then have "unat (no_prefix_len N n) \<le> 32" "\<not> 32 - unat (no_prefix_len N n) \<le> 0" "\<not> 32 - unat (no_prefix_len N n) \<le> 1" by linarith+
  then have m: "\<not> bit ?m 0" "\<not> bit ?m 1" using bit_mask_for by blast+
  have sub: "bit ?n i \<Longrightarrow> bit ?m i" for i using arg_cong [OF ok(1), of "\<lambda>w. bit w i"] by (simp add: bit_and_iff)
  then have b: "\<not> bit ?n 0" "\<not> bit ?n 1" using m by blast+
  have "(?n OR 1) AND ?m = ?n"
  proof (rule bit_word_eqI)
    fix i assume "i < LENGTH(32)"
    show "bit ((?n OR 1) AND ?m) i = bit ?n i"
      using m(1) sub [of i] by (auto simp: bit_and_iff bit_or_iff bit_1_iff)
  qed
  moreover have "?n OR 1 \<noteq> ?n"
  proof
    assume "?n OR 1 = ?n"
    then have "bit (?n OR 1) 0 = bit ?n 0" by (rule arg_cong)
    then show False using b(1) by (simp add: bit_or_iff del: bit_0)
  qed
  moreover have "?n OR 1 \<noteq> ?n OR NOT ?m"
  proof
    assume "?n OR 1 = ?n OR NOT ?m"
    then have "bit (?n OR 1) 1 = bit (?n OR NOT ?m) 1" by simp
    then show False using b(2) m(2) by (simp add: bit_simps)
  qed
  ultimately show "?n OR 1 \<in> set (no_hosts N n)" using ok by simp
  show "octet0 (?n OR 1) = octet0 ?n" "octet1 (?n OR 1) = octet1 ?n"
    by (rule bit_word_eqI; simp add: octet0_def octet1_def bit_simps)+
qed

lemma checked_range_picks:
  assumes "net_ok N" and "below_ok below" and "check_external_cidr N c = Inr ()"
    and "\<And>n. no_parse N c = Some n \<Longrightarrow> no_prefix_len N n \<le> 30"
  shows "\<exists>n a r'. no_parse N c = Some n \<and> pick_external N below (c # cs) r = (Some a, r') \<and> a \<in> set (no_hosts N n) \<and> threat_public_unicast a"
proof -
  obtain n where n: "no_parse N c = Some n" using assms(3) by (auto simp: check_external_cidr_def split: option.splits)
  let ?a = "no_network N n OR 1" and ?hosts = "take 1024 (filter threat_public_unicast (no_hosts N n))"
  note f = first_host [OF assms(1) assms(4) [OF n]]
  have "threat_public_unicast ?a"
    using assms(3) n by (simp add: check_external_cidr_def Let_def threat_public_unicast_def is_private_def is_link_local_def f(2,3))
  then have ne: "?hosts \<noteq> []" using f(1) by (auto simp: filter_empty_conv)
  obtain i r' where i: "below r (word_of_nat (length ?hosts)) = (i, r')" by fastforce
  have run: "pick_external N below (c # cs) r = (Some (?hosts ! unat i), r')" using ne n i by (simp add: Let_def)
  have len: "0 < length ?hosts" "length ?hosts < 2 ^ 64" using ne by simp_all
  then have u: "unat (word_of_nat (length ?hosts) :: u64) = length ?hosts" by (intro unat_word_of_nat) simp
  then have "(0 :: u64) < word_of_nat (length ?hosts)" using len(1) by (simp add: word_less_nat_alt del: length_take)
  then have "fst (below r (word_of_nat (length ?hosts))) < word_of_nat (length ?hosts)" using assms(2) unfolding below_ok_def by blast
  then have "unat i < length ?hosts" using i u by (simp add: word_less_nat_alt del: length_take)
  then have "?hosts ! unat i \<in> set ?hosts" by (rule nth_mem)
  then have "?hosts ! unat i \<in> set (no_hosts N n)" "threat_public_unicast (?hosts ! unat i)" by (auto dest: in_set_takeD)
  with n run show ?thesis by blast
qed

text \<open>The check looks at the network address alone: a wide range that passes may hold private addresses.\<close>

lemma wide_range_passes:
  assumes "net_ok N" and "no_parse N c = Some n" and "no_network N n = 0x08000000" and "no_prefix_len N n = 5"
  shows "check_external_cidr N c = Inr ()" "no_contains N n 0x0A000001"
proof -
  show "check_external_cidr N c = Inr ()"
    using assms(2,3) by (simp add: check_external_cidr_def Let_def octet0_def octet1_def is_private_def is_loopback_def is_link_local_def)
  have "mask_for 5 = 0xF8000000" by code_simp
  then show "no_contains N n 0x0A000001" using assms(1,3,4) by (simp add: net_ok_def)
qed

section \<open>What the run loop sends\<close>

lemma validated_wire:
  assumes "validate N sp c = Inr ()" and "cf_mode c = Red_Laser"
  shows "\<not> wire_ok (run_cfg_of c) (Original cap)"
  using validated_remap [OF assms] assms(2) by (simp add: run_cfg_of_def)

end
