(* ===== verification/Fire.thy ===== *)
theory Fire
  imports Datapath Config_Sound Daemon Run_Samples
begin

text \<open>
  Bringing the appliance up: the pre-flight of a scenario pack (\<open>src/scenario/mod.rs\<close>) and the commands of \<open>src/control.rs\<close>
  that start and stop the unit, set up the network and report the state of the daemon.  The files of a pack come read and
  parsed (\<open>pack\<close>); running \<open>systemctl\<close> or a script is a parameter, and what a command runs is part of its result.
\<close>

section \<open>Code: the pre-flight\<close>

text \<open>\<open>pk_toml\<close> says whether a text parses as TOML, \<open>pk_profiles_of\<close> whether it does as profiles.\<close>

record pack =
  pk_profiles :: "string option"
  pk_toml :: "string \<Rightarrow> bool"
  pk_profiles_of :: "string \<Rightarrow> vuln_db option"
  pk_plant :: "plant_spec option"
  pk_playbook :: "phase list option"

datatype preflight_error =
  Malformed_Profiles
| Unknown_Model string
| No_Profiles
| Playbook_Rejected load_error
| Plant_Rejected pin_error
| Target_Rejected target_error

definition build_validated_plant ::
    "'n net_ops \<Rightarrow> vuln_db option \<Rightarrow> pack \<Rightarrow> string list \<Rightarrow> target_cfg \<Rightarrow> oui_db \<Rightarrow> u64 \<Rightarrow> u64 \<Rightarrow> (preflight_error + ledger) exec" where
  "build_validated_plant N embedded pk domains t oui seed now =
     (let vuln = vuln_load_overlay embedded (Option.bind (pk_profiles pk) (pk_profiles_of pk))
      in if vuln = [] then ret (Inl No_Profiles)
         else case scenario_load t (pk_playbook pk) seed of
             Inl e \<Rightarrow> ret (Inl (Playbook_Rejected e))
           | Inr engine \<Rightarrow> do {
               r \<leftarrow> pin_from_pack N (pk_plant pk) (tg_name t) vuln oui seed now domains;
               ret (case r of
                      Inl e \<Rightarrow> Inl (Plant_Rejected e)
                    | Inr session \<Rightarrow>
                        (case validate_targets engine session of Inl e \<Rightarrow> Inl (Target_Rejected e) | Inr _ \<Rightarrow> Inr session))
             })"

definition unknown_model :: "vuln_db \<Rightarrow> device_spec \<Rightarrow> bool" where
  "unknown_model vuln d =
     (case dv_model d of
        None \<Rightarrow> False
      | Some m \<Rightarrow>
          let identity_only = dv_protocol d \<noteq> None \<or> dv_vendor d \<noteq> None \<or> dv_firmware d \<noteq> None
          in \<not> identity_only \<and> by_model vuln m = None)"

definition preflight :: "'n net_ops \<Rightarrow> vuln_db option \<Rightarrow> oui_db \<Rightarrow> pack \<Rightarrow> config \<Rightarrow> (preflight_error + unit) exec" where
  "preflight N embedded oui pk cfg =
     (case cf_target cfg of
        None \<Rightarrow> ret (Inr ())
      | Some t \<Rightarrow>
          if (case pk_profiles pk of None \<Rightarrow> False | Some text \<Rightarrow> trim text \<noteq> [] \<and> \<not> pk_toml pk text)
          then ret (Inl Malformed_Profiles)
          else
            let vuln = vuln_load_overlay embedded (Option.bind (pk_profiles pk) (pk_profiles_of pk))
            in case pk_plant pk of
                 None \<Rightarrow> ret (Inl (Plant_Rejected No_Plant))
               | Some spec \<Rightarrow>
                   (case find (unknown_model vuln) (pl_devices spec) of
                      Some d \<Rightarrow> ret (Inl (Unknown_Model (or_default [] (dv_model d))))
                    | None \<Rightarrow> do {
                        r \<leftarrow> build_validated_plant N embedded pk (dn_domains (cf_dns cfg)) (ts_cfg t) oui
                          (or_default 0 (se_seed (cf_session cfg))) 0;
                        ret (case r of Inl e \<Rightarrow> Inl e | Inr _ \<Rightarrow> Inr ())
                      }))"

section \<open>Code: the datapath of a host\<close>

definition EX_CONFIG :: int where "EX_CONFIG = 78"

datatype datapath_kind = Self_Contained | Hypervisor_Provided | Unprovisioned

definition datapath_kind_of :: "string \<Rightarrow> string \<Rightarrow> (string \<Rightarrow> bool) \<Rightarrow> datapath_kind" where
  "datapath_kind_of replay sensor ex =
     (if \<not> ex replay then Unprovisioned else if \<not> ex sensor then Hypervisor_Provided else Self_Contained)"

definition missing_datapath_ifaces :: "string \<Rightarrow> string \<Rightarrow> (string \<Rightarrow> bool) \<Rightarrow> (string \<times> string) list" where
  "missing_datapath_ifaces replay sensor ex =
     (if \<not> ex replay then [(''replay port (iface)'', replay)] else []) @
     (if \<not> ex sensor then [(''sensor port (net.sensor_port)'', sensor)] else [])"

text \<open>\<open>mc_sysfs\<close>: whether \<open>/sys/class/net\<close> is a directory.\<close>

datatype exit_status = Exited int | Signaled

record machine =
  mc_sysfs :: bool
  mc_exists :: "string \<Rightarrow> bool"
  mc_script :: "string \<Rightarrow> bool"
  mc_run :: "string list \<Rightarrow> exit_status option"

text \<open>The error is the list of missing ports its message prints.\<close>

definition preflight_datapath :: "machine \<Rightarrow> config \<Rightarrow> (string \<times> string) list + unit" where
  "preflight_datapath mc cfg =
     (if \<not> mc_sysfs mc then Inr ()
      else case datapath_kind_of (cf_iface cfg) (ne_sensor_port (cf_net cfg)) (mc_exists mc) of
          Unprovisioned \<Rightarrow> Inl (missing_datapath_ifaces (cf_iface cfg) (ne_sensor_port (cf_net cfg)) (mc_exists mc))
        | _ \<Rightarrow> Inr ())"

section \<open>Code: the commands\<close>

text \<open>A command gives its exit code and the command line it ran, if it came to one.\<close>

type_synonym outcome = "int \<times> string list option"

definition run_systemctl :: "machine \<Rightarrow> string list \<Rightarrow> outcome" where
  "run_systemctl mc args =
     (case mc_run mc (''systemctl'' # args) of
        Some (Exited c) \<Rightarrow> c
      | Some Signaled \<Rightarrow> 1
      | None \<Rightarrow> 1, Some (''systemctl'' # args))"

definition unit_name :: "string option \<Rightarrow> string" where
  "unit_name scenario = (case scenario of Some name \<Rightarrow> ''ot-turbolaser@'' @ name | None \<Rightarrow> ''ot-turbolaser'')"

text \<open>\<open>ledger\<close> is the answer of \<open>Session::load\<close>.\<close>

definition up ::
    "'n net_ops \<Rightarrow> (path \<Rightarrow> string) \<Rightarrow> ('k, 's) config_io \<Rightarrow> machine \<Rightarrow> vuln_db option \<Rightarrow> oui_db \<Rightarrow> pack
      \<Rightarrow> ledger_error + ledger option \<Rightarrow> path \<Rightarrow> string option \<Rightarrow> outcome exec" where
  "up N show_path io mc embedded oui pk ledger base scenario =
     (case scenario of
        Some name \<Rightarrow>
          (case load_with_scenario N show_path io base (Some name) of
             Inl _ \<Rightarrow> ret (EX_CONFIG, None)
           | Inr cfg \<Rightarrow> do {
               r \<leftarrow> preflight N embedded oui pk cfg;
               ret (case r of
                      Inl _ \<Rightarrow> (EX_CONFIG, None)
                    | Inr _ \<Rightarrow>
                        (case preflight_datapath mc cfg of
                           Inl _ \<Rightarrow> (EX_CONFIG, None)
                         | Inr _ \<Rightarrow> run_systemctl mc [''enable'', ''--now'', unit_name (Some name)]))
             })
      | None \<Rightarrow>
          ret (case load_config N show_path io base of
                 Inl _ \<Rightarrow> (EX_CONFIG, None)
               | Inr cfg \<Rightarrow>
                   if (case ledger of Inr (Some s) \<Rightarrow> \<not> guard_ledger_scenario (lg_scenario s) None | _ \<Rightarrow> False)
                   then (EX_CONFIG, None)
                   else (case preflight_datapath mc cfg of
                           Inl _ \<Rightarrow> (EX_CONFIG, None)
                         | Inr _ \<Rightarrow> run_systemctl mc [''enable'', ''--now'', unit_name None])))"

definition down :: "machine \<Rightarrow> string option \<Rightarrow> outcome" where
  "down mc scenario = run_systemctl mc [''disable'', ''--now'', unit_name scenario]"

text \<open>The exit of a script; exit 4 of the setup script is a configuration error.\<close>

definition script_exit :: "bool \<Rightarrow> exit_status option \<Rightarrow> int" where
  "script_exit is_setup r =
     (case r of
        Some (Exited c) \<Rightarrow> if c = 0 then 0 else if is_setup \<and> c = 4 then EX_CONFIG else c
      | Some Signaled \<Rightarrow> 1
      | None \<Rightarrow> 1)"

definition run_net_script ::
    "'n net_ops \<Rightarrow> (path \<Rightarrow> string) \<Rightarrow> ('k, 's) config_io \<Rightarrow> machine \<Rightarrow> bool \<Rightarrow> path \<Rightarrow> string option \<Rightarrow> outcome" where
  "run_net_script N show_path io mc is_setup base scenario =
     (case load_with_scenario N show_path io base scenario of
        Inl _ \<Rightarrow> (EX_CONFIG, None)
      | Inr cfg \<Rightarrow>
          let name = (if is_setup then ''net-setup.sh'' else ''net-teardown.sh'');
              kind = (if mc_sysfs mc then datapath_kind_of (cf_iface cfg) (ne_sensor_port (cf_net cfg)) (mc_exists mc) else Self_Contained)
          in if kind = Hypervisor_Provided then (0, None)
             else if kind = Unprovisioned then (if is_setup then (EX_CONFIG, None) else (0, None))
             else if \<not> mc_script mc name then (EX_CONFIG, None)
             else
               let args = [name, ''--mode'', mirror_as_str (ne_mirror (cf_net cfg)), ''--bridge'', ne_bridge (cf_net cfg),
                     ''--replay-port'', cf_iface cfg, ''--sensor-port'', ne_sensor_port (cf_net cfg)]
               in (script_exit is_setup (mc_run mc (''bash'' # args)), Some (''bash'' # args)))"

definition net_provision ::
    "'n net_ops \<Rightarrow> (path \<Rightarrow> string) \<Rightarrow> ('k, 's) config_io \<Rightarrow> machine \<Rightarrow> path \<Rightarrow> string option \<Rightarrow> outcome" where
  "net_provision N show_path io mc base scenario =
     (case load_with_scenario N show_path io base scenario of
        Inl _ \<Rightarrow> (EX_CONFIG, None)
      | Inr cfg \<Rightarrow>
          if \<not> mc_script mc ''net-provision.sh'' then (2, None)
          else
            let args = [''net-provision.sh'', ''--replay-port'', cf_iface cfg, ''--sensor-port'', ne_sensor_port (cf_net cfg)]
            in (script_exit False (mc_run mc (''bash'' # args)), Some (''bash'' # args)))"

text \<open>\<open>pewpew\<close>: the exit code for the state in the heartbeat file; the file may be missing, unreadable or without a state.\<close>

definition pewpew_exit :: "string \<Rightarrow> int" where
  "pewpew_exit state =
     (if state \<in> {''replaying'', ''gap'', ''starting''} then 0
      else if state = ''idle_no_pcaps'' then 3
      else if state \<in> {''skipped_remap_failed'', ''skipped_public_source'', ''stopping''} then 0
      else 1)"

definition pewpew :: "string option \<Rightarrow> (string \<Rightarrow> string option option) \<Rightarrow> int" where
  "pewpew status json =
     (case Option.bind status json of None \<Rightarrow> 2 | Some state \<Rightarrow> pewpew_exit (or_default ''unknown'' state))"

text \<open>The state the run loop writes for an iteration, before its gap.\<close>

definition state_name :: "run_state \<Rightarrow> string" where
  "state_name s =
     (case s of
        Idle_No_Pcaps \<Rightarrow> ''idle_no_pcaps''
      | Skipped_Remap_Failed _ \<Rightarrow> ''skipped_remap_failed''
      | Skipped_Public_Source \<Rightarrow> ''skipped_public_source''
      | Replaying \<Rightarrow> ''replaying'')"

section \<open>A pack that passes starts\<close>

text \<open>Whether the devices of a specification can be pinned does not depend on the seed, the profiles or the vendors.\<close>

definition same_slots :: "ledger \<Rightarrow> ledger \<Rightarrow> bool" where
  "same_slots s s' \<longleftrightarrow> lg_subnets s = lg_subnets s' \<and> map dr_ip (lg_devices s) = map dr_ip (lg_devices s') \<and>
     lg_capture_hosts s = lg_capture_hosts s'"

lemma same_slots_used: "same_slots s s' \<Longrightarrow> used_ips s = used_ips s'"
  by (simp add: same_slots_def used_ips_def)

lemma same_slots_add:
  assumes "same_slots s s'" and "add_device r s = (t, True)" and "dr_ip r = dr_ip r'"
  obtains t' where "add_device r' s' = (t', True)" "same_slots t t'"
proof -
  have room: "\<not> MAX_DEVICES \<le> length (lg_devices s)" "t = s\<lparr>lg_devices := lg_devices s @ [r]\<rparr>"
    using assms(2) by (auto simp: add_device_def split: if_splits)
  have n: "length (lg_devices s) = length (lg_devices s')"
    using assms(1) unfolding same_slots_def by (metis length_map)
  show thesis
    by (rule that [of "s'\<lparr>lg_devices := lg_devices s' @ [r']\<rparr>"])
      (use assms(1,3) room n in \<open>simp_all add: add_device_def same_slots_def\<close>)
qed

lemma pin_devices_same:
  "pin_devices N vuln oui seed ds (s, names) = Inr out \<Longrightarrow> same_slots s s' \<Longrightarrow>
     \<exists>out'. pin_devices N vuln' oui' seed' ds (s', names') = Inr out'"
proof (induction ds arbitrary: s s' names names')
  case (Cons d ds)
  have sub: "has_subnet s c = has_subnet s' c" for c using Cons.prems(2) by (simp add: same_slots_def has_subnet_def)
  have ip: "pin_ip N d s = pin_ip N d s'" unfolding pin_ip_def same_slots_used [OF Cons.prems(2)] ..
  obtain a where a: "pin_ip N d s = Inr a" "has_subnet s (dv_zone d)" "a \<notin> set (used_ips s)"
    using Cons.prems(1) by (auto simp: Let_def split: if_splits sum.splits)
  obtain t where t: "add_device (pinned_record vuln oui seed d a) s = (t, True)"
    "\<exists>names2. pin_devices N vuln oui seed ds (t, names2) = Inr out"
    using Cons.prems(1) a by (auto simp: Let_def split: if_splits prod.splits)
  have r: "dr_ip (pinned_record vuln oui seed d a) = dr_ip (pinned_record vuln' oui' seed' d a)"
    by (simp add: pinned_record_def Let_def split: prod.split)
  obtain t' where t': "add_device (pinned_record vuln' oui' seed' d a) s' = (t', True)" "same_slots t t'"
    by (rule same_slots_add [OF Cons.prems(2) t(1) r])
  have "a \<notin> set (used_ips s')" using a(3) by (simp add: same_slots_used [OF Cons.prems(2)])
  moreover obtain out' where "pin_devices N vuln' oui' seed' ds (t', names' @ (case dv_hostname d of Some h \<Rightarrow> [(show_ipv4 a, h)] | None \<Rightarrow> [])) = Inr out'"
    using Cons.IH t(2) t'(2) by blast
  ultimately show ?case using a(1,2) t'(1) by (auto simp: Let_def sub [symmetric] ip [symmetric])
qed simp

lemma pin_zones_seed: "pin_zones N zs s = Inr t \<Longrightarrow> lg_subnets s = lg_subnets s' \<Longrightarrow> \<exists>t'. pin_zones N zs s' = Inr t'"
proof (induction zs arbitrary: s s')
  case (Cons z zs)
  obtain u where u: "add_subnet (zone_record z) s = (u, True)" "pin_zones N zs u = Inr t" "no_parse N (zo_cidr z) \<noteq> None"
    using Cons.prems(1) by (auto simp: Let_def split: if_splits prod.splits)
  obtain v where v: "add_subnet (zone_record z) s' = (v, True)" "lg_subnets u = lg_subnets v"
    using u(1) Cons.prems(2) by (fastforce simp: add_subnet_def has_subnet_def split: if_splits)
  from Cons.IH [OF u(2) v(2)] show ?case using v(1) u(3) by auto
qed simp

lemma build_any_seed:
  assumes "build_sealed_session N vuln oui spec seed now name domains = ret (Inr s)"
  shows "\<exists>s'. build_sealed_session N vuln' oui' spec seed' now' name' domains' = ret (Inr s') \<and> lg_sealed s'"
proof -
  obtain s1 where z: "pin_zones N (pl_zones spec) (ledger_new seed now) = Inr s1"
    using assms by (auto simp: build_sealed_session_def split: sum.splits)
  obtain s2 where d: "pin_devices N vuln oui seed (pl_devices spec) (s1, []) = Inr s2"
    using assms z by (auto simp: build_sealed_session_def split: sum.splits)
  have "lg_subnets (ledger_new seed now) = lg_subnets (ledger_new seed' now')" by (simp add: ledger_new_def)
  then obtain s1' where z': "pin_zones N (pl_zones spec) (ledger_new seed' now') = Inr s1'"
    using pin_zones_seed [OF z] by blast
  have "same_slots s1 s1'"
    using pin_zones_ok [OF z ledger_new_ok] pin_zones_ok [OF z' ledger_new_ok]
    by (auto simp: same_slots_def ledger_new_def)
  from pin_devices_same [OF d this] obtain s2' where d': "pin_devices N vuln' oui' seed' (pl_devices spec) (s1', []) = Inr s2'" by blast
  obtain r where r: "build_sealed_session N vuln' oui' spec seed' now' name' domains' = ret r"
    "\<And>s. r = Inr s \<Longrightarrow> sealed_from N vuln' oui' spec seed' name' s"
    by (rule build_ok, rule that)
  have "\<exists>s'. r = Inr s'" using r(1) z' d' by (auto simp: build_sealed_session_def Let_def split: prod.splits bind_splits if_splits)
  with r show ?thesis by (auto simp: sealed_from_def)
qed

lemma scenario_load_any_seed: "scenario_load t parsed seed = Inr e \<Longrightarrow> \<exists>e'. scenario_load t parsed seed' = Inr e'"
  by (auto simp: scenario_load_def split: sum.splits option.splits)

end
