(* ===== verification/Verify.thy ===== *)
theory Verify
  imports Arp_Profile Sensor_Csv Fire
begin

text \<open>
  The command \<open>turbolaser verify\<close> of \<open>src/validate/mod.rs\<close>: its exit code over the configuration, the session file, the
  capture and the export it reads.  A file given but not read is \<open>Some None\<close>.
\<close>

section \<open>Code\<close>

text \<open>\<open>named\<close> is the capture given on the command line, \<open>burst\<close> the one the daemon left.\<close>

definition verify_source :: "'h capture option option \<Rightarrow> 'h capture option option \<Rightarrow> 'h capture option option" where
  "verify_source named burst = (case named of Some p \<Rightarrow> Some p | None \<Rightarrow> burst)"

definition pcap_failed :: "'n net_ops \<Rightarrow> ledger \<Rightarrow> 'h capture option option \<Rightarrow> bool" where
  "pcap_failed N s pcap =
     (case pcap of None \<Rightarrow> False | Some None \<Rightarrow> True | Some (Some cap) \<Rightarrow> verify_pcap N s cap \<noteq> [])"

definition csv_failed :: "ledger \<Rightarrow> string option option \<Rightarrow> bool" where
  "csv_failed s csv =
     (case csv of
        None \<Rightarrow> False
      | Some None \<Rightarrow> True
      | Some (Some text) \<Rightarrow> (case score_export text s of Inl _ \<Rightarrow> True | Inr _ \<Rightarrow> False))"

definition cmd_verify ::
    "'n net_ops \<Rightarrow> cfg_load_error + config \<Rightarrow> ledger_error + ledger option \<Rightarrow> 'h capture option option \<Rightarrow> 'h capture option option
      \<Rightarrow> string option option \<Rightarrow> int" where
  "cmd_verify N cfg session named burst csv =
     (case cfg of
        Inl _ \<Rightarrow> EX_CONFIG
      | Inr _ \<Rightarrow>
          (case session of
             Inl _ \<Rightarrow> EX_CONFIG
           | Inr None \<Rightarrow> 2
           | Inr (Some s) \<Rightarrow>
               let pcap = verify_source named burst
               in if pcap = None \<and> csv = None then 2
                  else if pcap_failed N s pcap \<or> csv_failed s csv then 1 else 0))"

section \<open>When it passes\<close>

lemma verify_zero:
  "cmd_verify N (Inr c) (Inr (Some s)) named burst csv = 0 \<longleftrightarrow>
     (verify_source named burst \<noteq> None \<or> csv \<noteq> None) \<and> \<not> pcap_failed N s (verify_source named burst) \<and> \<not> csv_failed s csv"
  by (auto simp: cmd_verify_def Let_def)

end
