(* ===== verification/Verdicts.thy ===== *)
theory Verdicts
  imports Verify Config_Sound Run_Samples
begin

text \<open>
  The checks around a deployment: what \<open>verify\<close> and the score of a sensor's export say of the bursts the simulator emits,
  what the checks of a configuration and of a scenario pack guarantee the daemon, and what \<open>net-show\<close> certifies.
\<close>

section \<open>Samples\<close>

text \<open>A configuration that passes, without and with a scenario, and the files it comes from.\<close>

definition sample_gap_cfg :: gap_cfg where
  "sample_gap_cfg = \<lparr>gp_dist = Trunc_Normal, gp_mean_secs = Some (Finite 8), gp_min_secs = None, gp_max_secs = None,
     gp_stddev_secs = Some (Finite 3), gp_lower_secs = Some (Finite 1), gp_upper_secs = Some (Finite 30)\<rparr>"

definition sample_config :: config where
  "sample_config = \<lparr>cf_iface = ''replay0'', cf_mode = Red_Laser, cf_seed = None,
     cf_paths = \<lparr>pa_pool = path_of ''/pool'', pa_variants = path_of ''/variants'', pa_shm_dir = path_of ''/dev/shm/otl'',
       pa_status_file = path_of ''/run/otl''\<rparr>,
     cf_l3 = \<lparr>l3_remap = True, l3_remap_mac = True, l3_subnets = [], l3_zone_affinity = ZA_Both, l3_max_remap_bytes = 1000000,
       l3_on_oversize = Remap_To_Disk, l3_guard_public_sources = True, l3_max_frame_bytes = 1514, l3_replay_capture_arp = True\<rparr>,
     cf_rate = \<lparr>rt_model = Mbps, rt_multiplier = None, rt_pps = None, rt_pps_multi = None, rt_mbps = None,
       rt_mbps_min = Some (Finite 2), rt_mbps_max = Some (Finite 8)\<rparr>,
     cf_gap = sample_gap_cfg, cf_weights = \<lparr>we_default = Finite 1, we_globs = [], we_files = []\<rparr>,
     cf_watchdog = \<lparr>wd_poll_secs = 5, wd_flatline_secs = 30\<rparr>,
     cf_net = \<lparr>ne_mirror = Tc, ne_bridge = ''br0'', ne_sensor_port = ''sensor0''\<rparr>, cf_no_pcaps_retry_secs = 30,
     cf_zones = \<lparr>zc_enabled = True, zc_max_subnets = None, zc_default_prefix = 24\<rparr>,
     cf_synthesis = \<lparr>sy_enabled = True, sy_switch_beacons = True, sy_device_identity = True, sy_identity_every_n_runs = 1,
       sy_announce_interval_secs = 25, sy_cycle_every_n_runs = 0, sy_max_devices = None, sy_target_devices = 40, sy_max_assets = None\<rparr>,
     cf_dns = \<lparr>dn_enabled = True, dn_domains = [''plant.example'']\<rparr>,
     cf_north_south = \<lparr>ns_enabled = True, ns_max_flows_per_pair = 2, ns_cadence_runs = 4\<rparr>,
     cf_threats = \<lparr>th_enabled = True, th_min_interval_secs = 0, th_max_interval_secs = 0, th_external_cidrs = [''203.0.113.0/24'']\<rparr>,
     cf_session = \<lparr>se_path = path_of ''/var/otl'', se_seed = None\<rparr>,
     cf_oui_db = \<lparr>od_path = path_of ''/oui'', od_vuln_path = path_of ''/vuln''\<rparr>, cf_target = None\<rparr>"

definition sample_section :: target_section where
  "sample_section = \<lparr>ts_cfg = sample_target, ts_profiles = path_of ''profiles.toml'', ts_playbook = path_of ''playbook.yaml'',
     ts_plant = path_of ''plant.yaml'', ts_pack_dir = path_of []\<rparr>"

definition sample_config_io :: "(string, unit) config_io" where
  "sample_config_io = \<lparr>io_read = (\<lambda>_. Some []), io_from_str = (\<lambda>_. Some sample_config), io_parse = (\<lambda>_. Some (Mapping [])),
     io_config = (\<lambda>_. Some (sample_config\<lparr>cf_target := Some sample_section\<rparr>)), io_canonical = (\<lambda>_. None)\<rparr>"

lemma sample_cidr: "no_parse text_net ''203.0.113.0/24'' = Some (0xcb007100, 24)"
proof -
  have "split_on (CHR ''/'') ''203.0.113.0/24'' = [''203.0.113.0'', ''24'']" "ipv4_from_str ''203.0.113.0'' = Some 0xcb007100" by code_simp+
  then show ?thesis by (simp add: text_net_def sample_texts(5) del: split_on.simps)
qed

lemma sample_range_ok: "check_external_cidr text_net ''203.0.113.0/24'' = Inr ()"
proof -
  have "no_network text_net (0xcb007100, 24) = 0xcb007100" by (simp add: text_net_def pair_net_def cap32_def mask24)
  then show ?thesis
    by (simp add: check_external_cidr_def sample_cidr Let_def octet0_def octet1_def is_private_def is_loopback_def is_link_local_def)
qed

lemma sample_gap_ok: "gap_validate sample_gap_cfg = Inr ()"
  by (simp add: gap_validate_def sample_gap_cfg_def check_then_def require_positive_def f_le_def)

lemma sample_absolute: "pt_absolute (path_of (CHR ''/'' # s))" by (simp add: path_of_def Let_def)

lemma sample_domain: "valid_domain ''plant.example''" by code_simp

lemma sample_target_free: "cf_target sample_config = None" "cf_mode sample_config = Red_Laser" "l3_remap (cf_l3 sample_config)"
  "cf_rate sample_config = \<lparr>rt_model = Mbps, rt_multiplier = None, rt_pps = None, rt_pps_multi = None, rt_mbps = None,
       rt_mbps_min = Some (Finite 2), rt_mbps_max = Some (Finite 8)\<rparr>"
  "cf_gap sample_config = sample_gap_cfg" "cf_weights sample_config = \<lparr>we_default = Finite 1, we_globs = [], we_files = []\<rparr>"
  "th_external_cidrs (cf_threats sample_config) = [''203.0.113.0/24'']"
  "cf_dns sample_config = \<lparr>dn_enabled = True, dn_domains = [''plant.example'']\<rparr>"
  by (simp_all add: sample_config_def)

lemma sample_paths_absolute:
  "pt_absolute (pa_pool (cf_paths sample_config))" "pt_absolute (pa_variants (cf_paths sample_config))"
  "pt_absolute (pa_shm_dir (cf_paths sample_config))" "pt_absolute (pa_status_file (cf_paths sample_config))"
  "pt_absolute (se_path (cf_session sample_config))" "pt_absolute (od_path (cf_oui_db sample_config))"
  "pt_absolute (od_vuln_path (cf_oui_db sample_config))"
  by (simp_all add: sample_config_def sample_absolute)

lemma sample_numbers:
  "trim (cf_iface sample_config) \<noteq> []" "zc_max_subnets (cf_zones sample_config) \<noteq> Some 0"
  "8 \<le> zc_default_prefix (cf_zones sample_config) \<and> zc_default_prefix (cf_zones sample_config) \<le> 30"
  "sy_max_devices (cf_synthesis sample_config) \<noteq> Some 0" "sy_identity_every_n_runs (cf_synthesis sample_config) \<noteq> 0"
  "sy_target_devices (cf_synthesis sample_config) \<noteq> 0" "sy_max_assets (cf_synthesis sample_config) \<noteq> Some 0"
  "ns_cadence_runs (cf_north_south sample_config) \<noteq> 0" "ns_max_flows_per_pair (cf_north_south sample_config) \<noteq> 0"
  "wd_poll_secs (cf_watchdog sample_config) \<noteq> 0" "wd_flatline_secs (cf_watchdog sample_config) \<noteq> 0"
  "cf_no_pcaps_retry_secs sample_config \<noteq> 0" "sy_announce_interval_secs (cf_synthesis sample_config) \<noteq> 0"
  "th_min_interval_secs (cf_threats sample_config) \<le> th_max_interval_secs (cf_threats sample_config)"
  by (simp_all add: sample_config_def trim_def is_space_def)

lemma sample_config_ok: "validate text_net sp sample_config = Inr ()"
  unfolding validate_def first_error_ok checks_def set_append ball_Un sample_target_free
  by (simp add: ensure_def sample_target_free(3) ensure_absolute_def sample_paths_absolute sample_numbers rate_validate_def check_then_def require_positive_def sample_gap_ok
      check_weights_def valid_weight_def is_finite_def check_dns_def sample_domain sample_range_ok)

lemma checks_target:
  "checks N sp (c\<lparr>cf_target := Some t\<rparr>) = checks N sp (c\<lparr>cf_target := None\<rparr>) @ check_target sp (cf_mode c) (l3_remap (cf_l3 c)) t"
  by (simp add: checks_def)

lemma sample_scenario_ok:
  "load_with_scenario text_net sp sample_config_io (path_of ''/etc/otl/config.yaml'') (Some ''sample'') =
     Inr (sample_config\<lparr>cf_target := Some (sample_section\<lparr>ts_pack_dir := pack_dir_of (path_of ''/etc/otl/config.yaml'') ''sample''\<rparr>)\<rparr>)"
proof -
  let ?t = "sample_section\<lparr>ts_pack_dir := pack_dir_of (path_of ''/etc/otl/config.yaml'') ''sample''\<rparr>"
  have p: "inside_pack (ts_plant sample_section)" "inside_pack (ts_playbook sample_section)" "inside_pack (ts_profiles sample_section)"
    unfolding sample_section_def target_section.simps target_section.update_convs by code_simp+
  have t: "trim (tg_name (ts_cfg sample_section)) \<noteq> []" "0 < tg_max_frames_per_burst (ts_cfg sample_section)"
    by (simp_all add: sample_section_def sample_target_def trim_def is_space_def)
  have plain: "sample_config\<lparr>cf_target := None\<rparr> = sample_config" using sample_target_free(1) by (cases sample_config) simp
  have "validate text_net sp (sample_config\<lparr>cf_target := Some ?t\<rparr>) = Inr ()"
    using sample_config_ok [of sp] unfolding validate_def first_error_ok checks_target plain set_append ball_Un
    by (simp add: check_target_def p t sample_target_free ensure_def)
  moreover have "bare_slug ''sample''" by code_simp
  ultimately show ?thesis by (simp add: load_with_scenario_def sample_config_io_def Let_def sample_section_def)
qed

section \<open>The burst and its oracle\<close>

text \<open>
  C24: the burst passes its own gate.  For a plan whose assets have different addresses, whose hosts on the wire have
  different MACs and whose recorded MACs are globally administered, the identity burst is built and written without a panic
  and \<open>turbolaser verify\<close> finds no violation in the written capture and exits with 0: every ARP frame is a padded, solicited pair, no host sweeps its
  zone, and every planned owner answers.
\<close>

theorem burst_passes:
  assumes "bc_device_identity cfg" and "distinct (map (nd_ip \<circ> snd) (ledger_assets s))"
    and "distinct (map nd_mac (burst_hosts N s (lg_seed s)))"
    and "\<forall>(cidr, x) \<in> set (ledger_assets s). nd_mac x ! 0 AND 2 = 0"
  shows "\<exists>fs cap n. build_assertions N cfg s vuln run nonce = ret fs \<and>
    drop_oversize_frames (to_capture header fs) standard_frame_bytes = ret (cap, n) \<and>
    verify_pcap N s cap = [] \<and> cmd_verify N (Inr c) (Inr (Some s)) None (Some (Some cap)) None = 0"
proof -
  let ?arps = "concat (map edge_frames (arp_edges N s (lg_seed s)))"
  obtain rest where b: "build_assertions N cfg s vuln run nonce = ret (?arps @ rest)" "\<forall>f \<in> set rest. silent f"
    by (rule burst_ok [OF assms(1)])
  obtain cap n where w: "drop_oversize_frames (to_capture header (?arps @ rest)) standard_frame_bytes = ret (cap, n)"
    "map pk_data (cap_packets cap) = filter (\<lambda>f. length f \<le> 1514) (?arps @ rest)"
    using written_frames [of header "?arps @ rest"] by blast
  have "filter (\<lambda>f. length f \<le> 1514) (concat (map edge_frames es)) = concat (map edge_frames es)"
    if "set es \<subseteq> set (arp_edges N s (lg_seed s))" for es
    using that
  proof (induction es)
    case (Cons e es)
    then have "e \<in> set (arp_edges N s (lg_seed s))" by simp
    then obtain q r where "edge_frames e = [q, r]" "length q = 60" "length r = 60" by (rule edge_measures)
    with Cons show ?case by simp
  qed simp
  then have "map pk_data (cap_packets cap) = ?arps @ filter (\<lambda>f. length f \<le> 1514) rest" using w(2) by simp
  moreover have "\<forall>f \<in> set (filter (\<lambda>f. length f \<le> 1514) rest). \<not> arp_packet f"
    using b(2) by (auto simp: silent_def arp_packet_def)
  note burst_organic [OF assms(2-4) this]
  ultimately have "verify_pcap N s cap = []" unfolding verify_pcap_def check_iff by simp
  moreover from this have "cmd_verify N (Inr c) (Inr (Some s)) None (Some (Some cap)) None = 0"
    by (simp add: verify_zero verify_source_def pcap_failed_def csv_failed_def)
  ultimately show ?thesis using b(1) w(1) by blast
qed

theorem burst_passes_witness:
  "\<exists>fs cap n. build_assertions plant_net sample_burst sample_plant [sample_profile] 8 3 = ret fs \<and>
    drop_oversize_frames (to_capture () fs) standard_frame_bytes = ret (cap, n) \<and>
    verify_pcap plant_net sample_plant cap = [] \<and>
    cmd_verify plant_net (Inr sample_config) (Inr (Some sample_plant)) None (Some (Some cap)) None = 0"
proof -
  let ?g = "(''10.20.10.0/24'', map snd (ledger_assets sample_plant))"
  have assets: "ledger_assets sample_plant = [(''10.20.10.0/24'', \<lparr>nd_ip = 0x0a140a0b, nd_mac = parse_mac ''00:0e:8c:11:22:33''\<rparr>),
     (''10.20.10.0/24'', \<lparr>nd_ip = 0x0a140a01, nd_mac = parse_mac ''00:09:0f:aa:bb:cc''\<rparr>)]"
    by (simp add: ledger_assets_def sample_plant_def sample_device_def sample_addresses List.map_filter_def ledger_new_def)
  have macs: "parse_mac ''00:0e:8c:11:22:33'' = [0, 0x0e, 0x8c, 0x11, 0x22, 0x33]" "parse_mac ''00:09:0f:aa:bb:cc'' = [0, 9, 0x0f, 0xaa, 0xbb, 0xcc]"
    by code_simp+
  have seed: "lg_seed sample_plant = 1337" by (simp add: sample_plant_def ledger_new_def)
  have mac: "stable_mac 1337 0x0a140afa \<notin> {[0, 0x0e, 0x8c, 0x11, 0x22, 0x33], [0, 9, 0x0f, 0xaa, 0xbb, 0xcc]}" by code_simp
  have "distinct (map nd_mac (burst_hosts plant_net sample_plant (lg_seed sample_plant)))"
    using mac by (simp add: burst_hosts_def assets btree_group_def zone_nodes_def plant_station seed macs)
  then show ?thesis
    by (intro burst_passes) (simp_all add: sample_burst_def assets macs)
qed

section \<open>The score of an export\<close>

lemma planned_assets: "set (planned_ips s) = (nd_ip \<circ> snd) ` set (ledger_assets s)"
  by (force simp: planned_ips_def ledger_assets_def List.map_filter_def image_iff)

text \<open>
  C26: the score of an export.  A file written with its fields quoted is read back record by record, whatever is in the
  fields; the score counts the records by what they hold, and a planned address as unioned exactly if a record with a MAC
  names it; the first fifty of the others are the stragglers.
\<close>

theorem export_scored:
  assumes "position ''addresses.ip'' header = Some i" and "position ''addresses.mac'' header = Some m"
    and "\<forall>row \<in> set rows. row \<noteq> [] \<and> row \<noteq> [[]]"
  shows "\<exists>r. score_export (csv_file (header # rows)) s = Inr r \<and> ur_total_records r = length rows \<and>
    ur_unioned r = length (filter (unioned_row i m) rows) \<and>
    ur_unioned r + ur_ip_only r + ur_mac_only r + ur_neither r = length rows \<and>
    ur_planned_unioned r = length (filter (\<lambda>ip. ip \<in> unioned_in i m rows) (planned_ips s)) \<and>
    ur_stragglers r = take 50 (filter (\<lambda>ip. ip \<notin> unioned_in i m rows) (planned_ips s))"
proof -
  have "header \<noteq> []" "header \<noteq> [[]]" using assms(1) by (auto simp: position_def)
  then have "parse_records (csv_file (header # rows)) = header # rows" using assms(3) by (intro parse_csv_file) auto
  from score_export_eq [OF this assms(1,2), of s] classes_total [of i m rows] show ?thesis by auto
qed

theorem export_scored_witness:
  "\<exists>r. score_export (csv_file [[''addresses.mac'', ''tags'', ''addresses.ip''], [''00:0e:8c:11:22:33'', ''PLC, OT'', ''10.20.10.11''], [[], ''x'', ''10.20.10.1'']])
      sample_plant = Inr r \<and> ur_total_records r = 2 \<and> ur_unioned r + ur_ip_only r + ur_mac_only r + ur_neither r = 2"
proof -
  let ?rows = "[[''00:0e:8c:11:22:33'', ''PLC, OT'', ''10.20.10.11''], [[], ''x'', ''10.20.10.1'']]"
  have "position ''addresses.ip'' [''addresses.mac'', ''tags'', ''addresses.ip''] = Some 2"
    "position ''addresses.mac'' [''addresses.mac'', ''tags'', ''addresses.ip''] = Some 0"
    by (simp_all add: position_def)
  moreover have "\<forall>row \<in> set ?rows. row \<noteq> [] \<and> row \<noteq> [[]]" by simp
  ultimately show ?thesis using export_scored [of _ 2 0 ?rows sample_plant] by fastforce
qed

text \<open>
  C25: the emulated plant reaches a full score.  Where every asset's zone has a station, a sensor that exports one record for
  every binding stated in an identity burst scores every planned address as unioned and leaves no straggler.
\<close>

theorem burst_scores_full:
  assumes "bc_device_identity cfg" and "\<forall>(cidr, x) \<in> set (ledger_assets s). station_addr N cidr \<noteq> 0"
  shows "\<exists>fs r. build_assertions N cfg s vuln run nonce = ret fs \<and>
    score_export (heard_export (remdups (List.map_filter is_at fs))) s = Inr r \<and>
    ur_planned r = length (planned_ips s) \<and> ur_planned_unioned r = ur_planned r \<and> ur_stragglers r = []"
proof -
  let ?arps = "concat (map edge_frames (arp_edges N s (lg_seed s)))"
  obtain rest where b: "build_assertions N cfg s vuln run nonce = ret (?arps @ rest)"
    by (rule burst_ok [OF assms(1)])
  let ?bs = "remdups (List.map_filter is_at (?arps @ rest))"
  have "\<forall>b \<in> set ?bs. fst b \<noteq> []"
    by (force simp: List.map_filter_def is_at_def arp_shape_def split: if_splits)
  moreover have "set (planned_ips s) \<subseteq> snd ` set ?bs"
  proof
    fix a assume "a \<in> set (planned_ips s)"
    then obtain cidr x where x: "(cidr, x) \<in> set (ledger_assets s)" "a = nd_ip x" unfolding planned_assets by auto
    then have "station_addr N cidr \<noteq> 0" using assms(2) by blast
    from arps_bind [OF x(1) this] obtain f where "f \<in> set ?arps" "is_at f = Some (nd_mac x, nd_ip x)" by blast
    then have "(nd_mac x, nd_ip x) \<in> set ?bs" by (force simp: List.map_filter_def)
    then show "a \<in> snd ` set ?bs" using x(2) by force
  qed
  ultimately obtain r where "score_export (heard_export ?bs) s = Inr r" "ur_planned r = length (planned_ips s)"
    "ur_planned_unioned r = ur_planned r" "ur_stragglers r = []" by (rule heard_scores)
  with b show ?thesis by blast
qed

theorem burst_scores_full_witness:
  "\<exists>fs r. build_assertions plant_net sample_burst sample_plant [sample_profile] 8 3 = ret fs \<and>
    score_export (heard_export (remdups (List.map_filter is_at fs))) sample_plant = Inr r \<and> ur_planned_unioned r = 2 \<and> ur_stragglers r = []"
proof -
  have a: "map snd (map (\<lambda>d. (dr_ip d, dr_subnet_cidr d)) (lg_devices sample_plant)) = replicate 2 ''10.20.10.0/24''"
    "lg_capture_hosts sample_plant = []"
    by (simp_all add: sample_plant_def sample_device_def ledger_new_def numeral_2_eq_2)
  have "bc_device_identity sample_burst" by (simp add: sample_burst_def)
  moreover have "\<forall>(cidr, x) \<in> set (ledger_assets sample_plant). station_addr plant_net cidr \<noteq> 0"
    by (simp add: ledger_assets_def sample_plant_def sample_device_def sample_addresses List.map_filter_def ledger_new_def plant_station)
  moreover have "length (planned_ips sample_plant) = 2"
    by (simp add: planned_ips_def sample_plant_def sample_device_def sample_addresses List.map_filter_def ledger_new_def)
  ultimately show ?thesis using burst_scores_full [of sample_burst sample_plant plant_net "[sample_profile]" 8 3] by fastforce
qed

section \<open>Pauses\<close>

text \<open>
  C36: the gaps of the loop.  Let a validated section set both bounds, both numbers, the upper one at most 18446744073
  seconds, and let the normal draws be numbers.  Then sampling returns a gap within the bounds, the sleep over it returns, and
  with a shutdown requested it ends with the slice in which the request came.  (With a bound that is not a number the section
  validates as well, and sampling panics: \<open>sample_gap_panics\<close>.)
\<close>

theorem gap_pauses:
  assumes "gap_validate c = Inr ()" and "gap_bounds c = Some (lo, Finite h)" and "lo \<noteq> NaN" and "h \<le> 18446744073"
    and "\<And>m d r. fst (normal_draw m d r) \<noteq> NaN"
  shows "\<exists>v r' t. sample_gap exp_draw normal_draw c r = ret (v, r') \<and> f_le lo v \<and> f_le v (Finite h) \<and>
    interruptible_sleep (\<lambda>_. False) v = ret t \<and>
    (\<forall>down n. down n \<and> (\<forall>j<n. \<not> down j) \<longrightarrow> interruptible_sleep down v = ret (min t (n * SLICE)))"
proof -
  have hi: "Finite h \<noteq> NaN" by simp
  obtain v r' where v: "sample_gap exp_draw normal_draw c r = ret (v, r')" "f_le lo v" "f_le v (Finite h)"
    using sample_gap_bounds [where normal_draw = normal_draw and exp_draw = exp_draw and r = r, OF assms(1-3) hi assms(5)] by blast
  obtain l where l: "lo = Finite l" "0 \<le> l"
    using validated_bounds [OF assms(1-3) hi] by (cases lo) (auto simp: f_le_def)
  with v(2,3) obtain q where q: "v = Finite q" "0 \<le> q" "q \<le> h" by (cases v) (auto simp: f_le_def)
  obtain n where n: "from_secs_f64 v = ret n" using from_secs_ok [of q] q assms(4) by auto
  show ?thesis
  proof (cases "q = 0")
    case True
    then have "interruptible_sleep down v = ret 0" for down by (simp add: interruptible_sleep_def q f_le_def)
    with v show ?thesis by (intro exI [of _ v] exI [of _ r'] exI [of _ 0]) simp
  next
    case False
    then have s: "interruptible_sleep down v = ret (sleep_loop down 0 n 0)" for down
      using q n by (simp add: interruptible_sleep_def f_le_def)
    have "interruptible_sleep down v = ret (min n (k * SLICE))" if "down k" "\<forall>j<k. \<not> down j" for down k
      using sleep_loop_until [of 0 k down 0 n] that by (simp add: s)
    moreover have "interruptible_sleep (\<lambda>_. False) v = ret n" using sleep_loop_full [of "\<lambda>_. False" 0 n 0] by (simp add: s)
    ultimately show ?thesis using v by (intro exI [of _ v] exI [of _ r'] exI [of _ n]) blast
  qed
qed

theorem gap_pauses_witness:
  "\<exists>v r' t. sample_gap (\<lambda>_ r. (Finite 1, r)) (\<lambda>m d r. (Finite 40, r)) sample_gap_cfg () = ret (v, r') \<and> f_le v (Finite 30) \<and>
    interruptible_sleep (\<lambda>_. False) v = ret t \<and> interruptible_sleep (\<lambda>j. j = 3) v = ret (min t (3 * SLICE))"
proof -
  have g: "gap_validate sample_gap_cfg = Inr ()" "gap_bounds sample_gap_cfg = Some (Finite 1, Finite 30)"
    by (simp_all add: gap_validate_def gap_bounds_def sample_gap_cfg_def check_then_def require_positive_def f_le_def)
  have "\<exists>v r' t. sample_gap (\<lambda>_ r. (Finite 1, r)) (\<lambda>m d r. (Finite 40, r)) sample_gap_cfg () = ret (v, r') \<and>
    f_le (Finite 1) v \<and> f_le v (Finite 30) \<and> interruptible_sleep (\<lambda>_. False) v = ret t \<and>
    (\<forall>down n. down n \<and> (\<forall>j<n. \<not> down j) \<longrightarrow> interruptible_sleep down v = ret (min t (n * SLICE)))"
    by (rule gap_pauses [OF g]) simp_all
  then obtain v r' t where v: "sample_gap (\<lambda>_ r. (Finite 1, r)) (\<lambda>m d r. (Finite 40, r)) sample_gap_cfg () = ret (v, r')"
    "f_le v (Finite 30)" "interruptible_sleep (\<lambda>_. False) v = ret t"
    "\<And>down n. down n \<and> (\<forall>j<n. \<not> down j) \<Longrightarrow> interruptible_sleep down v = ret (min t (n * SLICE))" by blast
  have "interruptible_sleep (\<lambda>j. j = 3) v = ret (min t (3 * SLICE))" by (rule v(4)) simp
  with v show ?thesis by blast
qed

section \<open>The configuration\<close>

text \<open>
  C37: what a merged file says.  A scenario's scalar or list at a key path is what the merged file holds there, whatever the
  base says; where the scenario says nothing of a key path the base keeps its value.
\<close>

theorem merge_looks_up:
  assumes "yaml_ok over"
  shows "(\<forall>v. yaml_get over ks = Some v \<and> is_leaf v \<longrightarrow> yaml_get (deep_merge base over) ks = Some v) \<and>
    (says_nothing over ks \<longrightarrow> yaml_get (deep_merge base over) ks = yaml_get base ks)"
  using merge_leaf [OF assms] merge_keeps [OF assms] by blast

theorem merge_looks_up_witness:
  "yaml_get (deep_merge (Mapping [(''net'', Mapping [(''bridge'', Scalar ''a''), (''mirror'', Scalar ''tc'')])])
     (Mapping [(''net'', Mapping [(''bridge'', Scalar ''b'')])])) [''net'', ''mirror''] = Some (Scalar ''tc'')"
proof -
  have "yaml_ok (Mapping [(''net'', Mapping [(''bridge'', Scalar ''b'')])])"
    by (auto simp: yaml_ok_mapping intro: yaml_ok.intros)
  from merge_looks_up [OF this, of "[''net'', ''mirror'']" "Mapping [(''net'', Mapping [(''bridge'', Scalar ''a''), (''mirror'', Scalar ''tc'')])]"]
  show ?thesis by simp
qed

text \<open>
  C4: a scenario that loads.  Its name is a plain name, it runs in red mode with the remap on, and its files lie below the
  pack's directory whatever the file says.  The rate gives the arguments of every run, a band a rate inside it, except that
  a band whose upper end is infinite loads as well; the gap can be sampled, unless it is a truncated normal one with a bound
  that is not a number; every capture has a finite weight that is not negative; a zone prefix is from 8 to 30; the waits and
  the polls of the watchdog are not zero, and the bounds of the threat interval are in order.
\<close>

theorem loaded_scenario_sound:
  assumes "load_with_scenario N sp io base (Some name) = Inr c" and "draw_ok drawn"
  shows "loaded_scenario io base name c \<and>
    (case rate_band (cf_rate c) of
       None \<Rightarrow> \<exists>args. to_args_for_run mid drawn (cf_rate c) r = ret (args, r)
     | Some (lo, hi) \<Rightarrow> hi \<noteq> Pos_Inf \<longrightarrow>
         (\<exists>x r'. to_args_for_run mid drawn (cf_rate c) r = ret ([Arg_Mbps x], r') \<and> f_le lo x \<and> f_le x hi)) \<and>
    (sample_gap exp_draw normal_draw (cf_gap c) g = panic \<longleftrightarrow>
       gp_dist (cf_gap c) = Trunc_Normal \<and> (gp_lower_secs (cf_gap c) = Some NaN \<or> gp_upper_secs (cf_gap c) = Some NaN)) \<and>
    weight_ok (weight_for glob f p (cf_weights c)) \<and> 8 \<le> zc_default_prefix (cf_zones c) \<and> zc_default_prefix (cf_zones c) \<le> 30 \<and>
    (cf_no_pcaps_retry_secs c \<noteq> 0 \<and> wd_poll_secs (cf_watchdog c) \<noteq> 0 \<and> wd_flatline_secs (cf_watchdog c) \<noteq> 0) \<and>
    th_min_interval_secs (cf_threats c) \<le> th_max_interval_secs (cf_threats c)"
proof -
  note v = load_scenario_ok [OF assms(1)]
  note n = validated_numbers [OF v(1)]
  show ?thesis
    by (intro conjI v(2) validated_run_args [OF validated_sections(1) [OF v(1)] assms(2)]
        sample_gap_panics [OF validated_sections(2) [OF v(1)]] validated_weights [OF v(1)] n)
qed

theorem loaded_scenario_sound_witness:
  "\<exists>c x r'. load_with_scenario text_net (\<lambda>_. []) sample_config_io (path_of ''/etc/otl/config.yaml'') (Some ''sample'') = Inr c \<and>
    loaded_scenario sample_config_io (path_of ''/etc/otl/config.yaml'') ''sample'' c \<and>
    to_args_for_run (\<lambda>a b. a) (\<lambda>r lo hi. ret (lo, r)) (cf_rate c) () = ret ([Arg_Mbps x], r') \<and> f_le (Finite 2) x \<and>
    sample_gap (\<lambda>m r. (m, r)) (\<lambda>m d r. (m, r)) (cf_gap c) () \<noteq> panic"
proof -
  let ?c = "sample_config\<lparr>cf_target := Some (sample_section\<lparr>ts_pack_dir := pack_dir_of (path_of ''/etc/otl/config.yaml'') ''sample''\<rparr>)\<rparr>"
  note l = sample_scenario_ok [of "\<lambda>_. []"]
  have d: "draw_ok (\<lambda>(r :: unit) lo hi. ret (lo, r))" by (simp add: draw_ok_def f_le_def) (auto simp: le_less)
  have b: "rate_band (cf_rate ?c) = Some (Finite 2, Finite 8)" by (simp add: rate_band_def sample_target_free)
  have g: "gp_lower_secs (cf_gap ?c) = Some (Finite 1)" "gp_upper_secs (cf_gap ?c) = Some (Finite 30)"
    by (simp_all add: sample_target_free sample_gap_cfg_def)
  note s = loaded_scenario_sound [OF l d, of "\<lambda>a b. a" "()" "\<lambda>m r. (m, r)" "\<lambda>m d r. (m, r)" "()" "\<lambda>_. None" "[]" "[]"]
  have "loaded_scenario sample_config_io (path_of ''/etc/otl/config.yaml'') ''sample'' ?c" using s by blast
  moreover have "case Some (Finite 2, Finite 8) of
       None \<Rightarrow> \<exists>args. to_args_for_run (\<lambda>a b. a) (\<lambda>r lo hi. ret (lo, r)) (cf_rate ?c) () = ret (args, ())
     | Some (lo, hi) \<Rightarrow> hi \<noteq> Pos_Inf \<longrightarrow>
         (\<exists>x r'. to_args_for_run (\<lambda>a b. a) (\<lambda>r lo hi. ret (lo, r)) (cf_rate ?c) () = ret ([Arg_Mbps x], r') \<and> f_le lo x \<and> f_le x hi)"
    using s unfolding b by blast
  moreover have "sample_gap (\<lambda>m r. (m, r)) (\<lambda>m d r. (m, r)) (cf_gap ?c) () \<noteq> panic"
    using s unfolding g by blast
  ultimately show ?thesis using l by auto
qed



section \<open>Bringing the unit up\<close>

lemma preflight_built:
  assumes "preflight N embedded oui pk c = ret (Inr ())" and "cf_target c = Some t"
  obtains spec s e where "pk_plant pk = Some spec"
    "build_sealed_session N (vuln_load_overlay embedded (Option.bind (pk_profiles pk) (pk_profiles_of pk))) oui spec
       (or_default 0 (se_seed (cf_session c))) 0 (tg_name (ts_cfg t)) (dn_domains (cf_dns c)) = ret (Inr s)"
    "scenario_load (ts_cfg t) (pk_playbook pk) (or_default 0 (se_seed (cf_session c))) = Inr e"
proof -
  let ?vuln = "vuln_load_overlay embedded (Option.bind (pk_profiles pk) (pk_profiles_of pk))"
  let ?seed = "or_default 0 (se_seed (cf_session c))"
  obtain spec where spec: "pk_plant pk = Some spec"
    using assms by (cases "pk_plant pk") (simp_all add: preflight_def Let_def split: if_splits)
  have "\<exists>s. build_validated_plant N embedded pk (dn_domains (cf_dns c)) (ts_cfg t) oui ?seed 0 = ret (Inr s)"
  proof (cases "build_validated_plant N embedded pk (dn_domains (cf_dns c)) (ts_cfg t) oui ?seed 0")
    case None
    then show ?thesis using assms spec by (auto simp: preflight_def Let_def split: if_splits option.splits)
  next
    case (Some r)
    then show ?thesis using assms spec by (cases r) (auto simp: preflight_def Let_def split: if_splits option.splits)
  qed
  then obtain s where b: "build_validated_plant N embedded pk (dn_domains (cf_dns c)) (ts_cfg t) oui ?seed 0 = ret (Inr s)" by blast
  obtain e where e: "scenario_load (ts_cfg t) (pk_playbook pk) ?seed = Inr e"
    using b by (auto simp: build_validated_plant_def Let_def split: if_splits sum.splits)
  obtain r where r: "build_sealed_session N ?vuln oui spec ?seed 0 (tg_name (ts_cfg t)) (dn_domains (cf_dns c)) = ret r"
    "(case r of Inl e \<Rightarrow> Inl (Plant_Rejected e) | Inr session \<Rightarrow>
       (case validate_targets e session of Inl e \<Rightarrow> Inl (Target_Rejected e) | Inr _ \<Rightarrow> Inr session)) = Inr s"
    using b e spec by (auto simp: build_validated_plant_def pin_from_pack_def Let_def split: if_splits bind_splits)
  then obtain s' where "r = Inr s'" by (cases r) auto
  with spec r(1) e show thesis by (intro that) simp_all
qed

lemma up_checked:
  assumes "up N sp io mc embedded oui pk ledger base (Some name) = ret (code, Some cmd)"
  obtains c where "load_with_scenario N sp io base (Some name) = Inr c" "preflight N embedded oui pk c = ret (Inr ())"
    "mc_sysfs mc \<Longrightarrow> mc_exists mc (cf_iface c)" "cmd = [''systemctl'', ''enable'', ''--now'', ''ot-turbolaser@'' @ name]"
proof -
  obtain c where c: "load_with_scenario N sp io base (Some name) = Inr c"
    using assms by (auto simp: up_def split: sum.splits)
  obtain r where r: "preflight N embedded oui pk c = ret r"
    using assms c by (auto simp: up_def split: bind_splits)
  then have "r = Inr ()" "preflight_datapath mc c = Inr ()" "cmd = [''systemctl'', ''enable'', ''--now'', ''ot-turbolaser@'' @ name]"
    using assms c by (auto simp: up_def run_systemctl_def unit_name_def split: sum.splits)
  with c r that show thesis
    by (auto simp: preflight_datapath_def datapath_kind_of_def split: if_splits datapath_kind.splits)
qed

text \<open>What a scenario's daemon makes of the answer of \<open>Session::load\<close>, given the plant its pack pins.\<close>

definition scenario_start :: "target_cfg \<Rightarrow> ledger \<Rightarrow> ledger_error + ledger option \<Rightarrow> 'e red_error + 'r sim \<Rightarrow> bool" where
  "scenario_start t plant loaded start =
     (case loaded of
        Inr (Some s) \<Rightarrow>
          if lg_scenario s = Some (tg_name t)
          then (\<exists>sim. start = Inr sim \<and> si_ledger sim = s \<and> si_sealed sim = lg_sealed s)
          else start = Inl (Scenario_Mismatch (lg_scenario s) (Some (tg_name t)))
      | _ \<Rightarrow> (\<exists>sim. start = Inr sim \<and> si_sealed sim \<and> lg_devices (si_ledger sim) = lg_devices plant))"

lemma red_starts:
  assumes "lg_sealed plant" and "scenario_load t parsed sd = Inr e"
  shows "scenario_start t plant loaded
    (red gen seed_from cfg vuln oui loaded seed now (Some (t, \<lambda>_. Inr plant :: unit + ledger, parsed)) save_ok)"
proof -
  have load: "\<exists>e. scenario_load t parsed seed = Inr e" for seed using scenario_load_any_seed [OF assms(2)] by blast
  show ?thesis
  proof (cases "case loaded of Inr (Some s) \<Rightarrow> Some s | _ \<Rightarrow> None")
    case None
    obtain e where "scenario_load t parsed (lg_seed plant) = Inr e" using load by blast
    then show ?thesis using None assms(1)
      by (auto simp: scenario_start_def red_def red_session_def Let_def split: prod.split sum.splits option.splits)
  next
    case (Some s)
    then have l: "loaded = Inr (Some s)" by (auto split: sum.splits option.splits)
    obtain e where "scenario_load t parsed (lg_seed s) = Inr e" using load by blast
    then show ?thesis
      by (simp add: l scenario_start_def red_def red_session_def guard_ledger_scenario_def Let_def split: prod.split)
  qed
qed

text \<open>
  C5: what \<open>fire\<close> brings up.  If \<open>turbolaser fire --scenario\<close> comes to run a command, the command enables and starts the unit
  of that scenario, its configuration loads, and the replay port exists wherever ports can be looked up.  The daemon the unit
  runs can then pin the pack's plant, whatever seed it draws, whatever vendors it reads and whatever the clock.  With no
  ledger, or one that cannot be read, it starts on that sealed plant with the playbook loaded.  With a ledger of this
  scenario it starts on the ledger.  With any other ledger it refuses to start, although \<open>fire\<close> has enabled the unit.
\<close>

theorem fire_starts:
  assumes "up N sp io mc embedded oui pk ledger base (Some name) = ret (code, Some cmd)"
  shows "\<exists>c t. load_with_scenario N sp io base (Some name) = Inr c \<and> cf_target c = Some t \<and>
    (\<not> mc_sysfs mc \<or> mc_exists mc (cf_iface c)) \<and> cmd = [''systemctl'', ''enable'', ''--now'', ''ot-turbolaser@'' @ name] \<and>
    (\<forall>vuln oui' seed now gen seed_from save_ok loaded. \<exists>plant.
       pin_from_pack N (pk_plant pk) (tg_name (ts_cfg t)) vuln oui' seed now (dn_domains (cf_dns c)) = ret (Inr plant) \<and>
       scenario_start (ts_cfg t) plant loaded
         (red gen seed_from (red_cfg_of c) vuln oui' loaded seed now
            (Some (ts_cfg t, \<lambda>_. Inr plant :: unit + ledger, pk_playbook pk)) save_ok))"
proof -
  obtain c where c: "load_with_scenario N sp io base (Some name) = Inr c" "preflight N embedded oui pk c = ret (Inr ())"
    "mc_sysfs mc \<Longrightarrow> mc_exists mc (cf_iface c)" "cmd = [''systemctl'', ''enable'', ''--now'', ''ot-turbolaser@'' @ name]"
    by (rule up_checked [OF assms], rule that)
  obtain t where t: "cf_target c = Some t" using load_scenario_ok(2) [OF c(1)] unfolding loaded_scenario_def by blast
  obtain spec s e where b: "pk_plant pk = Some spec"
    "build_sealed_session N (vuln_load_overlay embedded (Option.bind (pk_profiles pk) (pk_profiles_of pk))) oui spec
       (or_default 0 (se_seed (cf_session c))) 0 (tg_name (ts_cfg t)) (dn_domains (cf_dns c)) = ret (Inr s)"
    "scenario_load (ts_cfg t) (pk_playbook pk) (or_default 0 (se_seed (cf_session c))) = Inr e"
    by (rule preflight_built [OF c(2) t], rule that)
  have start: "\<exists>plant. pin_from_pack N (pk_plant pk) (tg_name (ts_cfg t)) vuln oui' seed now (dn_domains (cf_dns c)) = ret (Inr plant) \<and>
      scenario_start (ts_cfg t) plant loaded
        (red gen seed_from (red_cfg_of c) vuln oui' loaded seed now
           (Some (ts_cfg t, \<lambda>_. Inr plant :: unit + ledger, pk_playbook pk)) save_ok)"
    for vuln oui' seed now loaded save_ok and gen :: "'g gen" and seed_from
  proof -
    obtain plant where "pin_from_pack N (pk_plant pk) (tg_name (ts_cfg t)) vuln oui' seed now (dn_domains (cf_dns c)) = ret (Inr plant)"
      "lg_sealed plant" using build_any_seed [OF b(2)] b(1) by (fastforce simp: pin_from_pack_def)
    with red_starts [OF _ b(3), of plant loaded gen seed_from "red_cfg_of c" vuln oui' seed now save_ok] show ?thesis by blast
  qed
  show ?thesis using c t by (intro exI [of _ c] exI [of _ t] conjI allI start) simp_all
qed

text \<open>A pack that passes: two pinned devices and a beacon.\<close>

definition sample_pack :: pack where
  "sample_pack = \<lparr>pk_profiles = None, pk_toml = (\<lambda>_. True), pk_profiles_of = (\<lambda>_. None), pk_plant = Some twin_spec,
     pk_playbook = Some [\<lparr>pa_id = ''beacon'', pa_name = None, pa_techniques = [], pa_dwell_runs = 1,
       pa_events = [(sample_event C2Beacon)\<lparr>ev_target := None\<rparr>]\<rparr>]\<rparr>"

definition sample_machine :: machine where
  "sample_machine = \<lparr>mc_sysfs = True, mc_exists = (\<lambda>_. True), mc_script = (\<lambda>_. True), mc_run = (\<lambda>_. Some (Exited 0))\<rparr>"

lemma sample_preflight:
  assumes "cf_target c = Some t"
  shows "preflight text_net (Some [sample_profile]) no_oui sample_pack c = ret (Inr ())"
proof -
  let ?seed = "or_default 0 (se_seed (cf_session c))"
  obtain s where s: "build_sealed_session text_net [sample_profile] no_oui twin_spec ?seed 0 (tg_name (ts_cfg t)) (dn_domains (cf_dns c)) = ret (Inr s)"
    using build_any_seed [OF twin_build] by blast
  obtain e where e: "scenario_load (ts_cfg t) (pk_playbook sample_pack) ?seed = Inr e" "en_playbook e = the (pk_playbook sample_pack)"
    by (simp add: scenario_load_def playbook_parse_def sample_pack_def sample_event_def)
  have v: "validate_targets e s = Inr ()"
    by (simp add: validate_targets_def e(2)) (simp add: sample_pack_def sample_event_def)
  have p: "pk_plant sample_pack = Some twin_spec" "pk_profiles sample_pack = None" by (simp_all add: sample_pack_def)
  have u: "find (unknown_model [sample_profile]) (pl_devices twin_spec) = None"
    by (simp add: twin_spec_def unknown_model_def sample_pin_def)
  show ?thesis
    using e v u by (simp add: preflight_def assms p vuln_load_overlay_def build_validated_plant_def pin_from_pack_def s Let_def)
qed

theorem fire_starts_witness:
  "(\<exists>plant. pin_from_pack text_net (Some twin_spec) ''sample'' [sample_profile] no_oui 42 7 [''plant.example''] = ret (Inr plant) \<and>
    (\<exists>sim. red count_gen id (red_cfg_of sample_config) [sample_profile] no_oui (Inr None) 42 7
      (Some (sample_target, \<lambda>_. Inr plant :: unit + ledger, pk_playbook sample_pack)) True = Inr sim \<and> si_sealed sim)) \<and>
   (\<exists>plant. red count_gen id (red_cfg_of sample_config) [sample_profile] no_oui (Inr (Some (ledger_new 1 0))) 42 7
      (Some (sample_target, \<lambda>_. Inr plant :: unit + ledger, pk_playbook sample_pack)) True =
    Inl (Scenario_Mismatch None (Some ''sample'')))"
proof -
  let ?t = "sample_section\<lparr>ts_pack_dir := pack_dir_of (path_of ''/etc/otl/config.yaml'') ''sample''\<rparr>"
  let ?c = "sample_config\<lparr>cf_target := Some ?t\<rparr>"
  have up: "up text_net (\<lambda>_. []) sample_config_io sample_machine (Some [sample_profile]) no_oui sample_pack (Inr None)
      (path_of ''/etc/otl/config.yaml'') (Some ''sample'') = ret (0, Some [''systemctl'', ''enable'', ''--now'', ''ot-turbolaser@'' @ ''sample''])"
    by (simp add: up_def sample_scenario_ok sample_preflight [of _ ?t] preflight_datapath_def sample_machine_def
        datapath_kind_of_def run_systemctl_def unit_name_def)
  obtain c t where
    ct: "load_with_scenario text_net (\<lambda>_. []) sample_config_io (path_of ''/etc/otl/config.yaml'') (Some ''sample'') = Inr c" "cf_target c = Some t"
    "\<forall>vuln oui' seed now (gen :: u64 gen) seed_from save_ok loaded. \<exists>plant.
       pin_from_pack text_net (pk_plant sample_pack) (tg_name (ts_cfg t)) vuln oui' seed now (dn_domains (cf_dns c)) = ret (Inr plant) \<and>
       scenario_start (ts_cfg t) plant loaded (red gen seed_from (red_cfg_of c) vuln oui' loaded seed now
         (Some (ts_cfg t, \<lambda>_. Inr plant :: unit + ledger, pk_playbook sample_pack)) save_ok)"
    using fire_starts [OF up] by (elim exE conjE) (rule that)
  have c: "c = ?c" "t = ?t" using ct(1,2) sample_scenario_ok by auto
  have e: "red_cfg_of ?c = red_cfg_of sample_config" "dn_domains (cf_dns ?c) = [''plant.example'']" "ts_cfg ?t = sample_target"
    "tg_name sample_target = ''sample''" "pk_plant sample_pack = Some twin_spec"
    by (simp_all add: red_cfg_of_def sample_config_def sample_section_def sample_target_def sample_pack_def)
  have tag: "lg_scenario (ledger_new 1 0) \<noteq> Some ''sample''" "lg_scenario (ledger_new 1 0) = None" by (simp_all add: ledger_new_def)
  note start = ct(3) [unfolded c e, rule_format, of "[sample_profile]" no_oui 42 7 _ count_gen id True]
  have "\<exists>plant. pin_from_pack text_net (Some twin_spec) ''sample'' [sample_profile] no_oui 42 7 [''plant.example''] = ret (Inr plant) \<and>
    (\<exists>sim. red count_gen id (red_cfg_of sample_config) [sample_profile] no_oui (Inr None) 42 7
      (Some (sample_target, \<lambda>_. Inr plant :: unit + ledger, pk_playbook sample_pack)) True = Inr sim \<and> si_sealed sim)"
    using start [of "Inr None"] by (auto simp: scenario_start_def)
  moreover have "\<exists>plant. red count_gen id (red_cfg_of sample_config) [sample_profile] no_oui (Inr (Some (ledger_new 1 0))) 42 7
      (Some (sample_target, \<lambda>_. Inr plant :: unit + ledger, pk_playbook sample_pack)) True =
    Inl (Scenario_Mismatch None (Some ''sample''))"
    using start [of "Inr (Some (ledger_new 1 0))"] tag by (auto simp: scenario_start_def e)
  ultimately show ?thesis by blast
qed

text \<open>
  C38: what \<open>net-show\<close> certifies.  It exits with 0 exactly if the replay and the sensor port exist and are up, the sensor
  port is promiscuous, the bridge exists and holds no physical port, the mirror is found, the replay port is in the bridge
  where \<open>tc\<close> mirrors, and, when a probe was asked for and the counters could be read, they moved on both ports.
\<close>

theorem net_show_certifies: "net_show h0 h1 probe_secs cfg = 0 \<longleftrightarrow> delivering h0 h1 probe_secs cfg"
  by (rule net_show_zero)

end
