(* ===== verification/Spec2Isabelle.thy ===== *)
theory Spec2Isabelle
  imports Samples Plant_Samples Enrich Runs Verdicts S7_Synth Telecontrol Enip_Synth Beacons Snmp_Synth Tristation_Synth Ioc_Synth
begin

text \<open>
  ot-turbolaser replays operational-technology traffic towards a passive sensor.  The \<open>reload\<close> side takes captures,
  moves every host to a fresh private network and rewrites protocol identifiers before replay; the
  \<open>simulate\<close> and \<open>scenario\<close> sides fabricate traffic with the packet builders of \<open>src/synth/\<close>.  This library models
  the code that decides what goes on the wire and proves what makes it safe and coherent.

  Conventions.  A byte string is a list of 8-bit words; \<open>'a exec\<close> is an option in which \<open>panic\<close> (\<open>None\<close>) is a Rust
  panic (an index or slice out of range, an arithmetic check), so \<open>f x = ret y\<close> says that the code returns.
  Machine integers are words of their width and wrap as release builds do.  Rust's \<open>String\<close> is the list of its
  UTF-8 bytes, one character each.  Code that is not under \<open>src/\<close> is a parameter: the ChaCha generator
  (\<open>gen\<close>, \<open>below\<close>; laws \<open>gen_ok\<close>, \<open>below_ok\<close>: a draw lies in its range), the \<open>ipnet\<close> crate (a record
  \<open>net_ops\<close> with the laws \<open>net_ok\<close>), the CRC of the \<open>crc\<close> crate (any function) and the OUI and CIP tables
  that are read from files.  Every law is met by a concrete instance in \<open>Samples\<close>.

  Theories, in the order of the code.
    \<^item> \<open>Prelude\<close>: the \<open>exec\<close> monad, checked reads and writes of buffers, big- and little-endian fields.
    \<^item> \<open>Checksum\<close>, \<open>Frame\<close> (\<open>proto/frame.rs\<close>): one's-complement sums, the layout parser, checksum
      recomputation and validation, the accessors of \<open>ParsedFrame\<close>.  C11.
    \<^item> \<open>Mapper\<close> (\<open>proto/mapper.rs\<close>): the seeded identifier map and its invariant.  C12.
    \<^item> \<open>Walk\<close>, \<open>Mutators\<close> (\<open>proto/mutators/\<close>): the offset loops and the four protocol mutators, each an
      interpretation of the locale \<open>ot_mutator\<close>, the contract of the trait.  C13.
    \<^item> \<open>Texts\<close>, \<open>Oui\<close>, \<open>Mac\<close>, \<open>Net\<close> (\<open>oui/mod.rs\<close>, parts of \<open>proto/l3.rs\<close>): string functions, the vendor table,
      derived MAC addresses, address arithmetic and the choice of a fresh subnet.
    \<^item> \<open>Capture\<close>, \<open>Remap\<close> (\<open>pcapio.rs\<close>, \<open>proto/l3.rs\<close>): enumeration of the hosts, the host map, the rewriting of
      frames and the fail-closed filters.  C6--C10.
    \<^item> \<open>Pipeline\<close> (\<open>reload/pipeline.rs\<close>): one forge round.  C14.
    \<^item> \<open>Zones\<close> (\<open>proto/l3.rs\<close>): reconciliation of a capture into the zones of a simulation, with the budget
      of assets and the search for an unused MAC (a \<open>partial_function\<close>, shown to end).
    \<^item> \<open>Eth\<close>, \<open>Session\<close> (\<open>synth/eth.rs\<close>, \<open>arp.rs\<close>, \<open>session.rs\<close>): frame builders and the TCP session machine; a
      receiver that insists on exact sequence numbers reassembles each direction.  C15, C16.
    \<^item> \<open>Wire\<close>: what the protocol builders share.  The locale \<open>self_delimiting\<close> is the contract of an encoding
      that can be read back from the front of a buffer; every record, label, field and frame of the builders is
      an interpretation, and its lemmas read whole streams.  \<open>tcp_dialogue\<close> gives the streams a conversation
      delivers, \<open>udp_frame_datagram\<close> the datagram a builder sends.
    \<^item> \<open>Modbus_Synth\<close>, \<open>S7_Synth\<close>, \<open>Telecontrol\<close>, \<open>Enip_Synth\<close>, \<open>Beacons\<close>, \<open>Snmp_Synth\<close>, \<open>Dns_Synth\<close>,
      \<open>Tristation_Synth\<close>, \<open>Ioc_Synth\<close>: the modules of \<open>src/synth/\<close> of those names with the decoders a device or
      sensor runs.  C17--C19.
    \<^item> \<open>Ledger\<close> (\<open>ledger/mod.rs\<close>): the session ledger, its caps, the registry of captured hosts and
      address allocation; its operations keep one invariant.
    \<^item> \<open>Roles\<close> (\<open>simulate/roles.rs\<close>): who resolves whom by ARP, and the north-south crossings.
    \<^item> \<open>Naming\<close> (\<open>simulate/zones.rs\<close>, \<open>simulate/bom.rs\<close>): the zones of a capture, levels, labels, bills of materials
      and host names.  The order in which a hash map is listed is a parameter.
    \<^item> \<open>Salts\<close>, \<open>Fabricate\<close>, \<open>Enrich\<close> (\<open>simulate/devices.rs\<close>, \<open>cmd_plan\<close> of \<open>simulate/mod.rs\<close>): the search for an
      unused MAC (locale \<open>salted_mac\<close>, interpreted on the three derivations), the allocator, domains, names and the
      bill of materials, and the generic plan.  C20--C22.
    \<^item> \<open>Vuln\<close> (\<open>vuln/mod.rs\<close>): the profile database and its overlay.
    \<^item> \<open>Volume\<close>: every builder returns, and how many frames it makes.
    \<^item> \<open>Scenario\<close>, \<open>Campaign\<close> (\<open>scenario/playbook.rs\<close>, \<open>scenario/engine.rs\<close>): the playbook, the rendering of
      events and the timeline.  The locale \<open>event_renderer\<close> is what the timeline needs of rendering: a number of
      frames that does not depend on the nonce; it is interpreted on \<open>render_event\<close>.
      C29--C31.
    \<^item> \<open>Announce\<close>, \<open>Burst\<close> (\<open>simulate/engine.rs\<close>): the identity burst, and the sensor that reads it: a binding
      is an asset's, or a derived one where no asset of the zone has the address.  C23.
    \<^item> \<open>Tick\<close>, \<open>Feed\<close> (\<open>simulate/engine.rs\<close>): the engine as a state, a tick and a promotion as functions on it, runs as
      lists of events, and the invariant they keep.  C27.
    \<^item> \<open>Threat\<close> (\<open>threat/mod.rs\<close>): the scheduler of promotions and the promotion; \<open>promoted_frame\<close> says what it makes of a
      frame.  C32.
    \<^item> \<open>Cache\<close> (\<open>simulate/engine.rs\<close>): the bounded cache of remapped captures, a directory as a listing of its files.
      C33.
    \<^item> \<open>Rezone\<close>, \<open>Rezoned\<close>, \<open>Remapping\<close> (\<open>remap_into_session\<close> of \<open>simulate/engine.rs\<close>): a capture is grouped, reconciled
      into the zones of the session, its new hosts registered, and the result stored; the answers of the file system
      are inputs.  \<open>rezone_ok\<close> is what keeps a session fit for that, \<open>remapper_ok\<close> adds that every cached frame may go
      on the wire.  C2, C34.
    \<^item> \<open>Watchdog\<close> (\<open>run/watchdog.rs\<close>, \<open>run/replay.rs\<close>): the polling thread as a run of events.  C35.
    \<^item> \<open>Pinned\<close> (\<open>scenario/plant.rs\<close>): the sealed plan of a scenario and its lint.  C39, C40.
    \<^item> \<open>Daemon\<close> (\<open>run/mod.rs\<close>): an iteration of the loop is a function from the file picked, the answers of the file system
      and the clock to what tcpreplay is started on; it composes the remap, the promotion, the guard and the tick.
      \<open>sends_ok\<close> is what may be sent, \<open>session_step\<close> what an iteration may do to a sealed session.
      C1, C28.
    \<^item> \<open>Runs\<close>: the properties of the run loop, the cache and the scenario plans.
    \<^item> \<open>Arp_Profile\<close>, \<open>Sensor_Csv\<close>, \<open>Verify\<close> (\<open>validate/\<close>): the profile of the ARP frames of a capture and its bands, the
      score of a sensor's export, and the command over both.  \<open>organic\<close> is what the profile means frame by frame.
      C24--C26.
    \<^item> \<open>Pacing\<close> (\<open>run/gap.rs\<close>, \<open>run/signal.rs\<close>, \<open>run/selection.rs\<close>, the rate and gap sections of \<open>config.rs\<close>): a double is a
      rational, an infinity or NaN; comparisons, \<open>max\<close>, \<open>min\<close> and \<open>clamp\<close> are exact on these, draws are parameters,
      and a rate is drawn from a band by a function that may panic (\<open>draw_ok\<close>: not on positive finite bounds).
      C36.
    \<^item> \<open>Config\<close>, \<open>Config_Sound\<close> (\<open>config.rs\<close>): the sections, every check of \<open>validate\<close> in its order, the merge of a scenario
      and the loaders.  C3, C4, C37.
    \<^item> \<open>Datapath\<close> (\<open>netinfo.rs\<close>, \<open>net_show\<close> of \<open>control.rs\<close>): a host is what its sysfs and its commands answer; \<open>net-show\<close>
      reads one before and one after the probe.  C38.
    \<^item> \<open>Fire\<close> (\<open>scenario/mod.rs\<close>, \<open>control.rs\<close>): the pre-flight of a pack and the commands that run \<open>systemctl\<close> and the
      network scripts.  Whether a plant can be pinned does not depend on the seed, which is why a pre-flight with any
      seed vouches for the daemon, up to the session ledger, which only the daemon looks at.  C5.
    \<^item> \<open>Verdicts\<close>: the properties of these.
    \<^item> \<open>Samples\<close>, \<open>Plant_Samples\<close>, \<open>Run_Samples\<close>: the concrete inputs of the witnesses.

  Bounds and fuel.  A phase of a scenario ends within \<open>phase_bound\<close> bursts: its dwell, or one more than its frames
  divided by the frame cap.  Receivers read a buffer with its length as fuel, which is enough because every item takes a
  byte (\<open>enc_nonempty\<close>).  Frame sizes are bounded where the code truncates a length to 16 bits: a TCP payload of
  65495 and a UDP payload of 65507 bytes are the largest IPv4 can carry.  The accumulator of a checksum cannot
  overflow below that size (\<open>sum_fits\<close>).  The OID encoder has a ten-byte array, enough for 64 bits (\<open>oid_reads_back\<close>).

  Not modelled: process control and signal delivery, the command line, printed text and log lines, the heartbeat and the
  bytes of pcap files, which are input and output around this code (the outcome of reads and writes is an input
  where it matters); TOML, YAML and JSON parsing, which the serde crates do; \<open>weighted_pick\<close>, which sums doubles; the
  listing of packs in \<open>scenario/registry.rs\<close> and the reload command with its manifest.
\<close>

section \<open>Frames and checksums\<close>

text \<open>
  C11: no byte string makes the frame parser panic: every index and slice is in range.  A layout
  it returns is well formed: the headers, the payload and the end lie in this order inside the
  buffer, the IPv4 header length is between 20 and 60, and TCP and UDP headers fit.
\<close>

theorem frame_parse_sound:
  "\<exists>r. parse_layout buf = ret r \<and> (\<forall>l. r = Some l \<longrightarrow> layout_ok (length buf) l)"
  using parse_layout_total [of buf] parse_layout_ok [of buf] by auto

theorem frame_parse_sound_witness:
  "parse_layout modbus_frame = ret (Some modbus_layout) \<and> layout_ok 66 modbus_layout"
  using frame_parse_sound [of modbus_frame] modbus_parse by simp

text \<open>
  C7: \<open>recompute_checksums\<close> on a frame's own layout does not panic, writes the checksum fields
  only, leaves the frame parsing to the same layout, and is idempotent.
\<close>

theorem checksum_rewrite_frame:
  assumes "parse_layout buf = ret (Some l)"
  shows "\<exists>b. recompute_checksums buf l = ret b \<and> agree_on (- csum_bytes l) buf b \<and>
    parse_layout b = ret (Some l) \<and> recompute_checksums b l = ret b"
proof -
  obtain b where b: "recompute_checksums buf l = ret b" "agree_on (- csum_bytes l) buf b"
    "parse_layout b = ret (Some l)"
    using recompute_checksums_safe [OF assms] by blast
  with recompute_checksums_idem [OF assms] show ?thesis by simp
qed

theorem checksum_rewrite_frame_witness:
  "\<exists>b. recompute_checksums modbus_frame modbus_layout = ret b \<and> length b = 66 \<and>
    recompute_checksums b modbus_layout = ret b"
  using checksum_rewrite_frame [OF modbus_parse] by (auto simp: agree_on_def)

text \<open>
  After \<open>recompute_checksums\<close> the frame passes \<open>checksums_valid\<close>: the stored IPv4 and L4
  words complete the one's-complement sums to \<open>0xffff\<close>, with no 32-bit accumulator overflow and with
  the UDP rule that a zero sum is sent as \<open>0xffff\<close>.  The checksum field must lie inside the part of
  the segment that the IP total length covers.
\<close>

theorem checksum_rewrite_valid:
  assumes "parse_layout buf = ret (Some l)" and "l4_field_inside l"
  shows "do { b \<leftarrow> recompute_checksums buf l; checksums_valid b l } = ret True"
  using recompute_checksums_valid [OF assms] by auto

theorem checksum_rewrite_valid_witness:
  "do { b \<leftarrow> recompute_checksums modbus_frame modbus_layout; checksums_valid b modbus_layout } = ret True"
proof -
  have "l4_field_inside modbus_layout" by (simp add: l4_field_inside_def modbus_layout_def csum_off_def)
  with checksum_rewrite_valid [OF modbus_parse] show ?thesis by simp
qed

section \<open>The identifier mapper\<close>

text \<open>
  An identifier keeps its value for the rest of a capture: once mapped, every later state of the
  mapper (whatever else was mapped in between) answers the same value and draws nothing.
\<close>

theorem mapper_consistent:
  assumes "map_range gen m d k lo hi = (v, m1)" and "map_range gen m1 d' k' lo' hi' = (v', m2)"
    and "extends m2 m3"
  shows "map_range gen m3 d k lo hi = (v, m3) \<and> extends m m3"
  using map_range_consistent [OF assms(1), of m3] map_range_extends [OF assms(1)]
    map_range_extends [OF assms(2)] assms(3)
  by (auto intro: extends_trans)

theorem mapper_consistent_witness:
  "\<exists>v m1 m2. map_range count_gen (from_seed (\<lambda>s. s) 7) Dnp3Addr 3 0 0xffff = (v, m1) \<and>
    map_range count_gen m1 Dnp3Addr 4 0 0xffff = (8, m2) \<and>
    map_range count_gen m2 Dnp3Addr 3 0 0xffff = (v, m2)"
proof -
  let ?m = "from_seed (\<lambda>s. s) 7 :: u64 mapper"
  obtain v m1 where 1: "map_range count_gen ?m Dnp3Addr 3 0 0xffff = (v, m1)"
    by (cases "map_range count_gen ?m Dnp3Addr 3 0 0xffff")
  obtain v' m2 where 2: "map_range count_gen m1 Dnp3Addr 4 0 0xffff = (v', m2)"
    by (cases "map_range count_gen m1 Dnp3Addr 4 0 0xffff")
  have "v' = 8"
    using 1 2 by (auto simp: map_range_def draw_unused_def from_seed_def count_gen_def redraw_free Let_def)
  then show ?thesis using mapper_consistent [OF 1 2 extends_refl] 1 2 by blast
qed

text \<open>
  C12: the mapper stays injective on a domain: a new identifier gets a value no other identifier has,
  except when all 65 draws of its retry loop hit values already taken.
\<close>

theorem mapper_injective:
  assumes "mapper_ok m" and "injective m d" and "lo < hi"
    and "map_range gen m d k lo hi = (v, m')"
    and "\<not> set (draws 65 gen (mp_rng m) lo hi) \<subseteq> mp_used m d"
  shows "injective m' d"
  using assms by (rule map_range_injective)

theorem mapper_injective_witness:
  "injective (snd (map_range count_gen (from_seed (\<lambda>s. s) 7) Dnp3Addr 3 0 0xffff)) Dnp3Addr"
proof -
  let ?m = "from_seed (\<lambda>s. s) 7 :: u64 mapper"
  obtain v m' where 1: "map_range count_gen ?m Dnp3Addr 3 0 0xffff = (v, m')"
    by (cases "map_range count_gen ?m Dnp3Addr 3 0 0xffff")
  have "injective ?m Dnp3Addr" and "mp_used ?m Dnp3Addr = {}"
    by (simp_all add: injective_def from_seed_def)
  moreover have "set (draws 65 count_gen (mp_rng ?m) 0 0xffff) \<noteq> {}"
    using draws.simps(2) [of 64 count_gen "mp_rng ?m" 0 "0xffff"] by (simp add: count_gen_def)
  ultimately show ?thesis
    using mapper_injective [OF from_seed_ok _ _ 1] by (simp add: 1)
qed

section \<open>Mutators\<close>

text \<open>
  C13: whatever a mutator of the registry does to a frame it is dispatched, it returns, keeps the mapper's
  invariant, and edits the payload only: the buffer's length, every byte before the payload and
  after the end, and hence the parsed layout stay the same.
\<close>

theorem registry_edits_payload:
  assumes "pf_ok f" and "mapper_inv gen m"
  shows "\<exists>f' m' rs. mut_mutate crc gen mt f m = ret (f', m', rs) \<and> payload_edit f f' \<and> mapper_inv gen m'"
  using registry.mutate_total [OF assms] registry.mutate_edit [OF assms] registry.mutate_inv [OF assms]
  by blast

theorem registry_edits_payload_witness:
  "\<exists>f' m' rs. mut_mutate (\<lambda>_. 0) count_gen M_Modbus modbus_parsed (from_seed (\<lambda>s. s) 7) = ret (f', m', rs) \<and>
    payload_edit modbus_parsed f'"
  using registry_edits_payload [OF modbus_parsed_ok from_seed_inv [OF count_gen_ok]] by blast

text \<open>
  The Modbus loop rewrites the unit id of every ADU packed in the payload, each to the image of
  its old value under the mapping the mapper ends with, and no other byte.
\<close>

theorem modbus_rewrites_units:
  assumes "mapper_inv gen m"
  shows "\<exists>p' m' rs. walk (modbus_step gen) 0 p m = ret (p', m', rs) \<and>
    p' = map (\<lambda>i. if i \<in> set (modbus_units p 0) then mapped m' ModbusUnitId (p ! i) else p ! i) [0..<length p]"
proof -
  obtain p' m' rs where w: "walk (modbus_step gen) 0 p m = ret (p', m', rs)"
    using mb.walk_total [OF assms] by blast
  from modbus_walk_units [OF w assms] w show ?thesis
    by (intro exI [of _ p'] exI [of _ m'] exI [of _ rs]) (auto intro!: nth_equalityI)
qed

theorem modbus_rewrites_units_witness:
  "\<exists>p' m' rs. walk (modbus_step count_gen) 0 [0, 1, 0, 0, 0, 2, 17, 3, 0, 1, 0, 0, 0, 1, 5] (from_seed (\<lambda>s. s) 7)
      = ret (p', m', rs) \<and>
    p' = [0, 1, 0, 0, 0, 2, mapped m' ModbusUnitId 17, 3, 0, 1, 0, 0, 0, 1, mapped m' ModbusUnitId 5]"
proof -
  let ?p = "[0, 1, 0, 0, 0, 2, 17, 3, 0, 1, 0, 0, 0, 1, 5] :: bytes"
  have "modbus_units ?p 0 = [6, 14]"
    by (simp add: modbus_units.simps be16_def)
  with modbus_rewrites_units [OF from_seed_inv [OF count_gen_ok], where p = ?p] show ?thesis
    by (auto simp: upt_rec)
qed

text \<open>
  The DNP3 loop maps both addresses of every link header packed in the payload and stores the CRC of
  the rewritten header; no byte outside the address and CRC fields of a header changes.
\<close>

theorem dnp3_rewrites_headers:
  assumes "mapper_inv gen m"
  shows "\<exists>p' m' rs. walk (dnp3_step crc gen) 0 p m = ret (p', m', rs) \<and> length p' = length p \<and>
    (\<forall>at \<in> set (dnp3_headers p 0).
       le16 (p' ! (at + 4)) (p' ! (at + 5)) = mapped m' Dnp3Addr (le16 (p ! (at + 4)) (p ! (at + 5))) \<and>
       le16 (p' ! (at + 6)) (p' ! (at + 7)) = mapped m' Dnp3Addr (le16 (p ! (at + 6)) (p ! (at + 7))) \<and>
       take 2 (drop (at + 8) p') = to_le16 (crc (take 8 (drop at p')))) \<and>
    (\<forall>i < length p. (\<forall>at \<in> set (dnp3_headers p 0). i \<notin> {at + 4..<at + 10}) \<longrightarrow> p' ! i = p ! i)"
proof -
  obtain p' m' rs where w: "walk (dnp3_step crc gen) 0 p m = ret (p', m', rs)"
    using dn.walk_total [OF assms] by blast
  from dnp3_walk_headers [OF w assms] w show ?thesis
    unfolding dnp3_done_def by blast
qed

theorem dnp3_rewrites_headers_witness:
  "\<exists>p' m' rs. walk (dnp3_step (\<lambda>_. 0x1234) count_gen) 0 [5, 0x64, 5, 0, 1, 0, 2, 0, 9, 9] (from_seed (\<lambda>s. s) 7)
      = ret (p', m', rs) \<and> length p' = 10 \<and>
    le16 (p' ! 4) (p' ! 5) = mapped m' Dnp3Addr 1 \<and> take 2 (drop 8 p') = [0x34, 0x12]"
proof -
  let ?p = "[5, 0x64, 5, 0, 1, 0, 2, 0, 9, 9] :: bytes"
  have h: "0 \<in> set (dnp3_headers ?p 0)" by (subst dnp3_headers.simps) (simp add: dnp3_at_def)
  obtain p' m' rs where *: "walk (dnp3_step (\<lambda>_. 0x1234) count_gen) 0 ?p (from_seed (\<lambda>s. s) 7) = ret (p', m', rs)"
    "length p' = length ?p"
    "le16 (p' ! (0 + 4)) (p' ! (0 + 5)) = mapped m' Dnp3Addr (le16 (?p ! (0 + 4)) (?p ! (0 + 5)))"
    "take 2 (drop (0 + 8) p') = to_le16 0x1234"
    using dnp3_rewrites_headers [OF from_seed_inv [OF count_gen_ok], where p = ?p and crc = "\<lambda>_. 0x1234"] h
    by blast
  then show ?thesis by (intro exI [of _ p'] exI [of _ m'] exI [of _ rs]) (simp add: le16_def be16_def to_le16_def)
qed

section \<open>The layer-3 remap\<close>

text \<open>
  A frame that fits the plan is never duplicated, reordered or invented by the fail-closed filter: it keeps
  a subsequence of the packets, exactly the plan-coherent ones, reports how many it dropped, and
  run again drops nothing.
\<close>

theorem coherence_filter:
  "\<exists>cap' n. drop_incoherent_frames cap valid = ret (cap', n) \<and> subseq (cap_packets cap') (cap_packets cap) \<and>
    set (cap_packets cap') =
      {p \<in> set (cap_packets cap). \<exists>l. parse_layout (pk_data p) = ret (Some l) \<and> coherent_at valid (pk_data p) l} \<and>
    length (cap_packets cap') + n = length (cap_packets cap) \<and>
    drop_incoherent_frames cap' valid = ret (cap', 0)"
proof -
  have k: "frame_is_plan_coherent valid d = ret True \<longleftrightarrow>
      (\<exists>l. parse_layout d = ret (Some l) \<and> coherent_at valid d l)" for d
    by (auto simp: coherent_eq split: option.splits)
  obtain cap' n where d: "drop_incoherent_frames cap valid = ret (cap', n)"
    by (simp add: drop_incoherent_frames_def plan_filter.drop_eq)
  note * = plan_filter.drop_survivors [OF d [unfolded drop_incoherent_frames_def]]
  show ?thesis
    using * d plan_filter.drop_idem [OF d [unfolded drop_incoherent_frames_def]]
    by (intro exI [of _ cap'] exI [of _ n]) (simp add: k drop_incoherent_frames_def)
qed

text \<open>
  C10: rewriting an IPv4 frame through a host map replaces the source and the destination by their images,
  leaves the frame parsing to the same layout, writes nothing but the MACs, the addresses and the
  checksums, and leaves valid checksums when an address was mapped.
\<close>

theorem remap_frame_addresses:
  assumes "parse_layout d = ret (Some l)" and "fl_l3_kind l = L3_Ipv4" and "l4_field_inside l"
    and "macs_ok mac_map"
    and "hm (word32_at d (fl_l3 l + 12)) \<noteq> None \<or> hm (word32_at d (fl_l3 l + 16)) \<noteq> None"
  shows "\<exists>d'. remap_frame hm mac_map seed remap_mac d = ret d' \<and> parse_layout d' = ret (Some l) \<and>
    agree_on (- rewrite_bytes l) d d' \<and>
    word32_at d' (fl_l3 l + 12) = subst hm (word32_at d (fl_l3 l + 12)) \<and>
    word32_at d' (fl_l3 l + 16) = subst hm (word32_at d (fl_l3 l + 16)) \<and>
    checksums_valid d' l = ret True"
  using remap_frame_ipv4 [OF assms(1,2,4), of hm seed remap_mac] assms(3,5) by metis

theorem remap_frame_addresses_witness:
  "\<exists>d'. remap_frame [0xc0a8010a \<mapsto> 0x0a07010a] (\<lambda>_. None) 5 True modbus_frame = ret d' \<and>
    word32_at d' 26 = 0x0a07010a \<and> word32_at d' 30 = 0xc0a80114 \<and> checksums_valid d' modbus_layout = ret True"
proof -
  have w: "word32_at modbus_frame 26 = 0xc0a8010a" "word32_at modbus_frame 30 = 0xc0a80114"
    by (simp_all add: word32_at_def modbus_frame_def be32_def)
  show ?thesis
    using remap_frame_addresses [OF modbus_parse, of "\<lambda>_. None" "[0xc0a8010a \<mapsto> 0x0a07010a]" 5 True] w
    by (auto simp: modbus_layout_def l4_field_inside_def csum_off_def macs_ok_def subst_def)
qed

text \<open>
  An IPv4 ARP frame keeps its shape, and its sender and target protocol addresses become their
  images; only the Ethernet addresses and the ARP address fields are written.
\<close>

theorem remap_arp_addresses:
  assumes "parse_layout d = ret (Some l)" and "fl_l3_kind l = L3_Other" and "arp_shape d (fl_l3 l)"
    and "macs_ok mac_map"
  shows "\<exists>d'. remap_frame hm mac_map seed remap_mac d = ret d' \<and> arp_shape d' (fl_l3 l) \<and>
    agree_on (- ({0..<12} \<union> {fl_l3 l + 8..<fl_l3 l + 28})) d d' \<and>
    word32_at d' (fl_l3 l + 14) = subst hm (word32_at d (fl_l3 l + 14)) \<and>
    word32_at d' (fl_l3 l + 24) = subst hm (word32_at d (fl_l3 l + 24))"
proof -
  have "remap_frame hm mac_map seed remap_mac d = remap_arp_addrs d (fl_l3 l) hm mac_map seed remap_mac"
    using assms(1,2) by (simp add: remap_frame_def pf_parse_def is_ipv4_def)
  moreover have "14 \<le> fl_l3 l" using layout_l3_bounds [OF assms(1)] by simp
  ultimately show ?thesis
    using remap_arp_ok [OF assms(3) _ assms(4), of hm seed remap_mac] unfolding arp_bytes_def by metis
qed

theorem remap_arp_addresses_witness:
  "\<exists>d'. remap_frame [0xc0a8010a \<mapsto> 0x0a07010a] (\<lambda>_. None) 5 True arp_frame = ret d' \<and>
    word32_at d' 28 = 0x0a07010a \<and> word32_at d' 38 = 0xc0a80114"
proof -
  have w: "word32_at arp_frame 28 = 0xc0a8010a" "word32_at arp_frame 38 = 0xc0a80114"
    and a: "arp_shape arp_frame 14"
    by (simp_all add: word32_at_def arp_frame_def be32_def be16_def arp_shape_def word16_at_def)
  show ?thesis
    using remap_arp_addresses [OF arp_parse, of "\<lambda>_. None" "[0xc0a8010a \<mapsto> 0x0a07010a]" 5 True] w a
    by (auto simp: arp_layout_def macs_ok_def subst_def)
qed

text \<open>
  C9: the host map of the random remap moves every host into 10/8, keeps its offset in its group's
  subnet, and sends two hosts to the same new subnet whenever they shared the old one.
\<close>

theorem host_map_structure:
  assumes "net_ok N" and "below_ok below" and "plan_hosts N below hints r ps = ret (nets, entries)"
    and "(h, a) \<in> set entries" and "(k, b) \<in> set entries"
    and "m = mask_for (fst (group_of N h hints))"
  shows "octet0 a = 10 \<and> a AND NOT m = h AND NOT m \<and>
    (group_of N h hints = group_of N k hints \<longrightarrow> a AND m = b AND m)"
proof (intro conjI impI)
  note e = plan_entry_addr [OF assms(1-3)]
  show "octet0 a = 10" and "a AND NOT m = h AND NOT m"
    using e(1,2) [OF assms(4)] by (simp_all add: assms(6))
  assume g: "group_of N h hints = group_of N k hints"
  have "distinct (map fst nets)"
    using distinct_groups plan_hosts_rel(1) [OF assms(3)] by (metis assign_nets_fst)
  with e(3) [OF assms(4)] e(3) [OF assms(5)] g show "a AND m = b AND m"
    unfolding assms(6) by (metis eq_key_imp_eq_value)
qed

theorem host_map_structure_witness:
  "octet0 0x0a00050a = 10 \<and> (0x0a00050a :: u32) AND NOT (mask_for 24) = 0xc0a8010a AND NOT (mask_for 24) \<and>
    (0x0a00050a :: u32) AND mask_for 24 = 0x0a000514 AND mask_for 24"
proof -
  have "octet0 0x0a00050a = 10 \<and> (0x0a00050a :: u32) AND NOT (mask_for 24) = 0xc0a8010a AND NOT (mask_for 24) \<and>
    (group_of pair_net 0xc0a8010a [] = group_of pair_net 0xc0a80114 [] \<longrightarrow>
      (0x0a00050a :: u32) AND mask_for 24 = 0x0a000514 AND mask_for 24)"
    by (rule host_map_structure [OF pair_net_ok count_below_ok arp_plan]) (simp_all add: arp_entries_def)
  then show ?thesis by (simp add: mask24)
qed

text \<open>
  C8: the host map is injective, so no two hosts of a capture collapse into one, as long as the groups'
  networks (prefixes clamped to /8../30) together fit into the \<open>2 ^ 24\<close> addresses of 10/8.  The
  groups are served in order of prefix, largest networks first, so the fallback to a full scan
  always finds a free block until then.
\<close>

theorem host_map_injective:
  assumes "net_ok N" and "below_ok below" and "plan_hosts N below hints r ps = ret (nets, entries)"
    and "demand (plan_groups N hints ps) \<le> 2 ^ 24"
  shows "inj_on snd (set entries)"
proof (rule inj_onI)
  fix x y assume x: "x \<in> set entries" "y \<in> set entries" "snd x = snd y"
  obtain h a k where xy: "x = (h, a)" "y = (k, a)" using x(3) by (cases x, cases y) simp
  with x plan_injective [OF assms, of h a k] show "x = y" by simp
qed

theorem host_map_injective_witness: "inj_on snd (set arp_entries)"
proof -
  have "demand (plan_groups pair_net [] (cap_packets (arp_capture arp_frame))) \<le> 2 ^ 24"
    by (simp add: arp_groups demand_def block_size_def clamp_prefix_def)
  then show ?thesis by (rule host_map_injective [OF pair_net_ok count_below_ok arp_plan])
qed

text \<open>
  C6: no frame that survives the remap carries, at any byte offset, the address of any remappable host
  of the source capture (IPv4 header or ARP body), whatever the payload.
\<close>

theorem remap_no_original_address:
  assumes "remap_capture N below seed_from cap hints seed remap_mac = ret (cap', s)"
    and "p' \<in> set (cap_packets cap')" and "p \<in> set (cap_packets cap)"
    and "a \<in> set (addrs_of (pk_data p))" and "is_remappable a"
  shows "\<not> sublist (octets a) (pk_data p')"
proof -
  obtain nets entries where pl: "plan_hosts N below hints (seed_from seed) (cap_packets cap) = ret (nets, entries)"
    and s: "\<And>a. a \<in> fst ` set entries \<Longrightarrow> \<not> sublist (octets a) (pk_data p')"
    using remap_capture_survivors [OF assms(1,2)] by metis
  have "a \<in> set (capture_addrs (cap_packets cap))" using assms(3,4) by (auto simp: capture_addrs_def)
  then have "a \<in> fst ` set entries" using assms(5) unfolding plan_keys_set(1) [OF pl] by simp
  then show ?thesis by (rule s)
qed

theorem remap_no_original_address_witness: "\<not> sublist [192, 168, 1, 10] arp_frame'"
proof -
  obtain s where rc: "remap_capture pair_net count_below (\<lambda>s. s) (arp_capture arp_frame) [] 5 False
      = ret (arp_capture arp_frame', s)"
    using arp_remapped by blast
  have "\<not> sublist (octets 0xc0a8010a) (pk_data \<lparr>pk_ts = 0, pk_orig_len = 42, pk_data = arp_frame'\<rparr>)"
    by (rule remap_no_original_address [OF rc, of _ "\<lparr>pk_ts = 0, pk_orig_len = 42, pk_data = arp_frame\<rparr>"])
      (simp_all add: arp_capture_def arp_frame_addrs is_remappable_def octet0_def)
  moreover have "octets 0xc0a8010a = [192, 168, 1, 10]" by (simp add: octets_def to_be32_def)
  ultimately show ?thesis by simp
qed

text \<open>
  C7: the remap returns for every capture, and no frame it emits carries a public address: the run
  loop's remap-off backstop \<open>carries_public_address\<close> is false on each of them.
\<close>

theorem remap_output_not_public:
  assumes "net_ok N" and "below_ok below"
  shows "\<exists>cap' s. remap_capture N below seed_from cap hints seed remap_mac = ret (cap', s) \<and>
    (\<forall>p \<in> set (cap_packets cap'). carries_public_address (pk_data p) = ret False)"
proof -
  obtain cap' s where rc: "remap_capture N below seed_from cap hints seed remap_mac = ret (cap', s)"
    using remap_capture_total [of N below seed_from cap hints seed remap_mac] by blast
  with remap_survivor_not_public [OF assms rc] show ?thesis by blast
qed

theorem remap_output_not_public_witness:
  "\<exists>cap' s. remap_capture pair_net count_below (\<lambda>s. s) sample_capture [] 5 True = ret (cap', s) \<and>
    list_all (\<lambda>p. carries_public_address (pk_data p) = ret False) (cap_packets cap')"
  using remap_output_not_public [OF pair_net_ok count_below_ok, where cap = sample_capture]
  unfolding list_all_iff by blast

section \<open>Hardware addresses and vendors\<close>

text \<open>
  Every MAC the remap writes without an override is a MAC a passive sensor binds: unicast and globally
  administered, with an OUI of the IT pool; the hash-derived \<open>stable_mac\<close> is one too.
\<close>

theorem host_macs_bind:
  "global_unicast (host_mac_salted seed ip salt) \<and> take 3 (host_mac_salted seed ip salt) \<in> set it_pool \<and>
   global_unicast (stable_mac seed ip)"
  using host_mac_salted_global host_mac_salted_pool stable_mac_global by blast

text \<open>
  The splitmix64 finalizer is a bijection on 64-bit words, so for one seed the hash from which a
  host's MAC is taken differs for different addresses.
\<close>

theorem host_hash_injective:
  "inj splitmix64 \<and> inj (\<lambda>ip :: u32. splitmix64 (seed XOR ucast ip * 0x9E3779B97F4A7C15))"
  by (intro conjI injI) (rule splitmix64_inj [THEN iffD1], assumption,
      rule host_hash_inj [THEN iffD1], assumption)

text \<open>
  Formatting a MAC and parsing it back is the identity, and parsing any text gives six bytes.
\<close>

theorem mac_text_roundtrip:
  "length (parse_mac s) = 6 \<and> (length m = 6 \<longrightarrow> parse_mac (fmt_mac m) = m)"
  by (simp add: length_parse_mac parse_fmt_mac)

theorem mac_text_roundtrip_witness:
  "parse_mac (fmt_mac [0, 0x1b, 0x21, 0xa0, 5, 0xff]) = [0, 0x1b, 0x21, 0xa0, 5, 0xff]"
  using mac_text_roundtrip [of _ "[0, 0x1b, 0x21, 0xa0, 5, 0xff]"] by simp

text \<open>
  The OUI table answers for the vendors it lists: \<open>oui_for_vendor\<close> offers a prefix for every vendor with a
  line, whatever the salt, only prefixes on lines of that vendor, and one that
  looks up to the same vendor unless another line gives the prefix to another vendor.
\<close>

theorem oui_vendor_roundtrip:
  assumes "(b, v) \<in> set (oui_entries txt)"
    and "\<forall>p w w'. (p, w) \<in> set (oui_entries txt) \<longrightarrow> (p, w') \<in> set (oui_entries txt) \<longrightarrow> w = w'"
  shows "\<exists>p. oui_for_vendor (oui_parse txt) v salt = Some p \<and> (p, v) \<in> set (oui_entries txt) \<and>
    vendor_of_prefix (oui_parse txt) p = Some v"
proof -
  obtain p where p: "oui_for_vendor (oui_parse txt) v salt = Some p"
    using oui_for_vendor_some [OF assms(1)] by blast
  have e: "(p, v) \<in> set (oui_entries txt)" by (rule oui_for_vendor_entry [OF p])
  with p oui_entry_vendor [OF e] assms(2) show ?thesis by blast
qed

theorem oui_vendor_roundtrip_witness:
  "\<exists>p. oui_for_vendor (oui_parse ''0000BC,Rockwell'') ''Rockwell'' 7 = Some p \<and>
    vendor_of_prefix (oui_parse ''0000BC,Rockwell'') p = Some ''Rockwell''"
proof -
  have "oui_entries ''0000BC,Rockwell'' = [([0, 0, 0xBC], ''Rockwell'')]" by code_simp
  with oui_vendor_roundtrip [of "[0, 0, 0xBC]" "''Rockwell''" "''0000BC,Rockwell''" 7] show ?thesis by auto
qed

text \<open>
  The per-host MAC is not distinct per host: with seed 0 the hosts 10.0.14.222 and 10.0.3.119 get the
  same address, since only three of its bytes depend on more than the address modulo 7.
\<close>

theorem host_mac_collision:
  "host_mac 0 0x0A000EDE = host_mac 0 0x0A000377"
  by (simp add: host_mac_def host_mac_salted_def stable_mac_def splitmix64_def to_be64_def it_pool_oui_def
      it_pool_def Let_def)

section \<open>A forge round\<close>

text \<open>
  C14: a forge round returns for every capture and options.  What enters the mutation loop is the source with the remap off,
  and the remapped capture with it on.  Every emitted frame has at most 1514 bytes, their number is the one reported, the
  header is that of the capture that entered, and each comes, in order, from one packet of it with its time stamp and
  layout: all bytes but those of the payload and the checksums are the same, and a frame that is neither TCP nor UDP is
  untouched.
\<close>

theorem forge_round_frames:
  assumes "gen_ok gen"
  shows "\<exists>cap cap' res ps. forge_round crc gen seed_gen N below seed_below src seed opts = ret (cap', res) \<and>
    (if ro_remap_l3 opts then \<exists>s. remap_capture N below seed_below src (ro_hints opts) seed True = ret (cap, s) else cap = src) \<and>
    list_all2 packet_edit (cap_packets cap) ps \<and>
    cap_packets cap' = filter (\<lambda>p. length (pk_data p) \<le> 1514) ps \<and>
    rr_frames res = length (cap_packets cap') \<and> cap_header cap' = cap_header cap"
proof -
  obtain cap cap' res ps where "forge_round crc gen seed_gen N below seed_below src seed opts = ret (cap', res)"
    "if ro_remap_l3 opts
      then \<exists>s. remap_capture N below seed_below src (ro_hints opts) seed True = ret (cap, s)
      else cap = src"
    "list_all2 packet_edit (cap_packets cap) ps" "cap_packets cap' = filter (\<lambda>p. length (pk_data p) \<le> 1514) ps"
    "rr_frames res = length (cap_packets cap')" "cap_header cap' = cap_header cap"
    using forge_round_ok [OF assms, where crc = crc and seed_gen = seed_gen and N = N and below = below
        and seed_below = seed_below and src = src and seed = seed and opts = opts] by metis
  then show ?thesis by blast
qed

theorem forge_round_frames_witness:
  "(\<exists>cap' res. forge_round (\<lambda>_. 0) count_gen (\<lambda>s. s) pair_net count_below (\<lambda>s. s) (arp_capture modbus_frame) 3
      \<lparr>ro_remap_l3 = False, ro_hints = [], ro_mutators = all_mutators []\<rparr> = ret (cap', res) \<and>
    rr_frames res = 1 \<and> cap_header cap' = ()) \<and>
   (\<exists>cap cap' res s. forge_round (\<lambda>_. 0) count_gen (\<lambda>s. s) pair_net count_below (\<lambda>s. s) (arp_capture modbus_frame) 3
      \<lparr>ro_remap_l3 = True, ro_hints = [], ro_mutators = all_mutators []\<rparr> = ret (cap', res) \<and>
    remap_capture pair_net count_below (\<lambda>s. s) (arp_capture modbus_frame) [] 3 True = ret (cap, s) \<and>
    rr_frames res \<le> length (cap_packets cap))"
proof (intro conjI)
  let ?opts = "\<lambda>on. \<lparr>ro_remap_l3 = on, ro_hints = [], ro_mutators = all_mutators []\<rparr>"
  let ?round = "\<lambda>on. forge_round (\<lambda>_. 0) count_gen (\<lambda>s. s) pair_net count_below (\<lambda>s. s) (arp_capture modbus_frame) 3 (?opts on)"
  have round: "\<exists>cap cap' res ps. ?round on = ret (cap', res) \<and>
      (if on then \<exists>s. remap_capture pair_net count_below (\<lambda>s. s) (arp_capture modbus_frame) [] 3 True = ret (cap, s)
       else cap = arp_capture modbus_frame) \<and>
      list_all2 packet_edit (cap_packets cap) ps \<and> cap_packets cap' = filter (\<lambda>p. length (pk_data p) \<le> 1514) ps \<and>
      rr_frames res = length (cap_packets cap') \<and> cap_header cap' = cap_header cap" for on
    using forge_round_frames [OF count_gen_ok, where crc = "\<lambda>_. 0" and seed_gen = "\<lambda>s. s" and N = pair_net
        and below = count_below and seed_below = "\<lambda>s. s" and src = "arp_capture modbus_frame" and seed = 3
        and opts = "?opts on"] unfolding reload_options.simps .
  obtain cap' res ps where *: "?round False = ret (cap', res)" "list_all2 packet_edit (cap_packets (arp_capture modbus_frame)) ps"
    "cap_packets cap' = filter (\<lambda>p. length (pk_data p) \<le> 1514) ps" "rr_frames res = length (cap_packets cap')"
    using round [of False] by auto
  obtain p' where p: "ps = [p']" "packet_edit \<lparr>pk_ts = 0, pk_orig_len = 42, pk_data = modbus_frame\<rparr> p'"
    using *(2) by (auto simp: arp_capture_def list_all2_Cons1)
  then have "length (pk_data p') = 66"
    by (auto simp: packet_edit_def modbus_parse modbus_layout_def agree_on_def)
  with * p show "\<exists>cap' res. ?round False = ret (cap', res) \<and> rr_frames res = 1 \<and> cap_header cap' = ()" by auto
  obtain cap cap' res ps s where on: "?round True = ret (cap', res)"
    "remap_capture pair_net count_below (\<lambda>s. s) (arp_capture modbus_frame) [] 3 True = ret (cap, s)"
    "list_all2 packet_edit (cap_packets cap) ps" "cap_packets cap' = filter (\<lambda>p. length (pk_data p) \<le> 1514) ps"
    "rr_frames res = length (cap_packets cap')"
    using round [of True] by auto
  have "rr_frames res \<le> length (cap_packets cap)"
    using list_all2_lengthD [OF on(3)] length_filter_le [of "\<lambda>p. length (pk_data p) \<le> 1514" ps] on(4,5) by simp
  with on(1,2) show "\<exists>cap cap' res s. ?round True = ret (cap', res) \<and>
      remap_capture pair_net count_below (\<lambda>s. s) (arp_capture modbus_frame) [] 3 True = ret (cap, s) \<and>
      rr_frames res \<le> length (cap_packets cap)" by blast
qed

text \<open>
  With the remap on, nothing the later mutation does brings a public address back: no emitted frame carries
  one.
\<close>

theorem forge_round_not_public:
  assumes "gen_ok gen" and "net_ok N" and "below_ok below" and "ro_remap_l3 opts"
  shows "\<exists>cap' res. forge_round crc gen seed_gen N below seed_below src seed opts = ret (cap', res) \<and>
    (\<forall>p \<in> set (cap_packets cap'). carries_public_address (pk_data p) = ret False \<and> length (pk_data p) \<le> 1514)"
proof -
  obtain cap cap' res ps where f: "forge_round crc gen seed_gen N below seed_below src seed opts = ret (cap', res)"
    and r: "if ro_remap_l3 opts
      then \<exists>s. remap_capture N below seed_below src (ro_hints opts) seed True = ret (cap, s)
      else cap = src"
    and ps: "list_all2 packet_edit (cap_packets cap) ps"
    and c: "cap_packets cap' = filter (\<lambda>p. length (pk_data p) \<le> 1514) ps"
    using forge_round_ok [OF assms(1), where crc = crc and seed_gen = seed_gen and N = N and below = below
        and seed_below = seed_below and src = src and seed = seed and opts = opts] by metis
  obtain s where "remap_capture N below seed_below src (ro_hints opts) seed True = ret (cap, s)"
    using r assms(4) by auto
  then have np: "carries_public_address (pk_data p) = ret False" if "p \<in> set (cap_packets cap)" for p
    using remap_survivor_not_public [OF assms(2,3)] that by blast
  have "carries_public_address (pk_data p') = ret False" if p': "p' \<in> set ps" for p'
  proof -
    obtain i where i: "i < length ps" "ps ! i = p'" using p' by (auto simp: in_set_conv_nth)
    then have "packet_edit (cap_packets cap ! i) p'" and "cap_packets cap ! i \<in> set (cap_packets cap)"
      using list_all2_nthD2 [OF ps, of i] list_all2_lengthD [OF ps] by auto
    then show ?thesis using packet_edit_not_public np by blast
  qed
  with f c show ?thesis by auto
qed

theorem forge_round_not_public_witness:
  "\<exists>cap' res. forge_round (\<lambda>_. 0) count_gen (\<lambda>s. s) pair_net count_below (\<lambda>s. s) (arp_capture arp_frame) 5
      \<lparr>ro_remap_l3 = True, ro_hints = [], ro_mutators = all_mutators []\<rparr> = ret (cap', res) \<and>
    list_all (\<lambda>p. carries_public_address (pk_data p) = ret False) (cap_packets cap')"
  using forge_round_not_public [OF count_gen_ok pair_net_ok count_below_ok, where crc = "\<lambda>_. 0" and
      seed_gen = "\<lambda>s. s" and seed_below = "\<lambda>s. s" and src = "arp_capture arp_frame" and seed = 5
      and opts = "\<lparr>ro_remap_l3 = True, ro_hints = [], ro_mutators = all_mutators []\<rparr>"]
  by (auto simp: list_all_iff)

section \<open>Zone reconciliation\<close>

text \<open>
  Reconciling a capture into the fabricated zones returns; in particular the search for an unused MAC
  ends: as long as fewer than \<open>2 ^ 24\<close> MACs are spoken for, some salt reaches a free address, whatever
  the seed.
\<close>

theorem reconcile_terminates:
  assumes "net_ok N" and "macs_left ctx" and "macs_ok (rc_device_macs ctx)"
  shows "\<exists>cap' s as. reconcile_capture_into_zones N cap groups ctx = ret (cap', s, as)"
  using reconcile_total [OF assms, of cap groups] by auto

theorem reconcile_terminates_witness:
  "\<exists>cap' s as. reconcile_capture_into_zones pair_net (arp_capture arp_frame) [sample_group] sample_ctx = ret (cap', s, as)"
  by (rule reconcile_terminates [OF pair_net_ok sample_ctx_ok(1,2)])

text \<open>
  The assets a reconciliation registers respect the budget and the plan: at most \<open>budget\<close> of them; their
  IPs are distinct, lie in the zone whose vendor, protocol and level they take, and collide with no
  fabricated device and no registered asset; their MACs are distinct and collide with no reserved MAC.  When
  some zone has a device, every captured host is mapped, and the summary counts them.
\<close>

theorem reconcile_assets:
  assumes "net_ok N" and "macs_left ctx" and "macs_ok (rc_device_macs ctx)" and "rc_zones ctx \<noteq> []"
    and "has_device ctx"
  shows "\<exists>cap' s as. reconcile_capture_into_zones N cap groups ctx = ret (cap', s, as) \<and>
    length as \<le> rc_budget ctx \<and>
    distinct (map na_ip as) \<and> na_ip ` set as \<inter> plan_base ctx = {} \<and>
    distinct (map na_mac as) \<and> na_mac ` set as \<inter> rc_reserved_macs ctx = {} \<and>
    (\<forall>a \<in> set as. \<exists>z \<in> set (rc_zones ctx). asset_of N z a) \<and>
    rs_host_count s = card (\<Union>g \<in> set groups. set (cg_hosts g))"
proof -
  obtain cap' s as where r: "reconcile_capture_into_zones N cap groups ctx = ret (cap', s, as)"
    using reconcile_total [OF assms(1-3), of cap groups] by auto
  obtain st where st: "zone_inv N ctx st" "as = zs_new st" "rs_host_count s = card (map_keys st)"
    "map_keys st = (\<Union>g \<in> set groups. set (cg_hosts g))"
    using reconcile_result [OF assms(1,2,4) r] assms(5) by metis
  then show ?thesis using r by (auto simp: zone_inv_def assets_ok_def)
qed

theorem reconcile_assets_witness:
  "\<exists>cap' s as. reconcile_capture_into_zones pair_net (arp_capture arp_frame) [sample_group] sample_ctx = ret (cap', s, as) \<and>
    length as \<le> 1 \<and> rs_host_count s = 2"
proof -
  have "(\<Union>g \<in> set [sample_group]. set (cg_hosts g)) = {0xc0a8010a, 0xc0a80114}" "rc_budget sample_ctx = 1"
    by (simp_all add: sample_group_def sample_ctx_def)
  with reconcile_assets [OF pair_net_ok sample_ctx_ok(1-4), of "arp_capture arp_frame" "[sample_group]"]
  show ?thesis by auto
qed

text \<open>
  Every frame that leaves a reconciliation is coherent with the plan: its source, and its destination
  unless that is a broadcast or the like, is a fabricated device, a registered asset or a new asset, and none of
  its four-byte windows is the original address of a captured host.
\<close>

theorem reconcile_frames:
  assumes "net_ok N" and "macs_left ctx" and "macs_ok (rc_device_macs ctx)" and "rc_zones ctx \<noteq> []"
    and "has_device ctx"
  shows "\<exists>cap' s as. reconcile_capture_into_zones N cap groups ctx = ret (cap', s, as) \<and>
    (\<forall>p \<in> set (cap_packets cap').
      (\<exists>l valid. parse_layout (pk_data p) = ret (Some l) \<and> coherent_at valid (pk_data p) l \<and>
        valid \<subseteq> plan_base ctx \<union> na_ip ` set as) \<and>
      (\<forall>g \<in> set groups. \<forall>h \<in> set (cg_hosts g). \<not> sublist (octets h) (pk_data p)))"
proof -
  obtain cap' s as where r: "reconcile_capture_into_zones N cap groups ctx = ret (cap', s, as)"
    using reconcile_total [OF assms(1-3), of cap groups] by auto
  have "(\<exists>l valid. parse_layout (pk_data p) = ret (Some l) \<and> coherent_at valid (pk_data p) l \<and>
        valid \<subseteq> plan_base ctx \<union> na_ip ` set as) \<and>
      (\<forall>g \<in> set groups. \<forall>h \<in> set (cg_hosts g). \<not> sublist (octets h) (pk_data p))"
    if p: "p \<in> set (cap_packets cap')" for p
    by (rule reconcile_survivors [OF assms(1,2,4) r p]) (use assms(5) in blast)
  with r show ?thesis by blast
qed

theorem reconcile_frames_witness:
  "\<exists>cap' s as. reconcile_capture_into_zones pair_net (arp_capture arp_frame) [sample_group] sample_ctx = ret (cap', s, as) \<and>
    (\<forall>p \<in> set (cap_packets cap'). \<not> sublist (octets 0xc0a8010a) (pk_data p))"
  using reconcile_frames [OF pair_net_ok sample_ctx_ok(1-4), of "arp_capture arp_frame" "[sample_group]"]
  by (auto simp: sample_group_def)

text \<open>
  The MAC reported for a new asset is the one on the wire: an IPv4 frame whose source became the asset's
  address carries the asset's MAC as its Ethernet source, also when the natural MAC was perturbed off a
  collision (the capture must not use addresses of the zones itself).
\<close>

theorem reconcile_macs_agree:
  assumes "net_ok N" and "macs_left ctx" and "macs_ok (rc_device_macs ctx)" and "rc_zones ctx \<noteq> []"
    and "rc_remap_mac ctx" and "dom (rc_device_macs ctx) \<subseteq> plan_base ctx"
    and "\<forall>q \<in> set (cap_packets cap). \<forall>x \<in> set (addrs_of (pk_data q)).
      \<forall>z \<in> set (rc_zones ctx). \<not> no_contains N (zt_net z) x"
  shows "\<exists>cap' s as. reconcile_capture_into_zones N cap groups ctx = ret (cap', s, as) \<and>
    (\<forall>p \<in> set (cap_packets cap'). \<forall>l. parse_layout (pk_data p) = ret (Some l) \<and> fl_l3_kind l = L3_Ipv4 \<longrightarrow>
      (\<forall>a \<in> set as. word32_at (pk_data p) (fl_l3 l + 12) = na_ip a \<longrightarrow> take 6 (drop 6 (pk_data p)) = na_mac a))"
proof -
  obtain cap' s as where r: "reconcile_capture_into_zones N cap groups ctx = ret (cap', s, as)"
    using reconcile_total [OF assms(1-3), of cap groups] by auto
  obtain st where st: "zone_inv N ctx st" "as = zs_new st"
    using reconcile_result [OF assms(1,2,4) r] by metis
  have ok: "assets_ok N ctx as" using st by (simp add: zone_inv_def)
  have out: "na_ip a \<notin> set (addrs_of (pk_data q))" if i: "a \<in> set as" "q \<in> set (cap_packets cap)" for a q
  proof -
    obtain z where "z \<in> set (rc_zones ctx)" "asset_of N z a"
      using ok i(1) by (auto simp: assets_ok_def)
    then show ?thesis using assms(7) i(2) by (auto simp: asset_of_def)
  qed
  from reconcile_wire_mac [OF assms(1,2,4,5,3,6) r _ _ _ _ _ out] r show ?thesis by blast
qed

theorem reconcile_macs_agree_witness:
  "\<exists>cap' s as. reconcile_capture_into_zones pair_net (arp_capture arp_frame) [sample_group] sample_ctx = ret (cap', s, as)"
  using reconcile_macs_agree [OF pair_net_ok sample_ctx_ok(1-3) sample_ctx_ok(5,6) arp_addrs_outside, of "[sample_group]"]
  by blast

section \<open>Synthesized frames and TCP sessions\<close>

text \<open>
  C15: a TCP segment of the frame builder parses to the layout of its headers, has valid checksums, and carries
  the addresses, ports, sequence numbers, flags and payload asked for.
\<close>

theorem tcp_segment_reads_back:
  assumes "length smac = 6" and "length dmac = 6" and "length payload \<le> 65495"
  shows "\<exists>b. tcp_segment smac dmac src dst sport dport seq ack flags payload = ret b \<and> tcp_frame_ok b \<and>
    length b = 54 + length payload \<and>
    tcp_view_of b = \<lparr>lv_src_mac = smac, lv_dst_mac = dmac, lv_src = src, lv_dst = dst, lv_sport = sport,
      lv_dport = dport, lv_payload = payload, tv_seq = seq, tv_ack = ack, tv_flags = flags\<rparr>"
proof -
  obtain b where "tcp_segment smac dmac src dst sport dport seq ack flags payload = ret b"
    "parse_layout b = ret (Some (synth_layout L4_Tcp 20 (length payload)))"
    "checksums_valid b (synth_layout L4_Tcp 20 (length payload)) = ret True" "length b = 54 + length payload"
    "tcp_view_of b = \<lparr>lv_src_mac = smac, lv_dst_mac = dmac, lv_src = src, lv_dst = dst, lv_sport = sport,
      lv_dport = dport, lv_payload = payload, tv_seq = seq, tv_ack = ack, tv_flags = flags\<rparr>"
    by (rule tcp_segment_ok [OF assms])
  then show ?thesis by (simp add: tcp_frame_ok_def)
qed

theorem tcp_segment_reads_back_witness:
  "\<exists>b. tcp_segment [2, 0, 0, 0, 0, 1] [2, 0, 0, 0, 0, 2] 0x0a0000fa 0x0a000005 50000 502 7 9 TCP_SYN [1, 2, 3] = ret b \<and>
    length b = 57 \<and> tv_seq (tcp_view_of b) = 7"
  using tcp_segment_reads_back [of "[2, 0, 0, 0, 0, 1]" "[2, 0, 0, 0, 0, 2]" "[1, 2, 3]" "0x0a0000fa" "0x0a000005"
      50000 502 7 9 TCP_SYN] by auto

text \<open>
  C16: a synthesized connection is one a receiver can follow: \<open>request_response\<close> returns nine frames with valid
  checksums, and a receiver of either direction, which takes a segment only when it carries exactly the next
  sequence number, recovers the request or the response and sees the stream closed.
\<close>

theorem session_reassembles:
  assumes "length cmac = 6" and "length smac = 6" and "(cip, cport) \<noteq> (sip, sport)"
    and "length request \<le> 65495" and "length response \<le> 65495"
  shows "\<exists>fs. request_response cmac smac cip sip cport sport request response = ret fs \<and> length fs = 9 \<and>
    list_all tcp_frame_ok fs \<and> delivers fs cip cport request \<and> delivers fs sip sport response"
proof -
  let ?ps = "[(Client, request), (Server, response)]"
  have "list_all (\<lambda>(d, p). length p \<le> 65495) ?ps" using assms(4,5) by simp
  from tcp_converse_ok [OF assms(1-3) this] obtain fs where
    "tcp_converse cmac smac cip sip cport sport ?ps = ret fs" "length fs = 7 + length ?ps"
    "tcp_conversation fs cip cport sip sport (said_by Client ?ps) (said_by Server ?ps)" by metis
  then show ?thesis by (auto simp: request_response_converse tcp_conversation_def said_by_def)
qed

theorem session_reassembles_witness:
  "\<exists>fs. request_response [2, 0, 0, 0, 0, 1] [2, 0, 0, 0, 0, 2] 0x0a0000fa 0x0a000005 50000 502 [1, 2, 3] [4, 5] = ret fs \<and>
    delivers fs 0x0a0000fa 50000 [1, 2, 3]"
  using session_reassembles [of "[2, 0, 0, 0, 0, 1]" "[2, 0, 0, 0, 0, 2]" "0x0a0000fa" 50000 "0x0a000005" 502
      "[1, 2, 3]" "[4, 5]"] by auto

section \<open>Protocol builders\<close>

text \<open>
  A register write reaches the device as written: the conversation returns, every frame is valid, and the
  device decodes from the client's stream the unit, the start address and the values, of which the builder
  sends the first 123, the most one Modbus request can carry.
\<close>

theorem modbus_write_delivers:
  assumes "length cm = 6" and "length dm = 6" and "(ci, cp) \<noteq> (di, 502)"
  shows "\<exists>fs up down. write_multiple_registers cm dm ci di cp unit_id addr vals = ret fs \<and>
    tcp_conversation fs ci cp di 502 up down \<and> decode_write up = Some (unit_id, addr, take 123 vals) \<and>
    down = write_multiple_response unit_id addr (word_of_nat (min (length vals) 123))"
  by (rule write_multiple_ok [OF assms])

theorem modbus_write_delivers_witness:
  "\<exists>fs up down. write_multiple_registers [2, 0, 0, 0, 0, 1] [2, 0, 0, 0, 0, 2] 0x0a0000fa 0x0a000005 50000 1 40 [7, 9] = ret fs \<and>
    tcp_conversation fs 0x0a0000fa 50000 0x0a000005 502 up down \<and> decode_write up = Some (1, 40, [7, 9])"
  using modbus_write_delivers [of "[2, 0, 0, 0, 0, 1]" "[2, 0, 0, 0, 0, 2]" "0x0a0000fa" 50000 "0x0a000005" 1 40 "[7, 9]"]
  by auto

text \<open>
  A program download runs the three download functions in order on a set-up connection: after the COTP
  connection request the PLC reads from the client's stream setup communication, request download, download
  block with the whole block as its data, and download ended, each record with exact length fields.
\<close>

theorem s7_download_delivers:
  assumes "length cm = 6" and "length pm = 6" and "(ci, cp) \<noteq> (pi, S7_PORT)" and "length mc7 \<le> 65000"
  shows "\<exists>fs up down. s7_program_download cm pm ci pi cp block_id mc7 = ret fs \<and> length fs = 17 \<and>
    tcp_conversation fs ci cp pi S7_PORT up down \<and>
    s7_jobs up = Some [None, Some (0x01, 0xf0, []), Some (0x01, 0x1a, []), Some (0x01, 0x1b, mc7), Some (0x01, 0x1c, [])]"
  by (rule program_download_stream [OF assms, of block_id]) blast

theorem s7_download_delivers_witness:
  "\<exists>fs up down. s7_program_download [2, 0, 0, 0, 0, 1] [2, 0, 0, 0, 0, 2] 0x0a0000fa 0x0a000005 50000 ''00080'' [1, 2, 3] = ret fs \<and>
    length fs = 17 \<and> tcp_conversation fs 0x0a0000fa 50000 0x0a000005 102 up down"
  using s7_download_delivers [of "[2, 0, 0, 0, 0, 1]" "[2, 0, 0, 0, 0, 2]" "0x0a0000fa" 50000 "0x0a000005" "[1, 2, 3]" "''00080''"]
  by (auto simp: S7_PORT_def)

text \<open>
  C17: a breaker command over IEC 60870-5-104 is delivered on a started link: the substation reads
  STARTDT, the activation with the commanded state, and the acknowledgement of both answers; the master reads
  the confirmation, the activation confirmation and the termination, with consecutive send numbers.
\<close>

theorem iec104_command_delivers:
  assumes "length cm = 6" and "length rm = 6" and "(ci, cp) \<noteq> (ri, IEC104_PORT)"
  shows "\<exists>fs up down. iec104_single_command cm rm ci ri cp ca ioa close = ret fs \<and>
    tcp_conversation fs ci cp ri IEC104_PORT up down \<and>
    get_all get_apdu up = Some [U_Format 0x07, I_Format 0 0 (asdu 45 6 ca ioa [of_bool close]), S_Format 2] \<and>
    get_all get_apdu down = Some [U_Format 0x0b, I_Format 0 1 (asdu 45 7 ca ioa [of_bool close]),
      I_Format 1 1 (asdu 45 10 ca ioa [of_bool close])] \<and>
    get_asdu (asdu 45 6 ca ioa [of_bool close]) = Some (45, 6, ca, take_bit 24 ioa, [of_bool close])"
  using iec104_single_ok [OF assms, of ca ioa close] get_asdu_asdu by blast

theorem iec104_command_delivers_witness:
  "\<exists>fs up down. iec104_single_command [2, 0, 0, 0, 0, 1] [2, 0, 0, 0, 0, 2] 0x0a0000fa 0x0a000005 50000 1 100 True = ret fs \<and>
    tcp_conversation fs 0x0a0000fa 50000 0x0a000005 IEC104_PORT up down"
  using iec104_command_delivers [of "[2, 0, 0, 0, 0, 1]" "[2, 0, 0, 0, 0, 2]" "0x0a0000fa" 50000 "0x0a000005" 1 100 True]
  by auto

text \<open>
  C18: the DNP3 mutator run on a frame of the DNP3 builder gives the frame the builder makes for the mapped
  addresses, header CRC and data blocks included.
\<close>

theorem dnp3_mutates_built_frame:
  assumes "length user \<le> 250" and "mapper_inv gen m"
  shows "\<exists>m' rs. walk (dnp3_step crc gen) 0 (link_frame crc ctrl dest src user) m =
    ret (link_frame crc ctrl (mapped m' Dnp3Addr dest) (mapped m' Dnp3Addr src) user, m', rs)"
proof -
  obtain p' m' rs where "walk (dnp3_step crc gen) 0 (link_frame crc ctrl dest src user) m = ret (p', m', rs)"
    "p' = link_frame crc ctrl (mapped m' Dnp3Addr dest) (mapped m' Dnp3Addr src) user"
    by (rule mutated_link_frame [OF assms, of crc ctrl dest src])
  then show ?thesis by blast
qed

theorem dnp3_mutates_built_frame_witness:
  "\<exists>m' rs. walk (dnp3_step (\<lambda>b. word_of_nat (length b)) count_gen) 0
      (link_frame (\<lambda>b. word_of_nat (length b)) 0xC4 1 1001 [0xC0, 0x01]) (from_seed (\<lambda>s. s) 7) =
    ret (link_frame (\<lambda>b. word_of_nat (length b)) 0xC4 (mapped m' Dnp3Addr 1) (mapped m' Dnp3Addr 1001) [0xC0, 0x01], m', rs)"
  by (rule dnp3_mutates_built_frame) (simp_all add: from_seed_inv [OF count_gen_ok])

text \<open>
  C19: the EtherNet/IP mutator run on a List Identity reply of the builder gives the builder's reply for the
  mutated device: vendor, device type and product code of one table entry, the mapped serial number, and the
  name and revision of the original.
\<close>

theorem enip_mutates_built_reply:
  assumes "length (en_product_name i) \<le> 65000"
  shows "\<exists>rs. enip_payload gen ids (list_identity_reply i) m =
    (let (i', m') = mutated_ident gen ids i m in ret (list_identity_reply i', m', rs))"
  by (rule enip_payload_reply [OF assms])

theorem enip_mutates_built_reply_witness:
  "\<exists>i' m' rs. enip_payload count_gen [\<lparr>ei_vendor = 5, ei_device_type = 14, ei_product_code = 60\<rparr>]
      (list_identity_reply \<lparr>en_vendor_id = 1, en_device_type = 14, en_product_code = 54, en_revision_major = 20,
         en_revision_minor = 11, en_serial = 7, en_product_name = ''1756-L61''\<rparr>) (from_seed (\<lambda>s. s) 7) =
    ret (list_identity_reply i', m', rs) \<and> en_product_name i' = ''1756-L61'' \<and> en_vendor_id i' = 5"
  using enip_mutates_built_reply [of "\<lparr>en_vendor_id = 1, en_device_type = 14, en_product_code = 54, en_revision_major = 20,
         en_revision_minor = 11, en_serial = 7, en_product_name = ''1756-L61''\<rparr>" count_gen
      "[\<lparr>ei_vendor = 5, ei_device_type = 14, ei_product_code = 60\<rparr>]" "from_seed (\<lambda>s. s) 7"]
  by (fastforce simp: mutated_ident_def Let_def split: prod.splits)

text \<open>
  An SNMP exchange is two valid datagrams that a BER reader takes for the request and the response: version,
  community, request number and one binding per present value, in order, with the object identifiers
  and strings asked for, whatever the lengths of the fields up to the size of a datagram.
\<close>

theorem snmp_exchange_reads_back:
  assumes "length mm = 6" and "length sm = 6"
    and "length community + sum_list (map binding_size (request_bindings fo)) \<le> 65000"
    and "length community + sum_list (map binding_size (response_bindings descr so fo fw)) \<le> 65000"
  shows "\<exists>rf pf req resp. snmp_exchange mm sm mi si mp community rid descr so fo fw = ret (rf, pf) \<and>
    datagram rf mi mp si SNMP_PORT req \<and> datagram pf si SNMP_PORT mi mp resp \<and>
    snmp_read req = Some \<lparr>sv_version = 1, sv_community = community, sv_pdu = 0xA0, sv_request = unat rid,
        sv_bindings = request_bindings fo\<rparr> \<and>
    snmp_read resp = Some \<lparr>sv_version = 1, sv_community = community, sv_pdu = 0xA2, sv_request = unat rid,
        sv_bindings = response_bindings descr so fo fw\<rparr>"
  by (rule snmp_exchange_ok [OF assms])

theorem snmp_exchange_reads_back_witness:
  "\<exists>rf pf resp. snmp_exchange [2, 0, 0, 0, 0, 1] [2, 0, 0, 0, 0, 2] 0x0a0000fa 0x0a000005 50000 ''public'' 4660 ''IE3000''
      None None None = ret (rf, pf) \<and> datagram pf 0x0a000005 161 0x0a0000fa 50000 resp"
  using snmp_exchange_reads_back [of "[2, 0, 0, 0, 0, 1]" "[2, 0, 0, 0, 0, 2]" "''public''" None "''IE3000''" None None
      "0x0a0000fa" "0x0a000005" 50000 4660]
  by (auto simp: request_bindings_def response_bindings_def opt_octets_def binding_size_def SYSDESCR_OID_def SYSOBJECTID_OID_def)

text \<open>
  C30: \<open>encode_oid\<close> never panics: ten octets are enough for the base-128 digits of every 64-bit arc, so the
  array is never overrun; and for every identifier whose first pair fits one octet the octets read back
  as its arcs.
\<close>

theorem oid_reads_back:
  "\<exists>r. encode_oid s = ret r \<and> (\<forall>ns. oid_ok ns \<and> s = dotted ns \<longrightarrow> (\<exists>b. r = Some b \<and> decode_oid b = Some ns))"
  using encode_oid_ok oid_roundtrip by fastforce

theorem oid_reads_back_witness:
  "\<exists>b. encode_oid (dotted [1, 3, 6, 1, 4, 1, 8691, 7, 50]) = ret (Some b) \<and>
    decode_oid b = Some [1, 3, 6, 1, 4, 1, 8691, 7, 50]"
  using oid_reads_back [of "dotted [1, 3, 6, 1, 4, 1, 8691, 7, 50]"] by (auto simp: oid_ok_def)

text \<open>
  A TriStation program download returns valid datagrams; the controller reads the workstation's messages
  as the script allocate, numbered pieces, run; and the pieces put together are the program, for every chunk size,
  0 included.
\<close>

theorem tristation_reassembles:
  assumes "link_ok l" and "min (length payload) chunk \<le> 65499"
  shows "\<exists>fs. ts_program_download l payload chunk = ret fs \<and> list_all udp_frame_ok fs \<and>
    length fs = 4 + 2 * length (chunks (max chunk 1) payload) \<and>
    ews_sent l fs = map Some (ts_script payload (max chunk 1)) \<and>
    downloaded (ts_script payload (max chunk 1)) = payload"
  using ts_program_download_ok [OF assms] downloaded_script [of "max chunk 1" payload] by auto

theorem tristation_reassembles_witness:
  "\<exists>fs. ts_program_download \<lparr>tl_ews_mac = [2, 0, 0, 0, 0, 1], tl_tricon_mac = [2, 0, 0, 0, 0, 2], tl_ews_ip = 0x0a0000fa,
      tl_tricon_ip = 0x0a000005, tl_ews_port = 51001\<rparr> [1, 2, 3, 4, 5] 2 = ret fs \<and> length fs = 10"
  using tristation_reassembles [of "\<lparr>tl_ews_mac = [2, 0, 0, 0, 0, 1], tl_tricon_mac = [2, 0, 0, 0, 0, 2], tl_ews_ip = 0x0a0000fa,
      tl_tricon_ip = 0x0a000005, tl_ews_port = 51001\<rparr>" "[1, 2, 3, 4, 5]" 2]
  by (auto simp: link_ok_def chunks.simps)

text \<open>
  The beacons of a switch are accepted by a strict receiver: the LLDP frame splits into exactly the
  records sent, and the CDP frame has the right 802.3 length and a checksum that verifies, for odd lengths
  and a trailing byte with the high bit set too.
\<close>

theorem beacons_verify:
  assumes "length switch_mac = 6" and "length system_name < 512" and "length system_descr < 512"
    and "length device_id + length software_version + length platform \<le> 60000"
  shows "lldp_view (lldp_beacon switch_mac ip system_name system_descr) = Some (switch_mac,
      [(1, 4 # switch_mac), (2, 7 # as_bytes ''1''), (3, to_be16 120), (5, as_bytes system_name),
       (6, as_bytes system_descr), (8, mgmt_address ip), (0, [])]) \<and>
    cdp_view (cdp_beacon switch_mac ip device_id software_version platform) = Some (switch_mac,
      [(0x0001, as_bytes device_id), (0x0002, cdp_addresses ip), (0x0005, as_bytes software_version),
       (0x0006, as_bytes platform)])"
  using lldp_beacon_view [OF assms(1-3)] cdp_beacon_view [OF assms(1,4)] by blast

theorem beacons_verify_witness:
  "\<exists>v w. lldp_view (lldp_beacon [0, 128, 99, 1, 2, 3] 0x0a020009 ''sw-cell-1'' ''RSP20'') = Some v \<and>
    cdp_view (cdp_beacon [0, 128, 99, 1, 2, 3] 0x0a020009 ''IE3000-1'' ''15.2'' ''cisco'') = Some w"
  using beacons_verify [of "[0, 128, 99, 1, 2, 3]" "''sw-cell-1''" "''RSP20''" "''IE3000-1''" "''15.2''" "''cisco''" "0x0a020009"]
  by simp

text \<open>
  A C2 beacon is coherent: the lookup and its answer are valid datagrams between the host's port and the
  resolver, the answer binds the labels of the domain to the C2 address, and the HTTP contact that
  follows goes to that address and carries the domain.
\<close>

theorem c2_beacon_coherent:
  assumes "length hm = 6" and "length rm = 6" and "length gm = 6" and "length (c2_domain c2) \<le> 30000"
    and "(hi, (cp + 1) OR 0xc000) \<noteq> (c2_ip c2, c2_port c2)"
  shows "\<exists>q r fs. c2_beacon hm hi rm ri gm c2 cp qid = ret (q # r # fs) \<and>
    datagram q hi cp ri DNS_PORT (query_payload qid (c2_domain c2)) \<and>
    datagram r ri DNS_PORT hi cp (response_payload qid (c2_domain c2) (c2_ip c2)) \<and>
    get_dns (response_payload qid (c2_domain c2) (c2_ip c2)) =
      Some (qid, 0x8180, name_labels (c2_domain c2), Some (c2_ip c2)) \<and>
    tcp_conversation fs hi ((cp + 1) OR 0xc000) (c2_ip c2) (c2_port c2) (http_ping (c2_domain c2)) http_ok"
  by (rule c2_beacon_ok [OF assms])

theorem c2_beacon_coherent_witness:
  "\<exists>q r fs. c2_beacon [2, 0, 0, 0, 0, 1] 0x0a000005 [2, 0, 0, 0, 0, 2] 0x0a000001 [2, 0, 0, 0, 0, 254]
      \<lparr>c2_domain = ''a.example'', c2_ip = 0xcb007107, c2_port = 80\<rparr> 50000 4660 = ret (q # r # fs) \<and>
    tcp_conversation fs 0x0a000005 50001 0xcb007107 80 (http_ping ''a.example'') http_ok"
  using c2_beacon_coherent [of "[2, 0, 0, 0, 0, 1]" "[2, 0, 0, 0, 0, 2]" "[2, 0, 0, 0, 0, 254]"
      "\<lparr>c2_domain = ''a.example'', c2_ip = 0xcb007107, c2_port = 80\<rparr>" "0x0a000005" 50000 "0x0a000001" 4660]
  by auto

section \<open>The ledger and the resolution graph\<close>

text \<open>
  Whatever updates a session makes to a fresh ledger, it stays well formed: at most 16 subnets with
  distinct networks, at most 2000 devices, and one registered host per address.  The registry only grows, in order,
  and its generation, the key of the remap cache, counts the growth.
\<close>

theorem ledger_well_formed:
  "ledger_ok (fold ledger_step ops (ledger_new seed now)) \<and>
   lg_registry_generation (fold ledger_step ops (ledger_new seed now)) =
     word_of_nat (length (lg_capture_hosts (fold ledger_step ops (ledger_new seed now))))"
proof
  show "ledger_ok (fold ledger_step ops (ledger_new seed now))"
    by (rule ledger_run_ok) (rule ledger_new_ok)
  show "lg_registry_generation (fold ledger_step ops (ledger_new seed now)) =
     word_of_nat (length (lg_capture_hosts (fold ledger_step ops (ledger_new seed now))))"
    using ledger_run_hosts [of ops "ledger_new seed now"] by (auto simp: ledger_new_def)
qed

text \<open>
  Every asset of the ledger, device or captured host, answers a resolution of the burst, so a passive sensor
  binds its address to its MAC.  No requester of a zone with distinct addresses resolves more than five owners,
  so none looks like a scan.
\<close>

theorem arp_graph_binds:
  assumes "(cidr, x) \<in> set (ledger_assets s)" and "station_addr N cidr \<noteq> 0"
  shows "(\<exists>e \<in> set (arp_edges N s seed). eg_owner e = x) \<and>
    (distinct (map nd_ip reals) \<and> reals \<noteq> [] \<longrightarrow>
      length (filter (\<lambda>e. eg_requester e = r) (zone_edges N seed cidr reals)) \<le> 5)"
proof -
  have "distinct (map nd_ip reals) \<Longrightarrow> distinct (zone_nodes N seed cidr reals)"
    using zone_nodes_distinct [of reals N seed cidr] by (simp add: distinct_map)
  then show ?thesis
    using arp_edges_bind [OF assms] zone_edges_fan [OF _ assms(2), of reals seed r] by (auto simp: CELL_SIZE_def)
qed

theorem arp_graph_binds_witness:
  "\<exists>e \<in> set (arp_edges plant_net sample_plant 1337). nd_ip (eg_owner e) = 0x0a140a0b"
proof -
  let ?x = "\<lparr>nd_ip = 0x0a140a0b, nd_mac = parse_mac ''00:0e:8c:11:22:33''\<rparr>"
  have "(''10.20.10.0/24'', ?x) \<in> set (ledger_assets sample_plant)"
    by (simp add: ledger_assets_def sample_plant_def sample_device_def sample_addresses List.map_filter_def)
  then show ?thesis
    using arp_graph_binds [of "''10.20.10.0/24''" ?x sample_plant plant_net 1337 "[]"] plant_station by force
qed

section \<open>The plan\<close>

text \<open>
  The zones derived from a capture partition its unicast hosts by their subnet.  They cover exactly the remappable
  addresses the frames carry, each once; every zone holds the hosts of one subnet in ascending order, and its vendor,
  if any of its MACs is known, has the most of them.
\<close>

theorem zones_partition_hosts:
  assumes "net_ok N" and "hash_order keys" and "hash_order order"
  shows "\<exists>macs hosts zs. sightings_of ps = ret (macs, hosts) \<and> derive_zones N keys order ps hints oui = ret zs \<and>
    distinct (concat (map zn_device_ips zs)) \<and>
    set (concat (map zn_device_ips zs)) = {a \<in> set (capture_addrs ps). is_remappable a} \<and>
    distinct (map zn_cidr zs) \<and> sorted (map (no_network N \<circ> zn_cidr) zs) \<and>
    (\<forall>z \<in> set zs. zn_device_ips z \<noteq> [] \<and> sorted (zn_device_ips z) \<and>
       (\<forall>a \<in> set (zn_device_ips z). subnet_of N a hints = ret (zn_cidr z) \<and> no_contains N (zn_cidr z) a) \<and>
       (case zn_vendor z of None \<Rightarrow> vendor_votes oui macs (zn_device_ips z) = []
        | Some v \<Rightarrow> v \<in> set (vendor_votes oui macs (zn_device_ips z)) \<and>
            (\<forall>w. count_list (vendor_votes oui macs (zn_device_ips z)) w
               \<le> count_list (vendor_votes oui macs (zn_device_ips z)) v)))"
proof -
  obtain macs hosts zs where z: "sightings_of ps = ret (macs, hosts)" "derive_zones N keys order ps hints oui = ret zs"
    "distinct hosts" "set hosts = {a \<in> set (capture_addrs ps). is_remappable a}"
    "mset (concat (map zn_device_ips zs)) = mset hosts"
    "distinct (map zn_cidr zs)" "sorted (map (no_network N \<circ> zn_cidr) zs)"
    "\<forall>z \<in> set zs. zn_device_ips z \<noteq> [] \<and> sorted (zn_device_ips z) \<and>
       (\<forall>a \<in> set (zn_device_ips z). subnet_of N a hints = ret (zn_cidr z) \<and> no_contains N (zn_cidr z) a) \<and>
       zn_vendor z = zone_vendor oui order macs (zn_device_ips z)"
    by (rule derive_zones_ok [OF assms])
  have parts: "distinct (concat (map zn_device_ips zs))" "set (concat (map zn_device_ips zs)) = set hosts"
    using mset_eq_imp_distinct_iff [OF z(5)] z(3) mset_eq_setD [OF z(5)] by blast+
  have votes: "case zone_vendor oui order macs ips of None \<Rightarrow> vendor_votes oui macs ips = []
        | Some v \<Rightarrow> v \<in> set (vendor_votes oui macs ips) \<and>
            (\<forall>w. count_list (vendor_votes oui macs ips) w \<le> count_list (vendor_votes oui macs ips) v)" for ips
    using zone_vendor_plurality [OF assms(3), of oui macs ips] by (simp split: option.split)
  show ?thesis
    by (rule exI [of _ macs], rule exI [of _ hosts], rule exI [of _ zs])
      (use z(1,2,4,6,7,8) parts votes in simp)
qed

theorem zones_partition_hosts_witness:
  "\<exists>zs. derive_zones pair_net id id [\<lparr>pk_ts = 0, pk_orig_len = 42, pk_data = arp_frame\<rparr>] [] (oui_parse []) = ret zs \<and>
     set (concat (map zn_device_ips zs)) = {0xc0a8010a, 0xc0a80114}"
proof -
  let ?ps = "[\<lparr>pk_ts = 0, pk_orig_len = 42, pk_data = arp_frame\<rparr>]"
  have "is_remappable 0xc0a8010a" "is_remappable 0xc0a80114" by code_simp+
  then have hosts: "{a \<in> set (capture_addrs ?ps). is_remappable a} = {0xc0a8010a, 0xc0a80114}"
    by (simp add: capture_addrs_def arp_frame_addrs) blast
  have o: "hash_order id" "hash_order id" by (simp_all add: hash_order_def)
  from zones_partition_hosts [OF pair_net_ok o, of ?ps "[]" "oui_parse []"] show ?thesis unfolding hosts by blast
qed

text \<open>
  C20: fabrication returns.  Its loop ends although a chosen zone may turn out full and every MAC is searched for: the
  ledger then holds the target, or every zone is full.  It never passes the target and both caps of the ledger hold;
  every new device sits in a free slot of a zone of the ledger, neither the gateway nor the station, with the identity
  of a core profile, and addresses and MACs stay unique.
\<close>

theorem fabricate_fills:
  assumes "fab_world N below vuln" and "ledger_ok s" and "macs_room s"
  shows "\<exists>s' n r'. fabricate N below coin s vuln params target r = ret (s', n, r') \<and>
    (min target (ap_max_devices params) \<le> device_count s' \<or> full N s') \<and>
    device_count s' \<le> max (min target (ap_max_devices params)) (device_count s) \<and>
    device_count s' = device_count s + n \<and> ledger_ok s' \<and> (plant_unique s \<longrightarrow> plant_unique s') \<and>
    (\<exists>ds. lg_devices s' = lg_devices s @ ds \<and> (\<forall>d \<in> set ds. fab_device N vuln s' d))"
proof -
  obtain s' n r' where f: "fabricate N below coin s vuln params target r = ret (s', n, r')" "grown_by N vuln s n s'"
    "min target (ap_max_devices params) \<le> device_count s' \<or> full N s'"
    "device_count s' \<le> max (min target (ap_max_devices params)) (device_count s)"
    by (rule fabricate_ok [OF assms])
  moreover have "ledger_ok s'" "plant_unique s \<longrightarrow> plant_unique s'" "device_count s' = device_count s + n"
    using f(2) assms(2) grown_by_fixed(5) [OF f(2)] by (auto simp: grown_by_def)
  moreover have "\<exists>ds. lg_devices s' = lg_devices s @ ds \<and> (\<forall>d \<in> set ds. fab_device N vuln s' d)"
    using f(2) by (auto simp: grown_by_def)
  ultimately show ?thesis by blast
qed

theorem fabricate_fills_witness:
  "\<exists>s' n r'. fabricate text_net count_below (\<lambda>r. (False, r)) sample_plant [sample_profile]
     \<lparr>ap_max_subnets = 4, ap_max_devices = 40, ap_default_prefix = 24\<rparr> 25 1 = ret (s', n, r') \<and> device_count s' = 2 + n"
proof -
  have "ledger_ok sample_plant" "macs_room sample_plant" "device_count sample_plant = 2"
    by (simp_all add: ledger_ok_def sample_plant_def ledger_new_def macs_room_def capture_host_count_def device_count_def
        MAX_SUBNETS_def MAX_DEVICES_def)
  with fabricate_fills [OF sample_world this(1,2)] show ?thesis by metis
qed

text \<open>
  C21: the plan of the generic path is well formed, whatever the seed and the configuration: the caps hold, addresses
  and MACs are unique, every device has a slot of its zone, at most the wanted number was fabricated, and every
  zone whose CIDR is read back has an asset at its gateway unless the ledger is full.
\<close>

theorem plan_well_formed:
  assumes "fab_world N below vuln"
  shows "\<exists>s n. plan_generic N below coin seed_from vuln oui cfg seed now = ret (Some (s, n)) \<and>
    ledger_ok s \<and> plant_unique s \<and> in_slots N (lg_devices s) \<and> n \<le> device_count s \<and>
    n \<le> min (pc_devices cfg) (ap_max_devices (pc_params cfg)) \<and>
    (\<forall>z \<in> set (lg_subnets s). no_parse N (sr_cidr z) \<noteq> None \<longrightarrow>
       firewall_addr N (sr_cidr z) \<in> set (used_ips s) \<or> MAX_DEVICES \<le> device_count s)"
  using plan_ok [OF assms] by metis

theorem plan_well_formed_witness:
  "\<exists>s n. plan_generic text_net count_below (\<lambda>r. (False, r)) id [sample_profile] (oui_parse [])
     \<lparr>pc_params = \<lparr>ap_max_subnets = 16, ap_max_devices = 500, ap_default_prefix = 24\<rparr>, pc_devices = 60,
       pc_dns_enabled = True, pc_dns_domains = [''plant.example''], pc_max_assets = None\<rparr> 7 0 = ret (Some (s, n)) \<and>
     plant_unique s \<and> n \<le> 60"
  using plan_well_formed [OF sample_world, of "\<lambda>r. (False, r)" id "oui_parse []"
      "\<lparr>pc_params = \<lparr>ap_max_subnets = 16, ap_max_devices = 500, ap_default_prefix = 24\<rparr>, pc_devices = 60,
       pc_dns_enabled = True, pc_dns_domains = [''plant.example''], pc_max_assets = None\<rparr>" 7 0]
  by auto

text \<open>
  C22: host names are not unique.  The devices of a zone and its bill of materials are numbered separately, and a
  switch's name holds neither vendor nor address.  If the device of a zone with the lowest address, whatever the order in
  which the devices were made, is a switch, and its address and that of the bill of materials' switch are named ones, the two
  get the same host name.
\<close>

theorem switch_names_collide:
  assumes "zone_order cidr ds = i # is" and "asset_type_of (ds ! i) = Switch"
    and "is_named seed (ip_u32 (dr_ip (ds ! i)))" and "is_named seed ip"
    and "place_bom vuln oui seed (zi, cidr, lvl, domain) Switch 0 ip st = ret st'"
    and "device_count (bs_session st) < MAX_DEVICES"
  shows "\<exists>d. lg_devices (bs_session st') = lg_devices (bs_session st) @ [d] \<and> dr_hostname d \<noteq> None \<and>
    dr_hostname d = dr_hostname (name_zone_devices seed (zi, cidr, lvl, domain) ds ! i)"
proof -
  obtain d v where d: "lg_devices (bs_session st') = lg_devices (bs_session st) @ [d]"
    "dr_hostname d = Some (hostname_for (Some v) Switch zi 0 domain)"
    by (rule place_bom_names [OF assms(5,4,6)])
  have "dr_hostname (name_zone_devices seed (zi, cidr, lvl, domain) ds ! i) =
      Some (hostname_for (Some (dr_vendor (ds ! i))) Switch zi 0 domain)"
    using name_zone_devices_first [OF assms(1,3), of zi lvl domain] assms(2) by simp
  then show ?thesis using d hostname_for_switch by (intro exI [of _ d]) simp
qed

theorem switch_names_collide_witness:
  "\<exists>st' d. place_bom [] (oui_parse []) 1 (0, ''10.20.10.0/24'', 2, None) Switch 0 0x0a140a03
       \<lparr>bs_session = ledger_new 1 0, bs_used = {}, bs_used_macs = {}\<rparr> = ret st' \<and>
     lg_devices (bs_session st') = [d] \<and>
     dr_hostname d = dr_hostname (name_zone_devices 1 (0, ''10.20.10.0/24'', 2, None)
       [sample_device ''10.20.10.2'' ''00:0e:8c:11:22:33'' ''Switch''] ! 0)"
proof -
  let ?ds = "[sample_device ''10.20.10.2'' ''00:0e:8c:11:22:33'' ''Switch'']"
  let ?st = "\<lparr>bs_session = ledger_new 1 0, bs_used = {}, bs_used_macs = {}\<rparr>"
  have ip: "ip_u32 (dr_ip (?ds ! 0)) = 0x0a140a02"
  proof -
    have "ipv4_from_str ''10.20.10.2'' = Some 0x0a140a02" by code_simp
    then show ?thesis by (simp add: ip_u32_def sample_device_def)
  qed
  have named: "is_named 1 0x0a140a02" "is_named 1 0x0a140a03" by code_simp+
  have zo: "zone_order ''10.20.10.0/24'' ?ds = 0 # []" by (simp add: zone_order_def sample_device_def)
  have sw: "asset_type_of (?ds ! 0) = Switch" by (simp add: asset_type_of_def sample_device_def)
  have "salt_search (bom_mac_salted (oui_parse []) (fst (bom_identity [] 1 Switch 0x0a140a03)) 1 0x0a140a03) {} 0 \<noteq> panic"
    by (subst salt_search.simps) simp
  then have "\<exists>st'. place_bom [] (oui_parse []) 1 (0, ''10.20.10.0/24'', 2, None) Switch 0 0x0a140a03 ?st = ret st'"
    by (intro place_bom_returns) simp
  then obtain st' where p: "place_bom [] (oui_parse []) 1 (0, ''10.20.10.0/24'', 2, None) Switch 0 0x0a140a03 ?st = ret st'" ..
  have "device_count (bs_session ?st) < MAX_DEVICES" by (simp add: device_count_def ledger_new_def MAX_DEVICES_def)
  from switch_names_collide [OF zo sw _ named(2) p this] named(1) ip p show ?thesis
    by (auto simp: ledger_new_def)
qed

section \<open>The feed\<close>

text \<open>
  C23: what a passive sensor learns from an identity burst.  The burst is built without a panic.  Every asset of the
  ledger whose zone has a station is bound by an ARP reply of its own MAC.  Every binding the burst states is that of an
  asset of the ledger, or binds the derived MAC of a zone's station, or of the address one below it, and then no asset of
  that zone has the address; and the resolutions come before every other frame.
\<close>

theorem burst_binds:
  assumes "bc_device_identity cfg"
  shows "\<exists>arps rest. build_assertions N cfg s vuln run nonce = ret (arps @ rest) \<and>
    (\<forall>f \<in> set arps. arp_shape f 14) \<and> (\<forall>f \<in> set rest. \<not> arp_shape f 14) \<and>
    (\<forall>(cidr, x) \<in> set (ledger_assets s). station_addr N cidr \<noteq> 0 \<longrightarrow> (\<exists>f \<in> set arps. is_at f = Some (nd_mac x, nd_ip x))) \<and>
    (\<forall>f \<in> set (arps @ rest). \<forall>m a. is_at f = Some (m, a) \<longrightarrow>
       (\<exists>cidr. (cidr, \<lparr>nd_ip = a, nd_mac = m\<rparr>) \<in> set (ledger_assets s)) \<or>
       m = stable_mac (lg_seed s) a \<and> (\<exists>cidr \<in> fst ` set (ledger_assets s).
         a \<in> {station_addr N cidr, saturating_sub32 (station_addr N cidr) 1} \<and>
         (\<forall>y. (cidr, y) \<in> set (ledger_assets s) \<longrightarrow> nd_ip y \<noteq> a)))"
proof -
  let ?arps = "concat (map edge_frames (arp_edges N s (lg_seed s)))"
  obtain rest where b: "build_assertions N cfg s vuln run nonce = ret (?arps @ rest)" "\<forall>f \<in> set rest. silent f"
    by (rule burst_ok [OF assms])
  then have quiet: "\<forall>f \<in> set rest. \<not> arp_shape f 14" by (simp add: silent_def)
  have "\<exists>f \<in> set ?arps. is_at f = Some (nd_mac x, nd_ip x)" if "(cidr, x) \<in> set (ledger_assets s)" "station_addr N cidr \<noteq> 0" for cidr x
    using arps_bind [OF that] by blast
  then have bind: "\<forall>(cidr, x) \<in> set (ledger_assets s). station_addr N cidr \<noteq> 0 \<longrightarrow> (\<exists>f \<in> set ?arps. is_at f = Some (nd_mac x, nd_ip x))"
    by blast
  have "is_at f = None" if "f \<in> set rest" for f using quiet that by (simp add: is_at_def)
  then have "bound_node N s (lg_seed s) \<lparr>nd_ip = a, nd_mac = m\<rparr>" if "f \<in> set (?arps @ rest)" "is_at f = Some (m, a)" for f m a
    using that arps_read(2) [of f N s "lg_seed s" m a] by fastforce
  then have truth: "\<forall>f \<in> set (?arps @ rest). \<forall>m a. is_at f = Some (m, a) \<longrightarrow>
       (\<exists>cidr. (cidr, \<lparr>nd_ip = a, nd_mac = m\<rparr>) \<in> set (ledger_assets s)) \<or>
       m = stable_mac (lg_seed s) a \<and> (\<exists>cidr \<in> fst ` set (ledger_assets s).
         a \<in> {station_addr N cidr, saturating_sub32 (station_addr N cidr) 1} \<and>
         (\<forall>y. (cidr, y) \<in> set (ledger_assets s) \<longrightarrow> nd_ip y \<noteq> a))"
    unfolding bound_node_def derived_node_def node.simps by blast
  have "\<forall>f \<in> set ?arps. arp_shape f 14" using arps_read(1) by blast
  with b(1) quiet bind truth show ?thesis by (intro exI [of _ ?arps] exI [of _ rest] conjI)
qed

theorem burst_binds_witness:
  "\<exists>fs. build_assertions plant_net sample_burst sample_plant [sample_profile] 8 3 = ret fs \<and>
     (\<exists>f \<in> set fs. is_at f = Some (parse_mac ''00:0e:8c:11:22:33'', 0x0a140a0b))"
proof -
  let ?x = "\<lparr>nd_ip = 0x0a140a0b, nd_mac = parse_mac ''00:0e:8c:11:22:33''\<rparr>"
  have x: "(''10.20.10.0/24'', ?x) \<in> set (ledger_assets sample_plant)"
    by (simp add: ledger_assets_def sample_plant_def sample_device_def sample_addresses List.map_filter_def)
  have st: "station_addr plant_net ''10.20.10.0/24'' \<noteq> 0" by (simp add: plant_station)
  have "bc_device_identity sample_burst" by (simp add: sample_burst_def)
  from burst_binds [OF this, of plant_net sample_plant "[sample_profile]" 8 3] obtain arps rest where
    b: "build_assertions plant_net sample_burst sample_plant [sample_profile] 8 3 = ret (arps @ rest)"
    "\<forall>(cidr, x) \<in> set (ledger_assets sample_plant). station_addr plant_net cidr \<noteq> 0 \<longrightarrow> (\<exists>f \<in> set arps. is_at f = Some (nd_mac x, nd_ip x))"
    by blast
  from bspec [OF b(2) x] st have "\<exists>f \<in> set arps. is_at f = Some (nd_mac ?x, nd_ip ?x)" by simp
  with b(1) show ?thesis by auto
qed

text \<open>
  C27: the daemon does not die and stays within its limits.  From a start with a well-formed ledger, or none, no
  sequence of ticks and offered captures panics, whatever the clock and the outcome of the writes.  The ledger keeps its
  caps, addresses and MACs stay unique, no frame a tick writes exceeds the link's 1514 bytes, and a promoted capture has the
  frame sizes of the one offered.
\<close>

theorem feed_runs:
  assumes "gen_ok (wd_gen w)" and "fab_world (wd_net w) (wd_below w) vuln"
    and "red (wd_gen w) seed_from cfg vuln oui loaded seed now target save_ok = Inr sim"
    and "inputs_well_formed loaded seed target" and "\<forall>ev \<in> set evs. event_ok ev"
  shows "\<exists>outs sim'. sim_run w evs sim = ret (outs, sim') \<and> ledger_ok (si_ledger sim') \<and> plant_unique (si_ledger sim') \<and>
    list_all2 fits_mtu evs outs"
proof -
  note r = red_ok [OF assms(1,3,4)]
  have "sim_world w sim" using assms(1,2) r(2) by (simp add: sim_world_def)
  from sim_run_ok [OF this r(1) assms(5)] show ?thesis unfolding sim_ok_def by blast
qed

theorem feed_runs_witness:
  "\<exists>sim outs sim'. si_ledger sim = sealed_plant \<and>
     sim_run sample_daemon [Tick 0 100 True True, Tick 1 110 True True, Offer None 120 True True, Tick 2 130 False True] sim = ret (outs, sim') \<and>
     length outs = 4"
proof -
  obtain sim where r: "red (wd_gen sample_daemon) id sample_cfg [sample_profile] (oui_parse []) (Inr (Some sealed_plant)) 1 0 None True = Inr sim"
    "si_ledger sim = sealed_plant" by (rule sample_red)
  have "\<forall>ev \<in> set [Tick 0 100 True True, Tick 1 110 True True, Offer None 120 True True, Tick 2 130 False True]. event_ok ev" by simp
  from feed_runs [OF sample_daemon_ok r(1) sample_inputs this] obtain outs sim' where
    "sim_run sample_daemon [Tick 0 100 True True, Tick 1 110 True True, Offer None 120 True True, Tick 2 130 False True] sim = ret (outs, sim')"
    "list_all2 fits_mtu [Tick 0 100 True True, Tick 1 110 True True, Offer None 120 True True, Tick 2 130 False True] outs" by blast
  moreover from this(2) have "length outs = 4" by (auto dest: list_all2_lengthD)
  ultimately show ?thesis using r(2) by blast
qed

text \<open>
  Every burst is a fresh scan.  The bursts of a run count their nonces up from zero, their times are at least the
  configured interval apart whatever the clock does, and as long as fewer than 16384 bursts lie between two of them a
  device is polled from different client ports, all in the dynamic range.
\<close>

theorem bursts_fresh:
  assumes "gen_ok (wd_gen w)" and "fab_world (wd_net w) (wd_below w) vuln"
    and "red (wd_gen w) seed_from cfg vuln oui loaded seed now target save_ok = Inr sim"
    and "inputs_well_formed loaded seed target" and "\<forall>ev \<in> set evs. event_ok ev"
  shows "map fst (bursts w evs sim) = map word_of_nat [0..<length (bursts w evs sim)] \<and>
    sorted_wrt (spaced (si_announce_interval sim)) (map snd (bursts w evs sim)) \<and>
    (\<forall>i j a. i < j \<longrightarrow> j < length (bursts w evs sim) \<longrightarrow> j - i < 16384 \<longrightarrow>
       ephemeral_port (fst (bursts w evs sim ! i)) a \<noteq> ephemeral_port (fst (bursts w evs sim ! j)) a) \<and>
    (\<forall>b \<in> set (bursts w evs sim). \<forall>a. 49152 \<le> ephemeral_port (fst b) a)"
proof -
  note r = red_ok [OF assms(1,3,4)]
  have w: "sim_world w sim" using assms(1,2) r(2) by (simp add: sim_world_def)
  let ?bs = "bursts w evs sim"
  have n: "map fst ?bs = map word_of_nat [0..<length ?bs]" "sorted_wrt (spaced (si_announce_interval sim)) (map snd ?bs)"
    using bursts_ok [OF w r(1) assms(5)] r(4) by simp_all
  have "ephemeral_port (fst (?bs ! i)) a \<noteq> ephemeral_port (fst (?bs ! j)) a"
    if "i < j" "j < length ?bs" "j - i < 16384" for i j a
  proof -
    have "fst (?bs ! i) = word_of_nat i" "fst (?bs ! j) = word_of_nat j"
      using arg_cong [OF n(1), of "\<lambda>xs. xs ! i"] arg_cong [OF n(1), of "\<lambda>xs. xs ! j"] that by simp_all
    then show ?thesis using that by (simp add: ephemeral_port_bursts nonces_apart)
  qed
  with n show ?thesis using ephemeral_port_range by blast
qed

theorem bursts_fresh_witness:
  "\<exists>sim. si_ledger sim = sealed_plant \<and>
     sorted_wrt (spaced 25) (map snd (bursts sample_daemon [Tick 0 100 True True, Tick 1 110 True True, Tick 2 130 True True] sim))"
proof -
  obtain sim where r: "red (wd_gen sample_daemon) id sample_cfg [sample_profile] (oui_parse []) (Inr (Some sealed_plant)) 1 0 None True = Inr sim"
    "si_ledger sim = sealed_plant" "si_announce_interval sim = 25" by (rule sample_red)
  have e: "\<forall>ev \<in> set [Tick 0 100 True True, Tick 1 110 True True, Tick 2 130 True True]. event_ok ev" by simp
  from bursts_fresh [OF sample_daemon_ok r(1) sample_inputs e] r(2) show ?thesis unfolding r(3) by blast
qed

section \<open>Scenarios\<close>

text \<open>
  C29: a playbook that \<open>validate_targets\<close> accepts has no silent event.  On a plant with a device, whose device
  addresses parse, every event of every phase renders at least two frames, whatever the nonce, and never panics.
\<close>

theorem scenario_never_silent:
  assumes "validate_targets e s = Inr ()" and "lg_devices s \<noteq> []"
    and "\<forall>d \<in> set (lg_devices s). ipv4_from_str (dr_ip d) \<noteq> None"
    and "ph \<in> set (en_playbook e)" and "ev \<in> set (pa_events ph)"
  shows "\<exists>fs. render_event N crc e s vuln ev nonce = ret fs \<and> 2 \<le> length fs"
  using render_event_makes [of s ev N crc e vuln nonce] validated_events_emit [OF assms] by (auto simp: makes_def)

theorem scenario_never_silent_witness:
  "\<exists>fs. render_event plant_net (\<lambda>_. 0) sample_engine sample_plant [] (sample_event S7Stop) 7 = ret fs \<and> 2 \<le> length fs"
  using scenario_never_silent [OF sample_valid sample_devices, of "sample_phases ! 1" "sample_event S7Stop"]
  by (simp add: sample_engine_def sample_phases_def)

text \<open>
  C30: from its start, a phase plays out.  Within its bound, and not before its dwell, a burst comes after which
  the engine has advanced; no burst exceeds the frame cap, the engine stays in the phase until then, and the
  bursts together are exactly the frames of the phase's events, each event rendered once, in order.
\<close>

theorem scenario_phase_plays_out:
  assumes "at_phase_start e" and "en_playbook e ! tm_phase_idx e = ph"
    and "phase_bound s (en_max_frames_per_burst e) ph \<le> length nonces"
    and "phase_bound s (en_max_frames_per_burst e) ph < 2 ^ 64"
  shows "\<exists>k bs ms. dwell_of ph \<le> k \<and> k \<le> phase_bound s (en_max_frames_per_burst e) ph \<and>
    run_bursts (phase_frames N crc s vuln) (take k nonces) e = ret (bs, advance e) \<and>
    (\<forall>b \<in> set bs. length b \<le> en_max_frames_per_burst e) \<and>
    length ms = length (pa_events ph) \<and> concat bs = played (render_event N crc e s vuln) (pa_events ph) ms \<and>
    (\<forall>i < k. \<exists>bs' e'. run_bursts (phase_frames N crc s vuln) (take i nonces) e = ret (bs', e') \<and>
       tm_phase_idx e' = tm_phase_idx e)"
proof -
  obtain k bs where k: "k \<le> phase_bound s (en_max_frames_per_burst e) ph"
    "played_out N crc s vuln e ph (take k nonces) bs" "\<forall>i < k. \<exists>bs. running N crc s vuln e ph (take i nonces) bs"
    using phase_plays_out [OF assms] by blast
  moreover have "\<exists>bs' e'. run_bursts (phase_frames N crc s vuln) (take i nonces) e = ret (bs', e') \<and>
      tm_phase_idx e' = tm_phase_idx e" if "i < k" for i
    using k(3) that unfolding running_def by fastforce
  moreover have "length (take k nonces) = k" using k(1) assms(3) by simp
  ultimately show ?thesis unfolding played_out_def by metis
qed

theorem scenario_phase_plays_out_witness:
  "\<exists>k bs ms. 2 \<le> k \<and> k \<le> 3 \<and>
    run_bursts (phase_frames plant_net (\<lambda>_. 0) sample_plant []) (take k [0, 1, 2]) sample_engine = ret (bs, advance sample_engine) \<and>
    (\<forall>b \<in> set bs. length b \<le> 5) \<and>
    concat bs = played (render_event plant_net (\<lambda>_. 0) sample_engine sample_plant []) [sample_event S7Read] ms"
proof -
  have "en_playbook sample_engine ! tm_phase_idx sample_engine = sample_phases ! 0"
    "en_max_frames_per_burst sample_engine = 5" "dwell_of (sample_phases ! 0) = 2"
    "pa_events (sample_phases ! 0) = [sample_event S7Read]"
    by (simp_all add: sample_engine_def sample_phases_def dwell_of_def)
  then show ?thesis
    using scenario_phase_plays_out [OF sample_start(1), of "sample_phases ! 0" sample_plant "[0, 1, 2]" plant_net "\<lambda>_. 0" "[]"]
      sample_bounds by (auto cong: conj_cong)
qed

text \<open>
  C31: every phase of a loaded playbook is reached, at its start, within the sum of the bounds of the phases
  before it, whatever nonces the bursts are given.
\<close>

theorem scenario_campaign_reaches:
  assumes "scenario_load target parsed seed = Inr e" and "i < length (en_playbook e)"
    and "\<And>j. j < length (en_playbook e) \<Longrightarrow> phase_bound s (en_max_frames_per_burst e) (en_playbook e ! j) < 2 ^ 64"
    and "(\<Sum>j<i. phase_bound s (en_max_frames_per_burst e) (en_playbook e ! j)) \<le> length nonces"
  shows "\<exists>k bs. k \<le> (\<Sum>j<i. phase_bound s (en_max_frames_per_burst e) (en_playbook e ! j)) \<and>
    run_bursts (phase_frames N crc s vuln) (take k nonces) e = ret (bs, e\<lparr>tm_phase_idx := i\<rparr>)"
  using campaign_reaches [OF scenario_load_start(1,2) [OF assms(1)] assms(3) assms(2,4)] by blast

theorem scenario_campaign_reaches_witness:
  "\<exists>k bs. k \<le> 3 \<and> run_bursts (phase_frames plant_net (\<lambda>_. 0) sample_plant []) (take k [0, 1, 2]) sample_engine =
     ret (bs, sample_engine\<lparr>tm_phase_idx := 1\<rparr>)"
proof -
  have e: "en_playbook sample_engine = sample_phases" "en_max_frames_per_burst sample_engine = 5" "length sample_phases = 2"
    by (simp_all add: sample_engine_def sample_phases_def)
  have "phase_bound sample_plant 5 (sample_phases ! j) < 2 ^ 64" if "j < 2" for j
    using that sample_bounds by (auto simp: less_2_cases_iff)
  then show ?thesis
    using scenario_campaign_reaches [OF sample_load, of 1 sample_plant "[0, 1, 2]" plant_net "\<lambda>_. 0" "[]"] sample_bounds
    by (simp add: e)
qed

section \<open>External threats\<close>

text \<open>
  C32: a promotion never panics.  It leaves the capture alone exactly if no IPv4 frame has a private sender or no configured
  range has a public host.  Otherwise it moves one private sender of the capture to a public address of a range.  Every
  frame stays at its place with its time stamp: in those of the host, the host's addresses become the external one, the MAC
  follows where it is the sender, both other addresses stay, the other bytes but the checksums stay, and the checksums hold;
  every other frame is untouched.  Afterwards no IPv4 frame has the host as sender or receiver.  The new MAC has the
  prefix of a sender of the capture that the vendor table does not know, or the fallback one if there is none.
\<close>

theorem threat_promotion:
  assumes "below_ok below" and "length (cap_packets cap) < 2 ^ 64"
  shows "\<exists>cap' rec r'. promote_host N below byte cap cidrs oui now r = ret (cap', rec, r') \<and>
    (rec = None \<longleftrightarrow> nothing_to_promote N cidrs (cap_packets cap)) \<and> (rec = None \<longrightarrow> cap' = cap) \<and>
    (\<forall>p. rec = Some p \<longrightarrow> (\<exists>host ext m.
       p = \<lparr>ph_original_ip = show_ipv4 host, ph_external_ip = show_ipv4 ext, ph_mac = fmt_mac m, ph_promoted_unix = now\<rparr> \<and>
       (\<exists>q \<in> set (cap_packets cap). sender_of (pk_data q) = Some host) \<and> is_private host \<and> is_public_unicast ext \<and>
       (\<exists>c \<in> set cidrs. \<exists>n. no_parse N c = Some n \<and> ext \<in> set (no_hosts N n)) \<and>
       length m = 6 \<and> take 3 m \<in> desktop_prefixes oui (cap_packets cap) \<and>
       cap' = cap\<lparr>cap_packets := cap_packets cap'\<rparr> \<and>
       list_all2 (\<lambda>q q'. q' = q\<lparr>pk_data := pk_data q'\<rparr> \<and> promoted_frame host ext m (pk_data q) (pk_data q'))
         (cap_packets cap) (cap_packets cap') \<and>
       (\<forall>q \<in> set (cap_packets cap'). \<forall>l. parse_layout (pk_data q) = ret (Some l) \<and> fl_l3_kind l = L3_Ipv4 \<longrightarrow>
          word32_at (pk_data q) (fl_l3 l + 12) \<noteq> host \<and> word32_at (pk_data q) (fl_l3 l + 16) \<noteq> host)))"
proof -
  obtain cap' rec r' where run: "promote_host N below byte cap cidrs oui now r = ret (cap', rec, r')"
    "case rec of None \<Rightarrow> cap' = cap \<and> nothing_to_promote N cidrs (cap_packets cap) | Some p \<Rightarrow> promotion N oui cidrs now cap cap' p"
    using promote_host_ok [OF assms] by blast
  show ?thesis
  proof (cases rec)
    case None
    with run show ?thesis by (intro exI [of _ cap'] exI [of _ rec] exI [of _ r']) simp
  next
    case (Some p)
    then obtain host ext m where p:
      "p = \<lparr>ph_original_ip = show_ipv4 host, ph_external_ip = show_ipv4 ext, ph_mac = fmt_mac m, ph_promoted_unix = now\<rparr>"
      "\<exists>q \<in> set (cap_packets cap). sender_of (pk_data q) = Some host" "is_private host" "is_public_unicast ext"
      "\<exists>c \<in> set cidrs. \<exists>n. no_parse N c = Some n \<and> ext \<in> set (no_hosts N n)"
      "length m = 6" "take 3 m \<in> desktop_prefixes oui (cap_packets cap)" "cap' = cap\<lparr>cap_packets := cap_packets cap'\<rparr>"
      "promoted_packets host ext m (cap_packets cap) (cap_packets cap')"
      using run(2) unfolding promotion_def Some option.case by blast
    have something: "\<not> nothing_to_promote N cidrs (cap_packets cap)"
      using p(2-5) unfolding nothing_to_promote_def by blast
    have moved: "list_all2 (\<lambda>q q'. q' = q\<lparr>pk_data := pk_data q'\<rparr> \<and> promoted_frame host ext m (pk_data q) (pk_data q'))
        (cap_packets cap) (cap_packets cap')"
      using p(9) unfolding promoted_packets_def by (rule list_all2_mono) (use promote_packet_spec [OF p(6)] in blast)
    have gone: "word32_at (pk_data q) (fl_l3 l + 12) \<noteq> host \<and> word32_at (pk_data q) (fl_l3 l + 16) \<noteq> host"
      if q: "q \<in> set (cap_packets cap')" "parse_layout (pk_data q) = ret (Some l)" "fl_l3_kind l = L3_Ipv4" for q l
    proof -
      obtain p0 :: packet where "promote_packet host ext m (pk_data p0) = ret (pk_data q)"
        using promoted_packets_in [OF p(9) q(1)] by blast
      then show ?thesis using promote_packet_gone [OF _ p(6) _ q(2,3)] private_not_public p(3,4) by metis
    qed
    have "\<exists>host ext m.
       p = \<lparr>ph_original_ip = show_ipv4 host, ph_external_ip = show_ipv4 ext, ph_mac = fmt_mac m, ph_promoted_unix = now\<rparr> \<and>
       (\<exists>q \<in> set (cap_packets cap). sender_of (pk_data q) = Some host) \<and> is_private host \<and> is_public_unicast ext \<and>
       (\<exists>c \<in> set cidrs. \<exists>n. no_parse N c = Some n \<and> ext \<in> set (no_hosts N n)) \<and>
       length m = 6 \<and> take 3 m \<in> desktop_prefixes oui (cap_packets cap) \<and>
       cap' = cap\<lparr>cap_packets := cap_packets cap'\<rparr> \<and>
       list_all2 (\<lambda>q q'. q' = q\<lparr>pk_data := pk_data q'\<rparr> \<and> promoted_frame host ext m (pk_data q) (pk_data q'))
         (cap_packets cap) (cap_packets cap') \<and>
       (\<forall>q \<in> set (cap_packets cap'). \<forall>l. parse_layout (pk_data q) = ret (Some l) \<and> fl_l3_kind l = L3_Ipv4 \<longrightarrow>
          word32_at (pk_data q) (fl_l3 l + 12) \<noteq> host \<and> word32_at (pk_data q) (fl_l3 l + 16) \<noteq> host)"
      by (intro exI [of _ host] exI [of _ ext] exI [of _ m] conjI p(1-8) moved ballI allI impI gone; (elim conjE)?; assumption)
    with run(1) something show ?thesis unfolding Some by (intro exI [of _ cap'] exI [of _ "Some p"] exI [of _ r']) simp
  qed
qed

theorem threat_promotion_witness:
  "\<exists>cap' p r' ext. promote_host plant_net count_below (\<lambda>r. (0, r)) sample_capture [''203.0.113.0/24''] oui_empty 9 (0 :: u64) =
     ret (cap', Some p, r') \<and> is_public_unicast ext \<and> length (cap_packets cap') = 2 \<and>
     word32_at (pk_data (cap_packets cap' ! 0)) 26 = ext \<and> word32_at (pk_data (cap_packets cap' ! 0)) 30 = 0xc0a80114 \<and>
     cap_packets cap' ! 1 = sample_packet arp_frame"
proof -
  have len: "length (cap_packets sample_capture) < 2 ^ 64" by (simp add: sample_capture_def)
  have packets: "cap_packets sample_capture = [sample_packet modbus_frame, sample_packet arp_frame]" by (simp add: sample_capture_def)
  have ends: "word32_at modbus_frame 26 = 0xc0a8010a" "word32_at modbus_frame 30 = 0xc0a80114" by code_simp+
  have snd: "sender_of modbus_frame = Some 0xc0a8010a" "sender_of arp_frame = None"
    using ends by (simp_all add: sender_of_def modbus_parse modbus_layout_def arp_parse arp_layout_def)
  have prv: "is_private 0xc0a8010a" by code_simp
  obtain cap' rec r' where run: "promote_host plant_net count_below (\<lambda>r. (0, r)) sample_capture [''203.0.113.0/24''] oui_empty 9 (0 :: u64) =
      ret (cap', rec, r')"
    "rec = None \<longleftrightarrow> nothing_to_promote plant_net [''203.0.113.0/24''] (cap_packets sample_capture)"
    "\<And>p. rec = Some p \<Longrightarrow> \<exists>host ext m. (\<exists>q \<in> set (cap_packets sample_capture). sender_of (pk_data q) = Some host) \<and>
       is_public_unicast ext \<and>
       list_all2 (\<lambda>q q'. q' = q\<lparr>pk_data := pk_data q'\<rparr> \<and> promoted_frame host ext m (pk_data q) (pk_data q'))
         (cap_packets sample_capture) (cap_packets cap')"
    using threat_promotion [OF count_below_ok len, of plant_net "\<lambda>r. (0, r)" "[''203.0.113.0/24'']" oui_empty 9 0]
    by (elim exE conjE) (rule that, assumption, assumption, blast)
  have net: "no_parse plant_net ''203.0.113.0/24'' = Some (0xcb007100, 24)" by (simp add: plant_net_def)
  have prefix: "no_prefix_len plant_net (0xcb007100, 24) = 24" "no_network plant_net (0xcb007100, 24) = 0xcb007100"
    by (simp_all add: plant_net_def pair_net_def cap32_def Let_def mask24)
  have "0xcb007100 OR 1 \<in> set (no_hosts plant_net (0xcb007100, 24))"
    using first_host(1) [OF plant_net_ok, of "(0xcb007100, 24)"] unfolding prefix by simp
  moreover have "is_public_unicast (0xcb007100 OR 1)" by code_simp
  ultimately have "\<not> nothing_to_promote plant_net [''203.0.113.0/24''] (cap_packets sample_capture)"
    using net snd prv by (auto simp: nothing_to_promote_def packets sample_packet_def)
  then obtain p where p: "rec = Some p" using run(2) by (cases rec) simp_all
  from run(3) [OF this] obtain host ext m where h:
    "\<exists>q \<in> set (cap_packets sample_capture). sender_of (pk_data q) = Some host" "is_public_unicast ext"
    "list_all2 (\<lambda>q q'. q' = q\<lparr>pk_data := pk_data q'\<rparr> \<and> promoted_frame host ext m (pk_data q) (pk_data q'))
       (cap_packets sample_capture) (cap_packets cap')" by blast
  have host: "host = 0xc0a8010a" using h(1) snd by (auto simp: packets sample_packet_def)
  obtain a b where ab: "cap_packets cap' = [a, b]" "promoted_frame host ext m modbus_frame (pk_data a)"
    "b = (sample_packet arp_frame)\<lparr>pk_data := pk_data b\<rparr>" "promoted_frame host ext m arp_frame (pk_data b)"
    using h(3) by (auto simp: packets list_all2_Cons1 sample_packet_def)
  have "word32_at (pk_data a) 26 = ext \<and> word32_at (pk_data a) 30 = 0xc0a80114"
    using ab(2) ends by (simp add: promoted_frame_def modbus_parse modbus_layout_def host)
  moreover have "pk_data b = arp_frame" using ab(4) by (simp add: promoted_frame_def arp_parse arp_layout_def Let_def)
  ultimately show ?thesis
    using run(1) p ab(1,3) h(2)
    by (intro exI [of _ cap'] exI [of _ p] exI [of _ r'] exI [of _ ext]) (simp add: sample_packet_def)
qed

text \<open>
  Promotions are at least a day apart.  For any configured interval, any saved time of the last promotion
  and any clock readings below the last day of a 64-bit count, in any order, the times at which \<open>maybe_promote\<close>
  attempts a promotion are spaced by at least 86400 seconds, also from the saved one.
\<close>

theorem threat_floor:
  assumes "gen_ok gen" and "\<forall>t \<in> set ts. unat t + 86400 < 2 ^ 64"
    and "unat (case last_threat of Some t \<Rightarrow> t | None \<Rightarrow> now) + 86400 < 2 ^ 64"
  shows "sorted_wrt (\<lambda>a b. unat a + 86400 \<le> unat b)
    ((case last_threat of Some t \<Rightarrow> t | None \<Rightarrow> now) #
       attempts gen ts (threat_new gen min_interval max_interval last_threat now r))"
proof -
  let ?t = "case last_threat of Some t \<Rightarrow> t | None \<Rightarrow> now"
  let ?s = "threat_new gen min_interval max_interval last_threat now r"
  have s: "sched_ok (fst ?s)" "unat ?t + 86400 \<le> unat (sd_next_due (fst ?s))"
    using threat_reschedule_due [OF assms(1) _ assms(3)] sched_new_ok by (simp_all add: threat_new_def Let_def)
  from attempts_spaced [OF assms(1) s(1) assms(2)] s(2) show ?thesis by fastforce
qed

theorem threat_floor_witness:
  "sorted_wrt (\<lambda>a b. unat a + 86400 \<le> unat b) (5 # attempts count_gen [5, 90000, 90001, 180000] (threat_new count_gen 60 120 (Some 5) 0 (0 :: u64)))"
  using threat_floor [OF count_gen_ok, where ts = "[5, 90000, 90001, 180000]" and last_threat = "Some 5" and now = 0
    and min_interval = 60 and max_interval = 120 and r = 0] by simp

end
